(* ===== verification/Prelude.thy ===== *)
theory Prelude
  imports Main "HOL-Library.Monad_Syntax" "HOL-Library.Multiset"
begin

text \<open>
  Shared vocabulary of the development: the named theorem collections the component theories
  fill, and the generic facts on lists, options and indices they share.

  A computation of the modelled C++ code that may run into undefined behaviour (an index out of
  range, a failed \<open>assert\<close>) is a value of an option type: \<open>None\<close> is the undefined outcome,
  \<open>Some\<close> the result.  Such computations are composed with the \<open>do\<close> notation of
  \<^theory_text>\<open>HOL-Library.Monad_Syntax\<close> and pass their state explicitly.
\<close>

named_theorems lit_simps \<open>equations of the literal encoding\<close>
named_theorems wf_intros \<open>preservation of component invariants\<close>
named_theorems gate_rules \<open>specifications of the circuit gates\<close>

subsection \<open>Options as results\<close>

definition check :: "bool \<Rightarrow> unit option" where
  "check b = (if b then Some () else None)"

lemma check_simps [simp]:
  "check True = Some ()" "check False = None"
  by (simp_all add: check_def)

lemma check_eq_Some [simp]: "check b = Some u \<longleftrightarrow> b"
  by (simp add: check_def)

definition get_at :: "'a list \<Rightarrow> nat \<Rightarrow> 'a option" where
  "get_at xs i = (if i < length xs then Some (xs ! i) else None)"

definition set_at :: "'a list \<Rightarrow> nat \<Rightarrow> 'a \<Rightarrow> 'a list option" where
  "set_at xs i v = (if i < length xs then Some (xs[i := v]) else None)"

lemma get_at_in [simp]: "i < length xs \<Longrightarrow> get_at xs i = Some (xs ! i)"
  by (simp add: get_at_def)

lemma get_at_out [simp]: "length xs \<le> i \<Longrightarrow> get_at xs i = None"
  by (simp add: get_at_def)

lemma get_at_Some: "get_at xs i = Some x \<longleftrightarrow> i < length xs \<and> x = xs ! i"
  by (auto simp: get_at_def)

lemma get_at_None: "get_at xs i = None \<longleftrightarrow> length xs \<le> i"
  by (auto simp: get_at_def)

lemma set_at_in [simp]: "i < length xs \<Longrightarrow> set_at xs i v = Some (xs[i := v])"
  by (simp add: set_at_def)

lemma set_at_Some: "set_at xs i v = Some ys \<longleftrightarrow> i < length xs \<and> ys = xs[i := v]"
  by (auto simp: set_at_def)

text \<open>\<open>std::vector::resize\<close>: cut off at the new size, or filled up with a value.\<close>

definition resize_to :: "nat \<Rightarrow> 'a \<Rightarrow> 'a list \<Rightarrow> 'a list" where
  "resize_to n x xs = take n xs @ replicate (n - length xs) x"

lemma resize_same: "length xs = n \<Longrightarrow> resize_to n x xs = xs"
  by (simp add: resize_to_def)

lemma length_resize [simp]: "length (resize_to n x xs) = n"
  by (simp add: resize_to_def)

subsection \<open>Lists updated by index\<close>

lemma nth_update: "j < length xs \<Longrightarrow> xs[i := v] ! j = (if i = j then v else xs ! j)"
  by simp

definition list_swap :: "'a list \<Rightarrow> nat \<Rightarrow> nat \<Rightarrow> 'a list" where
  "list_swap xs i j = xs[i := xs ! j, j := xs ! i]"

lemma length_list_swap [simp]: "length (list_swap xs i j) = length xs"
  by (simp add: list_swap_def)

lemma nth_list_swap:
  "i < length xs \<Longrightarrow> j < length xs \<Longrightarrow>
   list_swap xs i j ! k = (if k = i then xs ! j else if k = j then xs ! i else xs ! k)"
  by (cases "k < length xs") (auto simp: list_swap_def nth_list_update)

lemma mset_list_swap [simp]:
  "i < length xs \<Longrightarrow> j < length xs \<Longrightarrow> mset (list_swap xs i j) = mset xs"
  by (simp add: list_swap_def mset_swap)

lemma set_list_swap [simp]:
  "i < length xs \<Longrightarrow> j < length xs \<Longrightarrow> set (list_swap xs i j) = set xs"
  by (metis mset_list_swap set_mset_mset)

lemma distinct_list_swap [simp]:
  "i < length xs \<Longrightarrow> j < length xs \<Longrightarrow> distinct (list_swap xs i j) = distinct xs"
  by (metis mset_list_swap mset_eq_imp_distinct_iff)

lemma sorted_le_last: "sorted xs \<Longrightarrow> x \<in> set xs \<Longrightarrow> x \<le> last (xs :: 'a::linorder list)"
  by (induction xs) auto

lemma sum_list_take_Suc:
  "i < length xs \<Longrightarrow> sum_list (take (Suc i) xs) = sum_list (take i xs) + (xs ! i :: 'a::comm_monoid_add)"
  by (simp add: take_Suc_conv_app_nth)

lemma card_filter_update:
  assumes "i < length xs" "P (xs ! i)" "\<not> P v"
  shows "length (filter P xs) = Suc (length (filter P (xs[i := v])))"
proof -
  have "xs = take i xs @ xs ! i # drop (Suc i) xs"
    using assms(1) by (simp add: id_take_nth_drop)
  then have 1: "filter P xs = filter P (take i xs) @ xs ! i # filter P (drop (Suc i) xs)"
    using assms(2) by (metis filter.simps(2) filter_append)
  have "xs[i := v] = take i xs @ v # drop (Suc i) xs"
    using assms(1) by (simp add: upd_conv_take_nth_drop)
  then have 2: "filter P (xs[i := v]) = filter P (take i xs) @ filter P (drop (Suc i) xs)"
    using assms(3) by simp
  show ?thesis by (simp add: 1 2)
qed

end
