(* ===== verification/Lits.thy ===== *)
theory Lits
  imports Prelude "HOL-Library.Word"
begin

unbundle bit_operations_syntax

text \<open>
  \<open>core/SolverTypes.h\<close>: variables, literals and lifted booleans.

  A \<open>Var\<close> is an \<open>int\<close>; a \<open>Lit\<close> is a struct with one \<open>int\<close> field \<open>x\<close> that holds twice the
  variable plus the sign.  The definitions below compute on mathematical integers with the same
  bit operations; the 32-bit versions at the end of the literal section show for which variables
  the machine arithmetic agrees with them.
\<close>

subsection \<open>Literals\<close>

datatype lit = Lit (x_of: int)

definition var_Undef :: int where "var_Undef = - 1"

definition mkLit :: "int \<Rightarrow> bool \<Rightarrow> lit" where
  "mkLit v s = Lit (v + v + of_bool s)"

definition neg_lit :: "lit \<Rightarrow> lit" where
  "neg_lit p = Lit (x_of p XOR 1)"

definition xor_lit :: "lit \<Rightarrow> bool \<Rightarrow> lit" where
  "xor_lit p b = Lit (x_of p XOR of_bool b)"

definition sign_lit :: "lit \<Rightarrow> bool" where
  "sign_lit p = (x_of p AND 1 \<noteq> 0)"

definition var :: "lit \<Rightarrow> int" where
  "var p = drop_bit 1 (x_of p)"

definition toInt_lit :: "lit \<Rightarrow> int" where
  "toInt_lit p = x_of p"

definition toLit :: "int \<Rightarrow> lit" where
  "toLit i = Lit i"

definition dimacs :: "lit \<Rightarrow> int" where
  "dimacs l = (if sign_lit l then - (var l + 1) else var l + 1)"

definition lit_Undef :: lit where "lit_Undef = Lit (- 2)"
definition lit_Error :: lit where "lit_Error = Lit (- 1)"

instantiation lit :: linorder
begin

definition less_eq_lit :: "lit \<Rightarrow> lit \<Rightarrow> bool" where
  "less_eq_lit p q = (x_of p \<le> x_of q)"

definition less_lit :: "lit \<Rightarrow> lit \<Rightarrow> bool" where
  "less_lit p q = (x_of p < x_of q)"

instance
  by standard (auto simp: less_eq_lit_def less_lit_def lit.expand)

end

lemma int_xor_1: "(i::int) XOR 1 = (if even i then i + 1 else i - 1)"
  by (simp add: xor_one_eq)

lemma sign_lit_odd [lit_simps]: "sign_lit p \<longleftrightarrow> odd (x_of p)"
  by (simp add: sign_lit_def and_one_eq odd_iff_mod_2_eq_one)

lemma var_div [lit_simps]: "var p = x_of p div 2"
  by (simp add: var_def drop_bit_eq_div)

lemma x_of_neg [lit_simps]:
  "x_of (neg_lit p) = (if even (x_of p) then x_of p + 1 else x_of p - 1)"
  by (simp add: neg_lit_def int_xor_1)

lemma var_mkLit [simp]: "var (mkLit v s) = v"
  by (cases s) (simp_all add: lit_simps mkLit_def)

lemma sign_mkLit [simp]: "sign_lit (mkLit v s) = s"
  by (cases s) (simp_all add: lit_simps mkLit_def)

lemma mkLit_var_sign [simp]: "mkLit (var p) (sign_lit p) = p"
  by (cases p) (auto simp: lit_simps mkLit_def)

lemma var_neg [simp]: "var (neg_lit p) = var p"
proof (cases "even (x_of p)")
  case False
  then obtain k where "x_of p = 2 * k + 1" by (auto elim: oddE)
  then show ?thesis by (simp add: lit_simps)
qed (simp add: lit_simps)

lemma sign_neg [simp]: "sign_lit (neg_lit p) = (\<not> sign_lit p)"
  by (auto simp: lit_simps)

lemma lit_eq_iff: "p = q \<longleftrightarrow> var p = var q \<and> sign_lit p = sign_lit q"
proof
  assume "var p = var q \<and> sign_lit p = sign_lit q"
  then have "mkLit (var p) (sign_lit p) = mkLit (var q) (sign_lit q)" by simp
  then show "p = q" by (simp only: mkLit_var_sign)
qed simp

lemma neg_neg [simp]: "neg_lit (neg_lit p) = p"
  by (simp add: lit_eq_iff)

lemma neg_neq [simp]: "neg_lit p \<noteq> p" "p \<noteq> neg_lit p"
  by (simp_all add: lit_eq_iff)

lemma neg_eq_iff [simp]: "neg_lit p = neg_lit q \<longleftrightarrow> p = q"
  by (metis neg_neg)

lemma neg_eq_swap: "p = neg_lit q \<longleftrightarrow> q = neg_lit p"
  by auto

lemma same_var: "var p = var q \<longleftrightarrow> p = q \<or> p = neg_lit q"
  by (auto simp: lit_eq_iff)

lemma xor_lit_eq [simp]: "xor_lit p b = (if b then neg_lit p else p)"
  by (cases b) (simp_all add: xor_lit_def neg_lit_def)

lemma var_special [simp]: "var lit_Undef = -1" "var lit_Error = -1"
  by (simp_all add: lit_simps lit_Undef_def lit_Error_def)

lemma lit_undef_mkLit: "lit_Undef = mkLit var_Undef False" "lit_Error = mkLit var_Undef True"
  by (simp_all add: mkLit_def lit_Undef_def lit_Error_def var_Undef_def)

lemma neg_undef [simp]: "neg_lit lit_Undef = lit_Error" "neg_lit lit_Error = lit_Undef"
  by (simp_all add: neg_lit_def lit_Undef_def lit_Error_def int_xor_1)

lemma var_nonneg_not_special: "0 \<le> var p \<Longrightarrow> p \<noteq> lit_Undef \<and> p \<noteq> lit_Error"
  by auto

lemma x_of_bounds: "0 \<le> var p \<Longrightarrow> x_of p \<ge> 0"
  by (simp add: lit_simps)

lemma nat_x_less: "0 \<le> var p \<Longrightarrow> var p < int n \<Longrightarrow> nat (x_of p) < 2 * n"
  by (simp add: lit_simps)

subsection \<open>Truth of literals and clauses under an assignment\<close>

definition lit_val :: "(int \<Rightarrow> bool) \<Rightarrow> lit \<Rightarrow> bool" where
  "lit_val \<sigma> l = (\<sigma> (var l) \<noteq> sign_lit l)"

definition clause_sat :: "(int \<Rightarrow> bool) \<Rightarrow> lit list \<Rightarrow> bool" where
  "clause_sat \<sigma> ls = (\<exists>l\<in>set ls. lit_val \<sigma> l)"

lemma lit_val_neg [simp]: "lit_val \<sigma> (neg_lit l) = (\<not> lit_val \<sigma> l)"
  by (auto simp: lit_val_def)

lemma lit_val_mkLit [simp]: "lit_val \<sigma> (mkLit v s) = (\<sigma> v \<noteq> s)"
  by (simp add: lit_val_def)

lemma lit_val_cong: "\<sigma> (var l) = \<tau> (var l) \<Longrightarrow> lit_val \<sigma> l = lit_val \<tau> l"
  by (simp add: lit_val_def)

lemma clause_sat_simps [simp]:
  "\<not> clause_sat \<sigma> []"
  "clause_sat \<sigma> (l # ls) \<longleftrightarrow> lit_val \<sigma> l \<or> clause_sat \<sigma> ls"
  "clause_sat \<sigma> (ls @ ks) \<longleftrightarrow> clause_sat \<sigma> ls \<or> clause_sat \<sigma> ks"
  by (auto simp: clause_sat_def)

lemma clause_sat_set: "set ls = set ks \<Longrightarrow> clause_sat \<sigma> ls = clause_sat \<sigma> ks"
  by (simp add: clause_sat_def)

lemma clause_sat_mono: "clause_sat \<sigma> ls \<Longrightarrow> set ls \<subseteq> set ks \<Longrightarrow> clause_sat \<sigma> ks"
  by (auto simp: clause_sat_def)

subsection \<open>The 32-bit encoding\<close>

text \<open>
  The struct's field is a 32-bit \<open>int\<close>: \<open>var + var + (int) sign\<close>, \<open>p.x ^ 1\<close>, \<open>p.x & 1\<close> and
  the arithmetic shift \<open>p.x >> 1\<close> on words.
\<close>

type_synonym int32 = "32 word"

definition mkLit32 :: "int32 \<Rightarrow> bool \<Rightarrow> int32" where
  "mkLit32 v s = v + v + of_bool s"

definition neg32 :: "int32 \<Rightarrow> int32" where
  "neg32 x = x XOR 1"

definition sign32 :: "int32 \<Rightarrow> bool" where
  "sign32 x = (x AND 1 \<noteq> 0)"

definition var32 :: "int32 \<Rightarrow> int32" where
  "var32 x = signed_drop_bit 1 x"

lemma sint_range32: "- (2 ^ 31) \<le> sint (w :: int32)" "sint (w :: int32) < 2 ^ 31"
  using sint_range_size [of w] by (simp_all add: word_size)

lemma sint_of_int32: "- (2 ^ 31) \<le> i \<Longrightarrow> i < 2 ^ 31 \<Longrightarrow> sint (word_of_int i :: int32) = i"
  by (simp add: signed_take_bit_int_eq_self sint_sbintrunc')

lemma sint_mkLit32:
  assumes "- (2 ^ 30) \<le> sint v" "sint v < 2 ^ 30"
  shows "sint (mkLit32 v s) = x_of (mkLit (sint v) s)"
proof -
  have "mkLit32 v s = word_of_int (sint v + sint v + of_bool s)"
    by (cases s) (simp_all add: mkLit32_def wi_hom_add [symmetric])
  moreover have "sint (word_of_int (sint v + sint v + of_bool s) :: int32) = sint v + sint v + of_bool s"
    by (rule sint_of_int32) (use assms in auto)
  ultimately show ?thesis by (simp add: mkLit_def)
qed

lemma sint_neg32: "sint (neg32 x) = x_of (neg_lit (Lit (sint x)))"
  by (simp add: neg32_def neg_lit_def signed_xor_eq)

lemma sint_var32: "sint (var32 x) = var (Lit (sint x))"
  by (simp add: var32_def var_def sint_signed_drop_bit_eq)

lemma sign32_odd: "sign32 x = sign_lit (Lit (sint x))"
proof -
  have "x AND 1 \<noteq> 0 \<longleftrightarrow> odd x"
    by (simp add: and_one_eq odd_iff_mod_2_eq_one)
  also have "odd x \<longleftrightarrow> odd (sint x)"
    by (metis bit_0 bit_sint_iff nat_less_le not_less0 len_gt_0)
  finally show ?thesis by (simp add: sign32_def sign_lit_odd)
qed

text \<open>For variables of 31 bits the 32-bit arithmetic of literals does not overflow: building a
  literal, negating it and reading its variable and sign give what the definitions on unbounded
  integers give; negation, variable and sign agree on every bit pattern.\<close>

theorem lit32_agrees:
  assumes "- (2 ^ 30) \<le> sint v" "sint v < 2 ^ 30"
  shows "sint (mkLit32 v s) = x_of (mkLit (sint v) s) \<and> var32 (mkLit32 v s) = v \<and>
    sign32 (mkLit32 v s) = s \<and> sint (neg32 (mkLit32 v s)) = x_of (mkLit (sint v) (\<not> s)) \<and>
    sint (neg32 x) = x_of (neg_lit (Lit (sint x))) \<and> sint (var32 x) = var (Lit (sint x)) \<and>
    sign32 x = sign_lit (Lit (sint x))"
proof -
  have m: "Lit (sint (mkLit32 v s)) = mkLit (sint v) s" using sint_mkLit32 [OF assms] by (simp add: lit.expand)
  then have "sint (var32 (mkLit32 v s)) = sint v" by (simp add: sint_var32)
  then have "var32 (mkLit32 v s) = v" by (rule signed_word_eqI)
  moreover have "neg_lit (mkLit (sint v) s) = mkLit (sint v) (\<not> s)" by (simp add: lit_eq_iff)
  ultimately show ?thesis using sint_mkLit32 [OF assms] m by (simp add: sint_neg32 sint_var32 sign32_odd)
qed

theorem lit32_agrees_witness:
  "sint (mkLit32 1073741823 True) = x_of (mkLit (sint (1073741823 :: int32)) True)"
  by (rule conjunct1 [OF lit32_agrees]) code_simp+

subsection \<open>Lifted booleans\<close>

text \<open>
  The class \<open>lbool\<close> packs a three-valued truth value into a byte: 0 is true, 1 is false, and 2
  and 3 both mean undefined, so that flipping the lowest bit negates.  \<open>operator&&\<close> and
  \<open>operator||\<close> read a two-bit result out of a constant at an offset made of the operands.
\<close>

type_synonym lbool_byte = "8 word"

definition l_True_byte :: lbool_byte where "l_True_byte = 0"
definition l_False_byte :: lbool_byte where "l_False_byte = 1"
definition l_Undef_byte :: lbool_byte where "l_Undef_byte = 2"

definition lbool_of_bool :: "bool \<Rightarrow> lbool_byte" where
  "lbool_of_bool x = of_bool (\<not> x)"

definition lbool_eq :: "lbool_byte \<Rightarrow> lbool_byte \<Rightarrow> bool" where
  "lbool_eq v b =
     ((b AND 2) AND (v AND 2) \<noteq> 0 \<or> (b AND 2 = 0 \<and> v = b))"

definition lbool_xor :: "lbool_byte \<Rightarrow> bool \<Rightarrow> lbool_byte" where
  "lbool_xor v b = v XOR of_bool b"

definition lbool_and :: "lbool_byte \<Rightarrow> lbool_byte \<Rightarrow> lbool_byte" where
  "lbool_and v b =
     (let sel = push_bit 1 v OR push_bit 3 b
      in ucast (drop_bit (unat sel) (0xF7F755F4 :: 32 word) AND 3))"

definition lbool_or :: "lbool_byte \<Rightarrow> lbool_byte \<Rightarrow> lbool_byte" where
  "lbool_or v b =
     (let sel = push_bit 1 v OR push_bit 3 b
      in ucast (drop_bit (unat sel) (0xFCFCF400 :: 32 word) AND 3))"

text \<open>The three truth values the byte stands for, and Kleene's operations on them.\<close>

datatype lbool = LTrue | LFalse | LUndef

definition abs_lbool :: "lbool_byte \<Rightarrow> lbool" where
  "abs_lbool w = (if w AND 2 \<noteq> 0 then LUndef else if w = 0 then LTrue else LFalse)"

fun neg_lbool :: "lbool \<Rightarrow> lbool" where
  "neg_lbool LTrue = LFalse"
| "neg_lbool LFalse = LTrue"
| "neg_lbool LUndef = LUndef"

fun kleene_and :: "lbool \<Rightarrow> lbool \<Rightarrow> lbool" where
  "kleene_and LFalse _ = LFalse"
| "kleene_and _ LFalse = LFalse"
| "kleene_and LTrue b = b"
| "kleene_and LUndef _ = LUndef"

fun kleene_or :: "lbool \<Rightarrow> lbool \<Rightarrow> lbool" where
  "kleene_or LTrue _ = LTrue"
| "kleene_or _ LTrue = LTrue"
| "kleene_or LFalse b = b"
| "kleene_or LUndef _ = LUndef"

text \<open>The bytes the class stores: every constructor and operation yields one of these four.\<close>

definition lbool_bytes :: "lbool_byte list" where
  "lbool_bytes = [0, 1, 2, 3]"

lemma lbool_table:
  "list_all (\<lambda>v. list_all (\<lambda>b.
      (lbool_eq v b = (abs_lbool v = abs_lbool b)) \<and>
      abs_lbool (lbool_and v b) = kleene_and (abs_lbool v) (abs_lbool b) \<and>
      abs_lbool (lbool_or v b) = kleene_or (abs_lbool v) (abs_lbool b) \<and>
      List.member lbool_bytes (lbool_and v b) \<and> List.member lbool_bytes (lbool_or v b))
     lbool_bytes) lbool_bytes"
  by code_simp

lemma lbool_xor_table:
  "list_all (\<lambda>v. list_all (\<lambda>b.
      abs_lbool (lbool_xor v b) = (if b then neg_lbool (abs_lbool v) else abs_lbool v) \<and>
      List.member lbool_bytes (lbool_xor v b)) [True, False]) lbool_bytes"
  by code_simp

lemma neg_lbool_simps [simp]:
  "neg_lbool (neg_lbool x) = x"
  "neg_lbool x = LTrue \<longleftrightarrow> x = LFalse"
  "neg_lbool x = LFalse \<longleftrightarrow> x = LTrue"
  "neg_lbool x = LUndef \<longleftrightarrow> x = LUndef"
  by (cases x; simp)+

text \<open>The byte-level operations of class \<open>lbool\<close> (equality, \<open>&&\<close>, \<open>||\<close> with their
  packed constants, and \<open>^\<close>) compute equality, Kleene's conjunction and disjunction and
  conditional negation on the truth values the bytes stand for, and stay within the four bytes
  the class uses.\<close>

theorem lbool_refines_kleene:
  assumes "v \<in> set lbool_bytes" "b \<in> set lbool_bytes"
  shows "(lbool_eq v b \<longleftrightarrow> abs_lbool v = abs_lbool b) \<and>
    abs_lbool (lbool_and v b) = kleene_and (abs_lbool v) (abs_lbool b) \<and>
    abs_lbool (lbool_or v b) = kleene_or (abs_lbool v) (abs_lbool b) \<and>
    abs_lbool (lbool_xor v c) = (if c then neg_lbool (abs_lbool v) else abs_lbool v) \<and>
    {lbool_and v b, lbool_or v b, lbool_xor v c} \<subseteq> set lbool_bytes"
  using assms lbool_table lbool_xor_table
  by (cases c) (auto simp: list_all_iff)

theorem lbool_refines_kleene_witness:
  "(lbool_eq 3 l_Undef_byte \<longleftrightarrow> abs_lbool 3 = abs_lbool l_Undef_byte) \<and>
   abs_lbool (lbool_and l_False_byte 3) = LFalse"
  using lbool_refines_kleene [of 3 l_Undef_byte True] lbool_refines_kleene [of l_False_byte 3 True]
  by (simp add: lbool_bytes_def l_Undef_byte_def l_False_byte_def abs_lbool_def)

end
