(* ===== verification/Circuit.thy ===== *)
theory Circuit
  imports Lits
begin

text \<open>
  \<open>api/Circuit.h\<close>: combinational logic expressed in clauses.  The class is a template over the
  solver; here the solver is a record of the operations the class calls, over an arbitrary state
  type, and every member function becomes a function from the solver state to a result and the
  next state, or to no result where the C++ code runs into undefined behaviour or a failed assertion.

  The scratch vectors \<open>tmp\<close>, \<open>tmp2\<close>, \<open>store\<close>, \<open>assert_tmp\<close> are emptied before every use, so they
  carry nothing from call to call and become local lists; the one place where a scratch vector is
  passed by reference into a function that empties it is modelled by \<open>vec_arg\<close>.  The optional copy
  of every clause to a file is left out.
\<close>

subsection \<open>The solver and the circuit\<close>

record 's solver_ops =
  op_newVar :: "'s \<Rightarrow> int \<times> 's"
  op_addClause :: "lit list \<Rightarrow> 's \<Rightarrow> (bool \<times> 's) option"
  op_value :: "'s \<Rightarrow> lit \<Rightarrow> lbool"
  op_level :: "'s \<Rightarrow> int \<Rightarrow> nat"
  op_True :: "'s \<Rightarrow> (lit \<times> 's) option"
  op_cancelUntil :: "nat \<Rightarrow> 's \<Rightarrow> 's"
  op_decisionLevel :: "'s \<Rightarrow> nat"

record 's circuit =
  ci_ops :: "'s solver_ops"
  ci_true :: lit

type_synonym 's gate = "'s \<Rightarrow> (lit \<times> 's) option"
type_synonym 's assertion = "'s \<Rightarrow> 's option"

definition new_circuit :: "'s solver_ops \<Rightarrow> 's \<Rightarrow> ('s circuit \<times> 's) option" where
  "new_circuit ops s = do { (t, s) \<leftarrow> op_True ops s; Some (\<lparr>ci_ops = ops, ci_true = t\<rparr>, s) }"

definition getTrue :: "'s circuit \<Rightarrow> lit" where "getTrue C = ci_true C"
definition getFalse :: "'s circuit \<Rightarrow> lit" where "getFalse C = neg_lit (ci_true C)"

definition isConstTrue :: "'s circuit \<Rightarrow> 's \<Rightarrow> lit \<Rightarrow> bool" where
  "isConstTrue C s l \<longleftrightarrow> op_value (ci_ops C) s l = LTrue \<and> op_level (ci_ops C) s (var l) = 0"

definition isConstFalse :: "'s circuit \<Rightarrow> 's \<Rightarrow> lit \<Rightarrow> bool" where
  "isConstFalse C s l \<longleftrightarrow> op_value (ci_ops C) s l = LFalse \<and> op_level (ci_ops C) s (var l) = 0"

definition isConst :: "'s circuit \<Rightarrow> 's \<Rightarrow> lit \<Rightarrow> bool" where
  "isConst C s l \<longleftrightarrow> isConstTrue C s l \<or> isConstFalse C s l"

text \<open>\<open>_addClause\<close>; every caller in the class ignores its result.\<close>

definition add_clause :: "'s circuit \<Rightarrow> lit list \<Rightarrow> 's assertion" where
  "add_clause C ls s = map_option snd (op_addClause (ci_ops C) ls s)"

definition newLit :: "'s circuit \<Rightarrow> 's gate" where
  "newLit C s = (let (v, s) = op_newVar (ci_ops C) s in Some (mkLit v False, s))"

fun for_each :: "('a \<Rightarrow> 's assertion) \<Rightarrow> 'a list \<Rightarrow> 's assertion" where
  "for_each f [] s = Some s"
| "for_each f (x # xs) s = do { s \<leftarrow> f x s; for_each f xs s }"

fun collect :: "lit list \<Rightarrow> lit list \<Rightarrow> lit list" where
  "collect store [] = store"
| "collect store (a # args) = collect (store @ [a]) args"

text \<open>
  \<open>bin_op\<close> combines neighbours in place, round by round, until one literal is left; \<open>bin_pass\<close> is one
  round.  The fuel is the number of rounds left; the length of the vector is enough.
\<close>

fun bin_pass :: "(lit \<Rightarrow> lit \<Rightarrow> 's gate) \<Rightarrow> lit list \<Rightarrow> lit list \<Rightarrow> 's \<Rightarrow> (lit list \<times> 's) option" where
  "bin_pass f done [] s = Some (done, s)"
| "bin_pass f done [a] s = Some (done @ [a], s)"
| "bin_pass f done (a # b # ls) s = do { (c, s) \<leftarrow> f a b s; bin_pass f (done @ [c]) ls s }"

fun bin_rounds :: "nat \<Rightarrow> (lit \<Rightarrow> lit \<Rightarrow> 's gate) \<Rightarrow> lit list \<Rightarrow> 's \<Rightarrow> (lit list \<times> 's) option" where
  "bin_rounds 0 f store s = None"
| "bin_rounds (Suc n) f store s =
     (if length store > 1 then do { (store, s) \<leftarrow> bin_pass f [] store s; bin_rounds n f store s }
      else Some (store, s))"

definition bin_op :: "'s circuit \<Rightarrow> (lit \<Rightarrow> lit \<Rightarrow> 's gate) \<Rightarrow> lit list \<Rightarrow> 's gate" where
  "bin_op C f store s = do {
     (store, s) \<leftarrow> bin_rounds (Suc (length store)) f store s;
     Some (if store \<noteq> [] then (store ! 0, s) else (ci_true C, s)) }"

subsection \<open>Assertions\<close>

definition Assert :: "'s circuit \<Rightarrow> lit \<Rightarrow> 's assertion" where
  "Assert C l s = add_clause C [l] s"

definition AssertOr2 :: "'s circuit \<Rightarrow> lit \<Rightarrow> lit \<Rightarrow> 's assertion" where
  "AssertOr2 C a b s = add_clause C [a, b] s"

definition AssertOr3 :: "'s circuit \<Rightarrow> lit \<Rightarrow> lit \<Rightarrow> lit \<Rightarrow> 's assertion" where
  "AssertOr3 C a b c s = add_clause C [a, b, c] s"

definition AssertOr_list :: "'s circuit \<Rightarrow> lit list \<Rightarrow> 's assertion" where
  "AssertOr_list C vals s = add_clause C vals s"

definition AssertOr_vec :: "'s circuit \<Rightarrow> lit list \<Rightarrow> 's assertion" where
  "AssertOr_vec C vals s = do { check (list_all (\<lambda>l. l \<noteq> lit_Undef) vals); add_clause C vals s }"

definition AssertOr_args :: "'s circuit \<Rightarrow> lit \<Rightarrow> lit list \<Rightarrow> 's assertion" where
  "AssertOr_args C a args s = add_clause C (collect [a] args) s"

definition AssertNand2 :: "'s circuit \<Rightarrow> lit \<Rightarrow> lit \<Rightarrow> 's assertion" where
  "AssertNand2 C a b s = add_clause C [neg_lit a, neg_lit b] s"

definition AssertNand_vec :: "'s circuit \<Rightarrow> lit list \<Rightarrow> 's assertion" where
  "AssertNand_vec C vals s = add_clause C (map neg_lit vals) s"

definition AssertNand_args :: "'s circuit \<Rightarrow> lit \<Rightarrow> lit list \<Rightarrow> 's assertion" where
  "AssertNand_args C a args s = add_clause C (map neg_lit (collect [a] args)) s"

definition AssertAnd2 :: "'s circuit \<Rightarrow> lit \<Rightarrow> lit \<Rightarrow> 's assertion" where
  "AssertAnd2 C a b s = do { s \<leftarrow> add_clause C [a] s; add_clause C [b] s }"

definition AssertAnd_vec :: "'s circuit \<Rightarrow> lit list \<Rightarrow> 's assertion" where
  "AssertAnd_vec C vals s = for_each (\<lambda>l. add_clause C [l]) vals s"

definition AssertAnd_args :: "'s circuit \<Rightarrow> lit \<Rightarrow> lit list \<Rightarrow> 's assertion" where
  "AssertAnd_args C a args s = for_each (\<lambda>l. add_clause C [l]) (collect [a] args) s"

definition AssertNor2 :: "'s circuit \<Rightarrow> lit \<Rightarrow> lit \<Rightarrow> 's assertion" where
  "AssertNor2 C a b s = do { s \<leftarrow> add_clause C [neg_lit a] s; add_clause C [neg_lit b] s }"

definition AssertNor_vec :: "'s circuit \<Rightarrow> lit list \<Rightarrow> 's assertion" where
  "AssertNor_vec C vals s = for_each (\<lambda>l. add_clause C [neg_lit l]) vals s"

definition AssertNor_args :: "'s circuit \<Rightarrow> lit \<Rightarrow> lit list \<Rightarrow> 's assertion" where
  "AssertNor_args C a args s = for_each (\<lambda>l. add_clause C [neg_lit l]) (collect [a] args) s"

definition AssertXor2 :: "'s circuit \<Rightarrow> lit \<Rightarrow> lit \<Rightarrow> 's assertion" where
  "AssertXor2 C a b s = do { s \<leftarrow> add_clause C [a, b] s; add_clause C [neg_lit a, neg_lit b] s }"

definition AssertXnor2 :: "'s circuit \<Rightarrow> lit \<Rightarrow> lit \<Rightarrow> 's assertion" where
  "AssertXnor2 C a b s = do { s \<leftarrow> add_clause C [neg_lit a, b] s; add_clause C [a, neg_lit b] s }"

definition AssertImplies :: "'s circuit \<Rightarrow> lit \<Rightarrow> lit \<Rightarrow> 's assertion" where
  "AssertImplies C a b s = add_clause C [neg_lit a, b] s"

definition AssertEqual :: "'s circuit \<Rightarrow> lit \<Rightarrow> lit \<Rightarrow> 's assertion" where
  "AssertEqual C a b s = AssertXnor2 C a b s"

text \<open>\<open>if(out != lit_Undef) \<dots>\<close>: what the gates with an output argument do before they return early.\<close>

definition if_given :: "lit \<Rightarrow> 's assertion \<Rightarrow> 's assertion" where
  "if_given out f s = (if out \<noteq> lit_Undef then f s else Some s)"

definition out_or_new :: "'s circuit \<Rightarrow> lit \<Rightarrow> 's gate" where
  "out_or_new C out s = (if out = lit_Undef then newLit C s else Some (out, s))"

subsection \<open>Conjunction\<close>

definition And_clauses :: "'s circuit \<Rightarrow> lit \<Rightarrow> lit \<Rightarrow> lit \<Rightarrow> 's gate" where
  "And_clauses C a b out s = do {
     s \<leftarrow> add_clause C [a, neg_lit out] s;
     s \<leftarrow> add_clause C [b, neg_lit out] s;
     s \<leftarrow> add_clause C [neg_lit a, neg_lit b, out] s;
     Some (out, s) }"

definition And2 :: "'s circuit \<Rightarrow> lit \<Rightarrow> lit \<Rightarrow> 's gate" where
  "And2 C a b s =
     (if a = b then Some (a, s)
      else if var a = var b then do { check (sign_lit a \<noteq> sign_lit b); Some (getFalse C, s) }
      else if isConst C s a \<or> isConst C s b then
        (if isConstTrue C s a then Some (b, s)
         else if isConstFalse C s a then Some (a, s)
         else if isConstTrue C s b then Some (a, s)
         else Some (b, s))
      else do { (out, s) \<leftarrow> newLit C s; And_clauses C a b out s })"

text \<open>\<open>And_\<close> with an output literal.  With a given output the early returns yield that literal.\<close>

definition And2_to :: "'s circuit \<Rightarrow> lit \<Rightarrow> lit \<Rightarrow> lit \<Rightarrow> 's gate" where
  "And2_to C a b out s =
     (if isConst C s a \<or> isConst C s b then
        (if isConstTrue C s a \<and> isConstTrue C s b then
           (if out \<noteq> lit_Undef then do { s \<leftarrow> Assert C out s; Some (out, s) } else Some (getTrue C, s))
         else if isConstFalse C s a \<or> isConstFalse C s b then
           (if out \<noteq> lit_Undef then do { s \<leftarrow> Assert C (neg_lit out) s; Some (out, s) }
            else Some (getFalse C, s))
         else if isConstTrue C s a then
           (if out \<noteq> lit_Undef then do { s \<leftarrow> AssertEqual C b out s; Some (out, s) } else Some (b, s))
         else
           (if out \<noteq> lit_Undef then do { s \<leftarrow> AssertEqual C a out s; Some (out, s) } else Some (a, s)))
      else do { (out, s) \<leftarrow> out_or_new C out s; And_clauses C a b out s })"

text \<open>The loop over the arguments of \<open>And_(vec, out)\<close>: the literals that are not constant true, or
  nothing when one is constant false.\<close>

fun and_args :: "'s circuit \<Rightarrow> 's \<Rightarrow> lit list \<Rightarrow> lit list \<Rightarrow> lit list option" where
  "and_args C s tmp [] = Some tmp"
| "and_args C s tmp (l # ls) =
     (if isConstFalse C s l then None
      else if isConstTrue C s l then and_args C s tmp ls
      else and_args C s (tmp @ [l]) ls)"

definition And_vec_to :: "'s circuit \<Rightarrow> lit list \<Rightarrow> lit \<Rightarrow> 's gate" where
  "And_vec_to C vals out s =
     (case and_args C s [] vals of
        None \<Rightarrow> do { s \<leftarrow> if_given out (Assert C (neg_lit out)) s; Some (getFalse C, s) }
      | Some tmp \<Rightarrow>
          if length tmp = 0 then do { s \<leftarrow> if_given out (Assert C out) s; Some (getTrue C, s) }
          else if length tmp = 1 then
            (if out \<noteq> lit_Undef then do { s \<leftarrow> AssertEqual C (tmp ! 0) out s; Some (out, s) }
             else Some (tmp ! 0, s))
          else do {
            (out, s) \<leftarrow> out_or_new C out s;
            s \<leftarrow> for_each (\<lambda>l. add_clause C [l, neg_lit out]) tmp s;
            s \<leftarrow> add_clause C (map neg_lit tmp @ [out]) s;
            Some (out, s) })"

definition And_vec :: "'s circuit \<Rightarrow> lit list \<Rightarrow> 's gate" where
  "And_vec C vals s = And_vec_to C vals lit_Undef s"

definition And_list_to :: "'s circuit \<Rightarrow> lit list \<Rightarrow> lit \<Rightarrow> 's gate" where
  "And_list_to C vals out s = (let tmp2 = collect [] vals in And_vec_to C tmp2 out s)"

definition And_list :: "'s circuit \<Rightarrow> lit list \<Rightarrow> 's gate" where
  "And_list C vals s = (let tmp2 = collect [] vals in And_vec C tmp2 s)"

definition And_args :: "'s circuit \<Rightarrow> lit \<Rightarrow> lit \<Rightarrow> lit list \<Rightarrow> 's gate" where
  "And_args C a b args s = (let store = collect [a] (b # args) in And_vec C store s)"

definition AssertImpliesAnd_to :: "'s circuit \<Rightarrow> lit \<Rightarrow> lit list \<Rightarrow> lit \<Rightarrow> 's assertion" where
  "AssertImpliesAnd_to C imp vals out s =
     (case and_args C s [] vals of
        None \<Rightarrow> if out \<noteq> lit_Undef then AssertImplies C imp (neg_lit out) s else Assert C (neg_lit imp) s
      | Some tmp \<Rightarrow>
          if length tmp = 0 then (if out = lit_Undef then Some s else Assert C out s)
          else do {
            s \<leftarrow> (if out = lit_Undef then for_each (\<lambda>l. add_clause C [l, neg_lit imp]) tmp s
                 else for_each (\<lambda>l. add_clause C [l, neg_lit out, neg_lit imp]) tmp s);
            add_clause C (map neg_lit tmp @ (if out = lit_Undef then [out] else []) @ [neg_lit imp]) s })"

subsection \<open>Disjunction\<close>

definition Or_clauses :: "'s circuit \<Rightarrow> lit \<Rightarrow> lit \<Rightarrow> lit \<Rightarrow> 's gate" where
  "Or_clauses C a b out s = do {
     s \<leftarrow> add_clause C [neg_lit a, out] s;
     s \<leftarrow> add_clause C [neg_lit b, out] s;
     s \<leftarrow> add_clause C [a, b, neg_lit out] s;
     Some (out, s) }"

definition Or2 :: "'s circuit \<Rightarrow> lit \<Rightarrow> lit \<Rightarrow> 's gate" where
  "Or2 C a b s =
     (if a = b then Some (a, s)
      else if var a = var b then do { check (sign_lit a \<noteq> sign_lit b); Some (getTrue C, s) }
      else if isConstTrue C s a then Some (getTrue C, s)
      else if isConstTrue C s b then Some (getTrue C, s)
      else if isConstFalse C s a then Some (b, s)
      else if isConstFalse C s b then Some (a, s)
      else do { (out, s) \<leftarrow> newLit C s; Or_clauses C a b out s })"

text \<open>\<open>Or_\<close> asserts the given output but, unlike \<open>And_\<close>, returns the constant or the other argument
  when one argument is constant.\<close>

definition Or2_to :: "'s circuit \<Rightarrow> lit \<Rightarrow> lit \<Rightarrow> lit \<Rightarrow> 's gate" where
  "Or2_to C a b out s =
     (if isConst C s a \<or> isConst C s b then
        (if isConstFalse C s a \<and> isConstFalse C s b then
           do { s \<leftarrow> if_given out (Assert C (neg_lit out)) s; Some (getFalse C, s) }
         else if isConstTrue C s a \<or> isConstTrue C s b then
           do { s \<leftarrow> if_given out (Assert C out) s; Some (getTrue C, s) }
         else if isConstFalse C s a then
           do { s \<leftarrow> if_given out (AssertEqual C b out) s; Some (b, s) }
         else
           do { s \<leftarrow> if_given out (AssertEqual C a out) s; Some (a, s) })
      else do { (out, s) \<leftarrow> out_or_new C out s; Or_clauses C a b out s })"

fun or_args :: "'s circuit \<Rightarrow> 's \<Rightarrow> lit list \<Rightarrow> lit list \<Rightarrow> lit list option" where
  "or_args C s tmp [] = Some tmp"
| "or_args C s tmp (l # ls) =
     (if isConstFalse C s l then or_args C s tmp ls
      else if isConstTrue C s l then None
      else or_args C s (tmp @ [l]) ls)"

definition Or_vec_to :: "'s circuit \<Rightarrow> lit list \<Rightarrow> lit \<Rightarrow> 's gate" where
  "Or_vec_to C vals out s =
     (case or_args C s [] vals of
        None \<Rightarrow> do { s \<leftarrow> if_given out (Assert C out) s; Some (getTrue C, s) }
      | Some tmp \<Rightarrow>
          if length tmp = 0 then do { s \<leftarrow> if_given out (Assert C (neg_lit out)) s; Some (getFalse C, s) }
          else if length tmp = 1 then
            (if out \<noteq> lit_Undef then do { s \<leftarrow> AssertEqual C (tmp ! 0) out s; Some (out, s) }
             else Some (tmp ! 0, s))
          else do {
            (out, s) \<leftarrow> out_or_new C out s;
            s \<leftarrow> for_each (\<lambda>l. add_clause C [neg_lit l, out]) tmp s;
            s \<leftarrow> add_clause C (tmp @ [neg_lit out]) s;
            Some (out, s) })"

definition Or_vec :: "'s circuit \<Rightarrow> lit list \<Rightarrow> 's gate" where
  "Or_vec C vals s = Or_vec_to C vals lit_Undef s"

definition Or_list :: "'s circuit \<Rightarrow> lit list \<Rightarrow> 's gate" where
  "Or_list C vals s = (let tmp2 = collect [] vals in Or_vec C tmp2 s)"

definition Or_args :: "'s circuit \<Rightarrow> lit \<Rightarrow> lit \<Rightarrow> lit list \<Rightarrow> 's gate" where
  "Or_args C a b args s = (let store = collect [a] (b # args) in Or_vec C store s)"

definition AssertImpliesOr_to :: "'s circuit \<Rightarrow> lit \<Rightarrow> lit list \<Rightarrow> lit \<Rightarrow> 's assertion" where
  "AssertImpliesOr_to C imp vals out s =
     (case or_args C s [] vals of
        None \<Rightarrow> if_given out (AssertImplies C imp out) s
      | Some tmp \<Rightarrow>
          if length vals = 0 then
            (if out \<noteq> lit_Undef then AssertImplies C out (neg_lit imp) s else Assert C (neg_lit imp) s)
          else if out \<noteq> lit_Undef then add_clause C (tmp @ [neg_lit out, neg_lit imp]) s
          else add_clause C (tmp @ [neg_lit imp]) s)"

definition ImpliesAnd :: "'s circuit \<Rightarrow> lit list \<Rightarrow> lit \<Rightarrow> 's gate" where
  "ImpliesAnd C vals out s = do {
     (out, s) \<leftarrow> out_or_new C out s;
     s \<leftarrow> for_each (AssertImplies C out) vals s;
     Some (out, s) }"

definition ImpliesOr :: "'s circuit \<Rightarrow> lit list \<Rightarrow> lit \<Rightarrow> 's gate" where
  "ImpliesOr C vals out s = do {
     (out, s) \<leftarrow> out_or_new C out s;
     s \<leftarrow> AssertImpliesOr_to C out vals lit_Undef s;
     Some (out, s) }"

subsection \<open>Negated gates, exclusive or, implication\<close>

definition negated :: "'s gate \<Rightarrow> 's gate" where
  "negated g s = do { (l, s) \<leftarrow> g s; Some (neg_lit l, s) }"

definition Nor2 :: "'s circuit \<Rightarrow> lit \<Rightarrow> lit \<Rightarrow> 's gate" where
  "Nor2 C a b = negated (Or2 C a b)"

definition Nor_list :: "'s circuit \<Rightarrow> lit list \<Rightarrow> 's gate" where
  "Nor_list C vals = negated (Or_list C vals)"

definition Nor_vec :: "'s circuit \<Rightarrow> lit list \<Rightarrow> 's gate" where
  "Nor_vec C vals = negated (Or_vec C vals)"

definition Nor_args :: "'s circuit \<Rightarrow> lit \<Rightarrow> lit \<Rightarrow> lit list \<Rightarrow> 's gate" where
  "Nor_args C a b args s = (let store = collect [a] (b # args) in Nor_vec C store s)"

definition Nand2 :: "'s circuit \<Rightarrow> lit \<Rightarrow> lit \<Rightarrow> 's gate" where
  "Nand2 C a b = negated (And2 C a b)"

definition Nand_list :: "'s circuit \<Rightarrow> lit list \<Rightarrow> 's gate" where
  "Nand_list C vals = negated (And_list C vals)"

definition Nand_vec :: "'s circuit \<Rightarrow> lit list \<Rightarrow> 's gate" where
  "Nand_vec C vals = negated (And_vec C vals)"

definition Nand_args :: "'s circuit \<Rightarrow> lit \<Rightarrow> lit \<Rightarrow> lit list \<Rightarrow> 's gate" where
  "Nand_args C a b args s = (let store = collect [a] (b # args) in Nand_vec C store s)"

definition Xor_clauses :: "'s circuit \<Rightarrow> lit \<Rightarrow> lit \<Rightarrow> lit \<Rightarrow> 's gate" where
  "Xor_clauses C a b out s = do {
     s \<leftarrow> add_clause C [a, b, neg_lit out] s;
     s \<leftarrow> add_clause C [neg_lit a, b, out] s;
     s \<leftarrow> add_clause C [a, neg_lit b, out] s;
     s \<leftarrow> add_clause C [neg_lit a, neg_lit b, neg_lit out] s;
     Some (out, s) }"

definition Xor1 :: "'s circuit \<Rightarrow> lit \<Rightarrow> 's gate" where
  "Xor1 C a s = Some (neg_lit a, s)"

definition Xor2 :: "'s circuit \<Rightarrow> lit \<Rightarrow> lit \<Rightarrow> 's gate" where
  "Xor2 C a b s =
     (if isConst C s a \<or> isConst C s b then
        (if isConstTrue C s a then Some (neg_lit b, s)
         else if isConstFalse C s a then Some (b, s)
         else if isConstTrue C s b then Some (neg_lit a, s)
         else Some (a, s))
      else do { (out, s) \<leftarrow> newLit C s; Xor_clauses C a b out s })"

text \<open>\<open>Xor_\<close>: the test before the clauses is \<open>if(out != lit_Undef)\<close>, so a given output is replaced
  by a new variable and a missing one is used as it is.\<close>

definition Xor2_to :: "'s circuit \<Rightarrow> lit \<Rightarrow> lit \<Rightarrow> lit \<Rightarrow> 's gate" where
  "Xor2_to C a b out s =
     (if isConst C s a \<or> isConst C s b then
        (if isConstTrue C s a then do { s \<leftarrow> if_given out (AssertEqual C (neg_lit b) out) s; Some (neg_lit b, s) }
         else if isConstFalse C s a then do { s \<leftarrow> if_given out (AssertEqual C b out) s; Some (b, s) }
         else if isConstTrue C s b then do { s \<leftarrow> if_given out (AssertEqual C (neg_lit a) out) s; Some (neg_lit a, s) }
         else do { s \<leftarrow> if_given out (AssertEqual C a out) s; Some (a, s) })
      else do {
        (out, s) \<leftarrow> (if out \<noteq> lit_Undef then newLit C s else Some (out, s));
        Xor_clauses C a b out s })"

text \<open>A vector passed by reference: the member \<open>tmp\<close> itself or another one.  \<open>Xor(vec)\<close> empties
  \<open>tmp\<close> and then copies its argument into it.\<close>

datatype vec_arg = ByTmp "lit list" | ByOther "lit list"

fun vec_of :: "vec_arg \<Rightarrow> lit list" where
  "vec_of (ByTmp ls) = ls"
| "vec_of (ByOther ls) = ls"

fun after_tmp_clear :: "vec_arg \<Rightarrow> lit list" where
  "after_tmp_clear (ByTmp ls) = []"
| "after_tmp_clear (ByOther ls) = ls"

definition Xor_vec :: "'s circuit \<Rightarrow> vec_arg \<Rightarrow> 's gate" where
  "Xor_vec C vals s = (let tmp = collect [] (after_tmp_clear vals) in bin_op C (Xor2 C) tmp s)"

definition Xor_list :: "'s circuit \<Rightarrow> lit list \<Rightarrow> 's gate" where
  "Xor_list C vals s = (let tmp = collect [] vals in bin_op C (Xor2 C) tmp s)"

definition Xor_args :: "'s circuit \<Rightarrow> lit \<Rightarrow> lit \<Rightarrow> lit list \<Rightarrow> 's gate" where
  "Xor_args C a b args s = (let store = collect [a] (b # args) in Xor_vec C (ByOther store) s)"

definition Xnor2 :: "'s circuit \<Rightarrow> lit \<Rightarrow> lit \<Rightarrow> 's gate" where
  "Xnor2 C a b = negated (Xor2 C a b)"

definition Xnor_list :: "'s circuit \<Rightarrow> lit list \<Rightarrow> 's gate" where
  "Xnor_list C vals = negated (Xor_list C vals)"

definition Xnor_vec :: "'s circuit \<Rightarrow> vec_arg \<Rightarrow> 's gate" where
  "Xnor_vec C vals = negated (Xor_vec C vals)"

definition Xnor_args :: "'s circuit \<Rightarrow> lit \<Rightarrow> lit \<Rightarrow> lit list \<Rightarrow> 's gate" where
  "Xnor_args C a b args s = (let store = collect [a] (b # args) in Xnor_vec C (ByOther store) s)"

text \<open>\<open>Xnor_(a, b, out)\<close> calls \<open>Xnor(a, b, out)\<close>, which is the gate of three arguments.\<close>

definition Xnor2_to :: "'s circuit \<Rightarrow> lit \<Rightarrow> lit \<Rightarrow> lit \<Rightarrow> 's gate" where
  "Xnor2_to C a b out = negated (Xnor_args C a b [out])"

definition AssertXor_vec :: "'s circuit \<Rightarrow> vec_arg \<Rightarrow> 's assertion" where
  "AssertXor_vec C vals s = (let vs = vec_of vals in
     if length vs = 0 then Assert C (getFalse C) s
     else if length vs = 1 then Assert C (vs ! 0) s
     else if length vs = 2 then AssertXor2 C (vs ! 0) (vs ! 1) s
     else do { (l, s) \<leftarrow> Xor_vec C vals s; Assert C l s })"

definition AssertXor_list :: "'s circuit \<Rightarrow> lit list \<Rightarrow> 's assertion" where
  "AssertXor_list C vals s = AssertXor_vec C (ByTmp (collect [] vals)) s"

definition AssertXor_args :: "'s circuit \<Rightarrow> lit \<Rightarrow> lit \<Rightarrow> lit list \<Rightarrow> 's assertion" where
  "AssertXor_args C a b args s = AssertXor_vec C (ByOther (collect [a] (b # args))) s"

definition AssertXnor_vec :: "'s circuit \<Rightarrow> vec_arg \<Rightarrow> 's assertion" where
  "AssertXnor_vec C vals s = (let vs = vec_of vals in
     if length vs = 0 then Assert C (getFalse C) s
     else if length vs = 1 then Assert C (vs ! 0) s
     else if length vs = 2 then AssertXnor2 C (vs ! 0) (vs ! 1) s
     else do { (l, s) \<leftarrow> Xnor_vec C vals s; Assert C l s })"

definition AssertXnor_list :: "'s circuit \<Rightarrow> lit list \<Rightarrow> 's assertion" where
  "AssertXnor_list C vals s = AssertXnor_vec C (ByTmp (collect [] vals)) s"

definition AssertXnor_args :: "'s circuit \<Rightarrow> lit \<Rightarrow> lit \<Rightarrow> lit list \<Rightarrow> 's assertion" where
  "AssertXnor_args C a b args s = AssertXnor_vec C (ByOther (collect [a] (b # args))) s"

definition Implies :: "'s circuit \<Rightarrow> lit \<Rightarrow> lit \<Rightarrow> 's gate" where
  "Implies C a b = Or2 C (neg_lit a) b"

definition Implies_to :: "'s circuit \<Rightarrow> lit \<Rightarrow> lit \<Rightarrow> lit \<Rightarrow> 's gate" where
  "Implies_to C a b out = Or2_to C (neg_lit a) b out"

definition Ite :: "'s circuit \<Rightarrow> lit \<Rightarrow> lit \<Rightarrow> lit \<Rightarrow> 's gate" where
  "Ite C cond thn els s = do {
     (l, s) \<leftarrow> And2 C cond (neg_lit thn) s;
     (r, s) \<leftarrow> And2 C (neg_lit cond) (neg_lit els) s;
     And2 C (neg_lit l) (neg_lit r) s }"

definition Ite_to :: "'s circuit \<Rightarrow> lit \<Rightarrow> lit \<Rightarrow> lit \<Rightarrow> lit \<Rightarrow> 's gate" where
  "Ite_to C cond thn els out s = do {
     (l, s) \<leftarrow> And2 C cond (neg_lit thn) s;
     (r, s) \<leftarrow> And2 C (neg_lit cond) (neg_lit els) s;
     And2_to C (neg_lit l) (neg_lit r) out s }"

end
