(* ===== verification/Circuit_Spec.thy ===== *)
theory Circuit_Spec
  imports Circuit
begin

text \<open>
  What the gates compute, proved once for every solver that keeps the contract \<open>gate_solver\<close>: an
  invariant, a set of satisfying assignments and a set of variables in use, which the two operations
  the circuit needs (new variable, new clause) change in the documented way.
\<close>

subsection \<open>Parity\<close>

fun parity :: "bool list \<Rightarrow> bool" where
  "parity [] = False"
| "parity (b # bs) = (b \<noteq> parity bs)"

lemma parity_append [simp]: "parity (as @ bs) = (parity as \<noteq> parity bs)"
  by (induction as) auto

lemma parity_odd: "parity bs = odd (length (filter id bs))"
  by (induction bs) auto

text \<open>An exclusive or over an empty vector is the constant true.\<close>

definition xor_all :: "bool list \<Rightarrow> bool" where
  "xor_all bs = (bs = [] \<or> parity bs)"

subsection \<open>The contract of the solver\<close>

locale gate_solver =
  fixes C :: "'s circuit" and inv :: "'s \<Rightarrow> bool" and models :: "'s \<Rightarrow> (int \<Rightarrow> bool) set"
    and vars :: "'s \<Rightarrow> int set"
  assumes new_var: "inv s \<Longrightarrow> op_newVar (ci_ops C) s = (v, t) \<Longrightarrow>
      inv t \<and> 0 \<le> v \<and> v \<notin> vars s \<and> vars t = insert v (vars s) \<and> models t = models s"
    and new_clause: "inv s \<Longrightarrow> \<forall>l\<in>set ls. var l \<in> vars s \<Longrightarrow>
      \<exists>b t. op_addClause (ci_ops C) ls s = Some (b, t) \<and> inv t \<and> vars t = vars s \<and>
        models t = models s \<inter> {\<sigma>. clause_sat \<sigma> ls}"
    and only_vars: "inv s \<Longrightarrow> \<forall>v\<in>vars s. \<sigma> v = \<tau> v \<Longrightarrow> \<sigma> \<in> models s \<Longrightarrow> \<tau> \<in> models s"
    and const_true: "inv s \<Longrightarrow> var l \<in> vars s \<Longrightarrow> op_value (ci_ops C) s l = LTrue \<Longrightarrow>
      op_level (ci_ops C) s (var l) = 0 \<Longrightarrow> \<sigma> \<in> models s \<Longrightarrow> lit_val \<sigma> l"
    and value_neg: "inv s \<Longrightarrow> op_value (ci_ops C) s (neg_lit l) = neg_lbool (op_value (ci_ops C) s l)"
    and true_lit: "inv s \<Longrightarrow> var (ci_true C) \<in> vars s \<and> (\<forall>\<sigma>\<in>models s. lit_val \<sigma> (ci_true C))"
    and nonneg: "inv s \<Longrightarrow> v \<in> vars s \<Longrightarrow> 0 \<le> v"
    and cancel: "inv s \<Longrightarrow> inv (op_cancelUntil (ci_ops C) 0 s) \<and>
      vars (op_cancelUntil (ci_ops C) 0 s) = vars s \<and> models (op_cancelUntil (ci_ops C) 0 s) = models s \<and>
      op_decisionLevel (ci_ops C) (op_cancelUntil (ci_ops C) 0 s) = 0"
begin

subsection \<open>Results of gates and assertions\<close>

text \<open>A function of assignments that reads the variables in use only.\<close>

definition supp :: "'s \<Rightarrow> ((int \<Rightarrow> bool) \<Rightarrow> 'a) \<Rightarrow> bool" where
  "supp s f \<longleftrightarrow> (\<forall>\<sigma> \<tau>. (\<forall>v\<in>vars s. \<sigma> v = \<tau> v) \<longrightarrow> f \<sigma> = f \<tau>)"

text \<open>\<open>t\<close> is \<open>s\<close> with the constraint \<open>P\<close> on its variables, possibly over new auxiliary variables.\<close>

definition adds_constraint :: "'s \<Rightarrow> 's \<Rightarrow> ((int \<Rightarrow> bool) \<Rightarrow> bool) \<Rightarrow> bool" where
  "adds_constraint s t P \<longleftrightarrow> inv t \<and> vars s \<subseteq> vars t \<and> supp s P \<and> (\<forall>\<tau>\<in>models t. \<tau> \<in> models s \<and> P \<tau>) \<and>
     (\<forall>\<sigma>\<in>models s. P \<sigma> \<longrightarrow> (\<exists>\<tau>\<in>models t. \<forall>v\<in>vars s. \<tau> v = \<sigma> v))"

text \<open>\<open>l\<close> is a literal in use whose value in every satisfying assignment is \<open>f\<close>.\<close>

definition is_lit :: "'s \<Rightarrow> lit \<Rightarrow> ((int \<Rightarrow> bool) \<Rightarrow> bool) \<Rightarrow> bool" where
  "is_lit s l f \<longleftrightarrow> var l \<in> vars s \<and> supp s f \<and> (\<forall>\<sigma>\<in>models s. lit_val \<sigma> l = f \<sigma>)"

definition is_lits :: "'s \<Rightarrow> lit list \<Rightarrow> ((int \<Rightarrow> bool) \<Rightarrow> bool list) \<Rightarrow> bool" where
  "is_lits s ls f \<longleftrightarrow> (\<forall>l\<in>set ls. var l \<in> vars s) \<and> supp s f \<and> (\<forall>\<sigma>\<in>models s. map (lit_val \<sigma>) ls = f \<sigma>)"

definition gives :: "'s \<Rightarrow> ('a \<times> 's) option \<Rightarrow> ((int \<Rightarrow> bool) \<Rightarrow> bool) \<Rightarrow> ('a \<Rightarrow> 's \<Rightarrow> bool) \<Rightarrow> bool" where
  "gives s r P Q \<longleftrightarrow> (\<exists>x t. r = Some (x, t) \<and> adds_constraint s t P \<and> Q x t)"

definition asserts :: "'s \<Rightarrow> 's option \<Rightarrow> ((int \<Rightarrow> bool) \<Rightarrow> bool) \<Rightarrow> bool" where
  "asserts s r P \<longleftrightarrow> (\<exists>t. r = Some t \<and> adds_constraint s t P)"

abbreviation builds :: "'s \<Rightarrow> (lit \<times> 's) option \<Rightarrow> ((int \<Rightarrow> bool) \<Rightarrow> bool) \<Rightarrow> bool" where
  "builds s r f \<equiv> gives s r (\<lambda>_. True) (\<lambda>l t. is_lit t l f)"

abbreviation extends :: "'s \<Rightarrow> 's \<Rightarrow> bool" where
  "extends s t \<equiv> adds_constraint s t (\<lambda>_. True)"

lemma supp_lit [simp]: "var l \<in> vars s \<Longrightarrow> supp s (\<lambda>\<sigma>. lit_val \<sigma> l)"
  by (auto simp: supp_def lit_val_def)

lemma supp_const [simp]: "supp s (\<lambda>_. c)"
  by (simp add: supp_def)

lemma supp_comp1: "supp s f \<Longrightarrow> supp s (\<lambda>\<sigma>. h (f \<sigma>))"
  unfolding supp_def by metis

lemma supp_comp2: "supp s f \<Longrightarrow> supp s g \<Longrightarrow> supp s (\<lambda>\<sigma>. h (f \<sigma>) (g \<sigma>))"
  unfolding supp_def by metis

lemma supp_comp3: "supp s f \<Longrightarrow> supp s g \<Longrightarrow> supp s k \<Longrightarrow> supp s (\<lambda>\<sigma>. h (f \<sigma>) (g \<sigma>) (k \<sigma>))"
  unfolding supp_def by metis

lemma supp_not: "supp s f \<Longrightarrow> supp s (\<lambda>\<sigma>. \<not> f \<sigma>)"
  and supp_and: "supp s f \<Longrightarrow> supp s g \<Longrightarrow> supp s (\<lambda>\<sigma>. f \<sigma> \<and> g \<sigma>)"
  and supp_or: "supp s f \<Longrightarrow> supp s g \<Longrightarrow> supp s (\<lambda>\<sigma>. f \<sigma> \<or> g \<sigma>)"
  and supp_imp: "supp s f \<Longrightarrow> supp s g \<Longrightarrow> supp s (\<lambda>\<sigma>. f \<sigma> \<longrightarrow> g \<sigma>)"
  and supp_eq: "supp s h \<Longrightarrow> supp s k \<Longrightarrow> supp s (\<lambda>\<sigma>. h \<sigma> = k \<sigma>)"
  and supp_if: "supp s f \<Longrightarrow> supp s h \<Longrightarrow> supp s k \<Longrightarrow> supp s (\<lambda>\<sigma>. if f \<sigma> then h \<sigma> else k \<sigma>)"
  by (erule supp_comp1 supp_comp2 supp_comp3, assumption?)+

lemmas supp_intros = supp_not supp_and supp_or supp_imp supp_eq supp_if

lemma supp_ball:
  assumes "\<And>x. x \<in> A \<Longrightarrow> supp s (P x)"
  shows "supp s (\<lambda>\<sigma>. \<forall>x\<in>A. P x \<sigma>)"
  unfolding supp_def
proof (intro allI impI)
  fix \<sigma> \<tau> :: "int \<Rightarrow> bool" assume "\<forall>v\<in>vars s. \<sigma> v = \<tau> v"
  then have "P x \<sigma> = P x \<tau>" if "x \<in> A" for x using assms [OF that] unfolding supp_def by blast
  then show "(\<forall>x\<in>A. P x \<sigma>) = (\<forall>x\<in>A. P x \<tau>)" by simp
qed

lemma supp_mono: "supp s f \<Longrightarrow> vars s \<subseteq> vars t \<Longrightarrow> supp t f"
  unfolding supp_def by blast

lemma supp_agree: "supp s f \<Longrightarrow> \<forall>v\<in>vars s. \<tau> v = \<sigma> v \<Longrightarrow> f \<tau> = f \<sigma>"
  unfolding supp_def by blast

lemma adds_refl: "inv s \<Longrightarrow> extends s s"
  by (auto simp: adds_constraint_def)

lemma adds_inv: "adds_constraint s t P \<Longrightarrow> inv t"
  by (simp add: adds_constraint_def)

lemma adds_vars: "adds_constraint s t P \<Longrightarrow> v \<in> vars s \<Longrightarrow> v \<in> vars t"
  by (auto simp: adds_constraint_def)

lemma adds_trans:
  assumes "adds_constraint s t P" "adds_constraint t u Q" "supp s Q"
  shows "adds_constraint s u (\<lambda>\<sigma>. P \<sigma> \<and> Q \<sigma>)"
proof -
  have 1: "\<exists>\<tau>\<in>models u. \<forall>v\<in>vars s. \<tau> v = \<sigma> v" if a: "\<sigma> \<in> models s" "P \<sigma>" "Q \<sigma>" for \<sigma>
  proof -
    obtain \<tau> where \<tau>: "\<tau> \<in> models t" "\<forall>v\<in>vars s. \<tau> v = \<sigma> v"
      using assms(1) a by (auto simp: adds_constraint_def)
    have "Q \<tau>" using supp_agree [OF assms(3) \<tau>(2)] a(3) by simp
    then obtain \<tau>' where "\<tau>' \<in> models u" "\<forall>v\<in>vars t. \<tau>' v = \<tau> v"
      using assms(2) \<tau>(1) by (auto simp: adds_constraint_def)
    then show ?thesis using \<tau>(2) assms(1) by (intro bexI [of _ \<tau>']) (auto simp: adds_constraint_def)
  qed
  have 2: "supp s (\<lambda>\<sigma>. P \<sigma> \<and> Q \<sigma>)"
    using assms(1,3) supp_comp2 [of s P Q "(\<and>)"] by (simp add: adds_constraint_def)
  show ?thesis using 1 2 assms(1,2) by (auto simp: adds_constraint_def)
qed

lemma extends_trans: "extends s t \<Longrightarrow> extends t u \<Longrightarrow> extends s u"
  using adds_trans [of s t "\<lambda>_. True" u "\<lambda>_. True"] by simp

lemma is_lit_mono: "is_lit s l f \<Longrightarrow> adds_constraint s t P \<Longrightarrow> is_lit t l f"
  by (auto simp: is_lit_def adds_constraint_def intro: supp_mono)

lemma is_lits_mono: "is_lits s ls f \<Longrightarrow> adds_constraint s t P \<Longrightarrow> is_lits t ls f"
  by (auto simp: is_lits_def adds_constraint_def intro: supp_mono)

lemma is_lit_self: "var l \<in> vars s \<Longrightarrow> is_lit s l (\<lambda>\<sigma>. lit_val \<sigma> l)"
  by (simp add: is_lit_def)

lemma is_lits_self: "\<forall>l\<in>set ls. var l \<in> vars s \<Longrightarrow> is_lits s ls (\<lambda>\<sigma>. map (lit_val \<sigma>) ls)"
proof -
  assume a: "\<forall>l\<in>set ls. var l \<in> vars s"
  then have "supp s (\<lambda>\<sigma>. map (lit_val \<sigma>) ls)" by (auto simp: supp_def lit_val_def)
  then show ?thesis using a by (simp add: is_lits_def)
qed

lemma is_lit_neg: "is_lit s l f \<Longrightarrow> is_lit s (neg_lit l) (\<lambda>\<sigma>. \<not> f \<sigma>)"
  by (auto simp: is_lit_def intro: supp_comp1)

lemma is_lit_true: "inv s \<Longrightarrow> is_lit s (getTrue C) (\<lambda>_. True)"
  using true_lit by (simp add: is_lit_def getTrue_def)

lemma is_lit_false: "inv s \<Longrightarrow> is_lit s (getFalse C) (\<lambda>_. False)"
  using true_lit by (simp add: is_lit_def getFalse_def)

lemma is_lit_supp: "is_lit s l f \<Longrightarrow> supp s f"
  by (simp add: is_lit_def)

lemma is_lit_eq: "is_lit s l f \<Longrightarrow> supp s g \<Longrightarrow> (\<And>\<sigma>. \<sigma> \<in> models s \<Longrightarrow> f \<sigma> = g \<sigma>) \<Longrightarrow> is_lit s l g"
  by (simp add: is_lit_def)

lemma is_lit_not_undef: "inv s \<Longrightarrow> is_lit s l f \<Longrightarrow> l \<noteq> lit_Undef"
  using nonneg [of s "var l"] by (auto simp: is_lit_def)

lemma is_lits_Nil: "is_lits s [] (\<lambda>_. [])"
  by (simp add: is_lits_def)

lemma is_lits_Cons: "is_lit s l f \<Longrightarrow> is_lits s ls g \<Longrightarrow> is_lits s (l # ls) (\<lambda>\<sigma>. f \<sigma> # g \<sigma>)"
  by (auto simp: is_lit_def is_lits_def intro: supp_comp2)

lemma is_lits_append: "is_lits s ks f \<Longrightarrow> is_lits s ls g \<Longrightarrow> is_lits s (ks @ ls) (\<lambda>\<sigma>. f \<sigma> @ g \<sigma>)"
  by (auto simp: is_lits_def intro: supp_comp2)

subsection \<open>Composition\<close>

lemma gives_bind:
  assumes "gives s r (\<lambda>_. True) Q"
    and "\<And>x t. extends s t \<Longrightarrow> Q x t \<Longrightarrow> gives t (k x t) (\<lambda>_. True) R"
  shows "gives s (do { (x, t) \<leftarrow> r; k x t }) (\<lambda>_. True) R"
proof -
  obtain x t where r: "r = Some (x, t)" "extends s t" "Q x t" using assms(1) by (auto simp: gives_def)
  then obtain y u where "k x t = Some (y, u)" "extends t u" "R y u"
    using assms(2) [OF r(2,3)] by (auto simp: gives_def)
  then show ?thesis using r extends_trans by (auto simp: gives_def)
qed

lemma gives_return: "inv s \<Longrightarrow> Q x s \<Longrightarrow> gives s (Some (x, s)) (\<lambda>_. True) Q"
  by (simp add: gives_def adds_refl)

lemma gives_mono: "gives s r P Q \<Longrightarrow> (\<And>x t. extends s t \<Longrightarrow> Q x t \<Longrightarrow> R x t) \<Longrightarrow> P = (\<lambda>_. True) \<Longrightarrow> gives s r P R"
  by (auto simp: gives_def)

lemma gives_after:
  assumes "asserts s r P" "\<And>t. adds_constraint s t P \<Longrightarrow> Q x t"
  shows "gives s (do { t \<leftarrow> r; Some (x, t) }) P Q"
  using assms by (auto simp: gives_def asserts_def)

lemma asserts_bind:
  assumes "asserts s r P" "\<And>t. adds_constraint s t P \<Longrightarrow> asserts t (k t) Q" "supp s Q"
  shows "asserts s (do { t \<leftarrow> r; k t }) (\<lambda>\<sigma>. P \<sigma> \<and> Q \<sigma>)"
  using assms adds_trans unfolding asserts_def by fastforce

lemma asserts_after_gate:
  assumes "gives s r (\<lambda>_. True) G" "\<And>x t. extends s t \<Longrightarrow> G x t \<Longrightarrow> asserts t (k x t) Q" "supp s Q"
  shows "asserts s (do { (x, t) \<leftarrow> r; k x t }) Q"
  using assms adds_trans [of s _ "\<lambda>_. True" _ Q] unfolding asserts_def gives_def by fastforce

lemma asserts_skip: "inv s \<Longrightarrow> asserts s (Some s) (\<lambda>_. True)"
  by (simp add: asserts_def adds_refl)

lemma asserts_eq: "asserts s r P \<Longrightarrow> supp s Q \<Longrightarrow> (\<And>\<sigma>. \<sigma> \<in> models s \<Longrightarrow> P \<sigma> = Q \<sigma>) \<Longrightarrow> asserts s r Q"
  by (auto simp: asserts_def adds_constraint_def)

lemma supp_clause: "\<forall>l\<in>set ls. var l \<in> vars s \<Longrightarrow> supp s (\<lambda>\<sigma>. clause_sat \<sigma> ls)"
  by (auto simp: supp_def clause_sat_def lit_val_def)

lemma add_clause_asserts:
  assumes "inv s" "\<forall>l\<in>set ls. var l \<in> vars s"
  shows "asserts s (add_clause C ls s) (\<lambda>\<sigma>. clause_sat \<sigma> ls)"
  using new_clause [OF assms] supp_clause [OF assms(2)]
  by (auto simp: asserts_def add_clause_def adds_constraint_def)

subsection \<open>Defining a new literal by clauses\<close>

lemma for_each_asserts:
  assumes "inv s" "\<And>x t. x \<in> set xs \<Longrightarrow> inv t \<Longrightarrow> vars s \<subseteq> vars t \<Longrightarrow> asserts t (f x t) (P x)"
    and "\<And>x. x \<in> set xs \<Longrightarrow> supp s (P x)"
  shows "asserts s (for_each f xs s) (\<lambda>\<sigma>. \<forall>x\<in>set xs. P x \<sigma>)"
  using assms
proof (induction xs arbitrary: s)
  case Nil
  then show ?case by (simp add: asserts_skip)
next
  case (Cons x xs)
  have 1: "asserts s (f x s) (P x)" using Cons.prems by simp
  have 2: "asserts t (for_each f xs t) (\<lambda>\<sigma>. \<forall>y\<in>set xs. P y \<sigma>)" if t: "adds_constraint s t (P x)" for t
  proof (rule Cons.IH)
    show "inv t" using t by (rule adds_inv)
    have vs: "vars s \<subseteq> vars t" using t by (simp add: adds_constraint_def)
    show "asserts u (f y u) (P y)" if "y \<in> set xs" "inv u" "vars t \<subseteq> vars u" for y u
      using that vs by (intro Cons.prems(2)) auto
    show "supp t (P y)" if "y \<in> set xs" for y
      by (rule supp_mono [OF Cons.prems(3) vs]) (use that in simp)
  qed
  have 3: "supp s (\<lambda>\<sigma>. \<forall>y\<in>set xs. P y \<sigma>)"
    by (rule supp_ball) (use Cons.prems(3) in simp)
  show ?case using asserts_bind [OF 1 2 3] by simp
qed

lemma clauses_assert:
  assumes "inv s" "\<forall>c\<in>set cs. \<forall>l\<in>set c. var l \<in> vars s"
  shows "asserts s (for_each (add_clause C) cs s) (\<lambda>\<sigma>. \<forall>c\<in>set cs. clause_sat \<sigma> c)"
proof (rule for_each_asserts [OF assms(1)])
  show "asserts t (add_clause C c t) (\<lambda>\<sigma>. clause_sat \<sigma> c)" if "c \<in> set cs" "inv t" "vars s \<subseteq> vars t" for c t
    by (rule add_clause_asserts) (use that assms(2) in auto)
  show "supp s (\<lambda>\<sigma>. clause_sat \<sigma> c)" if "c \<in> set cs" for c
    by (rule supp_clause) (use that assms(2) in auto)
qed

lemma newLit_fresh:
  assumes "inv s"
  obtains l t where "newLit C s = Some (l, t)" "inv t" "vars t = insert (var l) (vars s)" "var l \<notin> vars s"
    "models t = models s" "sign_lit l = False" "0 \<le> var l"
proof -
  obtain v t where nv: "op_newVar (ci_ops C) s = (v, t)" by fastforce
  from new_var [OF assms nv] show ?thesis by (intro that [of "mkLit v False" t]) (simp_all add: newLit_def nv)
qed

lemma define_gate:
  assumes s: "inv s" and f: "supp s f"
    and vs: "\<And>out. \<forall>c\<in>set (cs out). \<forall>l\<in>set c. var l \<in> insert (var out) (vars s)"
    and sem: "\<And>out t \<sigma>. \<sigma> \<in> models s \<Longrightarrow> (\<forall>c\<in>set (cs out). clause_sat \<sigma> c) \<longleftrightarrow> lit_val \<sigma> out = f \<sigma>"
  shows "builds s (do { (out, t) \<leftarrow> newLit C s; t \<leftarrow> for_each (add_clause C) (cs out) t; Some (out, t) }) f"
proof -
  obtain l t where l: "newLit C s = Some (l, t)" "inv t" "vars t = insert (var l) (vars s)" "var l \<notin> vars s"
    "models t = models s" "sign_lit l = False" by (rule newLit_fresh [OF s])
  have "asserts t (for_each (add_clause C) (cs l) t) (\<lambda>\<sigma>. \<forall>c\<in>set (cs l). clause_sat \<sigma> c)"
    using clauses_assert [OF l(2)] vs [of l] l(3) by simp
  then obtain u where u: "for_each (add_clause C) (cs l) t = Some u"
    "adds_constraint t u (\<lambda>\<sigma>. \<forall>c\<in>set (cs l). clause_sat \<sigma> c)" by (auto simp: asserts_def)
  have vsu: "vars s \<subseteq> vars u" "var l \<in> vars u" using u(2) l(3) by (auto simp: adds_constraint_def)
  have mu: "\<tau> \<in> models s \<and> lit_val \<tau> l = f \<tau>" if "\<tau> \<in> models u" for \<tau>
  proof -
    have "\<tau> \<in> models s" "\<forall>c\<in>set (cs l). clause_sat \<tau> c"
      using u(2) that l(5) by (simp_all add: adds_constraint_def)
    then show ?thesis using sem by blast
  qed
  have "\<exists>\<tau>\<in>models u. \<forall>v\<in>vars s. \<tau> v = \<sigma> v" if a: "\<sigma> \<in> models s" for \<sigma>
  proof -
    let ?\<tau> = "\<sigma>(var l := f \<sigma>)"
    have ag: "\<forall>v\<in>vars s. ?\<tau> v = \<sigma> v" using l(4) by auto
    have m: "?\<tau> \<in> models s" by (rule only_vars [OF s _ a]) (use ag in auto)
    have "lit_val ?\<tau> l = f ?\<tau>" unfolding supp_agree [OF f ag] using l(6) by (simp add: lit_val_def)
    then have "\<forall>c\<in>set (cs l). clause_sat ?\<tau> c" using sem [OF m] by blast
    then obtain \<tau>' where t': "\<tau>' \<in> models u" "\<forall>v\<in>vars t. \<tau>' v = ?\<tau> v"
      using u(2) m l(5) unfolding adds_constraint_def by blast
    then have "\<forall>v\<in>vars s. \<tau>' v = \<sigma> v" using l(3,4) ag by simp
    then show ?thesis using t'(1) by blast
  qed
  then have "extends s u" using u(2) vsu mu by (simp add: adds_constraint_def)
  moreover have "is_lit u l f" using vsu mu supp_mono [OF f vsu(1)] by (simp add: is_lit_def)
  ultimately show ?thesis using l(1) u(1) by (simp add: gives_def)
qed

lemma clauses_define:
  assumes "inv s" "\<forall>c\<in>set cs. \<forall>l\<in>set c. var l \<in> vars s" "supp s P"
    and "\<And>\<sigma>. \<sigma> \<in> models s \<Longrightarrow> (\<forall>c\<in>set cs. clause_sat \<sigma> c) = P \<sigma>"
  shows "asserts s (for_each (add_clause C) cs s) P"
  using asserts_eq [OF clauses_assert [OF assms(1,2)] assms(3)] assms(4) by simp

subsection \<open>Constants\<close>

lemma isConst_lit:
  assumes "inv s" "is_lit s l f" "\<sigma> \<in> models s"
  shows "isConstTrue C s l \<Longrightarrow> f \<sigma>" "isConstFalse C s l \<Longrightarrow> \<not> f \<sigma>"
proof -
  have l: "var l \<in> vars s" "lit_val \<sigma> l = f \<sigma>" using assms by (simp_all add: is_lit_def)
  show "isConstTrue C s l \<Longrightarrow> f \<sigma>" using const_true [of s l \<sigma>] assms l by (simp add: isConstTrue_def)
  show "isConstFalse C s l \<Longrightarrow> \<not> f \<sigma>"
    using const_true [of s "neg_lit l" \<sigma>] value_neg [of s l] assms l by (simp add: isConstFalse_def)
qed

lemma is_lit_same_var:
  assumes "is_lit s a f" "is_lit s b g" "var a = var b" "\<sigma> \<in> models s"
  shows "g \<sigma> = (if a = b then f \<sigma> else \<not> f \<sigma>)"
  using assms by (cases "a = b") (auto simp: is_lit_def same_var)

subsection \<open>Two-argument gates\<close>

lemma is_lit_vars: "is_lit s l f \<Longrightarrow> var l \<in> vars s" and is_lit_val: "is_lit s l f \<Longrightarrow> \<sigma> \<in> models s \<Longrightarrow> lit_val \<sigma> l = f \<sigma>"
  by (simp_all add: is_lit_def)

lemma builds_return: "inv s \<Longrightarrow> is_lit s l f \<Longrightarrow> builds s (Some (l, s)) f"
  by (rule gives_return)

lemma And_clauses_each: "And_clauses C a b out s = do {
    t \<leftarrow> for_each (add_clause C) [[a, neg_lit out], [b, neg_lit out], [neg_lit a, neg_lit b, out]] s; Some (out, t) }"
  by (simp add: And_clauses_def)

lemma Or_clauses_each: "Or_clauses C a b out s = do {
    t \<leftarrow> for_each (add_clause C) [[neg_lit a, out], [neg_lit b, out], [a, b, neg_lit out]] s; Some (out, t) }"
  by (simp add: Or_clauses_def)

lemma Xor_clauses_each: "Xor_clauses C a b out s = do {
    t \<leftarrow> for_each (add_clause C) [[a, b, neg_lit out], [neg_lit a, b, out], [a, neg_lit b, out],
      [neg_lit a, neg_lit b, neg_lit out]] s; Some (out, t) }"
  by (simp add: Xor_clauses_def)

lemma And2_builds [gate_rules]:
  assumes "inv s" "is_lit s a f" "is_lit s b g"
  shows "builds s (And2 C a b s) (\<lambda>\<sigma>. f \<sigma> \<and> g \<sigma>)"
proof -
  have sp: "supp s (\<lambda>\<sigma>. f \<sigma> \<and> g \<sigma>)" using assms(2,3) by (intro supp_intros is_lit_supp)
  note c = isConst_lit [OF assms(1,2)] isConst_lit [OF assms(1,3)] and sv = is_lit_same_var [OF assms(2,3)]
  have new: "builds s (do { (out, t) \<leftarrow> newLit C s; And_clauses C a b out t }) (\<lambda>\<sigma>. f \<sigma> \<and> g \<sigma>)"
    unfolding And_clauses_each
    by (rule define_gate [OF assms(1) sp]) (use assms(2,3) in \<open>auto simp: is_lit_vars is_lit_val\<close>)
  have ret: "builds s (Some (l, s)) (\<lambda>\<sigma>. f \<sigma> \<and> g \<sigma>)"
    if "is_lit s l h" "\<And>\<sigma>. \<sigma> \<in> models s \<Longrightarrow> h \<sigma> = (f \<sigma> \<and> g \<sigma>)" for l h
    by (rule builds_return [OF assms(1) is_lit_eq [OF that(1) sp that(2)]])
  have f0: "is_lit s (getFalse C) (\<lambda>_. False)" using is_lit_false [OF assms(1)] .
  show ?thesis
    unfolding And2_def isConst_def
    using new ret [OF assms(2)] ret [OF assms(3)] ret [OF f0] c sv
    by (auto simp: lit_eq_iff)
qed

lemma Or2_builds [gate_rules]:
  assumes "inv s" "is_lit s a f" "is_lit s b g"
  shows "builds s (Or2 C a b s) (\<lambda>\<sigma>. f \<sigma> \<or> g \<sigma>)"
proof -
  have sp: "supp s (\<lambda>\<sigma>. f \<sigma> \<or> g \<sigma>)" using assms(2,3) by (intro supp_intros is_lit_supp)
  note c = isConst_lit [OF assms(1,2)] isConst_lit [OF assms(1,3)] and sv = is_lit_same_var [OF assms(2,3)]
  have new: "builds s (do { (out, t) \<leftarrow> newLit C s; Or_clauses C a b out t }) (\<lambda>\<sigma>. f \<sigma> \<or> g \<sigma>)"
    unfolding Or_clauses_each
    by (rule define_gate [OF assms(1) sp]) (use assms(2,3) in \<open>auto simp: is_lit_vars is_lit_val\<close>)
  have ret: "builds s (Some (l, s)) (\<lambda>\<sigma>. f \<sigma> \<or> g \<sigma>)"
    if "is_lit s l h" "\<And>\<sigma>. \<sigma> \<in> models s \<Longrightarrow> h \<sigma> = (f \<sigma> \<or> g \<sigma>)" for l h
    by (rule builds_return [OF assms(1) is_lit_eq [OF that(1) sp that(2)]])
  show ?thesis
    unfolding Or2_def
    using new ret [OF assms(2)] ret [OF assms(3)] ret [OF is_lit_true [OF assms(1)]] c sv
    by (auto simp: lit_eq_iff)
qed

lemma Xor2_builds [gate_rules]:
  assumes "inv s" "is_lit s a f" "is_lit s b g"
  shows "builds s (Xor2 C a b s) (\<lambda>\<sigma>. f \<sigma> \<noteq> g \<sigma>)"
proof -
  have sp: "supp s (\<lambda>\<sigma>. f \<sigma> \<noteq> g \<sigma>)" using assms(2,3) by (intro supp_intros is_lit_supp)
  note c = isConst_lit [OF assms(1,2)] isConst_lit [OF assms(1,3)]
  have new: "builds s (do { (out, t) \<leftarrow> newLit C s; Xor_clauses C a b out t }) (\<lambda>\<sigma>. f \<sigma> \<noteq> g \<sigma>)"
    unfolding Xor_clauses_each
    by (rule define_gate [OF assms(1) sp]) (use assms(2,3) in \<open>auto simp: is_lit_vars is_lit_val\<close>)
  have ret: "builds s (Some (l, s)) (\<lambda>\<sigma>. f \<sigma> \<noteq> g \<sigma>)"
    if "is_lit s l h" "\<And>\<sigma>. \<sigma> \<in> models s \<Longrightarrow> h \<sigma> = (f \<sigma> \<noteq> g \<sigma>)" for l h
    by (rule builds_return [OF assms(1) is_lit_eq [OF that(1) sp that(2)]])
  show ?thesis
    unfolding Xor2_def isConst_def
    using new ret [OF assms(2)] ret [OF assms(3)] ret [OF is_lit_neg [OF assms(2)]] ret [OF is_lit_neg [OF assms(3)]] c
    by auto
qed

lemma builds_eq:
  assumes "builds s r f" "\<And>\<sigma>. f \<sigma> = g \<sigma>"
  shows "builds s r g"
proof -
  have "f = g" using assms(2) by (rule ext)
  then show ?thesis using assms(1) by simp
qed

lemma negated_builds:
  assumes "builds s (g s) f"
  shows "builds s (negated g s) (\<lambda>\<sigma>. \<not> f \<sigma>)"
  unfolding negated_def
  by (rule gives_bind [OF assms], rule gives_return) (auto simp: adds_inv is_lit_neg)

lemma Xnor2_builds [gate_rules]:
  assumes "inv s" "is_lit s a f" "is_lit s b g"
  shows "builds s (Xnor2 C a b s) (\<lambda>\<sigma>. f \<sigma> = g \<sigma>)"
  unfolding Xnor2_def
  by (rule builds_eq [OF negated_builds], rule Xor2_builds [OF assms]) simp

lemma Nor2_builds [gate_rules]:
  assumes "inv s" "is_lit s a f" "is_lit s b g"
  shows "builds s (Nor2 C a b s) (\<lambda>\<sigma>. \<not> (f \<sigma> \<or> g \<sigma>))"
  unfolding Nor2_def
  by (rule builds_eq [OF negated_builds], rule Or2_builds [OF assms]) simp

lemma Nand2_builds [gate_rules]:
  assumes "inv s" "is_lit s a f" "is_lit s b g"
  shows "builds s (Nand2 C a b s) (\<lambda>\<sigma>. \<not> (f \<sigma> \<and> g \<sigma>))"
  unfolding Nand2_def
  by (rule builds_eq [OF negated_builds], rule And2_builds [OF assms]) simp

lemma Implies_builds [gate_rules]:
  assumes "inv s" "is_lit s a f" "is_lit s b g"
  shows "builds s (Implies C a b s) (\<lambda>\<sigma>. f \<sigma> \<longrightarrow> g \<sigma>)"
  unfolding Implies_def
  by (rule builds_eq [OF Or2_builds [OF assms(1) is_lit_neg [OF assms(2)] assms(3)]]) blast

lemma Ite_builds [gate_rules]:
  assumes "inv s" "is_lit s c f" "is_lit s a g" "is_lit s b h"
  shows "builds s (Ite C c a b s) (\<lambda>\<sigma>. if f \<sigma> then g \<sigma> else h \<sigma>)"
  unfolding Ite_def
proof (rule gives_bind [OF And2_builds [OF assms(1,2) is_lit_neg [OF assms(3)]]])
  fix l t assume t: "extends s t" "is_lit t l (\<lambda>\<sigma>. f \<sigma> \<and> \<not> g \<sigma>)"
  note c = is_lit_neg [OF is_lit_mono [OF assms(2) t(1)]] and b = is_lit_neg [OF is_lit_mono [OF assms(4) t(1)]]
  show "builds t (do { (r, u) \<leftarrow> And2 C (neg_lit c) (neg_lit b) t; And2 C (neg_lit l) (neg_lit r) u })
      (\<lambda>\<sigma>. if f \<sigma> then g \<sigma> else h \<sigma>)"
  proof (rule gives_bind [OF And2_builds [OF adds_inv [OF t(1)] c b]])
    fix r u assume u: "extends t u" "is_lit u r (\<lambda>\<sigma>. \<not> f \<sigma> \<and> \<not> h \<sigma>)"
    show "builds u (And2 C (neg_lit l) (neg_lit r) u) (\<lambda>\<sigma>. if f \<sigma> then g \<sigma> else h \<sigma>)"
      by (rule builds_eq [OF And2_builds [OF adds_inv [OF u(1)] is_lit_neg [OF is_lit_mono [OF t(2) u(1)]]
              is_lit_neg [OF u(2)]]]) auto
  qed
qed

subsection \<open>Assertions\<close>

lemma for_each_single [simp]: "for_each f [x] = f x"
proof
  show "for_each f [x] s = f x s" for s by (cases "f x s") simp_all
qed

lemma AssertXnor2_each: "AssertXnor2 C a b s = for_each (add_clause C) [[neg_lit a, b], [a, neg_lit b]] s"
  by (simp add: AssertXnor2_def)

lemma AssertXor2_each: "AssertXor2 C a b s = for_each (add_clause C) [[a, b], [neg_lit a, neg_lit b]] s"
  by (simp add: AssertXor2_def)

lemma Assert_asserts:
  assumes "inv s" "is_lit s a f"
  shows "asserts s (Assert C a s) f"
  using clauses_define [OF assms(1), of "[[a]]" f] assms(2)
  by (simp add: Assert_def is_lit_vars is_lit_val is_lit_supp)

lemma AssertEqual_asserts:
  assumes "inv s" "is_lit s a f" "is_lit s b g"
  shows "asserts s (AssertEqual C a b s) (\<lambda>\<sigma>. f \<sigma> = g \<sigma>)"
  unfolding AssertEqual_def AssertXnor2_each
  by (rule clauses_define [OF assms(1)])
    (use assms(2,3) is_lit_supp [OF assms(2)] is_lit_supp [OF assms(3)] in
      \<open>auto simp: is_lit_vars is_lit_val intro!: supp_intros\<close>)

lemma AssertXor2_asserts:
  assumes "inv s" "is_lit s a f" "is_lit s b g"
  shows "asserts s (AssertXor2 C a b s) (\<lambda>\<sigma>. f \<sigma> \<noteq> g \<sigma>)"
  unfolding AssertXor2_each
  by (rule clauses_define [OF assms(1)])
    (use assms(2,3) is_lit_supp [OF assms(2)] is_lit_supp [OF assms(3)] in
      \<open>auto simp: is_lit_vars is_lit_val intro!: supp_intros\<close>)

lemma AssertImplies_asserts:
  assumes "inv s" "is_lit s a f" "is_lit s b g"
  shows "asserts s (AssertImplies C a b s) (\<lambda>\<sigma>. f \<sigma> \<longrightarrow> g \<sigma>)"
  unfolding AssertImplies_def
  by (rule asserts_eq [OF add_clause_asserts [OF assms(1)]])
    (use assms(2,3) is_lit_supp [OF assms(2)] is_lit_supp [OF assms(3)] in
      \<open>auto simp: is_lit_vars is_lit_val intro!: supp_intros\<close>)

subsection \<open>Gates with an output argument\<close>

definition sets_out :: "'s \<Rightarrow> (lit \<times> 's) option \<Rightarrow> lit \<Rightarrow> ((int \<Rightarrow> bool) \<Rightarrow> bool) \<Rightarrow> bool" where
  "sets_out s r out f \<longleftrightarrow> (out = lit_Undef \<longrightarrow> builds s r f) \<and>
     (\<forall>h. is_lit s out h \<longrightarrow> gives s r (\<lambda>\<sigma>. h \<sigma> = f \<sigma>) (\<lambda>l t. is_lit t l f))"

lemma gives_lit_after:
  assumes "asserts s r P" "is_lit s l k" "supp s f" "\<And>\<sigma>. \<sigma> \<in> models s \<Longrightarrow> P \<sigma> \<Longrightarrow> k \<sigma> = f \<sigma>"
  shows "gives s (do { t \<leftarrow> r; Some (l, t) }) P (\<lambda>l t. is_lit t l f)"
proof (rule gives_after [OF assms(1)])
  fix t assume t: "adds_constraint s t P"
  then have "supp t f" using supp_mono [OF assms(3)] by (simp add: adds_constraint_def)
  then show "is_lit t l f"
    by (rule is_lit_eq [OF is_lit_mono [OF assms(2) t]])
      (use t assms(4) in \<open>auto simp: adds_constraint_def\<close>)
qed

lemma sets_out_early:
  assumes "inv s" "is_lit s l k" "supp s f" "\<And>\<sigma>. \<sigma> \<in> models s \<Longrightarrow> k \<sigma> = f \<sigma>"
    and "\<And>h. is_lit s out h \<Longrightarrow> asserts s (A s) (\<lambda>\<sigma>. h \<sigma> = f \<sigma>)"
  shows "sets_out s (do { t \<leftarrow> if_given out A s; Some (l, t) }) out f"
    "sets_out s (if out \<noteq> lit_Undef then do { t \<leftarrow> A s; Some (out, t) } else Some (l, s)) out f"
proof -
  have b: "builds s (Some (l, s)) f" by (rule builds_return [OF assms(1) is_lit_eq [OF assms(2-4)]])
  have ne: "out \<noteq> lit_Undef" if "is_lit s out h" for h using is_lit_not_undef [OF assms(1) that] .
  show "sets_out s (do { t \<leftarrow> if_given out A s; Some (l, t) }) out f"
    using b ne gives_lit_after [OF assms(5) assms(2,3,4)] by (auto simp: sets_out_def if_given_def)
  show "sets_out s (if out \<noteq> lit_Undef then do { t \<leftarrow> A s; Some (out, t) } else Some (l, s)) out f"
    using b ne gives_lit_after [OF assms(5) _ assms(3)] by (auto simp: sets_out_def)
qed

lemma sets_out_gate:
  assumes s: "inv s" and f: "supp s f"
    and vs: "\<And>out. \<forall>c\<in>set (cs out). \<forall>l\<in>set c. var l \<in> insert (var out) (vars s)"
    and sem: "\<And>out \<sigma>. \<sigma> \<in> models s \<Longrightarrow> (\<forall>c\<in>set (cs out). clause_sat \<sigma> c) \<longleftrightarrow> lit_val \<sigma> out = f \<sigma>"
  shows "sets_out s (do { (out, t) \<leftarrow> out_or_new C out s; t \<leftarrow> for_each (add_clause C) (cs out) t; Some (out, t) }) out f"
proof -
  have "builds s (do { (out, t) \<leftarrow> newLit C s; t \<leftarrow> for_each (add_clause C) (cs out) t; Some (out, t) }) f"
    by (rule define_gate [OF s f vs sem])
  moreover have "gives s (do { t \<leftarrow> for_each (add_clause C) (cs out) s; Some (out, t) }) (\<lambda>\<sigma>. h \<sigma> = f \<sigma>) (\<lambda>l t. is_lit t l f)"
    if h: "is_lit s out h" for h
  proof -
    have v: "var out \<in> vars s" using h by (rule is_lit_vars)
    have in_use: "\<forall>c\<in>set (cs out). \<forall>l\<in>set c. var l \<in> vars s"
      using vs [of out] v by (simp add: insert_absorb)
    have "asserts s (for_each (add_clause C) (cs out) s) (\<lambda>\<sigma>. h \<sigma> = f \<sigma>)"
      by (rule clauses_define [OF s in_use])
        (use sem h f is_lit_supp [OF h] in \<open>auto simp: is_lit_val intro!: supp_intros\<close>)
    from gives_lit_after [OF this h f] show ?thesis by simp
  qed
  moreover have "out \<noteq> lit_Undef" if "is_lit s out h" for h using is_lit_not_undef [OF s that] .
  ultimately show ?thesis by (auto simp: sets_out_def out_or_new_def)
qed

lemma sets_out_if:
  "(b \<Longrightarrow> sets_out s x out f) \<Longrightarrow> (\<not> b \<Longrightarrow> sets_out s y out f) \<Longrightarrow> sets_out s (if b then x else y) out f"
  by simp

text \<open>The assertion an early return makes of a given output: that it equals an argument, or its sign.\<close>

lemma out_equal:
  assumes "inv s" "is_lit s l k" "supp s f" "\<And>\<sigma>. \<sigma> \<in> models s \<Longrightarrow> k \<sigma> = f \<sigma>" "is_lit s out h"
  shows "asserts s (AssertEqual C l out s) (\<lambda>\<sigma>. h \<sigma> = f \<sigma>)"
  by (rule asserts_eq [OF AssertEqual_asserts [OF assms(1,2,5)] supp_eq [OF is_lit_supp [OF assms(5)] assms(3)]])
    (use assms(4) in auto)

lemma out_true:
  assumes "inv s" "supp s f" "\<And>\<sigma>. \<sigma> \<in> models s \<Longrightarrow> f \<sigma>" "is_lit s out h"
  shows "asserts s (Assert C out s) (\<lambda>\<sigma>. h \<sigma> = f \<sigma>)"
  by (rule asserts_eq [OF Assert_asserts [OF assms(1,4)] supp_eq [OF is_lit_supp [OF assms(4)] assms(2)]])
    (use assms(3) in auto)

lemma out_false:
  assumes "inv s" "supp s f" "\<And>\<sigma>. \<sigma> \<in> models s \<Longrightarrow> \<not> f \<sigma>" "is_lit s out h"
  shows "asserts s (Assert C (neg_lit out) s) (\<lambda>\<sigma>. h \<sigma> = f \<sigma>)"
  by (rule asserts_eq [OF Assert_asserts [OF assms(1) is_lit_neg [OF assms(4)]]
        supp_eq [OF is_lit_supp [OF assms(4)] assms(2)]])
    (use assms(3) in auto)

lemma early_equal:
  assumes "inv s" "is_lit s l k" "supp s f" "\<And>\<sigma>. \<sigma> \<in> models s \<Longrightarrow> k \<sigma> = f \<sigma>"
  shows "sets_out s (if out \<noteq> lit_Undef then do { t \<leftarrow> AssertEqual C l out s; Some (out, t) } else Some (l, s)) out f"
    "sets_out s (do { t \<leftarrow> if_given out (AssertEqual C l out) s; Some (l, t) }) out f"
proof -
  have a: "asserts s (AssertEqual C l out s) (\<lambda>\<sigma>. h \<sigma> = f \<sigma>)" if "is_lit s out h" for h
    by (rule out_equal; (rule assms that, assumption?))
  show "sets_out s (if out \<noteq> lit_Undef then do { t \<leftarrow> AssertEqual C l out s; Some (out, t) } else Some (l, s)) out f"
    "sets_out s (do { t \<leftarrow> if_given out (AssertEqual C l out) s; Some (l, t) }) out f"
    by (rule sets_out_early [where A = "AssertEqual C l out"]; (rule assms a, assumption?))+
qed

lemma early_true:
  assumes "inv s" "supp s f" "\<And>\<sigma>. \<sigma> \<in> models s \<Longrightarrow> f \<sigma>"
  shows "sets_out s (if out \<noteq> lit_Undef then do { t \<leftarrow> Assert C out s; Some (out, t) } else Some (getTrue C, s)) out f"
    "sets_out s (do { t \<leftarrow> if_given out (Assert C out) s; Some (getTrue C, t) }) out f"
proof -
  have a: "asserts s (Assert C out s) (\<lambda>\<sigma>. h \<sigma> = f \<sigma>)" if "is_lit s out h" for h
    by (rule out_true; (rule assms that, assumption?))
  show "sets_out s (if out \<noteq> lit_Undef then do { t \<leftarrow> Assert C out s; Some (out, t) } else Some (getTrue C, s)) out f"
    "sets_out s (do { t \<leftarrow> if_given out (Assert C out) s; Some (getTrue C, t) }) out f"
    by (rule sets_out_early [where A = "Assert C out"];
        (rule assms(1,2) is_lit_true [OF assms(1)] a, assumption?)?; use assms(3) in simp)+
qed

lemma early_false:
  assumes "inv s" "supp s f" "\<And>\<sigma>. \<sigma> \<in> models s \<Longrightarrow> \<not> f \<sigma>"
  shows "sets_out s (if out \<noteq> lit_Undef then do { t \<leftarrow> Assert C (neg_lit out) s; Some (out, t) } else Some (getFalse C, s)) out f"
    "sets_out s (do { t \<leftarrow> if_given out (Assert C (neg_lit out)) s; Some (getFalse C, t) }) out f"
proof -
  have a: "asserts s (Assert C (neg_lit out) s) (\<lambda>\<sigma>. h \<sigma> = f \<sigma>)" if "is_lit s out h" for h
    by (rule out_false; (rule assms that, assumption?))
  show "sets_out s (if out \<noteq> lit_Undef then do { t \<leftarrow> Assert C (neg_lit out) s; Some (out, t) } else Some (getFalse C, s)) out f"
    "sets_out s (do { t \<leftarrow> if_given out (Assert C (neg_lit out)) s; Some (getFalse C, t) }) out f"
    by (rule sets_out_early [where A = "Assert C (neg_lit out)"];
        (rule assms(1,2) is_lit_false [OF assms(1)] a, assumption?)?; use assms(3) in simp)+
qed

lemma And2_to_sets:
  assumes "inv s" "is_lit s a f" "is_lit s b g"
  shows "sets_out s (And2_to C a b out s) out (\<lambda>\<sigma>. f \<sigma> \<and> g \<sigma>)"
proof -
  let ?f = "\<lambda>\<sigma>. f \<sigma> \<and> g \<sigma>"
  have sp: "supp s ?f" using assms(2,3) by (intro supp_intros is_lit_supp)
  note c = isConst_lit [OF assms(1,2)] isConst_lit [OF assms(1,3)]
  show ?thesis
    unfolding And2_to_def isConst_def And_clauses_each
  proof (intro early_true(1) early_false(1) early_equal(1) [OF assms(1,2)] early_equal(1) [OF assms(1,3)]
      sets_out_gate [OF assms(1) sp] sets_out_if)
  qed (use assms sp in \<open>auto simp: is_lit_vars is_lit_val dest: c\<close>)
qed

lemma Or2_to_sets:
  assumes "inv s" "is_lit s a f" "is_lit s b g"
  shows "sets_out s (Or2_to C a b out s) out (\<lambda>\<sigma>. f \<sigma> \<or> g \<sigma>)"
proof -
  let ?f = "\<lambda>\<sigma>. f \<sigma> \<or> g \<sigma>"
  have sp: "supp s ?f" using assms(2,3) by (intro supp_intros is_lit_supp)
  note c = isConst_lit [OF assms(1,2)] isConst_lit [OF assms(1,3)]
  show ?thesis
    unfolding Or2_to_def isConst_def Or_clauses_each
  proof (intro early_true(2) early_false(2) early_equal(2) [OF assms(1,2)] early_equal(2) [OF assms(1,3)]
      sets_out_gate [OF assms(1) sp] sets_out_if)
  qed (use assms sp in \<open>auto simp: is_lit_vars is_lit_val dest: c\<close>)
qed

lemma Ite_to_sets:
  assumes "inv s" "is_lit s c f" "is_lit s a g" "is_lit s b h" "out = lit_Undef \<or> is_lit s out k"
  shows "gives s (Ite_to C c a b out s)
     (\<lambda>\<sigma>. out \<noteq> lit_Undef \<longrightarrow> k \<sigma> = (if f \<sigma> then g \<sigma> else h \<sigma>)) (\<lambda>l t. is_lit t l (\<lambda>\<sigma>. if f \<sigma> then g \<sigma> else h \<sigma>))"
proof -
  let ?ite = "\<lambda>\<sigma>. if f \<sigma> then g \<sigma> else h \<sigma>"
  obtain l t where t: "And2 C c (neg_lit a) s = Some (l, t)" "extends s t" "is_lit t l (\<lambda>\<sigma>. f \<sigma> \<and> \<not> g \<sigma>)"
    using And2_builds [OF assms(1,2) is_lit_neg [OF assms(3)]] by (auto simp: gives_def)
  obtain r u where u: "And2 C (neg_lit c) (neg_lit b) t = Some (r, u)" "extends t u" "is_lit u r (\<lambda>\<sigma>. \<not> f \<sigma> \<and> \<not> h \<sigma>)"
    using And2_builds [OF adds_inv [OF t(2)] is_lit_neg [OF is_lit_mono [OF assms(2) t(2)]]
        is_lit_neg [OF is_lit_mono [OF assms(4) t(2)]]] by (auto simp: gives_def)
  have e: "extends s u" by (rule extends_trans [OF t(2) u(2)])
  have eq: "(\<lambda>\<sigma>. \<not> (f \<sigma> \<and> \<not> g \<sigma>) \<and> \<not> (\<not> f \<sigma> \<and> \<not> h \<sigma>)) = ?ite" by auto
  have so: "sets_out u (And2_to C (neg_lit l) (neg_lit r) out u) out ?ite"
    using And2_to_sets [OF adds_inv [OF u(2)] is_lit_neg [OF is_lit_mono [OF t(3) u(2)]] is_lit_neg [OF u(3)]]
    unfolding eq .
  have run: "Ite_to C c a b out s = And2_to C (neg_lit l) (neg_lit r) out u"
    using t(1) u(1) by (simp add: Ite_to_def)
  have trans: "gives s q (\<lambda>\<sigma>. P \<sigma>) Q" if "gives u q P Q" "supp s P" for q P and Q :: "lit \<Rightarrow> 's \<Rightarrow> bool"
    using that adds_trans [OF e _ that(2)] by (auto simp: gives_def)
  show ?thesis
  proof (cases "out = lit_Undef")
    case True
    then show ?thesis unfolding run using so trans [of _ "\<lambda>_. True"] by (simp add: sets_out_def)
  next
    case False
    then have k: "is_lit s out k" using assms(5) by simp
    have "supp s (\<lambda>\<sigma>. k \<sigma> = ?ite \<sigma>)"
      using k assms(2-4) by (intro supp_intros is_lit_supp)
    then show ?thesis unfolding run using so trans is_lit_mono [OF k e] False by (simp add: sets_out_def)
  qed
qed

subsection \<open>Gates over vectors\<close>

lemma and_args_spec:
  assumes "inv s" "\<forall>l\<in>set (tmp @ ls). var l \<in> vars s"
  shows "case and_args C s tmp ls of
      None \<Rightarrow> \<forall>\<sigma>\<in>models s. \<not> list_all (lit_val \<sigma>) ls
    | Some us \<Rightarrow> set us \<subseteq> set (tmp @ ls) \<and>
        (\<forall>\<sigma>\<in>models s. list_all (lit_val \<sigma>) us = list_all (lit_val \<sigma>) (tmp @ ls))"
  using assms(2)
proof (induction ls arbitrary: tmp)
  case (Cons l ls)
  have l: "is_lit s l (\<lambda>\<sigma>. lit_val \<sigma> l)" using Cons.prems by (simp add: is_lit_self)
  note c = isConst_lit [OF assms(1) l]
  show ?case using Cons.IH [of tmp] Cons.IH [of "tmp @ [l]"] Cons.prems c
    by (auto split: option.splits)
qed simp

lemma or_args_spec:
  assumes "inv s" "\<forall>l\<in>set (tmp @ ls). var l \<in> vars s"
  shows "case or_args C s tmp ls of
      None \<Rightarrow> \<forall>\<sigma>\<in>models s. clause_sat \<sigma> ls
    | Some us \<Rightarrow> set us \<subseteq> set (tmp @ ls) \<and> (\<forall>\<sigma>\<in>models s. clause_sat \<sigma> us = clause_sat \<sigma> (tmp @ ls))"
  using assms(2)
proof (induction ls arbitrary: tmp)
  case (Cons l ls)
  have l: "is_lit s l (\<lambda>\<sigma>. lit_val \<sigma> l)" using Cons.prems by (simp add: is_lit_self)
  note c = isConst_lit [OF assms(1) l]
  show ?case using Cons.IH [of tmp] Cons.IH [of "tmp @ [l]"] Cons.prems c
    by (auto split: option.splits)
qed simp

lemma collect_append [simp]: "collect store args = store @ args"
  by (induction args arbitrary: store) auto

lemma for_each_map: "for_each f (map g xs) s = for_each (\<lambda>x. f (g x)) xs s"
  by (induction xs arbitrary: s) (auto split: bind_split)

lemma for_each_snoc: "for_each f (xs @ [x]) s = do { t \<leftarrow> for_each f xs s; f x t }"
  by (induction xs arbitrary: s) (auto split: bind_split)

lemma supp_list_all: "\<forall>l\<in>set ls. var l \<in> vars s \<Longrightarrow> supp s (\<lambda>\<sigma>. list_all (lit_val \<sigma>) ls)"
  by (auto simp: supp_def lit_val_def list_all_iff)

lemma And_vec_to_sets:
  assumes s: "inv s" and u: "\<forall>l\<in>set vals. var l \<in> vars s"
  shows "sets_out s (And_vec_to C vals out s) out (\<lambda>\<sigma>. list_all (lit_val \<sigma>) vals)"
proof -
  let ?f = "\<lambda>\<sigma>. list_all (lit_val \<sigma>) vals"
  have sp: "supp s ?f" by (rule supp_list_all [OF u])
  note spec = and_args_spec [OF s, of "[]" vals, simplified, OF u]
  show ?thesis
  proof (cases "and_args C s [] vals")
    case None
    then show ?thesis unfolding And_vec_to_def using spec by (auto intro: early_false(2) [OF s sp])
  next
    case (Some tmp)
    then have tmp: "set tmp \<subseteq> set vals" "\<And>\<sigma>. \<sigma> \<in> models s \<Longrightarrow> list_all (lit_val \<sigma>) tmp = ?f \<sigma>"
      using spec by auto
    consider "tmp = []" | l where "tmp = [l]" | "2 \<le> length tmp"
      by (cases tmp; cases "tl tmp") auto
    then show ?thesis
    proof cases
      case 1
      then have "\<And>\<sigma>. \<sigma> \<in> models s \<Longrightarrow> ?f \<sigma>" using tmp(2) by auto
      then show ?thesis unfolding And_vec_to_def using Some 1 early_true(2) [OF s sp] by simp
    next
      case 2
      then have l: "is_lit s l (\<lambda>\<sigma>. lit_val \<sigma> l)" using tmp(1) u by (simp add: is_lit_self)
      have "sets_out s (if out \<noteq> lit_Undef then do { t \<leftarrow> AssertEqual C l out s; Some (out, t) } else Some (l, s)) out ?f"
        by (rule early_equal(1) [OF s l sp]) (use tmp(2) 2 in force)
      then show ?thesis unfolding And_vec_to_def using Some 2 by (cases "out = lit_Undef") simp_all
    next
      case 3
      let ?cs = "\<lambda>out. map (\<lambda>l. [l, neg_lit out]) tmp @ [map neg_lit tmp @ [out]]"
      have "sets_out s (do { (out, t) \<leftarrow> out_or_new C out s; t \<leftarrow> for_each (add_clause C) (?cs out) t; Some (out, t) }) out ?f"
      proof (rule sets_out_gate [OF s sp])
        show "\<forall>c\<in>set (?cs out). \<forall>l\<in>set c. var l \<in> insert (var out) (vars s)" for out using tmp(1) u by auto
        show "(\<forall>c\<in>set (?cs out). clause_sat \<sigma> c) \<longleftrightarrow> lit_val \<sigma> out = ?f \<sigma>" if "\<sigma> \<in> models s" for out \<sigma>
          unfolding tmp(2) [OF that, symmetric] by (auto simp: clause_sat_def list_all_iff)
      qed
      then show ?thesis unfolding And_vec_to_def using Some 3
        by (auto simp: for_each_snoc for_each_map)
    qed
  qed
qed

lemma Or_vec_to_sets:
  assumes s: "inv s" and u: "\<forall>l\<in>set vals. var l \<in> vars s"
  shows "sets_out s (Or_vec_to C vals out s) out (\<lambda>\<sigma>. clause_sat \<sigma> vals)"
proof -
  let ?f = "\<lambda>\<sigma>. clause_sat \<sigma> vals"
  have sp: "supp s ?f" by (rule supp_clause [OF u])
  note spec = or_args_spec [OF s, of "[]" vals, simplified, OF u]
  show ?thesis
  proof (cases "or_args C s [] vals")
    case None
    then show ?thesis unfolding Or_vec_to_def using spec by (auto intro: early_true(2) [OF s sp])
  next
    case (Some tmp)
    then have tmp: "set tmp \<subseteq> set vals" "\<And>\<sigma>. \<sigma> \<in> models s \<Longrightarrow> clause_sat \<sigma> tmp = ?f \<sigma>"
      using spec by auto
    consider "tmp = []" | l where "tmp = [l]" | "2 \<le> length tmp"
      by (cases tmp; cases "tl tmp") auto
    then show ?thesis
    proof cases
      case 1
      then have "\<And>\<sigma>. \<sigma> \<in> models s \<Longrightarrow> \<not> ?f \<sigma>" using tmp(2) by auto
      then show ?thesis unfolding Or_vec_to_def using Some 1 early_false(2) [OF s sp] by simp
    next
      case 2
      then have l: "is_lit s l (\<lambda>\<sigma>. lit_val \<sigma> l)" using tmp(1) u by (simp add: is_lit_self)
      have "sets_out s (if out \<noteq> lit_Undef then do { t \<leftarrow> AssertEqual C l out s; Some (out, t) } else Some (l, s)) out ?f"
        by (rule early_equal(1) [OF s l sp]) (use tmp(2) 2 in force)
      then show ?thesis unfolding Or_vec_to_def using Some 2 by (cases "out = lit_Undef") simp_all
    next
      case 3
      let ?cs = "\<lambda>out. map (\<lambda>l. [neg_lit l, out]) tmp @ [tmp @ [neg_lit out]]"
      have "sets_out s (do { (out, t) \<leftarrow> out_or_new C out s; t \<leftarrow> for_each (add_clause C) (?cs out) t; Some (out, t) }) out ?f"
      proof (rule sets_out_gate [OF s sp])
        show "\<forall>c\<in>set (?cs out). \<forall>l\<in>set c. var l \<in> insert (var out) (vars s)" for out using tmp(1) u by auto
        show "(\<forall>c\<in>set (?cs out). clause_sat \<sigma> c) \<longleftrightarrow> lit_val \<sigma> out = ?f \<sigma>" if "\<sigma> \<in> models s" for out \<sigma>
          unfolding tmp(2) [OF that, symmetric] by (auto simp: clause_sat_def)
      qed
      then show ?thesis unfolding Or_vec_to_def using Some 3
        by (auto simp: for_each_snoc for_each_map)
    qed
  qed
qed

subsection \<open>Exclusive or over vectors\<close>

lemma bin_pass_gives:
  assumes "inv s" "\<forall>l\<in>set (ds @ ls). var l \<in> vars s"
  shows "gives s (bin_pass (Xor2 C) ds ls s) (\<lambda>_. True) (\<lambda>us t. (\<forall>l\<in>set us. var l \<in> vars t) \<and>
    length us = length ds + (length ls + 1) div 2 \<and>
    (\<forall>\<sigma>\<in>models t. parity (map (lit_val \<sigma>) us) = parity (map (lit_val \<sigma>) (ds @ ls))))"
  using assms
proof (induction ls arbitrary: ds s rule: induct_list012)
  case 1
  then show ?case by (auto intro!: gives_return)
next
  case (2 a)
  then show ?case by (auto intro!: gives_return)
next
  case (3 a b ls)
  have ab: "is_lit s a (\<lambda>\<sigma>. lit_val \<sigma> a)" "is_lit s b (\<lambda>\<sigma>. lit_val \<sigma> b)"
    using 3(4) by (simp_all add: is_lit_self)
  show ?case
    unfolding bin_pass.simps
  proof (rule gives_bind [OF Xor2_builds [OF 3(3) ab]])
    fix c t assume t: "extends s t" "is_lit t c (\<lambda>\<sigma>. lit_val \<sigma> a \<noteq> lit_val \<sigma> b)"
    have u: "\<forall>l\<in>set ((ds @ [c]) @ ls). var l \<in> vars t"
      using 3(4) adds_vars [OF t(1)] is_lit_vars [OF t(2)] by auto
    show "gives t (bin_pass (Xor2 C) (ds @ [c]) ls t) (\<lambda>_. True) (\<lambda>us u. (\<forall>l\<in>set us. var l \<in> vars u) \<and>
        length us = length ds + (length (a # b # ls) + 1) div 2 \<and>
        (\<forall>\<sigma>\<in>models u. parity (map (lit_val \<sigma>) us) = parity (map (lit_val \<sigma>) (ds @ a # b # ls))))"
    proof (rule gives_mono [OF 3(1) [OF adds_inv [OF t(1)] u]])
      fix us v assume v: "extends t v" and Q: "(\<forall>l\<in>set us. var l \<in> vars v) \<and>
        length us = length (ds @ [c]) + (length ls + 1) div 2 \<and>
        (\<forall>\<sigma>\<in>models v. parity (map (lit_val \<sigma>) us) = parity (map (lit_val \<sigma>) ((ds @ [c]) @ ls)))"
      have "lit_val \<sigma> c = (lit_val \<sigma> a \<noteq> lit_val \<sigma> b)" if "\<sigma> \<in> models v" for \<sigma>
        using is_lit_val [OF is_lit_mono [OF t(2) v] that] .
      then show "(\<forall>l\<in>set us. var l \<in> vars v) \<and> length us = length ds + (length (a # b # ls) + 1) div 2 \<and>
        (\<forall>\<sigma>\<in>models v. parity (map (lit_val \<sigma>) us) = parity (map (lit_val \<sigma>) (ds @ a # b # ls)))"
        using Q by auto
    qed simp
  qed
qed

lemma bin_rounds_gives:
  assumes "inv s" "\<forall>l\<in>set ls. var l \<in> vars s" "length ls \<le> n" "1 \<le> n"
  shows "gives s (bin_rounds n (Xor2 C) ls s) (\<lambda>_. True) (\<lambda>us t. (\<forall>l\<in>set us. var l \<in> vars t) \<and>
    length us = min 1 (length ls) \<and>
    (\<forall>\<sigma>\<in>models t. parity (map (lit_val \<sigma>) us) = parity (map (lit_val \<sigma>) ls)))"
  using assms
proof (induction n arbitrary: ls s)
  case (Suc n)
  show ?case
  proof (cases "length ls > 1")
    case True
    have "gives s (do { (us, t) \<leftarrow> bin_pass (Xor2 C) [] ls s; bin_rounds n (Xor2 C) us t }) (\<lambda>_. True)
      (\<lambda>us t. (\<forall>l\<in>set us. var l \<in> vars t) \<and> length us = min 1 (length ls) \<and>
        (\<forall>\<sigma>\<in>models t. parity (map (lit_val \<sigma>) us) = parity (map (lit_val \<sigma>) ls)))"
    proof (rule gives_bind [OF bin_pass_gives [OF Suc.prems(1)]])
      show "\<forall>l\<in>set ([] @ ls). var l \<in> vars s" using Suc.prems(2) by simp
      fix us t assume t: "extends s t" and us: "(\<forall>l\<in>set us. var l \<in> vars t) \<and>
        length us = length ([] :: lit list) + (length ls + 1) div 2 \<and>
        (\<forall>\<sigma>\<in>models t. parity (map (lit_val \<sigma>) us) = parity (map (lit_val \<sigma>) ([] @ ls)))"
      have len: "length us \<le> n" "1 \<le> n" "min 1 (length us) = min 1 (length ls)"
        using us True Suc.prems(3) by auto
      show "gives t (bin_rounds n (Xor2 C) us t) (\<lambda>_. True) (\<lambda>us t. (\<forall>l\<in>set us. var l \<in> vars t) \<and>
        length us = min 1 (length ls) \<and>
        (\<forall>\<sigma>\<in>models t. parity (map (lit_val \<sigma>) us) = parity (map (lit_val \<sigma>) ls)))"
        by (rule gives_mono [OF Suc.IH [OF adds_inv [OF t] _ len(1,2)]])
          (use us len(3) in \<open>auto simp: adds_constraint_def\<close>)
    qed
    then show ?thesis using True by simp
  next
    case False
    then have "length ls = min 1 (length ls)" by simp
    then show ?thesis using False Suc.prems gives_return [OF Suc.prems(1), of _ ls] by simp
  qed
qed simp

lemma supp_map: "\<forall>l\<in>set ls. var l \<in> vars s \<Longrightarrow> supp s (\<lambda>\<sigma>. h (map (lit_val \<sigma>) ls))"
  by (rule supp_comp1) (auto simp: supp_def lit_val_def)

lemma bin_op_builds:
  assumes "inv s" "\<forall>l\<in>set ls. var l \<in> vars s"
  shows "builds s (bin_op C (Xor2 C) ls s) (\<lambda>\<sigma>. xor_all (map (lit_val \<sigma>) ls))"
  unfolding bin_op_def
proof (rule gives_bind [OF bin_rounds_gives [OF assms]])
  fix us t assume t: "extends s t" and us: "(\<forall>l\<in>set us. var l \<in> vars t) \<and> length us = min 1 (length ls) \<and>
    (\<forall>\<sigma>\<in>models t. parity (map (lit_val \<sigma>) us) = parity (map (lit_val \<sigma>) ls))"
  have sp: "supp t (\<lambda>\<sigma>. xor_all (map (lit_val \<sigma>) ls))"
    using assms(2) adds_vars [OF t] by (intro supp_map) auto
  show "builds t (Some (if us \<noteq> [] then (us ! 0, t) else (ci_true C, t))) (\<lambda>\<sigma>. xor_all (map (lit_val \<sigma>) ls))"
  proof (cases "ls = []")
    case True
    then show ?thesis using us is_lit_true [OF adds_inv [OF t]] sp adds_inv [OF t]
      by (auto simp: xor_all_def getTrue_def intro!: gives_return)
  next
    case False
    then obtain a where "us = [a]" using us by (cases us) (auto simp: min_def split: if_splits)
    then show ?thesis using us False sp adds_inv [OF t]
      by (auto simp: xor_all_def is_lit_def intro!: gives_return)
  qed
qed auto

lemma Xor_vec_builds:
  assumes "inv s" "\<forall>l\<in>set ls. var l \<in> vars s"
  shows "builds s (Xor_vec C (ByOther ls) s) (\<lambda>\<sigma>. xor_all (map (lit_val \<sigma>) ls))"
  using bin_op_builds [OF assms] by (simp add: Xor_vec_def)

lemma Xnor_vec_builds:
  assumes "inv s" "\<forall>l\<in>set ls. var l \<in> vars s"
  shows "builds s (Xnor_vec C (ByOther ls) s) (\<lambda>\<sigma>. \<not> xor_all (map (lit_val \<sigma>) ls))"
  unfolding Xnor_vec_def by (rule negated_builds, rule Xor_vec_builds [OF assms])

lemma Xor_vec_tmp: "Xor_vec C (ByTmp ls) s = Some (getTrue C, s)"
  by (simp add: Xor_vec_def bin_op_def getTrue_def)

subsection \<open>Assertions over vectors\<close>

lemma AssertAnd_vec_asserts:
  assumes "inv s" "\<forall>l\<in>set ls. var l \<in> vars s"
  shows "asserts s (AssertAnd_vec C ls s) (\<lambda>\<sigma>. \<forall>l\<in>set ls. lit_val \<sigma> l)"
  unfolding AssertAnd_vec_def
  by (rule asserts_eq [OF for_each_asserts [OF assms(1) add_clause_asserts]])
    (use assms(2) in \<open>auto intro!: supp_clause supp_ball simp del: clause_sat_simps\<close>, auto)

lemma AssertNor_vec_asserts:
  assumes "inv s" "\<forall>l\<in>set ls. var l \<in> vars s"
  shows "asserts s (AssertNor_vec C ls s) (\<lambda>\<sigma>. \<forall>l\<in>set ls. \<not> lit_val \<sigma> l)"
  unfolding AssertNor_vec_def
  by (rule asserts_eq [OF for_each_asserts [OF assms(1) add_clause_asserts]])
    (use assms(2) in \<open>auto intro!: supp_clause supp_ball supp_not simp del: clause_sat_simps\<close>, auto)

lemma AssertNand_vec_asserts:
  assumes "inv s" "\<forall>l\<in>set ls. var l \<in> vars s"
  shows "asserts s (AssertNand_vec C ls s) (\<lambda>\<sigma>. \<not> list_all (lit_val \<sigma>) ls)"
  unfolding AssertNand_vec_def
  by (rule asserts_eq [OF add_clause_asserts [OF assms(1)] supp_not [OF supp_list_all [OF assms(2)]]])
    (use assms(2) in \<open>auto simp: clause_sat_def list_all_iff\<close>)

lemma AssertXor_vec_asserts:
  assumes "inv s" "\<forall>l\<in>set ls. var l \<in> vars s"
  shows "asserts s (AssertXor_vec C (ByOther ls) s) (\<lambda>\<sigma>. parity (map (lit_val \<sigma>) ls))"
proof -
  have self: "is_lit s l (\<lambda>\<sigma>. lit_val \<sigma> l)" if "l \<in> set ls" for l using assms(2) that by (simp add: is_lit_self)
  consider "ls = []" | a where "ls = [a]" | a b where "ls = [a, b]" | "3 \<le> length ls"
    by (cases ls; cases "tl ls"; cases "tl (tl ls)") auto
  then show ?thesis
  proof cases
    case 1
    then show ?thesis using Assert_asserts [OF assms(1) is_lit_false [OF assms(1)]] by (simp add: AssertXor_vec_def)
  next
    case 2
    then show ?thesis using Assert_asserts [OF assms(1) self [of a]] by (simp add: AssertXor_vec_def)
  next
    case 3
    then show ?thesis using AssertXor2_asserts [OF assms(1) self [of a] self [of b]]
      by (simp add: AssertXor_vec_def)
  next
    case 4
    have sp: "supp s (\<lambda>\<sigma>. parity (map (lit_val \<sigma>) ls))" using assms(2) by (rule supp_map)
    have eq: "xor_all (map (lit_val \<sigma>) ls) = parity (map (lit_val \<sigma>) ls)" for \<sigma> using 4 by (auto simp: xor_all_def)
    have "asserts s (do { (l, t) \<leftarrow> Xor_vec C (ByOther ls) s; Assert C l t }) (\<lambda>\<sigma>. parity (map (lit_val \<sigma>) ls))"
      by (rule asserts_after_gate [OF Xor_vec_builds [OF assms, unfolded eq] Assert_asserts sp])
        (auto simp: adds_inv)
    moreover have "ls \<noteq> []" using 4 by auto
    ultimately show ?thesis using 4 by (simp add: AssertXor_vec_def)
  qed
qed

end

end
