(* ===== verification/Circuit_Arith.thy ===== *)
theory Circuit_Arith
  imports Circuit
begin

text \<open>
  \<open>api/Circuit.h\<close>, the part on words: adders, subtraction, negation, multiplication, comparison,
  multiplexers and cardinality constraints.  A word is a vector of literals, least significant bit
  first.  The vectors a function reads and the one it fills are different objects.
\<close>

subsection \<open>Adders\<close>

definition HalfAdder :: "'s circuit \<Rightarrow> lit \<Rightarrow> lit \<Rightarrow> 's \<Rightarrow> ((lit \<times> lit) \<times> 's) option" where
  "HalfAdder C a b s = do {
     (carry_out, s) \<leftarrow> And2 C a b s;
     (r, s) \<leftarrow> Xor2 C a b s;
     Some ((r, carry_out), s) }"

definition FullAdder :: "'s circuit \<Rightarrow> lit \<Rightarrow> lit \<Rightarrow> lit \<Rightarrow> 's \<Rightarrow> ((lit \<times> lit) \<times> 's) option" where
  "FullAdder C a b c_in s = do {
     (a_xor_b, s) \<leftarrow> Xor2 C a b s;
     (a_and_b, s) \<leftarrow> And2 C a b s;
     (c1, s) \<leftarrow> And2 C c_in a_xor_b s;
     (carry_out, s) \<leftarrow> Or2 C a_and_b c1 s;
     (r, s) \<leftarrow> Xor2 C a_xor_b c_in s;
     Some ((r, carry_out), s) }"

definition HalfAdder_to :: "'s circuit \<Rightarrow> lit \<Rightarrow> lit \<Rightarrow> lit \<Rightarrow> lit \<Rightarrow> 's \<Rightarrow> ((lit \<times> lit) \<times> 's) option" where
  "HalfAdder_to C a b carry_out out s = do {
     (carry_out, s) \<leftarrow> And2_to C a b carry_out s;
     (r, s) \<leftarrow> Xor2_to C a b out s;
     Some ((r, carry_out), s) }"

definition HalfSubtractor :: "'s circuit \<Rightarrow> lit \<Rightarrow> lit \<Rightarrow> 's \<Rightarrow> ((lit \<times> lit) \<times> 's) option" where
  "HalfSubtractor C a b s = do {
     (borrow_out, s) \<leftarrow> And2 C (neg_lit a) b s;
     (r, s) \<leftarrow> Xor2 C a b s;
     Some ((r, borrow_out), s) }"

definition HalfSubtractor_to :: "'s circuit \<Rightarrow> lit \<Rightarrow> lit \<Rightarrow> lit \<Rightarrow> lit \<Rightarrow> 's \<Rightarrow> ((lit \<times> lit) \<times> 's) option" where
  "HalfSubtractor_to C a b borrow_out out s = do {
     (borrow_out, s) \<leftarrow> And2_to C (neg_lit a) b borrow_out s;
     (r, s) \<leftarrow> Xor2_to C a b out s;
     Some ((r, borrow_out), s) }"

text \<open>The loops run over the remaining bits of both words; the result is what has been pushed to
  \<open>store_out\<close> and the last carry.\<close>

fun add_loop :: "'s circuit \<Rightarrow> lit list \<Rightarrow> lit list \<Rightarrow> lit list \<Rightarrow> lit \<Rightarrow> 's \<Rightarrow> ((lit list \<times> lit) \<times> 's) option" where
  "add_loop C (a # as) (b # bs) store_out carry s = do {
     (x1, s) \<leftarrow> Xor2 C a b s;
     (sum, s) \<leftarrow> Xor2 C x1 carry s;
     (c1, s) \<leftarrow> And2 C x1 carry s;
     (c2, s) \<leftarrow> And2 C a b s;
     (carry, s) \<leftarrow> Or2 C c2 c1 s;
     add_loop C as bs (store_out @ [sum]) carry s }"
| "add_loop C _ _ store_out carry s = Some ((store_out, carry), s)"

definition Add :: "'s circuit \<Rightarrow> lit list \<Rightarrow> lit list \<Rightarrow> 's \<Rightarrow> ((lit list \<times> lit) \<times> 's) option" where
  "Add C a b s = do {
     check (length b = length a);
     a0 \<leftarrow> get_at a 0;
     b0 \<leftarrow> get_at b 0;
     ((sum, carry), s) \<leftarrow> HalfAdder C a0 b0 s;
     add_loop C (tl a) (tl b) [sum] carry s }"

fun add_to_loop :: "'s circuit \<Rightarrow> lit list \<Rightarrow> lit list \<Rightarrow> lit list \<Rightarrow> lit \<Rightarrow> 's \<Rightarrow> (lit \<times> 's) option" where
  "add_to_loop C (a # as) (b # bs) (out # outs) carry s = do {
     (x1, s) \<leftarrow> Xor2 C a b s;
     (_, s) \<leftarrow> Xor2_to C x1 carry out s;
     (c1, s) \<leftarrow> And2 C x1 carry s;
     (c2, s) \<leftarrow> And2 C a b s;
     (carry, s) \<leftarrow> Or2 C c2 c1 s;
     add_to_loop C as bs outs carry s }"
| "add_to_loop C _ _ _ carry s = Some (carry, s)"

definition Add_to :: "'s circuit \<Rightarrow> lit list \<Rightarrow> lit list \<Rightarrow> lit list \<Rightarrow> lit \<Rightarrow> 's gate" where
  "Add_to C a b store_out carry_out s = do {
     check (length b = length a);
     check (length store_out = length a);
     a0 \<leftarrow> get_at a 0;
     b0 \<leftarrow> get_at b 0;
     o0 \<leftarrow> get_at store_out 0;
     ((_, carry), s) \<leftarrow> HalfAdder_to C a0 b0 lit_Undef o0 s;
     (carry, s) \<leftarrow> add_to_loop C (tl a) (tl b) (tl store_out) carry s;
     (if carry_out \<noteq> lit_Undef then do { s \<leftarrow> AssertEqual C carry_out carry s; Some (carry_out, s) }
      else Some (carry, s)) }"

fun sub_bits :: "'s circuit \<Rightarrow> lit list \<Rightarrow> lit list \<Rightarrow> lit list \<Rightarrow> lit \<Rightarrow> 's \<Rightarrow> ((lit list \<times> lit) \<times> 's) option" where
  "sub_bits C (a # as) (b # bs) store_out borrow s = do {
     (x1, s) \<leftarrow> Xor2 C a b s;
     (dif, s) \<leftarrow> Xor2 C x1 borrow s;
     (c1, s) \<leftarrow> And2 C (neg_lit x1) borrow s;
     (c2, s) \<leftarrow> And2 C (neg_lit a) b s;
     (borrow, s) \<leftarrow> Or2 C c2 c1 s;
     sub_bits C as bs (store_out @ [dif]) borrow s }"
| "sub_bits C _ _ store_out borrow s = Some ((store_out, borrow), s)"

definition Subtract :: "'s circuit \<Rightarrow> lit list \<Rightarrow> lit list \<Rightarrow> 's \<Rightarrow> ((lit list \<times> lit) \<times> 's) option" where
  "Subtract C a b s = do {
     check (length b = length a);
     a0 \<leftarrow> get_at a 0;
     b0 \<leftarrow> get_at b 0;
     ((dif, borrow), s) \<leftarrow> HalfSubtractor C a0 b0 s;
     sub_bits C (tl a) (tl b) [dif] borrow s }"

fun sub_to_bits :: "'s circuit \<Rightarrow> lit list \<Rightarrow> lit list \<Rightarrow> lit list \<Rightarrow> lit \<Rightarrow> 's \<Rightarrow> (lit \<times> 's) option" where
  "sub_to_bits C (a # as) (b # bs) (out # outs) borrow s = do {
     (x1, s) \<leftarrow> Xor2 C a b s;
     (_, s) \<leftarrow> Xor2_to C x1 borrow out s;
     (c1, s) \<leftarrow> And2 C (neg_lit x1) borrow s;
     (c2, s) \<leftarrow> And2 C (neg_lit a) b s;
     (borrow, s) \<leftarrow> Or2 C c2 c1 s;
     sub_to_bits C as bs outs borrow s }"
| "sub_to_bits C _ _ _ borrow s = Some (borrow, s)"

definition Subtract_to :: "'s circuit \<Rightarrow> lit list \<Rightarrow> lit list \<Rightarrow> lit list \<Rightarrow> lit \<Rightarrow> 's gate" where
  "Subtract_to C a b store_out borrow_out s = do {
     check (length b = length a);
     check (length store_out = length a);
     a0 \<leftarrow> get_at a 0;
     b0 \<leftarrow> get_at b 0;
     o0 \<leftarrow> get_at store_out 0;
     ((_, borrow), s) \<leftarrow> HalfSubtractor_to C a0 b0 lit_Undef o0 s;
     (borrow, s) \<leftarrow> sub_to_bits C (tl a) (tl b) (tl store_out) borrow s;
     (if borrow_out \<noteq> lit_Undef then do { s \<leftarrow> AssertEqual C borrow_out borrow s; Some (borrow_out, s) }
      else Some (borrow, s)) }"

fun negate_loop :: "'s circuit \<Rightarrow> lit list \<Rightarrow> lit list \<Rightarrow> lit \<Rightarrow> 's \<Rightarrow> (lit list \<times> 's) option" where
  "negate_loop C [] store_out carry s = Some (store_out, s)"
| "negate_loop C (a # as) store_out carry s = do {
     (x1, s) \<leftarrow> Xor2 C (neg_lit a) carry s;
     (carry, s) \<leftarrow> And2 C (neg_lit a) carry s;
     negate_loop C as (store_out @ [x1]) carry s }"

definition Negate :: "'s circuit \<Rightarrow> lit list \<Rightarrow> 's \<Rightarrow> (lit list \<times> 's) option" where
  "Negate C a s = do {
     a0 \<leftarrow> get_at a 0;
     ((sum, carry), s) \<leftarrow> HalfAdder C (neg_lit a0) (getTrue C) s;
     negate_loop C (tl a) [sum] carry s }"

text \<open>\<open>Negate_\<close> empties \<open>store_out\<close> and then asserts that it is as long as \<open>a\<close>.\<close>

fun negate_to_loop :: "'s circuit \<Rightarrow> lit list \<Rightarrow> nat \<Rightarrow> lit list \<Rightarrow> lit \<Rightarrow> 's \<Rightarrow> (lit list \<times> 's) option" where
  "negate_to_loop C [] i store_out carry s = Some (store_out, s)"
| "negate_to_loop C (a # as) i store_out carry s = do {
     out \<leftarrow> get_at store_out i;
     (_, s) \<leftarrow> Xor2_to C (neg_lit a) carry out s;
     (carry, s) \<leftarrow> And2 C (neg_lit a) carry s;
     negate_to_loop C as (i + 1) store_out carry s }"

definition Negate_to :: "'s circuit \<Rightarrow> lit list \<Rightarrow> lit list \<Rightarrow> 's \<Rightarrow> (lit list \<times> 's) option" where
  "Negate_to C a store_out s = (let store_out = take 0 store_out in do {
     check (length store_out = length a);
     a0 \<leftarrow> get_at a 0;
     ((sum, carry), s) \<leftarrow> HalfAdder C (neg_lit a0) (getTrue C) s;
     negate_to_loop C (tl a) 1 (store_out @ [sum]) carry s })"

subsection \<open>Multiplication\<close>

definition mBlock :: "'s circuit \<Rightarrow> lit \<Rightarrow> lit \<Rightarrow> lit \<Rightarrow> lit \<Rightarrow> lit \<Rightarrow> 's \<Rightarrow> ((lit \<times> lit) \<times> 's) option" where
  "mBlock C m0 m1 q0 q1 c_in s = do {
     (a, s) \<leftarrow> And2 C q1 m0 s;
     (b, s) \<leftarrow> And2 C q0 m1 s;
     FullAdder C a b c_in s }"

definition nBlock :: "'s circuit \<Rightarrow> lit \<Rightarrow> lit \<Rightarrow> lit \<Rightarrow> lit \<Rightarrow> 's \<Rightarrow> ((lit \<times> lit) \<times> 's) option" where
  "nBlock C m0 m1 q0 c_in s = do {
     (a, s) \<leftarrow> And2 C q0 m0 s;
     FullAdder C a m1 c_in s }"

text \<open>The first row of the array multiplier: \<open>m0\<close> runs over \<open>m\<close>, \<open>m1\<close> over the next bit of \<open>m\<close>
  (constant false after the last).  The results, the passed-through bits and the last carry.\<close>

fun first_row :: "'s circuit \<Rightarrow> lit list \<Rightarrow> lit \<Rightarrow> lit \<Rightarrow> lit \<Rightarrow> 's \<Rightarrow> ((lit list \<times> lit list \<times> lit) \<times> 's) option" where
  "first_row C [] q0 q1 c_in s = Some (([], [], c_in), s)"
| "first_row C (m0 # ms) q0 q1 c_in s = do {
     let m1 = (case ms of [] \<Rightarrow> getFalse C | m1 # _ \<Rightarrow> m1);
     ((res, c_out), s) \<leftarrow> mBlock C m0 m1 q0 q1 c_in s;
     ((results, passthrough, c_last), s) \<leftarrow> first_row C ms q0 q1 c_out s;
     Some ((res # results, m0 # passthrough, c_last), s) }"

fun next_row :: "'s circuit \<Rightarrow> lit list \<Rightarrow> lit list \<Rightarrow> lit \<Rightarrow> lit \<Rightarrow> 's \<Rightarrow> ((lit list \<times> lit list \<times> lit) \<times> 's) option" where
  "next_row C (m0 # ms) (m1 # prev) q_in c_in s = do {
     ((res, c_out), s) \<leftarrow> nBlock C m0 m1 q_in c_in s;
     ((results, passthrough, c_last), s) \<leftarrow> next_row C ms prev q_in c_out s;
     Some ((res # results, m0 # passthrough, c_last), s) }"
| "next_row C _ _ q_in c_in s = Some (([], [], c_in), s)"

text \<open>The remaining rows: one per bit of \<open>q\<close> from bit 2 on.\<close>

fun mult_rows :: "'s circuit \<Rightarrow> nat \<Rightarrow> lit list \<Rightarrow> lit list \<Rightarrow> lit list \<Rightarrow> lit list \<Rightarrow> lit \<Rightarrow> 's \<Rightarrow>
    ((lit list \<times> lit list \<times> lit) \<times> 's) option" where
  "mult_rows C n [] passthrough results store_out c_last s = Some ((store_out, results, c_last), s)"
| "mult_rows C n (q_in # qs) passthrough results store_out c_last s = do {
     check (length passthrough + 1 = length results);
     check (length results = n + 1);
     ((results, passthrough, c_last), s) \<leftarrow> next_row C passthrough (tl results) q_in (getFalse C) s;
     r0 \<leftarrow> get_at results 0;
     mult_rows C n qs passthrough (results @ [c_last]) (store_out @ [r0]) c_last s }"

definition Multiply :: "'s circuit \<Rightarrow> lit list \<Rightarrow> lit list \<Rightarrow> 's \<Rightarrow> (lit list \<times> 's) option" where
  "Multiply C m q s = do {
     check (length m = length q);
     m0 \<leftarrow> get_at m 0;
     q0 \<leftarrow> get_at q 0;
     (res, s) \<leftarrow> And2 C m0 q0 s;
     (if length m = 1 then Some ([res], s)
      else do {
        q1 \<leftarrow> get_at q 1;
        ((results, passthrough, c_last), s) \<leftarrow> first_row C m q0 q1 (getFalse C) s;
        r0 \<leftarrow> get_at results 0;
        ((store_out, results, c_last), s) \<leftarrow>
          mult_rows C (length m) (drop 2 q) passthrough (results @ [c_last]) [res, r0] c_last s;
        r0 \<leftarrow> get_at results 0;
        check (r0 = last store_out);
        let store_out = store_out @ tl results;
        check (last store_out = c_last);
        check (length store_out = length m + length q);
        Some (store_out, s) }) }"

subsection \<open>Comparison\<close>

text \<open>\<open>assert_tmp\<close>: the second word, padded with constant false to the length of the first.\<close>

definition padded :: "'s circuit \<Rightarrow> lit list \<Rightarrow> lit list \<Rightarrow> lit list" where
  "padded C A B = B @ replicate (length A - length B) (getFalse C)"

fun xnor_loop :: "'s circuit \<Rightarrow> lit list \<Rightarrow> lit list \<Rightarrow> lit list \<Rightarrow> 's \<Rightarrow> (lit list \<times> 's) option" where
  "xnor_loop C (a # as) (b # bs) xnors s = do {
     (x, s) \<leftarrow> Xnor2 C a b s;
     xnor_loop C as bs (xnors @ [x]) s }"
| "xnor_loop C _ _ xnors s = Some (xnors, s)"

definition Equal_vec :: "'s circuit \<Rightarrow> lit list \<Rightarrow> lit list \<Rightarrow> 's gate" where
  "Equal_vec C A B s = do {
     (xnors, s) \<leftarrow> xnor_loop C A (padded C A B) [] s;
     And_vec C xnors s }"

text \<open>The loop of \<open>LEQ\<close>, \<open>LT\<close> and \<open>AssertLEQ\<close> from the most significant bit down; the lists hold the
  bits in the order the loop visits them.  \<open>LT\<close> skips the last update of \<open>p_eq_n\<close>.\<close>

fun cmp_loop :: "'s circuit \<Rightarrow> bool \<Rightarrow> (lit \<times> lit) list \<Rightarrow> lit \<Rightarrow> lit \<Rightarrow> 's \<Rightarrow> ((lit \<times> lit) \<times> 's) option" where
  "cmp_loop C strict [] p_lt_n p_eq_n s = Some ((p_lt_n, p_eq_n), s)"
| "cmp_loop C strict ((a, b) # rest) p_lt_n p_eq_n s = do {
     (pj_eq_n, s) \<leftarrow> Xnor2 C a b s;
     (pj_ltn, s) \<leftarrow> And2 C (neg_lit a) b s;
     (lt, s) \<leftarrow> And2 C p_eq_n pj_ltn s;
     (p_lt_n, s) \<leftarrow> Or2 C lt p_lt_n s;
     (p_eq_n, s) \<leftarrow> (if \<not> strict \<or> rest \<noteq> [] then And2 C pj_eq_n p_eq_n s else Some (p_eq_n, s));
     cmp_loop C strict rest p_lt_n p_eq_n s }"

fun or_loop :: "'s circuit \<Rightarrow> lit list \<Rightarrow> lit \<Rightarrow> 's gate" where
  "or_loop C [] p s = Some (p, s)"
| "or_loop C (b # bs) p s = do { (p, s) \<leftarrow> Or2 C b p s; or_loop C bs p s }"

definition compare_words :: "'s circuit \<Rightarrow> bool \<Rightarrow> lit list \<Rightarrow> lit list \<Rightarrow> 's \<Rightarrow> ((lit \<times> lit) \<times> 's) option" where
  "compare_words C strict A B s = do {
     ((p_lt_n, p_eq_n), s) \<leftarrow> cmp_loop C strict (rev (zip A (padded C A B))) (getFalse C) (getTrue C) s;
     (p_lt_n, s) \<leftarrow> or_loop C (drop (length A) B) p_lt_n s;
     Some ((p_lt_n, p_eq_n), s) }"

definition LEQ :: "'s circuit \<Rightarrow> lit list \<Rightarrow> lit list \<Rightarrow> 's gate" where
  "LEQ C A B s = do {
     ((p_lt_n, p_eq_n), s) \<leftarrow> compare_words C False A B s;
     Or2 C p_lt_n p_eq_n s }"

definition LT :: "'s circuit \<Rightarrow> lit list \<Rightarrow> lit list \<Rightarrow> 's gate" where
  "LT C A B s = do {
     ((p_lt_n, p_eq_n), s) \<leftarrow> compare_words C True A B s;
     Some (p_lt_n, s) }"

definition AssertLEQ :: "'s circuit \<Rightarrow> lit list \<Rightarrow> lit list \<Rightarrow> 's assertion" where
  "AssertLEQ C A B s = do {
     ((p_lt_n, p_eq_n), s) \<leftarrow> compare_words C False A B s;
     add_clause C [p_lt_n, p_eq_n] s }"

definition AssertLT :: "'s circuit \<Rightarrow> lit list \<Rightarrow> lit list \<Rightarrow> 's assertion" where
  "AssertLT C A B s = do { (l, s) \<leftarrow> LT C A B s; add_clause C [l] s }"

text \<open>\<open>AssertEqual\<close> on words reads \<open>B[i]\<close> for every bit of \<open>A\<close>, not the padded copy it has made.\<close>

fun equal_bits :: "'s circuit \<Rightarrow> lit list \<Rightarrow> lit list \<Rightarrow> 's assertion" where
  "equal_bits C [] B s = Some s"
| "equal_bits C (a # as) B s = do {
     b \<leftarrow> get_at B 0;
     s \<leftarrow> AssertEqual C a b s;
     equal_bits C as (tl B) s }"

definition AssertEqual_vec :: "'s circuit \<Rightarrow> lit list \<Rightarrow> lit list \<Rightarrow> 's assertion" where
  "AssertEqual_vec C A B s = do {
     s \<leftarrow> equal_bits C A B s;
     for_each (\<lambda>b. Assert C (neg_lit b)) (drop (length A) B) s }"

subsection \<open>Multiplexers\<close>

text \<open>\<open>pow2roundup\<close> on a 32-bit word: the number of times it can be halved before it is zero.\<close>

fun halvings :: "nat \<Rightarrow> 32 word \<Rightarrow> nat \<Rightarrow> nat" where
  "halvings 0 v r = r"
| "halvings (Suc n) v r =
     (let v = drop_bit 1 v in if v \<noteq> 0 then halvings n v (r + 1) else r)"

definition pow2roundup :: "32 word \<Rightarrow> nat" where
  "pow2roundup v = (if v = 0 then 0 else halvings 32 v 0)"

definition isPower2 :: "nat \<Rightarrow> bool" where
  "isPower2 n \<longleftrightarrow> n > 0 \<and> n AND (n - 1) = 0"

text \<open>The selector's literals with the signs of \<open>i\<close>, and their negations as the code's second loop
  leaves them in \<open>args\<close>.\<close>

definition match_args :: "lit list \<Rightarrow> nat \<Rightarrow> lit list" where
  "match_args selector i =
     map (\<lambda>j. if bit i j then selector ! j else neg_lit (selector ! j)) [0..<length selector]"

definition mux_row :: "'s circuit \<Rightarrow> lit list \<Rightarrow> lit \<Rightarrow> nat \<times> lit \<Rightarrow> 's assertion" where
  "mux_row C selector out = (\<lambda>(i, inp) s. do {
     let args = map neg_lit (match_args selector i);
     s \<leftarrow> add_clause C (args @ [neg_lit inp, out]) s;
     add_clause C (args @ [inp, neg_lit out]) s })"

fun grow_selector :: "'s circuit \<Rightarrow> nat \<Rightarrow> lit list \<Rightarrow> 's \<Rightarrow> (lit list \<times> 's) option" where
  "grow_selector C 0 selector s = Some (selector, s)"
| "grow_selector C (Suc n) selector s = do {
     (l, s) \<leftarrow> newLit C s;
     grow_selector C n (selector @ [l]) s }"

text \<open>The shifts of \<open>1\<close> by \<open>n_args\<close> and by the positions of the selector are defined below 32 only.\<close>

definition Mux :: "'s circuit \<Rightarrow> lit list \<Rightarrow> lit list \<Rightarrow> nat \<Rightarrow> 's \<Rightarrow> ((lit \<times> lit list) \<times> 's) option" where
  "Mux C selector data opt_mux s = do {
     let n_args = pow2roundup (word_of_nat (length data) - 1) + 1;
     (selector, s) \<leftarrow> grow_selector C (n_args - length selector) selector s;
     (out, s) \<leftarrow> newLit C s;
     check (n_args < 31 \<and> length selector < 31);
     check (opt_mux = 0 \<or> opt_mux = 1);
     s \<leftarrow> for_each (mux_row C selector out) (enumerate 0 data) s;
     s \<leftarrow> (if opt_mux = 1 then
            for_each (\<lambda>i. add_clause C (map neg_lit (match_args selector i)))
              [length data..<2 ^ length selector] s
          else Some s);
     s \<leftarrow> (if opt_mux = 0 \<and> \<not> isPower2 (length data) then
            AssertLT C selector
              (map (\<lambda>j. if bit (length data) j then getTrue C else getFalse C) [0..<length selector]) s
          else Some s);
     Some ((out, selector), s) }"

subsection \<open>Cardinality constraints\<close>

text \<open>The scan of \<open>AssertAMO\<close>: constant false literals are dropped, the first constant true one is
  remembered, and a second one ends the scan (\<open>Inl\<close>).\<close>

fun amo_scan :: "'s circuit \<Rightarrow> 's \<Rightarrow> lit list \<Rightarrow> lit \<Rightarrow> lit list \<Rightarrow> (lit \<times> lit) + (lit \<times> lit list)" where
  "amo_scan C s [] ct todo = Inr (ct, todo)"
| "amo_scan C s (l # ls) ct todo =
     (if isConstFalse C s l then amo_scan C s ls ct todo
      else if isConstTrue C s l then
        (if ct = lit_Undef then amo_scan C s ls l todo else Inl (ct, l))
      else amo_scan C s ls ct (todo @ [l]))"

fun amo_pairs :: "'s circuit \<Rightarrow> lit list \<Rightarrow> 's assertion" where
  "amo_pairs C [] s = Some s"
| "amo_pairs C (a # as) s = do {
     s \<leftarrow> for_each (\<lambda>b. add_clause C [neg_lit a, neg_lit b]) as s;
     amo_pairs C as s }"

definition AssertAMO :: "'s circuit \<Rightarrow> lit list \<Rightarrow> 's assertion" where
  "AssertAMO C lits s = (let s = op_cancelUntil (ci_ops C) 0 s in do {
     check (op_decisionLevel (ci_ops C) s = 0);
     (case amo_scan C s lits lit_Undef [] of
        Inl (ct, l) \<Rightarrow> add_clause C [neg_lit ct, neg_lit l] s
      | Inr (ct, todo) \<Rightarrow>
          if ct = lit_Undef then (if length todo < 2 then Some s else amo_pairs C todo s)
          else for_each (\<lambda>l. if l \<noteq> ct then add_clause C [neg_lit ct, neg_lit l] else Some) todo s) })"

definition AssertExactlyOne :: "'s circuit \<Rightarrow> lit list \<Rightarrow> 's assertion" where
  "AssertExactlyOne C lits s = do { s \<leftarrow> AssertOr_vec C lits s; AssertAMO C lits s }"

end
