(* ===== verification/Circuit_Arith_Spec.thy ===== *)
theory Circuit_Arith_Spec
  imports Circuit_Spec Circuit_Arith
begin

text \<open>
  The word-level circuits of \<^theory_text>\<open>Circuit_Arith\<close> compute the arithmetic they are named after: the
  number a vector of literals stands for is \<open>bval\<close> of its truth values.
\<close>

fun bval :: "bool list \<Rightarrow> nat" where
  "bval [] = 0"
| "bval (b # bs) = of_bool b + 2 * bval bs"

lemma bval_append: "bval (as @ bs) = bval as + 2 ^ length as * bval bs"
  by (induction as) (simp_all add: algebra_simps)

lemma bval_less: "bval bs < 2 ^ length bs"
  by (induction bs) auto

lemma bval_replicate_False [simp]: "bval (replicate n False) = 0"
  by (induction n) auto

lemma bval_inj: "length as = length bs \<Longrightarrow> bval as = bval bs \<longleftrightarrow> as = bs"
proof (induction as arbitrary: bs)
  case (Cons a as)
  then obtain b bs' where bs: "bs = b # bs'" "length as = length bs'" by (cases bs) auto
  have "of_bool a + 2 * bval as = of_bool b + 2 * bval bs' \<longleftrightarrow> a = b \<and> bval as = bval bs'"
    by (cases a; cases b) (simp_all, presburger+)
  then show ?case using Cons.IH [OF bs(2)] bs by simp
qed simp

lemma bval_bit: "bit (bval bs) j \<longleftrightarrow> j < length bs \<and> bs ! j"
proof (induction bs arbitrary: j)
  case (Cons b bs)
  show ?case
  proof (cases j)
    case 0
    then show ?thesis by (simp add: bit_0)
  next
    case (Suc k)
    have "bit (of_bool b + 2 * bval bs) (Suc k) = bit (bval bs) k" by (simp add: bit_Suc)
    then show ?thesis using Suc Cons.IH by simp
  qed
qed simp

text \<open>\<open>pow2roundup\<close> is the position of the highest bit, the logarithm rounded down.\<close>

lemma unat_half: "unat (drop_bit 1 v :: 32 word) = unat v div 2"
  by (simp add: unat_drop_bit_eq drop_bit_eq_div unat_div_distrib)

lemma halvings_bounds:
  assumes "0 < unat v" "unat v < 2 ^ n"
  shows "r \<le> halvings n v r \<and> 2 ^ (halvings n v r - r) \<le> unat v \<and> unat v < 2 ^ (halvings n v r - r + 1)"
  using assms
proof (induction n arbitrary: v r)
  case (Suc n)
  let ?w = "drop_bit 1 v :: 32 word"
  show ?case
  proof (cases "?w = 0")
    case True
    then have "unat v div 2 = 0" using unat_half [of v] by simp
    then show ?thesis using True Suc.prems by (simp add: Let_def)
  next
    case False
    then have pos: "0 < unat v div 2" using unat_half [of v] by (metis gr0I unat_eq_zero)
    let ?h = "halvings n ?w (r + 1)"
    have lt: "unat v div 2 < 2 ^ n" using Suc.prems(2) by simp
    have IH: "r + 1 \<le> ?h \<and> 2 ^ (?h - (r + 1)) \<le> unat v div 2 \<and> unat v div 2 < 2 ^ (?h - (r + 1) + 1)"
      using Suc.IH [of ?w "r + 1"] pos lt unfolding unat_half by blast
    have rec: "halvings (Suc n) v r = ?h" using False by (simp add: Let_def)
    have e: "?h - r = Suc (?h - (r + 1))" using IH by linarith
    have "2 * 2 ^ (?h - (r + 1)) \<le> unat v" "unat v < 2 * 2 ^ (?h - (r + 1) + 1)" using IH by linarith+
    then show ?thesis unfolding rec e using IH by simp
  qed
qed simp

lemma pow2roundup_bounds:
  assumes "0 < v"
  shows "2 ^ pow2roundup v \<le> unat v" "unat v < 2 ^ (pow2roundup v + 1)"
proof -
  have "0 < unat v" using assms by (simp add: unat_gt_0 word_gt_0)
  moreover have "unat v < 2 ^ 32" using unsigned_less [of v] by simp
  ultimately have "2 ^ (halvings 32 v 0 - 0) \<le> unat v \<and> unat v < 2 ^ (halvings 32 v 0 - 0 + 1)"
    using halvings_bounds [of v 32 0] by blast
  then show "2 ^ pow2roundup v \<le> unat v" "unat v < 2 ^ (pow2roundup v + 1)"
    using assms by (auto simp: pow2roundup_def word_gt_0)
qed

lemma mux_args:
  assumes "0 < n" "n \<le> 2 ^ 29"
  defines "k \<equiv> pow2roundup (word_of_nat n - 1) + 1"
  shows "n \<le> 2 ^ k" "k < 31"
proof -
  have u: "unat (word_of_nat n - 1 :: 32 word) = n - 1"
  proof -
    have "word_of_nat n - 1 = (word_of_nat (n - 1) :: 32 word)" using assms(1) by (simp add: of_nat_diff)
    moreover have "n - 1 < 2 ^ 32" using assms(2) by simp
    ultimately show ?thesis by (simp add: unat_of_nat take_bit_nat_eq_self)
  qed
  show "n \<le> 2 ^ k" "k < 31"
  proof (atomize (full), cases "n = 1")
    case True
    then show "n \<le> 2 ^ k \<and> k < 31" by (simp add: k_def pow2roundup_def)
  next
    case False
    then have "0 < (word_of_nat n - 1 :: 32 word)" using u assms(1) by (simp add: word_gt_0 unat_eq_0 [symmetric])
    from pow2roundup_bounds [OF this] have b: "2 ^ (k - 1) \<le> n - 1" "n - 1 < 2 ^ k"
      unfolding u by (simp_all add: k_def)
    have "(2 :: nat) ^ (k - 1) < 2 ^ 30" using b(1) assms(2) by simp
    then have "k - 1 < 30" by (rule power_less_imp_less_exp [rotated]) simp
    then show "n \<le> 2 ^ k \<and> k < 31" using b(2) by linarith
  qed
qed

abbreviation num :: "(int \<Rightarrow> bool) \<Rightarrow> lit list \<Rightarrow> nat" where
  "num \<sigma> ls \<equiv> bval (map (lit_val \<sigma>) ls)"

abbreviation count_true :: "(int \<Rightarrow> bool) \<Rightarrow> lit list \<Rightarrow> nat" where
  "count_true \<sigma> ls \<equiv> length (filter (lit_val \<sigma>) ls)"

context gate_solver
begin

abbreviation in_use :: "'s \<Rightarrow> lit list \<Rightarrow> bool" where
  "in_use s ls \<equiv> \<forall>l\<in>set ls. var l \<in> vars s"

lemma in_use_mono: "in_use s ls \<Longrightarrow> adds_constraint s t P \<Longrightarrow> in_use t ls"
  by (simp add: adds_vars)

lemma buildsE:
  assumes "builds s r f"
  obtains l t where "r = Some (l, t)" "extends s t" "inv t" "is_lit t l f"
  using assms by (auto simp: gives_def adds_constraint_def)

subsection \<open>Adders\<close>

lemma HalfAdder_gives:
  assumes "inv s" "is_lit s a f" "is_lit s b g"
  shows "gives s (HalfAdder C a b s) (\<lambda>_. True) (\<lambda>(r, c) t. is_lit t r (\<lambda>\<sigma>. f \<sigma> \<noteq> g \<sigma>) \<and> is_lit t c (\<lambda>\<sigma>. f \<sigma> \<and> g \<sigma>))"
  unfolding HalfAdder_def
proof (rule gives_bind [OF And2_builds [OF assms]])
  fix c t assume t: "extends s t" "is_lit t c (\<lambda>\<sigma>. f \<sigma> \<and> g \<sigma>)"
  note m = is_lit_mono [OF _ t(1)]
  show "gives t (do { (r, u) \<leftarrow> Xor2 C a b t; Some ((r, c), u) }) (\<lambda>_. True)
      (\<lambda>(r, c) t. is_lit t r (\<lambda>\<sigma>. f \<sigma> \<noteq> g \<sigma>) \<and> is_lit t c (\<lambda>\<sigma>. f \<sigma> \<and> g \<sigma>))"
    by (rule gives_bind [OF Xor2_builds [OF adds_inv [OF t(1)] m [OF assms(2)] m [OF assms(3)]]])
      (auto intro!: gives_return dest: adds_inv intro: is_lit_mono [OF t(2)])
qed

lemma HalfSubtractor_gives:
  assumes "inv s" "is_lit s a f" "is_lit s b g"
  shows "gives s (HalfSubtractor C a b s) (\<lambda>_. True)
    (\<lambda>(r, c) t. is_lit t r (\<lambda>\<sigma>. f \<sigma> \<noteq> g \<sigma>) \<and> is_lit t c (\<lambda>\<sigma>. \<not> f \<sigma> \<and> g \<sigma>))"
  unfolding HalfSubtractor_def
proof (rule gives_bind [OF And2_builds [OF assms(1) is_lit_neg [OF assms(2)] assms(3)]])
  fix c t assume t: "extends s t" "is_lit t c (\<lambda>\<sigma>. \<not> f \<sigma> \<and> g \<sigma>)"
  note m = is_lit_mono [OF _ t(1)]
  show "gives t (do { (r, u) \<leftarrow> Xor2 C a b t; Some ((r, c), u) }) (\<lambda>_. True)
      (\<lambda>(r, c) t. is_lit t r (\<lambda>\<sigma>. f \<sigma> \<noteq> g \<sigma>) \<and> is_lit t c (\<lambda>\<sigma>. \<not> f \<sigma> \<and> g \<sigma>))"
    by (rule gives_bind [OF Xor2_builds [OF adds_inv [OF t(1)] m [OF assms(2)] m [OF assms(3)]]])
      (auto intro!: gives_return dest: adds_inv intro: is_lit_mono [OF t(2)])
qed

lemma FullAdder_gives:
  assumes s: "inv s" and a: "is_lit s a f" and b: "is_lit s b g" and c: "is_lit s c h"
  shows "gives s (FullAdder C a b c s) (\<lambda>_. True)
    (\<lambda>(r, co) t. is_lit t r (\<lambda>\<sigma>. (f \<sigma> \<noteq> g \<sigma>) \<noteq> h \<sigma>) \<and> is_lit t co (\<lambda>\<sigma>. f \<sigma> \<and> g \<sigma> \<or> h \<sigma> \<and> f \<sigma> \<noteq> g \<sigma>))"
proof -
  obtain x t1 where 1: "Xor2 C a b s = Some (x, t1)" "extends s t1" "inv t1" "is_lit t1 x (\<lambda>\<sigma>. f \<sigma> \<noteq> g \<sigma>)"
    by (rule buildsE [OF Xor2_builds [OF s a b]])
  note a1 = is_lit_mono [OF a 1(2)] and b1 = is_lit_mono [OF b 1(2)] and c1 = is_lit_mono [OF c 1(2)]
  obtain y t2 where 2: "And2 C a b t1 = Some (y, t2)" "extends t1 t2" "inv t2" "is_lit t2 y (\<lambda>\<sigma>. f \<sigma> \<and> g \<sigma>)"
    by (rule buildsE [OF And2_builds [OF 1(3) a1 b1]])
  note x2 = is_lit_mono [OF 1(4) 2(2)] and c2 = is_lit_mono [OF c1 2(2)]
  obtain z t3 where 3: "And2 C c x t2 = Some (z, t3)" "extends t2 t3" "inv t3" "is_lit t3 z (\<lambda>\<sigma>. h \<sigma> \<and> f \<sigma> \<noteq> g \<sigma>)"
    by (rule buildsE [OF And2_builds [OF 2(3) c2 x2]])
  note y3 = is_lit_mono [OF 2(4) 3(2)] and x3 = is_lit_mono [OF x2 3(2)] and c3 = is_lit_mono [OF c2 3(2)]
  obtain co t4 where 4: "Or2 C y z t3 = Some (co, t4)" "extends t3 t4" "inv t4"
    "is_lit t4 co (\<lambda>\<sigma>. f \<sigma> \<and> g \<sigma> \<or> h \<sigma> \<and> f \<sigma> \<noteq> g \<sigma>)"
    by (rule buildsE [OF Or2_builds [OF 3(3) y3 3(4)]])
  note x4 = is_lit_mono [OF x3 4(2)] and c4 = is_lit_mono [OF c3 4(2)]
  obtain r t5 where 5: "Xor2 C x c t4 = Some (r, t5)" "extends t4 t5" "inv t5" "is_lit t5 r (\<lambda>\<sigma>. (f \<sigma> \<noteq> g \<sigma>) \<noteq> h \<sigma>)"
    by (rule buildsE [OF Xor2_builds [OF 4(3) x4 c4]])
  have "extends s t5" using 1(2) 2(2) 3(2) 4(2) 5(2) by (blast intro: extends_trans)
  moreover have "FullAdder C a b c s = Some ((r, co), t5)" using 1 2 3 4 5 by (simp add: FullAdder_def)
  ultimately show ?thesis using 5(4) is_lit_mono [OF 4(4) 5(2)] by (simp add: gives_def)
qed

text \<open>A full adder adds: twice the carry plus the result is the sum of the inputs.\<close>

lemma full_sum:
  "of_bool ((f \<noteq> g) \<noteq> h) + 2 * of_bool (f \<and> g \<or> h \<and> f \<noteq> g) = (of_bool f + of_bool g + of_bool h :: nat)"
  by (cases f; cases g; cases h) auto

lemma add_loop_gives:
  assumes "inv s" "length as = length bs" "in_use s as" "in_use s bs" "in_use s (c # os)"
  shows "gives s (add_loop C as bs os c s) (\<lambda>_. True) (\<lambda>(us, co) t. \<exists>vs. us = os @ vs \<and> length vs = length as \<and>
    in_use t (co # us) \<and>
    (\<forall>\<sigma>\<in>models t. num \<sigma> vs + 2 ^ length as * of_bool (lit_val \<sigma> co) = num \<sigma> as + num \<sigma> bs + of_bool (lit_val \<sigma> c)))"
  using assms
proof (induction as arbitrary: bs c os s)
  case Nil
  then show ?case by (auto intro!: gives_return)
next
  case (Cons a as)
  obtain b bs' where bs: "bs = b # bs'" "length as = length bs'" using Cons.prems(2) by (cases bs) auto
  have la: "is_lit s a (\<lambda>\<sigma>. lit_val \<sigma> a)" and lb: "is_lit s b (\<lambda>\<sigma>. lit_val \<sigma> b)" and lc: "is_lit s c (\<lambda>\<sigma>. lit_val \<sigma> c)"
    using Cons.prems bs by (simp_all add: is_lit_self)
  obtain x t1 where 1: "Xor2 C a b s = Some (x, t1)" "extends s t1" "inv t1" "is_lit t1 x (\<lambda>\<sigma>. lit_val \<sigma> a \<noteq> lit_val \<sigma> b)"
    by (rule buildsE [OF Xor2_builds [OF Cons.prems(1) la lb]])
  note c1 = is_lit_mono [OF lc 1(2)]
  obtain r t2 where 2: "Xor2 C x c t1 = Some (r, t2)" "extends t1 t2" "inv t2"
    "is_lit t2 r (\<lambda>\<sigma>. (lit_val \<sigma> a \<noteq> lit_val \<sigma> b) \<noteq> lit_val \<sigma> c)"
    by (rule buildsE [OF Xor2_builds [OF 1(3,4) c1]])
  note x2 = is_lit_mono [OF 1(4) 2(2)] and c2 = is_lit_mono [OF c1 2(2)]
  obtain y t3 where 3: "And2 C x c t2 = Some (y, t3)" "extends t2 t3" "inv t3"
    "is_lit t3 y (\<lambda>\<sigma>. (lit_val \<sigma> a \<noteq> lit_val \<sigma> b) \<and> lit_val \<sigma> c)"
    by (rule buildsE [OF And2_builds [OF 2(3) x2 c2]])
  have e3: "extends s t3" using 1(2) 2(2) 3(2) by (blast intro: extends_trans)
  obtain z t4 where 4: "And2 C a b t3 = Some (z, t4)" "extends t3 t4" "inv t4" "is_lit t4 z (\<lambda>\<sigma>. lit_val \<sigma> a \<and> lit_val \<sigma> b)"
    by (rule buildsE [OF And2_builds [OF 3(3) is_lit_mono [OF la e3] is_lit_mono [OF lb e3]]])
  obtain k t5 where 5: "Or2 C z y t4 = Some (k, t5)" "extends t4 t5" "inv t5"
    "is_lit t5 k (\<lambda>\<sigma>. lit_val \<sigma> a \<and> lit_val \<sigma> b \<or> (lit_val \<sigma> a \<noteq> lit_val \<sigma> b) \<and> lit_val \<sigma> c)"
    by (rule buildsE [OF Or2_builds [OF 4(3,4) is_lit_mono [OF 3(4) 4(2)]]])
  have e25: "extends t2 t5" using 3(2) 4(2) 5(2) by (blast intro: extends_trans)
  have e: "extends s t5" using e3 4(2) 5(2) by (blast intro: extends_trans)
  note r5 = is_lit_mono [OF 2(4) e25]
  have u: "in_use t5 as" "in_use t5 bs'" "in_use t5 (k # os @ [r])"
    using Cons.prems bs adds_vars [OF e] is_lit_vars [OF r5] is_lit_vars [OF 5(4)] by auto
  have run: "add_loop C (a # as) bs os c s = add_loop C as bs' (os @ [r]) k t5"
    using 1 2 3 4 5 bs by simp
  note IH = Cons.IH [OF 5(3) bs(2) u]
  then obtain vs co t6 where 6: "add_loop C as bs' (os @ [r]) k t5 = Some (((os @ [r]) @ vs, co), t6)" "extends t5 t6"
    "length vs = length as" "in_use t6 (co # (os @ [r]) @ vs)"
    "\<forall>\<sigma>\<in>models t6. num \<sigma> vs + 2 ^ length as * of_bool (lit_val \<sigma> co) = num \<sigma> as + num \<sigma> bs' + of_bool (lit_val \<sigma> k)"
    unfolding gives_def by fastforce
  have "num \<sigma> (r # vs) + 2 ^ length (a # as) * of_bool (lit_val \<sigma> co) = num \<sigma> (a # as) + num \<sigma> bs + of_bool (lit_val \<sigma> c)"
    if "\<sigma> \<in> models t6" for \<sigma>
  proof -
    have "lit_val \<sigma> r = ((lit_val \<sigma> a \<noteq> lit_val \<sigma> b) \<noteq> lit_val \<sigma> c)"
      "lit_val \<sigma> k = (lit_val \<sigma> a \<and> lit_val \<sigma> b \<or> (lit_val \<sigma> a \<noteq> lit_val \<sigma> b) \<and> lit_val \<sigma> c)"
      using is_lit_val [OF is_lit_mono [OF r5 6(2)] that] is_lit_val [OF is_lit_mono [OF 5(4) 6(2)] that] by simp_all
    then have "of_bool (lit_val \<sigma> r) + 2 * of_bool (lit_val \<sigma> k) =
        (of_bool (lit_val \<sigma> a) + of_bool (lit_val \<sigma> b) + of_bool (lit_val \<sigma> c) :: nat)"
      using full_sum [of "lit_val \<sigma> a" "lit_val \<sigma> b" "lit_val \<sigma> c"] by (simp add: conj_commute)
    then show ?thesis using bspec [OF 6(5) that] bs(1) by (simp add: algebra_simps)
  qed
  then show ?case using 6 extends_trans [OF e 6(2)] unfolding run by (auto simp: gives_def)
qed

lemma Add_gives:
  assumes "inv s" "length b = length a" "a \<noteq> []" "in_use s a" "in_use s b"
  shows "gives s (Add C a b s) (\<lambda>_. True) (\<lambda>(us, co) t. length us = length a \<and> in_use t (co # us) \<and>
    (\<forall>\<sigma>\<in>models t. num \<sigma> us + 2 ^ length a * of_bool (lit_val \<sigma> co) = num \<sigma> a + num \<sigma> b))"
proof -
  obtain a0 as where a: "a = a0 # as" using assms(3) by (cases a) auto
  obtain b0 bs where b: "b = b0 # bs" "length as = length bs" using assms(2) a by (cases b) auto
  have l: "is_lit s a0 (\<lambda>\<sigma>. lit_val \<sigma> a0)" "is_lit s b0 (\<lambda>\<sigma>. lit_val \<sigma> b0)"
    using assms a b by (simp_all add: is_lit_self)
  obtain r c t where t: "HalfAdder C a0 b0 s = Some ((r, c), t)" "extends s t"
    "is_lit t r (\<lambda>\<sigma>. lit_val \<sigma> a0 \<noteq> lit_val \<sigma> b0)" "is_lit t c (\<lambda>\<sigma>. lit_val \<sigma> a0 \<and> lit_val \<sigma> b0)"
    using HalfAdder_gives [OF assms(1) l] by (auto simp: gives_def)
  have u: "in_use t as" "in_use t bs" "in_use t (c # [r])"
    using assms(4,5) a b adds_vars [OF t(2)] is_lit_vars [OF t(3)] is_lit_vars [OF t(4)] by auto
  obtain vs co t' where t': "add_loop C as bs [r] c t = Some (([r] @ vs, co), t')" "extends t t'"
    "length vs = length as" "in_use t' (co # [r] @ vs)"
    "\<forall>\<sigma>\<in>models t'. num \<sigma> vs + 2 ^ length as * of_bool (lit_val \<sigma> co) = num \<sigma> as + num \<sigma> bs + of_bool (lit_val \<sigma> c)"
    using add_loop_gives [OF adds_inv [OF t(2)] b(2) u] unfolding gives_def by fastforce
  have "num \<sigma> (r # vs) + 2 ^ length a * of_bool (lit_val \<sigma> co) = num \<sigma> a + num \<sigma> b" if "\<sigma> \<in> models t'" for \<sigma>
  proof -
    have "of_bool (lit_val \<sigma> r) + 2 * of_bool (lit_val \<sigma> c) = (of_bool (lit_val \<sigma> a0) + of_bool (lit_val \<sigma> b0) :: nat)"
      using is_lit_val [OF is_lit_mono [OF t(3) t'(2)] that] is_lit_val [OF is_lit_mono [OF t(4) t'(2)] that] by auto
    then show ?thesis using bspec [OF t'(5) that] a b(1) by (simp add: algebra_simps)
  qed
  then show ?thesis using t t' extends_trans [OF t(2) t'(2)] assms(2) a b
    by (auto simp: Add_def gives_def)
qed

subsection \<open>Subtraction and negation\<close>

lemma sub_bits_gives:
  assumes "inv s" "length as = length bs" "in_use s as" "in_use s bs" "in_use s (c # os)"
  shows "gives s (sub_bits C as bs os c s) (\<lambda>_. True) (\<lambda>(us, co) t. \<exists>vs. us = os @ vs \<and> length vs = length as \<and>
    in_use t (co # us) \<and>
    (\<forall>\<sigma>\<in>models t. num \<sigma> vs + num \<sigma> bs + of_bool (lit_val \<sigma> c) = num \<sigma> as + 2 ^ length as * of_bool (lit_val \<sigma> co)))"
  using assms
proof (induction as arbitrary: bs c os s)
  case Nil
  then show ?case by (auto intro!: gives_return)
next
  case (Cons a as)
  obtain b bs' where bs: "bs = b # bs'" "length as = length bs'" using Cons.prems(2) by (cases bs) auto
  have la: "is_lit s a (\<lambda>\<sigma>. lit_val \<sigma> a)" and lb: "is_lit s b (\<lambda>\<sigma>. lit_val \<sigma> b)" and lc: "is_lit s c (\<lambda>\<sigma>. lit_val \<sigma> c)"
    using Cons.prems bs by (simp_all add: is_lit_self)
  obtain x t1 where 1: "Xor2 C a b s = Some (x, t1)" "extends s t1" "inv t1" "is_lit t1 x (\<lambda>\<sigma>. lit_val \<sigma> a \<noteq> lit_val \<sigma> b)"
    by (rule buildsE [OF Xor2_builds [OF Cons.prems(1) la lb]])
  note c1 = is_lit_mono [OF lc 1(2)]
  obtain r t2 where 2: "Xor2 C x c t1 = Some (r, t2)" "extends t1 t2" "inv t2"
    "is_lit t2 r (\<lambda>\<sigma>. (lit_val \<sigma> a \<noteq> lit_val \<sigma> b) \<noteq> lit_val \<sigma> c)"
    by (rule buildsE [OF Xor2_builds [OF 1(3,4) c1]])
  note x2 = is_lit_neg [OF is_lit_mono [OF 1(4) 2(2)]] and c2 = is_lit_mono [OF c1 2(2)]
  obtain y t3 where 3: "And2 C (neg_lit x) c t2 = Some (y, t3)" "extends t2 t3" "inv t3"
    "is_lit t3 y (\<lambda>\<sigma>. \<not> (lit_val \<sigma> a \<noteq> lit_val \<sigma> b) \<and> lit_val \<sigma> c)"
    by (rule buildsE [OF And2_builds [OF 2(3) x2 c2]])
  have e3: "extends s t3" using 1(2) 2(2) 3(2) by (blast intro: extends_trans)
  obtain z t4 where 4: "And2 C (neg_lit a) b t3 = Some (z, t4)" "extends t3 t4" "inv t4"
    "is_lit t4 z (\<lambda>\<sigma>. \<not> lit_val \<sigma> a \<and> lit_val \<sigma> b)"
    by (rule buildsE [OF And2_builds [OF 3(3) is_lit_neg [OF is_lit_mono [OF la e3]] is_lit_mono [OF lb e3]]])
  obtain k t5 where 5: "Or2 C z y t4 = Some (k, t5)" "extends t4 t5" "inv t5"
    "is_lit t5 k (\<lambda>\<sigma>. (\<not> lit_val \<sigma> a \<and> lit_val \<sigma> b) \<or> \<not> (lit_val \<sigma> a \<noteq> lit_val \<sigma> b) \<and> lit_val \<sigma> c)"
    by (rule buildsE [OF Or2_builds [OF 4(3,4) is_lit_mono [OF 3(4) 4(2)]]])
  have e25: "extends t2 t5" using 3(2) 4(2) 5(2) by (blast intro: extends_trans)
  have e: "extends s t5" using e3 4(2) 5(2) by (blast intro: extends_trans)
  note r5 = is_lit_mono [OF 2(4) e25]
  have u: "in_use t5 as" "in_use t5 bs'" "in_use t5 (k # os @ [r])"
    using Cons.prems bs adds_vars [OF e] is_lit_vars [OF r5] is_lit_vars [OF 5(4)] by auto
  have run: "sub_bits C (a # as) bs os c s = sub_bits C as bs' (os @ [r]) k t5"
    using 1 2 3 4 5 bs by simp
  obtain vs co t6 where 6: "sub_bits C as bs' (os @ [r]) k t5 = Some (((os @ [r]) @ vs, co), t6)" "extends t5 t6"
    "length vs = length as" "in_use t6 (co # (os @ [r]) @ vs)"
    "\<forall>\<sigma>\<in>models t6. num \<sigma> vs + num \<sigma> bs' + of_bool (lit_val \<sigma> k) = num \<sigma> as + 2 ^ length as * of_bool (lit_val \<sigma> co)"
    using Cons.IH [OF 5(3) bs(2) u] unfolding gives_def by fastforce
  have "num \<sigma> (r # vs) + num \<sigma> bs + of_bool (lit_val \<sigma> c) = num \<sigma> (a # as) + 2 ^ length (a # as) * of_bool (lit_val \<sigma> co)"
    if "\<sigma> \<in> models t6" for \<sigma>
  proof -
    have "lit_val \<sigma> r = ((lit_val \<sigma> a \<noteq> lit_val \<sigma> b) \<noteq> lit_val \<sigma> c)"
      "lit_val \<sigma> k = ((\<not> lit_val \<sigma> a \<and> lit_val \<sigma> b) \<or> \<not> (lit_val \<sigma> a \<noteq> lit_val \<sigma> b) \<and> lit_val \<sigma> c)"
      using is_lit_val [OF is_lit_mono [OF r5 6(2)] that] is_lit_val [OF is_lit_mono [OF 5(4) 6(2)] that] by simp_all
    then have "of_bool (lit_val \<sigma> r) + of_bool (lit_val \<sigma> b) + of_bool (lit_val \<sigma> c) =
        (of_bool (lit_val \<sigma> a) + 2 * of_bool (lit_val \<sigma> k) :: nat)"
      by (cases "lit_val \<sigma> a"; cases "lit_val \<sigma> b"; cases "lit_val \<sigma> c") simp_all
    then show ?thesis using bspec [OF 6(5) that] bs(1) by (simp add: algebra_simps)
  qed
  then show ?case using 6 extends_trans [OF e 6(2)] unfolding run by (auto simp: gives_def)
qed

lemma Subtract_gives:
  assumes "inv s" "length b = length a" "a \<noteq> []" "in_use s a" "in_use s b"
  shows "gives s (Subtract C a b s) (\<lambda>_. True) (\<lambda>(us, co) t. length us = length a \<and> in_use t (co # us) \<and>
    (\<forall>\<sigma>\<in>models t. num \<sigma> us + num \<sigma> b = num \<sigma> a + 2 ^ length a * of_bool (lit_val \<sigma> co)))"
proof -
  obtain a0 as where a: "a = a0 # as" using assms(3) by (cases a) auto
  obtain b0 bs where b: "b = b0 # bs" "length as = length bs" using assms(2) a by (cases b) auto
  have l: "is_lit s a0 (\<lambda>\<sigma>. lit_val \<sigma> a0)" "is_lit s b0 (\<lambda>\<sigma>. lit_val \<sigma> b0)"
    using assms a b by (simp_all add: is_lit_self)
  obtain r c t where t: "HalfSubtractor C a0 b0 s = Some ((r, c), t)" "extends s t"
    "is_lit t r (\<lambda>\<sigma>. lit_val \<sigma> a0 \<noteq> lit_val \<sigma> b0)" "is_lit t c (\<lambda>\<sigma>. \<not> lit_val \<sigma> a0 \<and> lit_val \<sigma> b0)"
    using HalfSubtractor_gives [OF assms(1) l] by (auto simp: gives_def)
  have u: "in_use t as" "in_use t bs" "in_use t (c # [r])"
    using assms(4,5) a b adds_vars [OF t(2)] is_lit_vars [OF t(3)] is_lit_vars [OF t(4)] by auto
  obtain vs co t' where t': "sub_bits C as bs [r] c t = Some (([r] @ vs, co), t')" "extends t t'"
    "length vs = length as" "in_use t' (co # [r] @ vs)"
    "\<forall>\<sigma>\<in>models t'. num \<sigma> vs + num \<sigma> bs + of_bool (lit_val \<sigma> c) = num \<sigma> as + 2 ^ length as * of_bool (lit_val \<sigma> co)"
    using sub_bits_gives [OF adds_inv [OF t(2)] b(2) u] unfolding gives_def by fastforce
  have "num \<sigma> (r # vs) + num \<sigma> b = num \<sigma> a + 2 ^ length a * of_bool (lit_val \<sigma> co)" if "\<sigma> \<in> models t'" for \<sigma>
  proof -
    have "of_bool (lit_val \<sigma> r) + of_bool (lit_val \<sigma> b0) = (of_bool (lit_val \<sigma> a0) + 2 * of_bool (lit_val \<sigma> c) :: nat)"
      using is_lit_val [OF is_lit_mono [OF t(3) t'(2)] that] is_lit_val [OF is_lit_mono [OF t(4) t'(2)] that] by auto
    then show ?thesis using bspec [OF t'(5) that] a b(1) by (simp add: algebra_simps)
  qed
  then show ?thesis using t t' extends_trans [OF t(2) t'(2)] assms(2) a b
    by (auto simp: Subtract_def gives_def)
qed

lemma num_neg: "num \<sigma> (map neg_lit as) + num \<sigma> as + 1 = 2 ^ length as"
proof (induction as)
  case (Cons a as)
  then have "2 * (num \<sigma> (map neg_lit as) + num \<sigma> as + 1) = 2 * 2 ^ length as" by simp
  then show ?case by (cases "lit_val \<sigma> a") simp_all
qed simp

lemma negate_loop_gives:
  assumes "inv s" "in_use s as" "in_use s (c # os)"
  shows "gives s (negate_loop C as os c s) (\<lambda>_. True) (\<lambda>us t. \<exists>vs co. us = os @ vs \<and> length vs = length as \<and>
    in_use t us \<and> (\<forall>\<sigma>\<in>models t.
      num \<sigma> vs + 2 ^ length as * of_bool (lit_val \<sigma> co) = num \<sigma> (map neg_lit as) + of_bool (lit_val \<sigma> c)))"
  using assms
proof (induction as arbitrary: c os s)
  case Nil
  then show ?case by (auto intro!: gives_return exI [of _ c])
next
  case (Cons a as)
  have la: "is_lit s (neg_lit a) (\<lambda>\<sigma>. \<not> lit_val \<sigma> a)" and lc: "is_lit s c (\<lambda>\<sigma>. lit_val \<sigma> c)"
    using Cons.prems by (simp_all add: is_lit_self is_lit_neg)
  obtain r t1 where 1: "Xor2 C (neg_lit a) c s = Some (r, t1)" "extends s t1" "inv t1" "is_lit t1 r (\<lambda>\<sigma>. (\<not> lit_val \<sigma> a) \<noteq> lit_val \<sigma> c)"
    by (rule buildsE [OF Xor2_builds [OF Cons.prems(1) la lc]])
  obtain k t2 where 2: "And2 C (neg_lit a) c t1 = Some (k, t2)" "extends t1 t2" "inv t2"
    "is_lit t2 k (\<lambda>\<sigma>. \<not> lit_val \<sigma> a \<and> lit_val \<sigma> c)"
    by (rule buildsE [OF And2_builds [OF 1(3) is_lit_mono [OF la 1(2)] is_lit_mono [OF lc 1(2)]]])
  have e: "extends s t2" using 1(2) 2(2) by (rule extends_trans)
  note r2 = is_lit_mono [OF 1(4) 2(2)]
  have u: "in_use t2 as" "in_use t2 (k # os @ [r])"
    using Cons.prems adds_vars [OF e] is_lit_vars [OF r2] is_lit_vars [OF 2(4)] by auto
  have run: "negate_loop C (a # as) os c s = negate_loop C as (os @ [r]) k t2" using 1 2 by simp
  obtain vs co t6 where 6: "negate_loop C as (os @ [r]) k t2 = Some ((os @ [r]) @ vs, t6)" "extends t2 t6"
    "length vs = length as" "in_use t6 ((os @ [r]) @ vs)"
    "\<forall>\<sigma>\<in>models t6. num \<sigma> vs + 2 ^ length as * of_bool (lit_val \<sigma> co) = num \<sigma> (map neg_lit as) + of_bool (lit_val \<sigma> k)"
    using Cons.IH [OF 2(3) u] unfolding gives_def by fastforce
  have F: "\<forall>\<sigma>\<in>models t6. num \<sigma> (r # vs) + 2 ^ length (a # as) * of_bool (lit_val \<sigma> co) =
      num \<sigma> (map neg_lit (a # as)) + of_bool (lit_val \<sigma> c)"
  proof
    fix \<sigma> assume that: "\<sigma> \<in> models t6"
    have "of_bool (lit_val \<sigma> r) + 2 * of_bool (lit_val \<sigma> k) = (of_bool (\<not> lit_val \<sigma> a) + of_bool (lit_val \<sigma> c) :: nat)"
      using is_lit_val [OF is_lit_mono [OF r2 6(2)] that] is_lit_val [OF is_lit_mono [OF 2(4) 6(2)] that] by auto
    then show "num \<sigma> (r # vs) + 2 ^ length (a # as) * of_bool (lit_val \<sigma> co) =
      num \<sigma> (map neg_lit (a # as)) + of_bool (lit_val \<sigma> c)"
      using bspec [OF 6(5) that] by (simp add: algebra_simps)
  qed
  show ?case unfolding run gives_def
    by (intro exI [of _ "os @ r # vs"] exI [of _ t6] exI [of _ "r # vs"] exI [of _ co] conjI F)
      (use 6 extends_trans [OF e 6(2)] in simp_all)
qed

lemma Negate_gives:
  assumes "inv s" "a \<noteq> []" "in_use s a"
  shows "gives s (Negate C a s) (\<lambda>_. True) (\<lambda>us t. length us = length a \<and> in_use t us \<and>
    (\<forall>\<sigma>\<in>models t. (num \<sigma> us + num \<sigma> a) mod 2 ^ length a = 0))"
proof -
  obtain a0 as where a: "a = a0 # as" using assms(2) by (cases a) auto
  have l: "is_lit s (neg_lit a0) (\<lambda>\<sigma>. \<not> lit_val \<sigma> a0)" using assms a by (simp add: is_lit_self is_lit_neg)
  obtain r c t where t: "HalfAdder C (neg_lit a0) (getTrue C) s = Some ((r, c), t)" "extends s t"
    "is_lit t r (\<lambda>\<sigma>. (\<not> lit_val \<sigma> a0) \<noteq> True)" "is_lit t c (\<lambda>\<sigma>. \<not> lit_val \<sigma> a0 \<and> True)"
    using HalfAdder_gives [OF assms(1) l is_lit_true [OF assms(1)]] by (auto simp: gives_def)
  have u: "in_use t as" "in_use t (c # [r])"
    using assms(3) a adds_vars [OF t(2)] is_lit_vars [OF t(3)] is_lit_vars [OF t(4)] by auto
  obtain vs co t' where t': "negate_loop C as [r] c t = Some ([r] @ vs, t')" "extends t t'"
    "length vs = length as" "in_use t' ([r] @ vs)"
    "\<forall>\<sigma>\<in>models t'. num \<sigma> vs + 2 ^ length as * of_bool (lit_val \<sigma> co) = num \<sigma> (map neg_lit as) + of_bool (lit_val \<sigma> c)"
    using negate_loop_gives [OF adds_inv [OF t(2)] u] unfolding gives_def by fastforce
  have "(num \<sigma> (r # vs) + num \<sigma> a) mod 2 ^ length a = 0" if "\<sigma> \<in> models t'" for \<sigma>
  proof -
    have "of_bool (lit_val \<sigma> r) + 2 * of_bool (lit_val \<sigma> c) + of_bool (lit_val \<sigma> a0) = (2 :: nat)"
      using is_lit_val [OF is_lit_mono [OF t(3) t'(2)] that] is_lit_val [OF is_lit_mono [OF t(4) t'(2)] that]
      by (cases "lit_val \<sigma> a0") auto
    then have "num \<sigma> (r # vs) + num \<sigma> a + 2 * (2 ^ length as * of_bool (lit_val \<sigma> co)) = 2 * 2 ^ length as"
      using bspec [OF t'(5) that] num_neg [of \<sigma> as] a by (simp add: algebra_simps)
    then have "num \<sigma> (r # vs) + num \<sigma> a = 2 ^ length a * of_bool (\<not> lit_val \<sigma> co)"
      using a by (cases "lit_val \<sigma> co") simp_all
    then show ?thesis by simp
  qed
  then show ?thesis using t t' extends_trans [OF t(2) t'(2)] a by (auto simp: Negate_def gives_def)
qed

subsection \<open>Multiplication\<close>

lemma in_use_lit_self: "in_use s ls \<Longrightarrow> l \<in> set ls \<Longrightarrow> is_lit s l (\<lambda>\<sigma>. lit_val \<sigma> l)"
  by (simp add: is_lit_self)

text \<open>What a row of the multiplier adds up, one bit at a time.\<close>

lemma nBlock_sum:
  assumes "inv s" "var m0 \<in> vars s" "var m1 \<in> vars s" "var q \<in> vars s" "var c \<in> vars s"
  shows "gives s (nBlock C m0 m1 q c s) (\<lambda>_. True) (\<lambda>(r, co) t. var r \<in> vars t \<and> var co \<in> vars t \<and>
    (\<forall>\<sigma>\<in>models t. of_bool (lit_val \<sigma> r) + 2 * of_bool (lit_val \<sigma> co) =
      (of_bool (lit_val \<sigma> q) * of_bool (lit_val \<sigma> m0) + of_bool (lit_val \<sigma> m1) + of_bool (lit_val \<sigma> c) :: nat)))"
proof -
  obtain a t where t: "And2 C q m0 s = Some (a, t)" "extends s t" "inv t" "is_lit t a (\<lambda>\<sigma>. lit_val \<sigma> q \<and> lit_val \<sigma> m0)"
    by (rule buildsE [OF And2_builds [OF assms(1) is_lit_self [OF assms(4)] is_lit_self [OF assms(2)]]])
  note m = is_lit_mono [OF _ t(2)]
  obtain r co u where u: "FullAdder C a m1 c t = Some ((r, co), u)" "extends t u"
    "is_lit u r (\<lambda>\<sigma>. ((lit_val \<sigma> q \<and> lit_val \<sigma> m0) \<noteq> lit_val \<sigma> m1) \<noteq> lit_val \<sigma> c)"
    "is_lit u co (\<lambda>\<sigma>. (lit_val \<sigma> q \<and> lit_val \<sigma> m0) \<and> lit_val \<sigma> m1 \<or>
        lit_val \<sigma> c \<and> (lit_val \<sigma> q \<and> lit_val \<sigma> m0) \<noteq> lit_val \<sigma> m1)"
    using FullAdder_gives [OF t(3,4) m [OF is_lit_self [OF assms(3)]] m [OF is_lit_self [OF assms(5)]]]
    by (auto simp: gives_def)
  have "of_bool (lit_val \<sigma> r) + 2 * of_bool (lit_val \<sigma> co) =
      (of_bool (lit_val \<sigma> q) * of_bool (lit_val \<sigma> m0) + of_bool (lit_val \<sigma> m1) + of_bool (lit_val \<sigma> c) :: nat)"
    if "\<sigma> \<in> models u" for \<sigma>
    using full_sum [of "lit_val \<sigma> q \<and> lit_val \<sigma> m0" "lit_val \<sigma> m1" "lit_val \<sigma> c"]
    unfolding is_lit_val [OF u(3) that] is_lit_val [OF u(4) that] of_bool_conj .
  then show ?thesis using t u extends_trans [OF t(2) u(2)] is_lit_vars [OF u(3)] is_lit_vars [OF u(4)]
    by (simp add: nBlock_def gives_def)
qed

lemma mBlock_sum:
  assumes "inv s" "var m0 \<in> vars s" "var m1 \<in> vars s" "var q0 \<in> vars s" "var q1 \<in> vars s" "var c \<in> vars s"
  shows "gives s (mBlock C m0 m1 q0 q1 c s) (\<lambda>_. True) (\<lambda>(r, co) t. var r \<in> vars t \<and> var co \<in> vars t \<and>
    (\<forall>\<sigma>\<in>models t. of_bool (lit_val \<sigma> r) + 2 * of_bool (lit_val \<sigma> co) =
      (of_bool (lit_val \<sigma> q1) * of_bool (lit_val \<sigma> m0) + of_bool (lit_val \<sigma> q0) * of_bool (lit_val \<sigma> m1) +
       of_bool (lit_val \<sigma> c) :: nat)))"
proof -
  obtain a t where t: "And2 C q1 m0 s = Some (a, t)" "extends s t" "inv t" "is_lit t a (\<lambda>\<sigma>. lit_val \<sigma> q1 \<and> lit_val \<sigma> m0)"
    by (rule buildsE [OF And2_builds [OF assms(1) is_lit_self [OF assms(5)] is_lit_self [OF assms(2)]]])
  note m = is_lit_mono [OF _ t(2)]
  obtain b t' where t': "And2 C q0 m1 t = Some (b, t')" "extends t t'" "inv t'" "is_lit t' b (\<lambda>\<sigma>. lit_val \<sigma> q0 \<and> lit_val \<sigma> m1)"
    by (rule buildsE [OF And2_builds [OF t(3) m [OF is_lit_self [OF assms(4)]] m [OF is_lit_self [OF assms(3)]]]])
  note e = extends_trans [OF t(2) t'(2)]
  obtain r co u where u: "FullAdder C a b c t' = Some ((r, co), u)" "extends t' u"
    "is_lit u r (\<lambda>\<sigma>. ((lit_val \<sigma> q1 \<and> lit_val \<sigma> m0) \<noteq> (lit_val \<sigma> q0 \<and> lit_val \<sigma> m1)) \<noteq> lit_val \<sigma> c)"
    "is_lit u co (\<lambda>\<sigma>. (lit_val \<sigma> q1 \<and> lit_val \<sigma> m0) \<and> (lit_val \<sigma> q0 \<and> lit_val \<sigma> m1) \<or>
        lit_val \<sigma> c \<and> (lit_val \<sigma> q1 \<and> lit_val \<sigma> m0) \<noteq> (lit_val \<sigma> q0 \<and> lit_val \<sigma> m1))"
    using FullAdder_gives [OF t'(3) is_lit_mono [OF t(4) t'(2)] t'(4) is_lit_mono [OF is_lit_self [OF assms(6)] e]]
    by (auto simp: gives_def)
  have "of_bool (lit_val \<sigma> r) + 2 * of_bool (lit_val \<sigma> co) =
      (of_bool (lit_val \<sigma> q1) * of_bool (lit_val \<sigma> m0) + of_bool (lit_val \<sigma> q0) * of_bool (lit_val \<sigma> m1) +
       of_bool (lit_val \<sigma> c) :: nat)" if "\<sigma> \<in> models u" for \<sigma>
    using full_sum [of "lit_val \<sigma> q1 \<and> lit_val \<sigma> m0" "lit_val \<sigma> q0 \<and> lit_val \<sigma> m1" "lit_val \<sigma> c"]
    unfolding is_lit_val [OF u(3) that] is_lit_val [OF u(4) that] of_bool_conj .
  then show ?thesis using t t' u extends_trans [OF e u(2)] is_lit_vars [OF u(3)] is_lit_vars [OF u(4)]
    by (simp add: mBlock_def gives_def)
qed

lemma next_row_gives:
  assumes "inv s" "length ms = length prev" "in_use s (q # c # ms @ prev)"
  shows "gives s (next_row C ms prev q c s) (\<lambda>_. True) (\<lambda>(rs, ps, co) t. ps = ms \<and> length rs = length ms \<and>
    in_use t (co # rs) \<and> (\<forall>\<sigma>\<in>models t. num \<sigma> rs + 2 ^ length ms * of_bool (lit_val \<sigma> co) =
      of_bool (lit_val \<sigma> q) * num \<sigma> ms + num \<sigma> prev + of_bool (lit_val \<sigma> c)))"
  using assms
proof (induction ms arbitrary: prev c s)
  case Nil
  then show ?case by (auto intro!: gives_return)
next
  case (Cons m0 ms)
  obtain m1 prev' where prev: "prev = m1 # prev'" "length ms = length prev'" using Cons.prems(2) by (cases prev) auto
  have "var m0 \<in> vars s" "var m1 \<in> vars s" "var q \<in> vars s" "var c \<in> vars s" using Cons.prems(3) prev by auto
  from nBlock_sum [OF Cons.prems(1) this] obtain r k t where t: "nBlock C m0 m1 q c s = Some ((r, k), t)" "extends s t"
    "var r \<in> vars t" "var k \<in> vars t"
    "\<forall>\<sigma>\<in>models t. of_bool (lit_val \<sigma> r) + 2 * of_bool (lit_val \<sigma> k) =
      (of_bool (lit_val \<sigma> q) * of_bool (lit_val \<sigma> m0) + of_bool (lit_val \<sigma> m1) + of_bool (lit_val \<sigma> c) :: nat)"
    by (auto simp: gives_def)
  have "in_use t (q # k # ms @ prev')" using Cons.prems(3) prev t(4) adds_vars [OF t(2)] by auto
  from Cons.IH [OF adds_inv [OF t(2)] prev(2) this] obtain rs co u where u:
    "next_row C ms prev' q k t = Some ((rs, ms, co), u)" "extends t u" "length rs = length ms" "in_use u (co # rs)"
    "\<forall>\<sigma>\<in>models u. num \<sigma> rs + 2 ^ length ms * of_bool (lit_val \<sigma> co) =
      of_bool (lit_val \<sigma> q) * num \<sigma> ms + num \<sigma> prev' + of_bool (lit_val \<sigma> k)"
    by (auto simp: gives_def)
  have F: "\<forall>\<sigma>\<in>models u. num \<sigma> (r # rs) + 2 ^ length (m0 # ms) * of_bool (lit_val \<sigma> co) =
      of_bool (lit_val \<sigma> q) * num \<sigma> (m0 # ms) + num \<sigma> prev + of_bool (lit_val \<sigma> c)"
  proof
    fix \<sigma> assume s: "\<sigma> \<in> models u"
    then have "\<sigma> \<in> models t" using u(2) by (simp add: adds_constraint_def)
    from bspec [OF t(5) this] bspec [OF u(5) s]
    show "num \<sigma> (r # rs) + 2 ^ length (m0 # ms) * of_bool (lit_val \<sigma> co) =
      of_bool (lit_val \<sigma> q) * num \<sigma> (m0 # ms) + num \<sigma> prev + of_bool (lit_val \<sigma> c)"
      using prev(1) by (simp add: algebra_simps)
  qed
  have run: "next_row C (m0 # ms) prev q c s = Some ((r # rs, m0 # ms, co), u)" using t(1) u(1) prev(1) by simp
  show ?case unfolding run gives_def
    by (intro exI [of _ "(r # rs, m0 # ms, co)"] exI [of _ u])
      (use u F t adds_vars [OF u(2)] extends_trans [OF t(2) u(2)] in \<open>simp del: bval.simps list.map\<close>)
qed

lemma first_row_gives:
  assumes "inv s" "in_use s (q0 # q1 # c # ms)"
  shows "gives s (first_row C ms q0 q1 c s) (\<lambda>_. True) (\<lambda>(rs, ps, co) t. ps = ms \<and> length rs = length ms \<and>
    in_use t (co # rs) \<and> (\<forall>\<sigma>\<in>models t. num \<sigma> rs + 2 ^ length ms * of_bool (lit_val \<sigma> co) =
      of_bool (lit_val \<sigma> q1) * num \<sigma> ms + of_bool (lit_val \<sigma> q0) * num \<sigma> (tl ms) + of_bool (lit_val \<sigma> c)))"
  using assms
proof (induction ms arbitrary: c s)
  case Nil
  then show ?case by (auto intro!: gives_return)
next
  case (Cons m0 ms)
  let ?m1 = "case ms of [] \<Rightarrow> getFalse C | m1 # _ \<Rightarrow> m1"
  have m1: "var ?m1 \<in> vars s"
    using Cons.prems is_lit_vars [OF is_lit_false [OF Cons.prems(1)]] by (cases ms) auto
  have "var m0 \<in> vars s" "var q0 \<in> vars s" "var q1 \<in> vars s" "var c \<in> vars s" using Cons.prems(2) by auto
  from mBlock_sum [OF Cons.prems(1) this(1) m1 this(2-4)] obtain r k t where
    t: "mBlock C m0 ?m1 q0 q1 c s = Some ((r, k), t)" "extends s t" "var r \<in> vars t" "var k \<in> vars t"
    "\<forall>\<sigma>\<in>models t. of_bool (lit_val \<sigma> r) + 2 * of_bool (lit_val \<sigma> k) =
      (of_bool (lit_val \<sigma> q1) * of_bool (lit_val \<sigma> m0) + of_bool (lit_val \<sigma> q0) * of_bool (lit_val \<sigma> ?m1) +
       of_bool (lit_val \<sigma> c) :: nat)"
    by (auto simp: gives_def)
  have "in_use t (q0 # q1 # k # ms)" using Cons.prems(2) t(4) adds_vars [OF t(2)] by auto
  from Cons.IH [OF adds_inv [OF t(2)] this] obtain rs co u where u:
    "first_row C ms q0 q1 k t = Some ((rs, ms, co), u)" "extends t u" "length rs = length ms" "in_use u (co # rs)"
    "\<forall>\<sigma>\<in>models u. num \<sigma> rs + 2 ^ length ms * of_bool (lit_val \<sigma> co) =
      of_bool (lit_val \<sigma> q1) * num \<sigma> ms + of_bool (lit_val \<sigma> q0) * num \<sigma> (tl ms) + of_bool (lit_val \<sigma> k)"
    by (auto simp: gives_def)
  have F: "\<forall>\<sigma>\<in>models u. num \<sigma> (r # rs) + 2 ^ length (m0 # ms) * of_bool (lit_val \<sigma> co) =
      of_bool (lit_val \<sigma> q1) * num \<sigma> (m0 # ms) + of_bool (lit_val \<sigma> q0) * num \<sigma> (tl (m0 # ms)) + of_bool (lit_val \<sigma> c)"
  proof
    fix \<sigma> assume s: "\<sigma> \<in> models u"
    then have st: "\<sigma> \<in> models t" "\<sigma> \<in> models s" using u(2) t(2) by (auto simp: adds_constraint_def)
    have "num \<sigma> ms = of_bool (lit_val \<sigma> ?m1) + 2 * num \<sigma> (tl ms)"
      using is_lit_val [OF is_lit_false [OF Cons.prems(1)] st(2)] by (cases ms) simp_all
    then show "num \<sigma> (r # rs) + 2 ^ length (m0 # ms) * of_bool (lit_val \<sigma> co) =
      of_bool (lit_val \<sigma> q1) * num \<sigma> (m0 # ms) + of_bool (lit_val \<sigma> q0) * num \<sigma> (tl (m0 # ms)) + of_bool (lit_val \<sigma> c)"
      using bspec [OF t(5) st(1)] bspec [OF u(5) s] by (simp add: algebra_simps)
  qed
  have run: "first_row C (m0 # ms) q0 q1 c s = Some ((r # rs, m0 # ms, co), u)"
    using t(1) u(1) by (simp add: Let_def)
  show ?case unfolding run gives_def
    by (intro exI [of _ "(r # rs, m0 # ms, co)"] exI [of _ u])
      (use u F t adds_vars [OF u(2)] extends_trans [OF t(2) u(2)] in \<open>simp del: bval.simps list.map\<close>)
qed

text \<open>The number the rows have built up so far: the bits already put out below the top one, and the
  current results from there on.\<close>

abbreviation acc :: "(int \<Rightarrow> bool) \<Rightarrow> lit list \<Rightarrow> lit list \<Rightarrow> nat" where
  "acc \<sigma> st rs \<equiv> num \<sigma> (butlast st) + 2 ^ (length st - 1) * num \<sigma> rs"

lemma acc_step:
  assumes "st \<noteq> []" "rs = r # rs'" "r = last st" "num \<sigma> ns = x + num \<sigma> rs'"
  shows "acc \<sigma> (st @ [r']) ns = acc \<sigma> st rs + 2 ^ length st * x"
proof -
  obtain us where us: "st = us @ [r]" using assms(1,3) by (metis append_butlast_last_id)
  show ?thesis using assms(2,4) by (simp add: us bval_append butlast_append algebra_simps)
qed

lemma mult_rows_gives:
  assumes "inv s" "ms \<noteq> []" "length rs = length ms + 1" "st \<noteq> []" "rs ! 0 = last st" "last rs = cl"
    "in_use s (qs @ ms @ rs @ st)"
  shows "gives s (mult_rows C (length ms) qs ms rs st cl s) (\<lambda>_. True) (\<lambda>(st', rs', cl') t.
    length st' = length st + length qs \<and> length rs' = length ms + 1 \<and> rs' ! 0 = last st' \<and> last rs' = cl' \<and>
    in_use t (rs' @ st') \<and> (\<forall>\<sigma>\<in>models t. acc \<sigma> st' rs' = acc \<sigma> st rs + 2 ^ length st * (num \<sigma> qs * num \<sigma> ms)))"
  using assms
proof (induction qs arbitrary: rs st cl s)
  case Nil
  then show ?case by (auto intro!: gives_return)
next
  case (Cons q qs)
  obtain r rs' where rs: "rs = r # rs'" "length ms = length rs'" using Cons.prems(3) by (cases rs) auto
  have f: "var (getFalse C) \<in> vars s" using is_lit_vars [OF is_lit_false [OF Cons.prems(1)]] .
  have u: "in_use s (q # getFalse C # ms @ rs')" using Cons.prems(7) rs f by auto
  obtain ns co t where t: "next_row C ms rs' q (getFalse C) s = Some ((ns, ms, co), t)" "extends s t"
    "length ns = length ms" "in_use t (co # ns)"
    "\<forall>\<sigma>\<in>models t. num \<sigma> ns + 2 ^ length ms * of_bool (lit_val \<sigma> co) =
      of_bool (lit_val \<sigma> q) * num \<sigma> ms + num \<sigma> rs' + of_bool (lit_val \<sigma> (getFalse C))"
    using next_row_gives [OF Cons.prems(1) rs(2) u] by (auto simp: gives_def)
  have ns: "ns \<noteq> []" using t(3) Cons.prems(2) by auto
  let ?rs = "ns @ [co]" and ?st = "st @ [ns ! 0]"
  have p: "length ?rs = length ms + 1" "?st \<noteq> []" "?rs ! 0 = last ?st" "last ?rs = co"
    using t(3) ns Cons.prems(2) by (simp_all add: nth_append)
  have "in_use t (qs @ ms @ ?rs @ ?st)"
    using Cons.prems(7) t(4) ns adds_vars [OF t(2)] by auto
  from Cons.IH [OF adds_inv [OF t(2)] Cons.prems(2) p this]
  obtain st' rs'' cl' u where u: "mult_rows C (length ms) qs ms ?rs ?st co t = Some ((st', rs'', cl'), u)" "extends t u"
    "length st' = length ?st + length qs" "length rs'' = length ms + 1" "rs'' ! 0 = last st'" "last rs'' = cl'"
    "in_use u (rs'' @ st')"
    "\<forall>\<sigma>\<in>models u. acc \<sigma> st' rs'' = acc \<sigma> ?st ?rs + 2 ^ length ?st * (num \<sigma> qs * num \<sigma> ms)"
    unfolding gives_def by fastforce
  have F: "\<forall>\<sigma>\<in>models u. acc \<sigma> st' rs'' = acc \<sigma> st rs + 2 ^ length st * (num \<sigma> (q # qs) * num \<sigma> ms)"
  proof
    fix \<sigma> assume s: "\<sigma> \<in> models u"
    then have st: "\<sigma> \<in> models t" "\<sigma> \<in> models s" using u(2) t(2) by (auto simp: adds_constraint_def)
    have "num \<sigma> ?rs = of_bool (lit_val \<sigma> q) * num \<sigma> ms + num \<sigma> rs'"
      using bspec [OF t(5) st(1)] is_lit_val [OF is_lit_false [OF Cons.prems(1)] st(2)] t(3)
      by (simp add: bval_append)
    from acc_step [OF Cons.prems(4) rs(1) _ this, of "ns ! 0"] Cons.prems(5) rs(1)
    have "acc \<sigma> ?st ?rs = acc \<sigma> st rs + 2 ^ length st * (of_bool (lit_val \<sigma> q) * num \<sigma> ms)" by simp
    then show "acc \<sigma> st' rs'' = acc \<sigma> st rs + 2 ^ length st * (num \<sigma> (q # qs) * num \<sigma> ms)"
      using bspec [OF u(8) s] by (simp add: algebra_simps)
  qed
  have run: "mult_rows C (length ms) (q # qs) ms rs st cl s = Some ((st', rs'', cl'), u)"
    using t(1) u(1) rs ns by simp
  show ?case unfolding run gives_def
    by (intro exI [of _ "(st', rs'', cl')"] exI [of _ u])
      (use u F extends_trans [OF t(2) u(2)] in \<open>simp del: bval.simps list.map\<close>)
qed

lemma Multiply_gives:
  assumes s: "inv s" and len: "length m = length q" "m \<noteq> []" and use: "in_use s m" "in_use s q"
  shows "gives s (Multiply C m q s) (\<lambda>_. True) (\<lambda>us t. length us = (if length m = 1 then 1 else 2 * length m) \<and> in_use t us \<and>
    (\<forall>\<sigma>\<in>models t. num \<sigma> us = num \<sigma> m * num \<sigma> q))"
proof -
  obtain m0 ms where m: "m = m0 # ms" using len(2) by (cases m) auto
  obtain q0 qs where q: "q = q0 # qs" using len m by (cases q) auto
  have l: "is_lit s m0 (\<lambda>\<sigma>. lit_val \<sigma> m0)" "is_lit s q0 (\<lambda>\<sigma>. lit_val \<sigma> q0)"
    using use m q by (simp_all add: is_lit_self)
  obtain r t where t: "And2 C m0 q0 s = Some (r, t)" "extends s t" "inv t" "is_lit t r (\<lambda>\<sigma>. lit_val \<sigma> m0 \<and> lit_val \<sigma> q0)"
    by (rule buildsE [OF And2_builds [OF s l]])
  show ?thesis
  proof (cases "ms = []")
    case True
    then have qs: "qs = []" using len m q by simp
    have "num \<sigma> [r] = num \<sigma> m * num \<sigma> q" if "\<sigma> \<in> models t" for \<sigma>
      using is_lit_val [OF t(4) that] True qs m q by simp
    then show ?thesis using t True qs m q is_lit_vars [OF t(4)] by (simp add: Multiply_def gives_def)
  next
    case False
    obtain q1 qs' where qs: "qs = q1 # qs'" using False len m q by (cases qs) auto
    have f: "var (getFalse C) \<in> vars t" using is_lit_vars [OF is_lit_false [OF t(3)]] .
    have u1: "in_use t (q0 # q1 # getFalse C # m)" using use q qs f adds_vars [OF t(2)] by auto
    obtain rs co u where u: "first_row C m q0 q1 (getFalse C) t = Some ((rs, m, co), u)" "extends t u"
      "length rs = length m" "in_use u (co # rs)"
      "\<forall>\<sigma>\<in>models u. num \<sigma> rs + 2 ^ length m * of_bool (lit_val \<sigma> co) =
        of_bool (lit_val \<sigma> q1) * num \<sigma> m + of_bool (lit_val \<sigma> q0) * num \<sigma> (tl m) + of_bool (lit_val \<sigma> (getFalse C))"
      using first_row_gives [OF t(3) u1] by (auto simp: gives_def)
    have rs: "rs \<noteq> []" using u(3) m by auto
    have su: "extends s u" using t(2) u(2) by (rule extends_trans)
    have u2: "in_use u (qs' @ m @ (rs @ [co]) @ [r, rs ! 0])"
      using use q qs u(4) rs adds_vars [OF su] is_lit_vars [OF is_lit_mono [OF t(4) u(2)]] by auto
    have p: "length (rs @ [co]) = length m + 1" "[r, rs ! 0] \<noteq> []" "(rs @ [co]) ! 0 = last [r, rs ! 0]"
      "last (rs @ [co]) = co" using u(3) rs len(2) by (simp_all add: nth_append)
    obtain st rs' cl w where w: "mult_rows C (length m) qs' m (rs @ [co]) [r, rs ! 0] co u = Some ((st, rs', cl), w)"
      "extends u w" "length st = 2 + length qs'" "length rs' = length m + 1" "rs' ! 0 = last st" "last rs' = cl"
      "in_use w (rs' @ st)"
      "\<forall>\<sigma>\<in>models w. acc \<sigma> st rs' = acc \<sigma> [r, rs ! 0] (rs @ [co]) + 2 ^ length [r, rs ! 0] * (num \<sigma> qs' * num \<sigma> m)"
      using mult_rows_gives [OF adds_inv [OF u(2)] len(2) p u2] unfolding gives_def by fastforce
    obtain r0 rt where rt0: "rs' = r0 # rt" using w(4) by (cases rs') auto
    then have "rt \<noteq> []" using w(4) m by auto
    note rt = rt0 this
    have st1: "st \<noteq> []" using w(3) by auto
    then have "st = butlast st @ [r0]" using w(5) rt(1) by simp
    note st = st1 this
    have F: "num \<sigma> (st @ rt) = num \<sigma> m * num \<sigma> q" if sw: "\<sigma> \<in> models w" for \<sigma>
    proof -
      have su: "\<sigma> \<in> models u" "\<sigma> \<in> models t" using sw w(2) u(2) by (auto simp: adds_constraint_def)
      have r: "lit_val \<sigma> r = (lit_val \<sigma> m0 \<and> lit_val \<sigma> q0)" "\<not> lit_val \<sigma> (getFalse C)"
        using is_lit_val [OF t(4) su(2)] is_lit_val [OF is_lit_false [OF t(3)] su(2)] by simp_all
      have "num \<sigma> (st @ rt) = acc \<sigma> st rs'"
        using st(1) rt(1) by (subst st(2)) (simp add: bval_append algebra_simps)
      also have "\<dots> = of_bool (lit_val \<sigma> r) + 2 * num \<sigma> (rs @ [co]) + 4 * (num \<sigma> qs' * num \<sigma> m)"
        using bspec [OF w(8) sw] by (simp add: bval_append)
      also have "num \<sigma> (rs @ [co]) = of_bool (lit_val \<sigma> q1) * num \<sigma> m + of_bool (lit_val \<sigma> q0) * num \<sigma> ms"
        using bspec [OF u(5) su(1)] r(2) u(3) m by (simp add: bval_append)
      finally show ?thesis using r(1) m q qs by (simp add: algebra_simps)
    qed
    have sw: "extends s w" using su w(2) by (rule extends_trans)
    have l2: "length m = length qs' + 2" using len q qs by simp
    have g: "get_at m 0 = Some m0" "get_at q 0 = Some q0" "get_at q 1 = Some q1" "drop 2 q = qs'"
      "length m \<noteq> 1" "get_at rs 0 = Some (rs ! 0)" "get_at rs' 0 = Some r0"
      using m q qs False rs rt(1) by simp_all
    have c: "r0 = last st" "last (st @ rt) = cl" "length (st @ rt) = length m + length q"
      using w(3-6) rt len(1) l2 by auto
    have "Multiply C m q s = Some (st @ rt, w)"
      unfolding Multiply_def g(4) using g(1-3,5-7) len(1) t(1) u(1) w(1) c rt(1) by (simp add: Let_def)
    then show ?thesis using F sw w(3,4,7) rt(1) l2 by (auto simp: gives_def)
  qed
qed

subsection \<open>Comparison\<close>

lemma bval_less_msb:
  assumes "length as = length bs"
  shows "bval (as @ [a]) < bval (bs @ [b]) \<longleftrightarrow> (\<not> a \<and> b) \<or> (a = b \<and> bval as < bval bs)"
    "bval (as @ [a]) = bval (bs @ [b]) \<longleftrightarrow> a = b \<and> bval as = bval bs"
proof -
  have "bval as < 2 ^ length bs" "bval bs < 2 ^ length bs"
    using bval_less [of as] bval_less [of bs] assms by simp_all
  then show "bval (as @ [a]) < bval (bs @ [b]) \<longleftrightarrow> (\<not> a \<and> b) \<or> (a = b \<and> bval as < bval bs)"
    "bval (as @ [a]) = bval (bs @ [b]) \<longleftrightarrow> a = b \<and> bval as = bval bs"
    by (cases a; cases b; simp add: bval_append assms)+
qed

abbreviation hi_first :: "(int \<Rightarrow> bool) \<Rightarrow> lit list \<Rightarrow> nat" where
  "hi_first \<sigma> ls \<equiv> bval (rev (map (lit_val \<sigma>) ls))"

lemma cmp_loop_gives:
  assumes "inv s" "in_use s (p # e # map fst ps @ map snd ps)"
  shows "gives s (cmp_loop C strict ps p e s) (\<lambda>_. True) (\<lambda>(l, e') t. in_use t [l, e'] \<and> (\<forall>\<sigma>\<in>models t.
    lit_val \<sigma> l = (lit_val \<sigma> p \<or> lit_val \<sigma> e \<and> hi_first \<sigma> (map fst ps) < hi_first \<sigma> (map snd ps)) \<and>
    (\<not> strict \<longrightarrow> lit_val \<sigma> e' = (lit_val \<sigma> e \<and> hi_first \<sigma> (map fst ps) = hi_first \<sigma> (map snd ps)))))"
  using assms
proof (induction ps arbitrary: p e s)
  case Nil
  then show ?case by (auto intro!: gives_return)
next
  case (Cons ab ps)
  obtain a b where ab: "ab = (a, b)" by fastforce
  have l: "is_lit s a (\<lambda>\<sigma>. lit_val \<sigma> a)" "is_lit s b (\<lambda>\<sigma>. lit_val \<sigma> b)" "is_lit s p (\<lambda>\<sigma>. lit_val \<sigma> p)" "is_lit s e (\<lambda>\<sigma>. lit_val \<sigma> e)"
    using Cons.prems(2) ab by (simp_all add: is_lit_self)
  obtain x t1 where 1: "Xnor2 C a b s = Some (x, t1)" "extends s t1" "inv t1" "is_lit t1 x (\<lambda>\<sigma>. lit_val \<sigma> a = lit_val \<sigma> b)"
    by (rule buildsE [OF Xnor2_builds [OF Cons.prems(1) l(1,2)]])
  obtain y t2 where 2: "And2 C (neg_lit a) b t1 = Some (y, t2)" "extends t1 t2" "inv t2" "is_lit t2 y (\<lambda>\<sigma>. \<not> lit_val \<sigma> a \<and> lit_val \<sigma> b)"
    by (rule buildsE [OF And2_builds [OF 1(3) is_lit_neg [OF is_lit_mono [OF l(1) 1(2)]] is_lit_mono [OF l(2) 1(2)]]])
  have e2: "extends s t2" using 1(2) 2(2) by (rule extends_trans)
  obtain z t3 where 3: "And2 C e y t2 = Some (z, t3)" "extends t2 t3" "inv t3"
    "is_lit t3 z (\<lambda>\<sigma>. lit_val \<sigma> e \<and> \<not> lit_val \<sigma> a \<and> lit_val \<sigma> b)"
    by (rule buildsE [OF And2_builds [OF 2(3) is_lit_mono [OF l(4) e2] 2(4)]])
  have e3: "extends s t3" using e2 3(2) by (rule extends_trans)
  obtain p' t4 where 4: "Or2 C z p t3 = Some (p', t4)" "extends t3 t4" "inv t4"
    "is_lit t4 p' (\<lambda>\<sigma>. (lit_val \<sigma> e \<and> \<not> lit_val \<sigma> a \<and> lit_val \<sigma> b) \<or> lit_val \<sigma> p)"
    by (rule buildsE [OF Or2_builds [OF 3(3,4) is_lit_mono [OF l(3) e3]]])
  have e4: "extends s t4" "extends t1 t4" using e3 2(2) 3(2) 4(2) by (blast intro: extends_trans)+
  have "\<exists>e' t5. (if \<not> strict \<or> ps \<noteq> [] then And2 C x e t4 else Some (e, t4)) = Some (e', t5) \<and> extends t4 t5 \<and> inv t5 \<and>
      var e' \<in> vars t5 \<and> (\<forall>\<sigma>\<in>models t5. (\<not> strict \<or> ps \<noteq> []) \<longrightarrow> lit_val \<sigma> e' = (lit_val \<sigma> a = lit_val \<sigma> b \<and> lit_val \<sigma> e))"
  proof (cases "\<not> strict \<or> ps \<noteq> []")
    case True
    obtain e' t5 where "And2 C x e t4 = Some (e', t5)" "extends t4 t5" "inv t5"
      "is_lit t5 e' (\<lambda>\<sigma>. lit_val \<sigma> a = lit_val \<sigma> b \<and> lit_val \<sigma> e)"
      by (rule buildsE [OF And2_builds [OF 4(3) is_lit_mono [OF 1(4) e4(2)] is_lit_mono [OF l(4) e4(1)]]])
    then show ?thesis using True by (intro exI [of _ e'] exI [of _ t5]) (auto simp: is_lit_def)
  next
    case False
    then show ?thesis using 4(3) adds_refl is_lit_vars [OF is_lit_mono [OF l(4) e4(1)]] by auto
  qed
  then obtain e' t5 where 5: "(if \<not> strict \<or> ps \<noteq> [] then And2 C x e t4 else Some (e, t4)) = Some (e', t5)"
    "extends t4 t5" "inv t5" "var e' \<in> vars t5"
    "\<And>\<sigma>. \<sigma> \<in> models t5 \<Longrightarrow> \<not> strict \<or> ps \<noteq> [] \<Longrightarrow> lit_val \<sigma> e' = (lit_val \<sigma> a = lit_val \<sigma> b \<and> lit_val \<sigma> e)"
    by blast
  have e5: "extends s t5" using e4(1) 5(2) by (rule extends_trans)
  note p5 = is_lit_mono [OF 4(4) 5(2)]
  have u: "in_use t5 (p' # e' # map fst ps @ map snd ps)"
    using Cons.prems(2) 5(4) is_lit_vars [OF p5] adds_vars [OF e5] by auto
  obtain l e'' t6 where 6: "cmp_loop C strict ps p' e' t5 = Some ((l, e''), t6)" "extends t5 t6" "in_use t6 [l, e'']"
    "\<And>\<sigma>. \<sigma> \<in> models t6 \<Longrightarrow>
      lit_val \<sigma> l = (lit_val \<sigma> p' \<or> lit_val \<sigma> e' \<and> hi_first \<sigma> (map fst ps) < hi_first \<sigma> (map snd ps)) \<and>
      (\<not> strict \<longrightarrow> lit_val \<sigma> e'' = (lit_val \<sigma> e' \<and> hi_first \<sigma> (map fst ps) = hi_first \<sigma> (map snd ps)))"
    using Cons.IH [OF 5(3) u] by (fastforce simp: gives_def)
  have F: "lit_val \<sigma> l = (lit_val \<sigma> p \<or> lit_val \<sigma> e \<and> hi_first \<sigma> (map fst (ab # ps)) < hi_first \<sigma> (map snd (ab # ps))) \<and>
    (\<not> strict \<longrightarrow> lit_val \<sigma> e'' = (lit_val \<sigma> e \<and> hi_first \<sigma> (map fst (ab # ps)) = hi_first \<sigma> (map snd (ab # ps))))"
    if s: "\<sigma> \<in> models t6" for \<sigma>
  proof -
    have s5: "\<sigma> \<in> models t5" using s 6(2) by (simp add: adds_constraint_def)
    let ?as = "rev (map (lit_val \<sigma>) (map fst ps))" and ?bs = "rev (map (lit_val \<sigma>) (map snd ps))"
    have less: "bval (?as @ [lit_val \<sigma> a]) < bval (?bs @ [lit_val \<sigma> b]) \<longleftrightarrow>
        (\<not> lit_val \<sigma> a \<and> lit_val \<sigma> b) \<or> (lit_val \<sigma> a = lit_val \<sigma> b \<and> bval ?as < bval ?bs)"
      "bval (?as @ [lit_val \<sigma> a]) = bval (?bs @ [lit_val \<sigma> b]) \<longleftrightarrow> lit_val \<sigma> a = lit_val \<sigma> b \<and> bval ?as = bval ?bs"
      by (rule bval_less_msb; simp)+
    have emp: "ps = [] \<Longrightarrow> bval ?as = bval ?bs" by simp
    show ?thesis
      using 6(4) [OF s] is_lit_val [OF p5 s5] 5(5) [OF s5] less emp unfolding ab list.map fst_conv snd_conv rev.simps
      by (cases "\<not> strict \<or> ps \<noteq> []") auto
  qed
  have run: "cmp_loop C strict (ab # ps) p e s = Some ((l, e''), t6)"
    using 1(1) 2(1) 3(1) 4(1) 5(1) 6(1) ab by simp
  show ?case unfolding run gives_def
    by (intro exI [of _ "(l, e'')"] exI [of _ t6]) (use 6(3) F extends_trans [OF e5 6(2)] in \<open>simp del: list.map rev.simps\<close>)
qed

lemma or_loop_gives:
  assumes "inv s" "in_use s (p # bs)"
  shows "gives s (or_loop C bs p s) (\<lambda>_. True) (\<lambda>l t. var l \<in> vars t \<and>
    (\<forall>\<sigma>\<in>models t. lit_val \<sigma> l = (lit_val \<sigma> p \<or> clause_sat \<sigma> bs)))"
  using assms
proof (induction bs arbitrary: p s)
  case Nil
  then show ?case by (auto intro!: gives_return)
next
  case (Cons b bs)
  have l: "is_lit s b (\<lambda>\<sigma>. lit_val \<sigma> b)" "is_lit s p (\<lambda>\<sigma>. lit_val \<sigma> p)" using Cons.prems(2) by (simp_all add: is_lit_self)
  obtain p' t where t: "Or2 C b p s = Some (p', t)" "extends s t" "inv t" "is_lit t p' (\<lambda>\<sigma>. lit_val \<sigma> b \<or> lit_val \<sigma> p)"
    by (rule buildsE [OF Or2_builds [OF Cons.prems(1) l]])
  have "in_use t (p' # bs)" using Cons.prems(2) is_lit_vars [OF t(4)] adds_vars [OF t(2)] by auto
  from Cons.IH [OF t(3) this] obtain l u where u: "or_loop C bs p' t = Some (l, u)" "extends t u" "var l \<in> vars u"
    "\<forall>\<sigma>\<in>models u. lit_val \<sigma> l = (lit_val \<sigma> p' \<or> clause_sat \<sigma> bs)" by (auto simp: gives_def)
  have "lit_val \<sigma> p' = (lit_val \<sigma> b \<or> lit_val \<sigma> p)" if "\<sigma> \<in> models u" for \<sigma>
    using is_lit_val [OF is_lit_mono [OF t(4) u(2)] that] .
  then show ?case using t(1) u extends_trans [OF t(2) u(2)] by (auto simp: gives_def)
qed

lemma bval_low_high:
  "bval bs = bval (take n bs) + 2 ^ n * bval (drop n bs)"
proof (cases "n \<le> length bs")
  case True
  then show ?thesis using bval_append [of "take n bs" "drop n bs"] by simp
qed simp

lemma bval_zero: "bval bs = 0 \<longleftrightarrow> \<not> list_ex id bs"
  by (induction bs) auto

lemma compare_words_gives:
  assumes "inv s" "in_use s A" "in_use s B"
  shows "gives s (compare_words C strict A B s) (\<lambda>_. True) (\<lambda>(l, e) t. in_use t [l, e] \<and> (\<forall>\<sigma>\<in>models t.
    (lit_val \<sigma> l \<longleftrightarrow> num \<sigma> A < num \<sigma> B) \<and>
    (\<not> strict \<longrightarrow> lit_val \<sigma> l \<or> lit_val \<sigma> e \<longleftrightarrow> num \<sigma> A \<le> num \<sigma> B)))"
proof -
  let ?n = "length A" and ?P = "padded C A B" and ?F = "getFalse C" and ?T = "getTrue C"
  let ?ps = "rev (zip A ?P)"
  note F = is_lit_false [OF assms(1)] and T = is_lit_true [OF assms(1)]
  have lenP: "?n \<le> length ?P" by (simp add: padded_def)
  have fst: "map fst ?ps = rev A" and snd: "map snd ?ps = rev (take ?n ?P)"
    using lenP by (simp_all add: rev_map [symmetric] map_fst_zip_take map_snd_zip_take min_def)
  have "in_use s ?P" using assms(3) is_lit_vars [OF F] by (auto simp: padded_def)
  then have u: "in_use s (?F # ?T # map fst ?ps @ map snd ?ps)"
    unfolding fst snd using assms(2) is_lit_vars [OF F] is_lit_vars [OF T] by (auto dest: in_set_takeD)
  obtain p e t where t: "cmp_loop C strict ?ps ?F ?T s = Some ((p, e), t)" "extends s t" "in_use t [p, e]"
    "\<And>\<sigma>. \<sigma> \<in> models t \<Longrightarrow>
      lit_val \<sigma> p = (lit_val \<sigma> ?F \<or> lit_val \<sigma> ?T \<and> hi_first \<sigma> (map fst ?ps) < hi_first \<sigma> (map snd ?ps)) \<and>
      (\<not> strict \<longrightarrow> lit_val \<sigma> e = (lit_val \<sigma> ?T \<and> hi_first \<sigma> (map fst ?ps) = hi_first \<sigma> (map snd ?ps)))"
    using cmp_loop_gives [OF assms(1) u, of strict] by (fastforce simp: gives_def)
  have "in_use t (p # drop ?n B)" using t(3) assms(3) adds_vars [OF t(2)] by (auto dest: in_set_dropD)
  from or_loop_gives [OF adds_inv [OF t(2)] this] obtain l v where v: "or_loop C (drop ?n B) p t = Some (l, v)"
    "extends t v" "var l \<in> vars v" "\<And>\<sigma>. \<sigma> \<in> models v \<Longrightarrow> lit_val \<sigma> l = (lit_val \<sigma> p \<or> clause_sat \<sigma> (drop ?n B))"
    by (auto simp: gives_def)
  have main: "(lit_val \<sigma> l \<longleftrightarrow> num \<sigma> A < num \<sigma> B) \<and> (\<not> strict \<longrightarrow> lit_val \<sigma> l \<or> lit_val \<sigma> e \<longleftrightarrow> num \<sigma> A \<le> num \<sigma> B)"
    if s: "\<sigma> \<in> models v" for \<sigma>
  proof -
    have st: "\<sigma> \<in> models t" "\<sigma> \<in> models s" using s v(2) t(2) by (auto simp: adds_constraint_def)
    have c: "\<not> lit_val \<sigma> ?F" "lit_val \<sigma> ?T" using is_lit_val [OF F st(2)] is_lit_val [OF T st(2)] by simp_all
    let ?b = "map (lit_val \<sigma>) B"
    have low: "num \<sigma> (take ?n ?P) = bval (take ?n ?b)"
      using c(1) by (simp add: padded_def take_map [symmetric] bval_append)
    have lt: "lit_val \<sigma> l \<longleftrightarrow> num \<sigma> A < bval (take ?n ?b) \<or> clause_sat \<sigma> (drop ?n B)"
      "\<not> strict \<longrightarrow> lit_val \<sigma> e = (num \<sigma> A = bval (take ?n ?b))"
      using v(4) [OF s] t(4) [OF st(1)] c low unfolding fst snd by (simp_all add: rev_map)
    have B: "num \<sigma> B = bval (take ?n ?b) + 2 ^ ?n * bval (drop ?n ?b)" by (rule bval_low_high)
    have hi: "clause_sat \<sigma> (drop ?n B) \<longleftrightarrow> bval (drop ?n ?b) \<noteq> 0"
      by (auto simp: bval_zero clause_sat_def list_ex_iff drop_map)
    have A: "num \<sigma> A < 2 ^ ?n" using bval_less [of "map (lit_val \<sigma>) A"] by simp
    show ?thesis
    proof (cases "bval (drop ?n ?b) = 0")
      case True
      then show ?thesis using lt B hi by auto
    next
      case False
      then have "1 \<le> bval (drop ?n ?b)" by linarith
      then have "2 ^ ?n * 1 \<le> 2 ^ ?n * bval (drop ?n ?b)" by (rule mult_le_mono2)
      then have "num \<sigma> A < num \<sigma> B" using A B by linarith
      then show ?thesis using lt hi False by simp
    qed
  qed
  have "compare_words C strict A B s = Some ((l, e), v)" using t(1) v(1) by (simp add: compare_words_def)
  then show ?thesis using main v(3) t(3) adds_vars [OF v(2)] extends_trans [OF t(2) v(2)] by (auto simp: gives_def)
qed

lemma compare_words_obtain:
  assumes "inv s" "in_use s A" "in_use s B"
  obtains l e t where "compare_words C strict A B s = Some ((l, e), t)" "extends s t" "var l \<in> vars t" "var e \<in> vars t"
    "\<And>\<sigma>. \<sigma> \<in> models t \<Longrightarrow> lit_val \<sigma> l \<longleftrightarrow> num \<sigma> A < num \<sigma> B"
    "\<And>\<sigma>. \<sigma> \<in> models t \<Longrightarrow> \<not> strict \<Longrightarrow> lit_val \<sigma> l \<or> lit_val \<sigma> e \<longleftrightarrow> num \<sigma> A \<le> num \<sigma> B"
  using compare_words_gives [OF assms, of strict] unfolding gives_def by fastforce

lemma supp_num2: "in_use s A \<Longrightarrow> in_use s B \<Longrightarrow> supp s (\<lambda>\<sigma>. h (num \<sigma> A) (num \<sigma> B))"
  by (rule supp_comp2) (auto intro!: supp_map)

lemma LT_builds [gate_rules]:
  assumes "inv s" "in_use s A" "in_use s B"
  shows "builds s (LT C A B s) (\<lambda>\<sigma>. num \<sigma> A < num \<sigma> B)"
proof -
  obtain l e t where t: "compare_words C True A B s = Some ((l, e), t)" "extends s t" "var l \<in> vars t"
    "\<And>\<sigma>. \<sigma> \<in> models t \<Longrightarrow> lit_val \<sigma> l \<longleftrightarrow> num \<sigma> A < num \<sigma> B"
    by (rule compare_words_obtain [OF assms, where strict = True]) blast
  have "supp t (\<lambda>\<sigma>. num \<sigma> A < num \<sigma> B)"
    by (rule supp_num2 [OF in_use_mono [OF assms(2) t(2)] in_use_mono [OF assms(3) t(2)]])
  then show ?thesis using t by (simp add: LT_def gives_def is_lit_def)
qed

lemma LEQ_builds [gate_rules]:
  assumes "inv s" "in_use s A" "in_use s B"
  shows "builds s (LEQ C A B s) (\<lambda>\<sigma>. num \<sigma> A \<le> num \<sigma> B)"
proof -
  obtain l e t where t: "compare_words C False A B s = Some ((l, e), t)" "extends s t" "var l \<in> vars t" "var e \<in> vars t"
    "\<And>\<sigma>. \<sigma> \<in> models t \<Longrightarrow> \<not> False \<Longrightarrow> lit_val \<sigma> l \<or> lit_val \<sigma> e \<longleftrightarrow> num \<sigma> A \<le> num \<sigma> B"
    by (rule compare_words_obtain [OF assms, where strict = False]) blast
  obtain r u where u: "Or2 C l e t = Some (r, u)" "extends t u" "inv u" "is_lit u r (\<lambda>\<sigma>. lit_val \<sigma> l \<or> lit_val \<sigma> e)"
    by (rule buildsE [OF Or2_builds [OF adds_inv [OF t(2)] is_lit_self [OF t(3)] is_lit_self [OF t(4)]]])
  have e: "extends s u" using t(2) u(2) by (rule extends_trans)
  have "supp u (\<lambda>\<sigma>. num \<sigma> A \<le> num \<sigma> B)"
    by (rule supp_num2 [OF in_use_mono [OF assms(2) e] in_use_mono [OF assms(3) e]])
  then have "is_lit u r (\<lambda>\<sigma>. num \<sigma> A \<le> num \<sigma> B)"
    by (rule is_lit_eq [OF u(4)]) (use t(5) u(2) in \<open>auto simp: adds_constraint_def\<close>)
  then show ?thesis using t(1) u(1) e by (simp add: LEQ_def gives_def)
qed

lemma asserts_after:
  assumes "extends s t" "asserts t r P" "supp s Q" "\<And>\<sigma>. \<sigma> \<in> models t \<Longrightarrow> P \<sigma> = Q \<sigma>"
  shows "asserts s r Q"
proof -
  have "supp t Q" using supp_mono [OF assms(3)] assms(1) by (simp add: adds_constraint_def)
  then have "asserts t r Q" by (rule asserts_eq [OF assms(2)]) (rule assms(4))
  then show ?thesis using adds_trans [OF assms(1) _ assms(3)] by (auto simp: asserts_def)
qed

lemma AssertLT_asserts:
  assumes "inv s" "in_use s A" "in_use s B"
  shows "asserts s (AssertLT C A B s) (\<lambda>\<sigma>. num \<sigma> A < num \<sigma> B)"
proof -
  obtain l t where t: "LT C A B s = Some (l, t)" "extends s t" "inv t" "is_lit t l (\<lambda>\<sigma>. num \<sigma> A < num \<sigma> B)"
    by (rule buildsE [OF LT_builds [OF assms]])
  have "asserts s (Assert C l t) (\<lambda>\<sigma>. num \<sigma> A < num \<sigma> B)"
    by (rule asserts_after [OF t(2) Assert_asserts [OF t(3,4)] supp_num2 [OF assms(2,3)]]) simp
  then show ?thesis using t(1) by (simp add: AssertLT_def Assert_def)
qed

lemma AssertLEQ_asserts:
  assumes "inv s" "in_use s A" "in_use s B"
  shows "asserts s (AssertLEQ C A B s) (\<lambda>\<sigma>. num \<sigma> A \<le> num \<sigma> B)"
proof -
  obtain l e t where t: "compare_words C False A B s = Some ((l, e), t)" "extends s t" "var l \<in> vars t" "var e \<in> vars t"
    "\<And>\<sigma>. \<sigma> \<in> models t \<Longrightarrow> \<not> False \<Longrightarrow> lit_val \<sigma> l \<or> lit_val \<sigma> e \<longleftrightarrow> num \<sigma> A \<le> num \<sigma> B"
    by (rule compare_words_obtain [OF assms, where strict = False]) blast
  have "asserts s (add_clause C [l, e] t) (\<lambda>\<sigma>. num \<sigma> A \<le> num \<sigma> B)"
    by (rule asserts_after [OF t(2) add_clause_asserts [OF adds_inv [OF t(2)]] supp_num2 [OF assms(2,3)]])
      (use t(3-5) in auto)
  then show ?thesis using t(1) by (simp add: AssertLEQ_def)
qed

lemma xnor_loop_gives:
  assumes "inv s" "length as \<le> length bs" "in_use s (as @ bs @ xs)"
  shows "gives s (xnor_loop C as bs xs s) (\<lambda>_. True) (\<lambda>us t. in_use t us \<and> (\<forall>\<sigma>\<in>models t.
    list_all (lit_val \<sigma>) us \<longleftrightarrow> list_all (lit_val \<sigma>) xs \<and> map (lit_val \<sigma>) as = map (lit_val \<sigma>) (take (length as) bs)))"
  using assms
proof (induction as arbitrary: bs xs s)
  case Nil
  then show ?case by (auto intro!: gives_return)
next
  case (Cons a as)
  obtain b bs' where bs: "bs = b # bs'" "length as \<le> length bs'" using Cons.prems(2) by (cases bs) auto
  have l: "is_lit s a (\<lambda>\<sigma>. lit_val \<sigma> a)" "is_lit s b (\<lambda>\<sigma>. lit_val \<sigma> b)"
    using Cons.prems(3) bs by (simp_all add: is_lit_self)
  obtain x t where t: "Xnor2 C a b s = Some (x, t)" "extends s t" "inv t" "is_lit t x (\<lambda>\<sigma>. lit_val \<sigma> a = lit_val \<sigma> b)"
    by (rule buildsE [OF Xnor2_builds [OF Cons.prems(1) l]])
  have "in_use t (as @ bs' @ (xs @ [x]))" using Cons.prems(3) bs is_lit_vars [OF t(4)] adds_vars [OF t(2)] by auto
  from Cons.IH [OF t(3) bs(2) this] obtain us u where u: "xnor_loop C as bs' (xs @ [x]) t = Some (us, u)"
    "extends t u" "in_use u us" "\<forall>\<sigma>\<in>models u. list_all (lit_val \<sigma>) us \<longleftrightarrow>
      list_all (lit_val \<sigma>) (xs @ [x]) \<and> map (lit_val \<sigma>) as = map (lit_val \<sigma>) (take (length as) bs')"
    by (auto simp: gives_def)
  have "lit_val \<sigma> x = (lit_val \<sigma> a = lit_val \<sigma> b)" if "\<sigma> \<in> models u" for \<sigma>
    using is_lit_val [OF is_lit_mono [OF t(4) u(2)] that] .
  then show ?case using t(1) u extends_trans [OF t(2) u(2)] bs by (auto simp: gives_def)
qed

lemma And_vec_builds [gate_rules]:
  assumes "inv s" "in_use s vals"
  shows "builds s (And_vec C vals s) (\<lambda>\<sigma>. list_all (lit_val \<sigma>) vals)"
  using And_vec_to_sets [OF assms, of lit_Undef] by (simp add: sets_out_def And_vec_def)

lemma Or_vec_builds [gate_rules]:
  assumes "inv s" "in_use s vals"
  shows "builds s (Or_vec C vals s) (\<lambda>\<sigma>. clause_sat \<sigma> vals)"
  using Or_vec_to_sets [OF assms, of lit_Undef] by (simp add: sets_out_def Or_vec_def)

lemma padded_low:
  assumes "inv s" "\<sigma> \<in> models s"
  shows "num \<sigma> (take (length A) (padded C A B)) = bval (take (length A) (map (lit_val \<sigma>) B))"
  using is_lit_val [OF is_lit_false [OF assms(1)] assms(2)]
  by (simp add: padded_def take_map [symmetric] bval_append)

text \<open>\<open>Equal\<close> on words compares as many bits as the first word has.\<close>

lemma Equal_vec_builds [gate_rules]:
  assumes "inv s" "in_use s A" "in_use s B"
  shows "builds s (Equal_vec C A B s) (\<lambda>\<sigma>. num \<sigma> A = bval (take (length A) (map (lit_val \<sigma>) B)))"
proof -
  let ?P = "padded C A B"
  have P: "length A \<le> length ?P" "in_use s (A @ ?P @ [])"
    using assms is_lit_vars [OF is_lit_false [OF assms(1)]] by (auto simp: padded_def)
  obtain us t where t: "xnor_loop C A ?P [] s = Some (us, t)" "extends s t" "in_use t us"
    "\<And>\<sigma>. \<sigma> \<in> models t \<Longrightarrow> list_all (lit_val \<sigma>) us \<longleftrightarrow> map (lit_val \<sigma>) A = map (lit_val \<sigma>) (take (length A) ?P)"
    using xnor_loop_gives [OF assms(1) P] by (auto simp: gives_def)
  obtain l u where u: "And_vec C us t = Some (l, u)" "extends t u" "inv u" "is_lit u l (\<lambda>\<sigma>. list_all (lit_val \<sigma>) us)"
    by (rule buildsE [OF And_vec_builds [OF adds_inv [OF t(2)] t(3)]])
  have e: "extends s u" using t(2) u(2) by (rule extends_trans)
  have eq: "num \<sigma> A = num \<sigma> (take (length A) ?P) \<longleftrightarrow> map (lit_val \<sigma>) A = map (lit_val \<sigma>) (take (length A) ?P)" for \<sigma>
    by (rule bval_inj) (use P(1) in simp)
  have "supp u (\<lambda>\<sigma>. num \<sigma> A = bval (take (length A) (map (lit_val \<sigma>) B)))"
    using in_use_mono [OF assms(2) e] in_use_mono [OF assms(3) e]
    by (intro supp_eq) (auto intro!: supp_map [where h = "\<lambda>bs. bval (take n bs)" for n] supp_map)
  then have "is_lit u l (\<lambda>\<sigma>. num \<sigma> A = bval (take (length A) (map (lit_val \<sigma>) B)))"
  proof (rule is_lit_eq [OF u(4)])
    fix \<sigma> assume "\<sigma> \<in> models u"
    then have st: "\<sigma> \<in> models t" "\<sigma> \<in> models s" using u(2) e by (auto simp: adds_constraint_def)
    show "list_all (lit_val \<sigma>) us = (num \<sigma> A = bval (take (length A) (map (lit_val \<sigma>) B)))"
      unfolding t(4) [OF st(1)] eq [symmetric] padded_low [OF assms(1) st(2)] ..
  qed
  then show ?thesis using t(1) u(1) e by (simp add: Equal_vec_def gives_def)
qed

lemma equal_bits_asserts:
  assumes "inv s" "length A \<le> length B" "in_use s A" "in_use s B"
  shows "asserts s (equal_bits C A B s) (\<lambda>\<sigma>. map (lit_val \<sigma>) A = take (length A) (map (lit_val \<sigma>) B))"
  using assms
proof (induction A arbitrary: B s)
  case Nil
  then show ?case by (simp add: asserts_skip)
next
  case (Cons a A)
  obtain b B' where B: "B = b # B'" "length A \<le> length B'" using Cons.prems(2) by (cases B) auto
  have l: "is_lit s a (\<lambda>\<sigma>. lit_val \<sigma> a)" "is_lit s b (\<lambda>\<sigma>. lit_val \<sigma> b)"
    using Cons.prems(3,4) B by (simp_all add: is_lit_self)
  have u: "in_use s A" "in_use s B'" using Cons.prems(3,4) B by simp_all
  have sp: "supp s (\<lambda>\<sigma>. map (lit_val \<sigma>) A = take (length A) (map (lit_val \<sigma>) B'))"
    using u by (intro supp_eq) (auto intro!: supp_map [where h = "\<lambda>bs. take n bs" for n] supp_map [where h = "\<lambda>bs. bs"])
  have "asserts t (equal_bits C A B' t) (\<lambda>\<sigma>. map (lit_val \<sigma>) A = take (length A) (map (lit_val \<sigma>) B'))"
    if t: "adds_constraint s t (\<lambda>\<sigma>. lit_val \<sigma> a = lit_val \<sigma> b)" for t
    using Cons.IH [OF adds_inv [OF t] B(2) in_use_mono [OF u(1) t] in_use_mono [OF u(2) t]] .
  from asserts_bind [OF AssertEqual_asserts [OF Cons.prems(1) l] this sp]
  show ?case using B by simp
qed

lemma AssertEqual_vec_asserts:
  assumes "inv s" "length A \<le> length B" "in_use s A" "in_use s B"
  shows "asserts s (AssertEqual_vec C A B s) (\<lambda>\<sigma>. num \<sigma> A = num \<sigma> B)"
proof -
  let ?n = "length A" and ?D = "drop (length A) B"
  let ?P = "\<lambda>\<sigma>. map (lit_val \<sigma>) A = take ?n (map (lit_val \<sigma>) B)"
  have D: "in_use s ?D" using assms(4) by (auto dest: in_set_dropD)
  have step: "asserts t (for_each (\<lambda>b. Assert C (neg_lit b)) ?D t) (\<lambda>\<sigma>. \<forall>b\<in>set ?D. \<not> lit_val \<sigma> b)"
    if t: "adds_constraint s t ?P" for t
  proof (rule for_each_asserts [OF adds_inv [OF t]])
    show "asserts u (Assert C (neg_lit b) u) (\<lambda>\<sigma>. \<not> lit_val \<sigma> b)" if "b \<in> set ?D" "inv u" "vars t \<subseteq> vars u" for b u
      using Assert_asserts [OF that(2) is_lit_neg [OF is_lit_self]] that D adds_vars [OF t] by blast
    show "supp t (\<lambda>\<sigma>. \<not> lit_val \<sigma> b)" if "b \<in> set ?D" for b
      using that D adds_vars [OF t] by (intro supp_not supp_lit) auto
  qed
  have sp: "supp s (\<lambda>\<sigma>. \<forall>b\<in>set ?D. \<not> lit_val \<sigma> b)"
    by (rule supp_ball) (use D in \<open>intro supp_not supp_lit, simp\<close>)
  have "asserts s (AssertEqual_vec C A B s) (\<lambda>\<sigma>. ?P \<sigma> \<and> (\<forall>b\<in>set ?D. \<not> lit_val \<sigma> b))"
    unfolding AssertEqual_vec_def by (rule asserts_bind [OF equal_bits_asserts [OF assms] step sp])
  then show ?thesis
  proof (rule asserts_eq)
    show "supp s (\<lambda>\<sigma>. num \<sigma> A = num \<sigma> B)" by (rule supp_num2 [OF assms(3,4)])
    fix \<sigma>
    let ?b = "map (lit_val \<sigma>) B"
    have "length (map (lit_val \<sigma>) A) = length (take ?n ?b)" using assms(2) by simp
    from bval_inj [OF this] have P: "?P \<sigma> \<longleftrightarrow> num \<sigma> A = bval (take ?n ?b)" by simp
    have D: "(\<forall>b\<in>set ?D. \<not> lit_val \<sigma> b) \<longleftrightarrow> bval (drop ?n ?b) = 0"
      by (auto simp: bval_zero list_ex_iff drop_map)
    have B: "num \<sigma> B = bval (take ?n ?b) + 2 ^ ?n * bval (drop ?n ?b)" by (rule bval_low_high)
    have A: "num \<sigma> A < 2 ^ ?n" using bval_less [of "map (lit_val \<sigma>) A"] by simp
    show "(?P \<sigma> \<and> (\<forall>b\<in>set ?D. \<not> lit_val \<sigma> b)) = (num \<sigma> A = num \<sigma> B)"
    proof (cases "bval (drop ?n ?b) = 0")
      case True
      then show ?thesis using P D B by simp
    next
      case False
      then have "2 ^ ?n \<le> 2 ^ ?n * bval (drop ?n ?b)" by simp
      then have "num \<sigma> A \<noteq> num \<sigma> B" using A B by linarith
      then show ?thesis using False D by simp
    qed
  qed
qed

subsection \<open>Cardinality\<close>

lemma count_zero: "count_true \<sigma> ls = 0 \<longleftrightarrow> (\<forall>l\<in>set ls. \<not> lit_val \<sigma> l)"
  by (auto simp: filter_empty_conv)

lemma amo_scan_spec:
  assumes "inv s" "in_use s (todo @ ls)" "ct \<noteq> lit_Undef \<Longrightarrow> var ct \<in> vars s \<and> isConstTrue C s ct"
    and "\<forall>l\<in>set todo. \<not> isConstTrue C s l"
  shows "case amo_scan C s ls ct todo of
      Inl (c, l) \<Rightarrow> in_use s [c, l] \<and> (\<forall>\<sigma>\<in>models s. lit_val \<sigma> c \<and> lit_val \<sigma> l \<and>
        2 \<le> of_bool (ct \<noteq> lit_Undef) + count_true \<sigma> (todo @ ls))
    | Inr (c, us) \<Rightarrow> in_use s us \<and> (\<forall>l\<in>set us. \<not> isConstTrue C s l) \<and>
        (c \<noteq> lit_Undef \<longrightarrow> var c \<in> vars s \<and> isConstTrue C s c) \<and> (\<forall>\<sigma>\<in>models s.
        of_bool (c \<noteq> lit_Undef) + count_true \<sigma> us = of_bool (ct \<noteq> lit_Undef) + count_true \<sigma> (todo @ ls))"
  using assms(2-4)
proof (induction ls arbitrary: ct todo)
  case (Cons l ls)
  have l: "is_lit s l (\<lambda>\<sigma>. lit_val \<sigma> l)" using Cons.prems(1) by (simp add: is_lit_self)
  note c = isConst_lit [OF assms(1) l]
  have lu: "l \<noteq> lit_Undef" using is_lit_not_undef [OF assms(1) l] .
  consider "isConstFalse C s l" | "\<not> isConstFalse C s l" "isConstTrue C s l" "ct = lit_Undef"
    | "\<not> isConstFalse C s l" "isConstTrue C s l" "ct \<noteq> lit_Undef" | "\<not> isConstFalse C s l" "\<not> isConstTrue C s l"
    by blast
  then show ?case
  proof cases
    case 1
    have v: "\<not> lit_val \<sigma> l" if "\<sigma> \<in> models s" for \<sigma> using c(2) [OF that] 1 by blast
    have rec: "amo_scan C s (l # ls) ct todo = amo_scan C s ls ct todo" using 1 by simp
    show ?thesis unfolding rec using v Cons.IH [of todo ct] Cons.prems
      by (cases "amo_scan C s ls ct todo") auto
  next
    case 2
    have v: "lit_val \<sigma> l" if "\<sigma> \<in> models s" for \<sigma> using c(1) [OF that] 2 by blast
    have rec: "amo_scan C s (l # ls) ct todo = amo_scan C s ls l todo" using 2 by simp
    show ?thesis unfolding rec using v 2 lu Cons.IH [of todo l] Cons.prems
      by (cases "amo_scan C s ls l todo") auto
  next
    case 3
    then have "lit_val \<sigma> l" "lit_val \<sigma> ct" if "\<sigma> \<in> models s" for \<sigma>
      using c(1) [OF that] isConst_lit(1) [OF assms(1) is_lit_self that, of ct] Cons.prems(2) by blast+
    then show ?thesis using 3 Cons.prems by simp
  next
    case 4
    then have rec: "amo_scan C s (l # ls) ct todo = amo_scan C s ls ct (todo @ [l])" by simp
    show ?thesis unfolding rec using 4 Cons.IH [of "todo @ [l]" ct] Cons.prems
      by (cases "amo_scan C s ls ct (todo @ [l])") auto
  qed
qed (use assms(2-4) in auto)

lemma supp_count: "in_use s ls \<Longrightarrow> supp s (\<lambda>\<sigma>. h (count_true \<sigma> ls))"
proof -
  assume u: "in_use s ls"
  have "supp s (\<lambda>\<sigma>. h (length (filter id (map (lit_val \<sigma>) ls))))" by (rule supp_map [OF u])
  then show ?thesis by (simp add: filter_map comp_def)
qed

lemma binary_clauses_assert:
  assumes "inv s" "in_use s (a # as)"
  shows "asserts s (for_each (\<lambda>b. add_clause C [neg_lit a, neg_lit b]) as s)
    (\<lambda>\<sigma>. \<forall>b\<in>set as. \<not> lit_val \<sigma> a \<or> \<not> lit_val \<sigma> b)"
proof (rule for_each_asserts [OF assms(1)])
  show "asserts t (add_clause C [neg_lit a, neg_lit b] t) (\<lambda>\<sigma>. \<not> lit_val \<sigma> a \<or> \<not> lit_val \<sigma> b)"
    if "b \<in> set as" "inv t" "vars s \<subseteq> vars t" for b t
  proof -
    have "in_use t [neg_lit a, neg_lit b]" using that assms(2) by auto
    from add_clause_asserts [OF that(2) this] show ?thesis by simp
  qed
  show "supp s (\<lambda>\<sigma>. \<not> lit_val \<sigma> a \<or> \<not> lit_val \<sigma> b)" if "b \<in> set as" for b
    using that assms(2) by (intro supp_intros supp_lit) auto
qed

lemma amo_pairs_asserts:
  assumes "inv s" "in_use s ls"
  shows "asserts s (amo_pairs C ls s) (\<lambda>\<sigma>. count_true \<sigma> ls \<le> 1)"
  using assms
proof (induction ls arbitrary: s)
  case Nil
  then show ?case by (simp add: asserts_skip)
next
  case (Cons a as)
  let ?P = "\<lambda>\<sigma>. \<forall>b\<in>set as. \<not> lit_val \<sigma> a \<or> \<not> lit_val \<sigma> b"
  have u: "in_use s as" using Cons.prems(2) by simp
  have "asserts t (amo_pairs C as t) (\<lambda>\<sigma>. count_true \<sigma> as \<le> 1)" if "adds_constraint s t ?P" for t
    using Cons.IH [OF adds_inv [OF that] in_use_mono [OF u that]] .
  from asserts_bind [OF binary_clauses_assert [OF Cons.prems] this supp_count [OF u]]
  have "asserts s (amo_pairs C (a # as) s) (\<lambda>\<sigma>. ?P \<sigma> \<and> count_true \<sigma> as \<le> 1)" by simp
  then show ?case
  proof (rule asserts_eq [OF _ supp_count [OF Cons.prems(2)]])
    show "(?P \<sigma> \<and> count_true \<sigma> as \<le> 1) = (count_true \<sigma> (a # as) \<le> 1)" for \<sigma>
      using count_zero [of \<sigma> as] by (cases "lit_val \<sigma> a") auto
  qed
qed

lemma for_each_filter:
  "for_each (\<lambda>x. if p x then f x else Some) xs s = for_each f (filter p xs) s"
  by (induction xs arbitrary: s) (auto split: bind_split)

lemma AssertAMO_asserts:
  assumes "inv s" "in_use s ls"
  shows "asserts s (AssertAMO C ls s) (\<lambda>\<sigma>. count_true \<sigma> ls \<le> 1)"
proof -
  let ?s = "op_cancelUntil (ci_ops C) 0 s"
  have c: "inv ?s" "vars ?s = vars s" "models ?s = models s" "op_decisionLevel (ci_ops C) ?s = 0"
    using cancel [OF assms(1)] by simp_all
  have e: "extends s ?s" using c by (auto simp: adds_constraint_def)
  have u: "in_use ?s ([] @ ls)" using assms(2) c by simp
  note sc = amo_scan_spec [OF c(1) u, of lit_Undef, simplified]
  let ?r = "case amo_scan C ?s ls lit_Undef [] of
        Inl (ct, l) \<Rightarrow> add_clause C [neg_lit ct, neg_lit l] ?s
      | Inr (ct, todo) \<Rightarrow>
          if ct = lit_Undef then (if length todo < 2 then Some ?s else amo_pairs C todo ?s)
          else for_each (\<lambda>l. if l \<noteq> ct then add_clause C [neg_lit ct, neg_lit l] else Some) todo ?s"
  have main: "asserts ?s ?r (\<lambda>\<sigma>. count_true \<sigma> ls \<le> 1)"
  proof (cases "amo_scan C ?s ls lit_Undef []")
    case (Inl p)
    obtain ct l where p: "p = (ct, l)" by fastforce
    have sp: "in_use ?s [neg_lit ct, neg_lit l]"
      "\<And>\<sigma>. \<sigma> \<in> models ?s \<Longrightarrow> lit_val \<sigma> ct \<and> lit_val \<sigma> l \<and> 2 \<le> count_true \<sigma> ls"
      using sc Inl p by auto
    have "asserts ?s (add_clause C [neg_lit ct, neg_lit l] ?s) (\<lambda>\<sigma>. count_true \<sigma> ls \<le> 1)"
      by (rule asserts_eq [OF add_clause_asserts [OF c(1) sp(1)] supp_count]) (use u sp(2) in fastforce)+
    then show ?thesis using Inl p by simp
  next
    case (Inr p)
    obtain ct us where p: "p = (ct, us)" by fastforce
    have sp: "in_use ?s us" "\<forall>l\<in>set us. \<not> isConstTrue C ?s l" "ct \<noteq> lit_Undef \<Longrightarrow> var ct \<in> vars ?s \<and> isConstTrue C ?s ct"
      "\<And>\<sigma>. \<sigma> \<in> models ?s \<Longrightarrow> of_bool (ct \<noteq> lit_Undef) + count_true \<sigma> us = count_true \<sigma> ls"
      using sc Inr p by auto
    have sl: "supp ?s (\<lambda>\<sigma>. count_true \<sigma> ls \<le> 1)" by (rule supp_count) (use u in simp)
    show ?thesis
    proof (cases "ct = lit_Undef")
      case True
      have "asserts ?s (if length us < 2 then Some ?s else amo_pairs C us ?s) (\<lambda>\<sigma>. count_true \<sigma> us \<le> 1)"
      proof (cases "length us < 2")
        case True
        have "count_true \<sigma> us \<le> 1" for \<sigma> using length_filter_le [of "lit_val \<sigma>" us] True by linarith
        then show ?thesis using True asserts_skip [OF c(1)] by simp
      next
        case False
        then show ?thesis using amo_pairs_asserts [OF c(1) sp(1)] by simp
      qed
      then have "asserts ?s (if length us < 2 then Some ?s else amo_pairs C us ?s) (\<lambda>\<sigma>. count_true \<sigma> ls \<le> 1)"
        by (rule asserts_eq [OF _ sl]) (use sp(4) True in fastforce)
      then show ?thesis using Inr p True by simp
    next
      case False
      have ne: "filter (\<lambda>l. l \<noteq> ct) us = us" using sp(2,3) False by (auto simp: filter_id_conv)
      have "asserts ?s (for_each (\<lambda>l. add_clause C [neg_lit ct, neg_lit l]) us ?s) (\<lambda>\<sigma>. count_true \<sigma> ls \<le> 1)"
      proof (rule asserts_eq [OF binary_clauses_assert [OF c(1)] sl])
        show "in_use ?s (ct # us)" using sp False by simp
        fix \<sigma> assume s: "\<sigma> \<in> models ?s"
        have "lit_val \<sigma> ct" using isConst_lit(1) [OF c(1) is_lit_self s] sp(3) [OF False] by blast
        moreover have "(count_true \<sigma> ls \<le> 1) = (count_true \<sigma> us = 0)"
          unfolding sp(4) [OF s, symmetric] using False by simp
        ultimately show "(\<forall>b\<in>set us. \<not> lit_val \<sigma> ct \<or> \<not> lit_val \<sigma> b) = (count_true \<sigma> ls \<le> 1)"
          unfolding count_zero by simp
      qed
      then show ?thesis using Inr p False by (simp add: for_each_filter ne)
    qed
  qed
  have "AssertAMO C ls s = ?r" using c(4) by (simp add: AssertAMO_def Let_def)
  moreover have "asserts s ?r (\<lambda>\<sigma>. count_true \<sigma> ls \<le> 1)"
    by (rule asserts_after [OF e main supp_count [OF assms(2)]]) simp
  ultimately show ?thesis by simp
qed

lemma AssertExactlyOne_asserts:
  assumes "inv s" "in_use s ls"
  shows "asserts s (AssertExactlyOne C ls s) (\<lambda>\<sigma>. count_true \<sigma> ls = 1)"
proof -
  have nu: "list_all (\<lambda>l. l \<noteq> lit_Undef) ls"
    using assms is_lit_not_undef [OF assms(1) is_lit_self] by (auto simp: list_all_iff)
  have "asserts t (AssertAMO C ls t) (\<lambda>\<sigma>. count_true \<sigma> ls \<le> 1)" if "adds_constraint s t (\<lambda>\<sigma>. clause_sat \<sigma> ls)" for t
    using AssertAMO_asserts [OF adds_inv [OF that] in_use_mono [OF assms(2) that]] .
  from asserts_bind [OF add_clause_asserts [OF assms] this supp_count [OF assms(2)]]
  have "asserts s (AssertExactlyOne C ls s) (\<lambda>\<sigma>. clause_sat \<sigma> ls \<and> count_true \<sigma> ls \<le> 1)"
    using nu by (simp add: AssertExactlyOne_def AssertOr_vec_def)
  then show ?thesis
  proof (rule asserts_eq [OF _ supp_count [OF assms(2)]])
    fix \<sigma>
    have "clause_sat \<sigma> ls \<longleftrightarrow> count_true \<sigma> ls \<noteq> 0" unfolding count_zero by (simp add: clause_sat_def)
    then show "(clause_sat \<sigma> ls \<and> count_true \<sigma> ls \<le> 1) = (count_true \<sigma> ls = 1)" by linarith
  qed
qed

subsection \<open>Multiplexers\<close>

lemma grow_selector_spec:
  assumes "inv s"
  shows "\<exists>ls t. grow_selector C n sel s = Some (sel @ ls, t) \<and> inv t \<and> vars t = vars s \<union> var ` set ls \<and>
    models t = models s \<and> length ls = n \<and> var ` set ls \<inter> vars s = {} \<and> (\<forall>l\<in>set ls. \<not> sign_lit l)"
  using assms
proof (induction n arbitrary: sel s)
  case (Suc n)
  obtain l t where l: "newLit C s = Some (l, t)" "inv t" "vars t = insert (var l) (vars s)" "var l \<notin> vars s"
    "models t = models s" "sign_lit l = False" by (rule newLit_fresh [OF Suc.prems])
  obtain ls u where u: "grow_selector C n (sel @ [l]) t = Some ((sel @ [l]) @ ls, u)" "inv u" "vars u = vars t \<union> var ` set ls"
    "models u = models t" "length ls = n" "var ` set ls \<inter> vars t = {}" "\<forall>l\<in>set ls. \<not> sign_lit l"
    using Suc.IH [OF l(2)] by blast
  show ?case
    by (intro exI [of _ "l # ls"] exI [of _ u]) (use l u in \<open>auto simp: image_iff\<close>)
qed simp

lemma match_num:
  assumes "i < 2 ^ length sel"
  shows "list_all (lit_val \<sigma>) (match_args sel i) \<longleftrightarrow> num \<sigma> sel = i"
proof -
  have "list_all (lit_val \<sigma>) (match_args sel i) \<longleftrightarrow> (\<forall>j<length sel. bit i j = bit (num \<sigma> sel) j)"
    by (auto simp: match_args_def list_all_length bval_bit)
  also have "\<dots> \<longleftrightarrow> i = num \<sigma> sel"
  proof
    assume a: "\<forall>j<length sel. bit i j = bit (num \<sigma> sel) j"
    have "take_bit (length sel) i = take_bit (length sel) (num \<sigma> sel)"
      by (rule bit_eqI) (use a in \<open>auto simp: bit_take_bit_iff\<close>)
    then show "i = num \<sigma> sel"
      using assms bval_less [of "map (lit_val \<sigma>) sel"] by (simp add: take_bit_nat_eq_self)
  qed simp
  finally show ?thesis by auto
qed

lemma clause_match: "clause_sat \<sigma> (map neg_lit as @ bs) \<longleftrightarrow> (list_all (lit_val \<sigma>) as \<longrightarrow> clause_sat \<sigma> bs)"
  by (simp add: clause_sat_def list_all_iff bex_Un) blast

lemma in_use_match: "in_use s sel \<Longrightarrow> in_use s (match_args sel i)"
  by (auto simp: match_args_def)

lemma mux_row_asserts:
  assumes "inv s" "in_use s (inp # out # sel)" "i < 2 ^ length sel"
  shows "asserts s (mux_row C sel out (i, inp) s) (\<lambda>\<sigma>. num \<sigma> sel = i \<longrightarrow> lit_val \<sigma> out = lit_val \<sigma> inp)"
proof -
  let ?a = "map neg_lit (match_args sel i)"
  have run: "mux_row C sel out (i, inp) s = for_each (add_clause C) [?a @ [neg_lit inp, out], ?a @ [inp, neg_lit out]] s"
    by (simp add: mux_row_def Let_def)
  have u: "in_use s sel" "in_use s ?a" using assms(2) in_use_match by auto
  show ?thesis unfolding run
  proof (rule clauses_define [OF assms(1)])
    show "\<forall>c\<in>set [?a @ [neg_lit inp, out], ?a @ [inp, neg_lit out]]. \<forall>l\<in>set c. var l \<in> vars s"
      using u assms(2) by auto
    show "supp s (\<lambda>\<sigma>. num \<sigma> sel = i \<longrightarrow> lit_val \<sigma> out = lit_val \<sigma> inp)"
      using assms(2) u by (intro supp_intros supp_lit supp_map supp_const) auto
    show "(\<forall>c\<in>set [?a @ [neg_lit inp, out], ?a @ [inp, neg_lit out]]. clause_sat \<sigma> c) =
        (num \<sigma> sel = i \<longrightarrow> lit_val \<sigma> out = lit_val \<sigma> inp)" for \<sigma>
      using match_num [OF assms(3), of \<sigma>] by (auto simp: clause_match simp del: clause_sat_simps(3))
  qed
qed

lemma mux_max_val:
  assumes "inv s" "\<sigma> \<in> models s" "n < 2 ^ k"
  shows "num \<sigma> (map (\<lambda>j. if bit n j then getTrue C else getFalse C) [0..<k]) = n"
proof -
  have "map (lit_val \<sigma>) (map (\<lambda>j. if bit n j then getTrue C else getFalse C) [0..<k]) = map (bit n) [0..<k]"
    using is_lit_val [OF is_lit_true [OF assms(1)] assms(2)] is_lit_val [OF is_lit_false [OF assms(1)] assms(2)] by auto
  moreover have "bval (map (bit n) [0..<k]) = take_bit k n"
    by (rule bit_eqI) (auto simp: bval_bit bit_take_bit_iff)
  ultimately show ?thesis using assms(3) by (simp only: take_bit_nat_eq_self)
qed

text \<open>The constraints of \<open>Mux\<close> once selector and output are there.\<close>

lemma mux_constraints:
  assumes s: "inv s" and u: "in_use s (out # sel @ data)" and opt: "opt = 0 \<or> opt = (1 :: nat)"
    and n: "length data \<le> 2 ^ length sel"
  shows "asserts s (do {
      t \<leftarrow> for_each (mux_row C sel out) (enumerate 0 data) s;
      t \<leftarrow> (if opt = 1 then for_each (\<lambda>i. add_clause C (map neg_lit (match_args sel i))) [length data..<2 ^ length sel] t
           else Some t);
      (if opt = 0 \<and> \<not> isPower2 (length data) then
         AssertLT C sel (map (\<lambda>j. if bit (length data) j then getTrue C else getFalse C) [0..<length sel]) t
       else Some t) })
    (\<lambda>\<sigma>. (num \<sigma> sel < length data \<longrightarrow> lit_val \<sigma> out = lit_val \<sigma> (data ! num \<sigma> sel)) \<and>
       ((opt = 1 \<longrightarrow> num \<sigma> sel < length data) \<and> (opt = 0 \<and> \<not> isPower2 (length data) \<longrightarrow> num \<sigma> sel < length data)))"
proof -
  have us: "in_use s sel" "in_use s data" "var out \<in> vars s" using u by auto
  have bound: "num \<sigma> sel < 2 ^ length sel" for \<sigma> using bval_less [of "map (lit_val \<sigma>) sel"] by simp
  have rows: "asserts s (for_each (mux_row C sel out) (enumerate 0 data) s)
      (\<lambda>\<sigma>. num \<sigma> sel < length data \<longrightarrow> lit_val \<sigma> out = lit_val \<sigma> (data ! num \<sigma> sel))"
  proof (rule asserts_eq [OF for_each_asserts [OF s]])
    fix x t assume x: "x \<in> set (enumerate 0 data)" and t: "inv t" "vars s \<subseteq> vars t"
    obtain i inp where xi: "x = (i, inp)" by fastforce
    then have i: "x = (i, inp)" "i < length data" "inp = data ! i"
      using x by (simp_all add: in_set_enumerate_eq)
    have "in_use t (inp # out # sel)" using us t(2) i by auto
    from mux_row_asserts [OF t(1) this] i n
    show "asserts t (mux_row C sel out x t) (\<lambda>\<sigma>. num \<sigma> sel = fst x \<longrightarrow> lit_val \<sigma> out = lit_val \<sigma> (snd x))" by simp
  next
    fix x assume x: "x \<in> set (enumerate 0 data)"
    then have "fst x < length data" "snd x = data ! fst x" by (simp_all add: in_set_enumerate_eq)
    then have "snd x \<in> set data" by simp
    then show "supp s (\<lambda>\<sigma>. num \<sigma> sel = fst x \<longrightarrow> lit_val \<sigma> out = lit_val \<sigma> (snd x))"
      using us by (intro supp_intros supp_lit supp_map supp_const) auto
  next
    show "supp s (\<lambda>\<sigma>. num \<sigma> sel < length data \<longrightarrow> lit_val \<sigma> out = lit_val \<sigma> (data ! num \<sigma> sel))"
      unfolding supp_def
    proof (intro allI impI)
      fix \<sigma> \<tau> :: "int \<Rightarrow> bool" assume a: "\<forall>v\<in>vars s. \<sigma> v = \<tau> v"
      then have m: "map (lit_val \<sigma>) sel = map (lit_val \<tau>) sel" and "lit_val \<sigma> out = lit_val \<tau> out"
        "\<forall>l\<in>set data. lit_val \<sigma> l = lit_val \<tau> l" using us by (auto simp: lit_val_def)
      then show "(num \<sigma> sel < length data \<longrightarrow> lit_val \<sigma> out = lit_val \<sigma> (data ! num \<sigma> sel)) =
        (num \<tau> sel < length data \<longrightarrow> lit_val \<tau> out = lit_val \<tau> (data ! num \<tau> sel))" unfolding m by simp
    qed
  next
    fix \<sigma>
    show "(\<forall>x\<in>set (enumerate 0 data). num \<sigma> sel = fst x \<longrightarrow> lit_val \<sigma> out = lit_val \<sigma> (snd x)) =
      (num \<sigma> sel < length data \<longrightarrow> lit_val \<sigma> out = lit_val \<sigma> (data ! num \<sigma> sel))"
    proof -
      have "set (enumerate 0 data) = (\<lambda>i. (i, data ! i)) ` {..<length data}"
        by (auto simp: in_set_enumerate_eq)
      then show ?thesis by auto
    qed
  qed
  have sp: "supp s (\<lambda>\<sigma>. c \<longrightarrow> num \<sigma> sel < length data)" for c
    by (rule supp_map [OF us(1), where h = "\<lambda>bs. c \<longrightarrow> bval bs < length data"])
  have rule1: "asserts t (if opt = 1 then for_each (\<lambda>i. add_clause C (map neg_lit (match_args sel i))) [length data..<2 ^ length sel] t
           else Some t) (\<lambda>\<sigma>. opt = 1 \<longrightarrow> num \<sigma> sel < length data)" if t: "inv t" "vars s \<subseteq> vars t" for t
  proof (cases "opt = 1")
    case True
    have "asserts t (for_each (\<lambda>i. add_clause C (map neg_lit (match_args sel i))) [length data..<2 ^ length sel] t)
        (\<lambda>\<sigma>. opt = 1 \<longrightarrow> num \<sigma> sel < length data)"
    proof (rule asserts_eq [OF for_each_asserts [OF t(1) add_clause_asserts]])
      show "supp t (\<lambda>\<sigma>. opt = 1 \<longrightarrow> num \<sigma> sel < length data)" using sp t(2) by (rule supp_mono)
      show "\<forall>l\<in>set (map neg_lit (match_args sel i)). var l \<in> vars v" if "vars t \<subseteq> vars v" for i v
        using in_use_match [OF us(1), of i] that t(2) by auto
      show "supp t (\<lambda>\<sigma>. clause_sat \<sigma> (map neg_lit (match_args sel i)))" for i
        by (rule supp_clause) (use in_use_match [OF us(1), of i] t(2) in auto)
      show "(\<forall>i\<in>set [length data..<2 ^ length sel]. clause_sat \<sigma> (map neg_lit (match_args sel i))) =
          (opt = 1 \<longrightarrow> num \<sigma> sel < length data)" for \<sigma>
        using clause_match [of \<sigma> _ "[]"] match_num [of _ sel \<sigma>] bound [of \<sigma>] True by (auto simp: not_le [symmetric])
    qed
    then show ?thesis using True by simp
  next
    case False
    then show ?thesis using asserts_skip [OF t(1)] by simp
  qed
  let ?max = "map (\<lambda>j. if bit (length data) j then getTrue C else getFalse C) [0..<length sel]"
  let ?c = "opt = 0 \<and> \<not> isPower2 (length data)"
  have rule2: "asserts t (if ?c then AssertLT C sel ?max t else Some t) (\<lambda>\<sigma>. ?c \<longrightarrow> num \<sigma> sel < length data)"
    if t: "inv t" "vars s \<subseteq> vars t" for t
  proof (cases ?c)
    case True
    have "length data \<noteq> 2 ^ length sel"
    proof
      assume eq: "length data = 2 ^ length sel"
      have "(2 ^ k AND (2 ^ k - 1) :: nat) = 0" for k
        unfolding mask_eq_exp_minus_1 [symmetric] take_bit_eq_mask [symmetric] by simp
      then show False using True eq by (simp add: isPower2_def)
    qed
    then have lt: "length data < 2 ^ length sel" using n by simp
    have um: "in_use t sel" "in_use t ?max"
      using us(1) t(2) is_lit_vars [OF is_lit_true [OF t(1)]] is_lit_vars [OF is_lit_false [OF t(1)]] by auto
    have "asserts t (AssertLT C sel ?max t) (\<lambda>\<sigma>. ?c \<longrightarrow> num \<sigma> sel < length data)"
      by (rule asserts_eq [OF AssertLT_asserts [OF t(1) um] supp_mono [OF sp t(2)]])
        (use mux_max_val [OF t(1) _ lt] True in simp)
    then show ?thesis using True by simp
  next
    case False
    then show ?thesis using asserts_skip [OF t(1)] by auto
  qed
  show ?thesis
  proof (rule asserts_bind [OF rows asserts_bind])
    show "asserts t (if opt = 1 then for_each (\<lambda>i. add_clause C (map neg_lit (match_args sel i))) [length data..<2 ^ length sel] t
           else Some t) (\<lambda>\<sigma>. opt = 1 \<longrightarrow> num \<sigma> sel < length data)"
      if "adds_constraint s t (\<lambda>\<sigma>. num \<sigma> sel < length data \<longrightarrow> lit_val \<sigma> out = lit_val \<sigma> (data ! num \<sigma> sel))" for t
      using that by (intro rule1) (auto simp: adds_constraint_def)
    show "asserts v (if ?c then AssertLT C sel ?max v else Some v) (\<lambda>\<sigma>. ?c \<longrightarrow> num \<sigma> sel < length data)"
      if "adds_constraint s t (\<lambda>\<sigma>. num \<sigma> sel < length data \<longrightarrow> lit_val \<sigma> out = lit_val \<sigma> (data ! num \<sigma> sel))"
        "adds_constraint t v (\<lambda>\<sigma>. opt = 1 \<longrightarrow> num \<sigma> sel < length data)" for t v
      using that by (intro rule2) (auto simp: adds_constraint_def)
    show "supp t (\<lambda>\<sigma>. ?c \<longrightarrow> num \<sigma> sel < length data)"
      if "adds_constraint s t (\<lambda>\<sigma>. num \<sigma> sel < length data \<longrightarrow> lit_val \<sigma> out = lit_val \<sigma> (data ! num \<sigma> sel))" for t
      using supp_mono [OF sp] that by (simp add: adds_constraint_def)
    show "supp s (\<lambda>\<sigma>. (opt = 1 \<longrightarrow> num \<sigma> sel < length data) \<and> (?c \<longrightarrow> num \<sigma> sel < length data))"
      by (rule supp_and [OF sp sp])
  qed
qed

lemma Mux_run:
  assumes s: "inv s" and use: "in_use s sel" "in_use s data" and opt: "opt = 0 \<or> opt = (1 :: nat)"
    and n: "data \<noteq> []" "length data \<le> 2 ^ 29" "length sel < 31"
  shows "\<exists>out sel' t. Mux C sel data opt s = Some ((out, sel'), t) \<and> inv t \<and> vars s \<subseteq> vars t \<and>
    take (length sel) sel' = sel \<and> in_use t (out # sel') \<and>
    (\<forall>\<tau>\<in>models t. \<tau> \<in> models s \<and>
      (num \<tau> sel' < length data \<longrightarrow> lit_val \<tau> out = lit_val \<tau> (data ! num \<tau> sel')) \<and>
      (opt = 1 \<or> \<not> isPower2 (length data) \<longrightarrow> num \<tau> sel' < length data)) \<and>
    (\<forall>\<sigma>\<in>models s. num \<sigma> sel < length data \<longrightarrow>
      (\<exists>\<tau>\<in>models t. num \<tau> sel' = num \<sigma> sel \<and> (\<forall>v\<in>vars s. \<tau> v = \<sigma> v)))"
proof -
  let ?k = "pow2roundup (word_of_nat (length data) - 1) + 1"
  have k: "length data \<le> 2 ^ ?k" "?k < 31" using mux_args [of "length data"] n by auto
  obtain ls t1 where 1: "grow_selector C (?k - length sel) sel s = Some (sel @ ls, t1)" "inv t1"
    "vars t1 = vars s \<union> var ` set ls" "models t1 = models s" "length ls = ?k - length sel"
    "var ` set ls \<inter> vars s = {}" "\<forall>l\<in>set ls. \<not> sign_lit l"
    using grow_selector_spec [OF s] by blast
  let ?sel = "sel @ ls"
  obtain out t2 where 2: "newLit C t1 = Some (out, t2)" "inv t2" "vars t2 = insert (var out) (vars t1)" "var out \<notin> vars t1"
    "models t2 = models t1" "sign_lit out = False" by (rule newLit_fresh [OF 1(2)])
  have len: "length ?sel < 31" "?k \<le> length ?sel" using 1(5) k(2) n(3) by auto
  have big: "length data \<le> 2 ^ length ?sel" using k(1) len(2) by (meson le_trans one_le_numeral power_increasing)
  have u: "in_use t2 (out # ?sel @ data)" using use 1(3) 2(3) by auto
  let ?P = "\<lambda>\<sigma>. (num \<sigma> ?sel < length data \<longrightarrow> lit_val \<sigma> out = lit_val \<sigma> (data ! num \<sigma> ?sel)) \<and>
       ((opt = 1 \<longrightarrow> num \<sigma> ?sel < length data) \<and> (opt = 0 \<and> \<not> isPower2 (length data) \<longrightarrow> num \<sigma> ?sel < length data))"
  from mux_constraints [OF 2(2) u opt big] obtain t where t: "(do {
      t \<leftarrow> for_each (mux_row C ?sel out) (enumerate 0 data) t2;
      t \<leftarrow> (if opt = 1 then for_each (\<lambda>i. add_clause C (map neg_lit (match_args ?sel i))) [length data..<2 ^ length ?sel] t
           else Some t);
      (if opt = 0 \<and> \<not> isPower2 (length data) then
         AssertLT C ?sel (map (\<lambda>j. if bit (length data) j then getTrue C else getFalse C) [0..<length ?sel]) t
       else Some t) }) = Some t" "adds_constraint t2 t ?P" unfolding asserts_def by blast
  have run: "Mux C sel data opt s = Some ((out, ?sel), t)"
    using t(1) 1(1) 2(1) len(1) k(2) opt by (simp add: Mux_def Let_def bind_eq_Some_conv)
  have sound: "\<forall>\<tau>\<in>models t. \<tau> \<in> models s \<and>
      (num \<tau> ?sel < length data \<longrightarrow> lit_val \<tau> out = lit_val \<tau> (data ! num \<tau> ?sel)) \<and>
      (opt = 1 \<or> \<not> isPower2 (length data) \<longrightarrow> num \<tau> ?sel < length data)"
    using t(2) 1(4) 2(5) opt unfolding adds_constraint_def by blast
  have complete: "\<exists>\<tau>\<in>models t. num \<tau> ?sel = num \<sigma> sel \<and> (\<forall>v\<in>vars s. \<tau> v = \<sigma> v)"
    if a: "\<sigma> \<in> models s" "num \<sigma> sel < length data" for \<sigma>
  proof -
    let ?v = "lit_val \<sigma> (data ! num \<sigma> sel)"
    let ?\<tau> = "\<lambda>v. if v = var out then ?v else if v \<in> var ` set ls then False else \<sigma> v"
    have ag: "\<forall>v\<in>vars s. ?\<tau> v = \<sigma> v" using 1(3,6) 2(4) by auto
    have agl: "lit_val ?\<tau> l = lit_val \<sigma> l" if "var l \<in> vars s" for l
      using ag that by (simp add: lit_val_def)
    have "num ?\<tau> ?sel = num \<sigma> sel"
    proof -
      have "map (lit_val ?\<tau>) sel = map (lit_val \<sigma>) sel" using use(1) agl by simp
      moreover have "map (lit_val ?\<tau>) ls = replicate (length ls) False"
      proof (rule replicate_eqI)
        show "length (map (lit_val ?\<tau>) ls) = length ls" by simp
        fix y assume "y \<in> set (map (lit_val ?\<tau>) ls)"
        then obtain x where x: "x \<in> set ls" "y = lit_val ?\<tau> x" by auto
        then have "var x \<noteq> var out" using 1(3) 2(4) by (metis UnCI imageI)
        then show "y = False" using x 1(7) by (simp add: lit_val_def)
      qed
      ultimately show ?thesis by (simp only: map_append bval_append bval_replicate_False)
    qed
    moreover have "lit_val ?\<tau> out = ?v" using 2(6) by (simp add: lit_val_def)
    moreover have "lit_val ?\<tau> (data ! num \<sigma> sel) = ?v" using agl use(2) a(2) by simp
    ultimately have P: "?P ?\<tau>" using a(2) by simp
    have "?\<tau> \<in> models s" by (rule only_vars [OF s _ a(1)]) (use ag in auto)
    then have "?\<tau> \<in> models t2" using 1(4) 2(5) by simp
    then obtain \<tau>' where t': "\<tau>' \<in> models t" "\<forall>v\<in>vars t2. \<tau>' v = ?\<tau> v"
      using t(2) P unfolding adds_constraint_def by blast
    have "num \<tau>' ?sel = num ?\<tau> ?sel"
    proof -
      have "map (lit_val \<tau>') ?sel = map (lit_val ?\<tau>) ?sel"
      proof (rule map_cong [OF refl])
        fix x assume "x \<in> set ?sel"
        then have "var x \<in> vars t2" using u by auto
        then show "lit_val \<tau>' x = lit_val ?\<tau> x" by (intro lit_val_cong bspec [OF t'(2)])
      qed
      then show ?thesis by (simp only:)
    qed
    moreover have "\<forall>v\<in>vars s. \<tau>' v = \<sigma> v" using t'(2) ag 1(3) 2(3) by auto
    ultimately show ?thesis using t'(1) \<open>num ?\<tau> ?sel = num \<sigma> sel\<close> by (intro bexI [of _ \<tau>']) auto
  qed
  have v2: "vars t2 \<subseteq> vars t" using adds_vars [OF t(2)] by (rule subsetI)
  have "inv t" using t(2) by (rule adds_inv)
  moreover have "vars s \<subseteq> vars t" using v2 1(3) 2(3) by blast
  moreover have "in_use t (out # ?sel)" using v2 u by auto
  moreover note run sound complete
  ultimately show ?thesis by (intro exI [of _ out] exI [of _ ?sel] exI [of _ t]) simp
qed

end

end
