(* ===== verification/Clauses.thy ===== *)
theory Clauses
  imports Lits
begin

text \<open>
  \<open>core/SolverTypes.h\<close> (clauses and occurrence lists) and the vector helper \<open>remove\<close> of
  \<open>mtl/Alg.h\<close>.  A clause is its header flags, its literals, and the word stored after them when
  \<open>has_extra\<close> is set, which for a problem clause is the 32-bit abstraction of its variables.
\<close>

subsection \<open>Clauses\<close>

record clause =
  c_mark :: nat
  c_learnt :: bool
  c_has_extra :: bool
  c_derived :: bool
  c_lits :: "lit list"
  c_abs :: "32 word"

text \<open>\<open>calcAbstraction\<close>: one bit per variable, the variable's residue modulo 32.\<close>

definition abs_bit :: "lit \<Rightarrow> 32 word" where
  "abs_bit l = push_bit (nat (var l AND 31)) 1"

definition lits_abstraction :: "lit list \<Rightarrow> 32 word" where
  "lits_abstraction ls = fold (\<lambda>l a. a OR abs_bit l) ls 0"

definition calcAbstraction :: "clause \<Rightarrow> clause option" where
  "calcAbstraction c = do {
     check (c_has_extra c);
     Some (c\<lparr>c_abs := lits_abstraction (c_lits c)\<rparr>) }"

definition new_clause :: "lit list \<Rightarrow> bool \<Rightarrow> bool \<Rightarrow> clause" where
  "new_clause ps use_extra learnt =
     \<lparr>c_mark = 0, c_learnt = learnt, c_has_extra = use_extra, c_derived = False, c_lits = ps,
      c_abs = (if use_extra \<and> \<not> learnt then lits_abstraction ps else 0)\<rparr>"

definition clause_shrink :: "nat \<Rightarrow> clause \<Rightarrow> clause option" where
  "clause_shrink i c = do {
     check (i \<le> length (c_lits c));
     Some (c\<lparr>c_lits := take (length (c_lits c) - i) (c_lits c)\<rparr>) }"

definition clause_pop :: "clause \<Rightarrow> clause option" where
  "clause_pop c = clause_shrink 1 c"

text \<open>
  \<open>remove(ts, t)\<close> of \<open>mtl/Alg.h\<close>: find the first occurrence (asserting there is one), shift the
  rest down by one, drop the last cell.
\<close>

fun vec_index :: "'a list \<Rightarrow> 'a \<Rightarrow> nat \<Rightarrow> nat" where
  "vec_index [] t j = j"
| "vec_index (x # xs) t j = (if x \<noteq> t then vec_index xs t (Suc j) else j)"

function shift_down :: "nat \<Rightarrow> 'a list \<Rightarrow> 'a list" where
  "shift_down j ts =
     (if j + 1 < length ts then shift_down (Suc j) (ts[j := ts ! (j + 1)]) else ts)"
  by pat_completeness auto
termination
  by (relation "measure (\<lambda>(j, ts). length ts - j)") auto

declare shift_down.simps [simp del]

definition vec_remove :: "'a list \<Rightarrow> 'a \<Rightarrow> 'a list option" where
  "vec_remove ts t = (let j = vec_index ts t 0 in do {
     check (j < length ts);
     Some (butlast (shift_down j ts)) })"

definition vec_find :: "'a list \<Rightarrow> 'a \<Rightarrow> bool" where
  "vec_find ts t = (vec_index ts t 0 < length ts)"

definition strengthen :: "lit \<Rightarrow> clause \<Rightarrow> clause option" where
  "strengthen p c = do {
     ls \<leftarrow> vec_remove (c_lits c) p;
     calcAbstraction (c\<lparr>c_lits := ls\<rparr>) }"

text \<open>
  \<open>subsumes\<close>: a size and abstraction filter, then for every literal \<open>c[i]\<close> a search of \<open>other\<close>
  that accepts \<open>c[i]\<close> itself or, once, its negation.
\<close>

fun sub_find :: "lit \<Rightarrow> lit \<Rightarrow> lit list \<Rightarrow> lit option" where
  "sub_find ret ci [] = None"
| "sub_find ret ci (dj # ds) =
     (if ci = dj then Some ret
      else if ret = lit_Undef \<and> ci = neg_lit dj then Some ci
      else sub_find ret ci ds)"

fun sub_loop :: "lit \<Rightarrow> lit list \<Rightarrow> lit list \<Rightarrow> lit" where
  "sub_loop ret [] ds = ret"
| "sub_loop ret (ci # cs) ds =
     (case sub_find ret ci ds of None \<Rightarrow> lit_Error | Some r \<Rightarrow> sub_loop r cs ds)"

definition subsumes :: "clause \<Rightarrow> clause \<Rightarrow> lit option" where
  "subsumes c other = do {
     check (\<not> c_learnt c);
     check (\<not> c_learnt other);
     check (c_has_extra c);
     check (c_has_extra other);
     Some (if length (c_lits other) < length (c_lits c) \<or> c_abs c AND NOT (c_abs other) \<noteq> 0
           then lit_Error
           else sub_loop lit_Undef (c_lits c) (c_lits other)) }"

subsection \<open>The vector helper\<close>

lemma vec_index_shift: "vec_index xs t j = j + vec_index xs t 0"
proof (induction xs arbitrary: j)
  case (Cons a xs)
  show ?case using Cons.IH [of "Suc j"] Cons.IH [of 1] by simp
qed simp

lemma vec_index_length: "vec_index xs t 0 \<le> length xs \<and> (vec_index xs t 0 < length xs \<longleftrightarrow> t \<in> set xs)"
proof (induction xs)
  case (Cons a xs)
  then show ?case using vec_index_shift [of xs t 1] by auto
qed simp

lemma vec_find_iff: "vec_find ts t \<longleftrightarrow> t \<in> set ts"
  by (simp add: vec_find_def vec_index_length)

lemma shift_down_eq:
  "j < length ts \<Longrightarrow> shift_down j ts = take j ts @ drop (Suc j) ts @ [last ts]"
proof (induction j ts rule: shift_down.induct)
  case (1 j ts)
  show ?case
  proof (cases "j + 1 < length ts")
    case True
    let ?us = "ts[j := ts ! (j + 1)]"
    have ne: "ts \<noteq> []" using True by auto
    have "shift_down j ts = take (Suc j) ?us @ drop (Suc (Suc j)) ?us @ [last ?us]"
      using True "1.IH" by (simp add: shift_down.simps [of j ts])
    also have "\<dots> = take j ts @ ts ! Suc j # drop (Suc (Suc j)) ts @ [last ts]"
      using True ne by (auto simp: take_Suc_conv_app_nth last_list_update)
    also have "\<dots> = take j ts @ drop (Suc j) ts @ [last ts]"
      using True by (simp add: Cons_nth_drop_Suc [of "Suc j" ts, symmetric])
    finally show ?thesis .
  next
    case False
    then have "j = length ts - 1" "ts \<noteq> []" using "1.prems" by auto
    then have "take j ts @ [last ts] = butlast ts @ [last ts]" by (simp add: butlast_conv_take)
    with \<open>ts \<noteq> []\<close> have "take j ts @ [last ts] = ts" by simp
    then show ?thesis using False by (simp add: shift_down.simps [of j ts])
  qed
qed

lemma remove1_vec_index:
  "t \<in> set ts \<Longrightarrow> take (vec_index ts t 0) ts @ drop (Suc (vec_index ts t 0)) ts = remove1 t ts"
proof (induction ts)
  case (Cons a ts)
  then show ?case using vec_index_shift [of ts t 1] by auto
qed simp

lemma vec_remove_eq: "vec_remove ts t = (if t \<in> set ts then Some (remove1 t ts) else None)"
proof (cases "t \<in> set ts")
  case True
  then have j: "vec_index ts t 0 < length ts" by (simp add: vec_index_length)
  have "shift_down (vec_index ts t 0) ts
      = (take (vec_index ts t 0) ts @ drop (Suc (vec_index ts t 0)) ts) @ [last ts]"
    by (simp add: shift_down_eq [OF j])
  with True j show ?thesis
    by (simp add: vec_remove_def Let_def butlast_append remove1_vec_index [OF True])
next
  case False
  then have "\<not> vec_index ts t 0 < length ts" by (simp add: vec_index_length)
  with False show ?thesis by (simp add: vec_remove_def Let_def)
qed

subsection \<open>The abstraction filter\<close>

lemma bit_abs_bit: "bit (abs_bit l) n \<longleftrightarrow> n = nat (var l mod 32)"
proof -
  have m: "var l AND 31 = var l mod 32"
    using take_bit_eq_mask [of 5 "var l"] by (simp add: mask_eq_exp_minus_1 take_bit_eq_mod)
  have "nat (var l mod 32) < 32" by simp
  then show ?thesis by (auto simp: abs_bit_def m bit_exp_iff)
qed

lemma bit_fold_abs:
  "bit (fold (\<lambda>l a. a OR abs_bit l) ls a) n \<longleftrightarrow> bit a n \<or> (\<exists>l\<in>set ls. bit (abs_bit l) n)"
  by (induction ls arbitrary: a) (auto simp: bit_or_iff)

lemma bit_lits_abstraction:
  "bit (lits_abstraction ls) n \<longleftrightarrow> (\<exists>l\<in>set ls. n = nat (var l mod 32))"
  by (simp add: lits_abstraction_def bit_fold_abs bit_abs_bit)

lemma abstraction_filter_sound:
  assumes "var ` set cs \<subseteq> var ` set ds"
  shows "lits_abstraction cs AND NOT (lits_abstraction ds) = 0"
proof (rule bit_eqI)
  fix n
  have "bit (lits_abstraction cs) n \<Longrightarrow> bit (lits_abstraction ds) n"
    using assms by (fastforce simp: bit_lits_abstraction)
  then show "bit (lits_abstraction cs AND NOT (lits_abstraction ds)) n = bit 0 n"
    by (auto simp: bit_and_iff bit_not_iff)
qed

subsection \<open>Subsumption\<close>

definition missing :: "lit list \<Rightarrow> lit list \<Rightarrow> lit list" where
  "missing cs ds = filter (\<lambda>l. l \<notin> set ds) cs"

definition tautology :: "lit list \<Rightarrow> bool" where
  "tautology ds = (\<exists>l\<in>set ds. neg_lit l \<in> set ds)"

lemma sub_find_set: "ret \<noteq> lit_Undef \<Longrightarrow> sub_find ret ci ds = (if ci \<in> set ds then Some ret else None)"
  by (induction ds) auto

lemma sub_find_undef:
  "\<not> tautology ds \<Longrightarrow> sub_find lit_Undef ci ds =
    (if ci \<in> set ds then Some lit_Undef else if neg_lit ci \<in> set ds then Some ci else None)"
  by (induction ds) (auto simp: tautology_def neg_eq_swap)

lemma sub_loop_set:
  "ret \<noteq> lit_Undef \<Longrightarrow> sub_loop ret cs ds = (if missing cs ds = [] then ret else lit_Error)"
  by (induction cs) (auto simp: sub_find_set missing_def)

lemma sub_loop_undef:
  assumes "\<not> tautology ds" "lit_Undef \<notin> set cs"
  shows "sub_loop lit_Undef cs ds =
    (case missing cs ds of
       [] \<Rightarrow> lit_Undef
     | [p] \<Rightarrow> if neg_lit p \<in> set ds then p else lit_Error
     | _ \<Rightarrow> lit_Error)"
  using assms(2)
proof (induction cs)
  case (Cons c cs)
  then have c: "c \<noteq> lit_Undef" by auto
  show ?case
    using Cons by (auto simp: sub_find_undef [OF assms(1)] sub_loop_set [OF c] missing_def split: list.split)
qed (simp add: missing_def)

lemma missing_Nil: "missing cs ds = [] \<longleftrightarrow> set cs \<subseteq> set ds"
  by (auto simp: missing_def filter_empty_conv)

lemma missing_single:
  assumes "distinct cs"
  shows "missing cs ds = [p] \<longleftrightarrow> p \<in> set cs \<and> p \<notin> set ds \<and> set cs - {p} \<subseteq> set ds"
proof -
  have d: "distinct (missing cs ds)" using assms by (simp add: missing_def)
  have s: "set (missing cs ds) = set cs - set ds" by (auto simp: missing_def)
  have "missing cs ds = [p] \<longleftrightarrow> set (missing cs ds) = {p}"
    using d by (cases "missing cs ds") (auto simp: distinct_singleton, metis distinct.simps(2) list.exhaust list.set_intros(1) singletonD subset_singletonD subset_insertI set_empty insert_iff)
  then show ?thesis unfolding s by blast
qed

lemma subsumes_lits:
  assumes "subsumes c d = Some r"
  shows "r = (if length (c_lits d) < length (c_lits c) \<or> c_abs c AND NOT (c_abs d) \<noteq> 0
              then lit_Error else sub_loop lit_Undef (c_lits c) (c_lits d))"
  using assms by (auto simp: subsumes_def Option.bind_eq_Some_conv split: if_splits)

lemma card_le_length:
  assumes "distinct cs" "f ` set cs \<subseteq> set ds" "inj_on f (set cs)"
  shows "length cs \<le> length ds"
proof -
  have "length cs = card (f ` set cs)"
    using assms(1,3) by (simp add: distinct_card card_image)
  also have "\<dots> \<le> card (set ds)" using assms(2) by (simp add: card_mono)
  also have "\<dots> \<le> length ds" by (rule card_length)
  finally show ?thesis .
qed

text \<open>A subsuming or almost subsuming clause passes both filters.\<close>

lemma filter_passes:
  assumes "c_abs c = lits_abstraction (c_lits c)" "c_abs d = lits_abstraction (c_lits d)"
    and "distinct (c_lits c)" "\<not> tautology (c_lits c)"
    and "\<forall>l\<in>set (c_lits c). l \<in> set (c_lits d) \<or> (l = p \<and> neg_lit l \<in> set (c_lits d))"
  shows "\<not> (length (c_lits d) < length (c_lits c) \<or> c_abs c AND NOT (c_abs d) \<noteq> 0)"
proof -
  let ?f = "\<lambda>l. if l \<in> set (c_lits d) then l else neg_lit l"
  have "inj_on ?f (set (c_lits c))"
    using assms(4) by (auto simp: inj_on_def tautology_def)
  moreover have "?f ` set (c_lits c) \<subseteq> set (c_lits d)" using assms(5) by auto
  ultimately have "length (c_lits c) \<le> length (c_lits d)"
    using card_le_length [OF assms(3)] by blast
  moreover have "var ` set (c_lits c) \<subseteq> var ` set (c_lits d)"
  proof (rule image_subsetI)
    fix l assume "l \<in> set (c_lits c)"
    with assms(5) have "?f l \<in> set (c_lits d)" "var (?f l) = var l" by auto
    then show "var l \<in> var ` set (c_lits d)" by (metis image_eqI)
  qed
  ultimately show ?thesis
    using assms(1,2) by (simp add: abstraction_filter_sound)
qed

lemma subsumes_decides:
  assumes abs: "c_abs c = lits_abstraction (c_lits c)" "c_abs d = lits_abstraction (c_lits d)"
    and c: "distinct (c_lits c)" "\<not> tautology (c_lits c)"
           "lit_Undef \<notin> set (c_lits c)" "lit_Error \<notin> set (c_lits c)"
    and d: "\<not> tautology (c_lits d)"
    and r: "subsumes c d = Some r"
    and p: "p \<noteq> lit_Undef" "p \<noteq> lit_Error"
  shows "(r = lit_Undef \<longleftrightarrow> set (c_lits c) \<subseteq> set (c_lits d)) \<and>
         (r = p \<longleftrightarrow> p \<in> set (c_lits c) \<and> neg_lit p \<in> set (c_lits d) \<and>
                     set (c_lits c) - {p} \<subseteq> set (c_lits d))"
proof (cases "length (c_lits d) < length (c_lits c) \<or> c_abs c AND NOT (c_abs d) \<noteq> 0")
  case True
  then have "r = lit_Error" using subsumes_lits [OF r] by simp
  moreover have "\<not> set (c_lits c) \<subseteq> set (c_lits d)"
    and "\<not> (p \<in> set (c_lits c) \<and> neg_lit p \<in> set (c_lits d) \<and> set (c_lits c) - {p} \<subseteq> set (c_lits d))"
    using filter_passes [OF abs c(1,2), of p] True by auto
  ultimately show ?thesis using p by (auto simp: lit_Undef_def lit_Error_def)
next
  case False
  let ?m = "missing (c_lits c) (c_lits d)"
  have r: "r = (case ?m of [] \<Rightarrow> lit_Undef
                | [q] \<Rightarrow> if neg_lit q \<in> set (c_lits d) then q else lit_Error | _ \<Rightarrow> lit_Error)"
    using subsumes_lits [OF r] False sub_loop_undef [OF d c(3)] by simp
  have m: "set ?m \<subseteq> set (c_lits c)" by (auto simp: missing_def)
  have dist: "p \<in> set (c_lits d) \<Longrightarrow> neg_lit p \<notin> set (c_lits d)"
    using d by (auto simp: tautology_def)
  have "r = lit_Undef \<longleftrightarrow> ?m = []"
    using r m c(3) by (auto split: list.splits if_splits simp: lit_Undef_def lit_Error_def)
  moreover have "r = p \<longleftrightarrow> ?m = [p] \<and> neg_lit p \<in> set (c_lits d)"
    using r p by (auto split: list.splits if_splits)
  ultimately show ?thesis
    using missing_single [OF c(1), of "c_lits d" p] dist by (auto simp: missing_Nil)
qed

text \<open>C27: \<open>Clause::subsumes\<close> decides subsumption and subsumption resolution.  For clauses whose
  stored abstraction is up to date, which hold no duplicate, complementary or undefined literal,
  the result is \<open>lit_Undef\<close> exactly when every literal of the clause is in \<open>other\<close>, and an
  ordinary literal \<open>p\<close> exactly when \<open>p\<close> is in the clause, its negation is in \<open>other\<close>, and every
  other literal of the clause is in \<open>other\<close>: the size and 32-bit abstraction filters never lose
  an answer.\<close>

theorem subsumes_correct:
  assumes abs: "c_abs c = lits_abstraction (c_lits c)" "c_abs d = lits_abstraction (c_lits d)"
    and c: "distinct (c_lits c)" "\<not> tautology (c_lits c)"
           "lit_Undef \<notin> set (c_lits c)" "lit_Error \<notin> set (c_lits c)"
    and d: "\<not> tautology (c_lits d)"
    and r: "subsumes c d = Some r"
    and p: "p \<noteq> lit_Undef" "p \<noteq> lit_Error"
  shows "(r = lit_Undef \<longleftrightarrow> set (c_lits c) \<subseteq> set (c_lits d)) \<and>
         (r = p \<longleftrightarrow> p \<in> set (c_lits c) \<and> neg_lit p \<in> set (c_lits d) \<and>
                     set (c_lits c) - {p} \<subseteq> set (c_lits d))"
  by (rule subsumes_decides [OF assms])

theorem subsumes_correct_witness:
  "subsumes (new_clause [mkLit 1 False, mkLit 2 True] True False)
            (new_clause [mkLit 1 True, mkLit 3 False, mkLit 2 True] True False)
     = Some (mkLit 1 False) \<and>
   set [mkLit 1 False, mkLit 2 True] - {mkLit 1 False} \<subseteq> set [mkLit 1 True, mkLit 3 False, mkLit 2 True]"
proof -
  let ?c = "new_clause [mkLit 1 False, mkLit 2 True] True False"
  let ?d = "new_clause [mkLit 1 True, mkLit 3 False, mkLit 2 True] True False"
  have s: "subsumes ?c ?d = Some (mkLit 1 False)" by code_simp
  have "(mkLit 1 False = lit_Undef \<longleftrightarrow> set (c_lits ?c) \<subseteq> set (c_lits ?d)) \<and>
     (mkLit 1 False = mkLit 1 False \<longleftrightarrow> mkLit 1 False \<in> set (c_lits ?c) \<and>
       neg_lit (mkLit 1 False) \<in> set (c_lits ?d) \<and> set (c_lits ?c) - {mkLit 1 False} \<subseteq> set (c_lits ?d))"
    by (rule subsumes_correct [OF _ _ _ _ _ _ _ s])
      (auto simp: new_clause_def tautology_def lit_eq_iff)
  with s show ?thesis by (simp add: new_clause_def)
qed

text \<open>C28: strengthening is sound.  When \<open>subsumes\<close> returns a literal \<open>p\<close>, the clause that
  \<open>strengthen\<close> leaves after removing the negation of \<open>p\<close> from \<open>other\<close> is, in the presence of the
  subsuming clause, equivalent to the original one under every assignment, and its abstraction is
  up to date again.\<close>

theorem strengthen_sound:
  assumes abs: "c_abs c = lits_abstraction (c_lits c)" "c_abs d = lits_abstraction (c_lits d)"
    and c: "distinct (c_lits c)" "\<not> tautology (c_lits c)"
           "lit_Undef \<notin> set (c_lits c)" "lit_Error \<notin> set (c_lits c)"
    and d: "\<not> tautology (c_lits d)" "distinct (c_lits d)"
    and r: "subsumes c d = Some p" "p \<noteq> lit_Undef" "p \<noteq> lit_Error"
    and sat: "clause_sat \<sigma> (c_lits c)"
  shows "\<exists>d'. strengthen (neg_lit p) d = Some d' \<and>
    c_abs d' = lits_abstraction (c_lits d') \<and> length (c_lits d') = length (c_lits d) - 1 \<and>
    (clause_sat \<sigma> (c_lits d') \<longleftrightarrow> clause_sat \<sigma> (c_lits d))"
proof -
  have p: "p \<in> set (c_lits c)" "neg_lit p \<in> set (c_lits d)" "set (c_lits c) - {p} \<subseteq> set (c_lits d)"
    using subsumes_decides [OF abs c d(1) r(1) r(2,3)] by auto
  have e: "c_has_extra d" using r(1) by (auto simp: subsumes_def Option.bind_eq_Some_conv)
  let ?ls = "remove1 (neg_lit p) (c_lits d)"
  let ?d' = "d\<lparr>c_lits := ?ls, c_abs := lits_abstraction ?ls\<rparr>"
  have "strengthen (neg_lit p) d = Some ?d'"
    using p(2) e by (simp add: strengthen_def vec_remove_eq calcAbstraction_def)
  moreover have "clause_sat \<sigma> ?ls \<longleftrightarrow> clause_sat \<sigma> (c_lits d)"
  proof
    assume "clause_sat \<sigma> (c_lits d)"
    then obtain l where l: "l \<in> set (c_lits d)" "lit_val \<sigma> l" by (auto simp: clause_sat_def)
    show "clause_sat \<sigma> ?ls"
    proof (cases "l = neg_lit p")
      case True
      obtain k where k: "k \<in> set (c_lits c)" "lit_val \<sigma> k" using sat by (auto simp: clause_sat_def)
      with True l have "k \<noteq> p" by auto
      moreover have "k \<noteq> neg_lit p" using k(1) p(1) c(2) by (auto simp: tautology_def)
      ultimately have "k \<in> set ?ls" using k(1) p(3) d(2) by auto
      with k(2) show ?thesis by (auto simp: clause_sat_def)
    next
      case False
      with l d(2) show ?thesis by (auto simp: clause_sat_def)
    qed
  qed (auto simp: clause_sat_def dest: notin_set_remove1 set_remove1_subset [THEN subsetD])
  moreover have "length ?ls = length (c_lits d) - 1"
    using p(2) by (simp add: length_remove1)
  ultimately show ?thesis by auto
qed

theorem strengthen_sound_witness:
  "\<exists>d'. strengthen (Lit 2) (new_clause [Lit 2, Lit 4, Lit 6] True False) = Some d' \<and>
     length (c_lits d') = 2 \<and> (clause_sat (\<lambda>_. True) (c_lits d') \<longleftrightarrow>
       clause_sat (\<lambda>_. True) (c_lits (new_clause [Lit 2, Lit 4, Lit 6] True False)))"
proof -
  let ?c = "new_clause [Lit 3, Lit 4] True False" and ?d = "new_clause [Lit 2, Lit 4, Lit 6] True False"
  have lits: "c_lits ?c = [Lit 3, Lit 4]" "c_lits ?d = [Lit 2, Lit 4, Lit 6]" by (simp_all add: new_clause_def)
  have "subsumes ?c ?d = Some (Lit 3)" "\<not> tautology (c_lits ?c)" "\<not> tautology (c_lits ?d)" "neg_lit (Lit 3) = Lit 2"
    by code_simp+
  moreover have "clause_sat (\<lambda>_. True) (c_lits ?c)" by (simp add: lits clause_sat_def lit_val_def sign_lit_odd)
  ultimately have "\<exists>d'. strengthen (neg_lit (Lit 3)) ?d = Some d' \<and> c_abs d' = lits_abstraction (c_lits d') \<and>
      length (c_lits d') = length (c_lits ?d) - 1 \<and>
      (clause_sat (\<lambda>_. True) (c_lits d') \<longleftrightarrow> clause_sat (\<lambda>_. True) (c_lits ?d))"
    by (intro strengthen_sound [of ?c ?d]) (simp_all add: new_clause_def lit_Undef_def lit_Error_def)
  then show ?thesis using \<open>neg_lit (Lit 3) = Lit 2\<close> lits by auto
qed

end
