(* ===== verification/Sorts.thy ===== *)
theory Sorts
  imports Prelude
begin

text \<open>
  \<open>mtl/Sort.h\<close>: selection sort for at most 15 elements and, above that, a quicksort with Hoare's
  partition.  The comparator is a parameter, as in the template.  The array reads of the partition
  scans are checked (\<open>None\<close> is a read outside the array) and the recursion runs on fuel; for a
  comparator that is a strict weak order neither is ever exhausted.
\<close>

subsection \<open>Selection sort\<close>

fun best_index :: "('a \<Rightarrow> 'a \<Rightarrow> bool) \<Rightarrow> 'a list \<Rightarrow> nat \<Rightarrow> nat list \<Rightarrow> nat" where
  "best_index lt xs b [] = b"
| "best_index lt xs b (j # js) = best_index lt xs (if lt (xs ! j) (xs ! b) then j else b) js"

fun selection_from :: "('a \<Rightarrow> 'a \<Rightarrow> bool) \<Rightarrow> nat list \<Rightarrow> 'a list \<Rightarrow> 'a list" where
  "selection_from lt [] xs = xs"
| "selection_from lt (i # is) xs =
     selection_from lt is (list_swap xs i (best_index lt xs i [Suc i..<length xs]))"

definition selectionSort :: "('a \<Rightarrow> 'a \<Rightarrow> bool) \<Rightarrow> 'a list \<Rightarrow> 'a list" where
  "selectionSort lt xs = selection_from lt [0..<length xs - 1] xs"

subsection \<open>Quicksort\<close>

text \<open>\<open>do i++; while (lt(array[i], pivot))\<close>, with \<open>i\<close> the first index read.\<close>

function scan_up :: "('a \<Rightarrow> 'a \<Rightarrow> bool) \<Rightarrow> 'a list \<Rightarrow> 'a \<Rightarrow> nat \<Rightarrow> nat option" where
  "scan_up lt xs pv i =
     (if i < length xs then (if lt (xs ! i) pv then scan_up lt xs pv (Suc i) else Some i) else None)"
  by pat_completeness auto
termination
  by (relation "measure (\<lambda>(lt, xs, pv, i). length xs - i)") auto

text \<open>\<open>do j--; while (lt(pivot, array[j]))\<close>, with \<open>j\<close> one above the first index read.\<close>

fun scan_down :: "('a \<Rightarrow> 'a \<Rightarrow> bool) \<Rightarrow> 'a list \<Rightarrow> 'a \<Rightarrow> nat \<Rightarrow> nat option" where
  "scan_down lt xs pv 0 = None"
| "scan_down lt xs pv (Suc j) =
     (if j < length xs then (if lt pv (xs ! j) then scan_down lt xs pv j else Some j) else None)"

declare scan_up.simps [simp del]

lemma scan_down_less: "scan_down lt xs pv j = Some j' \<Longrightarrow> j' < j"
proof (induction j)
  case (Suc j)
  then show ?case by (auto split: if_splits)
qed simp

function hoare_partition ::
  "('a \<Rightarrow> 'a \<Rightarrow> bool) \<Rightarrow> 'a \<Rightarrow> 'a list \<Rightarrow> nat \<Rightarrow> nat \<Rightarrow> (nat \<times> 'a list) option" where
  "hoare_partition lt pv xs i j =
     (case scan_up lt xs pv i of
        None \<Rightarrow> None
      | Some i' \<Rightarrow>
          (case scan_down lt xs pv j of
             None \<Rightarrow> None
           | Some j' \<Rightarrow>
               if j' \<le> i' then Some (i', xs)
               else hoare_partition lt pv (list_swap xs i' j') (Suc i') j'))"
  by pat_completeness auto
termination
  by (relation "measure (\<lambda>(lt, pv, xs, i, j). j)") (auto dest: scan_down_less)

declare hoare_partition.simps [simp del]

fun sort_fuel :: "nat \<Rightarrow> ('a \<Rightarrow> 'a \<Rightarrow> bool) \<Rightarrow> 'a list \<Rightarrow> 'a list option" where
  "sort_fuel 0 lt xs = None"
| "sort_fuel (Suc n) lt xs =
     (if length xs \<le> 15 then Some (selectionSort lt xs)
      else do {
        (i, ys) \<leftarrow> hoare_partition lt (xs ! (length xs div 2)) xs 0 (length xs);
        zs \<leftarrow> sort_fuel n lt (take i ys);
        ws \<leftarrow> sort_fuel n lt (drop i ys);
        Some (zs @ ws) })"

definition vec_sort :: "('a \<Rightarrow> 'a \<Rightarrow> bool) \<Rightarrow> 'a list \<Rightarrow> 'a list option" where
  "vec_sort lt xs = sort_fuel (Suc (length xs)) lt xs"

subsection \<open>Strict weak orders\<close>

definition weak_order :: "('a \<Rightarrow> 'a \<Rightarrow> bool) \<Rightarrow> bool" where
  "weak_order lt \<longleftrightarrow> (\<forall>x. \<not> lt x x) \<and> (\<forall>x y z. lt x y \<longrightarrow> lt y z \<longrightarrow> lt x z) \<and>
     (\<forall>x y z. \<not> lt x y \<longrightarrow> \<not> lt y z \<longrightarrow> \<not> lt x z)"

lemma weak_orderD:
  assumes "weak_order lt"
  shows "\<not> lt x x" "lt x y \<Longrightarrow> lt y z \<Longrightarrow> lt x z" "\<not> lt x y \<Longrightarrow> \<not> lt y z \<Longrightarrow> \<not> lt x z"
    "lt x y \<Longrightarrow> \<not> lt y x"
  using assms unfolding weak_order_def by blast+

lemma weak_order_less: "weak_order ((<) :: 'a::linorder \<Rightarrow> 'a \<Rightarrow> bool)"
  by (auto simp: weak_order_def)

lemma weak_order_key: "weak_order (\<lambda>x y. (f x :: 'b::linorder) < f y)"
  by (auto simp: weak_order_def)

abbreviation sorted_by :: "('a \<Rightarrow> 'a \<Rightarrow> bool) \<Rightarrow> 'a list \<Rightarrow> bool" where
  "sorted_by lt \<equiv> sorted_wrt (\<lambda>x y. \<not> lt y x)"

lemma best_index_spec:
  assumes "weak_order lt" "b < n" "set js \<subseteq> {..<n}" "b \<in> I" "set js \<subseteq> I"
  shows "best_index lt xs b js < n \<and> best_index lt xs b js \<in> I \<and>
         \<not> lt (xs ! b) (xs ! best_index lt xs b js) \<and>
         (\<forall>j\<in>set js. \<not> lt (xs ! j) (xs ! best_index lt xs b js))"
  using assms(2-5)
proof (induction js arbitrary: b)
  case Nil
  then show ?case using weak_orderD(1) [OF assms(1)] by simp
next
  case (Cons j js)
  let ?b = "if lt (xs ! j) (xs ! b) then j else b"
  let ?r = "best_index lt xs ?b js"
  have b: "\<not> lt (xs ! b) (xs ! ?b)" "\<not> lt (xs ! j) (xs ! ?b)"
    using weak_orderD(1,4) [OF assms(1)] by auto
  have r: "?r < n \<and> ?r \<in> I \<and> \<not> lt (xs ! ?b) (xs ! ?r) \<and> (\<forall>j\<in>set js. \<not> lt (xs ! j) (xs ! ?r))"
    by (rule Cons.IH) (use Cons.prems in auto)
  have "\<not> lt (xs ! b) (xs ! ?r)" "\<not> lt (xs ! j) (xs ! ?r)"
    using weak_orderD(3) [OF assms(1)] b r by blast+
  with r show ?case by simp
qed

lemma selection_step:
  assumes "weak_order lt" "i < length xs" "i \<le> k" "k < length xs"
  defines "ys \<equiv> list_swap xs i (best_index lt xs i [Suc i..<length xs])"
  shows "\<not> lt (ys ! k) (ys ! i)" "mset ys = mset xs" "length ys = length xs"
    and "m < i \<Longrightarrow> ys ! m = xs ! m"
    and "\<exists>k'. i \<le> k' \<and> k' < length xs \<and> ys ! k = xs ! k'"
proof -
  let ?b = "best_index lt xs i [Suc i..<length xs]"
  have b: "?b < length xs \<and> ?b \<in> {i..} \<and> \<not> lt (xs ! i) (xs ! ?b) \<and>
      (\<forall>j\<in>set [Suc i..<length xs]. \<not> lt (xs ! j) (xs ! ?b))"
    by (rule best_index_spec [OF assms(1)]) (use assms(2) in auto)
  then show k': "\<exists>k'. i \<le> k' \<and> k' < length xs \<and> ys ! k = xs ! k'"
    using assms(2-4) by (auto simp: ys_def nth_list_swap)
  have min: "\<not> lt (xs ! k') (xs ! ?b)" if "i \<le> k'" "k' < length xs" for k'
    using b that by (cases "k' = i") auto
  have "ys ! i = xs ! ?b" using b assms(2) by (simp add: ys_def nth_list_swap)
  then show "\<not> lt (ys ! k) (ys ! i)" using k' min by metis
  show "mset ys = mset xs" "length ys = length xs"
    using b assms(2) by (simp_all add: ys_def)
  show "m < i \<Longrightarrow> ys ! m = xs ! m" using b assms(2) by (auto simp: ys_def nth_list_swap)
qed

lemma selection_from_spec:
  assumes "weak_order lt" "i \<le> length xs - 1"
    "\<forall>a b. a < i \<longrightarrow> a < b \<longrightarrow> b < length xs \<longrightarrow> \<not> lt (xs ! b) (xs ! a)"
  shows "mset (selection_from lt [i..<length xs - 1] xs) = mset xs \<and>
         sorted_by lt (selection_from lt [i..<length xs - 1] xs)"
  using assms(2,3)
proof (induction "length xs - 1 - i" arbitrary: i xs)
  case 0
  then have "i = length xs - 1" by simp
  with 0 have "sorted_by lt xs" by (auto simp: sorted_wrt_iff_nth_less)
  with \<open>i = length xs - 1\<close> show ?case by simp
next
  case (Suc d)
  then have i: "i < length xs - 1" by simp
  let ?ys = "list_swap xs i (best_index lt xs i [Suc i..<length xs])"
  have st: "mset ?ys = mset xs" "length ?ys = length xs"
    using selection_step [OF assms(1), of i xs i] i by auto
  have "\<not> lt (?ys ! b) (?ys ! a)" if "a < Suc i" "a < b" "b < length ?ys" for a b
  proof (cases "a = i")
    case True
    then show ?thesis using selection_step(1) [OF assms(1), of i xs b] i that st by auto
  next
    case False
    then have a: "a < i" "?ys ! a = xs ! a"
      using selection_step(4) [OF assms(1), of i xs i a] i that by auto
    show ?thesis
    proof (cases "b < i")
      case True
      then have "?ys ! b = xs ! b" using selection_step(4) [OF assms(1), of i xs i b] i by auto
      then show ?thesis using a that st Suc.prems(2) by simp
    next
      case False
      have "b < length xs" using that(3) by simp
      then obtain k where "i \<le> k" "k < length xs" "?ys ! b = xs ! k"
        using selection_step(5) [OF assms(1), of i xs b] i False by auto
      then show ?thesis using a Suc.prems(2) by simp
    qed
  qed
  then have "mset (selection_from lt [Suc i..<length ?ys - 1] ?ys) = mset ?ys \<and>
      sorted_by lt (selection_from lt [Suc i..<length ?ys - 1] ?ys)"
    by (intro Suc.hyps(1)) (use Suc.hyps(2) i st in auto)
  then show ?case using i st by (simp add: upt_rec [of i])
qed

lemma selectionSort_spec:
  assumes "weak_order lt"
  shows "mset (selectionSort lt xs) = mset xs \<and> sorted_by lt (selectionSort lt xs)"
  using selection_from_spec [OF assms, of 0 xs] by (simp add: selectionSort_def)

subsection \<open>The partition\<close>

lemma scan_up_spec:
  assumes "i \<le> m" "m < length xs" "\<not> lt (xs ! m) pv"
  shows "\<exists>i'. scan_up lt xs pv i = Some i' \<and> i \<le> i' \<and> i' \<le> m \<and> \<not> lt (xs ! i') pv \<and>
           (\<forall>k. i \<le> k \<longrightarrow> k < i' \<longrightarrow> lt (xs ! k) pv)"
  using assms
proof (induction "m - i" arbitrary: i)
  case 0
  then show ?case by (simp add: scan_up.simps [of lt xs pv i])
next
  case (Suc d)
  show ?case
  proof (cases "lt (xs ! i) pv")
    case True
    have "i \<noteq> m" using True Suc.prems by auto
    then have "\<exists>i'. scan_up lt xs pv (Suc i) = Some i' \<and> Suc i \<le> i' \<and> i' \<le> m \<and> \<not> lt (xs ! i') pv \<and>
           (\<forall>k. Suc i \<le> k \<longrightarrow> k < i' \<longrightarrow> lt (xs ! k) pv)"
      by (intro Suc.hyps(1)) (use Suc in auto)
    then show ?thesis using True Suc.prems
      by (auto simp: scan_up.simps [of lt xs pv i]) (metis Suc_leI le_neq_implies_less)
  next
    case False
    then show ?thesis using Suc.prems by (simp add: scan_up.simps [of lt xs pv i])
  qed
qed

lemma scan_down_spec:
  assumes "m < j" "j \<le> length xs" "\<not> lt pv (xs ! m)"
  shows "\<exists>j'. scan_down lt xs pv j = Some j' \<and> m \<le> j' \<and> j' < j \<and> \<not> lt pv (xs ! j') \<and>
           (\<forall>k. j' < k \<longrightarrow> k < j \<longrightarrow> lt pv (xs ! k))"
  using assms
proof (induction j)
  case (Suc j)
  show ?case
  proof (cases "lt pv (xs ! j)")
    case True
    then have "m < j" using Suc.prems by (cases "m = j") auto
    then obtain j' where "scan_down lt xs pv j = Some j'" "m \<le> j'" "j' < j" "\<not> lt pv (xs ! j')"
        "\<forall>k. j' < k \<longrightarrow> k < j \<longrightarrow> lt pv (xs ! k)"
      using Suc by auto
    then show ?thesis using True Suc.prems by (auto simp: less_Suc_eq)
  next
    case False
    then show ?thesis using Suc.prems by auto
  qed
qed simp

lemma hoare_partition_spec:
  assumes wo: "weak_order lt"
    and "j \<le> length xs"
    and "\<forall>k<i. k < length xs \<longrightarrow> \<not> lt pv (xs ! k)"
    and "\<forall>k. j \<le> k \<longrightarrow> k < length xs \<longrightarrow> \<not> lt (xs ! k) pv"
    and "\<exists>m. i \<le> m \<and> m < length xs \<and> \<not> lt (xs ! m) pv"
    and "\<exists>m. m < j \<and> \<not> lt pv (xs ! m) \<and> (i = 0 \<longrightarrow> 0 < m)"
  shows "\<exists>i' ys. hoare_partition lt pv xs i j = Some (i', ys) \<and> mset ys = mset xs \<and>
           0 < i' \<and> i' < length xs \<and>
           (\<forall>k<i'. \<not> lt pv (ys ! k)) \<and> (\<forall>k. i' \<le> k \<longrightarrow> k < length xs \<longrightarrow> \<not> lt (ys ! k) pv)"
  using assms(2-)
proof (induction j arbitrary: i xs rule: less_induct)
  case (less j)
  obtain m where m: "i \<le> m" "m < length xs" "\<not> lt (xs ! m) pv" using less.prems(4) by blast
  obtain i' where i': "scan_up lt xs pv i = Some i'" "i \<le> i'" "i' < length xs" "\<not> lt (xs ! i') pv"
      "\<forall>k. i \<le> k \<longrightarrow> k < i' \<longrightarrow> lt (xs ! k) pv"
    using scan_up_spec [of i m xs lt pv, OF m] m(2) by auto
  obtain m' where m': "m' < j" "\<not> lt pv (xs ! m')" "i = 0 \<longrightarrow> 0 < m'" using less.prems(5) by blast
  obtain j' where j': "scan_down lt xs pv j = Some j'" "m' \<le> j'" "j' < j" "\<not> lt pv (xs ! j')"
      "\<forall>k. j' < k \<longrightarrow> k < j \<longrightarrow> lt pv (xs ! k)"
    using scan_down_spec [of m' j xs lt pv] m' less.prems(1) by auto
  have low: "\<not> lt pv (xs ! k)" if "k < i'" for k
  proof (cases "k < i")
    case True
    then show ?thesis using less.prems(2) i'(3) that by auto
  next
    case False
    then show ?thesis using i'(5) that weak_orderD(4) [OF wo] by auto
  qed
  have high: "\<not> lt (xs ! k) pv" if "j' < k" "k < length xs" for k
  proof (cases "k < j")
    case True
    then show ?thesis using j'(5) that weak_orderD(4) [OF wo] by auto
  next
    case False
    then show ?thesis using less.prems(3) that by auto
  qed
  show ?case
  proof (cases "j' \<le> i'")
    case True
    have "0 < i'" using True j'(2) m'(3) i'(2) by (cases "i = 0") auto
    moreover have "\<not> lt (xs ! k) pv" if "i' \<le> k" "k < length xs" for k
      using that high [of k] i'(4) True by (cases "k = i'") auto
    ultimately show ?thesis
      using True i'(1,3) j'(1) low by (simp add: hoare_partition.simps [of lt pv xs i j])
  next
    case False
    let ?ys = "list_swap xs i' j'"
    have lj: "j' < length xs" using j'(3) less.prems(1) by simp
    have nth: "?ys ! k = (if k = i' then xs ! j' else if k = j' then xs ! i' else xs ! k)" for k
      using i'(3) lj by (simp add: nth_list_swap)
    have "\<exists>i'' zs. hoare_partition lt pv ?ys (Suc i') j' = Some (i'', zs) \<and> mset zs = mset ?ys \<and>
           0 < i'' \<and> i'' < length ?ys \<and>
           (\<forall>k<i''. \<not> lt pv (zs ! k)) \<and> (\<forall>k. i'' \<le> k \<longrightarrow> k < length ?ys \<longrightarrow> \<not> lt (zs ! k) pv)"
    proof (rule less.IH [OF j'(3)])
      show "j' \<le> length ?ys" using lj by simp
      show "\<forall>k<Suc i'. k < length ?ys \<longrightarrow> \<not> lt pv (?ys ! k)"
        using low j'(4) False by (auto simp: nth less_Suc_eq)
      show "\<forall>k. j' \<le> k \<longrightarrow> k < length ?ys \<longrightarrow> \<not> lt (?ys ! k) pv"
        using high i'(4) False by (auto simp: nth le_less)
      show "\<exists>m. Suc i' \<le> m \<and> m < length ?ys \<and> \<not> lt (?ys ! m) pv"
        using i'(4) False lj by (intro exI [of _ j']) (simp add: nth)
      show "\<exists>m. m < j' \<and> \<not> lt pv (?ys ! m) \<and> (Suc i' = 0 \<longrightarrow> 0 < m)"
        using j'(4) False by (intro exI [of _ i']) (simp add: nth)
    qed
    then show ?thesis
      using False i' j'(1) lj by (auto simp: hoare_partition.simps [of lt pv xs i j])
  qed
qed

subsection \<open>The sort\<close>

lemma sorted_by_append:
  assumes "sorted_by lt xs" "sorted_by lt ys" "weak_order lt"
    "\<forall>x\<in>set xs. \<not> lt pv x" "\<forall>y\<in>set ys. \<not> lt y pv"
  shows "sorted_by lt (xs @ ys)"
  using assms weak_orderD(3) [OF assms(3)] by (auto simp: sorted_wrt_append)

lemma sort_fuel_spec:
  assumes wo: "weak_order lt"
  shows "length xs < n \<Longrightarrow>
    \<exists>ys. sort_fuel n lt xs = Some ys \<and> mset ys = mset xs \<and> sorted_by lt ys"
proof (induction n arbitrary: xs)
  case (Suc n)
  show ?case
  proof (cases "length xs \<le> 15")
    case True
    then show ?thesis using selectionSort_spec [OF wo, of xs] by simp
  next
    case False
    let ?pv = "xs ! (length xs div 2)"
    have irr: "\<not> lt ?pv ?pv" by (rule weak_orderD(1) [OF wo])
    have half: "0 < length xs div 2" "length xs div 2 < length xs" using False by auto
    have "\<exists>i' ys. hoare_partition lt ?pv xs 0 (length xs) = Some (i', ys) \<and> mset ys = mset xs \<and>
           0 < i' \<and> i' < length xs \<and> (\<forall>k<i'. \<not> lt ?pv (ys ! k)) \<and>
           (\<forall>k. i' \<le> k \<longrightarrow> k < length xs \<longrightarrow> \<not> lt (ys ! k) ?pv)"
      by (rule hoare_partition_spec [OF wo])
        (use irr half in \<open>auto intro: exI [of _ "length xs div 2"]\<close>)
    then obtain i ys where p: "hoare_partition lt ?pv xs 0 (length xs) = Some (i, ys)" "mset ys = mset xs"
        "0 < i" "i < length xs" "\<forall>k<i. \<not> lt ?pv (ys ! k)"
        "\<forall>k. i \<le> k \<longrightarrow> k < length xs \<longrightarrow> \<not> lt (ys ! k) ?pv"
      by blast
    have l: "length ys = length xs" using p(2) mset_eq_length by blast
    obtain zs where z: "sort_fuel n lt (take i ys) = Some zs" "mset zs = mset (take i ys)" "sorted_by lt zs"
      using Suc.IH [of "take i ys"] Suc.prems p(4) l by auto
    obtain ws where w: "sort_fuel n lt (drop i ys) = Some ws" "mset ws = mset (drop i ys)" "sorted_by lt ws"
      using Suc.IH [of "drop i ys"] diff_less_mono2 [OF p(3), of "length xs"] Suc.prems p(3,4) l
      by fastforce
    have "set zs = set (take i ys)" "set ws = set (drop i ys)"
      using z(2) w(2) mset_eq_setD by blast+
    then have "\<forall>x\<in>set zs. \<not> lt ?pv x" "\<forall>y\<in>set ws. \<not> lt y ?pv"
      using p(5,6) l by (auto simp: in_set_conv_nth)
    then have "sorted_by lt (zs @ ws)" using sorted_by_append [OF z(3) w(3) wo] by blast
    moreover have "mset (zs @ ws) = mset xs"
      using z(2) w(2) p(2) by (metis append_take_drop_id mset_append)
    ultimately show ?thesis using False p(1) z(1) w(1) by simp
  qed
qed simp

text \<open>C25: \<open>sort\<close> of \<open>mtl/Sort.h\<close> sorts.  For every comparator that is a strict weak order the
  quicksort with Hoare's partition and the selection sort below 16 elements terminate without
  reading outside the array, and leave a permutation of the array in which no element is
  followed by a smaller one.\<close>

theorem vec_sort_correct:
  assumes "weak_order lt"
  shows "\<exists>ys. vec_sort lt xs = Some ys \<and> mset ys = mset xs \<and> sorted_wrt (\<lambda>x y. \<not> lt y x) ys"
  unfolding vec_sort_def by (rule sort_fuel_spec [OF assms]) simp

theorem vec_sort_correct_witness:
  "\<exists>ys. vec_sort (<) [9, 3, 7, 1, 8, 2, 6, 4, 5, 0, 19, 13, 17, 11, 18, 12, 16, 14, 15, 10 :: nat] = Some ys
      \<and> mset ys = mset [9, 3, 7, 1, 8, 2, 6, 4, 5, 0, 19, 13, 17, 11, 18, 12, 16, 14, 15, 10]
      \<and> sorted_wrt (\<lambda>x y. \<not> y < x) ys"
  by (rule vec_sort_correct [OF weak_order_less])

lemma vec_sort_linorder: "vec_sort (<) xs = Some (sort (xs :: 'a::linorder list))"
proof -
  obtain ys where ys: "vec_sort (<) xs = Some ys" "mset ys = mset xs" "sorted_by (<) ys"
    using sort_fuel_spec [OF weak_order_less, of xs "Suc (length xs)"] by (auto simp: vec_sort_def)
  then have "sorted ys" by (simp add: not_less)
  then have "sort xs = ys" by (rule properties_for_sort [OF ys(2)])
  then show ?thesis using ys(1) by simp
qed

end
