(* ===== verification/Occurrences.thy ===== *)
theory Occurrences
  imports Prelude
begin

text \<open>
  \<open>OccLists\<close> of \<open>core/SolverTypes.h\<close>: occurrence lists (the watch lists of the solver) with lazy
  deletion.  An index is marked dirty (\<open>smudge\<close>) when an element of its list is deleted, and its
  list is only cleaned when it is looked up or when all dirty lists are cleaned.  Indices are the
  natural numbers \<open>toInt\<close> yields; \<open>deleted\<close> is the class's predicate parameter.
\<close>

record 'e occlists =
  occs :: "'e list list"
  dirty :: "bool list"
  dirties :: "nat list"

definition grow_to :: "nat \<Rightarrow> 'a \<Rightarrow> 'a list \<Rightarrow> 'a list" where
  "grow_to n pad xs = xs @ replicate (n - length xs) pad"

definition occ_init :: "nat \<Rightarrow> 'e occlists \<Rightarrow> 'e occlists" where
  "occ_init i ol = (let os = grow_to (i + 1) [] (occs ol) in
     ol\<lparr>occs := os[i := []], dirty := grow_to (i + 1) False (dirty ol)\<rparr>)"

definition occ_at :: "'e occlists \<Rightarrow> nat \<Rightarrow> 'e list" where
  "occ_at ol i = occs ol ! i"

definition occ_push :: "nat \<Rightarrow> 'e \<Rightarrow> 'e occlists \<Rightarrow> 'e occlists" where
  "occ_push i e ol = ol\<lparr>occs := (occs ol)[i := occ_at ol i @ [e]]\<rparr>"

definition occ_set :: "nat \<Rightarrow> 'e list \<Rightarrow> 'e occlists \<Rightarrow> 'e occlists" where
  "occ_set i es ol = ol\<lparr>occs := (occs ol)[i := es]\<rparr>"

text \<open>The compaction loop of \<open>clean\<close>: keep what is not deleted, shrink by the rest.\<close>

fun compact :: "('e \<Rightarrow> bool) \<Rightarrow> 'e list \<Rightarrow> 'e list \<Rightarrow> 'e list" where
  "compact deleted kept [] = kept"
| "compact deleted kept (e # es) =
     (if \<not> deleted e then compact deleted (kept @ [e]) es else compact deleted kept es)"

definition occ_clean :: "('e \<Rightarrow> bool) \<Rightarrow> nat \<Rightarrow> 'e occlists \<Rightarrow> 'e occlists" where
  "occ_clean deleted i ol =
     ol\<lparr>occs := (occs ol)[i := compact deleted [] (occ_at ol i)], dirty := (dirty ol)[i := False]\<rparr>"

definition occ_lookup :: "('e \<Rightarrow> bool) \<Rightarrow> nat \<Rightarrow> 'e occlists \<Rightarrow> 'e list \<times> 'e occlists" where
  "occ_lookup deleted i ol =
     (let ol' = (if dirty ol ! i then occ_clean deleted i ol else ol) in (occ_at ol' i, ol'))"

definition occ_smudge :: "nat \<Rightarrow> 'e occlists \<Rightarrow> 'e occlists" where
  "occ_smudge i ol =
     (if \<not> dirty ol ! i then ol\<lparr>dirty := (dirty ol)[i := True], dirties := dirties ol @ [i]\<rparr> else ol)"

fun clean_each :: "('e \<Rightarrow> bool) \<Rightarrow> nat list \<Rightarrow> 'e occlists \<Rightarrow> 'e occlists" where
  "clean_each deleted [] ol = ol"
| "clean_each deleted (i # is) ol =
     clean_each deleted is (if dirty ol ! i then occ_clean deleted i ol else ol)"

definition occ_cleanAll :: "('e \<Rightarrow> bool) \<Rightarrow> 'e occlists \<Rightarrow> 'e occlists" where
  "occ_cleanAll deleted ol = (clean_each deleted (dirties ol) ol)\<lparr>dirties := []\<rparr>"

definition occ_clear :: "'e occlists \<Rightarrow> 'e occlists" where
  "occ_clear ol = \<lparr>occs = [], dirty = [], dirties = []\<rparr>"

subsection \<open>Invariant\<close>

text \<open>
  Both vectors have the same length, every dirty index is queued in \<open>dirties\<close>, and a list that
  holds a deleted element is dirty.  The last part depends on \<open>deleted\<close>: the client must smudge
  the lists of what it deletes.
\<close>

definition occ_wf :: "'e occlists \<Rightarrow> bool" where
  "occ_wf ol \<longleftrightarrow> length (dirty ol) = length (occs ol) \<and> set (dirties ol) \<subseteq> {..<length (occs ol)} \<and>
     (\<forall>i<length (occs ol). dirty ol ! i \<longrightarrow> i \<in> set (dirties ol))"

definition occ_covered :: "('e \<Rightarrow> bool) \<Rightarrow> 'e occlists \<Rightarrow> bool" where
  "occ_covered deleted ol \<longleftrightarrow>
     (\<forall>i<length (occs ol). \<not> dirty ol ! i \<longrightarrow> (\<forall>e\<in>set (occs ol ! i). \<not> deleted e))"

lemma length_grow_to [simp]: "length (grow_to n p xs) = max n (length xs)"
  by (simp add: grow_to_def max_def)

lemma nth_grow_to:
  "i < max n (length xs) \<Longrightarrow> grow_to n p xs ! i = (if i < length xs then xs ! i else p)"
  by (simp add: grow_to_def nth_append)

lemma compact_filter: "compact deleted kept es = kept @ filter (\<lambda>e. \<not> deleted e) es"
  by (induction es arbitrary: kept) auto

lemma occ_wf_empty [wf_intros]: "occ_wf (occ_clear ol)"
  by (simp add: occ_wf_def occ_clear_def)

lemma length_occ_simps [simp]:
  "length (occs (occ_push i e ol)) = length (occs ol)"
  "length (occs (occ_set i es ol)) = length (occs ol)"
  "length (occs (occ_clean D i ol)) = length (occs ol)"
  "length (occs (occ_smudge i ol)) = length (occs ol)"
  "length (occs (occ_init i ol)) = max (i + 1) (length (occs ol))"
  by (simp_all add: occ_push_def occ_set_def occ_clean_def occ_smudge_def occ_init_def Let_def)

lemma occ_wf_init [wf_intros]: "occ_wf ol \<Longrightarrow> occ_wf (occ_init i ol)"
  by (fastforce simp: occ_wf_def occ_init_def Let_def nth_grow_to less_max_iff_disj)

lemma occ_wf_update [wf_intros]:
  "occ_wf ol \<Longrightarrow> occ_wf (occ_push i e ol)"
  "occ_wf ol \<Longrightarrow> occ_wf (occ_set i es ol)"
  by (simp_all add: occ_wf_def occ_push_def occ_set_def)

lemma occ_wf_smudge [wf_intros]: "occ_wf ol \<Longrightarrow> i < length (occs ol) \<Longrightarrow> occ_wf (occ_smudge i ol)"
  by (auto simp: occ_wf_def occ_smudge_def nth_list_update)

lemma occ_wf_clean [wf_intros]: "occ_wf ol \<Longrightarrow> occ_wf (occ_clean D i ol)"
  by (auto simp: occ_wf_def occ_clean_def nth_update split: if_splits)

lemma occs_init:
  "j < max (i + 1) (length (occs ol)) \<Longrightarrow>
   occs (occ_init i ol) ! j = (if j < length (occs ol) \<and> j \<noteq> i then occs ol ! j else [])"
  by (auto simp: occ_init_def Let_def nth_list_update nth_grow_to)

lemma occs_clean:
  "j < length (occs ol) \<Longrightarrow> occs (occ_clean D i ol) ! j =
    (if i = j then filter (\<lambda>e. \<not> D e) (occs ol ! j) else occs ol ! j)"
  by (simp add: occ_clean_def occ_at_def compact_filter nth_list_update)

lemma clean_each_spec:
  assumes "length (dirty ol) = length (occs ol)" "set is \<subseteq> {..<length (occs ol)}"
  shows "length (occs (clean_each D is ol)) = length (occs ol) \<and>
    length (dirty (clean_each D is ol)) = length (occs ol) \<and>
    (\<forall>j<length (occs ol).
      (dirty (clean_each D is ol) ! j \<longleftrightarrow> dirty ol ! j \<and> j \<notin> set is) \<and>
      occs (clean_each D is ol) ! j =
        (if dirty ol ! j \<and> j \<in> set is then filter (\<lambda>e. \<not> D e) (occs ol ! j) else occs ol ! j))"
  using assms
proof (induction "is" arbitrary: ol)
  case (Cons i "is")
  let ?ol = "if dirty ol ! i then occ_clean D i ol else ol"
  have "length (dirty ?ol) = length (occs ?ol)" "set is \<subseteq> {..<length (occs ?ol)}"
    and len: "length (occs ?ol) = length (occs ol)"
    using Cons.prems by (simp_all add: occ_clean_def)
  note IH = Cons.IH [OF this(1,2)]
  have d: "dirty ?ol ! j \<longleftrightarrow> dirty ol ! j \<and> j \<noteq> i" if "j < length (occs ol)" for j
    using that Cons.prems by (auto simp: occ_clean_def nth_list_update)
  have o: "occs ?ol ! j = (if dirty ol ! j \<and> j = i then filter (\<lambda>e. \<not> D e) (occs ol ! j) else occs ol ! j)"
    if "j < length (occs ol)" for j
    using that by (auto simp: occs_clean)
  show ?case using IH d o by (auto simp: len)
qed auto

text \<open>Lazy deletion loses nothing.  If every list that holds a deleted element is marked dirty,
  then a lookup returns exactly the elements of the list that are not deleted, in order, and keeps
  the structure's invariant and the marking; and \<open>cleanAll\<close> removes every deleted element from
  every list, keeps the others in order and leaves no index dirty or queued.\<close>

theorem occ_lookup_cleanAll:
  assumes "occ_wf ol" "occ_covered D ol" "i < length (occs ol)"
  shows "fst (occ_lookup D i ol) = filter (\<lambda>e. \<not> D e) (occs ol ! i) \<and>
    occ_wf (snd (occ_lookup D i ol)) \<and> occ_covered D (snd (occ_lookup D i ol)) \<and>
    occs (occ_cleanAll D ol) = map (filter (\<lambda>e. \<not> D e)) (occs ol) \<and>
    occ_wf (occ_cleanAll D ol) \<and> dirties (occ_cleanAll D ol) = [] \<and> True \<notin> set (dirty (occ_cleanAll D ol))"
proof (intro conjI)
  have id: "filter (\<lambda>e. \<not> D e) (occs ol ! j) = occs ol ! j" if "j < length (occs ol)" "\<not> dirty ol ! j" for j
    using assms(2) that by (auto simp: occ_covered_def filter_id_conv)
  show "fst (occ_lookup D i ol) = filter (\<lambda>e. \<not> D e) (occs ol ! i)"
    using id [of i] assms(3) by (simp add: occ_lookup_def Let_def occ_at_def occs_clean)
  show "occ_wf (snd (occ_lookup D i ol))"
    using assms(1) by (simp add: occ_lookup_def Let_def occ_wf_clean)
  show "occ_covered D (snd (occ_lookup D i ol))"
    using assms by (auto simp: occ_lookup_def Let_def occ_covered_def occs_clean)
      (auto simp: occ_clean_def occ_wf_def nth_list_update split: if_splits)
  have len: "length (dirty ol) = length (occs ol)" "set (dirties ol) \<subseteq> {..<length (occs ol)}"
    using assms(1) by (simp_all add: occ_wf_def)
  note c = clean_each_spec [OF len, of D]
  have q: "dirty ol ! j \<Longrightarrow> j \<in> set (dirties ol)" if "j < length (occs ol)" for j
    using assms(1) that by (simp add: occ_wf_def)
  show "occs (occ_cleanAll D ol) = map (filter (\<lambda>e. \<not> D e)) (occs ol)"
    by (rule nth_equalityI) (use c q id in \<open>auto simp: occ_cleanAll_def\<close>)
  show "occ_wf (occ_cleanAll D ol)"
    using c q by (auto simp: occ_cleanAll_def occ_wf_def)
  show "dirties (occ_cleanAll D ol) = []" by (simp add: occ_cleanAll_def)
  show "True \<notin> set (dirty (occ_cleanAll D ol))"
    using c q by (auto simp: occ_cleanAll_def in_set_conv_nth)
qed

theorem occ_lookup_cleanAll_witness:
  "fst (occ_lookup even 0 (occ_smudge 0 \<lparr>occs = [[1, 2, 3, 4], [5 :: nat]], dirty = [False, False], dirties = []\<rparr>))
     = [1, 3]"
  using occ_lookup_cleanAll
    [of "occ_smudge 0 \<lparr>occs = [[1, 2, 3, 4], [5 :: nat]], dirty = [False, False], dirties = []\<rparr>" even 0]
  by (simp add: occ_smudge_def occ_wf_def occ_covered_def All_less_Suc)

end
