(* ===== verification/Solver.thy ===== *)
theory Solver
  imports Clauses Sorts Occurrences
begin

text \<open>
  The propositional core of \<open>core/Solver.h\<close> and \<open>core/Solver.cc\<close>: variables, the trail with its
  decision levels, the clause database with two watched literals per clause, unit propagation,
  backtracking and the addition of clauses.  The clause arena is a list and a \<open>CRef\<close> a position in
  it.  The solver has no theory attached; activities, priorities, saved phases and the decision
  heap, which only choose the order of the search, are left out.
\<close>

subsection \<open>State\<close>

record watcher =
  w_cref :: nat
  w_blocker :: lit

record var_data =
  vd_reason :: "nat option"
  vd_level :: nat

record solver =
  sv_assigns :: "lbool list"
  sv_vardata :: "var_data list"
  sv_trail :: "lit list"
  sv_trail_lim :: "nat list"
  sv_qhead :: nat
  sv_ca :: "clause list"
  sv_clauses :: "nat list"
  sv_learnts :: "nat list"
  sv_watches :: "watcher occlists"
  sv_ok :: bool
  sv_free_vars :: "int list"
  sv_to_reenqueue :: "lit list"
  sv_const_true :: lit
  sv_extra_clause_field :: bool

definition new_solver :: "bool \<Rightarrow> solver" where
  "new_solver extra = \<lparr>sv_assigns = [], sv_vardata = [], sv_trail = [], sv_trail_lim = [], sv_qhead = 0,
     sv_ca = [], sv_clauses = [], sv_learnts = [], sv_watches = \<lparr>occs = [], dirty = [], dirties = []\<rparr>, sv_ok = True,
     sv_free_vars = [], sv_to_reenqueue = [], sv_const_true = lit_Undef, sv_extra_clause_field = extra\<rparr>"

definition nVars :: "solver \<Rightarrow> nat" where
  "nVars s = length (sv_vardata s)"

definition decisionLevel :: "solver \<Rightarrow> nat" where
  "decisionLevel s = length (sv_trail_lim s)"

definition value_var :: "solver \<Rightarrow> int \<Rightarrow> lbool" where
  "value_var s x = sv_assigns s ! nat x"

definition value_lit :: "solver \<Rightarrow> lit \<Rightarrow> lbool" where
  "value_lit s p = (if sign_lit p then neg_lbool (value_var s (var p)) else value_var s (var p))"

definition level :: "solver \<Rightarrow> int \<Rightarrow> nat" where
  "level s x = vd_level (sv_vardata s ! nat x)"

definition reason :: "solver \<Rightarrow> int \<Rightarrow> nat option" where
  "reason s x = vd_reason (sv_vardata s ! nat x)"

definition in_range :: "solver \<Rightarrow> lit \<Rightarrow> bool" where
  "in_range s l \<longleftrightarrow> 0 \<le> var l \<and> var l < int (nVars s)"

definition lit_index :: "lit \<Rightarrow> nat" where
  "lit_index l = nat (toInt_lit l)"

subsection \<open>Variables, assignment and backtracking\<close>

definition newVar :: "solver \<Rightarrow> int \<times> solver" where
  "newVar s =
     (let (v, s1) =
        (if sv_free_vars s \<noteq> [] then
           (last (sv_free_vars s), s\<lparr>sv_free_vars := butlast (sv_free_vars s)\<rparr>)
         else
           (int (nVars s),
            s\<lparr>sv_assigns := sv_assigns s @ [LUndef],
              sv_vardata := sv_vardata s @ [\<lparr>vd_reason = None, vd_level = 0\<rparr>]\<rparr>));
        ws = occ_init (lit_index (mkLit v True)) (occ_init (lit_index (mkLit v False)) (sv_watches s1))
      in (v, s1\<lparr>sv_watches := ws,
                sv_assigns := (sv_assigns s1)[nat v := LUndef],
                sv_vardata := (sv_vardata s1)[nat v := \<lparr>vd_reason = None, vd_level = 0\<rparr>]\<rparr>))"

definition uncheckedEnqueue :: "lit \<Rightarrow> nat option \<Rightarrow> solver \<Rightarrow> solver" where
  "uncheckedEnqueue p from s =
     s\<lparr>sv_assigns := (sv_assigns s)[nat (var p) := (if \<not> sign_lit p then LTrue else LFalse)],
       sv_vardata := (sv_vardata s)[nat (var p) := \<lparr>vd_reason = from, vd_level = decisionLevel s\<rparr>],
       sv_trail := sv_trail s @ [p]\<rparr>"

definition newDecisionLevel :: "solver \<Rightarrow> solver" where
  "newDecisionLevel s = s\<lparr>sv_trail_lim := sv_trail_lim s @ [length (sv_trail s)]\<rparr>"

definition enqueue :: "lit \<Rightarrow> nat option \<Rightarrow> solver \<Rightarrow> bool \<times> solver" where
  "enqueue p from s =
     (if value_lit s p \<noteq> LUndef then (value_lit s p \<noteq> LFalse, s)
      else (True, uncheckedEnqueue p from s))"

text \<open>The loop of \<open>cancelUntil\<close> from the end of the trail down: a literal of a kept level that sits
  too high on the trail is queued again, any other one is unassigned.\<close>

fun cancel_loop :: "nat \<Rightarrow> lit list \<Rightarrow> solver \<Rightarrow> solver" where
  "cancel_loop lev [] s = s"
| "cancel_loop lev (l # ls) s =
     cancel_loop lev ls
       (if level s (var l) \<le> lev then s\<lparr>sv_to_reenqueue := sv_to_reenqueue s @ [l]\<rparr>
        else s\<lparr>sv_assigns := (sv_assigns s)[nat (var l) := LUndef]\<rparr>)"

text \<open>The literals queued by the loop go back on the trail, last one first.\<close>

fun reenqueue :: "lit list \<Rightarrow> lit list \<Rightarrow> lit list" where
  "reenqueue trail [] = trail"
| "reenqueue trail (p # ps) = reenqueue trail ps @ [p]"

definition cancelUntil :: "nat \<Rightarrow> solver \<Rightarrow> solver" where
  "cancelUntil lev s =
     (if decisionLevel s > lev then
        let n = sv_trail_lim s ! lev;
            s1 = cancel_loop lev (rev (drop n (sv_trail s))) s
        in s1\<lparr>sv_qhead := n, sv_trail := reenqueue (take n (sv_trail s1)) (sv_to_reenqueue s1),
              sv_trail_lim := take lev (sv_trail_lim s1), sv_to_reenqueue := []\<rparr>
      else s)"

subsection \<open>Unit propagation\<close>

text \<open>The search for a new watch: the first literal from position 2 on that is not false.\<close>

definition find_new_watch :: "solver \<Rightarrow> lit list \<Rightarrow> nat option" where
  "find_new_watch s ls = List.find (\<lambda>k. value_lit s (ls ! k) \<noteq> LFalse) [2..<length ls]"

definition swap_watch :: "lit \<Rightarrow> lit list \<Rightarrow> lit list" where
  "swap_watch false_lit ls = (if ls ! 0 = false_lit then ls[0 := ls ! 1, 1 := false_lit] else ls)"

definition set_lits :: "nat \<Rightarrow> lit list \<Rightarrow> solver \<Rightarrow> solver" where
  "set_lits cr ls s = s\<lparr>sv_ca := (sv_ca s)[cr := (sv_ca s ! cr)\<lparr>c_lits := ls\<rparr>]\<rparr>"

definition push_watch :: "lit \<Rightarrow> watcher \<Rightarrow> solver \<Rightarrow> solver" where
  "push_watch p w s = s\<lparr>sv_watches := occ_push (lit_index p) w (sv_watches s)\<rparr>"

text \<open>
  The inner loop over the watch list of \<open>p\<close>: \<open>kept\<close> is what lies before the pointer \<open>j\<close>, the other
  list what the pointer \<open>i\<close> has not reached.  The result is the new watch list, the conflicting
  clause if there is one, and the state.
\<close>

fun prop_loop :: "lit \<Rightarrow> watcher list \<Rightarrow> watcher list \<Rightarrow> solver \<Rightarrow> watcher list \<times> nat option \<times> solver" where
  "prop_loop p [] kept s = (kept, None, s)"
| "prop_loop p (w # ws) kept s =
     (if value_lit s (w_blocker w) = LTrue then prop_loop p ws (kept @ [w]) s
      else
        let cr = w_cref w; false_lit = neg_lit p;
            ls = swap_watch false_lit (c_lits (sv_ca s ! cr));
            s1 = set_lits cr ls s;
            first = ls ! 0;
            w' = \<lparr>w_cref = cr, w_blocker = first\<rparr>
        in if first \<noteq> w_blocker w \<and> value_lit s1 first = LTrue then prop_loop p ws (kept @ [w']) s1
           else
             (case find_new_watch s1 ls of
                Some k \<Rightarrow>
                  prop_loop p ws kept
                    (push_watch (neg_lit (ls ! k)) w' (set_lits cr (ls[1 := ls ! k, k := false_lit]) s1))
              | None \<Rightarrow>
                  if value_lit s1 first = LFalse then
                    (kept @ [w'] @ ws, Some cr, s1\<lparr>sv_qhead := length (sv_trail s1)\<rparr>)
                  else prop_loop p ws (kept @ [w']) (uncheckedEnqueue first (Some cr) s1)))"

definition set_watches :: "lit \<Rightarrow> watcher list \<Rightarrow> solver \<Rightarrow> solver" where
  "set_watches p ws s = s\<lparr>sv_watches := occ_set (lit_index p) ws (sv_watches s)\<rparr>"

fun prop_fuel :: "nat \<Rightarrow> nat option \<Rightarrow> solver \<Rightarrow> (nat option \<times> solver) option" where
  "prop_fuel 0 confl s = None"
| "prop_fuel (Suc n) confl s =
     (if sv_qhead s < length (sv_trail s) then
        let p = sv_trail s ! sv_qhead s;
            s1 = s\<lparr>sv_qhead := sv_qhead s + 1\<rparr>;
            (kept, c, s2) = prop_loop p (occ_at (sv_watches s1) (lit_index p)) [] s1
        in prop_fuel n (case c of None \<Rightarrow> confl | Some cr \<Rightarrow> Some cr) (set_watches p kept s2)
      else Some (confl, s))"

definition watcher_deleted :: "solver \<Rightarrow> watcher \<Rightarrow> bool" where
  "watcher_deleted s w = (c_mark (sv_ca s ! w_cref w) = 1)"

definition propagate :: "solver \<Rightarrow> (nat option \<times> solver) option" where
  "propagate s =
     (if sv_qhead s = length (sv_trail s) then Some (None, s)
      else prop_fuel (Suc (nVars s)) None
             (s\<lparr>sv_watches := occ_cleanAll (watcher_deleted s) (sv_watches s)\<rparr>))"

subsection \<open>Adding clauses\<close>

definition attachClause :: "nat \<Rightarrow> solver \<Rightarrow> solver" where
  "attachClause cr s = (let ls = c_lits (sv_ca s ! cr) in
     push_watch (neg_lit (ls ! 1)) \<lparr>w_cref = cr, w_blocker = ls ! 0\<rparr>
       (push_watch (neg_lit (ls ! 0)) \<lparr>w_cref = cr, w_blocker = ls ! 1\<rparr> s))"

text \<open>\<open>ClauseAllocator::alloc\<close> followed by \<open>setDerived\<close>: the new reference and the state.\<close>

definition alloc_clause :: "lit list \<Rightarrow> bool \<Rightarrow> solver \<Rightarrow> nat \<times> solver" where
  "alloc_clause ps derived s =
     (length (sv_ca s),
      s\<lparr>sv_ca := sv_ca s @ [(new_clause ps (sv_extra_clause_field s) False)\<lparr>c_derived := derived\<rparr>]\<rparr>)"

text \<open>The scan that drops false and repeated literals; \<open>None\<close> is the early \<open>return true\<close>.\<close>

fun clause_scan :: "solver \<Rightarrow> lit \<Rightarrow> lit list \<Rightarrow> lit list \<Rightarrow> lit list option" where
  "clause_scan s p kept [] = Some kept"
| "clause_scan s p kept (l # ls) =
     (if value_lit s l = LTrue \<or> l = neg_lit p then None
      else if value_lit s l \<noteq> LFalse \<and> l \<noteq> p then clause_scan s l (kept @ [l]) ls
      else clause_scan s p kept ls)"

definition addClause' :: "lit list \<Rightarrow> bool \<Rightarrow> solver \<Rightarrow> (bool \<times> solver) option" where
  "addClause' ps derived s = do {
     check (decisionLevel s = 0);
     if \<not> sv_ok s then Some (False, s)
     else do {
       check (list_all (in_range s) ps);
       qs \<leftarrow> vec_sort (<) ps;
       case clause_scan s lit_Undef [] qs of
         None \<Rightarrow> Some (True, s)
       | Some rs \<Rightarrow>
           if length rs = 0 then Some (False, s\<lparr>sv_ok := False\<rparr>)
           else if length rs = 1 then do {
             (confl, s1) \<leftarrow> propagate (uncheckedEnqueue (rs ! 0) None s);
             Some (confl = None, s1\<lparr>sv_ok := (confl = None)\<rparr>) }
           else
             let (cr, s1) = alloc_clause rs derived s
             in Some (True, attachClause cr (s1\<lparr>sv_clauses := sv_clauses s1 @ [cr]\<rparr>)) } }"

definition addClause :: "lit list \<Rightarrow> solver \<Rightarrow> (bool \<times> solver) option" where
  "addClause ps s = addClause' ps False (cancelUntil 0 s)"

definition isConstantTrue :: "solver \<Rightarrow> lit \<Rightarrow> bool" where
  "isConstantTrue s l \<longleftrightarrow> value_lit s l = LTrue \<and> level s (var l) = 0"

text \<open>\<open>True()\<close>: the literal that is constant true, created on first use.\<close>

definition solver_True :: "solver \<Rightarrow> (lit \<times> solver) option" where
  "solver_True s =
     (if sv_const_true s = lit_Undef then
        let (v, s1) = newVar (cancelUntil 0 s);
            t = mkLit v False;
            s2 = s1\<lparr>sv_const_true := t\<rparr>
        in if sv_ok s2 then do {
             (b, s3) \<leftarrow> addClause [t] s2;
             check (isConstantTrue s3 t);
             Some (t, s3) }
           else Some (t, s2)
      else Some (sv_const_true s, s))"

end
