(* ===== verification/Solver_Inv.thy ===== *)
theory Solver_Inv
  imports Solver
begin

text \<open>
  The invariant of the solver's propositional core, what its state means (the set of assignments
  that satisfy everything added so far), and the proof that every operation of
  \<^theory_text>\<open>Solver\<close> keeps the invariant and has the intended effect on that set.
\<close>

subsection \<open>The invariant\<close>

abbreviation clause_lits :: "solver \<Rightarrow> nat \<Rightarrow> lit list" where
  "clause_lits s cr \<equiv> c_lits (sv_ca s ! cr)"

text \<open>The clause database: problem clauses and learnt clauses.\<close>

definition db :: "solver \<Rightarrow> nat list" where
  "db s = sv_clauses s @ sv_learnts s"

lemma db_simps [simp]:
  "db (s\<lparr>sv_assigns := x0\<rparr>) = db s"
  "db (s\<lparr>sv_vardata := x1\<rparr>) = db s"
  "db (s\<lparr>sv_trail := x2\<rparr>) = db s"
  "db (s\<lparr>sv_trail_lim := x3\<rparr>) = db s"
  "db (s\<lparr>sv_qhead := x4\<rparr>) = db s"
  "db (s\<lparr>sv_ca := x5\<rparr>) = db s"
  "db (s\<lparr>sv_watches := x6\<rparr>) = db s"
  "db (s\<lparr>sv_ok := x7\<rparr>) = db s"
  "db (s\<lparr>sv_free_vars := x8\<rparr>) = db s"
  "db (s\<lparr>sv_to_reenqueue := x9\<rparr>) = db s"
  "db (s\<lparr>sv_const_true := x10\<rparr>) = db s"
  "db (s\<lparr>sv_extra_clause_field := x11\<rparr>) = db s"
  by (simp_all add: db_def)

definition assign_wf :: "solver \<Rightarrow> bool" where
  "assign_wf s \<longleftrightarrow> length (sv_assigns s) = nVars s \<and> distinct (map var (sv_trail s)) \<and>
     (\<forall>l\<in>set (sv_trail s). in_range s l \<and> value_lit s l = LTrue) \<and>
     (\<forall>v. 0 \<le> v \<longrightarrow> v < int (nVars s) \<longrightarrow> value_var s v \<noteq> LUndef \<longrightarrow> v \<in> var ` set (sv_trail s))"

definition level_wf :: "solver \<Rightarrow> bool" where
  "level_wf s \<longleftrightarrow> sorted (sv_trail_lim s) \<and> (\<forall>n\<in>set (sv_trail_lim s). n \<le> length (sv_trail s)) \<and>
     (\<forall>i<length (sv_trail s).
        level s (var (sv_trail s ! i)) = length (filter (\<lambda>n. n \<le> i) (sv_trail_lim s))) \<and>
     sv_qhead s \<le> length (sv_trail s) \<and> sv_to_reenqueue s = []"

definition clause_ok :: "solver \<Rightarrow> lit list \<Rightarrow> bool" where
  "clause_ok s ls \<longleftrightarrow> 2 \<le> length ls \<and> distinct ls \<and> \<not> tautology ls \<and> (\<forall>l\<in>set ls. in_range s l)"

definition db_wf :: "solver \<Rightarrow> bool" where
  "db_wf s \<longleftrightarrow> (\<forall>cr\<in>set (db s). cr < length (sv_ca s) \<and> clause_ok s (clause_lits s cr) \<and>
     c_mark (sv_ca s ! cr) \<noteq> 1)"

definition free_wf :: "solver \<Rightarrow> bool" where
  "free_wf s \<longleftrightarrow> distinct (sv_free_vars s) \<and>
     (\<forall>v\<in>set (sv_free_vars s). 0 \<le> v \<and> v < int (nVars s) \<and> v \<notin> var ` set (sv_trail s) \<and>
        v \<noteq> var (sv_const_true s) \<and> (\<forall>cr\<in>set (db s). v \<notin> var ` set (clause_lits s cr)))"

definition root_trail :: "solver \<Rightarrow> lit list" where
  "root_trail s = (case sv_trail_lim s of [] \<Rightarrow> sv_trail s | n # _ \<Rightarrow> take n (sv_trail s))"

definition const_wf :: "solver \<Rightarrow> bool" where
  "const_wf s \<longleftrightarrow> sv_const_true s = lit_Undef \<or> in_range s (sv_const_true s)"

text \<open>The literal handed out by \<open>True()\<close> is asserted at level 0 (but not yet in the middle of \<open>True()\<close>).\<close>

definition const_asserted :: "solver \<Rightarrow> bool" where
  "const_asserted s \<longleftrightarrow> (sv_const_true s \<noteq> lit_Undef \<longrightarrow> sv_ok s \<longrightarrow> sv_const_true s \<in> set (root_trail s))"

text \<open>Watchers: the list of a literal holds each clause at most once, and only clauses that watch
  its negation, which is then one of the first two literals.\<close>

definition watch_ok :: "solver \<Rightarrow> (nat \<Rightarrow> watcher list) \<Rightarrow> bool" where
  "watch_ok s W \<longleftrightarrow> (\<forall>q. in_range s q \<longrightarrow> distinct (map w_cref (W (lit_index q))) \<and>
     (\<forall>w\<in>set (W (lit_index q)). w_cref w \<in> set (db s) \<and> in_range s (w_blocker w) \<and>
        neg_lit q \<in> {clause_lits s (w_cref w) ! 0, clause_lits s (w_cref w) ! 1}))"

definition occ_len :: "solver \<Rightarrow> bool" where
  "occ_len s \<longleftrightarrow> occ_wf (sv_watches s) \<and> length (occs (sv_watches s)) = 2 * nVars s"

definition core_wf :: "solver \<Rightarrow> bool" where
  "core_wf s \<longleftrightarrow> assign_wf s \<and> level_wf s \<and> db_wf s \<and> free_wf s \<and> const_wf s \<and> occ_len s"

definition solver_wf :: "solver \<Rightarrow> bool" where
  "solver_wf s \<longleftrightarrow> core_wf s \<and> watch_ok s (occ_at (sv_watches s))"

subsection \<open>Meaning\<close>

definition msat :: "solver \<Rightarrow> (int \<Rightarrow> bool) \<Rightarrow> bool" where
  "msat s \<sigma> \<longleftrightarrow> (\<forall>cr\<in>set (db s). clause_sat \<sigma> (clause_lits s cr)) \<and>
     (\<forall>l\<in>set (sv_trail s). lit_val \<sigma> l)"

definition models :: "solver \<Rightarrow> (int \<Rightarrow> bool) set" where
  "models s = (if sv_ok s then
     {\<sigma>. (\<forall>cr\<in>set (db s). clause_sat \<sigma> (clause_lits s cr)) \<and>
         (\<forall>l\<in>set (root_trail s). lit_val \<sigma> l)} else {})"

text \<open>The variables in use: allocated and not on the free list.\<close>

definition used_vars :: "solver \<Rightarrow> int set" where
  "used_vars s = {v. 0 \<le> v \<and> v < int (nVars s) \<and> v \<notin> set (sv_free_vars s)}"

subsection \<open>Basic facts\<close>

lemma lit_index_eq: "in_range s p \<Longrightarrow> in_range s q \<Longrightarrow> lit_index p = lit_index q \<longleftrightarrow> p = q"
proof -
  assume "in_range s p" "in_range s q"
  then have "0 \<le> x_of p" "0 \<le> x_of q" by (simp_all add: in_range_def x_of_bounds)
  then show ?thesis by (auto simp: lit_index_def toInt_lit_def lit.expand)
qed

lemma lit_index_less: "in_range s p \<Longrightarrow> lit_index p < 2 * nVars s"
  by (simp add: in_range_def lit_index_def toInt_lit_def nat_x_less)

lemma in_range_neg [simp]: "in_range s (neg_lit p) = in_range s p"
  by (simp add: in_range_def)

lemma value_neg [simp]: "value_lit s (neg_lit p) = neg_lbool (value_lit s p)"
  by (simp add: value_lit_def)

lemma value_lit_undef: "value_lit s p = LUndef \<longleftrightarrow> value_var s (var p) = LUndef"
  by (simp add: value_lit_def)

lemma nat_var_less: "in_range s p \<Longrightarrow> nat (var p) < nVars s"
  by (auto simp: in_range_def)

lemma nat_var_eq: "in_range s p \<Longrightarrow> in_range s q \<Longrightarrow> nat (var p) = nat (var q) \<longleftrightarrow> var p = var q"
  by (auto simp: in_range_def)

lemma trail_value:
  assumes "assign_wf s" "in_range s l"
  shows "value_lit s l = LTrue \<longleftrightarrow> l \<in> set (sv_trail s)"
    and "value_lit s l = LFalse \<longleftrightarrow> neg_lit l \<in> set (sv_trail s)"
    and "value_lit s l = LUndef \<longleftrightarrow> var l \<notin> var ` set (sv_trail s)"
proof -
  have T: "k \<in> set (sv_trail s) \<Longrightarrow> value_lit s k = LTrue" for k
    using assms(1) by (simp add: assign_wf_def)
  have ex: "l \<in> set (sv_trail s) \<or> neg_lit l \<in> set (sv_trail s)" if "value_lit s l \<noteq> LUndef"
  proof -
    have "var l \<in> var ` set (sv_trail s)"
      using assms that by (simp add: assign_wf_def in_range_def value_lit_undef)
    then show ?thesis by (auto simp: same_var)
  qed
  show 1: "value_lit s l = LTrue \<longleftrightarrow> l \<in> set (sv_trail s)"
    using T [of l] T [of "neg_lit l"] ex by auto
  show 2: "value_lit s l = LFalse \<longleftrightarrow> neg_lit l \<in> set (sv_trail s)"
    using T [of l] T [of "neg_lit l"] ex by auto
  show "value_lit s l = LUndef \<longleftrightarrow> var l \<notin> var ` set (sv_trail s)"
  proof
    assume "value_lit s l = LUndef"
    then have "l \<notin> set (sv_trail s)" "neg_lit l \<notin> set (sv_trail s)"
      using T [of l] T [of "neg_lit l"] by auto
    then show "var l \<notin> var ` set (sv_trail s)" by (auto simp: same_var)
  next
    assume n: "var l \<notin> var ` set (sv_trail s)"
    then have "l \<notin> set (sv_trail s)" "neg_lit l \<notin> set (sv_trail s)"
      using imageI [of "neg_lit l" "set (sv_trail s)" var] by auto
    then show "value_lit s l = LUndef" using 1 2 by (cases "value_lit s l") auto
  qed
qed

lemma msat_value:
  assumes "assign_wf s" "in_range s l" "msat s \<sigma>"
  shows "value_lit s l = LTrue \<Longrightarrow> lit_val \<sigma> l" "value_lit s l = LFalse \<Longrightarrow> \<not> lit_val \<sigma> l"
  using trail_value [OF assms(1,2)] assms(3) by (auto simp: msat_def)

subsection \<open>Enqueueing\<close>

lemma enqueue_simps [simp]:
  "nVars (uncheckedEnqueue p r s) = nVars s"
  "in_range (uncheckedEnqueue p r s) = in_range s"
  "sv_trail (uncheckedEnqueue p r s) = sv_trail s @ [p]"
  "sv_trail_lim (uncheckedEnqueue p r s) = sv_trail_lim s"
  "sv_qhead (uncheckedEnqueue p r s) = sv_qhead s"
  "sv_ca (uncheckedEnqueue p r s) = sv_ca s"
  "sv_clauses (uncheckedEnqueue p r s) = sv_clauses s"
  "sv_learnts (uncheckedEnqueue p r s) = sv_learnts s"
  "db (uncheckedEnqueue p r s) = db s"
  "sv_watches (uncheckedEnqueue p r s) = sv_watches s"
  "sv_ok (uncheckedEnqueue p r s) = sv_ok s"
  "sv_free_vars (uncheckedEnqueue p r s) = sv_free_vars s"
  "sv_const_true (uncheckedEnqueue p r s) = sv_const_true s"
  "sv_to_reenqueue (uncheckedEnqueue p r s) = sv_to_reenqueue s"
  by (simp_all add: uncheckedEnqueue_def nVars_def in_range_def fun_eq_iff)

lemma value_enqueue:
  assumes "length (sv_assigns s) = nVars s" "in_range s p" "in_range s l"
  shows "value_lit (uncheckedEnqueue p r s) l =
    (if l = p then LTrue else if l = neg_lit p then LFalse else value_lit s l)"
proof (cases "var l = var p")
  case True
  then have "l = p \<or> l = neg_lit p" by (simp add: same_var)
  then show ?thesis using assms nat_var_less [OF assms(2)]
    by (auto simp: value_lit_def value_var_def uncheckedEnqueue_def)
next
  case False
  then have "nat (var l) \<noteq> nat (var p)" "l \<noteq> p" "l \<noteq> neg_lit p"
    using nat_var_eq [OF assms(3,2)] by auto
  then show ?thesis by (auto simp: value_lit_def value_var_def uncheckedEnqueue_def)
qed

lemma level_enqueue:
  "in_range s p \<Longrightarrow> in_range s l \<Longrightarrow>
   level (uncheckedEnqueue p r s) (var l) = (if var l = var p then decisionLevel s else level s (var l))"
  using nat_var_less [of s p] nat_var_eq [of s l p]
  by (auto simp: level_def uncheckedEnqueue_def nVars_def)

lemma assign_wf_enqueue:
  assumes wf: "assign_wf s" and p: "in_range s p" "value_lit s p = LUndef"
  shows "assign_wf (uncheckedEnqueue p r s)"
proof -
  have new: "var p \<notin> var ` set (sv_trail s)" using trail_value(3) [OF wf p(1)] p(2) by simp
  have val: "value_lit (uncheckedEnqueue p r s) l =
      (if l = p then LTrue else if l = neg_lit p then LFalse else value_lit s l)" if "in_range s l" for l
    by (rule value_enqueue) (use wf p that in \<open>auto simp: assign_wf_def\<close>)
  have "value_lit (uncheckedEnqueue p r s) l = LTrue" if "l \<in> set (sv_trail s @ [p])" for l
  proof (cases "l = p")
    case True
    then show ?thesis using val [of p] p(1) by simp
  next
    case False
    then have l: "l \<in> set (sv_trail s)" using that by simp
    then have "l \<noteq> neg_lit p" using new by (metis imageI var_neg)
    then show ?thesis using False l wf val [of l] by (auto simp: assign_wf_def)
  qed
  moreover have "v \<in> var ` set (sv_trail s @ [p])"
    if "0 \<le> v" "v < int (nVars s)" "value_var (uncheckedEnqueue p r s) v \<noteq> LUndef" for v
  proof (cases "v = var p")
    case False
    have "mkLit v False \<noteq> p \<and> mkLit v False \<noteq> neg_lit p" using False by (auto simp: lit_eq_iff)
    then have "value_lit (uncheckedEnqueue p r s) (mkLit v False) = value_lit s (mkLit v False)"
      using val [of "mkLit v False"] that(1,2) by (auto simp: in_range_def)
    then have "value_var s v \<noteq> LUndef" using that(3) by (simp add: value_lit_def)
    then show ?thesis using wf that by (auto simp: assign_wf_def)
  qed auto
  moreover have "length (sv_assigns (uncheckedEnqueue p r s)) = nVars s"
    using wf by (simp add: assign_wf_def uncheckedEnqueue_def)
  ultimately show ?thesis using wf new p(1) by (auto simp: assign_wf_def)
qed

lemma level_wf_enqueue:
  assumes wf: "assign_wf s" "level_wf s" and p: "in_range s p" "value_lit s p = LUndef"
  shows "level_wf (uncheckedEnqueue p r s)"
proof -
  have new: "var p \<notin> var ` set (sv_trail s)" using trail_value(3) [OF wf(1) p(1)] p(2) by simp
  have all: "filter (\<lambda>n. n \<le> length (sv_trail s)) (sv_trail_lim s) = sv_trail_lim s"
    using wf(2) by (auto simp: level_wf_def filter_id_conv)
  have "level (uncheckedEnqueue p r s) (var ((sv_trail s @ [p]) ! i)) =
        length (filter (\<lambda>n. n \<le> i) (sv_trail_lim s))" if "i < Suc (length (sv_trail s))" for i
  proof (cases "i = length (sv_trail s)")
    case True
    then show ?thesis using level_enqueue [OF p(1) p(1)] all by (simp add: decisionLevel_def)
  next
    case False
    then have i: "i < length (sv_trail s)" using that by simp
    then have m: "sv_trail s ! i \<in> set (sv_trail s)" by simp
    then have "in_range s (sv_trail s ! i)" "var (sv_trail s ! i) \<noteq> var p"
      using wf(1) new by (simp add: assign_wf_def, metis imageI)
    then show ?thesis using level_enqueue [OF p(1), of "sv_trail s ! i"] wf(2) i
      by (simp add: nth_append level_wf_def)
  qed
  then show ?thesis using wf(2) by (auto simp: level_wf_def le_SucI)
qed

lemma root_trail_enqueue:
  "level_wf s \<Longrightarrow> root_trail (uncheckedEnqueue p r s) =
    (if sv_trail_lim s = [] then sv_trail s @ [p] else root_trail s)"
  by (auto simp: root_trail_def level_wf_def split: list.split)

lemma core_wf_enqueue:
  assumes "core_wf s" "in_range s p" "value_lit s p = LUndef" "var p \<notin> set (sv_free_vars s)"
  shows "core_wf (uncheckedEnqueue p r s)"
proof -
  have wf: "assign_wf s" "level_wf s" "db_wf s" "free_wf s" "const_wf s" "occ_len s"
    using assms(1) by (simp_all add: core_wf_def)
  have "const_wf (uncheckedEnqueue p r s)"
    using wf(5) root_trail_enqueue [OF wf(2)] by (auto simp: const_wf_def root_trail_def)
  moreover have "free_wf (uncheckedEnqueue p r s)" using wf(4) assms(4) by (auto simp: free_wf_def)
  moreover have "db_wf (uncheckedEnqueue p r s)" using wf(3) by (simp add: db_wf_def clause_ok_def)
  moreover have "occ_len (uncheckedEnqueue p r s)" using wf(6) by (simp add: occ_len_def)
  ultimately show ?thesis
    using assign_wf_enqueue [OF wf(1) assms(2,3)] level_wf_enqueue [OF wf(1,2) assms(2,3)]
    by (simp add: core_wf_def)
qed

lemma watch_ok_enqueue [simp]: "watch_ok (uncheckedEnqueue p r s) W = watch_ok s W"
  by (simp add: watch_ok_def)

lemma msat_enqueue: "msat (uncheckedEnqueue p r s) \<sigma> \<longleftrightarrow> msat s \<sigma> \<and> lit_val \<sigma> p"
  by (auto simp: msat_def)

end
