(* ===== verification/Propagation.thy ===== *)
theory Propagation
  imports Solver_Inv
begin

text \<open>
  Unit propagation keeps the solver's invariant and its meaning: one step of the inner loop at a
  time, then the loop over a watch list, then the loop over the queue, which the number of
  variables bounds.
\<close>

subsection \<open>What propagation leaves alone\<close>

definition frame :: "solver \<Rightarrow> solver \<Rightarrow> bool" where
  "frame s s' \<longleftrightarrow> nVars s' = nVars s \<and> sv_trail_lim s' = sv_trail_lim s \<and> sv_clauses s' = sv_clauses s \<and> db s' = db s \<and>
     sv_free_vars s' = sv_free_vars s \<and> sv_const_true s' = sv_const_true s \<and> sv_ok s' = sv_ok s \<and>
     length (sv_ca s') = length (sv_ca s) \<and> (\<exists>ext. sv_trail s' = sv_trail s @ ext) \<and>
     (\<forall>cr\<in>set (db s). set (clause_lits s' cr) = set (clause_lits s cr))"

lemma frame_refl [simp]: "frame s s"
  by (simp add: frame_def)

lemma frame_trans: "frame s t \<Longrightarrow> frame t u \<Longrightarrow> frame s u"
  unfolding frame_def by auto

lemma frame_in_range: "frame s s' \<Longrightarrow> in_range s' = in_range s"
  by (simp add: frame_def in_range_def fun_eq_iff)

lemma frame_value_true:
  assumes "frame s s'" "assign_wf s" "assign_wf s'" "in_range s l" "value_lit s l = LTrue"
  shows "value_lit s' l = LTrue"
  using assms trail_value(1) [of s l] trail_value(1) [of s' l] frame_in_range [of s s']
  by (auto simp: frame_def)

lemma frame_root_trail:
  assumes "frame s s'" "level_wf s" "sv_trail_lim s \<noteq> []"
  shows "root_trail s' = root_trail s"
  using assms by (auto simp: root_trail_def frame_def level_wf_def neq_Nil_conv)

lemma frame_models:
  assumes "frame s s'" "level_wf s" "\<And>\<sigma>. msat s' \<sigma> = msat s \<sigma>"
  shows "models s' = models s"
proof (cases "sv_trail_lim s = []")
  case True
  then have "sv_trail_lim s' = []" using assms(1) by (simp add: frame_def)
  then show ?thesis using True assms(1) assms(3)
    by (simp add: models_def root_trail_def msat_def frame_def)
next
  case False
  then show ?thesis using frame_root_trail [OF assms(1,2)] assms(1)
    by (simp add: models_def frame_def clause_sat_def)
qed

subsection \<open>Reordering the literals of a clause\<close>

lemma set_lits_simps [simp]:
  "nVars (set_lits cr ls s) = nVars s"
  "in_range (set_lits cr ls s) = in_range s"
  "value_lit (set_lits cr ls s) = value_lit s"
  "level (set_lits cr ls s) = level s"
  "sv_trail (set_lits cr ls s) = sv_trail s"
  "sv_trail_lim (set_lits cr ls s) = sv_trail_lim s"
  "sv_qhead (set_lits cr ls s) = sv_qhead s"
  "sv_clauses (set_lits cr ls s) = sv_clauses s"
  "db (set_lits cr ls s) = db s"
  "sv_watches (set_lits cr ls s) = sv_watches s"
  "sv_ok (set_lits cr ls s) = sv_ok s"
  "sv_free_vars (set_lits cr ls s) = sv_free_vars s"
  "sv_const_true (set_lits cr ls s) = sv_const_true s"
  "length (sv_ca (set_lits cr ls s)) = length (sv_ca s)"
  by (simp_all add: set_lits_def nVars_def in_range_def value_lit_def value_var_def level_def fun_eq_iff)

lemma clause_lits_set_lits:
  "cr < length (sv_ca s) \<Longrightarrow> clause_lits (set_lits cr ls s) cr' = (if cr' = cr then ls else clause_lits s cr')"
  by (simp add: set_lits_def)

lemma mark_set_lits [simp]: "c_mark (sv_ca (set_lits cr ls s) ! cr') = c_mark (sv_ca s ! cr')"
  by (cases "cr < length (sv_ca s)"; cases "cr' = cr") (simp_all add: set_lits_def list_update_beyond)

lemma root_trail_set_lits [simp]: "root_trail (set_lits cr ls s) = root_trail s"
  by (simp add: root_trail_def cong: list.case_cong)

lemma clause_ok_perm: "clause_ok s ks \<Longrightarrow> mset ls = mset ks \<Longrightarrow> clause_ok s ls"
  using mset_eq_imp_distinct_iff [of ls ks] mset_eq_length [of ls ks] mset_eq_setD [of ls ks]
  by (simp add: clause_ok_def tautology_def)

lemma clause_ok_nth: "clause_ok s ls \<Longrightarrow> k < 2 \<Longrightarrow> in_range s (ls ! k)"
  by (auto simp: clause_ok_def)

text \<open>A permutation of the literals of a clause of the database.\<close>

definition reorders :: "solver \<Rightarrow> nat \<Rightarrow> lit list \<Rightarrow> bool" where
  "reorders s cr ls \<longleftrightarrow> cr \<in> set (db s) \<and> cr < length (sv_ca s) \<and> mset ls = mset (clause_lits s cr)"

lemma set_perm: "reorders s cr ls \<Longrightarrow> set (clause_lits (set_lits cr ls s) cr') = set (clause_lits s cr')"
  by (auto simp: clause_lits_set_lits reorders_def dest: mset_eq_setD)

lemma frame_set_lits: "reorders s cr ls \<Longrightarrow> frame s (set_lits cr ls s)"
  by (simp add: frame_def set_perm)

lemma msat_set_lits: "reorders s cr ls \<Longrightarrow> msat (set_lits cr ls s) \<sigma> = msat s \<sigma>"
  by (simp add: msat_def clause_sat_def set_perm)

lemma core_wf_set_lits:
  assumes perm: "reorders s cr ls" and wf: "core_wf s"
  shows "core_wf (set_lits cr ls s)"
proof -
  have "assign_wf (set_lits cr ls s)" using wf
    by (simp add: core_wf_def assign_wf_def value_var_def) (simp add: set_lits_def)
  moreover have "level_wf (set_lits cr ls s)" using wf
    by (simp add: core_wf_def level_wf_def) (simp add: set_lits_def)
  moreover have "db_wf (set_lits cr ls s)" using wf clause_ok_perm [of s _ ls] perm
    by (auto simp: core_wf_def db_wf_def clause_lits_set_lits reorders_def) (auto simp: clause_ok_def)
  moreover have "free_wf (set_lits cr ls s)" using wf
    by (simp add: core_wf_def free_wf_def set_perm [OF perm])
  moreover have "const_wf (set_lits cr ls s)" using wf by (simp add: core_wf_def const_wf_def)
  moreover have "occ_len (set_lits cr ls s)" using wf by (simp add: core_wf_def occ_len_def)
  ultimately show ?thesis by (simp add: core_wf_def)
qed

lemma swap_watch_spec:
  assumes "2 \<le> length ls" "fl \<in> {ls ! 0, ls ! 1}"
  shows "mset (swap_watch fl ls) = mset ls" "swap_watch fl ls ! 1 = fl"
    "{swap_watch fl ls ! 0, swap_watch fl ls ! 1} = {ls ! 0, ls ! 1}"
proof -
  have "swap_watch fl ls = (if ls ! 0 = fl then list_swap ls 0 1 else ls)"
    by (simp add: swap_watch_def list_swap_def)
  moreover have l0: "0 < length ls" and l1: "1 < length ls" using assms(1) by linarith+
  ultimately show "mset (swap_watch fl ls) = mset ls" "swap_watch fl ls ! 1 = fl"
    "{swap_watch fl ls ! 0, swap_watch fl ls ! 1} = {ls ! 0, ls ! 1}"
    using assms mset_list_swap [OF l0 l1] nth_list_swap [OF l0 l1] by auto
qed

lemma find_new_watch_spec:
  "find_new_watch s ls = Some k \<Longrightarrow> 2 \<le> k \<and> k < length ls \<and> value_lit s (ls ! k) \<noteq> LFalse"
  "find_new_watch s ls = None \<Longrightarrow> \<forall>k. 2 \<le> k \<and> k < length ls \<longrightarrow> value_lit s (ls ! k) = LFalse"
  by (auto simp: find_new_watch_def find_Some_iff find_None_iff)

subsection \<open>One step of the inner loop\<close>

text \<open>The watch lists in the middle of the loop over the list of \<open>p\<close>: \<open>ws\<close> is what the loop has
  kept of that list and what it has not reached yet.\<close>

abbreviation watches_with :: "solver \<Rightarrow> lit \<Rightarrow> watcher list \<Rightarrow> nat \<Rightarrow> watcher list" where
  "watches_with s p ws \<equiv> (occ_at (sv_watches s))(lit_index p := ws)"

definition prop_inv :: "solver \<Rightarrow> lit \<Rightarrow> watcher list \<Rightarrow> bool" where
  "prop_inv s p ws \<longleftrightarrow> core_wf s \<and> watch_ok s (watches_with s p ws) \<and> in_range s p \<and> value_lit s p = LTrue"

lemma prop_inv_parts:
  assumes "prop_inv s p ws"
  shows "assign_wf s" "level_wf s" "db_wf s" "free_wf s" "occ_len s" "in_range s p" "value_lit s p = LTrue"
  using assms by (simp_all add: prop_inv_def core_wf_def)

lemma prop_inv_watcher:
  assumes "prop_inv s p ws" "w \<in> set ws"
  shows "w_cref w \<in> set (db s)" "in_range s (w_blocker w)" "clause_ok s (clause_lits s (w_cref w))"
    "neg_lit p \<in> {clause_lits s (w_cref w) ! 0, clause_lits s (w_cref w) ! 1}" "w_cref w < length (sv_ca s)"
    "distinct (map w_cref ws)"
proof -
  have w: "watch_ok s (watches_with s p ws)" "in_range s p" "db_wf s"
    using assms(1) by (simp_all add: prop_inv_def core_wf_def)
  have "distinct (map w_cref ws) \<and> (\<forall>w\<in>set ws. w_cref w \<in> set (db s) \<and> in_range s (w_blocker w) \<and>
      neg_lit p \<in> {clause_lits s (w_cref w) ! 0, clause_lits s (w_cref w) ! 1})"
    using w(1) [unfolded watch_ok_def, rule_format, OF w(2)] by simp
  then show "w_cref w \<in> set (db s)" "in_range s (w_blocker w)"
    "neg_lit p \<in> {clause_lits s (w_cref w) ! 0, clause_lits s (w_cref w) ! 1}"
    "distinct (map w_cref ws)"
    using assms(2) by blast+
  then show "clause_ok s (clause_lits s (w_cref w))" "w_cref w < length (sv_ca s)"
    using w(3) by (simp_all add: db_wf_def)
qed

lemma watch_okD:
  assumes "watch_ok s W" "in_range s q" "x \<in> set (W (lit_index q))"
  shows "w_cref x \<in> set (db s)" "in_range s (w_blocker x)"
    "neg_lit q \<in> {clause_lits s (w_cref x) ! 0, clause_lits s (w_cref x) ! 1}"
  using assms unfolding watch_ok_def by blast+

text \<open>Swapping the false literal into second place, and replacing the watcher by one with the
  clause's first literal as its blocker.\<close>

lemma prop_inv_swap:
  assumes inv: "prop_inv s p (kept @ w # ws)"
  defines "cr \<equiv> w_cref w" and "ls \<equiv> swap_watch (neg_lit p) (clause_lits s (w_cref w))"
  shows "reorders s cr ls" "ls ! 1 = neg_lit p" "clause_ok s ls"
    "prop_inv (set_lits cr ls s) p (kept @ \<lparr>w_cref = cr, w_blocker = ls ! 0\<rparr> # ws)"
proof -
  have "w \<in> set (kept @ w # ws)" by simp
  note w = prop_inv_watcher [OF inv this]
  have len: "2 \<le> length (clause_lits s (w_cref w))" using w(3) by (simp add: clause_ok_def)
  note sw = swap_watch_spec [OF len w(4), folded ls_def]
  show re: "reorders s cr ls" using w sw by (simp add: reorders_def cr_def)
  show ls1: "ls ! 1 = neg_lit p" using sw by simp
  show ok: "clause_ok s ls" using clause_ok_perm [OF w(3)] sw by simp
  have r0: "in_range s (ls ! 0)" using ok by (rule clause_ok_nth) simp
  have c: "core_wf (set_lits cr ls s)" using core_wf_set_lits [OF re] inv by (simp add: prop_inv_def)
  have cl: "clause_lits (set_lits cr ls s) cr' = (if cr' = cr then ls else clause_lits s cr')" for cr'
    using w(5) by (simp add: clause_lits_set_lits cr_def)
  have pair: "{clause_lits (set_lits cr ls s) cr' ! 0, clause_lits (set_lits cr ls s) cr' ! 1} =
      {clause_lits s cr' ! 0, clause_lits s cr' ! 1}" for cr'
    using sw(3) by (simp add: cl) (simp add: cr_def)
  have "watch_ok s (watches_with s p (kept @ w # ws))" using inv by (simp add: prop_inv_def)
  then have "watch_ok s (watches_with s p (kept @ \<lparr>w_cref = cr, w_blocker = ls ! 0\<rparr> # ws))"
    using r0 w by (auto simp: watch_ok_def cr_def split: if_splits)
  then have "watch_ok (set_lits cr ls s) (watches_with (set_lits cr ls s) p (kept @ \<lparr>w_cref = cr, w_blocker = ls ! 0\<rparr> # ws))"
    unfolding watch_ok_def set_lits_simps pair .
  then show "prop_inv (set_lits cr ls s) p (kept @ \<lparr>w_cref = cr, w_blocker = ls ! 0\<rparr> # ws)"
    using c inv by (simp add: prop_inv_def)
qed

lemma push_watch_simps [simp]:
  "nVars (push_watch q w s) = nVars s"
  "in_range (push_watch q w s) = in_range s"
  "value_lit (push_watch q w s) = value_lit s"
  "sv_trail (push_watch q w s) = sv_trail s"
  "sv_trail_lim (push_watch q w s) = sv_trail_lim s"
  "sv_qhead (push_watch q w s) = sv_qhead s"
  "sv_ca (push_watch q w s) = sv_ca s"
  "sv_clauses (push_watch q w s) = sv_clauses s"
  "db (push_watch q w s) = db s"
  "sv_ok (push_watch q w s) = sv_ok s"
  "sv_free_vars (push_watch q w s) = sv_free_vars s"
  "sv_const_true (push_watch q w s) = sv_const_true s"
  by (simp_all add: push_watch_def nVars_def in_range_def value_lit_def value_var_def fun_eq_iff)

lemma frame_push_watch: "frame s (push_watch q w s)"
  by (simp add: frame_def)

lemma msat_push_watch [simp]: "msat (push_watch q w s) \<sigma> = msat s \<sigma>"
  by (simp add: msat_def)

lemma core_wf_push_watch: "core_wf s \<Longrightarrow> core_wf (push_watch q w s)"
  by (simp add: core_wf_def assign_wf_def level_wf_def db_wf_def clause_ok_def free_wf_def const_wf_def
      root_trail_def occ_len_def level_def value_var_def cong: list.case_cong)
    (simp add: push_watch_def occ_wf_update nVars_def)

lemma occ_at_push:
  assumes "occ_len s" "in_range s q"
  shows "occ_at (sv_watches (push_watch q w s)) =
    (occ_at (sv_watches s))(lit_index q := occ_at (sv_watches s) (lit_index q) @ [w])"
  using assms lit_index_less [OF assms(2)]
  by (auto simp: push_watch_def occ_push_def occ_at_def occ_len_def fun_eq_iff nth_list_update)

lemma prop_inv_new_watch:
  assumes inv: "prop_inv s p (kept @ w # ws)"
    and ls: "clause_lits s (w_cref w) ! 1 = neg_lit p"
    and k: "2 \<le> k" "k < length (clause_lits s (w_cref w))"
    and b: "w_blocker w = clause_lits s (w_cref w) ! 0"
  defines "cr \<equiv> w_cref w" and "ls \<equiv> clause_lits s (w_cref w)"
  defines "ks \<equiv> ls[1 := ls ! k, k := neg_lit p]"
  shows "reorders s cr ks"
    "prop_inv (push_watch (neg_lit (ls ! k)) w (set_lits cr ks s)) p (kept @ ws)"
proof -
  have "w \<in> set (kept @ w # ws)" by simp
  note w = prop_inv_watcher [OF inv this, folded cr_def ls_def]
  have ks: "ks = list_swap ls 1 k" using ls by (simp add: ks_def list_swap_def ls_def)
  have in1: "1 < length ls" "k < length ls" using k by (simp_all add: ls_def)
  show re: "reorders s cr ks" using w mset_list_swap [OF in1] by (simp add: reorders_def ks ls_def cr_def)
  let ?s1 = "set_lits cr ks s" and ?q = "neg_lit (ls ! k)"
  let ?s2 = "push_watch ?q w ?s1"
  have core: "core_wf ?s2" using core_wf_push_watch core_wf_set_lits [OF re] inv by (simp add: prop_inv_def)
  have q: "in_range s ?q" using w(3) in1 by (auto simp: clause_ok_def ls_def cr_def)
  have d: "distinct ls" using w(3) by (simp add: clause_ok_def)
  have in0: "0 < length ls" using in1 by linarith
  have neq: "ls ! k \<noteq> ls ! 0" "ls ! k \<noteq> neg_lit p"
    using d in0 in1 k(1) ls nth_eq_iff_index_eq [OF d in1(2) in0] nth_eq_iff_index_eq [OF d in1(2,1)]
    by (simp_all add: ls_def)
  then have qp: "?q \<noteq> p" by auto
  have idx: "lit_index ?q \<noteq> lit_index p"
    using lit_index_eq [OF q, of p] prop_inv_parts(6) [OF inv] qp by simp
  have W: "watch_ok s (watches_with s p (kept @ w # ws))" using inv by (simp add: prop_inv_def)
  have occ: "watches_with ?s2 p (kept @ ws) = (watches_with s p (kept @ ws))
      (lit_index ?q := occ_at (sv_watches s) (lit_index ?q) @ [w])"
    using occ_at_push [of ?s1 ?q w] core_wf_set_lits [OF re] inv q idx
    by (auto simp: prop_inv_def core_wf_def fun_eq_iff)
  have cl: "clause_lits ?s2 cr' = (if cr' = cr then ks else clause_lits s cr')" for cr'
    using w(5) by (simp add: clause_lits_set_lits cr_def)
  have ks01: "ks ! 0 = ls ! 0" "ks ! 1 = ls ! k"
    using nth_list_swap [OF in1] k(1) by (simp_all add: ks)
  have only: "x \<notin> set (watches_with s p (kept @ ws) (lit_index r))" if "w_cref x = cr" "in_range s r" "r \<noteq> neg_lit (ls ! 0)" for x r
  proof
    assume x: "x \<in> set (watches_with s p (kept @ ws) (lit_index r))"
    have "r \<noteq> p" using x that(1) w(6) by (auto simp: cr_def image_iff) metis+
    then have ne: "lit_index r \<noteq> lit_index p"
      using lit_index_eq [OF that(2) prop_inv_parts(6) [OF inv]] by simp
    then have "x \<in> set (watches_with s p (kept @ w # ws) (lit_index r))" using x by simp
    from watch_okD(3) [OF W that(2) this] have "neg_lit r \<in> {ls ! 0, ls ! 1}"
      unfolding that(1) ls_def cr_def .
    moreover have "neg_lit r \<noteq> ls ! 0" using that(3) by (metis neg_neg)
    moreover have "neg_lit r \<noteq> ls ! 1" using \<open>r \<noteq> p\<close> ls by (simp add: ls_def)
    ultimately show False by simp
  qed
  have "distinct (map w_cref (watches_with ?s2 p (kept @ ws) (lit_index r))) \<and>
      (\<forall>x\<in>set (watches_with ?s2 p (kept @ ws) (lit_index r)). w_cref x \<in> set (db s) \<and>
        in_range s (w_blocker x) \<and>
        neg_lit r \<in> {clause_lits ?s2 (w_cref x) ! 0, clause_lits ?s2 (w_cref x) ! 1})"
    if r: "in_range s r" for r
  proof -
    have Wr: "distinct (map w_cref (watches_with s p (kept @ w # ws) (lit_index r))) \<and>
        (\<forall>x\<in>set (watches_with s p (kept @ w # ws) (lit_index r)). w_cref x \<in> set (db s) \<and>
          in_range s (w_blocker x) \<and>
          neg_lit r \<in> {clause_lits s (w_cref x) ! 0, clause_lits s (w_cref x) ! 1})"
      using W r by (simp add: watch_ok_def)
    then have Wr': "distinct (map w_cref (watches_with s p (kept @ ws) (lit_index r)))"
        "\<forall>x\<in>set (watches_with s p (kept @ ws) (lit_index r)). w_cref x \<in> set (db s) \<and>
          in_range s (w_blocker x) \<and>
          neg_lit r \<in> {clause_lits s (w_cref x) ! 0, clause_lits s (w_cref x) ! 1}"
      by (auto split: if_splits)
    have old: "neg_lit r \<in> {clause_lits ?s2 (w_cref x) ! 0, clause_lits ?s2 (w_cref x) ! 1}"
      if x: "x \<in> set (watches_with s p (kept @ ws) (lit_index r))" for x
    proof (cases "w_cref x = cr")
      case True
      then have "r = neg_lit (ls ! 0)" using only [of x r] x r by blast
      then show ?thesis unfolding cl [of "w_cref x"] using True ks01 by simp
    next
      case False
      then show ?thesis unfolding cl [of "w_cref x"] using Wr'(2) x by simp
    qed
    show ?thesis
    proof (cases "r = ?q")
      case False
      then have "lit_index r \<noteq> lit_index ?q" using lit_index_eq [OF r q] by simp
      then have eq: "watches_with ?s2 p (kept @ ws) (lit_index r) = watches_with s p (kept @ ws) (lit_index r)"
        by (simp add: occ)
      show ?thesis unfolding eq using Wr' old by blast
    next
      case True
      have eq: "watches_with s p (kept @ ws) (lit_index r) = occ_at (sv_watches s) (lit_index ?q)"
        using idx True by simp
      have new: "cr \<notin> w_cref ` set (occ_at (sv_watches s) (lit_index ?q))"
        using only [of _ r] r True neq eq by auto
      have "watches_with ?s2 p (kept @ ws) (lit_index r) = occ_at (sv_watches s) (lit_index ?q) @ [w]"
        using True by (simp add: occ)
      moreover have "neg_lit r = clause_lits ?s2 (w_cref w) ! 1"
        unfolding cl [of "w_cref w"] using True ks01 by (simp add: cr_def)
      ultimately show ?thesis
        using Wr'[unfolded eq] old [unfolded eq] new w(1,2) by (auto simp: cr_def)
    qed
  qed
  then have "watch_ok ?s2 (watches_with ?s2 p (kept @ ws))" by (simp add: watch_ok_def)
  then show "prop_inv ?s2 p (kept @ ws)" using core inv by (simp add: prop_inv_def)
qed

lemma prop_inv_entails:
  assumes inv: "prop_inv s p ws" and w: "w \<in> set ws" and ls: "clause_lits s (w_cref w) ! 1 = neg_lit p"
    and rest: "\<forall>k. 2 \<le> k \<and> k < length (clause_lits s (w_cref w)) \<longrightarrow>
      value_lit s (clause_lits s (w_cref w) ! k) = LFalse"
    and m: "msat s \<sigma>"
  shows "lit_val \<sigma> (clause_lits s (w_cref w) ! 0)"
proof -
  note w = prop_inv_watcher [OF inv w]
  note val = msat_value(2) [OF prop_inv_parts(1) [OF inv] _ m]
  obtain k where k: "k < length (clause_lits s (w_cref w))" "lit_val \<sigma> (clause_lits s (w_cref w) ! k)"
    using m w(1) by (fastforce simp: msat_def clause_sat_def in_set_conv_nth)
  have "in_range s (clause_lits s (w_cref w) ! k)" using w(3) k(1) by (auto simp: clause_ok_def)
  then have "\<not> 2 \<le> k" using rest k val by blast
  moreover have "k \<noteq> 1"
    using k(2) ls val [of "neg_lit p"] prop_inv_parts [OF inv] by auto
  ultimately have "k = 0" by linarith
  then show ?thesis using k(2) by simp
qed

lemma prop_inv_enqueue:
  assumes inv: "prop_inv s p ws" and w: "w \<in> set ws"
    and u: "value_lit s (clause_lits s (w_cref w) ! 0) = LUndef"
  shows "prop_inv (uncheckedEnqueue (clause_lits s (w_cref w) ! 0) r s) p ws"
proof -
  let ?l = "clause_lits s (w_cref w) ! 0"
  note w = prop_inv_watcher [OF inv w]
  have in0: "?l \<in> set (clause_lits s (w_cref w))"
    by (rule nth_mem) (use w(3) in \<open>auto simp: clause_ok_def\<close>)
  have rng: "in_range s ?l" using clause_ok_nth [OF w(3)] by simp
  have fr: "var ?l \<notin> set (sv_free_vars s)"
    using prop_inv_parts(4) [OF inv] w(1) in0 by (auto simp: free_wf_def)
  have "core_wf (uncheckedEnqueue ?l r s)"
    using core_wf_enqueue [OF _ rng u fr] inv by (simp add: prop_inv_def)
  moreover have "value_lit (uncheckedEnqueue ?l r s) p = LTrue"
    using value_enqueue [OF _ rng, of p] prop_inv_parts [OF inv] u by (auto simp: assign_wf_def)
  ultimately show ?thesis using inv by (simp add: prop_inv_def)
qed

lemma qhead_simps [simp]:
  "nVars (s\<lparr>sv_qhead := n\<rparr>) = nVars s"
  "in_range (s\<lparr>sv_qhead := n\<rparr>) = in_range s"
  "value_lit (s\<lparr>sv_qhead := n\<rparr>) = value_lit s"
  by (simp_all add: nVars_def in_range_def value_lit_def value_var_def fun_eq_iff)

lemma core_wf_qhead: "n \<le> length (sv_trail s) \<Longrightarrow> core_wf s \<Longrightarrow> core_wf (s\<lparr>sv_qhead := n\<rparr>)"
  by (simp add: core_wf_def assign_wf_def level_wf_def db_wf_def clause_ok_def free_wf_def const_wf_def
      root_trail_def occ_len_def level_def value_var_def cong: list.case_cong)

lemma frame_qhead: "frame s (s\<lparr>sv_qhead := n\<rparr>)"
  by (simp add: frame_def nVars_def)

lemma msat_qhead [simp]: "msat (s\<lparr>sv_qhead := n\<rparr>) \<sigma> = msat s \<sigma>"
  by (simp add: msat_def)

lemma watch_ok_qhead [simp]: "watch_ok (s\<lparr>sv_qhead := n\<rparr>) W = watch_ok s W"
  by (simp add: watch_ok_def)

lemma prop_inv_qhead: "n \<le> length (sv_trail s) \<Longrightarrow> prop_inv s p ws \<Longrightarrow> prop_inv (s\<lparr>sv_qhead := n\<rparr>) p ws"
  by (simp add: prop_inv_def core_wf_qhead)

lemma frame_enqueue: "frame s (uncheckedEnqueue p r s)"
  by (simp add: frame_def)

subsection \<open>The loop over a watch list\<close>

definition prop_post :: "solver \<Rightarrow> lit \<Rightarrow> watcher list \<times> nat option \<times> solver \<Rightarrow> bool" where
  "prop_post s p = (\<lambda>(ws, c, s'). prop_inv s' p ws \<and> frame s s' \<and> (\<forall>\<sigma>. msat s' \<sigma> = msat s \<sigma>) \<and>
     (c \<noteq> None \<longrightarrow> (\<forall>\<sigma>. \<not> msat s \<sigma>)) \<and>
     sv_qhead s' = (if c = None then sv_qhead s else length (sv_trail s')))"

lemma prop_post_trans:
  assumes "prop_post t p r" "frame s t" "\<And>\<sigma>. msat t \<sigma> = msat s \<sigma>" "sv_qhead t = sv_qhead s"
  shows "prop_post s p r"
  using assms frame_trans [of s t] by (cases r) (auto simp: prop_post_def)

lemma prop_loop_post:
  "prop_inv s p (kept @ ws) \<Longrightarrow> prop_post s p (prop_loop p ws kept s)"
proof (induction ws arbitrary: kept s)
  case Nil
  then show ?case by (simp add: prop_post_def)
next
  case (Cons w ws)
  note inv = Cons.prems
  have step: "prop_inv s p ((kept @ [w]) @ ws)" using inv by simp
  let ?cr = "w_cref w"
  let ?ls = "swap_watch (neg_lit p) (clause_lits s ?cr)"
  let ?s1 = "set_lits ?cr ?ls s" and ?w = "\<lparr>w_cref = ?cr, w_blocker = ?ls ! 0\<rparr>"
  note sw = prop_inv_swap [OF inv]
  have cl: "clause_lits ?s1 ?cr = ?ls"
    using sw(1) by (simp add: clause_lits_set_lits reorders_def)
  have inv1: "prop_inv ?s1 p (kept @ ?w # ws)" by (rule sw(4))
  have from1: "prop_post s p r" if "prop_post ?s1 p r" for r
    by (rule prop_post_trans [OF that]) (use sw(1) in \<open>simp_all add: frame_set_lits msat_set_lits\<close>)
  show ?case
  proof (cases "value_lit s (w_blocker w) = LTrue")
    case True
    then show ?thesis using Cons.IH [OF step] by simp
  next
    case nb: False
    have keep: "prop_post s p (prop_loop p ws (kept @ [?w]) ?s1)"
      by (rule from1, rule Cons.IH) (use inv1 in simp)
    show ?thesis
    proof (cases "find_new_watch ?s1 ?ls")
      case (Some k)
      note k = find_new_watch_spec(1) [OF Some]
      let ?ks = "?ls[1 := ?ls ! k, k := neg_lit p]"
      let ?s2 = "push_watch (neg_lit (?ls ! k)) ?w (set_lits ?cr ?ks ?s1)"
      note nw = prop_inv_new_watch [OF inv1, of k, unfolded watcher.simps cl, OF sw(2) _ _ refl]
      have re: "reorders ?s1 ?cr ?ks" and inv2: "prop_inv ?s2 p (kept @ ws)" using nw k by auto
      have "prop_post ?s1 p (prop_loop p ws kept ?s2)"
        by (rule prop_post_trans [OF Cons.IH [OF inv2]])
          (use re frame_trans [OF frame_set_lits [OF re] frame_push_watch] in \<open>simp_all add: msat_set_lits\<close>)
      then show ?thesis using nb keep from1 Some by (simp add: Let_def)
    next
      case None
      note all_false = find_new_watch_spec(2) [OF None]
      have ent: "lit_val \<sigma> (?ls ! 0)" if "msat ?s1 \<sigma>" for \<sigma>
        using prop_inv_entails [OF inv1, of ?w \<sigma>, unfolded watcher.simps cl] sw(2) all_false that by simp
      have r0: "in_range ?s1 (?ls ! 0)" using clause_ok_nth [OF sw(3)] by simp
      show ?thesis
      proof (cases "value_lit ?s1 (?ls ! 0)")
        case LTrue
        then have "?ls ! 0 \<noteq> w_blocker w" using nb by auto
        then show ?thesis using nb keep LTrue by (simp add: Let_def)
      next
        case LFalse
        have "\<not> msat ?s1 \<sigma>" for \<sigma>
          using ent msat_value(2) [OF prop_inv_parts(1) [OF inv1] r0 _ LFalse] by blast
        then have "prop_post ?s1 p (kept @ [?w] @ ws, Some ?cr, ?s1\<lparr>sv_qhead := length (sv_trail ?s1)\<rparr>)"
          using prop_inv_qhead [OF _ inv1] frame_qhead by (simp add: prop_post_def)
        then show ?thesis using nb keep LFalse None from1 by (simp add: Let_def)
      next
        case LUndef
        let ?s2 = "uncheckedEnqueue (?ls ! 0) (Some ?cr) ?s1"
        have "prop_inv ?s2 p ((kept @ [?w]) @ ws)"
          using prop_inv_enqueue [OF inv1, of ?w, unfolded watcher.simps cl] LUndef by simp
        then have "prop_post ?s1 p (prop_loop p ws (kept @ [?w]) ?s2)"
          by (rule prop_post_trans [OF Cons.IH])
            (use ent in \<open>auto simp: frame_enqueue msat_enqueue\<close>)
        then show ?thesis using nb keep LUndef None from1 by (simp add: Let_def)
      qed
    qed
  qed
qed

subsection \<open>The loop over the queue\<close>

lemma set_watches_simps [simp]:
  "nVars (set_watches p ws s) = nVars s"
  "in_range (set_watches p ws s) = in_range s"
  "value_lit (set_watches p ws s) = value_lit s"
  "value_var (set_watches p ws s) = value_var s"
  "level (set_watches p ws s) = level s"
  "sv_assigns (set_watches p ws s) = sv_assigns s"
  "sv_trail (set_watches p ws s) = sv_trail s"
  "sv_trail_lim (set_watches p ws s) = sv_trail_lim s"
  "sv_to_reenqueue (set_watches p ws s) = sv_to_reenqueue s"
  "sv_qhead (set_watches p ws s) = sv_qhead s"
  "sv_ca (set_watches p ws s) = sv_ca s"
  "sv_clauses (set_watches p ws s) = sv_clauses s"
  "db (set_watches p ws s) = db s"
  "sv_ok (set_watches p ws s) = sv_ok s"
  "sv_free_vars (set_watches p ws s) = sv_free_vars s"
  "sv_const_true (set_watches p ws s) = sv_const_true s"
  by (simp_all add: set_watches_def nVars_def in_range_def value_lit_def value_var_def level_def fun_eq_iff)

lemma core_wf_watches:
  assumes "core_wf s" "occ_wf ol" "length (occs ol) = length (occs (sv_watches s))"
  shows "core_wf (s\<lparr>sv_watches := ol\<rparr>)"
proof -
  have [simp]: "nVars (s\<lparr>sv_watches := ol\<rparr>) = nVars s" "in_range (s\<lparr>sv_watches := ol\<rparr>) = in_range s"
    "value_lit (s\<lparr>sv_watches := ol\<rparr>) = value_lit s" "value_var (s\<lparr>sv_watches := ol\<rparr>) = value_var s"
    "level (s\<lparr>sv_watches := ol\<rparr>) = level s"
    by (simp_all add: nVars_def in_range_def value_lit_def value_var_def level_def fun_eq_iff)
  show ?thesis using assms
    by (simp add: core_wf_def assign_wf_def level_wf_def db_wf_def clause_ok_def free_wf_def const_wf_def
        root_trail_def occ_len_def cong: list.case_cong)
qed

lemma frame_watches: "frame s (s\<lparr>sv_watches := ol\<rparr>)"
  by (simp add: frame_def nVars_def)

lemma msat_watches [simp]: "msat (s\<lparr>sv_watches := ol\<rparr>) \<sigma> = msat s \<sigma>"
  by (simp add: msat_def)

lemma prop_inv_close:
  assumes "prop_inv s p ws"
  shows "solver_wf (set_watches p ws s)"
proof -
  have c: "core_wf s" "watch_ok s (watches_with s p ws)" "in_range s p" "occ_len s"
    using assms by (simp_all add: prop_inv_def core_wf_def)
  have "core_wf (set_watches p ws s)"
    unfolding set_watches_def using c(1,4) by (intro core_wf_watches) (simp_all add: occ_len_def occ_wf_update)
  moreover have "occ_at (sv_watches (set_watches p ws s)) = watches_with s p ws"
    using lit_index_less [OF c(3)] c(4)
    by (auto simp: set_watches_def occ_set_def occ_at_def occ_len_def fun_eq_iff nth_list_update)
  ultimately show ?thesis using c(2) by (simp add: solver_wf_def watch_ok_def)
qed

lemma trail_length_le:
  assumes "assign_wf s"
  shows "length (sv_trail s) \<le> nVars s"
proof -
  have "distinct (map var (sv_trail s))" "set (map var (sv_trail s)) \<subseteq> {0..<int (nVars s)}"
    using assms by (auto simp: assign_wf_def in_range_def)
  then have "length (map var (sv_trail s)) \<le> card {0..<int (nVars s)}"
    by (metis distinct_card card_mono finite_atLeastLessThan_int)
  then show ?thesis by simp
qed

definition prop_done :: "solver \<Rightarrow> nat option \<Rightarrow> solver \<Rightarrow> bool" where
  "prop_done s c s' \<longleftrightarrow> solver_wf s' \<and> frame s s' \<and> (\<forall>\<sigma>. msat s' \<sigma> = msat s \<sigma>) \<and>
     (c \<noteq> None \<longrightarrow> (\<forall>\<sigma>. \<not> msat s \<sigma>)) \<and> sv_qhead s' = length (sv_trail s')"

lemma prop_step_done:
  assumes wf: "solver_wf s" and q: "sv_qhead s < length (sv_trail s)"
    and l: "prop_loop (sv_trail s ! sv_qhead s) (occ_at (sv_watches s) (lit_index (sv_trail s ! sv_qhead s))) []
        (s\<lparr>sv_qhead := sv_qhead s + 1\<rparr>) = (kept, c, t)"
  defines "u \<equiv> set_watches (sv_trail s ! sv_qhead s) kept t"
  shows "solver_wf u" "frame s u" "\<And>\<sigma>. msat u \<sigma> = msat s \<sigma>" "c \<noteq> None \<Longrightarrow> \<not> msat s \<sigma>"
    "sv_qhead s < sv_qhead u" "nVars u = nVars s"
proof -
  let ?p = "sv_trail s ! sv_qhead s" and ?s1 = "s\<lparr>sv_qhead := sv_qhead s + 1\<rparr>"
  have p: "in_range s ?p" "value_lit s ?p = LTrue"
    using wf q by (simp_all add: solver_wf_def core_wf_def assign_wf_def)
  have "prop_inv ?s1 ?p ([] @ occ_at (sv_watches s) (lit_index ?p))"
    using core_wf_qhead [of "sv_qhead s + 1" s] wf q p by (simp add: prop_inv_def solver_wf_def)
  then have post: "prop_post ?s1 ?p (kept, c, t)" using prop_loop_post l by metis
  then show "solver_wf u" using prop_inv_close by (simp add: prop_post_def u_def)
  have "frame ?s1 t" using post by (simp add: prop_post_def)
  then show fr: "frame s u"
    unfolding u_def set_watches_def by (metis frame_trans frame_qhead frame_watches)
  show "msat u \<sigma> = msat s \<sigma>" for \<sigma> using post by (simp add: prop_post_def u_def set_watches_def)
  show "c \<noteq> None \<Longrightarrow> \<not> msat s \<sigma>" using post by (simp add: prop_post_def)
  show "nVars u = nVars s" using fr by (simp add: frame_def)
  have "length (sv_trail s) \<le> length (sv_trail t)"
    using post by (auto simp: prop_post_def frame_def)
  then show "sv_qhead s < sv_qhead u" using post q by (auto simp: prop_post_def u_def split: if_splits)
qed

lemma prop_fuel_done:
  assumes "solver_wf s" "nVars s - sv_qhead s < n" "confl \<noteq> None \<Longrightarrow> \<forall>\<sigma>. \<not> msat s \<sigma>"
  shows "\<exists>c s'. prop_fuel n confl s = Some (c, s') \<and> prop_done s c s'"
  using assms
proof (induction n arbitrary: confl s)
  case (Suc n)
  have wf: "assign_wf s" "level_wf s" using Suc.prems(1) by (simp_all add: solver_wf_def core_wf_def)
  show ?case
  proof (cases "sv_qhead s < length (sv_trail s)")
    case True
    let ?p = "sv_trail s ! sv_qhead s"
    obtain kept c t where l: "prop_loop ?p (occ_at (sv_watches s) (lit_index ?p)) []
        (s\<lparr>sv_qhead := sv_qhead s + 1\<rparr>) = (kept, c, t)" by (metis prod_cases3)
    note st = prop_step_done [OF Suc.prems(1) True l]
    let ?u = "set_watches ?p kept t" and ?c = "case c of None \<Rightarrow> confl | Some cr \<Rightarrow> Some cr"
    have "nVars ?u - sv_qhead ?u < n"
      using st(5,6) Suc.prems(2) True trail_length_le [OF wf(1)] by simp
    moreover have "?c \<noteq> None \<Longrightarrow> \<forall>\<sigma>. \<not> msat ?u \<sigma>"
      using st(3,4) Suc.prems(3) by (cases c) auto
    ultimately obtain c' s' where *: "prop_fuel n ?c ?u = Some (c', s')" "prop_done ?u c' s'"
      using Suc.IH [OF st(1), of ?c] by blast
    then have "prop_done s c' s'" using st(3) frame_trans [OF st(2)] by (simp add: prop_done_def)
    moreover have "prop_fuel (Suc n) confl s = Some (c', s')" using True l *(1) by (simp add: Let_def)
    ultimately show ?thesis by blast
  next
    case False
    then show ?thesis using Suc.prems wf(2) by (auto simp: prop_done_def level_wf_def)
  qed
qed simp

subsection \<open>Propagation\<close>

lemma cleanAll_nothing:
  assumes "occ_wf ol" "\<forall>i<length (occs ol). \<forall>e\<in>set (occs ol ! i). \<not> D e"
  shows "occs (occ_cleanAll D ol) = occs ol" "occ_wf (occ_cleanAll D ol)"
proof -
  have len: "length (dirty ol) = length (occs ol)" "set (dirties ol) \<subseteq> {..<length (occs ol)}"
    using assms(1) by (simp_all add: occ_wf_def)
  note c = clean_each_spec [OF len, of D]
  show "occs (occ_cleanAll D ol) = occs ol"
    by (rule nth_equalityI) (use c assms(2) in \<open>auto simp: occ_cleanAll_def filter_id_conv\<close>)
  show "occ_wf (occ_cleanAll D ol)"
    using c assms(1) by (auto simp: occ_cleanAll_def occ_wf_def)
qed

lemma watchers_not_deleted:
  assumes "solver_wf s" "i < length (occs (sv_watches s))" "w \<in> set (occs (sv_watches s) ! i)"
  shows "\<not> watcher_deleted s w"
proof -
  let ?q = "Lit (int i)"
  have i: "i < 2 * nVars s" using assms by (simp add: solver_wf_def core_wf_def occ_len_def)
  then have q: "in_range s ?q" "lit_index ?q = i"
    by (auto simp: in_range_def var_div lit_index_def toInt_lit_def)
  have "w_cref w \<in> set (db s)"
    using assms q watch_okD(1) [of s "occ_at (sv_watches s)" ?q w] by (simp add: solver_wf_def occ_at_def)
  then show ?thesis using assms(1) by (simp add: solver_wf_def core_wf_def db_wf_def watcher_deleted_def)
qed

lemma propagate_done:
  assumes wf: "solver_wf s"
  shows "\<exists>c s'. propagate s = Some (c, s') \<and> prop_done s c s'"
proof (cases "sv_qhead s = length (sv_trail s)")
  case True
  then show ?thesis using wf by (auto simp: propagate_def prop_done_def)
next
  case False
  let ?ol = "occ_cleanAll (watcher_deleted s) (sv_watches s)"
  let ?s = "s\<lparr>sv_watches := ?ol\<rparr>"
  have "occ_wf (sv_watches s)" using wf by (simp add: solver_wf_def core_wf_def occ_len_def)
  note cl = cleanAll_nothing [OF this, of "watcher_deleted s"]
  have ol: "occs ?ol = occs (sv_watches s)" "occ_wf ?ol"
    using cl watchers_not_deleted [OF wf] by auto
  then have "solver_wf ?s"
    using wf core_wf_watches [of s ?ol] by (simp add: solver_wf_def watch_ok_def occ_at_def [abs_def] in_range_def nVars_def)
  moreover have "nVars ?s - sv_qhead ?s < Suc (nVars s)" by (simp add: nVars_def less_Suc_eq_le)
  ultimately obtain c s' where *: "prop_fuel (Suc (nVars s)) None ?s = Some (c, s')" "prop_done ?s c s'"
    using prop_fuel_done [of ?s "Suc (nVars s)" None] by blast
  have "frame s s'" using *(2) frame_trans [OF frame_watches] unfolding prop_done_def by blast
  then have "prop_done s c s'" using *(2) by (simp add: prop_done_def)
  then show ?thesis using False *(1) by (simp add: propagate_def del: prop_fuel.simps)
qed

end
