(* ===== verification/Solver_Ops.thy ===== *)
theory Solver_Ops
  imports Propagation
begin

text \<open>
  The operations of the solver's interface: what each of them does to the set of satisfying
  assignments, and that each keeps the invariant.
\<close>

subsection \<open>Meaning and variables in use\<close>

lemma solver_wf_parts:
  assumes "solver_wf s"
  shows "assign_wf s" "level_wf s" "db_wf s" "free_wf s" "const_wf s" "occ_len s" "core_wf s"
    "watch_ok s (occ_at (sv_watches s))"
  using assms by (simp_all add: solver_wf_def core_wf_def)

lemma root_trail_subset: "set (root_trail s) \<subseteq> set (sv_trail s)"
  by (auto simp: root_trail_def dest: in_set_takeD split: list.splits)

lemma models_root: "sv_trail_lim s = [] \<Longrightarrow> models s = (if sv_ok s then {\<sigma>. msat s \<sigma>} else {})"
  by (simp add: models_def msat_def root_trail_def)

lemma used_vars_range: "var l \<in> used_vars s \<Longrightarrow> in_range s l"
  by (simp add: used_vars_def in_range_def)

lemma stored_used:
  assumes "solver_wf s"
  shows "l \<in> set (sv_trail s) \<Longrightarrow> var l \<in> used_vars s"
    "cr \<in> set (db s) \<Longrightarrow> l \<in> set (clause_lits s cr) \<Longrightarrow> var l \<in> used_vars s"
  using solver_wf_parts(1,3,4) [OF assms]
  by (auto simp: assign_wf_def db_wf_def clause_ok_def free_wf_def used_vars_def in_range_def)

lemma models_cong:
  assumes "solver_wf s" "\<And>v. v \<in> used_vars s \<Longrightarrow> \<sigma> v = \<tau> v" "\<sigma> \<in> models s"
  shows "\<tau> \<in> models s"
proof -
  have "lit_val \<tau> l = lit_val \<sigma> l" if "var l \<in> used_vars s" for l
    using assms(2) [OF that] by (simp add: lit_val_def)
  then show ?thesis
    using assms(3) stored_used [OF assms(1)] root_trail_subset [of s]
    by (auto simp: models_def clause_sat_def subset_iff split: if_splits)
qed

subsection \<open>Backtracking\<close>

lemma cancel_loop_eq:
  "(\<And>l. l \<in> set ls \<Longrightarrow> lev < level s (var l)) \<Longrightarrow>
   cancel_loop lev ls s = s\<lparr>sv_assigns := fold (\<lambda>l a. a[nat (var l) := LUndef]) ls (sv_assigns s)\<rparr>"
proof (induction ls arbitrary: s)
  case (Cons l ls)
  have "\<not> level s (var l) \<le> lev" using Cons.prems [of l] by simp
  then show ?case using Cons.IH [of "s\<lparr>sv_assigns := (sv_assigns s)[nat (var l) := LUndef]\<rparr>"] Cons.prems
    by (simp add: level_def)
qed simp

lemma fold_undef:
  "length (fold (\<lambda>l a. a[nat (var l) := LUndef]) ls a) = length a"
  "v < length a \<Longrightarrow> fold (\<lambda>l a. a[nat (var l) := LUndef]) ls a ! v =
     (if v \<in> (\<lambda>l. nat (var l)) ` set ls then LUndef else a ! v)"
  by (induction ls arbitrary: a) (auto simp: nth_list_update)

lemma level_above:
  assumes "level_wf s" "lev < decisionLevel s" "i < length (sv_trail s)" "sv_trail_lim s ! lev \<le> i"
  shows "lev < level s (var (sv_trail s ! i))"
proof -
  let ?lim = "sv_trail_lim s"
  have srt: "sorted ?lim" using assms(1) by (simp add: level_wf_def)
  have "filter (\<lambda>n. n \<le> i) (take (Suc lev) ?lim) = take (Suc lev) ?lim"
  proof (rule filter_True, rule ballI)
    fix n assume "n \<in> set (take (Suc lev) ?lim)"
    then obtain k where "k \<le> lev" "k < length ?lim" "n = ?lim ! k"
      by (auto simp: in_set_conv_nth less_Suc_eq_le)
    then show "n \<le> i" using sorted_nth_mono [OF srt, of k lev] assms(2,4) by (simp add: decisionLevel_def)
  qed
  then have "Suc lev \<le> length (filter (\<lambda>n. n \<le> i) (take (Suc lev) ?lim @ drop (Suc lev) ?lim))"
    using assms(2) by (simp only: filter_append length_append) (simp add: decisionLevel_def)
  then show ?thesis using assms(1,3) by (simp add: level_wf_def)
qed

lemma filter_below:
  assumes "sorted lim" "lev < length lim" "i < lim ! lev"
  shows "filter (\<lambda>n. n \<le> i) (take lev lim) = filter (\<lambda>n. n \<le> i) lim"
proof -
  have "filter (\<lambda>n. n \<le> i) (drop lev lim) = []"
  proof (rule filter_False, rule ballI)
    fix n assume "n \<in> set (drop lev lim)"
    then obtain j where "j < length (drop lev lim)" "n = drop lev lim ! j" by (metis in_set_conv_nth)
    then obtain k where "lev \<le> k" "k < length lim" "n = lim ! k" by (auto intro: that [of "lev + j"])
    then show "\<not> n \<le> i" using sorted_nth_mono [OF assms(1), of lev k] assms(3) by simp
  qed
  then show ?thesis by (metis append_Nil2 append_take_drop_id filter_append)
qed

lemma cancelUntil_fields:
  assumes "level_wf s" "lev < decisionLevel s"
  defines "n \<equiv> sv_trail_lim s ! lev"
  shows "cancelUntil lev s = s\<lparr>sv_assigns := fold (\<lambda>l a. a[nat (var l) := LUndef]) (rev (drop n (sv_trail s))) (sv_assigns s),
     sv_qhead := n, sv_trail := take n (sv_trail s), sv_trail_lim := take lev (sv_trail_lim s)\<rparr>"
proof -
  have above: "lev < level s (var l)" if l: "l \<in> set (rev (drop n (sv_trail s)))" for l
  proof -
    obtain i where "i < length (drop n (sv_trail s))" "l = drop n (sv_trail s) ! i"
      using l unfolding set_rev in_set_conv_nth by blast
    then have "n + i < length (sv_trail s)" "l = sv_trail s ! (n + i)" by simp_all
    then show ?thesis using level_above [OF assms(1,2), of "n + i"] by (simp add: n_def)
  qed
  have "cancel_loop lev (rev (drop n (sv_trail s))) s = s\<lparr>sv_assigns :=
      fold (\<lambda>l a. a[nat (var l) := LUndef]) (rev (drop n (sv_trail s))) (sv_assigns s)\<rparr>"
    by (rule cancel_loop_eq, rule above)
  moreover have "sv_to_reenqueue s = []" using assms(1) by (simp add: level_wf_def)
  ultimately show ?thesis using assms(2) by (simp add: cancelUntil_def n_def Let_def)
qed

lemma cancelUntil_value:
  assumes wf: "assign_wf s" and n: "n \<le> length (sv_trail s)" and l: "in_range s l"
  defines "a \<equiv> fold (\<lambda>l a. a[nat (var l) := LUndef]) (rev (drop n (sv_trail s))) (sv_assigns s)"
  shows "value_lit (s\<lparr>sv_assigns := a\<rparr>) l =
    (if l \<in> set (take n (sv_trail s)) then LTrue
     else if neg_lit l \<in> set (take n (sv_trail s)) then LFalse else LUndef)"
proof -
  let ?T = "sv_trail s" and ?kept = "set (take n (sv_trail s))" and ?gone = "set (drop n (sv_trail s))"
  have dj: "var k \<notin> var ` ?gone" if k: "k \<in> ?kept" for k
  proof -
    have "distinct (map var (take n ?T @ drop n ?T))" using wf by (simp add: assign_wf_def)
    then have "set (map var (take n ?T)) \<inter> set (map var (drop n ?T)) = {}"
      unfolding map_append distinct_append by blast
    then show ?thesis using k by auto
  qed
  have len: "nat (var l) < length (sv_assigns s)" using wf l nat_var_less by (simp add: assign_wf_def)
  have mem: "nat (var l) \<in> (\<lambda>l. nat (var l)) ` set (rev (drop n ?T)) \<longleftrightarrow> var l \<in> var ` ?gone"
  proof -
    have "in_range s k" if "k \<in> ?gone" for k using wf that by (auto simp: assign_wf_def dest: in_set_dropD)
    then show ?thesis using nat_var_eq [OF l] by (auto simp: image_iff)
  qed
  have a: "a ! nat (var l) = (if var l \<in> var ` ?gone then LUndef else sv_assigns s ! nat (var l))"
    using fold_undef(2) [OF len] mem by (simp add: a_def)
  have val: "value_lit (s\<lparr>sv_assigns := a\<rparr>) l = (if var l \<in> var ` ?gone then LUndef else value_lit s l)"
    using a by (simp add: value_lit_def value_var_def)
  have un: "k \<in> set ?T \<longleftrightarrow> k \<in> ?kept \<or> k \<in> ?gone" for k
    by (metis Un_iff append_take_drop_id set_append)
  show ?thesis
  proof (cases "var l \<in> var ` ?gone")
    case True
    then show ?thesis using val dj [of l] dj [of "neg_lit l"] by auto
  next
    case False
    then have "l \<notin> ?gone" "neg_lit l \<notin> ?gone" using imageI [of "neg_lit l" ?gone var] by auto
    then show ?thesis
      using val False trail_value [OF wf l] un [of l] un [of "neg_lit l"] by (cases "value_lit s l") auto
  qed
qed

lemma cancelUntil_wf:
  assumes wf: "solver_wf s"
  shows "solver_wf (cancelUntil lev s) \<and> models (cancelUntil lev s) = models s \<and>
    root_trail (cancelUntil lev s) = root_trail s \<and> used_vars (cancelUntil lev s) = used_vars s \<and>
    decisionLevel (cancelUntil lev s) = min lev (decisionLevel s) \<and>
    sv_const_true (cancelUntil lev s) = sv_const_true s \<and> sv_ok (cancelUntil lev s) = sv_ok s \<and>
    sv_clauses (cancelUntil lev s) = sv_clauses s \<and> sv_learnts (cancelUntil lev s) = sv_learnts s \<and> sv_ca (cancelUntil lev s) = sv_ca s \<and>
    sv_free_vars (cancelUntil lev s) = sv_free_vars s \<and> nVars (cancelUntil lev s) = nVars s"
proof (cases "lev < decisionLevel s")
  case True
  note p = solver_wf_parts [OF wf]
  let ?n = "sv_trail_lim s ! lev" and ?lim = "sv_trail_lim s" and ?T = "sv_trail s"
  let ?c = "cancelUntil lev s"
  have lev: "lev < length ?lim" using True by (simp add: decisionLevel_def)
  have srt: "sorted ?lim" and n: "?n \<le> length ?T" using p(2) lev by (simp_all add: level_wf_def)
  note c = cancelUntil_fields [OF p(2) True]
  have nv [simp]: "nVars ?c = nVars s" "in_range ?c = in_range s" "level ?c = level s"
    by (simp_all add: c nVars_def in_range_def level_def fun_eq_iff)
  have rt: "root_trail ?c = root_trail s"
  proof (cases "lev = 0")
    case True
    then show ?thesis using lev c by (cases ?lim) (simp_all add: root_trail_def)
  next
    case False
    then obtain m ms where m: "?lim = m # ms" "take lev ?lim = m # take (lev - 1) ms"
      using lev by (cases ?lim; cases lev) auto
    have "m \<le> ?n" using m sorted_nth_mono [OF srt, of 0 lev] lev by simp
    then show ?thesis using m by (simp add: c root_trail_def min_def)
  qed
  have val: "value_lit ?c l = (if l \<in> set (take ?n ?T) then LTrue
     else if neg_lit l \<in> set (take ?n ?T) then LFalse else LUndef)" if "in_range s l" for l
  proof -
    have "value_lit ?c l = value_lit (s\<lparr>sv_assigns :=
        fold (\<lambda>l a. a[nat (var l) := LUndef]) (rev (drop ?n ?T)) (sv_assigns s)\<rparr>) l"
      by (simp add: c value_lit_def value_var_def)
    also note cancelUntil_value [OF p(1) n that]
    finally show ?thesis .
  qed
  have "assign_wf ?c"
  proof -
    have "v \<in> var ` set (take ?n ?T)" if "0 \<le> v" "v < int (nVars s)" "value_var ?c v \<noteq> LUndef" for v
    proof -
      have "value_lit ?c (mkLit v False) \<noteq> LUndef" using that(3) by (simp add: value_lit_def)
      then have "mkLit v False \<in> set (take ?n ?T) \<or> neg_lit (mkLit v False) \<in> set (take ?n ?T)"
        using val [of "mkLit v False"] that(1,2) by (auto simp: in_range_def split: if_splits)
      then show ?thesis by (metis imageI var_mkLit var_neg)
    qed
    moreover have "distinct (map var (take ?n ?T))"
      using p(1) by (simp add: assign_wf_def take_map [symmetric])
    moreover have "length (sv_assigns ?c) = nVars s" using p(1) by (simp add: assign_wf_def c fold_undef)
    moreover have "\<forall>l\<in>set (take ?n ?T). in_range s l \<and> value_lit ?c l = LTrue"
    proof
      fix l assume l: "l \<in> set (take ?n ?T)"
      then have "in_range s l" using p(1) by (auto simp: assign_wf_def dest: in_set_takeD)
      then show "in_range s l \<and> value_lit ?c l = LTrue" using val l by simp
    qed
    moreover have "sv_trail ?c = take ?n ?T" by (simp add: c)
    ultimately show ?thesis by (simp add: assign_wf_def)
  qed
  moreover have "level_wf ?c"
  proof -
    have "\<forall>m\<in>set (take lev ?lim). m \<le> ?n"
      using sorted_nth_mono [OF srt, of _ lev] lev by (auto simp: in_set_conv_nth)
    moreover have "level s (var (?T ! i)) = length (filter (\<lambda>m. m \<le> i) (take lev ?lim))"
      if "i < length ?T" "i < ?n" for i
      using filter_below [OF srt lev that(2)] p(2) that(1) by (simp add: level_wf_def)
    ultimately show ?thesis using p(2) srt n by (simp add: level_wf_def c level_def [abs_def] sorted_wrt_take)
  qed
  moreover have "db_wf ?c" using p(3) by (simp add: db_wf_def clause_ok_def) (simp add: c)
  moreover have "free_wf ?c"
  proof -
    have "var ` set (take ?n ?T) \<subseteq> var ` set ?T" by (auto dest: in_set_takeD)
    then show ?thesis using p(4) unfolding free_wf_def nv by (simp add: c) blast
  qed
  moreover have "const_wf ?c" using p(5) by (simp add: const_wf_def rt) (simp add: c)
  moreover have "occ_len ?c" using p(6) by (simp add: occ_len_def) (simp add: c)
  moreover have "watch_ok ?c (occ_at (sv_watches ?c))" using p(8) by (simp add: watch_ok_def) (simp add: c)
  moreover have "models ?c = models s" using rt by (simp add: models_def) (simp add: c)
  moreover have "decisionLevel ?c = lev" using lev by (simp add: decisionLevel_def c)
  ultimately show ?thesis using True rt
    by (simp add: solver_wf_def core_wf_def) (simp add: c used_vars_def nVars_def)
next
  case False
  then show ?thesis using wf by (simp add: cancelUntil_def)
qed

lemma cancelUntil_0_lim:
  "solver_wf s \<Longrightarrow> sv_trail_lim (cancelUntil 0 s) = []"
  using cancelUntil_wf [of s 0] by (simp add: decisionLevel_def)

subsection \<open>New variables\<close>

definition new_var_index :: "solver \<Rightarrow> int" where
  "new_var_index s = (if sv_free_vars s \<noteq> [] then last (sv_free_vars s) else int (nVars s))"

lemma new_var_index_fresh:
  assumes "solver_wf s"
  shows "new_var_index s \<notin> used_vars s" "0 \<le> new_var_index s"
    "new_var_index s \<notin> var ` set (sv_trail s)" "new_var_index s \<noteq> var (sv_const_true s)"
    "cr \<in> set (db s) \<Longrightarrow> new_var_index s \<notin> var ` set (clause_lits s cr)"
proof -
  note p = solver_wf_parts [OF assms]
  have c: "sv_const_true s = lit_Undef \<or> in_range s (sv_const_true s)" using p(5) by (auto simp: const_wf_def)
  have "new_var_index s \<notin> used_vars s \<and> 0 \<le> new_var_index s \<and>
    new_var_index s \<notin> var ` set (sv_trail s) \<and> new_var_index s \<noteq> var (sv_const_true s) \<and>
    (\<forall>cr\<in>set (db s). new_var_index s \<notin> var ` set (clause_lits s cr))"
  proof (cases "sv_free_vars s = []")
    case True
    then have v: "new_var_index s = int (nVars s)" by (simp add: new_var_index_def)
    have "var l \<noteq> int (nVars s)" if "in_range s l" for l using that by (simp add: in_range_def)
    then show ?thesis using p(1,3) c v unfolding v
      by (fastforce simp: used_vars_def assign_wf_def db_wf_def clause_ok_def)
  next
    case False
    then have "new_var_index s \<in> set (sv_free_vars s)" by (simp add: new_var_index_def)
    then show ?thesis using p(4) by (simp add: free_wf_def used_vars_def)
  qed
  then show "new_var_index s \<notin> used_vars s" "0 \<le> new_var_index s"
    "new_var_index s \<notin> var ` set (sv_trail s)" "new_var_index s \<noteq> var (sv_const_true s)"
    "cr \<in> set (db s) \<Longrightarrow> new_var_index s \<notin> var ` set (clause_lits s cr)"
    by blast+
qed

lemma newVar_fields:
  assumes "solver_wf s" "newVar s = (v, t)"
  shows "v = new_var_index s" "nVars t = max (nVars s) (Suc (nat v))"
    "sv_free_vars t = butlast (sv_free_vars s)" "sv_trail t = sv_trail s" "sv_trail_lim t = sv_trail_lim s"
    "sv_qhead t = sv_qhead s" "sv_ca t = sv_ca s" "sv_clauses t = sv_clauses s" "sv_ok t = sv_ok s"
    "sv_const_true t = sv_const_true s" "sv_to_reenqueue t = sv_to_reenqueue s"
    "length (sv_assigns t) = nVars t"
    "\<And>u. 0 \<le> u \<Longrightarrow> u < int (nVars t) \<Longrightarrow> value_var t u = (if u = v then LUndef else value_var s u)"
    "\<And>u. 0 \<le> u \<Longrightarrow> u < int (nVars t) \<Longrightarrow> u \<noteq> v \<Longrightarrow> u < int (nVars s) \<and> level t u = level s u"
    "sv_watches t = occ_init (lit_index (mkLit v True)) (occ_init (lit_index (mkLit v False)) (sv_watches s))"
    "sv_learnts t = sv_learnts s" "db t = db s"
    "\<And>u. 0 \<le> u \<Longrightarrow> u < int (nVars t) \<Longrightarrow> u \<noteq> v \<Longrightarrow> reason t u = reason s u"
proof -
  have len: "length (sv_assigns s) = nVars s" using assms(1) by (simp add: solver_wf_def core_wf_def assign_wf_def)
  have fr: "0 \<le> last (sv_free_vars s) \<and> last (sv_free_vars s) < int (nVars s)" if "sv_free_vars s \<noteq> []"
    using solver_wf_parts(4) [OF assms(1)] that by (auto simp: free_wf_def)
  have t: "t = (if sv_free_vars s \<noteq> [] then
        s\<lparr>sv_free_vars := butlast (sv_free_vars s), sv_watches := sv_watches t,
          sv_assigns := (sv_assigns s)[nat v := LUndef],
          sv_vardata := (sv_vardata s)[nat v := \<lparr>vd_reason = None, vd_level = 0\<rparr>]\<rparr>
      else s\<lparr>sv_assigns := sv_assigns s @ [LUndef], sv_watches := sv_watches t,
             sv_vardata := sv_vardata s @ [\<lparr>vd_reason = None, vd_level = 0\<rparr>]\<rparr>)"
    and v: "v = new_var_index s"
    and w: "sv_watches t = occ_init (lit_index (mkLit v True)) (occ_init (lit_index (mkLit v False)) (sv_watches s))"
    using assms(2) len
    by (auto simp: newVar_def Let_def new_var_index_def nVars_def list_update_append split: if_splits)
  show "v = new_var_index s" by (fact v)
  show "sv_watches t = occ_init (lit_index (mkLit v True)) (occ_init (lit_index (mkLit v False)) (sv_watches s))"
    by (fact w)
  show nv: "nVars t = max (nVars s) (Suc (nat v))"
    using v fr by (subst t) (auto simp: nVars_def new_var_index_def)
  show "sv_free_vars t = butlast (sv_free_vars s)" "sv_trail t = sv_trail s" "sv_trail_lim t = sv_trail_lim s"
    "sv_qhead t = sv_qhead s" "sv_ca t = sv_ca s" "sv_clauses t = sv_clauses s" "sv_learnts t = sv_learnts s" "db t = db s" "sv_ok t = sv_ok s"
    "sv_const_true t = sv_const_true s" "sv_to_reenqueue t = sv_to_reenqueue s"
    by (subst t; simp)+
  show "length (sv_assigns t) = nVars t"
    using len by (subst t, subst (3) t) (simp add: nVars_def)
  have va: "sv_assigns t ! nat u = (if u = v then LUndef else sv_assigns s ! nat u) \<and>
      (u \<noteq> v \<longrightarrow> u < int (nVars s) \<and> sv_vardata t ! nat u = sv_vardata s ! nat u)"
    if u: "0 \<le> u" "u < int (nVars t)" for u
  proof (cases "sv_free_vars s = []")
    case True
    then have "v = int (nVars s)" using v by (simp add: new_var_index_def)
    then show ?thesis using u len True nv by (subst t, subst (2) t) (auto simp: nth_append nVars_def)
  next
    case False
    then have "v = last (sv_free_vars s)" "nat v < nVars s" "0 \<le> v"
      using v fr by (auto simp: new_var_index_def)
    then show ?thesis using u len False nv by (subst t, subst (2) t) (auto simp: nVars_def nth_list_update)
  qed
  then show "value_var t u = (if u = v then LUndef else value_var s u)" if "0 \<le> u" "u < int (nVars t)" for u
    using that by (simp add: value_var_def)
  show "u < int (nVars s) \<and> level t u = level s u" if "0 \<le> u" "u < int (nVars t)" "u \<noteq> v" for u
    using va [OF that(1,2)] that(3) by (simp add: level_def)
  show "reason t u = reason s u" if "0 \<le> u" "u < int (nVars t)" "u \<noteq> v" for u
    using va [OF that(1,2)] that(3) by (simp add: reason_def)
qed

lemma newVar_occ:
  assumes wf: "solver_wf s" and nv: "newVar s = (v, t)"
  shows "occ_len t \<and> (\<forall>i<2 * nVars t. occ_at (sv_watches t) i =
    (if i < 2 * nVars s \<and> i \<noteq> lit_index (mkLit v False) \<and> i \<noteq> lit_index (mkLit v True)
     then occ_at (sv_watches s) i else []))"
proof -
  note p = solver_wf_parts [OF wf] and f = newVar_fields [OF wf nv]
  note fresh = new_var_index_fresh [OF wf, folded f(1)]
  obtain k where k: "v = int k" using fresh(2) nonneg_int_cases by blast
  have i: "lit_index (mkLit (int k) False) = 2 * k" "lit_index (mkLit (int k) True) = 2 * k + 1"
    by (simp_all add: lit_index_def toInt_lit_def mkLit_def nat_add_distrib)
  let ?w = "sv_watches s"
  have len: "length (occs ?w) = 2 * nVars s" "occ_wf ?w" using p(6) by (simp_all add: occ_len_def)
  have n2: "2 * nVars t = max (2 * k + 1 + 1) (max (2 * k + 1) (length (occs ?w)))"
    using f(2) len(1) k by (simp add: max_def)
  have "occ_at (sv_watches t) i = (if i < 2 * nVars s \<and> i \<noteq> 2 * k \<and> i \<noteq> 2 * k + 1 then occ_at ?w i else [])"
    if j: "i < 2 * nVars t" for i
  proof -
    have "i < max (2 * k + 1 + 1) (length (occs (occ_init (2 * k) ?w)))"
      using j n2 by (simp only: length_occ_simps)
    from occs_init [OF this] show ?thesis
      using occs_init [of i "2 * k" ?w] len(1) unfolding f(15) occ_at_def k i
      by (cases "i = 2 * k + 1") (auto simp: less_max_iff_disj)
  qed
  moreover have "occ_len t"
    using len n2 unfolding occ_len_def f(15) k i by (simp only: length_occ_simps occ_wf_init)
  ultimately show ?thesis unfolding k i by blast
qed

lemma newVar_watches:
  assumes wf: "solver_wf s" and nv: "newVar s = (v, t)" and q: "in_range t q"
  shows "occ_at (sv_watches t) (lit_index q) = (if var q = v then [] else occ_at (sv_watches s) (lit_index q))"
    "var q \<noteq> v \<Longrightarrow> in_range s q"
proof -
  note f = newVar_fields [OF wf nv] and occ = newVar_occ [OF wf nv]
  note fresh = new_var_index_fresh [OF wf, folded f(1)]
  show bk: "in_range s q" if "var q \<noteq> v" using f(14) [of "var q"] q that by (auto simp: in_range_def)
  show "occ_at (sv_watches t) (lit_index q) = (if var q = v then [] else occ_at (sv_watches s) (lit_index q))"
  proof (cases "var q = v")
    case True
    then have "q = mkLit v False \<or> q = mkLit v True" by (simp add: lit_eq_iff)
    then show ?thesis using True occ lit_index_less [OF q] by auto
  next
    case False
    have "v < int (nVars t)" using f(2) fresh(2) by auto
    then have "in_range t (mkLit v False)" "in_range t (mkLit v True)" using fresh(2) by (simp_all add: in_range_def)
    then have "lit_index q \<noteq> lit_index (mkLit v False)" "lit_index q \<noteq> lit_index (mkLit v True)"
      using lit_index_eq [OF q] False by auto
    then show ?thesis using False occ lit_index_less [OF q] lit_index_less [OF bk [OF False]] by auto
  qed
qed

lemma newVar_wf:
  assumes wf: "solver_wf s" and nv: "newVar s = (v, t)"
  shows "solver_wf t" "models t = models s" "v \<notin> used_vars s" "0 \<le> v" "used_vars t = insert v (used_vars s)"
    "sv_trail_lim t = sv_trail_lim s" "sv_ok t = sv_ok s" "sv_const_true t = sv_const_true s"
proof -
  note p = solver_wf_parts [OF wf]
  note f = newVar_fields [OF wf nv]
  note fresh = new_var_index_fresh [OF wf, folded f(1)]
  have mono: "in_range s l \<Longrightarrow> in_range t l" for l using f(2) by (auto simp: in_range_def)
  have bk: "in_range t l \<Longrightarrow> var l \<noteq> v \<Longrightarrow> in_range s l" for l
    using f(14) [of "var l"] by (auto simp: in_range_def)
  have val: "value_lit t l = value_lit s l" if "in_range t l" "var l \<noteq> v" for l
    using f(13) [of "var l"] that by (simp add: value_lit_def in_range_def)
  have vr: "v < int (nVars t)" using f(2) fresh(2) by auto
  show "0 \<le> v" "v \<notin> used_vars s" by (fact fresh)+
  show u: "used_vars t = insert v (used_vars s)"
  proof (cases "sv_free_vars s = []")
    case True
    then have "v = int (nVars s)" using f(1) by (simp add: new_var_index_def)
    then show ?thesis using True f(2,3) by (auto simp: used_vars_def)
  next
    case False
    then obtain vs w where vs: "sv_free_vars s = vs @ [w]" by (metis rev_exhaust)
    then have w: "w = v" using f(1) by (simp add: new_var_index_def)
    then have "v < int (nVars s)" "v \<notin> set vs" using p(4) vs by (auto simp: free_wf_def)
    then have "nVars t = nVars s" using f(2) fresh(2) by auto
    then show ?thesis using vs w f(3) \<open>v \<notin> set vs\<close> \<open>v < int (nVars s)\<close> fresh(2) by (auto simp: used_vars_def)
  qed
  have rt: "root_trail t = root_trail s" by (simp only: root_trail_def f(4,5))
  show "models t = models s" using rt f by (simp add: models_def)
  have "assign_wf t"
  proof -
    have "in_range t l \<and> value_lit t l = LTrue" if l: "l \<in> set (sv_trail s)" for l
      using p(1) l mono val fresh(3) by (force simp: assign_wf_def)
    moreover have "x \<in> var ` set (sv_trail s)" if x: "0 \<le> x" "x < int (nVars t)" "value_var t x \<noteq> LUndef" for x
      using f(13,14) [OF x(1,2)] x p(1) by (auto simp: assign_wf_def split: if_splits)
    ultimately show ?thesis using p(1) f by (simp add: assign_wf_def)
  qed
  moreover have "level_wf t"
  proof -
    have "level t (var (sv_trail s ! i)) = level s (var (sv_trail s ! i))" if i: "i < length (sv_trail s)" for i
    proof -
      have "sv_trail s ! i \<in> set (sv_trail s)" using i by simp
      then have "in_range t (sv_trail s ! i)" "var (sv_trail s ! i) \<noteq> v"
        using p(1) mono fresh(3) by (auto simp: assign_wf_def)
      then show ?thesis using f(14) by (simp add: in_range_def)
    qed
    then show ?thesis using p(2) f by (simp add: level_wf_def)
  qed
  moreover have "db_wf t" using p(3) f mono by (simp add: db_wf_def clause_ok_def)
  moreover have "free_wf t"
    using p(4) f(2,3,4,7,10,17) by (fastforce simp: free_wf_def distinct_butlast dest: in_set_butlastD)
  moreover have "const_wf t" using p(5) rt f mono by (auto simp: const_wf_def)
  moreover note occ = newVar_occ [OF wf nv]
  moreover have "watch_ok t (occ_at (sv_watches t))"
    unfolding watch_ok_def
  proof (intro allI impI)
    fix q assume q: "in_range t q"
    show "distinct (map w_cref (occ_at (sv_watches t) (lit_index q))) \<and>
        (\<forall>w\<in>set (occ_at (sv_watches t) (lit_index q)). w_cref w \<in> set (db t) \<and>
          in_range t (w_blocker w) \<and> neg_lit q \<in> {clause_lits t (w_cref w) ! 0, clause_lits t (w_cref w) ! 1})"
      using newVar_watches [OF wf nv q] p(8) mono f(7,17) by (auto simp: watch_ok_def)
  qed
  ultimately show "solver_wf t" by (simp add: solver_wf_def core_wf_def)
  show "sv_trail_lim t = sv_trail_lim s" "sv_ok t = sv_ok s" "sv_const_true t = sv_const_true s" by (fact f)+
qed

subsection \<open>Adding clauses\<close>

text \<open>What \<open>clause_scan\<close> returns on sorted literals, at decision level 0.\<close>

lemma clause_scan_spec:
  assumes "\<forall>l\<in>set ls. in_range s l" "sorted_wrt (<) kept" "p = last (lit_Undef # kept)"
    "\<forall>k\<in>set kept. in_range s k \<and> value_lit s k = LUndef \<and> (\<forall>l\<in>set ls. k \<le> l)" "sorted ls"
    "\<not> tautology kept"
  shows "case clause_scan s p kept ls of
      None \<Rightarrow> (\<exists>l\<in>set ls. value_lit s l = LTrue) \<or> tautology (kept @ ls)
    | Some rs \<Rightarrow> sorted_wrt (<) rs \<and> \<not> tautology rs \<and> set rs \<subseteq> set (kept @ ls) \<and>
        (\<forall>l\<in>set rs. in_range s l \<and> value_lit s l = LUndef) \<and>
        (\<forall>l\<in>set (kept @ ls). l \<in> set rs \<or> value_lit s l = LFalse)"
  using assms
proof (induction ls arbitrary: p kept)
  case (Cons l ls)
  have l: "in_range s l" using Cons.prems(1) by simp
  have neq: "lit_Undef \<noteq> l" "lit_Undef \<noteq> neg_lit l"
    using l var_neg [of l] by (auto simp: in_range_def simp del: var_neg)
  have ple: "p = lit_Undef \<or> p \<in> set kept" using Cons.prems(3) by (auto split: if_splits)
  have max_p: "k \<le> p" if "k \<in> set kept" for k
  proof -
    have "kept \<noteq> []" "sorted kept" using that Cons.prems(2) by (auto simp: strict_sorted_imp_sorted)
    then show ?thesis using that Cons.prems(3) by (simp add: sorted_le_last)
  qed
  consider "value_lit s l = LTrue \<or> l = neg_lit p" | "value_lit s l = LFalse" | "value_lit s l = LUndef" "l \<noteq> neg_lit p"
    by (cases "value_lit s l") auto
  then show ?case
  proof cases
    case 1
    have "tautology (kept @ l # ls)" if "l = neg_lit p"
      using that ple neq by (auto simp: tautology_def neg_eq_swap)
    then show ?thesis using 1 by auto
  next
    case 2
    have *: "case clause_scan s p kept ls of
        None \<Rightarrow> (\<exists>l\<in>set ls. value_lit s l = LTrue) \<or> tautology (kept @ ls)
      | Some rs \<Rightarrow> sorted_wrt (<) rs \<and> \<not> tautology rs \<and> set rs \<subseteq> set (kept @ ls) \<and>
          (\<forall>l\<in>set rs. in_range s l \<and> value_lit s l = LUndef) \<and>
          (\<forall>l\<in>set (kept @ ls). l \<in> set rs \<or> value_lit s l = LFalse)"
      using Cons.prems by (intro Cons.IH) auto
    have "tautology (kept @ ls) \<Longrightarrow> tautology (kept @ l # ls)" by (auto simp: tautology_def)
    moreover have "l = neg_lit p \<Longrightarrow> tautology (kept @ l # ls)"
      using ple neq by (auto simp: tautology_def neg_eq_swap)
    ultimately show ?thesis using 2 * by (auto split: option.splits)
  next
    case 3
    show ?thesis
    proof (cases "l = p")
      case True
      then have lk: "l \<in> set kept" using ple neq by auto
      have *: "case clause_scan s p kept ls of
          None \<Rightarrow> (\<exists>l\<in>set ls. value_lit s l = LTrue) \<or> tautology (kept @ ls)
        | Some rs \<Rightarrow> sorted_wrt (<) rs \<and> \<not> tautology rs \<and> set rs \<subseteq> set (kept @ ls) \<and>
            (\<forall>l\<in>set rs. in_range s l \<and> value_lit s l = LUndef) \<and>
            (\<forall>l\<in>set (kept @ ls). l \<in> set rs \<or> value_lit s l = LFalse)"
        using Cons.prems by (intro Cons.IH) auto
      have eq: "set (kept @ l # ls) = set (kept @ ls)" using lk by auto
      have "tautology (kept @ l # ls) = tautology (kept @ ls)" unfolding tautology_def eq ..
      then show ?thesis using 3 True * lk by (auto split: option.splits)
    next
      case False
      have lt: "k < l" if "k \<in> set kept" for k
      proof -
        have "p \<in> set kept" using Cons.prems(3) that by (cases kept) auto
        then have "k \<le> p" "p \<le> l" using max_p [OF that] Cons.prems(4) by auto
        then show ?thesis using False by simp
      qed
      have srt: "sorted_wrt (<) (kept @ [l])" using Cons.prems(2) lt by (simp add: sorted_wrt_append)
      have "neg_lit l \<notin> set kept"
      proof
        assume n: "neg_lit l \<in> set kept"
        then have "neg_lit l < l" "neg_lit l \<le> p" "p \<in> set kept" 
          using lt max_p Cons.prems(3) by (auto split: if_splits)
        moreover have "p < l" using \<open>p \<in> set kept\<close> by (rule lt)
        ultimately have "p = neg_lit l"
          by (auto simp: less_lit_def less_eq_lit_def x_of_neg lit.expand split: if_splits)
        then show False using 3 by simp
      qed
      then have taut: "\<not> tautology (kept @ [l])" using Cons.prems(6) by (auto simp: tautology_def neg_eq_swap)
      have *: "case clause_scan s l (kept @ [l]) ls of
          None \<Rightarrow> (\<exists>l\<in>set ls. value_lit s l = LTrue) \<or> tautology ((kept @ [l]) @ ls)
        | Some rs \<Rightarrow> sorted_wrt (<) rs \<and> \<not> tautology rs \<and> set rs \<subseteq> set ((kept @ [l]) @ ls) \<and>
            (\<forall>l\<in>set rs. in_range s l \<and> value_lit s l = LUndef) \<and>
            (\<forall>l\<in>set ((kept @ [l]) @ ls). l \<in> set rs \<or> value_lit s l = LFalse)"
        using Cons.prems srt taut l 3(1) by (intro Cons.IH) auto
      then show ?thesis using 3 False by (auto split: option.splits)
    qed
  qed
qed simp

lemma clause_scan_sorted:
  assumes "\<forall>l\<in>set ps. in_range s l"
  shows "case clause_scan s lit_Undef [] (sort ps) of
      None \<Rightarrow> (\<exists>l\<in>set ps. value_lit s l = LTrue) \<or> tautology ps
    | Some rs \<Rightarrow> distinct rs \<and> \<not> tautology rs \<and> set rs \<subseteq> set ps \<and>
        (\<forall>l\<in>set rs. in_range s l \<and> value_lit s l = LUndef) \<and>
        (\<forall>l\<in>set ps. l \<in> set rs \<or> value_lit s l = LFalse)"
proof -
  have "tautology (sort ps) = tautology ps" by (simp add: tautology_def)
  then show ?thesis
    using clause_scan_spec [of "sort ps" s "[]" lit_Undef] assms
    by (auto simp: tautology_def strict_sorted_iff split: option.splits)
qed

lemma clause_sat_tautology: "tautology ps \<Longrightarrow> clause_sat \<sigma> ps"
  unfolding tautology_def clause_sat_def by (metis lit_val_neg)

text \<open>A clause stored in the arena and the clause list, not yet watched.\<close>

definition stored :: "lit list \<Rightarrow> bool \<Rightarrow> solver \<Rightarrow> solver" where
  "stored rs d s = s\<lparr>sv_ca := sv_ca s @ [(new_clause rs (sv_extra_clause_field s) False)\<lparr>c_derived := d\<rparr>],
     sv_clauses := sv_clauses s @ [length (sv_ca s)]\<rparr>"

lemma stored_simps [simp]:
  "nVars (stored rs d s) = nVars s" "in_range (stored rs d s) = in_range s"
  "value_lit (stored rs d s) = value_lit s" "value_var (stored rs d s) = value_var s"
  "level (stored rs d s) = level s" "sv_assigns (stored rs d s) = sv_assigns s"
  "sv_trail (stored rs d s) = sv_trail s" "sv_trail_lim (stored rs d s) = sv_trail_lim s"
  "sv_qhead (stored rs d s) = sv_qhead s" "sv_to_reenqueue (stored rs d s) = sv_to_reenqueue s"
  "sv_clauses (stored rs d s) = sv_clauses s @ [length (sv_ca s)]"
  "set (db (stored rs d s)) = insert (length (sv_ca s)) (set (db s))"
  "length (sv_ca (stored rs d s)) = Suc (length (sv_ca s))"
  "sv_watches (stored rs d s) = sv_watches s" "sv_ok (stored rs d s) = sv_ok s"
  "sv_free_vars (stored rs d s) = sv_free_vars s" "sv_const_true (stored rs d s) = sv_const_true s"
  by (simp_all add: stored_def db_def nVars_def in_range_def value_lit_def value_var_def level_def fun_eq_iff)

lemma clause_lits_stored [simp]:
  "cr < length (sv_ca s) \<Longrightarrow> clause_lits (stored rs d s) cr = clause_lits s cr"
  "clause_lits (stored rs d s) (length (sv_ca s)) = rs"
  by (simp_all add: stored_def nth_append new_clause_def)

lemma mark_stored [simp]:
  "cr < length (sv_ca s) \<Longrightarrow> c_mark (sv_ca (stored rs d s) ! cr) = c_mark (sv_ca s ! cr)"
  "c_mark (sv_ca (stored rs d s) ! length (sv_ca s)) = 0"
  by (simp_all add: stored_def nth_append new_clause_def)

lemma stored_wf:
  assumes wf: "solver_wf s" and ok: "clause_ok s rs" and used: "\<forall>l\<in>set rs. var l \<in> used_vars s"
  shows "solver_wf (stored rs d s)"
proof -
  note p = solver_wf_parts [OF wf]
  have lt: "cr < length (sv_ca s)" if "cr \<in> set (db s)" for cr using p(3) that by (simp add: db_wf_def)
  have "assign_wf (stored rs d s)" using p(1) by (simp add: assign_wf_def)
  moreover have "level_wf (stored rs d s)" using p(2) by (simp add: level_wf_def)
  moreover have "db_wf (stored rs d s)" using p(3) ok by (auto simp: db_wf_def clause_ok_def)
  moreover have "free_wf (stored rs d s)"
    using p(4) used lt by (auto simp: free_wf_def used_vars_def)
  moreover have "const_wf (stored rs d s)"
    using p(5) by (simp add: const_wf_def root_trail_def cong: list.case_cong)
  moreover have "occ_len (stored rs d s)" using p(6) by (simp add: occ_len_def)
  moreover have "watch_ok (stored rs d s) (occ_at (sv_watches (stored rs d s)))"
    unfolding watch_ok_def
  proof (intro allI impI conjI ballI)
    fix q w assume q: "in_range (stored rs d s) q"
    then show "distinct (map w_cref (occ_at (sv_watches (stored rs d s)) (lit_index q)))"
      using p(8) by (simp add: watch_ok_def)
    assume w: "w \<in> set (occ_at (sv_watches (stored rs d s)) (lit_index q))"
    note ww = watch_okD [OF p(8), of q w]
    show "w_cref w \<in> set (db (stored rs d s))" "in_range (stored rs d s) (w_blocker w)"
      "neg_lit q \<in> {clause_lits (stored rs d s) (w_cref w) ! 0, clause_lits (stored rs d s) (w_cref w) ! 1}"
      using ww q w lt [of "w_cref w"] by simp_all
  qed
  ultimately show ?thesis by (simp add: solver_wf_def core_wf_def)
qed

text \<open>Watching a clause that no list of the literal holds yet.\<close>

lemma push_watch_wf:
  assumes wf: "solver_wf s" and q: "in_range s q" and cr: "w_cref w \<in> set (db s)"
    and b: "in_range s (w_blocker w)"
    and n: "neg_lit q \<in> {clause_lits s (w_cref w) ! 0, clause_lits s (w_cref w) ! 1}"
    and new: "w_cref w \<notin> w_cref ` set (occ_at (sv_watches s) (lit_index q))"
  shows "solver_wf (push_watch q w s)"
proof -
  note p = solver_wf_parts [OF wf]
  have "core_wf (push_watch q w s)" using p(7) by (rule core_wf_push_watch)
  moreover have "watch_ok (push_watch q w s) ((occ_at (sv_watches s))(lit_index q := occ_at (sv_watches s) (lit_index q) @ [w]))"
    unfolding watch_ok_def push_watch_simps
  proof (intro allI impI)
    fix r assume r: "in_range s r"
    have Wr: "distinct (map w_cref (occ_at (sv_watches s) (lit_index r))) \<and>
        (\<forall>w\<in>set (occ_at (sv_watches s) (lit_index r)). w_cref w \<in> set (db s) \<and> in_range s (w_blocker w) \<and>
          neg_lit r \<in> {clause_lits s (w_cref w) ! 0, clause_lits s (w_cref w) ! 1})"
      using p(8) r unfolding watch_ok_def by blast
    let ?W = "(occ_at (sv_watches s))(lit_index q := occ_at (sv_watches s) (lit_index q) @ [w])"
    show "distinct (map w_cref (?W (lit_index r))) \<and>
        (\<forall>w\<in>set (?W (lit_index r)). w_cref w \<in> set (db s) \<and> in_range s (w_blocker w) \<and>
          neg_lit r \<in> {clause_lits s (w_cref w) ! 0, clause_lits s (w_cref w) ! 1})"
    proof (cases "r = q")
      case True
      then show ?thesis using Wr cr b n new by auto
    next
      case False
      then have "lit_index r \<noteq> lit_index q" using lit_index_eq [OF r q] by simp
      then show ?thesis using Wr by simp
    qed
  qed
  ultimately show ?thesis using occ_at_push [OF p(6) q, of w] by (simp add: solver_wf_def)
qed

lemma attach_stored_wf:
  fixes s rs d
  assumes wf: "solver_wf s" and ok: "clause_ok s rs" and used: "\<forall>l\<in>set rs. var l \<in> used_vars s"
  defines "t \<equiv> attachClause (length (sv_ca s)) (stored rs d s)"
  shows "solver_wf t" "models t = models s \<inter> {\<sigma>. clause_sat \<sigma> rs}" "used_vars t = used_vars s"
    "sv_trail_lim t = sv_trail_lim s" "sv_ok t = sv_ok s" "sv_const_true t = sv_const_true s" "sv_trail t = sv_trail s"
proof -
  note p = solver_wf_parts [OF wf]
  let ?u = "stored rs d s" and ?cr = "length (sv_ca s)"
  let ?v = "push_watch (neg_lit (rs ! 0)) \<lparr>w_cref = ?cr, w_blocker = rs ! 1\<rparr> ?u"
  have t: "t = push_watch (neg_lit (rs ! 1)) \<lparr>w_cref = ?cr, w_blocker = rs ! 0\<rparr> ?v"
    by (simp add: t_def attachClause_def Let_def)
  have rng: "in_range s (rs ! 0)" "in_range s (rs ! 1)" using clause_ok_nth [OF ok] by simp_all
  have neq: "rs ! 0 \<noteq> rs ! 1"
  proof -
    have "distinct rs" "2 \<le> length rs" using ok by (simp_all add: clause_ok_def)
    moreover from this(2) have "0 < length rs" "1 < length rs" by linarith+
    ultimately show ?thesis using nth_eq_iff_index_eq [of rs 0 1] by simp
  qed
  have new: "?cr \<notin> w_cref ` set (occ_at (sv_watches s) (lit_index q))" if "in_range s q" for q
    using watch_okD(1) [OF p(8) that] p(3) by (auto simp: db_wf_def)
  have v: "solver_wf ?v"
    by (rule push_watch_wf [OF stored_wf [OF wf ok used]])
      (use rng new [of "neg_lit (rs ! 0)"] in simp_all)
  have "lit_index (neg_lit (rs ! 0)) \<noteq> lit_index (neg_lit (rs ! 1))"
    using lit_index_eq [of s "neg_lit (rs ! 0)" "neg_lit (rs ! 1)"] rng neq by simp
  then have "occ_at (sv_watches ?v) (lit_index (neg_lit (rs ! 1))) = occ_at (sv_watches s) (lit_index (neg_lit (rs ! 1)))"
    using occ_at_push [of ?u "neg_lit (rs ! 0)"] solver_wf_parts(6) [OF stored_wf [OF wf ok used, of d]] rng by simp
  then show "solver_wf t" unfolding t
    by (intro push_watch_wf [OF v]) (use rng new [of "neg_lit (rs ! 1)"] in simp_all)
  have lt: "cr < length (sv_ca s)" if "cr \<in> set (db s)" for cr using p(3) that by (simp add: db_wf_def)
  have "root_trail t = root_trail s" by (simp add: root_trail_def t cong: list.case_cong)
  then show "models t = models s \<inter> {\<sigma>. clause_sat \<sigma> rs}" using lt by (auto simp: models_def t)
  show "used_vars t = used_vars s" by (simp add: used_vars_def t)
  show "sv_trail_lim t = sv_trail_lim s" "sv_ok t = sv_ok s" "sv_const_true t = sv_const_true s" "sv_trail t = sv_trail s"
    by (simp_all add: t)
qed

lemma ok_simps [simp]:
  "nVars (s\<lparr>sv_ok := b\<rparr>) = nVars s" "in_range (s\<lparr>sv_ok := b\<rparr>) = in_range s"
  "value_lit (s\<lparr>sv_ok := b\<rparr>) = value_lit s" "value_var (s\<lparr>sv_ok := b\<rparr>) = value_var s"
  "level (s\<lparr>sv_ok := b\<rparr>) = level s" "root_trail (s\<lparr>sv_ok := b\<rparr>) = root_trail s"
  by (simp_all add: nVars_def in_range_def value_lit_def value_var_def level_def root_trail_def fun_eq_iff
      cong: list.case_cong)

lemma ok_update:
  assumes "solver_wf s" "b \<longrightarrow> sv_ok s"
  shows "solver_wf (s\<lparr>sv_ok := b\<rparr>)"
  using assms
  by (auto simp: solver_wf_def core_wf_def assign_wf_def level_wf_def db_wf_def clause_ok_def free_wf_def
      const_wf_def occ_len_def watch_ok_def)

text \<open>The contract of adding a clause: \<open>t\<close> is the state after it.\<close>

definition adds :: "solver \<Rightarrow> lit list \<Rightarrow> bool \<Rightarrow> solver \<Rightarrow> bool" where
  "adds s ps b t \<longleftrightarrow> solver_wf t \<and> models t = models s \<inter> {\<sigma>. clause_sat \<sigma> ps} \<and> used_vars t = used_vars s \<and>
     sv_trail_lim t = [] \<and> sv_const_true t = sv_const_true s \<and> (b \<longleftrightarrow> sv_ok t) \<and> (sv_ok t \<longrightarrow> sv_ok s) \<and>
     (\<exists>ext. sv_trail t = sv_trail s @ ext)"

lemma adds_unit:
  assumes wf: "solver_wf s" and l0: "sv_trail_lim s = []" and ok: "sv_ok s"
    and l: "var l \<in> used_vars s" "value_lit s l = LUndef"
    and ps: "\<And>\<sigma>. msat s \<sigma> \<Longrightarrow> clause_sat \<sigma> ps = lit_val \<sigma> l"
  shows "\<exists>c t. propagate (uncheckedEnqueue l None s) = Some (c, t) \<and> adds s ps (c = None) (t\<lparr>sv_ok := (c = None)\<rparr>) \<and>
    l \<in> set (sv_trail t)"
proof -
  let ?s1 = "uncheckedEnqueue l None s"
  have "var l \<notin> set (sv_free_vars s)" using l(1) by (simp add: used_vars_def)
  then have "solver_wf ?s1"
    using wf core_wf_enqueue [OF _ used_vars_range [OF l(1)] l(2)] by (simp add: solver_wf_def)
  from propagate_done [OF this] obtain c t where t: "propagate ?s1 = Some (c, t)" "prop_done ?s1 c t" by blast
  let ?t = "t\<lparr>sv_ok := (c = None)\<rparr>"
  have f: "solver_wf t" "sv_trail_lim t = []" "sv_ok t" "sv_const_true t = sv_const_true s" "nVars t = nVars s"
    "sv_free_vars t = sv_free_vars s" "\<exists>ext. sv_trail t = (sv_trail s @ [l]) @ ext"
    using t(2) l0 ok by (auto simp: prop_done_def frame_def)
  have m: "msat t \<sigma> \<longleftrightarrow> msat s \<sigma> \<and> lit_val \<sigma> l" "c \<noteq> None \<Longrightarrow> \<not> msat t \<sigma>" for \<sigma>
    using t(2) by (auto simp: prop_done_def msat_enqueue)
  have mt: "msat (t\<lparr>sv_ok := b\<rparr>) \<sigma> = msat t \<sigma>" for \<sigma> b by (simp add: msat_def)
  have "models ?t = models s \<inter> {\<sigma>. clause_sat \<sigma> ps}"
    using m ps f(2) l0 ok by (cases c) (auto simp: models_root mt)
  moreover have "used_vars ?t = used_vars s" using f by (simp add: used_vars_def nVars_def)
  moreover have "solver_wf ?t" using f by (simp add: ok_update)
  ultimately have "adds s ps (c = None) ?t" using f ok by (auto simp: adds_def)
  then show ?thesis using t(1) f(7) by auto
qed

lemma addClause'_eq:
  assumes "sv_trail_lim s = []" "sv_ok s" "\<forall>l\<in>set ps. in_range s l"
  shows "addClause' ps d s = (case clause_scan s lit_Undef [] (sort ps) of None \<Rightarrow> Some (True, s)
      | Some rs \<Rightarrow>
          if length rs = 0 then Some (False, s\<lparr>sv_ok := False\<rparr>)
          else if length rs = 1 then do {
            (confl, s1) \<leftarrow> propagate (uncheckedEnqueue (rs ! 0) None s);
            Some (confl = None, s1\<lparr>sv_ok := (confl = None)\<rparr>) }
          else Some (True, attachClause (length (sv_ca s)) (stored rs d s)))"
  using assms vec_sort_linorder [of ps]
  by (simp add: addClause'_def decisionLevel_def list_all_iff alloc_clause_def stored_def split: option.split)

lemma addClause'_spec:
  assumes wf: "solver_wf s" and l0: "sv_trail_lim s = []" and used: "\<forall>l\<in>set ps. var l \<in> used_vars s"
  shows "\<exists>b t. addClause' ps d s = Some (b, t) \<and> adds s ps b t"
proof (cases "sv_ok s")
  case False
  then have "addClause' ps d s = Some (False, s)" using l0 by (simp add: addClause'_def decisionLevel_def)
  then show ?thesis using wf l0 False by (auto simp: adds_def models_def)
next
  case True
  have rng: "\<forall>l\<in>set ps. in_range s l" using used used_vars_range by blast
  note start = addClause'_eq [OF l0 True rng]
  note a = solver_wf_parts(1) [OF wf]
  show ?thesis
  proof (cases "clause_scan s lit_Undef [] (sort ps)")
    case None
    then have "(\<exists>l\<in>set ps. value_lit s l = LTrue) \<or> tautology ps" using clause_scan_sorted [OF rng] by simp
    then have "clause_sat \<sigma> ps" if "msat s \<sigma>" for \<sigma>
      using msat_value(1) [OF a _ that] rng clause_sat_tautology by (auto simp: clause_sat_def)
    then show ?thesis using None True wf l0 start by (auto simp: adds_def models_root)
  next
    case (Some rs)
    have rs: "distinct rs" "\<not> tautology rs" "set rs \<subseteq> set ps"
        "\<forall>l\<in>set rs. in_range s l \<and> value_lit s l = LUndef"
        "\<forall>l\<in>set ps. l \<in> set rs \<or> value_lit s l = LFalse"
      using clause_scan_sorted [OF rng] Some by simp_all
    have eq: "clause_sat \<sigma> ps = clause_sat \<sigma> rs" if "msat s \<sigma>" for \<sigma>
      using rs(3,5) msat_value(2) [OF a _ that] rng by (auto simp: clause_sat_def)
    have used': "\<forall>l\<in>set rs. var l \<in> used_vars s" using used rs(3) by auto
    consider "length rs = 0" | "length rs = 1" | "2 \<le> length rs" by linarith
    then show ?thesis
    proof cases
      case 1
      have "models (s\<lparr>sv_ok := False\<rparr>) = models s \<inter> {\<sigma>. clause_sat \<sigma> ps}"
        using 1 eq l0 True by (auto simp: models_root)
      then have "adds s ps False (s\<lparr>sv_ok := False\<rparr>)" using wf l0
        by (simp add: adds_def ok_update used_vars_def)
      then show ?thesis using 1 Some start by auto
    next
      case 2
      then obtain l where l: "rs = [l]" by (auto simp: length_Suc_conv)
      then obtain c t where "propagate (uncheckedEnqueue l None s) = Some (c, t)"
        "adds s ps (c = None) (t\<lparr>sv_ok := (c = None)\<rparr>)"
        using adds_unit [OF wf l0 True, of l ps] used' rs(4) eq by auto
      then show ?thesis using Some start l by auto
    next
      case 3
      then have "clause_ok s rs" using rs by (simp add: clause_ok_def)
      note at = attach_stored_wf [OF wf this used', of d]
      have "models s \<inter> {\<sigma>. clause_sat \<sigma> rs} = models s \<inter> {\<sigma>. clause_sat \<sigma> ps}"
        using eq l0 True by (auto simp: models_root)
      then have "adds s ps True (attachClause (length (sv_ca s)) (stored rs d s))"
        using at l0 True by (simp add: adds_def)
      then show ?thesis using 3 Some start by auto
    qed
  qed
qed

lemma addClause_spec:
  assumes wf: "solver_wf s" and used: "\<forall>l\<in>set ps. var l \<in> used_vars s"
  shows "\<exists>b t. addClause ps s = Some (b, t) \<and> adds (cancelUntil 0 s) ps b t"
proof -
  note c = cancelUntil_wf [OF wf, of 0]
  have "solver_wf (cancelUntil 0 s)" "\<forall>l\<in>set ps. var l \<in> used_vars (cancelUntil 0 s)"
    using c used by simp_all
  from addClause'_spec [OF this(1) cancelUntil_0_lim [OF wf] this(2)] show ?thesis
    by (simp add: addClause_def)
qed

lemma addClause'_unit:
  assumes wf: "solver_wf s" and l0: "sv_trail_lim s = []" and ok: "sv_ok s"
    and l: "var l \<in> used_vars s" "value_lit s l = LUndef"
  shows "\<exists>b t. addClause' [l] d s = Some (b, t) \<and> adds s [l] b t \<and> l \<in> set (sv_trail t)"
proof -
  have "l \<noteq> neg_lit lit_Undef" "l \<noteq> lit_Undef" using l(1) by (auto simp: used_vars_def)
  then have scan: "clause_scan s lit_Undef [] [l] = Some [l]" using l(2) by simp
  obtain c t where "propagate (uncheckedEnqueue l None s) = Some (c, t)"
    "adds s [l] (c = None) (t\<lparr>sv_ok := (c = None)\<rparr>)" "l \<in> set (sv_trail t)"
    using adds_unit [OF wf l0 ok l, of "[l]"] by auto
  then show ?thesis
    using ok l0 scan used_vars_range [OF l(1)] vec_sort_linorder [of "[l]"]
    by (simp add: addClause'_def decisionLevel_def)
qed

subsection \<open>The constant literal\<close>

definition solver_inv :: "solver \<Rightarrow> bool" where
  "solver_inv s \<longleftrightarrow> solver_wf s \<and> const_asserted s"

lemma adds_const_asserted:
  assumes "adds s ps b t" "sv_trail_lim s = []" "const_asserted s"
  shows "const_asserted t"
  using assms
  by (auto simp: adds_def const_asserted_def root_trail_def)

lemma solver_inv_new: "solver_inv (new_solver extra)"
  by (auto simp: solver_inv_def solver_wf_def core_wf_def assign_wf_def level_wf_def db_wf_def free_wf_def
      const_wf_def occ_len_def occ_wf_def watch_ok_def in_range_def nVars_def new_solver_def const_asserted_def db_def)

lemma solver_inv_cancel: "solver_inv s \<Longrightarrow> solver_inv (cancelUntil lev s)"
  using cancelUntil_wf [of s lev] by (simp add: solver_inv_def const_asserted_def)

lemma solver_inv_newVar:
  assumes "solver_inv s" "newVar s = (v, t)"
  shows "solver_inv t"
proof -
  have wf: "solver_wf s" using assms(1) by (simp add: solver_inv_def)
  note f = newVar_fields [OF wf assms(2)]
  have "root_trail t = root_trail s" by (simp only: root_trail_def f(4,5))
  then show ?thesis using assms(1) newVar_wf(1) [OF wf assms(2)] f
    by (simp add: solver_inv_def const_asserted_def)
qed

lemma solver_inv_addClause:
  assumes "solver_inv s" "\<forall>l\<in>set ps. var l \<in> used_vars s"
  shows "\<exists>b t. addClause ps s = Some (b, t) \<and> adds (cancelUntil 0 s) ps b t \<and> solver_inv t"
proof -
  have wf: "solver_wf s" "const_asserted (cancelUntil 0 s)"
    using solver_inv_cancel [OF assms(1)] assms(1) by (simp_all add: solver_inv_def)
  obtain b t where t: "addClause ps s = Some (b, t)" "adds (cancelUntil 0 s) ps b t"
    using addClause_spec [OF wf(1) assms(2)] by blast
  then have "const_asserted t" using adds_const_asserted cancelUntil_0_lim [OF wf(1)] wf(2) by blast
  then show ?thesis using t by (auto simp: solver_inv_def adds_def)
qed

lemma const_true_update:
  assumes "solver_wf s" "in_range s t" "var t \<notin> set (sv_free_vars s)"
  shows "solver_wf (s\<lparr>sv_const_true := t\<rparr>)"
    "models (s\<lparr>sv_const_true := t\<rparr>) = models s" "used_vars (s\<lparr>sv_const_true := t\<rparr>) = used_vars s"
    "value_lit (s\<lparr>sv_const_true := t\<rparr>) = value_lit s"
proof -
  let ?s = "s\<lparr>sv_const_true := t\<rparr>"
  have [simp]: "nVars ?s = nVars s" "in_range ?s = in_range s"
    "value_lit ?s = value_lit s" "value_var ?s = value_var s" "level ?s = level s"
    by (simp_all add: nVars_def in_range_def value_lit_def value_var_def level_def fun_eq_iff)
  have [simp]: "root_trail ?s = root_trail s" by (simp add: root_trail_def cong: list.case_cong)
  show "solver_wf ?s" using assms
    by (auto simp: solver_wf_def core_wf_def assign_wf_def level_wf_def db_wf_def clause_ok_def free_wf_def
        const_wf_def occ_len_def watch_ok_def)
  show "models ?s = models s" by (simp add: models_def)
  show "used_vars ?s = used_vars s" by (simp add: used_vars_def)
  show "value_lit ?s = value_lit s" by simp
qed

text \<open>A literal true at level 0 holds in every model.\<close>

lemma root_true:
  assumes "solver_wf s" "in_range s l" "isConstantTrue s l" "\<sigma> \<in> models s"
  shows "lit_val \<sigma> l"
proof -
  note p = solver_wf_parts [OF assms(1)]
  have "l \<in> set (sv_trail s)" using trail_value(1) [OF p(1) assms(2)] assms(3) by (simp add: isConstantTrue_def)
  then obtain i where i: "i < length (sv_trail s)" "l = sv_trail s ! i" by (metis in_set_conv_nth)
  have "filter (\<lambda>n. n \<le> i) (sv_trail_lim s) = []"
    using p(2) assms(3) i by (simp add: level_wf_def isConstantTrue_def)
  then have "l \<in> set (root_trail s)"
    using i by (cases "sv_trail_lim s") (auto simp: root_trail_def in_set_conv_nth split: if_splits)
  then show ?thesis using assms(4) by (auto simp: models_def split: if_splits)
qed

lemma solver_True_spec:
  assumes inv: "solver_inv s"
  shows "\<exists>t u. solver_True s = Some (t, u) \<and> solver_inv u \<and> var t \<in> used_vars u \<and>
    used_vars s \<subseteq> used_vars u \<and> sv_const_true u = t \<and> (\<forall>\<sigma>\<in>models u. lit_val \<sigma> t) \<and> models u \<subseteq> models s \<and>
    (\<forall>\<sigma>\<in>models s. \<exists>\<tau>\<in>models u. \<forall>v\<in>used_vars s. \<tau> v = \<sigma> v)"
proof (cases "sv_const_true s = lit_Undef")
  case False
  have wf: "solver_wf s" "const_asserted s" using inv by (simp_all add: solver_inv_def)
  note p = solver_wf_parts [OF wf(1)]
  have "in_range s (sv_const_true s)" "var (sv_const_true s) \<notin> set (sv_free_vars s)"
    using p(4,5) False by (auto simp: const_wf_def free_wf_def)
  then have "var (sv_const_true s) \<in> used_vars s" by (simp add: used_vars_def in_range_def)
  moreover have "lit_val \<sigma> (sv_const_true s)" if "\<sigma> \<in> models s" for \<sigma>
    using that wf(2) False by (auto simp: const_asserted_def models_def split: if_splits)
  ultimately show ?thesis using False inv by (auto simp: solver_True_def)
next
  case True
  have wf0: "solver_wf s" using inv by (simp add: solver_inv_def)
  note c = cancelUntil_wf [OF wf0, of 0]
  obtain v s1 where nv: "newVar (cancelUntil 0 s) = (v, s1)" by fastforce
  have wfc: "solver_wf (cancelUntil 0 s)" using c by blast
  note n = newVar_wf [OF wfc nv] and f = newVar_fields [OF wfc nv]
  let ?t = "mkLit v False" and ?s2 = "s1\<lparr>sv_const_true := mkLit v False\<rparr>"
  have u1: "var ?t \<in> used_vars s1" using n(5) by simp
  then have "in_range s1 ?t" "var ?t \<notin> set (sv_free_vars s1)" using used_vars_range by (auto simp: used_vars_def)
  note k = const_true_update [OF n(1) this]
  have fresh: "v \<notin> used_vars s" using n(3) c by simp
  have us: "used_vars ?s2 = insert v (used_vars s)" using k(3) n(5) c by simp
  have ms: "models ?s2 = models s" using k(2) n(2) c by simp
  have t0: "?t \<noteq> lit_Undef" using n(4) by (auto simp: lit_eq_iff)
  show ?thesis
  proof (cases "sv_ok s")
    case False
    then have "\<not> sv_ok ?s2" using n(7) c by simp
    moreover from this have "solver_inv ?s2" using k by (simp add: solver_inv_def const_asserted_def)
    moreover have "models s = {}" using False by (simp add: models_def)
    moreover from calculation have "solver_True s = Some (?t, ?s2)" using True nv by (simp add: solver_True_def Let_def)
    ultimately show ?thesis using us ms by (intro exI [of _ ?t] exI [of _ ?s2]) auto
  next
    case ok: True
    then have ok2: "sv_ok ?s2" using n(7) c by simp
    have l0: "sv_trail_lim ?s2 = []" using n(6) cancelUntil_0_lim [OF wf0] by simp
    have und: "value_lit ?s2 ?t = LUndef"
      using f(2) f(13) [of v] n(4) by (simp add: k(4) value_lit_undef)
    have ut: "var ?t \<in> used_vars ?s2" by (simp add: us)
    obtain b u where u: "addClause' [?t] False ?s2 = Some (b, u)" "adds ?s2 [?t] b u" "?t \<in> set (sv_trail u)"
      using addClause'_unit [OF k(1) l0 ok2 ut und] by blast
    have "addClause [?t] ?s2 = Some (b, u)"
      using u(1) l0 by (simp add: addClause_def cancelUntil_def decisionLevel_def)
    moreover have a: "solver_wf u" "models u = models s \<inter> {\<sigma>. lit_val \<sigma> ?t}" "used_vars u = insert v (used_vars s)"
      "sv_trail_lim u = []" "sv_const_true u = ?t"
      using u(2) us ms by (simp_all add: adds_def)
    have "isConstantTrue u ?t"
    proof -
      note p = solver_wf_parts [OF a(1)]
      obtain i where i: "i < length (sv_trail u)" "?t = sv_trail u ! i" using u(3) by (metis in_set_conv_nth)
      have "level u (var ?t) = 0" using p(2) i a(4) by (simp add: level_wf_def)
      then show ?thesis using p(1) u(3) by (simp add: isConstantTrue_def assign_wf_def)
    qed
    moreover have "solver_inv u" using a u(3) by (simp add: solver_inv_def const_asserted_def root_trail_def)
    moreover have "\<exists>\<tau>\<in>models u. \<forall>w\<in>used_vars s. \<tau> w = \<sigma> w" if "\<sigma> \<in> models s" for \<sigma>
    proof -
      have "\<sigma>(v := True) \<in> models s" by (rule models_cong [OF wf0 _ that]) (use fresh in auto)
      then show ?thesis using a(2) fresh by (intro bexI [of _ "\<sigma>(v := True)"]) auto
    qed
    moreover from calculation have "solver_True s = Some (?t, u)" using True nv ok2 by (simp add: solver_True_def Let_def)
    ultimately show ?thesis using a by (intro exI [of _ ?t] exI [of _ u]) auto
  qed
qed

subsection \<open>Decisions and reachable states\<close>

lemma newDecisionLevel_wf:
  assumes "solver_inv s"
  shows "solver_inv (newDecisionLevel s)" "models (newDecisionLevel s) = models s"
    "used_vars (newDecisionLevel s) = used_vars s" "value_lit (newDecisionLevel s) = value_lit s"
proof -
  let ?s = "newDecisionLevel s"
  have [simp]: "nVars ?s = nVars s" "in_range ?s = in_range s"
    "value_lit ?s = value_lit s" "value_var ?s = value_var s" "level ?s = level s"
    by (simp_all add: newDecisionLevel_def nVars_def in_range_def value_lit_def value_var_def level_def fun_eq_iff)
  have [simp]: "root_trail ?s = root_trail s"
    by (cases "sv_trail_lim s") (simp_all add: newDecisionLevel_def root_trail_def)
  have f: "sv_trail ?s = sv_trail s" "sv_trail_lim ?s = sv_trail_lim s @ [length (sv_trail s)]"
    "sv_clauses ?s = sv_clauses s" "db ?s = db s" "sv_ca ?s = sv_ca s" "sv_watches ?s = sv_watches s" "sv_ok ?s = sv_ok s"
    "sv_free_vars ?s = sv_free_vars s" "sv_const_true ?s = sv_const_true s" "sv_qhead ?s = sv_qhead s"
    "sv_to_reenqueue ?s = sv_to_reenqueue s" "sv_assigns ?s = sv_assigns s"
    by (simp_all add: newDecisionLevel_def)
  have "level_wf ?s" using assms
    by (auto simp: solver_inv_def solver_wf_def core_wf_def level_wf_def f sorted_append)
  then show "solver_inv ?s" using assms
    by (simp add: solver_inv_def solver_wf_def core_wf_def assign_wf_def db_wf_def clause_ok_def free_wf_def
        const_wf_def occ_len_def watch_ok_def const_asserted_def f)
  show "models ?s = models s" by (simp add: models_def f)
  show "used_vars ?s = used_vars s" by (simp add: used_vars_def f)
  show "value_lit ?s = value_lit s" by simp
qed

lemma solver_inv_enqueue:
  assumes "solver_inv s" "sv_trail_lim s \<noteq> []" "var p \<in> used_vars s" "value_lit s p = LUndef"
  shows "solver_inv (uncheckedEnqueue p r s)"
proof -
  have "var p \<notin> set (sv_free_vars s)" using assms(3) by (simp add: used_vars_def)
  then have "core_wf (uncheckedEnqueue p r s)"
    using assms core_wf_enqueue [OF _ used_vars_range [OF assms(3)]] by (simp add: solver_inv_def solver_wf_def)
  then show ?thesis using assms root_trail_enqueue [of s p r]
    by (simp add: solver_inv_def solver_wf_def core_wf_def const_asserted_def)
qed

lemma solver_inv_propagate:
  assumes "solver_inv s" "propagate s = Some (c, t)"
  shows "solver_inv t"
proof -
  have wf: "solver_wf s" using assms(1) by (simp add: solver_inv_def)
  then have d: "prop_done s c t" using propagate_done assms(2) by fastforce
  have lv: "level_wf s" using solver_wf_parts(2) [OF wf] .
  have "set (root_trail s) \<subseteq> set (root_trail t)"
  proof (cases "sv_trail_lim s = []")
    case True
    then show ?thesis using d by (auto simp: prop_done_def frame_def root_trail_def)
  next
    case False
    have "frame s t" using d by (simp add: prop_done_def)
    from frame_root_trail [OF this lv False] show ?thesis by simp
  qed
  moreover have "solver_wf t" "sv_ok t = sv_ok s" "sv_const_true t = sv_const_true s"
    using d by (simp_all add: prop_done_def frame_def)
  ultimately show ?thesis using assms(1) unfolding solver_inv_def const_asserted_def by auto
qed

text \<open>The calls a client or the search makes, in any order.\<close>

inductive solver_step :: "solver \<Rightarrow> solver \<Rightarrow> bool" where
  step_newVar: "newVar s = (v, t) \<Longrightarrow> solver_step s t"
| step_addClause: "\<forall>l\<in>set ps. var l \<in> used_vars s \<Longrightarrow> addClause ps s = Some (b, t) \<Longrightarrow> solver_step s t"
| step_True: "solver_True s = Some (l, t) \<Longrightarrow> solver_step s t"
| step_decide: "var p \<in> used_vars s \<Longrightarrow> value_lit s p = LUndef \<Longrightarrow>
    solver_step s (uncheckedEnqueue p None (newDecisionLevel s))"
| step_propagate: "propagate s = Some (c, t) \<Longrightarrow> solver_step s t"
| step_cancel: "solver_step s (cancelUntil lev s)"

inductive solver_reachable :: "solver \<Rightarrow> bool" where
  reach_new: "solver_reachable (new_solver extra)"
| reach_step: "solver_reachable s \<Longrightarrow> solver_step s t \<Longrightarrow> solver_reachable t"

inductive_cases solver_step_cases: "solver_step s t"

lemma solver_step_inv:
  assumes "solver_step s t" "solver_inv s"
  shows "solver_inv t"
  using assms(1)
proof (rule solver_step_cases)
  show "solver_inv t" if "newVar s = (v, t)" for v using solver_inv_newVar [OF assms(2) that] .
  show "solver_inv t" if "\<forall>l\<in>set ps. var l \<in> used_vars s" "addClause ps s = Some (b, t)" for ps b
    using solver_inv_addClause [OF assms(2) that(1)] that(2) by auto
  show "solver_inv t" if "solver_True s = Some (l, t)" for l using solver_True_spec [OF assms(2)] that by auto
  show "solver_inv t" if "t = uncheckedEnqueue p None (newDecisionLevel s)" "var p \<in> used_vars s"
    "value_lit s p = LUndef" for p
    using newDecisionLevel_wf [OF assms(2)] solver_inv_enqueue that by (simp add: newDecisionLevel_def)
  show "solver_inv t" if "propagate s = Some (c, t)" for c using solver_inv_propagate [OF assms(2) that] .
  show "solver_inv t" if "t = cancelUntil lev s" for lev using solver_inv_cancel [OF assms(2)] that by simp
qed

subsection \<open>Properties\<close>

lemma reachable_inv: "solver_reachable s \<Longrightarrow> solver_inv s"
  by (induction rule: solver_reachable.induct) (simp_all add: solver_inv_new solver_step_inv)

text \<open>C11: whatever sequence of calls has been made since the solver was created (new variables,
  clauses over variables in use, requests for the constant literal, decisions, propagation,
  backtracking), the state is well formed: the trail holds each variable once and agrees with the
  assignment and the levels, stored clauses have at least two literals, no repeated and no
  complementary ones, every watcher sits in the list of the negation of one of its clause's first
  two literals, and the constant literal is asserted at level 0.\<close>

theorem solver_reachable_inv:
  assumes "solver_reachable s"
  shows "solver_inv s"
  using assms by (rule reachable_inv)

theorem solver_reachable_inv_witness:
  "solver_inv (cancelUntil 0 (snd (newVar (new_solver True))))"
proof (rule solver_reachable_inv)
  have "solver_step (new_solver True) (snd (newVar (new_solver True)))" by (rule step_newVar) (rule prod.collapse [symmetric])
  then show "solver_reachable (cancelUntil 0 (snd (newVar (new_solver True))))"
    by (rule reach_step [OF reach_step [OF reach_new] step_cancel])
qed

text \<open>C3: unit propagation terminates from every well-formed state, keeps it well formed, empties the
  queue, only extends the trail by literals that follow from the clauses and the trail, permutes
  the literals of clauses at most, and reports a conflict only when no assignment satisfies both
  the clauses and the trail.\<close>

theorem propagate_sound:
  assumes "solver_inv s"
  shows "\<exists>c t. propagate s = Some (c, t) \<and> solver_inv t \<and> sv_qhead t = length (sv_trail t) \<and>
    (\<exists>ext. sv_trail t = sv_trail s @ ext) \<and>
    (\<forall>\<sigma>. msat t \<sigma> = msat s \<sigma>) \<and> models t = models s \<and>
    (\<forall>cr\<in>set (db s). set (clause_lits t cr) = set (clause_lits s cr)) \<and>
    (c \<noteq> None \<longrightarrow> (\<forall>\<sigma>. \<not> msat s \<sigma>))"
proof -
  have wf: "solver_wf s" using assms by (simp add: solver_inv_def)
  obtain c t where t: "propagate s = Some (c, t)" "prop_done s c t" using propagate_done [OF wf] by blast
  moreover have "models t = models s"
    using t(2) frame_models [OF _ solver_wf_parts(2) [OF wf]] unfolding prop_done_def by blast
  moreover have "solver_inv t" using solver_inv_propagate [OF assms t(1)] .
  ultimately show ?thesis by (intro exI [of _ c] exI [of _ t]) (simp add: prop_done_def frame_def)
qed

theorem propagate_sound_witness:
  "\<exists>c t. propagate (new_solver False) = Some (c, t) \<and> solver_inv t"
  using propagate_sound [OF solver_inv_new] by blast

text \<open>C4: adding a clause over variables in use returns in every well-formed state and makes the set
  of satisfying assignments exactly the old one intersected with the clause's, whether the clause
  is dropped as satisfied, found empty, propagated as a unit or stored with two watches; the
  variables in use and the constant literal stay, and a result of false means that nothing
  satisfies what has been added.\<close>

theorem addClause_models:
  assumes "solver_inv s" "\<forall>l\<in>set ps. var l \<in> used_vars s"
  shows "\<exists>b t. addClause ps s = Some (b, t) \<and> solver_inv t \<and>
    models t = models s \<inter> {\<sigma>. clause_sat \<sigma> ps} \<and> used_vars t = used_vars s \<and>
    sv_const_true t = sv_const_true s \<and> decisionLevel t = 0 \<and> (\<not> b \<longrightarrow> models t = {})"
proof -
  have "solver_wf s" using assms(1) by (simp add: solver_inv_def)
  note c = cancelUntil_wf [OF this, of 0]
  obtain b t where t: "addClause ps s = Some (b, t)" "adds (cancelUntil 0 s) ps b t" "solver_inv t"
    using solver_inv_addClause [OF assms] by blast
  then have "\<not> b \<longrightarrow> models t = {}" by (simp add: adds_def models_def)
  then show ?thesis using t c by (simp add: adds_def decisionLevel_def)
qed

theorem addClause_models_witness:
  "\<exists>b t. addClause [mkLit 0 False] (snd (newVar (new_solver False))) = Some (b, t) \<and>
     models t = models (snd (newVar (new_solver False))) \<inter> {\<sigma>. clause_sat \<sigma> [mkLit 0 False]}"
proof -
  let ?s = "snd (newVar (new_solver False))"
  have "solver_inv ?s" by (rule solver_inv_newVar [OF solver_inv_new prod.collapse [symmetric]])
  moreover have "nVars ?s = 1" "sv_free_vars ?s = []" by code_simp+
  ultimately show ?thesis using addClause_models [of ?s "[mkLit 0 False]"] by (auto simp: used_vars_def)
qed

text \<open>A new variable, fresh or recycled from the free list, is not in use before, is in use
  after, and changes neither the satisfying assignments nor the level; they depend on the
  variables in use only.\<close>

theorem newVar_fresh:
  assumes "solver_inv s" "newVar s = (v, t)"
  shows "solver_inv t \<and> models t = models s \<and> v \<notin> used_vars s \<and> used_vars t = insert v (used_vars s) \<and>
    sv_trail_lim t = sv_trail_lim s \<and>
    (\<forall>\<sigma> \<tau>. (\<forall>w\<in>used_vars s. \<sigma> w = \<tau> w) \<longrightarrow> \<sigma> \<in> models s \<longrightarrow> \<tau> \<in> models s)"
proof -
  have wf: "solver_wf s" using assms(1) by (simp add: solver_inv_def)
  show ?thesis
    using newVar_wf [OF wf assms(2)] solver_inv_newVar [OF assms] models_cong [OF wf] by blast
qed

theorem newVar_fresh_witness:
  "0 \<notin> used_vars (new_solver False) \<and> used_vars (snd (newVar (new_solver False))) = insert 0 (used_vars (new_solver False))"
proof -
  have "newVar (new_solver False) = (0, snd (newVar (new_solver False)))" by code_simp
  from newVar_fresh [OF solver_inv_new this] show ?thesis by blast
qed

text \<open>Backtracking to a level keeps the solver well formed, leaves the satisfying assignments,
  the clauses and the level-0 part of the trail alone, and ends at the smaller of the two levels.\<close>

theorem cancelUntil_keeps:
  assumes "solver_inv s"
  shows "solver_inv (cancelUntil lev s) \<and> models (cancelUntil lev s) = models s \<and>
    root_trail (cancelUntil lev s) = root_trail s \<and> sv_clauses (cancelUntil lev s) = sv_clauses s \<and>
    sv_ca (cancelUntil lev s) = sv_ca s \<and> decisionLevel (cancelUntil lev s) = min lev (decisionLevel s)"
proof -
  have "solver_wf s" using assms by (simp add: solver_inv_def)
  then show ?thesis using cancelUntil_wf solver_inv_cancel [OF assms] by blast
qed

theorem cancelUntil_keeps_witness:
  "models (cancelUntil 0 (newDecisionLevel (new_solver False))) = models (newDecisionLevel (new_solver False))"
  using cancelUntil_keeps [OF newDecisionLevel_wf(1) [OF solver_inv_new]] by blast

text \<open>\<open>True()\<close> always returns (its assertion that the literal is true at level 0 never fails);
  the literal is in use and true in every satisfying assignment, and each assignment that
  satisfied the clauses before still does up to the value of a variable that was not in use.\<close>

theorem solver_True_constant:
  assumes "solver_inv s"
  shows "\<exists>t u. solver_True s = Some (t, u) \<and> solver_inv u \<and> var t \<in> used_vars u \<and>
    (\<forall>\<sigma>\<in>models u. lit_val \<sigma> t) \<and> models u \<subseteq> models s \<and>
    (\<forall>\<sigma>\<in>models s. \<exists>\<tau>\<in>models u. \<forall>v\<in>used_vars s. \<tau> v = \<sigma> v)"
  using solver_True_spec [OF assms] by blast

theorem solver_True_constant_witness:
  "\<exists>t u. solver_True (new_solver False) = Some (t, u) \<and> (\<forall>\<sigma>\<in>models u. lit_val \<sigma> t)"
  using solver_True_constant [OF solver_inv_new] by blast

end
