(* ===== verification/Circuit_Solver.thy ===== *)
theory Circuit_Solver
  imports Circuit_Arith_Spec Solver_Ops
begin

text \<open>
  \<open>Circuit<Solver>\<close>: the circuits of \<open>api/Circuit.h\<close> over the propositional core of
  \<open>core/Solver.cc\<close>.  The solver model keeps the contract \<open>gate_solver\<close>, so every gate works in
  every state the solver can reach; the properties are stated over the two models together.
\<close>

subsection \<open>The solver's operations as the circuit calls them\<close>

definition core_ops :: "solver solver_ops" where
  "core_ops = \<lparr>op_newVar = newVar, op_addClause = addClause, op_value = value_lit, op_level = level,
     op_True = solver_True, op_cancelUntil = cancelUntil, op_decisionLevel = decisionLevel\<rparr>"

definition core_circuit :: "lit \<Rightarrow> solver circuit" where
  "core_circuit T = \<lparr>ci_ops = core_ops, ci_true = T\<rparr>"

definition circuit_ok :: "lit \<Rightarrow> solver \<Rightarrow> bool" where
  "circuit_ok T s \<longleftrightarrow> solver_inv s \<and> sv_const_true s = T \<and> T \<noteq> lit_Undef"

text \<open>\<open>t\<close> is \<open>s\<close> with the constraint \<open>P\<close> added: nothing else about the variables in use changes.\<close>

definition constrained :: "solver \<Rightarrow> solver \<Rightarrow> ((int \<Rightarrow> bool) \<Rightarrow> bool) \<Rightarrow> bool" where
  "constrained s t P \<longleftrightarrow> used_vars s \<subseteq> used_vars t \<and> (\<forall>\<tau>\<in>models t. \<tau> \<in> models s \<and> P \<tau>) \<and>
     (\<forall>\<sigma>\<in>models s. P \<sigma> \<longrightarrow> (\<exists>\<tau>\<in>models t. \<forall>v\<in>used_vars s. \<tau> v = \<sigma> v))"

definition computes :: "lit \<Rightarrow> solver \<Rightarrow> (lit \<times> solver) option \<Rightarrow> ((int \<Rightarrow> bool) \<Rightarrow> bool) \<Rightarrow> bool" where
  "computes T s r f \<longleftrightarrow> (\<exists>l t. r = Some (l, t) \<and> circuit_ok T t \<and> constrained s t (\<lambda>_. True) \<and>
     var l \<in> used_vars t \<and> (\<forall>\<sigma>\<in>models t. lit_val \<sigma> l = f \<sigma>))"

definition imposes :: "lit \<Rightarrow> solver \<Rightarrow> solver option \<Rightarrow> ((int \<Rightarrow> bool) \<Rightarrow> bool) \<Rightarrow> bool" where
  "imposes T s r P \<longleftrightarrow> (\<exists>t. r = Some t \<and> circuit_ok T t \<and> constrained s t P)"

lemma circuit_true:
  assumes "circuit_ok T s"
  shows "var T \<in> used_vars s" "\<sigma> \<in> models s \<Longrightarrow> lit_val \<sigma> T"
proof -
  have s: "solver_wf s" "const_asserted s" "sv_const_true s = T" "T \<noteq> lit_Undef"
    using assms by (simp_all add: circuit_ok_def solver_inv_def)
  note p = solver_wf_parts [OF s(1)]
  have "in_range s T" "var T \<notin> set (sv_free_vars s)"
    using p(4,5) s(3,4) by (auto simp: const_wf_def free_wf_def)
  then show "var T \<in> used_vars s" by (simp add: used_vars_def in_range_def)
  show "\<sigma> \<in> models s \<Longrightarrow> lit_val \<sigma> T"
    using s by (auto simp: const_asserted_def models_def split: if_splits)
qed

interpretation core: gate_solver "core_circuit T" "circuit_ok T" models used_vars for T
proof
  fix s v t assume "circuit_ok T s" "op_newVar (ci_ops (core_circuit T)) s = (v, t)"
  then have s: "solver_inv s" "solver_wf s" "newVar s = (v, t)" "sv_const_true s = T" "T \<noteq> lit_Undef"
    by (simp_all add: circuit_ok_def core_circuit_def core_ops_def solver_inv_def)
  show "circuit_ok T t \<and> 0 \<le> v \<and> v \<notin> used_vars s \<and> used_vars t = insert v (used_vars s) \<and> models t = models s"
    using newVar_wf [OF s(2,3)] solver_inv_newVar [OF s(1,3)] s(4,5) by (simp add: circuit_ok_def)
next
  fix s ls assume s: "circuit_ok T s" and ls: "\<forall>l\<in>set ls. var l \<in> used_vars s"
  then have "solver_inv s" "solver_wf s" by (simp_all add: circuit_ok_def solver_inv_def)
  then show "\<exists>b t. op_addClause (ci_ops (core_circuit T)) ls s = Some (b, t) \<and> circuit_ok T t \<and>
      used_vars t = used_vars s \<and> models t = models s \<inter> {\<sigma>. clause_sat \<sigma> ls}"
    using solver_inv_addClause [OF _ ls] cancelUntil_wf [of s 0] s
    by (fastforce simp: circuit_ok_def core_circuit_def core_ops_def adds_def)
next
  fix s \<sigma> \<tau> assume "circuit_ok T s" "\<forall>v\<in>used_vars s. \<sigma> v = \<tau> v" "\<sigma> \<in> models s"
  then show "\<tau> \<in> models s" using models_cong [of s \<sigma> \<tau>] by (simp add: circuit_ok_def solver_inv_def)
next
  fix s l \<sigma> assume "circuit_ok T s" "var l \<in> used_vars s" "op_value (ci_ops (core_circuit T)) s l = LTrue"
    "op_level (ci_ops (core_circuit T)) s (var l) = 0" "\<sigma> \<in> models s"
  then show "lit_val \<sigma> l" using root_true [of s l \<sigma>] used_vars_range [of l s]
    by (simp add: circuit_ok_def solver_inv_def core_circuit_def core_ops_def isConstantTrue_def)
next
  show "op_value (ci_ops (core_circuit T)) s (neg_lit l) = neg_lbool (op_value (ci_ops (core_circuit T)) s l)" for s l
    by (simp add: core_circuit_def core_ops_def)
next
  show "var (ci_true (core_circuit T)) \<in> used_vars s \<and> (\<forall>\<sigma>\<in>models s. lit_val \<sigma> (ci_true (core_circuit T)))"
    if "circuit_ok T s" for s using circuit_true [OF that] by (simp add: core_circuit_def)
next
  show "0 \<le> v" if "v \<in> used_vars s" for s v using that by (simp add: used_vars_def)
next
  fix s assume s: "circuit_ok T s"
  then have "solver_wf s" "solver_inv s" by (simp_all add: circuit_ok_def solver_inv_def)
  then show "circuit_ok T (op_cancelUntil (ci_ops (core_circuit T)) 0 s) \<and>
      used_vars (op_cancelUntil (ci_ops (core_circuit T)) 0 s) = used_vars s \<and>
      models (op_cancelUntil (ci_ops (core_circuit T)) 0 s) = models s \<and>
      op_decisionLevel (ci_ops (core_circuit T)) (op_cancelUntil (ci_ops (core_circuit T)) 0 s) = 0"
    using cancelUntil_wf [of s 0] solver_inv_cancel [of s 0] s
    by (simp add: circuit_ok_def core_circuit_def core_ops_def)
qed

lemma core_constrained: "core.adds_constraint T s t P \<longleftrightarrow> circuit_ok T t \<and> core.supp s P \<and> constrained s t P"
  by (auto simp: core.adds_constraint_def constrained_def)

lemma core_builds: "core.builds T s r f \<Longrightarrow> computes T s r f"
  by (auto simp: core.gives_def computes_def core_constrained core.is_lit_def)

lemma core_asserts: "core.asserts T s r P \<Longrightarrow> imposes T s r P"
  by (auto simp: core.asserts_def imposes_def core_constrained)

lemma core_self: "var a \<in> used_vars s \<Longrightarrow> core.is_lit s a (\<lambda>\<sigma>. lit_val \<sigma> a)"
  by (rule core.is_lit_self)

end
