(* ===== verification/Circuit_Theorems.thy ===== *)
theory Circuit_Theorems
  imports Circuit_Solver
begin

text \<open>
  The properties of the circuits of \<open>api/Circuit.h\<close> when they are built in the solver: every state
  reached by solver and circuit operations satisfies \<open>circuit_ok\<close>, and in every such state a gate
  over literals in use returns a literal that has the gate's value in every satisfying assignment,
  while an assertion leaves exactly the satisfying assignments that make it true (both up to the
  values of new auxiliary variables).
\<close>

subsection \<open>A solver to build circuits in\<close>

text \<open>A new solver whose constant literal is \<open>Lit 0\<close>, with eight more variables.\<close>

fun more_vars :: "nat \<Rightarrow> solver \<Rightarrow> solver" where
  "more_vars 0 s = s"
| "more_vars (Suc n) s = more_vars n (snd (newVar s))"

definition demo :: solver where
  "demo = more_vars 8 (snd (the (solver_True (new_solver False))))"

lemma circuit_ok_newVar: "circuit_ok T s \<Longrightarrow> circuit_ok T (snd (newVar s))"
  using core.new_var [of T s "fst (newVar s)" "snd (newVar s)"] by (simp add: core_circuit_def core_ops_def)

lemma circuit_ok_more_vars: "circuit_ok T s \<Longrightarrow> circuit_ok T (more_vars n s)"
  by (induction n arbitrary: s) (simp_all add: circuit_ok_newVar)

lemma demo_eval: "sv_free_vars demo = []" "nVars demo = 9" "sv_const_true demo = Lit 0"
  by code_simp+

lemma demo_run: "map_option fst (solver_True (new_solver False)) = Some (Lit 0)"
  by code_simp

lemma demo_ok: "circuit_ok (Lit 0) demo"
proof -
  obtain t u where t: "solver_True (new_solver False) = Some (t, u)" "solver_inv u" "sv_const_true u = t"
    using solver_True_spec [OF solver_inv_new [of False]] by blast
  then have "t = Lit 0" using demo_run by simp
  then have "circuit_ok (Lit 0) u" using t by (simp add: circuit_ok_def lit_Undef_def)
  then show ?thesis using t(1) by (simp add: demo_def circuit_ok_more_vars)
qed

lemma demo_used: "v \<in> used_vars demo \<longleftrightarrow> 0 \<le> v \<and> v < 9"
  by (simp add: used_vars_def demo_eval)

lemmas demo_simps = demo_ok demo_used var_def

subsection \<open>What is stated of a circuit\<close>

abbreviation used :: "solver \<Rightarrow> lit list \<Rightarrow> bool" where
  "used s ls \<equiv> \<forall>l\<in>set ls. var l \<in> used_vars s"

definition outputs :: "lit \<Rightarrow> solver \<Rightarrow> ('a \<times> solver) option \<Rightarrow> ((int \<Rightarrow> bool) \<Rightarrow> bool) \<Rightarrow>
    ('a \<Rightarrow> solver \<Rightarrow> bool) \<Rightarrow> bool" where
  "outputs T s r P Q \<longleftrightarrow> (\<exists>x t. r = Some (x, t) \<and> circuit_ok T t \<and> constrained s t P \<and> Q x t)"

text \<open>A gate with an output argument: without an output it returns a literal for \<open>f\<close>; with one it
  constrains that literal to \<open>f\<close> as well.\<close>

definition drives :: "lit \<Rightarrow> solver \<Rightarrow> (lit \<times> solver) option \<Rightarrow> lit \<Rightarrow> ((int \<Rightarrow> bool) \<Rightarrow> bool) \<Rightarrow> bool" where
  "drives T s r out f \<longleftrightarrow> (out = lit_Undef \<longrightarrow> computes T s r f) \<and>
     (var out \<in> used_vars s \<longrightarrow> outputs T s r (\<lambda>\<sigma>. lit_val \<sigma> out = f \<sigma>)
        (\<lambda>l t. var l \<in> used_vars t \<and> (\<forall>\<sigma>\<in>models t. lit_val \<sigma> l = f \<sigma>)))"

lemma core_gives: "core.gives T s r P Q \<Longrightarrow> outputs T s r P Q"
  by (auto simp: core.gives_def outputs_def core_constrained)

lemma core_drives:
  assumes "core.sets_out T s r out f"
  shows "drives T s r out f"
proof -
  have "outputs T s r (\<lambda>\<sigma>. lit_val \<sigma> out = f \<sigma>) (\<lambda>l t. var l \<in> used_vars t \<and> (\<forall>\<sigma>\<in>models t. lit_val \<sigma> l = f \<sigma>))"
    if "var out \<in> used_vars s"
    using core_gives [OF mp [OF spec [OF conjunct2 [OF assms [unfolded core.sets_out_def]]] core_self [OF that]]]
    by (auto simp: outputs_def core.is_lit_def)
  then show ?thesis using assms core_builds by (simp add: drives_def core.sets_out_def)
qed

subsection \<open>Gates\<close>

text \<open>C12: the two-input gates and the conditional.  Each returns in every state of the solver, keeps
  the state well formed and the satisfying assignments (up to the new variable of the gate), and its
  literal has the value of the Boolean function in all of them, also on the short cuts for equal,
  complementary and constant arguments.\<close>

theorem two_input_gates:
  assumes "circuit_ok T s" "used s [a, b, c]"
  shows "computes T s (And2 (core_circuit T) a b s) (\<lambda>\<sigma>. lit_val \<sigma> a \<and> lit_val \<sigma> b) \<and>
    computes T s (Or2 (core_circuit T) a b s) (\<lambda>\<sigma>. lit_val \<sigma> a \<or> lit_val \<sigma> b) \<and>
    computes T s (Xor2 (core_circuit T) a b s) (\<lambda>\<sigma>. lit_val \<sigma> a \<noteq> lit_val \<sigma> b) \<and>
    computes T s (Nand2 (core_circuit T) a b s) (\<lambda>\<sigma>. \<not> (lit_val \<sigma> a \<and> lit_val \<sigma> b)) \<and>
    computes T s (Nor2 (core_circuit T) a b s) (\<lambda>\<sigma>. \<not> (lit_val \<sigma> a \<or> lit_val \<sigma> b)) \<and>
    computes T s (Xnor2 (core_circuit T) a b s) (\<lambda>\<sigma>. lit_val \<sigma> a = lit_val \<sigma> b) \<and>
    computes T s (Implies (core_circuit T) a b s) (\<lambda>\<sigma>. lit_val \<sigma> a \<longrightarrow> lit_val \<sigma> b) \<and>
    computes T s (Ite (core_circuit T) a b c s) (\<lambda>\<sigma>. if lit_val \<sigma> a then lit_val \<sigma> b else lit_val \<sigma> c)"
proof -
  have l: "core.is_lit s a (\<lambda>\<sigma>. lit_val \<sigma> a)" "core.is_lit s b (\<lambda>\<sigma>. lit_val \<sigma> b)" "core.is_lit s c (\<lambda>\<sigma>. lit_val \<sigma> c)"
    using assms(2) by (simp_all add: core_self)
  note g = assms(1) l(1,2)
  show ?thesis
    by (intro conjI core_builds core.And2_builds core.Or2_builds core.Xor2_builds core.Nand2_builds
        core.Nor2_builds core.Xnor2_builds core.Implies_builds core.Ite_builds g l(3))
qed

theorem two_input_gates_witness:
  "computes (Lit 0) demo (And2 (core_circuit (Lit 0)) (Lit 2) (Lit 5) demo) (\<lambda>\<sigma>. lit_val \<sigma> (Lit 2) \<and> lit_val \<sigma> (Lit 5))"
  using two_input_gates [of "Lit 0" demo "Lit 2" "Lit 5" "Lit 7"] by (simp add: demo_simps)

text \<open>The gates that take an output literal (\<open>And_\<close> and \<open>Or_\<close> on two literals and on vectors, and
  \<open>Ite_\<close>): without an output they are the plain gates; a given output is constrained to the value
  of the gate, and no other assignment is lost.\<close>

theorem output_gates:
  assumes "circuit_ok T s" "used s (a # b # c # ls)"
  shows "drives T s (And2_to (core_circuit T) a b out s) out (\<lambda>\<sigma>. lit_val \<sigma> a \<and> lit_val \<sigma> b) \<and>
    drives T s (Or2_to (core_circuit T) a b out s) out (\<lambda>\<sigma>. lit_val \<sigma> a \<or> lit_val \<sigma> b) \<and>
    drives T s (And_vec_to (core_circuit T) ls out s) out (\<lambda>\<sigma>. list_all (lit_val \<sigma>) ls) \<and>
    drives T s (Or_vec_to (core_circuit T) ls out s) out (\<lambda>\<sigma>. list_ex (lit_val \<sigma>) ls) \<and>
    drives T s (Ite_to (core_circuit T) a b c out s) out (\<lambda>\<sigma>. if lit_val \<sigma> a then lit_val \<sigma> b else lit_val \<sigma> c)"
proof -
  have l: "core.is_lit s a (\<lambda>\<sigma>. lit_val \<sigma> a)" "core.is_lit s b (\<lambda>\<sigma>. lit_val \<sigma> b)" "core.is_lit s c (\<lambda>\<sigma>. lit_val \<sigma> c)"
    using assms(2) by (simp_all add: core_self)
  have u: "used s ls" using assms(2) by simp
  have or: "(\<lambda>\<sigma>. list_ex (lit_val \<sigma>) ls) = (\<lambda>\<sigma>. clause_sat \<sigma> ls)"
    by (simp add: clause_sat_def list_ex_iff fun_eq_iff)
  let ?f = "\<lambda>\<sigma>. if lit_val \<sigma> a then lit_val \<sigma> b else lit_val \<sigma> c"
  have ite: "core.sets_out T s (Ite_to (core_circuit T) a b c out s) out ?f"
    unfolding core.sets_out_def
  proof (intro conjI impI allI)
    show "core.builds T s (Ite_to (core_circuit T) a b c out s) ?f" if "out = lit_Undef"
      using core.Ite_to_sets [OF assms(1) l, where out = out] that by simp
    fix h assume h: "core.is_lit s out h"
    then show "core.gives T s (Ite_to (core_circuit T) a b c out s) (\<lambda>\<sigma>. h \<sigma> = ?f \<sigma>) (\<lambda>l t. core.is_lit t l ?f)"
      using core.Ite_to_sets [OF assms(1) l, where out = out and k = h] core.is_lit_not_undef [OF assms(1) h] by simp
  qed
  show ?thesis unfolding or
    by (intro conjI core_drives core.And2_to_sets core.Or2_to_sets core.And_vec_to_sets core.Or_vec_to_sets ite
        assms(1) l u)
qed

theorem output_gates_witness:
  "drives (Lit 0) demo (And2_to (core_circuit (Lit 0)) (Lit 2) (Lit 5) (Lit 6) demo) (Lit 6)
     (\<lambda>\<sigma>. lit_val \<sigma> (Lit 2) \<and> lit_val \<sigma> (Lit 5))"
  using output_gates [of "Lit 0" demo "Lit 2" "Lit 5" "Lit 7" "[]" "Lit 6"] by (simp add: demo_simps)

lemma core_list_ex: "list_ex (lit_val \<sigma>) ls = clause_sat \<sigma> ls"
  by (simp add: clause_sat_def list_ex_iff)

lemma core_xor_list:
  assumes "circuit_ok T s" "used s ls"
  shows "core.builds T s (Xor_list (core_circuit T) ls s) (\<lambda>\<sigma>. xor_all (map (lit_val \<sigma>) ls))"
  using core.bin_op_builds [OF assms] by (simp add: Xor_list_def)

text \<open>The gates over a vector, an initializer list or a variadic argument list compute the
  conjunction, disjunction, parity (true for no literals, as the code returns its constant) and
  their negations of all the literals.\<close>

theorem vector_gates:
  assumes "circuit_ok T s" "used s (a # b # ls)"
  shows "computes T s (And_vec (core_circuit T) ls s) (\<lambda>\<sigma>. list_all (lit_val \<sigma>) ls) \<and>
    computes T s (Or_vec (core_circuit T) ls s) (\<lambda>\<sigma>. list_ex (lit_val \<sigma>) ls) \<and>
    computes T s (Xor_vec (core_circuit T) (ByOther ls) s) (\<lambda>\<sigma>. ls = [] \<or> parity (map (lit_val \<sigma>) ls)) \<and>
    computes T s (Nand_list (core_circuit T) ls s) (\<lambda>\<sigma>. \<not> list_all (lit_val \<sigma>) ls) \<and>
    computes T s (Nor_list (core_circuit T) ls s) (\<lambda>\<sigma>. \<not> list_ex (lit_val \<sigma>) ls) \<and>
    computes T s (Xnor_list (core_circuit T) ls s) (\<lambda>\<sigma>. ls \<noteq> [] \<and> \<not> parity (map (lit_val \<sigma>) ls)) \<and>
    computes T s (And_args (core_circuit T) a b ls s) (\<lambda>\<sigma>. list_all (lit_val \<sigma>) (a # b # ls)) \<and>
    computes T s (Or_args (core_circuit T) a b ls s) (\<lambda>\<sigma>. list_ex (lit_val \<sigma>) (a # b # ls)) \<and>
    computes T s (Xor_args (core_circuit T) a b ls s) (\<lambda>\<sigma>. parity (map (lit_val \<sigma>) (a # b # ls)))"
proof -
  have u: "used s ls" and u2: "used s (a # b # ls)" using assms(2) by simp_all
  note c = assms(1)
  have x: "xor_all bs \<longleftrightarrow> bs = [] \<or> parity bs" for bs by (simp add: xor_all_def)
  have 1: "core.builds T s (Xor_vec (core_circuit T) (ByOther ls) s) (\<lambda>\<sigma>. ls = [] \<or> parity (map (lit_val \<sigma>) ls))"
    by (rule core.builds_eq [OF core.Xor_vec_builds [OF c u]]) (simp add: x)
  have 2: "core.builds T s (Xnor_list (core_circuit T) ls s) (\<lambda>\<sigma>. ls \<noteq> [] \<and> \<not> parity (map (lit_val \<sigma>) ls))"
    unfolding Xnor_list_def
    by (rule core.builds_eq, rule core.negated_builds, rule core_xor_list [OF c u]) (simp add: x)
  have 3: "core.builds T s (Xor_args (core_circuit T) a b ls s) (\<lambda>\<sigma>. parity (map (lit_val \<sigma>) (a # b # ls)))"
    using core.builds_eq [OF core.Xor_vec_builds [OF c u2]] by (simp add: Xor_args_def x)
  have 4: "core.builds T s (Nand_list (core_circuit T) ls s) (\<lambda>\<sigma>. \<not> list_all (lit_val \<sigma>) ls)"
    "core.builds T s (Nor_list (core_circuit T) ls s) (\<lambda>\<sigma>. \<not> list_ex (lit_val \<sigma>) ls)"
    using core.negated_builds [where g = "And_vec (core_circuit T) ls", OF core.And_vec_builds [OF c u]]
      core.negated_builds [where g = "Or_vec (core_circuit T) ls", OF core.Or_vec_builds [OF c u]]
    by (simp_all add: Nand_list_def Nor_list_def And_list_def Or_list_def core_list_ex negated_def)
  have 5: "core.builds T s (And_args (core_circuit T) a b ls s) (\<lambda>\<sigma>. list_all (lit_val \<sigma>) (a # b # ls))"
    "core.builds T s (Or_args (core_circuit T) a b ls s) (\<lambda>\<sigma>. list_ex (lit_val \<sigma>) (a # b # ls))"
    using core.And_vec_builds [OF c u2] core.Or_vec_builds [OF c u2]
    unfolding core_list_ex by (simp_all add: And_args_def Or_args_def)
  show ?thesis
    using core_builds [OF core.And_vec_builds [OF c u]] core_builds [OF core.Or_vec_builds [OF c u]]
      core_builds [OF 1] core_builds [OF 2] core_builds [OF 3] core_builds [OF 4(1)] core_builds [OF 4(2)]
      core_builds [OF 5(1)] core_builds [OF 5(2)] unfolding core_list_ex by blast
qed

theorem vector_gates_witness:
  "computes (Lit 0) demo (Xor_args (core_circuit (Lit 0)) (Lit 2) (Lit 5) [Lit 7, Lit 8] demo)
     (\<lambda>\<sigma>. parity (map (lit_val \<sigma>) [Lit 2, Lit 5, Lit 7, Lit 8]))"
  using vector_gates [of "Lit 0" demo "Lit 2" "Lit 5" "[Lit 7, Lit 8]"] by (simp add: demo_simps)

subsection \<open>Arithmetic on words\<close>

text \<open>C30: \<open>Add\<close> and \<open>Subtract\<close> of two words of the same positive width return a word of that width
  and a carry (borrow) literal with: sum plus carry times two to the width is the sum of the
  numbers; difference plus the second number is the first plus the borrow times two to the width.\<close>

theorem add_subtract:
  assumes "circuit_ok T s" "length b = length a" "a \<noteq> []" "used s (a @ b)"
  shows "outputs T s (Add (core_circuit T) a b s) (\<lambda>_. True) (\<lambda>(us, co) t.
      length us = length a \<and> used t (co # us) \<and>
      (\<forall>\<sigma>\<in>models t. num \<sigma> us + 2 ^ length a * of_bool (lit_val \<sigma> co) = num \<sigma> a + num \<sigma> b)) \<and>
    outputs T s (Subtract (core_circuit T) a b s) (\<lambda>_. True) (\<lambda>(us, bo) t.
      length us = length a \<and> used t (bo # us) \<and>
      (\<forall>\<sigma>\<in>models t. num \<sigma> us + num \<sigma> b = num \<sigma> a + 2 ^ length a * of_bool (lit_val \<sigma> bo)))"
  using assms by (intro conjI core_gives core.Add_gives core.Subtract_gives) simp_all

theorem add_subtract_witness:
  "outputs (Lit 0) demo (Add (core_circuit (Lit 0)) [Lit 2, Lit 4] [Lit 6, Lit 9] demo) (\<lambda>_. True) (\<lambda>(us, co) t.
      length us = 2 \<and> used t (co # us) \<and>
      (\<forall>\<sigma>\<in>models t. num \<sigma> us + 2 ^ 2 * of_bool (lit_val \<sigma> co) = num \<sigma> [Lit 2, Lit 4] + num \<sigma> [Lit 6, Lit 9]))"
  using conjunct1 [OF add_subtract [of "Lit 0" demo "[Lit 6, Lit 9]" "[Lit 2, Lit 4]"]]
  by (simp add: demo_simps numeral_2_eq_2)

text \<open>\<open>Negate\<close> returns the two's complement of a word: with the word it adds up to zero modulo
  two to the width.\<close>

theorem negate_complement:
  assumes "circuit_ok T s" "a \<noteq> []" "used s a"
  shows "outputs T s (Negate (core_circuit T) a s) (\<lambda>_. True) (\<lambda>us t. length us = length a \<and> used t us \<and>
    (\<forall>\<sigma>\<in>models t. (num \<sigma> us + num \<sigma> a) mod 2 ^ length a = 0))"
  using assms by (intro core_gives core.Negate_gives)

theorem negate_complement_witness:
  "outputs (Lit 0) demo (Negate (core_circuit (Lit 0)) [Lit 2, Lit 4] demo) (\<lambda>_. True) (\<lambda>us t.
     length us = length [Lit 2, Lit 4] \<and> used t us \<and>
     (\<forall>\<sigma>\<in>models t. (num \<sigma> us + num \<sigma> [Lit 2, Lit 4]) mod 2 ^ length [Lit 2, Lit 4] = 0))"
  by (rule negate_complement) (simp_all add: demo_simps)

text \<open>C13: the array multiplier \<open>Multiply\<close> returns the full product of two words of the same positive
  width, with twice the width (one bit for words of one bit); its three assertions on the lengths
  and the last carry never fail.\<close>

theorem multiply_product:
  assumes "circuit_ok T s" "length m = length q" "m \<noteq> []" "used s m" "used s q"
  shows "outputs T s (Multiply (core_circuit T) m q s) (\<lambda>_. True) (\<lambda>us t.
    length us = (if length m = 1 then 1 else 2 * length m) \<and> used t us \<and>
    (\<forall>\<sigma>\<in>models t. num \<sigma> us = num \<sigma> m * num \<sigma> q))"
  using assms by (intro core_gives core.Multiply_gives)

theorem multiply_product_witness:
  "outputs (Lit 0) demo (Multiply (core_circuit (Lit 0)) [Lit 2, Lit 4] [Lit 6, Lit 8] demo) (\<lambda>_. True) (\<lambda>us t.
    length us = (if length [Lit 2, Lit 4] = 1 then 1 else 2 * length [Lit 2, Lit 4]) \<and> used t us \<and>
    (\<forall>\<sigma>\<in>models t. num \<sigma> us = num \<sigma> [Lit 2, Lit 4] * num \<sigma> [Lit 6, Lit 8]))"
  by (rule multiply_product) (simp_all add: demo_simps)

text \<open>C29: comparison of words of any two widths.  \<open>LEQ\<close> and \<open>LT\<close> return a literal that compares the
  numbers; \<open>Equal\<close> compares the first word with as many bits of the second (the shorter one is
  padded with constant false); \<open>AssertLEQ\<close> and \<open>AssertLT\<close> leave exactly the assignments in which
  the numbers compare so.\<close>

theorem word_comparison:
  assumes "circuit_ok T s" "used s A" "used s B"
  shows "computes T s (LEQ (core_circuit T) A B s) (\<lambda>\<sigma>. num \<sigma> A \<le> num \<sigma> B) \<and>
    computes T s (LT (core_circuit T) A B s) (\<lambda>\<sigma>. num \<sigma> A < num \<sigma> B) \<and>
    computes T s (Equal_vec (core_circuit T) A B s) (\<lambda>\<sigma>. num \<sigma> A = bval (take (length A) (map (lit_val \<sigma>) B))) \<and>
    imposes T s (AssertLEQ (core_circuit T) A B s) (\<lambda>\<sigma>. num \<sigma> A \<le> num \<sigma> B) \<and>
    imposes T s (AssertLT (core_circuit T) A B s) (\<lambda>\<sigma>. num \<sigma> A < num \<sigma> B)"
  by (intro conjI core_builds core_asserts core.LEQ_builds core.LT_builds core.Equal_vec_builds
      core.AssertLEQ_asserts core.AssertLT_asserts assms)

theorem word_comparison_witness:
  "computes (Lit 0) demo (LEQ (core_circuit (Lit 0)) [Lit 2, Lit 4] [Lit 6] demo)
     (\<lambda>\<sigma>. num \<sigma> [Lit 2, Lit 4] \<le> num \<sigma> [Lit 6])"
  by (rule conjunct1 [OF word_comparison]) (simp_all add: demo_simps)

text \<open>\<open>AssertEqual\<close> on words leaves exactly the assignments in which the numbers are equal, when
  the second word is at least as long as the first; when it is shorter, the call reads past its end
  (the copy it has padded with constant false is not used) and has no defined result.\<close>

theorem assert_equal_words:
  assumes "circuit_ok T s" "used s A" "used s B"
  shows "(length A \<le> length B \<longrightarrow> imposes T s (AssertEqual_vec (core_circuit T) A B s) (\<lambda>\<sigma>. num \<sigma> A = num \<sigma> B)) \<and>
    (length B < length A \<longrightarrow> AssertEqual_vec (core_circuit T) A B s = None)"
proof -
  have "equal_bits C as bs t = None" if "length bs < length as" for C as bs and t :: solver
    using that
  proof (induction as arbitrary: bs t)
    case (Cons a as)
    then show ?case by (cases bs) (auto simp: get_at_def split: bind_split)
  qed simp
  then show ?thesis using core_asserts [OF core.AssertEqual_vec_asserts [OF assms(1) _ assms(2,3)]]
    by (auto simp: AssertEqual_vec_def)
qed

theorem assert_equal_words_witness:
  "imposes (Lit 0) demo (AssertEqual_vec (core_circuit (Lit 0)) [Lit 2] [Lit 4, Lit 6] demo)
      (\<lambda>\<sigma>. num \<sigma> [Lit 2] = num \<sigma> [Lit 4, Lit 6]) \<and>
   AssertEqual_vec (core_circuit (Lit 0)) [Lit 2, Lit 4] [Lit 6] demo = None"
  using conjunct1 [OF assert_equal_words [of "Lit 0" demo "[Lit 2]" "[Lit 4, Lit 6]"]]
    conjunct2 [OF assert_equal_words [of "Lit 0" demo "[Lit 2, Lit 4]" "[Lit 6]"]]
  by (simp add: demo_simps)



subsection \<open>Assertions\<close>



text \<open>C33: \<open>AssertAMO\<close> leaves exactly the assignments in which at most one of the literals holds, and
  \<open>AssertExactlyOne\<close> those in which exactly one does, counted with repetitions; constants at level 0
  and repeated calls included.\<close>

theorem cardinality_asserted:
  assumes "circuit_ok T s" "used s ls"
  shows "imposes T s (AssertAMO (core_circuit T) ls s) (\<lambda>\<sigma>. count_true \<sigma> ls \<le> 1) \<and>
    imposes T s (AssertExactlyOne (core_circuit T) ls s) (\<lambda>\<sigma>. count_true \<sigma> ls = 1)"
  by (intro conjI core_asserts core.AssertAMO_asserts core.AssertExactlyOne_asserts assms)

theorem cardinality_asserted_witness:
  "imposes (Lit 0) demo (AssertExactlyOne (core_circuit (Lit 0)) [Lit 2, Lit 5, Lit 7] demo)
     (\<lambda>\<sigma>. count_true \<sigma> [Lit 2, Lit 5, Lit 7] = 1)"
  by (rule conjunct2 [OF cardinality_asserted]) (simp_all add: demo_simps)

subsection \<open>Construction, and calls that do not do what their name says\<close>

text \<open>\<open>Circuit(S)\<close> in any reachable state of the solver returns a circuit on the solver's constant
  literal in which gates can be built, and keeps every satisfying assignment of the variables in
  use.\<close>

theorem new_circuit_ready:
  assumes "solver_reachable s"
  shows "\<exists>T t. new_circuit core_ops s = Some (core_circuit T, t) \<and> circuit_ok T t \<and> constrained s t (\<lambda>_. True)"
proof -
  obtain T t where t: "solver_True s = Some (T, t)" "solver_inv t" "var T \<in> used_vars t" "used_vars s \<subseteq> used_vars t"
    "sv_const_true t = T" "models t \<subseteq> models s" "\<forall>\<sigma>\<in>models s. \<exists>\<tau>\<in>models t. \<forall>v\<in>used_vars s. \<tau> v = \<sigma> v"
    using solver_True_spec [OF reachable_inv [OF assms]] by blast
  have "T \<noteq> lit_Undef" using t(3) by (auto simp: used_vars_def)
  then show ?thesis
    using t by (intro exI [of _ T] exI [of _ t]) (auto simp: new_circuit_def core_ops_def core_circuit_def circuit_ok_def constrained_def)
qed

theorem new_circuit_ready_witness:
  "\<exists>T t. new_circuit core_ops (new_solver True) = Some (core_circuit T, t) \<and> circuit_ok T t \<and>
     constrained (new_solver True) t (\<lambda>_. True)"
  by (rule new_circuit_ready) (rule solver_reachable.intros)

text \<open>C35: \<open>Xor_\<close> does not constrain the output it is given: for arguments that are not constant it
  returns a literal for the exclusive or but leaves every assignment of the given output possible,
  because the test that should create a missing output creates a new one in place of a given one.
  Without an output (and while the solver is not yet contradictory) the clauses mention the
  undefined literal, which \<open>addClause\<close> has no defined result for.  \<open>Add_\<close> and \<open>Subtract_\<close> constrain
  their output words with this gate.\<close>

theorem xor_output_ignored:
  assumes "circuit_ok T s" "used s [a, b, c]" "\<not> isConst (core_circuit T) s a" "\<not> isConst (core_circuit T) s b"
  shows "outputs T s (Xor2_to (core_circuit T) a b c s) (\<lambda>_. True)
      (\<lambda>l t. l \<noteq> c \<and> var l \<in> used_vars t \<and> (\<forall>\<sigma>\<in>models t. lit_val \<sigma> l = (lit_val \<sigma> a \<noteq> lit_val \<sigma> b))) \<and>
    (sv_ok s \<longrightarrow> Xor2_to (core_circuit T) a b lit_Undef s = None)"
proof
  let ?C = "core_circuit T"
  have l: "core.is_lit s a (\<lambda>\<sigma>. lit_val \<sigma> a)" "core.is_lit s b (\<lambda>\<sigma>. lit_val \<sigma> b)"
    using assms(2) by (simp_all add: core_self)
  have c: "c \<noteq> lit_Undef" using assms(2) by (auto simp: used_vars_def)
  have run: "Xor2_to ?C a b c s = do { (out, u) \<leftarrow> newLit ?C s; Xor_clauses ?C a b out u }"
    "Xor2 ?C a b s = do { (out, u) \<leftarrow> newLit ?C s; Xor_clauses ?C a b out u }"
    using assms(3,4) c by (simp_all add: Xor2_to_def Xor2_def)
  obtain out u where u: "newLit ?C s = Some (out, u)" "var out \<notin> used_vars s"
    by (rule core.newLit_fresh [OF assms(1)])
  have same: "l = out" if "Xor2_to ?C a b c s = Some (l, t)" for l t
    using that by (auto simp: run(1) u(1) Xor_clauses_def split: bind_splits)
  have "outputs T s (Xor2 ?C a b s) (\<lambda>_. True) (\<lambda>l t. core.is_lit t l (\<lambda>\<sigma>. lit_val \<sigma> a \<noteq> lit_val \<sigma> b))"
    by (rule core_gives [OF core.Xor2_builds [OF assms(1) l]])
  then obtain l t where t: "Xor2_to ?C a b c s = Some (l, t)" "circuit_ok T t" "constrained s t (\<lambda>_. True)"
    "core.is_lit t l (\<lambda>\<sigma>. lit_val \<sigma> a \<noteq> lit_val \<sigma> b)" unfolding outputs_def run by blast
  have "l \<noteq> c" using same [OF t(1)] u(2) assms(2) by auto
  then show "outputs T s (Xor2_to ?C a b c s) (\<lambda>_. True)
      (\<lambda>l t. l \<noteq> c \<and> var l \<in> used_vars t \<and> (\<forall>\<sigma>\<in>models t. lit_val \<sigma> l = (lit_val \<sigma> a \<noteq> lit_val \<sigma> b)))"
    using t by (auto simp: outputs_def core.is_lit_def)
  have "add_clause ?C [a, b, lit_Error] s = None" if "sv_ok s"
    using cancelUntil_wf [of s 0] assms(1) that
    by (simp add: add_clause_def core_circuit_def core_ops_def addClause_def addClause'_def circuit_ok_def solver_inv_def
        check_def in_range_def)
  then show "sv_ok s \<longrightarrow> Xor2_to ?C a b lit_Undef s = None"
    using assms(3,4) by (simp add: Xor2_to_def Xor_clauses_def)
qed

theorem xor_output_ignored_witness:
  "Xor2_to (core_circuit (Lit 0)) (Lit 2) (Lit 4) lit_Undef demo = None"
proof -
  have "\<not> isConst (core_circuit (Lit 0)) demo (Lit 2)" "\<not> isConst (core_circuit (Lit 0)) demo (Lit 4)" "sv_ok demo"
    by code_simp+
  then show ?thesis using xor_output_ignored [of "Lit 0" demo "Lit 2" "Lit 4" "Lit 6"] by (simp add: demo_simps)
qed

text \<open>\<open>Negate_\<close> has no defined result for any word and any output vector: it empties the vector
  and then asserts that it is as long as the word, and the empty word has no bit 0.\<close>

theorem negate_to_undefined:
  "Negate_to C a store_out s = None"
  by (cases a) (simp_all add: Negate_to_def get_at_def)

text \<open>C36: \<open>AssertXor\<close> on an initializer list copies it to the scratch vector that \<open>Xor\<close> empties before
  it reads its argument: from three literals on, \<open>AssertXor\<close> asserts nothing and \<open>AssertXnor\<close>
  asserts false, whatever the literals are.\<close>

theorem xor_list_assertion_lost:
  assumes "circuit_ok T s" "used s ls" "3 \<le> length ls"
  shows "imposes T s (AssertXor_list (core_circuit T) ls s) (\<lambda>_. True) \<and>
    imposes T s (AssertXnor_list (core_circuit T) ls s) (\<lambda>_. False)"
proof -
  let ?C = "core_circuit T"
  have n: "length ls \<noteq> 0" "length ls \<noteq> 1" "length ls \<noteq> 2" "length ls \<noteq> Suc 0" using assms(3) by auto
  have r: "AssertXor_list ?C ls s = Assert ?C (getTrue ?C) s" "AssertXnor_list ?C ls s = Assert ?C (getFalse ?C) s"
    using n by (simp_all add: AssertXor_list_def AssertXnor_list_def AssertXor_vec_def AssertXnor_vec_def
        core.collect_append core.Xor_vec_tmp Xnor_vec_def negated_def Let_def getTrue_def getFalse_def)
  show ?thesis unfolding r
    by (intro conjI core_asserts core.Assert_asserts core.is_lit_true core.is_lit_false assms(1))
qed

theorem xor_list_assertion_lost_witness:
  "imposes (Lit 0) demo (AssertXor_list (core_circuit (Lit 0)) [Lit 2, Lit 4, Lit 6] demo) (\<lambda>_. True)"
  by (rule conjunct1 [OF xor_list_assertion_lost]) (simp_all add: demo_simps)

end
