(* ===== verification/Conflict.thy ===== *)
theory Conflict
  imports Solver_Ops
begin

text \<open>
  Conflict analysis of \<open>core/Solver.cc\<close>: from a clause that the trail falsifies, \<open>analyze\<close> derives a clause that
  becomes unit after backtracking, \<open>litRedundant\<close> drops literals that follow from the others, and \<open>analyzeFinal\<close>
  expresses a conflict in terms of the decisions.  The vector \<open>seen\<close>, which is false everywhere between calls,
  is an argument and a result.  With no theory attached every reason is a clause, so the reconstruction of
  reasons and the second run it may require do not occur; activities are left out.
\<close>

subsection \<open>State of the analysis\<close>

text \<open>\<open>an_seen\<close>, \<open>an_out\<close> and \<open>an_path\<close> are \<open>seen\<close>, \<open>out_learnt\<close> and \<open>pathC\<close>.\<close>

record analysis =
  an_seen :: "bool list"
  an_out :: "lit list"
  an_path :: int

abbreviation seen_at :: "bool list \<Rightarrow> lit \<Rightarrow> bool" where
  "seen_at seen l \<equiv> seen ! nat (var l)"

definition set_seen :: "lit \<Rightarrow> bool \<Rightarrow> bool list \<Rightarrow> bool list" where
  "set_seen l b seen = seen[nat (var l) := b]"

fun max_level :: "solver \<Rightarrow> lit list \<Rightarrow> nat \<Rightarrow> nat" where
  "max_level s [] m = m"
| "max_level s (p # ps) m = max_level s ps (if level s (var p) > m then level s (var p) else m)"

subsection \<open>The first unique implication point\<close>

text \<open>The literals of the clause being resolved: those not seen before and above level 0 are marked, and counted
  when they belong to the current level or else put into the learnt clause.\<close>

fun mark_lits :: "solver \<Rightarrow> lit list \<Rightarrow> analysis \<Rightarrow> analysis option" where
  "mark_lits s [] a = Some a"
| "mark_lits s (q # qs) a =
     (if \<not> seen_at (an_seen a) q \<and> level s (var q) > 0 then do {
        check (value_lit s q = LFalse);
        let a = a\<lparr>an_seen := set_seen q True (an_seen a)\<rparr>;
        mark_lits s qs
          (if level s (var q) \<ge> decisionLevel s then a\<lparr>an_path := an_path a + 1\<rparr>
           else a\<lparr>an_out := an_out a @ [q]\<rparr>) }
      else mark_lits s qs a)"

text \<open>
  The scan for the next clause to look at, downwards from position \<open>index = k - 1\<close>: the new value of \<open>index + 1\<close>, which
  is the position of the literal found.
\<close>

fun next_seen :: "solver \<Rightarrow> bool list \<Rightarrow> nat \<Rightarrow> nat \<Rightarrow> nat" where
  "next_seen s seen stop 0 = 0"
| "next_seen s seen stop (Suc k) =
     (if stop \<le> k then
        (let l = sv_trail s ! k in
         if \<not> seen_at seen l \<or> level s (var l) < decisionLevel s then next_seen s seen stop k else k)
      else Suc k)"

text \<open>The loop \<open>while(searching)\<close>: a literal of a lower level is unmarked and the scan goes on.\<close>

partial_function (option) find_next ::
  "solver \<Rightarrow> nat \<Rightarrow> int \<Rightarrow> nat \<Rightarrow> bool list \<Rightarrow> (nat \<times> lit \<times> bool list) option" where
  "find_next s stop path k seen =
     Option.bind (get_at (sv_trail s) (next_seen s seen stop k)) (\<lambda>p.
       if level s (var p) < decisionLevel s then
         Option.bind (check (value_lit s p = LTrue)) (\<lambda>_.
           if path > 0 then find_next s stop path (next_seen s seen stop k) (set_seen p False seen)
           else Some (next_seen s seen stop k, p, set_seen p False seen))
       else Some (next_seen s seen stop k, p, seen))"

definition resolve_reason :: "solver \<Rightarrow> nat option \<Rightarrow> lit \<Rightarrow> analysis \<Rightarrow> analysis option" where
  "resolve_reason s confl p a =
     (case confl of
        Some cr \<Rightarrow> mark_lits s (drop (if p = lit_Undef then 0 else 1) (c_lits (sv_ca s ! cr))) a
      | None \<Rightarrow> Some (a\<lparr>an_out := an_out a @ [neg_lit p]\<rparr>))"

partial_function (option) analyze_loop ::
  "solver \<Rightarrow> nat \<Rightarrow> nat option \<Rightarrow> lit \<Rightarrow> nat \<Rightarrow> analysis \<Rightarrow> (lit \<times> analysis) option" where
  "analyze_loop s stop confl p k a =
     Option.bind (resolve_reason s confl p a) (\<lambda>a.
       Option.bind (find_next s stop (an_path a) k (an_seen a)) (\<lambda>(k, p, seen).
         if an_path a - 1 > 0
         then analyze_loop s stop (reason s (var p)) p k
                (a\<lparr>an_seen := set_seen p False seen, an_path := an_path a - 1\<rparr>)
         else Some (p, a\<lparr>an_seen := set_seen p False seen, an_path := an_path a - 1\<rparr>)))"

declare find_next.simps [code] analyze_loop.simps [code]

subsection \<open>Minimising the learnt clause\<close>

definition abstractLevel :: "solver \<Rightarrow> int \<Rightarrow> 32 word" where
  "abstractLevel s x = push_bit (nat (int (level s x) AND 31)) 1"

text \<open>The antecedents of one literal: \<open>None\<close> for one that cannot be redundant, otherwise the new \<open>seen\<close>,
  \<open>analyze_stack\<close> and \<open>analyze_toclear\<close>.\<close>

fun scan_reason :: "solver \<Rightarrow> 32 word \<Rightarrow> lit list \<Rightarrow> bool list \<times> lit list \<times> lit list \<Rightarrow>
  bool \<times> bool list \<times> lit list \<times> lit list" where
  "scan_reason s levels [] st = (True, st)"
| "scan_reason s levels (p # ps) (seen, stack, clr) =
     (if \<not> seen_at seen p \<and> level s (var p) > 0 then
        (if reason s (var p) \<noteq> None \<and> abstractLevel s (var p) AND levels \<noteq> 0
         then scan_reason s levels ps (set_seen p True seen, stack @ [p], clr @ [p])
         else (False, seen, stack, clr))
      else scan_reason s levels ps (seen, stack, clr))"

text \<open>A failed attempt takes back its marks: everything put into \<open>analyze_toclear\<close> after position \<open>base\<close> (\<open>top\<close> in the code).\<close>

definition clear_seen :: "lit list \<Rightarrow> bool list \<Rightarrow> bool list" where
  "clear_seen ls seen = fold (\<lambda>l. set_seen l False) ls seen"

partial_function (option) redundant_loop ::
  "solver \<Rightarrow> 32 word \<Rightarrow> nat \<Rightarrow> bool list \<Rightarrow> lit list \<Rightarrow> lit list \<Rightarrow> (bool \<times> bool list \<times> lit list) option" where
  "redundant_loop s levels base seen stack clr =
     (if stack = [] then Some (True, seen, clr)
      else Option.bind (reason s (var (last stack))) (\<lambda>cr.
        let (ok, seen, stack, clr) = scan_reason s levels (drop 1 (c_lits (sv_ca s ! cr))) (seen, butlast stack, clr)
        in if ok then redundant_loop s levels base seen stack clr
           else Some (False, clear_seen (drop base clr) seen, take base clr)))"

declare redundant_loop.simps [code]

definition litRedundant :: "solver \<Rightarrow> lit \<Rightarrow> 32 word \<Rightarrow> bool list \<Rightarrow> lit list \<Rightarrow> (bool \<times> bool list \<times> lit list) option" where
  "litRedundant s p levels seen clr = redundant_loop s levels (length clr) seen [p] clr"

text \<open>The loop over \<open>out_learnt\<close> with \<open>ccmin_mode = 2\<close> (deep) and \<open>ccmin_mode = 1\<close> (one step); \<open>kept\<close> is what
  lies before \<open>j\<close>.\<close>

fun minimize_deep :: "solver \<Rightarrow> 32 word \<Rightarrow> lit list \<Rightarrow> lit list \<Rightarrow> bool list \<Rightarrow> lit list \<Rightarrow>
  (lit list \<times> bool list \<times> lit list) option" where
  "minimize_deep s levels [] kept seen clr = Some (kept, seen, clr)"
| "minimize_deep s levels (l # ls) kept seen clr =
     (if reason s (var l) = None then minimize_deep s levels ls (kept @ [l]) seen clr
      else do {
        (red, seen, clr) \<leftarrow> litRedundant s l levels seen clr;
        minimize_deep s levels ls (if red then kept else kept @ [l]) seen clr })"

definition follows_directly :: "solver \<Rightarrow> bool list \<Rightarrow> lit \<Rightarrow> bool" where
  "follows_directly s seen l \<longleftrightarrow> (case reason s (var l) of
     None \<Rightarrow> False
   | Some cr \<Rightarrow> list_all (\<lambda>q. seen_at seen q \<or> level s (var q) = 0) (drop 1 (c_lits (sv_ca s ! cr))))"

definition minimize :: "solver \<Rightarrow> int \<Rightarrow> lit list \<Rightarrow> bool list \<Rightarrow> (lit list \<times> bool list \<times> lit list) option" where
  "minimize s ccmin_mode out seen =
     (if ccmin_mode = 2 then
        minimize_deep s (fold (\<lambda>l a. a OR abstractLevel s (var l)) (drop 1 out) 0) (drop 1 out) (take 1 out) seen out
      else if ccmin_mode = 1 then
        Some (take 1 out @ filter (\<lambda>l. \<not> follows_directly s seen l) (drop 1 out), seen, out)
      else Some (out, seen, out))"

subsection \<open>\<open>analyze\<close>\<close>

text \<open>The position of the first literal with the greatest level, from \<open>max_i\<close> on.\<close>

fun highest :: "solver \<Rightarrow> lit list \<Rightarrow> nat list \<Rightarrow> nat \<Rightarrow> nat" where
  "highest s out [] max_i = max_i"
| "highest s out (i # is) max_i =
     highest s out is (if level s (var (out ! i)) > level s (var (out ! max_i)) then i else max_i)"

definition backtrack_level :: "solver \<Rightarrow> lit list \<Rightarrow> lit list \<times> nat" where
  "backtrack_level s out =
     (if length out = 1 then (out, 0)
      else let m = highest s out [2..<length out] 1
           in (out[m := out ! 1, 1 := out ! m], level s (var (out ! m))))"

text \<open>The result: the learnt clause, the level to go back to, \<open>seen\<close>, and the state after the first backtracking.\<close>

definition analyze :: "int \<Rightarrow> nat \<Rightarrow> bool list \<Rightarrow> solver \<Rightarrow> (lit list \<times> nat \<times> bool list \<times> solver) option" where
  "analyze ccmin_mode confl seen s = do {
     let s = cancelUntil (max_level s (c_lits (sv_ca s ! confl)) 0) s;
     check (sv_trail_lim s \<noteq> []);
     (p, a) \<leftarrow> analyze_loop s (last (sv_trail_lim s)) (Some confl) lit_Undef (length (sv_trail s))
                \<lparr>an_seen = seen, an_out = [lit_Undef], an_path = 0\<rparr>;
     (out, seen, clr) \<leftarrow> minimize s ccmin_mode ((an_out a)[0 := neg_lit p]) (an_seen a);
     let (out, btlevel) = backtrack_level s out;
     Some (out, btlevel, clear_seen clr seen, s) }"

subsection \<open>\<open>analyzeFinal\<close>\<close>

text \<open>The scan down the trail, from its end to \<open>trail_lim[0]\<close>: a marked decision is negated into the result, a marked
  consequence marks its antecedents above level 0.\<close>

fun final_scan :: "solver \<Rightarrow> lit list \<Rightarrow> bool list \<Rightarrow> lit list \<Rightarrow> (bool list \<times> lit list) option" where
  "final_scan s [] seen out = Some (seen, out)"
| "final_scan s (l # ls) seen out =
     (if seen_at seen l then
        (case reason s (var l) of
           None \<Rightarrow> do {
             check (level s (var l) > 0);
             final_scan s ls (set_seen l False seen) (out @ [neg_lit l]) }
         | Some cr \<Rightarrow> do {
             check (var (c_lits (sv_ca s ! cr) ! 0) = var l);
             final_scan s ls (set_seen l False
               (fold (\<lambda>q. if level s (var q) > 0 then set_seen q True else (\<lambda>x. x))
                  (drop 1 (c_lits (sv_ca s ! cr))) seen)) out })
      else final_scan s ls seen out)"

definition analyzeFinal :: "lit \<Rightarrow> bool list \<Rightarrow> solver \<Rightarrow> (lit list \<times> bool list) option" where
  "analyzeFinal p seen s =
     (if decisionLevel s = 0 then Some ([p], seen)
      else do {
        (seen, out) \<leftarrow> final_scan s (rev (drop (sv_trail_lim s ! 0) (sv_trail s))) (set_seen p True seen) [p];
        Some (out, set_seen p False seen) })"

subsection \<open>Learning\<close>

text \<open>The branch of \<open>search\<close> that handles a conflict above level 0: backtrack, store the learnt clause and
  assert its first literal.  A learnt clause whose first literal is assigned is the critical error of the code.\<close>

definition alloc_learnt :: "lit list \<Rightarrow> solver \<Rightarrow> nat \<times> solver" where
  "alloc_learnt ps s =
     (length (sv_ca s), s\<lparr>sv_ca := sv_ca s @ [new_clause ps True True]\<rparr>)"

definition learn :: "lit list \<Rightarrow> solver \<Rightarrow> solver option" where
  "learn ls s =
     (if length ls = 1 then do {
        check (value_lit s (ls ! 0) = LUndef);
        Some (uncheckedEnqueue (ls ! 0) None s) }
      else
        let (cr, s) = alloc_learnt ls s;
            s = attachClause cr (s\<lparr>sv_learnts := sv_learnts s @ [cr]\<rparr>)
        in do {
          check (value_lit s (ls ! 0) = LUndef);
          Some (uncheckedEnqueue (ls ! 0) (Some cr) s) })"

definition resolve_conflict :: "int \<Rightarrow> nat \<Rightarrow> bool list \<Rightarrow> solver \<Rightarrow> (bool list \<times> solver) option" where
  "resolve_conflict ccmin_mode confl seen s = do {
     (ls, btlevel, seen, s) \<leftarrow> analyze ccmin_mode confl seen s;
     s \<leftarrow> learn ls (cancelUntil btlevel s);
     Some (seen, s) }"

end
