(* ===== verification/Simplify.thy ===== *)
theory Simplify
  imports Solver
begin

text \<open>
  Deletion of clauses in \<open>core/Solver.cc\<close>: \<open>removeClause\<close> with the lazy detaching from the watch lists, and \<open>simplify\<close>,
  which removes the clauses satisfied at level 0.  \<open>remove_satisfied\<close> is true, as in every
  solver of \<open>core/\<close>; no variable is released, so that \<open>simplify\<close> has no trail to compact; no theory is attached.  The counts of
  literals, the wasted space of the arena and its compaction, which renames references, are left out.
\<close>

subsection \<open>Removing a clause\<close>

text \<open>Watchers are compared by their clause; the strict variant fails an assertion when there is none.\<close>

fun drop_watcher :: "nat \<Rightarrow> watcher list \<Rightarrow> watcher list option" where
  "drop_watcher cr [] = None"
| "drop_watcher cr (w # ws) = (if w_cref w = cr then Some ws else map_option ((#) w) (drop_watcher cr ws))"

definition detachClause :: "nat \<Rightarrow> bool \<Rightarrow> solver \<Rightarrow> solver option" where
  "detachClause cr strict s = do {
     c \<leftarrow> get_at (sv_ca s) cr;
     let ls = c_lits c;
     check (length ls > 1);
     let i = lit_index (neg_lit (ls ! 0));
     let j = lit_index (neg_lit (ls ! 1));
     if strict then do {
       ws \<leftarrow> drop_watcher cr (occ_at (sv_watches s) i);
       let s = s\<lparr>sv_watches := occ_set i ws (sv_watches s)\<rparr>;
       ws \<leftarrow> drop_watcher cr (occ_at (sv_watches s) j);
       Some (s\<lparr>sv_watches := occ_set j ws (sv_watches s)\<rparr>) }
     else Some (s\<lparr>sv_watches := occ_smudge j (occ_smudge i (sv_watches s))\<rparr>) }"

definition locked :: "solver \<Rightarrow> nat \<Rightarrow> bool" where
  "locked s cr = (case reason s (var (c_lits (sv_ca s ! cr) ! 0)) of
     None \<Rightarrow> False
   | Some r \<Rightarrow> value_lit s (c_lits (sv_ca s ! cr) ! 0) = LTrue \<and> r = cr)"

definition removeClause :: "nat \<Rightarrow> solver \<Rightarrow> solver option" where
  "removeClause cr s = do {
     s \<leftarrow> detachClause cr False s;
     let c = sv_ca s ! cr;
     let v = nat (var (c_lits c ! 0));
     let s = (if locked s cr then s\<lparr>sv_vardata := (sv_vardata s)[v := (sv_vardata s ! v)\<lparr>vd_reason := None\<rparr>]\<rparr> else s);
     Some (s\<lparr>sv_ca := (sv_ca s)[cr := c\<lparr>c_mark := 1\<rparr>]\<rparr>) }"

subsection \<open>Satisfied clauses\<close>

definition satisfied :: "solver \<Rightarrow> clause \<Rightarrow> bool" where
  "satisfied s c = list_ex (\<lambda>l. value_lit s l = LTrue) (c_lits c)"

text \<open>The scan of one of the two lists of clauses: what is kept, in order, and the state.\<close>

fun removeSatisfied :: "nat list \<Rightarrow> nat list \<Rightarrow> solver \<Rightarrow> (nat list \<times> solver) option" where
  "removeSatisfied [] kept s = Some (kept, s)"
| "removeSatisfied (cr # crs) kept s = do {
     c \<leftarrow> get_at (sv_ca s) cr;
     if satisfied s c then do { s \<leftarrow> removeClause cr s; removeSatisfied crs kept s }
     else removeSatisfied crs (kept @ [cr]) s }"

text \<open>\<open>idle\<close> is the outcome of the test that there is nothing new to simplify, which compares counters of assignments and
  propagations.\<close>

definition simplify :: "bool \<Rightarrow> solver \<Rightarrow> (bool \<times> solver) option" where
  "simplify idle s = do {
     check (decisionLevel s = 0);
     if \<not> sv_ok s then Some (False, s\<lparr>sv_ok := False\<rparr>)
     else do {
       (confl, s) \<leftarrow> propagate s;
       if confl \<noteq> None \<or> \<not> sv_ok s then Some (False, s\<lparr>sv_ok := False\<rparr>)
       else if idle then Some (True, s)
       else do {
         (ls, s) \<leftarrow> removeSatisfied (sv_learnts s) [] s;
         let s = s\<lparr>sv_learnts := ls\<rparr>;
         (cs, s) \<leftarrow> removeSatisfied (sv_clauses s) [] s;
         Some (True, s\<lparr>sv_clauses := cs, sv_qhead := length (sv_trail s)\<rparr>) } } }"

end
