(* ===== verification/Luby.thy ===== *)
theory Luby
  imports Prelude Complex_Main
begin

text \<open>
  The restart sequence of \<open>mtl/Alg.h\<close>: the two loops of \<open>luby\<close>, which compute the exponent of the result, and the proof
  that they end for every index and yield the sequence of Luby, Sinclair and Zuckerman (1, 1, 2, 1, 1, 2, 4, \<dots> for base 2).
\<close>

subsection \<open>The code\<close>

text \<open>The first loop: the size of the finite subsequence that contains the index \<open>x\<close>, and its number.\<close>

function luby_up :: "nat \<Rightarrow> nat \<Rightarrow> nat \<Rightarrow> nat \<times> nat" where
  "luby_up x sz seq = (if sz < x + 1 then luby_up x (2 * sz + 1) (seq + 1) else (sz, seq))"
  by pat_completeness auto
termination by (relation "measure (\<lambda>(x, sz, seq). x + 1 - sz)") auto

text \<open>The second loop; a division by zero is a crash.\<close>

partial_function (option) luby_down :: "int \<Rightarrow> int \<Rightarrow> int \<Rightarrow> int option" where
  "luby_down sz seq x =
     (if sz - 1 \<noteq> x then
        (let sz' = (sz - 1) div 2 in
         if sz' = 0 then None else luby_down sz' (seq - 1) (x mod sz'))
      else Some seq)"

declare luby_down.simps [code]
declare luby_up.simps [simp del]

definition luby :: "real \<Rightarrow> nat \<Rightarrow> real option" where
  "luby y x = (let (sz, seq) = luby_up x 1 0 in
     Option.bind (luby_down (int sz) (int seq) (int x)) (\<lambda>seq. Some (y ^ nat seq)))"

subsection \<open>The sequence\<close>

text \<open>The exponent of the element at index \<open>x\<close>, counted from 0: the last element of the block of size \<open>2 ^ (k + 1) - 1\<close> is \<open>k\<close>;
  before it the block repeats the smaller block twice.\<close>

fun luby_exp :: "nat \<Rightarrow> nat \<Rightarrow> nat" where
  "luby_exp 0 x = 0"
| "luby_exp (Suc k) x =
     (if x + 2 = 2 ^ (k + 2) then Suc k else luby_exp k (x mod (2 ^ (k + 1) - 1)))"

lemma luby_up_spec:
  "sz = 2 ^ Suc k - 1 \<Longrightarrow> seq = k \<Longrightarrow>
   \<exists>m\<ge>k. luby_up x sz seq = (2 ^ Suc m - 1, m) \<and> x + 1 \<le> 2 ^ Suc m - 1 \<and> (k < m \<longrightarrow> 2 ^ m - 1 < x + 1)"
proof (induction x sz seq arbitrary: k rule: luby_up.induct)
  case (1 x sz seq)
  show ?case
  proof (cases "sz < x + 1")
    case True
    have "1 \<le> (2 :: nat) ^ k" by simp
    then have "2 * sz + 1 = 2 ^ Suc (Suc k) - 1" using 1(2) unfolding power_Suc by arith
    from 1(1)[OF True this] obtain m where "Suc k \<le> m" "luby_up x (2 * sz + 1) (seq + 1) = (2 ^ Suc m - 1, m)"
      "x + 1 \<le> 2 ^ Suc m - 1" "Suc k < m \<longrightarrow> 2 ^ m - 1 < x + 1" using 1(3) by auto
    moreover have "2 ^ m - 1 < x + 1" if "m = Suc k" using True 1(2) that by simp
    ultimately show ?thesis using True 1(2,3) by (subst luby_up.simps) (auto intro!: exI[of _ m])
  next
    case False
    then show ?thesis using 1(2,3) by (subst luby_up.simps) (auto intro!: exI[of _ k])
  qed
qed

lemma luby_down_spec:
  "x + 1 \<le> 2 ^ Suc k - 1 \<Longrightarrow> luby_down (2 ^ Suc k - 1) (int k) (int x) = Some (int (luby_exp k x))"
proof (induction k arbitrary: x)
  case 0
  then show ?case by (subst luby_down.simps) simp
next
  case (Suc k)
  let ?sz = "(2 :: int) ^ Suc (Suc k) - 1"
  show ?case
  proof (cases "x + 2 = 2 ^ (k + 2)")
    case True
    then have "int x + 2 = 2 ^ (k + 2)" by (metis of_nat_add of_nat_numeral of_nat_power)
    then have "?sz - 1 = int x" by simp
    then show ?thesis using True by (subst luby_down.simps) simp
  next
    case False
    have "int x + 2 \<noteq> 2 ^ (k + 2)" using False by (metis of_nat_add of_nat_eq_iff of_nat_numeral of_nat_power)
    then have ne: "?sz - 1 \<noteq> int x" by simp
    let ?h = "(2 :: nat) ^ Suc k - 1"
    have h: "(?sz - 1) div 2 = int ?h" by (simp add: of_nat_diff)
    have "(1 :: nat) < 2 ^ Suc k" by (rule one_less_power) simp_all
    then have pos: "0 < ?h" by (simp only: zero_less_diff)
    have "x mod ?h + 1 \<le> ?h" using mod_less_divisor[OF pos, of x] by linarith
    from Suc.IH[OF this] have "luby_down (int ?h) (int k) (int (x mod ?h)) = Some (int (luby_exp k (x mod ?h)))"
      by (simp add: of_nat_diff)
    moreover have "(1 :: int) < 2 ^ Suc k" by (rule one_less_power) simp_all
    ultimately show ?thesis using ne False pos h by (subst luby_down.simps) (simp add: Let_def zmod_int)
  qed
qed

lemma luby_exp_stable: "x + 1 \<le> 2 ^ Suc k - 1 \<Longrightarrow> luby_exp (Suc k) x = luby_exp k x"
  by auto

lemma luby_exp_stable':
  assumes x: "x + 1 \<le> 2 ^ Suc k - 1"
  shows "k \<le> m \<Longrightarrow> luby_exp m x = luby_exp k x"
proof (induction m rule: nat_induct_at_least)
  case (Suc m)
  have "(2 :: nat) ^ Suc k \<le> 2 ^ Suc m" by (rule power_increasing) (use Suc.hyps in simp_all)
  then have "x + 1 \<le> 2 ^ Suc m - 1" using x by linarith
  then show ?case using luby_exp_stable Suc.IH by metis
qed simp

lemma luby_eq:
  assumes "x + 1 \<le> 2 ^ Suc k - 1"
  shows "luby y x = Some (y ^ luby_exp k x)"
proof -
  obtain m where m: "luby_up x 1 0 = (2 ^ Suc m - 1, m)" "x + 1 \<le> 2 ^ Suc m - 1"
    using luby_up_spec[of 1 0 0 x] by auto
  have "luby_down (int (2 ^ Suc m - 1)) (int m) (int x) = Some (int (luby_exp m x))"
    using luby_down_spec[OF m(2)] by (simp add: of_nat_diff)
  moreover have "luby_exp m x = luby_exp k x"
    using luby_exp_stable'[OF m(2), of k] luby_exp_stable'[OF assms, of m] by (cases "k \<le> m") simp_all
  ultimately show ?thesis unfolding luby_def m(1) by simp
qed

lemma luby_in_block: "x + 1 \<le> 2 ^ Suc x - (1 :: nat)"
  by (induction x) auto

lemma luby_returns: "\<exists>e. luby y x = Some (y ^ e)"
  using luby_eq[OF luby_in_block] by blast



end
