(* ===== verification/Search.thy ===== *)
theory Search
  imports Conflict Simplify Luby
begin

text \<open>
  The search of \<open>core/Solver.cc\<close>: \<open>search\<close>, one run between restarts, and \<open>solve_\<close>, the loop over restarts, both
  under assumptions and with no theory attached.  The order in which \<open>pickBranchLit\<close> finds the variables in its
  heap and the phases it gives them are arguments, one order and one set of phases per decision; so is the outcome of
  the test by which \<open>simplify\<close> does nothing, one per call.  Resource budgets are off, and \<open>max_learnts\<close> is never reached,
  so that \<open>reduceDB\<close> is not called.
\<close>

subsection \<open>Options and state\<close>

text \<open>\<open>so_prop_assumps\<close> and \<open>so_only_assumps\<close> are \<open>opt_theory_propagate_assumptions\<close> and \<open>only_propagate_assumptions\<close>;
  \<open>so_order n\<close> and \<open>so_phase n\<close> are the heap's order and the phases at the \<open>n\<close>-th decision, \<open>so_idle n\<close> is
  the outcome of the test of counters in the \<open>n\<close>-th call of \<open>simplify\<close>.\<close>

record search_opts =
  so_ccmin_mode :: int
  so_restarts :: bool
  so_prop_assumps :: bool
  so_only_assumps :: bool
  so_quit_at_restart :: bool
  so_luby_restart :: bool
  so_restart_first :: nat
  so_restart_inc :: real
  so_order :: "nat \<Rightarrow> int list"
  so_phase :: "nat \<Rightarrow> int \<Rightarrow> bool"
  so_idle :: "nat \<Rightarrow> bool"

text \<open>The solver, its vector \<open>seen\<close>, the number of conflicts of this run (\<open>conflictC\<close>), the number of decisions, the
  number of calls of \<open>simplify\<close>, and the local \<open>propagate_theories_during_assumptions\<close>.\<close>

record search_state =
  ss_solver :: solver
  ss_seen :: "bool list"
  ss_conflicts :: int
  ss_decisions :: nat
  ss_simplified :: nat
  ss_prop_assumps :: bool

datatype search_outcome =
  Continue search_state
| Return lbool "lit list" search_state

subsection \<open>One round of the loop\<close>

definition pickBranchLit :: "int list \<Rightarrow> (int \<Rightarrow> bool) \<Rightarrow> solver \<Rightarrow> lit" where
  "pickBranchLit order phase s =
     (case List.find (\<lambda>v. value_var s v = LUndef) order of None \<Rightarrow> lit_Undef | Some v \<Rightarrow> mkLit v (phase v))"

text \<open>A conflict at level 0 ends the search; above it, the solver backtracks and learns, and leaves the assumption levels
  for level 0 the first time it has fallen back into them.\<close>

definition handle_conflict :: "search_opts \<Rightarrow> lit list \<Rightarrow> nat option \<Rightarrow> search_state \<Rightarrow> search_outcome option" where
  "handle_conflict opts assumptions confl st =
     (let st = st\<lparr>ss_conflicts := ss_conflicts st + 1\<rparr> in
      if decisionLevel (ss_solver st) = 0 then Some (Return LFalse [] st)
      else do {
        cr \<leftarrow> confl;
        (seen, s) \<leftarrow> resolve_conflict (so_ccmin_mode opts) cr (ss_seen st) (ss_solver st);
        let st = st\<lparr>ss_seen := seen, ss_solver := s\<rparr>;
        Some (Continue
          (if \<not> ss_prop_assumps st \<and> decisionLevel s > 0 \<and> decisionLevel s < length assumptions
           then st\<lparr>ss_prop_assumps := True, ss_solver := cancelUntil 0 s\<rparr> else st)) })"

text \<open>
  The loop over the assumptions from the current level on: an assumption that holds gets a level of its own, a false
  one is the result \<open>Inl\<close>, an unassigned one is the next decision.
\<close>

fun assume_loop :: "lit list \<Rightarrow> bool \<Rightarrow> solver \<Rightarrow> (lit \<times> solver) + (lit \<times> bool \<times> solver)" where
  "assume_loop [] assumps_processed s = Inr (lit_Undef, assumps_processed, s)"
| "assume_loop (p # ps) assumps_processed s =
     (if value_lit s p = LTrue then assume_loop ps True (newDecisionLevel s)
      else if value_lit s p = LFalse then Inl (p, s)
      else Inr (p, assumps_processed, s))"

text \<open>The set of literals \<open>conflict\<close>.\<close>

definition lit_set :: "lit list \<Rightarrow> lit list" where
  "lit_set ls = fold (\<lambda>l c. if l \<in> set c then c else c @ [l]) ls []"

text \<open>The decision itself; its checks are the exceptions of the code.\<close>

definition decide :: "lit list \<Rightarrow> lit \<Rightarrow> solver \<Rightarrow> solver option" where
  "decide assumptions next s = do {
     check (next \<noteq> lit_Undef);
     check (var next < int (nVars s));
     check (value_lit s next = LUndef);
     check (decisionLevel s \<le> nVars s + length assumptions + 1);
     Some (snd (enqueue next None s)) }"

definition next_decision :: "search_opts \<Rightarrow> lit list \<Rightarrow> search_state \<Rightarrow> search_outcome option" where
  "next_decision opts assumptions st =
     (case assume_loop (drop (decisionLevel (ss_solver st)) assumptions) False (ss_solver st) of
        Inl (p, s) \<Rightarrow> do {
          (conflict, seen) \<leftarrow> analyzeFinal (neg_lit p) (ss_seen st) s;
          Some (Return LFalse (lit_set conflict) (st\<lparr>ss_solver := s, ss_seen := seen\<rparr>)) }
      | Inr (next, assumps_processed, s) \<Rightarrow>
          if so_only_assumps opts \<and> next = lit_Undef \<and> decisionLevel s = length assumptions then
            Some (Return LTrue [] (st\<lparr>ss_solver := s\<rparr>))
          else if next = lit_Undef \<and> assumps_processed then Some (Continue (st\<lparr>ss_solver := s\<rparr>))
          else
            let s = newDecisionLevel s in
            if next = lit_Undef then
              let l = pickBranchLit (so_order opts (ss_decisions st)) (so_phase opts (ss_decisions st)) s;
                  st = st\<lparr>ss_decisions := ss_decisions st + 1\<rparr>
              in if l = lit_Undef then Some (Return LTrue [] (st\<lparr>ss_solver := s\<rparr>))
                 else do { s \<leftarrow> decide assumptions l s; Some (Continue (st\<lparr>ss_solver := s\<rparr>)) }
            else do { s \<leftarrow> decide assumptions next s; Some (Continue (st\<lparr>ss_solver := s\<rparr>)) })"

definition search_round :: "search_opts \<Rightarrow> lit list \<Rightarrow> int \<Rightarrow> search_state \<Rightarrow> search_outcome option" where
  "search_round opts assumptions nof_conflicts st = do {
     (confl, s) \<leftarrow> propagate (ss_solver st);
     let st = st\<lparr>ss_solver := s\<rparr>;
     if \<not> sv_ok s \<or> confl \<noteq> None then handle_conflict opts assumptions confl st
     else if so_restarts opts \<and> nof_conflicts \<ge> 0 \<and> ss_conflicts st \<ge> nof_conflicts then
       Some (Return LUndef [] (st\<lparr>ss_solver := cancelUntil 0 s\<rparr>))
     else if decisionLevel s = 0 then do {
       (simplified, s) \<leftarrow> simplify (so_idle opts (ss_simplified st)) s;
       let st = st\<lparr>ss_solver := s, ss_simplified := ss_simplified st + 1\<rparr>;
       if \<not> simplified then Some (Return LFalse [] st) else next_decision opts assumptions st }
     else next_decision opts assumptions st }"

subsection \<open>The loops\<close>

partial_function (option) search_loop ::
  "search_opts \<Rightarrow> lit list \<Rightarrow> int \<Rightarrow> search_state \<Rightarrow> (lbool \<times> lit list \<times> search_state) option" where
  "search_loop opts assumptions nof_conflicts st =
     Option.bind (search_round opts assumptions nof_conflicts st) (\<lambda>r. case r of
       Continue st \<Rightarrow> search_loop opts assumptions nof_conflicts st
     | Return status conflict st \<Rightarrow> Some (status, conflict, st))"

declare search_loop.simps [code]

definition search :: "search_opts \<Rightarrow> lit list \<Rightarrow> int \<Rightarrow> search_state \<Rightarrow> (lbool \<times> lit list \<times> search_state) option" where
  "search opts assumptions nof_conflicts st =
     search_loop opts assumptions nof_conflicts (st\<lparr>ss_conflicts := 0, ss_prop_assumps := so_prop_assumps opts\<rparr>)"

text \<open>The number of conflicts allowed to run \<open>n\<close>, in exact arithmetic where the code uses doubles.\<close>

definition restart_limit :: "search_opts \<Rightarrow> nat \<Rightarrow> int option" where
  "restart_limit opts n =
     Option.bind (if so_luby_restart opts then luby (so_restart_inc opts) n else Some (so_restart_inc opts ^ n))
       (\<lambda>rest_base. Some \<lfloor>rest_base * real (so_restart_first opts)\<rfloor>)"

text \<open>The loop over restarts; the third component of the result is \<open>override_restart_count\<close>.\<close>

partial_function (option) restart_loop ::
  "search_opts \<Rightarrow> lit list \<Rightarrow> nat \<Rightarrow> search_state \<Rightarrow> (lbool \<times> lit list \<times> int \<times> search_state) option" where
  "restart_loop opts assumptions curr_restarts st =
     Option.bind (restart_limit opts curr_restarts) (\<lambda>nof_conflicts.
       Option.bind (search opts assumptions nof_conflicts st) (\<lambda>(status, conflict, st).
         if so_quit_at_restart opts \<and> status = LUndef then Some (status, conflict, int (curr_restarts + 1), st)
         else if status = LUndef then restart_loop opts assumptions (curr_restarts + 1) st
         else Some (status, conflict, -1, st)))"

declare restart_loop.simps [code]

record solve_result =
  sr_status :: lbool
  sr_model :: "lbool list"
  sr_conflict :: "lit list"
  sr_override :: int
  sr_solver :: solver

text \<open>\<open>solve_\<close>: the check is the exception for a model that is inconsistent with the assumptions.\<close>

definition solver_solve :: "search_opts \<Rightarrow> int \<Rightarrow> lit list \<Rightarrow> solver \<Rightarrow> solve_result option" where
  "solver_solve opts override_restart_count assumptions s =
     (let s = cancelUntil 0 s in
      if \<not> sv_ok s then
        Some \<lparr>sr_status = LFalse, sr_model = [], sr_conflict = [], sr_override = override_restart_count, sr_solver = s\<rparr>
      else do {
        let curr_restarts = (if so_quit_at_restart opts \<and> override_restart_count \<ge> 0 then nat override_restart_count else 0);
        (status, conflict, override, st) \<leftarrow> restart_loop opts assumptions curr_restarts
          \<lparr>ss_solver = s, ss_seen = replicate (nVars s) False, ss_conflicts = 0, ss_decisions = 0, ss_simplified = 0, ss_prop_assumps = False\<rparr>;
        let s = ss_solver st;
        check (status = LTrue \<longrightarrow> list_all (\<lambda>l. value_lit s l = LTrue) assumptions);
        Some \<lparr>sr_status = status,
              sr_model = (if status = LTrue then map (\<lambda>i. value_var s (int i)) [0..<nVars s] else []),
              sr_conflict = conflict, sr_override = override,
              sr_solver = (if status = LFalse \<and> conflict = [] then s\<lparr>sv_ok := False\<rparr> else s)\<rparr> })"

end
