(* ===== verification/Search_Inv.thy ===== *)
theory Search_Inv
  imports Solver_Ops
begin

text \<open>
  What the search needs of the solver's state beyond its well-formedness: reasons are clauses whose first literal is the
  one they imply, every clause is watched at its first two literals, and a watcher of a literal that has been
  propagated has a true blocker from the same level or below.  Propagation, backtracking and the other
  operations keep this.
\<close>

subsection \<open>The invariant\<close>

text \<open>A reason of a literal on the trail has that literal first and otherwise literals false before it; above
  level 0 only decisions have no reason.\<close>

definition reason_ok :: "solver \<Rightarrow> bool" where
  "reason_ok s \<longleftrightarrow> (\<forall>i<length (sv_trail s). \<forall>cr. reason s (var (sv_trail s ! i)) = Some cr \<longrightarrow>
     cr \<in> set (db s) \<and> clause_lits s cr ! 0 = sv_trail s ! i \<and>
     (\<forall>q\<in>set (drop 1 (clause_lits s cr)). neg_lit q \<in> set (take i (sv_trail s))))"

definition decisions_ok :: "solver \<Rightarrow> bool" where
  "decisions_ok s \<longleftrightarrow> (\<forall>i<length (sv_trail s). reason s (var (sv_trail s ! i)) = None \<longrightarrow>
     level s (var (sv_trail s ! i)) = 0 \<or> i \<in> set (sv_trail_lim s))"

definition level_start :: "solver \<Rightarrow> nat" where
  "level_start s = (if sv_trail_lim s = [] then 0 else last (sv_trail_lim s))"

definition watch_full :: "solver \<Rightarrow> (nat \<Rightarrow> watcher list) \<Rightarrow> bool" where
  "watch_full s W \<longleftrightarrow>
     (\<forall>cr\<in>set (db s). \<forall>i<2. cr \<in> w_cref ` set (W (lit_index (neg_lit (clause_lits s cr ! i))))) \<and>
     (\<forall>q. in_range s q \<longrightarrow> (\<forall>w\<in>set (W (lit_index q)). w_blocker w \<in> set (clause_lits s (w_cref w))))"

definition quiet :: "solver \<Rightarrow> watcher \<Rightarrow> nat \<Rightarrow> bool" where
  "quiet s w lev \<longleftrightarrow> value_lit s (w_blocker w) = LTrue \<and> level s (var (w_blocker w)) \<le> lev"

definition processed :: "solver \<Rightarrow> (nat \<Rightarrow> watcher list) \<Rightarrow> nat \<Rightarrow> bool" where
  "processed s W n \<longleftrightarrow> (\<forall>i<n. \<forall>w\<in>set (W (lit_index (sv_trail s ! i))). quiet s w (level s (var (sv_trail s ! i))))"

text \<open>The invariant in the middle of the loop over the watchers of \<open>p\<close>, the literal at position \<open>n\<close> of the trail.\<close>

definition search_mid :: "solver \<Rightarrow> lit \<Rightarrow> nat \<Rightarrow> watcher list \<Rightarrow> watcher list \<Rightarrow> bool" where
  "search_mid s p n kept ws \<longleftrightarrow> prop_inv s p (kept @ ws) \<and> reason_ok s \<and> decisions_ok s \<and>
     watch_full s (watches_with s p (kept @ ws)) \<and> processed s (watches_with s p (kept @ ws)) n \<and>
     n < length (sv_trail s) \<and> sv_trail s ! n = p \<and> level_start s \<le> n \<and> (\<forall>w\<in>set kept. quiet s w (decisionLevel s))"

subsection \<open>Levels\<close>

lemma level_le_decision:
  "level_wf s \<Longrightarrow> i < length (sv_trail s) \<Longrightarrow> level s (var (sv_trail s ! i)) \<le> decisionLevel s"
  by (simp add: level_wf_def decisionLevel_def)

lemma level_mono:
  assumes "level_wf s" "i \<le> j" "j < length (sv_trail s)"
  shows "level s (var (sv_trail s ! i)) \<le> level s (var (sv_trail s ! j))"
proof -
  have "length (filter (\<lambda>n. n \<le> i) xs) \<le> length (filter (\<lambda>n. n \<le> j) xs)" for xs :: "nat list"
    using assms(2) by (induction xs) auto
  then show ?thesis using assms by (simp add: level_wf_def)
qed

lemma lim_le_start: "level_wf s \<Longrightarrow> n \<in> set (sv_trail_lim s) \<Longrightarrow> n \<le> level_start s"
  by (auto simp: level_start_def level_wf_def sorted_le_last)

lemma current_level_iff:
  assumes "level_wf s" "i < length (sv_trail s)"
  shows "level s (var (sv_trail s ! i)) = decisionLevel s \<longleftrightarrow> level_start s \<le> i"
proof (cases "sv_trail_lim s = []")
  case True
  then show ?thesis using assms by (simp add: level_wf_def level_start_def decisionLevel_def)
next
  case False
  have l: "level s (var (sv_trail s ! i)) = length (filter (\<lambda>n. n \<le> i) (sv_trail_lim s))"
    using assms by (simp add: level_wf_def)
  show ?thesis
  proof
    assume "level s (var (sv_trail s ! i)) = decisionLevel s"
    then have "filter (\<lambda>n. n \<le> i) (sv_trail_lim s) = sv_trail_lim s"
      unfolding l decisionLevel_def by (metis filter_True length_filter_less nat_neq_iff)
    then have "last (sv_trail_lim s) \<le> i" using False by (metis filter_eq_ConsD filter_id_conv last_in_set)
    then show "level_start s \<le> i" using False by (simp add: level_start_def)
  next
    assume "level_start s \<le> i"
    then have "filter (\<lambda>n. n \<le> i) (sv_trail_lim s) = sv_trail_lim s"
      using lim_le_start[OF assms(1)] by (fastforce simp: filter_id_conv)
    then show "level s (var (sv_trail s ! i)) = decisionLevel s" by (simp add: l decisionLevel_def)
  qed
qed

lemma trail_distinct:
  assumes "assign_wf s" "i < length (sv_trail s)" "j < length (sv_trail s)"
    "var (sv_trail s ! i) = var (sv_trail s ! j)"
  shows "i = j"
proof -
  have "distinct (map var (sv_trail s))" using assms(1) by (simp add: assign_wf_def)
  then show ?thesis using assms(2-4) by (metis distinct_conv_nth length_map nth_map)
qed

lemma trail_range: "assign_wf s \<Longrightarrow> i < length (sv_trail s) \<Longrightarrow> in_range s (sv_trail s ! i)"
  by (simp add: assign_wf_def)

subsection \<open>Reordering the literals of a clause\<close>

lemma reason_set_lits [simp]: "reason (set_lits cr ls s) = reason s"
  by (simp add: reason_def set_lits_def fun_eq_iff)

lemma level_start_simps [simp]:
  "level_start (set_lits cr ls s) = level_start s" "level_start (push_watch q w s) = level_start s"
  "level_start (uncheckedEnqueue p r s) = level_start s" "level_start (set_watches p ws s) = level_start s"
  "level_start (s\<lparr>sv_qhead := n\<rparr>) = level_start s" "level_start (s\<lparr>sv_watches := ol\<rparr>) = level_start s"
  by (simp_all add: level_start_def)

lemma decisionLevel_simps [simp]:
  "decisionLevel (set_lits cr ls s) = decisionLevel s" "decisionLevel (push_watch q w s) = decisionLevel s"
  "decisionLevel (uncheckedEnqueue p r s) = decisionLevel s" "decisionLevel (set_watches p ws s) = decisionLevel s"
  "decisionLevel (s\<lparr>sv_qhead := n\<rparr>) = decisionLevel s" "decisionLevel (s\<lparr>sv_watches := ol\<rparr>) = decisionLevel s"
  by (simp_all add: decisionLevel_def)

lemma quiet_set_lits [simp]: "quiet (set_lits cr ls s) w lev = quiet s w lev"
  by (simp add: quiet_def)

lemma drop_1_set: "distinct ls \<Longrightarrow> ls \<noteq> [] \<Longrightarrow> set (drop 1 ls) = set ls - {ls ! 0}"
  by (cases ls) auto

lemma reason_ok_set_lits:
  assumes re: "reorders s cr ls" and wf: "assign_wf s" "db_wf s" and r: "reason_ok s"
    and hd: "value_lit s (clause_lits s cr ! 0) = LTrue \<Longrightarrow> ls ! 0 = clause_lits s cr ! 0"
  shows "reason_ok (set_lits cr ls s)"
  unfolding reason_ok_def
proof (intro allI impI)
  fix i cr'
  assume "i < length (sv_trail (set_lits cr ls s))" and rr: "reason (set_lits cr ls s) (var (sv_trail (set_lits cr ls s) ! i)) = Some cr'"
  then have i: "i < length (sv_trail s)" by simp
  then have old: "cr' \<in> set (db s)" "clause_lits s cr' ! 0 = sv_trail s ! i"
    "\<And>q. q \<in> set (drop 1 (clause_lits s cr')) \<Longrightarrow> neg_lit q \<in> set (take i (sv_trail s))"
    using r rr by (auto simp: reason_ok_def)
  have cl: "clause_lits (set_lits cr ls s) cr' = (if cr' = cr then ls else clause_lits s cr')"
    using re by (simp add: clause_lits_set_lits reorders_def)
  show "cr' \<in> set (db (set_lits cr ls s)) \<and> clause_lits (set_lits cr ls s) cr' ! 0 = sv_trail (set_lits cr ls s) ! i \<and>
      (\<forall>q\<in>set (drop 1 (clause_lits (set_lits cr ls s) cr')). neg_lit q \<in> set (take i (sv_trail (set_lits cr ls s))))"
  proof (cases "cr' = cr")
    case False
    then show ?thesis using old by (simp add: cl)
  next
    case True
    have "value_lit s (sv_trail s ! i) = LTrue" using wf(1) i by (simp add: assign_wf_def)
    then have h: "ls ! 0 = clause_lits s cr ! 0" using hd old(2) True by simp
    have d: "distinct (clause_lits s cr)" "clause_lits s cr \<noteq> []"
      using wf(2) old(1) True by (auto simp: db_wf_def clause_ok_def)
    have m: "mset ls = mset (clause_lits s cr)" using re by (simp add: reorders_def)
    have "set ls = set (clause_lits s cr)" "distinct ls" "ls \<noteq> []"
      using mset_eq_setD[OF m] mset_eq_imp_distinct_iff[OF m] d m by auto
    then have "set (drop 1 ls) = set (drop 1 (clause_lits s cr))" using drop_1_set d h by metis
    then show ?thesis using old True h cl by simp
  qed
qed

lemma decisions_ok_set_lits [simp]: "decisions_ok (set_lits cr ls s) = decisions_ok s"
  by (simp add: decisions_ok_def)

lemma processed_set_lits [simp]: "processed (set_lits cr ls s) W n = processed s W n"
  by (simp add: processed_def)

subsection \<open>Watching and enqueueing\<close>

lemma push_watch_more [simp]:
  "reason (push_watch q w s) = reason s" "level (push_watch q w s) = level s"
  "quiet (push_watch q w s) x lev = quiet s x lev"
  "reason_ok (push_watch q w s) = reason_ok s" "decisions_ok (push_watch q w s) = decisions_ok s"
proof -
  show r: "reason (push_watch q w s) = reason s" "level (push_watch q w s) = level s"
    by (simp_all add: reason_def level_def push_watch_def fun_eq_iff)
  then show "quiet (push_watch q w s) x lev = quiet s x lev" by (simp add: quiet_def)
  show "reason_ok (push_watch q w s) = reason_ok s" "decisions_ok (push_watch q w s) = decisions_ok s"
    by (simp_all add: reason_ok_def decisions_ok_def r)
qed

lemma processed_watches: "processed (s\<lparr>sv_watches := ol\<rparr>) W n = processed s W n"
  by (simp add: processed_def quiet_def value_lit_def value_var_def level_def)

lemma watch_full_watches: "watch_full (s\<lparr>sv_watches := ol\<rparr>) W = watch_full s W"
  by (simp add: watch_full_def in_range_def nVars_def)

lemma enqueue_more:
  assumes "assign_wf s" "in_range s p" "value_lit s p = LUndef" "in_range s l"
  shows "var l \<in> var ` set (sv_trail s) \<Longrightarrow> reason (uncheckedEnqueue p r s) (var l) = reason s (var l)"
    "var l \<in> var ` set (sv_trail s) \<Longrightarrow> level (uncheckedEnqueue p r s) (var l) = level s (var l)"
    "value_lit s l \<noteq> LUndef \<Longrightarrow> value_lit (uncheckedEnqueue p r s) l = value_lit s l"
    "reason (uncheckedEnqueue p r s) (var p) = r" "level (uncheckedEnqueue p r s) (var p) = decisionLevel s"
proof -
  have new: "var p \<notin> var ` set (sv_trail s)" using trail_value(3)[OF assms(1,2)] assms(3) by simp
  have ne: "nat (var l) \<noteq> nat (var p)" if "var l \<in> var ` set (sv_trail s)"
    using nat_var_eq[OF assms(4,2)] that new by auto
  show "reason (uncheckedEnqueue p r s) (var l) = reason s (var l)" if "var l \<in> var ` set (sv_trail s)"
    using ne[OF that] by (simp add: reason_def uncheckedEnqueue_def)
  show "level (uncheckedEnqueue p r s) (var l) = level s (var l)" if "var l \<in> var ` set (sv_trail s)"
    using ne[OF that] by (simp add: level_def uncheckedEnqueue_def)
  show "value_lit (uncheckedEnqueue p r s) l = value_lit s l" if "value_lit s l \<noteq> LUndef"
    using value_enqueue[OF _ assms(2,4)] assms that by (auto simp: assign_wf_def)
  show "reason (uncheckedEnqueue p r s) (var p) = r" "level (uncheckedEnqueue p r s) (var p) = decisionLevel s"
    using nat_var_less[OF assms(2)] by (simp_all add: reason_def level_def uncheckedEnqueue_def nVars_def)
qed

lemma reason_ok_enqueue:
  assumes wf: "assign_wf s" and p: "in_range s p" "value_lit s p = LUndef" and ok: "reason_ok s"
    and r: "\<And>cr. r = Some cr \<Longrightarrow> cr \<in> set (db s) \<and> clause_lits s cr ! 0 = p \<and>
      (\<forall>q\<in>set (drop 1 (clause_lits s cr)). neg_lit q \<in> set (sv_trail s))"
  shows "reason_ok (uncheckedEnqueue p r s)"
  unfolding reason_ok_def
proof (intro allI impI)
  fix i cr
  let ?t = "uncheckedEnqueue p r s"
  assume i: "i < length (sv_trail ?t)" and rr: "reason ?t (var (sv_trail ?t ! i)) = Some cr"
  show "cr \<in> set (db ?t) \<and> clause_lits ?t cr ! 0 = sv_trail ?t ! i \<and>
      (\<forall>q\<in>set (drop 1 (clause_lits ?t cr)). neg_lit q \<in> set (take i (sv_trail ?t)))"
  proof (cases "i = length (sv_trail s)")
    case True
    then show ?thesis using rr r enqueue_more(4)[OF wf p p(1)] by simp
  next
    case False
    then have j: "i < length (sv_trail s)" using i by simp
    then have "reason s (var (sv_trail s ! i)) = Some cr"
      using rr enqueue_more(1)[OF wf p trail_range[OF wf j]] by (simp add: nth_append)
    then show ?thesis using ok j by (simp add: reason_ok_def nth_append)
  qed
qed

lemma decisions_ok_enqueue:
  assumes wf: "assign_wf s" and p: "in_range s p" "value_lit s p = LUndef" and ok: "decisions_ok s"
    and r: "r = None \<Longrightarrow> sv_trail_lim s = [] \<or> length (sv_trail s) \<in> set (sv_trail_lim s)"
  shows "decisions_ok (uncheckedEnqueue p r s)"
  unfolding decisions_ok_def
proof (intro allI impI)
  fix i
  let ?t = "uncheckedEnqueue p r s"
  assume i: "i < length (sv_trail ?t)" and rr: "reason ?t (var (sv_trail ?t ! i)) = None"
  show "level ?t (var (sv_trail ?t ! i)) = 0 \<or> i \<in> set (sv_trail_lim ?t)"
  proof (cases "i = length (sv_trail s)")
    case True
    then show ?thesis using rr r enqueue_more(4,5)[OF wf p p(1)] by (auto simp: decisionLevel_def)
  next
    case False
    then have j: "i < length (sv_trail s)" using i by simp
    then show ?thesis using ok rr enqueue_more(1,2)[OF wf p trail_range[OF wf j]]
      by (simp add: decisions_ok_def nth_append)
  qed
qed

lemma quiet_enqueue:
  assumes wf: "assign_wf s" and p: "in_range s p" "value_lit s p = LUndef" and w: "in_range s (w_blocker w)"
  shows "quiet s w lev \<Longrightarrow> quiet (uncheckedEnqueue p r s) w lev"
proof -
  assume q: "quiet s w lev"
  then have "w_blocker w \<in> set (sv_trail s)" using trail_value(1)[OF wf w] by (simp add: quiet_def)
  then show ?thesis using q enqueue_more(2,3)[OF wf p w] by (simp add: quiet_def)
qed

lemma processed_enqueue:
  assumes wf: "assign_wf s" and p: "in_range s p" "value_lit s p = LUndef" and W: "watch_ok s W"
    and n: "n \<le> length (sv_trail s)" and ok: "processed s W n"
  shows "processed (uncheckedEnqueue p r s) W n"
  unfolding processed_def
proof (intro allI impI ballI)
  fix i w
  let ?t = "uncheckedEnqueue p r s"
  assume i: "i < n" and w: "w \<in> set (W (lit_index (sv_trail ?t ! i)))"
  then have j: "i < length (sv_trail s)" "sv_trail ?t ! i = sv_trail s ! i" using n by (simp_all add: nth_append)
  have rng: "in_range s (sv_trail s ! i)" by (rule trail_range[OF wf j(1)])
  have q: "quiet s w (level s (var (sv_trail s ! i)))" using ok i w j by (simp add: processed_def)
  have b: "in_range s (w_blocker w)" using watch_okD(2)[OF W rng] w j by simp
  have "level ?t (var (sv_trail s ! i)) = level s (var (sv_trail s ! i))"
    using enqueue_more(2)[OF wf p rng] j(1) by simp
  then show "quiet ?t w (level ?t (var (sv_trail ?t ! i)))" using quiet_enqueue[OF wf p b q] j by simp
qed

lemma watch_full_enqueue [simp]: "watch_full (uncheckedEnqueue p r s) W = watch_full s W"
  by (simp add: watch_full_def)

subsection \<open>The loop over a watch list\<close>

lemma mid_parts:
  assumes "search_mid s p n kept ws"
  shows "prop_inv s p (kept @ ws)" "reason_ok s" "decisions_ok s" "watch_full s (watches_with s p (kept @ ws))"
    "processed s (watches_with s p (kept @ ws)) n" "n < length (sv_trail s)" "sv_trail s ! n = p" "level_start s \<le> n"
    "\<forall>w\<in>set kept. quiet s w (decisionLevel s)"
  using assms by (simp_all add: search_mid_def)

lemma mid_keep:
  "search_mid s p n kept (w # ws) \<Longrightarrow> quiet s w (decisionLevel s) \<Longrightarrow> search_mid s p n (kept @ [w]) ws"
  by (simp add: search_mid_def)

lemma mid_forget: "search_mid s p n kept ws \<Longrightarrow> search_mid s p n [] (kept @ ws)"
  by (simp add: search_mid_def)

lemma quiet_true:
  assumes "level_wf s" "assign_wf s" "in_range s (w_blocker w)" "value_lit s (w_blocker w) = LTrue"
  shows "quiet s w (decisionLevel s)"
proof -
  have "w_blocker w \<in> set (sv_trail s)" using trail_value(1)[OF assms(2,3)] assms(4) by simp
  then obtain i where "i < length (sv_trail s)" "sv_trail s ! i = w_blocker w" by (auto simp: in_set_conv_nth)
  then have "level s (var (w_blocker w)) \<le> decisionLevel s" using level_le_decision[OF assms(1)] by metis
  then show ?thesis using assms(4) by (simp add: quiet_def)
qed

lemma mid_swap:
  assumes mid: "search_mid s p n kept (w # ws)"
  defines "cr \<equiv> w_cref w" and "ls \<equiv> swap_watch (neg_lit p) (clause_lits s (w_cref w))"
  shows "search_mid (set_lits cr ls s) p n kept (\<lparr>w_cref = cr, w_blocker = ls ! 0\<rparr> # ws)"
proof -
  note m = mid_parts[OF mid]
  have inv: "prop_inv s p (kept @ w # ws)" using m(1) by simp
  note sw = prop_inv_swap[OF inv, folded cr_def ls_def]
  note pp = prop_inv_parts[OF inv]
  have ww: "w \<in> set (kept @ w # ws)" by simp
  note w = prop_inv_watcher[OF inv ww]
  have len: "2 \<le> length (clause_lits s (w_cref w))" using w(3) by (simp add: clause_ok_def)
  note sp = swap_watch_spec[OF len w(4), folded ls_def]
  have cl: "clause_lits (set_lits cr ls s) cr' = (if cr' = cr then ls else clause_lits s cr')" for cr'
    using w(5) by (simp add: clause_lits_set_lits cr_def)
  have "ls ! 0 = clause_lits s cr ! 0" if "value_lit s (clause_lits s cr ! 0) = LTrue"
  proof -
    have "clause_lits s cr ! 0 \<noteq> neg_lit p" using that pp(7) by auto
    then show ?thesis by (simp add: ls_def swap_watch_def cr_def)
  qed
  then have ro: "reason_ok (set_lits cr ls s)" by (rule reason_ok_set_lits[OF sw(1) pp(1,3) m(2)])
  let ?W = "watches_with s p (kept @ w # ws)"
  let ?W' = "watches_with (set_lits cr ls s) p (kept @ \<lparr>w_cref = cr, w_blocker = ls ! 0\<rparr> # ws)"
  have full: "watch_full (set_lits cr ls s) ?W'"
    unfolding watch_full_def
  proof (intro conjI ballI allI impI)
    fix c i assume c: "c \<in> set (db (set_lits cr ls s))" and i: "i < (2 :: nat)"
    have pair: "{clause_lits (set_lits cr ls s) c ! 0, clause_lits (set_lits cr ls s) c ! 1} =
        {clause_lits s c ! 0, clause_lits s c ! 1}"
      using sp(3) by (simp add: cl) (simp add: cr_def)
    have "i = 0 \<or> i = 1" using i by auto
    then have "clause_lits (set_lits cr ls s) c ! i \<in> {clause_lits (set_lits cr ls s) c ! 0, clause_lits (set_lits cr ls s) c ! 1}"
      by blast
    then have "clause_lits (set_lits cr ls s) c ! i \<in> {clause_lits s c ! 0, clause_lits s c ! 1}" unfolding pair .
    then obtain j where j: "j < 2" "clause_lits (set_lits cr ls s) c ! i = clause_lits s c ! j"
      using zero_less_numeral one_less_numeral_iff[of "num.Bit0 num.One"] by (metis insertE semiring_norm(76) singletonD)
    have "c \<in> w_cref ` set (?W (lit_index (neg_lit (clause_lits s c ! j))))"
      using m(4) c j(1) by (simp add: watch_full_def)
    then show "c \<in> w_cref ` set (?W' (lit_index (neg_lit (clause_lits (set_lits cr ls s) c ! i))))"
      unfolding j(2) by (auto simp: cr_def split: if_splits)
  next
    fix q x assume q: "in_range (set_lits cr ls s) q" and x: "x \<in> set (?W' (lit_index q))"
    have b: "y \<in> set (?W (lit_index q)) \<Longrightarrow> w_blocker y \<in> set (clause_lits s (w_cref y))" for y
      using m(4) q by (simp add: watch_full_def)
    have "set (clause_lits (set_lits cr ls s) c) = set (clause_lits s c)" for c by (rule set_perm[OF sw(1)])
    moreover have "0 < length ls" using mset_eq_length[OF sp(1)] len by linarith
    then have "ls ! 0 \<in> set (clause_lits s cr)" using mset_eq_setD[OF sp(1)] nth_mem by (fastforce simp: cr_def)
    ultimately show "w_blocker x \<in> set (clause_lits (set_lits cr ls s) (w_cref x))"
      using x b by (auto split: if_splits)
  qed
  have ne: "lit_index (sv_trail s ! i) \<noteq> lit_index p" if "i < n" for i
    using lit_index_eq[OF trail_range[OF pp(1)] pp(6), of i] trail_distinct[OF pp(1), of i n] m(6,7) that by auto
  have "processed (set_lits cr ls s) ?W' n" using m(5) ne by (simp add: processed_def)
  then show ?thesis using sw(4) ro m full unfolding search_mid_def by simp
qed

lemma mid_new_watch:
  assumes mid: "search_mid s p n kept (w # ws)"
    and ls: "clause_lits s (w_cref w) ! 1 = neg_lit p"
    and k: "2 \<le> k" "k < length (clause_lits s (w_cref w))" "value_lit s (clause_lits s (w_cref w) ! k) \<noteq> LFalse"
    and b: "w_blocker w = clause_lits s (w_cref w) ! 0"
  defines "cr \<equiv> w_cref w" and "ls \<equiv> clause_lits s (w_cref w)"
  defines "ks \<equiv> ls[1 := ls ! k, k := neg_lit p]"
  shows "search_mid (push_watch (neg_lit (ls ! k)) w (set_lits cr ks s)) p n kept ws"
proof -
  note m = mid_parts[OF mid]
  have inv: "prop_inv s p (kept @ w # ws)" using m(1) by simp
  note pp = prop_inv_parts[OF inv]
  have ww: "w \<in> set (kept @ w # ws)" by simp
  note w = prop_inv_watcher[OF inv ww, folded cr_def ls_def]
  note nw = prop_inv_new_watch[OF inv ls k(1,2) b, folded cr_def ls_def, folded ks_def]
  let ?s1 = "set_lits cr ks s" and ?q = "neg_lit (ls ! k)"
  let ?t = "push_watch ?q w ?s1"
  have in_ls: "0 < length ls" "1 < length ls" "k < length ls" using k(1,2) unfolding ls_def by linarith+
  have ks0: "ks ! 0 = ls ! 0" "ks ! 1 = ls ! k" using k in_ls by (simp_all add: ks_def)
  have q: "in_range s ?q" using w(3) in_ls(3) by (simp add: clause_ok_def)
  have cl: "clause_lits ?t c = (if c = cr then ks else clause_lits s c)" for c
    using w(5) by (simp add: clause_lits_set_lits)
  have qp: "?q \<noteq> p"
  proof
    assume "?q = p"
    then have "ls ! k = ls ! 1" using ls by (simp add: ls_def neg_eq_swap)
    then show False using w(3) in_ls k(1) by (auto simp: clause_ok_def nth_eq_iff_index_eq)
  qed
  have idx: "lit_index ?q \<noteq> lit_index p" using lit_index_eq[OF q pp(6)] qp by simp
  have occ: "occ_at (sv_watches ?t) = (occ_at (sv_watches s))(lit_index ?q := occ_at (sv_watches s) (lit_index ?q) @ [w])"
    using occ_at_push[of ?s1 ?q w] pp(5) q by (simp add: occ_len_def)
  let ?W = "watches_with s p (kept @ w # ws)" and ?W' = "watches_with ?t p (kept @ ws)"
  have W': "?W' i = (if i = lit_index p then kept @ ws else if i = lit_index ?q then ?W i @ [w] else ?W i)" for i
    using occ idx by auto
  have ro: "reason_ok ?t"
    using reason_ok_set_lits[OF nw(1) pp(1,3) m(2)] ks0 by (simp add: ls_def cr_def)
  have full: "watch_full ?t ?W'"
    unfolding watch_full_def
  proof (intro conjI ballI allI impI)
    fix c i assume c: "c \<in> set (db ?t)" and i: "i < (2 :: nat)"
    have old: "c \<in> w_cref ` set (?W (lit_index (neg_lit (clause_lits s c ! i))))" using m(4) c i by (simp add: watch_full_def)
    show "c \<in> w_cref ` set (?W' (lit_index (neg_lit (clause_lits ?t c ! i))))"
    proof (cases "c = cr")
      case False
      then have same: "clause_lits ?t c = clause_lits s c" unfolding cl by simp
      show ?thesis using old False unfolding same W' by (auto simp: cr_def split: if_splits)
    next
      case True
      have "i = 0 \<or> i = 1" using i by auto
      then show ?thesis
      proof
        assume i0: "i = 0"
        have "ls ! 0 \<noteq> ls ! 1" using w(3) in_ls by (simp add: clause_ok_def nth_eq_iff_index_eq)
        then have "neg_lit (ls ! 0) \<noteq> p" using ls by (auto simp: ls_def)
        moreover have "in_range s (neg_lit (ls ! 0))" using w(3) in_ls(1) by (simp add: clause_ok_def)
        ultimately have "lit_index (neg_lit (ls ! 0)) \<noteq> lit_index p" using lit_index_eq[OF _ pp(6)] by blast
        then show ?thesis using old True i0 unfolding cl W' by (auto simp: ks0 ls_def cr_def)
      next
        assume i1: "i = 1"
        show ?thesis unfolding cl W' using True i1 idx ks0 by (simp add: cr_def)
      qed
    qed
  next
    fix r x assume r: "in_range ?t r" and x: "x \<in> set (?W' (lit_index r))"
    have b': "y \<in> set (?W (lit_index r)) \<Longrightarrow> w_blocker y \<in> set (clause_lits s (w_cref y))" for y
      using m(4) r by (simp add: watch_full_def)
    have "set (clause_lits ?t c) = set (clause_lits s c)" for c using set_perm[OF nw(1)] by simp
    moreover have "w_blocker w \<in> set (clause_lits s (w_cref w))" unfolding b using in_ls(1) by (simp add: ls_def)
    ultimately show "w_blocker x \<in> set (clause_lits ?t (w_cref x))" using x b' unfolding W' by (auto split: if_splits)
  qed
  have "processed ?t ?W' n"
    unfolding processed_def
  proof (intro allI impI ballI)
    fix i x assume i: "i < n" and x: "x \<in> set (?W' (lit_index (sv_trail ?t ! i)))"
    have j: "i < length (sv_trail s)" using i m(6) by simp
    note rng = trail_range[OF pp(1) j]
    have "sv_trail s ! i \<noteq> p" using trail_distinct[OF pp(1) j m(6)] m(7) i by auto
    then have n1: "lit_index (sv_trail s ! i) \<noteq> lit_index p" using lit_index_eq[OF rng pp(6)] by simp
    have "value_lit s (sv_trail s ! i) = LTrue" using pp(1) j by (simp add: assign_wf_def)
    then have "sv_trail s ! i \<noteq> ?q" using k(3) by (auto simp: ls_def)
    then have n2: "lit_index (sv_trail s ! i) \<noteq> lit_index ?q" using lit_index_eq[OF rng q] by simp
    have "x \<in> set (?W (lit_index (sv_trail s ! i)))" using x n1 n2 unfolding W' by simp
    then show "quiet ?t x (level ?t (var (sv_trail ?t ! i)))" using m(5) i by (simp add: processed_def)
  qed
  then show ?thesis using nw(2) ro m full unfolding search_mid_def by simp
qed

lemma qhead_more [simp]:
  "reason_ok (s\<lparr>sv_qhead := m\<rparr>) = reason_ok s" "decisions_ok (s\<lparr>sv_qhead := m\<rparr>) = decisions_ok s"
  "watch_full (s\<lparr>sv_qhead := m\<rparr>) W = watch_full s W" "processed (s\<lparr>sv_qhead := m\<rparr>) W k = processed s W k"
  "quiet (s\<lparr>sv_qhead := m\<rparr>) w lev = quiet s w lev"
  by (simp_all add: reason_ok_def decisions_ok_def watch_full_def processed_def quiet_def reason_def level_def)

lemma mid_qhead: "m \<le> length (sv_trail s) \<Longrightarrow> search_mid s p n kept ws \<Longrightarrow> search_mid (s\<lparr>sv_qhead := m\<rparr>) p n kept ws"
  by (simp add: search_mid_def prop_inv_qhead)

lemma mid_enqueue:
  assumes mid: "search_mid s p n kept (w # ws)" and c: "clause_lits s (w_cref w) ! 1 = neg_lit p"
    "\<forall>k. 2 \<le> k \<and> k < length (clause_lits s (w_cref w)) \<longrightarrow> value_lit s (clause_lits s (w_cref w) ! k) = LFalse"
    "value_lit s (clause_lits s (w_cref w) ! 0) = LUndef" "w_blocker w = clause_lits s (w_cref w) ! 0"
  defines "t \<equiv> uncheckedEnqueue (clause_lits s (w_cref w) ! 0) (Some (w_cref w)) s"
  shows "search_mid t p n (kept @ [w]) ws"
proof -
  let ?l = "clause_lits s (w_cref w) ! 0"
  note m = mid_parts[OF mid]
  have inv: "prop_inv s p (kept @ w # ws)" using m(1) by simp
  note pp = prop_inv_parts[OF inv]
  have ww: "w \<in> set (kept @ w # ws)" by simp
  note w = prop_inv_watcher[OF inv ww]
  have rng: "in_range s ?l" by (rule clause_ok_nth[OF w(3)]) simp
  have fls: "neg_lit q \<in> set (sv_trail s)" if mem: "q \<in> set (drop 1 (clause_lits s (w_cref w)))" for q
  proof -
    obtain k where k: "k < length (drop 1 (clause_lits s (w_cref w)))" "drop 1 (clause_lits s (w_cref w)) ! k = q"
      using mem unfolding in_set_conv_nth by blast
    then have q: "q = clause_lits s (w_cref w) ! Suc k" "Suc k < length (clause_lits s (w_cref w))" by auto
    then have "in_range s q" using w(3) by (simp add: clause_ok_def)
    moreover have "value_lit s q = LFalse"
      using q c(1,2) pp(7) by (cases k) auto
    ultimately show ?thesis using trail_value(2)[OF pp(1)] by blast
  qed
  have ro: "reason_ok t" unfolding t_def
    by (rule reason_ok_enqueue[OF pp(1) rng c(3) m(2)]) (use w(1) fls in auto)
  have dk: "decisions_ok t" unfolding t_def by (rule decisions_ok_enqueue[OF pp(1) rng c(3) m(3)]) simp
  have pi: "prop_inv t p (kept @ w # ws)" unfolding t_def by (rule prop_inv_enqueue[OF inv ww c(3)])
  have wok: "watch_ok s (watches_with s p (kept @ w # ws))" using inv by (simp add: prop_inv_def)
  have pr: "processed t (watches_with t p (kept @ w # ws)) n"
    unfolding t_def using processed_enqueue[OF pp(1) rng c(3) wok _ m(5)] m(6) by simp
  have "quiet t x (decisionLevel t)" if x: "x \<in> set (kept @ [w])" for x
  proof (cases "x = w")
    case True
    show ?thesis
      by (rule quiet_true) (use pi True c(4) rng trail_value(1)[of t ?l] in \<open>auto simp: prop_inv_def core_wf_def t_def\<close>)
  next
    case False
    then have "x \<in> set kept" using x by simp
    then show ?thesis using quiet_enqueue[OF pp(1) rng c(3)] m(9) prop_inv_watcher(2)[OF inv, of x] by (simp add: t_def)
  qed
  then show ?thesis using pi ro dk pr m unfolding search_mid_def by (simp add: t_def nth_append)
qed

definition search_end :: "lit \<Rightarrow> nat \<Rightarrow> watcher list \<times> nat option \<times> solver \<Rightarrow> bool" where
  "search_end p n = (\<lambda>(ws, c, s). case c of
     None \<Rightarrow> search_mid s p n ws []
   | Some cr \<Rightarrow> search_mid s p n [] ws \<and> cr \<in> set (db s) \<and> neg_lit p \<in> set (clause_lits s cr) \<and>
       (\<forall>l\<in>set (clause_lits s cr). value_lit s l = LFalse))"

lemma prop_loop_search: "search_mid s p n kept ws \<Longrightarrow> search_end p n (prop_loop p ws kept s)"
proof (induction ws arbitrary: kept s)
  case Nil
  then show ?case by (simp add: search_end_def)
next
  case (Cons w ws)
  note mid = Cons.prems
  note m = mid_parts[OF mid]
  have inv: "prop_inv s p (kept @ w # ws)" using m(1) by simp
  note pp = prop_inv_parts[OF inv]
  have ww: "w \<in> set (kept @ w # ws)" by simp
  let ?cr = "w_cref w"
  let ?ls = "swap_watch (neg_lit p) (clause_lits s ?cr)"
  let ?s1 = "set_lits ?cr ?ls s" and ?w = "\<lparr>w_cref = ?cr, w_blocker = ?ls ! 0\<rparr>"
  note sw = prop_inv_swap[OF inv]
  have cl: "clause_lits ?s1 ?cr = ?ls" using sw(1) by (simp add: clause_lits_set_lits reorders_def)
  have mid1: "search_mid ?s1 p n kept (?w # ws)" by (rule mid_swap[OF mid])
  have lv: "level_wf ?s1" "assign_wf ?s1" using mid_parts(1)[OF mid1] by (simp_all add: prop_inv_def core_wf_def)
  have r0: "in_range ?s1 (?ls ! 0)" using clause_ok_nth[OF sw(3)] by simp
  show ?case
  proof (cases "value_lit s (w_blocker w) = LTrue")
    case True
    have "quiet s w (decisionLevel s)"
      by (rule quiet_true[OF pp(2,1) prop_inv_watcher(2)[OF inv ww] True])
    then show ?thesis using Cons.IH[OF mid_keep[OF mid]] True by simp
  next
    case nb: False
    show ?thesis
    proof (cases "value_lit ?s1 (?ls ! 0) = LTrue")
      case True
      then have "quiet ?s1 ?w (decisionLevel ?s1)" using quiet_true[OF lv, of ?w] r0 by simp
      then have "search_end p n (prop_loop p ws (kept @ [?w]) ?s1)" using Cons.IH[OF mid_keep[OF mid1]] by blast
      moreover have "?ls ! 0 \<noteq> w_blocker w" using nb True by auto
      ultimately show ?thesis using nb True by (simp add: Let_def)
    next
      case nt: False
      show ?thesis
      proof (cases "find_new_watch ?s1 ?ls")
        case (Some k)
        note k = find_new_watch_spec(1)[OF Some]
        have "search_mid (push_watch (neg_lit (?ls ! k)) ?w (set_lits ?cr (?ls[1 := ?ls ! k, k := neg_lit p]) ?s1)) p n kept ws"
          using mid_new_watch[OF mid1, of k, unfolded watcher.simps cl, OF sw(2) _ _ _ refl] k by simp
        then show ?thesis using nb nt Cons.IH Some by (simp add: Let_def)
      next
        case None
        note all_false = find_new_watch_spec(2)[OF None]
        show ?thesis
        proof (cases "value_lit ?s1 (?ls ! 0)")
          case LTrue
          then show ?thesis using nt by simp
        next
          case LFalse
          have "value_lit ?s1 l = LFalse" if "l \<in> set ?ls" for l
          proof -
            obtain j where j: "j < length ?ls" "?ls ! j = l" using \<open>l \<in> set ?ls\<close> by (auto simp: in_set_conv_nth)
            consider "j = 0" | "j = 1" | "2 \<le> j" by linarith
            then show ?thesis using j LFalse sw(2) all_false pp(7) by cases auto
          qed
          moreover have "neg_lit p \<in> set ?ls"
            using sw(2,3) nth_mem[of 1 ?ls] by (simp add: clause_ok_def)
          moreover have "search_mid (?s1\<lparr>sv_qhead := length (sv_trail ?s1)\<rparr>) p n [] (kept @ [?w] @ ws)"
            using mid_qhead[OF _ mid_forget[OF mid1]] by simp
          moreover have "?cr \<in> set (db s)" using prop_inv_watcher(1)[OF inv ww] .
          ultimately have "search_end p n (kept @ [?w] @ ws, Some ?cr, ?s1\<lparr>sv_qhead := length (sv_trail ?s1)\<rparr>)"
            using cl by (simp add: search_end_def)
          then show ?thesis using nb nt LFalse None by (simp add: Let_def)
        next
          case LUndef
          have "search_mid (uncheckedEnqueue (?ls ! 0) (Some ?cr) ?s1) p n (kept @ [?w]) ws"
            using mid_enqueue[OF mid1, unfolded watcher.simps cl, OF sw(2) all_false LUndef refl] .
          then show ?thesis using nb nt LUndef None Cons.IH by (simp add: Let_def)
        qed
      qed
    qed
  qed
qed

subsection \<open>Propagation\<close>

text \<open>The invariant between operations: everything up to position \<open>n\<close> of the trail has been propagated.\<close>

definition search_at :: "solver \<Rightarrow> nat \<Rightarrow> bool" where
  "search_at s n \<longleftrightarrow> solver_wf s \<and> reason_ok s \<and> decisions_ok s \<and> watch_full s (occ_at (sv_watches s)) \<and>
     processed s (occ_at (sv_watches s)) n \<and> n \<le> length (sv_trail s)"

text \<open>A clause of the database that the trail falsifies at the current level.\<close>

definition conflicting :: "solver \<Rightarrow> nat \<Rightarrow> bool" where
  "conflicting s cr \<longleftrightarrow> cr \<in> set (db s) \<and> (\<forall>l\<in>set (clause_lits s cr). value_lit s l = LFalse) \<and>
     (\<exists>l\<in>set (clause_lits s cr). level s (var l) = decisionLevel s)"

lemma occ_at_set_watches:
  assumes "occ_len s" "in_range s p"
  shows "occ_at (sv_watches (set_watches p ws s)) = watches_with s p ws"
  using assms lit_index_less[OF assms(2)]
  by (auto simp: set_watches_def occ_set_def occ_at_def occ_len_def fun_eq_iff nth_list_update)

lemma set_watches_more [simp]:
  "reason_ok (set_watches p ws s) = reason_ok s" "decisions_ok (set_watches p ws s) = decisions_ok s"
  "watch_full (set_watches p ws s) W = watch_full s W" "processed (set_watches p ws s) W k = processed s W k"
proof -
  have [simp]: "reason (set_watches p ws s) = reason s" by (simp add: reason_def set_watches_def fun_eq_iff)
  show "reason_ok (set_watches p ws s) = reason_ok s" "decisions_ok (set_watches p ws s) = decisions_ok s"
    "watch_full (set_watches p ws s) W = watch_full s W" "processed (set_watches p ws s) W k = processed s W k"
    by (simp_all add: reason_ok_def decisions_ok_def watch_full_def processed_def quiet_def)
qed

lemma mid_close:
  assumes mid: "search_mid s p n kept ws" and k: "k = (if ws = [] then Suc n else n)"
  shows "search_at (set_watches p (kept @ ws) s) k"
proof -
  note m = mid_parts[OF mid]
  note pp = prop_inv_parts[OF m(1)]
  have occ: "occ_at (sv_watches (set_watches p (kept @ ws) s)) = watches_with s p (kept @ ws)"
    by (rule occ_at_set_watches[OF pp(5,6)])
  have "processed s (watches_with s p (kept @ ws)) k"
  proof (cases "ws = []")
    case True
    have "level s (var (sv_trail s ! n)) = decisionLevel s" using current_level_iff[OF pp(2) m(6)] m(8) by simp
    then show ?thesis using m(5,7,9) True k by (auto simp: processed_def less_Suc_eq)
  next
    case False
    then show ?thesis using m(5) k by simp
  qed
  moreover have "k \<le> length (sv_trail s)" using m(6) k by auto
  ultimately show ?thesis using prop_inv_close[OF m(1)] m unfolding search_at_def occ by simp
qed

lemma search_at_mono: "search_at s n \<Longrightarrow> m \<le> n \<Longrightarrow> search_at s m"
  by (simp add: search_at_def processed_def)

lemma prop_fuel_search:
  assumes "search_at s (sv_qhead s)" "level_start s \<le> sv_qhead s" "prop_fuel k None s = Some (c, t)"
  shows "case c of None \<Rightarrow> search_at t (length (sv_trail t)) | Some cr \<Rightarrow> search_at t (level_start t) \<and> conflicting t cr"
  using assms
proof (induction k arbitrary: s)
  case (Suc k)
  note wf = Suc.prems(1)
  have sw: "solver_wf s" using wf by (simp add: search_at_def)
  note p = solver_wf_parts[OF sw]
  show ?case
  proof (cases "sv_qhead s < length (sv_trail s)")
    case False
    then have "sv_qhead s = length (sv_trail s)" using wf by (simp add: search_at_def)
    then show ?thesis using Suc.prems by simp
  next
    case True
    let ?p = "sv_trail s ! sv_qhead s" and ?s1 = "s\<lparr>sv_qhead := sv_qhead s + 1\<rparr>"
    let ?ws = "occ_at (sv_watches s) (lit_index ?p)"
    obtain ws c' u where l: "prop_loop ?p ?ws [] ?s1 = (ws, c', u)" by (metis prod_cases3)
    have pr: "in_range s ?p" "value_lit s ?p = LTrue" using p(1) True by (simp_all add: assign_wf_def)
    have inv: "prop_inv ?s1 ?p ([] @ ?ws)"
      using core_wf_qhead[of "sv_qhead s + 1" s] p True pr by (simp add: prop_inv_def)
    have mid: "search_mid ?s1 ?p (sv_qhead s) [] ?ws"
      using inv wf Suc.prems(2) True by (simp add: search_mid_def search_at_def)
    have e: "search_end ?p (sv_qhead s) (ws, c', u)" using prop_loop_search[OF mid] l by simp
    have post: "prop_post ?s1 ?p (ws, c', u)" using prop_loop_post[OF inv] l by simp
    let ?u = "set_watches ?p ws u"
    have lim: "level_start u = level_start s" using post by (simp add: prop_post_def frame_def level_start_def)
    have next_: "prop_fuel k (case c' of None \<Rightarrow> None | Some cr \<Rightarrow> Some cr) ?u = Some (c, t)"
      using Suc.prems(3) True l by (simp add: Let_def)
    show ?thesis
    proof (cases c')
      case None
      then have m: "search_mid u ?p (sv_qhead s) ws []" using e by (simp add: search_end_def)
      have q: "sv_qhead u = Suc (sv_qhead s)" using post None by (simp add: prop_post_def)
      have "search_at ?u (sv_qhead ?u)" using mid_close[OF m refl] q by simp
      then show ?thesis using Suc.IH[of ?u] next_ None lim Suc.prems(2) q by simp
    next
      case (Some cr)
      then have m: "search_mid u ?p (sv_qhead s) [] ws" and cr: "cr \<in> set (db u)" "neg_lit ?p \<in> set (clause_lits u cr)"
        "\<forall>l\<in>set (clause_lits u cr). value_lit u l = LFalse" using e by (simp_all add: search_end_def)
      have q: "sv_qhead u = length (sv_trail u)" using post Some by (simp add: prop_post_def)
      have ct: "c = Some cr \<and> t = ?u" using next_ Some q by (cases k) auto
      have "search_at ?u (sv_qhead s)" using mid_close[OF m refl] search_at_mono[of ?u "Suc (sv_qhead s)"] by (cases ws) auto
      then have "search_at ?u (level_start ?u)" using search_at_mono[of ?u "sv_qhead s"] lim Suc.prems(2) by simp
      moreover have "level u (var ?p) = decisionLevel u"
        using current_level_iff[of u "sv_qhead s"] mid_parts[OF m] by (simp add: prop_inv_def core_wf_def)
      then have "conflicting ?u cr" unfolding conflicting_def using cr
        by (auto intro!: bexI[of _ "neg_lit ?p"])
      ultimately show ?thesis using ct by simp
    qed
  qed
qed simp

definition search_ready :: "solver \<Rightarrow> bool" where
  "search_ready s \<longleftrightarrow> search_at s (sv_qhead s) \<and> level_start s \<le> sv_qhead s"

lemma watches_more [simp]:
  "reason_ok (s\<lparr>sv_watches := ol\<rparr>) = reason_ok s" "decisions_ok (s\<lparr>sv_watches := ol\<rparr>) = decisions_ok s"
  by (simp_all add: reason_ok_def decisions_ok_def reason_def level_def)

lemma propagate_search:
  assumes "search_ready s" "propagate s = Some (c, t)"
  shows "case c of None \<Rightarrow> search_at t (length (sv_trail t)) | Some cr \<Rightarrow> search_at t (level_start t) \<and> conflicting t cr"
proof (cases "sv_qhead s = length (sv_trail s)")
  case True
  then show ?thesis using assms by (auto simp: propagate_def search_ready_def)
next
  case False
  let ?ol = "occ_cleanAll (watcher_deleted s) (sv_watches s)"
  have wf: "solver_wf s" using assms(1) by (simp add: search_ready_def search_at_def)
  then have "occ_wf (sv_watches s)" by (simp add: solver_wf_def core_wf_def occ_len_def)
  note cl = cleanAll_nothing[OF this, of "watcher_deleted s"]
  have ol: "occs ?ol = occs (sv_watches s)" "occ_wf ?ol" using cl watchers_not_deleted[OF wf] by auto
  then have occ: "occ_at ?ol = occ_at (sv_watches s)" by (simp add: occ_at_def fun_eq_iff)
  have "solver_wf (s\<lparr>sv_watches := ?ol\<rparr>)"
    using wf core_wf_watches[of s ?ol] ol by (simp add: solver_wf_def watch_ok_def occ_at_def[abs_def] in_range_def nVars_def)
  then have "search_at (s\<lparr>sv_watches := ?ol\<rparr>) (sv_qhead s)"
    using assms(1) by (simp add: search_ready_def search_at_def occ processed_watches watch_full_watches)
  then show ?thesis
    using prop_fuel_search[of "s\<lparr>sv_watches := ?ol\<rparr>" "Suc (nVars s)"] assms False
    by (simp add: propagate_def search_ready_def del: prop_fuel.simps)
qed

lemma propagate_ready:
  assumes "search_ready s" "propagate s = Some (None, t)"
  shows "search_ready t" "sv_qhead t = length (sv_trail t)"
proof -
  have wf: "solver_wf s" using assms(1) by (simp add: search_ready_def search_at_def)
  then have d: "prop_done s None t" using propagate_done assms(2) by fastforce
  then show q: "sv_qhead t = length (sv_trail t)" by (simp add: prop_done_def)
  have "search_at t (length (sv_trail t))" using propagate_search[OF assms] by simp
  moreover from this have "level_start t \<le> length (sv_trail t)"
    by (auto simp: search_at_def level_start_def dest!: solver_wf_parts(2)) (auto simp: level_wf_def)
  ultimately show "search_ready t" by (simp add: search_ready_def q)
qed

subsection \<open>Backtracking and decisions\<close>

lemma level_below:
  assumes "level_wf s" "lev < decisionLevel s" "i < sv_trail_lim s ! lev" "i < length (sv_trail s)"
  shows "level s (var (sv_trail s ! i)) \<le> lev"
proof -
  have "sorted (sv_trail_lim s)" "level s (var (sv_trail s ! i)) = length (filter (\<lambda>n. n \<le> i) (sv_trail_lim s))"
    using assms(1,4) by (simp_all add: level_wf_def)
  then have "level s (var (sv_trail s ! i)) = length (filter (\<lambda>n. n \<le> i) (take lev (sv_trail_lim s)))"
    using filter_below[of "sv_trail_lim s" lev i] assms(2,3) by (simp add: decisionLevel_def)
  also have "\<dots> \<le> length (take lev (sv_trail_lim s))" by (rule length_filter_le)
  finally show ?thesis by simp
qed

lemma cancelUntil_search:
  assumes at: "search_at s n" "level_start s \<le> n" and lev: "lev < decisionLevel s"
  shows "search_ready (cancelUntil lev s)"
proof -
  let ?c = "cancelUntil lev s" and ?m = "sv_trail_lim s ! lev"
  have wf: "solver_wf s" using at by (simp add: search_at_def)
  note p = solver_wf_parts[OF wf]
  note c = cancelUntil_fields[OF p(2) lev]
  have wfc: "solver_wf ?c" using cancelUntil_wf[OF wf] by blast
  note pc = solver_wf_parts[OF wfc]
  have fld: "sv_trail ?c = take ?m (sv_trail s)" "sv_trail_lim ?c = take lev (sv_trail_lim s)" "sv_qhead ?c = ?m"
    "db ?c = db s" "sv_ca ?c = sv_ca s" "reason ?c = reason s" "level ?c = level s" "sv_watches ?c = sv_watches s"
    "in_range ?c = in_range s"
    by (simp_all add: c reason_def level_def in_range_def nVars_def fun_eq_iff)
  have srt: "sorted (sv_trail_lim s)" and lim: "lev < length (sv_trail_lim s)" and ml: "?m \<le> length (sv_trail s)"
    using p(2) lev by (simp_all add: level_wf_def decisionLevel_def)
  have mn: "?m \<le> level_start s" using lim_le_start[OF p(2)] lim by simp
  have lt: "i < length (sv_trail s)" if "i < length (sv_trail ?c)" for i using that by (simp add: fld)
  have ro: "reason_ok ?c"
    unfolding reason_ok_def
  proof (intro allI impI)
    fix i cr assume i: "i < length (sv_trail ?c)" and r: "reason ?c (var (sv_trail ?c ! i)) = Some cr"
    have "take i (sv_trail ?c) = take i (sv_trail s)" "sv_trail ?c ! i = sv_trail s ! i" using i by (simp_all add: fld)
    then show "cr \<in> set (db ?c) \<and> clause_lits ?c cr ! 0 = sv_trail ?c ! i \<and>
        (\<forall>q\<in>set (drop 1 (clause_lits ?c cr)). neg_lit q \<in> set (take i (sv_trail ?c)))"
      using at(1) lt[OF i] r unfolding search_at_def reason_ok_def fld(4-6) by metis
  qed
  have "i \<in> set (take lev (sv_trail_lim s))" if i: "i < ?m" "i \<in> set (sv_trail_lim s)" for i
  proof -
    obtain k where k: "k < length (sv_trail_lim s)" "sv_trail_lim s ! k = i" using i(2) unfolding in_set_conv_nth by blast
    then have "k < lev" using sorted_nth_mono[OF srt, of lev k] i(1) by (meson leD not_le_imp_less)
    then show ?thesis using k by (auto simp: in_set_conv_nth)
  qed
  then have dk: "decisions_ok ?c" using at(1) by (auto simp: search_at_def decisions_ok_def fld)
  have "processed ?c (occ_at (sv_watches s)) ?m"
    unfolding processed_def
  proof (intro allI impI ballI)
    fix i w assume i: "i < ?m" and w: "w \<in> set (occ_at (sv_watches s) (lit_index (sv_trail ?c ! i)))"
    have ti: "sv_trail ?c ! i = sv_trail s ! i" "i < length (sv_trail s)" using i ml by (simp_all add: fld)
    have b: "in_range s (w_blocker w)" using watch_okD(2)[OF p(8) trail_range[OF p(1) ti(2)]] w ti(1) by simp
    have q: "quiet s w (level s (var (sv_trail s ! i)))"
      using at i mn w ti by (simp add: search_at_def processed_def)
    then have "w_blocker w \<in> set (sv_trail s)" using trail_value(1)[OF p(1) b] by (simp add: quiet_def)
    then obtain j where j: "j < length (sv_trail s)" "sv_trail s ! j = w_blocker w" unfolding in_set_conv_nth by blast
    have "level s (var (w_blocker w)) \<le> lev"
      using q level_below[OF p(2) lev i ti(2)] by (simp add: quiet_def)
    then have "j < ?m" using level_above[OF p(2) lev j(1)] j(2) by (metis not_le)
    then have "w_blocker w \<in> set (sv_trail ?c)" using j by (auto simp: fld in_set_conv_nth)
    then have "value_lit ?c (w_blocker w) = LTrue" using trail_value(1)[OF pc(1)] b fld by simp
    then show "quiet ?c w (level ?c (var (sv_trail ?c ! i)))" using q by (simp add: quiet_def fld(7) ti(1))
  qed
  moreover have "watch_full ?c (occ_at (sv_watches s))" using at(1) by (simp add: search_at_def watch_full_def fld)
  moreover have "level_start ?c \<le> ?m"
  proof -
    have "n \<le> ?m" if n: "n \<in> set (take lev (sv_trail_lim s))" for n
    proof -
      obtain k where "k < lev" "n = sv_trail_lim s ! k" using n unfolding in_set_conv_nth by auto
      then show ?thesis using sorted_nth_mono[OF srt, of k lev] lim by simp
    qed
    then show ?thesis by (simp add: level_start_def fld)
  qed
  ultimately show ?thesis using wfc ro dk ml by (simp add: search_ready_def search_at_def fld)
qed

lemma cancelUntil_ready: "search_ready s \<Longrightarrow> search_ready (cancelUntil lev s)"
  using cancelUntil_search[of s "sv_qhead s" lev]
  by (cases "lev < decisionLevel s") (simp_all add: search_ready_def cancelUntil_def)

lemma newDecisionLevel_search:
  assumes s: "search_ready s" "sv_qhead s = length (sv_trail s)" "const_asserted s"
  shows "search_ready (newDecisionLevel s)" "level_start (newDecisionLevel s) = length (sv_trail s)"
proof -
  let ?t = "newDecisionLevel s"
  have f: "sv_trail ?t = sv_trail s" "sv_trail_lim ?t = sv_trail_lim s @ [length (sv_trail s)]" "sv_qhead ?t = sv_qhead s"
    "db ?t = db s" "sv_ca ?t = sv_ca s" "reason ?t = reason s" "level ?t = level s" "sv_watches ?t = sv_watches s"
    "in_range ?t = in_range s" "value_lit ?t = value_lit s"
    by (simp_all add: newDecisionLevel_def reason_def level_def in_range_def nVars_def value_lit_def value_var_def fun_eq_iff)
  have "solver_inv ?t"
    using newDecisionLevel_wf(1)[of s] s by (simp add: solver_inv_def search_ready_def search_at_def)
  then have "solver_wf ?t" by (simp add: solver_inv_def)
  then show "search_ready ?t" using s(1,2)
    by (auto simp: search_ready_def search_at_def reason_ok_def decisions_ok_def watch_full_def processed_def quiet_def f level_start_def)
  show "level_start ?t = length (sv_trail s)" by (simp add: level_start_def f)
qed

lemma enqueue_search:
  assumes s: "search_ready s" and p: "var p \<in> used_vars s" "value_lit s p = LUndef"
    and r: "\<And>cr. r = Some cr \<Longrightarrow> cr \<in> set (db s) \<and> clause_lits s cr ! 0 = p \<and>
      (\<forall>q\<in>set (drop 1 (clause_lits s cr)). neg_lit q \<in> set (sv_trail s))"
    "r = None \<Longrightarrow> sv_trail_lim s = [] \<or> length (sv_trail s) \<in> set (sv_trail_lim s)"
  shows "search_ready (uncheckedEnqueue p r s)"
proof -
  let ?t = "uncheckedEnqueue p r s"
  have at: "search_at s (sv_qhead s)" "solver_wf s" using s by (simp_all add: search_ready_def search_at_def)
  note w = solver_wf_parts[OF at(2)]
  have rng: "in_range s p" by (rule used_vars_range[OF p(1)])
  have "core_wf ?t" using core_wf_enqueue[OF w(7) rng p(2)] p(1) by (simp add: used_vars_def)
  moreover have "processed ?t (occ_at (sv_watches s)) (sv_qhead s)"
    by (rule processed_enqueue[OF w(1) rng p(2) w(8)]) (use at in \<open>simp_all add: search_at_def\<close>)
  moreover have "reason_ok ?t" "decisions_ok ?t"
    using reason_ok_enqueue[OF w(1) rng p(2), of r] decisions_ok_enqueue[OF w(1) rng p(2), of r] at(1) r
    by (simp_all add: search_at_def)
  ultimately show ?thesis using s w(8) by (simp add: search_ready_def search_at_def solver_wf_def)
qed

end
