(* ===== verification/Conflict_Spec.thy ===== *)
theory Conflict_Spec
  imports Conflict Search_Inv
begin

text \<open>
  Conflict analysis is resolution along the trail: the clause kept in \<open>out_learnt\<close> and the marks follows from the
  database at every step, the loop ends at a literal of the current level that is the only one of its level
  in it, and minimisation only drops literals that imply the others.
\<close>

subsection \<open>Consequences of the database\<close>

text \<open>The assignments that satisfy the clauses and the literals of level 0, and the clauses they all satisfy.\<close>

definition base_sat :: "solver \<Rightarrow> (int \<Rightarrow> bool) \<Rightarrow> bool" where
  "base_sat s \<sigma> \<longleftrightarrow> (\<forall>cr\<in>set (db s). clause_sat \<sigma> (clause_lits s cr)) \<and> (\<forall>l\<in>set (root_trail s). lit_val \<sigma> l)"

definition entails :: "solver \<Rightarrow> lit set \<Rightarrow> bool" where
  "entails s C \<longleftrightarrow> (\<forall>\<sigma>. base_sat s \<sigma> \<longrightarrow> (\<exists>l\<in>C. lit_val \<sigma> l))"

lemma models_base: "models s = (if sv_ok s then {\<sigma>. base_sat s \<sigma>} else {})"
  by (simp add: models_def base_sat_def)

lemma entails_mono: "entails s C \<Longrightarrow> C \<subseteq> D \<Longrightarrow> entails s D"
  by (auto simp: entails_def)

lemma entails_clause: "cr \<in> set (db s) \<Longrightarrow> entails s (set (clause_lits s cr))"
  by (auto simp: entails_def base_sat_def clause_sat_def)

lemma root_level:
  assumes "level_wf s" "l \<in> set (sv_trail s)" "level s (var l) = 0"
  shows "l \<in> set (root_trail s)"
proof (cases "sv_trail_lim s")
  case Nil
  then show ?thesis using assms(2) by (simp add: root_trail_def)
next
  case (Cons n ns)
  obtain i where i: "i < length (sv_trail s)" "sv_trail s ! i = l" using assms(2) unfolding in_set_conv_nth by blast
  then have "filter (\<lambda>n. n \<le> i) (sv_trail_lim s) = []" using assms(1,3) by (auto simp: level_wf_def)
  then have "i < n" by (simp add: Cons split: if_splits)
  moreover have "n \<le> length (sv_trail s)" using assms(1) by (simp add: level_wf_def Cons)
  ultimately show ?thesis using i by (auto simp: root_trail_def Cons in_set_conv_nth)
qed

lemma base_sat_root:
  assumes "level_wf s" "base_sat s \<sigma>" "neg_lit q \<in> set (sv_trail s)" "level s (var q) = 0"
  shows "\<not> lit_val \<sigma> q"
  using root_level[OF assms(1,3)] assms(2,4) by (auto simp: base_sat_def)

text \<open>One resolution step: a literal is replaced by the other literals of a clause that contains its negation.\<close>

lemma entails_resolve:
  assumes C: "entails s (insert (neg_lit p) C)" and cr: "cr \<in> set (db s)" "clause_lits s cr ! 0 = p"
    and D: "\<And>q. q \<in> set (drop 1 (clause_lits s cr)) \<Longrightarrow> q \<in> D"
  shows "entails s (C \<union> D)"
  unfolding entails_def
proof (intro allI impI)
  fix \<sigma> assume s: "base_sat s \<sigma>"
  obtain l where l: "l \<in> insert (neg_lit p) C" "lit_val \<sigma> l" using C s unfolding entails_def by blast
  obtain q where q: "q \<in> set (clause_lits s cr)" "lit_val \<sigma> q"
    using s cr(1) by (auto simp: base_sat_def clause_sat_def)
  show "\<exists>l\<in>C \<union> D. lit_val \<sigma> l"
  proof (cases "l = neg_lit p")
    case True
    then have "\<not> lit_val \<sigma> p" using l(2) by simp
    then have "q \<noteq> p" using q(2) by auto
    moreover have "set (clause_lits s cr) \<subseteq> insert p (set (drop 1 (clause_lits s cr)))"
      using cr(2) by (cases "clause_lits s cr") auto
    ultimately show ?thesis using q D by blast
  next
    case False
    then show ?thesis using l by blast
  qed
qed

subsection \<open>Marking the literals of a clause\<close>

text \<open>The literals of the current level that are marked and lie below position \<open>k\<close>: those still to be resolved.\<close>

definition pending :: "solver \<Rightarrow> bool list \<Rightarrow> nat \<Rightarrow> lit set" where
  "pending s seen k = {l \<in> set (take k (sv_trail s)). seen_at seen l \<and> level s (var l) = decisionLevel s}"

text \<open>The clause the analysis stands for, and what it knows of its state.\<close>

definition resolvent :: "solver \<Rightarrow> analysis \<Rightarrow> nat \<Rightarrow> lit set" where
  "resolvent s a k = set (tl (an_out a)) \<union> neg_lit ` pending s (an_seen a) k"

definition ana_wf :: "solver \<Rightarrow> analysis \<Rightarrow> nat \<Rightarrow> bool" where
  "ana_wf s a k \<longleftrightarrow> length (an_seen a) = nVars s \<and> an_out a \<noteq> [] \<and> k \<le> length (sv_trail s) \<and>
     an_path a = int (card (pending s (an_seen a) k)) \<and> distinct (map var (tl (an_out a))) \<and>
     (\<forall>q\<in>set (tl (an_out a)). neg_lit q \<in> set (sv_trail s) \<and> seen_at (an_seen a) q \<and>
        0 < level s (var q) \<and> level s (var q) < decisionLevel s) \<and>
     (\<forall>l\<in>set (sv_trail s). seen_at (an_seen a) l \<longrightarrow>
        neg_lit l \<in> set (tl (an_out a)) \<or> l \<in> pending s (an_seen a) k) \<and>
     (\<forall>v<nVars s. an_seen a ! v \<longrightarrow> int v \<in> var ` set (sv_trail s))"

lemma same_trail_var:
  assumes "assign_wf s" "l \<in> set (sv_trail s)" "m \<in> set (sv_trail s)" "var l = var m"
  shows "l = m"
proof -
  have "inj_on var (set (sv_trail s))" using assms(1) by (simp add: assign_wf_def distinct_map)
  then show ?thesis using assms(2-4) by (meson inj_onD)
qed

lemma set_seen_at:
  assumes "assign_wf s" "length seen = nVars s" "in_range s q" "in_range s l"
  shows "seen_at (set_seen q b seen) l = (if var l = var q then b else seen_at seen l)"
  using assms nat_var_less[OF assms(3)] nat_var_eq[OF assms(4,3)] by (auto simp: set_seen_def)

lemma trail_in_range: "assign_wf s \<Longrightarrow> l \<in> set (sv_trail s) \<Longrightarrow> in_range s l"
  by (simp add: assign_wf_def)

lemma pending_finite [simp]: "finite (pending s seen k)"
  by (simp add: pending_def)

lemma pending_trail: "l \<in> pending s seen k \<Longrightarrow> l \<in> set (sv_trail s)"
  by (auto simp: pending_def dest: in_set_takeD)

lemma pending_mark:
  assumes wf: "assign_wf s" and len: "length seen = nVars s" and q: "neg_lit q \<in> set (take k (sv_trail s))"
  shows "pending s (set_seen q True seen) k =
    (if level s (var q) = decisionLevel s then insert (neg_lit q) (pending s seen k) else pending s seen k)"
proof -
  have qt: "neg_lit q \<in> set (sv_trail s)" using q by (rule in_set_takeD)
  then have rq: "in_range s q" using trail_in_range[OF wf] by fastforce
  have "seen_at (set_seen q True seen) l \<longleftrightarrow> l = neg_lit q \<or> seen_at seen l" if l: "l \<in> set (take k (sv_trail s))" for l
  proof -
    have lt: "l \<in> set (sv_trail s)" using l by (rule in_set_takeD)
    show ?thesis using set_seen_at[OF wf len rq trail_in_range[OF wf lt]] same_trail_var[OF wf lt qt] by auto
  qed
  then show ?thesis using q by (auto simp: pending_def)
qed

definition mark_one :: "solver \<Rightarrow> lit \<Rightarrow> analysis \<Rightarrow> analysis" where
  "mark_one s q a =
     (if level s (var q) \<ge> decisionLevel s
      then a\<lparr>an_seen := set_seen q True (an_seen a), an_path := an_path a + 1\<rparr>
      else a\<lparr>an_seen := set_seen q True (an_seen a), an_out := an_out a @ [q]\<rparr>)"

lemma seen_in_resolvent:
  assumes wf: "ana_wf s a k" and q: "neg_lit q \<in> set (sv_trail s)" "seen_at (an_seen a) q"
  shows "q \<in> resolvent s a k"
proof -
  have "neg_lit (neg_lit q) \<in> set (tl (an_out a)) \<or> neg_lit q \<in> pending s (an_seen a) k"
    using wf q unfolding ana_wf_def by (metis var_neg)
  then show ?thesis unfolding resolvent_def by (metis UnI1 UnI2 imageI neg_neg)
qed

lemma mark_one_spec:
  assumes s: "assign_wf s" "level_wf s" and wf: "ana_wf s a k" and q: "neg_lit q \<in> set (take k (sv_trail s))"
    and new: "\<not> seen_at (an_seen a) q" "level s (var q) > 0"
  shows "ana_wf s (mark_one s q a) k" "resolvent s (mark_one s q a) k = insert q (resolvent s a k)"
    "pending s (an_seen a) k \<subseteq> pending s (an_seen (mark_one s q a)) k"
    "level s (var q) = decisionLevel s \<Longrightarrow> neg_lit q \<in> pending s (an_seen (mark_one s q a)) k"
proof -
  let ?b = "mark_one s q a" and ?seen = "set_seen q True (an_seen a)"
  note w = wf[unfolded ana_wf_def]
  have qt: "neg_lit q \<in> set (sv_trail s)" using q by (rule in_set_takeD)
  have rq: "in_range s q" using trail_in_range[OF s(1) qt] by simp
  have seen: "an_seen ?b = ?seen" by (simp add: mark_one_def)
  obtain i where "i < length (sv_trail s)" "sv_trail s ! i = neg_lit q" using qt unfolding in_set_conv_nth by blast
  then have le: "level s (var q) \<le> decisionLevel s" using level_le_decision[OF s(2), of i] by simp
  have pm: "pending s ?seen k =
      (if level s (var q) = decisionLevel s then insert (neg_lit q) (pending s (an_seen a) k) else pending s (an_seen a) k)"
    by (rule pending_mark[OF s(1) _ q]) (use w in simp)
  then show "pending s (an_seen a) k \<subseteq> pending s (an_seen ?b) k"
    "level s (var q) = decisionLevel s \<Longrightarrow> neg_lit q \<in> pending s (an_seen ?b) k" by (auto simp: seen)
  have at: "seen_at ?seen l \<longleftrightarrow> var l = var q \<or> seen_at (an_seen a) l" if "in_range s l" for l
    using set_seen_at[OF s(1) _ rq that] w by auto
  have np: "neg_lit q \<notin> pending s (an_seen a) k" using new(1) by (simp add: pending_def)
  have out: "tl (an_out ?b) = (if level s (var q) = decisionLevel s then tl (an_out a) else tl (an_out a) @ [q])"
    using le w by (cases "an_out a") (auto simp: mark_one_def)
  show "resolvent s ?b k = insert q (resolvent s a k)"
    unfolding resolvent_def seen pm out by auto
  have fresh: "var q \<notin> var ` set (tl (an_out a))"
  proof
    assume "var q \<in> var ` set (tl (an_out a))"
    then obtain r where r: "r \<in> set (tl (an_out a))" "var r = var q" by auto
    then have "seen_at (an_seen a) r" using w by blast
    then show False using new(1) r(2) by simp
  qed
  have out_ok: "\<forall>r\<in>set (tl (an_out ?b)). neg_lit r \<in> set (sv_trail s) \<and> seen_at ?seen r \<and>
      0 < level s (var r) \<and> level s (var r) < decisionLevel s"
  proof
    fix r assume r: "r \<in> set (tl (an_out ?b))"
    have "neg_lit r \<in> set (sv_trail s) \<and> 0 < level s (var r) \<and> level s (var r) < decisionLevel s \<and>
        (r = q \<or> seen_at (an_seen a) r)"
      using r w qt new(2) le by (auto simp: out split: if_splits)
    moreover from this have "in_range s r" using trail_in_range[OF s(1)] by fastforce
    ultimately show "neg_lit r \<in> set (sv_trail s) \<and> seen_at ?seen r \<and> 0 < level s (var r) \<and> level s (var r) < decisionLevel s"
      using at by blast
  qed
  have "\<forall>l\<in>set (sv_trail s). seen_at ?seen l \<longrightarrow> neg_lit l \<in> set (tl (an_out ?b)) \<or> l \<in> pending s ?seen k"
  proof (intro ballI impI)
    fix l assume l: "l \<in> set (sv_trail s)" "seen_at ?seen l"
    have "var l = var q \<or> seen_at (an_seen a) l" using at[OF trail_in_range[OF s(1) l(1)]] l(2) by blast
    moreover have "var l = var q \<Longrightarrow> l = neg_lit q" using same_trail_var[OF s(1) l(1) qt] by simp
    ultimately consider "l = neg_lit q" | "seen_at (an_seen a) l" by blast
    then show "neg_lit l \<in> set (tl (an_out ?b)) \<or> l \<in> pending s ?seen k"
    proof cases
      case 1
      then show ?thesis by (simp add: out pm)
    next
      case 2
      then have "neg_lit l \<in> set (tl (an_out a)) \<or> l \<in> pending s (an_seen a) k" using w l(1) by blast
      then show ?thesis unfolding out pm by auto
    qed
  qed
  moreover have "\<forall>v<nVars s. ?seen ! v \<longrightarrow> int v \<in> var ` set (sv_trail s)"
  proof (intro allI impI)
    fix v assume v: "v < nVars s" "?seen ! v"
    have "nat (var q) = v \<longrightarrow> int v = var q" using rq by (auto simp: in_range_def)
    moreover have "var q \<in> var ` set (sv_trail s)" using imageI[OF qt, of var] by simp
    ultimately show "int v \<in> var ` set (sv_trail s)" using v w by (auto simp: set_seen_def nth_list_update split: if_splits)
  qed
  moreover have "an_path ?b = int (card (pending s ?seen k))"
    using w np le pm by (auto simp: mark_one_def)
  moreover have "distinct (map var (tl (an_out ?b)))" using w fresh out by auto
  moreover have "length ?seen = nVars s" "an_out ?b \<noteq> []" "k \<le> length (sv_trail s)"
    using w by (auto simp: set_seen_def mark_one_def)
  ultimately show "ana_wf s ?b k" using out_ok unfolding ana_wf_def seen by blast
qed

lemma mark_lits_spec:
  assumes s: "assign_wf s" "level_wf s"
  shows "ana_wf s a k \<Longrightarrow> \<forall>q\<in>set ls. neg_lit q \<in> set (take k (sv_trail s)) \<Longrightarrow>
    \<exists>b. mark_lits s ls a = Some b \<and> ana_wf s b k \<and> resolvent s a k \<subseteq> resolvent s b k \<and>
      (\<forall>q\<in>set ls. level s (var q) = 0 \<or> q \<in> resolvent s b k) \<and> pending s (an_seen a) k \<subseteq> pending s (an_seen b) k \<and>
      (\<forall>q\<in>set ls. 0 < level s (var q) \<and> level s (var q) = decisionLevel s \<longrightarrow> neg_lit q \<in> pending s (an_seen b) k)"
proof (induction ls arbitrary: a)
  case (Cons q ls)
  have qk: "neg_lit q \<in> set (take k (sv_trail s))" using Cons.prems(2) by simp
  then have qt: "neg_lit q \<in> set (sv_trail s)" by (rule in_set_takeD)
  have rq: "in_range s q" using trail_in_range[OF s(1) qt] by simp
  show ?case
  proof (cases "\<not> seen_at (an_seen a) q \<and> level s (var q) > 0")
    case True
    note m = mark_one_spec[OF s Cons.prems(1) qk]
    have false: "value_lit s q = LFalse" using trail_value(2)[OF s(1) rq] qt by simp
    have step: "mark_lits s (q # ls) a = mark_lits s ls (mark_one s q a)"
      using True false by (simp add: mark_one_def Let_def)
    obtain b where b: "mark_lits s ls (mark_one s q a) = Some b" "ana_wf s b k"
      "resolvent s (mark_one s q a) k \<subseteq> resolvent s b k" "\<forall>q\<in>set ls. level s (var q) = 0 \<or> q \<in> resolvent s b k"
      "pending s (an_seen (mark_one s q a)) k \<subseteq> pending s (an_seen b) k"
      "\<forall>q\<in>set ls. 0 < level s (var q) \<and> level s (var q) = decisionLevel s \<longrightarrow> neg_lit q \<in> pending s (an_seen b) k"
      using Cons.IH[OF m(1)] True Cons.prems(2) by auto
    then show ?thesis using step m(2-4) True by (intro exI[of _ b]) auto
  next
    case False
    obtain b where b: "mark_lits s ls a = Some b" "ana_wf s b k" "resolvent s a k \<subseteq> resolvent s b k"
      "\<forall>q\<in>set ls. level s (var q) = 0 \<or> q \<in> resolvent s b k" "pending s (an_seen a) k \<subseteq> pending s (an_seen b) k"
      "\<forall>q\<in>set ls. 0 < level s (var q) \<and> level s (var q) = decisionLevel s \<longrightarrow> neg_lit q \<in> pending s (an_seen b) k"
      using Cons.IH[OF Cons.prems(1)] Cons.prems(2) by auto
    have "mark_lits s (q # ls) a = Some b" using False b(1) by auto
    moreover have "level s (var q) = 0 \<or> q \<in> resolvent s b k"
      using False seen_in_resolvent[OF Cons.prems(1) qt] b(3) by auto
    moreover have "neg_lit q \<in> pending s (an_seen b) k" if "0 < level s (var q)" "level s (var q) = decisionLevel s"
    proof -
      have "neg_lit q \<in> pending s (an_seen a) k" using False that qk by (simp add: pending_def)
      then show ?thesis using b(5) by blast
    qed
    ultimately show ?thesis using b by (intro exI[of _ b]) auto
  qed
qed auto

subsection \<open>The loop to the unique implication point\<close>

lemma entails_above_root:
  assumes s: "level_wf s" and C: "entails s (C \<union> D)" and D: "\<And>q. q \<in> D \<Longrightarrow> neg_lit q \<in> set (sv_trail s)"
  shows "entails s (C \<union> {q \<in> D. 0 < level s (var q)})"
  unfolding entails_def
proof (intro allI impI)
  fix \<sigma> assume b: "base_sat s \<sigma>"
  then obtain l where l: "l \<in> C \<union> D" "lit_val \<sigma> l" using C unfolding entails_def by blast
  have "0 < level s (var l)" if "l \<in> D" using base_sat_root[OF s b D[OF that]] l(2) by blast
  then show "\<exists>l\<in>C \<union> {q \<in> D. 0 < level s (var q)}. lit_val \<sigma> l" using l by blast
qed

lemma pending_Suc:
  "k < length (sv_trail s) \<Longrightarrow> pending s seen (Suc k) =
    (if seen_at seen (sv_trail s ! k) \<and> level s (var (sv_trail s ! k)) = decisionLevel s
     then insert (sv_trail s ! k) (pending s seen k) else pending s seen k)"
  by (auto simp: pending_def take_Suc_conv_app_nth)

lemma pending_start:
  assumes "level_wf s" "k \<le> length (sv_trail s)" "pending s seen k \<noteq> {}"
  shows "level_start s < k"
proof -
  obtain l where l: "l \<in> set (take k (sv_trail s))" "level s (var l) = decisionLevel s"
    using assms(3) by (auto simp: pending_def)
  then obtain i where "i < k" "sv_trail s ! i = l" "i < length (sv_trail s)"
    using assms(2) by (auto simp: in_set_conv_nth)
  then show ?thesis using current_level_iff[OF assms(1), of i] l(2) by auto
qed

lemma next_seen_spec:
  assumes s: "level_wf s"
  shows "k \<le> length (sv_trail s) \<Longrightarrow> pending s seen k \<noteq> {} \<Longrightarrow>
    (let j = next_seen s seen (level_start s) k in j < k \<and> level_start s \<le> j \<and>
       level s (var (sv_trail s ! j)) = decisionLevel s \<and> seen_at seen (sv_trail s ! j) \<and>
       pending s seen k = insert (sv_trail s ! j) (pending s seen j))"
proof (induction k)
  case 0
  then show ?case by (simp add: pending_def)
next
  case (Suc k)
  have k: "k < length (sv_trail s)" using Suc.prems(1) by simp
  have st: "level_start s \<le> k" using pending_start[OF s Suc.prems] by simp
  show ?case
  proof (cases "seen_at seen (sv_trail s ! k) \<and> level s (var (sv_trail s ! k)) = decisionLevel s")
    case True
    then show ?thesis using st by (simp add: pending_Suc[OF k])
  next
    case False
    have le: "level s (var (sv_trail s ! k)) \<le> decisionLevel s" by (rule level_le_decision[OF s k])
    have p: "pending s seen (Suc k) = pending s seen k" by (simp only: pending_Suc[OF k] False if_False)
    have "next_seen s seen (level_start s) (Suc k) = next_seen s seen (level_start s) k"
      using False le st by (auto simp: Let_def)
    then show ?thesis using Suc.IH Suc.prems k unfolding p by (auto simp: Let_def less_Suc_eq)
  qed
qed

lemma find_next_spec:
  assumes s: "level_wf s" and k: "k \<le> length (sv_trail s)" "pending s seen k \<noteq> {}"
  shows "\<exists>j. find_next s (level_start s) path k seen = Some (j, sv_trail s ! j, seen) \<and> j < k \<and> level_start s \<le> j \<and>
    level s (var (sv_trail s ! j)) = decisionLevel s \<and> seen_at seen (sv_trail s ! j) \<and>
    pending s seen k = insert (sv_trail s ! j) (pending s seen j)"
  using next_seen_spec[OF s k] k(1) by (subst find_next.simps) (auto simp: Let_def)

lemma unmark_wf:
  assumes s: "assign_wf s" and wf: "ana_wf s a k" and j: "j < k"
    "level s (var (sv_trail s ! j)) = decisionLevel s" "seen_at (an_seen a) (sv_trail s ! j)"
    "pending s (an_seen a) k = insert (sv_trail s ! j) (pending s (an_seen a) j)"
  defines "b \<equiv> a\<lparr>an_seen := set_seen (sv_trail s ! j) False (an_seen a), an_path := an_path a - 1\<rparr>"
  shows "ana_wf s b j" "resolvent s a k = insert (neg_lit (sv_trail s ! j)) (resolvent s b j)"
    "\<not> seen_at (an_seen b) (sv_trail s ! j)" "an_path a - 1 = int (card (pending s (an_seen b) j))"
proof -
  note w = wf[unfolded ana_wf_def]
  let ?p = "sv_trail s ! j" and ?seen = "set_seen (sv_trail s ! j) False (an_seen a)"
  have jl: "j < length (sv_trail s)" using w j(1) by auto
  then have pt: "?p \<in> set (sv_trail s)" by simp
  note rp = trail_in_range[OF s pt]
  have at: "seen_at ?seen l \<longleftrightarrow> var l \<noteq> var ?p \<and> seen_at (an_seen a) l" if "in_range s l" for l
    using set_seen_at[OF s _ rp that] w by auto
  have notin: "?p \<notin> set (take j (sv_trail s))"
  proof
    assume "?p \<in> set (take j (sv_trail s))"
    then obtain i where "i < j" "sv_trail s ! i = ?p" using jl by (auto simp: in_set_conv_nth)
    then show False using trail_distinct[OF s _ jl, of i] jl by simp
  qed
  have pe: "pending s ?seen j = pending s (an_seen a) j"
  proof -
    have "seen_at ?seen l = seen_at (an_seen a) l" if l: "l \<in> set (take j (sv_trail s))" for l
    proof -
      have lt: "l \<in> set (sv_trail s)" using l by (rule in_set_takeD)
      have "var l \<noteq> var ?p" using same_trail_var[OF s lt pt] l notin by auto
      then show ?thesis using at[OF trail_in_range[OF s lt]] by simp
    qed
    then show ?thesis by (auto simp: pending_def)
  qed
  have np: "?p \<notin> pending s (an_seen a) j" using notin by (simp add: pending_def)
  show path: "an_path a - 1 = int (card (pending s (an_seen b) j))" using w j(4) np by (simp add: b_def pe)
  show "resolvent s a k = insert (neg_lit ?p) (resolvent s b j)" by (auto simp: resolvent_def b_def pe j(4))
  show "\<not> seen_at (an_seen b) ?p" using at[OF rp] by (simp add: b_def)
  have "\<forall>q\<in>set (tl (an_out a)). neg_lit q \<in> set (sv_trail s) \<and> seen_at ?seen q \<and>
      0 < level s (var q) \<and> level s (var q) < decisionLevel s"
  proof
    fix q assume "q \<in> set (tl (an_out a))"
    then have q: "neg_lit q \<in> set (sv_trail s)" "seen_at (an_seen a) q" "0 < level s (var q)" "level s (var q) < decisionLevel s"
      using w by blast+
    then have "var q \<noteq> var ?p" using j(2) by auto
    moreover have "in_range s q" using trail_in_range[OF s q(1)] by simp
    ultimately show "neg_lit q \<in> set (sv_trail s) \<and> seen_at ?seen q \<and> 0 < level s (var q) \<and> level s (var q) < decisionLevel s"
      using q at by blast
  qed
  moreover have "\<forall>l\<in>set (sv_trail s). seen_at ?seen l \<longrightarrow> neg_lit l \<in> set (tl (an_out a)) \<or> l \<in> pending s ?seen j"
  proof (intro ballI impI)
    fix l assume l: "l \<in> set (sv_trail s)" "seen_at ?seen l"
    then have "l \<noteq> ?p" "seen_at (an_seen a) l" using at[OF trail_in_range[OF s l(1)]] by auto
    then show "neg_lit l \<in> set (tl (an_out a)) \<or> l \<in> pending s ?seen j" using w l(1) j(4) unfolding pe by blast
  qed
  moreover have "\<forall>v<nVars s. ?seen ! v \<longrightarrow> int v \<in> var ` set (sv_trail s)"
  proof (intro allI impI)
    fix v assume v: "v < nVars s" "?seen ! v"
    then have "an_seen a ! v" using w by (cases "v = nat (var ?p)") (auto simp: set_seen_def)
    then show "int v \<in> var ` set (sv_trail s)" using w v(1) by blast
  qed
  ultimately show "ana_wf s b j"
    using w jl path unfolding ana_wf_def by (simp add: b_def set_seen_def)
qed

lemma reason_of_pending:
  assumes s: "assign_wf s" "level_wf s" "reason_ok s" "decisions_ok s" and j: "j < length (sv_trail s)"
    and lev: "0 < level s (var (sv_trail s ! j))" and st: "level_start s < j"
  shows "\<exists>cr. reason s (var (sv_trail s ! j)) = Some cr \<and> cr \<in> set (db s) \<and> clause_lits s cr ! 0 = sv_trail s ! j \<and>
    (\<forall>q\<in>set (drop 1 (clause_lits s cr)). neg_lit q \<in> set (take j (sv_trail s)))"
proof -
  have "j \<notin> set (sv_trail_lim s)" using lim_le_start[OF s(2), of j] st by auto
  then have "reason s (var (sv_trail s ! j)) \<noteq> None" using s(4) j lev by (auto simp: decisions_ok_def)
  then show ?thesis using s(3) j by (auto simp: reason_ok_def)
qed

lemma analyze_loop_spec:
  assumes s: "assign_wf s" "level_wf s" "reason_ok s" "decisions_ok s" "0 < decisionLevel s"
  shows "ana_wf s a k \<Longrightarrow> ls = drop (if p = lit_Undef then 0 else 1) (clause_lits s cr) \<Longrightarrow>
    \<forall>q\<in>set ls. neg_lit q \<in> set (take k (sv_trail s)) \<Longrightarrow>
    entails s (resolvent s a k \<union> {q \<in> set ls. 0 < level s (var q)}) \<Longrightarrow>
    pending s (an_seen a) k \<noteq> {} \<or> (\<exists>q\<in>set ls. level s (var q) = decisionLevel s) \<Longrightarrow>
    \<exists>p' b j. analyze_loop s (level_start s) (Some cr) p k a = Some (p', b) \<and> p' \<in> set (sv_trail s) \<and>
      level s (var p') = decisionLevel s \<and> ana_wf s b j \<and> pending s (an_seen b) j = {} \<and>
      \<not> seen_at (an_seen b) p' \<and> entails s (insert (neg_lit p') (set (tl (an_out b))))"
proof (induction k arbitrary: a p cr ls rule: less_induct)
  case (less k)
  obtain b where b: "mark_lits s ls a = Some b" "ana_wf s b k" "resolvent s a k \<subseteq> resolvent s b k"
    "\<forall>q\<in>set ls. level s (var q) = 0 \<or> q \<in> resolvent s b k" "pending s (an_seen a) k \<subseteq> pending s (an_seen b) k"
    "\<forall>q\<in>set ls. 0 < level s (var q) \<and> level s (var q) = decisionLevel s \<longrightarrow> neg_lit q \<in> pending s (an_seen b) k"
    using mark_lits_spec[OF s(1,2) less.prems(1,3)] by blast
  have kl: "k \<le> length (sv_trail s)" using b(2) by (simp add: ana_wf_def)
  have ne: "pending s (an_seen b) k \<noteq> {}" using less.prems(5) b(5,6) s(5) by auto
  have ent: "entails s (resolvent s b k)" by (rule entails_mono[OF less.prems(4)]) (use b(3,4) in auto)
  obtain j where j: "find_next s (level_start s) (an_path b) k (an_seen b) = Some (j, sv_trail s ! j, an_seen b)"
    "j < k" "level_start s \<le> j" "level s (var (sv_trail s ! j)) = decisionLevel s" "seen_at (an_seen b) (sv_trail s ! j)"
    "pending s (an_seen b) k = insert (sv_trail s ! j) (pending s (an_seen b) j)"
    using find_next_spec[OF s(2) kl ne] by blast
  let ?p = "sv_trail s ! j"
  let ?c = "b\<lparr>an_seen := set_seen ?p False (an_seen b), an_path := an_path b - 1\<rparr>"
  note u = unmark_wf[OF s(1) b(2) j(2,4-6)]
  have pt: "?p \<in> set (sv_trail s)" "j < length (sv_trail s)" using j(2) kl by simp_all
  have res: "resolve_reason s (Some cr) p a = Some b" using b(1) less.prems(2) by (simp add: resolve_reason_def)
  show ?case
  proof (cases "an_path b - 1 > 0")
    case False
    then have "analyze_loop s (level_start s) (Some cr) p k a = Some (?p, ?c)"
      by (subst analyze_loop.simps) (simp add: res j(1))
    moreover have "card (pending s (an_seen ?c) j) = 0" using False u(4) by linarith
    then have "pending s (an_seen ?c) j = {}" by simp
    moreover from this have "entails s (insert (neg_lit ?p) (set (tl (an_out ?c))))"
      using ent u(2) by (simp add: resolvent_def)
    ultimately show ?thesis using u(1,3) pt(1) j(4) by (intro exI conjI)
  next
    case True
    then have nej: "pending s (an_seen ?c) j \<noteq> {}" using u(4) by auto
    have "j \<le> length (sv_trail s)" using pt(2) by simp
    note st = pending_start[OF s(2) this nej]
    have "0 < level s (var ?p)" using j(4) s(5) by simp
    from reason_of_pending[OF s(1-4) pt(2) this st] obtain cr2 where cr2: "reason s (var ?p) = Some cr2" "cr2 \<in> set (db s)"
      "clause_lits s cr2 ! 0 = ?p" "\<forall>q\<in>set (drop 1 (clause_lits s cr2)). neg_lit q \<in> set (take j (sv_trail s))" by blast
    have und: "?p \<noteq> lit_Undef" using trail_in_range[OF s(1) pt(1)] by (auto simp: in_range_def)
    have "entails s (insert (neg_lit ?p) (resolvent s ?c j))" using ent u(2) by simp
    from entails_resolve[OF this cr2(2,3)] have "entails s (resolvent s ?c j \<union> set (drop 1 (clause_lits s cr2)))" by blast
    from entails_above_root[OF s(2) this]
    have "entails s (resolvent s ?c j \<union> {q \<in> set (drop 1 (clause_lits s cr2)). 0 < level s (var q)})"
      using cr2(4) in_set_takeD by fastforce
    moreover have "drop 1 (clause_lits s cr2) = drop (if ?p = lit_Undef then 0 else 1) (clause_lits s cr2)" using und by simp
    ultimately obtain p' d i where d: "analyze_loop s (level_start s) (Some cr2) ?p j ?c = Some (p', d)" "p' \<in> set (sv_trail s)"
      "level s (var p') = decisionLevel s" "ana_wf s d i" "pending s (an_seen d) i = {}" "\<not> seen_at (an_seen d) p'"
      "entails s (insert (neg_lit p') (set (tl (an_out d))))"
      using less.IH[OF j(2) u(1) _ cr2(4)] nej by blast
    have "analyze_loop s (level_start s) (Some cr) p k a = Some (p', d)"
      using True d(1) cr2(1) by (subst analyze_loop.simps) (simp add: res j(1))
    then show ?thesis using d(2-) by blast
  qed
qed

subsection \<open>Redundant literals\<close>

text \<open>The marked literals outside \<open>K\<close> are implied: all other literals of their reasons are marked or of level 0.\<close>

definition implied :: "solver \<Rightarrow> bool list \<Rightarrow> lit \<Rightarrow> bool" where
  "implied s seen q \<longleftrightarrow> (\<exists>cr. reason s (var q) = Some cr \<and>
     (\<forall>r\<in>set (drop 1 (clause_lits s cr)). seen_at seen r \<or> level s (var r) = 0))"

definition closed_under :: "solver \<Rightarrow> bool list \<Rightarrow> lit set \<Rightarrow> bool" where
  "closed_under s seen K \<longleftrightarrow> (\<forall>q. neg_lit q \<in> set (sv_trail s) \<and> seen_at seen q \<and> q \<notin> K \<longrightarrow> implied s seen q)"

lemma reason_tail:
  assumes "reason_ok s" "neg_lit q \<in> set (sv_trail s)" "reason s (var q) = Some cr" "r \<in> set (drop 1 (clause_lits s cr))"
  shows "neg_lit r \<in> set (sv_trail s)"
proof -
  obtain i where i: "i < length (sv_trail s)" "sv_trail s ! i = neg_lit q" using assms(2) unfolding in_set_conv_nth by blast
  have "reason s (var (sv_trail s ! i)) = Some cr" using assms(3) i(2) by simp
  then have "neg_lit r \<in> set (take i (sv_trail s))" using assms(1,4) i(1) unfolding reason_ok_def by blast
  then show ?thesis by (rule in_set_takeD)
qed

lemma closed_entails:
  assumes s: "assign_wf s" "level_wf s" "reason_ok s" and K: "closed_under s seen K" and b: "base_sat s \<sigma>"
  shows "i < length (sv_trail s) \<Longrightarrow> sv_trail s ! i = neg_lit q \<Longrightarrow> seen_at seen q \<Longrightarrow> lit_val \<sigma> q \<Longrightarrow>
    \<exists>l\<in>K. lit_val \<sigma> l"
proof (induction i arbitrary: q rule: less_induct)
  case (less i)
  show ?case
  proof (cases "q \<in> K")
    case False
    have "neg_lit q \<in> set (sv_trail s)" using less.prems(1,2) nth_mem by metis
    then obtain cr where cr: "reason s (var q) = Some cr"
      "\<forall>r\<in>set (drop 1 (clause_lits s cr)). seen_at seen r \<or> level s (var r) = 0"
      using K False less.prems(3) by (auto simp: closed_under_def implied_def)
    have "reason s (var (sv_trail s ! i)) = Some cr" using cr(1) less.prems(2) by simp
    then have r: "cr \<in> set (db s)" "clause_lits s cr ! 0 = neg_lit q"
      "\<forall>r\<in>set (drop 1 (clause_lits s cr)). neg_lit r \<in> set (take i (sv_trail s))"
      using s(3) less.prems(1,2) unfolding reason_ok_def by auto
    obtain r where rr: "r \<in> set (clause_lits s cr)" "lit_val \<sigma> r"
      using b r(1) by (auto simp: base_sat_def clause_sat_def)
    have "r \<noteq> neg_lit q" using rr(2) less.prems(4) by auto
    then have rd: "r \<in> set (drop 1 (clause_lits s cr))"
      using rr(1) r(2) by (cases "clause_lits s cr") auto
    then have rt: "neg_lit r \<in> set (take i (sv_trail s))" using r(3) by blast
    have "level s (var r) \<noteq> 0" using base_sat_root[OF s(2) b in_set_takeD[OF rt]] rr(2) by blast
    then have "seen_at seen r" using cr(2) rd by auto
    moreover obtain j where "j < i" "j < length (sv_trail s)" "sv_trail s ! j = neg_lit r"
      using rt by (auto simp: in_set_conv_nth)
    ultimately show ?thesis using less.IH[of j r] rr(2) by blast
  qed (use less.prems in blast)
qed

definition unseen_vars :: "bool list \<Rightarrow> nat" where
  "unseen_vars seen = length (filter Not seen)"

text \<open>\<open>b\<close> is \<open>a\<close> with the variables of the literals \<open>ext\<close>, which were not marked, marked as well.\<close>

definition marks :: "solver \<Rightarrow> bool list \<Rightarrow> lit list \<Rightarrow> bool list \<Rightarrow> bool" where
  "marks s a ext b \<longleftrightarrow> length a = nVars s \<and> length b = nVars s \<and>
     (\<forall>v<nVars s. b ! v \<longleftrightarrow> a ! v \<or> v \<in> (\<lambda>e. nat (var e)) ` set ext) \<and>
     (\<forall>e\<in>set ext. neg_lit e \<in> set (sv_trail s) \<and> \<not> seen_at a e \<and> reason s (var e) \<noteq> None) \<and>
     unseen_vars b + length ext = unseen_vars a"

lemma marks_refl: "length a = nVars s \<Longrightarrow> marks s a [] a"
  by (simp add: marks_def)

lemma marks_trans:
  assumes s: "assign_wf s" and ab: "marks s a xs b" and bc: "marks s b ys c"
  shows "marks s a (xs @ ys) c"
proof -
  have "\<not> seen_at a e" if e: "e \<in> set ys" for e
  proof -
    have "nat (var e) < nVars s" "\<not> seen_at b e"
      using bc e trail_in_range[OF s, of "neg_lit e"] nat_var_less[of s e] by (auto simp: marks_def)
    then show ?thesis using ab by (simp add: marks_def)
  qed
  then show ?thesis using ab bc unfolding marks_def by auto
qed

lemma marks_one:
  assumes s: "assign_wf s" and e: "neg_lit e \<in> set (sv_trail s)" "\<not> seen_at a e" "reason s (var e) \<noteq> None" "length a = nVars s"
  shows "marks s a [e] (set_seen e True a)"
proof -
  have "nat (var e) < length a" using e(4) nat_var_less[of s e] trail_in_range[OF s e(1)] by simp
  then show ?thesis using e card_filter_update[of "nat (var e)" a Not True]
    by (auto simp: marks_def set_seen_def unseen_vars_def nth_list_update)
qed

lemma marks_seen:
  assumes "assign_wf s" "marks s a xs b" "neg_lit q \<in> set (sv_trail s)"
  shows "seen_at b q \<longleftrightarrow> seen_at a q \<or> q \<in> set xs"
proof -
  have rq: "in_range s q" using trail_in_range[OF assms(1,3)] by simp
  have "q = e" if e: "e \<in> set xs" "nat (var q) = nat (var e)" for e
  proof -
    have et: "neg_lit e \<in> set (sv_trail s)" using assms(2) e(1) by (simp add: marks_def)
    then have "in_range s e" using trail_in_range[OF assms(1)] by fastforce
    then have "var q = var e" using nat_var_eq[OF rq] e(2) by blast
    then show ?thesis using same_trail_var[OF assms(1,3) et] by simp
  qed
  then show ?thesis using assms(2) nat_var_less[OF rq] by (auto simp: marks_def)
qed

lemma scan_reason_spec:
  assumes s: "assign_wf s"
  shows "length seen = nVars s \<Longrightarrow> \<forall>p\<in>set ps. neg_lit p \<in> set (sv_trail s) \<Longrightarrow>
    \<exists>ok seen' ext. scan_reason s levels ps (seen, stack, clr) = (ok, seen', stack @ ext, clr @ ext) \<and>
      marks s seen ext seen' \<and> (ok \<longrightarrow> (\<forall>p\<in>set ps. seen_at seen' p \<or> level s (var p) = 0))"
proof (induction ps arbitrary: seen stack clr)
  case Nil
  then show ?case by (auto intro: marks_refl)
next
  case (Cons p ps)
  have pt: "neg_lit p \<in> set (sv_trail s)" and ps: "\<forall>p\<in>set ps. neg_lit p \<in> set (sv_trail s)"
    using Cons.prems by simp_all
  consider "seen_at seen p \<or> level s (var p) = 0"
    | "\<not> seen_at seen p \<and> level s (var p) > 0" "reason s (var p) \<noteq> None \<and> abstractLevel s (var p) AND levels \<noteq> 0"
    | "\<not> seen_at seen p \<and> level s (var p) > 0" "\<not> (reason s (var p) \<noteq> None \<and> abstractLevel s (var p) AND levels \<noteq> 0)"
    by blast
  then show ?case
  proof cases
    case 1
    obtain ok seen' ext where e: "scan_reason s levels ps (seen, stack, clr) = (ok, seen', stack @ ext, clr @ ext)"
      "marks s seen ext seen'" "ok \<longrightarrow> (\<forall>p\<in>set ps. seen_at seen' p \<or> level s (var p) = 0)"
      using Cons.IH[OF Cons.prems(1) ps, of stack clr] by blast
    moreover have "seen_at seen' p \<or> level s (var p) = 0" using 1 marks_seen[OF s e(2) pt] by auto
    moreover have "scan_reason s levels (p # ps) (seen, stack, clr) = scan_reason s levels ps (seen, stack, clr)"
      using 1 by auto
    ultimately show ?thesis by (intro exI[of _ ok] exI[of _ seen'] exI[of _ ext]) simp
  next
    case 2
    have one: "marks s seen [p] (set_seen p True seen)" by (rule marks_one[OF s pt _ _ Cons.prems(1)]) (use 2 in auto)
    then have "length (set_seen p True seen) = nVars s" by (simp add: marks_def)
    then obtain ok seen' ext where e: "scan_reason s levels ps (set_seen p True seen, stack @ [p], clr @ [p]) =
        (ok, seen', (stack @ [p]) @ ext, (clr @ [p]) @ ext)" "marks s (set_seen p True seen) ext seen'"
        "ok \<longrightarrow> (\<forall>p\<in>set ps. seen_at seen' p \<or> level s (var p) = 0)"
      using Cons.IH[OF _ ps, of "set_seen p True seen" "stack @ [p]" "clr @ [p]"] by blast
    have "marks s seen ([p] @ ext) seen'" by (rule marks_trans[OF s one e(2)])
    moreover from this have "seen_at seen' p" using marks_seen[OF s _ pt] by auto
    ultimately show ?thesis using e 2 by (intro exI[of _ ok] exI[of _ seen'] exI[of _ "p # ext"]) simp
  next
    case 3
    then have "scan_reason s levels (p # ps) (seen, stack, clr) = (False, seen, stack, clr)" by auto
    then show ?thesis using marks_refl[OF Cons.prems(1)]
      by (intro exI[of _ False] exI[of _ seen] exI[of _ "[]"]) simp
  qed
qed

lemma clear_seen_nth:
  "length (clear_seen ls seen) = length seen"
  "v < length seen \<Longrightarrow> clear_seen ls seen ! v \<longleftrightarrow> seen ! v \<and> v \<notin> (\<lambda>l. nat (var l)) ` set ls"
proof -
  show "length (clear_seen ls seen) = length seen"
    by (induction ls arbitrary: seen) (simp_all add: clear_seen_def set_seen_def)
  have one: "v < length a \<Longrightarrow> set_seen l False a ! v \<longleftrightarrow> a ! v \<and> v \<noteq> nat (var l)" for a l
    by (cases "v = nat (var l)") (simp_all add: set_seen_def)
  show "v < length seen \<Longrightarrow> clear_seen ls seen ! v \<longleftrightarrow> seen ! v \<and> v \<notin> (\<lambda>l. nat (var l)) ` set ls"
  proof (induction ls arbitrary: seen)
    case (Cons l ls)
    have "v < length (set_seen l False seen)" using Cons.prems by (simp add: set_seen_def)
    then show ?case using Cons.IH[of "set_seen l False seen"] one[OF Cons.prems] by (auto simp: clear_seen_def)
  qed (simp add: clear_seen_def)
qed

lemma clear_marks:
  assumes s: "assign_wf s" and m: "marks s a xs b"
  shows "clear_seen xs b = a"
proof (rule nth_equalityI)
  show "length (clear_seen xs b) = length a" using m by (simp add: clear_seen_nth marks_def)
  fix v assume "v < length (clear_seen xs b)"
  then have v: "v < length b" "v < nVars s" using m by (simp_all add: clear_seen_nth marks_def)
  have "\<not> a ! v" if "v \<in> (\<lambda>e. nat (var e)) ` set xs" using m that by (auto simp: marks_def)
  then show "clear_seen xs b ! v = a ! v" using m v clear_seen_nth(2)[OF v(1)] by (auto simp: marks_def)
qed

lemma set_butlast_last: "xs \<noteq> [] \<Longrightarrow> set xs = insert (last xs) (set (butlast xs))"
  by (metis append_butlast_last_id list.simps(15) rotate1.simps(2) set_rotate1)

text \<open>\<open>redundant_loop\<close> started with the literal \<open>l\<close> and the marks \<open>a\<close>: \<open>xs\<close> has been marked since.\<close>

definition red_inv :: "solver \<Rightarrow> lit \<Rightarrow> bool list \<Rightarrow> lit list \<Rightarrow> bool list \<Rightarrow> lit list \<Rightarrow> bool" where
  "red_inv s l a xs seen stack \<longleftrightarrow> marks s a xs seen \<and> set stack \<subseteq> insert l (set xs) \<and>
     (\<forall>q\<in>insert l (set xs) - set stack. implied s seen q)"

lemma redundant_loop_spec:
  assumes s: "assign_wf s" "reason_ok s" and l: "neg_lit l \<in> set (sv_trail s)" "reason s (var l) \<noteq> None"
  shows "red_inv s l a xs seen stack \<Longrightarrow>
    (\<exists>ys b. redundant_loop s levels (length clr) seen stack (clr @ xs) = Some (True, b, clr @ ys) \<and> red_inv s l a ys b []) \<or>
    redundant_loop s levels (length clr) seen stack (clr @ xs) = Some (False, a, clr)"
proof (induction "unseen_vars seen + length stack" arbitrary: xs seen stack rule: less_induct)
  case less
  note inv = less.prems[unfolded red_inv_def]
  have len: "length seen = nVars s" using inv by (simp add: marks_def)
  show ?case
  proof (cases "stack = []")
    case True
    then show ?thesis using less.prems by (subst redundant_loop.simps) auto
  next
    case False
    let ?t = "last stack"
    have "?t \<in> insert l (set xs)" using inv False last_in_set by blast
    then have t: "neg_lit ?t \<in> set (sv_trail s)" "reason s (var ?t) \<noteq> None"
      using l inv by (auto simp: marks_def)
    then obtain cr where cr: "reason s (var ?t) = Some cr" by auto
    have ps: "\<forall>p\<in>set (drop 1 (clause_lits s cr)). neg_lit p \<in> set (sv_trail s)"
      using reason_tail[OF s(2) t(1) cr] by blast
    obtain ok seen' ext where e: "scan_reason s levels (drop 1 (clause_lits s cr)) (seen, butlast stack, clr @ xs) =
        (ok, seen', butlast stack @ ext, (clr @ xs) @ ext)" "marks s seen ext seen'"
        "ok \<longrightarrow> (\<forall>p\<in>set (drop 1 (clause_lits s cr)). seen_at seen' p \<or> level s (var p) = 0)"
      using scan_reason_spec[OF s(1) len ps] by blast
    have m: "marks s a (xs @ ext) seen'" by (rule marks_trans[OF s(1) _ e(2)]) (use inv in blast)
    have step: "redundant_loop s levels (length clr) seen stack (clr @ xs) =
        (if ok then redundant_loop s levels (length clr) seen' (butlast stack @ ext) (clr @ (xs @ ext))
         else Some (False, clear_seen (xs @ ext) seen', clr))"
      using False cr e(1) by (subst redundant_loop.simps) simp
    show ?thesis
    proof (cases ok)
      case False
      then show ?thesis using step clear_marks[OF s(1) m] by simp
    next
      case True
      have mono: "implied s seen' q" if im: "implied s seen q" and qt: "neg_lit q \<in> set (sv_trail s)" for q
      proof -
        obtain c where c: "reason s (var q) = Some c" "\<forall>r\<in>set (drop 1 (clause_lits s c)). seen_at seen r \<or> level s (var r) = 0"
          using im unfolding implied_def by blast
        have "neg_lit r \<in> set (sv_trail s)" if "r \<in> set (drop 1 (clause_lits s c))" for r
          using reason_tail[OF s(2) qt c(1) that] .
        then show ?thesis using c marks_seen[OF s(1) e(2)] by (auto simp: implied_def)
      qed
      have "implied s seen' ?t" using e(3) True cr by (auto simp: implied_def)
      moreover have "implied s seen' q" if q: "q \<in> insert l (set (xs @ ext)) - set (butlast stack @ ext)" "q \<noteq> ?t" for q
      proof -
        have qs: "q \<in> insert l (set xs)" "q \<notin> set stack"
          using q set_butlast_last[OF \<open>stack \<noteq> []\<close>] by auto
        moreover have "neg_lit q \<in> set (sv_trail s)" using qs(1) l(1) inv by (auto simp: marks_def)
        ultimately show ?thesis using mono inv by blast
      qed
      ultimately have im: "\<forall>q\<in>insert l (set (xs @ ext)) - set (butlast stack @ ext). implied s seen' q" by blast
      have "set (butlast stack @ ext) \<subseteq> insert l (set (xs @ ext))" using inv in_set_butlastD by fastforce
      then have "red_inv s l a (xs @ ext) seen' (butlast stack @ ext)" using m im unfolding red_inv_def by blast
      moreover have "unseen_vars seen' + length (butlast stack @ ext) < unseen_vars seen + length stack"
        using e(2) \<open>stack \<noteq> []\<close> by (cases stack) (auto simp: marks_def)
      ultimately show ?thesis using less.hyps step True by simp
    qed
  qed
qed

subsection \<open>Minimisation\<close>

lemma implied_mono:
  assumes s: "assign_wf s" "reason_ok s" and m: "marks s a xs b" and q: "neg_lit q \<in> set (sv_trail s)" "implied s a q"
  shows "implied s b q"
proof -
  obtain c where c: "reason s (var q) = Some c" "\<forall>r\<in>set (drop 1 (clause_lits s c)). seen_at a r \<or> level s (var r) = 0"
    using q(2) unfolding implied_def by blast
  have *: "seen_at b r \<or> level s (var r) = 0" if r: "r \<in> set (drop 1 (clause_lits s c))" for r
    using bspec[OF c(2) r] marks_seen[OF s(1) m reason_tail[OF s(2) q(1) c(1) r]] by argo
  show ?thesis unfolding implied_def by (rule exI[of _ c]) (simp add: c(1), use * in simp)
qed

lemma closed_drop:
  assumes s: "assign_wf s" "reason_ok s" and K: "closed_under s a (insert l K)" and r: "red_inv s l a ys b []"
  shows "closed_under s b K"
  unfolding closed_under_def
proof (intro allI impI)
  fix q assume q: "neg_lit q \<in> set (sv_trail s) \<and> seen_at b q \<and> q \<notin> K"
  have m: "marks s a ys b" and im: "\<And>q. q \<in> insert l (set ys) \<Longrightarrow> implied s b q" using r by (auto simp: red_inv_def)
  show "implied s b q"
  proof (cases "q \<in> insert l (set ys)")
    case True
    then show ?thesis by (rule im)
  next
    case False
    then have "seen_at a q" using marks_seen[OF s(1) m] q by auto
    then have "implied s a q" using K q False unfolding closed_under_def by auto
    then show ?thesis using implied_mono[OF s m] q by blast
  qed
qed

definition covers :: "solver \<Rightarrow> bool list \<Rightarrow> lit list \<Rightarrow> bool" where
  "covers s seen clr \<longleftrightarrow> length seen = nVars s \<and> (\<forall>v<nVars s. seen ! v \<longrightarrow> v \<in> (\<lambda>l. nat (var l)) ` set clr)"

lemma covers_clear:
  assumes "covers s seen clr"
  shows "clear_seen clr seen = replicate (nVars s) False"
  by (rule nth_equalityI) (use assms in \<open>auto simp: covers_def clear_seen_nth\<close>)

lemma minimize_deep_spec:
  assumes s: "assign_wf s" "reason_ok s"
  shows "covers s seen clr \<Longrightarrow> closed_under s seen (set kept \<union> set ls) \<Longrightarrow> \<forall>q\<in>set ls. neg_lit q \<in> set (sv_trail s) \<Longrightarrow>
    distinct (map var (kept @ ls)) \<Longrightarrow>
    \<exists>ks b clr'. minimize_deep s levels ls (x # kept) seen clr = Some (x # ks, b, clr') \<and> covers s b clr' \<and>
      closed_under s b (set ks) \<and> set ks \<subseteq> set kept \<union> set ls \<and> distinct (map var ks) \<and>
      (\<forall>q. neg_lit q \<in> set (sv_trail s) \<and> seen_at seen q \<longrightarrow> seen_at b q)"
proof (induction ls arbitrary: kept seen clr)
  case Nil
  then show ?case by simp
next
  case (Cons l ls)
  have lt: "neg_lit l \<in> set (sv_trail s)" and lst: "\<forall>q\<in>set ls. neg_lit q \<in> set (sv_trail s)" using Cons.prems(3) by simp_all
  have keep: ?case if *: "minimize_deep s levels (l # ls) (x # kept) seen clr = minimize_deep s levels ls (x # (kept @ [l])) seen clr"
  proof -
    have "closed_under s seen (set (kept @ [l]) \<union> set ls)" "distinct (map var ((kept @ [l]) @ ls))"
      using Cons.prems(2,4) by (simp_all add: insert_commute)
    from Cons.IH[OF Cons.prems(1) this(1) lst this(2)] show ?thesis unfolding * by auto
  qed
  show ?case
  proof (cases "reason s (var l) = None")
    case True
    then show ?thesis by (intro keep) simp
  next
    case False
    have len: "length seen = nVars s" using Cons.prems(1) by (simp add: covers_def)
    have "red_inv s l seen [] seen [l]" using marks_refl[OF len] by (simp add: red_inv_def)
    from redundant_loop_spec[OF s lt False this, of levels clr]
    consider ys b where "litRedundant s l levels seen clr = Some (True, b, clr @ ys)" "red_inv s l seen ys b []"
      | "litRedundant s l levels seen clr = Some (False, seen, clr)"
      by (auto simp: litRedundant_def)
    then show ?thesis
    proof cases
      case 2
      then show ?thesis using False by (intro keep) simp
    next
      case 1
      have m: "marks s seen ys b" using 1(2) by (simp add: red_inv_def)
      have "covers s b (clr @ ys)" using Cons.prems(1) m by (auto simp: covers_def marks_def)
      moreover have "closed_under s b (set kept \<union> set ls)"
        by (rule closed_drop[OF s _ 1(2)]) (use Cons.prems(2) in simp)
      moreover have "distinct (map var (kept @ ls))" using Cons.prems(4) by auto
      ultimately obtain ks c clr' where c: "minimize_deep s levels ls (x # kept) b (clr @ ys) = Some (x # ks, c, clr')"
        "covers s c clr'" "closed_under s c (set ks)" "set ks \<subseteq> set kept \<union> set ls" "distinct (map var ks)"
        "\<forall>q. neg_lit q \<in> set (sv_trail s) \<and> seen_at b q \<longrightarrow> seen_at c q"
        using Cons.IH[OF _ _ lst] by blast
      have "minimize_deep s levels (l # ls) (x # kept) seen clr = Some (x # ks, c, clr')" using False 1(1) c(1) by auto
      moreover have "\<forall>q. neg_lit q \<in> set (sv_trail s) \<and> seen_at seen q \<longrightarrow> seen_at c q"
        using c(6) marks_seen[OF s(1) m] by auto
      ultimately show ?thesis using c(2-5) by (intro exI conjI) auto
    qed
  qed
qed

lemma minimize_spec:
  assumes s: "assign_wf s" "level_wf s" "reason_ok s" and len: "length seen = nVars s"
    and only: "\<forall>v<nVars s. seen ! v \<longrightarrow> v \<in> (\<lambda>l. nat (var l)) ` set ls"
    and ls: "\<forall>q\<in>set ls. neg_lit q \<in> set (sv_trail s) \<and> seen_at seen q" "distinct (map var ls)"
    and ent: "entails s (insert x (set ls))"
  shows "\<exists>ks b clr. minimize s mode (x # ls) seen = Some (x # ks, b, clr) \<and> covers s b clr \<and> set ks \<subseteq> set ls \<and>
    distinct (map var ks) \<and> entails s (insert x (set ks))"
proof -
  have cov: "covers s seen (x # ls)" using len only by (auto simp: covers_def)
  have mem: "q \<in> set ls" if q: "neg_lit q \<in> set (sv_trail s)" "seen_at seen q" for q
  proof -
    have rq: "in_range s q" using trail_in_range[OF s(1) q(1)] by simp
    obtain l where l: "l \<in> set ls" "nat (var q) = nat (var l)" using only nat_var_less[OF rq] q(2) by auto
    then have "in_range s l" "neg_lit l \<in> set (sv_trail s)" using ls(1) trail_in_range[OF s(1)] by fastforce+
    then have "var q = var l" "neg_lit l \<in> set (sv_trail s)" using nat_var_eq[OF rq] l(2) by blast+
    then have "neg_lit q = neg_lit l" using same_trail_var[OF s(1) q(1), of "neg_lit l"] by simp
    then show ?thesis using l(1) by simp
  qed
  have cl: "closed_under s seen (set ls)" using mem by (auto simp: closed_under_def)
  have fin: "entails s (insert x (set ks))"
    if K: "closed_under s b (set ks)" and mono: "\<forall>q. neg_lit q \<in> set (sv_trail s) \<and> seen_at seen q \<longrightarrow> seen_at b q" for ks b
    unfolding entails_def
  proof (intro allI impI)
    fix \<sigma> assume b: "base_sat s \<sigma>"
    then obtain l where l: "l \<in> insert x (set ls)" "lit_val \<sigma> l" using ent unfolding entails_def by blast
    show "\<exists>l\<in>insert x (set ks). lit_val \<sigma> l"
    proof (cases "l = x")
      case False
      then have "neg_lit l \<in> set (sv_trail s)" "seen_at b l" using l(1) ls(1) mono by auto
      moreover from this(1) obtain i where "i < length (sv_trail s)" "sv_trail s ! i = neg_lit l" unfolding in_set_conv_nth by blast
      ultimately show ?thesis using closed_entails[OF s K b _ _ _ l(2)] by blast
    qed (use l in blast)
  qed
  consider "mode = 2" | "mode \<noteq> 2" "mode = 1" | "mode \<noteq> 2" "mode \<noteq> 1" by blast
  then show ?thesis
  proof cases
    case 1
    have "closed_under s seen (set [] \<union> set ls)" "distinct (map var ([] @ ls))" "\<forall>q\<in>set ls. neg_lit q \<in> set (sv_trail s)"
      using cl ls by simp_all
    from minimize_deep_spec[OF s(1,3) cov this(1,3,2)] obtain ks b clr where
      r: "minimize_deep s (fold (\<lambda>l a. a OR abstractLevel s (var l)) ls 0) ls [x] seen (x # ls) = Some (x # ks, b, clr)"
      "covers s b clr" "closed_under s b (set ks)" "set ks \<subseteq> set [] \<union> set ls" "distinct (map var ks)"
      "\<forall>q. neg_lit q \<in> set (sv_trail s) \<and> seen_at seen q \<longrightarrow> seen_at b q" by blast
    then show ?thesis using fin[OF r(3,6)] 1 by (simp add: minimize_def)
  next
    case 2
    let ?ks = "filter (\<lambda>l. \<not> follows_directly s seen l) ls"
    have "closed_under s seen (set ?ks)"
      unfolding closed_under_def
    proof (intro allI impI)
      fix q assume q: "neg_lit q \<in> set (sv_trail s) \<and> seen_at seen q \<and> q \<notin> set ?ks"
      then have "follows_directly s seen q" using mem by auto
      then show "implied s seen q" by (auto simp: follows_directly_def implied_def list_all_iff split: option.splits)
    qed
    then have "entails s (insert x (set ?ks))" by (rule fin) simp
    moreover have "distinct (map var ?ks)" using ls(2) by (simp add: distinct_map_filter)
    moreover have "minimize s mode (x # ls) seen = Some (x # ?ks, seen, x # ls)" using 2 by (simp add: minimize_def)
    moreover have "set ?ks \<subseteq> set ls" by auto
    ultimately show ?thesis using cov by blast
  next
    case 3
    then have "minimize s mode (x # ls) seen = Some (x # ls, seen, x # ls)" by (simp add: minimize_def)
    then show ?thesis using cov ls(2) ent by blast
  qed
qed

subsection \<open>The learnt clause\<close>

lemma highest_spec:
  "let h = highest s out is m in h \<in> insert m (set is) \<and>
     (\<forall>i\<in>insert m (set is). level s (var (out ! i)) \<le> level s (var (out ! h)))"
proof (induction "is" arbitrary: m)
  case (Cons i "is")
  have "level s (var (out ! m)) \<le> level s (var (out ! (if level s (var (out ! i)) > level s (var (out ! m)) then i else m)))"
    "level s (var (out ! i)) \<le> level s (var (out ! (if level s (var (out ! i)) > level s (var (out ! m)) then i else m)))"
    by auto
  then show ?case using Cons.IH[of "if level s (var (out ! i)) > level s (var (out ! m)) then i else m"]
    by (auto simp: Let_def intro: order_trans split: if_splits)
qed simp

text \<open>What \<open>analyze\<close> promises: a consequence of the database, false on the trail, with one literal of the current level in
  front and a literal of the level to go back to behind it.\<close>

definition learnt_ok :: "solver \<Rightarrow> lit list \<Rightarrow> nat \<Rightarrow> bool" where
  "learnt_ok s ls bt \<longleftrightarrow> ls \<noteq> [] \<and> distinct (map var ls) \<and> (\<forall>q\<in>set ls. neg_lit q \<in> set (sv_trail s) \<and> 0 < level s (var q)) \<and>
     level s (var (ls ! 0)) = decisionLevel s \<and> (\<forall>q\<in>set (tl ls). level s (var q) \<le> bt) \<and> bt < decisionLevel s \<and>
     (1 < length ls \<longrightarrow> level s (var (ls ! 1)) = bt) \<and> (length ls = 1 \<longrightarrow> bt = 0) \<and> entails s (set ls)"

lemma backtrack_level_spec:
  assumes x: "neg_lit x \<in> set (sv_trail s)" "level s (var x) = decisionLevel s" "0 < decisionLevel s"
    and ks: "\<forall>q\<in>set ks. neg_lit q \<in> set (sv_trail s) \<and> 0 < level s (var q) \<and> level s (var q) < decisionLevel s"
    "distinct (map var ks)" and ent: "entails s (insert x (set ks))"
  shows "\<exists>ls bt. backtrack_level s (x # ks) = (ls, bt) \<and> learnt_ok s ls bt"
proof (cases ks)
  case Nil
  then show ?thesis using x ent by (simp add: backtrack_level_def learnt_ok_def)
next
  case (Cons k ks')
  let ?out = "x # ks"
  define h where "h = highest s ?out [2..<length ?out] 1"
  let ?ls = "?out[h := ?out ! 1, 1 := ?out ! h]"
  have h: "h \<in> insert 1 (set [2..<length ?out])" "\<forall>i\<in>insert 1 (set [2..<length ?out]). level s (var (?out ! i)) \<le> level s (var (?out ! h))"
    using highest_spec[of s ?out "[2..<length ?out]" 1] unfolding h_def Let_def by blast+
  have out: "1 < length ?out" using Cons by simp
  have "\<forall>i\<in>insert 1 (set [2..<length ?out]). 1 \<le> i \<and> i < length ?out" using out by auto
  then have hb: "1 \<le> h" "h < length ?out" "1 < length ?out" using h(1) out by blast+
  have sw: "?ls = list_swap ?out h 1" by (simp add: list_swap_def)
  have ms: "mset ?ls = mset ?out" unfolding sw by (rule mset_list_swap) (use hb in simp_all)
  have len: "length ?ls = length ?out" by (simp only: length_list_update)
  have l0: "?ls ! 0 = x" using hb(1) by (cases h) auto
  have l1: "?ls ! 1 = ?out ! h" by (rule nth_list_update_eq) (simp only: length_list_update hb(3))
  have ne: "?ls \<noteq> []" using len by (metis length_0_conv length_Cons nat.distinct(1))
  have hd: "?ls = x # tl ?ls" using hd_conv_nth[OF ne] l0 list.collapse[OF ne] by argo
  have "mset (tl ?ls) = mset ks" using ms by (subst (asm) hd) simp
  then have tl: "set (tl ?ls) = set ks" by (metis set_mset_mset)
  have st: "set ?ls = insert x (set ks)" using mset_eq_setD[OF ms] by simp
  have "var x \<notin> var ` set ks" using ks(1) x(2) by force
  then have "distinct (map var ?out)" using ks(2) by simp
  moreover have "mset (map var ?ls) = mset (map var ?out)" using ms by (metis mset_map)
  ultimately have dist: "distinct (map var ?ls)" using mset_eq_imp_distinct_iff by blast
  have top: "level s (var q) \<le> level s (var (?out ! h))" if "q \<in> set (tl ?ls)" for q
  proof -
    have "q \<in> set ks" using that tl by simp
    then obtain i where "i < length ks" "ks ! i = q" unfolding in_set_conv_nth by blast
    then have "?out ! Suc i = q" "Suc i \<in> insert 1 (set [2..<length ?out])" by auto
    then show ?thesis using h(2) by metis
  qed
  have hk: "?out ! h \<in> set ks"
  proof -
    obtain j where "h = Suc j" using hb(1) by (cases h) auto
    then show ?thesis using hb(2) by simp
  qed
  have "learnt_ok s ?ls (level s (var (?out ! h)))"
    unfolding learnt_ok_def
  proof (intro conjI impI)
    show "?ls \<noteq> []" "distinct (map var ?ls)" by (rule ne, rule dist)
    show "\<forall>q\<in>set ?ls. neg_lit q \<in> set (sv_trail s) \<and> 0 < level s (var q)" unfolding st using ks(1) x by auto
    show "level s (var (?ls ! 0)) = decisionLevel s" using l0 x(2) by simp
    show "\<forall>q\<in>set (tl ?ls). level s (var q) \<le> level s (var (?out ! h))" using top by blast
    show "level s (var (?out ! h)) < decisionLevel s" using ks(1) hk by blast
    show "level s (var (?ls ! 1)) = level s (var (?out ! h))" using l1 by simp
    show "entails s (set ?ls)" unfolding st by (rule ent)
    show "level s (var (?out ! h)) = 0" if "length ?ls = 1" using that out unfolding len by simp
  qed
  moreover have "backtrack_level s ?out = (?ls, level s (var (?out ! h)))"
    using Cons by (simp add: backtrack_level_def Let_def h_def)
  ultimately show ?thesis by blast
qed

lemma max_level_bounds:
  "m \<le> max_level s ls m \<and> (\<forall>q\<in>set ls. level s (var q) \<le> max_level s ls m) \<and>
   (max_level s ls m = m \<or> (\<exists>q\<in>set ls. max_level s ls m = level s (var q)))"
proof (induction ls arbitrary: m)
  case (Cons q ls)
  show ?case
    using Cons.IH[of "if level s (var q) > m then level s (var q) else m"] by (auto split: if_splits)
qed simp

lemma false_on_trail: "assign_wf s \<Longrightarrow> in_range s q \<Longrightarrow> value_lit s q = LFalse \<Longrightarrow> neg_lit q \<in> set (sv_trail s)"
  using trail_value(2) by blast

lemma analyze_spec:
  assumes at: "search_at s n" and cf: "conflicting s confl" and lev: "0 < decisionLevel s"
  shows "\<exists>ls bt. analyze mode confl (replicate (nVars s) False) s = Some (ls, bt, replicate (nVars s) False, s) \<and> learnt_ok s ls bt"
proof -
  have s: "assign_wf s" "level_wf s" "reason_ok s" "decisions_ok s" "db_wf s"
    using at by (simp_all add: search_at_def solver_wf_def core_wf_def)
  let ?ls = "clause_lits s confl" and ?seen = "replicate (nVars s) False" and ?k = "length (sv_trail s)"
  have rng: "in_range s q" if "q \<in> set ?ls" for q
    using s(5) cf that by (auto simp: conflicting_def db_wf_def clause_ok_def)
  have fls: "neg_lit q \<in> set (sv_trail s)" if q: "q \<in> set ?ls" for q
    using false_on_trail[OF s(1) rng[OF q]] cf q by (simp add: conflicting_def)
  have le: "level s (var q) \<le> decisionLevel s" if q: "q \<in> set ?ls" for q
  proof -
    obtain i where "i < ?k" "sv_trail s ! i = neg_lit q" using fls[OF q] unfolding in_set_conv_nth by blast
    then show ?thesis using level_le_decision[OF s(2), of i] by simp
  qed
  obtain q0 where q0: "q0 \<in> set ?ls" "level s (var q0) = decisionLevel s" using cf by (auto simp: conflicting_def)
  have "max_level s ?ls 0 = decisionLevel s"
    using max_level_bounds[of 0 s ?ls] q0 le lev by (metis le_antisym less_or_eq_imp_le not_gr_zero)
  then have keep: "cancelUntil (max_level s ?ls 0) s = s" by (simp add: cancelUntil_def)
  have lim: "sv_trail_lim s \<noteq> []" using lev by (auto simp: decisionLevel_def)
  then have stop: "last (sv_trail_lim s) = level_start s" by (simp add: level_start_def)
  let ?a = "\<lparr>an_seen = ?seen, an_out = [lit_Undef], an_path = 0\<rparr>"
  have unseen: "\<not> seen_at ?seen l" if "l \<in> set (sv_trail s)" for l
    using nat_var_less[OF trail_in_range[OF s(1) that]] by simp
  then have pe: "pending s ?seen ?k = {}" by (auto simp: pending_def)
  then have wf: "ana_wf s ?a ?k" using unseen by (auto simp: ana_wf_def)
  have "entails s ({} \<union> set ?ls)" using entails_clause cf by (simp add: conflicting_def)
  from entails_above_root[OF s(2) this fls] have ent: "entails s (resolvent s ?a ?k \<union> {q \<in> set ?ls. 0 < level s (var q)})"
    by (simp add: resolvent_def pe)
  have tk: "\<forall>q\<in>set ?ls. neg_lit q \<in> set (take ?k (sv_trail s))" using fls by simp
  have start: "?ls = drop (if lit_Undef = lit_Undef then 0 else 1) ?ls" by simp
  obtain p b j where p: "analyze_loop s (level_start s) (Some confl) lit_Undef ?k ?a = Some (p, b)"
    "p \<in> set (sv_trail s)" "level s (var p) = decisionLevel s" "ana_wf s b j" "pending s (an_seen b) j = {}"
    "\<not> seen_at (an_seen b) p" "entails s (insert (neg_lit p) (set (tl (an_out b))))"
    using analyze_loop_spec[OF s(1-4) lev wf start tk ent] q0 by blast
  note w = p(4)[unfolded ana_wf_def p(5)]
  let ?x = "neg_lit p" and ?r = "tl (an_out b)"
  have out: "(an_out b)[0 := ?x] = ?x # ?r" using w by (cases "an_out b") auto
  have only: "\<forall>v<nVars s. an_seen b ! v \<longrightarrow> v \<in> (\<lambda>l. nat (var l)) ` set ?r"
  proof (intro allI impI)
    fix v assume v: "v < nVars s" "an_seen b ! v"
    then obtain l where l: "l \<in> set (sv_trail s)" "int v = var l" using w by blast
    then have "seen_at (an_seen b) l" using v(2) by (simp flip: l(2))
    then have "neg_lit l \<in> set ?r" using w l(1) by blast
    then show "v \<in> (\<lambda>l. nat (var l)) ` set ?r" using l(2) by (intro image_eqI[of _ _ "neg_lit l"]) (simp_all flip: l(2))
  qed
  obtain ks c clr where m: "minimize s mode (?x # ?r) (an_seen b) = Some (?x # ks, c, clr)" "covers s c clr"
    "set ks \<subseteq> set ?r" "distinct (map var ks)" "entails s (insert ?x (set ks))"
    using minimize_spec[OF s(1-3) _ only, of ?x mode] w p(7) by blast
  obtain ls bt where bt: "backtrack_level s (?x # ks) = (ls, bt)" "learnt_ok s ls bt"
    using backtrack_level_spec[of ?x s ks] p(2,3) lev m(3-5) w by auto
  have "analyze mode confl ?seen s = Some (ls, bt, clear_seen clr c, s)"
    using lim by (simp add: analyze_def keep stop p(1) out m(1) bt(1))
  then show ?thesis using bt(2) covers_clear[OF m(2)] by simp
qed

end
