(* ===== verification/Search_Ops.thy ===== *)
theory Search_Ops
  imports Conflict_Spec
begin

text \<open>
  Learning and the other operations that change the clause database keep the invariant of the search: a clause is
  attached to the watch lists of its first two literals, and a learnt clause is asserted at the level
  its analysis computed.
\<close>

subsection \<open>Attaching a clause\<close>

text \<open>\<open>t\<close> is \<open>s\<close> with one more clause \<open>ls\<close>, stored at the end of the arena and watched.\<close>

definition attached :: "solver \<Rightarrow> lit list \<Rightarrow> solver \<Rightarrow> bool" where
  "attached s ls t \<longleftrightarrow> solver_wf t \<and> sv_trail t = sv_trail s \<and> sv_trail_lim t = sv_trail_lim s \<and> sv_qhead t = sv_qhead s \<and>
     value_lit t = value_lit s \<and> level t = level s \<and> reason t = reason s \<and> nVars t = nVars s \<and> sv_ok t = sv_ok s \<and>
     sv_free_vars t = sv_free_vars s \<and> sv_const_true t = sv_const_true s \<and>
     set (db t) = insert (length (sv_ca s)) (set (db s)) \<and>
     (\<forall>cr<length (sv_ca s). clause_lits t cr = clause_lits s cr) \<and> clause_lits t (length (sv_ca s)) = ls \<and>
     occ_at (sv_watches t) = (\<lambda>i. occ_at (sv_watches s) i @
       (if i = lit_index (neg_lit (ls ! 0)) then [\<lparr>w_cref = length (sv_ca s), w_blocker = ls ! 1\<rparr>]
        else if i = lit_index (neg_lit (ls ! 1)) then [\<lparr>w_cref = length (sv_ca s), w_blocker = ls ! 0\<rparr>] else []))"

lemma attached_in_range: "attached s ls t \<Longrightarrow> in_range t = in_range s"
  by (simp add: attached_def in_range_def fun_eq_iff)

lemma reason_push_stored [simp]: "reason (stored rs d s) = reason s"
  by (simp add: reason_def stored_def fun_eq_iff)

lemma first_two:
  assumes "clause_ok s ls"
  shows "in_range s (ls ! 0)" "in_range s (ls ! 1)" "lit_index (neg_lit (ls ! 0)) \<noteq> lit_index (neg_lit (ls ! 1))"
    "0 < length ls" "1 < length ls"
proof -
  show l: "0 < length ls" "1 < length ls" using assms unfolding clause_ok_def by linarith+
  show r: "in_range s (ls ! 0)" "in_range s (ls ! 1)" using clause_ok_nth[OF assms] by simp_all
  have "ls ! 0 \<noteq> ls ! 1" using assms l nth_eq_iff_index_eq[of ls 0 1] by (simp add: clause_ok_def)
  then show "lit_index (neg_lit (ls ! 0)) \<noteq> lit_index (neg_lit (ls ! 1))"
    using lit_index_eq[of s "neg_lit (ls ! 0)" "neg_lit (ls ! 1)"] r by simp
qed

lemma attached_stored:
  assumes wf: "solver_wf s" and ok: "clause_ok s ls" and used: "\<forall>l\<in>set ls. var l \<in> used_vars s"
  shows "attached s ls (attachClause (length (sv_ca s)) (stored ls d s))"
proof -
  let ?u = "stored ls d s" and ?cr = "length (sv_ca s)"
  let ?v = "push_watch (neg_lit (ls ! 0)) \<lparr>w_cref = ?cr, w_blocker = ls ! 1\<rparr> ?u"
  let ?t = "push_watch (neg_lit (ls ! 1)) \<lparr>w_cref = ?cr, w_blocker = ls ! 0\<rparr> ?v"
  have t: "attachClause ?cr ?u = ?t" by (simp add: attachClause_def Let_def)
  note r = first_two[OF ok]
  have ul: "occ_len ?u" using solver_wf_parts(6)[OF stored_wf[OF wf ok used]] .
  then have vl: "occ_len ?v" by (simp add: occ_len_def) (simp add: push_watch_def occ_wf_update)
  have "occ_at (sv_watches ?v) = (occ_at (sv_watches s))(lit_index (neg_lit (ls ! 0)) :=
      occ_at (sv_watches s) (lit_index (neg_lit (ls ! 0))) @ [\<lparr>w_cref = ?cr, w_blocker = ls ! 1\<rparr>])"
    using occ_at_push[OF ul, of "neg_lit (ls ! 0)"] r by simp
  moreover have "occ_at (sv_watches ?t) = (occ_at (sv_watches ?v))(lit_index (neg_lit (ls ! 1)) :=
      occ_at (sv_watches ?v) (lit_index (neg_lit (ls ! 1))) @ [\<lparr>w_cref = ?cr, w_blocker = ls ! 0\<rparr>])"
    using occ_at_push[OF vl, of "neg_lit (ls ! 1)"] r by simp
  ultimately have occ: "occ_at (sv_watches ?t) = (\<lambda>i. occ_at (sv_watches s) i @
      (if i = lit_index (neg_lit (ls ! 0)) then [\<lparr>w_cref = ?cr, w_blocker = ls ! 1\<rparr>]
       else if i = lit_index (neg_lit (ls ! 1)) then [\<lparr>w_cref = ?cr, w_blocker = ls ! 0\<rparr>] else []))"
    using r(3) by (auto simp: fun_eq_iff)
  show ?thesis unfolding attached_def t occ using attach_stored_wf(1)[OF wf ok used, of d] by (simp add: t)
qed

text \<open>A learnt clause is stored like a problem clause, apart from its flags and the list it is entered into.\<close>

lemma solver_wf_same:
  assumes wf: "solver_wf s" and d: "set (B @ C) = set (db s)" and len: "length A = length (sv_ca s)"
    and A: "\<And>cr. cr < length A \<Longrightarrow> c_lits (A ! cr) = clause_lits s cr \<and> c_mark (A ! cr) = c_mark (sv_ca s ! cr)"
  shows "solver_wf (s\<lparr>sv_ca := A, sv_clauses := B, sv_learnts := C\<rparr>)"
proof -
  let ?t = "s\<lparr>sv_ca := A, sv_clauses := B, sv_learnts := C\<rparr>"
  note p = solver_wf_parts[OF wf]
  have simps: "nVars ?t = nVars s" "in_range ?t = in_range s" "value_lit ?t = value_lit s" "value_var ?t = value_var s"
    "level ?t = level s" "root_trail ?t = root_trail s"
    by (simp_all add: nVars_def in_range_def value_lit_def value_var_def level_def root_trail_def fun_eq_iff cong: list.case_cong)
  have db: "set (db ?t) = set (db s)" using d by (simp add: db_def)
  have lits: "clause_lits ?t cr = clause_lits s cr \<and> c_mark (sv_ca ?t ! cr) = c_mark (sv_ca s ! cr)" if "cr \<in> set (db s)" for cr
    using A[of cr] p(3) that len by (simp add: db_wf_def)
  have "db_wf ?t" using p(3) lits len by (simp add: db_wf_def db clause_ok_def simps)
  moreover have "free_wf ?t" using p(4) lits by (simp add: free_wf_def db simps)
  moreover have "watch_ok ?t (occ_at (sv_watches ?t))"
    using p(8) lits unfolding watch_ok_def simps db by auto
  ultimately show ?thesis using p unfolding solver_wf_def core_wf_def
    by (simp add: assign_wf_def level_wf_def const_wf_def occ_len_def simps)
qed

lemma attached_learnt:
  assumes wf: "solver_wf s" and ok: "clause_ok s ls" and used: "\<forall>l\<in>set ls. var l \<in> used_vars s"
    and t: "t = attachClause (length (sv_ca s)) (s\<lparr>sv_ca := sv_ca s @ [new_clause ls True True],
      sv_learnts := sv_learnts s @ [length (sv_ca s)]\<rparr>)"
  shows "attached s ls t"
proof -
  let ?u = "attachClause (length (sv_ca s)) (stored ls False s)"
  let ?A = "sv_ca s @ [new_clause ls True True]" and ?C = "sv_learnts s @ [length (sv_ca s)]"
  have u: "attached s ls ?u" by (rule attached_stored[OF wf ok used])
  have eq: "t = ?u\<lparr>sv_ca := ?A, sv_clauses := sv_clauses s, sv_learnts := ?C\<rparr>"
    by (simp add: t attachClause_def push_watch_def stored_def new_clause_def Let_def)
  have du: "set (db ?u) = insert (length (sv_ca s)) (set (db s))" using u by (simp add: attached_def)
  have ca: "sv_ca ?u = sv_ca s @ [(new_clause ls (sv_extra_clause_field s) False)\<lparr>c_derived := False\<rparr>]"
    by (simp add: attachClause_def stored_def Let_def)
  have "solver_wf t" unfolding eq
    by (rule solver_wf_same)
      (use u du in \<open>auto simp: attached_def ca db_def nth_append new_clause_def\<close>)
  moreover have "nVars t = nVars ?u" "value_lit t = value_lit ?u" "level t = level ?u" "reason t = reason ?u"
    "sv_trail t = sv_trail ?u" "sv_trail_lim t = sv_trail_lim ?u" "sv_qhead t = sv_qhead ?u" "sv_ok t = sv_ok ?u"
    "sv_free_vars t = sv_free_vars ?u" "sv_const_true t = sv_const_true ?u" "sv_watches t = sv_watches ?u"
    by (simp_all add: eq nVars_def value_lit_def value_var_def level_def reason_def fun_eq_iff)
  moreover have "set (db t) = insert (length (sv_ca s)) (set (db s))" by (auto simp: eq db_def)
  moreover have "clause_lits t cr = clause_lits s cr" if "cr < length (sv_ca s)" for cr
    using that by (simp add: eq nth_append)
  moreover have "clause_lits t (length (sv_ca s)) = ls" by (simp add: eq nth_append new_clause_def)
  ultimately show ?thesis using u unfolding attached_def by simp
qed

lemma attached_invs:
  assumes a: "attached s ls t" and wf: "solver_wf s" and ok: "clause_ok s ls"
    and s: "reason_ok s" "decisions_ok s" "watch_full s (occ_at (sv_watches s))"
  shows "reason_ok t" "decisions_ok t" "watch_full t (occ_at (sv_watches t))"
proof -
  note f = a[unfolded attached_def] and p = solver_wf_parts[OF wf] and r = first_two[OF ok]
  have lt: "cr < length (sv_ca s)" if "cr \<in> set (db s)" for cr using p(3) that by (simp add: db_wf_def)
  have lits: "clause_lits t cr = clause_lits s cr" if "cr \<in> set (db s)" for cr using f lt[OF that] by blast
  have new: "clause_lits t (length (sv_ca s)) = ls" using f by blast
  have db: "set (db t) = insert (length (sv_ca s)) (set (db s))" using f by blast
  show "decisions_ok t" using f s(2) by (simp add: decisions_ok_def)
  show "reason_ok t"
    unfolding reason_ok_def
  proof (intro allI impI)
    fix i cr assume i: "i < length (sv_trail t)" and rr: "reason t (var (sv_trail t ! i)) = Some cr"
    then have o: "cr \<in> set (db s)" "clause_lits s cr ! 0 = sv_trail s ! i"
      "\<forall>q\<in>set (drop 1 (clause_lits s cr)). neg_lit q \<in> set (take i (sv_trail s))"
      using s(1) f unfolding reason_ok_def by auto
    then show "cr \<in> set (db t) \<and> clause_lits t cr ! 0 = sv_trail t ! i \<and>
        (\<forall>q\<in>set (drop 1 (clause_lits t cr)). neg_lit q \<in> set (take i (sv_trail t)))"
      using db f lits[OF o(1)] by simp
  qed
  have occ: "occ_at (sv_watches t) = (\<lambda>i. occ_at (sv_watches s) i @
      (if i = lit_index (neg_lit (ls ! 0)) then [\<lparr>w_cref = length (sv_ca s), w_blocker = ls ! 1\<rparr>]
       else if i = lit_index (neg_lit (ls ! 1)) then [\<lparr>w_cref = length (sv_ca s), w_blocker = ls ! 0\<rparr>] else []))"
    using f by blast
  show "watch_full t (occ_at (sv_watches t))"
    unfolding watch_full_def
  proof (intro conjI ballI allI impI)
    fix cr i assume cr: "cr \<in> set (db t)" and i: "i < (2 :: nat)"
    show "cr \<in> w_cref ` set (occ_at (sv_watches t) (lit_index (neg_lit (clause_lits t cr ! i))))"
    proof (cases "cr \<in> set (db s)")
      case True
      then have "cr \<in> w_cref ` set (occ_at (sv_watches s) (lit_index (neg_lit (clause_lits s cr ! i))))"
        using s(3) i by (simp add: watch_full_def)
      then show ?thesis unfolding lits[OF True] occ by auto
    next
      case False
      then have "cr = length (sv_ca s)" using cr db by blast
      moreover have "i = 0 \<or> i = 1" using i by auto
      ultimately show ?thesis using r(3) unfolding occ by (auto simp: new)
    qed
  next
    fix q w assume q: "in_range t q" and w: "w \<in> set (occ_at (sv_watches t) (lit_index q))"
    have qs: "in_range s q" using q attached_in_range[OF a] by simp
    have m: "ls ! 0 \<in> set ls" "ls ! 1 \<in> set ls" using r by simp_all
    consider "w \<in> set (occ_at (sv_watches s) (lit_index q))" | "w_cref w = length (sv_ca s)" "w_blocker w \<in> set ls"
      using w m unfolding occ by (auto split: if_splits)
    then show "w_blocker w \<in> set (clause_lits t (w_cref w))"
    proof cases
      case 1
      then have "w_blocker w \<in> set (clause_lits s (w_cref w))" using s(3) qs by (simp add: watch_full_def)
      then show ?thesis using lits watch_okD(1)[OF p(8) qs 1] by simp
    next
      case 2
      then show ?thesis by (simp add: new)
    qed
  qed
qed

text \<open>The watchers of propagated literals stay quiet, except the new ones if the clause's watched literals are false.\<close>

lemma attached_processed:
  assumes a: "attached s ls t" and wf: "solver_wf s" and ok: "clause_ok s ls"
    and s: "processed s (occ_at (sv_watches s)) n" "n \<le> length (sv_trail s)"
    and i: "i < n" "w \<in> set (occ_at (sv_watches t) (lit_index (sv_trail t ! i)))"
  shows "quiet t w (level t (var (sv_trail t ! i))) \<or> sv_trail s ! i = neg_lit (ls ! 0) \<or>
    (sv_trail s ! i = neg_lit (ls ! 1) \<and> w_blocker w = ls ! 0)"
proof -
  note f = a[unfolded attached_def] and p = solver_wf_parts[OF wf] and r = first_two[OF ok]
  have rng: "in_range s (sv_trail s ! i)" using trail_range[OF p(1)] i(1) s(2) by simp
  have tr: "sv_trail t = sv_trail s" and occ: "occ_at (sv_watches t) = (\<lambda>i. occ_at (sv_watches s) i @
      (if i = lit_index (neg_lit (ls ! 0)) then [\<lparr>w_cref = length (sv_ca s), w_blocker = ls ! 1\<rparr>]
       else if i = lit_index (neg_lit (ls ! 1)) then [\<lparr>w_cref = length (sv_ca s), w_blocker = ls ! 0\<rparr>] else []))"
    using f by blast+
  consider "w \<in> set (occ_at (sv_watches s) (lit_index (sv_trail s ! i)))"
    | "lit_index (sv_trail s ! i) = lit_index (neg_lit (ls ! 0))"
    | "lit_index (sv_trail s ! i) = lit_index (neg_lit (ls ! 1))" "w_blocker w = ls ! 0"
    using i(2) unfolding occ tr by (auto split: if_splits)
  then show ?thesis
  proof cases
    case 1
    then have "quiet s w (level s (var (sv_trail s ! i)))" using s(1) i(1) by (simp add: processed_def)
    then show ?thesis using f by (simp add: quiet_def)
  next
    case 2
    then show ?thesis using lit_index_eq[OF rng, of "neg_lit (ls ! 0)"] r(1) by simp
  next
    case 3
    then show ?thesis using lit_index_eq[OF rng, of "neg_lit (ls ! 1)"] r(2) by simp
  qed
qed

lemma attached_base:
  assumes a: "attached s ls t" and wf: "solver_wf s"
  shows "base_sat t \<sigma> \<longleftrightarrow> base_sat s \<sigma> \<and> clause_sat \<sigma> ls" "used_vars t = used_vars s" "root_trail t = root_trail s"
proof -
  note f = a[unfolded attached_def]
  show rt: "root_trail t = root_trail s" using f by (simp add: root_trail_def cong: list.case_cong)
  show "used_vars t = used_vars s" using f by (simp add: used_vars_def)
  have lt: "cr < length (sv_ca s)" if "cr \<in> set (db s)" for cr
    using solver_wf_parts(3)[OF wf] that by (simp add: db_wf_def)
  show "base_sat t \<sigma> \<longleftrightarrow> base_sat s \<sigma> \<and> clause_sat \<sigma> ls"
    using f lt by (auto simp: base_sat_def rt)
qed

subsection \<open>Learning a clause\<close>

lemma base_sat_enqueue:
  assumes "level_wf s"
  shows "base_sat (uncheckedEnqueue p r s) \<sigma> \<longleftrightarrow> base_sat s \<sigma> \<and> (sv_trail_lim s = [] \<longrightarrow> lit_val \<sigma> p)"
  using root_trail_enqueue[OF assms] by (auto simp: base_sat_def root_trail_def)

text \<open>A clause that can be learnt in \<open>s\<close>: its first literal is unassigned, the others are false, the second one on the current level.\<close>

definition learnable :: "solver \<Rightarrow> lit list \<Rightarrow> bool" where
  "learnable s ls \<longleftrightarrow> ls \<noteq> [] \<and> distinct (map var ls) \<and> (\<forall>l\<in>set ls. var l \<in> used_vars s) \<and>
     value_lit s (ls ! 0) = LUndef \<and> (\<forall>q\<in>set (drop 1 ls). neg_lit q \<in> set (sv_trail s)) \<and>
     (1 < length ls \<longrightarrow> level s (var (ls ! 1)) = decisionLevel s) \<and> (length ls = 1 \<longrightarrow> decisionLevel s = 0) \<and> entails s (set ls)"

lemma learnable_clause_ok:
  assumes "learnable s ls" "1 < length ls"
  shows "clause_ok s ls"
proof -
  have d: "distinct (map var ls)" using assms(1) by (simp add: learnable_def)
  have "\<not> tautology ls"
  proof
    assume "tautology ls"
    then obtain l where "l \<in> set ls" "neg_lit l \<in> set ls" by (auto simp: tautology_def)
    moreover have "inj_on var (set ls)" using d by (simp add: distinct_map)
    ultimately have "l = neg_lit l" by (metis inj_onD var_neg)
    then show False by (metis neg_neq)
  qed
  moreover have "\<forall>l\<in>set ls. in_range s l" using assms(1) used_vars_range by (auto simp: learnable_def)
  ultimately show ?thesis using d assms(2) by (simp add: clause_ok_def distinct_map)
qed

lemma learn_spec:
  assumes r: "search_ready s" and l: "learnable s ls"
  shows "\<exists>t. learn ls s = Some t \<and> search_ready t \<and> (\<forall>\<sigma>. base_sat t \<sigma> = base_sat s \<sigma>) \<and> sv_ok t = sv_ok s \<and>
    used_vars t = used_vars s \<and> sv_trail_lim t = sv_trail_lim s \<and> nVars t = nVars s \<and> sv_const_true t = sv_const_true s \<and>
    set (root_trail s) \<subseteq> set (root_trail t) \<and> sv_trail t = sv_trail s @ [ls ! 0] \<and> sv_qhead t = sv_qhead s \<and>
    (\<forall>cr\<in>set (db s). cr \<in> set (db t) \<and> clause_lits t cr = clause_lits s cr) \<and>
    (if length ls = 1 then ls ! 0 \<in> set (root_trail t) else \<exists>cr\<in>set (db t). clause_lits t cr = ls)"
proof -
  let ?p = "ls ! 0"
  have at: "search_at s (sv_qhead s)" "solver_wf s" "level_start s \<le> sv_qhead s"
    using r by (simp_all add: search_ready_def search_at_def)
  note w = solver_wf_parts[OF at(2)]
  have p: "var ?p \<in> used_vars s" "value_lit s ?p = LUndef" using l by (auto simp: learnable_def)
  have rp: "in_range s ?p" by (rule used_vars_range[OF p(1)])
  consider "length ls = 1" | "1 < length ls" using l by (cases ls) (auto simp: learnable_def)
  then show ?thesis
  proof cases
    case 1
    then have l0: "sv_trail_lim s = []" using l by (auto simp: learnable_def decisionLevel_def)
    have st: "search_ready (uncheckedEnqueue ?p None s)" by (rule enqueue_search[OF r p]) (simp_all add: l0)
    have "lit_val \<sigma> ?p" if "base_sat s \<sigma>" for \<sigma>
      using l that 1 by (cases ls) (auto simp: learnable_def entails_def)
    then have "base_sat (uncheckedEnqueue ?p None s) \<sigma> = base_sat s \<sigma>" for \<sigma>
      using base_sat_enqueue[OF w(2)] by blast
    then show ?thesis using 1 p(2) st l0 by (auto simp: learn_def root_trail_def used_vars_def)
  next
    case 2
    let ?cr = "length (sv_ca s)"
    let ?t = "attachClause ?cr (s\<lparr>sv_ca := sv_ca s @ [new_clause ls True True], sv_learnts := sv_learnts s @ [?cr]\<rparr>)"
    note ok = learnable_clause_ok[OF l 2]
    have used: "\<forall>l\<in>set ls. var l \<in> used_vars s" using l by (simp add: learnable_def)
    have a: "attached s ls ?t" by (rule attached_learnt[OF at(2) ok used refl])
    note f = a[unfolded attached_def] and b = attached_base[OF a at(2)]
    note inv = attached_invs[OF a at(2) ok] 
    have wt: "solver_wf ?t" using f by blast
    note wtp = solver_wf_parts[OF wt]
    let ?u = "uncheckedEnqueue ?p (Some ?cr) ?t"
    have pt: "value_lit ?t ?p = LUndef" "in_range ?t ?p" using f p(2) rp attached_in_range[OF a] by simp_all
    have inv: "reason_ok ?t" "decisions_ok ?t" "watch_full ?t (occ_at (sv_watches ?t))"
      using inv at(1) unfolding search_at_def by blast+
    have ro: "reason_ok ?u"
      by (rule reason_ok_enqueue[OF wtp(1) pt(2,1) inv(1)])
        (use f l in \<open>auto simp: learnable_def\<close>)
    have dk: "decisions_ok ?u" by (rule decisions_ok_enqueue[OF wtp(1) pt(2,1) inv(2)]) simp
    have fr: "var ?p \<notin> set (sv_free_vars ?t)" using p(1) f by (simp add: used_vars_def)
    have wu: "solver_wf ?u" using core_wf_enqueue[OF wtp(7) pt(2,1) fr] wtp(8) by (simp add: solver_wf_def)
    have new: "var ?p \<notin> var ` set (sv_trail s)" using trail_value(3)[OF w(1) rp] p(2) by simp
    have "processed ?u (occ_at (sv_watches ?u)) (sv_qhead s)"
      unfolding processed_def
    proof (intro allI impI ballI)
      fix i x assume i: "i < sv_qhead s" and x: "x \<in> set (occ_at (sv_watches ?u) (lit_index (sv_trail ?u ! i)))"
      have j: "i < length (sv_trail s)" using i at(1) by (simp add: search_at_def)
      have ti: "sv_trail ?u ! i = sv_trail s ! i" "sv_trail ?t ! i = sv_trail s ! i" using f j by (simp_all add: nth_append)
      have rt: "in_range ?t (sv_trail ?t ! i)" using trail_range[OF wtp(1)] j f by simp
      have lev: "level ?u (var (sv_trail s ! i)) = level s (var (sv_trail s ! i))"
        using enqueue_more(2)[OF wtp(1) pt(2,1) rt] f j ti by (simp add: ti)
      have xt: "x \<in> set (occ_at (sv_watches ?t) (lit_index (sv_trail ?t ! i)))" using x ti by simp
      have pr: "processed s (occ_at (sv_watches s)) (sv_qhead s)" "sv_qhead s \<le> length (sv_trail s)"
        using at(1) by (simp_all add: search_at_def)
      from attached_processed[OF a at(2) ok pr i xt]
      consider "quiet ?t x (level ?t (var (sv_trail ?t ! i)))" | "sv_trail s ! i = neg_lit ?p"
        | "sv_trail s ! i = neg_lit (ls ! 1)" "w_blocker x = ?p" by blast
      then show "quiet ?u x (level ?u (var (sv_trail ?u ! i)))"
      proof cases
        case 1
        have "in_range ?t (w_blocker x)" by (rule watch_okD(2)[OF wtp(8) rt xt])
        from quiet_enqueue[OF wtp(1) pt(2,1) this 1] show ?thesis using f lev ti by simp
      next
        case 2
        then have "var ?p \<in> var ` set (sv_trail s)" using j by (metis image_eqI nth_mem var_neg)
        then show ?thesis using new by simp
      next
        case 3
        have "level s (var (sv_trail s ! i)) = decisionLevel s" using 3(1) l 2 by (simp add: learnable_def)
        moreover have "value_lit ?u ?p = LTrue" using value_enqueue[OF _ pt(2,2)] wtp(1) by (simp add: assign_wf_def)
        moreover have "level ?u (var ?p) = decisionLevel s"
          using enqueue_more(5)[OF wtp(1) pt(2,1,2)] f by (simp add: decisionLevel_def)
        ultimately show ?thesis using lev ti 3(2) by (simp add: quiet_def)
      qed
    qed
    moreover have "watch_full ?u (occ_at (sv_watches ?u))" using inv(3) by simp
    moreover have "level_start ?u = level_start s" using f by (simp add: level_start_def)
    then have "level_start ?u \<le> sv_qhead s" using at(3) by argo
    moreover have "sv_qhead ?u = sv_qhead s" "sv_qhead s \<le> length (sv_trail ?u)"
      using at(1) f by (simp_all add: search_at_def)
    ultimately have "search_ready ?u" using wu ro dk unfolding search_ready_def search_at_def by metis
    moreover have "clause_sat \<sigma> ls" if "base_sat s \<sigma>" for \<sigma>
      using l that by (auto simp: learnable_def entails_def clause_sat_def)
    moreover have "lit_val \<sigma> ?p" if h: "base_sat s \<sigma>" "clause_sat \<sigma> ls" "sv_trail_lim s = []" for \<sigma>
    proof -
      obtain q where q: "q \<in> set ls" "lit_val \<sigma> q" using h(2) by (auto simp: clause_sat_def)
      have "q \<notin> set (drop 1 ls)"
      proof
        assume "q \<in> set (drop 1 ls)"
        then have "neg_lit q \<in> set (root_trail s)" using l h(3) by (simp add: learnable_def root_trail_def)
        then have "lit_val \<sigma> (neg_lit q)" using h(1) unfolding base_sat_def by blast
        then show False using q(2) by simp
      qed
      then show ?thesis using q by (cases ls) auto
    qed
    ultimately have "search_ready ?u" "base_sat ?u \<sigma> = base_sat s \<sigma>" for \<sigma>
      using base_sat_enqueue[OF wtp(2)] b(1) f by auto
    moreover have "learn ls s = Some ?u" using 2 pt(1) by (simp add: learn_def alloc_learnt_def Let_def)
    moreover have "set (root_trail s) \<subseteq> set (root_trail ?u)"
      using root_trail_enqueue[OF wtp(2)] b(3) f by (auto simp: root_trail_def)
    moreover have "\<forall>cr\<in>set (db s). cr \<in> set (db ?u) \<and> clause_lits ?u cr = clause_lits s cr"
      using f w(3) by (simp add: db_wf_def)
    moreover have "?cr \<in> set (db ?u)" "clause_lits ?u ?cr = ls" using f by simp_all
    then have "\<exists>cr\<in>set (db ?u). clause_lits ?u cr = ls" by blast
    ultimately show ?thesis using f b(2) 2 by (simp add: used_vars_def)
  qed
qed

subsection \<open>Resolving a conflict\<close>

lemma cancelUntil_more:
  assumes "level_wf s" "lev < decisionLevel s"
  shows "level (cancelUntil lev s) = level s" "reason (cancelUntil lev s) = reason s" "db (cancelUntil lev s) = db s"
    "sv_trail (cancelUntil lev s) = take (sv_trail_lim s ! lev) (sv_trail s)"
    "sv_trail_lim (cancelUntil lev s) = take lev (sv_trail_lim s)"
    "in_range (cancelUntil lev s) = in_range s"
  by (simp_all add: cancelUntil_fields[OF assms] level_def reason_def in_range_def nVars_def fun_eq_iff)

lemma cancelUntil_mem:
  assumes wf: "level_wf s" "lev < decisionLevel s" and l: "l \<in> set (sv_trail s)"
  shows "l \<in> set (sv_trail (cancelUntil lev s)) \<longleftrightarrow> level s (var l) \<le> lev"
proof -
  let ?m = "sv_trail_lim s ! lev"
  obtain i where i: "i < length (sv_trail s)" "sv_trail s ! i = l" using l unfolding in_set_conv_nth by blast
  show ?thesis
  proof
    assume "l \<in> set (sv_trail (cancelUntil lev s))"
    then obtain j where "j < ?m" "j < length (sv_trail s)" "sv_trail s ! j = l"
      unfolding cancelUntil_more(4)[OF wf] by (auto simp: in_set_conv_nth)
    then show "level s (var l) \<le> lev" using level_below[OF wf] by blast
  next
    assume "level s (var l) \<le> lev"
    then have "i < ?m" using level_above[OF wf i(1)] i(2) by (metis not_le)
    then show "l \<in> set (sv_trail (cancelUntil lev s))"
      using i unfolding cancelUntil_more(4)[OF wf] by (auto simp: in_set_conv_nth)
  qed
qed

lemma base_sat_cong:
  "db t = db s \<Longrightarrow> sv_ca t = sv_ca s \<Longrightarrow> root_trail t = root_trail s \<Longrightarrow> base_sat t \<sigma> = base_sat s \<sigma>"
  by (simp add: base_sat_def)

lemma learnt_learnable:
  assumes wf: "solver_wf s" and ok: "learnt_ok s ls bt"
  shows "learnable (cancelUntil bt s) ls"
proof -
  let ?c = "cancelUntil bt s"
  note p = solver_wf_parts[OF wf] and k = ok[unfolded learnt_ok_def]
  have bt: "bt < decisionLevel s" using k by blast
  note m = cancelUntil_more[OF p(2) bt] and c = cancelUntil_wf[OF wf, of bt]
  have wc: "assign_wf ?c" using c solver_wf_parts(1) by blast
  have ne: "ls \<noteq> []" using k by blast
  then have l0: "ls ! 0 \<in> set ls" by simp
  have used: "var l \<in> used_vars ?c" if "l \<in> set ls" for l
    using stored_used(1)[OF wf, of "neg_lit l"] k that c by simp
  have "neg_lit (ls ! 0) \<notin> set (sv_trail ?c)"
    using cancelUntil_mem[OF p(2) bt, of "neg_lit (ls ! 0)"] k l0 bt by simp
  moreover have "ls ! 0 \<notin> set (sv_trail ?c)"
  proof
    assume "ls ! 0 \<in> set (sv_trail ?c)"
    then have "ls ! 0 \<in> set (sv_trail s)" unfolding m(4) by (rule in_set_takeD)
    moreover have "neg_lit (ls ! 0) \<in> set (sv_trail s)" using k l0 by blast
    ultimately show False using trail_value(1,2)[OF p(1) trail_in_range[OF p(1)]] by force
  qed
  ultimately have und: "value_lit ?c (ls ! 0) = LUndef"
    using trail_value[OF wc used_vars_range[OF used[OF l0]]] by (cases "value_lit ?c (ls ! 0)") auto
  have tl: "set (drop 1 ls) = set (tl ls)" by (simp add: drop_Suc)
  have sub: "q \<in> set ls" if "q \<in> set (tl ls)" for q using that ne by (cases ls) auto
  have rest: "neg_lit q \<in> set (sv_trail ?c)" if q: "q \<in> set (tl ls)" for q
    using cancelUntil_mem[OF p(2) bt, of "neg_lit q"] k sub[OF q] q by simp
  have dl: "decisionLevel ?c = bt" using c bt by simp
  have "decisionLevel ?c = 0" if "length ls = 1" using dl k that by argo
  moreover have "1 < length ls \<longrightarrow> level ?c (var (ls ! 1)) = decisionLevel ?c" using k dl m(1) by argo
  moreover have "base_sat ?c \<sigma> = base_sat s \<sigma>" for \<sigma>
    by (rule base_sat_cong) (use c m(3) in simp_all)
  ultimately show ?thesis using k und rest used
    unfolding learnable_def entails_def tl by blast
qed

text \<open>The clause learnt is new: a stored one would have been propagated at the level to go back to.\<close>

lemma learnt_new:
  assumes at: "search_at s (level_start s)" and ok: "learnt_ok s ls bt" and cr: "cr \<in> set (db s)"
  shows "set (clause_lits s cr) \<noteq> set ls"
proof
  assume eq: "set (clause_lits s cr) = set ls"
  have wf: "solver_wf s" using at by (simp add: search_at_def)
  note p = solver_wf_parts[OF wf] and k = ok[unfolded learnt_ok_def]
  have co: "clause_ok s (clause_lits s cr)" using p(3) cr by (simp add: db_wf_def)
  have len: "0 < length (clause_lits s cr)" "1 < length (clause_lits s cr)" using first_two[OF co] by blast+
  have "clause_lits s cr ! 0 \<noteq> clause_lits s cr ! 1" using first_two(3)[OF co] by auto
  then obtain i where i: "i < 2" "clause_lits s cr ! i \<noteq> ls ! 0"
    by (metis one_less_numeral_iff semiring_norm(76) zero_less_numeral)
  let ?x = "clause_lits s cr ! i"
  have "i = 0 \<or> i = 1" using i(1) by auto
  then have x: "?x \<in> set ls" using len nth_mem eq by metis
  have ls: "ls = ls ! 0 # tl ls" using k by (cases ls) auto
  have "?x \<in> set (ls ! 0 # tl ls)" using x ls by argo
  then have "?x \<in> set (tl ls)" using i(2) by simp
  then have lev: "level s (var ?x) < decisionLevel s" using k by fastforce
  have nt: "neg_lit ?x \<in> set (sv_trail s)" using k x by blast
  obtain j where j: "j < length (sv_trail s)" "sv_trail s ! j = neg_lit ?x" using nt unfolding in_set_conv_nth by blast
  then have "j < level_start s" using current_level_iff[OF p(2) j(1)] lev by (metis nat_neq_iff not_le var_neg)
  moreover have full: "watch_full s (occ_at (sv_watches s))" and pr: "processed s (occ_at (sv_watches s)) (level_start s)"
    using at by (simp_all add: search_at_def)
  obtain w where w: "w \<in> set (occ_at (sv_watches s) (lit_index (neg_lit ?x)))" "w_cref w = cr"
    using full[unfolded watch_full_def, THEN conjunct1, rule_format, OF cr i(1)] by blast
  ultimately have "quiet s w (level s (var (sv_trail s ! j)))" using pr w(1) j(2) unfolding processed_def by force
  then have T: "value_lit s (w_blocker w) = LTrue" by (simp add: quiet_def)
  have "in_range s (neg_lit ?x)" by (rule trail_in_range[OF p(1) nt])
  then have "w_blocker w \<in> set ls" using full w eq unfolding watch_full_def by blast
  then have n: "neg_lit (w_blocker w) \<in> set (sv_trail s)" using k by blast
  then have "in_range s (w_blocker w)" using trail_in_range[OF p(1) n] by simp
  then show False using trail_value(2)[OF p(1)] n T by force
qed

text \<open>The clause sets that can still be learnt: over variables in use, not stored, without a literal true at level 0.\<close>

definition open_sets :: "solver \<Rightarrow> lit set set" where
  "open_sets s = {C. C \<subseteq> {l. var l \<in> used_vars s} \<and> (\<forall>cr\<in>set (db s). set (clause_lits s cr) \<noteq> C) \<and>
     C \<inter> set (root_trail s) = {}}"

lemma finite_lits: "finite {l. var l \<in> used_vars s}"
proof -
  have "{l. var l \<in> used_vars s} \<subseteq> (\<lambda>(v, b). mkLit v b) ` (used_vars s \<times> UNIV)"
  proof
    fix l assume "l \<in> {l. var l \<in> used_vars s}"
    moreover have "l = mkLit (var l) (sign_lit l)" by (rule mkLit_var_sign[symmetric])
    ultimately show "l \<in> (\<lambda>(v, b). mkLit v b) ` (used_vars s \<times> UNIV)" by (intro image_eqI[of _ _ "(var l, sign_lit l)"]) simp_all
  qed
  moreover have "finite (used_vars s)" by (rule finite_subset[of _ "{0..<int (nVars s)}"]) (auto simp: used_vars_def)
  then have "finite ((\<lambda>(v, b). mkLit v b) ` (used_vars s \<times> UNIV))" by simp
  ultimately show ?thesis by (metis finite_subset)
qed

lemma finite_open: "finite (open_sets s)"
  by (rule finite_subset[of _ "Pow {l. var l \<in> used_vars s}"]) (auto simp: open_sets_def finite_lits)

lemma open_sets_mono:
  assumes "used_vars t = used_vars s" "set (root_trail s) \<subseteq> set (root_trail t)"
    "\<And>cr. cr \<in> set (db s) \<Longrightarrow> cr \<in> set (db t) \<and> set (clause_lits t cr) = set (clause_lits s cr)"
  shows "open_sets t \<subseteq> open_sets s"
proof
  fix C assume "C \<in> open_sets t"
  then have C: "C \<subseteq> {l. var l \<in> used_vars t}" "\<forall>cr\<in>set (db t). set (clause_lits t cr) \<noteq> C" "C \<inter> set (root_trail t) = {}"
    by (simp_all add: open_sets_def)
  have "set (clause_lits s cr) \<noteq> C" if "cr \<in> set (db s)" for cr using C(2) assms(3)[OF that] by metis
  then show "C \<in> open_sets s" using C assms(1,2) by (auto simp: open_sets_def)
qed

lemma card_open_mono: "open_sets t \<subseteq> open_sets s \<Longrightarrow> card (open_sets t) \<le> card (open_sets s)"
  by (rule card_mono[OF finite_open])

text \<open>What handling a conflict above level 0 does: the analysis succeeds, the learnt clause follows from the
  database and is asserted at the level it computed.\<close>

definition resolved :: "solver \<Rightarrow> lit list \<Rightarrow> nat \<Rightarrow> solver \<Rightarrow> bool" where
  "resolved s ls bt t \<longleftrightarrow> search_ready t \<and> (\<forall>\<sigma>. base_sat t \<sigma> = base_sat s \<sigma>) \<and> sv_ok t = sv_ok s \<and>
     used_vars t = used_vars s \<and> nVars t = nVars s \<and> sv_const_true t = sv_const_true s \<and>
     set (root_trail s) \<subseteq> set (root_trail t) \<and> sv_trail_lim t = take bt (sv_trail_lim s) \<and>
     sv_trail t = take (sv_trail_lim s ! bt) (sv_trail s) @ [ls ! 0] \<and> card (open_sets t) < card (open_sets s)"

lemma resolve_conflict_spec:
  assumes at: "search_at s (level_start s)" and cf: "conflicting s confl" and lev: "0 < decisionLevel s"
  shows "\<exists>ls bt t. resolve_conflict mode confl (replicate (nVars s) False) s = Some (replicate (nVars s) False, t) \<and>
    learnt_ok s ls bt \<and> resolved s ls bt t"
proof -
  have wf: "solver_wf s" using at by (simp add: search_at_def)
  note p = solver_wf_parts[OF wf]
  obtain ls bt where a: "analyze mode confl (replicate (nVars s) False) s = Some (ls, bt, replicate (nVars s) False, s)"
    "learnt_ok s ls bt" using analyze_spec[OF at cf lev] by blast
  note k = a(2)[unfolded learnt_ok_def]
  have bt: "bt < decisionLevel s" using k by blast
  let ?c = "cancelUntil bt s"
  have rc: "search_ready ?c" by (rule cancelUntil_search[OF at order_refl bt])
  note c = cancelUntil_wf[OF wf, of bt] and m = cancelUntil_more[OF p(2) bt]
  obtain t where t: "learn ls ?c = Some t" "search_ready t" "\<forall>\<sigma>. base_sat t \<sigma> = base_sat ?c \<sigma>" "sv_ok t = sv_ok ?c"
    "used_vars t = used_vars ?c" "sv_trail_lim t = sv_trail_lim ?c" "nVars t = nVars ?c" "sv_const_true t = sv_const_true ?c"
    "set (root_trail ?c) \<subseteq> set (root_trail t)" "sv_trail t = sv_trail ?c @ [ls ! 0]"
    "\<forall>cr\<in>set (db ?c). cr \<in> set (db t) \<and> clause_lits t cr = clause_lits ?c cr"
    "if length ls = 1 then ls ! 0 \<in> set (root_trail t) else \<exists>cr\<in>set (db t). clause_lits t cr = ls"
    using learn_spec[OF rc learnt_learnable[OF wf a(2)]] by blast
  have base: "base_sat ?c \<sigma> = base_sat s \<sigma>" for \<sigma>
    by (rule base_sat_cong) (use c m(3) in simp_all)
  have sub: "open_sets t \<subseteq> open_sets s"
    by (rule open_sets_mono) (use t c m(3) in auto)
  have ls: "set ls \<in> open_sets s"
    unfolding open_sets_def
  proof (intro CollectI conjI ballI)
    show "set ls \<subseteq> {l. var l \<in> used_vars s}"
      using stored_used(1)[OF wf] k by (metis mem_Collect_eq subsetI var_neg)
    show "set (clause_lits s cr) \<noteq> set ls" if "cr \<in> set (db s)" for cr by (rule learnt_new[OF at a(2) that])
    have "l \<notin> set (root_trail s)" if l: "l \<in> set ls" for l
    proof
      assume "l \<in> set (root_trail s)"
      then have "l \<in> set (sv_trail s)" using root_trail_subset by blast
      moreover have "neg_lit l \<in> set (sv_trail s)" using k l by blast
      ultimately show False using trail_value(1,2)[OF p(1) trail_in_range[OF p(1)]] by force
    qed
    then show "set ls \<inter> set (root_trail s) = {}" by blast
  qed
  have "set ls \<notin> open_sets t"
  proof (cases "length ls = 1")
    case True
    then have "ls ! 0 \<in> set ls \<inter> set (root_trail t)" using t(12) by (simp add: nth_mem)
    then show ?thesis by (auto simp: open_sets_def)
  next
    case False
    then show ?thesis using t(12) by (auto simp: open_sets_def)
  qed
  then have "card (open_sets t) < card (open_sets s)" using sub ls psubset_card_mono[OF finite_open] by blast
  then have "resolved s ls bt t" using t c m base unfolding resolved_def by simp
  moreover have "resolve_conflict mode confl (replicate (nVars s) False) s = Some (replicate (nVars s) False, t)"
    using a(1) t(1) by (simp add: resolve_conflict_def)
  ultimately show ?thesis using a(2) by blast
qed

end
