(* ===== verification/Final_Spec.thy ===== *)
theory Final_Spec
  imports Conflict_Spec
begin

text \<open>
  What \<open>analyzeFinal\<close> promises: for a literal of the trail, a clause that follows from the database and consists
  of the literal itself and negated decisions.
\<close>

definition decision :: "solver \<Rightarrow> lit \<Rightarrow> bool" where
  "decision s l \<longleftrightarrow> l \<in> set (sv_trail s) \<and> 0 < level s (var l) \<and> reason s (var l) = None"

definition marked :: "solver \<Rightarrow> bool list \<Rightarrow> nat \<Rightarrow> lit set" where
  "marked s seen k = {l \<in> set (take k (sv_trail s)). seen_at seen l \<and> 0 < level s (var l)}"

text \<open>The invariant of the scan: the result so far and the negations of what is still marked follow from the database.\<close>

definition final_inv :: "solver \<Rightarrow> lit \<Rightarrow> nat \<Rightarrow> bool list \<Rightarrow> lit list \<Rightarrow> bool" where
  "final_inv s q k seen out \<longleftrightarrow> length seen = nVars s \<and> k \<le> length (sv_trail s) \<and>
     entails s (set out \<union> neg_lit ` marked s seen k) \<and>
     (\<forall>v<nVars s. seen ! v \<longrightarrow> (\<exists>l\<in>set (take k (sv_trail s)). nat (var l) = v \<and> (0 < level s (var l) \<or> l = q))) \<and>
     q \<in> set out \<and> (\<forall>x\<in>set out. x = q \<or> decision s (neg_lit x))"

lemma set_seen_nth:
  "v < length seen \<Longrightarrow> set_seen l b seen ! v = (if nat (var l) = v then b else seen ! v)"
  by (simp add: set_seen_def)

lemma length_set_seen [simp]: "length (set_seen l b seen) = length seen"
  by (simp add: set_seen_def)

lemma fold_marks:
  defines "f s \<equiv> \<lambda>q. if level s (var q) > 0 then set_seen q True else (\<lambda>x. x)"
  shows "length (fold (f s) qs seen) = length seen"
    "v < length seen \<Longrightarrow> fold (f s) qs seen ! v \<longleftrightarrow> seen ! v \<or> (\<exists>q\<in>set qs. 0 < level s (var q) \<and> nat (var q) = v)"
  by (induction qs arbitrary: seen) (auto simp: f_def set_seen_nth)

lemma take_trail_distinct:
  assumes "assign_wf s" "k < length (sv_trail s)" "l \<in> set (take k (sv_trail s))"
  shows "nat (var l) \<noteq> nat (var (sv_trail s ! k))"
proof -
  obtain i where i: "i < k" "sv_trail s ! i = l" using assms(2,3) by (auto simp: in_set_conv_nth)
  then have "var l \<noteq> var (sv_trail s ! k)" using trail_distinct[OF assms(1), of i k] assms(2) by auto
  then show ?thesis
    using nat_var_eq[of s l "sv_trail s ! k"] trail_range[OF assms(1)] i assms(2) by auto
qed

lemma marked_Suc:
  "k < length (sv_trail s) \<Longrightarrow> marked s seen (Suc k) =
    (if seen_at seen (sv_trail s ! k) \<and> 0 < level s (var (sv_trail s ! k)) then insert (sv_trail s ! k) (marked s seen k)
     else marked s seen k)"
  by (auto simp: marked_def take_Suc_conv_app_nth)

lemma marked_unset:
  assumes "assign_wf s" "k < length (sv_trail s)"
  shows "marked s (set_seen (sv_trail s ! k) False seen) k = marked s seen k"
proof -
  have "seen_at (set_seen (sv_trail s ! k) False seen) l = seen_at seen l" if "l \<in> set (take k (sv_trail s))" for l
    using take_trail_distinct[OF assms that] by (simp add: set_seen_def)
  then show ?thesis by (auto simp: marked_def)
qed

lemma final_skip:
  assumes "final_inv s q (Suc k) seen out" "k < length (sv_trail s)" "\<not> seen_at seen (sv_trail s ! k)"
  shows "final_inv s q k seen out"
  using assms unfolding final_inv_def marked_Suc[OF assms(2)]
  by (auto simp: take_Suc_conv_app_nth)

lemma final_decision:
  assumes wf: "assign_wf s" and inv: "final_inv s q (Suc k) seen out" and k: "k < length (sv_trail s)"
    and l: "seen_at seen (sv_trail s ! k)" "0 < level s (var (sv_trail s ! k))" "reason s (var (sv_trail s ! k)) = None"
  shows "final_inv s q k (set_seen (sv_trail s ! k) False seen) (out @ [neg_lit (sv_trail s ! k)])"
proof -
  let ?l = "sv_trail s ! k"
  note i = inv[unfolded final_inv_def marked_Suc[OF k]]
  have "set (out @ [neg_lit ?l]) \<union> neg_lit ` marked s seen k = set out \<union> neg_lit ` insert ?l (marked s seen k)" by auto
  then have "entails s (set (out @ [neg_lit ?l]) \<union> neg_lit ` marked s (set_seen ?l False seen) k)"
    using i l unfolding marked_unset[OF wf k] by simp
  moreover have "decision s ?l" using l k by (simp add: decision_def)
  moreover have "\<exists>m\<in>set (take k (sv_trail s)). nat (var m) = v \<and> (0 < level s (var m) \<or> m = q)"
    if v: "v < nVars s" "set_seen ?l False seen ! v" for v
  proof -
    have "seen ! v" "v \<noteq> nat (var ?l)" using v i by (auto simp: set_seen_nth split: if_splits)
    then show ?thesis using i v(1) k by (auto simp: take_Suc_conv_app_nth)
  qed
  ultimately show ?thesis using i k unfolding final_inv_def by auto
qed

lemma final_reason:
  assumes wf: "assign_wf s" "level_wf s" "reason_ok s" and inv: "final_inv s q (Suc k) seen out" and k: "k < length (sv_trail s)"
    and l: "seen_at seen (sv_trail s ! k)" "0 < level s (var (sv_trail s ! k))" "reason s (var (sv_trail s ! k)) = Some cr"
  defines "seen' \<equiv> set_seen (sv_trail s ! k) False
    (fold (\<lambda>q. if level s (var q) > 0 then set_seen q True else (\<lambda>x. x)) (drop 1 (clause_lits s cr)) seen)"
  shows "final_inv s q k seen' out"
proof -
  let ?l = "sv_trail s ! k" and ?D = "set (drop 1 (clause_lits s cr))"
  note i = inv[unfolded final_inv_def marked_Suc[OF k]]
  have cr: "cr \<in> set (db s)" "clause_lits s cr ! 0 = ?l" "\<And>q. q \<in> ?D \<Longrightarrow> neg_lit q \<in> set (take k (sv_trail s))"
    using wf(3) k l(3) by (auto simp: reason_ok_def)
  have tr: "neg_lit q \<in> set (sv_trail s)" if "q \<in> ?D" for q using cr(3)[OF that] by (rule in_set_takeD)
  have at: "seen' ! v \<longleftrightarrow> v \<noteq> nat (var ?l) \<and> (seen ! v \<or> (\<exists>q\<in>?D. 0 < level s (var q) \<and> nat (var q) = v))"
    if "v < nVars s" for v
  proof -
    have "v < length seen" using that i by simp
    then show ?thesis unfolding seen'_def by (auto simp: set_seen_nth fold_marks)
  qed
  have mk: "m \<in> marked s seen' k \<longleftrightarrow> m \<in> marked s seen k \<or> (neg_lit m \<in> ?D \<and> 0 < level s (var m))"
    if m: "m \<in> set (take k (sv_trail s))" for m
  proof -
    have mt: "m \<in> set (sv_trail s)" using m by (rule in_set_takeD)
    have r: "nat (var m) < nVars s" by (rule nat_var_less[OF trail_in_range[OF wf(1) mt]])
    have "(\<exists>q\<in>?D. 0 < level s (var q) \<and> nat (var q) = nat (var m)) \<longleftrightarrow> neg_lit m \<in> ?D \<and> 0 < level s (var m)"
    proof
      assume "\<exists>q\<in>?D. 0 < level s (var q) \<and> nat (var q) = nat (var m)"
      then obtain q where q: "q \<in> ?D" "0 < level s (var q)" "nat (var q) = nat (var m)" by blast
      have "var (neg_lit q) = var m"
        using q(3) nat_var_eq[OF trail_in_range[OF wf(1) tr[OF q(1)]] trail_in_range[OF wf(1) mt]] by simp
      then have "neg_lit q = m" by (rule same_trail_var[OF wf(1) tr[OF q(1)] mt])
      then show "neg_lit m \<in> ?D \<and> 0 < level s (var m)" using q by auto
    qed (metis var_neg)
    then show ?thesis using at[OF r] take_trail_distinct[OF wf(1) k m] m by (auto simp: marked_def)
  qed
  have "entails s (insert (neg_lit ?l) (set out \<union> neg_lit ` marked s seen k))" using i l by simp
  from entails_resolve[OF this cr(1,2), of ?D]
  have "entails s (set out \<union> neg_lit ` marked s seen k \<union> ?D)" by simp
  from entails_above_root[OF wf(2) this tr]
  have e: "entails s (set out \<union> neg_lit ` marked s seen k \<union> {q \<in> ?D. 0 < level s (var q)})" by blast
  have "x \<in> neg_lit ` marked s seen' k" if x: "x \<in> neg_lit ` marked s seen k \<union> {q \<in> ?D. 0 < level s (var q)}" for x
  proof -
    have "neg_lit x \<in> set (take k (sv_trail s))" using x cr(3) by (auto simp: marked_def)
    moreover have "neg_lit x \<in> marked s seen k \<or> (neg_lit (neg_lit x) \<in> ?D \<and> 0 < level s (var (neg_lit x)))" using x by auto
    ultimately have "neg_lit x \<in> marked s seen' k" using mk by blast
    then show ?thesis by (metis image_eqI neg_neg)
  qed
  then have ent: "entails s (set out \<union> neg_lit ` marked s seen' k)" by (intro entails_mono[OF e]) blast
  have "\<exists>m\<in>set (take k (sv_trail s)). nat (var m) = v \<and> (0 < level s (var m) \<or> m = q)"
    if v: "v < nVars s" "seen' ! v" for v
  proof -
    consider "seen ! v" "v \<noteq> nat (var ?l)" | q where "q \<in> ?D" "0 < level s (var q)" "nat (var q) = v" using at[OF v(1)] v(2) by blast
    then show ?thesis
    proof cases
      case 1
      then show ?thesis using i v(1) k by (auto simp: take_Suc_conv_app_nth)
    next
      case 2
      then show ?thesis using cr(3) by (metis var_neg)
    qed
  qed
  moreover have "length seen' = nVars s" using i by (simp add: seen'_def fold_marks)
  ultimately show ?thesis using i ent k unfolding final_inv_def by simp
qed

lemma final_scan_spec:
  assumes wf: "assign_wf s" "level_wf s" "reason_ok s"
    and lev: "\<And>i. m \<le> i \<Longrightarrow> i < length (sv_trail s) \<Longrightarrow> 0 < level s (var (sv_trail s ! i))"
  shows "m \<le> k \<Longrightarrow> final_inv s q k seen out \<Longrightarrow>
    \<exists>seen' out'. final_scan s (rev (drop m (take k (sv_trail s)))) seen out = Some (seen', out') \<and> final_inv s q m seen' out'"
proof (induction k arbitrary: seen out)
  case (Suc k)
  let ?l = "sv_trail s ! k"
  show ?case
  proof (cases "m = Suc k")
    case True
    then show ?thesis using Suc.prems(2) by (auto simp: drop_all)
  next
    case False
    then have mk: "m \<le> k" and k: "k < length (sv_trail s)" using Suc.prems by (simp_all add: final_inv_def)
    have split: "rev (drop m (take (Suc k) (sv_trail s))) = ?l # rev (drop m (take k (sv_trail s)))"
      using mk k by (simp add: take_Suc_conv_app_nth)
    have l: "0 < level s (var ?l)" by (rule lev[OF mk k])
    show ?thesis
    proof (cases "seen_at seen ?l")
      case unseen: False
      show ?thesis using Suc.IH[OF mk final_skip[OF Suc.prems(2) k unseen]] unseen unfolding split by simp
    next
      case seen: True
      show ?thesis
      proof (cases "reason s (var ?l)")
        case None
        show ?thesis using Suc.IH[OF mk final_decision[OF wf(1) Suc.prems(2) k seen l None]] seen None l
          unfolding split by simp
      next
        case (Some cr)
        then have "clause_lits s cr ! 0 = ?l" using wf(3) k by (simp add: reason_ok_def)
        then show ?thesis using Suc.IH[OF mk final_reason[OF wf Suc.prems(2) k seen l Some]] seen Some
          unfolding split by simp
      qed
    qed
  qed
qed simp

lemma analyzeFinal_spec:
  assumes at: "search_at s n" and q: "q \<in> set (sv_trail s)"
  shows "\<exists>out. analyzeFinal q (replicate (nVars s) False) s = Some (out, replicate (nVars s) False) \<and>
    q \<in> set out \<and> (\<forall>x\<in>set out. x = q \<or> decision s (neg_lit x)) \<and> entails s (set out)"
proof -
  have s: "assign_wf s" "level_wf s" "reason_ok s" using at by (simp_all add: search_at_def solver_wf_def core_wf_def)
  let ?seen = "replicate (nVars s) False" and ?k = "length (sv_trail s)"
  have rq: "nat (var q) < nVars s" by (rule nat_var_less[OF trail_in_range[OF s(1) q]])
  show ?thesis
  proof (cases "sv_trail_lim s")
    case Nil
    have "entails s {q}" using q Nil by (simp add: entails_def base_sat_def root_trail_def)
    then show ?thesis using Nil by (simp add: analyzeFinal_def decisionLevel_def)
  next
    case (Cons m ms)
    have dl: "0 < decisionLevel s" "sv_trail_lim s ! 0 = m" using Cons by (simp_all add: decisionLevel_def)
    have mk: "m \<le> ?k" using s(2) Cons by (simp add: level_wf_def)
    have lev: "0 < level s (var (sv_trail s ! i))" if "m \<le> i" "i < ?k" for i
      using level_above[OF s(2) dl(1) that(2)] dl(2) that(1) by simp
    let ?a = "set_seen q True ?seen"
    have at: "?a ! v \<longleftrightarrow> v = nat (var q)" if "v < nVars s" for v using that by (auto simp: set_seen_nth)
    have start: "final_inv s q ?k ?a [q]"
      unfolding final_inv_def
    proof (intro conjI)
      show "entails s (set [q] \<union> neg_lit ` marked s ?a ?k)"
      proof (cases "level s (var q) = 0")
        case True
        then have "q \<in> set (root_trail s)" by (rule root_level[OF s(2) q])
        then show ?thesis by (auto simp: entails_def base_sat_def)
      next
        case False
        then have "q \<in> marked s ?a ?k" using q at[OF rq] by (simp add: marked_def)
        then show ?thesis by (auto simp: entails_def)
      qed
      show "\<forall>v<nVars s. ?a ! v \<longrightarrow> (\<exists>l\<in>set (take ?k (sv_trail s)). nat (var l) = v \<and> (0 < level s (var l) \<or> l = q))"
        using at q by auto
    qed simp_all
    obtain seen out where f: "final_scan s (rev (drop m (take ?k (sv_trail s)))) ?a [q] = Some (seen, out)"
      "final_inv s q m seen out"
      using final_scan_spec[OF s lev mk start] by blast
    note i = f(2)[unfolded final_inv_def]
    have low: "level s (var l) = 0" if l: "l \<in> set (take m (sv_trail s))" for l
    proof -
      obtain j where j: "j < m" "j < ?k" "sv_trail s ! j = l" using l by (auto simp: in_set_conv_nth)
      then show ?thesis using level_below[OF s(2) dl(1), of j] dl(2) by simp
    qed
    then have "marked s seen m = {}" by (auto simp: marked_def)
    then have ent: "entails s (set out)" using i by simp
    have "set_seen q False seen = ?seen"
    proof (rule nth_equalityI)
      show "length (set_seen q False seen) = length ?seen" using i by simp
      fix v assume "v < length (set_seen q False seen)"
      then have v: "v < length seen" "v < nVars s" using i by simp_all
      have "v = nat (var q)" if "seen ! v" using i v(2) that low by auto
      then show "set_seen q False seen ! v = ?seen ! v" using v by (auto simp: set_seen_nth)
    qed
    then show ?thesis using f(1) i ent dl by (simp add: analyzeFinal_def)
  qed
qed

end
