(* ===== verification/Deletion_Spec.thy ===== *)
theory Deletion_Spec
  imports Simplify Search_Ops
begin

text \<open>
  Lazy deletion: a state whose watch lists still hold watchers of deleted clauses behaves as the state with clean lists, on
  which the invariants are stated; and what the removal of clauses does to that state.
\<close>

subsection \<open>Clean watch lists\<close>

definition live_lists :: "solver \<Rightarrow> watcher occlists" where
  "live_lists s = occ_cleanAll (watcher_deleted s) (sv_watches s)"

definition cleaned :: "solver \<Rightarrow> solver" where
  "cleaned s = s\<lparr>sv_watches := live_lists s\<rparr>"

text \<open>What lazy deletion needs: every list with a deleted watcher is marked, and watchers refer into the arena.\<close>

definition lazy_ok :: "solver \<Rightarrow> bool" where
  "lazy_ok s \<longleftrightarrow> occ_wf (sv_watches s) \<and> occ_covered (watcher_deleted s) (sv_watches s) \<and>
     (\<forall>i < length (occs (sv_watches s)). \<forall>w \<in> set (occs (sv_watches s) ! i). w_cref w < length (sv_ca s))"

lemma cleanAll_eq:
  assumes "occ_wf ol" "occ_covered D ol"
  shows "occ_cleanAll D ol = \<lparr>occs = map (filter (\<lambda>e. \<not> D e)) (occs ol), dirty = replicate (length (occs ol)) False, dirties = []\<rparr>"
proof -
  have len: "length (dirty ol) = length (occs ol)" "set (dirties ol) \<subseteq> {..<length (occs ol)}"
    using assms(1) by (simp_all add: occ_wf_def)
  note c = clean_each_spec[OF len, of D]
  have id: "filter (\<lambda>e. \<not> D e) (occs ol ! j) = occs ol ! j" if "j < length (occs ol)" "\<not> dirty ol ! j" for j
    using assms(2) that by (auto simp: occ_covered_def filter_id_conv)
  have q: "dirty ol ! j \<Longrightarrow> j \<in> set (dirties ol)" if "j < length (occs ol)" for j
    using assms(1) that by (simp add: occ_wf_def)
  have "occs (occ_cleanAll D ol) = map (filter (\<lambda>e. \<not> D e)) (occs ol)"
    by (rule nth_equalityI) (use c q id in \<open>auto simp: occ_cleanAll_def\<close>)
  moreover have "dirty (occ_cleanAll D ol) = replicate (length (occs ol)) False"
    by (rule nth_equalityI) (use c q in \<open>auto simp: occ_cleanAll_def\<close>)
  moreover have "dirties (occ_cleanAll D ol) = []" by (simp add: occ_cleanAll_def)
  ultimately show ?thesis by (intro occlists.equality) simp_all
qed

lemma live_lists_eq:
  assumes "lazy_ok s"
  shows "live_lists s = \<lparr>occs = map (filter (\<lambda>w. \<not> watcher_deleted s w)) (occs (sv_watches s)),
    dirty = replicate (length (occs (sv_watches s))) False, dirties = []\<rparr>"
  unfolding live_lists_def by (rule cleanAll_eq) (use assms in \<open>simp_all add: lazy_ok_def\<close>)

lemma cleaned_simps [simp]:
  "nVars (cleaned s) = nVars s" "in_range (cleaned s) = in_range s" "sv_trail (cleaned s) = sv_trail s"
  "sv_trail_lim (cleaned s) = sv_trail_lim s" "sv_qhead (cleaned s) = sv_qhead s" "sv_ca (cleaned s) = sv_ca s"
  "sv_clauses (cleaned s) = sv_clauses s" "sv_learnts (cleaned s) = sv_learnts s" "db (cleaned s) = db s"
  "sv_ok (cleaned s) = sv_ok s" "sv_free_vars (cleaned s) = sv_free_vars s" "sv_const_true (cleaned s) = sv_const_true s"
  "sv_to_reenqueue (cleaned s) = sv_to_reenqueue s" "value_lit (cleaned s) = value_lit s" "value_var (cleaned s) = value_var s"
  "level (cleaned s) = level s" "reason (cleaned s) = reason s" "decisionLevel (cleaned s) = decisionLevel s"
  "used_vars (cleaned s) = used_vars s" "models (cleaned s) = models s" "sv_watches (cleaned s) = live_lists s"
  "sv_vardata (cleaned s) = sv_vardata s" "sv_assigns (cleaned s) = sv_assigns s" "base_sat (cleaned s) = base_sat s"
  "watcher_deleted (cleaned s) = watcher_deleted s" "root_trail (cleaned s) = root_trail s" "level_start (cleaned s) = level_start s"
  "open_sets (cleaned s) = open_sets s" "const_asserted (cleaned s) = const_asserted s"
proof -
  show r: "root_trail (cleaned s) = root_trail s" by (simp add: cleaned_def root_trail_def cong: list.case_cong)
  show u: "used_vars (cleaned s) = used_vars s" by (simp add: cleaned_def used_vars_def nVars_def)
  have d: "db (cleaned s) = db s" by (simp add: cleaned_def)
  then show "base_sat (cleaned s) = base_sat s" using r by (simp add: base_sat_def cleaned_def fun_eq_iff)
  show "models (cleaned s) = models s" "open_sets (cleaned s) = open_sets s" "const_asserted (cleaned s) = const_asserted s"
    using r u d by (simp_all add: models_def open_sets_def const_asserted_def) (simp_all add: cleaned_def)
qed (simp_all add: cleaned_def nVars_def in_range_def value_lit_def value_var_def level_def reason_def decisionLevel_def
    watcher_deleted_def level_start_def fun_eq_iff)

lemma cleaned_lazy: "lazy_ok s \<Longrightarrow> lazy_ok (cleaned s)"
proof -
  assume l: "lazy_ok s"
  note e = live_lists_eq[OF l]
  show ?thesis using l unfolding lazy_ok_def cleaned_simps e by (auto simp: occ_wf_def occ_covered_def)
qed

lemma cleaned_twice [simp]: "lazy_ok s \<Longrightarrow> cleaned (cleaned s) = cleaned s"
proof -
  assume l: "lazy_ok s"
  have "live_lists (cleaned s) = live_lists s"
    using live_lists_eq[OF cleaned_lazy[OF l]] live_lists_eq[OF l] by (simp add: comp_def)
  then show ?thesis by (simp add: cleaned_def)
qed

text \<open>Nothing is deleted in a well-formed state.\<close>

lemma wf_lazy:
  assumes "solver_wf s"
  shows "lazy_ok s" "occs (live_lists s) = occs (sv_watches s)"
proof -
  have w: "occ_wf (sv_watches s)" using assms by (simp add: solver_wf_def core_wf_def occ_len_def)
  note nd = watchers_not_deleted[OF assms]
  have len: "length (occs (sv_watches s)) = 2 * nVars s" using assms by (simp add: solver_wf_def core_wf_def occ_len_def)
  have "w_cref w < length (sv_ca s)" if i: "i < length (occs (sv_watches s))" "w \<in> set (occs (sv_watches s) ! i)" for i w
  proof -
    let ?q = "Lit (int i)"
    have q: "in_range s ?q" "lit_index ?q = i"
      using i len by (auto simp: in_range_def var_div lit_index_def toInt_lit_def)
    have "w_cref w \<in> set (db s)"
      using assms i q watch_okD(1)[of s "occ_at (sv_watches s)" ?q w] by (simp add: solver_wf_def occ_at_def)
    then show ?thesis using assms by (simp add: solver_wf_def core_wf_def db_wf_def)
  qed
  then show l: "lazy_ok s" using w nd by (auto simp: lazy_ok_def occ_covered_def)
  show "occs (live_lists s) = occs (sv_watches s)"
    unfolding live_lists_def by (rule cleanAll_nothing(1)[OF w]) (use nd in blast)
qed

lemma same_occs:
  assumes "occs ol = occs (sv_watches s)" "occ_wf ol" "solver_wf s"
  shows "solver_wf (s\<lparr>sv_watches := ol\<rparr>)" "search_at s n \<Longrightarrow> search_at (s\<lparr>sv_watches := ol\<rparr>) n"
    "search_ready s \<Longrightarrow> search_ready (s\<lparr>sv_watches := ol\<rparr>)"
proof -
  let ?t = "s\<lparr>sv_watches := ol\<rparr>"
  have o: "occ_at ol = occ_at (sv_watches s)" using assms(1) by (simp add: occ_at_def fun_eq_iff)
  show w: "solver_wf ?t"
    using assms core_wf_watches[of s ol] by (simp add: solver_wf_def watch_ok_def o in_range_def nVars_def)
  show a: "search_at ?t n" if "search_at s n" for n
    using that w by (simp add: search_at_def o processed_watches watch_full_watches)
  then show "search_ready ?t" if "search_ready s" using that by (simp add: search_ready_def)
qed

lemma wf_cleaned:
  assumes "solver_wf s"
  shows "solver_wf (cleaned s)" "search_at s n \<Longrightarrow> search_at (cleaned s) n" "search_ready s \<Longrightarrow> search_ready (cleaned s)"
proof -
  have "occ_wf (live_lists s)" using live_lists_eq[OF wf_lazy(1)[OF assms]] by (auto simp: occ_wf_def)
  note o = same_occs[OF wf_lazy(2)[OF assms] this assms, folded cleaned_def]
  show "solver_wf (cleaned s)" "search_at s n \<Longrightarrow> search_at (cleaned s) n" "search_ready s \<Longrightarrow> search_ready (cleaned s)"
    using o by blast+
qed

lemma propagate_cleaned:
  assumes "lazy_ok s"
  shows "propagate s = (if sv_qhead s = length (sv_trail s) then Some (None, s) else propagate (cleaned s))"
proof -
  have "live_lists (cleaned s) = occ_cleanAll (watcher_deleted s) (live_lists s)" by (simp add: live_lists_def[of "cleaned s"])
  then have "cleaned s\<lparr>sv_watches := occ_cleanAll (watcher_deleted s) (live_lists s)\<rparr> = cleaned s"
    using cleaned_twice[OF assms] by (simp add: cleaned_def[of "cleaned s"])
  moreover have "s\<lparr>sv_watches := live_lists s\<rparr> = cleaned s" by (simp add: cleaned_def)
  ultimately show ?thesis by (simp add: propagate_def live_lists_def[symmetric] del: prop_fuel.simps)
qed

subsection \<open>Removing one clause\<close>

text \<open>\<open>t\<close> is \<open>s\<close> after the clauses \<open>R\<close> have been removed, but for the lists that hold them.\<close>

definition deleted :: "nat set \<Rightarrow> solver \<Rightarrow> solver \<Rightarrow> bool" where
  "deleted R s t \<longleftrightarrow> R \<subseteq> set (db s) \<and> sv_assigns t = sv_assigns s \<and> sv_trail t = sv_trail s \<and> sv_trail_lim t = sv_trail_lim s \<and>
     sv_qhead t = sv_qhead s \<and> sv_ok t = sv_ok s \<and>
     sv_free_vars t = sv_free_vars s \<and> sv_to_reenqueue t = sv_to_reenqueue s \<and> sv_const_true t = sv_const_true s \<and>
     nVars t = nVars s \<and> level t = level s \<and> (\<forall>v. reason t v = reason s v \<or> reason t v = None \<and> reason s v \<in> Some ` R) \<and>
     (\<forall>i < length (sv_trail s). reason t (var (sv_trail s ! i)) \<notin> Some ` R) \<and> length (sv_ca t) = length (sv_ca s) \<and>
     (\<forall>cr < length (sv_ca s). clause_lits t cr = clause_lits s cr \<and> (c_mark (sv_ca t ! cr) = 1 \<longleftrightarrow> c_mark (sv_ca s ! cr) = 1 \<or> cr \<in> R)) \<and>
     occs (sv_watches t) = occs (sv_watches s) \<and> occ_wf (sv_watches t) \<and>
     (\<forall>i < length (occs (sv_watches s)). dirty (sv_watches s) ! i \<longrightarrow> dirty (sv_watches t) ! i) \<and>
     (\<forall>cr \<in> R. \<forall>k < 2. dirty (sv_watches t) ! lit_index (neg_lit (clause_lits s cr ! k)))"

lemma smudge_facts:
  assumes "occ_wf ol" "i < length (occs ol)"
  shows "occs (occ_smudge i ol) = occs ol" "occ_wf (occ_smudge i ol)"
    "j < length (occs ol) \<Longrightarrow> dirty (occ_smudge i ol) ! j \<longleftrightarrow> dirty ol ! j \<or> j = i"
  using assms occ_wf_smudge[OF assms] by (auto simp: occ_smudge_def occ_wf_def nth_list_update)

text \<open>The state of the deletions: the invariants hold for the clean lists.\<close>

definition lazy_wf :: "solver \<Rightarrow> bool" where
  "lazy_wf s \<longleftrightarrow> lazy_ok s \<and> solver_wf (cleaned s)"

lemma lazy_wf_parts:
  assumes "lazy_wf s"
  shows "assign_wf s" "level_wf s" "db_wf s" "length (occs (sv_watches s)) = 2 * nVars s" "occ_wf (sv_watches s)"
proof -
  have l: "lazy_ok s" and w: "solver_wf (cleaned s)" using assms by (simp_all add: lazy_wf_def)
  note p = solver_wf_parts[OF w]
  show "assign_wf s" "level_wf s" "db_wf s" using p by (simp_all add: assign_wf_def level_wf_def db_wf_def clause_ok_def)
  show "length (occs (sv_watches s)) = 2 * nVars s" "occ_wf (sv_watches s)"
    using p(6) l live_lists_eq[OF l] by (simp_all add: occ_len_def lazy_ok_def)
qed

lemma db_clause:
  assumes "lazy_wf s" "cr \<in> set (db s)"
  shows "cr < length (sv_ca s)" "clause_ok s (clause_lits s cr)" "c_mark (sv_ca s ! cr) \<noteq> 1"
    "k < 2 \<Longrightarrow> lit_index (neg_lit (clause_lits s cr ! k)) < length (occs (sv_watches s))"
    "k < 2 \<Longrightarrow> in_range s (clause_lits s cr ! k)"
proof -
  note p = lazy_wf_parts[OF assms(1)]
  show c: "cr < length (sv_ca s)" "clause_ok s (clause_lits s cr)" "c_mark (sv_ca s ! cr) \<noteq> 1"
    using p(3) assms(2) by (auto simp: db_wf_def)
  show "in_range s (clause_lits s cr ! k)" if "k < 2" using clause_ok_nth[OF c(2) that] .
  then show "lit_index (neg_lit (clause_lits s cr ! k)) < length (occs (sv_watches s))" if "k < 2"
    using that lit_index_less[of s "neg_lit (clause_lits s cr ! k)"] p(4) by simp
qed

lemma removeClause_ok:
  assumes wf: "lazy_wf s" "reason_ok s" and d: "deleted R s t" and cr: "cr \<in> set (db s)"
  shows "\<exists>u. removeClause cr t = Some u \<and> deleted (insert cr R) s u \<and> sv_clauses u = sv_clauses t \<and> sv_learnts u = sv_learnts t"
proof -
  note d' = d[unfolded deleted_def] and p = lazy_wf_parts[OF wf(1)] and c = db_clause[OF wf(1) cr]
  let ?l = "clause_lits s cr" let ?i = "lit_index (neg_lit (?l ! 0))" let ?j = "lit_index (neg_lit (?l ! 1))"
  have lt: "clause_lits t cr = ?l" "length ?l > 1" "cr < length (sv_ca t)" using d' c(1,2) by (auto simp: clause_ok_def)
  have ij: "?i < length (occs (sv_watches t))" "?j < length (occs (sv_watches t))" using d' c(4)[of 0] c(4)[of 1] by simp_all
  let ?w = "occ_smudge ?j (occ_smudge ?i (sv_watches t))"
  have wt: "occ_wf (sv_watches t)" using d' by blast
  note s1 = smudge_facts[OF wt ij(1)]
  have ij2: "?j < length (occs (occ_smudge ?i (sv_watches t)))" using ij(2) s1(1) by simp
  note s2 = smudge_facts[OF s1(2) ij2]
  let ?t = "t\<lparr>sv_watches := ?w\<rparr>" let ?v = "nat (var (?l ! 0))"
  have dt: "detachClause cr False t = Some ?t" using lt by (simp add: detachClause_def Let_def)
  have lk: "locked ?t cr = locked t cr" by (simp add: locked_def reason_def value_lit_def value_var_def split: option.split)
  let ?vd = "if locked t cr then (sv_vardata t)[?v := (sv_vardata t ! ?v)\<lparr>vd_reason := None\<rparr>] else sv_vardata t"
  let ?u = "t\<lparr>sv_watches := ?w, sv_vardata := ?vd, sv_ca := (sv_ca t)[cr := (sv_ca t ! cr)\<lparr>c_mark := 1\<rparr>]\<rparr>"
  have u: "removeClause cr t = Some ?u" using dt lk lt(1) by (simp add: removeClause_def Let_def)
  have rng: "in_range t (?l ! 0)" using c(5)[of 0] d' by (simp add: in_range_def)
  have v: "?v < length (sv_vardata t)" using nat_var_less[OF rng] by (simp add: nVars_def)
  have vd: "?vd ! n = (if locked t cr \<and> n = ?v then (sv_vardata t ! n)\<lparr>vd_reason := None\<rparr> else sv_vardata t ! n)" for n
    using v by (cases "n = ?v") simp_all
  have "level ?u x = level t x" for x using vd[of "nat x"] by (simp add: level_def)
  then have lev: "level ?u = level t" by (simp add: fun_eq_iff)
  have lks: "locked t cr \<longleftrightarrow> reason t (var (?l ! 0)) = Some cr \<and> value_lit s (?l ! 0) = LTrue"
    using d' lt(1) by (auto simp: locked_def value_lit_def value_var_def split: option.splits)
  have rsn: "reason ?u x = (if locked t cr \<and> nat x = ?v then None else reason t x)" for x
    using vd[of "nat x"] by (simp add: reason_def)
  have r1: "reason ?u x = reason s x \<or> reason ?u x = None \<and> reason s x \<in> Some ` insert cr R" for x
  proof (cases "locked t cr \<and> nat x = ?v")
    case True
    then have "reason t x = Some cr" using lks by (simp add: reason_def)
    then have "reason s x = Some cr" using d' by (metis option.distinct(1))
    then show ?thesis using rsn True by simp
  next
    case False
    then show ?thesis using rsn[of x] d' by auto
  qed
  have r2: "reason ?u (var (sv_trail s ! i)) \<notin> Some ` insert cr R" if i: "i < length (sv_trail s)" for i
  proof
    assume a: "reason ?u (var (sv_trail s ! i)) \<in> Some ` insert cr R"
    let ?x = "var (sv_trail s ! i)"
    have nl: "\<not> (locked t cr \<and> nat ?x = ?v)" using a rsn[of ?x] by auto
    then have "reason t ?x \<in> Some ` insert cr R" using a rsn[of ?x] by auto
    then have rt: "reason t ?x = Some cr" using d' i by auto
    then have "reason s ?x = Some cr" using d' by (metis option.distinct(1))
    then have e: "?l ! 0 = sv_trail s ! i" using wf(2) i by (simp add: reason_ok_def)
    moreover have "value_lit s (sv_trail s ! i) = LTrue" using p(1) i by (simp add: assign_wf_def)
    ultimately show False using nl lks rt by simp
  qed
  have m: "clause_lits ?u x = clause_lits s x \<and> (c_mark (sv_ca ?u ! x) = 1 \<longleftrightarrow> c_mark (sv_ca s ! x) = 1 \<or> x \<in> insert cr R)"
    if "x < length (sv_ca s)" for x
    using d' that lt(3) by (auto simp: nth_list_update)
  have o: "occs (sv_watches ?u) = occs (sv_watches s)" "occ_wf (sv_watches ?u)" using s1 s2 d' by simp_all
  have dy: "dirty (sv_watches ?u) ! i" if "i < length (occs (sv_watches s))" "dirty (sv_watches t) ! i \<or> i = ?i \<or> i = ?j" for i
    using that d' s1(1) s1(3)[of i] s2(3)[of i] by auto
  have dr: "dirty (sv_watches ?u) ! lit_index (neg_lit (clause_lits s x ! k))" if x: "x \<in> insert cr R" "k < 2" for x k
  proof -
    have "x \<in> set (db s)" using x d' cr by auto
    then have "lit_index (neg_lit (clause_lits s x ! k)) < length (occs (sv_watches s))" by (rule db_clause(4)[OF wf(1) _ x(2)])
    moreover have "k = 0 \<or> k = 1" using x(2) by auto
    ultimately show ?thesis using dy x d' by (cases "x = cr") auto
  qed
  have "dirty (sv_watches ?u) ! i" if "i < length (occs (sv_watches s))" "dirty (sv_watches s) ! i" for i
    using dy[OF that(1)] that d' by blast
  moreover have "length (sv_vardata ?u) = length (sv_vardata t)" by simp
  ultimately have "deleted (insert cr R) s ?u"
    unfolding deleted_def using d' lev r1 r2 m o dr cr by (simp add: nVars_def)
  moreover have "sv_clauses ?u = sv_clauses t \<and> sv_learnts ?u = sv_learnts t" by simp
  ultimately show ?thesis using u by blast
qed

lemma deleted_start: "lazy_wf s \<Longrightarrow> deleted {} s s"
  using lazy_wf_parts(5)[of s] by (simp add: deleted_def)

lemma deleted_lists [simp]:
  "deleted R s (t\<lparr>sv_learnts := ls\<rparr>) = deleted R s t" "deleted R s (t\<lparr>sv_clauses := cs\<rparr>) = deleted R s t"
  by (simp_all add: deleted_def nVars_def level_def reason_def fun_eq_iff)

subsection \<open>Removing clauses\<close>

text \<open>The database without the clauses \<open>R\<close>, none of them the reason of a literal above level 0.\<close>

definition without :: "nat set \<Rightarrow> solver \<Rightarrow> solver \<Rightarrow> bool" where
  "without R s t \<longleftrightarrow> deleted R s t \<and> set (db t) = set (db s) - R \<and>
     (\<forall>i < length (sv_trail s). reason s (var (sv_trail s ! i)) \<in> Some ` R \<longrightarrow> level s (var (sv_trail s ! i)) = 0)"

lemma without_fields:
  assumes "without R s t"
  shows "value_lit t = value_lit s" "value_var t = value_var s" "in_range t = in_range s" "nVars t = nVars s" "level t = level s"
    "sv_trail t = sv_trail s" "sv_trail_lim t = sv_trail_lim s" "sv_qhead t = sv_qhead s" "sv_ok t = sv_ok s"
    "used_vars t = used_vars s" "root_trail t = root_trail s" "sv_const_true t = sv_const_true s" "level_start t = level_start s"
    "sv_free_vars t = sv_free_vars s" "decisionLevel t = decisionLevel s" "sv_assigns t = sv_assigns s"
    "sv_to_reenqueue t = sv_to_reenqueue s"
  using assms
  by (auto simp: without_def deleted_def value_lit_def value_var_def in_range_def used_vars_def root_trail_def level_start_def
      decisionLevel_def fun_eq_iff cong: list.case_cong)

lemma without_live:
  assumes w: "without R s t" and l: "lazy_wf s"
  shows "lazy_ok t" "i < length (occs (sv_watches s)) \<Longrightarrow>
    occ_at (live_lists t) i = filter (\<lambda>w. w_cref w \<notin> R) (occ_at (live_lists s) i)"
    "length (occs (live_lists t)) = length (occs (sv_watches s))"
proof -
  have d: "deleted R s t" using w by (simp add: without_def)
  note d' = d[unfolded deleted_def]
  have ls: "lazy_ok s" and wf: "solver_wf (cleaned s)" using l by (simp_all add: lazy_wf_def)
  have crs: "w_cref x < length (sv_ca s)" if "i < length (occs (sv_watches s))" "x \<in> set (occs (sv_watches s) ! i)" for i x
    using ls that by (simp add: lazy_ok_def)
  have wd: "watcher_deleted t x \<longleftrightarrow> watcher_deleted s x \<or> w_cref x \<in> R" if "w_cref x < length (sv_ca s)" for x
    using d' that by (simp add: watcher_deleted_def)
  have "\<not> watcher_deleted t x" if i: "i < length (occs (sv_watches s))" "\<not> dirty (sv_watches t) ! i" and x: "x \<in> set (occs (sv_watches s) ! i)" for i x
  proof -
    have nd: "\<not> dirty (sv_watches s) ! i" using d' i by blast
    then have ns: "\<not> watcher_deleted s x" using ls i(1) x by (auto simp: lazy_ok_def occ_covered_def)
    then have xl: "x \<in> set (occ_at (live_lists s) i)" using live_lists_eq[OF ls] i(1) x by (simp add: occ_at_def)
    let ?q = "Lit (int i)"
    have q: "in_range (cleaned s) ?q" "lit_index ?q = i"
      using i lazy_wf_parts(4)[OF l] by (auto simp: in_range_def var_div lit_index_def toInt_lit_def)
    have W: "watch_ok (cleaned s) (occ_at (live_lists s))" using solver_wf_parts(8)[OF wf] by simp
    have k: "neg_lit ?q \<in> {clause_lits s (w_cref x) ! 0, clause_lits s (w_cref x) ! 1}"
      using W q xl unfolding watch_ok_def by force
    have "w_cref x \<notin> R"
    proof
      assume r: "w_cref x \<in> R"
      have "lit_index (neg_lit (clause_lits s (w_cref x) ! j)) = i" if "neg_lit ?q = clause_lits s (w_cref x) ! j" for j
        using q(2) by (simp add: that[symmetric])
      moreover have "dirty (sv_watches t) ! lit_index (neg_lit (clause_lits s (w_cref x) ! j))" if "j < 2" for j using d' r that by blast
      moreover obtain j where "neg_lit ?q = clause_lits s (w_cref x) ! j" "j < (2 :: nat)"
        using k by (metis insertE one_less_numeral_iff semiring_norm(76) singletonD zero_less_numeral)
      ultimately have "dirty (sv_watches t) ! i" by metis
      then show False using i(2) by simp
    qed
    then show ?thesis using wd[OF crs[OF i(1) x]] ns by simp
  qed
  then show lt: "lazy_ok t" using d' crs by (simp add: lazy_ok_def occ_covered_def)
  note e = live_lists_eq[OF lt] live_lists_eq[OF ls]
  have o: "occs (sv_watches t) = occs (sv_watches s)" using d' by blast
  show "length (occs (live_lists t)) = length (occs (sv_watches s))" by (simp add: e o)
  show "occ_at (live_lists t) i = filter (\<lambda>w. w_cref w \<notin> R) (occ_at (live_lists s) i)" if i: "i < length (occs (sv_watches s))"
    using i crs[OF i] wd by (auto simp: e o occ_at_def intro!: filter_cong)
qed

lemma without_ready:
  assumes w: "without R s t" and l: "lazy_wf s"
  shows "lazy_wf t" "search_at (cleaned s) n \<Longrightarrow> search_at (cleaned t) n" "search_ready (cleaned s) \<Longrightarrow> search_ready (cleaned t)"
proof -
  have d: "deleted R s t" and db: "set (db t) = set (db s) - R" using w by (simp_all add: without_def)
  note d' = d[unfolded deleted_def] and f = without_fields[OF w] and v = without_live[OF w l] and p = lazy_wf_parts[OF l]
  have wf: "solver_wf (cleaned s)" and ls: "lazy_ok s" using l by (simp_all add: lazy_wf_def)
  note ps = solver_wf_parts[OF wf]
  have lits: "clause_lits t cr = clause_lits s cr" if "cr \<in> set (db s)" for cr using d' db_clause(1)[OF l that] by blast
  have occ: "occ_at (live_lists t) (lit_index q) = filter (\<lambda>w. w_cref w \<notin> R) (occ_at (live_lists s) (lit_index q))" if "in_range s q" for q
    using v(2) lit_index_less[OF that] p(4) by simp
  have W: "watch_ok (cleaned s) (occ_at (live_lists s))" using ps(8) by simp
  have Wd: "w_cref x \<in> set (db s)" if "in_range s q" "x \<in> set (occ_at (live_lists s) (lit_index q))" for q x
    using watch_okD(1)[OF W, of q x] that by simp
  have a: "assign_wf (cleaned t)" using ps(1) by (simp add: assign_wf_def f)
  have lv: "level_wf (cleaned t)" using ps(2) by (simp add: level_wf_def f)
  have dw: "db_wf (cleaned t)"
    using ps(3) d' db lits by (auto simp: db_wf_def clause_ok_def f)
  have fw: "free_wf (cleaned t)" using ps(4) db lits by (auto simp: free_wf_def f)
  have cw: "const_wf (cleaned t)" using ps(5) by (simp add: const_wf_def f)
  have ow: "occ_len (cleaned t)"
    using v(3) p(4) live_lists_eq[OF v(1)] by (auto simp: occ_len_def f occ_wf_def)
  have ww: "watch_ok (cleaned t) (occ_at (live_lists t))"
    unfolding watch_ok_def
  proof (intro allI impI conjI ballI)
    fix q assume "in_range (cleaned t) q"
    then have q: "in_range s q" "in_range (cleaned s) q" by (simp_all add: f)
    show "distinct (map w_cref (occ_at (live_lists t) (lit_index q)))"
      using W q(2) by (simp add: watch_ok_def occ[OF q(1)] distinct_map_filter)
    fix x assume "x \<in> set (occ_at (live_lists t) (lit_index q))"
    then have x: "x \<in> set (occ_at (live_lists s) (lit_index q))" "w_cref x \<notin> R" by (simp_all add: occ[OF q(1)])
    have xd: "w_cref x \<in> set (db s)" by (rule Wd[OF q(1) x(1)])
    show "w_cref x \<in> set (db (cleaned t))" using xd x(2) db by simp
    show "in_range (cleaned t) (w_blocker x)" using W q(2) x(1) by (simp add: watch_ok_def f)
    show "neg_lit q \<in> {clause_lits (cleaned t) (w_cref x) ! 0, clause_lits (cleaned t) (w_cref x) ! 1}"
      using W q(2) x(1) lits[OF xd] by (simp add: watch_ok_def)
  qed
  show lt: "lazy_wf t" using v(1) a lv dw fw cw ow ww by (simp add: lazy_wf_def solver_wf_def core_wf_def)
  show at: "search_at (cleaned t) n" if at: "search_at (cleaned s) n" for n
  proof -
    note s' = at[unfolded search_at_def]
    have ro: "reason_ok (cleaned t)"
      unfolding reason_ok_def cleaned_simps f
    proof (intro allI impI)
      fix i cr assume i: "i < length (sv_trail s)" and r: "reason t (var (sv_trail s ! i)) = Some cr"
      have rs: "reason s (var (sv_trail s ! i)) = Some cr" using d' r by (metis option.distinct(1))
      have nR: "cr \<notin> R" using d' i r by (metis imageI)
      have "cr \<in> set (db s) \<and> clause_lits s cr ! 0 = sv_trail s ! i \<and> (\<forall>q \<in> set (drop 1 (clause_lits s cr)). neg_lit q \<in> set (take i (sv_trail s)))"
        using s' i rs by (simp add: reason_ok_def)
      then show "cr \<in> set (db t) \<and> clause_lits t cr ! 0 = sv_trail s ! i \<and> (\<forall>q \<in> set (drop 1 (clause_lits t cr)). neg_lit q \<in> set (take i (sv_trail s)))"
        using nR db lits by simp
    qed
    have dk: "decisions_ok (cleaned t)"
      unfolding decisions_ok_def cleaned_simps f
    proof (intro allI impI)
      fix i assume i: "i < length (sv_trail s)" and r: "reason t (var (sv_trail s ! i)) = None"
      show "level s (var (sv_trail s ! i)) = 0 \<or> i \<in> set (sv_trail_lim s)"
      proof (cases "reason s (var (sv_trail s ! i)) = None")
        case True
        then show ?thesis using s' i by (simp add: decisions_ok_def)
      next
        case False
        then have "reason s (var (sv_trail s ! i)) \<in> Some ` R" using d' r by metis
        then show ?thesis using w i by (simp add: without_def)
      qed
    qed
    have fl: "watch_full (cleaned t) (occ_at (live_lists t))"
      unfolding watch_full_def cleaned_simps f
    proof (intro conjI ballI allI impI)
      fix cr i assume cr: "cr \<in> set (db t)" and i: "i < (2 :: nat)"
      have c: "cr \<in> set (db s)" "cr \<notin> R" using cr db by simp_all
      have "cr \<in> w_cref ` set (occ_at (live_lists s) (lit_index (neg_lit (clause_lits s cr ! i))))"
        using s' c(1) i by (simp add: watch_full_def)
      then show "cr \<in> w_cref ` set (occ_at (live_lists t) (lit_index (neg_lit (clause_lits t cr ! i))))"
        using occ[of "neg_lit (clause_lits s cr ! i)"] db_clause(5)[OF l c(1) i] c(2) lits[OF c(1)] by auto
    next
      fix q x assume q: "in_range s q" and x: "x \<in> set (occ_at (live_lists t) (lit_index q))"
      have xs: "x \<in> set (occ_at (live_lists s) (lit_index q))" using x by (simp add: occ[OF q])
      have "w_blocker x \<in> set (clause_lits s (w_cref x))" using s' q xs by (simp add: watch_full_def)
      then show "w_blocker x \<in> set (clause_lits t (w_cref x))" using lits[OF Wd[OF q xs]] by simp
    qed
    have "n \<le> length (sv_trail s)" using s' by simp
    then have pr: "processed (cleaned t) (occ_at (live_lists t)) n"
      using s' occ trail_range[OF p(1)] by (auto simp: processed_def quiet_def f)
    show ?thesis using lt s' ro dk fl pr by (simp add: search_at_def lazy_wf_def f)
  qed
  show "search_ready (cleaned t)" if "search_ready (cleaned s)" using that at by (simp add: search_ready_def f)
qed

subsection \<open>Satisfied clauses\<close>

definition sat_at :: "solver \<Rightarrow> nat \<Rightarrow> bool" where
  "sat_at s cr \<longleftrightarrow> (\<exists>l \<in> set (clause_lits s cr). value_lit s l = LTrue)"

lemma removeSatisfied_ok:
  assumes wf: "lazy_wf s" "reason_ok s"
  shows "deleted R s t \<Longrightarrow> set crs \<subseteq> set (db s) \<Longrightarrow>
    \<exists>u. removeSatisfied crs kept t = Some (kept @ filter (\<lambda>cr. \<not> sat_at s cr) crs, u) \<and>
      deleted (R \<union> {cr \<in> set crs. sat_at s cr}) s u \<and> sv_clauses u = sv_clauses t \<and> sv_learnts u = sv_learnts t"
proof (induction crs arbitrary: R t kept)
  case (Cons cr crs)
  have cr: "cr \<in> set (db s)" using Cons.prems(2) by simp
  note d = Cons.prems(1)[unfolded deleted_def] and c = db_clause[OF wf(1) cr]
  have g: "get_at (sv_ca t) cr = Some (sv_ca t ! cr)" "clause_lits t cr = clause_lits s cr" using d c(1) by simp_all
  have st: "satisfied t (sv_ca t ! cr) \<longleftrightarrow> sat_at s cr"
    using d g(2) by (simp add: satisfied_def sat_at_def list_ex_iff value_lit_def value_var_def)
  show ?case
  proof (cases "sat_at s cr")
    case True
    obtain t1 where t1: "removeClause cr t = Some t1" "deleted (insert cr R) s t1" "sv_clauses t1 = sv_clauses t" "sv_learnts t1 = sv_learnts t"
      using removeClause_ok[OF wf Cons.prems(1) cr] by blast
    have "insert cr R \<union> {x \<in> set crs. sat_at s x} = R \<union> {x \<in> set (cr # crs). sat_at s x}" using True by auto
    then show ?thesis using Cons.IH[OF t1(2), of kept] Cons.prems(2) t1 g(1) st True by simp
  next
    case False
    have "R \<union> {x \<in> set crs. sat_at s x} = R \<union> {x \<in> set (cr # crs). sat_at s x}" using False by auto
    then show ?thesis using Cons.IH[OF Cons.prems(1), of "kept @ [cr]"] Cons.prems(2) g(1) st False by simp
  qed
qed simp

text \<open>The clauses that \<open>simplify\<close> removes once propagation is complete.\<close>

definition redundant :: "bool \<Rightarrow> solver \<Rightarrow> nat set" where
  "redundant idle s = (if idle then {} else {cr \<in> set (db s). sat_at s cr})"

lemma simplify_without:
  assumes wf: "lazy_wf s" "reason_ok s" and s: "sv_trail_lim s = []" "sv_ok s" "sv_qhead s = length (sv_trail s)"
  shows "\<exists>t. simplify idle s = Some (True, t) \<and> without (redundant idle s) s t"
proof (cases idle)
  case True
  then have "without (redundant idle s) s s" using deleted_start[OF wf(1)] by (simp add: without_def redundant_def)
  then show ?thesis using s True by (simp add: simplify_def propagate_def decisionLevel_def)
next
  case False
  have sub: "set (sv_learnts s) \<subseteq> set (db s)" "set (sv_clauses s) \<subseteq> set (db s)" by (auto simp: db_def)
  let ?ls = "filter (\<lambda>cr. \<not> sat_at s cr) (sv_learnts s)" and ?cs = "filter (\<lambda>cr. \<not> sat_at s cr) (sv_clauses s)"
  let ?L = "{cr \<in> set (sv_learnts s). sat_at s cr}" and ?C = "{cr \<in> set (sv_clauses s). sat_at s cr}"
  obtain t1 where t1: "removeSatisfied (sv_learnts s) [] s = Some (?ls, t1)" "deleted ?L s t1" "sv_clauses t1 = sv_clauses s"
    using removeSatisfied_ok[OF wf deleted_start[OF wf(1)] sub(1), of "[]"] by auto
  let ?t1 = "t1\<lparr>sv_learnts := ?ls\<rparr>"
  have "deleted ?L s ?t1" using t1(2) by simp
  then obtain t2 where t2: "removeSatisfied (sv_clauses s) [] ?t1 = Some (?cs, t2)" "deleted (?L \<union> ?C) s t2" "sv_learnts t2 = ?ls"
    using removeSatisfied_ok[OF wf _ sub(2), of ?L ?t1 "[]"] by auto
  let ?t = "t2\<lparr>sv_clauses := ?cs, sv_qhead := length (sv_trail t2)\<rparr>"
  have R: "redundant idle s = ?L \<union> ?C" using False by (auto simp: redundant_def db_def)
  have q: "length (sv_trail t2) = sv_qhead t2" using t2(2) s(3) by (simp add: deleted_def)
  have "?t = t2\<lparr>sv_clauses := ?cs\<rparr>" using q by simp
  then have "deleted (?L \<union> ?C) s ?t" using t2(2) by simp
  moreover have "set (db ?t) = set (db s) - (?L \<union> ?C)" using t2(3) by (auto simp: db_def)
  moreover have "level s (var (sv_trail s ! i)) = 0" if "i < length (sv_trail s)" for i
    using lazy_wf_parts(2)[OF wf(1)] that s(1) by (simp add: level_wf_def)
  ultimately have "without (redundant idle s) s ?t" by (simp add: without_def R)
  moreover have "simplify idle s = Some (True, ?t)"
    using s False t1(1,3) t2(1) by (simp add: simplify_def propagate_def decisionLevel_def)
  ultimately show ?thesis by blast
qed

text \<open>A clause with a literal that is true at level 0 adds nothing.\<close>

lemma without_base:
  assumes w: "without R s t" and l: "lazy_wf s" and R: "\<And>cr. cr \<in> R \<Longrightarrow> \<exists>x \<in> set (clause_lits s cr). x \<in> set (root_trail s)"
  shows "base_sat t \<sigma> = base_sat s \<sigma>" "open_sets t = open_sets s"
proof -
  have d: "deleted R s t" and db: "set (db t) = set (db s) - R" using w by (simp_all add: without_def)
  note f = without_fields[OF w]
  have lits: "clause_lits t cr = clause_lits s cr" if "cr \<in> set (db s)" for cr
    using d db_clause(1)[OF l that] by (simp add: deleted_def)
  have "clause_sat \<sigma> (clause_lits s cr)" if "cr \<in> R" "\<forall>x \<in> set (root_trail s). lit_val \<sigma> x" for cr
    using R[OF that(1)] that(2) by (auto simp: clause_sat_def)
  then show "base_sat t \<sigma> = base_sat s \<sigma>" using db lits by (auto simp: base_sat_def f)
  have "C \<inter> set (root_trail s) \<noteq> {}" if "cr \<in> R" "set (clause_lits s cr) = C" for cr C using R[OF that(1)] that(2) by auto
  then show "open_sets t = open_sets s" using db lits unfolding open_sets_def f by auto
qed

lemma redundant_root:
  assumes "lazy_wf s" "sv_trail_lim s = []" "cr \<in> redundant idle s"
  shows "\<exists>x \<in> set (clause_lits s cr). x \<in> set (root_trail s)"
proof -
  have cr: "cr \<in> set (db s)" "sat_at s cr" using assms(3) by (auto simp: redundant_def split: if_splits)
  obtain x where x: "x \<in> set (clause_lits s cr)" "value_lit s x = LTrue" using cr(2) by (auto simp: sat_at_def)
  have "in_range s x" using db_clause(2)[OF assms(1) cr(1)] x(1) by (simp add: clause_ok_def)
  then have "x \<in> set (sv_trail s)" using trail_value(1)[OF lazy_wf_parts(1)[OF assms(1)]] x(2) by blast
  then show ?thesis using x(1) assms(2) by (auto simp: root_trail_def)
qed

end
