(* ===== verification/Lazy_Ops.thy ===== *)
theory Lazy_Ops
  imports Deletion_Spec Search
begin

text \<open>
  The operations of the search and of the solver's interface on a state with lazily deleted watchers: each gives what it gives on
  the clean lists, up to cleaning.
\<close>

subsection \<open>Operations that leave the watch lists alone\<close>

definition same_watches :: "solver \<Rightarrow> solver \<Rightarrow> bool" where
  "same_watches s t \<longleftrightarrow> sv_ca t = sv_ca s \<and> sv_watches t = sv_watches s"

lemma same_watches_lazy:
  assumes "same_watches s t"
  shows "live_lists t = live_lists s" "lazy_ok t = lazy_ok s"
proof -
  have "watcher_deleted t = watcher_deleted s" using assms by (simp add: same_watches_def watcher_deleted_def fun_eq_iff)
  then show "live_lists t = live_lists s" "lazy_ok t = lazy_ok s"
    using assms by (simp_all add: same_watches_def live_lists_def lazy_ok_def)
qed

lemma same_watches_trans: "same_watches s t \<Longrightarrow> same_watches t u \<Longrightarrow> same_watches s u"
  by (simp add: same_watches_def)

text \<open>With any lists \<open>ol\<close> in place of those of the state.\<close>

lemma rewatch_simps [simp]:
  "decisionLevel (s\<lparr>sv_watches := ol\<rparr>) = decisionLevel s" "nVars (s\<lparr>sv_watches := ol\<rparr>) = nVars s"
  "value_lit (s\<lparr>sv_watches := ol\<rparr>) = value_lit s" "value_var (s\<lparr>sv_watches := ol\<rparr>) = value_var s"
  "level (s\<lparr>sv_watches := ol\<rparr>) = level s" "reason (s\<lparr>sv_watches := ol\<rparr>) = reason s"
  "newDecisionLevel (s\<lparr>sv_watches := ol\<rparr>) = newDecisionLevel s\<lparr>sv_watches := ol\<rparr>"
  "uncheckedEnqueue p r (s\<lparr>sv_watches := ol\<rparr>) = uncheckedEnqueue p r s\<lparr>sv_watches := ol\<rparr>"
  by (simp_all add: decisionLevel_def nVars_def value_lit_def value_var_def level_def reason_def newDecisionLevel_def
      uncheckedEnqueue_def fun_eq_iff)

lemma cancel_loop_rewatch: "cancel_loop lev ls (s\<lparr>sv_watches := ol\<rparr>) = cancel_loop lev ls s\<lparr>sv_watches := ol\<rparr>"
proof (induction ls arbitrary: s)
  case (Cons l ls)
  have swap: "s\<lparr>sv_watches := ol, sv_to_reenqueue := x\<rparr> = s\<lparr>sv_to_reenqueue := x, sv_watches := ol\<rparr>"
    "s\<lparr>sv_watches := ol, sv_assigns := y\<rparr> = s\<lparr>sv_assigns := y, sv_watches := ol\<rparr>" for x y by simp_all
  show ?case by (simp add: swap Cons)
qed simp

lemma cancel_loop_same: "same_watches s (cancel_loop lev ls s)"
  by (induction lev ls s rule: cancel_loop.induct) (simp_all add: same_watches_def)

lemma cancelUntil_ok [simp]: "sv_ok (cancelUntil lev s) = sv_ok s"
proof -
  have "sv_ok (cancel_loop lev ls s) = sv_ok s" for ls by (induction lev ls s rule: cancel_loop.induct) simp_all
  then show ?thesis by (simp add: cancelUntil_def Let_def)
qed

lemma cancelUntil_rewatch: "cancelUntil lev (s\<lparr>sv_watches := ol\<rparr>) = cancelUntil lev s\<lparr>sv_watches := ol\<rparr>"
  by (simp add: cancelUntil_def Let_def cancel_loop_rewatch)

lemma same_watches_ops: "same_watches s (newDecisionLevel s)" "same_watches s (uncheckedEnqueue p r s)" "same_watches s (cancelUntil lev s)"
  using cancel_loop_same[of s lev "rev (drop (sv_trail_lim s ! lev) (sv_trail s))"]
  by (simp_all add: same_watches_def newDecisionLevel_def uncheckedEnqueue_def cancelUntil_def Let_def)

lemma cancelUntil_cleaned:
  "cleaned (cancelUntil lev s) = cancelUntil lev (cleaned s)" "lazy_ok (cancelUntil lev s) = lazy_ok s"
  using same_watches_lazy[OF same_watches_ops(3)] by (simp_all add: cleaned_def cancelUntil_rewatch)

lemma enqueue_cleaned:
  "cleaned (uncheckedEnqueue p r s) = uncheckedEnqueue p r (cleaned s)" "lazy_ok (uncheckedEnqueue p r s) = lazy_ok s"
  using same_watches_lazy[OF same_watches_ops(2)] by (simp_all add: cleaned_def)

subsection \<open>Decisions\<close>

lemma assume_loop_rewatch:
  "assume_loop ps b (s\<lparr>sv_watches := ol\<rparr>) = (case assume_loop ps b s of
     Inl (p, t) \<Rightarrow> Inl (p, t\<lparr>sv_watches := ol\<rparr>) | Inr (p, b', t) \<Rightarrow> Inr (p, b', t\<lparr>sv_watches := ol\<rparr>))"
  by (induction ps arbitrary: b s) simp_all

lemma assume_loop_same:
  "case assume_loop ps b s of Inl (p, t) \<Rightarrow> same_watches s t | Inr (p, b', t) \<Rightarrow> same_watches s t"
proof (induction ps arbitrary: b s)
  case (Cons q qs)
  have "same_watches s u" if "same_watches (newDecisionLevel s) u" for u by (rule same_watches_trans[OF same_watches_ops(1) that])
  then show ?case using Cons[of "newDecisionLevel s" True] by (auto simp: same_watches_def split: sum.splits)
qed (simp add: same_watches_def)

lemma final_scan_rewatch: "final_scan (s\<lparr>sv_watches := ol\<rparr>) ls seen out = final_scan s ls seen out"
  by (induction ls arbitrary: seen out) (simp_all split: option.split)

lemma analyzeFinal_rewatch: "analyzeFinal p seen (s\<lparr>sv_watches := ol\<rparr>) = analyzeFinal p seen s"
  by (simp add: analyzeFinal_def final_scan_rewatch)

lemma decide_rewatch: "decide A p (s\<lparr>sv_watches := ol\<rparr>) = map_option (\<lambda>t. t\<lparr>sv_watches := ol\<rparr>) (decide A p s)"
  by (simp add: decide_def enqueue_def check_def)

lemma decide_same: "decide A p s = Some t \<Longrightarrow> same_watches s t"
  using same_watches_ops(2)[of s p None] by (auto simp: decide_def enqueue_def bind_eq_Some_conv same_watches_def)

lemma pick_rewatch: "pickBranchLit order phase (s\<lparr>sv_watches := ol\<rparr>) = pickBranchLit order phase s"
  by (simp add: pickBranchLit_def)

text \<open>The state of an outcome, and the same with other lists.\<close>

fun out_state :: "search_outcome \<Rightarrow> search_state" where
  "out_state (Continue st) = st"
| "out_state (Return status c st) = st"

definition rewatch :: "watcher occlists \<Rightarrow> search_state \<Rightarrow> search_state" where
  "rewatch ol st = st\<lparr>ss_solver := (ss_solver st)\<lparr>sv_watches := ol\<rparr>\<rparr>"

fun rewatch_out :: "watcher occlists \<Rightarrow> search_outcome \<Rightarrow> search_outcome" where
  "rewatch_out ol (Continue st) = Continue (rewatch ol st)"
| "rewatch_out ol (Return status c st) = Return status c (rewatch ol st)"

lemma next_decision_rewatch: "next_decision opts A (rewatch ol st) = map_option (rewatch_out ol) (next_decision opts A st)"
proof (cases "assume_loop (drop (decisionLevel (ss_solver st)) A) False (ss_solver st)")
  case (Inl r)
  then show ?thesis
    by (cases r) (simp add: next_decision_def rewatch_def assume_loop_rewatch analyzeFinal_rewatch option.map_comp comp_def
        split: option.split bind_splits)
next
  case (Inr r)
  then show ?thesis
    by (cases r) (simp add: next_decision_def rewatch_def assume_loop_rewatch pick_rewatch decide_rewatch Let_def split: option.split bind_splits)
qed

lemma next_decision_same:
  assumes "next_decision opts A st = Some r"
  shows "same_watches (ss_solver st) (ss_solver (out_state r))"
proof (cases "assume_loop (drop (decisionLevel (ss_solver st)) A) False (ss_solver st)")
  case (Inl x)
  then show ?thesis using assms assume_loop_same[of "ss_solver st" "drop (decisionLevel (ss_solver st)) A" False]
    by (cases x) (auto simp: next_decision_def bind_eq_Some_conv)
next
  case (Inr x)
  obtain p b t where x: "x = (p, b, t)" by (cases x) auto
  have t: "same_watches (ss_solver st) t" using assume_loop_same[of "ss_solver st" "drop (decisionLevel (ss_solver st)) A" False] Inr x by simp
  have n: "same_watches (ss_solver st) (newDecisionLevel t)" by (rule same_watches_trans[OF t same_watches_ops(1)])
  show ?thesis using assms Inr x t n decide_same same_watches_trans[OF n]
    by (auto simp: next_decision_def bind_eq_Some_conv Let_def split: if_splits)
qed

subsection \<open>The interface\<close>

text \<open>\<open>t\<close> and \<open>u\<close> are the same up to cleaning.\<close>

definition cleans :: "solver \<Rightarrow> solver \<Rightarrow> bool" where
  "cleans t u \<longleftrightarrow> t = u \<or> lazy_ok t \<and> u = cleaned t"

lemma cleans_fields:
  assumes "cleans t u"
  shows "sv_ok u = sv_ok t" "value_lit u = value_lit t" "level u = level t" "models u = models t" "used_vars u = used_vars t"
    "sv_const_true u = sv_const_true t" "nVars u = nVars t" "sv_trail_lim u = sv_trail_lim t"
  using assms by (auto simp: cleans_def)

definition clean_form :: "('e \<Rightarrow> bool) \<Rightarrow> 'e occlists \<Rightarrow> 'e occlists" where
  "clean_form D ol = \<lparr>occs = map (filter (\<lambda>e. \<not> D e)) (occs ol), dirty = replicate (length (occs ol)) False, dirties = []\<rparr>"

lemma clean_form_init: "occ_init i (clean_form D ol) = clean_form D (occ_init i ol)"
proof -
  have "grow_to (i + 1) [] (map (filter (\<lambda>e. \<not> D e)) (occs ol)) = map (filter (\<lambda>e. \<not> D e)) (grow_to (i + 1) [] (occs ol))"
    by (simp add: grow_to_def)
  moreover have "grow_to (i + 1) False (replicate (length (occs ol)) False) = replicate (max (i + 1) (length (occs ol))) False"
    by (simp add: grow_to_def max_def flip: replicate_add)
  ultimately show ?thesis by (simp add: occ_init_def clean_form_def Let_def map_update)
qed

lemma clean_form_push: "\<not> D e \<Longrightarrow> occ_push i e (clean_form D ol) = clean_form D (occ_push i e ol)"
  by (cases "i < length (occs ol)") (simp_all add: occ_push_def clean_form_def occ_at_def map_update list_update_beyond)

lemma clean_form_lists: "lazy_ok s \<Longrightarrow> live_lists s = clean_form (watcher_deleted s) (sv_watches s)"
  by (simp add: live_lists_eq clean_form_def)

text \<open>Two lists are added by \<open>newVar\<close>, and a watcher of a new clause by each half of \<open>attachClause\<close>.\<close>

lemma lazy_init:
  assumes "lazy_ok s"
  shows "lazy_ok (s\<lparr>sv_watches := occ_init i (sv_watches s)\<rparr>)"
proof -
  let ?ol = "occ_init i (sv_watches s)"
  have w: "occ_wf (sv_watches s)" using assms by (simp add: lazy_ok_def)
  then have ld: "length (dirty (sv_watches s)) = length (occs (sv_watches s))" by (simp add: occ_wf_def)
  have e: "j < length (occs (sv_watches s)) \<and> occs ?ol ! j = occs (sv_watches s) ! j \<and> dirty ?ol ! j = dirty (sv_watches s) ! j"
    if "j < length (occs ?ol)" "x \<in> set (occs ?ol ! j)" for j x
    using that ld by (cases "j = i") (auto simp: occ_init_def Let_def nth_grow_to split: if_splits)
  have "watcher_deleted (s\<lparr>sv_watches := ?ol\<rparr>) = watcher_deleted s" by (simp add: watcher_deleted_def fun_eq_iff)
  moreover have "occ_covered (watcher_deleted s) ?ol"
    using assms e unfolding lazy_ok_def occ_covered_def by metis
  moreover have "w_cref x < length (sv_ca s)" if "j < length (occs ?ol)" "x \<in> set (occs ?ol ! j)" for j x
    using assms e[OF that] that(2) by (auto simp: lazy_ok_def)
  ultimately show ?thesis using occ_wf_init[OF w] by (simp add: lazy_ok_def)
qed

lemma lazy_push:
  assumes "lazy_ok s" "w_cref w < length (sv_ca s)" "\<not> watcher_deleted s w"
  shows "lazy_ok (push_watch p w s)" "cleaned (push_watch p w s) = push_watch p w (cleaned s)"
proof -
  let ?ol = "occ_push (lit_index p) w (sv_watches s)"
  have w: "occ_wf (sv_watches s)" using assms(1) by (simp add: lazy_ok_def)
  have wd: "watcher_deleted (push_watch p w s) = watcher_deleted s" by (simp add: watcher_deleted_def push_watch_def fun_eq_iff)
  have e: "j < length (occs (sv_watches s)) \<and> dirty ?ol ! j = dirty (sv_watches s) ! j \<and> (x = w \<or> x \<in> set (occs (sv_watches s) ! j))"
    if "j < length (occs ?ol)" "x \<in> set (occs ?ol ! j)" for j x
    using that by (cases "j = lit_index p") (auto simp: occ_push_def occ_at_def)
  have "occ_covered (watcher_deleted s) ?ol"
    using assms e unfolding lazy_ok_def occ_covered_def by metis
  moreover have "w_cref x < length (sv_ca s)" if "j < length (occs ?ol)" "x \<in> set (occs ?ol ! j)" for j x
    using assms(1,2) e[OF that] by (auto simp: lazy_ok_def)
  ultimately show l: "lazy_ok (push_watch p w s)"
    using occ_wf_update(1)[OF w] wd by (simp add: lazy_ok_def) (simp add: push_watch_def)
  show "cleaned (push_watch p w s) = push_watch p w (cleaned s)"
    using clean_form_lists[OF l] clean_form_lists[OF assms(1)] clean_form_push[of "watcher_deleted s" w] assms(3) wd
    by (simp add: cleaned_def push_watch_def)
qed

lemma lazy_stored:
  assumes "lazy_ok s"
  shows "lazy_ok (stored rs d s)" "cleaned (stored rs d s) = stored rs d (cleaned s)"
proof -
  have wd: "watcher_deleted (stored rs d s) x = watcher_deleted s x" if "i < length (occs (sv_watches s))" "x \<in> set (occs (sv_watches s) ! i)" for i x
    using assms that by (simp add: lazy_ok_def watcher_deleted_def)
  show l: "lazy_ok (stored rs d s)"
    using assms wd by (auto simp: lazy_ok_def occ_covered_def intro: less_SucI)
  have "clean_form (watcher_deleted (stored rs d s)) (sv_watches s) = clean_form (watcher_deleted s) (sv_watches s)"
    using wd by (simp add: clean_form_def) (metis (no_types, lifting) filter_cong in_set_conv_nth)
  then show "cleaned (stored rs d s) = stored rs d (cleaned s)"
    using clean_form_lists[OF l] clean_form_lists[OF assms] by (simp add: cleaned_def) (simp add: stored_def)
qed

lemma lazy_attach:
  assumes "lazy_ok s"
  shows "lazy_ok (attachClause (length (sv_ca s)) (stored rs d s))"
    "cleaned (attachClause (length (sv_ca s)) (stored rs d s)) = attachClause (length (sv_ca s)) (stored rs d (cleaned s))"
proof -
  note l = lazy_stored[OF assms, of rs d]
  have p: "lazy_ok (push_watch p \<lparr>w_cref = length (sv_ca s), w_blocker = b\<rparr> u)"
    "cleaned (push_watch p \<lparr>w_cref = length (sv_ca s), w_blocker = b\<rparr> u) = push_watch p \<lparr>w_cref = length (sv_ca s), w_blocker = b\<rparr> (cleaned u)"
    if "lazy_ok u" "sv_ca u = sv_ca (stored rs d s)" for p b u
  proof -
    have "\<not> watcher_deleted u \<lparr>w_cref = length (sv_ca s), w_blocker = b\<rparr>" using that(2) by (simp add: watcher_deleted_def)
    from lazy_push[OF that(1) _ this]
    show "lazy_ok (push_watch p \<lparr>w_cref = length (sv_ca s), w_blocker = b\<rparr> u)"
      "cleaned (push_watch p \<lparr>w_cref = length (sv_ca s), w_blocker = b\<rparr> u) = push_watch p \<lparr>w_cref = length (sv_ca s), w_blocker = b\<rparr> (cleaned u)"
      using that(2) by simp_all
  qed
  have ca: "sv_ca (push_watch p w u) = sv_ca u" for p w u by (simp add: push_watch_def)
  have lits: "clause_lits (stored rs d (cleaned s)) (length (sv_ca s)) = rs" using clause_lits_stored(2)[of rs d "cleaned s"] by simp
  show "lazy_ok (attachClause (length (sv_ca s)) (stored rs d s))"
    using p(1)[OF p(1)[OF l(1)]] by (simp add: attachClause_def Let_def ca)
  show "cleaned (attachClause (length (sv_ca s)) (stored rs d s)) = attachClause (length (sv_ca s)) (stored rs d (cleaned s))"
    using p[OF l(1)] p(2)[OF p(1)[OF l(1)]] l(2) lits by (simp add: attachClause_def Let_def ca)
qed

lemma newVar_cleans:
  assumes "lazy_ok s"
  shows "fst (newVar (cleaned s)) = fst (newVar s)" "snd (newVar (cleaned s)) = cleaned (snd (newVar s))" "lazy_ok (snd (newVar s))"
proof -
  let ?v = "if sv_free_vars s \<noteq> [] then last (sv_free_vars s) else int (nVars s)"
  let ?ol = "occ_init (lit_index (mkLit ?v True)) (occ_init (lit_index (mkLit ?v False)) (sv_watches s))"
  let ?t = "snd (newVar s)"
  have ca: "sv_ca ?t = sv_ca s" "sv_watches ?t = ?ol" by (simp_all add: newVar_def Let_def)
  have "lazy_ok (s\<lparr>sv_watches := ?ol\<rparr>)" using lazy_init[OF lazy_init[OF assms]] by simp
  then show l: "lazy_ok ?t" using same_watches_lazy(2)[of "s\<lparr>sv_watches := ?ol\<rparr>" ?t] ca by (simp add: same_watches_def)
  have "watcher_deleted ?t = watcher_deleted s" using ca by (simp add: watcher_deleted_def fun_eq_iff)
  then have "live_lists ?t = occ_init (lit_index (mkLit ?v True)) (occ_init (lit_index (mkLit ?v False)) (live_lists s))"
    using clean_form_lists[OF l] clean_form_lists[OF assms] ca by (simp add: clean_form_init)
  then show "snd (newVar (cleaned s)) = cleaned ?t" "fst (newVar (cleaned s)) = fst (newVar s)"
    by (simp_all add: newVar_def Let_def cleaned_def)
qed

lemma clause_scan_cleaned [simp]: "clause_scan (cleaned s) p kept ls = clause_scan s p kept ls"
  by (induction ls arbitrary: p kept) simp_all

lemma addClause'_cleans:
  assumes l: "lazy_ok s" and q: "sv_ok s \<Longrightarrow> sv_qhead s \<le> length (sv_trail s)"
    and t: "addClause' ps d (cleaned s) = Some (b, u)"
  shows "\<exists>t. addClause' ps d s = Some (b, t) \<and> cleans t u"
proof (cases "sv_trail_lim s = [] \<and> sv_ok s \<and> (\<forall>l\<in>set ps. in_range s l)")
  case True
  note e = addClause'_eq[of s ps d] addClause'_eq[of "cleaned s" ps d]
  show ?thesis
  proof (cases "clause_scan s lit_Undef [] (sort ps)")
    case None
    then show ?thesis using e True t l by (auto simp: cleans_def)
  next
    case (Some rs)
    consider "length rs = 0" | "length rs = 1" | "2 \<le> length rs" by linarith
    then show ?thesis
    proof cases
      case 1
      have "cleans (s\<lparr>sv_ok := False\<rparr>) (cleaned s\<lparr>sv_ok := False\<rparr>)"
        using same_watches_lazy[of s "s\<lparr>sv_ok := False\<rparr>"] l by (simp add: cleans_def same_watches_def cleaned_def)
      then show ?thesis using e True t 1 Some by auto
    next
      case 2
      let ?e = "uncheckedEnqueue (rs ! 0) None"
      have "sv_qhead (?e s) \<noteq> length (sv_trail (?e s))" using q True by (simp add: uncheckedEnqueue_def)
      then have "propagate (?e s) = propagate (?e (cleaned s))"
        using propagate_cleaned[of "?e s"] l by (simp add: enqueue_cleaned)
      then have "addClause' ps d s = Some (b, u)" using e True t 2 Some by simp
      then show ?thesis by (simp add: cleans_def)
    next
      case 3
      then have "u = attachClause (length (sv_ca s)) (stored rs d (cleaned s))" "b"
        "addClause' ps d s = Some (True, attachClause (length (sv_ca s)) (stored rs d s))"
        using e True t Some by (auto split: if_splits)
      then show ?thesis using lazy_attach[OF l, of rs d] by (auto simp: cleans_def)
    qed
  qed
next
  case False
  show ?thesis
  proof (cases "sv_ok s")
    case True
    then show ?thesis using False t by (auto simp: addClause'_def decisionLevel_def bind_eq_Some_conv list_all_iff)
  next
    case no: False
    then show ?thesis using t l by (auto simp: addClause'_def cleans_def bind_eq_Some_conv)
  qed
qed

end
