(* ===== verification/Search_Spec.thy ===== *)
theory Search_Spec
  imports Search Search_Ops Final_Spec Lazy_Ops
begin

text \<open>
  The search returns, and its answers are right: the invariant of a round (the solver is ready, the assumptions are the
  first decisions), the measure that every round lowers, and what each result says.
\<close>

subsection \<open>The decision levels of the assumptions\<close>

text \<open>Where level \<open>i\<close> ends on the trail.\<close>

definition level_end :: "nat list \<Rightarrow> lit list \<Rightarrow> nat \<Rightarrow> nat" where
  "level_end lims T i = (if i < length lims then lims ! i else length T)"

text \<open>The \<open>i\<close>-th assumption holds at level \<open>i + 1\<close> and is the decision of that level unless the level is empty; the
  levels after the assumptions are not empty, so the position bounds the level.\<close>

definition follows :: "lit list \<Rightarrow> nat list \<Rightarrow> lit list \<Rightarrow> bool" where
  "follows A lims T \<longleftrightarrow>
     (\<forall>i<length lims. i < length A \<longrightarrow> A ! i \<in> set (take (level_end lims T (Suc i)) T) \<and>
        (lims ! i < level_end lims T (Suc i) \<longrightarrow> T ! (lims ! i) = A ! i)) \<and>
     (\<forall>i<length lims. i \<le> length A + lims ! i) \<and> length lims \<le> length A + length T"

lemma follows_nil: "follows A [] T"
  by (simp add: follows_def)

lemma follows_extend:
  assumes f: "follows A lims T" and lims: "\<forall>n\<in>set lims. n \<le> length T" "lims = [] \<or> last lims < length T"
  shows "follows A lims (T @ ext)"
  unfolding follows_def
proof (intro conjI allI impI)
  fix i assume i: "i < length lims" "i < length A"
  have old: "A ! i \<in> set (take (level_end lims T (Suc i)) T)" "lims ! i < level_end lims T (Suc i) \<Longrightarrow> T ! (lims ! i) = A ! i"
    using f i by (simp_all add: follows_def)
  show "A ! i \<in> set (take (level_end lims (T @ ext) (Suc i)) (T @ ext))"
    using old(1) by (auto simp: level_end_def dest: in_set_takeD split: if_splits)
  assume l: "lims ! i < level_end lims (T @ ext) (Suc i)"
  have "lims ! i < level_end lims T (Suc i)"
  proof (cases "Suc i < length lims")
    case True
    then show ?thesis using l by (simp add: level_end_def)
  next
    case False
    then have "i = length lims - 1" "lims \<noteq> []" using i by auto
    then show ?thesis using lims(2) False by (simp add: level_end_def last_conv_nth)
  qed
  moreover have "level_end lims T (Suc i) \<le> length T" using lims(1) by (auto simp: level_end_def)
  ultimately show "(T @ ext) ! (lims ! i) = A ! i" using old(2) by (auto simp: nth_append)
qed (use f in \<open>auto simp: follows_def\<close>)

lemma follows_cut:
  assumes f: "follows A lims T" and b: "b < length lims" and lims: "\<forall>n\<in>set lims. n \<le> length T" "sorted lims"
  shows "follows A (take b lims) (take (lims ! b) T)"
proof -
  have lb: "lims ! b \<le> length T" using b lims(1) by simp
  have e: "level_end (take b lims) (take (lims ! b) T) (Suc i) = level_end lims T (Suc i)" "level_end lims T (Suc i) \<le> lims ! b"
    if "i < b" for i
  proof -
    have "Suc i = b \<or> Suc i < b" using that by auto
    then show "level_end (take b lims) (take (lims ! b) T) (Suc i) = level_end lims T (Suc i)" "level_end lims T (Suc i) \<le> lims ! b"
      using b lb sorted_nth_mono[OF lims(2), of "Suc i" b] by (auto simp: level_end_def)
  qed
  show ?thesis
    unfolding follows_def
  proof (intro conjI allI impI)
    fix i assume i: "i < length (take b lims)" "i < length A"
    then have ib: "i < b" by simp
    have old: "A ! i \<in> set (take (level_end lims T (Suc i)) T)" "lims ! i < level_end lims T (Suc i) \<Longrightarrow> T ! (lims ! i) = A ! i"
      using f i b by (simp_all add: follows_def)
    show "A ! i \<in> set (take (level_end (take b lims) (take (lims ! b) T) (Suc i)) (take (lims ! b) T))"
      using old(1) e[OF ib] by (simp add: min_def)
    assume "take b lims ! i < level_end (take b lims) (take (lims ! b) T) (Suc i)"
    then have "lims ! i < level_end lims T (Suc i)" using e(1)[OF ib] ib by simp
    then show "take (lims ! b) T ! (take b lims ! i) = A ! i" using old(2) e(2)[OF ib] ib by simp
  qed (use f b lb in \<open>auto simp: follows_def min_def\<close>)
qed

lemma level_end_push:
  "i < length lims \<Longrightarrow> level_end (lims @ [length T]) T' (Suc i) = level_end lims T (Suc i)"
  by (auto simp: level_end_def nth_append)

lemma follows_dummy:
  assumes f: "follows A lims T" and d: "length lims < length A" "A ! length lims \<in> set T"
  shows "follows A (lims @ [length T]) T"
  unfolding follows_def
proof (intro conjI allI impI)
  fix i assume i: "i < length (lims @ [length T])" "i < length A"
  have new: "level_end (lims @ [length T]) T (Suc (length lims)) = length T" by (simp add: level_end_def)
  show "A ! i \<in> set (take (level_end (lims @ [length T]) T (Suc i)) T)"
    using f d(2) i new level_end_push[of i lims T T] by (cases "i = length lims") (simp_all add: follows_def)
  show "T ! ((lims @ [length T]) ! i) = A ! i" if "(lims @ [length T]) ! i < level_end (lims @ [length T]) T (Suc i)"
    using f i that new level_end_push[of i lims T T] by (cases "i = length lims") (simp_all add: follows_def nth_append)
qed (use f d in \<open>auto simp: follows_def nth_append less_Suc_eq\<close>)

lemma follows_decide:
  assumes f: "follows A lims T" and lims: "\<forall>n\<in>set lims. n \<le> length T" and p: "length lims < length A \<Longrightarrow> p = A ! length lims"
  shows "follows A (lims @ [length T]) (T @ [p])"
  unfolding follows_def
proof (intro conjI allI impI)
  fix i assume i: "i < length (lims @ [length T])" "i < length A"
  have le: "level_end lims T (Suc i) \<le> length T" using lims by (auto simp: level_end_def)
  have new: "level_end (lims @ [length T]) (T @ [p]) (Suc (length lims)) = Suc (length T)" by (simp add: level_end_def)
  show "A ! i \<in> set (take (level_end (lims @ [length T]) (T @ [p]) (Suc i)) (T @ [p]))"
    using f p i new le level_end_push[of i lims T "T @ [p]"] by (cases "i = length lims") (auto simp: follows_def)
  show "(T @ [p]) ! ((lims @ [length T]) ! i) = A ! i"
    if "(lims @ [length T]) ! i < level_end (lims @ [length T]) (T @ [p]) (Suc i)"
    using f p i that new le level_end_push[of i lims T "T @ [p]"] by (cases "i = length lims") (auto simp: follows_def nth_append)
qed (use f in \<open>auto simp: follows_def nth_append less_Suc_eq\<close>)

lemma follows_assumed:
  assumes "follows A lims T" "length A \<le> length lims" "p \<in> set A"
  shows "p \<in> set T"
proof -
  obtain i where "i < length A" "A ! i = p" using assms(3) unfolding in_set_conv_nth by blast
  then show ?thesis using assms(1,2) by (auto simp: follows_def dest!: spec[of _ i] dest: in_set_takeD)
qed

subsection \<open>The invariant of a round\<close>

definition search_inv :: "lit list \<Rightarrow> solver \<Rightarrow> bool" where
  "search_inv A s \<longleftrightarrow> search_ready s \<and> const_asserted s \<and> sv_ok s \<and> follows A (sv_trail_lim s) (sv_trail s)"

text \<open>What the operations of the search keep.\<close>

definition keeps :: "solver \<Rightarrow> solver \<Rightarrow> bool" where
  "keeps s t \<longleftrightarrow> (\<forall>\<sigma>. base_sat t \<sigma> = base_sat s \<sigma>) \<and> used_vars t = used_vars s \<and> nVars t = nVars s \<and> sv_ok t = sv_ok s \<and>
     sv_const_true t = sv_const_true s \<and> set (root_trail s) \<subseteq> set (root_trail t) \<and> card (open_sets t) \<le> card (open_sets s)"

lemma keeps_refl [simp]: "keeps s s"
  by (simp add: keeps_def)

lemma keeps_trans: "keeps s t \<Longrightarrow> keeps t u \<Longrightarrow> keeps s u"
  unfolding keeps_def by auto

lemma keeps_const: "keeps s t \<Longrightarrow> const_asserted s \<Longrightarrow> const_asserted t"
  by (auto simp: keeps_def const_asserted_def)

lemma inv_parts:
  assumes "search_inv A s"
  shows "search_ready s" "search_at s (sv_qhead s)" "solver_wf s" "level_start s \<le> sv_qhead s" "sv_qhead s \<le> length (sv_trail s)"
    "\<forall>n\<in>set (sv_trail_lim s). n \<le> length (sv_trail s)" "sorted (sv_trail_lim s)" "solver_inv s"
proof -
  show r: "search_ready s" using assms by (simp add: search_inv_def)
  then show a: "search_at s (sv_qhead s)" "level_start s \<le> sv_qhead s" by (simp_all add: search_ready_def)
  then show w: "solver_wf s" "sv_qhead s \<le> length (sv_trail s)" by (simp_all add: search_at_def)
  then show "\<forall>n\<in>set (sv_trail_lim s). n \<le> length (sv_trail s)" "sorted (sv_trail_lim s)"
    using solver_wf_parts(2) by (auto simp: level_wf_def)
  show "solver_inv s" using w assms by (simp add: solver_inv_def search_inv_def)
qed

lemma propagate_inv:
  assumes inv: "search_inv A s"
  shows "\<exists>c t. propagate s = Some (c, t) \<and> keeps s t \<and> const_asserted t \<and> follows A (sv_trail_lim t) (sv_trail t) \<and>
    sv_trail_lim t = sv_trail_lim s \<and> length (sv_trail s) \<le> length (sv_trail t) \<and>
    (case c of None \<Rightarrow> search_inv A t \<and> sv_qhead t = length (sv_trail t)
     | Some cr \<Rightarrow> search_at t (level_start t) \<and> conflicting t cr \<and> (decisionLevel t = 0 \<longrightarrow> (\<forall>\<sigma>. \<not> base_sat t \<sigma>)))"
proof -
  note i = inv_parts[OF inv]
  obtain c t where t: "propagate s = Some (c, t)" "prop_done s c t" using propagate_done[OF i(3)] by blast
  note d = t(2)[unfolded prop_done_def]
  have fr: "frame s t" using d by blast
  obtain ext where f: "sv_trail t = sv_trail s @ ext" "sv_trail_lim t = sv_trail_lim s" "sv_ok t = sv_ok s" "nVars t = nVars s"
    "sv_free_vars t = sv_free_vars s" "sv_const_true t = sv_const_true s" "db t = db s"
    "\<forall>cr\<in>set (db s). set (clause_lits t cr) = set (clause_lits s cr)"
    using fr unfolding frame_def by blast
  have lv: "level_wf s" by (rule solver_wf_parts(2)[OF i(3)])
  have ms: "models t = models s" by (rule frame_models[OF fr lv]) (use d in blast)
  have ok: "sv_ok s" using inv by (simp add: search_inv_def)
  have bs: "base_sat t \<sigma> = base_sat s \<sigma>" for \<sigma> using ms ok f(3) by (auto simp: models_base set_eq_iff)
  have rt: "set (root_trail s) \<subseteq> set (root_trail t)"
  proof (cases "sv_trail_lim s = []")
    case True
    then show ?thesis using f by (simp add: root_trail_def)
  next
    case False
    then show ?thesis using frame_root_trail[OF fr lv] by simp
  qed
  have uv: "used_vars t = used_vars s" using f by (simp add: used_vars_def)
  have k: "keeps s t" using bs rt uv f card_open_mono[OF open_sets_mono[OF uv rt]] by (simp add: keeps_def)
  have ca: "const_asserted t" by (rule keeps_const[OF k]) (use inv in \<open>simp add: search_inv_def\<close>)
  have fo: "follows A (sv_trail_lim t) (sv_trail t)"
  proof (cases "sv_qhead s = length (sv_trail s)")
    case True
    then have "t = s" using t(1) by (simp add: propagate_def)
    then show ?thesis using inv by (simp add: search_inv_def)
  next
    case False
    then have "sv_trail_lim s = [] \<or> last (sv_trail_lim s) < length (sv_trail s)"
      using i(4,5) by (auto simp: level_start_def split: if_splits)
    then show ?thesis unfolding f(1,2) using follows_extend[OF _ i(6)] inv by (simp add: search_inv_def)
  qed
  have "case c of None \<Rightarrow> search_inv A t \<and> sv_qhead t = length (sv_trail t)
     | Some cr \<Rightarrow> search_at t (level_start t) \<and> conflicting t cr \<and> (decisionLevel t = 0 \<longrightarrow> (\<forall>\<sigma>. \<not> base_sat t \<sigma>))"
  proof (cases c)
    case None
    then show ?thesis using propagate_ready[OF i(1), of t] t(1) ca fo f(3) ok by (simp add: search_inv_def)
  next
    case (Some cr)
    have "\<not> base_sat t \<sigma>" if "decisionLevel t = 0" for \<sigma>
    proof -
      have l0: "sv_trail_lim s = []" using that f(2) by (simp add: decisionLevel_def)
      have "\<not> msat s \<sigma>" using d Some by simp
      then show ?thesis unfolding bs using l0 by (simp add: msat_def base_sat_def root_trail_def)
    qed
    then show ?thesis using Some propagate_search[OF i(1) t(1)] by simp
  qed
  then show ?thesis using t(1) k ca fo f(1,2) by (intro exI[of _ c] exI[of _ t]) simp
qed

lemma cancelUntil_keeps_search:
  assumes "solver_wf s"
  shows "keeps s (cancelUntil lev s)"
proof (cases "lev < decisionLevel s")
  case True
  note c = cancelUntil_wf[OF assms, of lev]
  note m = cancelUntil_more[OF solver_wf_parts(2)[OF assms] True]
  have "base_sat (cancelUntil lev s) \<sigma> = base_sat s \<sigma>" for \<sigma> by (rule base_sat_cong) (use c m in simp_all)
  moreover have "open_sets (cancelUntil lev s) = open_sets s" using c m by (simp add: open_sets_def)
  ultimately show ?thesis using c by (simp add: keeps_def)
next
  case False
  then show ?thesis by (simp add: cancelUntil_def)
qed

lemma cancelUntil_follows:
  assumes "solver_wf s" "follows A (sv_trail_lim s) (sv_trail s)"
  shows "follows A (sv_trail_lim (cancelUntil lev s)) (sv_trail (cancelUntil lev s))"
proof (cases "lev < decisionLevel s")
  case True
  have lv: "level_wf s" by (rule solver_wf_parts(2)[OF assms(1)])
  then show ?thesis using follows_cut[OF assms(2), of lev] True cancelUntil_more[OF lv True]
    by (simp add: decisionLevel_def level_wf_def)
next
  case False
  then show ?thesis using assms(2) by (simp add: cancelUntil_def)
qed

lemma cancelUntil_inv:
  assumes "search_inv A s"
  shows "search_inv A (cancelUntil lev s)"
proof -
  note i = inv_parts[OF assms]
  have k: "keeps s (cancelUntil lev s)" by (rule cancelUntil_keeps_search[OF i(3)])
  then show ?thesis
    using assms cancelUntil_ready[OF i(1)] keeps_const[OF k] cancelUntil_follows[OF i(3)]
    by (simp add: search_inv_def keeps_def)
qed

lemma resolved_inv:
  assumes "search_at s (level_start s)" "const_asserted s" "sv_ok s" "follows A (sv_trail_lim s) (sv_trail s)"
    and ok: "learnt_ok s ls bt" and r: "resolved s ls bt t"
  shows "search_inv A t" "keeps s t" "card (open_sets t) < card (open_sets s)" "decisionLevel t = bt"
proof -
  note r' = r[unfolded resolved_def] and k = ok[unfolded learnt_ok_def]
  have wf: "solver_wf s" using assms(1) by (simp add: search_at_def)
  have lv: "level_wf s" by (rule solver_wf_parts(2)[OF wf])
  have bt: "bt < decisionLevel s" using k by blast
  show c: "card (open_sets t) < card (open_sets s)" using r' by blast
  show keep: "keeps s t" using r' c by (simp add: keeps_def)
  show "decisionLevel t = bt" using r' bt by (simp add: decisionLevel_def)
  let ?c = "cancelUntil bt s" and ?m = "sv_trail_lim s ! bt"
  note m = cancelUntil_more[OF lv bt]
  have lims: "\<forall>n\<in>set (sv_trail_lim s). n \<le> length (sv_trail s)" "sorted (sv_trail_lim s)" using lv by (simp_all add: level_wf_def)
  have fc: "follows A (take bt (sv_trail_lim s)) (take ?m (sv_trail s))"
    using cancelUntil_follows[OF wf assms(4), of bt] m by simp
  have wc: "level_wf ?c" using cancelUntil_wf[OF wf, of bt] solver_wf_parts(2) by blast
  have "take bt (sv_trail_lim s) = [] \<or> last (take bt (sv_trail_lim s)) < length (take ?m (sv_trail s))"
  proof (cases "bt = 0")
    case False
    then have "1 < length ls" using k by (cases ls) auto
    then have l1: "level s (var (ls ! 1)) = bt" "ls ! 1 \<in> set ls" using k by simp_all
    then have "neg_lit (ls ! 1) \<in> set (sv_trail ?c)" using cancelUntil_mem[OF lv bt, of "neg_lit (ls ! 1)"] k by simp
    then obtain i where i: "i < length (sv_trail ?c)" "sv_trail ?c ! i = neg_lit (ls ! 1)" unfolding in_set_conv_nth by blast
    have "decisionLevel ?c = bt" using m(5) bt by (simp add: decisionLevel_def)
    then have "level_start ?c \<le> i" using current_level_iff[OF wc i(1)] i(2) l1(1) m(1) by simp
    then show ?thesis using i(1) m(4,5) by (auto simp: level_start_def)
  qed simp
  moreover have "\<forall>n\<in>set (take bt (sv_trail_lim s)). n \<le> length (take ?m (sv_trail s))"
    using wc m by (simp add: level_wf_def)
  ultimately have "follows A (take bt (sv_trail_lim s)) (take ?m (sv_trail s) @ [ls ! 0])" using follows_extend[OF fc] by blast
  moreover have "const_asserted t" by (rule keeps_const[OF keep assms(2)])
  ultimately show "search_inv A t" using r' assms(3) by (simp add: search_inv_def)
qed

subsection \<open>Decisions\<close>

text \<open>What a round lowers, lexicographically.\<close>

definition cost :: "lit list \<Rightarrow> solver \<Rightarrow> nat \<times> nat" where
  "cost A s = (card (open_sets s), (nVars s - length (sv_trail s)) + (length A - decisionLevel s))"

lemma newDecisionLevel_fields:
  "sv_trail (newDecisionLevel s) = sv_trail s" "sv_trail_lim (newDecisionLevel s) = sv_trail_lim s @ [length (sv_trail s)]"
  "sv_qhead (newDecisionLevel s) = sv_qhead s" "sv_ok (newDecisionLevel s) = sv_ok s" "nVars (newDecisionLevel s) = nVars s"
  "used_vars (newDecisionLevel s) = used_vars s" "db (newDecisionLevel s) = db s" "sv_ca (newDecisionLevel s) = sv_ca s"
  "root_trail (newDecisionLevel s) = root_trail s" "sv_const_true (newDecisionLevel s) = sv_const_true s"
  "value_lit (newDecisionLevel s) = value_lit s" "value_var (newDecisionLevel s) = value_var s"
  "decisionLevel (newDecisionLevel s) = Suc (decisionLevel s)"
  by (cases "sv_trail_lim s";
      simp add: newDecisionLevel_def nVars_def used_vars_def root_trail_def value_lit_def value_var_def decisionLevel_def fun_eq_iff)+

lemma keeps_newDecisionLevel: "keeps s (newDecisionLevel s)"
  by (simp add: keeps_def base_sat_def open_sets_def newDecisionLevel_fields)

lemma dummy_inv:
  assumes inv: "search_inv A s" and q: "sv_qhead s = length (sv_trail s)"
    and d: "decisionLevel s < length A" "A ! decisionLevel s \<in> set (sv_trail s)"
  shows "search_inv A (newDecisionLevel s)"
proof -
  have "follows A (sv_trail_lim s @ [length (sv_trail s)]) (sv_trail s)"
    by (rule follows_dummy) (use inv d in \<open>simp_all add: search_inv_def decisionLevel_def\<close>)
  moreover have "const_asserted (newDecisionLevel s)"
    by (rule keeps_const[OF keeps_newDecisionLevel]) (use inv in \<open>simp add: search_inv_def\<close>)
  ultimately show ?thesis using inv newDecisionLevel_search(1)[of s] q by (simp add: search_inv_def newDecisionLevel_fields)
qed

definition fails :: "lit list \<Rightarrow> solver \<Rightarrow> lit \<Rightarrow> solver \<Rightarrow> bool" where
  "fails A s p t \<longleftrightarrow> search_inv A t \<and> sv_trail t = sv_trail s \<and> keeps s t \<and> p \<in> set A \<and> neg_lit p \<in> set (sv_trail t) \<and>
     decisionLevel t < length A"

definition goes_on :: "lit list \<Rightarrow> solver \<Rightarrow> bool \<Rightarrow> lit \<Rightarrow> bool \<Rightarrow> solver \<Rightarrow> bool" where
  "goes_on A s b p b' t \<longleftrightarrow> search_inv A t \<and> sv_trail t = sv_trail s \<and> sv_qhead t = sv_qhead s \<and> keeps s t \<and>
     (if p = lit_Undef then length A \<le> decisionLevel t
      else decisionLevel t < length A \<and> p = A ! decisionLevel t \<and> value_lit t p = LUndef) \<and>
     decisionLevel s \<le> decisionLevel t \<and> (b' \<longrightarrow> b \<or> decisionLevel s < length A \<and> decisionLevel s < decisionLevel t)"

lemma fails_step: "fails A (newDecisionLevel s) p t \<Longrightarrow> fails A s p t"
  using keeps_trans[OF keeps_newDecisionLevel] by (auto simp: fails_def newDecisionLevel_fields)

lemma goes_on_step: "goes_on A (newDecisionLevel s) True p b' t \<Longrightarrow> decisionLevel s < length A \<Longrightarrow> goes_on A s b p b' t"
  using keeps_trans[OF keeps_newDecisionLevel] by (auto simp: goes_on_def newDecisionLevel_fields)

lemma assume_loop_spec:
  assumes A: "\<forall>p\<in>set A. var p \<in> used_vars s0"
  shows "search_inv A s \<Longrightarrow> sv_qhead s = length (sv_trail s) \<Longrightarrow> used_vars s = used_vars s0 \<Longrightarrow> ps = drop (decisionLevel s) A \<Longrightarrow>
    (\<forall>p t. assume_loop ps b s = Inl (p, t) \<longrightarrow> fails A s p t) \<and>
    (\<forall>p b' t. assume_loop ps b s = Inr (p, b', t) \<longrightarrow> goes_on A s b p b' t)"
proof (induction ps arbitrary: b s)
  case Nil
  then show ?case by (simp add: goes_on_def)
next
  case (Cons p ps)
  have dl: "decisionLevel s < length A" using Cons.prems(4) by (metis drop_all list.distinct(1) not_le)
  then have p: "p = A ! decisionLevel s" "ps = drop (Suc (decisionLevel s)) A"
    using Cons.prems(4) Cons_nth_drop_Suc[OF dl] by (metis list.inject)+
  then have pA: "p \<in> set A" using dl by simp
  have rng: "in_range s p" using A pA Cons.prems(3) used_vars_range by metis
  then have ne: "p \<noteq> lit_Undef" by (auto simp: in_range_def)
  note i = inv_parts[OF Cons.prems(1)]
  have wf: "assign_wf s" by (rule solver_wf_parts(1)[OF i(3)])
  show ?case
  proof (cases "value_lit s p")
    case LTrue
    then have tr: "A ! decisionLevel s \<in> set (sv_trail s)" using trail_value(1)[OF wf rng] p by simp
    have inv': "search_inv A (newDecisionLevel s)" by (rule dummy_inv[OF Cons.prems(1,2) dl tr])
    have "(\<forall>q t. assume_loop ps True (newDecisionLevel s) = Inl (q, t) \<longrightarrow> fails A (newDecisionLevel s) q t) \<and>
      (\<forall>q b' t. assume_loop ps True (newDecisionLevel s) = Inr (q, b', t) \<longrightarrow> goes_on A (newDecisionLevel s) True q b' t)"
      by (rule Cons.IH[OF inv']) (use Cons.prems p(2) in \<open>simp_all add: newDecisionLevel_fields\<close>)
    then show ?thesis using LTrue fails_step goes_on_step[OF _ dl] by simp
  next
    case LFalse
    then show ?thesis using Cons.prems(1,2) pA dl trail_value(2)[OF wf rng] by (simp add: fails_def)
  next
    case LUndef
    then show ?thesis using Cons.prems(1,2) p(1) dl ne by (simp add: goes_on_def)
  qed
qed

lemma decide_inv:
  assumes inv: "search_inv A s" and q: "sv_qhead s = length (sv_trail s)"
    and p: "var p \<in> used_vars s" "value_lit s p = LUndef" "decisionLevel s < length A \<Longrightarrow> p = A ! decisionLevel s"
  shows "\<exists>t. decide A p (newDecisionLevel s) = Some t \<and> search_inv A t \<and> keeps s t \<and>
    (cost A t, cost A s) \<in> less_than <*lex*> less_than"
proof -
  let ?n = "newDecisionLevel s"
  let ?t = "uncheckedEnqueue p None ?n"
  note i = inv_parts[OF inv]
  have fo: "follows A (sv_trail_lim s) (sv_trail s)" and ca: "const_asserted s" and ok: "sv_ok s" using inv by (simp_all add: search_inv_def)
  note n = newDecisionLevel_search[OF i(1) q ca]
  have pn: "var p \<in> used_vars ?n" "value_lit ?n p = LUndef" using p by (simp_all add: newDecisionLevel_fields)
  have r: "search_ready ?t" by (rule enqueue_search[OF n(1) pn]) (simp_all add: newDecisionLevel_fields)
  have wn: "solver_wf ?n" and wt: "solver_wf ?t" using n(1) r by (simp_all add: search_ready_def search_at_def)
  have rt: "root_trail ?t = root_trail s"
    using root_trail_enqueue[OF solver_wf_parts(2)[OF wn], of p None] by (simp add: newDecisionLevel_fields)
  have "open_sets ?t = open_sets s" by (simp add: open_sets_def rt used_vars_def newDecisionLevel_fields) (simp add: newDecisionLevel_def)
  then have k: "keeps s ?t"
    by (simp add: keeps_def base_sat_def rt newDecisionLevel_fields used_vars_def) (simp add: newDecisionLevel_def)
  have "follows A (sv_trail_lim ?t) (sv_trail ?t)"
    using follows_decide[OF fo i(6), of p] p(3) by (simp add: newDecisionLevel_fields decisionLevel_def)
  then have "search_inv A ?t" using r keeps_const[OF k ca] ok by (simp add: search_inv_def newDecisionLevel_fields)
  moreover have "length (sv_trail s) < nVars s"
    using trail_length_le[OF solver_wf_parts(1)[OF wt]] by (simp add: newDecisionLevel_fields)
  then have "(cost A ?t, cost A s) \<in> less_than <*lex*> less_than"
    using k by (auto simp: cost_def keeps_def newDecisionLevel_fields)
  moreover have "p \<noteq> lit_Undef" using used_vars_range[OF p(1)] by (auto simp: in_range_def)
  moreover have "decisionLevel s \<le> length A + length (sv_trail s)" using fo by (simp add: follows_def decisionLevel_def)
  then have "p \<noteq> lit_Undef \<Longrightarrow> decide A p ?n = Some ?t"
    using p pn used_vars_range[OF p(1)] trail_length_le[OF solver_wf_parts(1)[OF i(3)]]
    by (auto simp: decide_def enqueue_def newDecisionLevel_fields in_range_def)
  ultimately show ?thesis using k by blast
qed

lemma pickBranchLit_spec:
  assumes "set order = used_vars s"
  shows "if pickBranchLit order phase s = lit_Undef then \<forall>v\<in>used_vars s. value_var s v \<noteq> LUndef
    else var (pickBranchLit order phase s) \<in> used_vars s \<and> value_lit s (pickBranchLit order phase s) = LUndef"
proof (cases "List.find (\<lambda>v. value_var s v = LUndef) order")
  case None
  then have "\<forall>v\<in>used_vars s. value_var s v \<noteq> LUndef" using assms by (auto simp: find_None_iff)
  then show ?thesis using None by (simp add: pickBranchLit_def)
next
  case (Some v)
  then have v: "v \<in> used_vars s" "value_var s v = LUndef" using assms by (auto simp: find_Some_iff)
  then have "0 \<le> v" by (simp add: used_vars_def)
  then have "mkLit v b \<noteq> lit_Undef" for b using var_mkLit[of v b] by (metis var_special(1) neg_0_le_iff_le not_one_le_zero)
  then show ?thesis using Some v by (simp add: pickBranchLit_def value_lit_undef)
qed

text \<open>Once every variable in use is assigned and propagated, the trail is a model.\<close>

lemma full_trail_model:
  assumes inv: "search_inv A s" and q: "sv_qhead s = length (sv_trail s)" and full: "\<forall>v\<in>used_vars s. value_var s v \<noteq> LUndef"
    and \<sigma>: "\<forall>l\<in>set (sv_trail s). lit_val \<sigma> l"
  shows "base_sat s \<sigma>"
  unfolding base_sat_def
proof (intro conjI ballI)
  note i = inv_parts[OF inv]
  note p = solver_wf_parts[OF i(3)]
  fix cr assume cr: "cr \<in> set (db s)"
  have co: "clause_ok s (clause_lits s cr)" using p(3) cr by (simp add: db_wf_def)
  let ?x = "clause_lits s cr ! 0"
  have x: "?x \<in> set (clause_lits s cr)" "in_range s ?x" using first_two[OF co] by simp_all
  have "value_lit s ?x \<noteq> LUndef" using full stored_used(2)[OF i(3) cr x(1)] by (simp add: value_lit_undef)
  then consider "value_lit s ?x = LTrue" | "value_lit s ?x = LFalse" by (cases "value_lit s ?x") auto
  then show "clause_sat \<sigma> (clause_lits s cr)"
  proof cases
    case 1
    then have "?x \<in> set (sv_trail s)" using trail_value(1)[OF p(1) x(2)] by simp
    then show ?thesis using \<sigma> x(1) by (auto simp: clause_sat_def)
  next
    case 2
    then have nt: "neg_lit ?x \<in> set (sv_trail s)" using trail_value(2)[OF p(1) x(2)] by simp
    then obtain j where j: "j < length (sv_trail s)" "sv_trail s ! j = neg_lit ?x" unfolding in_set_conv_nth by blast
    have wfull: "watch_full s (occ_at (sv_watches s))" and pr: "processed s (occ_at (sv_watches s)) (length (sv_trail s))"
      using i(2) q by (simp_all add: search_at_def)
    obtain w where w: "w \<in> set (occ_at (sv_watches s) (lit_index (neg_lit ?x)))" "w_cref w = cr"
      using wfull[unfolded watch_full_def, THEN conjunct1, rule_format, OF cr, of 0] by auto
    have rn: "in_range s (neg_lit ?x)" using x(2) by simp
    have b: "w_blocker w \<in> set (clause_lits s cr)" using wfull w rn unfolding watch_full_def by blast
    have "quiet s w (level s (var (sv_trail s ! j)))" using pr j w(1) unfolding processed_def by force
    then have "w_blocker w \<in> set (sv_trail s)"
      using trail_value(1)[OF p(1) watch_okD(2)[OF p(8) rn w(1)]] by (simp add: quiet_def)
    then show ?thesis using \<sigma> b by (auto simp: clause_sat_def)
  qed
next
  fix l assume "l \<in> set (root_trail s)"
  then show "lit_val \<sigma> l" using \<sigma> root_trail_subset by blast
qed

text \<open>While assumptions are being made, every decision is one of them.\<close>

lemma decision_assumed:
  assumes inv: "search_inv A s" and dl: "decisionLevel s \<le> length A" and l: "decision s l"
  shows "l \<in> set A"
proof -
  note i = inv_parts[OF inv]
  obtain j where j: "j < length (sv_trail s)" "sv_trail s ! j = l" using l unfolding decision_def in_set_conv_nth by blast
  have "decisions_ok s" using i(2) by (simp add: search_at_def)
  then have "j \<in> set (sv_trail_lim s)" using j l by (auto simp: decisions_ok_def decision_def)
  then have ex: "\<exists>k. k < decisionLevel s \<and> sv_trail_lim s ! k = j" by (auto simp: in_set_conv_nth decisionLevel_def)
  have bd: "\<forall>k. k < decisionLevel s \<and> sv_trail_lim s ! k = j \<longrightarrow> k \<le> decisionLevel s" by simp
  define k where "k = (GREATEST k. k < decisionLevel s \<and> sv_trail_lim s ! k = j)"
  have k: "k < decisionLevel s" "sv_trail_lim s ! k = j" using GreatestI_ex_nat[OF ex] bd unfolding k_def by blast+
  have mx: "m \<le> k" if "m < decisionLevel s" "sv_trail_lim s ! m = j" for m
    unfolding k_def by (rule Greatest_le_nat[of _ _ "decisionLevel s"]) (use that in auto)
  have "sv_trail_lim s ! k < level_end (sv_trail_lim s) (sv_trail s) (Suc k)"
  proof (cases "Suc k < decisionLevel s")
    case True
    then have "sv_trail_lim s ! k \<le> sv_trail_lim s ! Suc k" using sorted_nth_mono[OF i(7)] by (simp add: decisionLevel_def)
    moreover have "sv_trail_lim s ! Suc k \<noteq> j" using mx[OF True] by fastforce
    ultimately show ?thesis using True k(2) by (simp add: level_end_def decisionLevel_def)
  next
    case False
    then show ?thesis using k j(1) by (simp add: level_end_def decisionLevel_def)
  qed
  moreover have "follows A (sv_trail_lim s) (sv_trail s)" "k < length (sv_trail_lim s)" "k < length A"
    using inv k dl by (simp_all add: search_inv_def decisionLevel_def)
  ultimately have "sv_trail s ! j = A ! k" unfolding follows_def k(2)[symmetric] by blast
  then show ?thesis using j(2) k dl by auto
qed

subsection \<open>Rounds\<close>

lemma set_lit_set: "set (lit_set ls) = set ls"
proof -
  have "set (fold (\<lambda>l c. if l \<in> set c then c else c @ [l]) ls a) = set a \<union> set ls" for a
    by (induction ls arbitrary: a) auto
  then show ?thesis by (simp add: lit_set_def)
qed

definition seen_clear :: "search_state \<Rightarrow> bool" where
  "seen_clear st \<longleftrightarrow> ss_seen st = replicate (nVars (ss_solver st)) False"

definition spent :: "search_state \<Rightarrow> int" where
  "spent st = ss_conflicts st + int (card (open_sets (ss_solver st)))"

text \<open>What an answer says of the state it is given in.\<close>

fun answer :: "search_opts \<Rightarrow> lit list \<Rightarrow> lbool \<Rightarrow> lit list \<Rightarrow> solver \<Rightarrow> bool" where
  "answer opts A LTrue c t \<longleftrightarrow> search_ready t \<and> const_asserted t \<and> c = [] \<and> set A \<subseteq> set (sv_trail t) \<and>
     (\<not> so_only_assumps opts \<longrightarrow> (\<forall>v\<in>used_vars t. value_var t v \<noteq> LUndef) \<and>
        (\<forall>\<sigma>. (\<forall>l\<in>set (sv_trail t). lit_val \<sigma> l) \<longrightarrow> base_sat t \<sigma>))"
| "answer opts A LFalse c t \<longleftrightarrow> solver_wf t \<and> const_asserted t \<and>
     (if c = [] then \<forall>\<sigma>. \<not> base_sat t \<sigma>
      else search_ready t \<and> (\<forall>x\<in>set c. neg_lit x \<in> set A) \<and> entails t (set c))"
| "answer opts A LUndef c t \<longleftrightarrow> search_ready t \<and> const_asserted t \<and> decisionLevel t = 0"

fun outcome_ok :: "search_opts \<Rightarrow> lit list \<Rightarrow> search_state \<Rightarrow> search_outcome \<Rightarrow> bool" where
  "outcome_ok opts A st (Continue st') \<longleftrightarrow> search_inv A (ss_solver st') \<and> seen_clear st' \<and> keeps (ss_solver st) (ss_solver st') \<and>
     (cost A (ss_solver st'), cost A (ss_solver st)) \<in> less_than <*lex*> less_than \<and> spent st' \<le> spent st"
| "outcome_ok opts A st (Return status c st') \<longleftrightarrow> seen_clear st' \<and> keeps (ss_solver st) (ss_solver st') \<and>
     answer opts A status c (ss_solver st') \<and> spent st' \<le> spent st + 1 \<and> (status = LUndef \<longrightarrow> spent st' \<le> spent st)"

lemma keeps_cost:
  assumes "keeps s t" "length (sv_trail s) \<le> length (sv_trail t)" "decisionLevel t = decisionLevel s"
    "(c, cost A t) \<in> less_than <*lex*> less_than"
  shows "(c, cost A s) \<in> less_than <*lex*> less_than"
  using assms by (cases c) (auto simp: cost_def keeps_def)

lemma keeps_spent:
  assumes "keeps (ss_solver st) (ss_solver st')" "ss_conflicts st' = ss_conflicts st"
  shows "spent st' \<le> spent st"
  using assms by (simp add: spent_def keeps_def)

lemma next_decision_spec:
  assumes inv: "search_inv A (ss_solver st)" and q: "sv_qhead (ss_solver st) = length (sv_trail (ss_solver st))"
    and seen: "seen_clear st" and A: "\<forall>p\<in>set A. var p \<in> used_vars (ss_solver st)"
    and ord: "\<And>n. set (so_order opts n) = used_vars (ss_solver st)"
  shows "\<exists>r. next_decision opts A st = Some r \<and> outcome_ok opts A st r"
proof -
  let ?s = "ss_solver st"
  note loop = assume_loop_spec[OF A inv q refl refl, of False]
  show ?thesis
  proof (cases "assume_loop (drop (decisionLevel ?s) A) False ?s")
    case (Inl r)
    obtain p t where r: "r = (p, t)" by (cases r)
    have f: "fails A ?s p t" using loop Inl r by blast
    note f' = f[unfolded fails_def]
    have sc: "ss_seen st = replicate (nVars t) False" using seen f' by (simp add: seen_clear_def keeps_def)
    have it: "search_inv A t" using f' by blast
    obtain out where out: "analyzeFinal (neg_lit p) (ss_seen st) t = Some (out, ss_seen st)" "neg_lit p \<in> set out"
      "\<forall>x\<in>set out. x = neg_lit p \<or> decision t (neg_lit x)" "entails t (set out)"
      using analyzeFinal_spec[OF inv_parts(2)[OF it], of "neg_lit p"] f' unfolding sc by blast
    have "neg_lit x \<in> set A" if "x \<in> set out" for x
      using out(3) that decision_assumed[OF it] f' by auto
    moreover have "lit_set out \<noteq> []" using set_lit_set[of out] out(2) by force
    ultimately have "answer opts A LFalse (lit_set out) t"
      using out(4) inv_parts[OF it] it by (simp add: set_lit_set search_inv_def)
    then show ?thesis using Inl r out(1) seen f' sc
      by (simp add: next_decision_def seen_clear_def) (simp add: spent_def keeps_def)
  next
    case (Inr r)
    obtain p b' t where r: "r = (p, b', t)" by (cases r) auto
    have g: "goes_on A ?s False p b' t" using loop Inr r by blast
    note g' = g[unfolded goes_on_def]
    have it: "search_inv A t" and k: "keeps ?s t" using g' by blast+
    have qt: "sv_qhead t = length (sv_trail t)" using g' q by simp
    have uv: "used_vars t = used_vars ?s" and nv: "nVars t = nVars ?s" using k by (simp_all add: keeps_def)
    have cl: "cost A t = cost A ?s \<or> (cost A t, cost A ?s) \<in> less_than <*lex*> less_than"
      using g' k by (auto simp: cost_def keeps_def)
    have sc: "seen_clear (st\<lparr>ss_solver := u\<rparr>)" "seen_clear (st\<lparr>ss_decisions := n, ss_solver := u\<rparr>)" if "keeps t u" for u n
      using seen nv that by (simp_all add: seen_clear_def keeps_def)
    have sp: "spent (st\<lparr>ss_solver := u\<rparr>) \<le> spent st" "spent (st\<lparr>ss_decisions := n, ss_solver := u\<rparr>) \<le> spent st" if "keeps t u" for u n
      using keeps_trans[OF k that] by (simp_all add: spent_def keeps_def)
    have sp1: "spent (st\<lparr>ss_decisions := n, ss_solver := u\<rparr>) \<le> spent st + 1" if "keeps t u" for u n
      using sp(2)[OF that, of n] by linarith
    have asm: "set A \<subseteq> set (sv_trail t)" if "p = lit_Undef"
      using follows_assumed[of A "sv_trail_lim t" "sv_trail t"] g' that by (auto simp: search_inv_def decisionLevel_def)
    have dec: "\<exists>u. decide A l (newDecisionLevel t) = Some u \<and> search_inv A u \<and> keeps t u \<and>
        (cost A u, cost A ?s) \<in> less_than <*lex*> less_than"
      if l: "var l \<in> used_vars t" "value_lit t l = LUndef" "decisionLevel t < length A \<Longrightarrow> l = A ! decisionLevel t" for l
    proof -
      obtain u where u: "decide A l (newDecisionLevel t) = Some u" "search_inv A u" "keeps t u"
        "(cost A u, cost A t) \<in> less_than <*lex*> less_than" using decide_inv[OF it qt l] by blast
      moreover have "(cost A u, cost A ?s) \<in> less_than <*lex*> less_than"
        using cl u(4) lex_prod_def trans_less_than by (metis (no_types) transD trans_lex_prod)
      ultimately show ?thesis by blast
    qed
    show ?thesis
    proof (cases "p = lit_Undef")
      case True
      note pu = this
      show ?thesis
      proof (cases "so_only_assumps opts \<and> decisionLevel t = length A \<or> b'")
        case True
        show ?thesis
        proof (cases "so_only_assumps opts \<and> decisionLevel t = length A")
          case True
          have "answer opts A LTrue [] t" using asm[OF pu] True it by (simp add: search_inv_def)
          then show ?thesis using Inr r True pu k sc[OF keeps_refl] sp[OF keeps_refl] by (simp add: next_decision_def) 
        next
          case False
          then have b': "b'" using \<open>so_only_assumps opts \<and> decisionLevel t = length A \<or> b'\<close> by blast
          then have "decisionLevel ?s < length A" "decisionLevel ?s < decisionLevel t" using g' by simp_all
          then have "(cost A t, cost A ?s) \<in> less_than <*lex*> less_than" using g' k by (auto simp: cost_def keeps_def)
          then show ?thesis using Inr r False b' pu k it sc[OF keeps_refl] sp[OF keeps_refl] by (auto simp: next_decision_def)
        qed
      next
        case False
        let ?n = "newDecisionLevel t"
        let ?l = "pickBranchLit (so_order opts (ss_decisions st)) (so_phase opts (ss_decisions st)) ?n"
        have o: "set (so_order opts (ss_decisions st)) = used_vars ?n" using ord uv by (simp add: newDecisionLevel_fields)
        have pk: "if ?l = lit_Undef then \<forall>v\<in>used_vars t. value_var t v \<noteq> LUndef
          else var ?l \<in> used_vars t \<and> value_lit t ?l = LUndef"
          using pickBranchLit_spec[OF o, of "so_phase opts (ss_decisions st)"] unfolding newDecisionLevel_fields .
        show ?thesis
        proof (cases "?l = lit_Undef")
          case True
          have kn: "keeps t ?n" by (rule keeps_newDecisionLevel)
          have full: "\<forall>v\<in>used_vars t. value_var t v \<noteq> LUndef" using pk True by simp
          have "base_sat ?n \<sigma>" if "\<forall>l\<in>set (sv_trail ?n). lit_val \<sigma> l" for \<sigma>
            using full_trail_model[OF it qt full, of \<sigma>] that kn by (simp add: keeps_def newDecisionLevel_fields)
          moreover have "search_ready ?n" "const_asserted ?n"
            using newDecisionLevel_search(1)[of t] it qt keeps_const[OF kn] by (simp_all add: search_inv_def)
          ultimately have "answer opts A LTrue [] ?n" using full asm[OF pu] by (simp add: newDecisionLevel_fields)
          then show ?thesis using Inr r False pu True keeps_trans[OF k kn] sc[OF kn] sp1[OF kn] by (auto simp: next_decision_def Let_def)
        next
          case ne: False
          have "length A \<le> decisionLevel t" using g' pu by simp
          then obtain u where u: "decide A ?l ?n = Some u" "search_inv A u" "keeps t u"
            "(cost A u, cost A ?s) \<in> less_than <*lex*> less_than" using dec[of ?l] pk ne by auto
          then show ?thesis using Inr r False pu ne keeps_trans[OF k u(3)] sc[OF u(3)] sp[OF u(3)]
            by (auto simp: next_decision_def Let_def)
        qed
      qed
    next
      case False
      then have p: "decisionLevel t < length A" "p = A ! decisionLevel t" "value_lit t p = LUndef" using g' by argo+
      then have "var p \<in> used_vars t" using A uv by simp
      from dec[OF this p(3)] obtain u where u: "decide A p (newDecisionLevel t) = Some u" "search_inv A u" "keeps t u"
        "(cost A u, cost A ?s) \<in> less_than <*lex*> less_than" using p(2) by blast
      then show ?thesis using Inr r False keeps_trans[OF k u(3)] sc[OF u(3)] sp[OF u(3)]
        by (simp add: next_decision_def Let_def)
    qed
  qed
qed

lemma handle_conflict_spec:
  assumes at: "search_at s (level_start s)" "conflicting s cr" "decisionLevel s = 0 \<Longrightarrow> \<forall>\<sigma>. \<not> base_sat s \<sigma>"
    and inv: "const_asserted s" "sv_ok s" "follows A (sv_trail_lim s) (sv_trail s)" and st: "ss_solver st = s" "seen_clear st"
  shows "\<exists>r. handle_conflict opts A (Some cr) st = Some r \<and> outcome_ok opts A st r"
proof (cases "decisionLevel s = 0")
  case True
  then have "answer opts A LFalse [] s" using at inv(1) by (simp add: search_at_def)
  then show ?thesis using True st by (simp add: handle_conflict_def seen_clear_def spent_def)
next
  case False
  have sc: "ss_seen st = replicate (nVars s) False" using st by (simp add: seen_clear_def)
  obtain ls bt t where t: "resolve_conflict (so_ccmin_mode opts) cr (ss_seen st) s = Some (ss_seen st, t)"
    "learnt_ok s ls bt" "resolved s ls bt t"
    using resolve_conflict_spec[OF at(1,2)] False unfolding sc by blast
  note r = resolved_inv[OF at(1) inv t(2,3)]
  let ?u = "if \<not> ss_prop_assumps st \<and> decisionLevel t > 0 \<and> decisionLevel t < length A then cancelUntil 0 t else t"
  have u: "search_inv A ?u" "keeps t ?u"
    using r(1) cancelUntil_inv[OF r(1), of 0] cancelUntil_keeps_search[OF inv_parts(3)[OF r(1)], of 0] by simp_all
  have k: "keeps s ?u" by (rule keeps_trans[OF r(2) u(2)])
  have lt: "card (open_sets ?u) < card (open_sets s)" using u(2) r(3) unfolding keeps_def by linarith
  then have "(cost A ?u, cost A s) \<in> less_than <*lex*> less_than" by (simp add: cost_def)
  moreover have "spent (st\<lparr>ss_conflicts := ss_conflicts st + 1, ss_seen := x, ss_solver := ?u\<rparr>) \<le> spent st" for x
    using lt st by (simp add: spent_def)
  moreover have "nVars ?u = nVars s" using k by (simp add: keeps_def)
  ultimately have "outcome_ok opts A st (Continue (if \<not> ss_prop_assumps st \<and> decisionLevel t > 0 \<and> decisionLevel t < length A
      then st\<lparr>ss_conflicts := ss_conflicts st + 1, ss_seen := ss_seen st, ss_prop_assumps := True, ss_solver := cancelUntil 0 t\<rparr>
      else st\<lparr>ss_conflicts := ss_conflicts st + 1, ss_seen := ss_seen st, ss_solver := t\<rparr>))"
    using u(1) k st
    by (cases "\<not> ss_prop_assumps st \<and> decisionLevel t > 0 \<and> decisionLevel t < length A")
      (auto simp: seen_clear_def spent_def)
  moreover have "handle_conflict opts A (Some cr) st = Some (Continue
     (if \<not> ss_prop_assumps st \<and> decisionLevel t > 0 \<and> decisionLevel t < length A
      then st\<lparr>ss_conflicts := ss_conflicts st + 1, ss_seen := ss_seen st, ss_prop_assumps := True, ss_solver := cancelUntil 0 t\<rparr>
      else st\<lparr>ss_conflicts := ss_conflicts st + 1, ss_seen := ss_seen st, ss_solver := t\<rparr>))"
    using False st t(1) by (simp add: handle_conflict_def Let_def)
  ultimately show ?thesis by blast
qed

text \<open>The same where watchers of deleted clauses are left in the lists: the invariants hold once these are cleaned.\<close>

definition lazy_inv :: "lit list \<Rightarrow> solver \<Rightarrow> bool" where
  "lazy_inv A s \<longleftrightarrow> lazy_ok s \<and> search_inv A (cleaned s)"

definition lazy_answer :: "search_opts \<Rightarrow> lit list \<Rightarrow> lbool \<Rightarrow> lit list \<Rightarrow> solver \<Rightarrow> bool" where
  "lazy_answer opts A status c t \<longleftrightarrow> lazy_ok t \<and> answer opts A status c (cleaned t)"

definition clean_state :: "search_state \<Rightarrow> search_state" where
  "clean_state st = st\<lparr>ss_solver := cleaned (ss_solver st)\<rparr>"

fun lazy_outcome :: "search_opts \<Rightarrow> lit list \<Rightarrow> search_state \<Rightarrow> search_outcome \<Rightarrow> bool" where
  "lazy_outcome opts A st (Continue st') \<longleftrightarrow> lazy_ok (ss_solver st') \<and> outcome_ok opts A st (Continue (clean_state st'))"
| "lazy_outcome opts A st (Return status c st') \<longleftrightarrow> lazy_ok (ss_solver st') \<and> outcome_ok opts A st (Return status c (clean_state st'))"

lemma search_cleaned_simps [simp]:
  "keeps (cleaned s) t = keeps s t" "keeps s (cleaned t) = keeps s t" "cost A (cleaned s) = cost A s"
  "entails (cleaned s) C = entails s C" "ss_solver (clean_state st) = cleaned (ss_solver st)" "ss_seen (clean_state st) = ss_seen st"
  "seen_clear (clean_state st) = seen_clear st" "spent (clean_state st) = spent st"
  by (simp_all add: keeps_def cost_def entails_def clean_state_def seen_clear_def spent_def)

lemma search_inv_lazy: "search_inv A s \<Longrightarrow> lazy_inv A s"
  using wf_lazy(1)[of s] wf_cleaned(3)[of s] inv_parts(3)[of A s] by (simp add: lazy_inv_def search_inv_def)

lemma answer_lazy:
  assumes "answer opts A status c t"
  shows "lazy_answer opts A status c t"
proof -
  have "solver_wf t" using assms by (cases status) (simp_all add: search_ready_def search_at_def)
  from wf_lazy(1)[OF this] wf_cleaned(1,3)[OF this] show ?thesis using assms by (cases status) (auto simp: lazy_answer_def)
qed

lemma outcome_lazy: "outcome_ok opts A st r \<Longrightarrow> lazy_outcome opts A st r"
  using search_inv_lazy[of A] answer_lazy[of opts A] by (cases r) (auto simp: lazy_inv_def lazy_answer_def)

lemma propagate_lazy:
  assumes inv: "lazy_inv A s"
  shows "\<exists>c t. propagate s = Some (c, t) \<and> lazy_ok t \<and> keeps s t \<and> const_asserted t \<and> follows A (sv_trail_lim t) (sv_trail t) \<and>
    sv_trail_lim t = sv_trail_lim s \<and> length (sv_trail s) \<le> length (sv_trail t) \<and>
    (case c of None \<Rightarrow> lazy_inv A t \<and> sv_qhead t = length (sv_trail t)
     | Some cr \<Rightarrow> search_at t (level_start t) \<and> conflicting t cr \<and> (decisionLevel t = 0 \<longrightarrow> (\<forall>\<sigma>. \<not> base_sat t \<sigma>)))"
proof (cases "sv_qhead s = length (sv_trail s)")
  case True
  then have "propagate s = Some (None, s)" by (simp add: propagate_def)
  then show ?thesis using inv True by (auto simp: lazy_inv_def search_inv_def)
next
  case False
  have l: "lazy_ok s" and c: "search_inv A (cleaned s)" using inv by (simp_all add: lazy_inv_def)
  have p: "propagate s = propagate (cleaned s)" using propagate_cleaned[OF l] False by simp
  obtain c t where t: "propagate s = Some (c, t)" "keeps s t" "const_asserted t" "follows A (sv_trail_lim t) (sv_trail t)"
    "sv_trail_lim t = sv_trail_lim s" "length (sv_trail s) \<le> length (sv_trail t)"
    "case c of None \<Rightarrow> search_inv A t \<and> sv_qhead t = length (sv_trail t)
     | Some cr \<Rightarrow> search_at t (level_start t) \<and> conflicting t cr \<and> (decisionLevel t = 0 \<longrightarrow> (\<forall>\<sigma>. \<not> base_sat t \<sigma>))"
    using propagate_inv[OF c] unfolding p[symmetric] by auto
  have "solver_wf t" using t(7) inv_parts(3)[of A t] by (cases c) (simp_all add: search_at_def)
  then show ?thesis using t wf_lazy(1)[of t] search_inv_lazy[of A t] by (cases c) auto
qed

lemma simplify_inv:
  assumes inv: "lazy_inv A s" and s: "sv_qhead s = length (sv_trail s)" "decisionLevel s = 0"
  shows "\<exists>t. simplify idle s = Some (True, t) \<and> lazy_inv A t \<and> keeps s t \<and> sv_trail t = sv_trail s \<and>
    sv_trail_lim t = sv_trail_lim s \<and> sv_qhead t = sv_qhead s \<and> without (redundant idle s) s t"
proof -
  have i: "search_inv A (cleaned s)" using inv by (simp add: lazy_inv_def)
  have l: "lazy_wf s" using inv inv_parts(3)[OF i] by (simp add: lazy_wf_def lazy_inv_def)
  have r: "reason_ok s" using inv_parts(2)[OF i] by (simp add: search_at_def cleaned_def)
  have l0: "sv_trail_lim s = []" "sv_ok s" using s(2) i by (simp_all add: decisionLevel_def search_inv_def)
  obtain t where t: "simplify idle s = Some (True, t)" "without (redundant idle s) s t"
    using simplify_without[OF l r l0 s(1)] by blast
  note f = without_fields[OF t(2)] and b = without_base[OF t(2) l redundant_root[OF l l0(1)]]
  have k: "keeps s t" using f b by (simp add: keeps_def)
  have "search_ready (cleaned t)" using without_ready(3)[OF t(2) l] i by (simp add: search_inv_def)
  moreover have "const_asserted t" by (rule keeps_const[OF k]) (use i in \<open>simp add: search_inv_def\<close>)
  ultimately have "lazy_inv A t"
    using i f without_ready(1)[OF t(2) l] by (simp add: lazy_inv_def search_inv_def lazy_wf_def)
  then show ?thesis using t k f by (intro exI[of _ t]) simp
qed

lemma next_decision_lazy:
  assumes inv: "lazy_inv A (ss_solver st)" and q: "sv_qhead (ss_solver st) = length (sv_trail (ss_solver st))"
    and seen: "seen_clear st" and A: "\<forall>p\<in>set A. var p \<in> used_vars (ss_solver st)"
    and ord: "\<And>n. set (so_order opts n) = used_vars (ss_solver st)"
  shows "\<exists>r. next_decision opts A st = Some r \<and> lazy_outcome opts A st r"
proof -
  let ?ol = "live_lists (ss_solver st)"
  have cs: "clean_state st = rewatch ?ol st" by (simp add: clean_state_def rewatch_def cleaned_def)
  have "\<exists>r. next_decision opts A (clean_state st) = Some r \<and> outcome_ok opts A (clean_state st) r"
    by (rule next_decision_spec) (use inv q seen A ord in \<open>simp_all add: lazy_inv_def\<close>)
  then obtain r where r: "next_decision opts A st = Some r" "outcome_ok opts A (clean_state st) (rewatch_out ?ol r)"
    unfolding cs next_decision_rewatch by auto
  note w = same_watches_lazy[OF next_decision_same[OF r(1)]]
  have c: "clean_state (out_state r) = rewatch ?ol (out_state r)" using w(1) by (simp add: clean_state_def rewatch_def cleaned_def)
  have "lazy_ok (ss_solver (out_state r))" using w(2) inv by (simp add: lazy_inv_def)
  then have "lazy_outcome opts A st r" using r(2) c by (cases r) simp_all
  then show ?thesis using r(1) by blast
qed

definition search_pre :: "search_opts \<Rightarrow> lit list \<Rightarrow> search_state \<Rightarrow> bool" where
  "search_pre opts A st \<longleftrightarrow> lazy_inv A (ss_solver st) \<and> seen_clear st \<and> (\<forall>p\<in>set A. var p \<in> used_vars (ss_solver st)) \<and>
     (\<forall>n. set (so_order opts n) = used_vars (ss_solver st))"

lemma outcome_from:
  assumes k: "keeps (ss_solver st) (ss_solver st1)" and len: "length (sv_trail (ss_solver st)) \<le> length (sv_trail (ss_solver st1))"
    "sv_trail_lim (ss_solver st1) = sv_trail_lim (ss_solver st)" and c: "ss_conflicts st1 = ss_conflicts st"
    and o: "lazy_outcome opts A st1 r"
  shows "lazy_outcome opts A st r"
proof -
  have sp: "spent st1 \<le> spent st" by (rule keeps_spent) (use k c in simp_all)
  have dl: "decisionLevel (ss_solver st1) = decisionLevel (ss_solver st)" using len(2) by (simp add: decisionLevel_def)
  show ?thesis
  proof (cases r)
    case (Continue st')
    then show ?thesis using o sp keeps_trans[OF k] keeps_cost[OF k len(1) dl] by auto
  next
    case (Return status c st')
    then show ?thesis using o sp keeps_trans[OF k] by auto
  qed
qed

lemma next_decision_open: "next_decision opts A st \<noteq> Some (Return LUndef c st')"
  by (auto simp: next_decision_def Let_def bind_eq_Some_conv split: if_splits sum.splits)

lemma search_round_spec:
  assumes pre: "search_pre opts A st"
  shows "\<exists>r. search_round opts A nof st = Some r \<and> lazy_outcome opts A st r \<and>
    (\<forall>c st'. r = Return LUndef c st' \<longrightarrow> nof \<le> ss_conflicts st')"
proof -
  let ?s = "ss_solver st"
  have inv: "lazy_inv A ?s" using pre by (simp add: search_pre_def)
  obtain c t where t: "propagate ?s = Some (c, t)" "lazy_ok t" "keeps ?s t" "const_asserted t" "follows A (sv_trail_lim t) (sv_trail t)"
    "sv_trail_lim t = sv_trail_lim ?s" "length (sv_trail ?s) \<le> length (sv_trail t)"
    "case c of None \<Rightarrow> lazy_inv A t \<and> sv_qhead t = length (sv_trail t)
     | Some cr \<Rightarrow> search_at t (level_start t) \<and> conflicting t cr \<and> (decisionLevel t = 0 \<longrightarrow> (\<forall>\<sigma>. \<not> base_sat t \<sigma>))"
    using propagate_lazy[OF inv] by blast
  let ?st = "st\<lparr>ss_solver := t\<rparr>"
  have from_t: "lazy_outcome opts A st r" if "lazy_outcome opts A ?st r" for r
    by (rule outcome_from[OF _ _ _ _ that]) (use t in simp_all)
  have ok: "sv_ok t" using t(3) inv by (simp add: keeps_def lazy_inv_def search_inv_def)
  have sc: "seen_clear ?st" using pre t(3) by (simp add: search_pre_def seen_clear_def keeps_def)
  have uv: "used_vars t = used_vars ?s" using t(3) by (simp add: keeps_def)
  show ?thesis
  proof (cases c)
    case (Some cr)
    have cf: "search_at t (level_start t)" "conflicting t cr" "decisionLevel t = 0 \<Longrightarrow> \<forall>\<sigma>. \<not> base_sat t \<sigma>"
      using t(8) Some by simp_all
    obtain r where r: "handle_conflict opts A (Some cr) ?st = Some r" "lazy_outcome opts A ?st r"
      using handle_conflict_spec[OF cf t(4) ok t(5) _ sc, of opts] outcome_lazy by fastforce
    moreover have "r \<noteq> Return LUndef c' st'" for c' st'
      using r(1) by (auto simp: handle_conflict_def Let_def bind_eq_Some_conv split: if_splits)
    ultimately show ?thesis using Some t(1) from_t by (simp add: search_round_def)
  next
    case None
    then have it: "lazy_inv A t" "sv_qhead t = length (sv_trail t)" using t(8) by simp_all
    then have lt: "lazy_ok t" "search_inv A (cleaned t)" by (simp_all add: lazy_inv_def)
    show ?thesis
    proof (cases "so_restarts opts \<and> nof \<ge> 0 \<and> ss_conflicts st \<ge> nof")
      case True
      let ?c = "cancelUntil 0 t"
      have ic: "search_inv A (cleaned ?c)" and kc: "keeps t ?c"
        using cancelUntil_inv[OF lt(2), of 0] cancelUntil_keeps_search[OF inv_parts(3)[OF lt(2)], of 0]
        by (simp_all flip: cancelUntil_cleaned(1))
      have "sv_trail_lim ?c = []"
        using cancelUntil_0_lim[OF inv_parts(3)[OF lt(2)]] by (simp flip: cancelUntil_cleaned(1))
      then have "answer opts A LUndef [] (cleaned ?c)" using ic by (simp add: search_inv_def decisionLevel_def)
      moreover have "seen_clear (st\<lparr>ss_solver := ?c\<rparr>)" using sc kc by (simp add: seen_clear_def keeps_def)
      moreover have "spent (st\<lparr>ss_solver := ?c\<rparr>) \<le> spent ?st" using kc by (simp add: spent_def keeps_def)
      ultimately have "lazy_outcome opts A ?st (Return LUndef [] (st\<lparr>ss_solver := ?c\<rparr>))"
        using kc lt(1) by (simp add: cancelUntil_cleaned(2))
      from from_t[OF this] show ?thesis using True None t(1) ok by (simp add: search_round_def)
    next
      case no_restart: False
      show ?thesis
      proof (cases "decisionLevel t = 0")
        case True
        obtain u where u: "simplify (so_idle opts (ss_simplified st)) t = Some (True, u)" "lazy_inv A u" "keeps t u"
          "sv_trail u = sv_trail t" "sv_trail_lim u = sv_trail_lim t" "sv_qhead u = sv_qhead t"
          using simplify_inv[OF it True] by blast
        let ?u = "st\<lparr>ss_solver := u, ss_simplified := ss_simplified st + 1\<rparr>"
        have vu: "used_vars u = used_vars ?s" using u(3) uv by (simp add: keeps_def)
        have "seen_clear ?u" using sc u(3) by (simp add: seen_clear_def keeps_def)
        then obtain r where r: "next_decision opts A ?u = Some r" "lazy_outcome opts A ?u r"
          using next_decision_lazy[of A ?u opts] u it pre vu by (auto simp: search_pre_def)
        have "lazy_outcome opts A ?st r" by (rule outcome_from[OF _ _ _ _ r(2)]) (use u in simp_all)
        then show ?thesis using True no_restart None t(1) ok from_t u(1) r(1) next_decision_open
          by (auto simp: search_round_def)
      next
        case False
        obtain r where "next_decision opts A ?st = Some r" "lazy_outcome opts A ?st r"
          using next_decision_lazy[of A ?st opts] it sc pre uv by (auto simp: search_pre_def)
        then show ?thesis using False no_restart None t(1) ok from_t next_decision_open by (auto simp: search_round_def)
      qed
    qed
  qed
qed

subsection \<open>Termination\<close>

lemma search_pre_step:
  "search_pre opts A st \<Longrightarrow> keeps (ss_solver st) (ss_solver st') \<Longrightarrow> lazy_inv A (ss_solver st') \<Longrightarrow> seen_clear st' \<Longrightarrow>
   search_pre opts A st'"
  by (simp add: search_pre_def keeps_def)

lemma search_loop_spec:
  "search_pre opts A st \<Longrightarrow>
   \<exists>status c st'. search_loop opts A nof st = Some (status, c, st') \<and> seen_clear st' \<and> keeps (ss_solver st) (ss_solver st') \<and>
     lazy_answer opts A status c (ss_solver st') \<and> (status = LUndef \<longrightarrow> spent st' \<le> spent st \<and> nof \<le> ss_conflicts st')"
proof (induction "cost A (ss_solver st)" arbitrary: st rule: wf_induct_rule[OF wf_lex_prod[OF wf_less_than wf_less_than]])
  case (1 st)
  obtain r where r: "search_round opts A nof st = Some r" "lazy_outcome opts A st r"
    "\<forall>c st'. r = Return LUndef c st' \<longrightarrow> nof \<le> ss_conflicts st'"
    using search_round_spec[OF 1(2)] by blast
  show ?case
  proof (cases r)
    case (Continue st')
    then have o: "lazy_inv A (ss_solver st')" "seen_clear st'" "keeps (ss_solver st) (ss_solver st')"
      "(cost A (ss_solver st'), cost A (ss_solver st)) \<in> less_than <*lex*> less_than" "spent st' \<le> spent st"
      using r(2) by (simp_all add: lazy_inv_def)
    obtain status c st'' where "search_loop opts A nof st' = Some (status, c, st'')" "seen_clear st''"
      "keeps (ss_solver st') (ss_solver st'')" "lazy_answer opts A status c (ss_solver st'')"
      "status = LUndef \<longrightarrow> spent st'' \<le> spent st' \<and> nof \<le> ss_conflicts st''"
      using 1(1)[OF o(4) search_pre_step[OF 1(2) o(3,1,2)]] by blast
    moreover from this(1) have "search_loop opts A nof st = Some (status, c, st'')"
      using r(1) Continue by (subst search_loop.simps) simp
    ultimately show ?thesis using keeps_trans[OF o(3)] o(5) by fastforce
  next
    case (Return status c st')
    then have "search_loop opts A nof st = Some (status, c, st')" using r(1) by (subst search_loop.simps) simp
    then show ?thesis using Return r(2,3) by (auto simp: lazy_answer_def)
  qed
qed

lemma search_run_spec:
  assumes pre: "search_pre opts A st"
  shows "\<exists>status c st'. search opts A nof st = Some (status, c, st') \<and> seen_clear st' \<and> keeps (ss_solver st) (ss_solver st') \<and>
    lazy_answer opts A status c (ss_solver st') \<and>
    (status = LUndef \<longrightarrow> int (card (open_sets (ss_solver st'))) + nof \<le> int (card (open_sets (ss_solver st))))"
proof -
  let ?st = "st\<lparr>ss_conflicts := 0, ss_prop_assumps := so_prop_assumps opts\<rparr>"
  have "search_pre opts A ?st" using pre by (simp add: search_pre_def seen_clear_def)
  then obtain status c st' where "search_loop opts A nof ?st = Some (status, c, st')" "seen_clear st'"
    "keeps (ss_solver ?st) (ss_solver st')" "lazy_answer opts A status c (ss_solver st')"
    "status = LUndef \<longrightarrow> spent st' \<le> spent ?st \<and> nof \<le> ss_conflicts st'"
    using search_loop_spec by blast
  then show ?thesis by (fastforce simp: search_def spent_def)
qed

lemma restart_limit_pos:
  assumes "0 < so_restart_first opts" "1 \<le> so_restart_inc opts"
  shows "\<exists>n>0. restart_limit opts k = Some n"
proof -
  obtain e where e: "luby (so_restart_inc opts) k = Some (so_restart_inc opts ^ e)" using luby_returns by blast
  have "0 < \<lfloor>so_restart_inc opts ^ j * real (so_restart_first opts)\<rfloor>" for j
  proof -
    have "1 \<le> so_restart_inc opts ^ j" using assms(2) by simp
    moreover have "1 \<le> real (so_restart_first opts)" using assms(1) by simp
    ultimately have "1 * 1 \<le> so_restart_inc opts ^ j * real (so_restart_first opts)" by (intro mult_mono) auto
    then show ?thesis by simp
  qed
  then show ?thesis using e by (simp add: restart_limit_def)
qed

lemma restart_loop_spec:
  assumes par: "0 < so_restart_first opts" "1 \<le> so_restart_inc opts"
  shows "search_pre opts A st \<Longrightarrow>
    \<exists>status c ov st'. restart_loop opts A k st = Some (status, c, ov, st') \<and> seen_clear st' \<and>
      keeps (ss_solver st) (ss_solver st') \<and> lazy_answer opts A status c (ss_solver st') \<and>
      (status = LUndef \<longrightarrow> so_quit_at_restart opts)"
proof (induction "card (open_sets (ss_solver st))" arbitrary: st k rule: less_induct)
  case less
  obtain nof where nof: "0 < nof" "restart_limit opts k = Some nof" using restart_limit_pos[OF par] by blast
  obtain status c st' where s: "search opts A nof st = Some (status, c, st')" "seen_clear st'"
    "keeps (ss_solver st) (ss_solver st')" "lazy_answer opts A status c (ss_solver st')"
    "status = LUndef \<longrightarrow> int (card (open_sets (ss_solver st'))) + nof \<le> int (card (open_sets (ss_solver st)))"
    using search_run_spec[OF less.prems] by blast
  show ?case
  proof (cases "status = LUndef \<and> \<not> so_quit_at_restart opts")
    case True
    have lt: "card (open_sets (ss_solver st')) < card (open_sets (ss_solver st))" using s(5) True nof(1) by linarith
    have "sv_trail_lim (ss_solver st') = []" using s(4) True by (simp add: lazy_answer_def decisionLevel_def)
    then have "lazy_inv A (ss_solver st')"
      using s(3,4) True less.prems
      by (simp add: lazy_inv_def lazy_answer_def search_inv_def search_pre_def keeps_def follows_nil)
    then have "search_pre opts A st'" by (rule search_pre_step[OF less.prems s(3) _ s(2)])
    from less.hyps[OF lt this, of "k + 1"] obtain status' c' ov st'' where
      "restart_loop opts A (k + 1) st' = Some (status', c', ov, st'')" "seen_clear st''"
      "keeps (ss_solver st') (ss_solver st'')" "lazy_answer opts A status' c' (ss_solver st'')"
      "status' = LUndef \<longrightarrow> so_quit_at_restart opts" by blast
    moreover from this(1) have "restart_loop opts A k st = Some (status', c', ov, st'')"
      using nof(2) s(1) True by (subst restart_loop.simps) simp
    ultimately show ?thesis using keeps_trans[OF s(3)] by blast
  next
    case False
    then have "restart_loop opts A k st = Some (status, c, if status = LUndef then int (k + 1) else - 1, st')"
      using nof(2) s(1) by (subst restart_loop.simps) auto
    then show ?thesis using s False by blast
  qed
qed

subsection \<open>\<open>solve_\<close>\<close>

text \<open>The states a client of the solver sees, and the assignment a model stands for.\<close>

definition client_inv :: "solver \<Rightarrow> bool" where
  "client_inv s \<longleftrightarrow> lazy_ok s \<and> solver_inv (cleaned s) \<and> (sv_ok s \<longrightarrow> search_ready (cleaned s))"

definition model_of :: "lbool list \<Rightarrow> int \<Rightarrow> bool" where
  "model_of m v \<longleftrightarrow> m ! nat v = LTrue"

lemma client_cancel: "client_inv s \<Longrightarrow> client_inv (cancelUntil lev s)"
  using solver_inv_cancel[of "cleaned s" lev] cancelUntil_wf[of "cleaned s" lev] cancelUntil_ready[of "cleaned s" lev]
  by (simp add: client_inv_def solver_inv_def flip: cancelUntil_cleaned(1)) (simp add: cancelUntil_cleaned(2))

lemma client_not_ok:
  assumes "lazy_ok t" "solver_wf (cleaned t)"
  shows "client_inv (t\<lparr>sv_ok := False\<rparr>)"
proof -
  have "cleaned (t\<lparr>sv_ok := False\<rparr>) = cleaned t\<lparr>sv_ok := False\<rparr>" "lazy_ok (t\<lparr>sv_ok := False\<rparr>)"
    using same_watches_lazy[of t "t\<lparr>sv_ok := False\<rparr>"] assms(1) by (simp_all add: cleaned_def same_watches_def)
  moreover have "solver_wf (cleaned t\<lparr>sv_ok := False\<rparr>)" by (rule ok_update[OF assms(2)]) simp
  ultimately show ?thesis by (simp add: client_inv_def solver_inv_def const_asserted_def)
qed

definition solve_params :: "search_opts \<Rightarrow> lit list \<Rightarrow> solver \<Rightarrow> bool" where
  "solve_params opts A s \<longleftrightarrow> 0 < so_restart_first opts \<and> 1 \<le> so_restart_inc opts \<and>
     (\<forall>n. set (so_order opts n) = used_vars s) \<and> (\<forall>p\<in>set A. var p \<in> used_vars s)"

fun solved :: "search_opts \<Rightarrow> lit list \<Rightarrow> solver \<Rightarrow> lbool \<Rightarrow> lbool list \<Rightarrow> lit list \<Rightarrow> bool" where
  "solved opts A s LTrue m c \<longleftrightarrow> (\<forall>p\<in>set A. lit_val (model_of m) p) \<and> (so_only_assumps opts \<or> model_of m \<in> models s)"
| "solved opts A s LFalse m c \<longleftrightarrow> (\<forall>\<sigma>\<in>models s. \<not> (\<forall>p\<in>set A. lit_val \<sigma> p)) \<and> (\<forall>x\<in>set c. neg_lit x \<in> set A) \<and>
     (\<forall>\<sigma>\<in>models s. clause_sat \<sigma> c)"
| "solved opts A s LUndef m c \<longleftrightarrow> so_quit_at_restart opts"

lemma model_of_trail:
  assumes "solver_wf s" "l \<in> set (sv_trail s)"
  shows "lit_val (model_of (map (\<lambda>i. value_var s (int i)) [0..<nVars s])) l"
proof -
  have wf: "assign_wf s" by (rule solver_wf_parts(1)[OF assms(1)])
  have r: "in_range s l" by (rule trail_in_range[OF wf assms(2)])
  then have "model_of (map (\<lambda>i. value_var s (int i)) [0..<nVars s]) (var l) \<longleftrightarrow> value_var s (var l) = LTrue"
    using nat_var_less[OF r] by (simp add: model_of_def in_range_def)
  moreover have "value_lit s l = LTrue" using wf assms(2) by (simp add: assign_wf_def)
  ultimately show ?thesis by (cases "value_var s (var l)") (auto simp: lit_val_def value_lit_def split: if_splits)
qed

lemma solver_solve_spec:
  assumes inv: "client_inv s" and par: "solve_params opts A s"
  shows "\<exists>r. solver_solve opts ov A s = Some r \<and> client_inv (sr_solver r) \<and> models (sr_solver r) = models s \<and>
    used_vars (sr_solver r) = used_vars s \<and> solved opts A s (sr_status r) (sr_model r) (sr_conflict r)"
proof -
  let ?c = "cancelUntil 0 s"
  have wf: "solver_wf (cleaned s)" using inv by (simp add: client_inv_def solver_inv_def)
  note c = cancelUntil_wf[OF wf, of 0, folded cancelUntil_cleaned(1), simplified] and ci = client_cancel[OF inv, of 0]
  show ?thesis
  proof (cases "sv_ok s")
    case False
    then have "models s = {}" by (simp add: models_def)
    moreover have "models ?c = {}" using False c by (simp add: models_def)
    ultimately show ?thesis using False c ci by (simp add: solver_solve_def)
  next
    case ok: True
    let ?k = "if so_quit_at_restart opts \<and> ov \<ge> 0 then nat ov else 0"
    let ?st = "\<lparr>ss_solver = ?c, ss_seen = replicate (nVars ?c) False, ss_conflicts = 0, ss_decisions = 0, ss_simplified = 0,
      ss_prop_assumps = False\<rparr>"
    have l0: "sv_trail_lim ?c = []" using cancelUntil_0_lim[OF wf] by (simp flip: cancelUntil_cleaned(1))
    have "lazy_inv A ?c"
      using ci ok c l0 by (simp add: lazy_inv_def search_inv_def client_inv_def solver_inv_def follows_nil)
    then have pre: "search_pre opts A ?st" using par c by (simp add: search_pre_def seen_clear_def solve_params_def)
    obtain status conf ov' st where r: "restart_loop opts A ?k ?st = Some (status, conf, ov', st)" "seen_clear st"
      "keeps ?c (ss_solver st)" "lazy_answer opts A status conf (ss_solver st)" "status = LUndef \<longrightarrow> so_quit_at_restart opts"
      using restart_loop_spec[OF _ _ pre, of ?k] par by (auto simp: solve_params_def)
    let ?t = "ss_solver st"
    have lt: "lazy_ok ?t" and ans: "answer opts A status conf (cleaned ?t)" using r(4) by (simp_all add: lazy_answer_def)
    let ?m = "if status = LTrue then map (\<lambda>i. value_var ?t (int i)) [0..<nVars ?t] else []"
    let ?u = "if status = LFalse \<and> conf = [] then ?t\<lparr>sv_ok := False\<rparr> else ?t"
    have okt: "sv_ok ?t" using r(3) ok c by (simp add: keeps_def)
    have mt: "models ?t = models s" using r(3) ok c okt by (auto simp: models_base keeps_def)
    have ms: "models s = {\<sigma>. base_sat ?t \<sigma>}" using mt okt by (simp add: models_base)
    have ut: "used_vars ?t = used_vars s" using r(3) c by (simp add: keeps_def)
    have wt: "solver_wf (cleaned ?t)" using ans by (cases status) (simp_all add: search_ready_def search_at_def)
    have tr: "\<forall>p\<in>set A. value_lit ?t p = LTrue" if "status = LTrue"
      using that ans solver_wf_parts(1)[OF wt] by (auto simp: assign_wf_def)
    have res: "solver_solve opts ov A s = Some \<lparr>sr_status = status, sr_model = ?m, sr_conflict = conf, sr_override = ov', sr_solver = ?u\<rparr>"
      using r(1) tr ok c by (simp add: solver_solve_def Let_def list_all_iff)
    have "client_inv ?u \<and> models ?u = models s \<and> used_vars ?u = used_vars s"
    proof (cases "status = LFalse \<and> conf = []")
      case True
      then have none: "models s = {}" using ans ms by simp
      then show ?thesis using True ut client_not_ok[OF lt wt] by (simp add: models_def used_vars_def nVars_def)
    next
      case False
      then have "search_ready (cleaned ?t) \<and> const_asserted ?t" using ans by (cases status) auto
      then show ?thesis using False mt ut wt lt by (auto simp: client_inv_def solver_inv_def)
    qed
    moreover have "solved opts A s status ?m conf"
    proof (cases status)
      case LTrue
      then have a: "set A \<subseteq> set (sv_trail ?t)"
        "\<not> so_only_assumps opts \<Longrightarrow> (\<forall>l\<in>set (sv_trail ?t). lit_val (model_of ?m) l) \<Longrightarrow> base_sat ?t (model_of ?m)"
        using ans by auto
      have "\<forall>l\<in>set (sv_trail ?t). lit_val (model_of ?m) l" using model_of_trail[OF wt] LTrue by simp
      then show ?thesis using LTrue a ms by auto
    next
      case LFalse
      show ?thesis
      proof (cases "conf = []")
        case True
        then have "models s = {}" using ans ms LFalse by simp
        then show ?thesis using LFalse True by simp
      next
        case False
        then have e: "\<forall>x\<in>set conf. neg_lit x \<in> set A" "entails ?t (set conf)" using ans LFalse by simp_all
        then have cs: "clause_sat \<sigma> conf" if "\<sigma> \<in> models s" for \<sigma> using that ms by (auto simp: entails_def clause_sat_def)
        have "\<not> (\<forall>p\<in>set A. lit_val \<sigma> p)" if \<sigma>: "\<sigma> \<in> models s" for \<sigma>
        proof
          assume all: "\<forall>p\<in>set A. lit_val \<sigma> p"
          obtain x where x: "x \<in> set conf" "lit_val \<sigma> x" using cs[OF \<sigma>] by (auto simp: clause_sat_def)
          then have "lit_val \<sigma> (neg_lit x)" using all e(1) by blast
          then show False using x(2) by simp
        qed
        then show ?thesis using LFalse e(1) cs by simp
      qed
    next
      case LUndef
      then show ?thesis using r(5) by simp
    qed
    ultimately show ?thesis using res by (intro exI[of _ "\<lparr>sr_status = status, sr_model = ?m, sr_conflict = conf, sr_override = ov', sr_solver = ?u\<rparr>"]) simp
  qed
qed

end
