(* ===== verification/Search_Theorems.thy ===== *)
theory Search_Theorems
  imports Search_Spec
begin

text \<open>
  The solver as its clients use it: every operation of the interface, \<open>solve_\<close> included, keeps the states ready for
  search, so that the answers of \<open>solve_\<close> are right in every state a client can reach.  The last section holds the
  properties of conflict analysis and search.
\<close>

subsection \<open>The interface keeps the solver ready for search\<close>

lemma search_ready_same:
  assumes "search_ready s" "solver_wf t" "sv_trail t = sv_trail s" "sv_trail_lim t = sv_trail_lim s" "sv_qhead t = sv_qhead s"
    "sv_vardata t = sv_vardata s" "sv_assigns t = sv_assigns s" "db t = db s" "sv_ca t = sv_ca s" "sv_watches t = sv_watches s"
  shows "search_ready t"
proof -
  have "nVars t = nVars s" "in_range t = in_range s" "value_lit t = value_lit s" "level t = level s" "reason t = reason s"
    using assms by (simp_all add: nVars_def in_range_def value_lit_def value_var_def level_def reason_def fun_eq_iff)
  moreover have "level_start t = level_start s" using assms by (simp add: level_start_def)
  ultimately show ?thesis using assms
    by (simp add: search_ready_def search_at_def reason_ok_def decisions_ok_def watch_full_def processed_def quiet_def)
qed

lemma newVar_ready:
  assumes r: "search_ready s" and nv: "newVar s = (v, t)"
  shows "search_ready t"
proof -
  have at: "search_at s (sv_qhead s)" and wf: "solver_wf s" using r by (simp_all add: search_ready_def search_at_def)
  note p = solver_wf_parts[OF wf] and f = newVar_fields[OF wf nv] and wt = newVar_wf(1)[OF wf nv]
  note fresh = new_var_index_fresh[OF wf, folded f(1)]
  note pt = solver_wf_parts[OF wt]
  have tl: "var (sv_trail s ! i) \<noteq> v" "in_range t (sv_trail s ! i)" if i: "i < length (sv_trail s)" for i
  proof -
    show "var (sv_trail s ! i) \<noteq> v" using fresh(3) nth_mem[OF i] by force
    show "in_range t (sv_trail s ! i)" using trail_range[OF pt(1), of i] i f(4) by simp
  qed
  have cl: "var l \<noteq> v" if "cr \<in> set (db s)" "l \<in> set (clause_lits s cr)" for cr l using fresh(5) that by blast
  have same: "level t (var l) = level s (var l)" "reason t (var l) = reason s (var l)" "value_lit t l = value_lit s l"
    if "in_range t l" "var l \<noteq> v" for l
    using f(13,14,18)[of "var l"] that by (simp_all add: in_range_def value_lit_def)
  have full: "watch_full s (occ_at (sv_watches s))" and pr: "processed s (occ_at (sv_watches s)) (sv_qhead s)"
    using at by (simp_all add: search_at_def)
  have "reason_ok t" using at tl same unfolding search_at_def reason_ok_def f(4,7,17) by metis
  moreover have "decisions_ok t" using at tl same unfolding search_at_def decisions_ok_def f(4,5) by metis
  moreover have "watch_full t (occ_at (sv_watches t))"
    unfolding watch_full_def f(7,17)
  proof (intro conjI ballI allI impI)
    fix cr i assume cr: "cr \<in> set (db s)" and i: "i < (2 :: nat)"
    have "clause_ok t (clause_lits s cr)" using pt(3) cr f(7,17) by (simp add: db_wf_def)
    note ft = first_two[OF this]
    have "i = 0 \<or> i = 1" using i by auto
    then have m: "in_range t (clause_lits s cr ! i)" "clause_lits s cr ! i \<in> set (clause_lits s cr)" using ft nth_mem by blast+
    then have "occ_at (sv_watches t) (lit_index (neg_lit (clause_lits s cr ! i))) = occ_at (sv_watches s) (lit_index (neg_lit (clause_lits s cr ! i)))"
      using newVar_watches(1)[OF wf nv, of "neg_lit (clause_lits s cr ! i)"] cl[OF cr] by simp
    then show "cr \<in> w_cref ` set (occ_at (sv_watches t) (lit_index (neg_lit (clause_lits s cr ! i))))"
      using full cr i by (simp add: watch_full_def)
  next
    fix q w assume q: "in_range t q" and w: "w \<in> set (occ_at (sv_watches t) (lit_index q))"
    then show "w_blocker w \<in> set (clause_lits s (w_cref w))"
      using newVar_watches[OF wf nv q] full by (auto simp: watch_full_def split: if_splits)
  qed
  moreover have "processed t (occ_at (sv_watches t)) (sv_qhead s)"
    unfolding processed_def f(4)
  proof (intro allI impI ballI)
    fix i w assume i: "i < sv_qhead s" and w: "w \<in> set (occ_at (sv_watches t) (lit_index (sv_trail s ! i)))"
    have j: "i < length (sv_trail s)" using i at by (simp add: search_at_def)
    note t1 = tl[OF j]
    have ws: "w \<in> set (occ_at (sv_watches s) (lit_index (sv_trail s ! i)))"
      using w newVar_watches(1)[OF wf nv t1(2)] t1(1) by simp
    have rs: "in_range s (sv_trail s ! i)" by (rule trail_range[OF p(1) j])
    have b: "w_blocker w \<in> set (clause_lits s (w_cref w))" "w_cref w \<in> set (db s)"
      using full rs ws watch_okD(1)[OF p(8) rs ws] by (simp_all add: watch_full_def)
    have "in_range t (w_blocker w)" using watch_okD(2)[OF pt(8) t1(2) w] .
    then show "quiet t w (level t (var (sv_trail s ! i)))"
      using pr i ws same cl[OF b(2,1)] t1 by (simp add: processed_def quiet_def)
  qed
  moreover have "level_start t = level_start s" using f(5) by (simp add: level_start_def)
  ultimately show ?thesis using wt r at f(4,6) by (simp add: search_ready_def search_at_def)
qed

lemma attached_ready:
  assumes r: "search_ready s" and ok: "clause_ok s ls" and un: "value_lit s (ls ! 0) = LUndef" "value_lit s (ls ! 1) = LUndef"
    and a: "attached s ls t"
  shows "search_ready t"
proof -
  have at: "search_at s (sv_qhead s)" and wf: "solver_wf s" using r by (simp_all add: search_ready_def search_at_def)
  note p = solver_wf_parts[OF wf] and f = a[unfolded attached_def] and ft = first_two[OF ok]
  have "reason_ok t" "decisions_ok t" "watch_full t (occ_at (sv_watches t))"
    using attached_invs[OF a wf ok] at by (simp_all add: search_at_def)
  moreover have "processed t (occ_at (sv_watches t)) (sv_qhead s)"
    unfolding processed_def
  proof (intro allI impI ballI)
    fix i w assume i: "i < sv_qhead s" and w: "w \<in> set (occ_at (sv_watches t) (lit_index (sv_trail t ! i)))"
    have j: "i < length (sv_trail s)" using i at by (simp add: search_at_def)
    have no: "sv_trail s ! i \<noteq> neg_lit x" if "in_range s x" "value_lit s x = LUndef" for x
      using trail_value(2)[OF p(1) that(1)] that(2) nth_mem[OF j] by fastforce
    have pr: "processed s (occ_at (sv_watches s)) (sv_qhead s)" "sv_qhead s \<le> length (sv_trail s)"
      using at by (simp_all add: search_at_def)
    show "quiet t w (level t (var (sv_trail t ! i)))"
      using attached_processed[OF a wf ok pr i w] no[OF ft(1) un(1)] no[OF ft(2) un(2)] by blast
  qed
  moreover have "level_start t = level_start s" "sv_qhead t = sv_qhead s" "sv_trail t = sv_trail s" "solver_wf t"
    using f by (simp_all add: level_start_def)
  moreover have "level_start s \<le> sv_qhead s" "sv_qhead s \<le> length (sv_trail s)"
    using r by (simp_all add: search_ready_def search_at_def)
  ultimately show ?thesis unfolding search_ready_def search_at_def by metis
qed

lemma addClause'_ready:
  assumes r: "search_ready s" and l0: "sv_trail_lim s = []" and ok: "sv_ok s" and used: "\<forall>l\<in>set ps. var l \<in> used_vars s"
    and t: "addClause' ps d s = Some (b, t)" "sv_ok t"
  shows "search_ready t"
proof -
  have wf: "solver_wf s" using r by (simp add: search_ready_def search_at_def)
  have rng: "\<forall>l\<in>set ps. in_range s l" using used used_vars_range by blast
  note start = addClause'_eq[OF l0 ok rng]
  show ?thesis
  proof (cases "clause_scan s lit_Undef [] (sort ps)")
    case None
    then show ?thesis using t start r by simp
  next
    case (Some rs)
    have rs: "distinct rs" "\<not> tautology rs" "set rs \<subseteq> set ps" "\<forall>l\<in>set rs. in_range s l \<and> value_lit s l = LUndef"
      using clause_scan_sorted[OF rng] Some by simp_all
    have used': "\<forall>l\<in>set rs. var l \<in> used_vars s" using used rs(3) by auto
    consider "length rs = 0" | "length rs = 1" | "2 \<le> length rs" by linarith
    then show ?thesis
    proof cases
      case 1
      then show ?thesis using t start Some by auto
    next
      case 2
      then obtain l where l: "rs = [l]" by (auto simp: length_Suc_conv)
      have re: "search_ready (uncheckedEnqueue l None s)" by (rule enqueue_search[OF r]) (use l used' rs(4) l0 in auto)
      obtain u where u: "propagate (uncheckedEnqueue l None s) = Some (None, u)" "t = u\<lparr>sv_ok := True\<rparr>"
        using t start Some l by (auto simp: bind_eq_Some_conv)
      have ru: "search_ready u" by (rule propagate_ready(1)[OF re u(1)])
      have "frame (uncheckedEnqueue l None s) u"
        using propagate_done[of "uncheckedEnqueue l None s"] re u(1) by (auto simp: search_ready_def search_at_def prop_done_def)
      then have "t = u" using u(2) ok by (simp add: frame_def)
      then show ?thesis using ru by simp
    next
      case 3
      then have co: "clause_ok s rs" using rs by (simp add: clause_ok_def)
      have "t = attachClause (length (sv_ca s)) (stored rs d s)" using t(1) 3 unfolding start Some by (auto split: if_splits)
      then have a: "attached s rs t" using attached_stored[OF wf co used', of d] by simp
      note ft = first_two[OF co]
      show ?thesis by (rule attached_ready[OF r co _ _ a]) (use rs(4) ft(4,5) in auto)
    qed
  qed
qed

text \<open>Without watchers of deleted clauses:\<close>

definition ready_inv :: "solver \<Rightarrow> bool" where
  "ready_inv s \<longleftrightarrow> solver_inv s \<and> (sv_ok s \<longrightarrow> search_ready s)"

lemma ready_cancel: "ready_inv s \<Longrightarrow> ready_inv (cancelUntil lev s)"
  using solver_inv_cancel[of s lev] cancelUntil_wf[of s lev] cancelUntil_ready[of s lev]
  by (simp add: ready_inv_def solver_inv_def)

lemma ready_new: "ready_inv (new_solver extra)"
proof -
  have f: "sv_trail (new_solver extra) = []" "sv_trail_lim (new_solver extra) = []" "sv_qhead (new_solver extra) = 0"
    "db (new_solver extra) = []" "nVars (new_solver extra) = 0"
    by (simp_all add: new_solver_def db_def nVars_def)
  have "\<not> in_range (new_solver extra) q" for q using f(5) by (auto simp: in_range_def)
  then have "search_ready (new_solver extra)"
    using solver_inv_new[of extra] f
    by (simp add: search_ready_def search_at_def solver_inv_def reason_ok_def decisions_ok_def watch_full_def processed_def level_start_def)
  then show ?thesis using solver_inv_new by (simp add: ready_inv_def)
qed

lemma ready_newVar:
  assumes "ready_inv s" "newVar s = (v, t)"
  shows "ready_inv t"
proof -
  have "solver_inv t" using solver_inv_newVar assms by (auto simp: ready_inv_def)
  moreover have "search_ready t" if "sv_ok t"
    using newVar_ready[OF _ assms(2)] newVar_wf(7)[OF _ assms(2)] assms(1) that by (simp add: ready_inv_def solver_inv_def)
  ultimately show ?thesis by (simp add: ready_inv_def)
qed

lemma ready_addClause:
  assumes inv: "ready_inv s" and used: "\<forall>l\<in>set ps. var l \<in> used_vars s"
  shows "\<exists>b t. addClause ps s = Some (b, t) \<and> adds (cancelUntil 0 s) ps b t \<and> ready_inv t"
proof -
  have si: "solver_inv s" "solver_wf s" using inv by (simp_all add: ready_inv_def solver_inv_def)
  obtain b t where t: "addClause ps s = Some (b, t)" "adds (cancelUntil 0 s) ps b t" "solver_inv t"
    using solver_inv_addClause[OF si(1) used] by blast
  note c = cancelUntil_wf[OF si(2), of 0]
  have "search_ready t" if "sv_ok t"
  proof (rule addClause'_ready)
    have "sv_ok (cancelUntil 0 s)" using t(2) that by (simp add: adds_def)
    then show "search_ready (cancelUntil 0 s)" "sv_ok (cancelUntil 0 s)" using ready_cancel[OF inv, of 0] by (simp_all add: ready_inv_def)
    show "sv_trail_lim (cancelUntil 0 s) = []" by (rule cancelUntil_0_lim[OF si(2)])
    show "\<forall>l\<in>set ps. var l \<in> used_vars (cancelUntil 0 s)" using used c by simp
    show "addClause' ps False (cancelUntil 0 s) = Some (b, t)" using t(1) by (simp add: addClause_def)
  qed (rule that)
  then show ?thesis using t by (auto simp: ready_inv_def)
qed

lemma ready_True:
  assumes inv: "ready_inv s" and t: "solver_True s = Some (l, u)"
  shows "ready_inv u"
proof -
  have si: "solver_inv s" "solver_wf s" using inv by (simp_all add: ready_inv_def solver_inv_def)
  have su: "solver_inv u" using solver_True_spec[OF si(1)] t by auto
  have "search_ready u" if ok: "sv_ok u"
  proof (cases "sv_const_true s = lit_Undef")
    case False
    then have "u = s" using t by (simp add: solver_True_def)
    then show ?thesis using inv ok by (simp add: ready_inv_def)
  next
    case True
    obtain v s1 where nv: "newVar (cancelUntil 0 s) = (v, s1)" by fastforce
    let ?t = "mkLit v False" and ?s2 = "s1\<lparr>sv_const_true := mkLit v False\<rparr>"
    have wc: "solver_wf (cancelUntil 0 s)" using cancelUntil_wf[OF si(2)] by blast
    note n = newVar_wf[OF wc nv] and c = cancelUntil_wf[OF si(2), of 0]
    have ci: "ready_inv s1" by (rule ready_newVar[OF ready_cancel[OF inv] nv])
    have un: "var ?t \<in> used_vars s1" using n(5) by simp
    then have "in_range s1 ?t" "var ?t \<notin> set (sv_free_vars s1)" using used_vars_range by (auto simp: used_vars_def)
    note k = const_true_update[OF n(1) this]
    have l0: "sv_trail_lim ?s2 = []" using n(6) cancelUntil_0_lim[OF si(2)] by simp
    then have c2: "cancelUntil 0 ?s2 = ?s2" by (simp add: cancelUntil_def decisionLevel_def)
    have "sv_ok ?s2"
    proof (rule ccontr)
      assume no: "\<not> sv_ok ?s2"
      then have "u = ?s2" using t True nv by (auto simp: solver_True_def Let_def)
      then show False using no ok by simp
    qed
    then have ok2: "sv_ok s1" "search_ready s1" using ci by (simp_all add: ready_inv_def)
    have r2: "search_ready ?s2" by (rule search_ready_same[OF ok2(2) k(1)]) simp_all
    obtain b where "addClause [?t] ?s2 = Some (b, u)"
      using t True nv ok2 by (auto simp: solver_True_def Let_def bind_eq_Some_conv)
    then have "addClause' [?t] False ?s2 = Some (b, u)" by (simp add: addClause_def c2)
    from addClause'_ready[OF r2 l0 _ _ this ok] show ?thesis using ok2 un k by simp
  qed
  then show ?thesis using su by (simp add: ready_inv_def)
qed

text \<open>With them:\<close>

lemma client_cleans:
  assumes "ready_inv u" "cleans t u"
  shows "client_inv t"
proof (cases "t = u")
  case True
  have w: "solver_wf u" using assms(1) by (simp add: ready_inv_def solver_inv_def)
  show ?thesis using assms(1) wf_lazy(1)[OF w] wf_cleaned(1,3)[OF w] True by (auto simp: client_inv_def ready_inv_def solver_inv_def)
next
  case False
  then show ?thesis using assms by (auto simp: client_inv_def ready_inv_def cleans_def)
qed

lemma client_parts:
  assumes "client_inv s"
  shows "lazy_ok s" "ready_inv (cleaned s)" "solver_inv (cleaned s)" "solver_wf (cleaned s)" "lazy_ok (cancelUntil lev s)"
  using assms
  by (simp_all add: client_inv_def ready_inv_def solver_inv_def lazy_wf_def cancelUntil_cleaned(2))

lemma client_new: "client_inv (new_solver extra)"
  by (rule client_cleans[OF ready_new[of extra]]) (simp add: cleans_def)

lemma client_newVar:
  assumes inv: "client_inv s" and t: "newVar s = (v, t)"
  shows "client_inv t"
proof -
  note c = newVar_cleans[OF client_parts(1)[OF inv]]
  have "newVar (cleaned s) = (v, cleaned t)" using c(1,2) t by (metis fst_conv snd_conv prod.collapse)
  then have "ready_inv (cleaned t)" by (rule ready_newVar[OF client_parts(2)[OF inv]])
  then show ?thesis by (rule client_cleans) (use c(3) t in \<open>simp add: cleans_def\<close>)
qed

lemma addClause_cleans:
  assumes l: "lazy_ok s" and r: "sv_ok s \<Longrightarrow> search_ready (cleaned s)" and u: "addClause ps (cleaned s) = Some (b, u)"
  shows "\<exists>t. addClause ps s = Some (b, t) \<and> cleans t u"
proof -
  let ?c = "cancelUntil 0 s"
  have q: "sv_qhead ?c \<le> length (sv_trail ?c)" if "sv_ok ?c"
  proof -
    have "search_ready (cleaned ?c)" using cancelUntil_ready[OF r, of 0] that by (simp add: cancelUntil_cleaned(1))
    then show ?thesis by (simp add: search_ready_def search_at_def)
  qed
  show ?thesis using addClause'_cleans[of ?c ps False b u] q l u by (simp add: addClause_def cancelUntil_cleaned)
qed

lemma client_addClause:
  assumes inv: "client_inv s" and used: "\<forall>l\<in>set ps. var l \<in> used_vars s"
  shows "\<exists>b t. addClause ps s = Some (b, t) \<and> client_inv t"
proof -
  note p = client_parts[OF inv]
  obtain b u where u: "addClause ps (cleaned s) = Some (b, u)" "ready_inv u"
    using ready_addClause[OF p(2), of ps] used by auto
  then show ?thesis using addClause_cleans[OF p(1) _ u(1)] p(2) client_cleans by (auto simp: ready_inv_def)
qed

lemma client_True:
  assumes inv: "client_inv s" and t: "solver_True s = Some (l, t)"
  shows "client_inv t"
proof (cases "sv_const_true s = lit_Undef")
  case False
  then have "t = s" using t by (simp add: solver_True_def)
  then show ?thesis using inv by simp
next
  case True
  note p = client_parts[OF inv]
  let ?c = "cancelUntil 0 s"
  obtain l' u where u: "solver_True (cleaned s) = Some (l', u)" using solver_True_spec[OF p(3)] by auto
  obtain v s1 where nv: "newVar ?c = (v, s1)" by fastforce
  note nc = newVar_cleans[OF p(5)[of 0], unfolded nv fst_conv snd_conv]
  have nv': "newVar (cleaned ?c) = (v, cleaned s1)" using nc(1,2) by (metis prod.collapse)
  let ?t = "mkLit v False" and ?s2 = "s1\<lparr>sv_const_true := mkLit v False\<rparr>"
  have l2: "lazy_ok ?s2" "cleaned ?s2 = cleaned s1\<lparr>sv_const_true := ?t\<rparr>"
    using same_watches_lazy[of s1 ?s2] nc(3) by (simp_all add: cleaned_def same_watches_def)
  have rc: "ready_inv (cleaned ?c)" using ready_cancel[OF p(2), of 0] by (simp add: cancelUntil_cleaned(1))
  then have wc: "solver_wf (cleaned ?c)" by (simp add: ready_inv_def solver_inv_def)
  have r1: "ready_inv (cleaned s1)" by (rule ready_newVar[OF rc nv'])
  note n = newVar_wf[OF wc nv']
  have un: "var ?t \<in> used_vars (cleaned s1)" using n(5) by simp
  then have "in_range (cleaned s1) ?t" "var ?t \<notin> set (sv_free_vars (cleaned s1))" using used_vars_range by (auto simp: used_vars_def)
  from const_true_update(1)[OF n(1) this] have w2: "solver_wf (cleaned s1\<lparr>sv_const_true := ?t\<rparr>)" .
  have r2: "search_ready (cleaned ?s2)" if "sv_ok ?s2"
  proof -
    have ok: "sv_ok (cleaned s1)" using that by simp
    then have "search_ready (cleaned s1\<lparr>sv_const_true := ?t\<rparr>)"
      using r1 by (intro search_ready_same[of "cleaned s1", OF _ w2]) (simp_all add: ready_inv_def)
    then show ?thesis by (simp add: l2(2))
  qed
  have e: "solver_True s = (if sv_ok ?s2 then do { (b, s3) \<leftarrow> addClause [?t] ?s2; check (isConstantTrue s3 ?t); Some (?t, s3) } else Some (?t, ?s2))"
    "solver_True (cleaned s) = (if sv_ok ?s2 then do { (b, s3) \<leftarrow> addClause [?t] (cleaned ?s2); check (isConstantTrue s3 ?t); Some (?t, s3) }
       else Some (?t, cleaned ?s2))"
    using True nv nv' by (simp_all add: solver_True_def Let_def l2(2) flip: cancelUntil_cleaned(1))
  have "cleans t u"
  proof (cases "sv_ok ?s2")
    case False
    then show ?thesis using e t u l2 by (auto simp: cleans_def)
  next
    case ok: True
    obtain b where b: "addClause [?t] (cleaned ?s2) = Some (b, u)" using e(2) u ok by (auto simp: bind_eq_Some_conv dest!: sym[of "Some _"])
    obtain t' where t': "addClause [?t] ?s2 = Some (b, t')" "cleans t' u" using addClause_cleans[OF l2(1) r2[OF ok] b] by blast
    then have "t = t'" using e(1) t ok by (auto simp: check_def split: if_splits)
    then show ?thesis using t'(2) by simp
  qed
  then show ?thesis using ready_True[OF p(2) u] client_cleans by blast
qed

text \<open>\<open>simplify\<close> propagates first.\<close>

definition simplified :: "bool \<Rightarrow> solver \<Rightarrow> bool \<Rightarrow> solver \<Rightarrow> bool" where
  "simplified idle s b t \<longleftrightarrow> client_inv t \<and> models t = models s \<and> used_vars t = used_vars s \<and>
     (if b then sv_ok t \<and> sv_qhead t = length (sv_trail t) \<and> (\<not> idle \<longrightarrow> (\<forall>cr\<in>set (db t). \<not> satisfied t (sv_ca t ! cr)))
      else \<not> sv_ok t \<and> models s = {})"

lemma simplify_spec:
  assumes inv: "client_inv s" and l0: "decisionLevel s = 0"
  shows "\<exists>b t. simplify idle s = Some (b, t) \<and> simplified idle s b t"
proof (cases "sv_ok s")
  case False
  have "s\<lparr>sv_ok := sv_ok s\<rparr> = s" by simp
  then have "simplify idle s = Some (False, s)" using False l0 by (simp add: simplify_def check_def)
  then show ?thesis using False inv by (intro exI[of _ False] exI[of _ s]) (simp add: simplified_def models_def)
next
  case ok: True
  have lim: "sv_trail_lim s = []" using l0 by (simp add: decisionLevel_def)
  have li: "lazy_inv [] s"
    using inv ok lim by (simp add: lazy_inv_def search_inv_def client_inv_def solver_inv_def follows_nil)
  obtain c t where t: "propagate s = Some (c, t)" "lazy_ok t" "keeps s t" "sv_trail_lim t = sv_trail_lim s"
    "case c of None \<Rightarrow> lazy_inv [] t \<and> sv_qhead t = length (sv_trail t)
     | Some cr \<Rightarrow> search_at t (level_start t) \<and> conflicting t cr \<and> (decisionLevel t = 0 \<longrightarrow> (\<forall>\<sigma>. \<not> base_sat t \<sigma>))"
    using propagate_lazy[OF li] by blast
  have okt: "sv_ok t" and lt: "decisionLevel t = 0" using t(3,4) ok lim by (simp_all add: keeps_def decisionLevel_def)
  have mt: "models t = models s" "used_vars t = used_vars s" using t(3) by (auto simp: keeps_def models_base)
  show ?thesis
  proof (cases c)
    case (Some cr)
    have "solver_wf t" using t(5) Some by (simp add: search_at_def)
    from wf_cleaned(1)[OF this] have "client_inv (t\<lparr>sv_ok := False\<rparr>)" by (rule client_not_ok[OF t(2)])
    moreover have "models s = {}" using t(5) Some lt unfolding mt(1)[symmetric] by (simp add: models_base)
    moreover have "simplify idle s = Some (False, t\<lparr>sv_ok := False\<rparr>)" using ok l0 t(1) Some by (simp add: simplify_def)
    ultimately show ?thesis using mt
      by (intro exI[of _ False] exI[of _ "t\<lparr>sv_ok := False\<rparr>"]) (simp add: simplified_def models_def used_vars_def nVars_def)
  next
    case None
    have it: "lazy_inv [] t" "sv_qhead t = length (sv_trail t)" using t(5) None by simp_all
    obtain u where u: "simplify idle t = Some (True, u)" "lazy_inv [] u" "keeps t u" "sv_trail u = sv_trail t"
      "sv_qhead u = sv_qhead t" "without (redundant idle t) t u" using simplify_inv[OF it lt] by blast
    have "propagate t = Some (None, t)" using it(2) by (simp add: propagate_def)
    then have "simplify idle s = Some (True, u)" using u(1) ok okt l0 lt t(1) None by (simp add: simplify_def)
    moreover have "client_inv u" "models u = models s" "used_vars u = used_vars s" "sv_ok u"
      using u(2,3) mt inv_parts(8)[of "[]" "cleaned u"]
      by (auto simp: client_inv_def lazy_inv_def search_inv_def keeps_def models_base)
    moreover have "\<not> satisfied u (sv_ca u ! cr)" if "\<not> idle" "cr \<in> set (db u)" for cr
    proof -
      have cr: "cr \<in> set (db t)" "\<not> sat_at t cr" using u(6) that by (auto simp: without_def redundant_def)
      have "lazy_wf t" using it(1) inv_parts(3)[of "[]" "cleaned t"] by (simp add: lazy_wf_def lazy_inv_def)
      from db_clause(1)[OF this cr(1)] have "clause_lits u cr = clause_lits t cr" using u(6) by (simp add: without_def deleted_def)
      then show ?thesis using cr(2) without_fields(1)[OF u(6)] by (simp add: satisfied_def sat_at_def list_ex_iff)
    qed
    ultimately show ?thesis using u(4,5) it(2) by (intro exI[of _ True] exI[of _ u]) (simp add: simplified_def)
  qed
qed

text \<open>The calls of a client, \<open>solve_\<close> with any options and assumptions among them.\<close>

inductive client_step :: "solver \<Rightarrow> solver \<Rightarrow> bool" where
  client_step_newVar: "newVar s = (v, t) \<Longrightarrow> client_step s t"
| client_step_addClause: "\<forall>l\<in>set ps. var l \<in> used_vars s \<Longrightarrow> addClause ps s = Some (b, t) \<Longrightarrow> client_step s t"
| client_step_True: "solver_True s = Some (l, t) \<Longrightarrow> client_step s t"
| client_step_simplify: "simplify idle s = Some (b, t) \<Longrightarrow> client_step s t"
| client_step_cancel: "client_step s (cancelUntil lev s)"
| client_step_solve: "solve_params opts A s \<Longrightarrow> solver_solve opts ov A s = Some r \<Longrightarrow> client_step s (sr_solver r)"

inductive client_reachable :: "solver \<Rightarrow> bool" where
  client_reach_new: "client_reachable (new_solver extra)"
| client_reach_step: "client_reachable s \<Longrightarrow> client_step s t \<Longrightarrow> client_reachable t"

inductive_cases client_step_cases: "client_step s t"

lemma client_step_inv:
  assumes "client_step s t" "client_inv s"
  shows "client_inv t"
  using assms(1)
proof (rule client_step_cases)
  show "client_inv t" if "newVar s = (v, t)" for v by (rule client_newVar[OF assms(2) that])
  show "client_inv t" if "\<forall>l\<in>set ps. var l \<in> used_vars s" "addClause ps s = Some (b, t)" for ps b
    using client_addClause[OF assms(2) that(1)] that(2) by auto
  show "client_inv t" if "solver_True s = Some (l, t)" for l by (rule client_True[OF assms(2) that])
  show "client_inv t" if t: "simplify idle s = Some (b, t)" for idle b
  proof -
    have "decisionLevel s = 0" using t by (simp add: simplify_def bind_eq_Some_conv)
    then show ?thesis using simplify_spec[OF assms(2), of idle] t by (auto simp: simplified_def)
  qed
  show "client_inv t" if "t = cancelUntil lev s" for lev using client_cancel[OF assms(2)] that by simp
  show "client_inv t" if "t = sr_solver r" "solve_params opts A s" "solver_solve opts ov A s = Some r" for opts A ov r
    using solver_solve_spec[OF assms(2) that(2), of ov] that(1,3) by auto
qed

lemma client_reachable_inv: "client_reachable s \<Longrightarrow> client_inv s"
  by (induction rule: client_reachable.induct) (simp_all add: client_new client_step_inv)

subsection \<open>Properties\<close>

text \<open>A solver with two variables and the clauses \<open>{0, 1}\<close> and \<open>{0, ~1}\<close>, and the same after deciding \<open>~0\<close>.\<close>

definition example_solver :: solver where
  "example_solver = (let s = snd (newVar (snd (newVar (new_solver False))));
     s = snd (the (addClause [mkLit 0 False, mkLit 1 False] s))
   in snd (the (addClause [mkLit 0 False, mkLit 1 True] s)))"

definition example_decided :: solver where
  "example_decided = uncheckedEnqueue (mkLit 0 True) None (newDecisionLevel example_solver)"

definition example_opts :: search_opts where
  "example_opts = \<lparr>so_ccmin_mode = 2, so_restarts = True, so_prop_assumps = False, so_only_assumps = False,
     so_quit_at_restart = False, so_luby_restart = True, so_restart_first = 100, so_restart_inc = 2,
     so_order = (\<lambda>_. [1, 0]), so_phase = (\<lambda>_ _. True), so_idle = (\<lambda>_. False)\<rparr>"

lemma example_vars: "used_vars example_solver = {0, 1}"
proof -
  have "nVars example_solver = 2" "sv_free_vars example_solver = []" by code_simp+
  then show ?thesis by (auto simp: used_vars_def)
qed

lemma example_reachable: "client_reachable example_solver"
proof -
  let ?s = "snd (newVar (snd (newVar (new_solver False))))"
  have s: "client_reachable ?s"
    by (rule client_reach_step[OF client_reach_step[OF client_reach_new]]) (rule client_step_newVar, rule prod.collapse[symmetric])+
  have "nVars ?s = 2" "sv_free_vars ?s = []" by code_simp+
  then have u: "used_vars ?s = {0, 1}" by (auto simp: used_vars_def)
  let ?t = "snd (the (addClause [mkLit 0 False, mkLit 1 False] ?s))"
  have a: "addClause [mkLit 0 False, mkLit 1 False] ?s = Some (True, ?t)" by code_simp
  have t: "client_reachable ?t" by (rule client_reach_step[OF s client_step_addClause[OF _ a]]) (simp add: u)
  have "nVars ?t = 2" "sv_free_vars ?t = []" by code_simp+
  then have v: "used_vars ?t = {0, 1}" by (auto simp: used_vars_def)
  have b: "addClause [mkLit 0 False, mkLit 1 True] ?t = Some (True, example_solver)" by code_simp
  show ?thesis by (rule client_reach_step[OF t client_step_addClause[OF _ b]]) (simp add: v)
qed

lemma example_params: "(\<forall>p\<in>set A. var p \<in> {0, 1}) \<Longrightarrow> solve_params example_opts A example_solver"
  by (auto simp: solve_params_def example_vars) (simp_all add: example_opts_def)

text \<open>The example has no deleted clause.\<close>

lemma example_ready_inv: "ready_inv example_solver"
proof -
  have i: "client_inv example_solver" by (rule client_reachable_inv[OF example_reachable])
  have "live_lists example_solver = sv_watches example_solver" by code_simp
  then have "cleaned example_solver = example_solver" by (simp add: cleaned_def)
  then show ?thesis using client_parts(2)[OF i] by simp
qed

lemma example_ready: "search_ready example_decided"
proof -
  have c: "ready_inv example_solver" by (rule example_ready_inv)
  have e: "sv_ok example_solver" "sv_qhead example_solver = length (sv_trail example_solver)" by code_simp+
  have r: "search_ready (newDecisionLevel example_solver)"
    by (rule newDecisionLevel_search(1)) (use c e in \<open>simp_all add: ready_inv_def solver_inv_def\<close>)
  have "value_lit (newDecisionLevel example_solver) (mkLit 0 True) = LUndef" by code_simp
  then show ?thesis unfolding example_decided_def
    by (intro enqueue_search[OF r]) (simp_all add: newDecisionLevel_fields example_vars)
qed

lemma example_conflict: "propagate example_decided = Some (Some 1, snd (the (propagate example_decided)))"
  by code_simp

lemma example_level: "0 < decisionLevel (snd (the (propagate example_decided)))"
  by code_simp



text \<open>C2: when propagation reports a conflict above level 0, \<open>analyze\<close> succeeds and learns a clause that is false on the trail,
  holds in every assignment satisfying the database, was not stored before, and has exactly one literal of the
  current level, in front; the others are at the level to go back to or below, one of that level second, so
  that the clause is unit after backtracking.  The marks are cleared again, in every minimisation mode.\<close>

theorem analyze_learns:
  assumes "search_ready s" "propagate s = Some (Some cr, t)" "0 < decisionLevel t"
  shows "\<exists>ls bt. analyze mode cr (replicate (nVars t) False) t = Some (ls, bt, replicate (nVars t) False, t) \<and>
    ls \<noteq> [] \<and> distinct (map var ls) \<and> (\<forall>q\<in>set ls. value_lit t q = LFalse) \<and>
    level t (var (hd ls)) = decisionLevel t \<and> bt < decisionLevel t \<and> (\<forall>q\<in>set (tl ls). level t (var q) \<le> bt) \<and>
    (1 < length ls \<longrightarrow> level t (var (ls ! 1)) = bt) \<and> (length ls = 1 \<longrightarrow> bt = 0) \<and>
    (\<forall>\<sigma>. base_sat t \<sigma> \<longrightarrow> clause_sat \<sigma> ls) \<and> (\<forall>c\<in>set (db t). set (clause_lits t c) \<noteq> set ls)"
proof -
  have c: "search_at t (level_start t)" "conflicting t cr" using propagate_search[OF assms(1,2)] by simp_all
  obtain ls bt where a: "analyze mode cr (replicate (nVars t) False) t = Some (ls, bt, replicate (nVars t) False, t)"
    "learnt_ok t ls bt" using analyze_spec[OF c assms(3)] by blast
  note k = a(2)[unfolded learnt_ok_def]
  have wf: "assign_wf t" using c(1) solver_wf_parts(1) by (simp add: search_at_def)
  have fls: "value_lit t q = LFalse" if q: "q \<in> set ls" for q
  proof -
    have n: "neg_lit q \<in> set (sv_trail t)" using k q by blast
    then show ?thesis using trail_value(2)[OF wf, of q] trail_in_range[OF wf n] by simp
  qed
  have "clause_sat \<sigma> ls" if "base_sat t \<sigma>" for \<sigma> using k that by (auto simp: entails_def clause_sat_def)
  moreover have "hd ls = ls ! 0" using k hd_conv_nth by blast
  ultimately show ?thesis using a(1) k learnt_new[OF c(1) a(2)] fls by (intro exI[of _ ls] exI[of _ bt]) auto
qed

theorem analyze_learns_witness:
  "\<exists>ls bt. analyze 2 1 (replicate (nVars (snd (the (propagate example_decided)))) False) (snd (the (propagate example_decided))) =
     Some (ls, bt, replicate (nVars (snd (the (propagate example_decided)))) False, snd (the (propagate example_decided)))"
  using analyze_learns[OF example_ready example_conflict example_level, of 2] by blast

text \<open>C5: handling a conflict above level 0 goes back to a lower level and asserts there a literal whose negation was
  assigned at the conflicting level, keeps the state ready for propagation and the satisfying assignments unchanged,
  and uses up one of the finitely many clauses that can still be learnt.\<close>

theorem conflict_resolution:
  assumes "search_ready s" "propagate s = Some (Some cr, t)" "0 < decisionLevel t"
  shows "\<exists>p u. resolve_conflict mode cr (replicate (nVars t) False) t = Some (replicate (nVars t) False, u) \<and>
    search_ready u \<and> decisionLevel u < decisionLevel t \<and> (\<forall>\<sigma>. base_sat u \<sigma> = base_sat t \<sigma>) \<and>
    sv_trail u = take (sv_trail_lim t ! decisionLevel u) (sv_trail t) @ [p] \<and>
    neg_lit p \<in> set (sv_trail t) \<and> level t (var p) = decisionLevel t \<and> card (open_sets u) < card (open_sets t)"
proof -
  have c: "search_at t (level_start t)" "conflicting t cr" using propagate_search[OF assms(1,2)] by simp_all
  obtain ls bt u where u: "resolve_conflict mode cr (replicate (nVars t) False) t = Some (replicate (nVars t) False, u)"
    "learnt_ok t ls bt" "resolved t ls bt u" using resolve_conflict_spec[OF c assms(3)] by blast
  note k = u(2)[unfolded learnt_ok_def] and r = u(3)[unfolded resolved_def]
  have "decisionLevel u = bt" using r k by (simp add: decisionLevel_def)
  moreover have "ls ! 0 \<in> set ls" using k by simp
  ultimately show ?thesis using u(1) k r by (intro exI[of _ "ls ! 0"] exI[of _ u]) simp
qed

theorem conflict_resolution_witness:
  "\<exists>p u. resolve_conflict 2 1 (replicate (nVars (snd (the (propagate example_decided)))) False)
       (snd (the (propagate example_decided))) =
     Some (replicate (nVars (snd (the (propagate example_decided)))) False, u) \<and> sv_trail u = [p]"
proof -
  let ?t = "snd (the (propagate example_decided))"
  obtain p u where u: "resolve_conflict 2 1 (replicate (nVars ?t) False) ?t = Some (replicate (nVars ?t) False, u)"
    "decisionLevel u < decisionLevel ?t" "sv_trail u = take (sv_trail_lim ?t ! decisionLevel u) (sv_trail ?t) @ [p]"
    using conflict_resolution[OF example_ready example_conflict example_level, of 2] by blast
  moreover have "sv_trail_lim ?t = [0]" by code_simp
  ultimately show ?thesis by (auto simp: decisionLevel_def)
qed

text \<open>C9: for a literal of the trail, \<open>analyzeFinal\<close> succeeds and expresses it in terms of the decisions: the result holds in
  every assignment satisfying the database and consists of the literal and negated decisions above level 0; the
  marks are cleared again.\<close>

theorem analyzeFinal_core:
  assumes "search_ready s" "q \<in> set (sv_trail s)"
  shows "\<exists>out. analyzeFinal q (replicate (nVars s) False) s = Some (out, replicate (nVars s) False) \<and> q \<in> set out \<and>
    (\<forall>x\<in>set out. x = q \<or> neg_lit x \<in> set (sv_trail s) \<and> reason s (var x) = None \<and> 0 < level s (var x)) \<and>
    (\<forall>\<sigma>. base_sat s \<sigma> \<longrightarrow> clause_sat \<sigma> out)"
proof -
  have at: "search_at s (sv_qhead s)" using assms(1) by (simp add: search_ready_def)
  obtain out where o: "analyzeFinal q (replicate (nVars s) False) s = Some (out, replicate (nVars s) False)" "q \<in> set out"
    "\<forall>x\<in>set out. x = q \<or> decision s (neg_lit x)" "entails s (set out)"
    using analyzeFinal_spec[OF at assms(2)] by blast
  then have "base_sat s \<sigma> \<Longrightarrow> clause_sat \<sigma> out" for \<sigma> by (auto simp: entails_def clause_sat_def)
  then show ?thesis using o by (intro exI[of _ out]) (auto simp: decision_def)
qed

theorem analyzeFinal_core_witness:
  "\<exists>out. analyzeFinal (mkLit 0 True) (replicate (nVars example_decided) False) example_decided =
     Some (out, replicate (nVars example_decided) False)"
proof -
  have "mkLit 0 True \<in> set (sv_trail example_decided)" by code_simp
  from analyzeFinal_core[OF example_ready this] show ?thesis by blast
qed



text \<open>C8: in any state a client can reach, at level 0, \<open>simplify\<close> returns and keeps the satisfying assignments and the variables;
  when it answers true, everything is propagated and, unless it found nothing new to do, no stored clause is satisfied any
  more; it answers false exactly when propagation shows that there is no satisfying assignment, and then marks the solver
  as unsatisfiable.  The state it leaves can be used further.\<close>

theorem simplify_correct:
  assumes "client_reachable s" "decisionLevel s = 0"
  shows "\<exists>b t. simplify idle s = Some (b, t) \<and> client_inv t \<and> models t = models s \<and> used_vars t = used_vars s \<and> (b \<longleftrightarrow> sv_ok t) \<and>
    (b \<longrightarrow> sv_qhead t = length (sv_trail t) \<and> (\<not> idle \<longrightarrow> (\<forall>cr\<in>set (db t). \<not> satisfied t (sv_ca t ! cr)))) \<and>
    (\<not> b \<longrightarrow> models s = {})"
proof -
  obtain b t where "simplify idle s = Some (b, t)" "simplified idle s b t"
    using simplify_spec[OF client_reachable_inv[OF assms(1)] assms(2)] by blast
  then show ?thesis by (intro exI[of _ b] exI[of _ t]) (auto simp: simplified_def split: if_splits)
qed

theorem simplify_correct_witness: "\<exists>b t. simplify False example_solver = Some (b, t) \<and> models t = models example_solver"
proof -
  have "decisionLevel example_solver = 0" by code_simp
  from simplify_correct[OF example_reachable this, of False] show ?thesis by blast
qed



end
