(* ===== verification/Vecs.thy ===== *)
theory Vecs
  imports Lits
begin

text \<open>
  \<open>mtl/Vec.h\<close>: the resizable array.  A vector is its elements and its capacity, a 32-bit \<open>int\<close>.
  The capacity arithmetic is kept at that width; running out of memory is the exception
  \<open>OutOfMemory\<close>.  The second constructor, which adopts a given array, is left out.
\<close>

subsection \<open>The vector\<close>

record 'a vec =
  v_data :: "'a list"
  v_cap :: int32

datatype vec_error = OutOfMemory

definition INT_MAX :: int32 where "INT_MAX = 2147483647"

definition new_vec :: "'a vec" where "new_vec = \<lparr>v_data = [], v_cap = 0\<rparr>"

definition v_size :: "'a vec \<Rightarrow> int32" where
  "v_size v = word_of_nat (length (v_data v))"

definition imax :: "int32 \<Rightarrow> int32 \<Rightarrow> int32" where
  "imax x y = (let mask = signed_drop_bit 31 (y - x) in (x AND mask) + (y AND NOT mask))"

definition grow_by :: "int32 \<Rightarrow> int32 \<Rightarrow> int32" where
  "grow_by min_cap cap = imax ((min_cap - cap + 1) AND NOT 1) ((signed_drop_bit 1 cap + 2) AND NOT 1)"

definition capacity :: "int32 \<Rightarrow> 'a vec \<Rightarrow> vec_error + 'a vec" where
  "capacity min_cap v =
     (if min_cap \<le>s v_cap v then Inr v
      else
        let add = grow_by min_cap (v_cap v) in
        if INT_MAX - v_cap v <s add then Inl OutOfMemory
        else Inr (v\<lparr>v_cap := v_cap v + add\<rparr>))"

definition growTo :: "nat \<Rightarrow> 'a \<Rightarrow> 'a vec \<Rightarrow> vec_error + 'a vec" where
  "growTo sz pad v =
     (if length (v_data v) \<ge> sz then Inr v
      else case capacity (word_of_nat sz) v of
        Inl e \<Rightarrow> Inl e
      | Inr v \<Rightarrow> Inr (v\<lparr>v_data := v_data v @ replicate (sz - length (v_data v)) pad\<rparr>))"

definition push :: "'a \<Rightarrow> 'a vec \<Rightarrow> vec_error + 'a vec" where
  "push x v =
     (case (if v_size v = v_cap v then capacity (v_size v + 1) v else Inr v) of
        Inl e \<Rightarrow> Inl e
      | Inr v \<Rightarrow> Inr (v\<lparr>v_data := v_data v @ [x]\<rparr>))"

definition shrink :: "nat \<Rightarrow> 'a vec \<Rightarrow> 'a vec option" where
  "shrink n v = do {
     check (n \<le> length (v_data v));
     Some (v\<lparr>v_data := take (length (v_data v) - n) (v_data v)\<rparr>) }"

definition pop :: "'a vec \<Rightarrow> 'a vec option" where
  "pop v = do { check (v_data v \<noteq> []); Some (v\<lparr>v_data := butlast (v_data v)\<rparr>) }"

definition vclear :: "bool \<Rightarrow> 'a vec \<Rightarrow> 'a vec" where
  "vclear dealloc v = v\<lparr>v_data := [], v_cap := (if dealloc then 0 else v_cap v)\<rparr>"

text \<open>\<open>contains\<close>, \<open>indexOf\<close> and \<open>count\<close> scan from the front.\<close>

fun contains_from :: "'a list \<Rightarrow> 'a \<Rightarrow> bool" where
  "contains_from [] e = False"
| "contains_from (x # xs) e = (if x = e then True else contains_from xs e)"

fun indexOf_from :: "nat \<Rightarrow> 'a list \<Rightarrow> 'a \<Rightarrow> nat" where
  "indexOf_from i [] e = i"
| "indexOf_from i (x # xs) e = (if x = e then i else indexOf_from (i + 1) xs e)"

fun count_from :: "nat \<Rightarrow> 'a list \<Rightarrow> 'a \<Rightarrow> nat" where
  "count_from c [] e = c"
| "count_from c (x # xs) e = count_from (if x = e then c + 1 else c) xs e"

definition contains :: "'a vec \<Rightarrow> 'a \<Rightarrow> bool" where "contains v e = contains_from (v_data v) e"
definition indexOf :: "'a vec \<Rightarrow> 'a \<Rightarrow> nat" where "indexOf v e = indexOf_from 0 (v_data v) e"
definition countOf :: "'a vec \<Rightarrow> 'a \<Rightarrow> nat" where "countOf v e = count_from 0 (v_data v) e"

text \<open>\<open>remove\<close> compacts the array in place: \<open>j\<close> is the next free cell, \<open>i\<close> the cell being read.\<close>

function remove_loop :: "'a \<Rightarrow> nat \<Rightarrow> nat \<Rightarrow> 'a list \<Rightarrow> nat \<times> 'a list" where
  "remove_loop e i j d =
     (if i < length d then
        (if d ! i = e then remove_loop e (i + 1) j d
         else remove_loop e (i + 1) (j + 1) (d[j := d ! i]))
      else (j, d))"
  by pat_completeness auto
termination by (relation "measure (\<lambda>(e, i, j, d). length d - i)") auto

declare remove_loop.simps [simp del]

definition remove_all :: "'a \<Rightarrow> 'a vec \<Rightarrow> (bool \<times> 'a vec) option" where
  "remove_all e v = (let (j, d) = remove_loop e 0 0 (v_data v); i = length (v_data v) in do {
     v \<leftarrow> shrink (i - j) (v\<lparr>v_data := d\<rparr>);
     Some (j < i, v) })"

fun extend_loop :: "'a list \<Rightarrow> 'a vec \<Rightarrow> vec_error + 'a vec" where
  "extend_loop [] v = Inr v"
| "extend_loop (x # xs) v = (case push x v of Inl e \<Rightarrow> Inl e | Inr v \<Rightarrow> extend_loop xs v)"

definition extend :: "'a vec \<Rightarrow> 'a vec \<Rightarrow> vec_error + 'a vec" where
  "extend from v = extend_loop (v_data from) v"

definition copyTo :: "'a \<Rightarrow> 'a vec \<Rightarrow> 'a vec \<Rightarrow> vec_error + 'a vec" where
  "copyTo dflt v copy =
     (case growTo (length (v_data v)) dflt (vclear False copy) of
        Inl e \<Rightarrow> Inl e
      | Inr c \<Rightarrow> Inr (c\<lparr>v_data := fold (\<lambda>i d. d[i := v_data v ! i]) [0..<length (v_data v)] (v_data c)\<rparr>))"

subsection \<open>Capacity arithmetic\<close>

text \<open>The size never exceeds the capacity, which is even and not negative.\<close>

definition vec_wf :: "'a vec \<Rightarrow> bool" where
  "vec_wf v \<longleftrightarrow> int (length (v_data v)) \<le> sint (v_cap v) \<and> even (sint (v_cap v))"

lemma and_not_1: "(i :: int) AND - 2 = 2 * (i div 2)"
  using unset_bit_0 [of i] by (simp add: unset_bit_eq_and_not)

lemma imax_eq: "imax x y = (if sint (y - x) < 0 then x else y)"
proof -
  have "sint (signed_drop_bit 31 (y - x)) = sint (y - x) div 2 ^ 31"
    by (simp add: sint_signed_drop_bit_eq drop_bit_eq_div)
  moreover have "sint (y - x) div 2 ^ 31 = (if sint (y - x) < 0 then - 1 else 0)"
    using sint_range32 [of "y - x"] by (auto simp: div_pos_pos_trivial div_eq_minus1)
  ultimately have "signed_drop_bit 31 (y - x) = (if sint (y - x) < 0 then - 1 else 0)"
    by (intro signed_word_eqI) auto
  then show ?thesis by (simp add: imax_def)
qed

lemma sint_and_not_1: "sint (x AND - 2 :: int32) = 2 * (sint x div 2)"
  by (simp add: signed_and_eq and_not_1)

lemma sint_diff32: "- (2 ^ 31) \<le> sint x - sint y \<Longrightarrow> sint x - sint y < 2 ^ 31 \<Longrightarrow> sint (x - y :: int32) = sint x - sint y"
  using sint_of_int32 [of "sint x - sint y"] by (simp add: wi_hom_sub [symmetric])

lemma sint_sum32: "- (2 ^ 31) \<le> sint x + sint y \<Longrightarrow> sint x + sint y < 2 ^ 31 \<Longrightarrow> sint (x + y :: int32) = sint x + sint y"
  using sint_of_int32 [of "sint x + sint y"] by (simp add: wi_hom_add [symmetric])

definition growth :: "int \<Rightarrow> int \<Rightarrow> int" where
  "growth m c = max (2 * ((m - c + 1) div 2)) (2 * ((c div 2 + 2) div 2))"

lemma grow_by_eq:
  assumes "0 \<le> sint cap" "sint cap < sint min_cap" "sint min_cap - sint cap < 2 ^ 31 - 1"
  shows "sint (grow_by min_cap cap) = growth (sint min_cap) (sint cap)"
proof -
  let ?m = "sint min_cap" and ?c = "sint cap"
  have one: "sint (1 :: int32) = 1" "sint (2 :: int32) = 2" by simp_all
  have d: "sint (min_cap - cap) = ?m - ?c" by (rule sint_diff32) (use assms in linarith)+
  have "sint (min_cap - cap + 1) = sint (min_cap - cap) + sint (1 :: int32)"
    by (rule sint_sum32) (use assms d one in linarith)+
  then have x: "sint ((min_cap - cap + 1) AND NOT 1) = 2 * ((?m - ?c + 1) div 2)" (is "_ = ?a")
    by (simp add: sint_and_not_1 d)
  have h: "sint (signed_drop_bit 1 cap) = ?c div 2" by (simp add: sint_signed_drop_bit_eq drop_bit_eq_div)
  have hb: "0 \<le> ?c div 2" "?c div 2 < 2 ^ 30" using assms(1) sint_range32(2) [of cap] by simp_all linarith?
  have "sint (signed_drop_bit 1 cap + 2) = sint (signed_drop_bit 1 cap) + sint (2 :: int32)"
    by (rule sint_sum32; unfold h one) (use hb in simp_all)
  then have y: "sint ((signed_drop_bit 1 cap + 2) AND NOT 1) = 2 * ((?c div 2 + 2) div 2)" (is "_ = ?b")
    by (simp add: sint_and_not_1 h [simplified])
  have half: "2 * (k div 2) \<le> k" for k :: int by simp
  have ab: "0 \<le> ?a" "?a < 2 ^ 31" "0 \<le> ?b" "?b < 2 ^ 31"
    using assms hb half [of "?m - ?c + 1"] half [of "?c div 2 + 2"] by auto
  have "sint (((signed_drop_bit 1 cap + 2) AND NOT 1) - ((min_cap - cap + 1) AND NOT 1)) = ?b - ?a"
    unfolding x [symmetric] y [symmetric] by (rule sint_diff32; unfold x y) (use ab in linarith)+
  then show ?thesis using x y by (simp add: grow_by_def imax_eq growth_def)
qed

lemma capacity_spec:
  assumes wf: "vec_wf v" and m: "sint min_cap - sint (v_cap v) < 2 ^ 31 - 1"
  shows "case capacity min_cap v of
      Inl e \<Rightarrow> sint (v_cap v) < sint min_cap \<and> 2 ^ 31 - 1 < sint (v_cap v) + growth (sint min_cap) (sint (v_cap v))
    | Inr w \<Rightarrow> v_data w = v_data v \<and> vec_wf w \<and> sint min_cap \<le> sint (v_cap w) \<and> sint (v_cap v) \<le> sint (v_cap w) \<and>
        (v_cap w \<noteq> v_cap v \<longrightarrow> 3 * sint (v_cap v) < 2 * sint (v_cap w))"
proof (cases "min_cap \<le>s v_cap v")
  case True
  then show ?thesis using wf by (simp add: capacity_def word_sle_eq)
next
  case False
  let ?m = "sint min_cap" and ?c = "sint (v_cap v)"
  have c: "0 \<le> ?c" "even ?c" "int (length (v_data v)) \<le> ?c" "?c < ?m" "?c < 2 ^ 31"
    using wf False sint_range32 [of "v_cap v"] by (auto simp: vec_wf_def word_sle_eq)
  let ?g = "growth ?m ?c"
  have g: "sint (grow_by min_cap (v_cap v)) = ?g" by (rule grow_by_eq [OF c(1,4) m])
  have gb: "0 \<le> ?g" "even ?g" "?m - ?c \<le> ?g" "?c < 2 * ?g" using c by (auto simp: growth_def max_def)
  have mx: "sint INT_MAX = 2 ^ 31 - 1" by (simp add: INT_MAX_def)
  have room: "sint (INT_MAX - v_cap v) = 2 ^ 31 - 1 - ?c"
    using sint_diff32 [of INT_MAX "v_cap v"] c(1,5) mx by simp
  show ?thesis
  proof (cases "INT_MAX - v_cap v <s grow_by min_cap (v_cap v)")
    case True
    then show ?thesis using False c(4) g room by (simp add: capacity_def word_sless_alt)
  next
    case small: False
    then have "?c + ?g \<le> 2 ^ 31 - 1" using g room by (simp add: word_sless_alt)
    then have s: "sint (v_cap v + grow_by min_cap (v_cap v)) = ?c + ?g"
      using sint_sum32 [of "v_cap v" "grow_by min_cap (v_cap v)"] g gb(1) c(1) by simp
    show ?thesis using False small s gb c by (simp add: capacity_def vec_wf_def)
  qed
qed

subsection \<open>Contents\<close>

lemma contains_from_iff: "contains_from xs e \<longleftrightarrow> e \<in> set xs"
  by (induction xs) auto

lemma count_from_eq: "count_from c xs e = c + count_list xs e"
  by (induction xs arbitrary: c) auto

lemma indexOf_from_spec:
  "indexOf_from i xs e = i + length (takeWhile (\<lambda>x. x \<noteq> e) xs)"
  by (induction xs arbitrary: i) auto

lemma remove_loop_spec:
  assumes "j \<le> i" "i \<le> length d"
  shows "\<exists>d'. remove_loop e i j d = (j + length (filter (\<lambda>x. x \<noteq> e) (drop i d)), d') \<and> length d' = length d \<and>
    take (j + length (filter (\<lambda>x. x \<noteq> e) (drop i d))) d' = take j d @ filter (\<lambda>x. x \<noteq> e) (drop i d)"
  using assms
proof (induction e i j d rule: remove_loop.induct)
  case (1 e i j d)
  show ?case
  proof (cases "i < length d")
    case True
    have dr: "drop i d = d ! i # drop (Suc i) d" using True by (simp add: Cons_nth_drop_Suc)
    show ?thesis
    proof (cases "d ! i = e")
      case eq: True
      then show ?thesis using "1.IH"(1) [OF True eq] "1.prems" True dr by (simp add: remove_loop.simps [of e i j d])
    next
      case ne: False
      have "drop (Suc i) (d[j := d ! i]) = drop (Suc i) d" using "1.prems" by (simp add: drop_update_cancel)
      moreover have "take (Suc j) (d[j := d ! i]) = take j d @ [d ! i]"
        using "1.prems" True by (simp add: take_Suc_conv_app_nth)
      ultimately show ?thesis using "1.IH"(2) [OF True ne] "1.prems" True ne dr
        by (simp add: remove_loop.simps [of e i j d])
    qed
  qed (simp add: remove_loop.simps [of e i j d])
qed

lemma fold_copy:
  "length d = length xs \<Longrightarrow> n \<le> length xs \<Longrightarrow>
   fold (\<lambda>i d. d[i := xs ! i]) [0..<n] d = take n xs @ drop n d"
proof (induction n)
  case (Suc n)
  then have "fold (\<lambda>i d. d[i := xs ! i]) [0..<Suc n] d = (take n xs @ drop n d)[n := xs ! n]" by simp
  also have "\<dots> = take n xs @ (drop n d)[0 := xs ! n]" using Suc.prems by (simp add: list_update_append)
  also have "\<dots> = take (Suc n) xs @ drop (Suc n) d"
    using Suc.prems by (simp add: take_Suc_conv_app_nth Cons_nth_drop_Suc [of n d, symmetric])
  finally show ?case .
qed simp

lemma size_cap:
  assumes "vec_wf v"
  shows "sint (v_size v) = int (length (v_data v))" "v_size v = v_cap v \<longleftrightarrow> int (length (v_data v)) = sint (v_cap v)"
proof -
  have b: "int (length (v_data v)) < 2 ^ 31" using assms sint_range32(2) [of "v_cap v"] by (simp add: vec_wf_def)
  have "v_size v = word_of_int (int (length (v_data v)))" by (simp add: v_size_def)
  then show s: "sint (v_size v) = int (length (v_data v))" using sint_of_int32 [of "int (length (v_data v))"] b by simp
  show "v_size v = v_cap v \<longleftrightarrow> int (length (v_data v)) = sint (v_cap v)"
    using s by (metis signed_word_eqI)
qed

lemma push_spec:
  assumes wf: "vec_wf v"
  shows "case push x v of
      Inl e \<Rightarrow> int (length (v_data v)) = sint (v_cap v) \<and> 2 ^ 31 - 1 < sint (v_cap v) + growth (sint (v_cap v) + 1) (sint (v_cap v))
    | Inr w \<Rightarrow> v_data w = v_data v @ [x] \<and> vec_wf w"
proof (cases "v_size v = v_cap v")
  case False
  then have "int (length (v_data v)) < sint (v_cap v)" using size_cap [OF wf] wf by (simp add: vec_wf_def)
  then show ?thesis using False wf by (simp add: push_def vec_wf_def)
next
  case True
  have l: "int (length (v_data v)) = sint (v_cap v)" using size_cap(2) [OF wf] True by simp
  have ev: "even (sint (v_cap v))" using wf by (simp add: vec_wf_def)
  have lt: "sint (v_cap v) < 2 ^ 31 - 1"
  proof -
    have "sint (v_cap v) \<noteq> 2 ^ 31 - 1" using ev by (intro notI) simp
    then show ?thesis using sint_range32(2) [of "v_cap v"] by simp
  qed
  have s: "sint (v_size v + 1) = sint (v_cap v) + 1"
    using sint_sum32 [of "v_size v" 1] True lt l by simp
  have "sint (v_size v + 1) - sint (v_cap v) < 2 ^ 31 - 1" using s by simp
  from capacity_spec [OF wf this] show ?thesis
    using True l s by (auto simp: push_def vec_wf_def split: sum.splits)
qed

lemma remove_all_eq: "remove_all e v = Some (e \<in> set (v_data v), v\<lparr>v_data := filter (\<lambda>x. x \<noteq> e) (v_data v)\<rparr>)"
proof -
  obtain d where d: "remove_loop e 0 0 (v_data v) = (length (filter (\<lambda>x. x \<noteq> e) (v_data v)), d)"
    "length d = length (v_data v)" "take (length (filter (\<lambda>x. x \<noteq> e) (v_data v))) d = filter (\<lambda>x. x \<noteq> e) (v_data v)"
    using remove_loop_spec [of 0 0 "v_data v" e] by auto
  have "length (filter (\<lambda>x. x \<noteq> e) (v_data v)) < length (v_data v) \<longleftrightarrow> e \<in> set (v_data v)"
  proof (cases "e \<in> set (v_data v)")
    case True
    then show ?thesis by (simp add: length_filter_less)
  next
    case False
    then have "filter (\<lambda>x. x \<noteq> e) (v_data v) = v_data v" by (auto simp: filter_id_conv)
    then show ?thesis using False by simp
  qed
  then show ?thesis using d by (simp add: remove_all_def shrink_def)
qed

lemma extend_loop_spec:
  "vec_wf v \<Longrightarrow> extend_loop xs v = Inr w \<Longrightarrow> vec_wf w \<and> v_data w = v_data v @ xs"
proof (induction xs arbitrary: v)
  case (Cons x xs)
  obtain u where u: "push x v = Inr u" "extend_loop xs u = Inr w" using Cons.prems(2) by (auto split: sum.splits)
  then have "v_data u = v_data v @ [x]" "vec_wf u" using push_spec [OF Cons.prems(1), of x] by simp_all
  then show ?case using Cons.IH [OF _ u(2)] by simp
qed simp

lemma growTo_data:
  assumes "growTo n pad v = Inr w"
  shows "v_data w = v_data v @ replicate (n - length (v_data v)) pad"
proof -
  have "v_data u = v_data v" if "capacity k v = Inr u" for k u
    using that by (auto simp: capacity_def Let_def split: if_splits)
  then show ?thesis using assms by (auto simp: growTo_def split: if_splits sum.splits)
qed

subsection \<open>Properties\<close>



text \<open>The operations on the contents.  \<open>push\<close> appends and keeps the size within the even capacity,
  throwing only from a full vector that cannot grow; \<open>remove\<close> deletes every occurrence in place,
  keeps the order of the rest and says whether there was one; \<open>contains\<close>, \<open>indexOf\<close> and \<open>count\<close>
  are membership, the position of the first occurrence and the number of occurrences; \<open>extend\<close> and
  \<open>copyTo\<close>, when they return, append and copy the elements.\<close>

theorem vec_operations:
  assumes "vec_wf v"
  shows "(case push x v of
      Inl e \<Rightarrow> int (length (v_data v)) = sint (v_cap v) \<and> 2 ^ 31 - 1 < sint (v_cap v) + growth (sint (v_cap v) + 1) (sint (v_cap v))
    | Inr w \<Rightarrow> v_data w = v_data v @ [x] \<and> vec_wf w) \<and>
    remove_all x v = Some (x \<in> set (v_data v), v\<lparr>v_data := filter (\<lambda>y. y \<noteq> x) (v_data v)\<rparr>) \<and>
    contains v x = (x \<in> set (v_data v)) \<and> countOf v x = count_list (v_data v) x \<and>
    indexOf v x = length (takeWhile (\<lambda>y. y \<noteq> x) (v_data v)) \<and>
    (extend u v = Inr w \<longrightarrow> vec_wf w \<and> v_data w = v_data v @ v_data u) \<and>
    (copyTo d v u = Inr w \<longrightarrow> v_data w = v_data v)"
proof (intro conjI impI)
  show "v_data w = v_data v" if c0: "copyTo d v u = Inr w"
  proof -
    obtain c where c: "growTo (length (v_data v)) d (vclear False u) = Inr c"
      "w = c\<lparr>v_data := fold (\<lambda>i d. d[i := v_data v ! i]) [0..<length (v_data v)] (v_data c)\<rparr>"
      using c0 by (cases "growTo (length (v_data v)) d (vclear False u)") (simp_all add: copyTo_def)
    have "length (v_data c) = length (v_data v)" using growTo_data [OF c(1)] by (simp add: vclear_def)
    then show ?thesis using c(2) by (simp add: fold_copy)
  qed
qed (use push_spec [OF assms, of x] extend_loop_spec [OF assms, of "v_data u" w] in
    \<open>simp_all add: remove_all_eq contains_def contains_from_iff countOf_def count_from_eq indexOf_def indexOf_from_spec
      extend_def\<close>)

theorem vec_operations_witness:
  "remove_all 5 \<lparr>v_data = [5, 6, 5 :: nat], v_cap = 4\<rparr> = Some (True, \<lparr>v_data = [6], v_cap = 4\<rparr>)"
proof -
  have "vec_wf \<lparr>v_data = [5, 6, 5 :: nat], v_cap = 4\<rparr>" by (simp add: vec_wf_def)
  from vec_operations [OF this, of 5] show ?thesis by simp
qed

end
