(* ===== verification/Int_Maps.thy ===== *)
theory Int_Maps
  imports Vecs
begin

text \<open>
  \<open>mtl/IntMap.h\<close>: maps and sets with small integers as keys, stored in arrays.  A key is the index
  the class computes from it; \<open>MkIndexDefault\<close> makes it the integer itself.  Reading an index
  outside the array is a failed assertion.
\<close>

subsection \<open>IntMap\<close>

type_synonym 'v intmap = "'v list"

definition im_has :: "'v intmap \<Rightarrow> nat \<Rightarrow> bool" where
  "im_has m k \<longleftrightarrow> k < length m"

definition im_get :: "'v intmap \<Rightarrow> nat \<Rightarrow> 'v option" where
  "im_get m k = do { check (im_has m k); get_at m k }"

definition im_set :: "nat \<Rightarrow> 'v \<Rightarrow> 'v intmap \<Rightarrow> 'v intmap option" where
  "im_set k v m = do { check (im_has m k); set_at m k v }"

definition im_reserve :: "nat \<Rightarrow> 'v \<Rightarrow> 'v intmap \<Rightarrow> 'v intmap" where
  "im_reserve k pad m = (if length m \<ge> k + 1 then m else m @ replicate (k + 1 - length m) pad)"

definition im_insert :: "nat \<Rightarrow> 'v \<Rightarrow> 'v \<Rightarrow> 'v intmap \<Rightarrow> 'v intmap option" where
  "im_insert k v pad m = im_set k v (im_reserve k pad m)"

lemma im_reserve_nth:
  "j < length (im_reserve k pad m) \<Longrightarrow> im_reserve k pad m ! j = (if j < length m then m ! j else pad)"
  by (auto simp: im_reserve_def nth_append split: if_splits)

lemma im_reserve_length: "length (im_reserve k pad m) = max (length m) (Suc k)"
  by (auto simp: im_reserve_def)

text \<open>The value a map stands for at a key: what is stored, or the padding.\<close>

definition im_abs :: "'v \<Rightarrow> 'v intmap \<Rightarrow> nat \<Rightarrow> 'v" where
  "im_abs pad m k = (if k < length m then m ! k else pad)"

lemma im_reserve_abs: "im_abs pad (im_reserve k pad m) = im_abs pad m"
  by (rule ext) (auto simp: im_abs_def im_reserve_length im_reserve_nth)

lemma im_access [simp]:
  "k < length m \<Longrightarrow> im_get m k = Some (m ! k)" "k < length m \<Longrightarrow> im_set k v m = Some (m[k := v])"
  by (simp_all add: im_get_def im_set_def im_has_def)

lemma im_abs_update: "k < length m \<Longrightarrow> im_abs pad (m[k := v]) = (im_abs pad m)(k := v)"
  by (rule ext) (simp add: im_abs_def)

lemma im_insert_spec: "\<exists>m'. im_insert k v pad m = Some m' \<and> im_abs pad m' = (im_abs pad m)(k := v) \<and> im_has m' k"
  using im_reserve_length [of k pad m]
  by (simp add: im_insert_def im_abs_update im_reserve_abs im_has_def)

subsection \<open>IntSet\<close>

record intset =
  is_in :: "bool intmap"
  is_xs :: "nat list"

definition new_intset :: intset where "new_intset = \<lparr>is_in = [], is_xs = []\<rparr>"

fun unmark :: "nat list \<Rightarrow> bool intmap \<Rightarrow> bool intmap option" where
  "unmark [] m = Some m"
| "unmark (x # xs) m = do { m \<leftarrow> im_set x False m; unmark xs m }"

definition is_clear :: "bool \<Rightarrow> intset \<Rightarrow> intset option" where
  "is_clear free s = do {
     m \<leftarrow> (if free then Some [] else unmark (is_xs s) (is_in s));
     Some (s\<lparr>is_in := m, is_xs := []\<rparr>) }"

definition is_insert :: "nat \<Rightarrow> intset \<Rightarrow> intset option" where
  "is_insert k s = (let m = im_reserve k False (is_in s) in do {
     b \<leftarrow> im_get m k;
     if \<not> b then do {
       m \<leftarrow> im_set k True m;
       Some (s\<lparr>is_in := m, is_xs := is_xs s @ [k]\<rparr>) }
     else Some (s\<lparr>is_in := m\<rparr>) })"

fun is_insertAll :: "nat list \<Rightarrow> intset \<Rightarrow> intset option" where
  "is_insertAll [] s = Some s"
| "is_insertAll (k # ks) s = do { s \<leftarrow> is_insert k s; is_insertAll ks s }"

definition is_pop :: "intset \<Rightarrow> intset option" where
  "is_pop s = do {
     check (length (is_xs s) > 0);
     b \<leftarrow> im_get (is_in s) (last (is_xs s));
     check b;
     m \<leftarrow> im_set (last (is_xs s)) False (is_in s);
     Some (s\<lparr>is_in := m, is_xs := butlast (is_xs s)\<rparr>) }"

text \<open>\<open>has\<close> makes room for the key before it reads the mark.\<close>

definition is_has :: "nat \<Rightarrow> intset \<Rightarrow> (bool \<times> intset) option" where
  "is_has k s = (let m = im_reserve k False (is_in s) in do {
     b \<leftarrow> im_get m k;
     Some (b, s\<lparr>is_in := m\<rparr>) })"

definition is_remove :: "nat \<Rightarrow> intset \<Rightarrow> intset option" where
  "is_remove k s = do {
     (b, s) \<leftarrow> is_has k s;
     check b;
     m \<leftarrow> im_set k False (is_in s);
     let (j, d) = remove_loop k 0 0 (is_xs s);
     Some (s\<lparr>is_in := m, is_xs := take j d\<rparr>) }"

definition is_wf :: "intset \<Rightarrow> bool" where
  "is_wf s \<longleftrightarrow> distinct (is_xs s) \<and> (\<forall>k. im_abs False (is_in s) k \<longleftrightarrow> k \<in> set (is_xs s))"

lemma is_wf_bound: "is_wf s \<Longrightarrow> k \<in> set (is_xs s) \<Longrightarrow> k < length (is_in s) \<and> is_in s ! k"
  by (auto simp: is_wf_def im_abs_def split: if_splits)

lemma remove_loop_filter: "remove_loop k 0 0 xs = (j, d) \<Longrightarrow> take j d = filter (\<lambda>x. x \<noteq> k) xs"
  using remove_loop_spec [of 0 0 xs k] by auto

lemma is_insert_spec:
  assumes "is_wf s"
  shows "\<exists>t. is_insert k s = Some t \<and> is_wf t \<and> is_xs t = (if k \<in> set (is_xs s) then is_xs s else is_xs s @ [k])"
proof -
  let ?m = "im_reserve k False (is_in s)"
  have k: "k < length ?m" by (simp add: im_reserve_length)
  have abs: "im_abs False ?m = (\<lambda>j. j \<in> set (is_xs s))"
    using assms by (simp add: im_reserve_abs is_wf_def fun_eq_iff)
  then have mk: "?m ! k \<longleftrightarrow> k \<in> set (is_xs s)" using k by (metis im_abs_def)
  show ?thesis using assms k mk abs by (auto simp: is_insert_def Let_def is_wf_def im_abs_update)
qed

lemma is_has_spec:
  assumes "is_wf s"
  shows "\<exists>t. is_has k s = Some (k \<in> set (is_xs s), t) \<and> is_wf t \<and> is_xs t = is_xs s \<and> k < length (is_in t)"
proof -
  let ?m = "im_reserve k False (is_in s)"
  have k: "k < length ?m" by (simp add: im_reserve_length)
  have abs: "im_abs False ?m = (\<lambda>j. j \<in> set (is_xs s))"
    using assms by (simp add: im_reserve_abs is_wf_def fun_eq_iff)
  then have "?m ! k \<longleftrightarrow> k \<in> set (is_xs s)" using k by (metis im_abs_def)
  then show ?thesis using assms k abs by (simp add: is_has_def Let_def is_wf_def)
qed

lemma unmark_spec:
  "\<forall>x\<in>set xs. x < length m \<Longrightarrow> \<exists>m'. unmark xs m = Some m' \<and> length m' = length m \<and>
     (\<forall>k<length m. m' ! k = (m ! k \<and> k \<notin> set xs))"
proof (induction xs arbitrary: m)
  case (Cons x xs)
  then obtain m' where "unmark xs (m[x := False]) = Some m'" "length m' = length m"
    "\<forall>k<length m. m' ! k = (m[x := False] ! k \<and> k \<notin> set xs)"
    using Cons.IH [of "m[x := False]"] by auto
  then show ?case using Cons.prems by (auto simp: nth_list_update)
qed simp

lemma is_clear_spec:
  assumes "is_wf s"
  shows "\<exists>t. is_clear free s = Some t \<and> is_wf t \<and> is_xs t = []"
proof (cases free)
  case True
  then show ?thesis by (simp add: is_clear_def is_wf_def im_abs_def)
next
  case False
  obtain m' where "unmark (is_xs s) (is_in s) = Some m'" "length m' = length (is_in s)"
    "\<forall>k<length (is_in s). m' ! k = (is_in s ! k \<and> k \<notin> set (is_xs s))"
    using unmark_spec [of "is_xs s" "is_in s"] is_wf_bound [OF assms] by auto
  then show ?thesis using False assms by (auto simp: is_clear_def is_wf_def im_abs_def)
qed

lemma is_pop_spec:
  assumes "is_wf s" "is_xs s \<noteq> []"
  shows "\<exists>t. is_pop s = Some t \<and> is_wf t \<and> is_xs t = butlast (is_xs s)"
proof -
  obtain ys y where xs: "is_xs s = ys @ [y]" using assms(2) by (metis append_butlast_last_id)
  have y: "y < length (is_in s)" "is_in s ! y" using is_wf_bound [OF assms(1), of y] xs by simp_all
  show ?thesis using assms(1) xs y by (auto simp: is_pop_def is_wf_def im_abs_update)
qed

lemma is_remove_spec:
  assumes "is_wf s"
  shows "k \<in> set (is_xs s) \<Longrightarrow> \<exists>t. is_remove k s = Some t \<and> is_wf t \<and> is_xs t = filter (\<lambda>x. x \<noteq> k) (is_xs s)"
    "k \<notin> set (is_xs s) \<Longrightarrow> is_remove k s = None"
proof -
  obtain t where t: "is_has k s = Some (k \<in> set (is_xs s), t)" "is_wf t" "is_xs t = is_xs s" "k < length (is_in t)"
    using is_has_spec [OF assms] by blast
  obtain j d where jd: "remove_loop k 0 0 (is_xs s) = (j, d)" by (cases "remove_loop k 0 0 (is_xs s)")
  show "k \<in> set (is_xs s) \<Longrightarrow> \<exists>t. is_remove k s = Some t \<and> is_wf t \<and> is_xs t = filter (\<lambda>x. x \<noteq> k) (is_xs s)"
    using t assms by (auto simp: is_remove_def is_wf_def remove_loop_filter [OF jd] jd im_abs_update)
  show "k \<notin> set (is_xs s) \<Longrightarrow> is_remove k s = None" using t(1) by (simp add: is_remove_def)
qed

lemma is_insertAll_spec:
  "is_wf s \<Longrightarrow> \<exists>t. is_insertAll ks s = Some t \<and> is_wf t \<and> set (is_xs t) = set (is_xs s) \<union> set ks"
proof (induction ks arbitrary: s)
  case (Cons k ks)
  obtain t where t: "is_insert k s = Some t" "is_wf t" "set (is_xs t) = insert k (set (is_xs s))"
    using is_insert_spec [OF Cons.prems, of k] by (fastforce split: if_splits)
  then show ?case using Cons.IH [OF t(2)] by auto
qed simp

text \<open>\<open>IntSet\<close> is a finite set in insertion order.  In every well-formed state the marks agree
  with the vector, which has no repetitions; insertion appends a new element only, \<open>has\<close> answers
  membership for every key, also beyond the array, \<open>remove\<close> of a member and \<open>pop\<close> delete exactly
  that element and keep the order (and fail on a missing element and on the empty set), and
  clearing, with or without freeing, empties the set.\<close>

theorem intset_operations:
  assumes "is_wf s"
  shows "(\<exists>t. is_insert k s = Some t \<and> is_wf t \<and> is_xs t = (if k \<in> set (is_xs s) then is_xs s else is_xs s @ [k])) \<and>
    (\<exists>t. is_has k s = Some (k \<in> set (is_xs s), t) \<and> is_wf t \<and> is_xs t = is_xs s) \<and>
    (if k \<in> set (is_xs s) then \<exists>t. is_remove k s = Some t \<and> is_wf t \<and> is_xs t = filter (\<lambda>x. x \<noteq> k) (is_xs s)
     else is_remove k s = None) \<and>
    (if is_xs s = [] then is_pop s = None else \<exists>t. is_pop s = Some t \<and> is_wf t \<and> is_xs t = butlast (is_xs s)) \<and>
    (\<exists>t. is_clear free s = Some t \<and> is_wf t \<and> is_xs t = []) \<and>
    (\<exists>t. is_insertAll ks s = Some t \<and> is_wf t \<and> set (is_xs t) = set (is_xs s) \<union> set ks)"
  using is_insert_spec [OF assms, of k] is_has_spec [OF assms, of k] is_remove_spec [OF assms, of k]
    is_pop_spec [OF assms] is_clear_spec [OF assms, of free] is_insertAll_spec [OF assms, of ks]
  by (auto simp: is_pop_def)

theorem intset_operations_witness:
  "\<exists>t. is_insertAll [3, 5, 3] new_intset = Some t \<and> is_wf t \<and> set (is_xs t) = {3, 5}"
proof -
  have "is_wf new_intset" by (simp add: new_intset_def is_wf_def im_abs_def)
  from intset_operations [OF this, of 0 False "[3, 5, 3]"] show ?thesis by (auto simp: new_intset_def)
qed

end
