(* ===== verification/Ring_Buffers.thy ===== *)
theory Ring_Buffers
  imports Prelude
begin

text \<open>
  \<open>mtl/Queue.h\<close> and \<open>mtl/Deque.h\<close>: queues in a circular buffer.  One cell is always unused, so
  that \<open>first = end\<close> means empty; when an insertion would fill the buffer it is copied to one of
  three halves the size.  \<open>Deque\<close> repeats the text of \<open>Queue\<close> and adds the operations at the
  other end.  The abstract value is a list; the contracts are the locales \<open>fifo\<close> and \<open>deque\<close>.
\<close>

subsection \<open>The circular buffer\<close>

record 'a ring =
  rg_buf :: "'a list"
  rg_first :: nat
  rg_end :: nat

definition new_ring :: "'a \<Rightarrow> 'a ring" where
  "new_ring dflt = \<lparr>rg_buf = [dflt], rg_first = 0, rg_end = 0\<rparr>"

definition ring_clear :: "'a \<Rightarrow> 'a ring \<Rightarrow> 'a ring" where
  "ring_clear dflt q = q\<lparr>rg_buf := [dflt], rg_first := 0, rg_end := 0\<rparr>"

definition ring_size :: "'a ring \<Rightarrow> nat" where
  "ring_size q = (if rg_end q \<ge> rg_first q then rg_end q - rg_first q
     else rg_end q + length (rg_buf q) - rg_first q)"

definition ring_at :: "'a ring \<Rightarrow> nat \<Rightarrow> 'a option" where
  "ring_at q index = do {
     check (index < ring_size q);
     get_at (rg_buf q) ((rg_first q + index) mod length (rg_buf q)) }"

definition peek :: "'a ring \<Rightarrow> 'a option" where
  "peek q = do { check (rg_first q \<noteq> rg_end q); get_at (rg_buf q) (rg_first q) }"

definition pop_front :: "'a ring \<Rightarrow> 'a ring option" where
  "pop_front q = do {
     check (rg_first q \<noteq> rg_end q);
     let first = rg_first q + 1;
     Some (q\<lparr>rg_first := (if first = length (rg_buf q) then 0 else first)\<rparr>) }"

text \<open>\<open>tmp[i++] = buf[j]\<close> for the indices \<open>j\<close> in turn.\<close>

fun copy_cells :: "'a list \<Rightarrow> nat list \<Rightarrow> nat \<Rightarrow> 'a list \<Rightarrow> nat \<times> 'a list" where
  "copy_cells buf [] i tmp = (i, tmp)"
| "copy_cells buf (j # js) i tmp = copy_cells buf js (i + 1) (tmp[i := buf ! j])"

definition insert_end :: "'a \<Rightarrow> 'a \<Rightarrow> 'a ring \<Rightarrow> 'a ring" where
  "insert_end dflt elem q =
     (let buf = (rg_buf q)[rg_end q := elem];
          e = rg_end q + 1;
          e = (if e = length buf then 0 else e)
      in if rg_first q = e then
           let tmp = replicate ((length buf * 3 + 1) div 2) dflt;
               (i, tmp) = copy_cells buf [rg_first q..<length buf] 0 tmp;
               (i, tmp) = copy_cells buf [0..<e] i tmp
           in q\<lparr>rg_buf := tmp, rg_first := 0, rg_end := length buf\<rparr>
         else q\<lparr>rg_buf := buf, rg_end := e\<rparr>)"

subsection \<open>The other end\<close>

definition peekBack :: "'a ring \<Rightarrow> 'a option" where
  "peekBack q = do {
     check (rg_first q \<noteq> rg_end q);
     if rg_end q = 0 then get_at (rg_buf q) (length (rg_buf q) - 1) else get_at (rg_buf q) (rg_end q - 1) }"

definition popBack :: "'a ring \<Rightarrow> 'a ring option" where
  "popBack q = do {
     check (rg_first q \<noteq> rg_end q);
     Some (q\<lparr>rg_end := (if rg_end q = 0 then length (rg_buf q) - 1 else rg_end q - 1)\<rparr>) }"

text \<open>\<open>insertBack\<close> puts the element before the first one.  The two assertions of the resizing branch
  are checks; in that branch \<open>first\<close> is 0, so that \<open>size()\<close> is \<open>end\<close>.\<close>

definition insertBack :: "'a \<Rightarrow> 'a \<Rightarrow> 'a ring \<Rightarrow> 'a ring option" where
  "insertBack dflt elem q =
     (let old_first = rg_first q; n = length (rg_buf q);
          first = (if old_first = 0 then n - 1 else old_first - 1)
      in if first = rg_end q then
           let sz = ring_size q;
               tmp = replicate ((n * 3 + 1) div 2) dflt;
               (i, tmp) = copy_cells (rg_buf q) (map (\<lambda>j. (j + old_first) mod n) [0..<sz]) 1 tmp
           in do {
             check (i = sz + 1);
             let q = q\<lparr>rg_buf := tmp, rg_first := 0, rg_end := i\<rparr>;
             check (ring_size q = sz + 1);
             Some (q\<lparr>rg_buf := (rg_buf q)[0 := elem]\<rparr>) }
         else Some (q\<lparr>rg_buf := (rg_buf q)[first := elem], rg_first := first\<rparr>))"

fun scan_count :: "'a list \<Rightarrow> 'a \<Rightarrow> nat \<Rightarrow> nat \<Rightarrow> nat \<Rightarrow> nat" where
  "scan_count buf e 0 pos c = c"
| "scan_count buf e (Suc n) pos c =
     scan_count buf e n (if pos + 1 = length buf then 0 else pos + 1) (if buf ! pos = e then c + 1 else c)"

definition ring_count :: "'a \<Rightarrow> 'a ring \<Rightarrow> nat" where
  "ring_count e q = scan_count (rg_buf q) e (ring_size q) (rg_first q) 0"

fun scan_contains :: "'a list \<Rightarrow> 'a \<Rightarrow> nat \<Rightarrow> nat \<Rightarrow> bool" where
  "scan_contains buf e 0 pos = False"
| "scan_contains buf e (Suc n) pos =
     (if buf ! pos = e then True else scan_contains buf e n (if pos + 1 = length buf then 0 else pos + 1))"

definition ring_contains :: "'a \<Rightarrow> 'a ring \<Rightarrow> bool" where
  "ring_contains e q = scan_contains (rg_buf q) e (ring_size q) (rg_first q)"

subsection \<open>The list it stands for\<close>

definition ring_wf :: "'a ring \<Rightarrow> bool" where
  "ring_wf q \<longleftrightarrow> rg_first q < length (rg_buf q) \<and> rg_end q < length (rg_buf q)"

definition ring_list :: "'a ring \<Rightarrow> 'a list" where
  "ring_list q = (if rg_first q \<le> rg_end q then take (rg_end q - rg_first q) (drop (rg_first q) (rg_buf q))
     else drop (rg_first q) (rg_buf q) @ take (rg_end q) (rg_buf q))"

lemma ring_size_length: "ring_wf q \<Longrightarrow> ring_size q = length (ring_list q)"
  by (auto simp: ring_wf_def ring_size_def ring_list_def)

lemma ring_empty_iff: "ring_wf q \<Longrightarrow> ring_list q = [] \<longleftrightarrow> rg_first q = rg_end q"
  by (auto simp: ring_wf_def ring_list_def)

lemma ring_nth:
  assumes "ring_wf q" "i < length (ring_list q)"
  shows "rg_buf q ! ((rg_first q + i) mod length (rg_buf q)) = ring_list q ! i"
proof -
  let ?n = "length (rg_buf q)" and ?f = "rg_first q"
  have w: "?f < ?n" "rg_end q < ?n" using assms(1) by (simp_all add: ring_wf_def)
  have i: "i < ?n" using assms(2) w by (auto simp: ring_list_def split: if_splits)
  show ?thesis
  proof (cases "?f + i < ?n")
    case True
    then show ?thesis using assms(2) w by (auto simp: ring_list_def nth_append split: if_splits)
  next
    case False
    then have "(?f + i) mod ?n = ?f + i - ?n" using w i by (simp add: le_mod_geq)
    then show ?thesis using assms(2) w False by (auto simp: ring_list_def nth_append add.commute split: if_splits)
  qed
qed

lemma ring_list_map:
  assumes "ring_wf q"
  shows "ring_list q = map (\<lambda>i. rg_buf q ! ((i + rg_first q) mod length (rg_buf q))) [0..<ring_size q]"
  using ring_nth [OF assms] by (intro nth_equalityI) (simp_all add: ring_size_length [OF assms] add.commute)

lemma copy_cells_spec:
  "i + length js \<le> length tmp \<Longrightarrow>
   copy_cells buf js i tmp = (i + length js, take i tmp @ map (nth buf) js @ drop (i + length js) tmp)"
proof (induction js arbitrary: i tmp)
  case (Cons j js)
  then have "copy_cells buf (j # js) i tmp = (Suc i + length js,
      take (Suc i) (tmp[i := buf ! j]) @ map (nth buf) js @ drop (Suc i + length js) (tmp[i := buf ! j]))"
    using Cons.IH [of "Suc i" "tmp[i := buf ! j]"] by simp
  moreover have "take (Suc i) (tmp[i := buf ! j]) = take i tmp @ [buf ! j]"
    using Cons.prems by (simp add: take_Suc_conv_app_nth)
  ultimately show ?case using Cons.prems by simp
qed simp

lemma map_nth_range: "n \<le> length xs \<Longrightarrow> map (nth xs) [m..<n] = drop m (take n xs)"
  by (rule nth_equalityI) auto

lemma take_drop_snoc:
  assumes "m + k < length b"
  shows "take (Suc k) (drop m (b[m + k := x])) = take k (drop m b) @ [x]"
  using assms by (simp add: drop_update_swap take_Suc_conv_app_nth)

lemma insert_end_full:
  assumes "(if Suc (rg_end q) = length (rg_buf q) then 0 else Suc (rg_end q)) = e" "rg_first q = e"
    and "copy_cells ((rg_buf q)[rg_end q := x]) [e..<length (rg_buf q)] 0
      (replicate ((length (rg_buf q) * 3 + 1) div 2) d) = (i1, t1)"
    and "copy_cells ((rg_buf q)[rg_end q := x]) [0..<e] i1 t1 = (i2, t2)"
  shows "insert_end d x q = q\<lparr>rg_buf := t2, rg_first := 0, rg_end := length (rg_buf q)\<rparr>"
  using assms(3,4) by (simp add: insert_end_def Let_def assms(1,2))

lemma insert_end_spec:
  assumes "ring_wf q"
  shows "ring_wf (insert_end d x q) \<and> ring_list (insert_end d x q) = ring_list q @ [x]"
proof -
  let ?b = "rg_buf q" and ?f = "rg_first q" and ?e = "rg_end q" and ?n = "length (rg_buf q)"
  let ?b' = "?b[?e := x]" and ?e' = "if ?e + 1 = ?n then 0 else ?e + 1"
  have w: "?f < ?n" "?e < ?n" using assms by (simp_all add: ring_wf_def)
  have full: "ring_list q @ [x] = (if ?f < ?e' then take (?e' - ?f) (drop ?f ?b') else drop ?f ?b' @ take ?e' ?b')"
  proof (cases "?f \<le> ?e")
    case True
    have t: "take (Suc (?e - ?f)) (drop ?f ?b') = ring_list q @ [x]"
      using take_drop_snoc [of ?f "?e - ?f" ?b x] True w by (simp add: ring_list_def)
    then show ?thesis using True w by (auto simp: Suc_diff_le)
  next
    case False
    then have "take (Suc ?e) ?b' = take ?e ?b @ [x]" using take_drop_snoc [of 0 ?e ?b x] w by simp
    then show ?thesis using False w by (auto simp: ring_list_def)
  qed
  show ?thesis
  proof (cases "?f = ?e'")
    case False
    then show ?thesis unfolding full using w by (auto simp: insert_end_def Let_def ring_wf_def ring_list_def)
  next
    case True
    let ?t0 = "replicate ((?n * 3 + 1) div 2) d"
    have room: "?n < (?n * 3 + 1) div 2" using w by linarith
    have c1: "copy_cells ?b' [?f..<?n] 0 ?t0 = (?n - ?f, drop ?f ?b' @ drop (?n - ?f) ?t0)"
      using copy_cells_spec [of 0 "[?f..<?n]" ?t0 ?b'] room w by (simp add: map_nth_range)
    have c2: "copy_cells ?b' [0..<?e'] (?n - ?f) (drop ?f ?b' @ drop (?n - ?f) ?t0) =
        (?n, drop ?f ?b' @ take ?e' ?b' @ drop ?n ?t0)"
      using copy_cells_spec [of "?n - ?f" "[0..<?e']" "drop ?f ?b' @ drop (?n - ?f) ?t0" ?b'] room w True
      by (simp add: map_nth_range split: if_splits)
    have "insert_end d x q = q\<lparr>rg_buf := drop ?f ?b' @ take ?e' ?b' @ drop ?n ?t0, rg_first := 0, rg_end := ?n\<rparr>"
      by (rule insert_end_full [OF _ refl c1]) (use True c2 in \<open>simp_all only: Suc_eq_plus1\<close>)
    then show ?thesis unfolding full using True w room by (simp add: ring_wf_def ring_list_def)
  qed
qed

lemma pop_front_spec:
  assumes "ring_wf q" "ring_list q \<noteq> []"
  shows "\<exists>r. pop_front q = Some r \<and> ring_wf r \<and> ring_list r = tl (ring_list q)"
proof -
  have w: "rg_first q < length (rg_buf q)" "rg_end q < length (rg_buf q)" "rg_first q \<noteq> rg_end q"
    using assms ring_empty_iff [OF assms(1)] by (simp_all add: ring_wf_def)
  have d: "drop (rg_first q) (rg_buf q) = rg_buf q ! rg_first q # drop (Suc (rg_first q)) (rg_buf q)"
    using w by (simp add: Cons_nth_drop_Suc)
  have "rg_end q - rg_first q = Suc (rg_end q - Suc (rg_first q))" if "rg_first q < rg_end q" using that by simp
  then show ?thesis using w d
    by (cases "Suc (rg_first q) = length (rg_buf q)"; cases "rg_first q < rg_end q")
      (auto simp: pop_front_def Let_def ring_wf_def ring_list_def)
qed

lemma peek_spec:
  assumes "ring_wf q" "ring_list q \<noteq> []"
  shows "peek q = Some (hd (ring_list q))"
proof -
  have w: "rg_first q < length (rg_buf q)" "rg_first q \<noteq> rg_end q"
    using assms ring_empty_iff [OF assms(1)] by (simp_all add: ring_wf_def)
  then show ?thesis using ring_nth [OF assms(1), of 0] assms(2) by (simp add: peek_def hd_conv_nth)
qed

lemma pop_back_list:
  assumes "m \<le> k" "k < length b"
  shows "butlast (take (Suc k - m) (drop m b)) = take (k - m) (drop m b)" "last (take (Suc k - m) (drop m b)) = b ! k"
proof -
  have "take (Suc k - m) (drop m b) = take (k - m) (drop m b) @ [b ! k]"
    using assms by (simp add: Suc_diff_le take_Suc_conv_app_nth)
  then show "butlast (take (Suc k - m) (drop m b)) = take (k - m) (drop m b)" "last (take (Suc k - m) (drop m b)) = b ! k"
    by simp_all
qed

lemma back_spec:
  assumes "ring_wf q" "ring_list q \<noteq> []"
  shows "peekBack q = Some (last (ring_list q)) \<and>
    (\<exists>r. popBack q = Some r \<and> ring_wf r \<and> ring_list r = butlast (ring_list q))"
proof -
  let ?b = "rg_buf q" and ?f = "rg_first q" and ?e = "rg_end q"
  have w: "?f < length ?b" "?e < length ?b" "?f \<noteq> ?e"
    using assms ring_empty_iff [OF assms(1)] by (simp_all add: ring_wf_def)
  show ?thesis
  proof (cases ?e)
    case 0
    have l: "ring_list q = take (Suc (length ?b - 1) - ?f) (drop ?f ?b)" using w 0 by (simp add: ring_list_def)
    show ?thesis using pop_back_list [of ?f "length ?b - 1" ?b] w 0
      unfolding l by (auto simp: peekBack_def popBack_def ring_wf_def ring_list_def)
  next
    case (Suc k)
    show ?thesis
    proof (cases "?f \<le> ?e")
      case True
      then have l: "ring_list q = take (Suc k - ?f) (drop ?f ?b)" using Suc by (simp add: ring_list_def)
      show ?thesis using pop_back_list [of ?f k ?b] w Suc True
        unfolding l by (auto simp: peekBack_def popBack_def ring_wf_def ring_list_def)
    next
      case False
      then have l: "ring_list q = drop ?f ?b @ take (Suc k - 0) (drop 0 ?b)" using Suc by (simp add: ring_list_def)
      show ?thesis using pop_back_list [of 0 k ?b] w Suc False
        unfolding l by (auto simp: peekBack_def popBack_def ring_wf_def ring_list_def butlast_append last_append)
    qed
  qed
qed

lemma drop_update_hd: "k < length b \<Longrightarrow> drop k (b[k := x]) = x # drop (Suc k) b"
  using Cons_nth_drop_Suc [of k "b[k := x]"] by simp

lemma insertBack_spec:
  assumes "ring_wf q"
  shows "\<exists>r. insertBack d x q = Some r \<and> ring_wf r \<and> ring_list r = x # ring_list q"
proof -
  let ?b = "rg_buf q" and ?f = "rg_first q" and ?e = "rg_end q" and ?n = "length (rg_buf q)"
  let ?f' = "if ?f = 0 then ?n - 1 else ?f - 1"
  have w: "?f < ?n" "?e < ?n" using assms by (simp_all add: ring_wf_def)
  show ?thesis
  proof (cases "?f' = ?e")
    case False
    have "ring_list (q\<lparr>rg_buf := ?b[?f' := x], rg_first := ?f'\<rparr>) = x # ring_list q"
    proof (cases "?f = 0")
      case True
      have "drop (?n - 1) (?b[?n - 1 := x]) = [x]" using drop_update_hd [of "?n - 1" ?b x] w by simp
      then show ?thesis using True False w by (auto simp: ring_list_def)
    next
      case f: False
      then have "drop (?f - 1) (?b[?f - 1 := x]) = x # drop ?f ?b"
        using drop_update_hd [of "?f - 1" ?b x] w by simp
      then show ?thesis using f False w
        by (cases "?f \<le> ?e") (auto simp: ring_list_def Suc_diff_le take_Cons' not_le)
    qed
    then show ?thesis using False w by (auto simp: insertBack_def Let_def ring_wf_def)
  next
    case True
    have sz: "ring_size q = ?n - 1" using True w by (auto simp: ring_size_def split: if_splits)
    let ?t0 = "replicate ((?n * 3 + 1) div 2) d"
    have room: "?n < (?n * 3 + 1) div 2" using w by linarith
    have l: "length (ring_list q) = ?n - 1" using ring_size_length [OF assms] sz by simp
    have "copy_cells ?b (map (\<lambda>j. (j + ?f) mod ?n) [0..<?n - 1]) 1 ?t0 =
        (?n, take 1 ?t0 @ ring_list q @ drop ?n ?t0)"
      using copy_cells_spec [of 1 "map (\<lambda>j. (j + ?f) mod ?n) [0..<?n - 1]" ?t0 ?b] room w
      by (simp add: ring_list_map [OF assms] sz o_def)
    moreover have n1: "Suc (?n - Suc 0) = ?n" using w by simp
    moreover have "take 1 ?t0 = [d]" using room by (cases "(?n * 3 + 1) div 2") simp_all
    ultimately have "insertBack d x q = Some (q\<lparr>rg_buf := x # ring_list q @ drop ?n ?t0, rg_first := 0, rg_end := ?n\<rparr>)"
      using True n1 unfolding insertBack_def Let_def sz by (simp add: ring_size_def)
    moreover have "ring_wf (q\<lparr>rg_buf := x # ring_list q @ drop ?n ?t0, rg_first := 0, rg_end := ?n\<rparr>)"
      using l room w by (simp add: ring_wf_def)
    moreover have "ring_list (q\<lparr>rg_buf := x # ring_list q @ drop ?n ?t0, rg_first := 0, rg_end := ?n\<rparr>) = x # ring_list q"
      using l w by (auto simp: ring_list_def [of "rg_buf_update _ _"] ring_list_def [of "rg_end_update _ _"]
          ring_list_def [of "rg_first_update _ _"] take_Cons')
    ultimately show ?thesis by blast
  qed
qed

lemma scan_spec:
  assumes "pos < length buf"
  shows "scan_count buf e n pos c = c + count_list (map (\<lambda>i. buf ! ((i + pos) mod length buf)) [0..<n]) e \<and>
    scan_contains buf e n pos = (e \<in> set (map (\<lambda>i. buf ! ((i + pos) mod length buf)) [0..<n]))"
  using assms
proof (induction n arbitrary: pos c)
  case (Suc n)
  let ?p = "if pos + 1 = length buf then 0 else pos + 1"
  have p: "?p < length buf" using Suc.prems by auto
  have m: "(i + ?p) mod length buf = (Suc i + pos) mod length buf" for i
  proof (cases "pos + 1 = length buf")
    case True
    then have e: "Suc i + pos = i + length buf" by simp
    show ?thesis unfolding e using True by simp
  qed simp
  have "map (\<lambda>i. buf ! ((i + pos) mod length buf)) [0..<Suc n] =
      buf ! pos # map (\<lambda>i. buf ! ((i + ?p) mod length buf)) [0..<n]"
    unfolding m using Suc.prems by (simp add: upt_conv_Cons map_Suc_upt [symmetric] o_def del: upt_Suc)
  then show ?case using Suc.IH [OF p] by auto
qed simp

subsection \<open>The contracts\<close>

locale fifo =
  fixes inv :: "'q \<Rightarrow> bool" and content :: "'q \<Rightarrow> 'a list"
    and enq :: "'a \<Rightarrow> 'q \<Rightarrow> 'q" and front :: "'q \<Rightarrow> 'a option" and deq :: "'q \<Rightarrow> 'q option"
  assumes enq: "inv q \<Longrightarrow> inv (enq x q) \<and> content (enq x q) = content q @ [x]"
    and front: "inv q \<Longrightarrow> front q = (case content q of [] \<Rightarrow> None | x # _ \<Rightarrow> Some x)"
    and deq_empty: "inv q \<Longrightarrow> content q = [] \<Longrightarrow> deq q = None"
    and deq: "inv q \<Longrightarrow> content q \<noteq> [] \<Longrightarrow> \<exists>r. deq q = Some r \<and> inv r \<and> content r = tl (content q)"
begin

text \<open>Everything that has been queued comes out in order.\<close>

lemma enq_all: "inv q \<Longrightarrow> inv (fold enq xs q) \<and> content (fold enq xs q) = content q @ xs"
proof (induction xs arbitrary: q)
  case (Cons x xs)
  then show ?case using enq [of q x] Cons.IH [of "enq x q"] by simp
qed simp

end

locale deque = fifo inv content enq front deq
  for inv :: "'q \<Rightarrow> bool" and content :: "'q \<Rightarrow> 'a list" and enq front deq +
  fixes push_front :: "'a \<Rightarrow> 'q \<Rightarrow> 'q option" and rear :: "'q \<Rightarrow> 'a option" and drop_back :: "'q \<Rightarrow> 'q option"
  assumes push_front: "inv q \<Longrightarrow> \<exists>r. push_front x q = Some r \<and> inv r \<and> content r = x # content q"
    and rear: "inv q \<Longrightarrow> rear q = (if content q = [] then None else Some (last (content q)))"
    and drop_back_empty: "inv q \<Longrightarrow> content q = [] \<Longrightarrow> drop_back q = None"
    and drop_back: "inv q \<Longrightarrow> content q \<noteq> [] \<Longrightarrow> \<exists>r. drop_back q = Some r \<and> inv r \<and> content r = butlast (content q)"

text \<open>Sequences of calls, on the buffer and on the list: the elements read, and the final value.\<close>

datatype 'a call = Insert 'a | InsertBack 'a | Pop | PopBack

fun call_list :: "'a call \<Rightarrow> 'a list \<Rightarrow> ('a list \<times> 'a list) option" where
  "call_list (Insert x) xs = Some ([], xs @ [x])"
| "call_list (InsertBack x) xs = Some ([], x # xs)"
| "call_list Pop xs = (case xs of [] \<Rightarrow> None | y # ys \<Rightarrow> Some ([y], ys))"
| "call_list PopBack xs = (if xs = [] then None else Some ([last xs], butlast xs))"

fun calls_list :: "'a call list \<Rightarrow> 'a list \<Rightarrow> ('a list \<times> 'a list) option" where
  "calls_list [] xs = Some ([], xs)"
| "calls_list (c # cs) xs = do {
     (out, ys) \<leftarrow> call_list c xs;
     (outs, zs) \<leftarrow> calls_list cs ys;
     Some (out @ outs, zs) }"

fun call_ring :: "'a \<Rightarrow> 'a call \<Rightarrow> 'a ring \<Rightarrow> ('a list \<times> 'a ring) option" where
  "call_ring d (Insert x) q = Some ([], insert_end d x q)"
| "call_ring d (InsertBack x) q = map_option (Pair []) (insertBack d x q)"
| "call_ring d Pop q = do { x \<leftarrow> peek q; q \<leftarrow> pop_front q; Some ([x], q) }"
| "call_ring d PopBack q = do { x \<leftarrow> peekBack q; q \<leftarrow> popBack q; Some ([x], q) }"

fun calls_ring :: "'a \<Rightarrow> 'a call list \<Rightarrow> 'a ring \<Rightarrow> ('a list \<times> 'a ring) option" where
  "calls_ring d [] q = Some ([], q)"
| "calls_ring d (c # cs) q = do {
     (out, q) \<leftarrow> call_ring d c q;
     (outs, q) \<leftarrow> calls_ring d cs q;
     Some (out @ outs, q) }"

interpretation rq: fifo ring_wf ring_list "insert_end d" peek pop_front for d
proof
  fix q :: "'a ring" and x
  assume q: "ring_wf q"
  show "ring_wf (insert_end d x q) \<and> ring_list (insert_end d x q) = ring_list q @ [x]" by (rule insert_end_spec [OF q])
  show "peek q = (case ring_list q of [] \<Rightarrow> None | x # _ \<Rightarrow> Some x)"
    using peek_spec [OF q] ring_empty_iff [OF q] by (auto simp: peek_def split: list.splits)
  show "pop_front q = None" if "ring_list q = []" using that ring_empty_iff [OF q] by (simp add: pop_front_def)
  show "\<exists>r. pop_front q = Some r \<and> ring_wf r \<and> ring_list r = tl (ring_list q)" if "ring_list q \<noteq> []"
    by (rule pop_front_spec [OF q that])
qed

interpretation dq: deque ring_wf ring_list "insert_end d" peek pop_front "insertBack d" peekBack popBack for d
proof
  fix q :: "'a ring" and x
  assume q: "ring_wf q"
  show "\<exists>r. insertBack d x q = Some r \<and> ring_wf r \<and> ring_list r = x # ring_list q" by (rule insertBack_spec [OF q])
  show "peekBack q = (if ring_list q = [] then None else Some (last (ring_list q)))"
    using back_spec [OF q] ring_empty_iff [OF q] by (auto simp: peekBack_def)
  show "popBack q = None" if "ring_list q = []" using that ring_empty_iff [OF q] by (simp add: popBack_def)
  show "\<exists>r. popBack q = Some r \<and> ring_wf r \<and> ring_list r = butlast (ring_list q)" if "ring_list q \<noteq> []"
    using back_spec [OF q that] by blast
qed

lemma call_ring_refines:
  assumes "ring_wf q"
  shows "case call_ring d c q of None \<Rightarrow> call_list c (ring_list q) = None
    | Some (out, r) \<Rightarrow> ring_wf r \<and> call_list c (ring_list q) = Some (out, ring_list r)"
proof (cases c)
  case (Insert x)
  then show ?thesis using rq.enq [OF assms] by simp
next
  case (InsertBack x)
  then show ?thesis using dq.push_front [OF assms, of d x] by auto
next
  case Pop
  then show ?thesis using rq.front [OF assms] rq.deq [OF assms] by (auto split: list.splits)
next
  case PopBack
  then show ?thesis using dq.rear [OF assms] dq.drop_back [OF assms] by (cases "ring_list q = []") auto
qed

lemma calls_ring_refines:
  "ring_wf q \<Longrightarrow> map_option (\<lambda>(outs, r). (outs, ring_list r)) (calls_ring d cs q) = calls_list cs (ring_list q)"
proof (induction cs arbitrary: q)
  case (Cons c cs)
  note c = call_ring_refines [OF Cons.prems, where d = d and c = c]
  show ?case
  proof (cases "call_ring d c q")
    case (Some p)
    obtain out r where p: "p = (out, r)" by (cases p)
    then have r: "ring_wf r" "call_list c (ring_list q) = Some (out, ring_list r)" using c Some by simp_all
    show ?thesis using r(2) Some p
      by (cases "calls_ring d cs r") (auto simp: Cons.IH [OF r(1), symmetric])
  qed (use c in simp)
qed simp

subsection \<open>Properties\<close>

text \<open>C26: any sequence of insertions and removals at both ends reads the same elements from the
  circular buffer as from a list, fails (an assertion on an empty queue) exactly when the list
  operations do, and leaves a buffer that stands for the resulting list, across wrap-around and
  resizing.\<close>

theorem deque_refines_list:
  assumes "ring_wf q"
  shows "map_option (\<lambda>(outs, r). (outs, ring_list r)) (calls_ring d cs q) = calls_list cs (ring_list q)"
  by (rule calls_ring_refines [OF assms])

theorem deque_refines_list_witness:
  "map_option (\<lambda>(outs, r). (outs, ring_list r))
     (calls_ring 9 [Insert 1, Insert 2, InsertBack 3, PopBack, InsertBack 4, Pop, Pop] (new_ring (0 :: nat)))
   = Some ([2, 4, 3], [1])"
proof -
  have w: "ring_wf (new_ring (0 :: nat))" by (simp add: new_ring_def ring_wf_def)
  have e: "calls_list [Insert 1, Insert 2, InsertBack 3, PopBack, InsertBack 4, Pop, Pop] (ring_list (new_ring (0 :: nat)))
      = Some ([2, 4, 3], [1])" by (simp add: new_ring_def ring_list_def)
  show ?thesis by (rule trans [OF deque_refines_list [OF w] e])
qed

text \<open>The queries of the queue agree with the list: the size, the element at every index (an
  assertion fails outside), membership and the number of occurrences; clearing empties it; and
  elements queued in turn come out in that order.\<close>

theorem ring_queries:
  assumes "ring_wf q"
  shows "ring_size q = length (ring_list q) \<and>
    ring_at q i = (if i < length (ring_list q) then Some (ring_list q ! i) else None) \<and>
    ring_contains e q = (e \<in> set (ring_list q)) \<and> ring_count e q = count_list (ring_list q) e \<and>
    ring_wf (ring_clear d q) \<and> ring_list (ring_clear d q) = [] \<and>
    ring_list (fold (insert_end d) xs q) = ring_list q @ xs"
proof -
  have w: "rg_first q < length (rg_buf q)" using assms by (simp add: ring_wf_def)
  have "(rg_first q + i) mod length (rg_buf q) < length (rg_buf q)" by (rule mod_less_divisor) (use w in linarith)
  then have "ring_at q i = (if i < length (ring_list q) then Some (ring_list q ! i) else None)"
    using ring_nth [OF assms, of i] by (simp add: ring_at_def ring_size_length [OF assms])
  moreover have "ring_contains e q = (e \<in> set (ring_list q))" "ring_count e q = count_list (ring_list q) e"
    using scan_spec [OF w, of e "ring_size q" 0] unfolding ring_list_map [OF assms]
    by (simp_all add: ring_contains_def ring_count_def)
  ultimately show ?thesis using rq.enq_all [OF assms, where d = d and xs = xs]
    by (simp add: ring_size_length [OF assms] ring_clear_def ring_wf_def ring_list_def [of "rg_end_update _ _"])
qed

theorem ring_queries_witness:
  "ring_list (fold (insert_end (0 :: nat)) [4, 5, 6, 7] (new_ring 0)) = [4, 5, 6, 7]"
proof -
  have "ring_wf (new_ring (0 :: nat))" "ring_list (new_ring (0 :: nat)) = []"
    by (simp_all add: new_ring_def ring_wf_def ring_list_def)
  with ring_queries [of "new_ring (0 :: nat)" 0 0 0 "[4, 5, 6, 7]"] show ?thesis by simp
qed

end
