(* ===== verification/Heaps.thy ===== *)
theory Heaps
  imports Int_Maps Sorts
begin

text \<open>
  \<open>mtl/Heap.h\<close> (and its copy \<open>dgl/alg/Heap.h\<close>): a binary heap of keys with, for every key, its
  position in the heap or -1.  The comparator is an argument of the operations, since it reads
  priorities that change between calls.  The invariants are that the positions are right and that
  no key is less than its parent; the contract is the locale \<open>priority_queue\<close>.
\<close>

subsection \<open>The heap\<close>

record heap =
  hp_heap :: "nat list"
  hp_idx :: "int intmap"

definition new_heap :: heap where "new_heap = \<lparr>hp_heap = [], hp_idx = []\<rparr>"

definition hp_left :: "nat \<Rightarrow> nat" where "hp_left i = i * 2 + 1"
definition hp_right :: "nat \<Rightarrow> nat" where "hp_right i = (i + 1) * 2"
definition hp_parent :: "nat \<Rightarrow> nat" where "hp_parent i = (i - 1) div 2"

lemma hp_parent_less: "i \<noteq> 0 \<Longrightarrow> hp_parent i < i"
  by (auto simp: hp_parent_def)

function up_loop :: "(nat \<Rightarrow> nat \<Rightarrow> bool) \<Rightarrow> nat \<Rightarrow> nat \<Rightarrow> nat list \<Rightarrow> int intmap \<Rightarrow> nat \<times> nat list \<times> int intmap" where
  "up_loop lt x i h ix =
     (let p = hp_parent i in
      if i \<noteq> 0 \<and> lt x (h ! p) then up_loop lt x p (h[i := h ! p]) (ix[h ! p := int i])
      else (i, h, ix))"
  by pat_completeness auto
termination by (relation "measure (\<lambda>(lt, x, i, h, ix). i)") (auto simp: hp_parent_less)

definition percolateUp :: "(nat \<Rightarrow> nat \<Rightarrow> bool) \<Rightarrow> nat \<Rightarrow> heap \<Rightarrow> heap" where
  "percolateUp lt i q = (let x = hp_heap q ! i; (i, h, ix) = up_loop lt x i (hp_heap q) (hp_idx q) in
     q\<lparr>hp_heap := h[i := x], hp_idx := ix[x := int i]\<rparr>)"

definition min_child :: "(nat \<Rightarrow> nat \<Rightarrow> bool) \<Rightarrow> nat \<Rightarrow> nat list \<Rightarrow> nat" where
  "min_child lt i h =
     (if hp_right i < length h \<and> lt (h ! hp_right i) (h ! hp_left i) then hp_right i else hp_left i)"

lemma min_child_bounds: "hp_left i < length h \<Longrightarrow> i < min_child lt i h \<and> min_child lt i h < length h"
  by (auto simp: min_child_def hp_left_def hp_right_def)

function down_loop :: "(nat \<Rightarrow> nat \<Rightarrow> bool) \<Rightarrow> nat \<Rightarrow> nat \<Rightarrow> nat list \<Rightarrow> int intmap \<Rightarrow> nat \<times> nat list \<times> int intmap" where
  "down_loop lt x i h ix =
     (if hp_left i < length h then
        let child = min_child lt i h in
        if \<not> lt (h ! child) x then (i, h, ix)
        else down_loop lt x child (h[i := h ! child]) (ix[h ! child := int i])
      else (i, h, ix))"
  by pat_completeness auto
termination
proof (relation "measure (\<lambda>(lt, x, i, h, ix). length h - i)")
  fix lt x i h ix child
  assume "hp_left i < length h" "child = min_child lt i (h :: nat list)"
  then show "((lt, x, child, h[i := h ! child], ix[h ! child := int i]), lt, x, i, h, ix)
      \<in> measure (\<lambda>(lt, x, i, h, ix). length h - i)"
    using min_child_bounds [of i h lt] by (simp add: diff_less_mono2)
qed simp

declare up_loop.simps [simp del] down_loop.simps [simp del]

definition percolateDown :: "(nat \<Rightarrow> nat \<Rightarrow> bool) \<Rightarrow> nat \<Rightarrow> heap \<Rightarrow> heap" where
  "percolateDown lt i q = (let x = hp_heap q ! i; (i, h, ix) = down_loop lt x i (hp_heap q) (hp_idx q) in
     q\<lparr>hp_heap := h[i := x], hp_idx := ix[x := int i]\<rparr>)"

definition inHeap :: "nat \<Rightarrow> heap \<Rightarrow> bool" where
  "inHeap k q \<longleftrightarrow> im_has (hp_idx q) k \<and> hp_idx q ! k \<ge> 0"

definition decrease :: "(nat \<Rightarrow> nat \<Rightarrow> bool) \<Rightarrow> nat \<Rightarrow> heap \<Rightarrow> heap option" where
  "decrease lt k q = do { check (inHeap k q); Some (percolateUp lt (nat (hp_idx q ! k)) q) }"

definition increase :: "(nat \<Rightarrow> nat \<Rightarrow> bool) \<Rightarrow> nat \<Rightarrow> heap \<Rightarrow> heap option" where
  "increase lt k q = do { check (inHeap k q); Some (percolateDown lt (nat (hp_idx q ! k)) q) }"

definition hp_insert :: "(nat \<Rightarrow> nat \<Rightarrow> bool) \<Rightarrow> nat \<Rightarrow> heap \<Rightarrow> heap option" where
  "hp_insert lt k q = (let q = q\<lparr>hp_idx := im_reserve k (- 1) (hp_idx q)\<rparr> in do {
     check (\<not> inHeap k q);
     ix \<leftarrow> im_set k (int (length (hp_heap q))) (hp_idx q);
     let q = q\<lparr>hp_idx := ix, hp_heap := hp_heap q @ [k]\<rparr>;
     Some (percolateUp lt (nat (hp_idx q ! k)) q) })"

definition update :: "(nat \<Rightarrow> nat \<Rightarrow> bool) \<Rightarrow> nat \<Rightarrow> heap \<Rightarrow> heap option" where
  "update lt k q =
     (if \<not> inHeap k q then hp_insert lt k q
      else
        let q = percolateUp lt (nat (hp_idx q ! k)) q
        in Some (percolateDown lt (nat (hp_idx q ! k)) q))"

definition hp_remove :: "(nat \<Rightarrow> nat \<Rightarrow> bool) \<Rightarrow> nat \<Rightarrow> heap \<Rightarrow> heap option" where
  "hp_remove lt k q = do {
     check (inHeap k q);
     let k_pos = nat (hp_idx q ! k);
     let q = q\<lparr>hp_idx := (hp_idx q)[k := - 1]\<rparr>;
     Some (if k_pos < length (hp_heap q) - 1 then
         let l = last (hp_heap q);
             q = q\<lparr>hp_heap := butlast ((hp_heap q)[k_pos := l]), hp_idx := (hp_idx q)[l := int k_pos]\<rparr>
         in percolateDown lt k_pos q
       else q\<lparr>hp_heap := butlast (hp_heap q)\<rparr>) }"

definition removeMin :: "(nat \<Rightarrow> nat \<Rightarrow> bool) \<Rightarrow> heap \<Rightarrow> (nat \<times> heap) option" where
  "removeMin lt q = do {
     x \<leftarrow> get_at (hp_heap q) 0;
     let l = last (hp_heap q);
     let q = q\<lparr>hp_heap := butlast ((hp_heap q)[0 := l]), hp_idx := ((hp_idx q)[l := 0])[x := - 1]\<rparr>;
     Some (x, if length (hp_heap q) > 1 then percolateDown lt 0 q else q) }"

text \<open>\<open>build\<close>: forget the old keys, take over the new ones, and percolate down from the last parent.\<close>

definition forget_keys :: "heap \<Rightarrow> int intmap" where
  "forget_keys q = fold (\<lambda>k ix. ix[k := - 1]) (hp_heap q) (hp_idx q)"

fun load_keys :: "nat \<Rightarrow> nat list \<Rightarrow> heap \<Rightarrow> heap option" where
  "load_keys i [] q = Some q"
| "load_keys i (k # ks) q = do {
     check (im_has (hp_idx q) k);
     load_keys (i + 1) ks (q\<lparr>hp_idx := (hp_idx q)[k := int i], hp_heap := hp_heap q @ [k]\<rparr>) }"

definition build :: "(nat \<Rightarrow> nat \<Rightarrow> bool) \<Rightarrow> nat list \<Rightarrow> heap \<Rightarrow> heap option" where
  "build lt ns q = do {
     q \<leftarrow> load_keys 0 ns (q\<lparr>hp_idx := forget_keys q, hp_heap := []\<rparr>);
     Some (fold (percolateDown lt) (rev [0..<length (hp_heap q) div 2]) q) }"

definition hp_clear :: "heap \<Rightarrow> heap" where
  "hp_clear q = q\<lparr>hp_idx := forget_keys q, hp_heap := []\<rparr>"

definition copy_sorted :: "(nat \<Rightarrow> nat \<Rightarrow> bool) \<Rightarrow> bool \<Rightarrow> heap \<Rightarrow> nat list option" where
  "copy_sorted lt srt q = (if srt then vec_sort lt (hp_heap q) else Some (hp_heap q))"

subsection \<open>Invariants\<close>

definition idx_ok :: "nat list \<Rightarrow> int intmap \<Rightarrow> bool" where
  "idx_ok h ix \<longleftrightarrow> distinct h \<and> (\<forall>k\<in>set h. k < length ix) \<and>
     (\<forall>i<length h. ix ! (h ! i) = int i) \<and> (\<forall>k<length ix. k \<notin> set h \<longrightarrow> ix ! k = - 1)"

text \<open>Heap order between the nodes whose parent is at position \<open>m\<close> or above.\<close>

definition ord_from :: "(nat \<Rightarrow> nat \<Rightarrow> bool) \<Rightarrow> nat \<Rightarrow> nat list \<Rightarrow> bool" where
  "ord_from lt m h \<longleftrightarrow> (\<forall>j<length h. j \<noteq> 0 \<longrightarrow> m \<le> hp_parent j \<longrightarrow> \<not> lt (h ! j) (h ! hp_parent j))"

abbreviation heap_ord :: "(nat \<Rightarrow> nat \<Rightarrow> bool) \<Rightarrow> nat list \<Rightarrow> bool" where
  "heap_ord lt \<equiv> ord_from lt 0"

text \<open>The order but for the key at position \<open>i\<close>, which may be too low, or too high.\<close>

definition up_inv :: "(nat \<Rightarrow> nat \<Rightarrow> bool) \<Rightarrow> nat \<Rightarrow> nat list \<Rightarrow> bool" where
  "up_inv lt i h \<longleftrightarrow> (\<forall>j<length h. j \<noteq> 0 \<longrightarrow> j \<noteq> i \<longrightarrow> \<not> lt (h ! j) (h ! hp_parent j)) \<and>
     (\<forall>j<length h. j \<noteq> 0 \<longrightarrow> hp_parent j = i \<longrightarrow> i \<noteq> 0 \<longrightarrow> \<not> lt (h ! j) (h ! hp_parent i))"

definition down_inv :: "(nat \<Rightarrow> nat \<Rightarrow> bool) \<Rightarrow> nat \<Rightarrow> nat \<Rightarrow> nat list \<Rightarrow> bool" where
  "down_inv lt m i h \<longleftrightarrow>
     (\<forall>j<length h. j \<noteq> 0 \<longrightarrow> m \<le> hp_parent j \<longrightarrow> hp_parent j \<noteq> i \<longrightarrow> \<not> lt (h ! j) (h ! hp_parent j)) \<and>
     (\<forall>j<length h. j \<noteq> 0 \<longrightarrow> hp_parent j = i \<longrightarrow> i \<noteq> 0 \<longrightarrow> m \<le> hp_parent i \<longrightarrow> \<not> lt (h ! j) (h ! hp_parent i))"

definition heap_ok :: "(nat \<Rightarrow> nat \<Rightarrow> bool) \<Rightarrow> heap \<Rightarrow> bool" where
  "heap_ok lt q \<longleftrightarrow> idx_ok (hp_heap q) (hp_idx q) \<and> heap_ord lt (hp_heap q)"

lemma idx_ok_swap:
  assumes "idx_ok h ix" "i < length h" "p < length h" "i \<noteq> p"
  shows "idx_ok (list_swap h i p) (ix[h ! p := int i, h ! i := int p])"
proof -
  have d: "distinct h" and b: "h ! i < length ix" "h ! p < length ix" and ne: "h ! i \<noteq> h ! p"
    using assms by (auto simp: idx_ok_def nth_eq_iff_index_eq)
  have "(ix[h ! p := int i, h ! i := int p]) ! (list_swap h i p ! j) = int j" if j: "j < length h" for j
    using assms j b ne d by (auto simp: nth_list_swap nth_list_update idx_ok_def nth_eq_iff_index_eq)
  then show ?thesis using assms b by (auto simp: idx_ok_def nth_list_update)
qed

lemma idx_ok_pos: "idx_ok h ix \<Longrightarrow> i < length h \<Longrightarrow> ix[h ! i := int i] = ix"
  by (metis idx_ok_def list_update_id)

lemma hp_parent_children: "j \<noteq> 0 \<and> hp_parent j = i \<longleftrightarrow> j = hp_left i \<or> j = hp_right i"
  by (auto simp: hp_parent_def hp_left_def hp_right_def)

subsection \<open>Percolation\<close>

text \<open>The loops move a hole; with the moved key put into the hole each step is a swap.\<close>

lemma hole_swap:
  assumes "i < length h" "p < length h" "i \<noteq> p"
  shows "(h[i := h ! p])[p := x] = list_swap (h[i := x]) i p"
  using assms by (intro nth_equalityI) (simp_all add: nth_list_swap nth_list_update)

lemma hole_idx:
  assumes "x \<noteq> y"
  shows "(ix[y := int i])[x := int p] = ((ix[x := int i])[y := int i])[x := int p]"
  using assms by (metis list_update_overwrite list_update_swap)

lemma up_inv_step:
  assumes lt: "weak_order lt" and inv: "up_inv lt i h" and i: "i < length h" "i \<noteq> 0" and l: "lt (h ! i) (h ! hp_parent i)"
  shows "up_inv lt (hp_parent i) (list_swap h i (hp_parent i))"
proof -
  let ?p = "hp_parent i" and ?h = "list_swap h i (hp_parent i)"
  have p: "?p < i" "?p < length h" using hp_parent_less [OF i(2)] i(1) by simp_all
  note nth = nth_list_swap [OF i(1) p(2)]
  note o = weak_orderD [OF lt]
  have 1: "\<not> lt (h ! j) (h ! hp_parent j)" if "j < length h" "j \<noteq> 0" "j \<noteq> i" for j
    using inv that by (simp add: up_inv_def)
  have 2: "\<not> lt (h ! j) (h ! ?p)" if "j < length h" "j \<noteq> 0" "hp_parent j = i" for j
    using inv that i(2) by (simp add: up_inv_def)
  have "\<not> lt (?h ! j) (?h ! hp_parent j)" if j: "j < length h" "j \<noteq> 0" "j \<noteq> ?p" for j
  proof (cases "j = i")
    case True
    then show ?thesis using l o(1,4) by (simp add: nth)
  next
    case False
    have pj: "hp_parent j < j" using hp_parent_less [OF j(2)] .
    consider "hp_parent j = i" | "hp_parent j = ?p" | "hp_parent j \<noteq> i" "hp_parent j \<noteq> ?p" by blast
    then show ?thesis
    proof cases
      case 1
      then show ?thesis using 2 [OF j(1,2)] False j(3) by (simp add: nth)
    next
      case p: 2
      have "\<not> lt (h ! j) (h ! i)" using 1 [OF j(1,2) False] l o(2) p by metis
      then show ?thesis using False j(3) p by (simp add: nth)
    next
      case 3
      then show ?thesis using 1 [OF j(1,2) False] False j(3) by (simp add: nth)
    qed
  qed
  moreover have "\<not> lt (?h ! j) (?h ! hp_parent ?p)" if j: "j < length h" "j \<noteq> 0" "hp_parent j = ?p" "?p \<noteq> 0" for j
  proof -
    have pp: "hp_parent ?p < ?p" using hp_parent_less [OF j(4)] .
    have a: "\<not> lt (h ! ?p) (h ! hp_parent ?p)" using 1 [of ?p] p j(4) by simp
    have jp: "j \<noteq> ?p" using hp_parent_less [OF j(2)] j(3) by simp
    show ?thesis
    proof (cases "j = i")
      case True
      then show ?thesis using a pp p by (simp add: nth)
    next
      case False
      then show ?thesis using o(3) [OF 1 [OF j(1,2) False, unfolded j(3)] a] jp pp p by (simp add: nth)
    qed
  qed
  ultimately show ?thesis by (simp add: up_inv_def)
qed

lemma up_loop_spec:
  assumes "weak_order lt" "i < length h" "idx_ok (h[i := x]) (ix[x := int i])" "up_inv lt i (h[i := x])" "x < length ix"
  shows "case up_loop lt x i h ix of (j, h', ix') \<Rightarrow>
    idx_ok (h'[j := x]) (ix'[x := int j]) \<and> heap_ord lt (h'[j := x]) \<and> length h' = length h \<and> j < length h \<and>
    mset (h'[j := x]) = mset (h[i := x]) \<and> length ix' = length ix"
  using assms
proof (induction lt x i h ix rule: up_loop.induct)
  case (1 lt x i h ix)
  let ?p = "hp_parent i"
  show ?case
  proof (cases "i \<noteq> 0 \<and> lt x (h ! ?p)")
    case True
    note w = "1.prems"(1) and i = "1.prems"(2) and idx = "1.prems"(3) and u = "1.prems"(4) and x = "1.prems"(5)
    have p: "?p < i" "?p < length h" using hp_parent_less [of i] True i by auto
    let ?h = "h[i := x]" and ?h' = "h[i := h ! ?p]" and ?ix' = "ix[h ! ?p := int i]"
    have hp: "?h ! ?p = h ! ?p" "?h ! i = x" using p i by simp_all
    have swap: "?h'[?p := x] = list_swap ?h i ?p" using hole_swap [of i h ?p x] p i by simp
    have dst: "distinct ?h" using idx by (simp add: idx_ok_def)
    have ne: "x \<noteq> h ! ?p" using nth_eq_iff_index_eq [OF dst, of i ?p] hp p i by auto
    have ixs: "?ix'[x := int ?p] = (ix[x := int i])[?h ! ?p := int i, ?h ! i := int ?p]"
      using hole_idx [OF ne] hp by simp
    have ok: "idx_ok (?h'[?p := x]) (?ix'[x := int ?p])" unfolding swap ixs
      by (rule idx_ok_swap) (use idx i p in auto)
    have up: "up_inv lt ?p (?h'[?p := x])" unfolding swap
      by (rule up_inv_step [OF w u]) (use i True hp in auto)
    have ms: "mset (?h'[?p := x]) = mset ?h" unfolding swap using p i by simp
    obtain j h2 ix2 where r: "up_loop lt x ?p ?h' ?ix' = (j, h2, ix2)" by (metis prod_cases3)
    have len: "?p < length ?h'" "x < length ?ix'" using p x by simp_all
    have "up_loop lt x i h ix = (j, h2, ix2)"
      using True r by (simp only: up_loop.simps [of lt x i h ix] Let_def if_True simp_thms)
    then show ?thesis using "1.IH" [OF refl True w len(1) ok up len(2)] ms unfolding r by simp
  next
    case False
    have "\<not> lt (h[i := x] ! j) (h[i := x] ! hp_parent j)" if j: "j < length h" "j \<noteq> 0" for j
    proof (cases "j = i")
      case True
      then show ?thesis using False j "1.prems"(2) hp_parent_less [of i] by auto
    next
      case ne: False
      then show ?thesis using "1.prems"(4) j unfolding up_inv_def by (metis length_list_update)
    qed
    then have "heap_ord lt (h[i := x])" by (simp add: ord_from_def)
    moreover have "up_loop lt x i h ix = (i, h, ix)"
      by (simp only: up_loop.simps [of lt x i h ix] Let_def False if_False)
    ultimately show ?thesis using "1.prems" by simp
  qed
qed


lemma down_inv_step:
  assumes lt: "weak_order lt" and inv: "down_inv lt m i h" and i: "hp_left i < length h" "m \<le> i"
    and c: "c = min_child lt i h" and l: "lt (h ! c) (h ! i)"
  shows "down_inv lt m c (list_swap h i c)"
proof -
  let ?h = "list_swap h i c"
  have cb: "i < c" "c < length h" using min_child_bounds [OF i(1)] c by auto
  have il: "i < length h" using cb by simp
  have pc: "hp_parent c = i" "c \<noteq> 0" using hp_parent_children [of c i] by (auto simp: c min_child_def)
  note nth = nth_list_swap [OF il cb(2)]
  note o = weak_orderD [OF lt]
  have 1: "\<not> lt (h ! j) (h ! hp_parent j)" if "j < length h" "j \<noteq> 0" "m \<le> hp_parent j" "hp_parent j \<noteq> i" for j
    using inv that by (simp add: down_inv_def)
  have 2: "\<not> lt (h ! j) (h ! hp_parent i)" if "j < length h" "j \<noteq> 0" "hp_parent j = i" "i \<noteq> 0" "m \<le> hp_parent i" for j
    using inv that by (simp add: down_inv_def)
  have least: "\<not> lt (h ! j) (h ! c)" if "j < length h" "j \<noteq> 0" "hp_parent j = i" for j
    using that hp_parent_children [of j i] o(1,4) by (auto simp: c min_child_def)
  have "\<not> lt (?h ! j) (?h ! hp_parent j)"
    if j: "j < length h" "j \<noteq> 0" "m \<le> hp_parent j" "hp_parent j \<noteq> c" for j
  proof -
    have pj: "hp_parent j < j" using hp_parent_less [OF j(2)] .
    consider "j = c" | "j \<noteq> c" "hp_parent j = i" | "j = i" | "j \<noteq> c" "j \<noteq> i" "hp_parent j \<noteq> i" by blast
    then show ?thesis
    proof cases
      case 1
      then show ?thesis using l o(4) pc cb by (simp add: nth)
    next
      case 2
      then show ?thesis using least [OF j(1,2)] pj by (simp add: nth)
    next
      case 3
      then show ?thesis using "2" [OF cb(2) pc(2,1)] j pj cb by (simp add: nth)
    next
      case 4
      then show ?thesis using "1" [OF j(1-3)] j(4) by (simp add: nth)
    qed
  qed
  moreover have "\<not> lt (?h ! j) (?h ! hp_parent c)" if j: "j < length h" "j \<noteq> 0" "hp_parent j = c" for j
  proof -
    have "c < j" using hp_parent_less [OF j(2)] j(3) by simp
    moreover have "\<not> lt (h ! j) (h ! c)" using 1 [OF j(1,2)] j(3) cb i(2) by simp
    ultimately show ?thesis using pc cb by (simp add: nth)
  qed
  ultimately show ?thesis by (simp add: down_inv_def)
qed

lemma down_loop_spec:
  assumes "weak_order lt" "i < length h" "idx_ok (h[i := x]) (ix[x := int i])" "down_inv lt m i (h[i := x])" "x < length ix" "m \<le> i"
  shows "case down_loop lt x i h ix of (j, h', ix') \<Rightarrow>
    idx_ok (h'[j := x]) (ix'[x := int j]) \<and> ord_from lt m (h'[j := x]) \<and> length h' = length h \<and> j < length h \<and>
    mset (h'[j := x]) = mset (h[i := x]) \<and> length ix' = length ix"
  using assms
proof (induction lt x i h ix rule: down_loop.induct)
  case (1 lt x i h ix)
  let ?c = "min_child lt i h" and ?h = "h[i := x]"
  note w = "1.prems"(1) and i = "1.prems"(2) and idx = "1.prems"(3) and u = "1.prems"(4) and x = "1.prems"(5) and m = "1.prems"(6)
  have nl: "i < hp_left i" "i < hp_right i" by (simp_all add: hp_left_def hp_right_def)
  have c: "min_child lt i ?h = ?c" using nl by (simp add: min_child_def)
  have done_case: "ord_from lt m ?h" if stop: "hp_left i < length h \<Longrightarrow> \<not> lt (h ! ?c) x"
  proof -
    have "\<not> lt (?h ! j) (?h ! hp_parent j)" if j: "j < length h" "j \<noteq> 0" "m \<le> hp_parent j" for j
    proof (cases "hp_parent j = i")
      case True
      then have d: "j = hp_left i \<or> j = hp_right i" using hp_parent_children [of j i] j(2) by simp
      then have lf: "hp_left i < length h" using j(1) by (auto simp: hp_left_def hp_right_def)
      have "\<not> lt (h ! j) (h ! ?c)" using d weak_orderD(1,4) [OF w] j(1) by (auto simp: min_child_def)
      then have "\<not> lt (h ! j) x" using weak_orderD(3) [OF w, of "h ! j" "h ! ?c" x] stop [OF lf] by blast
      then show ?thesis using True i d nl by auto
    next
      case False
      then show ?thesis using u j unfolding down_inv_def by (metis length_list_update)
    qed
    then show ?thesis by (simp add: ord_from_def)
  qed
  show ?case
  proof (cases "hp_left i < length h \<and> lt (h ! ?c) x")
    case True
    let ?h' = "h[i := h ! ?c]" and ?ix' = "ix[h ! ?c := int i]"
    have cb: "i < ?c" "?c < length h" using min_child_bounds True by auto
    have hc: "?h ! ?c = h ! ?c" "?h ! i = x" using cb i by simp_all
    have swap: "?h'[?c := x] = list_swap ?h i ?c" using hole_swap [of i h ?c x] cb i by simp
    have dst: "distinct ?h" using idx by (simp add: idx_ok_def)
    have ne: "x \<noteq> h ! ?c" using nth_eq_iff_index_eq [OF dst, of i ?c] hc cb i by auto
    have ixs: "?ix'[x := int ?c] = (ix[x := int i])[?h ! ?c := int i, ?h ! i := int ?c]"
      using hole_idx [OF ne] hc by simp
    have ok: "idx_ok (?h'[?c := x]) (?ix'[x := int ?c])" unfolding swap ixs
      by (rule idx_ok_swap) (use idx i cb in auto)
    have dn: "down_inv lt m ?c (?h'[?c := x])" unfolding swap
      by (rule down_inv_step [OF w u]) (use True hc m c in auto)
    have ms: "mset (?h'[?c := x]) = mset ?h" unfolding swap using cb i by simp
    obtain j h2 ix2 where r: "down_loop lt x ?c ?h' ?ix' = (j, h2, ix2)" by (metis prod_cases3)
    have len: "?c < length ?h'" "x < length ?ix'" "m \<le> ?c" using cb x m by simp_all
    have "down_loop lt x i h ix = (j, h2, ix2)"
      using True r by (simp add: down_loop.simps [of lt x i h ix] Let_def)
    moreover have nn: "\<not> \<not> lt (h ! ?c) x" using True by simp
    ultimately show ?thesis
      using "1.IH" [OF conjunct1 [OF True] refl nn w len(1) ok dn len(2,3)] ms unfolding r by simp
  next
    case False
    then have "ord_from lt m ?h" by (intro done_case) simp
    moreover have "down_loop lt x i h ix = (i, h, ix)"
      using False by (auto simp add: down_loop.simps [of lt x i h ix] Let_def)
    ultimately show ?thesis using "1.prems" by simp
  qed
qed

lemma idx_okD:
  assumes "idx_ok h ix"
  shows "distinct h" "k \<in> set h \<Longrightarrow> k < length ix" "i < length h \<Longrightarrow> ix ! (h ! i) = int i"
    "k < length ix \<Longrightarrow> k \<notin> set h \<Longrightarrow> ix ! k = - 1"
  using assms by (auto simp: idx_ok_def)

lemma percolateUp_spec:
  assumes "weak_order lt" "i < length (hp_heap q)" "idx_ok (hp_heap q) (hp_idx q)" "up_inv lt i (hp_heap q)"
  shows "heap_ok lt (percolateUp lt i q) \<and> mset (hp_heap (percolateUp lt i q)) = mset (hp_heap q) \<and>
    length (hp_idx (percolateUp lt i q)) = length (hp_idx q)"
proof -
  let ?x = "hp_heap q ! i"
  have "?x < length (hp_idx q)" using assms(2) idx_okD(2) [OF assms(3)] by simp
  then show ?thesis
    using up_loop_spec [OF assms(1,2), of ?x "hp_idx q"] assms idx_ok_pos [OF assms(3,2)]
    by (auto simp: percolateUp_def Let_def heap_ok_def split: prod.splits)
qed

lemma percolateDown_spec:
  assumes "weak_order lt" "i < length (hp_heap q)" "idx_ok (hp_heap q) (hp_idx q)" "down_inv lt m i (hp_heap q)" "m \<le> i"
  shows "idx_ok (hp_heap (percolateDown lt i q)) (hp_idx (percolateDown lt i q)) \<and>
    ord_from lt m (hp_heap (percolateDown lt i q)) \<and> mset (hp_heap (percolateDown lt i q)) = mset (hp_heap q) \<and>
    length (hp_idx (percolateDown lt i q)) = length (hp_idx q)"
proof -
  let ?x = "hp_heap q ! i"
  have "?x < length (hp_idx q)" using assms(2) idx_okD(2) [OF assms(3)] by simp
  then show ?thesis
    using down_loop_spec [OF assms(1,2), of ?x "hp_idx q" m] assms idx_ok_pos [OF assms(3,2)]
    by (auto simp: percolateDown_def Let_def split: prod.splits)
qed

lemma ord_down_inv: "weak_order lt \<Longrightarrow> heap_ord lt h \<Longrightarrow> i < length h \<Longrightarrow> down_inv lt 0 i h"
  unfolding down_inv_def ord_from_def by (metis hp_parent_less less_trans weak_orderD(3) zero_le)

lemma ord_up_inv: "weak_order lt \<Longrightarrow> heap_ord lt h \<Longrightarrow> i < length h \<Longrightarrow> up_inv lt i h"
  unfolding up_inv_def ord_from_def by (metis hp_parent_less less_trans weak_orderD(3) zero_le)

lemma inHeap_iff:
  assumes "idx_ok (hp_heap q) (hp_idx q)"
  shows "inHeap k q \<longleftrightarrow> k \<in> set (hp_heap q)"
proof
  assume "inHeap k q"
  then show "k \<in> set (hp_heap q)" using idx_okD(4) [OF assms, of k] by (auto simp: inHeap_def im_has_def)
next
  assume k: "k \<in> set (hp_heap q)"
  then obtain i where "i < length (hp_heap q)" "k = hp_heap q ! i" by (auto simp: in_set_conv_nth)
  then show "inHeap k q" using idx_okD(2,3) [OF assms] k by (simp add: inHeap_def im_has_def)
qed

lemma idx_pos:
  assumes "idx_ok (hp_heap q) (hp_idx q)" "k \<in> set (hp_heap q)"
  shows "nat (hp_idx q ! k) < length (hp_heap q)" "hp_heap q ! nat (hp_idx q ! k) = k"
proof -
  obtain i where "i < length (hp_heap q)" "k = hp_heap q ! i" using assms(2) by (auto simp: in_set_conv_nth)
  then show "nat (hp_idx q ! k) < length (hp_heap q)" "hp_heap q ! nat (hp_idx q ! k) = k"
    using idx_okD(3) [OF assms(1)] by simp_all
qed

subsection \<open>Operations\<close>

lemma insert_spec:
  assumes lt: "weak_order lt" and ok: "heap_ok lt q" and k: "k \<notin> set (hp_heap q)"
  shows "\<exists>r. hp_insert lt k q = Some r \<and> heap_ok lt r \<and> mset (hp_heap r) = add_mset k (mset (hp_heap q))"
proof -
  let ?ix = "im_reserve k (- 1) (hp_idx q)" and ?n = "length (hp_heap q)"
  let ?q = "q\<lparr>hp_idx := ?ix[k := int ?n], hp_heap := hp_heap q @ [k]\<rparr>"
  have idx: "idx_ok (hp_heap q) (hp_idx q)" and o: "heap_ord lt (hp_heap q)" using ok by (simp_all add: heap_ok_def)
  have kl: "k < length ?ix" "length (hp_idx q) \<le> length ?ix" by (simp_all add: im_reserve_length)
  have "?ix ! j = (if j < length (hp_idx q) then hp_idx q ! j else - 1)" if "j < length ?ix" for j
    using im_reserve_nth [OF that] .
  moreover have "j < length (hp_idx q) \<Longrightarrow> j < length ?ix" for j using kl(2) by simp
  ultimately have r: "idx_ok (hp_heap q) ?ix" using idx unfolding idx_ok_def
    by (metis nth_mem)
  have nin: "\<not> inHeap k (q\<lparr>hp_idx := ?ix\<rparr>)" using inHeap_iff [of "q\<lparr>hp_idx := ?ix\<rparr>"] r k by simp
  have ne: "hp_heap q ! i \<noteq> k" if "i < ?n" for i using k that by auto
  have idx': "idx_ok (hp_heap ?q) (hp_idx ?q)"
    using r k kl ne by (auto simp: idx_ok_def nth_append less_Suc_eq nth_list_update)
  have up: "up_inv lt ?n (hp_heap ?q)"
  proof -
    have "hp_parent j < ?n" if "j < ?n" "j \<noteq> 0" for j using hp_parent_less [OF that(2)] that(1) by simp
    moreover have "hp_parent j \<noteq> ?n" if "j \<le> ?n" "j \<noteq> 0" for j using hp_parent_less [OF that(2)] that(1) by simp
    ultimately show ?thesis using o by (auto simp: up_inv_def ord_from_def nth_append)
  qed
  have "hp_insert lt k q = Some (percolateUp lt ?n ?q)" using nin kl by (simp add: hp_insert_def Let_def)
  then show ?thesis using percolateUp_spec [OF lt _ idx' up] by simp
qed

text \<open>Priorities: the comparator reads a value per key, and one key's value may change.\<close>

abbreviation by_key :: "(nat \<Rightarrow> 'p::linorder) \<Rightarrow> nat \<Rightarrow> nat \<Rightarrow> bool" where
  "by_key d \<equiv> \<lambda>a b. d a < d b"

lemma changed_up_inv:
  assumes idx: "idx_ok h ix" and o: "heap_ord (by_key d) h" and i: "i < length h" "h ! i = k" and v: "v \<le> d k"
  shows "up_inv (by_key (d(k := v))) i h"
proof -
  have ne: "h ! j \<noteq> k" if "j < length h" "j \<noteq> i" for j
    using idx i that by (auto simp: idx_ok_def nth_eq_iff_index_eq)
  have p: "hp_parent j < j" if "j \<noteq> 0" for j using hp_parent_less [OF that] .
  have le: "d (h ! hp_parent j) \<le> d (h ! j)" if "j < length h" "j \<noteq> 0" for j
    using o that by (simp add: ord_from_def not_less)
  have "\<not> (d(k := v)) (h ! j) < (d(k := v)) (h ! hp_parent j)" if j: "j < length h" "j \<noteq> 0" "j \<noteq> i" for j
    using le [OF j(1,2)] ne [OF j(1,3)] v i(2) by (auto simp: not_less intro: order_trans)
  moreover have "\<not> (d(k := v)) (h ! j) < (d(k := v)) (h ! hp_parent i)"
    if j: "j < length h" "j \<noteq> 0" "hp_parent j = i" "i \<noteq> 0" for j
  proof -
    have "j \<noteq> i" "hp_parent i \<noteq> i" "hp_parent i < length h" using p [OF j(2)] p [OF j(4)] j(3) i(1) by auto
    then show ?thesis using le [OF j(1,2)] le [OF i(1) j(4)] ne [OF j(1)] ne [of "hp_parent i"] j(3) by simp
  qed
  ultimately show ?thesis by (simp add: up_inv_def)
qed

lemma changed_down_inv:
  assumes idx: "idx_ok h ix" and o: "heap_ord (by_key d) h" and i: "i < length h" "h ! i = k" and v: "d k \<le> v"
  shows "down_inv (by_key (d(k := v))) 0 i h"
proof -
  have ne: "h ! j \<noteq> k" if "j < length h" "j \<noteq> i" for j
    using idx i that by (auto simp: idx_ok_def nth_eq_iff_index_eq)
  have p: "hp_parent j < j" if "j \<noteq> 0" for j using hp_parent_less [OF that] .
  have le: "d (h ! hp_parent j) \<le> d (h ! j)" if "j < length h" "j \<noteq> 0" for j
    using o that by (simp add: ord_from_def not_less)
  have "\<not> (d(k := v)) (h ! j) < (d(k := v)) (h ! hp_parent j)" if j: "j < length h" "j \<noteq> 0" "hp_parent j \<noteq> i" for j
  proof -
    have "hp_parent j < length h" using p [OF j(2)] j(1) by simp
    then show ?thesis using le [OF j(1,2)] ne [OF _ j(3)] v i(2) by (auto simp: not_less intro: order_trans)
  qed
  moreover have "\<not> (d(k := v)) (h ! j) < (d(k := v)) (h ! hp_parent i)"
    if j: "j < length h" "j \<noteq> 0" "hp_parent j = i" "i \<noteq> 0" for j
  proof -
    have "j \<noteq> i" "hp_parent i \<noteq> i" "hp_parent i < length h" using p [OF j(2)] p [OF j(4)] j(3) i(1) by auto
    then show ?thesis using le [OF j(1,2)] le [OF i(1) j(4)] ne [OF j(1)] ne [of "hp_parent i"] j(3) by simp
  qed
  ultimately show ?thesis by (simp add: down_inv_def)
qed

lemma heap_root:
  assumes "weak_order lt" "heap_ord lt h" "j < length h"
  shows "\<not> lt (h ! j) (h ! 0)"
  using assms(3)
proof (induction j rule: less_induct)
  case (less j)
  show ?case
  proof (cases "j = 0")
    case True
    then show ?thesis using weak_orderD(1) [OF assms(1)] by simp
  next
    case False
    note p = hp_parent_less [OF False]
    have "\<not> lt (h ! hp_parent j) (h ! 0)" using less.IH [OF p] p less.prems by simp
    moreover have "\<not> lt (h ! j) (h ! hp_parent j)" using assms(2) less.prems False by (simp add: ord_from_def)
    ultimately show ?thesis using weak_orderD(3) [OF assms(1)] by blast
  qed
qed

lemma update_spec:
  assumes ok: "heap_ok (by_key d) q" and k: "k \<in> set (hp_heap q)"
  shows "\<exists>r. update (by_key (d(k := v))) k q = Some r \<and> heap_ok (by_key (d(k := v))) r \<and> mset (hp_heap r) = mset (hp_heap q)"
    "v \<le> d k \<Longrightarrow> \<exists>r. decrease (by_key (d(k := v))) k q = Some r \<and> heap_ok (by_key (d(k := v))) r \<and> mset (hp_heap r) = mset (hp_heap q)"
    "d k \<le> v \<Longrightarrow> \<exists>r. increase (by_key (d(k := v))) k q = Some r \<and> heap_ok (by_key (d(k := v))) r \<and> mset (hp_heap r) = mset (hp_heap q)"
proof -
  let ?lt = "by_key (d(k := v))" and ?i = "nat (hp_idx q ! k)"
  have idx: "idx_ok (hp_heap q) (hp_idx q)" and o: "heap_ord (by_key d) (hp_heap q)" using ok by (simp_all add: heap_ok_def)
  have w: "weak_order ?lt" by (rule weak_order_key)
  have inh: "inHeap k q" using inHeap_iff [OF idx] k by simp
  note i = idx_pos [OF idx k]
  have up: "heap_ok ?lt (percolateUp ?lt ?i q) \<and> mset (hp_heap (percolateUp ?lt ?i q)) = mset (hp_heap q)" if "v \<le> d k"
    using percolateUp_spec [OF w i(1) idx changed_up_inv [OF idx o i that]] by blast
  have down: "heap_ok ?lt (percolateDown ?lt ?i q) \<and> mset (hp_heap (percolateDown ?lt ?i q)) = mset (hp_heap q)" if "d k \<le> v"
    using percolateDown_spec [OF w i(1) idx changed_down_inv [OF idx o i that]] by (simp add: heap_ok_def)
  show "v \<le> d k \<Longrightarrow> \<exists>r. decrease ?lt k q = Some r \<and> heap_ok ?lt r \<and> mset (hp_heap r) = mset (hp_heap q)"
    using inh up by (simp add: decrease_def)
  show "d k \<le> v \<Longrightarrow> \<exists>r. increase ?lt k q = Some r \<and> heap_ok ?lt r \<and> mset (hp_heap r) = mset (hp_heap q)"
    using inh down by (simp add: increase_def)
  show "\<exists>r. update ?lt k q = Some r \<and> heap_ok ?lt r \<and> mset (hp_heap r) = mset (hp_heap q)"
  proof (cases "v < d k")
    case True
    let ?q = "percolateUp ?lt ?i q"
    have u: "heap_ok ?lt ?q" "mset (hp_heap ?q) = mset (hp_heap q)" using up True by simp_all
    then have idx': "idx_ok (hp_heap ?q) (hp_idx ?q)" and o': "heap_ord ?lt (hp_heap ?q)" by (simp_all add: heap_ok_def)
    have k': "k \<in> set (hp_heap ?q)" using u(2) k by (metis set_mset_mset)
    note i' = idx_pos [OF idx' k']
    show ?thesis
      using percolateDown_spec [OF w i'(1) idx' ord_down_inv [OF w o' i'(1)]] inh u(2)
      by (simp add: update_def Let_def heap_ok_def)
  next
    case False
    have "\<not> (?i \<noteq> 0 \<and> ?lt k (hp_heap q ! hp_parent ?i))"
    proof
      assume a: "?i \<noteq> 0 \<and> ?lt k (hp_heap q ! hp_parent ?i)"
      then have p: "hp_parent ?i < ?i" by (simp add: hp_parent_less)
      then have "hp_heap q ! hp_parent ?i \<noteq> k" using i idx by (metis idx_okD(3) less_irrefl less_trans nat_int)
      moreover have "d (hp_heap q ! hp_parent ?i) \<le> d k" using o i a by (auto simp: ord_from_def not_less)
      ultimately have "v < d k" using a less_le_trans [of v "d (hp_heap q ! hp_parent ?i)" "d k"] by simp
      then show False using False by simp
    qed
    then have "up_loop ?lt k ?i (hp_heap q) (hp_idx q) = (?i, hp_heap q, hp_idx q)"
      by (simp only: up_loop.simps [of ?lt k ?i] Let_def if_False)
    moreover have "(hp_heap q)[?i := k] = hp_heap q" using list_update_id [of "hp_heap q" ?i] i(2) by simp
    moreover have "(hp_idx q)[k := int ?i] = hp_idx q" using idx_ok_pos [OF idx i(1)] i(2) by simp
    ultimately have "percolateUp ?lt ?i q = q" by (simp only: percolateUp_def Let_def i(2) prod.case) simp
    then show ?thesis using down False inh by (simp add: update_def Let_def not_less)
  qed
qed

lemma butlast_update:
  assumes "i < length h - 1"
  shows "mset (butlast (h[i := last h])) = mset h - {#h ! i#}" "length (butlast (h[i := last h])) = length h - 1"
    "j < length h - 1 \<Longrightarrow> butlast (h[i := last h]) ! j = (if j = i then last h else h ! j)"
proof -
  have i: "i < length h" "h \<noteq> []" using assms by auto
  have "last (h[i := last h]) = last h" using i by (auto simp: last_list_update)
  then have "add_mset (last h) (mset (butlast (h[i := last h]))) = mset (h[i := last h])"
    using i by (metis append_butlast_last_id list_update_nonempty mset.simps(2) mset_append mset_rev rev.simps(2)
        union_mset_add_mset_right add.right_neutral mset.simps(1))
  also have "\<dots> = add_mset (last h) (mset h - {#h ! i#})" using mset_update [OF i(1)] .
  finally show "mset (butlast (h[i := last h])) = mset h - {#h ! i#}" by simp
  show "j < length h - 1 \<Longrightarrow> butlast (h[i := last h]) ! j = (if j = i then last h else h ! j)"
    using i by (simp add: nth_butlast nth_list_update)
qed simp

text \<open>Taking out the key at a position before the last one: the positions stay right.\<close>

lemma idx_ok_take_out:
  assumes idx: "idx_ok h ix" and i: "i < length h - 1"
  shows "idx_ok (butlast (h[i := last h])) (ix[h ! i := - 1, last h := int i])"
proof -
  let ?n = "length h - 1"
  have d: "distinct h" and ne: "h \<noteq> []" using idx i by (auto simp: idx_ok_def)
  note l = last_conv_nth [OF ne]
  note inj = nth_eq_iff_index_eq [OF d]
  have b: "h ! j < length ix" if "j < length h" for j using idx that by (simp add: idx_ok_def)
  have ms: "mset (butlast (h[i := last h])) = mset (remove1 (h ! i) h)" using butlast_update(1) [OF i] by simp
  have s: "set (butlast (h[i := last h])) = set h - {h ! i}"
    using mset_eq_setD [OF ms] set_remove1_eq [OF d] by simp
  have dist: "distinct (butlast (h[i := last h]))"
    using mset_eq_imp_distinct_iff [OF ms] distinct_remove1 [OF d] by simp
  have "ix[h ! i := - 1, last h := int i] ! (butlast (h[i := last h]) ! j) = int j" if j: "j < ?n" for j
  proof (cases "j = i")
    case True
    have "last h < length ix" using b [of ?n] l i by simp
    then show ?thesis using True butlast_update(3) [OF i j] by simp
  next
    case False
    have "h ! j \<noteq> h ! i" "h ! j \<noteq> last h" using inj [of j i] inj [of j ?n] j i False l by auto
    then show ?thesis using False j butlast_update(3) [OF i j] idx_okD(3) [OF idx, of j] by simp
  qed
  moreover have "ix[h ! i := - 1, last h := int i] ! k = - 1" if "k < length ix" "k \<notin> set h - {h ! i}" for k
  proof -
    have "last h \<in> set h - {h ! i}" using ne l i inj [of ?n i] by auto
    then have "k \<noteq> last h" using that by auto
    then show ?thesis using that idx_okD(4) [OF idx, of k] by (cases "k = h ! i") auto
  qed
  ultimately show ?thesis using dist s b idx by (auto simp: idx_ok_def butlast_update(2) [OF i])
qed

lemma idx_ok_drop_last:
  assumes "idx_ok h ix" "h \<noteq> []"
  shows "idx_ok (butlast h) (ix[last h := - 1])"
proof -
  obtain xs x where h: "h = xs @ [x]" using assms(2) by (metis append_butlast_last_id)
  have nth: "ix ! (xs ! j) = int j" "xs ! j \<noteq> x" if "j < length xs" for j
    using idx_okD(3) [OF assms(1), of j] assms(1) h that by (auto simp: nth_append idx_ok_def)
  show ?thesis using assms(1) nth unfolding h by (auto simp: idx_ok_def nth_list_update)
qed

lemma removeMin_spec:
  assumes lt: "weak_order lt" and ok: "heap_ok lt q" and ne: "hp_heap q \<noteq> []"
  shows "\<exists>r. removeMin lt q = Some (hp_heap q ! 0, r) \<and> heap_ok lt r \<and>
    mset (hp_heap r) = mset (hp_heap q) - {#hp_heap q ! 0#} \<and> (\<forall>k\<in>set (hp_heap q). \<not> lt k (hp_heap q ! 0))"
proof -
  let ?h = "hp_heap q" and ?ix = "hp_idx q"
  let ?x = "?h ! 0" and ?l = "last ?h"
  have idx: "idx_ok ?h ?ix" and o: "heap_ord lt ?h" using ok by (simp_all add: heap_ok_def)
  have least: "\<forall>k\<in>set ?h. \<not> lt k ?x" using heap_root [OF lt o] by (auto simp: in_set_conv_nth)
  show ?thesis
  proof (cases "length ?h = 1")
    case True
    then have h: "?h = [?x]" by (cases ?h) auto
    have l: "?l = ?x" by (subst h) simp
    have "idx_ok [] (?ix[?x := 0, ?x := - 1])" using idx_ok_drop_last [OF idx ne] l True by (simp add: butlast_conv_take)
    moreover have "butlast (?h[0 := ?l]) = []" by (subst h) simp
    moreover have "mset ?h - {#?x#} = {#}" by (subst h) simp
    ultimately show ?thesis using ne least True by (simp add: removeMin_def l heap_ok_def ord_from_def Let_def)
  next
    case False
    have n: "0 < length ?h - 1" using False ne by (cases ?h) auto
    let ?q = "q\<lparr>hp_heap := butlast (?h[0 := ?l]), hp_idx := ?ix[?l := 0, ?x := - 1]\<rparr>"
    have d: "distinct ?h" using idx by (simp add: idx_ok_def)
    have "?l = ?h ! (length ?h - 1)" using last_conv_nth [OF ne] .
    then have xl: "?x \<noteq> ?l" using nth_eq_iff_index_eq [OF d, of 0 "length ?h - 1"] n ne by simp
    have ix: "?ix[?l := 0, ?x := - 1] = ?ix[?x := - 1, ?l := int 0]" using xl by (simp add: list_update_swap)
    have idx': "idx_ok (hp_heap ?q) (hp_idx ?q)" using idx_ok_take_out [OF idx n] ix by simp
    have dn: "down_inv lt 0 0 (hp_heap ?q)"
    proof -
      have "\<not> lt (hp_heap ?q ! j) (hp_heap ?q ! hp_parent j)" if j: "j < length (hp_heap ?q)" "j \<noteq> 0" "hp_parent j \<noteq> 0" for j
        using j butlast_update(3) [OF n, of j] butlast_update(3) [OF n, of "hp_parent j"] hp_parent_less [OF j(2)] o
        by (simp add: ord_from_def)
      then show ?thesis by (simp add: down_inv_def)
    qed
    have ms: "mset (hp_heap ?q) = mset ?h - {#?x#}" using butlast_update(1) [OF n] by simp
    have len: "length (hp_heap ?q) = length ?h - 1" by simp
    have run: "removeMin lt q = Some (?x, if length (hp_heap ?q) > 1 then percolateDown lt 0 ?q else ?q)"
      using ne by (simp add: removeMin_def Let_def)
    show ?thesis
    proof (cases "length (hp_heap ?q) > 1")
      case True
      then show ?thesis using percolateDown_spec [OF lt _ idx' dn] run ms least by (simp add: heap_ok_def)
    next
      case False
      then have "heap_ord lt (hp_heap ?q)" by (simp add: ord_from_def)
      then show ?thesis using False run ms idx' least by (simp add: heap_ok_def)
    qed
  qed
qed

text \<open>\<open>remove\<close> only percolates down.  The positions and the keys are right afterwards; the order is
  restored when the key moved into the gap is not less than the parent of the gap.\<close>

lemma remove_spec:
  assumes lt: "weak_order lt" and ok: "heap_ok lt q" and k: "k \<in> set (hp_heap q)"
  shows "\<exists>r. hp_remove lt k q = Some r \<and> idx_ok (hp_heap r) (hp_idx r) \<and> mset (hp_heap r) = mset (hp_heap q) - {#k#} \<and>
    (nat (hp_idx q ! k) = 0 \<or> k = last (hp_heap q) \<or>
       \<not> lt (last (hp_heap q)) (hp_heap q ! hp_parent (nat (hp_idx q ! k))) \<longrightarrow> heap_ok lt r)"
proof -
  let ?h = "hp_heap q" and ?ix = "hp_idx q"
  let ?i = "nat (?ix ! k)" and ?l = "last ?h"
  have idx: "idx_ok ?h ?ix" and o: "heap_ord lt ?h" using ok by (simp_all add: heap_ok_def)
  have ne: "?h \<noteq> []" using k by auto
  have inh: "inHeap k q" using inHeap_iff [OF idx] k by simp
  note i = idx_pos [OF idx k]
  show ?thesis
  proof (cases "?i < length ?h - 1")
    case False
    then have "?i = length ?h - 1" using i(1) by simp
    then have l: "?l = k" using i(2) last_conv_nth [OF ne] by simp
    have "heap_ord lt (butlast ?h)"
    proof -
      have "\<not> lt (butlast ?h ! j) (butlast ?h ! hp_parent j)" if "j < length (butlast ?h)" "j \<noteq> 0" for j
        using o that hp_parent_less [OF that(2)] by (simp add: ord_from_def nth_butlast)
      then show ?thesis by (simp add: ord_from_def)
    qed
    moreover have "mset (butlast ?h) = mset ?h - {#k#}" using l ne
      by (metis append_butlast_last_id add_mset_remove_trivial mset.simps(2) mset_append mset_rev rev.simps(2)
          union_mset_add_mset_right add.right_neutral mset.simps(1))
    moreover have "hp_remove lt k q = Some (q\<lparr>hp_heap := butlast ?h, hp_idx := ?ix[k := - 1]\<rparr>)"
      using False inh by (simp add: hp_remove_def Let_def)
    ultimately show ?thesis using idx_ok_drop_last [OF idx ne] by (simp add: l heap_ok_def)
  next
    case True
    let ?q = "q\<lparr>hp_heap := butlast (?h[?i := ?l]), hp_idx := ?ix[k := - 1, ?l := int ?i]\<rparr>"
    have idx': "idx_ok (hp_heap ?q) (hp_idx ?q)" using idx_ok_take_out [OF idx True] i(2) by simp
    have ms: "mset (hp_heap ?q) = mset ?h - {#k#}" using butlast_update(1) [OF True] i(2) by simp
    have len: "?i < length (hp_heap ?q)" using True by simp
    have run: "hp_remove lt k q = Some (percolateDown lt ?i ?q)" using True inh by (simp add: hp_remove_def Let_def)
    have nth: "hp_heap ?q ! j = (if j = ?i then ?l else ?h ! j)" if "j < length ?h - 1" for j
      using butlast_update(3) [OF True that] by simp
    have ord: "\<not> lt (?h ! j) (?h ! hp_parent j)" if "j < length ?h" "j \<noteq> 0" for j using o that by (simp add: ord_from_def)
    have pl: "hp_parent j < j" if "j \<noteq> 0" for j using hp_parent_less [OF that] .
    have dn: "down_inv lt ?i ?i (hp_heap ?q)"
    proof -
      have "\<not> lt (hp_heap ?q ! j) (hp_heap ?q ! hp_parent j)"
        if j: "j < length ?h - 1" "j \<noteq> 0" "?i \<le> hp_parent j" "hp_parent j \<noteq> ?i" for j
        using ord [of j] nth [of j] nth [of "hp_parent j"] pl [OF j(2)] j by auto
      moreover have "?i \<noteq> 0 \<Longrightarrow> \<not> ?i \<le> hp_parent ?i" using pl [of ?i] by simp
      ultimately show ?thesis unfolding down_inv_def by auto
    qed
    have dn0: "down_inv lt 0 ?i (hp_heap ?q)" if top: "?i = 0 \<or> \<not> lt ?l (?h ! hp_parent ?i)"
    proof -
      have "\<not> lt (hp_heap ?q ! j) (hp_heap ?q ! hp_parent j)"
        if j: "j < length ?h - 1" "j \<noteq> 0" "hp_parent j \<noteq> ?i" for j
        using ord [of j] nth [of j] nth [of "hp_parent j"] pl [OF j(2)] j top by auto
      moreover have "\<not> lt (hp_heap ?q ! j) (hp_heap ?q ! hp_parent ?i)"
        if j: "j < length ?h - 1" "j \<noteq> 0" "hp_parent j = ?i" "?i \<noteq> 0" for j
      proof -
        have "\<not> lt (?h ! j) (?h ! ?i)" "\<not> lt (?h ! ?i) (?h ! hp_parent ?i)" using ord [of j] ord [of ?i] j i(1) by simp_all
        then have "\<not> lt (?h ! j) (?h ! hp_parent ?i)" using weak_orderD(3) [OF lt] by blast
        then show ?thesis using j nth [of j] nth [of "hp_parent ?i"] pl [OF j(2)] pl [OF j(4)] True by simp
      qed
      ultimately show ?thesis by (simp add: down_inv_def)
    qed
    have "heap_ok lt (percolateDown lt ?i ?q)" if "?i = 0 \<or> k = ?l \<or> \<not> lt ?l (?h ! hp_parent ?i)"
    proof -
      have "k \<noteq> ?l"
      proof
        assume "k = ?l"
        then have "?ix ! k = int (length ?h - 1)" using idx_okD(3) [OF idx, of "length ?h - 1"] last_conv_nth [OF ne] ne by simp
        then show False using True by simp
      qed
      then show ?thesis using percolateDown_spec [OF lt len idx' dn0] that by (auto simp: heap_ok_def)
    qed
    moreover have "idx_ok (hp_heap (percolateDown lt ?i ?q)) (hp_idx (percolateDown lt ?i ?q))"
      "mset (hp_heap (percolateDown lt ?i ?q)) = mset ?h - {#k#}"
      using percolateDown_spec [OF lt len idx' dn] ms by simp_all
    ultimately show ?thesis using run by blast
  qed
qed

lemma forget_nth:
  "length (fold (\<lambda>k ix. ix[k := - 1]) ks ix) = length ix \<and>
   (\<forall>k<length ix. fold (\<lambda>k ix. ix[k := - 1]) ks ix ! k = (if k \<in> set ks then - 1 else ix ! k))"
proof (induction ks arbitrary: ix)
  case (Cons k ks)
  show ?case using Cons.IH [of "ix[k := - 1]"] by (auto simp: nth_list_update)
qed simp

lemma forget_keys_spec:
  assumes "idx_ok (hp_heap q) (hp_idx q)"
  shows "length (forget_keys q) = length (hp_idx q)" "k < length (hp_idx q) \<Longrightarrow> forget_keys q ! k = - 1"
    "idx_ok [] (forget_keys q)"
  using forget_nth [of "hp_heap q" "hp_idx q"] idx_okD(4) [OF assms] by (auto simp: forget_keys_def idx_ok_def)

lemma load_keys_spec:
  assumes "idx_ok (hp_heap q) (hp_idx q)" "i = length (hp_heap q)" "distinct (hp_heap q @ ks)" "\<forall>k\<in>set ks. k < length (hp_idx q)"
  shows "\<exists>r. load_keys i ks q = Some r \<and> idx_ok (hp_heap r) (hp_idx r) \<and> hp_heap r = hp_heap q @ ks"
  using assms
proof (induction ks arbitrary: i q)
  case (Cons k ks)
  let ?q = "q\<lparr>hp_idx := (hp_idx q)[k := int i], hp_heap := hp_heap q @ [k]\<rparr>"
  have ne: "hp_heap q ! j \<noteq> k" if "j < length (hp_heap q)" for j using Cons.prems(3) that by auto
  have "idx_ok (hp_heap ?q) (hp_idx ?q)"
    using Cons.prems ne by (auto simp: idx_ok_def nth_append less_Suc_eq nth_list_update)
  then obtain r where "load_keys (Suc i) ks ?q = Some r" "idx_ok (hp_heap r) (hp_idx r)" "hp_heap r = hp_heap ?q @ ks"
    using Cons.IH [of ?q "Suc i"] Cons.prems by auto
  then show ?case using Cons.prems(4) by (simp add: im_has_def)
qed simp

lemma build_order:
  assumes lt: "weak_order lt"
  shows "m \<le> length (hp_heap q) \<Longrightarrow> idx_ok (hp_heap q) (hp_idx q) \<Longrightarrow> ord_from lt m (hp_heap q) \<Longrightarrow>
    heap_ok lt (fold (percolateDown lt) (rev [0..<m]) q) \<and>
    mset (hp_heap (fold (percolateDown lt) (rev [0..<m]) q)) = mset (hp_heap q)"
proof (induction m arbitrary: q)
  case 0
  then show ?case by (simp add: heap_ok_def)
next
  case (Suc m)
  have "down_inv lt m m (hp_heap q)"
    using Suc.prems(3) hp_parent_less [of m] by (auto simp: down_inv_def ord_from_def)
  from percolateDown_spec [OF lt _ Suc.prems(2) this] Suc.prems(1)
  have d: "idx_ok (hp_heap (percolateDown lt m q)) (hp_idx (percolateDown lt m q))"
    "ord_from lt m (hp_heap (percolateDown lt m q))" "mset (hp_heap (percolateDown lt m q)) = mset (hp_heap q)" by simp_all
  then have "m \<le> length (hp_heap (percolateDown lt m q))" using Suc.prems(1) by (metis Suc_leD size_mset)
  then show ?case using Suc.IH [OF _ d(1,2)] d(3) by simp
qed

lemma build_spec:
  assumes lt: "weak_order lt" and idx: "idx_ok (hp_heap q) (hp_idx q)" and d: "distinct ns" "\<forall>k\<in>set ns. k < length (hp_idx q)"
  shows "\<exists>r. build lt ns q = Some r \<and> heap_ok lt r \<and> mset (hp_heap r) = mset ns"
proof -
  let ?q = "q\<lparr>hp_idx := forget_keys q, hp_heap := []\<rparr>"
  obtain r where r: "load_keys 0 ns ?q = Some r" "idx_ok (hp_heap r) (hp_idx r)" "hp_heap r = ns"
    using load_keys_spec [of ?q 0 ns] forget_keys_spec [OF idx] d by auto
  have "ord_from lt (length (hp_heap r) div 2) (hp_heap r)"
    by (auto simp: ord_from_def hp_parent_def)
  from build_order [OF lt _ r(2) this] show ?thesis using r by (simp add: build_def)
qed

subsection \<open>The contract\<close>

locale priority_queue =
  fixes inv :: "(nat \<Rightarrow> 'p::linorder) \<Rightarrow> 'q \<Rightarrow> bool" and keys :: "'q \<Rightarrow> nat set"
    and ins upd :: "(nat \<Rightarrow> 'p) \<Rightarrow> nat \<Rightarrow> 'q \<Rightarrow> 'q option" and del_min :: "(nat \<Rightarrow> 'p) \<Rightarrow> 'q \<Rightarrow> (nat \<times> 'q) option"
  assumes finite_keys: "inv d q \<Longrightarrow> finite (keys q)"
    and inv_cong: "inv d q \<Longrightarrow> (\<And>k. k \<in> keys q \<Longrightarrow> d k = e k) \<Longrightarrow> inv e q"
    and ins: "inv d q \<Longrightarrow> k \<notin> keys q \<Longrightarrow> \<exists>r. ins d k q = Some r \<and> inv d r \<and> keys r = insert k (keys q)"
    and upd: "inv d q \<Longrightarrow> k \<in> keys q \<Longrightarrow> \<exists>r. upd (d(k := v)) k q = Some r \<and> inv (d(k := v)) r \<and> keys r = keys q"
    and upd_new: "inv d q \<Longrightarrow> k \<notin> keys q \<Longrightarrow> \<exists>r. upd d k q = Some r \<and> inv d r \<and> keys r = insert k (keys q)"
    and del_min_empty: "inv d q \<Longrightarrow> keys q = {} \<Longrightarrow> del_min d q = None"
    and del_min: "inv d q \<Longrightarrow> keys q \<noteq> {} \<Longrightarrow> \<exists>m r. del_min d q = Some (m, r) \<and> m \<in> keys q \<and>
      (\<forall>k\<in>keys q. d m \<le> d k) \<and> inv d r \<and> keys r = keys q - {m}"
begin

text \<open>A key whose value is set, present or not, is in the queue with that value.\<close>

lemma upd_any:
  assumes "inv d q"
  shows "\<exists>r. upd (d(k := v)) k q = Some r \<and> inv (d(k := v)) r \<and> keys r = insert k (keys q)"
proof (cases "k \<in> keys q")
  case True
  then show ?thesis using upd [OF assms True] by (simp add: insert_absorb)
next
  case False
  then have "inv (d(k := v)) q" by (intro inv_cong [OF assms]) auto
  then show ?thesis using upd_new False by blast
qed

text \<open>Taking the least key out until none is left.\<close>

fun drain :: "nat \<Rightarrow> (nat \<Rightarrow> 'p) \<Rightarrow> 'q \<Rightarrow> nat list option" where
  "drain 0 d q = Some []"
| "drain (Suc n) d q = do { (m, r) \<leftarrow> del_min d q; ms \<leftarrow> drain n d r; Some (m # ms) }"

lemma drain_sorted:
  assumes "inv d q" "card (keys q) = n"
  shows "\<exists>ms. drain n d q = Some ms \<and> distinct ms \<and> set ms = keys q \<and> sorted (map d ms)"
  using assms
proof (induction n arbitrary: q)
  case 0
  then show ?case using finite_keys by simp
next
  case (Suc n)
  then have "keys q \<noteq> {}" by auto
  then obtain m r where m: "del_min d q = Some (m, r)" "m \<in> keys q" "\<forall>k\<in>keys q. d m \<le> d k" "inv d r" "keys r = keys q - {m}"
    using del_min [OF Suc.prems(1)] by blast
  have "card (keys r) = n" using m(2,5) Suc.prems(2) by simp
  from Suc.IH [OF m(4) this] obtain ms where ms: "drain n d r = Some ms" "distinct ms" "set ms = keys r" "sorted (map d ms)"
    by blast
  have "drain (Suc n) d q = Some (m # ms)" using m(1) ms(1) by simp
  moreover have "distinct (m # ms)" "set (m # ms) = keys q" "sorted (map d (m # ms))" using ms m(2,3,5) by auto
  ultimately show ?case by blast
qed

end

definition hp_keys :: "heap \<Rightarrow> nat set" where
  "hp_keys q = set (hp_heap q)"

lemma heap_ok_cong:
  assumes "heap_ok (by_key d) q" "\<And>k. k \<in> hp_keys q \<Longrightarrow> d k = e k"
  shows "heap_ok (by_key e) q"
proof -
  have "e (hp_heap q ! j) = d (hp_heap q ! j)" if "j < length (hp_heap q)" for j
    using assms(2) [of "hp_heap q ! j"] that by (simp add: hp_keys_def)
  moreover have "hp_parent j < length (hp_heap q)" if "j < length (hp_heap q)" "j \<noteq> 0" for j
    using hp_parent_less [OF that(2)] that(1) by simp
  ultimately show ?thesis using assms(1) by (simp add: heap_ok_def ord_from_def)
qed

interpretation hq: priority_queue "\<lambda>d. heap_ok (by_key d)" hp_keys "\<lambda>d. hp_insert (by_key d)"
  "\<lambda>d. update (by_key d)" "\<lambda>d. removeMin (by_key d)"
proof
  fix d :: "nat \<Rightarrow> 'p::linorder" and q k
  assume q: "heap_ok (by_key d) q"
  have w: "weak_order (by_key d)" by (rule weak_order_key)
  have idx: "idx_ok (hp_heap q) (hp_idx q)" using q by (simp add: heap_ok_def)
  have ks: "mset (hp_heap r) = add_mset k (mset (hp_heap q)) \<Longrightarrow> hp_keys r = insert k (hp_keys q)" for r
    using mset_eq_setD [of "hp_heap r" "k # hp_heap q"] by (simp add: hp_keys_def)
  show "finite (hp_keys q)" by (simp add: hp_keys_def)
  show i: "\<exists>r. hp_insert (by_key d) k q = Some r \<and> heap_ok (by_key d) r \<and> hp_keys r = insert k (hp_keys q)"
    if "k \<notin> hp_keys q" using insert_spec [OF w q, of k] that ks unfolding hp_keys_def by blast
  show "\<exists>r. update (by_key d) k q = Some r \<and> heap_ok (by_key d) r \<and> hp_keys r = insert k (hp_keys q)"
    if "k \<notin> hp_keys q" using i [OF that] that inHeap_iff [OF idx] by (simp add: update_def hp_keys_def)
  show "\<exists>r. update (by_key (d(k := v))) k q = Some r \<and> heap_ok (by_key (d(k := v))) r \<and> hp_keys r = hp_keys q"
    if "k \<in> hp_keys q" for v
  proof -
    have "k \<in> set (hp_heap q)" using that by (simp add: hp_keys_def)
    from update_spec(1) [OF q this, of v] show ?thesis unfolding hp_keys_def by (blast dest: mset_eq_setD)
  qed
  show "removeMin (by_key d) q = None" if "hp_keys q = {}" using that by (simp add: removeMin_def hp_keys_def)
  show "\<exists>m r. removeMin (by_key d) q = Some (m, r) \<and> m \<in> hp_keys q \<and> (\<forall>k\<in>hp_keys q. d m \<le> d k) \<and>
      heap_ok (by_key d) r \<and> hp_keys r = hp_keys q - {m}" if "hp_keys q \<noteq> {}"
  proof -
    have ne: "hp_heap q \<noteq> []" using that by (simp add: hp_keys_def)
    obtain r where r: "removeMin (by_key d) q = Some (hp_heap q ! 0, r)" "heap_ok (by_key d) r"
      "mset (hp_heap r) = mset (hp_heap q) - {#hp_heap q ! 0#}" "\<forall>k\<in>set (hp_heap q). \<not> d k < d (hp_heap q ! 0)"
      using removeMin_spec [OF w q ne] by blast
    have "mset (hp_heap r) = mset (remove1 (hp_heap q ! 0) (hp_heap q))" using r(3) by simp
    from mset_eq_setD [OF this] have "hp_keys r = hp_keys q - {hp_heap q ! 0}"
      using set_remove1_eq [OF idx_okD(1) [OF idx]] by (simp add: hp_keys_def)
    then show ?thesis using r ne by (auto simp: hp_keys_def not_less)
  qed
next
  fix d e :: "nat \<Rightarrow> 'p::linorder" and q
  assume "heap_ok (by_key d) q" "\<And>k. k \<in> hp_keys q \<Longrightarrow> d k = e k"
  then show "heap_ok (by_key e) q" by (rule heap_ok_cong)
qed

subsection \<open>Properties\<close>

text \<open>C23: the operations of the heap.  For every comparator that is a strict weak order, in every state
  whose positions are right and whose keys are not less than their parents, \<open>insert\<close> of a new key
  and \<open>removeMin\<close> return, keep both invariants and change the keys as named, \<open>removeMin\<close> returning
  a key that no other is less than; \<open>build\<close> makes a heap of any repetition-free vector of keys that
  have a position entry; \<open>clear\<close> empties it; membership is read off the positions.\<close>

theorem heap_operations:
  assumes "weak_order lt" "heap_ok lt q"
  shows "(inHeap k q \<longleftrightarrow> k \<in> set (hp_heap q)) \<and>
    (k \<notin> set (hp_heap q) \<longrightarrow>
       (\<exists>r. hp_insert lt k q = Some r \<and> heap_ok lt r \<and> mset (hp_heap r) = add_mset k (mset (hp_heap q)))) \<and>
    (hp_heap q \<noteq> [] \<longrightarrow>
       (\<exists>r. removeMin lt q = Some (hp_heap q ! 0, r) \<and> heap_ok lt r \<and>
          mset (hp_heap r) = mset (hp_heap q) - {#hp_heap q ! 0#} \<and> (\<forall>k\<in>set (hp_heap q). \<not> lt k (hp_heap q ! 0)))) \<and>
    (distinct ns \<longrightarrow> (\<forall>k\<in>set ns. k < length (hp_idx q)) \<longrightarrow>
       (\<exists>r. build lt ns q = Some r \<and> heap_ok lt r \<and> mset (hp_heap r) = mset ns)) \<and>
    heap_ok lt (hp_clear q) \<and> hp_heap (hp_clear q) = []"
proof -
  have idx: "idx_ok (hp_heap q) (hp_idx q)" using assms(2) by (simp add: heap_ok_def)
  have "heap_ok lt (hp_clear q)" using forget_keys_spec(3) [OF idx] by (simp add: hp_clear_def heap_ok_def ord_from_def)
  then show ?thesis
    using inHeap_iff [OF idx] insert_spec [OF assms] removeMin_spec [OF assms] build_spec [OF assms(1) idx]
    by (simp add: hp_clear_def)
qed

theorem heap_operations_witness:
  "\<exists>r. hp_insert (<) 7 new_heap = Some r \<and> heap_ok (<) r \<and> mset (hp_heap r) = {#7#}"
proof -
  have "heap_ok (<) new_heap" by (simp add: new_heap_def heap_ok_def idx_ok_def ord_from_def)
  from heap_operations [OF weak_order_less this, of 7 "[]"] show ?thesis by (simp add: new_heap_def)
qed

text \<open>Changing priorities.  When the value of one key in the heap changes to any value, \<open>update\<close>
  restores the heap for the new values; \<open>decrease\<close> does so when the value has not grown, \<open>increase\<close>
  when it has not shrunk; and taking the least key out until the heap is empty lists the keys in the
  order of their values.\<close>

theorem heap_priorities:
  assumes "heap_ok (by_key d) q" "k \<in> set (hp_heap q)"
  shows "(\<exists>r. update (by_key (d(k := v))) k q = Some r \<and> heap_ok (by_key (d(k := v))) r \<and> mset (hp_heap r) = mset (hp_heap q)) \<and>
    (v \<le> d k \<longrightarrow> (\<exists>r. decrease (by_key (d(k := v))) k q = Some r \<and> heap_ok (by_key (d(k := v))) r \<and> mset (hp_heap r) = mset (hp_heap q))) \<and>
    (d k \<le> v \<longrightarrow> (\<exists>r. increase (by_key (d(k := v))) k q = Some r \<and> heap_ok (by_key (d(k := v))) r \<and> mset (hp_heap r) = mset (hp_heap q))) \<and>
    (\<exists>ms. hq.drain (card (hp_keys q)) d q = Some ms \<and> distinct ms \<and> set ms = hp_keys q \<and> sorted (map d ms))"
  by (intro conjI impI update_spec [OF assms] hq.drain_sorted [OF assms(1) refl]; assumption)

text \<open>Three keys with their values, in heap order.\<close>

definition demo_heap :: heap where
  "demo_heap = \<lparr>hp_heap = [2, 0, 1], hp_idx = [1, 2, 0]\<rparr>"

theorem heap_priorities_witness:
  "\<exists>r. update (by_key ((\<lambda>k. 10 - k)(0 := 5))) 0 demo_heap = Some r \<and> heap_ok (by_key ((\<lambda>k. 10 - k)(0 := (5 :: nat)))) r"
proof -
  have "heap_ok (by_key (\<lambda>k. 10 - k :: nat)) demo_heap" by code_simp
  moreover have "0 \<in> set (hp_heap demo_heap)" by (simp add: demo_heap_def)
  ultimately show ?thesis using heap_priorities [of "\<lambda>k. 10 - k :: nat" demo_heap 0 5] by blast
qed

text \<open>\<open>remove\<close> takes the key out and keeps the positions right, but it percolates only down: the
  heap order survives when the key was the last or the first, or the key moved into its place is not
  less than the parent there; in general it does not, as the heap with values 1, 10, 2, 11, 12, 3, 4
  shows when 11 is removed.\<close>

theorem heap_remove:
  assumes "weak_order lt" "heap_ok lt q" "k \<in> set (hp_heap q)"
  shows "(\<exists>r. hp_remove lt k q = Some r \<and> idx_ok (hp_heap r) (hp_idx r) \<and> mset (hp_heap r) = mset (hp_heap q) - {#k#} \<and>
      (nat (hp_idx q ! k) = 0 \<or> k = last (hp_heap q) \<or>
         \<not> lt (last (hp_heap q)) (hp_heap q ! hp_parent (nat (hp_idx q ! k))) \<longrightarrow> heap_ok lt r)) \<and>
    (let s = \<lparr>hp_heap = [1, 10, 2, 11, 12, 3, 4], hp_idx = [-1, 0, 2, 5, 6, -1, -1, -1, -1, -1, 1, 3, 4]\<rparr> in
      heap_ok (<) s \<and> (\<exists>r. hp_remove (<) 11 s = Some r \<and> \<not> heap_ok (<) r))"
proof (rule conjI [OF remove_spec [OF assms]])
  let ?s = "\<lparr>hp_heap = [1, 10, 2, 11, 12, 3, 4], hp_idx = [-1, 0, 2, 5, 6, -1, -1, -1, -1, -1, 1, 3, 4]\<rparr>"
  have "heap_ok (<) ?s" by code_simp
  moreover have "map_option hp_heap (hp_remove (<) 11 ?s) = Some [1, 10, 2, 4, 12, 3]" by code_simp
  moreover have "\<not> heap_ok (<) r" if "hp_heap r = [1, 10, 2, 4, 12, 3]" for r
  proof
    assume "heap_ok (<) r"
    then have "\<forall>j<6. j \<noteq> 0 \<longrightarrow> \<not> [1, 10, 2, 4, 12, 3 :: nat] ! j < [1, 10, 2, 4, 12, 3] ! hp_parent j"
      using that by (simp add: heap_ok_def ord_from_def)
    from this [rule_format, of 3] show False by (simp add: hp_parent_def)
  qed
  ultimately show "let s = ?s in heap_ok (<) s \<and> (\<exists>r. hp_remove (<) 11 s = Some r \<and> \<not> heap_ok (<) r)"
    by (auto simp: Let_def)
qed

theorem heap_remove_witness:
  "\<exists>r. hp_remove (by_key (\<lambda>k. 10 - k :: nat)) 1 demo_heap = Some r \<and> mset (hp_heap r) = mset [2, 0]"
proof -
  have "heap_ok (by_key (\<lambda>k. 10 - k :: nat)) demo_heap" by code_simp
  from conjunct1 [OF heap_remove [OF weak_order_key this, of 1]] show ?thesis by (auto simp: demo_heap_def)
qed

end
