(* ===== verification/Graphs.thy ===== *)
theory Graphs
  imports Prelude
begin

text \<open>
  \<open>dgl/Graph.h\<close> and \<open>dgl/DynamicGraph.h\<close>: a graph whose edges are declared once and then enabled and
  disabled, with a history of the changes that the graph algorithms replay and that can be undone.
  The counters are unbounded integers.  Output to a log file and drawing are left out.  A failed
  assertion, an index outside a vector and an exception have no result.
\<close>

subsection \<open>Data\<close>

record full_edge =
  fe_from :: int
  fe_to :: int
  fe_id :: int

definition no_edge :: full_edge where
  "no_edge = \<lparr>fe_from = - 1, fe_to = - 1, fe_id = - 1\<rparr>"

record edge_change =
  ec_addition :: bool
  ec_deletion :: bool
  ec_weight_increase :: bool
  ec_weight_decrease :: bool
  ec_id :: nat
  ec_mod :: int
  ec_prev_mod :: int

text \<open>An adjacency list entry is the node at the other end and the edge's id; the registered
  algorithms are represented by numbers.\<close>

record 'w dgraph =
  g_status :: "bool list"
  g_status_const :: "bool list"
  g_weights :: "'w list"
  g_num_nodes :: nat
  g_num_edges :: nat
  g_next_id :: nat
  g_is_changed :: bool
  g_algs :: "nat list"
  g_history_pos :: "int list"
  g_history_offset :: int
  g_disable_history_clears :: bool
  g_dynamic_history_clears :: int
  g_adaptive_history_clear :: bool
  g_historyClearInterval :: int
  g_modifications :: int
  g_additions :: int
  g_deletions :: int
  g_edge_increases :: int
  g_edge_decreases :: int
  g_previous_history_size :: int
  g_historyclears :: int
  g_skipped_historyclears :: int
  g_adj :: "(nat \<times> nat) list list"
  g_inv_adj :: "(nat \<times> nat) list list"
  g_und_adj :: "(nat \<times> nat) list list"
  g_all_edges :: "full_edge list"
  g_history :: "edge_change list"

definition new_graph :: "'w dgraph" where
  "new_graph = \<lparr>g_status = [], g_status_const = [], g_weights = [], g_num_nodes = 0, g_num_edges = 0, g_next_id = 0,
     g_is_changed = False, g_algs = [], g_history_pos = [], g_history_offset = 0, g_disable_history_clears = False,
     g_dynamic_history_clears = 0, g_adaptive_history_clear = False, g_historyClearInterval = 1000,
     g_modifications = 0, g_additions = 0, g_deletions = 0, g_edge_increases = 0, g_edge_decreases = 0,
     g_previous_history_size = 0, g_historyclears = 0, g_skipped_historyclears = 0,
     g_adj = [], g_inv_adj = [], g_und_adj = [], g_all_edges = [], g_history = []\<rparr>"

subsection \<open>Queries\<close>

definition edgeEnabled :: "'w dgraph \<Rightarrow> nat \<Rightarrow> bool option" where
  "edgeEnabled g e = get_at (g_status g) e"

definition isEdge :: "'w dgraph \<Rightarrow> nat \<Rightarrow> bool" where
  "isEdge g e \<longleftrightarrow> e < length (g_all_edges g) \<and> fe_id (g_all_edges g ! e) = int e"

text \<open>An end of an edge as the index of a node.\<close>

definition node_of :: "int \<Rightarrow> nat option" where
  "node_of i = (if i < 0 then None else Some (nat i))"

definition selfLoop :: "'w dgraph \<Rightarrow> nat \<Rightarrow> bool" where
  "selfLoop g e \<longleftrightarrow> isEdge g e \<and> fe_from (g_all_edges g ! e) = fe_to (g_all_edges g ! e)"

text \<open>The scan of an adjacency list for an enabled edge to a node: its id, or -1.\<close>

fun find_enabled :: "'w dgraph \<Rightarrow> nat \<Rightarrow> (nat \<times> nat) list \<Rightarrow> int option" where
  "find_enabled g to [] = Some (- 1)"
| "find_enabled g to ((n, e) # es) =
     (if n = to then do { b \<leftarrow> edgeEnabled g e; if b then Some (int e) else find_enabled g to es }
      else find_enabled g to es)"

definition getEdge_between :: "'w dgraph \<Rightarrow> nat \<Rightarrow> nat \<Rightarrow> int option" where
  "getEdge_between g from to = do { es \<leftarrow> get_at (g_adj g) from; find_enabled g to es }"

definition hasEdge_between :: "'w dgraph \<Rightarrow> nat \<Rightarrow> nat \<Rightarrow> bool option" where
  "hasEdge_between g from to = do { es \<leftarrow> get_at (g_adj g) from; r \<leftarrow> find_enabled g to es; Some (r \<noteq> - 1) }"

definition hasEdgeUndirected :: "'w dgraph \<Rightarrow> nat \<Rightarrow> nat \<Rightarrow> bool option" where
  "hasEdgeUndirected g from to = do { es \<leftarrow> get_at (g_und_adj g) from; r \<leftarrow> find_enabled g to es; Some (r \<noteq> - 1) }"

definition isConstant :: "'w dgraph \<Rightarrow> nat \<Rightarrow> bool option" where
  "isConstant g e = get_at (g_status_const g) e"

definition makeEdgeAssignmentConstant :: "nat \<Rightarrow> 'w dgraph \<Rightarrow> 'w dgraph option" where
  "makeEdgeAssignmentConstant e g = do {
     c \<leftarrow> set_at (g_status_const g) e True;
     Some (g\<lparr>g_status_const := c\<rparr>) }"

definition nEdgeIDs :: "'w dgraph \<Rightarrow> nat option" where
  "nEdgeIDs g = do { check (g_num_edges g = length (g_all_edges g)); Some (g_num_edges g) }"

definition nIncident :: "'w dgraph \<Rightarrow> nat \<Rightarrow> bool \<Rightarrow> nat option" where
  "nIncident g n undirected = do {
     check (n < g_num_nodes g);
     es \<leftarrow> get_at (if undirected then g_und_adj g else g_adj g) n;
     Some (length es) }"

definition nIncoming :: "'w dgraph \<Rightarrow> nat \<Rightarrow> bool \<Rightarrow> nat option" where
  "nIncoming g n undirected = do {
     check (n < g_num_nodes g);
     es \<leftarrow> get_at (if undirected then g_und_adj g else g_inv_adj g) n;
     Some (length es) }"

definition incident :: "'w dgraph \<Rightarrow> nat \<Rightarrow> nat \<Rightarrow> bool \<Rightarrow> (nat \<times> nat) option" where
  "incident g n i undirected = do {
     check (n < g_num_nodes g);
     k \<leftarrow> nIncident g n undirected;
     check (i < k);
     es \<leftarrow> get_at (if undirected then g_und_adj g else g_adj g) n;
     get_at es i }"

definition incoming :: "'w dgraph \<Rightarrow> nat \<Rightarrow> nat \<Rightarrow> bool \<Rightarrow> (nat \<times> nat) option" where
  "incoming g n i undirected = do {
     check (n < g_num_nodes g);
     k \<leftarrow> nIncoming g n undirected;
     check (i < k);
     es \<leftarrow> get_at (if undirected then g_und_adj g else g_inv_adj g) n;
     get_at es i }"

definition nDirectedEdges :: "'w dgraph \<Rightarrow> nat \<Rightarrow> bool \<Rightarrow> nat option" where
  "nDirectedEdges g n is_incoming = do {
     check (n < g_num_nodes g);
     if is_incoming then nIncoming g n False else nIncident g n False }"

definition directedEdges :: "'w dgraph \<Rightarrow> nat \<Rightarrow> nat \<Rightarrow> bool \<Rightarrow> (nat \<times> nat) option" where
  "directedEdges g n i is_incoming = (if is_incoming then incoming g n i False else incident g n i False)"

definition getWeight :: "'w dgraph \<Rightarrow> nat \<Rightarrow> 'w option" where
  "getWeight g e = get_at (g_weights g) e"

definition historySize :: "'w dgraph \<Rightarrow> int" where
  "historySize g = int (length (g_history g)) + g_history_offset g"

definition getChange :: "'w dgraph \<Rightarrow> int \<Rightarrow> edge_change option" where
  "getChange g pos = do {
     check (pos - g_history_offset g \<ge> 0);
     check (pos - g_history_offset g < int (length (g_history g)));
     Some (g_history g ! nat (pos - g_history_offset g)) }"

subsection \<open>The history\<close>

definition addDynamicAlgorithm :: "nat option \<Rightarrow> 'w dgraph \<Rightarrow> (nat \<times> 'w dgraph) option" where
  "addDynamicAlgorithm alg g = do {
     a \<leftarrow> alg;
     let g = g\<lparr>g_algs := g_algs g @ [a], g_history_pos := g_history_pos g @ [0]\<rparr>;
     Some (length (g_algs g) - 1, g) }"

definition updateAlgorithmHistory :: "nat option \<Rightarrow> nat \<Rightarrow> int \<Rightarrow> 'w dgraph \<Rightarrow> 'w dgraph option" where
  "updateAlgorithmHistory alg algorithmID pos g = do {
     check (algorithmID < length (g_algs g) \<and> alg = Some (g_algs g ! algorithmID));
     ps \<leftarrow> set_at (g_history_pos g) algorithmID pos;
     Some (g\<lparr>g_history_pos := ps\<rparr>) }"

text \<open>\<open>clearHistory\<close>.  The callback \<open>updateHistory\<close> of a registered algorithm is the argument \<open>cb\<close>, the
  largest size of a vector the argument \<open>max_size\<close>.\<close>

fun count_uptodate :: "(nat \<Rightarrow> 'w dgraph \<Rightarrow> 'w dgraph) \<Rightarrow> nat list \<Rightarrow> nat \<Rightarrow> 'w dgraph \<Rightarrow> nat \<times> 'w dgraph" where
  "count_uptodate cb [] n g = (n, g)"
| "count_uptodate cb (a # as) n g =
     (if g_history_pos g ! a \<noteq> historySize g then
        if g_dynamic_history_clears g = 2 then
          let g = cb (g_algs g ! a) g
          in count_uptodate cb as (if g_history_pos g ! a = historySize g then n + 1 else n) g
        else count_uptodate cb as n g
      else count_uptodate cb as (n + 1) g)"

definition clear_limit :: "int \<Rightarrow> 'w dgraph \<Rightarrow> int" where
  "clear_limit max_size g =
     min max_size (if g_adaptive_history_clear g then max 1000 (g_historyClearInterval g * int (g_num_edges g))
       else g_historyClearInterval g)"

definition full_clear :: "'w dgraph \<Rightarrow> 'w dgraph" where
  "full_clear g = g\<lparr>g_previous_history_size := int (length (g_history g)), g_history_offset := 0, g_history := [],
     g_historyclears := g_historyclears g + 1\<rparr>"

definition clearHistory :: "(nat \<Rightarrow> 'w dgraph \<Rightarrow> 'w dgraph) \<Rightarrow> int \<Rightarrow> bool \<Rightarrow> 'w dgraph \<Rightarrow> 'w dgraph" where
  "clearHistory cb max_size forceClear g =
     (if g_disable_history_clears g then g
      else if g_history g \<noteq> [] \<and> (forceClear \<or> int (length (g_history g)) \<ge> clear_limit max_size g) then
        if \<not> forceClear \<and> g_dynamic_history_clears g > 0 then
          let (n, g) = count_uptodate cb [0..<length (g_algs g)] 0 g
          in if n = length (g_algs g) then
               g\<lparr>g_history_offset := historySize g, g_skipped_historyclears := g_skipped_historyclears g + 1, g_history := []\<rparr>
             else full_clear g
        else full_clear g
      else g)"

definition forced_clear :: "'w dgraph \<Rightarrow> 'w dgraph" where
  "forced_clear g = clearHistory (\<lambda>_ g. g) 0 True g"

subsection \<open>Changes\<close>

definition addNode :: "'w dgraph \<Rightarrow> nat \<times> 'w dgraph" where
  "addNode g =
     (let m = g_modifications g + 1;
          g = g\<lparr>g_adj := g_adj g @ [[]], g_und_adj := g_und_adj g @ [[]], g_inv_adj := g_inv_adj g @ [[]],
                g_modifications := m, g_additions := m, g_deletions := m, g_edge_increases := m,
                g_edge_decreases := m, g_is_changed := True\<rparr>;
          g = forced_clear g
      in (g_num_nodes g, g\<lparr>g_num_nodes := g_num_nodes g + 1\<rparr>))"

fun addNodes :: "nat \<Rightarrow> 'w dgraph \<Rightarrow> 'w dgraph" where
  "addNodes 0 g = g"
| "addNodes (Suc n) g = addNodes n (snd (addNode g))"

definition enableEdge_from :: "nat \<Rightarrow> 'w dgraph \<Rightarrow> 'w dgraph option" where
  "enableEdge_from e g = do {
     check (e < length (g_status g));
     check (isEdge g e);
     if \<not> g_status g ! e then
       let m = g_modifications g + 1
       in Some (g\<lparr>g_status := (g_status g)[e := True], g_modifications := m, g_additions := m,
            g_history := g_history g @ [\<lparr>ec_addition = True, ec_deletion = False, ec_weight_increase = False,
              ec_weight_decrease = False, ec_id = e, ec_mod = m, ec_prev_mod = m\<rparr>]\<rparr>)
     else Some g }"

definition disableEdge_from :: "nat \<Rightarrow> 'w dgraph \<Rightarrow> 'w dgraph option" where
  "disableEdge_from e g = do {
     check (e < length (g_status g));
     check (isEdge g e);
     if g_status g ! e then
       let m = g_modifications g + 1
       in Some (g\<lparr>g_status := (g_status g)[e := False], g_modifications := m,
            g_history := g_history g @ [\<lparr>ec_addition = False, ec_deletion = True, ec_weight_increase = False,
              ec_weight_decrease = False, ec_id = e, ec_mod = m, ec_prev_mod = g_deletions g\<rparr>],
            g_deletions := m\<rparr>)
     else Some g }"

definition setEdgeEnabled :: "nat \<Rightarrow> bool \<Rightarrow> 'w dgraph \<Rightarrow> 'w dgraph option" where
  "setEdgeEnabled e enable g = (if enable then enableEdge_from e g else disableEdge_from e g)"

definition undoEnableEdge :: "nat \<Rightarrow> 'w dgraph \<Rightarrow> (bool \<times> 'w dgraph) option" where
  "undoEnableEdge e g = do {
     check (e < length (g_status g));
     check (isEdge g e);
     if g_history g = [] then Some (False, g)
     else let c = last (g_history g) in
       if ec_addition c \<and> ec_id c = e \<and> ec_mod c = g_modifications g then
         Some (True, g\<lparr>g_status := (g_status g)[e := False], g_modifications := g_modifications g - 1,
           g_additions := ec_prev_mod c, g_history := butlast (g_history g)\<rparr>)
       else Some (False, g) }"

definition undoDisableEdge :: "nat \<Rightarrow> 'w dgraph \<Rightarrow> (bool \<times> 'w dgraph) option" where
  "undoDisableEdge e g = do {
     check (e < length (g_status g));
     check (isEdge g e);
     if g_history g = [] then Some (False, g)
     else let c = last (g_history g) in
       if \<not> ec_addition c \<and> ec_id c = e \<and> ec_mod c = g_modifications g then
         Some (True, g\<lparr>g_status := (g_status g)[e := True], g_modifications := g_modifications g - 1,
           g_deletions := ec_prev_mod c, g_history := butlast (g_history g)\<rparr>)
       else Some (False, g) }"

text \<open>\<open>std::vector::resize\<close> when it grows.\<close>

definition grow :: "nat \<Rightarrow> 'a \<Rightarrow> 'a list \<Rightarrow> 'a list" where
  "grow n x xs = (if length xs < n then xs @ replicate (n - length xs) x else xs)"

definition addEdge :: "nat \<Rightarrow> nat \<Rightarrow> nat option \<Rightarrow> 'w \<Rightarrow> 'w::one dgraph \<Rightarrow> (nat \<times> 'w dgraph) option" where
  "addEdge from to id_arg weight g = do {
     check (from < g_num_nodes g);
     check (to < g_num_nodes g);
     let (e, next_id) = (case id_arg of None \<Rightarrow> (g_next_id g, g_next_id g + 1)
       | Some i \<Rightarrow> (i, if i \<ge> g_next_id g then i + 1 else g_next_id g));
     check (from < length (g_adj g) \<and> from < length (g_und_adj g) \<and> to < length (g_und_adj g) \<and> to < length (g_inv_adj g));
     let und = (g_und_adj g)[from := g_und_adj g ! from @ [(to, e)]];
     let und = und[to := und ! to @ [(from, e)]];
     let m = g_modifications g + 1;
     let g = g\<lparr>g_next_id := next_id, g_num_edges := next_id,
       g_adj := (g_adj g)[from := g_adj g ! from @ [(to, e)]], g_und_adj := und,
       g_status := grow (e + 1) False (g_status g), g_status_const := grow (e + 1) False (g_status_const g),
       g_inv_adj := (g_inv_adj g)[to := g_inv_adj g ! to @ [(from, e)]],
       g_all_edges := (grow (e + 1) no_edge (g_all_edges g))[e := \<lparr>fe_from = int from, fe_to = int to, fe_id = int e\<rparr>],
       g_weights := (grow (e + 1) 1 (g_weights g))[e := weight],
       g_modifications := m, g_additions := m, g_edge_increases := m, g_is_changed := True\<rparr>;
     g \<leftarrow> enableEdge_from e g;
     Some (e, g) }"

definition setEdgeWeight :: "nat \<Rightarrow> 'w::linorder \<Rightarrow> 'w dgraph \<Rightarrow> 'w dgraph option" where
  "setEdgeWeight e w g = do {
     check (e < length (g_status g));
     check (isEdge g e);
     old \<leftarrow> getWeight g e;
     if w = old then Some g
     else
       let m = g_modifications g + 1;
           g = g\<lparr>g_modifications := m\<rparr>;
           c = \<lparr>ec_addition = False, ec_deletion = False, ec_weight_increase = (w > old), ec_weight_decrease = \<not> (w > old),
             ec_id = e, ec_mod = m, ec_prev_mod = g_additions g\<rparr>;
           g = g\<lparr>g_history := g_history g @ [c]\<rparr>;
           g = (if w > old then g\<lparr>g_edge_increases := m\<rparr> else g\<lparr>g_edge_decreases := m\<rparr>)
       in Some (g\<lparr>g_weights := (g_weights g)[e := w]\<rparr>) }"

text \<open>\<open>rewindHistory\<close>: an entry that records a weight change is neither undone nor refused.\<close>

fun rewind_loop :: "nat \<Rightarrow> 'w dgraph \<Rightarrow> (bool \<times> 'w dgraph) option" where
  "rewind_loop 0 g = Some (True, g)"
| "rewind_loop (Suc n) g = do {
     check (g_history g \<noteq> []);
     let c = last (g_history g);
     (b, g) \<leftarrow> (if ec_addition c then undoEnableEdge (ec_id c) g
        else if ec_deletion c then undoDisableEdge (ec_id c) g else Some (True, g));
     if b then rewind_loop n g else Some (False, g) }"

definition rewindHistory :: "nat \<Rightarrow> 'w dgraph \<Rightarrow> (bool \<times> 'w dgraph) option" where
  "rewindHistory steps g = do {
     (b, h) \<leftarrow> rewind_loop steps g;
     if b then do { check (g_modifications h = g_modifications g - int steps); Some (True, h) }
     else Some (False, h) }"

definition invalidate :: "'w dgraph \<Rightarrow> 'w dgraph" where
  "invalidate g = g\<lparr>g_modifications := g_modifications g + 2, g_additions := g_modifications g + 1,
     g_deletions := g_modifications g + 2, g_is_changed := True\<rparr>"

definition markChanged :: "'w dgraph \<Rightarrow> 'w dgraph" where "markChanged g = g\<lparr>g_is_changed := True\<rparr>"
definition clearChanged :: "'w dgraph \<Rightarrow> 'w dgraph" where "clearChanged g = g\<lparr>g_is_changed := False\<rparr>"

definition graph_clear :: "'w dgraph \<Rightarrow> 'w dgraph" where
  "graph_clear g = forced_clear (invalidate (g\<lparr>g_status := [], g_num_nodes := 0, g_num_edges := 0, g_next_id := 0,
     g_adj := [], g_inv_adj := [], g_und_adj := [], g_all_edges := [], g_history := []\<rparr>))"

definition graph_copyTo :: "'w dgraph \<Rightarrow> 'w dgraph \<Rightarrow> 'w dgraph" where
  "graph_copyTo g to = (graph_clear to)\<lparr>g_num_nodes := g_num_nodes g, g_num_edges := g_num_edges g,
     g_next_id := g_next_id g, g_status := g_status g, g_historyClearInterval := g_historyClearInterval g,
     g_adj := g_adj g, g_und_adj := g_und_adj g, g_all_edges := g_all_edges g, g_inv_adj := g_inv_adj g\<rparr>"

end
