(* ===== verification/Graph_Theorems.thy ===== *)
theory Graph_Theorems
  imports Graphs
begin

text \<open>
  The invariant of the dynamic graph and its preservation by every operation, the queries on a consistent graph,
  the replay of the history by the algorithms that read it, and what undoing restores.
\<close>

subsection \<open>The invariant of the graph\<close>

text \<open>
  \<open>graph_ok\<close>: the vectors indexed by nodes and by edges have the lengths the counters say, an entry of
  \<open>all_edges\<close> is an edge between nodes of the graph under its own id or the default entry, the three
  adjacency lists hold exactly the edges, and the history mentions edges only, with increasing numbers of
  modifications up to the present one.
\<close>

abbreviation edge_from :: "'w dgraph \<Rightarrow> nat \<Rightarrow> int" where "edge_from g e \<equiv> fe_from (g_all_edges g ! e)"
abbreviation edge_to :: "'w dgraph \<Rightarrow> nat \<Rightarrow> int" where "edge_to g e \<equiv> fe_to (g_all_edges g ! e)"

definition sizes_ok :: "'w dgraph \<Rightarrow> bool" where
  "sizes_ok g \<longleftrightarrow>
     length (g_adj g) = g_num_nodes g \<and> length (g_inv_adj g) = g_num_nodes g \<and> length (g_und_adj g) = g_num_nodes g \<and>
     g_num_edges g = g_next_id g \<and> length (g_all_edges g) = g_next_id g \<and> length (g_status g) = g_next_id g \<and>
     g_next_id g \<le> length (g_status_const g) \<and> g_next_id g \<le> length (g_weights g)"

definition edges_ok :: "'w dgraph \<Rightarrow> bool" where
  "edges_ok g \<longleftrightarrow> (\<forall>e < length (g_all_edges g). g_all_edges g ! e = no_edge \<or>
     fe_id (g_all_edges g ! e) = int e \<and> 0 \<le> edge_from g e \<and> edge_from g e < int (g_num_nodes g) \<and>
     0 \<le> edge_to g e \<and> edge_to g e < int (g_num_nodes g))"

definition adj_ok :: "'w dgraph \<Rightarrow> bool" where
  "adj_ok g \<longleftrightarrow> (\<forall>u < g_num_nodes g.
     distinct (g_adj g ! u) \<and> distinct (g_inv_adj g ! u) \<and>
     (\<forall>v e. (v, e) \<in> set (g_adj g ! u) \<longleftrightarrow> isEdge g e \<and> edge_from g e = int u \<and> edge_to g e = int v) \<and>
     (\<forall>v e. (v, e) \<in> set (g_inv_adj g ! u) \<longleftrightarrow> isEdge g e \<and> edge_to g e = int u \<and> edge_from g e = int v) \<and>
     (\<forall>v e. (v, e) \<in> set (g_und_adj g ! u) \<longleftrightarrow> isEdge g e \<and>
        (edge_from g e = int u \<and> edge_to g e = int v \<or> edge_to g e = int u \<and> edge_from g e = int v)))"

definition history_ok :: "'w dgraph \<Rightarrow> bool" where
  "history_ok g \<longleftrightarrow> (\<forall>c \<in> set (g_history g). isEdge g (ec_id c) \<and> ec_mod c \<le> g_modifications g) \<and>
     sorted_wrt (\<lambda>c d. ec_mod c < ec_mod d) (g_history g)"

definition graph_ok :: "'w dgraph \<Rightarrow> bool" where
  "graph_ok g \<longleftrightarrow> sizes_ok g \<and> edges_ok g \<and> adj_ok g \<and> history_ok g"

text \<open>Two graphs with the same nodes and edges.\<close>

definition same_edges :: "'w dgraph \<Rightarrow> 'w dgraph \<Rightarrow> bool" where
  "same_edges g h \<longleftrightarrow> g_num_nodes h = g_num_nodes g \<and> g_num_edges h = g_num_edges g \<and> g_next_id h = g_next_id g \<and>
     g_adj h = g_adj g \<and> g_inv_adj h = g_inv_adj g \<and> g_und_adj h = g_und_adj g \<and> g_all_edges h = g_all_edges g \<and>
     length (g_status h) = length (g_status g) \<and> length (g_status_const h) = length (g_status_const g) \<and>
     length (g_weights h) = length (g_weights g)"

lemma same_edges_refl: "same_edges g g" by (simp add: same_edges_def)

lemma same_edges_isEdge: "same_edges g h \<Longrightarrow> isEdge h e = isEdge g e"
  by (simp add: same_edges_def isEdge_def)

lemma graph_ok_same: "graph_ok g \<Longrightarrow> same_edges g h \<Longrightarrow> history_ok h \<Longrightarrow> graph_ok h"
  by (simp add: graph_ok_def sizes_ok_def edges_ok_def adj_ok_def isEdge_def same_edges_def)

lemma history_ok_append:
  assumes "history_ok g" "same_edges g h" "isEdge g (ec_id c)" "ec_mod c = g_modifications g + 1"
    "g_history h = g_history g @ [c]" "g_modifications h = g_modifications g + 1"
  shows "history_ok h"
  using assms by (fastforce simp: history_ok_def same_edges_isEdge sorted_wrt_append)

lemma history_ok_butlast:
  assumes "history_ok g" "same_edges g h" "g_history g \<noteq> []" "g_history h = butlast (g_history g)"
    "ec_mod (last (g_history g)) = g_modifications g" "g_modifications h = g_modifications g - 1"
  shows "history_ok h"
proof -
  have e: "g_history g = g_history h @ [last (g_history g)]" using assms(3,4) by simp
  have s: "sorted_wrt (\<lambda>c d. ec_mod c < ec_mod d) (g_history h @ [last (g_history g)])"
    using assms(1) e unfolding history_ok_def by metis
  have "isEdge h (ec_id c) \<and> ec_mod c \<le> g_modifications h" if "c \<in> set (g_history h)" for c
  proof -
    have "c \<in> set (g_history g)" using that assms(4) by (simp add: in_set_butlastD)
    moreover have "ec_mod c < g_modifications g" using s that assms(5) by (simp add: sorted_wrt_append)
    ultimately show ?thesis using assms(1,2,6) by (simp add: history_ok_def same_edges_isEdge)
  qed
  with s show ?thesis by (simp add: history_ok_def sorted_wrt_append)
qed

lemma history_ok_empty: "g_history g = [] \<Longrightarrow> history_ok g"
  by (simp add: history_ok_def)

lemma history_ok_same:
  "history_ok g \<Longrightarrow> same_edges g h \<Longrightarrow> g_history h = g_history g \<Longrightarrow> g_modifications g \<le> g_modifications h \<Longrightarrow> history_ok h"
  by (fastforce simp: history_ok_def same_edges_isEdge)

lemma isEdge_bounds:
  assumes "graph_ok g" "isEdge g e"
  shows "e < length (g_status g)" "e < length (g_weights g)" "e < length (g_status_const g)" "e < g_next_id g"
  using assms by (auto simp: graph_ok_def sizes_ok_def isEdge_def)

subsection \<open>The operations keep the invariant\<close>

lemma enableEdge_ok:
  assumes "graph_ok g" "isEdge g e"
  obtains h where "enableEdge_from e g = Some h" "graph_ok h" "same_edges g h"
    "g_status h = (g_status g)[e := True]" "g_weights h = g_weights g"
proof -
  note b = isEdge_bounds[OF assms]
  show thesis
  proof (cases "g_status g ! e")
    case True
    then have "enableEdge_from e g = Some g" using b assms by (simp add: enableEdge_from_def)
    moreover have "(g_status g)[e := True] = g_status g" using True list_update_id by metis
    ultimately show ?thesis using that[of g] assms by (simp add: same_edges_refl)
  next
    case False
    obtain h where h': "h = g\<lparr>g_status := (g_status g)[e := True], g_modifications := g_modifications g + 1,
            g_additions := g_modifications g + 1,
            g_history := g_history g @ [\<lparr>ec_addition = True, ec_deletion = False, ec_weight_increase = False,
              ec_weight_decrease = False, ec_id = e, ec_mod = g_modifications g + 1, ec_prev_mod = g_modifications g + 1\<rparr>]\<rparr>"
      by blast
    have h: "enableEdge_from e g = Some h"
      using b assms False by (simp add: enableEdge_from_def Let_def h')
    have s: "same_edges g h" by (simp add: h' same_edges_def)
    have "history_ok h"
      using assms by (intro history_ok_append[OF _ s, where c = "last (g_history h)"]) (auto simp: h' graph_ok_def)
    then show ?thesis using that[OF h] s graph_ok_same[OF assms(1) s] by (simp add: h')
  qed
qed

lemma disableEdge_ok:
  assumes "graph_ok g" "isEdge g e"
  obtains h where "disableEdge_from e g = Some h" "graph_ok h" "same_edges g h"
    "g_status h = (g_status g)[e := False]" "g_weights h = g_weights g"
proof -
  note b = isEdge_bounds[OF assms]
  show thesis
  proof (cases "g_status g ! e")
    case False
    then have "disableEdge_from e g = Some g" using b assms by (simp add: disableEdge_from_def)
    moreover have "(g_status g)[e := False] = g_status g" using False list_update_id by metis
    ultimately show ?thesis using that[of g] assms by (simp add: same_edges_refl)
  next
    case True
    obtain h where h': "h = g\<lparr>g_status := (g_status g)[e := False], g_modifications := g_modifications g + 1,
            g_history := g_history g @ [\<lparr>ec_addition = False, ec_deletion = True, ec_weight_increase = False,
              ec_weight_decrease = False, ec_id = e, ec_mod = g_modifications g + 1, ec_prev_mod = g_deletions g\<rparr>],
            g_deletions := g_modifications g + 1\<rparr>"
      by blast
    have h: "disableEdge_from e g = Some h"
      using b assms True by (simp add: disableEdge_from_def Let_def h')
    have s: "same_edges g h" by (simp add: h' same_edges_def)
    have "history_ok h"
      using assms by (intro history_ok_append[OF _ s, where c = "last (g_history h)"]) (auto simp: h' graph_ok_def)
    then show ?thesis using that[OF h] s graph_ok_same[OF assms(1) s] by (simp add: h')
  qed
qed

lemma setEdgeWeight_ok:
  fixes g :: "'w::linorder dgraph"
  assumes "graph_ok g" "isEdge g e"
  obtains h where "setEdgeWeight e w g = Some h" "graph_ok h" "same_edges g h"
    "g_weights h = (g_weights g)[e := w]" "g_status h = g_status g"
proof -
  note b = isEdge_bounds[OF assms]
  show thesis
  proof (cases "w = g_weights g ! e")
    case True
    then have "setEdgeWeight e w g = Some g" using b assms by (simp add: setEdgeWeight_def getWeight_def)
    moreover have "(g_weights g)[e := w] = g_weights g" using True by simp
    ultimately show ?thesis using that[of g] assms by (simp add: same_edges_refl)
  next
    case False
    then obtain h where h: "setEdgeWeight e w g = Some h" and
      h': "same_edges g h" "g_weights h = (g_weights g)[e := w]" "g_status h = g_status g"
        "g_modifications h = g_modifications g + 1"
        "\<exists>c. g_history h = g_history g @ [c] \<and> ec_id c = e \<and> ec_mod c = g_modifications g + 1"
      using b assms by (simp add: setEdgeWeight_def getWeight_def Let_def same_edges_def)
    then obtain c where c: "g_history h = g_history g @ [c]" "ec_id c = e" "ec_mod c = g_modifications g + 1"
      by blast
    have "history_ok h"
      using assms c h' by (intro history_ok_append[OF _ h'(1), where c = c]) (auto simp: graph_ok_def)
    then show ?thesis using that[OF h] h' graph_ok_same[OF assms(1) h'(1)] by blast
  qed
qed

lemma undoEnableEdge_ok:
  assumes "graph_ok g" "undoEnableEdge e g = Some (b, h)"
  shows "graph_ok h \<and> same_edges g h"
proof (cases "g_history g \<noteq> [] \<and> ec_addition (last (g_history g)) \<and> ec_id (last (g_history g)) = e \<and>
    ec_mod (last (g_history g)) = g_modifications g")
  case True
  then have h: "h = g\<lparr>g_status := (g_status g)[e := False], g_modifications := g_modifications g - 1,
           g_additions := ec_prev_mod (last (g_history g)), g_history := butlast (g_history g)\<rparr>"
    using assms(2) by (auto simp: undoEnableEdge_def Let_def bind_eq_Some_conv)
  have s: "same_edges g h" by (simp add: h same_edges_def)
  have "history_ok h"
    using assms(1) True by (intro history_ok_butlast[OF _ s]) (auto simp: h graph_ok_def)
  then show ?thesis using s graph_ok_same[OF assms(1) s] by blast
next
  case False
  then have "h = g" using assms(2) by (auto simp: undoEnableEdge_def Let_def bind_eq_Some_conv split: if_splits)
  then show ?thesis using assms(1) by (simp add: same_edges_refl)
qed

lemma undoDisableEdge_ok:
  assumes "graph_ok g" "undoDisableEdge e g = Some (b, h)"
  shows "graph_ok h \<and> same_edges g h"
proof (cases "g_history g \<noteq> [] \<and> \<not> ec_addition (last (g_history g)) \<and> ec_id (last (g_history g)) = e \<and>
    ec_mod (last (g_history g)) = g_modifications g")
  case True
  then have h: "h = g\<lparr>g_status := (g_status g)[e := True], g_modifications := g_modifications g - 1,
           g_deletions := ec_prev_mod (last (g_history g)), g_history := butlast (g_history g)\<rparr>"
    using assms(2) by (auto simp: undoDisableEdge_def Let_def bind_eq_Some_conv)
  have s: "same_edges g h" by (simp add: h same_edges_def)
  have "history_ok h"
    using assms(1) True by (intro history_ok_butlast[OF _ s]) (auto simp: h graph_ok_def)
  then show ?thesis using s graph_ok_same[OF assms(1) s] by blast
next
  case False
  then have "h = g" using assms(2) by (auto simp: undoDisableEdge_def Let_def bind_eq_Some_conv split: if_splits)
  then show ?thesis using assms(1) by (simp add: same_edges_refl)
qed

text \<open>A callback may move the history positions of the algorithms only.\<close>

definition only_positions :: "(nat \<Rightarrow> 'w dgraph \<Rightarrow> 'w dgraph) \<Rightarrow> bool" where
  "only_positions cb \<longleftrightarrow> (\<forall>a g. \<exists>ps. cb a g = g\<lparr>g_history_pos := ps\<rparr>)"

lemma count_uptodate_frame:
  assumes "only_positions cb"
  shows "\<exists>ps. snd (count_uptodate cb as n g) = g\<lparr>g_history_pos := ps\<rparr>"
  using assms
proof (induction cb as n g rule: count_uptodate.induct)
  case (1 cb n g)
  show ?case by (auto intro!: exI[of _ "g_history_pos g"])
next
  case (2 cb a as n g)
  obtain ps where ps: "cb (g_algs g ! a) g = g\<lparr>g_history_pos := ps\<rparr>"
    using 2(4) unfolding only_positions_def by blast
  have cb2: "only_positions cb" by (rule 2(4))
  show ?case
  proof (cases "g_history_pos g ! a = historySize g")
    case True
    then show ?thesis using 2(3) cb2 by simp
  next
    case False
    then show ?thesis
    proof (cases "g_dynamic_history_clears g = 2")
      case clears: True
      have "\<exists>qs. snd (count_uptodate cb as k (g\<lparr>g_history_pos := ps\<rparr>)) = g\<lparr>g_history_pos := qs\<rparr>"
        if "k = (if g_history_pos (g\<lparr>g_history_pos := ps\<rparr>) ! a = historySize (g\<lparr>g_history_pos := ps\<rparr>) then n + 1 else n)" for k
        using 2(1)[OF False clears _ cb2, of "g\<lparr>g_history_pos := ps\<rparr>"] ps that by auto
      then show ?thesis using False clears ps by (auto simp: Let_def)
    next
      case clears: False
      then show ?thesis using 2(2)[OF False clears cb2] False by simp
    qed
  qed
qed

lemma full_clear_ok:
  assumes "graph_ok g"
  shows "graph_ok (full_clear g) \<and> same_edges g (full_clear g)"
proof -
  have s: "same_edges g (full_clear g)" by (simp add: full_clear_def same_edges_def)
  then show ?thesis using graph_ok_same[OF assms s] by (simp add: history_ok_empty full_clear_def)
qed

lemma clearHistory_ok:
  assumes "graph_ok g" "only_positions cb"
  shows "graph_ok (clearHistory cb m b g) \<and> same_edges g (clearHistory cb m b g) \<and>
    g_status (clearHistory cb m b g) = g_status g \<and> g_weights (clearHistory cb m b g) = g_weights g"
proof -
  obtain n ps where c: "count_uptodate cb [0..<length (g_algs g)] 0 g = (n, g\<lparr>g_history_pos := ps\<rparr>)"
    using count_uptodate_frame[OF assms(2)] by (metis surj_pair snd_conv)
  let ?p = "g\<lparr>g_history_pos := ps\<rparr>"
  have sp: "same_edges g ?p" by (simp add: same_edges_def)
  then have p: "graph_ok ?p"
    using graph_ok_same[OF assms(1) sp] history_ok_same[OF _ sp] assms(1) by (simp add: graph_ok_def)
  let ?s = "?p\<lparr>g_history_offset := historySize ?p, g_skipped_historyclears := g_skipped_historyclears ?p + 1, g_history := []\<rparr>"
  have ss: "same_edges g ?s" by (simp add: same_edges_def)
  then have s: "graph_ok ?s" using graph_ok_same[OF assms(1) ss] by (simp add: history_ok_empty)
  have f: "graph_ok (full_clear ?p)" "same_edges g (full_clear ?p)"
    using full_clear_ok[OF p] by (auto simp: same_edges_def)
  show ?thesis
    using s ss f full_clear_ok[OF assms(1)] assms(1) same_edges_refl[of g]
    by (simp add: clearHistory_def c full_clear_def)
qed

text \<open>\<open>addNode\<close> and \<open>addEdge\<close> split into the change of the structure and the operation they end with.\<close>

definition with_node :: "'w dgraph \<Rightarrow> 'w dgraph" where
  "with_node g = (let m = g_modifications g + 1 in
     g\<lparr>g_adj := g_adj g @ [[]], g_und_adj := g_und_adj g @ [[]], g_inv_adj := g_inv_adj g @ [[]],
       g_modifications := m, g_additions := m, g_deletions := m, g_edge_increases := m,
       g_edge_decreases := m, g_is_changed := True, g_num_nodes := g_num_nodes g + 1\<rparr>)"

lemma forced_clear_nodes: "(forced_clear g)\<lparr>g_num_nodes := n\<rparr> = forced_clear (g\<lparr>g_num_nodes := n\<rparr>)"
  by (simp add: forced_clear_def clearHistory_def full_clear_def)

lemma addNode_eq: "addNode g = (g_num_nodes g, forced_clear (with_node g))"
  by (simp add: addNode_def with_node_def Let_def forced_clear_nodes)
     (simp add: forced_clear_def clearHistory_def full_clear_def)

lemma only_positions_id: "only_positions (\<lambda>_ (g :: 'w dgraph). g)"
  unfolding only_positions_def
proof (intro allI)
  show "\<exists>ps. g = g\<lparr>g_history_pos := ps\<rparr>" for g :: "'w dgraph"
    by (rule exI[of _ "g_history_pos g"]) simp
qed

lemma isEdge_in:
  assumes "edges_ok g" "isEdge g e"
  shows "0 \<le> edge_from g e" "edge_from g e < int (g_num_nodes g)" "0 \<le> edge_to g e" "edge_to g e < int (g_num_nodes g)"
proof -
  have "g_all_edges g ! e \<noteq> no_edge" using assms(2) by (auto simp: isEdge_def no_edge_def)
  moreover have "e < length (g_all_edges g)" using assms(2) by (simp add: isEdge_def)
  ultimately show "0 \<le> edge_from g e" "edge_from g e < int (g_num_nodes g)" "0 \<le> edge_to g e" "edge_to g e < int (g_num_nodes g)"
    using assms(1) unfolding edges_ok_def by blast+
qed

lemma with_node_simps [simp]:
  "g_all_edges (with_node g) = g_all_edges g" "g_num_nodes (with_node g) = Suc (g_num_nodes g)"
  "g_num_edges (with_node g) = g_num_edges g" "g_next_id (with_node g) = g_next_id g" "g_status (with_node g) = g_status g"
  "g_status_const (with_node g) = g_status_const g" "g_weights (with_node g) = g_weights g" "g_history (with_node g) = g_history g"
  "g_adj (with_node g) = g_adj g @ [[]]" "g_inv_adj (with_node g) = g_inv_adj g @ [[]]" "g_und_adj (with_node g) = g_und_adj g @ [[]]"
  "g_modifications (with_node g) = g_modifications g + 1" "isEdge (with_node g) = isEdge g"
  by (auto simp: with_node_def Let_def isEdge_def)

lemma with_node_ok:
  assumes "graph_ok g"
  shows "graph_ok (with_node g)"
proof -
  have s: "sizes_ok g" and e: "edges_ok g" and a: "adj_ok g" and h: "history_ok g"
    using assms by (auto simp: graph_ok_def)
  have "sizes_ok (with_node g)" using s by (simp add: sizes_ok_def)
  moreover have "edges_ok (with_node g)" using e by (fastforce simp: edges_ok_def)
  moreover have "adj_ok (with_node g)"
    unfolding adj_ok_def
  proof (intro allI impI)
    fix u assume u: "u < g_num_nodes (with_node g)"
    show "distinct (g_adj (with_node g) ! u) \<and> distinct (g_inv_adj (with_node g) ! u) \<and>
     (\<forall>v e. (v, e) \<in> set (g_adj (with_node g) ! u) \<longleftrightarrow> isEdge (with_node g) e \<and> edge_from (with_node g) e = int u \<and> edge_to (with_node g) e = int v) \<and>
     (\<forall>v e. (v, e) \<in> set (g_inv_adj (with_node g) ! u) \<longleftrightarrow> isEdge (with_node g) e \<and> edge_to (with_node g) e = int u \<and> edge_from (with_node g) e = int v) \<and>
     (\<forall>v e. (v, e) \<in> set (g_und_adj (with_node g) ! u) \<longleftrightarrow> isEdge (with_node g) e \<and>
        (edge_from (with_node g) e = int u \<and> edge_to (with_node g) e = int v \<or> edge_to (with_node g) e = int u \<and> edge_from (with_node g) e = int v))"
    proof (cases "u < g_num_nodes g")
      case True
      then show ?thesis using a s by (simp add: adj_ok_def sizes_ok_def nth_append)
    next
      case False
      then have "u = g_num_nodes g" using u by simp
      moreover have "edge_from g x \<noteq> int (g_num_nodes g) \<and> edge_to g x \<noteq> int (g_num_nodes g)" if "isEdge g x" for x
        using isEdge_in[OF e that] by simp
      ultimately show ?thesis using s by (auto simp: sizes_ok_def nth_append)
    qed
  qed
  moreover have "history_ok (with_node g)" using h by (fastforce simp: history_ok_def)
  ultimately show ?thesis by (simp add: graph_ok_def)
qed

lemma addNode_ok:
  assumes "graph_ok g"
  shows "graph_ok (snd (addNode g))" "fst (addNode g) = g_num_nodes g"
    "same_edges (with_node g) (snd (addNode g))" "g_status (snd (addNode g)) = g_status g" "g_weights (snd (addNode g)) = g_weights g"
  using clearHistory_ok[OF with_node_ok[OF assms] only_positions_id, of 0 True]
  by (simp_all add: addNode_eq forced_clear_def)

definition new_edge_id :: "nat option \<Rightarrow> 'w dgraph \<Rightarrow> nat" where
  "new_edge_id id_arg g = (case id_arg of None \<Rightarrow> g_next_id g | Some i \<Rightarrow> i)"

definition with_edge :: "nat \<Rightarrow> nat \<Rightarrow> nat \<Rightarrow> 'w::one \<Rightarrow> 'w dgraph \<Rightarrow> 'w dgraph" where
  "with_edge e u v w g = (
     let next_id = max (g_next_id g) (e + 1);
         und = (g_und_adj g)[u := g_und_adj g ! u @ [(v, e)]];
         und = und[v := und ! v @ [(u, e)]];
         m = g_modifications g + 1
     in g\<lparr>g_next_id := next_id, g_num_edges := next_id,
       g_adj := (g_adj g)[u := g_adj g ! u @ [(v, e)]], g_und_adj := und,
       g_status := grow (e + 1) False (g_status g), g_status_const := grow (e + 1) False (g_status_const g),
       g_inv_adj := (g_inv_adj g)[v := g_inv_adj g ! v @ [(u, e)]],
       g_all_edges := (grow (e + 1) no_edge (g_all_edges g))[e := \<lparr>fe_from = int u, fe_to = int v, fe_id = int e\<rparr>],
       g_weights := (grow (e + 1) 1 (g_weights g))[e := w],
       g_modifications := m, g_additions := m, g_edge_increases := m, g_is_changed := True\<rparr>)"

lemma addEdge_eq:
  assumes "graph_ok g" "u < g_num_nodes g" "v < g_num_nodes g"
  shows "addEdge u v id_arg w g =
    Option.bind (enableEdge_from (new_edge_id id_arg g) (with_edge (new_edge_id id_arg g) u v w g))
      (\<lambda>h. Some (new_edge_id id_arg g, h))"
proof -
  have l: "u < length (g_adj g)" "u < length (g_und_adj g)" "v < length (g_und_adj g)" "v < length (g_inv_adj g)"
    using assms by (auto simp: graph_ok_def sizes_ok_def)
  have m: "max (g_next_id g) (Suc (g_next_id g)) = Suc (g_next_id g)"
    "\<And>i. max (g_next_id g) (Suc i) = (if g_next_id g \<le> i then Suc i else g_next_id g)" by auto
  show ?thesis
    by (cases id_arg) (simp_all add: addEdge_def assms(2,3) l with_edge_def new_edge_id_def Let_def m)
qed

lemma length_grow [simp]: "length (grow n x xs) = max n (length xs)"
  by (simp add: grow_def)

lemma nth_grow: "i < max n (length xs) \<Longrightarrow> grow n x xs ! i = (if i < length xs then xs ! i else x)"
  by (auto simp: grow_def nth_append)

lemma with_edge_simps [simp]:
  "g_num_nodes (with_edge e u v w g) = g_num_nodes g"
  "g_next_id (with_edge e u v w g) = max (g_next_id g) (Suc e)" "g_num_edges (with_edge e u v w g) = max (g_next_id g) (Suc e)"
  "g_status (with_edge e u v w g) = grow (Suc e) False (g_status g)"
  "g_status_const (with_edge e u v w g) = grow (Suc e) False (g_status_const g)"
  "g_weights (with_edge e u v w g) = (grow (Suc e) 1 (g_weights g))[e := w]"
  "g_history (with_edge e u v w g) = g_history g"
  "g_modifications (with_edge e u v w g) = g_modifications g + 1"
  "g_adj (with_edge e u v w g) = (g_adj g)[u := g_adj g ! u @ [(v, e)]]"
  "g_inv_adj (with_edge e u v w g) = (g_inv_adj g)[v := g_inv_adj g ! v @ [(u, e)]]"
  by (simp_all add: with_edge_def Let_def)

lemma with_edge_und:
  "v < length (g_und_adj g) \<Longrightarrow> u < length (g_und_adj g) \<Longrightarrow> x < length (g_und_adj g) \<Longrightarrow>
   set (g_und_adj (with_edge e u v w g) ! x) =
     set (g_und_adj g ! x) \<union> (if x = u then {(v, e)} else {}) \<union> (if x = v then {(u, e)} else {})"
  by (auto simp: with_edge_def Let_def nth_list_update)

lemma with_edge_edges:
  assumes "length (g_all_edges g) = g_next_id g"
  shows "g_all_edges (with_edge e u v w g) = (grow (Suc e) no_edge (g_all_edges g))[e := \<lparr>fe_from = int u, fe_to = int v, fe_id = int e\<rparr>]"
    "length (g_all_edges (with_edge e u v w g)) = max (Suc e) (g_next_id g)"
  using assms by (simp_all add: with_edge_def Let_def)

lemma with_edge_isEdge:
  assumes "length (g_all_edges g) = g_next_id g"
  shows "isEdge (with_edge e u v w g) x \<longleftrightarrow> x = e \<or> isEdge g x"
    "isEdge g x \<Longrightarrow> x \<noteq> e \<Longrightarrow> g_all_edges (with_edge e u v w g) ! x = g_all_edges g ! x"
    "g_all_edges (with_edge e u v w g) ! e = \<lparr>fe_from = int u, fe_to = int v, fe_id = int e\<rparr>"
  using assms
  by (auto simp: isEdge_def with_edge_edges nth_list_update nth_grow no_edge_def less_max_iff_disj split: if_splits)

lemma with_edge_ok:
  assumes "graph_ok g" "u < g_num_nodes g" "v < g_num_nodes g" "\<not> isEdge g e"
  shows "graph_ok (with_edge e u v w g)"
proof -
  have s: "sizes_ok g" and ed: "edges_ok g" and a: "adj_ok g" and h: "history_ok g"
    using assms(1) by (auto simp: graph_ok_def)
  let ?h = "with_edge e u v w g"
  have l: "length (g_all_edges g) = g_next_id g" using s by (simp add: sizes_ok_def)
  note ie = with_edge_isEdge[OF l, where e = e and u = u and v = v and w = w]
  have "length (g_und_adj ?h) = length (g_und_adj g)" by (simp add: with_edge_def Let_def)
  then have "sizes_ok ?h" using s with_edge_edges(2)[OF l, of e u v w] by (auto simp: sizes_ok_def)
  moreover have "edges_ok ?h"
    unfolding edges_ok_def
  proof (intro allI impI)
    fix x assume x: "x < length (g_all_edges ?h)"
    show "g_all_edges ?h ! x = no_edge \<or> fe_id (g_all_edges ?h ! x) = int x \<and> 0 \<le> edge_from ?h x \<and>
      edge_from ?h x < int (g_num_nodes ?h) \<and> 0 \<le> edge_to ?h x \<and> edge_to ?h x < int (g_num_nodes ?h)"
    proof (cases "x = e")
      case True
      then show ?thesis using assms(2,3) by (simp add: ie(3))
    next
      case ne: False
      then have "g_all_edges ?h ! x = (if x < g_next_id g then g_all_edges g ! x else no_edge)"
        using x l by (simp add: with_edge_edges nth_grow)
      then show ?thesis using ed l by (auto simp: edges_ok_def)
    qed
  qed
  moreover have "adj_ok ?h"
    unfolding adj_ok_def
  proof (intro allI impI)
    fix x assume "x < g_num_nodes ?h"
    then have x: "x < g_num_nodes g" by simp
    have len: "length (g_adj g) = g_num_nodes g" "length (g_inv_adj g) = g_num_nodes g" "length (g_und_adj g) = g_num_nodes g"
      using s by (auto simp: sizes_ok_def)
    have old: "distinct (g_adj g ! x)" "distinct (g_inv_adj g ! x)"
      "\<And>y c. (y, c) \<in> set (g_adj g ! x) \<longleftrightarrow> isEdge g c \<and> edge_from g c = int x \<and> edge_to g c = int y"
      "\<And>y c. (y, c) \<in> set (g_inv_adj g ! x) \<longleftrightarrow> isEdge g c \<and> edge_to g c = int x \<and> edge_from g c = int y"
      "\<And>y c. (y, c) \<in> set (g_und_adj g ! x) \<longleftrightarrow> isEdge g c \<and>
        (edge_from g c = int x \<and> edge_to g c = int y \<or> edge_to g c = int x \<and> edge_from g c = int y)"
      using a x unfolding adj_ok_def by blast+
    have fresh: "\<And>y. (y, e) \<notin> set (g_adj g ! x)" "\<And>y. (y, e) \<notin> set (g_inv_adj g ! x)"
      using old(3,4) assms(4) by blast+
    have ends: "edge_from ?h c = edge_from g c \<and> edge_to ?h c = edge_to g c" if "isEdge g c" for c
      using ie(2)[OF that] that assms(4) by (cases "c = e") auto
    have ends': "edge_from ?h e = int u" "edge_to ?h e = int v" by (simp_all add: ie(3))
    have d: "distinct (g_adj ?h ! x)" "distinct (g_inv_adj ?h ! x)"
      using x len assms(2,3) old(1,2) fresh by (auto simp: nth_list_update)
    have f: "(y, c) \<in> set (g_adj ?h ! x) \<longleftrightarrow> isEdge ?h c \<and> edge_from ?h c = int x \<and> edge_to ?h c = int y" for y c
      using x len assms(2,3) old(3)[of y c] ends[of c] ends' ie(1)[of c] assms(4) by (auto simp: nth_list_update)
    have b: "(y, c) \<in> set (g_inv_adj ?h ! x) \<longleftrightarrow> isEdge ?h c \<and> edge_to ?h c = int x \<and> edge_from ?h c = int y" for y c
      using x len assms(2,3) old(4)[of y c] ends[of c] ends' ie(1)[of c] assms(4) by (auto simp: nth_list_update)
    have n: "(y, c) \<in> set (g_und_adj ?h ! x) \<longleftrightarrow> isEdge ?h c \<and>
        (edge_from ?h c = int x \<and> edge_to ?h c = int y \<or> edge_to ?h c = int x \<and> edge_from ?h c = int y)" for y c
    proof -
      have m: "(y, c) \<in> set (g_und_adj ?h ! x) \<longleftrightarrow> (y, c) \<in> set (g_und_adj g ! x) \<or> x = u \<and> y = v \<and> c = e \<or> x = v \<and> y = u \<and> c = e"
        using x len assms(2,3) by (simp only: with_edge_und) auto
      show ?thesis
      proof (cases "c = e")
        case True
        then show ?thesis unfolding m old(5) using assms(4) by (auto simp: ends' ie(1))
      next
        case False
        then show ?thesis unfolding m old(5) using ends[of c] by (auto simp: ie(1))
      qed
    qed
    show "distinct (g_adj ?h ! x) \<and> distinct (g_inv_adj ?h ! x) \<and>
     (\<forall>y c. (y, c) \<in> set (g_adj ?h ! x) \<longleftrightarrow> isEdge ?h c \<and> edge_from ?h c = int x \<and> edge_to ?h c = int y) \<and>
     (\<forall>y c. (y, c) \<in> set (g_inv_adj ?h ! x) \<longleftrightarrow> isEdge ?h c \<and> edge_to ?h c = int x \<and> edge_from ?h c = int y) \<and>
     (\<forall>y c. (y, c) \<in> set (g_und_adj ?h ! x) \<longleftrightarrow> isEdge ?h c \<and>
        (edge_from ?h c = int x \<and> edge_to ?h c = int y \<or> edge_to ?h c = int x \<and> edge_from ?h c = int y))"
      using d f b n by blast
  qed
  moreover have "history_ok ?h" using h ie(1) by (fastforce simp: history_ok_def)
  ultimately show ?thesis by (simp add: graph_ok_def)
qed

lemma new_edge_id_fresh: "graph_ok g \<Longrightarrow> id_arg = None \<or> \<not> isEdge g (the id_arg) \<Longrightarrow> \<not> isEdge g (new_edge_id id_arg g)"
  by (auto simp: new_edge_id_def isEdge_def graph_ok_def sizes_ok_def split: option.splits)

lemma addEdge_ok:
  assumes "graph_ok g" "u < g_num_nodes g" "v < g_num_nodes g" "id_arg = None \<or> \<not> isEdge g (the id_arg)"
  obtains h where "addEdge u v id_arg w g = Some (new_edge_id id_arg g, h)" "graph_ok h"
    "same_edges (with_edge (new_edge_id id_arg g) u v w g) h"
    "g_status h = (grow (Suc (new_edge_id id_arg g)) False (g_status g))[new_edge_id id_arg g := True]"
    "g_weights h = (grow (Suc (new_edge_id id_arg g)) 1 (g_weights g))[new_edge_id id_arg g := w]"
proof -
  let ?e = "new_edge_id id_arg g" and ?h = "with_edge (new_edge_id id_arg g) u v w g"
  have f: "\<not> isEdge g ?e" by (rule new_edge_id_fresh[OF assms(1,4)])
  have "isEdge ?h ?e" using assms(1) by (subst with_edge_isEdge) (auto simp: graph_ok_def sizes_ok_def)
  then obtain h where "enableEdge_from ?e ?h = Some h" "graph_ok h" "same_edges ?h h"
    "g_status h = (g_status ?h)[?e := True]" "g_weights h = g_weights ?h"
    using enableEdge_ok[OF with_edge_ok[OF assms(1-3) f]] by blast
  then show thesis using that[of h] by (simp add: addEdge_eq[OF assms(1-3)])
qed

lemma graph_ok_new: "graph_ok new_graph"
  by (simp add: graph_ok_def sizes_ok_def edges_ok_def adj_ok_def history_ok_def new_graph_def)

lemma graph_clear_ok: "graph_ok (graph_clear g)"
proof -
  let ?g = "invalidate (g\<lparr>g_status := [], g_num_nodes := 0, g_num_edges := 0, g_next_id := 0,
     g_adj := [], g_inv_adj := [], g_und_adj := [], g_all_edges := [], g_history := []\<rparr>)"
  have "graph_ok ?g"
    by (simp add: graph_ok_def sizes_ok_def edges_ok_def adj_ok_def history_ok_def invalidate_def)
  then show ?thesis
    using clearHistory_ok[OF _ only_positions_id, of ?g 0 True] by (simp add: graph_clear_def forced_clear_def)
qed

subsection \<open>Reachable graphs\<close>

text \<open>One call of a public operation; \<open>addEdge\<close> with an id of its own is called with an id that is not an edge yet.\<close>

inductive graph_step :: "'w::{one,linorder} dgraph \<Rightarrow> 'w dgraph \<Rightarrow> bool" where
  node: "graph_step g (snd (addNode g))"
| edge: "id_arg = None \<or> \<not> isEdge g (the id_arg) \<Longrightarrow> addEdge u v id_arg w g = Some (e, h) \<Longrightarrow> graph_step g h"
| enabled: "setEdgeEnabled e b g = Some h \<Longrightarrow> graph_step g h"
| weight: "setEdgeWeight e w g = Some h \<Longrightarrow> graph_step g h"
| undo_enable: "undoEnableEdge e g = Some (b, h) \<Longrightarrow> graph_step g h"
| undo_disable: "undoDisableEdge e g = Some (b, h) \<Longrightarrow> graph_step g h"
| fix_status: "makeEdgeAssignmentConstant e g = Some h \<Longrightarrow> graph_step g h"
| history: "only_positions cb \<Longrightarrow> graph_step g (clearHistory cb m b g)"
| algorithm: "addDynamicAlgorithm a g = Some (i, h) \<Longrightarrow> graph_step g h"
| position: "updateAlgorithmHistory a i p g = Some h \<Longrightarrow> graph_step g h"
| invalid: "graph_step g (invalidate g)"
| mark: "graph_step g (markChanged g)"
| unmark: "graph_step g (clearChanged g)"
| emptied: "graph_step g (graph_clear g)"

inductive graph_reachable :: "'w::{one,linorder} dgraph \<Rightarrow> bool" where
  start: "graph_reachable new_graph"
| step: "graph_reachable g \<Longrightarrow> graph_step g h \<Longrightarrow> graph_reachable h"

inductive_cases graph_step_cases: "graph_step g h"

lemma graph_ok_fields:
  assumes "graph_ok g" "same_edges g h" "g_history h = g_history g" "g_modifications g \<le> g_modifications h"
  shows "graph_ok h"
  using graph_ok_same[OF assms(1,2)] history_ok_same[OF _ assms(2-4)] assms(1) by (simp add: graph_ok_def)

lemma enableEdge_isEdge: "enableEdge_from e g = Some h \<Longrightarrow> isEdge g e"
  by (auto simp: enableEdge_from_def bind_eq_Some_conv)

lemma disableEdge_isEdge: "disableEdge_from e g = Some h \<Longrightarrow> isEdge g e"
  by (auto simp: disableEdge_from_def bind_eq_Some_conv)

lemma setEdgeWeight_isEdge: "setEdgeWeight e w g = Some h \<Longrightarrow> isEdge g e"
  by (auto simp: setEdgeWeight_def bind_eq_Some_conv)

lemma addEdge_nodes: "addEdge u v id_arg w g = Some r \<Longrightarrow> u < g_num_nodes g \<and> v < g_num_nodes g"
  by (auto simp: addEdge_def bind_eq_Some_conv)

lemma graph_step_ok:
  assumes "graph_step g h" "graph_ok g"
  shows "graph_ok h"
  using assms(1)
proof cases
  case node
  then show ?thesis using addNode_ok(1)[OF assms(2)] by simp
next
  case (edge id_arg u v w e)
  have n: "u < g_num_nodes g" "v < g_num_nodes g" using addEdge_nodes[OF edge(2)] by auto
  show ?thesis using addEdge_ok[OF assms(2) n edge(1), of w] edge(2) by auto
next
  case (enabled e b)
  show ?thesis
  proof (cases b)
    case True
    then have c: "enableEdge_from e g = Some h" using enabled by (simp add: setEdgeEnabled_def)
    show ?thesis using enableEdge_ok[OF assms(2) enableEdge_isEdge[OF c]] c by auto
  next
    case False
    then have c: "disableEdge_from e g = Some h" using enabled by (simp add: setEdgeEnabled_def)
    show ?thesis using disableEdge_ok[OF assms(2) disableEdge_isEdge[OF c]] c by auto
  qed
next
  case (weight e w)
  show ?thesis using setEdgeWeight_ok[OF assms(2) setEdgeWeight_isEdge[OF weight], of w] weight by auto
next
  case (undo_enable e b)
  then show ?thesis using undoEnableEdge_ok[OF assms(2)] by blast
next
  case (undo_disable e b)
  then show ?thesis using undoDisableEdge_ok[OF assms(2)] by blast
next
  case (fix_status e)
  then show ?thesis
    by (intro graph_ok_fields[OF assms(2)])
       (auto simp: makeEdgeAssignmentConstant_def same_edges_def set_at_Some bind_eq_Some_conv)
next
  case (history cb m b)
  then show ?thesis using clearHistory_ok[OF assms(2)] by blast
next
  case (algorithm a i)
  then show ?thesis
    by (intro graph_ok_fields[OF assms(2)])
       (auto simp: addDynamicAlgorithm_def same_edges_def Let_def bind_eq_Some_conv)
next
  case (position a i p)
  then show ?thesis
    by (intro graph_ok_fields[OF assms(2)])
       (auto simp: updateAlgorithmHistory_def same_edges_def bind_eq_Some_conv)
next
  case invalid
  then show ?thesis by (intro graph_ok_fields[OF assms(2)]) (simp_all add: invalidate_def same_edges_def)
next
  case mark
  then show ?thesis by (intro graph_ok_fields[OF assms(2)]) (simp_all add: markChanged_def same_edges_def)
next
  case unmark
  then show ?thesis by (intro graph_ok_fields[OF assms(2)]) (simp_all add: clearChanged_def same_edges_def)
next
  case emptied
  then show ?thesis by (simp add: graph_clear_ok)
qed

lemma reachable_graph_ok: "graph_reachable g \<Longrightarrow> graph_ok g"
  by (induction rule: graph_reachable.induct) (auto simp: graph_ok_new intro: graph_step_ok)

text \<open>The edges from \<open>u\<close> to \<open>v\<close> that are enabled, and the edges at a node.\<close>

definition joins :: "'w dgraph \<Rightarrow> nat \<Rightarrow> nat \<Rightarrow> nat \<Rightarrow> bool" where
  "joins g u v e \<longleftrightarrow> isEdge g e \<and> edge_from g e = int u \<and> edge_to g e = int v"

lemma find_enabled_spec:
  assumes "\<forall>(n, e) \<in> set es. e < length (g_status g)"
  shows "\<exists>r. find_enabled g v es = Some r \<and>
    (if \<exists>e. (v, e) \<in> set es \<and> g_status g ! e then \<exists>e. r = int e \<and> (v, e) \<in> set es \<and> g_status g ! e else r = - 1)"
  using assms
proof (induction g v es rule: find_enabled.induct)
  case (1 g to)
  then show ?case by simp
next
  case (2 g to n e es)
  then have e: "e < length (g_status g)" by simp
  show ?case
  proof (cases "n = to \<and> g_status g ! e")
    case True
    then have "find_enabled g to ((n, e) # es) = Some (int e)" using e by (simp add: edgeEnabled_def)
    then show ?thesis using True by (intro exI[of _ "int e"]) auto
  next
    case False
    then have f: "find_enabled g to ((n, e) # es) = find_enabled g to es"
      "(\<exists>c. (to, c) \<in> set ((n, e) # es) \<and> g_status g ! c) = (\<exists>c. (to, c) \<in> set es \<and> g_status g ! c)"
      using e by (auto simp: edgeEnabled_def)
    have "\<exists>r. find_enabled g to es = Some r \<and>
      (if \<exists>e. (to, e) \<in> set es \<and> g_status g ! e then \<exists>e. r = int e \<and> (to, e) \<in> set es \<and> g_status g ! e else r = - 1)"
      using 2 False e by (cases "n = to") (auto simp: edgeEnabled_def)
    then obtain r where r: "find_enabled g to es = Some r"
      "if \<exists>e. (to, e) \<in> set es \<and> g_status g ! e then \<exists>e. r = int e \<and> (to, e) \<in> set es \<and> g_status g ! e else r = - 1"
      by blast
    then show ?thesis unfolding f by (intro exI[of _ r]) (simp split: if_splits, blast)
  qed
qed

lemma adj_joins:
  assumes "graph_ok g" "u < g_num_nodes g"
  shows "u < length (g_adj g)" "u < length (g_und_adj g)" "u < length (g_inv_adj g)"
    "(v, e) \<in> set (g_adj g ! u) \<longleftrightarrow> joins g u v e"
    "(v, e) \<in> set (g_inv_adj g ! u) \<longleftrightarrow> joins g v u e"
    "(v, e) \<in> set (g_und_adj g ! u) \<longleftrightarrow> joins g u v e \<or> joins g v u e"
  using assms by (auto simp: graph_ok_def sizes_ok_def adj_ok_def joins_def)

lemma joins_status: "graph_ok g \<Longrightarrow> joins g u v e \<Longrightarrow> e < length (g_status g)"
  using isEdge_bounds(1) by (auto simp: joins_def)

subsection \<open>Replaying the history\<close>

text \<open>Changes of edges between two visits of an algorithm, and what the entries recorded for them say
  about the status of the edges.\<close>

datatype 'w edge_op = Set_enabled nat bool | Set_weight nat 'w

fun edge_ops :: "'w::linorder edge_op list \<Rightarrow> 'w dgraph \<Rightarrow> 'w dgraph option" where
  "edge_ops [] g = Some g"
| "edge_ops (Set_enabled e b # ops) g = do { g \<leftarrow> setEdgeEnabled e b g; edge_ops ops g }"
| "edge_ops (Set_weight e w # ops) g = do { g \<leftarrow> setEdgeWeight e w g; edge_ops ops g }"

fun replay_status :: "edge_change list \<Rightarrow> bool list \<Rightarrow> bool list" where
  "replay_status [] st = st"
| "replay_status (c # cs) st =
     replay_status cs (if ec_addition c then st[ec_id c := True] else if ec_deletion c then st[ec_id c := False] else st)"

definition follows :: "'w dgraph \<Rightarrow> edge_change list \<Rightarrow> 'w dgraph \<Rightarrow> bool" where
  "follows g cs h \<longleftrightarrow>
     same_edges g h \<and> g_history h = g_history g @ cs \<and> g_history_offset h = g_history_offset g \<and>
     g_historyclears h = g_historyclears g \<and> g_modifications h = g_modifications g + int (length cs) \<and>
     (\<forall>i < length cs. ec_mod (cs ! i) = g_modifications g + 1 + int i) \<and>
     g_status h = replay_status cs (g_status g) \<and>
     (\<forall>e < length (g_weights g). g_weights h ! e \<noteq> g_weights g ! e \<longrightarrow>
        (\<exists>c \<in> set cs. ec_id c = e \<and> (ec_weight_increase c \<or> ec_weight_decrease c))) \<and>
     ((\<forall>c \<in> set cs. \<not> ec_addition c) \<longrightarrow> g_additions h = g_additions g) \<and>
     ((\<forall>c \<in> set cs. \<not> ec_deletion c) \<longrightarrow> g_deletions h = g_deletions g)"

lemma replay_status_append [simp]: "replay_status (cs @ ds) st = replay_status ds (replay_status cs st)"
  by (induction cs arbitrary: st) auto

lemma edge_ops_append: "edge_ops (xs @ ys) g = Option.bind (edge_ops xs g) (edge_ops ys)"
proof (induction xs g rule: edge_ops.induct)
  case (2 e b ops g)
  then show ?case by (cases "setEdgeEnabled e b g") auto
next
  case (3 e w ops g)
  then show ?case by (cases "setEdgeWeight e w g") auto
qed simp

lemma follows_refl: "follows g [] g"
  by (simp add: follows_def same_edges_refl)

lemma same_edges_trans: "same_edges g h \<Longrightarrow> same_edges h k \<Longrightarrow> same_edges g k"
  by (simp add: same_edges_def)

lemma follows_trans:
  assumes "follows g cs h" "follows h ds k"
  shows "follows g (cs @ ds) k"
proof -
  have lw: "length (g_weights h) = length (g_weights g)" using assms(1) by (simp add: follows_def same_edges_def)
  have "ec_mod ((cs @ ds) ! i) = g_modifications g + 1 + int i" if "i < length (cs @ ds)" for i
    using assms that by (cases "i < length cs") (auto simp: follows_def nth_append)
  moreover have "\<exists>c \<in> set (cs @ ds). ec_id c = e \<and> (ec_weight_increase c \<or> ec_weight_decrease c)"
    if e: "e < length (g_weights g)" and ne: "g_weights k ! e \<noteq> g_weights g ! e" for e
  proof (cases "g_weights h ! e = g_weights g ! e")
    case True
    then show ?thesis using assms(2) e ne lw unfolding follows_def by (metis Un_iff set_append)
  next
    case False
    then show ?thesis using assms(1) e unfolding follows_def by (metis Un_iff set_append)
  qed
  moreover have "same_edges g k" using assms same_edges_trans unfolding follows_def by blast
  moreover have "replay_status (cs @ ds) (g_status g) = g_status k" using assms by (simp add: follows_def)
  moreover have "(\<forall>c \<in> set (cs @ ds). \<not> ec_addition c) \<longrightarrow> g_additions k = g_additions g"
    "(\<forall>c \<in> set (cs @ ds). \<not> ec_deletion c) \<longrightarrow> g_deletions k = g_deletions g"
    using assms by (auto simp: follows_def)
  moreover have "g_history k = g_history g @ cs @ ds" "g_history_offset k = g_history_offset g" "g_historyclears k = g_historyclears g"
    "g_modifications k = g_modifications g + int (length (cs @ ds))"
    using assms by (auto simp: follows_def)
  ultimately show ?thesis unfolding follows_def by (metis append_assoc)
qed

lemma enable_follows:
  assumes "enableEdge_from e g = Some h" "\<not> g_status g ! e"
  obtains c where "follows g [c] h" "ec_addition c" "ec_id c = e" "ec_mod c = g_modifications h"
    "h = g\<lparr>g_status := (g_status g)[e := True], g_modifications := g_modifications g + 1,
       g_additions := g_modifications g + 1, g_history := g_history g @ [c]\<rparr>"
proof
  let ?c = "last (g_history h)"
  have h: "h = g\<lparr>g_status := (g_status g)[e := True], g_modifications := g_modifications g + 1,
       g_additions := g_modifications g + 1, g_history := g_history g @ [\<lparr>ec_addition = True, ec_deletion = False,
       ec_weight_increase = False, ec_weight_decrease = False, ec_id = e, ec_mod = g_modifications g + 1,
       ec_prev_mod = g_modifications g + 1\<rparr>]\<rparr>"
    using assms by (auto simp: enableEdge_from_def Let_def bind_eq_Some_conv)
  show "follows g [?c] h" "ec_addition ?c" "ec_id ?c = e" "ec_mod ?c = g_modifications h"
    "h = g\<lparr>g_status := (g_status g)[e := True], g_modifications := g_modifications g + 1,
       g_additions := g_modifications g + 1, g_history := g_history g @ [?c]\<rparr>"
    by (simp_all add: h follows_def same_edges_def)
qed

lemma disable_follows:
  assumes "disableEdge_from e g = Some h" "g_status g ! e"
  obtains c where "follows g [c] h" "ec_deletion c" "\<not> ec_addition c" "ec_id c = e" "ec_mod c = g_modifications h"
    "ec_prev_mod c = g_deletions g"
    "h = g\<lparr>g_status := (g_status g)[e := False], g_modifications := g_modifications g + 1,
       g_deletions := g_modifications g + 1, g_history := g_history g @ [c]\<rparr>"
proof
  let ?c = "last (g_history h)"
  have h: "h = g\<lparr>g_status := (g_status g)[e := False], g_modifications := g_modifications g + 1,
       g_deletions := g_modifications g + 1, g_history := g_history g @ [\<lparr>ec_addition = False, ec_deletion = True,
       ec_weight_increase = False, ec_weight_decrease = False, ec_id = e, ec_mod = g_modifications g + 1,
       ec_prev_mod = g_deletions g\<rparr>]\<rparr>"
    using assms by (auto simp: disableEdge_from_def Let_def bind_eq_Some_conv)
  show "follows g [?c] h" "ec_deletion ?c" "\<not> ec_addition ?c" "ec_id ?c = e" "ec_mod ?c = g_modifications h"
    "ec_prev_mod ?c = g_deletions g"
    "h = g\<lparr>g_status := (g_status g)[e := False], g_modifications := g_modifications g + 1,
       g_deletions := g_modifications g + 1, g_history := g_history g @ [?c]\<rparr>"
    by (simp_all add: h follows_def same_edges_def)
qed

lemma weight_follows:
  assumes "setEdgeWeight e w g = Some h" "w \<noteq> g_weights g ! e"
  obtains c where "follows g [c] h" "\<not> ec_addition c" "\<not> ec_deletion c" "ec_id c = e" "ec_mod c = g_modifications h"
    "g_weights h = (g_weights g)[e := w]"
proof
  let ?c = "last (g_history h)"
  have "follows g [?c] h \<and> \<not> ec_addition ?c \<and> \<not> ec_deletion ?c \<and> ec_id ?c = e \<and> ec_mod ?c = g_modifications h \<and>
    g_weights h = (g_weights g)[e := w]"
    using assms
    by (auto simp: setEdgeWeight_def getWeight_def get_at_Some Let_def bind_eq_Some_conv follows_def same_edges_def
        nth_list_update split: if_splits)
  then show "follows g [?c] h" "\<not> ec_addition ?c" "\<not> ec_deletion ?c" "ec_id ?c = e" "ec_mod ?c = g_modifications h"
    "g_weights h = (g_weights g)[e := w]" by blast+
qed

lemma setEdgeEnabled_same:
  assumes "setEdgeEnabled e b g = Some h" "g_status g ! e = b"
  shows "h = g"
  using assms by (cases b) (auto simp: setEdgeEnabled_def enableEdge_from_def disableEdge_from_def bind_eq_Some_conv)

lemma setEdgeEnabled_follows:
  assumes "setEdgeEnabled e b g = Some h"
  shows "\<exists>cs. follows g cs h"
proof (cases "g_status g ! e = b")
  case True
  then show ?thesis using setEdgeEnabled_same[OF assms] follows_refl by blast
next
  case False
  then show ?thesis
    using assms enable_follows[of e g h] disable_follows[of e g h] by (cases b) (auto simp: setEdgeEnabled_def)
qed

lemma setEdgeWeight_follows:
  assumes "setEdgeWeight e w g = Some h"
  shows "\<exists>cs. follows g cs h"
proof (cases "w = g_weights g ! e")
  case True
  then have "h = g" using assms by (auto simp: setEdgeWeight_def getWeight_def get_at_Some bind_eq_Some_conv)
  then show ?thesis using follows_refl by blast
next
  case False
  then show ?thesis using weight_follows[OF assms] by blast
qed

lemma edge_ops_follows: "edge_ops ops g = Some h \<Longrightarrow> \<exists>cs. follows g cs h"
proof (induction ops g rule: edge_ops.induct)
  case (1 g)
  then show ?case using follows_refl by auto
next
  case (2 e b ops g)
  then show ?case using setEdgeEnabled_follows follows_trans by (fastforce simp: bind_eq_Some_conv)
next
  case (3 e w ops g)
  then show ?case using setEdgeWeight_follows follows_trans by (fastforce simp: bind_eq_Some_conv)
qed

lemma edge_ops_ok: "edge_ops ops g = Some h \<Longrightarrow> graph_ok g \<Longrightarrow> graph_ok (h :: 'w::{one,linorder} dgraph)"
proof (induction ops g rule: edge_ops.induct)
  case (2 e b ops g)
  from 2(2) obtain y where y: "setEdgeEnabled e b g = Some y" "edge_ops ops y = Some h"
    by (auto simp: bind_eq_Some_conv)
  show ?case by (rule 2(1)[OF y graph_step_ok[OF graph_step.enabled[OF y(1)] 2(3)]])
next
  case (3 e w ops g)
  from 3(2) obtain y where y: "setEdgeWeight e w g = Some y" "edge_ops ops y = Some h"
    by (auto simp: bind_eq_Some_conv)
  show ?case by (rule 3(1)[OF y graph_step_ok[OF graph_step.weight[OF y(1)] 3(3)]])
qed auto

lemma follows_getChange:
  assumes "follows g cs h"
  shows "historySize h = historySize g + int (length cs)"
    "i < length cs \<Longrightarrow> getChange h (historySize g + int i) = Some (cs ! i)"
proof -
  show "historySize h = historySize g + int (length cs)" using assms by (simp add: follows_def historySize_def)
  assume i: "i < length cs"
  have e: "historySize g + int i - g_history_offset h = int (length (g_history g) + i)"
    using assms by (simp add: follows_def historySize_def)
  have l: "length (g_history h) = length (g_history g) + length cs" "g_history h ! (length (g_history g) + i) = cs ! i"
    using assms i by (auto simp: follows_def)
  show "getChange h (historySize g + int i) = Some (cs ! i)"
    unfolding getChange_def e nat_int l using i by simp
qed

subsection \<open>Undoing changes\<close>

lemma undo_disable_exact:
  assumes "graph_ok g" "isEdge g e" "g_status g ! e" "disableEdge_from e g = Some h"
  shows "undoDisableEdge e (h\<lparr>g_additions := a\<rparr>) = Some (True, g\<lparr>g_additions := a\<rparr>)"
proof -
  note b = isEdge_bounds[OF assms(1,2)]
  have st: "(g_status g)[e := True] = g_status g" using assms(3) list_update_id by metis
  obtain c where c: "\<not> ec_addition c" "ec_id c = e" "ec_mod c = g_modifications h" "ec_prev_mod c = g_deletions g"
    "h = g\<lparr>g_status := (g_status g)[e := False], g_modifications := g_modifications g + 1,
       g_deletions := g_modifications g + 1, g_history := g_history g @ [c]\<rparr>"
    using disable_follows[OF assms(4,3)] by metis
  then have "isEdge h e" using assms(2) by (simp add: isEdge_def)
  then have "isEdge (h\<lparr>g_additions := a\<rparr>) e" by (simp add: isEdge_def)
  then show ?thesis using b c st by (simp add: undoDisableEdge_def)
qed

lemma undo_enable_exact:
  assumes "graph_ok g" "isEdge g e" "\<not> g_status g ! e" "enableEdge_from e g = Some h"
  shows "undoEnableEdge e (h\<lparr>g_additions := a\<rparr>) = Some (True, g\<lparr>g_additions := g_modifications g + 1\<rparr>)"
proof -
  note b = isEdge_bounds[OF assms(1,2)]
  have st: "(g_status g)[e := False] = g_status g" using assms(3) list_update_id by metis
  have h: "h = g\<lparr>g_status := (g_status g)[e := True], g_modifications := g_modifications g + 1,
       g_additions := g_modifications g + 1, g_history := g_history g @ [\<lparr>ec_addition = True, ec_deletion = False,
       ec_weight_increase = False, ec_weight_decrease = False, ec_id = e, ec_mod = g_modifications g + 1,
       ec_prev_mod = g_modifications g + 1\<rparr>]\<rparr>"
    using assms(3,4) by (auto simp: enableEdge_from_def Let_def bind_eq_Some_conv)
  have "isEdge (h\<lparr>g_additions := a\<rparr>) e" using assms(2) by (simp add: h isEdge_def)
  then show ?thesis using b st by (simp add: undoEnableEdge_def h)
qed

lemma rewind_status_ops:
  assumes "graph_ok (g :: 'w::{one,linorder} dgraph)" "edge_ops (map (\<lambda>(e, b). Set_enabled e b) bs) g = Some h" "follows g cs h"
  shows "\<exists>a'. rewind_loop (length cs) (h\<lparr>g_additions := a\<rparr>) = Some (True, g\<lparr>g_additions := a'\<rparr>)"
  using assms(2,3)
proof (induction bs arbitrary: h cs a rule: rev_induct)
  case Nil
  then have "cs = []" "h = g" by (auto simp: follows_def)
  then show ?case by auto
next
  case (snoc p bs)
  obtain e b where p: "p = (e, b)" by (cases p)
  obtain k where k: "edge_ops (map (\<lambda>(e, b). Set_enabled e b) bs) g = Some k" "setEdgeEnabled e b k = Some h"
    using snoc.prems(1) by (auto simp: p edge_ops_append bind_eq_Some_conv)
  obtain ds where ds: "follows g ds k" using edge_ops_follows[OF k(1)] by blast
  have ok: "graph_ok k" by (rule edge_ops_ok[OF k(1) assms(1)])
  have cs: "g_history h = g_history g @ cs" using snoc.prems(2) by (simp add: follows_def)
  have dk: "g_history k = g_history g @ ds" using ds by (simp add: follows_def)
  show ?case
  proof (cases "g_status k ! e = b")
    case True
    have "h = k" by (rule setEdgeEnabled_same[OF k(2) True])
    moreover have "cs = ds" using cs dk calculation by simp
    ultimately show ?thesis using snoc.IH[OF k(1) ds] by simp
  next
    case changed: False
    show ?thesis
    proof (cases b)
      case True
      have en: "enableEdge_from e k = Some h" and off: "\<not> g_status k ! e"
        using k(2) changed True by (simp_all add: setEdgeEnabled_def)
      obtain c where c: "ec_addition c" "ec_id c = e"
        "h = k\<lparr>g_status := (g_status k)[e := True], g_modifications := g_modifications k + 1,
           g_additions := g_modifications k + 1, g_history := g_history k @ [c]\<rparr>"
        using enable_follows[OF en off] by metis
      then have l: "g_history (h\<lparr>g_additions := a\<rparr>) = g_history k @ [c]" and "cs = ds @ [c]"
        using cs dk by simp_all
      moreover have "undoEnableEdge e (h\<lparr>g_additions := a\<rparr>) = Some (True, k\<lparr>g_additions := g_modifications k + 1\<rparr>)"
        by (rule undo_enable_exact[OF ok enableEdge_isEdge[OF en] off en])
      ultimately show ?thesis using c(1,2) snoc.IH[OF k(1) ds, of "g_modifications k + 1"] by simp
    next
      case False
      have di: "disableEdge_from e k = Some h" and on: "g_status k ! e"
        using k(2) changed False by (simp_all add: setEdgeEnabled_def)
      obtain c where c: "ec_deletion c" "\<not> ec_addition c" "ec_id c = e"
        "h = k\<lparr>g_status := (g_status k)[e := False], g_modifications := g_modifications k + 1,
           g_deletions := g_modifications k + 1, g_history := g_history k @ [c]\<rparr>"
        using disable_follows[OF di on] by metis
      then have l: "g_history (h\<lparr>g_additions := a\<rparr>) = g_history k @ [c]" and "cs = ds @ [c]"
        using cs dk by simp_all
      moreover have "undoDisableEdge e (h\<lparr>g_additions := a\<rparr>) = Some (True, k\<lparr>g_additions := a\<rparr>)"
        by (rule undo_disable_exact[OF ok disableEdge_isEdge[OF di] on di])
      ultimately show ?thesis using c(1-3) snoc.IH[OF k(1) ds, of a] by simp
    qed
  qed
qed

lemma setEdgeEnabled_returns:
  assumes "graph_ok g" "isEdge g e"
  shows "\<exists>h. setEdgeEnabled e b g = Some h \<and> edgeEnabled h e = Some b"
proof (cases b)
  case True
  obtain h where "enableEdge_from e g = Some h" "g_status h = (g_status g)[e := True]"
    using enableEdge_ok[OF assms] by blast
  then show ?thesis using True isEdge_bounds(1)[OF assms] by (simp add: setEdgeEnabled_def edgeEnabled_def)
next
  case False
  obtain h where "disableEdge_from e g = Some h" "g_status h = (g_status g)[e := False]"
    using disableEdge_ok[OF assms] by blast
  then show ?thesis using False isEdge_bounds(1)[OF assms] by (simp add: setEdgeEnabled_def edgeEnabled_def)
qed

lemma setEdgeWeight_returns:
  assumes "graph_ok g" "isEdge g e"
  shows "\<exists>h. setEdgeWeight e w g = Some h \<and> getWeight h e = Some w"
proof -
  obtain h where "setEdgeWeight e w g = Some h" "g_weights h = (g_weights g)[e := w]"
    using setEdgeWeight_ok[OF assms] by blast
  then show ?thesis using isEdge_bounds(2)[OF assms] by (simp add: getWeight_def)
qed

subsection \<open>Properties\<close>

text \<open>A graph with two nodes, an edge between them and a loop.\<close>

definition demo_graph :: "nat dgraph" where
  "demo_graph = snd (the (addEdge 1 1 (Some 4) 7 (snd (the (addEdge 0 1 None 5 (addNodes 2 new_graph))))))"

lemma demo_graph_ok: "graph_reachable demo_graph"
proof -
  let ?n = "addNodes 2 (new_graph :: nat dgraph)"
  have n: "?n = snd (addNode (snd (addNode new_graph)))" by (simp add: numeral_2_eq_2)
  have "graph_reachable ?n" unfolding n
    by (intro graph_reachable.step[OF _ graph_step.node] graph_reachable.start)
  moreover have "addEdge 0 1 None 5 ?n = Some (0, snd (the (addEdge 0 1 None 5 ?n)))" by code_simp
  ultimately have a: "graph_reachable (snd (the (addEdge 0 1 None 5 ?n)))"
    using graph_reachable.step graph_step.edge[where id_arg = None] by blast
  have "addEdge 1 1 (Some 4) 7 (snd (the (addEdge 0 1 None 5 ?n))) = Some (4, demo_graph)" by code_simp
  moreover have "\<not> isEdge (snd (the (addEdge 0 1 None 5 ?n))) 4" by code_simp
  ultimately show ?thesis using graph_reachable.step[OF a graph_step.edge[where id_arg = "Some 4"]] by simp
qed



text \<open>The queries on a consistent graph. \<open>hasEdge\<close> and \<open>hasEdgeUndirected\<close> say whether an enabled edge joins the
  nodes, \<open>getEdge\<close> returns the id of one or -1; \<open>incident\<close> and \<open>incoming\<close> enumerate the edges out of and into
  a node, enabled or not, each once, and \<open>nIncident\<close> and \<open>nIncoming\<close> count them.\<close>

theorem graph_queries:
  assumes "graph_ok g" "u < g_num_nodes g"
  shows "hasEdge_between g u v = Some (\<exists>e. joins g u v e \<and> g_status g ! e) \<and>
    hasEdgeUndirected g u v = Some (\<exists>e. (joins g u v e \<or> joins g v u e) \<and> g_status g ! e) \<and>
    (\<exists>r. getEdge_between g u v = Some r \<and>
       (if \<exists>e. joins g u v e \<and> g_status g ! e then \<exists>e. r = int e \<and> joins g u v e \<and> g_status g ! e else r = - 1)) \<and>
    nIncident g u False = Some (card {(x, e). joins g u x e}) \<and> nIncoming g u False = Some (card {(x, e). joins g x u e}) \<and>
    (\<forall>x e. joins g u x e \<longleftrightarrow> (\<exists>i. incident g u i False = Some (x, e))) \<and>
    (\<forall>x e. joins g x u e \<longleftrightarrow> (\<exists>i. incoming g u i False = Some (x, e)))"
proof (intro conjI allI)
  note j = adj_joins[OF assms]
  have b: "\<forall>(n, e) \<in> set (g_adj g ! u). e < length (g_status g)" "\<forall>(n, e) \<in> set (g_und_adj g ! u). e < length (g_status g)"
    using j(4,6) joins_status[OF assms(1)] by blast+
  obtain r where r: "find_enabled g v (g_adj g ! u) = Some r"
    "if \<exists>e. joins g u v e \<and> g_status g ! e then \<exists>e. r = int e \<and> joins g u v e \<and> g_status g ! e else r = - 1"
    using find_enabled_spec[OF b(1), of v] unfolding j(4) by blast
  show "hasEdge_between g u v = Some (\<exists>e. joins g u v e \<and> g_status g ! e)"
    using r j(1) by (auto simp: hasEdge_between_def split: if_splits)
  show "\<exists>r. getEdge_between g u v = Some r \<and>
      (if \<exists>e. joins g u v e \<and> g_status g ! e then \<exists>e. r = int e \<and> joins g u v e \<and> g_status g ! e else r = - 1)"
    using r j(1) by (simp add: getEdge_between_def)
  obtain q where q: "find_enabled g v (g_und_adj g ! u) = Some q"
    "if \<exists>e. (joins g u v e \<or> joins g v u e) \<and> g_status g ! e
     then \<exists>e. q = int e \<and> (joins g u v e \<or> joins g v u e) \<and> g_status g ! e else q = - 1"
    using find_enabled_spec[OF b(2), of v] unfolding j(6) by blast
  show "hasEdgeUndirected g u v = Some (\<exists>e. (joins g u v e \<or> joins g v u e) \<and> g_status g ! e)"
    using q j(2) by (auto simp: hasEdgeUndirected_def split: if_splits)
  have d: "distinct (g_adj g ! u)" "distinct (g_inv_adj g ! u)" using assms by (auto simp: graph_ok_def adj_ok_def)
  have s: "set (g_adj g ! u) = {(x, e). joins g u x e}" "set (g_inv_adj g ! u) = {(x, e). joins g x u e}"
    using j(4,5) by auto
  have n: "nIncident g u False = Some (length (g_adj g ! u))" "nIncoming g u False = Some (length (g_inv_adj g ! u))"
    using assms(2) j(1,3) by (simp_all add: nIncident_def nIncoming_def)
  show "nIncident g u False = Some (card {(x, e). joins g u x e})" "nIncoming g u False = Some (card {(x, e). joins g x u e})"
    using n d by (simp_all add: s[symmetric] distinct_card)
  have i: "incident g u i False = (if i < length (g_adj g ! u) then Some (g_adj g ! u ! i) else None)"
    "incoming g u i False = (if i < length (g_inv_adj g ! u) then Some (g_inv_adj g ! u ! i) else None)" for i
    using assms(2) j(1,3) n by (auto simp: incident_def incoming_def)
  show "joins g u x e \<longleftrightarrow> (\<exists>i. incident g u i False = Some (x, e))"
    "joins g x u e \<longleftrightarrow> (\<exists>i. incoming g u i False = Some (x, e))" for x e
    unfolding j(4,5)[symmetric] i by (auto simp: in_set_conv_nth)
qed

lemma graph_queries_witness:
  "hasEdge_between demo_graph 0 1 = Some (\<exists>e. joins demo_graph 0 1 e \<and> g_status demo_graph ! e) \<and>
   nIncoming demo_graph 1 False = Some (card {(x, e). joins demo_graph x 1 e})"
proof -
  have "(0 :: nat) < g_num_nodes demo_graph" "(1 :: nat) < g_num_nodes demo_graph" by code_simp+
  then show ?thesis
    using graph_queries[OF reachable_graph_ok[OF demo_graph_ok], of 0 1]
      graph_queries[OF reachable_graph_ok[OF demo_graph_ok], of 1 1] by blast
qed

text \<open>C38: an algorithm that has seen the edges up to some position of the history and then reads the entries from there
  on gets, in order, one entry for every change made since, numbered by consecutive modifications. Replaying them
  on the statuses it knew gives the present statuses, every edge whose weight differs has an entry that says so,
  and the counters of additions and deletions are untouched unless an entry records one.\<close>

theorem history_replay:
  fixes g :: "'w::{one,linorder} dgraph"
  assumes "graph_ok g" "edge_ops ops g = Some h"
  shows "graph_ok h \<and> (\<exists>cs. follows g cs h \<and> historySize h = historySize g + int (length cs) \<and>
    (\<forall>i < length cs. getChange h (historySize g + int i) = Some (cs ! i)))"
  using edge_ops_follows[OF assms(2)] edge_ops_ok[OF assms(2,1)] follows_getChange by blast

lemma history_replay_witness:
  "\<exists>h cs. edge_ops [Set_enabled 4 False, Set_weight 0 6, Set_enabled 4 True] demo_graph = Some h \<and> follows demo_graph cs h"
proof -
  have "edge_ops [Set_enabled 4 False, Set_weight 0 6, Set_enabled 4 True] demo_graph \<noteq> None" by code_simp
  then obtain h where "edge_ops [Set_enabled 4 False, Set_weight 0 6, Set_enabled 4 True] demo_graph = Some h" by blast
  then show ?thesis using history_replay[OF reachable_graph_ok[OF demo_graph_ok]] by blast
qed

text \<open>C39: undoing. Undoing a disabling restores the graph exactly. Undoing an enabling restores everything except the
  counter of additions, which stays at the undone modification's number because the entry saves the counter after it
  has been moved. Rewinding as many steps as a series of enablings and disablings has recorded succeeds and restores
  everything else.\<close>

theorem undo_restores:
  fixes g :: "'w::{one,linorder} dgraph"
  assumes "graph_ok g"
  shows "(\<forall>e. isEdge g e \<and> g_status g ! e \<longrightarrow> Option.bind (disableEdge_from e g) (undoDisableEdge e) = Some (True, g)) \<and>
    (\<forall>e. isEdge g e \<and> \<not> g_status g ! e \<longrightarrow>
       Option.bind (enableEdge_from e g) (undoEnableEdge e) = Some (True, g\<lparr>g_additions := g_modifications g + 1\<rparr>)) \<and>
    (\<forall>bs h. edge_ops (map (\<lambda>(e, b). Set_enabled e b) bs) g = Some h \<longrightarrow>
       (\<exists>a. rewindHistory (length (g_history h) - length (g_history g)) h = Some (True, g\<lparr>g_additions := a\<rparr>)))"
proof (intro conjI allI impI; (elim conjE)?)
  fix e assume e: "isEdge g e"
  show "Option.bind (disableEdge_from e g) (undoDisableEdge e) = Some (True, g)" if on: "g_status g ! e"
  proof -
    obtain h where h: "disableEdge_from e g = Some h" using disableEdge_ok[OF assms e] by blast
    have "g_additions h = g_additions g"
    proof (rule disable_follows[OF h on])
      show "g_additions h = g_additions g" if "follows g [c] h" "\<not> ec_addition c" for c
        using that by (simp add: follows_def)
    qed
    moreover have "undoDisableEdge e h = Some (True, g\<lparr>g_additions := g_additions h\<rparr>)"
      using undo_disable_exact[OF assms e on h, of "g_additions h"] by simp
    ultimately show ?thesis using h by simp
  qed
  show "Option.bind (enableEdge_from e g) (undoEnableEdge e) = Some (True, g\<lparr>g_additions := g_modifications g + 1\<rparr>)"
    if off: "\<not> g_status g ! e"
  proof -
    obtain h where h: "enableEdge_from e g = Some h" using enableEdge_ok[OF assms e] by blast
    then show ?thesis using undo_enable_exact[OF assms e off h, of "g_additions h"] by simp
  qed
next
  fix bs and h :: "'w dgraph"
  assume h: "edge_ops (map (\<lambda>(e, b). Set_enabled e b) bs) g = Some h"
  obtain cs where cs: "follows g cs h" using edge_ops_follows[OF h] by blast
  obtain a where a: "rewind_loop (length cs) h = Some (True, g\<lparr>g_additions := a\<rparr>)"
    using rewind_status_ops[OF assms h cs, of "g_additions h"] by auto
  have "length (g_history h) - length (g_history g) = length cs" "g_modifications h = g_modifications g + int (length cs)"
    using cs by (simp_all add: follows_def)
  then show "\<exists>a. rewindHistory (length (g_history h) - length (g_history g)) h = Some (True, g\<lparr>g_additions := a\<rparr>)"
    using a by (auto simp: rewindHistory_def)
qed

lemma undo_restores_witness:
  "\<exists>h a. edge_ops [Set_enabled 4 False, Set_enabled 0 False, Set_enabled 4 True] demo_graph = Some h \<and>
     rewindHistory (length (g_history h) - length (g_history demo_graph)) h = Some (True, demo_graph\<lparr>g_additions := a\<rparr>)"
proof -
  have "edge_ops (map (\<lambda>(e, b). Set_enabled e b) [(4, False), (0, False), (4, True)]) demo_graph \<noteq> None" by code_simp
  then obtain h where h: "edge_ops (map (\<lambda>(e, b). Set_enabled e b) [(4, False), (0, False), (4, True)]) demo_graph = Some h"
    by blast
  then show ?thesis
    using undo_restores[OF reachable_graph_ok[OF demo_graph_ok], THEN conjunct2, THEN conjunct2, THEN spec, THEN spec, THEN mp, OF h]
    by auto
qed

text \<open>What undoing, clearing and copying miss. After the weight of a disabled edge has changed, \<open>undoDisableEdge\<close> takes
  the entry for a disabling, reports success, enables the edge and leaves the weight; \<open>rewindHistory\<close> by that step
  ends in its failed assertion. \<open>clear\<close> keeps the marks of constant edges for the ids it frees, and a copy has
  neither the weights nor the marks.\<close>

theorem weight_change_undo:
  assumes "graph_ok g" "isEdge g e" "\<not> g_status g ! e" "w \<noteq> g_weights g ! e" "setEdgeWeight e w g = Some h"
  shows "rewindHistory 1 h = None \<and>
    (\<exists>k. undoDisableEdge e h = Some (True, k) \<and> edgeEnabled k e = Some True \<and> getWeight k e = Some w) \<and>
    isConstant (graph_clear g) e = isConstant g e \<and>
    getWeight (graph_copyTo g new_graph) e = None \<and> isConstant (graph_copyTo g new_graph) e = None"
proof (intro conjI)
  obtain c where c: "follows g [c] h" "\<not> ec_addition c" "\<not> ec_deletion c" "ec_id c = e" "ec_mod c = g_modifications h"
    "g_weights h = (g_weights g)[e := w]"
    using weight_follows[OF assms(5,4)] by metis
  note b = isEdge_bounds[OF assms(1,2)]
  have l: "g_history h = g_history g @ [c]" "same_edges g h" using c(1) by (auto simp: follows_def)
  show "rewindHistory 1 h = None" using c(2,3) l by (simp add: rewindHistory_def)
  have "isEdge h e" "e < length (g_status h)" "e < length (g_weights h)"
    using same_edges_isEdge[OF l(2)] assms(2) l(2) b by (simp_all add: same_edges_def)
  then show "\<exists>k. undoDisableEdge e h = Some (True, k) \<and> edgeEnabled k e = Some True \<and> getWeight k e = Some w"
    using c l b by (simp add: undoDisableEdge_def edgeEnabled_def getWeight_def)
  show "isConstant (graph_clear g) e = isConstant g e"
    by (simp add: isConstant_def graph_clear_def forced_clear_def clearHistory_def full_clear_def invalidate_def)
  show "getWeight (graph_copyTo g new_graph) e = None" "isConstant (graph_copyTo g new_graph) e = None"
    by (simp_all add: getWeight_def isConstant_def graph_copyTo_def graph_clear_def forced_clear_def clearHistory_def
        full_clear_def invalidate_def new_graph_def)
qed

lemma weight_change_undo_witness:
  "\<exists>g h. setEdgeEnabled 4 False demo_graph = Some g \<and> setEdgeWeight 4 8 g = Some h \<and> rewindHistory 1 h = None"
proof -
  let ?g = "the (setEdgeEnabled 4 False demo_graph)"
  let ?h = "the (setEdgeWeight 4 8 ?g)"
  have g: "setEdgeEnabled 4 False demo_graph = Some ?g" by code_simp
  have h: "setEdgeWeight 4 8 ?g = Some ?h" by code_simp
  have "graph_ok ?g" by (rule graph_step_ok[OF graph_step.enabled[OF g] reachable_graph_ok[OF demo_graph_ok]])
  moreover have "isEdge ?g 4" "\<not> g_status ?g ! 4" "8 \<noteq> g_weights ?g ! 4" by code_simp+
  ultimately have "rewindHistory 1 ?h = None" using weight_change_undo[OF _ _ _ _ h] by blast
  then show ?thesis using g h by blast
qed

end
