(* ===== verification/Dfs.thy ===== *)
theory Dfs
  imports Graph_Theorems
begin

text \<open>
  \<open>dgl/DFS.h\<close>: the nodes reachable from a source over enabled edges, kept up to date under changes of the
  graph.  The template argument \<open>undirected\<close> is a field of the state, the calls of \<open>status.setReachable\<close> are
  recorded in order in \<open>d_reports\<close>, and the scratch vectors \<open>q\<close> and \<open>check\<close>, cleared before every use, are
  arguments of the loops.  \<open>q\<close> is a stack: it is pushed to and popped from its end.
\<close>

subsection \<open>State\<close>

record dfs =
  d_source :: nat
  d_last_modification :: int
  d_last_addition :: int
  d_last_deletion :: int
  d_history_qhead :: int
  d_last_history_clear :: int
  d_INF :: nat
  d_skip_deletions :: bool
  d_skip_additions :: bool
  d_inc_graph :: bool
  d_dec_graph :: int
  d_polarity :: int
  d_undirected :: bool
  d_seen :: "bool list"
  d_prev :: "int list"
  d_full_updates :: nat
  d_fast_updates :: nat
  d_fast_failed_updates :: nat
  d_skipped_updates :: nat
  d_skipable_deletions :: nat
  d_num_updates :: nat
  d_reports :: "(nat \<times> bool) list"

definition new_dfs :: "nat \<Rightarrow> int \<Rightarrow> bool \<Rightarrow> dfs" where
  "new_dfs s polarity undirected = \<lparr>d_source = s, d_last_modification = - 1, d_last_addition = - 1,
     d_last_deletion = - 1, d_history_qhead = 0, d_last_history_clear = 0, d_INF = 0, d_skip_deletions = False,
     d_skip_additions = False, d_inc_graph = False, d_dec_graph = 0, d_polarity = polarity,
     d_undirected = undirected, d_seen = [], d_prev = [], d_full_updates = 0, d_fast_updates = 0,
     d_fast_failed_updates = 0, d_skipped_updates = 0, d_skipable_deletions = 0, d_num_updates = 0, d_reports = []\<rparr>"

definition setSource :: "nat \<Rightarrow> dfs \<Rightarrow> dfs" where
  "setSource s d = d\<lparr>d_source := s, d_last_modification := - 1, d_last_addition := - 1, d_last_deletion := - 1\<rparr>"

text \<open>Vectors indexed by a C++ integer.\<close>

definition int_get :: "'a list \<Rightarrow> int \<Rightarrow> 'a option" where
  "int_get xs i = (if i < 0 then None else get_at xs (nat i))"

definition int_set :: "'a list \<Rightarrow> int \<Rightarrow> 'a \<Rightarrow> 'a list option" where
  "int_set xs i v = (if i < 0 then None else set_at xs (nat i) v)"

definition setNodes :: "'w dgraph \<Rightarrow> nat \<Rightarrow> dfs \<Rightarrow> dfs" where
  "setNodes g n d = d\<lparr>d_seen := resize_to n False (d_seen d), d_prev := resize_to n 0 (d_prev d), d_INF := g_num_nodes g + 1\<rparr>"

definition incomingEdge :: "dfs \<Rightarrow> int \<Rightarrow> int option" where
  "incomingEdge d t = do { p \<leftarrow> int_get (d_prev d) t; check (p \<ge> - 1); Some p }"

definition previous :: "'w dgraph \<Rightarrow> dfs \<Rightarrow> int \<Rightarrow> int option" where
  "previous g d t = do {
     p \<leftarrow> int_get (d_prev d) t;
     if p < 0 then Some (- 1)
     else do {
       e \<leftarrow> incomingEdge d t;
       fe \<leftarrow> int_get (g_all_edges g) e;
       if d_undirected d \<and> fe_from fe = t then Some (fe_to fe)
       else do { check (fe_to fe = t); Some (fe_from fe) } } }"

definition mark :: "int \<Rightarrow> int \<Rightarrow> dfs \<Rightarrow> dfs option" where
  "mark v e d = do {
     s \<leftarrow> int_set (d_seen d) v True;
     p \<leftarrow> int_set (d_prev d) v e;
     Some (d\<lparr>d_seen := s, d_prev := p\<rparr>) }"

definition unmark_node :: "int \<Rightarrow> dfs \<Rightarrow> dfs option" where
  "unmark_node v d = do {
     s \<leftarrow> int_set (d_seen d) v False;
     p \<leftarrow> int_set (d_prev d) v (- 1);
     Some (d\<lparr>d_seen := s, d_prev := p\<rparr>) }"

definition report :: "nat \<Rightarrow> bool \<Rightarrow> dfs \<Rightarrow> dfs" where
  "report u b d = d\<lparr>d_reports := d_reports d @ [(u, b)]\<rparr>"

subsection \<open>Searching forward\<close>

text \<open>The edges out of \<open>u\<close> with the given indices: unseen ends of enabled edges are marked and pushed.\<close>

fun visit :: "'w dgraph \<Rightarrow> nat \<Rightarrow> nat list \<Rightarrow> nat list \<Rightarrow> dfs \<Rightarrow> (nat list \<times> dfs) option" where
  "visit g u [] q d = Some (q, d)"
| "visit g u (i # is) q d = do {
     (v, e) \<leftarrow> incident g u i (d_undirected d);
     b \<leftarrow> edgeEnabled g e;
     if \<not> b then visit g u is q d
     else do {
       s \<leftarrow> get_at (d_seen d) v;
       if s then visit g u is q d
       else do { d \<leftarrow> mark (int v) (int e) d; visit g u is (q @ [v]) d } } }"

definition unseen :: "dfs \<Rightarrow> nat" where
  "unseen d = length (filter Not (d_seen d))"

lemma mark_unseen:
  assumes "mark (int v) e d = Some d'" "get_at (d_seen d) v = Some False"
  shows "unseen d = Suc (unseen d')" "v < length (d_seen d)" "v < length (d_prev d)"
    "d' = d\<lparr>d_seen := (d_seen d)[v := True], d_prev := (d_prev d)[v := e]\<rparr>"
  using assms card_filter_update[of v "d_seen d" Not True]
  by (auto simp: mark_def int_set_def set_at_Some get_at_Some unseen_def bind_eq_Some_conv)

lemma visit_unseen: "visit g u is q d = Some (q', d') \<Longrightarrow> unseen d' + length q' = unseen d + length q"
proof (induction g u "is" q d rule: visit.induct)
  case (2 g u i "is" q d)
  obtain v e b s where ve: "incident g u i (d_undirected d) = Some (v, e)" "edgeEnabled g e = Some b"
    "b \<Longrightarrow> get_at (d_seen d) v = Some s"
    using 2(4) by (fastforce simp: bind_eq_Some_conv split: if_splits)
  show ?case
  proof (cases "b \<and> \<not> s")
    case True
    then obtain d1 where d1: "mark (int v) (int e) d = Some d1" "visit g u is (q @ [v]) d1 = Some (q', d')"
      using 2(4) ve by (auto simp: bind_eq_Some_conv)
    have "unseen d' + length q' = unseen d1 + length (q @ [v])"
      using 2(3)[OF ve(1) refl ve(2) _ ve(3) _ d1(1,2)] True by simp
    then show ?thesis using mark_unseen(1)[OF d1(1)] ve(3) True by simp
  next
    case False
    then have "visit g u is q d = Some (q', d')" using 2(4) ve by (auto split: if_splits)
    then show ?thesis using 2(1)[OF ve(1) refl ve(2)] 2(2)[OF ve(1) refl ve(2) _ ve(3)] False by (cases b) auto
  qed
qed simp

text \<open>The loop of \<open>add_update\<close> and of the full search.\<close>

function search :: "bool \<Rightarrow> 'w dgraph \<Rightarrow> nat list \<Rightarrow> dfs \<Rightarrow> dfs option" where
  "search rep g q d =
     (if q = [] then Some d
      else do {
        s \<leftarrow> get_at (d_seen d) (last q);
        check s;
        k \<leftarrow> nIncident g (last q) (d_undirected d);
        (q', d') \<leftarrow> visit g (last q) [0..<k] (butlast q) (if rep then report (last q) True d else d);
        search rep g q' d' })"
  by auto
termination
proof (relation "measure (\<lambda>(rep, g, q, d). unseen d + length q)")
  fix rep g q and d :: dfs and s x k q' d' y
  assume "q \<noteq> []" "visit g (last q) [0..<k] (butlast q) (if rep then report (last q) True d else d) = Some y" "(q', d') = y"
  then have "unseen d' + length q' = unseen (if rep then report (last q) True d else d) + length (butlast q)"
    using visit_unseen by metis
  moreover have "unseen (if rep then report (last q) True d else d) = unseen d" by (simp add: unseen_def report_def)
  ultimately show "((rep, g, q', d'), rep, g, q, d) \<in> measure (\<lambda>(rep, g, q, d). unseen d + length q)"
    using \<open>q \<noteq> []\<close> by (cases q) auto
qed simp

declare search.simps [simp del]

definition add_update :: "'w dgraph \<Rightarrow> int \<Rightarrow> bool \<Rightarrow> dfs \<Rightarrow> dfs option" where
  "add_update g to update d = (if to < 0 then None else search update g [nat to] d)"

subsection \<open>Deleting an edge\<close>

text \<open>\<open>delete_update\<close>: the nodes that were reached through \<open>to\<close> are unmarked and remembered in \<open>check\<close>, then
  each of them is reached again from a marked node if an enabled edge leads to it from one.\<close>

fun unmark_children :: "'w dgraph \<Rightarrow> nat \<Rightarrow> nat list \<Rightarrow> nat list \<Rightarrow> nat list \<Rightarrow> dfs \<Rightarrow> (nat list \<times> nat list \<times> dfs) option" where
  "unmark_children g u [] q chk d = Some (q, chk, d)"
| "unmark_children g u (i # is) q chk d = do {
     (v, e) \<leftarrow> incident g u i (d_undirected d);
     s \<leftarrow> get_at (d_seen d) v;
     p \<leftarrow> (if s then previous g d (int v) else Some (- 1));
     if s \<and> p = int u then do { d \<leftarrow> unmark_node (int v) d; unmark_children g u is (q @ [v]) (chk @ [v]) d }
     else unmark_children g u is q chk d }"

definition seen_count :: "dfs \<Rightarrow> nat" where
  "seen_count d = length (filter (\<lambda>s. s) (d_seen d))"

lemma unmark_seen:
  assumes "unmark_node (int v) d = Some d'" "get_at (d_seen d) v = Some True"
  shows "seen_count d = Suc (seen_count d')"
  using assms card_filter_update[of v "d_seen d" "\<lambda>s. s" False]
  by (auto simp: unmark_node_def int_set_def set_at_Some get_at_Some seen_count_def bind_eq_Some_conv)

lemma unmark_children_count:
  "unmark_children g u is q chk d = Some (q', chk', d') \<Longrightarrow> seen_count d' + length q' = seen_count d + length q"
proof (induction g u "is" q chk d rule: unmark_children.induct)
  case (2 g u i "is" q chk d)
  obtain v e s p where ve: "incident g u i (d_undirected d) = Some (v, e)" "get_at (d_seen d) v = Some s"
    "(if s then previous g d (int v) else Some (- 1)) = Some p"
    using 2(3) by (fastforce simp: bind_eq_Some_conv)
  show ?case
  proof (cases "s \<and> p = int u")
    case True
    then obtain d1 where d1: "unmark_node (int v) d = Some d1" "unmark_children g u is (q @ [v]) (chk @ [v]) d1 = Some (q', chk', d')"
      using 2(3) ve by (auto simp: bind_eq_Some_conv)
    have "seen_count d' + length q' = seen_count d1 + length (q @ [v])"
      using 2(1)[OF ve(1) refl ve(2,3) True d1] by simp
    then show ?thesis using unmark_seen[OF d1(1)] ve(2) True by simp
  next
    case False
    then have "unmark_children g u is q chk d = Some (q', chk', d')" using 2(3) ve by (auto split: if_splits)
    then show ?thesis using 2(2)[OF ve(1) refl ve(2,3) False] by simp
  qed
qed simp

function unmark_below :: "'w dgraph \<Rightarrow> nat list \<Rightarrow> nat list \<Rightarrow> dfs \<Rightarrow> (nat list \<times> dfs) option" where
  "unmark_below g q chk d =
     (if q = [] then Some (chk, d)
      else do {
        s \<leftarrow> get_at (d_seen d) (last q);
        check (\<not> s);
        k \<leftarrow> nIncident g (last q) (d_undirected d);
        (q', chk', d') \<leftarrow> unmark_children g (last q) [0..<k] (butlast q) chk d;
        unmark_below g q' chk' d' })"
  by auto
termination
proof (relation "measure (\<lambda>(g, q, chk, d). seen_count d + length q)")
  fix g q chk and d :: dfs and s x k q' chk' d' y z
  assume "q \<noteq> []" "unmark_children g (last q) [0..<k] (butlast q) chk d = Some y" "(q', z) = y" "(chk', d') = z"
  then have "seen_count d' + length q' = seen_count d + length (butlast q)"
    using unmark_children_count by metis
  then show "((g, q', chk', d'), g, q, chk, d) \<in> measure (\<lambda>(g, q, chk, d). seen_count d + length q)"
    using \<open>q \<noteq> []\<close> by (cases q) auto
qed simp

declare unmark_below.simps [simp del]

fun reach_again :: "'w dgraph \<Rightarrow> nat \<Rightarrow> nat list \<Rightarrow> dfs \<Rightarrow> dfs option" where
  "reach_again g u [] d = Some d"
| "reach_again g u (i # is) d = do {
     (from, e) \<leftarrow> incoming g u i (d_undirected d);
     b \<leftarrow> edgeEnabled g e;
     s \<leftarrow> (if b then get_at (d_seen d) from else Some False);
     if s then do { d \<leftarrow> mark (int u) (int e) d; add_update g (int u) False d }
     else reach_again g u is d }"

fun recheck :: "'w dgraph \<Rightarrow> nat list \<Rightarrow> dfs \<Rightarrow> dfs option" where
  "recheck g [] d = Some d"
| "recheck g (u # us) d = do {
     s \<leftarrow> get_at (d_seen d) u;
     d \<leftarrow> (if s then Some d else do { k \<leftarrow> nIncoming g u (d_undirected d); reach_again g u [0..<k] d });
     recheck g us d }"

definition delete_update :: "'w dgraph \<Rightarrow> int \<Rightarrow> dfs \<Rightarrow> dfs option" where
  "delete_update g to d = do {
     d \<leftarrow> unmark_node to d;
     (chk, d) \<leftarrow> unmark_below g [nat to] [nat to] d;
     recheck g chk d }"

subsection \<open>Reading the history\<close>

text \<open>\<open>seen[x] && seen[previous(y)] && previous(y) != z\<close> with the code's order of evaluation.\<close>

definition kept_by :: "'w dgraph \<Rightarrow> dfs \<Rightarrow> int \<Rightarrow> int \<Rightarrow> int \<Rightarrow> bool option" where
  "kept_by g d x y z = do {
     s \<leftarrow> int_get (d_seen d) x;
     if \<not> s then Some False
     else do {
       p \<leftarrow> previous g d y;
       t \<leftarrow> int_get (d_seen d) p;
       Some (t \<and> p \<noteq> z) } }"

text \<open>\<open>x == source || !seen[y] || (\<dots>)\<close>\<close>

definition harmless :: "'w dgraph \<Rightarrow> dfs \<Rightarrow> int \<Rightarrow> int \<Rightarrow> bool option \<Rightarrow> bool option" where
  "harmless g d x y rest =
     (if x = int (d_source d) then Some True
      else do { s \<leftarrow> int_get (d_seen d) y; if \<not> s then Some True else rest })"

definition edge_ends :: "'w dgraph \<Rightarrow> nat \<Rightarrow> (int \<times> int) option" where
  "edge_ends g e = do { fe \<leftarrow> get_at (g_all_edges g) e; Some (fe_from fe, fe_to fe) }"

text \<open>The deletion of an edge changes nothing: the test of \<open>update_additions\<close> and \<open>incrementalUpdate\<close>.\<close>

definition no_effect :: "'w dgraph \<Rightarrow> dfs \<Rightarrow> int \<Rightarrow> int \<Rightarrow> bool option" where
  "no_effect g d from to = do {
     a \<leftarrow> harmless g d to from (kept_by g d to to from);
     if \<not> a then Some False
     else if \<not> d_undirected d then Some True
     else harmless g d from to (kept_by g d from to to) }"

text \<open>Marking the unseen end of an added edge.\<close>

definition add_edge :: "'w dgraph \<Rightarrow> bool \<Rightarrow> nat \<Rightarrow> int \<Rightarrow> int \<Rightarrow> dfs \<Rightarrow> dfs option" where
  "add_edge g update e from to d = do {
     sf \<leftarrow> int_get (d_seen d) from;
     st \<leftarrow> (if sf then int_get (d_seen d) to else Some True);
     if \<not> st then do { d \<leftarrow> mark to (int e) d; add_update g to update d }
     else if d_undirected d then do {
       st \<leftarrow> int_get (d_seen d) to;
       sf \<leftarrow> (if st then int_get (d_seen d) from else Some True);
       if \<not> sf then do { d \<leftarrow> mark from (int e) d; add_update g from update d } else Some d }
     else Some d }"

fun additions_loop :: "'w dgraph \<Rightarrow> int list \<Rightarrow> dfs \<Rightarrow> (bool \<times> dfs) option" where
  "additions_loop g [] d = Some (True, d)"
| "additions_loop g (i # is) d = do {
     c \<leftarrow> getChange g i;
     (from, to) \<leftarrow> edge_ends g (ec_id c);
     if ec_addition c then do { d \<leftarrow> add_edge g True (ec_id c) from to d; additions_loop g is d }
     else do {
       ok \<leftarrow> no_effect g d from to;
       if ok then additions_loop g is d
       else Some (False, d\<lparr>d_fast_failed_updates := d_fast_failed_updates d + 1\<rparr>) } }"

definition sync_clears :: "'w dgraph \<Rightarrow> dfs \<Rightarrow> dfs" where
  "sync_clears g d = (if g_historyclears g \<noteq> d_last_history_clear d
     then d\<lparr>d_last_history_clear := g_historyclears g, d_history_qhead := 0\<rparr> else d)"

definition stamp :: "'w dgraph \<Rightarrow> dfs \<Rightarrow> dfs" where
  "stamp g d = d\<lparr>d_last_modification := g_modifications g, d_last_deletion := g_deletions g,
     d_last_addition := g_additions g, d_history_qhead := historySize g, d_last_history_clear := g_historyclears g\<rparr>"

definition update_additions :: "'w dgraph \<Rightarrow> dfs \<Rightarrow> (bool \<times> dfs) option" where
  "update_additions g d = do {
     let d = sync_clears g d;
     check (d_INF d > g_num_nodes g);
     check (length (d_seen d) \<ge> g_num_nodes g);
     (ok, d) \<leftarrow> additions_loop g [d_history_qhead d .. historySize g - 1] d;
     if \<not> ok then Some (False, d)
     else Some (True, stamp g (d\<lparr>d_fast_updates := d_fast_updates d + 1\<rparr>)) }"

fun incremental_loop :: "'w dgraph \<Rightarrow> int list \<Rightarrow> dfs \<Rightarrow> dfs option" where
  "incremental_loop g [] d = Some d"
| "incremental_loop g (i # is) d = do {
     c \<leftarrow> getChange g i;
     (from, to) \<leftarrow> edge_ends g (ec_id c);
     b \<leftarrow> edgeEnabled g (ec_id c);
     if ec_addition c \<and> b then do { d \<leftarrow> add_edge g False (ec_id c) from to d; incremental_loop g is d }
     else if \<not> ec_addition c \<and> \<not> b then do {
       ok \<leftarrow> no_effect g d from to;
       d \<leftarrow> (if ok then Some d else delete_update g to d);
       incremental_loop g is d }
     else incremental_loop g is d }"

fun report_each :: "nat list \<Rightarrow> (bool \<Rightarrow> bool) \<Rightarrow> dfs \<Rightarrow> dfs option" where
  "report_each [] f d = Some d"
| "report_each (u # us) f d = do {
     s \<leftarrow> get_at (d_seen d) u;
     report_each us f (if f s then report u s d else d) }"

definition incrementalUpdate :: "'w dgraph \<Rightarrow> dfs \<Rightarrow> (bool \<times> dfs) option" where
  "incrementalUpdate g d = do {
     let d = sync_clears g d;
     check (d_INF d > g_num_nodes g);
     check (length (d_seen d) \<ge> g_num_nodes g);
     d \<leftarrow> incremental_loop g [d_history_qhead d .. historySize g - 1] d;
     d \<leftarrow> report_each [0..<g_num_nodes g] (\<lambda>_. True) d;
     Some (True, stamp g (d\<lparr>d_fast_updates := d_fast_updates d + 1\<rparr>)) }"

subsection \<open>Updates\<close>

text \<open>The scan of \<open>update\<close> over the deletions: here the test for the source is missing.\<close>

definition safe_deletion :: "'w dgraph \<Rightarrow> dfs \<Rightarrow> int \<Rightarrow> int \<Rightarrow> bool option" where
  "safe_deletion g d from to = do {
     s \<leftarrow> int_get (d_seen d) from;
     if \<not> s then Some True else kept_by g d to to from }"

fun deletions_safe :: "'w dgraph \<Rightarrow> int list \<Rightarrow> dfs \<Rightarrow> bool option" where
  "deletions_safe g [] d = Some True"
| "deletions_safe g (i # is) d = do {
     c \<leftarrow> getChange g i;
     (from, to) \<leftarrow> edge_ends g (ec_id c);
     a \<leftarrow> (if ec_addition c then Some True else safe_deletion g d from to);
     if \<not> a then Some False
     else do {
       b \<leftarrow> (if d_undirected d \<and> \<not> ec_addition c then safe_deletion g d to from else Some True);
       if \<not> b then Some False else deletions_safe g is d } }"

definition full_update :: "'w dgraph \<Rightarrow> dfs \<Rightarrow> dfs option" where
  "full_update g d = do {
     let n = g_num_nodes g;
     let d = d\<lparr>d_full_updates := d_full_updates d + 1\<rparr>;
     check (n \<le> length (d_seen d) \<and> n \<le> length (d_prev d));
     let d = d\<lparr>d_seen := replicate n False @ drop n (d_seen d), d_prev := replicate n (- 1) @ drop n (d_prev d)\<rparr>;
     s \<leftarrow> set_at (d_seen d) (d_source d) True;
     d \<leftarrow> search (d_polarity d = 1) g [d_source d] (d\<lparr>d_seen := s\<rparr>);
     d \<leftarrow> (if d_polarity d < 1 then report_each [0..<n] (\<lambda>s. \<not> s \<or> d_polarity d = 0) d else Some d);
     Some (stamp g (d\<lparr>d_num_updates := d_num_updates d + 1\<rparr>)) }"

definition update_fast :: "'w dgraph \<Rightarrow> dfs \<Rightarrow> (bool \<times> dfs) option" where
  "update_fast g d =
     (if g_historyclears g \<noteq> d_last_history_clear d then
        Some (False, d\<lparr>d_last_history_clear := g_historyclears g, d_history_qhead := 0\<rparr>)
      else if d_inc_graph d \<and> d_last_modification d > 0 \<and> g_historyclears g \<le> d_last_history_clear d + 1 then
        (if d_dec_graph d = 2 then incrementalUpdate g d
         else do {
           d \<leftarrow> (if d_dec_graph d = 1 \<and> d_last_deletion d < g_deletions g then do {
                   safe \<leftarrow> deletions_safe g [d_history_qhead d .. historySize g - 1] d;
                   Some (if safe then d\<lparr>d_last_deletion := g_deletions g\<rparr> else d) }
                 else Some d);
           if d_last_deletion d = g_deletions g then update_additions g d else Some (False, d) })
      else Some (False, d))"

definition dfs_update :: "'w dgraph \<Rightarrow> dfs \<Rightarrow> dfs option" where
  "dfs_update g d =
     (if d_last_modification d > 0 \<and> g_modifications g = d_last_modification d then
        Some (d\<lparr>d_skipped_updates := d_skipped_updates d + 1\<rparr>)
      else
        let del = d_last_modification d > 0 \<and> d_last_deletion d = g_deletions g;
            d = (if del then d\<lparr>d_skipable_deletions := d_skipable_deletions d + 1\<rparr> else d)
        in if del \<and> d_skip_deletions d \<and> d_polarity d < 1 then Some d
           else if d_last_modification d > 0 \<and> d_last_addition d = g_additions g \<and> d_skip_additions d \<and> d_polarity d > - 1 then Some d
           else do {
             (done, d) \<leftarrow> update_fast g (setNodes g (g_num_nodes g) d);
             if done then Some d else full_update g d })"

definition connected_unsafe :: "dfs \<Rightarrow> nat \<Rightarrow> bool" where
  "connected_unsafe d t \<longleftrightarrow> t < length (d_seen d) \<and> d_seen d ! t"

definition connected_unchecked :: "'w dgraph \<Rightarrow> dfs \<Rightarrow> nat \<Rightarrow> bool option" where
  "connected_unchecked g d t = do { check (d_last_modification d = g_modifications g); Some (connected_unsafe d t) }"

definition connected :: "'w dgraph \<Rightarrow> nat \<Rightarrow> dfs \<Rightarrow> (bool \<times> dfs) option" where
  "connected g t d = do {
     d \<leftarrow> (if d_last_modification d \<noteq> g_modifications g then dfs_update g d else Some d);
     s \<leftarrow> get_at (d_seen d) t;
     Some (s, d) }"

definition distance :: "'w dgraph \<Rightarrow> nat \<Rightarrow> dfs \<Rightarrow> (int \<times> dfs) option" where
  "distance g t d = do { (c, d) \<leftarrow> connected g t d; Some (if c then 1 else - 1, d) }"

definition distance_unsafe :: "dfs \<Rightarrow> nat \<Rightarrow> int" where
  "distance_unsafe d t = (if connected_unsafe d t then 1 else - 1)"

end
