(* ===== verification/Dfs_Spec.thy ===== *)
theory Dfs_Spec
  imports Dfs
begin

text \<open>
  The specification of the search: reachability over enabled edges, the tree the \<open>prev\<close> entries describe, and the
  forward search as a sequence of steps that mark one more node.
\<close>

subsection \<open>Reachability\<close>

definition arc :: "'w dgraph \<Rightarrow> bool \<Rightarrow> nat \<Rightarrow> nat \<Rightarrow> nat \<Rightarrow> bool" where
  "arc g und u v e \<longleftrightarrow> joins g u v e \<or> und \<and> joins g v u e"

definition open_arc :: "'w dgraph \<Rightarrow> bool \<Rightarrow> nat \<Rightarrow> nat \<Rightarrow> nat \<Rightarrow> bool" where
  "open_arc g und u v e \<longleftrightarrow> arc g und u v e \<and> g_status g ! e"

definition reach :: "'w dgraph \<Rightarrow> bool \<Rightarrow> nat \<Rightarrow> nat \<Rightarrow> bool" where
  "reach g und u v \<longleftrightarrow> (u, v) \<in> {(x, y). \<exists>e. open_arc g und x y e}\<^sup>*"

lemma reach_refl: "reach g und u u"
  by (simp add: reach_def)

lemma reach_step: "reach g und u v \<Longrightarrow> open_arc g und v w e \<Longrightarrow> reach g und u w"
  unfolding reach_def by (rule rtrancl_into_rtrancl) blast+

lemma reach_induct [consumes 1, case_names refl step]:
  assumes "reach g und u v" "P u" "\<And>v w e. reach g und u v \<Longrightarrow> P v \<Longrightarrow> open_arc g und v w e \<Longrightarrow> P w"
  shows "P v"
  using assms(1) unfolding reach_def
proof (induction rule: rtrancl_induct)
  case (step y z)
  then obtain e where "open_arc g und y z e" by blast
  then show ?case using assms(3) step unfolding reach_def by blast
qed (rule assms(2))

lemma joins_nodes: "graph_ok g \<Longrightarrow> joins g u v e \<Longrightarrow> u < g_num_nodes g \<and> v < g_num_nodes g"
  using isEdge_in[of g e] by (auto simp: joins_def graph_ok_def)

lemma arc_nodes: "graph_ok g \<Longrightarrow> arc g und u v e \<Longrightarrow> u < g_num_nodes g \<and> v < g_num_nodes g"
  using joins_nodes by (fastforce simp: arc_def)

lemma arc_status: "graph_ok g \<Longrightarrow> arc g und u v e \<Longrightarrow> e < length (g_status g)"
  using joins_status by (fastforce simp: arc_def)

definition out_arcs :: "'w dgraph \<Rightarrow> bool \<Rightarrow> nat \<Rightarrow> (nat \<times> nat) list" where
  "out_arcs g und u = (if und then g_und_adj g ! u else g_adj g ! u)"

definition in_arcs :: "'w dgraph \<Rightarrow> bool \<Rightarrow> nat \<Rightarrow> (nat \<times> nat) list" where
  "in_arcs g und u = (if und then g_und_adj g ! u else g_inv_adj g ! u)"

lemma incident_arcs:
  assumes "graph_ok g" "u < g_num_nodes g"
  shows "nIncident g u und = Some (length (out_arcs g und u))"
    "incident g u i und = (if i < length (out_arcs g und u) then Some (out_arcs g und u ! i) else None)"
    "nIncoming g u und = Some (length (in_arcs g und u))"
    "incoming g u i und = (if i < length (in_arcs g und u) then Some (in_arcs g und u ! i) else None)"
    "(v, e) \<in> set (out_arcs g und u) \<longleftrightarrow> arc g und u v e"
    "(v, e) \<in> set (in_arcs g und u) \<longleftrightarrow> arc g und v u e"
  using adj_joins[OF assms] assms(2)
  by (auto simp: nIncident_def nIncoming_def incident_def incoming_def out_arcs_def in_arcs_def arc_def)

subsection \<open>Marking one more node\<close>

definition sized :: "'w dgraph \<Rightarrow> dfs \<Rightarrow> bool" where
  "sized g d \<longleftrightarrow> length (d_seen d) = g_num_nodes g \<and> length (d_prev d) = g_num_nodes g"

definition marked :: "nat \<Rightarrow> nat \<Rightarrow> dfs \<Rightarrow> dfs" where
  "marked v e d = d\<lparr>d_seen := (d_seen d)[v := True], d_prev := (d_prev d)[v := int e]\<rparr>"

lemma mark_eq: "v < length (d_seen d) \<Longrightarrow> v < length (d_prev d) \<Longrightarrow> mark (int v) (int e) d = Some (marked v e d)"
  by (simp add: mark_def int_set_def marked_def)

lemma marked_simps [simp]:
  "d_seen (marked v e d) = (d_seen d)[v := True]" "d_prev (marked v e d) = (d_prev d)[v := int e]"
  "d_undirected (marked v e d) = d_undirected d" "d_source (marked v e d) = d_source d"
  "d_polarity (marked v e d) = d_polarity d" "d_reports (marked v e d) = d_reports d"
  "sized g (marked v e d) = sized g d"
  by (simp_all add: marked_def sized_def)

lemma report_simps [simp]:
  "d_seen (report u b d) = d_seen d" "d_prev (report u b d) = d_prev d"
  "d_undirected (report u b d) = d_undirected d" "d_source (report u b d) = d_source d"
  "d_polarity (report u b d) = d_polarity d" "sized g (report u b d) = sized g d"
  by (simp_all add: report_def sized_def)

text \<open>\<open>grown\<close>: marks of nodes at the end of an enabled edge from a marked node, and reports of marked nodes.\<close>

inductive grown :: "'w dgraph \<Rightarrow> dfs \<Rightarrow> dfs \<Rightarrow> bool" for g :: "'w dgraph" where
  stay: "grown g d d"
| more: "grown g d d1 \<Longrightarrow> u < g_num_nodes g \<Longrightarrow> d_seen d1 ! u \<Longrightarrow> v < g_num_nodes g \<Longrightarrow> \<not> d_seen d1 ! v \<Longrightarrow>
    open_arc g (d_undirected d1) u v e \<Longrightarrow> grown g d (marked v e d1)"
| tell: "grown g d d1 \<Longrightarrow> u < g_num_nodes g \<Longrightarrow> d_seen d1 ! u \<Longrightarrow> grown g d (report u True d1)"

lemma grown_trans: "grown g d1 d2 \<Longrightarrow> grown g d d1 \<Longrightarrow> grown g d d2"
  by (induction rule: grown.induct) (auto intro: grown.intros)

text \<open>The fields the search leaves alone.\<close>

definition frame_of :: "dfs \<Rightarrow> dfs" where
  "frame_of d = d\<lparr>d_seen := [], d_prev := [], d_reports := []\<rparr>"

lemma frame_of_simps [simp]:
  "frame_of (marked v e d) = frame_of d" "frame_of (report u b d) = frame_of d"
  by (simp_all add: frame_of_def marked_def report_def)

lemma frame_ofD:
  assumes "frame_of d = frame_of d'"
  shows "d_source d = d_source d'" "d_undirected d = d_undirected d'" "d_polarity d = d_polarity d'"
    "d_last_modification d = d_last_modification d'" "d_last_addition d = d_last_addition d'"
    "d_last_deletion d = d_last_deletion d'" "d_history_qhead d = d_history_qhead d'"
    "d_last_history_clear d = d_last_history_clear d'" "d_INF d = d_INF d'" "d_skip_deletions d = d_skip_deletions d'"
    "d_skip_additions d = d_skip_additions d'" "d_inc_graph d = d_inc_graph d'" "d_dec_graph d = d_dec_graph d'"
  using assms by (cases d; cases d'; simp add: frame_of_def)+

lemma grown_frame: "grown g d d' \<Longrightarrow> frame_of d' = frame_of d \<and> (sized g d' \<longleftrightarrow> sized g d)"
  by (induction rule: grown.induct) auto

lemma grown_undirected: "grown g d d' \<Longrightarrow> d_undirected d' = d_undirected d"
  by (rule frame_ofD(2)[OF conjunct1[OF grown_frame]])

lemma grown_keeps:
  assumes "grown g d d'" "sized g d" "v < g_num_nodes g" "d_seen d ! v"
  shows "d_seen d' ! v \<and> d_prev d' ! v = d_prev d ! v"
  using assms
proof (induction rule: grown.induct)
  case (more d d1 u w e)
  have "w \<noteq> v" using more by auto
  then show ?case using more grown_frame[OF more(1)] by (auto simp: sized_def nth_list_update)
qed auto

lemma grown_new:
  assumes "grown g d d'" "sized g d" "v < g_num_nodes g" "d_seen d' ! v" "\<not> d_seen d ! v"
  shows "\<exists>u e. u < g_num_nodes g \<and> d_seen d' ! u \<and> open_arc g (d_undirected d) u v e \<and> d_prev d' ! v = int e"
  using assms
proof (induction rule: grown.induct)
  case (more d d1 u w e)
  have s: "sized g d1" "d_undirected d1 = d_undirected d"
    using grown_frame[OF more(1)] more(8) frame_ofD(2) by blast+
  show ?case
  proof (cases "w = v")
    case True
    then show ?thesis using more(2-6) s by (intro exI[of _ u] exI[of _ e]) (auto simp: sized_def nth_list_update)
  next
    case False
    then have "d_seen d1 ! v" using more by (simp add: sized_def)
    then obtain x f where "x < g_num_nodes g" "d_seen d1 ! x" "open_arc g (d_undirected d) x v f" "d_prev d1 ! v = int f"
      using more by blast
    then have "d_seen (marked w e d1) ! x \<and> d_prev (marked w e d1) ! v = int f"
      using False s more(4) by (auto simp: sized_def nth_list_update)
    then show ?thesis using \<open>x < g_num_nodes g\<close> \<open>open_arc g (d_undirected d) x v f\<close> by blast
  qed
qed auto

text \<open>The node's chain of \<open>prev\<close> edges leads through marked nodes to the source.\<close>

inductive linked :: "'w dgraph \<Rightarrow> dfs \<Rightarrow> nat \<Rightarrow> bool" for g :: "'w dgraph" and d :: dfs where
  root: "d_seen d ! d_source d \<Longrightarrow> linked g d (d_source d)"
| link: "linked g d u \<Longrightarrow> v < g_num_nodes g \<Longrightarrow> d_seen d ! v \<Longrightarrow> arc g (d_undirected d) u v e \<Longrightarrow> d_prev d ! v = int e \<Longrightarrow>
    linked g d v"

lemma linked_seen: "linked g d v \<Longrightarrow> d_seen d ! v"
  by (induction rule: linked.induct) auto

lemma linked_mono:
  assumes "linked g d v" "frame_of d' = frame_of d" "d_source d < g_num_nodes g"
    "\<And>v. v < g_num_nodes g \<Longrightarrow> d_seen d ! v \<Longrightarrow> d_seen d' ! v \<and> d_prev d' ! v = d_prev d ! v"
  shows "linked g d' v"
  using assms(1)
proof (induction rule: linked.induct)
  case root
  then show ?case using linked.root[of d' g] assms(2-4) frame_ofD(1)[OF assms(2)] by simp
next
  case (link u v e)
  then show ?case using linked.link[of g d' u v e] assms(2,4) frame_ofD(2)[OF assms(2)] by simp
qed

lemma grown_linked:
  assumes "grown g d d'" "sized g d" "d_source d < g_num_nodes g"
    "\<And>v. v < g_num_nodes g \<Longrightarrow> d_seen d ! v \<Longrightarrow> linked g d v" "v < g_num_nodes g" "d_seen d' ! v"
  shows "linked g d' v"
  using assms
proof (induction arbitrary: v rule: grown.induct)
  case (more d d1 u w e)
  have s: "sized g d1" "frame_of d1 = frame_of d"
    using grown_frame[OF more(1)] more(8) by blast+
  have old: "linked g (marked w e d1) x" if "x < g_num_nodes g" "d_seen d1 ! x" for x
  proof (rule linked_mono)
    show "linked g d1 x" using more that by blast
    show "d_source d1 < g_num_nodes g" using more(9) frame_ofD(1)[OF s(2)] by simp
  qed (use more(4,5) s in \<open>auto simp: sized_def nth_list_update\<close>)
  show ?case
  proof (cases "v = w")
    case True
    show ?thesis unfolding True
    proof (rule linked.link[OF old])
      show "u < g_num_nodes g" "d_seen d1 ! u" "w < g_num_nodes g" by fact+
      show "arc g (d_undirected (marked w e d1)) u w e" using more(6) by (simp add: open_arc_def)
    qed (use more(4) s in \<open>auto simp: sized_def\<close>)
  next
    case False
    then show ?thesis using old more(11,12) by simp
  qed
next
  case (tell d d1 u)
  have s: "frame_of d1 = frame_of d" using grown_frame[OF tell(1)] by blast
  show ?case
  proof (rule linked_mono)
    show "linked g d1 v" using tell by simp
    show "d_source d1 < g_num_nodes g" using tell(6) frame_ofD(1)[OF s] by simp
  qed auto
qed

definition closed_at :: "'w dgraph \<Rightarrow> dfs \<Rightarrow> nat \<Rightarrow> bool" where
  "closed_at g d u \<longleftrightarrow> (\<forall>v e. open_arc g (d_undirected d) u v e \<longrightarrow> d_seen d ! v)"

lemma closed_at_grown:
  assumes "graph_ok g" "closed_at g d u" "grown g d d'" "sized g d"
  shows "closed_at g d' u"
  unfolding closed_at_def
proof (intro allI impI)
  fix v e assume a: "open_arc g (d_undirected d') u v e"
  then have "open_arc g (d_undirected d) u v e" by (simp add: grown_undirected[OF assms(3)])
  then have "d_seen d ! v" "v < g_num_nodes g"
    using assms(2) arc_nodes[OF assms(1)] unfolding closed_at_def open_arc_def by blast+
  then show "d_seen d' ! v" using grown_keeps[OF assms(3,4)] by blast
qed

lemma grown_reports:
  assumes "grown g d d'" "sized g d"
  shows "\<exists>rs. d_reports d' = d_reports d @ map (\<lambda>u. (u, True)) rs \<and> (\<forall>u \<in> set rs. u < g_num_nodes g \<and> d_seen d' ! u)"
  using assms
proof (induction rule: grown.induct)
  case (stay d)
  then show ?case by (intro exI[of _ "[]"]) simp
next
  case (more d d1 u v e)
  then obtain rs where rs: "d_reports d1 = d_reports d @ map (\<lambda>u. (u, True)) rs" "\<forall>u \<in> set rs. u < g_num_nodes g \<and> d_seen d1 ! u"
    by blast
  have "sized g d1" using grown_frame[OF more(1)] more(8) by blast
  then have "\<forall>u \<in> set rs. u < g_num_nodes g \<and> d_seen (marked v e d1) ! u"
    using rs(2) more(4) by (auto simp: sized_def nth_list_update)
  then show ?case using rs(1) by (intro exI[of _ rs]) simp
next
  case (tell d d1 u)
  then obtain rs where rs: "d_reports d1 = d_reports d @ map (\<lambda>u. (u, True)) rs" "\<forall>u \<in> set rs. u < g_num_nodes g \<and> d_seen d1 ! u"
    by blast
  then show ?case using tell(2,3) by (intro exI[of _ "rs @ [u]"]) (auto simp: report_def)
qed

text \<open>A node the search is done with: the ends of its enabled edges are marked, and it has been reported since
  there were \<open>k\<close> reports.\<close>

definition settled_at :: "nat \<Rightarrow> bool \<Rightarrow> 'w dgraph \<Rightarrow> dfs \<Rightarrow> nat \<Rightarrow> bool" where
  "settled_at k rep g d u \<longleftrightarrow> closed_at g d u \<and> (rep \<longrightarrow> (u, True) \<in> set (drop k (d_reports d)))"

lemma settled_at_grown:
  assumes "graph_ok g" "settled_at k rep g d u" "grown g d d'" "sized g d"
  shows "settled_at k rep g d' u"
  using assms closed_at_grown[OF assms(1) _ assms(3,4)] grown_reports[OF assms(3,4)] by (auto simp: settled_at_def)

subsection \<open>The forward search\<close>

lemma sized_grown: "grown g d d' \<Longrightarrow> sized g d \<Longrightarrow> sized g d'"
  using grown_frame by blast

lemma visit_spec:
  assumes "graph_ok g" "u < g_num_nodes g"
  shows "sized g d \<Longrightarrow> d_seen d ! u \<Longrightarrow> \<forall>i \<in> set is. i < length (out_arcs g (d_undirected d) u) \<Longrightarrow>
    \<exists>qn d'. visit g u is q d = Some (q @ qn, d') \<and> grown g d d' \<and> (\<forall>v \<in> set qn. v < g_num_nodes g \<and> d_seen d' ! v) \<and>
      (\<forall>v < g_num_nodes g. d_seen d' ! v \<longrightarrow> d_seen d ! v \<or> v \<in> set qn) \<and>
      (\<forall>i \<in> set is. \<forall>v e. out_arcs g (d_undirected d) u ! i = (v, e) \<longrightarrow> g_status g ! e \<longrightarrow> d_seen d' ! v)"
proof (induction "is" arbitrary: q d)
  case Nil
  then show ?case by (auto intro!: exI[of _ "[]"] exI[of _ d] grown.stay)
next
  case (Cons i "is")
  obtain v e where ve: "out_arcs g (d_undirected d) u ! i = (v, e)" by (cases "out_arcs g (d_undirected d) u ! i")
  have i: "i < length (out_arcs g (d_undirected d) u)" using Cons.prems(3) by simp
  then have inc: "incident g u i (d_undirected d) = Some (v, e)" using incident_arcs(2)[OF assms] ve by simp
  have a: "arc g (d_undirected d) u v e" using incident_arcs(5)[OF assms] i ve by (metis nth_mem)
  have v: "v < g_num_nodes g" "e < length (g_status g)" using arc_nodes[OF assms(1) a] arc_status[OF assms(1) a] by auto
  have sv: "v < length (d_seen d)" "v < length (d_prev d)" using v(1) Cons.prems(1) by (auto simp: sized_def)
  have en: "edgeEnabled g e = Some (g_status g ! e)" using v(2) by (simp add: edgeEnabled_def)
  show ?case
  proof (cases "g_status g ! e \<and> \<not> d_seen d ! v")
    case True
    let ?d = "marked v e d"
    have g1: "grown g d ?d"
      using True a assms(2) Cons.prems(2) v(1) by (intro grown.more[OF grown.stay]) (auto simp: open_arc_def)
    have "u \<noteq> v" using True Cons.prems(2) by blast
    then have p: "sized g ?d" "d_seen ?d ! u" "\<forall>i \<in> set is. i < length (out_arcs g (d_undirected ?d) u)"
      using Cons.prems by auto
    obtain qn d' where r: "visit g u is (q @ [v]) ?d = Some ((q @ [v]) @ qn, d')" "grown g ?d d'"
      "\<forall>v \<in> set qn. v < g_num_nodes g \<and> d_seen d' ! v"
      "\<forall>x < g_num_nodes g. d_seen d' ! x \<longrightarrow> d_seen ?d ! x \<or> x \<in> set qn"
      "\<forall>i \<in> set is. \<forall>v e. out_arcs g (d_undirected ?d) u ! i = (v, e) \<longrightarrow> g_status g ! e \<longrightarrow> d_seen d' ! v"
      using Cons.IH[OF p] by blast
    have c: "visit g u (i # is) q d = Some (q @ (v # qn), d')"
      using inc en True sv r(1) by (simp add: mark_eq)
    have sv': "d_seen d' ! v" using grown_keeps[OF r(2) p(1) v(1)] sv by simp
    have n: "d_seen d ! x \<or> x \<in> set (v # qn)" if "x < g_num_nodes g" "d_seen d' ! x" for x
      using r(4) that sv by (cases "x = v") auto
    show ?thesis
      using c grown_trans[OF r(2) g1] r(3,5) sv' v(1) n ve
      by (intro exI[of _ "v # qn"] exI[of _ d']) auto
  next
    case False
    have p: "\<forall>i \<in> set is. i < length (out_arcs g (d_undirected d) u)" using Cons.prems(3) by simp
    obtain qn d' where r: "visit g u is q d = Some (q @ qn, d')" "grown g d d'"
      "\<forall>v \<in> set qn. v < g_num_nodes g \<and> d_seen d' ! v"
      "\<forall>x < g_num_nodes g. d_seen d' ! x \<longrightarrow> d_seen d ! x \<or> x \<in> set qn"
      "\<forall>i \<in> set is. \<forall>v e. out_arcs g (d_undirected d) u ! i = (v, e) \<longrightarrow> g_status g ! e \<longrightarrow> d_seen d' ! v"
      using Cons.IH[OF Cons.prems(1,2) p] by blast
    have c: "visit g u (i # is) q d = Some (q @ qn, d')" using inc en False sv r(1) by auto
    have "g_status g ! e \<longrightarrow> d_seen d' ! v" using False grown_keeps[OF r(2) Cons.prems(1) v(1)] by blast
    then show ?thesis using c r ve by (intro exI[of _ qn] exI[of _ d']) auto
  qed
qed

lemma search_spec:
  assumes "graph_ok g"
  shows "sized g d \<Longrightarrow> \<forall>u \<in> set q. u < g_num_nodes g \<and> d_seen d ! u \<Longrightarrow> k \<le> length (d_reports d) \<Longrightarrow>
    \<exists>d'. search rep g q d = Some d' \<and> grown g d d' \<and>
      (\<forall>u < g_num_nodes g. d_seen d' ! u \<longrightarrow> d_seen d ! u \<and> u \<notin> set q \<or> settled_at k rep g d' u)"
  using assms
proof (induction rep g q d rule: search.induct)
  case (1 rep g q d)
  show ?case
  proof (cases "q = []")
    case True
    then show ?thesis by (subst search.simps) (auto intro: grown.stay)
  next
    case ne: False
    let ?u = "last q" and ?d = "if rep then report (last q) True d else d"
    have u: "?u < g_num_nodes g" "d_seen d ! ?u" using 1(3) ne by auto
    have g1: "grown g d ?d" using grown.tell[OF grown.stay u] grown.stay[of g d] by simp
    have d1: "sized g ?d" "d_seen ?d = d_seen d" "d_undirected ?d = d_undirected d" using 1(2) by auto
    have su: "get_at (d_seen d) ?u = Some True" using u 1(2) by (simp add: sized_def)
    let ?k = "length (out_arcs g (d_undirected d) ?u)"
    have inc: "nIncident g ?u (d_undirected d) = Some ?k" using incident_arcs(1)[OF 1(5) u(1)] .
    obtain qn d2 where v: "visit g ?u [0..<?k] (butlast q) ?d = Some (butlast q @ qn, d2)" "grown g ?d d2"
      "\<forall>v \<in> set qn. v < g_num_nodes g \<and> d_seen d2 ! v"
      "\<forall>v < g_num_nodes g. d_seen d2 ! v \<longrightarrow> d_seen ?d ! v \<or> v \<in> set qn"
      "\<forall>i \<in> set [0..<?k]. \<forall>v e. out_arcs g (d_undirected ?d) ?u ! i = (v, e) \<longrightarrow> g_status g ! e \<longrightarrow> d_seen d2 ! v"
      using visit_spec[OF 1(5) u(1) d1(1), of "[0..<?k]" "butlast q"] u(2) d1(2,3) by auto
    have s2: "sized g d2" by (rule sized_grown[OF v(2) d1(1)])
    have keep: "d_seen d2 ! x" if "x < g_num_nodes g" "d_seen d ! x" for x
      using grown_keeps[OF v(2) d1(1) that(1)] that(2) d1(2) by simp
    have q2: "\<forall>u \<in> set (butlast q @ qn). u < g_num_nodes g \<and> d_seen d2 ! u"
      using v(3) 1(3) keep by (auto dest: in_set_butlastD)
    have und: "d_undirected d2 = d_undirected d" using grown_undirected[OF v(2)] d1(3) by simp
    have cl: "closed_at g d2 ?u"
      unfolding closed_at_def und
    proof (intro allI impI)
      fix x e assume "open_arc g (d_undirected d) ?u x e"
      then have "(x, e) \<in> set (out_arcs g (d_undirected d) ?u)" "g_status g ! e"
        using incident_arcs(5)[OF 1(5) u(1)] by (auto simp: open_arc_def)
      then show "d_seen d2 ! x" using v(5) d1(3) by (auto simp: in_set_conv_nth)
    qed
    have "rep \<longrightarrow> (?u, True) \<in> set (drop k (d_reports d2))"
    proof
      assume rep
      then have "(?u, True) \<in> set (drop k (d_reports ?d))" using 1(4) by (simp add: report_def)
      then show "(?u, True) \<in> set (drop k (d_reports d2))" using grown_reports[OF v(2) d1(1)] by auto
    qed
    then have st: "settled_at k rep g d2 ?u" using cl by (simp add: settled_at_def)
    have k2: "k \<le> length (d_reports d2)"
      using 1(4) grown_reports[OF v(2) d1(1)] by (auto simp: report_def)
    obtain d' where d': "search rep g (butlast q @ qn) d2 = Some d'" "grown g d2 d'"
      "\<forall>u < g_num_nodes g. d_seen d' ! u \<longrightarrow> d_seen d2 ! u \<and> u \<notin> set (butlast q @ qn) \<or> settled_at k rep g d' u"
      using 1(1)[OF ne su check_simps(1) inc v(1) refl s2 q2 k2 1(5)] by auto
    have "search rep g q d = Some d'"
      using ne su inc v(1) d'(1) by (subst search.simps) simp
    moreover have "grown g d d'" by (rule grown_trans[OF d'(2) grown_trans[OF v(2) g1]])
    moreover have "d_seen d ! x \<and> x \<notin> set q \<or> settled_at k rep g d' x" if x: "x < g_num_nodes g" "d_seen d' ! x" for x
    proof (cases "settled_at k rep g d' x")
      case False
      then have "d_seen d2 ! x" "x \<notin> set (butlast q @ qn)" using d'(3) x by auto
      then have sd: "d_seen d ! x" using v(4) x(1) d1(2) by auto
      moreover have "x \<notin> set q"
      proof
        assume "x \<in> set q"
        moreover have "set q = insert ?u (set (butlast q))" using ne by (metis append_butlast_last_id list.simps(15) rotate1.simps(2) set_rotate1)
        ultimately have "x = ?u" using \<open>x \<notin> set (butlast q @ qn)\<close> by auto
        then show False using False settled_at_grown[OF 1(5) st d'(2) s2] by simp
      qed
      ultimately show ?thesis by blast
    qed blast
    ultimately show ?thesis by blast
  qed
qed

subsection \<open>A correct result\<close>

definition dfs_correct :: "'w dgraph \<Rightarrow> dfs \<Rightarrow> bool" where
  "dfs_correct g d \<longleftrightarrow> sized g d \<and> d_source d < g_num_nodes g \<and> d_prev d ! d_source d = - 1 \<and>
     (\<forall>v < g_num_nodes g. d_seen d ! v \<longleftrightarrow> reach g (d_undirected d) (d_source d) v) \<and>
     (\<forall>v < g_num_nodes g. d_seen d ! v \<longrightarrow> linked g d v) \<and>
     (\<forall>v < g_num_nodes g. d_seen d ! v \<and> v \<noteq> d_source d \<longrightarrow>
        (\<exists>u e. d_prev d ! v = int e \<and> open_arc g (d_undirected d) u v e))"

lemma arc_source: "arc g False u v e \<Longrightarrow> arc g False u' v' e \<Longrightarrow> u' = u \<and> v' = v"
  by (auto simp: arc_def joins_def)

lemma dfs_correctI:
  assumes ok: "graph_ok g" and s: "sized g d" "d_source d < g_num_nodes g" "d_prev d ! d_source d = - 1" "d_seen d ! d_source d"
    and l: "\<And>v. v < g_num_nodes g \<Longrightarrow> d_seen d ! v \<Longrightarrow> linked g d v"
    and t: "\<And>v. v < g_num_nodes g \<Longrightarrow> d_seen d ! v \<Longrightarrow> v \<noteq> d_source d \<Longrightarrow>
        \<exists>u e. d_prev d ! v = int e \<and> open_arc g (d_undirected d) u v e"
    and c: "\<And>v. v < g_num_nodes g \<Longrightarrow> d_seen d ! v \<Longrightarrow> closed_at g d v"
  shows "dfs_correct g d"
proof -
  have r: "reach g (d_undirected d) (d_source d) v" if "linked g d v" for v
    using that
  proof (induction rule: linked.induct)
    case root
    then show ?case by (simp add: reach_refl)
  next
    case (link u v e)
    have "v \<noteq> d_source d" using link(5) s(3) by auto
    then obtain u' e' where "d_prev d ! v = int e'" "open_arc g (d_undirected d) u' v e'"
      using t link(2,3) by blast
    then have "g_status g ! e" using link(5) by (simp add: open_arc_def)
    then show ?case using link(4,6) by (intro reach_step[OF link(6)]) (simp add: open_arc_def)
  qed
  have "d_seen d ! v \<and> v < g_num_nodes g" if "reach g (d_undirected d) (d_source d) v" for v
    using that
  proof (induction rule: reach_induct)
    case refl
    then show ?case using s by simp
  next
    case (step v w e)
    then have "d_seen d ! w" using c unfolding closed_at_def by blast
    moreover have "w < g_num_nodes g" using arc_nodes[OF ok, of "d_undirected d" v w e] step(2) by (auto simp: open_arc_def)
    ultimately show ?case by blast
  qed
  then show ?thesis using s l t r unfolding dfs_correct_def by blast
qed

lemma report_each_spec:
  "\<forall>u \<in> set us. u < length (d_seen d) \<Longrightarrow>
   report_each us f d = Some (d\<lparr>d_reports := d_reports d @ map (\<lambda>u. (u, d_seen d ! u)) (filter (\<lambda>u. f (d_seen d ! u)) us)\<rparr>)"
proof (induction us arbitrary: d)
  case (Cons u us)
  then show ?case by (simp add: report_def)
qed simp

subsection \<open>The full update\<close>

text \<open>What the calls of \<open>setReachable\<close> must say: only the truth, about all nodes, the reachable or the
  unreachable ones, as the polarity asks.\<close>

definition reports_ok :: "'w dgraph \<Rightarrow> dfs \<Rightarrow> (nat \<times> bool) list \<Rightarrow> bool" where
  "reports_ok g d rs \<longleftrightarrow>
     (\<forall>(u, b) \<in> set rs. u < g_num_nodes g \<and> b = reach g (d_undirected d) (d_source d) u) \<and>
     (\<forall>u < g_num_nodes g. (let b = reach g (d_undirected d) (d_source d) u in
        (if b then d_polarity d \<ge> 0 else d_polarity d \<le> 0) \<longrightarrow> d_polarity d \<in> {-1, 0, 1} \<longrightarrow> (u, b) \<in> set rs))"

definition stamped :: "'w dgraph \<Rightarrow> dfs \<Rightarrow> bool" where
  "stamped g d \<longleftrightarrow> d_last_modification d = g_modifications g \<and> d_last_deletion d = g_deletions g \<and>
     d_last_addition d = g_additions g \<and> d_history_qhead d = historySize g \<and> d_last_history_clear d = g_historyclears g"

lemma stamp_simps [simp]:
  "d_seen (stamp g d) = d_seen d" "d_prev (stamp g d) = d_prev d" "d_reports (stamp g d) = d_reports d"
  "d_undirected (stamp g d) = d_undirected d" "d_source (stamp g d) = d_source d" "d_polarity (stamp g d) = d_polarity d"
  "stamped g (stamp g d)" "sized h (stamp g d) = sized h d"
  by (simp_all add: stamp_def stamped_def sized_def)

text \<open>The settings of a search.\<close>

definition settings :: "dfs \<Rightarrow> dfs \<Rightarrow> bool" where
  "settings d d' \<longleftrightarrow> d_source d' = d_source d \<and> d_undirected d' = d_undirected d \<and> d_polarity d' = d_polarity d \<and>
     d_skip_deletions d' = d_skip_deletions d \<and> d_skip_additions d' = d_skip_additions d \<and>
     d_inc_graph d' = d_inc_graph d \<and> d_dec_graph d' = d_dec_graph d"

lemma linked_same:
  assumes "linked g d v" "d_seen d' = d_seen d" "d_prev d' = d_prev d" "d_source d' = d_source d" "d_undirected d' = d_undirected d"
  shows "linked g d' v"
  using assms(1)
proof (induction rule: linked.induct)
  case root
  then show ?case using linked.root[of d' g] assms(2-5) by simp
next
  case (link u v e)
  then show ?case using linked.link[of g d' u v e] assms(2-5) by simp
qed

lemma dfs_correct_same:
  assumes "dfs_correct g d" "d_seen d' = d_seen d" "d_prev d' = d_prev d" "d_source d' = d_source d" "d_undirected d' = d_undirected d"
  shows "dfs_correct g d'"
  using assms(1) linked_same[OF _ assms(2-5)] unfolding dfs_correct_def sized_def assms(2-5) by blast

lemma full_update_spec:
  assumes ok: "graph_ok g" and sz: "sized g d" and src: "d_source d < g_num_nodes g"
  shows "\<exists>d' rs. full_update g d = Some d' \<and> dfs_correct g d' \<and> stamped g d' \<and> settings d d' \<and>
    d_reports d' = d_reports d @ rs \<and> reports_ok g d' rs"
proof -
  let ?n = "g_num_nodes g" and ?s = "d_source d"
  let ?d0 = "d\<lparr>d_full_updates := d_full_updates d + 1, d_prev := replicate ?n (- 1), d_seen := (replicate ?n False)[?s := True]\<rparr>"
  have s0: "sized g ?d0" by (simp add: sized_def)
  have seen0: "d_seen ?d0 ! u \<longleftrightarrow> u = ?s" if "u < ?n" for u using that src by (auto simp: nth_list_update)
  obtain d2 where d2: "search (d_polarity d = 1) g [?s] ?d0 = Some d2" "grown g ?d0 d2"
    "\<forall>u < ?n. d_seen d2 ! u \<longrightarrow> d_seen ?d0 ! u \<and> u \<notin> set [?s] \<or> settled_at (length (d_reports d)) (d_polarity d = 1) g d2 u"
    using search_spec[OF ok s0, of "[?s]" "length (d_reports d)" "d_polarity d = 1"] seen0[OF src] src by auto
  have st: "settled_at (length (d_reports d)) (d_polarity d = 1) g d2 u" if "u < ?n" "d_seen d2 ! u" for u
    using d2(3) that seen0[OF that(1)] by auto
  have f: "frame_of d2 = frame_of ?d0" and s2: "sized g d2" using grown_frame[OF d2(2)] s0 by blast+
  have src2: "d_source d2 = ?s" "d_undirected d2 = d_undirected d" "d_polarity d2 = d_polarity d"
    using frame_ofD(1-3)[OF f] by simp_all
  have root: "d_seen d2 ! ?s" "d_prev d2 ! ?s = - 1"
    using grown_keeps[OF d2(2) s0 src] seen0[OF src] src by auto
  have c2: "dfs_correct g d2"
  proof (rule dfs_correctI[OF ok s2])
    show "d_source d2 < ?n" "d_prev d2 ! d_source d2 = - 1" "d_seen d2 ! d_source d2" using root src src2 by simp_all
    fix v assume v: "v < ?n" "d_seen d2 ! v"
    show "linked g d2 v"
    proof (rule grown_linked[OF d2(2) s0 _ _ v])
      show "d_source ?d0 < ?n" using src by simp
      show "linked g ?d0 u" if "u < ?n" "d_seen ?d0 ! u" for u
        using linked.root[of ?d0 g] seen0[OF src] seen0[OF that(1)] that(2) by simp
    qed
    show "closed_at g d2 v" using st[OF v] by (simp add: settled_at_def)
    show "\<exists>u e. d_prev d2 ! v = int e \<and> open_arc g (d_undirected d2) u v e" if "v \<noteq> d_source d2"
      using grown_new[OF d2(2) s0 v] seen0[OF v(1)] that src2 by auto
  qed
  obtain rs1 where rs1: "d_reports d2 = d_reports d @ map (\<lambda>u. (u, True)) rs1" "\<forall>u \<in> set rs1. u < ?n \<and> d_seen d2 ! u"
    using grown_reports[OF d2(2) s0] by auto
  let ?r = "map (\<lambda>u. (u, d_seen d2 ! u)) (filter (\<lambda>u. \<not> d_seen d2 ! u \<or> d_polarity d = 0) [0..<?n])"
  obtain d3 where d3: "(if d_polarity d2 < 1 then report_each [0..<?n] (\<lambda>s. \<not> s \<or> d_polarity d2 = 0) d2 else Some d2) = Some d3"
    "d_reports d3 = d_reports d2 @ (if d_polarity d < 1 then ?r else [])" "d_seen d3 = d_seen d2" "d_prev d3 = d_prev d2"
    "d_source d3 = ?s" "d_undirected d3 = d_undirected d" "d_polarity d3 = d_polarity d" "frame_of d3 = frame_of d2"
    using report_each_spec[of "[0..<?n]" d2] s2 src2 by (cases "d_polarity d < 1") (auto simp: sized_def frame_of_def)
  let ?d4 = "stamp g (d3\<lparr>d_num_updates := d_num_updates d3 + 1\<rparr>)"
  have c: "full_update g d = Some ?d4"
    using sz src d2(1) d3(1) unfolding full_update_def
    by (simp add: sized_def Let_def)
  have c4: "dfs_correct g ?d4" by (rule dfs_correct_same[OF c2]) (simp_all add: d3 src2)
  let ?rs = "map (\<lambda>u. (u, True)) rs1 @ (if d_polarity d < 1 then ?r else [])"
  have reach2: "d_seen d2 ! u \<longleftrightarrow> reach g (d_undirected d) ?s u" if "u < ?n" for u
    using c2 that src2 by (simp add: dfs_correct_def)
  have told: "(u, True) \<in> set ?rs" if "d_polarity d = 1" "u < ?n" "d_seen d2 ! u" for u
  proof -
    have "(u, True) \<in> set (drop (length (d_reports d)) (d_reports d @ map (\<lambda>u. (u, True)) rs1))"
      using st[OF that(2,3)] that(1) rs1(1) by (simp add: settled_at_def)
    then show ?thesis by simp
  qed
  have "reports_ok g ?d4 ?rs"
    unfolding reports_ok_def
  proof (intro conjI ballI allI impI)
    show "case x of (u, b) \<Rightarrow> u < ?n \<and> b = reach g (d_undirected ?d4) (d_source ?d4) u" if "x \<in> set ?rs" for x
      using that rs1(2) reach2 d3(5,6) by (auto split: if_splits)
    show "let b = reach g (d_undirected ?d4) (d_source ?d4) u
        in (if b then d_polarity ?d4 \<ge> 0 else d_polarity ?d4 \<le> 0) \<longrightarrow> d_polarity ?d4 \<in> {-1, 0, 1} \<longrightarrow> (u, b) \<in> set ?rs"
      if u: "u < ?n" for u
      using told[OF _ u] reach2[OF u] u d3(5-7) by (auto simp: Let_def)
  qed
  moreover have "settings d ?d4"
    using frame_ofD[OF trans[OF d3(8) f]] by (simp add: settings_def stamp_def)
  ultimately show ?thesis using c c4 d3(2) rs1(1) by (intro exI[of _ ?d4] exI[of _ ?rs]) simp
qed

end
