(* ===== verification/Dfs_Incremental.thy ===== *)
theory Dfs_Incremental
  imports Dfs_Spec
begin

text \<open>
  The incremental updates of the directed search: reading the changes recorded since the last update one by one
  leads from the correct result for the old graph to the correct result for the present one.
\<close>

subsection \<open>The invariant while the history is read\<close>

text \<open>A \<open>prev\<close> edge that is now disabled has its deletion still to come, an enabled edge that leads out of the
  marked nodes has its addition still to come.\<close>

definition pending_off :: "edge_change list \<Rightarrow> nat \<Rightarrow> bool" where
  "pending_off cs e \<longleftrightarrow> (\<exists>c \<in> set cs. \<not> ec_addition c \<and> ec_id c = e)"

definition pending_on :: "edge_change list \<Rightarrow> nat \<Rightarrow> bool" where
  "pending_on cs e \<longleftrightarrow> (\<exists>c \<in> set cs. ec_addition c \<and> ec_id c = e)"

definition tree_inv :: "'w dgraph \<Rightarrow> edge_change list \<Rightarrow> dfs \<Rightarrow> bool" where
  "tree_inv g cs d \<longleftrightarrow> sized g d \<and> d_source d < g_num_nodes g \<and> d_prev d ! d_source d = - 1 \<and> d_seen d ! d_source d \<and>
     \<not> d_undirected d \<and> (\<forall>v < g_num_nodes g. d_seen d ! v \<longrightarrow> linked g d v) \<and>
     (\<forall>v < g_num_nodes g. d_seen d ! v \<and> v \<noteq> d_source d \<longrightarrow>
        (\<exists>u e. d_prev d ! v = int e \<and> joins g u v e \<and> (g_status g ! e \<or> pending_off cs e)))"

definition inc_inv :: "'w dgraph \<Rightarrow> edge_change list \<Rightarrow> dfs \<Rightarrow> bool" where
  "inc_inv g cs d \<longleftrightarrow> tree_inv g cs d \<and>
     (\<forall>u v e. d_seen d ! u \<and> joins g u v e \<and> g_status g ! e \<longrightarrow> d_seen d ! v \<or> pending_on cs e)"

text \<open>An addition of an edge that is disabled now is followed by a deletion.\<close>

fun settles :: "'w dgraph \<Rightarrow> edge_change list \<Rightarrow> bool" where
  "settles g [] \<longleftrightarrow> True"
| "settles g (c # cs) \<longleftrightarrow> isEdge g (ec_id c) \<and> (ec_addition c \<and> \<not> g_status g ! ec_id c \<longrightarrow> pending_off cs (ec_id c)) \<and>
     settles g cs"

lemma pending_simps [simp]:
  "\<not> pending_off [] e" "\<not> pending_on [] e"
  "pending_off (c # cs) e \<longleftrightarrow> \<not> ec_addition c \<and> ec_id c = e \<or> pending_off cs e"
  "pending_on (c # cs) e \<longleftrightarrow> ec_addition c \<and> ec_id c = e \<or> pending_on cs e"
  by (auto simp: pending_off_def pending_on_def)

lemma arc_directed [simp]: "arc g False u v e = joins g u v e"
  by (simp add: arc_def)

lemma open_arc_directed [simp]: "open_arc g False u v e \<longleftrightarrow> joins g u v e \<and> g_status g ! e"
  by (simp add: open_arc_def)

lemma joins_unique: "joins g u v e \<Longrightarrow> joins g x y e \<Longrightarrow> x = u \<and> y = v"
  by (auto simp: joins_def)

lemma inc_inv_done:
  assumes "graph_ok g" "inc_inv g [] d"
  shows "dfs_correct g d"
proof -
  have "\<not> d_undirected d" "sized g d" "d_source d < g_num_nodes g" "d_prev d ! d_source d = - 1" "d_seen d ! d_source d"
    "\<And>v. v < g_num_nodes g \<Longrightarrow> d_seen d ! v \<Longrightarrow> linked g d v"
    using assms(2) by (auto simp: inc_inv_def tree_inv_def)
  then show ?thesis
    using assms by (intro dfs_correctI) (fastforce simp: inc_inv_def tree_inv_def closed_at_def)+
qed

lemma linked_parent:
  assumes "linked g d v" "v \<noteq> d_source d" "\<not> d_undirected d"
  obtains u e where "linked g d u" "joins g u v e" "d_prev d ! v = int e"
  using assms by (cases rule: linked.cases) auto

lemma previous_source:
  assumes "tree_inv g cs d"
  shows "previous g d (int (d_source d)) = Some (- 1)"
  using assms by (simp add: tree_inv_def previous_def int_get_def sized_def)

lemma previous_parent:
  assumes "\<not> d_undirected d" "d_prev d ! v = int e" "joins g u v e" "v < length (d_prev d)"
  shows "previous g d (int v) = Some (int u)"
  using assms by (auto simp: previous_def incomingEdge_def int_get_def joins_def isEdge_def)

lemma tree_parent:
  assumes "tree_inv g cs d" "v < g_num_nodes g" "d_seen d ! v" "v \<noteq> d_source d"
  obtains u e where "d_prev d ! v = int e" "joins g u v e" "d_seen d ! u" "linked g d u" "g_status g ! e \<or> pending_off cs e"
    "previous g d (int v) = Some (int u)"
proof -
  have l: "linked g d v" "\<not> d_undirected d" "v < length (d_prev d)" using assms by (auto simp: tree_inv_def sized_def)
  obtain u e where ue: "linked g d u" "joins g u v e" "d_prev d ! v = int e"
    by (rule linked_parent[OF l(1) assms(4) l(2)])
  obtain u' e' where ue': "d_prev d ! v = int e'" "joins g u' v e'" "g_status g ! e' \<or> pending_off cs e'"
    using assms unfolding tree_inv_def by blast
  have "e' = e" using ue(3) ue'(1) by simp
  then show thesis
    using that[OF ue(3,2) linked_seen[OF ue(1)] ue(1)] ue'(3) previous_parent[OF l(2) ue(3,2) l(3)] by blast
qed

lemma int_get_seen: "sized g d \<Longrightarrow> v < g_num_nodes g \<Longrightarrow> int_get (d_seen d) (int v) = Some (d_seen d ! v)"
  by (simp add: int_get_def sized_def)

lemma no_effect_spec:
  assumes ok: "graph_ok g" and t: "tree_inv g cs d" and j: "joins g u v e"
  shows "\<exists>b. no_effect g d (int u) (int v) = Some b \<and>
    (b \<longrightarrow> \<not> (d_seen d ! v \<and> d_prev d ! v = int e)) \<and> (\<not> b \<longrightarrow> v \<noteq> d_source d)"
proof -
  have n: "u < g_num_nodes g" "v < g_num_nodes g" using joins_nodes[OF ok j] by auto
  have s: "sized g d" "\<not> d_undirected d" "d_prev d ! d_source d = - 1" using t by (auto simp: tree_inv_def)
  note g = int_get_seen[OF s(1)]
  show ?thesis
  proof (cases "v = d_source d \<or> \<not> d_seen d ! u \<or> \<not> d_seen d ! v")
    case True
    then consider "v = d_source d" | "v \<noteq> d_source d" "\<not> d_seen d ! u" | "v \<noteq> d_source d" "d_seen d ! u" "\<not> d_seen d ! v"
      by blast
    then show ?thesis
    proof cases
      case 1
      then show ?thesis using s(2,3) by (intro exI[of _ True]) (simp add: no_effect_def harmless_def)
    next
      case 2
      have "\<not> (d_seen d ! v \<and> d_prev d ! v = int e)"
      proof
        assume v: "d_seen d ! v \<and> d_prev d ! v = int e"
        obtain p f where p: "d_prev d ! v = int f" "joins g p v f" "d_seen d ! p"
          by (rule tree_parent[OF t n(2) conjunct1[OF v] 2(1)])
        have "f = e" using v p(1) by simp
        then have "p = u" using joins_unique[OF j] p(2) by blast
        then show False using 2(2) p(3) by simp
      qed
      then show ?thesis using s(2) 2 g[OF n(1)] by (auto simp: no_effect_def harmless_def)
    next
      case 3
      then show ?thesis using s(2) g[OF n(1)] g[OF n(2)] by (auto simp: no_effect_def harmless_def kept_by_def)
    qed
  next
    case False
    then have v: "v \<noteq> d_source d" "d_seen d ! u" "d_seen d ! v" by auto
    obtain p f where p: "d_prev d ! v = int f" "joins g p v f" "d_seen d ! p" "previous g d (int v) = Some (int p)"
      by (rule tree_parent[OF t n(2) v(3,1)])
    have "int_get (d_seen d) (int p) = Some True" using g joins_nodes[OF ok p(2)] p(3) by simp
    then have "no_effect g d (int u) (int v) = Some (p \<noteq> u)"
      using v s(2) g[OF n(1)] g[OF n(2)] p(4) by (simp add: no_effect_def harmless_def kept_by_def)
    moreover have "p = u" if "d_prev d ! v = int e"
    proof -
      have "f = e" using that p(1) by simp
      then show ?thesis using joins_unique[OF j] p(2) by blast
    qed
    ultimately show ?thesis using v(1) by auto
  qed
qed

lemma drop_change:
  assumes "inc_inv g (c # cs) d" "\<not> ec_addition c"
    "g_status g ! ec_id c \<or> (\<forall>v < g_num_nodes g. d_seen d ! v \<longrightarrow> d_prev d ! v \<noteq> int (ec_id c))"
  shows "inc_inv g cs d"
proof -
  have "\<exists>u e. d_prev d ! v = int e \<and> joins g u v e \<and> (g_status g ! e \<or> pending_off cs e)"
    if v: "v < g_num_nodes g" "d_seen d ! v" "v \<noteq> d_source d" for v
  proof -
    have t: "tree_inv g (c # cs) d" using assms(1) by (simp add: inc_inv_def)
    obtain u e where ue: "d_prev d ! v = int e" "joins g u v e" "g_status g ! e \<or> pending_off (c # cs) e"
      by (rule tree_parent[OF t v])
    have "g_status g ! e \<or> pending_off cs e" using ue(1,3) assms(2,3) v(1,2) by auto
    then show ?thesis using ue(1,2) by blast
  qed
  moreover have "d_seen d ! v \<or> pending_on cs e" if "d_seen d ! u" "joins g u v e" "g_status g ! e" for u v e
    using assms(1,2) that by (auto simp: inc_inv_def)
  ultimately show ?thesis using assms(1) unfolding inc_inv_def tree_inv_def by blast
qed

subsection \<open>Added edges\<close>

text \<open>After a forward search from nodes whose successors are all that is missing.\<close>

lemma linked_marked:
  assumes "sized g d" "d_source d < g_num_nodes g" "linked g d u" "v < g_num_nodes g" "\<not> d_seen d ! v"
    "arc g (d_undirected d) u v e" "\<And>x. x < g_num_nodes g \<Longrightarrow> d_seen d ! x \<Longrightarrow> linked g d x" "x < g_num_nodes g"
    "d_seen (marked v e d) ! x"
  shows "linked g (marked v e d) x"
proof -
  have old: "linked g (marked v e d) y" if "linked g d y" for y
    by (rule linked_mono[OF that]) (use assms(1,2,4,5) in \<open>auto simp: sized_def nth_list_update\<close>)
  show ?thesis
  proof (cases "x = v")
    case True
    have "linked g (marked v e d) v"
      by (rule linked.link[OF old[OF assms(3)]]) (use assms(1,4,6) in \<open>auto simp: sized_def\<close>)
    then show ?thesis using True by simp
  next
    case False
    then show ?thesis using old assms(7-9) by simp
  qed
qed

lemma search_keeps_tree:
  assumes ok: "graph_ok g" and t: "tree_inv g cs d" and q: "\<forall>u \<in> set q. u < g_num_nodes g \<and> d_seen d ! u"
  obtains d' where "search rep g q d = Some d'" "tree_inv g cs d'" "grown g d d'"
    "\<forall>u < g_num_nodes g. d_seen d' ! u \<longrightarrow> d_seen d ! u \<and> u \<notin> set q \<or> closed_at g d' u"
proof -
  have s: "sized g d" "d_source d < g_num_nodes g" "\<not> d_undirected d" "d_prev d ! d_source d = - 1" "d_seen d ! d_source d"
    and l: "\<And>v. v < g_num_nodes g \<Longrightarrow> d_seen d ! v \<Longrightarrow> linked g d v"
    using t by (auto simp: tree_inv_def)
  obtain d' where d': "search rep g q d = Some d'" "grown g d d'"
    "\<forall>u < g_num_nodes g. d_seen d' ! u \<longrightarrow> d_seen d ! u \<and> u \<notin> set q \<or> closed_at g d' u"
    using search_spec[OF ok s(1) q order.refl, of rep] by (fastforce simp: settled_at_def)
  have f: "frame_of d' = frame_of d" "sized g d'" using grown_frame[OF d'(2)] s(1) by auto
  note ff = frame_ofD(1,2)[OF f(1)]
  have "\<exists>u e. d_prev d' ! v = int e \<and> joins g u v e \<and> (g_status g ! e \<or> pending_off cs e)"
    if v: "v < g_num_nodes g" "d_seen d' ! v" "v \<noteq> d_source d'" for v
  proof (cases "d_seen d ! v")
    case True
    have "v \<noteq> d_source d" using v(3) ff by simp
    then obtain u e where "d_prev d ! v = int e" "joins g u v e" "g_status g ! e \<or> pending_off cs e"
      using tree_parent[OF t v(1) True] by metis
    then show ?thesis using grown_keeps[OF d'(2) s(1) v(1) True] by auto
  next
    case False
    then show ?thesis using grown_new[OF d'(2) s(1) v(1,2)] s(3) by auto
  qed
  moreover have "linked g d' v" if "v < g_num_nodes g" "d_seen d' ! v" for v
    by (rule grown_linked[OF d'(2) s(1,2) l that])
  moreover have "d_seen d' ! d_source d' \<and> d_prev d' ! d_source d' = - 1"
    using grown_keeps[OF d'(2) s(1,2,5)] s(4) ff by simp
  ultimately have "tree_inv g cs d'" using f s(2,3) ff unfolding tree_inv_def by auto
  then show thesis using that[OF d'(1) _ d'(2,3)] by blast
qed

lemma tree_inv_marked:
  assumes ok: "graph_ok g" and t: "tree_inv g cs d" and j: "joins g u v e" and m: "d_seen d ! u" "\<not> d_seen d ! v"
    and e: "g_status g ! e \<or> pending_off cs e"
  shows "tree_inv g cs (marked v e d)"
proof -
  have n: "u < g_num_nodes g" "v < g_num_nodes g" using joins_nodes[OF ok j] by auto
  have s: "sized g d" "d_source d < g_num_nodes g" "\<not> d_undirected d" "d_prev d ! d_source d = - 1" "d_seen d ! d_source d"
    and l: "\<And>v. v < g_num_nodes g \<Longrightarrow> d_seen d ! v \<Longrightarrow> linked g d v"
    using t by (auto simp: tree_inv_def)
  have "linked g (marked v e d) x" if "x < g_num_nodes g" "d_seen (marked v e d) ! x" for x
    by (rule linked_marked[OF s(1,2) l[OF n(1) m(1)] n(2) m(2) _ l that]) (use j s(3) in \<open>simp_all\<close>)
  moreover have "\<exists>y f. d_prev (marked v e d) ! x = int f \<and> joins g y x f \<and> (g_status g ! f \<or> pending_off cs f)"
    if x: "x < g_num_nodes g" "d_seen (marked v e d) ! x" "x \<noteq> d_source d" for x
  proof (cases "x = v")
    case True
    then show ?thesis using j e s(1) n(2) by (auto simp: sized_def)
  next
    case False
    then have sx: "d_seen d ! x" using x(2) by simp
    obtain y f where "d_prev d ! x = int f" "joins g y x f" "g_status g ! f \<or> pending_off cs f"
      by (rule tree_parent[OF t x(1) sx x(3)])
    then show ?thesis using False by auto
  qed
  moreover have "v \<noteq> d_source d" using m(2) s(5) by blast
  ultimately show ?thesis using s n unfolding tree_inv_def by (auto simp: sized_def)
qed

text \<open>Marking the far end of an edge and searching on from it.\<close>

lemma mark_and_search:
  assumes ok: "graph_ok g" and t: "tree_inv g cs d" and j: "joins g u v e" and m: "d_seen d ! u" "\<not> d_seen d ! v"
    and e: "g_status g ! e \<or> pending_off cs e"
  obtains d' where "Option.bind (mark (int v) (int e) d) (add_update g (int v) upd) = Some d'" "tree_inv g cs d'"
    "frame_of d' = frame_of d" "\<forall>x < g_num_nodes g. d_seen d ! x \<longrightarrow> d_seen d' ! x" "d_seen d' ! v"
    "\<forall>x < g_num_nodes g. d_seen d' ! x \<longrightarrow> d_seen d ! x \<or> closed_at g d' x"
proof -
  have n: "u < g_num_nodes g" "v < g_num_nodes g" using joins_nodes[OF ok j] by auto
  have s: "sized g d" using t by (auto simp: tree_inv_def)
  have mk: "mark (int v) (int e) d = Some (marked v e d)" using n(2) s by (intro mark_eq) (auto simp: sized_def)
  have t1: "tree_inv g cs (marked v e d)" by (rule tree_inv_marked[OF ok t j m e])
  have q: "\<forall>u \<in> set [v]. u < g_num_nodes g \<and> d_seen (marked v e d) ! u" using n(2) s by (simp add: sized_def)
  obtain d' where d': "search upd g [v] (marked v e d) = Some d'" "tree_inv g cs d'" "grown g (marked v e d) d'"
    "\<forall>u < g_num_nodes g. d_seen d' ! u \<longrightarrow> d_seen (marked v e d) ! u \<and> u \<notin> set [v] \<or> closed_at g d' u"
    by (rule search_keeps_tree[OF ok t1 q, where rep = upd])
  have s1: "sized g (marked v e d)" using s by simp
  have k: "d_seen d' ! x" if "x < g_num_nodes g" "d_seen (marked v e d) ! x" for x
    using grown_keeps[OF d'(3) s1 that] by blast
  show thesis
  proof (rule that[of d'])
    show "Option.bind (mark (int v) (int e) d) (add_update g (int v) upd) = Some d'" using mk d'(1) by (simp add: add_update_def)
    show "tree_inv g cs d'" by (rule d'(2))
    show "frame_of d' = frame_of d" using grown_frame[OF d'(3)] by simp
    show "d_seen d' ! v" using k[OF n(2)] q by simp
    have "d_seen d' ! x" if "x < g_num_nodes g" "d_seen d ! x" for x
      using k[OF that(1)] that s n(2) by (auto simp: sized_def nth_list_update)
    then show "\<forall>x < g_num_nodes g. d_seen d ! x \<longrightarrow> d_seen d' ! x" by blast
    have "d_seen d ! x \<or> closed_at g d' x" if "x < g_num_nodes g" "d_seen d' ! x" for x
      using d'(4) that by (cases "x = v") auto
    then show "\<forall>x < g_num_nodes g. d_seen d' ! x \<longrightarrow> d_seen d ! x \<or> closed_at g d' x" by blast
  qed
qed

lemma edge_ends_joins: "joins g u v e \<Longrightarrow> edge_ends g e = Some (int u, int v)"
  by (simp add: edge_ends_def joins_def isEdge_def)

lemma add_edge_spec:
  assumes ok: "graph_ok g" and i: "inc_inv g (c # cs) d" and c: "ec_addition c" "joins g u v (ec_id c)"
    and e: "g_status g ! ec_id c \<or> pending_off cs (ec_id c)"
  obtains d' where "add_edge g upd (ec_id c) (int u) (int v) d = Some d'" "inc_inv g cs d'" "frame_of d' = frame_of d"
proof -
  have n: "u < g_num_nodes g" "v < g_num_nodes g" using joins_nodes[OF ok c(2)] by auto
  have t: "tree_inv g cs d" using i c(1) by (simp add: inc_inv_def tree_inv_def)
  have s: "sized g d" "\<not> d_undirected d" using t by (auto simp: tree_inv_def)
  have cl: "d_seen d ! y \<or> pending_on cs f \<or> f = ec_id c" if "d_seen d ! x" "joins g x y f" "g_status g ! f" for x y f
    using i that by (auto simp: inc_inv_def)
  show thesis
  proof (cases "d_seen d ! u \<and> \<not> d_seen d ! v")
    case True
    obtain d' where d': "Option.bind (mark (int v) (int (ec_id c)) d) (add_update g (int v) upd) = Some d'" "tree_inv g cs d'"
      "frame_of d' = frame_of d" "\<forall>x < g_num_nodes g. d_seen d ! x \<longrightarrow> d_seen d' ! x" "d_seen d' ! v"
      "\<forall>x < g_num_nodes g. d_seen d' ! x \<longrightarrow> d_seen d ! x \<or> closed_at g d' x"
      by (rule mark_and_search[OF ok t c(2) conjunct1[OF True] conjunct2[OF True] e, where upd = upd])
    have "add_edge g upd (ec_id c) (int u) (int v) d = Some d'"
      using True int_get_seen[OF s(1) n(1)] int_get_seen[OF s(1) n(2)] d'(1) by (simp add: add_edge_def)
    moreover have "d_seen d' ! y \<or> pending_on cs f" if a: "d_seen d' ! x" "joins g x y f" "g_status g ! f" for x y f
    proof (cases "d_seen d ! x")
      case True
      have ny: "y < g_num_nodes g" using joins_nodes[OF ok a(2)] by blast
      show ?thesis
      proof (cases "f = ec_id c")
        case f: True
        have "y = v" using joins_unique[OF c(2) a(2)[unfolded f]] by blast
        then show ?thesis using d'(5) by simp
      next
        case False
        then show ?thesis using cl[OF True a(2,3)] d'(4) ny by blast
      qed
    next
      case False
      then have "closed_at g d' x" using d'(6) joins_nodes[OF ok a(2)] a(1) by blast
      then show ?thesis using a frame_ofD(2)[OF d'(3)] s(2) by (auto simp: closed_at_def)
    qed
    ultimately show thesis using that[of d'] d'(2,3) unfolding inc_inv_def by blast
  next
    case False
    have "add_edge g upd (ec_id c) (int u) (int v) d = Some d"
      using False int_get_seen[OF s(1) n(1)] int_get_seen[OF s(1) n(2)] s(2) by (auto simp: add_edge_def)
    moreover have "d_seen d ! y \<or> pending_on cs f" if a: "d_seen d ! x" "joins g x y f" "g_status g ! f" for x y f
    proof (cases "f = ec_id c")
      case f: True
      have "x = u \<and> y = v" using joins_unique[OF c(2) a(2)[unfolded f]] by blast
      then show ?thesis using False a(1) by simp
    next
      case False
      then show ?thesis using cl[OF a] by blast
    qed
    ultimately show thesis using that[of d] t unfolding inc_inv_def by blast
  qed
qed

lemma isEdge_joins:
  assumes "graph_ok g" "isEdge g e"
  obtains u v where "joins g u v e"
proof
  show "joins g (nat (edge_from g e)) (nat (edge_to g e)) e"
    using isEdge_in[of g e] assms by (simp add: joins_def graph_ok_def)
qed

lemma drop_unused:
  assumes ok: "graph_ok g" and i: "inc_inv g (c # cs) d" and c: "\<not> ec_addition c" "joins g u v (ec_id c)"
    and n: "\<not> (d_seen d ! v \<and> d_prev d ! v = int (ec_id c))"
  shows "inc_inv g cs d"
proof -
  have t: "tree_inv g (c # cs) d" using i by (simp add: inc_inv_def)
  have "d_prev d ! x \<noteq> int (ec_id c)" if x: "x < g_num_nodes g" "d_seen d ! x" for x
  proof
    assume p: "d_prev d ! x = int (ec_id c)"
    have ns: "x \<noteq> d_source d" using p t by (auto simp: tree_inv_def)
    obtain y f where yf: "d_prev d ! x = int f" "joins g y x f" by (rule tree_parent[OF t x ns])
    have "f = ec_id c" using p yf(1) by simp
    then have "x = v" using joins_unique[OF c(2)] yf(2) by blast
    then show False using n x(2) p by simp
  qed
  then show ?thesis using drop_change[OF i c(1)] by blast
qed

lemma additions_loop_spec:
  assumes ok: "graph_ok g"
  shows "inc_inv g cs d \<Longrightarrow> settles g cs \<Longrightarrow> map (getChange g) is = map Some cs \<Longrightarrow>
    \<exists>b d'. additions_loop g is d = Some (b, d') \<and> settings d d' \<and> sized g d' \<and> d_history_qhead d' = d_history_qhead d \<and>
      (b \<longrightarrow> inc_inv g [] d')"
proof (induction cs arbitrary: d "is")
  case Nil
  then show ?case by (auto simp: settings_def inc_inv_def tree_inv_def)
next
  case (Cons c cs)
  obtain i "is'" where is_eq: "is = i # is'" "getChange g i = Some c" "map (getChange g) is' = map Some cs"
    using Cons.prems(3) by auto
  obtain u v where j: "joins g u v (ec_id c)"
    using isEdge_joins[OF ok] Cons.prems(2) by auto
  note ee = edge_ends_joins[OF j]
  show ?case
  proof (cases "ec_addition c")
    case True
    have e: "g_status g ! ec_id c \<or> pending_off cs (ec_id c)" using Cons.prems(2) True by auto
    obtain d1 where d1: "add_edge g True (ec_id c) (int u) (int v) d = Some d1" "inc_inv g cs d1" "frame_of d1 = frame_of d"
      by (rule add_edge_spec[OF ok Cons.prems(1) True j e, where upd = True])
    have st: "settings d d1" "d_history_qhead d1 = d_history_qhead d" using frame_ofD[OF d1(3)] by (simp_all add: settings_def)
    have "\<exists>b d'. additions_loop g is' d1 = Some (b, d') \<and> settings d1 d' \<and> sized g d' \<and>
        d_history_qhead d' = d_history_qhead d1 \<and> (b \<longrightarrow> inc_inv g [] d')"
      using Cons.IH[OF d1(2) _ is_eq(3)] Cons.prems(2) by simp
    then show ?thesis using st is_eq ee True d1(1) by (auto simp: settings_def)
  next
    case False
    have t: "tree_inv g (c # cs) d" using Cons.prems(1) by (simp add: inc_inv_def)
    obtain b where b: "no_effect g d (int u) (int v) = Some b" "b \<longrightarrow> \<not> (d_seen d ! v \<and> d_prev d ! v = int (ec_id c))"
      using no_effect_spec[OF ok t j] by blast
    show ?thesis
    proof (cases b)
      case True
      have "inc_inv g cs d" by (rule drop_unused[OF ok Cons.prems(1) False j]) (use b(2) True in blast)
      then have "\<exists>b d'. additions_loop g is' d = Some (b, d') \<and> settings d d' \<and> sized g d' \<and>
          d_history_qhead d' = d_history_qhead d \<and> (b \<longrightarrow> inc_inv g [] d')"
        using Cons.IH[OF _ _ is_eq(3)] Cons.prems(2) by simp
      then show ?thesis using is_eq ee False b(1) True by auto
    next
      case nb: False
      then show ?thesis using is_eq ee False b(1) t by (auto simp: settings_def tree_inv_def sized_def)
    qed
  qed
qed

subsection \<open>Deleted edges\<close>

definition parent_of :: "'w dgraph \<Rightarrow> dfs \<Rightarrow> nat \<Rightarrow> nat \<Rightarrow> bool" where
  "parent_of g d x p \<longleftrightarrow> (\<exists>e. joins g p x e \<and> d_prev d ! x = int e)"

text \<open>\<open>pruned\<close>: nodes of the tree of \<open>d0\<close> have been unmarked and put into \<open>chk\<close>; what is left hangs together, except
  for children of the nodes in \<open>Q\<close>.\<close>

definition pruned :: "'w dgraph \<Rightarrow> dfs \<Rightarrow> nat set \<Rightarrow> nat list \<Rightarrow> dfs \<Rightarrow> bool" where
  "pruned g d0 Q chk d \<longleftrightarrow> frame_of d = frame_of d0 \<and> sized g d \<and> d_seen d ! d_source d0 \<and>
     (\<forall>x < g_num_nodes g. d_seen d ! x \<longrightarrow> d_seen d0 ! x \<and> d_prev d ! x = d_prev d0 ! x) \<and>
     (\<forall>x \<in> Q. x < g_num_nodes g \<and> \<not> d_seen d ! x) \<and> (\<forall>x \<in> set chk. x < g_num_nodes g) \<and>
     (\<forall>x < g_num_nodes g. d_seen d0 ! x \<and> \<not> d_seen d ! x \<longrightarrow> x \<in> set chk) \<and>
     (\<forall>x p. x < g_num_nodes g \<and> d_seen d ! x \<and> parent_of g d0 x p \<and> \<not> d_seen d ! p \<longrightarrow> p \<in> Q)"

lemma prunedD:
  assumes "pruned g d0 Q chk d"
  shows "frame_of d = frame_of d0" "sized g d" "d_seen d ! d_source d0"
    "\<And>x. x < g_num_nodes g \<Longrightarrow> d_seen d ! x \<Longrightarrow> d_seen d0 ! x"
    "\<And>x. x < g_num_nodes g \<Longrightarrow> d_seen d ! x \<Longrightarrow> d_prev d ! x = d_prev d0 ! x"
    "\<And>x. x \<in> Q \<Longrightarrow> x < g_num_nodes g" "\<And>x. x \<in> Q \<Longrightarrow> \<not> d_seen d ! x" "\<And>x. x \<in> set chk \<Longrightarrow> x < g_num_nodes g"
    "\<And>x. x < g_num_nodes g \<Longrightarrow> d_seen d0 ! x \<Longrightarrow> \<not> d_seen d ! x \<Longrightarrow> x \<in> set chk"
    "\<And>x p. x < g_num_nodes g \<Longrightarrow> d_seen d ! x \<Longrightarrow> parent_of g d0 x p \<Longrightarrow> \<not> d_seen d ! p \<Longrightarrow> p \<in> Q"
  using assms unfolding pruned_def by blast+

lemma pruned_undirected:
  assumes "pruned g d0 Q chk d" "tree_inv g cs d0"
  shows "d_undirected d = False"
proof -
  have "d_undirected d = d_undirected d0" by (rule frame_ofD(2)[OF prunedD(1)[OF assms(1)]])
  moreover have "\<not> d_undirected d0" using assms(2) unfolding tree_inv_def by blast
  ultimately show ?thesis by simp
qed

lemma pruned_smaller:
  assumes "pruned g d0 (insert u Q) chk d" "\<And>x. x < g_num_nodes g \<Longrightarrow> parent_of g d0 x u \<Longrightarrow> \<not> d_seen d ! x"
  shows "pruned g d0 Q chk d"
proof -
  have "p \<in> Q" if "x < g_num_nodes g" "d_seen d ! x" "parent_of g d0 x p" "\<not> d_seen d ! p" for x p
    using prunedD(10)[OF assms(1) that] assms(2)[OF that(1)] that(2,3) by blast
  moreover have "x < g_num_nodes g \<and> \<not> d_seen d ! x" if "x \<in> Q" for x
    using prunedD(6,7)[OF assms(1), of x] that by simp
  ultimately show ?thesis unfolding pruned_def using prunedD(1-5,8,9)[OF assms(1)] by blast
qed

lemma parent_of_unique:
  assumes "parent_of g d x p" "parent_of g d x q"
  shows "p = q"
proof -
  obtain e f where ef: "joins g p x e" "d_prev d ! x = int e" "joins g q x f" "d_prev d ! x = int f"
    using assms unfolding parent_of_def by blast
  then have "f = e" by simp
  then show ?thesis using joins_unique[OF ef(3)] ef(1) by blast
qed

lemma parent_of_nodes: "graph_ok g \<Longrightarrow> parent_of g d x p \<Longrightarrow> x < g_num_nodes g \<and> p < g_num_nodes g"
  unfolding parent_of_def using joins_nodes by blast

lemma tree_parent_of:
  assumes "tree_inv g cs d" "x < g_num_nodes g" "d_seen d ! x" "x \<noteq> d_source d"
  obtains p where "parent_of g d x p" "d_seen d ! p" "previous g d (int x) = Some (int p)"
proof -
  obtain u e where "d_prev d ! x = int e" "joins g u x e" "d_seen d ! u" "previous g d (int x) = Some (int u)"
    by (rule tree_parent[OF assms])
  then show thesis using that unfolding parent_of_def by blast
qed

lemma pruned_previous:
  assumes t: "tree_inv g cs d0" and p: "pruned g d0 Q chk d" and x: "x < g_num_nodes g" "d_seen d ! x"
  shows "\<exists>r. previous g d (int x) = Some r \<and> (r = int u \<longleftrightarrow> x \<noteq> d_source d0 \<and> parent_of g d0 x u)"
proof -
  have e: "d_prev d ! x = d_prev d0 ! x" "d_seen d0 ! x" using prunedD(5)[OF p x] prunedD(4)[OF p x] by auto
  have s: "sized g d" "d_undirected d = False" "d_undirected d0 = False" "sized g d0"
    using prunedD(2)[OF p] pruned_undirected[OF p t] t by (auto simp: tree_inv_def)
  have pr: "previous g d (int x) = previous g d0 (int x)"
    using e(1) s x(1) by (simp add: previous_def incomingEdge_def int_get_def sized_def)
  show ?thesis
  proof (cases "x = d_source d0")
    case True
    then show ?thesis using previous_source[OF t] pr by auto
  next
    case False
    obtain q where q: "parent_of g d0 x q" "previous g d0 (int x) = Some (int q)"
      by (rule tree_parent_of[OF t x(1) e(2) False])
    have "parent_of g d0 x u \<longleftrightarrow> q = u" using parent_of_unique[OF q(1)] q(1) by blast
    then show ?thesis using pr False q(2) by simp
  qed
qed

lemma unmark_eq: "v < length (d_seen d) \<Longrightarrow> v < length (d_prev d) \<Longrightarrow>
  unmark_node (int v) d = Some (d\<lparr>d_seen := (d_seen d)[v := False], d_prev := (d_prev d)[v := - 1]\<rparr>)"
  by (simp add: unmark_node_def int_set_def)

lemma pruned_unmark:
  assumes ok: "graph_ok g" and p: "pruned g d0 Q chk d" and v: "v < g_num_nodes g" "v \<noteq> d_source d0"
  shows "\<exists>d'. unmark_node (int v) d = Some d' \<and> pruned g d0 (insert v Q) (chk @ [v]) d' \<and> \<not> d_seen d' ! v \<and>
    (\<forall>x < g_num_nodes g. d_seen d' ! x \<longrightarrow> d_seen d ! x)"
proof -
  let ?d = "d\<lparr>d_seen := (d_seen d)[v := False], d_prev := (d_prev d)[v := - 1]\<rparr>"
  have s: "sized g d" by (rule prunedD(2)[OF p])
  have "unmark_node (int v) d = Some ?d" using s v by (intro unmark_eq) (auto simp: sized_def)
  moreover have sn: "d_seen ?d ! x \<longleftrightarrow> x \<noteq> v \<and> d_seen d ! x" if "x < g_num_nodes g" for x
    using s v that by (auto simp: sized_def nth_list_update)
  moreover have "pruned g d0 (insert v Q) (chk @ [v]) ?d"
  proof -
    have f: "frame_of ?d = frame_of d0" "sized g ?d" using prunedD(1)[OF p] s by (simp_all add: frame_of_def sized_def)
    have r: "d_seen ?d ! d_source d0" using prunedD(3)[OF p] v(2) by simp
    have a: "d_seen d0 ! x \<and> d_prev ?d ! x = d_prev d0 ! x" if "x < g_num_nodes g" "d_seen ?d ! x" for x
      using prunedD(4,5)[OF p that(1)] that(2) sn[OF that(1)] by simp
    have b: "x < g_num_nodes g \<and> \<not> d_seen ?d ! x" if "x \<in> insert v Q" for x
    proof (cases "x = v")
      case False
      then have "x \<in> Q" using that by simp
      then show ?thesis using prunedD(6,7)[OF p] sn by blast
    qed (use v(1) sn in simp)
    have c: "x \<in> set (chk @ [v])" if "x < g_num_nodes g" "d_seen d0 ! x" "\<not> d_seen ?d ! x" for x
      using prunedD(9)[OF p that(1,2)] that(3) sn[OF that(1)] by auto
    have k: "x < g_num_nodes g" if "x \<in> set (chk @ [v])" for x
      using prunedD(8)[OF p] that v(1) by auto
    have e: "q \<in> insert v Q" if "x < g_num_nodes g" "d_seen ?d ! x" "parent_of g d0 x q" "\<not> d_seen ?d ! q" for x q
    proof -
      have "q < g_num_nodes g" using parent_of_nodes[OF ok that(3)] by blast
      then have "q = v \<or> \<not> d_seen d ! q" using sn that(4) by blast
      then show ?thesis using prunedD(10)[OF p that(1) _ that(3)] sn[OF that(1)] that(2) by blast
    qed
    show ?thesis unfolding pruned_def using f r a b c e k by blast
  qed
  ultimately show ?thesis using v by (intro exI[of _ ?d]) auto
qed

lemma unmark_children_spec:
  assumes ok: "graph_ok g" and t: "tree_inv g cs d0" and u: "u < g_num_nodes g"
  shows "pruned g d0 (insert u (set q)) chk d \<Longrightarrow> \<forall>i \<in> set is. i < length (out_arcs g False u) \<Longrightarrow>
    \<exists>q' chk' d'. unmark_children g u is q chk d = Some (q @ q', chk', d') \<and> pruned g d0 (insert u (set (q @ q'))) chk' d' \<and>
      (\<forall>x < g_num_nodes g. d_seen d' ! x \<longrightarrow> d_seen d ! x) \<and>
      (\<forall>x < g_num_nodes g. d_seen d' ! x \<and> x \<noteq> d_source d0 \<and> parent_of g d0 x u \<longrightarrow>
         \<not> (\<exists>i \<in> set is. \<exists>e. out_arcs g False u ! i = (x, e)))"
proof (induction "is" arbitrary: q chk d)
  case Nil
  then show ?case by (intro exI[of _ "[]"] exI[of _ chk] exI[of _ d]) simp
next
  case (Cons i "is")
  obtain v e where ve: "out_arcs g False u ! i = (v, e)" by (cases "out_arcs g False u ! i")
  have i: "i < length (out_arcs g False u)" "\<forall>i \<in> set is. i < length (out_arcs g False u)" using Cons.prems(2) by auto
  have und: "\<not> d_undirected d" using pruned_undirected[OF Cons.prems(1) t] by simp
  have inc: "incident g u i (d_undirected d) = Some (v, e)" using incident_arcs(2)[OF ok u] i ve und by simp
  have "(v, e) \<in> set (out_arcs g False u)" using i ve by (metis nth_mem)
  then have v: "v < g_num_nodes g" using incident_arcs(5)[OF ok u] joins_nodes[OF ok] by auto
  have s: "sized g d" by (rule prunedD(2)[OF Cons.prems(1)])
  then have sv: "get_at (d_seen d) v = Some (d_seen d ! v)" using v by (simp add: sized_def)
  show ?case
  proof (cases "d_seen d ! v \<and> v \<noteq> d_source d0 \<and> parent_of g d0 v u")
    case True
    have p: "previous g d (int v) = Some (int u)"
      using pruned_previous[OF t Cons.prems(1) v, of u] True by auto
    obtain d1 where d1: "unmark_node (int v) d = Some d1" "pruned g d0 (insert v (insert u (set q))) (chk @ [v]) d1"
      "\<not> d_seen d1 ! v" "\<forall>x < g_num_nodes g. d_seen d1 ! x \<longrightarrow> d_seen d ! x"
      using pruned_unmark[OF ok Cons.prems(1) v] True by blast
    have "pruned g d0 (insert u (set (q @ [v]))) (chk @ [v]) d1" using d1(2) by (simp add: insert_commute)
    then obtain q' chk' d' where r: "unmark_children g u is (q @ [v]) (chk @ [v]) d1 = Some ((q @ [v]) @ q', chk', d')"
      "pruned g d0 (insert u (set ((q @ [v]) @ q'))) chk' d'" "\<forall>x < g_num_nodes g. d_seen d' ! x \<longrightarrow> d_seen d1 ! x"
      "\<forall>x < g_num_nodes g. d_seen d' ! x \<and> x \<noteq> d_source d0 \<and> parent_of g d0 x u \<longrightarrow>
         \<not> (\<exists>i \<in> set is. \<exists>e. out_arcs g False u ! i = (x, e))"
      using Cons.IH[of "q @ [v]" "chk @ [v]" d1] i(2) by auto
    have "unmark_children g u (i # is) q chk d = Some (q @ v # q', chk', d')"
      using inc sv True p d1(1) r(1) by simp
    then show ?thesis using r(2-4) d1(3,4) ve by (intro exI[of _ "v # q'"] exI[of _ chk'] exI[of _ d']) auto
  next
    case False
    have c: "unmark_children g u (i # is) q chk d = unmark_children g u is q chk d"
    proof (cases "d_seen d ! v")
      case True
      then obtain r where "previous g d (int v) = Some r" "r \<noteq> int u"
        using pruned_previous[OF t Cons.prems(1) v True, of u] False by auto
      then show ?thesis using inc sv True by simp
    next
      case nsv: False
      then show ?thesis using inc sv by simp
    qed
    obtain q' chk' d' where r: "unmark_children g u is q chk d = Some (q @ q', chk', d')"
      "pruned g d0 (insert u (set (q @ q'))) chk' d'" "\<forall>x < g_num_nodes g. d_seen d' ! x \<longrightarrow> d_seen d ! x"
      "\<forall>x < g_num_nodes g. d_seen d' ! x \<and> x \<noteq> d_source d0 \<and> parent_of g d0 x u \<longrightarrow>
         \<not> (\<exists>i \<in> set is. \<exists>e. out_arcs g False u ! i = (x, e))"
      using Cons.IH[OF Cons.prems(1) i(2)] by blast
    then show ?thesis unfolding c using False ve by (intro exI[of _ q'] exI[of _ chk'] exI[of _ d']) auto
  qed
qed

lemma unmark_below_spec:
  assumes ok: "graph_ok g" and t: "tree_inv g cs d0"
  shows "pruned g d0 (set q) chk d \<Longrightarrow> \<exists>chk' d'. unmark_below g q chk d = Some (chk', d') \<and> pruned g d0 {} chk' d' \<and>
    (\<forall>x < g_num_nodes g. d_seen d' ! x \<longrightarrow> d_seen d ! x)"
  using ok t
proof (induction g q chk d rule: unmark_below.induct)
  case (1 g q chk d)
  show ?case
  proof (cases "q = []")
    case True
    then show ?thesis using 1(2) by (subst unmark_below.simps) simp
  next
    case ne: False
    let ?u = "last q" and ?k = "length (out_arcs g False (last q))"
    have iq: "set q = insert ?u (set (butlast q))"
      using ne by (metis append_butlast_last_id list.simps(15) rotate1.simps(2) set_rotate1)
    have u: "?u < g_num_nodes g" "\<not> d_seen d ! ?u" using prunedD(6,7)[OF 1(2)] iq by auto
    have und: "d_undirected d = False" by (rule pruned_undirected[OF 1(2,4)])
    have su: "get_at (d_seen d) ?u = Some False" using u prunedD(2)[OF 1(2)] by (simp add: sized_def)
    have inc: "nIncident g ?u (d_undirected d) = Some ?k" using incident_arcs(1)[OF 1(3) u(1)] und by simp
    obtain q' chk' d' where r: "unmark_children g ?u [0..<?k] (butlast q) chk d = Some (butlast q @ q', chk', d')"
      "pruned g d0 (insert ?u (set (butlast q @ q'))) chk' d'" "\<forall>x < g_num_nodes g. d_seen d' ! x \<longrightarrow> d_seen d ! x"
      "\<forall>x < g_num_nodes g. d_seen d' ! x \<and> x \<noteq> d_source d0 \<and> parent_of g d0 x ?u \<longrightarrow>
         \<not> (\<exists>i \<in> set [0..<?k]. \<exists>e. out_arcs g False ?u ! i = (x, e))"
      using unmark_children_spec[OF 1(3,4) u(1), of "butlast q" chk d "[0..<?k]"] 1(2) iq by auto
    have gone: "\<not> d_seen d' ! x" if x: "x < g_num_nodes g" "parent_of g d0 x ?u" for x
    proof
      assume sx: "d_seen d' ! x"
      obtain e where e: "joins g ?u x e" "d_prev d0 ! x = int e" using x(2) unfolding parent_of_def by blast
      have "x \<noteq> d_source d0" using e(2) 1(4) by (auto simp: tree_inv_def)
      moreover have "(x, e) \<in> set (out_arcs g False ?u)" using incident_arcs(5)[OF 1(3) u(1)] e(1) by simp
      then have "\<exists>i \<in> set [0..<?k]. \<exists>e. out_arcs g False ?u ! i = (x, e)" by (auto simp: in_set_conv_nth)
      ultimately show False using r(4) x sx by blast
    qed
    have "pruned g d0 (set (butlast q @ q')) chk' d'"
      by (rule pruned_smaller[OF r(2) gone])
    then obtain c2 d2 where "unmark_below g (butlast q @ q') chk' d' = Some (c2, d2)" "pruned g d0 {} c2 d2"
      "\<forall>x < g_num_nodes g. d_seen d2 ! x \<longrightarrow> d_seen d' ! x"
      using 1(1)[OF ne su _ inc _ refl refl _ 1(3,4), of "()"] r(1) und by auto
    then show ?thesis using ne su inc r(1,3) und by (subst unmark_below.simps) auto
  qed
qed

lemma pruned_tree:
  assumes ok: "graph_ok g" and t: "tree_inv g (c # cs) d0" and p: "pruned g d0 {} chk d"
    and c: "\<And>x. x < g_num_nodes g \<Longrightarrow> d_seen d ! x \<Longrightarrow> d_prev d0 ! x \<noteq> int (ec_id c)"
  shows "tree_inv g cs d"
proof -
  have s: "d_source d = d_source d0" "d_undirected d = False" "d_undirected d0 = False"
    using frame_ofD(1)[OF prunedD(1)[OF p]] pruned_undirected[OF p t] t by (auto simp: tree_inv_def)
  have src: "d_source d0 < g_num_nodes g" "d_prev d0 ! d_source d0 = - 1" using t unfolding tree_inv_def by blast+
  have l: "linked g d x" if "linked g d0 x" "d_seen d ! x" "x < g_num_nodes g" for x
    using that
  proof (induction rule: linked.induct)
    case root
    then show ?case using linked.root[of d g] s(1) by simp
  next
    case (link u v e)
    have j: "joins g u v e" using link(4) s(3) by simp
    have "parent_of g d0 v u" using j link(5) unfolding parent_of_def by blast
    then have "d_seen d ! u" using prunedD(10)[OF p link(2,7)] by blast
    moreover have "u < g_num_nodes g" using joins_nodes[OF ok j] by blast
    ultimately have "linked g d u" using link(6) by blast
    then show ?case
      by (rule linked.link[OF _ link(2,7)]) (use j s prunedD(5)[OF p link(2,7)] link(5) in simp_all)
  qed
  have all: "linked g d0 x" if "x < g_num_nodes g" "d_seen d0 ! x" for x using t that unfolding tree_inv_def by blast
  have "\<exists>u e. d_prev d ! x = int e \<and> joins g u x e \<and> (g_status g ! e \<or> pending_off cs e)"
    if x: "x < g_num_nodes g" "d_seen d ! x" "x \<noteq> d_source d" for x
  proof -
    have sx: "d_seen d0 ! x" "d_prev d ! x = d_prev d0 ! x" using prunedD(4,5)[OF p x(1,2)] by auto
    have nx: "x \<noteq> d_source d0" using x(3) s(1) by simp
    obtain u e where ue: "d_prev d0 ! x = int e" "joins g u x e" "g_status g ! e \<or> pending_off (c # cs) e"
      by (rule tree_parent[OF t x(1) sx(1) nx])
    have "e \<noteq> ec_id c" using c[OF x(1,2)] ue(1) by auto
    then have "g_status g ! e \<or> pending_off cs e" using ue(3) by auto
    then show ?thesis using ue(1,2) sx(2) by auto
  qed
  moreover have "d_prev d ! d_source d = - 1" using prunedD(5)[OF p src(1) prunedD(3)[OF p]] src(2) s(1) by simp
  moreover have "linked g d x" if "x < g_num_nodes g" "d_seen d ! x" for x
    using l[OF all that(2,1)] prunedD(4)[OF p that] that by blast
  moreover have "d_source d < g_num_nodes g" "d_seen d ! d_source d" using src(1) prunedD(3)[OF p] s(1) by simp_all
  ultimately show ?thesis using prunedD(2)[OF p] s(2) unfolding tree_inv_def by blast
qed

lemma reach_again_spec:
  assumes ok: "graph_ok g" and t: "tree_inv g cs d" and u: "u < g_num_nodes g" "\<not> d_seen d ! u"
  shows "\<forall>i \<in> set is. i < length (in_arcs g False u) \<Longrightarrow>
    \<exists>d'. reach_again g u is d = Some d' \<and> tree_inv g cs d' \<and> frame_of d' = frame_of d \<and>
      (\<forall>x < g_num_nodes g. d_seen d ! x \<longrightarrow> d_seen d' ! x) \<and>
      (\<forall>x < g_num_nodes g. d_seen d' ! x \<longrightarrow> d_seen d ! x \<or> closed_at g d' x) \<and>
      (d_seen d' ! u \<or> d' = d \<and> (\<forall>i \<in> set is. \<forall>p e. in_arcs g False u ! i = (p, e) \<longrightarrow> \<not> (g_status g ! e \<and> d_seen d ! p)))"
proof (induction "is")
  case Nil
  then show ?case using t by (intro exI[of _ d]) auto
next
  case (Cons i "is")
  obtain p e where pe: "in_arcs g False u ! i = (p, e)" by (cases "in_arcs g False u ! i")
  have i: "i < length (in_arcs g False u)" "\<forall>i \<in> set is. i < length (in_arcs g False u)" using Cons.prems by auto
  have und: "d_undirected d = False" "sized g d" using t unfolding tree_inv_def by auto
  have inc: "incoming g u i (d_undirected d) = Some (p, e)" using incident_arcs(4)[OF ok u(1)] i(1) pe und by simp
  have "(p, e) \<in> set (in_arcs g False u)" using i(1) pe by (metis nth_mem)
  then have j: "joins g p u e" using incident_arcs(6)[OF ok u(1)] by simp
  have en: "edgeEnabled g e = Some (g_status g ! e)" using joins_status[OF ok j] by (simp add: edgeEnabled_def)
  have sp: "get_at (d_seen d) p = Some (d_seen d ! p)" using joins_nodes[OF ok j] und(2) by (simp add: sized_def)
  show ?case
  proof (cases "g_status g ! e \<and> d_seen d ! p")
    case True
    obtain d' where d': "Option.bind (mark (int u) (int e) d) (add_update g (int u) False) = Some d'" "tree_inv g cs d'"
      "frame_of d' = frame_of d" "\<forall>x < g_num_nodes g. d_seen d ! x \<longrightarrow> d_seen d' ! x" "d_seen d' ! u"
      "\<forall>x < g_num_nodes g. d_seen d' ! x \<longrightarrow> d_seen d ! x \<or> closed_at g d' x"
      by (rule mark_and_search[OF ok t j conjunct2[OF True] u(2) disjI1[OF conjunct1[OF True]], where upd = False])
    have "reach_again g u (i # is) d = Some d'" using inc en sp True d'(1) by simp
    then show ?thesis using d'(2-6) by blast
  next
    case False
    have "reach_again g u (i # is) d = reach_again g u is d" using inc en sp False by auto
    then show ?thesis using Cons.IH[OF i(2)] False pe by auto
  qed
qed

text \<open>While the unmarked nodes are looked at again, only they can be missing.\<close>

lemma recheck_spec:
  assumes ok: "graph_ok g"
  shows "tree_inv g cs d \<Longrightarrow> \<forall>y \<in> set us. y < g_num_nodes g \<Longrightarrow>
    (\<And>x y f. d_seen d ! x \<Longrightarrow> joins g x y f \<Longrightarrow> g_status g ! f \<Longrightarrow> d_seen d ! y \<or> pending_on cs f \<or> y \<in> set us) \<Longrightarrow>
    \<exists>d'. recheck g us d = Some d' \<and> inc_inv g cs d' \<and> frame_of d' = frame_of d"
proof (induction us arbitrary: d)
  case Nil
  then show ?case unfolding inc_inv_def by auto
next
  case (Cons u us)
  have u: "u < g_num_nodes g" using Cons.prems(2) by simp
  have und: "d_undirected d = False" "sized g d" using Cons.prems(1) unfolding tree_inv_def by auto
  have su: "get_at (d_seen d) u = Some (d_seen d ! u)" using u und(2) by (simp add: sized_def)
  show ?case
  proof (cases "d_seen d ! u")
    case True
    have cl: "d_seen d ! y \<or> pending_on cs f \<or> y \<in> set us" if "d_seen d ! x" "joins g x y f" "g_status g ! f" for x y f
      using Cons.prems(3)[OF that] True by auto
    have "\<exists>d'. recheck g us d = Some d' \<and> inc_inv g cs d' \<and> frame_of d' = frame_of d"
      using Cons.IH[OF Cons.prems(1) _ cl] Cons.prems(2) by simp
    then show ?thesis using su True by simp
  next
    case False
    let ?k = "length (in_arcs g False u)"
    obtain d1 where d1: "reach_again g u [0..<?k] d = Some d1" "tree_inv g cs d1" "frame_of d1 = frame_of d"
      "\<forall>x < g_num_nodes g. d_seen d ! x \<longrightarrow> d_seen d1 ! x"
      "\<forall>x < g_num_nodes g. d_seen d1 ! x \<longrightarrow> d_seen d ! x \<or> closed_at g d1 x"
      "d_seen d1 ! u \<or> d1 = d \<and> (\<forall>i \<in> set [0..<?k]. \<forall>p e. in_arcs g False u ! i = (p, e) \<longrightarrow> \<not> (g_status g ! e \<and> d_seen d ! p))"
      using reach_again_spec[OF ok Cons.prems(1) u False, of "[0..<?k]"] by auto
    have cl: "d_seen d1 ! y \<or> pending_on cs f \<or> y \<in> set us" if a: "d_seen d1 ! x" "joins g x y f" "g_status g ! f" for x y f
    proof (cases "d_seen d ! x")
      case True
      have n: "x < g_num_nodes g" "y < g_num_nodes g" using joins_nodes[OF ok a(2)] by auto
      have y: "d_seen d ! y \<or> pending_on cs f \<or> y = u \<or> y \<in> set us" using Cons.prems(3)[OF True a(2,3)] by auto
      show ?thesis
      proof (cases "y = u")
        case eq: True
        show ?thesis
        proof (rule ccontr)
          assume "\<not> ?thesis"
          then have "\<forall>i \<in> set [0..<?k]. \<forall>p e. in_arcs g False u ! i = (p, e) \<longrightarrow> \<not> (g_status g ! e \<and> d_seen d ! p)"
            using d1(6) eq by blast
          moreover have "(x, f) \<in> set (in_arcs g False u)" using incident_arcs(6)[OF ok u] a(2) eq by simp
          ultimately show False using a(3) True by (auto simp: in_set_conv_nth)
        qed
      next
        case ne: False
        then show ?thesis using y d1(4) n(2) by blast
      qed
    next
      case nx: False
      then have "closed_at g d1 x" using d1(5) a(1) joins_nodes[OF ok a(2)] by blast
      moreover have "d_undirected d1 = False" using d1(2) unfolding tree_inv_def by simp
      ultimately show ?thesis using a(2,3) unfolding closed_at_def by auto
    qed
    have "\<exists>d'. recheck g us d1 = Some d' \<and> inc_inv g cs d' \<and> frame_of d' = frame_of d1"
      using Cons.IH[OF d1(2) _ cl] Cons.prems(2) by simp
    then show ?thesis using su False incident_arcs(3)[OF ok u, of False] und d1(1,3) by simp
  qed
qed

lemma delete_update_spec:
  assumes ok: "graph_ok g" and i: "inc_inv g (c # cs) d" and c: "\<not> ec_addition c" "joins g u v (ec_id c)" "v \<noteq> d_source d"
  shows "\<exists>d'. delete_update g (int v) d = Some d' \<and> inc_inv g cs d' \<and> frame_of d' = frame_of d"
proof -
  have t: "tree_inv g (c # cs) d" using i unfolding inc_inv_def by blast
  have s: "sized g d" "d_undirected d = False" "d_seen d ! d_source d" "d_prev d ! d_source d = - 1" "d_source d < g_num_nodes g"
    using t unfolding tree_inv_def by auto
  have n: "v < g_num_nodes g" using joins_nodes[OF ok c(2)] by blast
  have p0: "pruned g d {} [] d"
    unfolding pruned_def
  proof (intro conjI allI impI)
    show "p \<in> {}" if a: "x < g_num_nodes g \<and> d_seen d ! x \<and> parent_of g d x p \<and> \<not> d_seen d ! p" for x p
    proof -
      have "x \<noteq> d_source d" using a s(4) unfolding parent_of_def by auto
      then obtain q where "parent_of g d x q" "d_seen d ! q" using tree_parent_of[OF t] a by metis
      then show ?thesis using parent_of_unique a by blast
    qed
  qed (use s in auto)
  obtain d1 where d1: "unmark_node (int v) d = Some d1" "pruned g d {v} [v] d1"
    using pruned_unmark[OF ok p0 n c(3)] by auto
  obtain chk d2 where d2: "unmark_below g [v] [v] d1 = Some (chk, d2)" "pruned g d {} chk d2"
    "\<forall>x < g_num_nodes g. d_seen d2 ! x \<longrightarrow> d_seen d1 ! x"
    using unmark_below_spec[OF ok t, of "[v]" "[v]" d1] d1(2) by auto
  have v2: "\<not> d_seen d2 ! v" using d2(3) n prunedD(7)[OF d1(2), of v] by blast
  have t2: "tree_inv g cs d2"
  proof (rule pruned_tree[OF ok t d2(2)])
    fix x assume x: "x < g_num_nodes g" "d_seen d2 ! x"
    show "d_prev d ! x \<noteq> int (ec_id c)"
    proof
      assume p: "d_prev d ! x = int (ec_id c)"
      have "x \<noteq> d_source d" using p s(4) by auto
      then obtain y f where yf: "d_prev d ! x = int f" "joins g y x f" using tree_parent[OF t x(1) prunedD(4)[OF d2(2) x]] by metis
      then have "f = ec_id c" using p by simp
      then have "x = v" using joins_unique[OF c(2)] yf(2) by blast
      then show False using v2 x(2) by simp
    qed
  qed
  have cl: "d_seen d2 ! y \<or> pending_on cs f \<or> y \<in> set chk" if a: "d_seen d2 ! x" "joins g x y f" "g_status g ! f" for x y f
  proof -
    have nn: "x < g_num_nodes g" "y < g_num_nodes g" using joins_nodes[OF ok a(2)] by auto
    have "d_seen d ! x" by (rule prunedD(4)[OF d2(2) nn(1) a(1)])
    then have "d_seen d ! y \<or> pending_on (c # cs) f" using i a(2,3) unfolding inc_inv_def by blast
    then show ?thesis using prunedD(9)[OF d2(2) nn(2)] c(1) by auto
  qed
  have chk: "\<forall>y \<in> set chk. y < g_num_nodes g" using prunedD(8)[OF d2(2)] by blast
  obtain d3 where r3: "recheck g chk d2 = Some d3" "inc_inv g cs d3" "frame_of d3 = frame_of d2"
  proof -
    have "\<exists>d'. recheck g chk d2 = Some d' \<and> inc_inv g cs d' \<and> frame_of d' = frame_of d2"
      by (rule recheck_spec[OF ok t2 chk]) (rule cl)
    then show thesis using that by blast
  qed
  have "delete_update g (int v) d = recheck g chk d2" using d1(1) d2(1) by (simp add: delete_update_def)
  then show ?thesis using r3 prunedD(1)[OF d2(2)] by auto
qed

lemma incremental_loop_spec:
  assumes ok: "graph_ok g"
  shows "inc_inv g cs d \<Longrightarrow> settles g cs \<Longrightarrow> map (getChange g) is = map Some cs \<Longrightarrow>
    \<exists>d'. incremental_loop g is d = Some d' \<and> inc_inv g [] d' \<and> frame_of d' = frame_of d"
proof (induction cs arbitrary: d "is")
  case Nil
  then show ?case by auto
next
  case (Cons c cs)
  obtain i "is'" where is_eq: "is = i # is'" "getChange g i = Some c" "map (getChange g) is' = map Some cs"
    using Cons.prems(3) by auto
  obtain u v where j: "joins g u v (ec_id c)"
    using isEdge_joins[OF ok] Cons.prems(2) by auto
  note ee = edge_ends_joins[OF j]
  have en: "edgeEnabled g (ec_id c) = Some (g_status g ! ec_id c)" using joins_status[OF ok j] by (simp add: edgeEnabled_def)
  have st: "settles g cs" using Cons.prems(2) by simp
  have t: "tree_inv g (c # cs) d" using Cons.prems(1) unfolding inc_inv_def by blast
  note IH = Cons.IH[OF _ st is_eq(3)]
  have step: ?case if "inc_inv g cs d1" "frame_of d1 = frame_of d" "incremental_loop g (i # is') d = incremental_loop g is' d1" for d1
    using IH[OF that(1)] that(2,3) is_eq(1) by auto
  show ?case
  proof (cases "ec_addition c")
    case add: True
    show ?thesis
    proof (cases "g_status g ! ec_id c")
      case on: True
      obtain d1 where d1: "add_edge g False (ec_id c) (int u) (int v) d = Some d1" "inc_inv g cs d1" "frame_of d1 = frame_of d"
        by (rule add_edge_spec[OF ok Cons.prems(1) add j disjI1[OF on], where upd = False])
      show ?thesis by (rule step[OF d1(2,3)]) (use is_eq(2) ee en add on d1(1) in simp)
    next
      case off: False
      have "inc_inv g cs d" using Cons.prems(1) add off unfolding inc_inv_def tree_inv_def pending_simps by blast
      then show ?thesis by (rule step) (use is_eq(2) ee en add off in simp_all)
    qed
  next
    case del: False
    show ?thesis
    proof (cases "g_status g ! ec_id c")
      case on: True
      have "inc_inv g cs d" by (rule drop_change[OF Cons.prems(1) del disjI1[OF on]])
      then show ?thesis by (rule step) (use is_eq(2) ee en del on in simp_all)
    next
      case off: False
      obtain b where b: "no_effect g d (int u) (int v) = Some b" "b \<longrightarrow> \<not> (d_seen d ! v \<and> d_prev d ! v = int (ec_id c))"
        "\<not> b \<longrightarrow> v \<noteq> d_source d"
        using no_effect_spec[OF ok t j] by blast
      show ?thesis
      proof (cases b)
        case True
        have "inc_inv g cs d" by (rule drop_unused[OF ok Cons.prems(1) del j]) (use b(2) True in blast)
        then show ?thesis by (rule step) (use is_eq(2) ee en del off b(1) True in simp_all)
      next
        case False
        obtain d1 where d1: "delete_update g (int v) d = Some d1" "inc_inv g cs d1" "frame_of d1 = frame_of d"
          using delete_update_spec[OF ok Cons.prems(1) del j] b(3) False by blast
        show ?thesis by (rule step[OF d1(2,3)]) (use is_eq(2) ee en del off b(1) False d1(1) in simp)
      qed
    qed
  qed
qed

subsection \<open>Updates\<close>

lemma same_edges_joins: "same_edges g h \<Longrightarrow> joins h = joins g"
  by (intro ext) (simp add: joins_def same_edges_def isEdge_def)

lemma linked_joins:
  assumes "linked g d v" "joins h = joins g" "g_num_nodes h = g_num_nodes g"
  shows "linked h d v"
  using assms(1)
proof (induction rule: linked.induct)
  case root
  then show ?case by (rule linked.root)
next
  case (link u v e)
  then show ?case using assms(2,3) by (intro linked.link[of h d u v e]) (simp_all add: arc_def)
qed

lemma dfs_correct_cong:
  assumes "dfs_correct g d" "same_edges g h" "g_status h = g_status g"
  shows "dfs_correct h d"
proof -
  have j: "joins h = joins g" "g_num_nodes h = g_num_nodes g"
    using same_edges_joins[OF assms(2)] assms(2) by (simp_all add: same_edges_def)
  then have "open_arc h = open_arc g" by (intro ext) (simp add: open_arc_def arc_def assms(3))
  moreover from this have "reach h = reach g" by (intro ext) (simp add: reach_def)
  ultimately show ?thesis
    using assms(1) j linked_joins[OF _ j] unfolding dfs_correct_def sized_def by simp
qed

lemma replay_off: "st ! e \<Longrightarrow> \<not> replay_status cs st ! e \<Longrightarrow> pending_off cs e"
proof (induction cs arbitrary: st)
  case (Cons c cs)
  let ?st = "if ec_addition c then st[ec_id c := True] else if ec_deletion c then st[ec_id c := False] else st"
  show ?case
  proof (cases "?st ! e")
    case True
    then show ?thesis using Cons.IH[of ?st] Cons.prems(2) by simp
  next
    case False
    then have "\<not> ec_addition c" "ec_id c = e"
      using Cons.prems(1) by (auto split: if_splits) (metis list_update_beyond not_le nth_list_update nth_list_update_neq)+
    then show ?thesis by simp
  qed
qed simp

lemma replay_on: "\<not> st ! e \<Longrightarrow> replay_status cs st ! e \<Longrightarrow> pending_on cs e"
proof (induction cs arbitrary: st)
  case (Cons c cs)
  let ?st = "if ec_addition c then st[ec_id c := True] else if ec_deletion c then st[ec_id c := False] else st"
  show ?case
  proof (cases "?st ! e")
    case False
    then show ?thesis using Cons.IH[of ?st] Cons.prems(2) by simp
  next
    case True
    then have "ec_addition c \<and> ec_id c = e"
      using Cons.prems(1) by (cases "ec_id c = e"; cases "e < length st") (auto simp: not_less list_update_beyond split: if_splits)
    then show ?thesis by simp
  qed
qed simp

lemma settles_replay:
  "\<forall>c \<in> set cs. isEdge g (ec_id c) \<and> ec_id c < length st \<Longrightarrow> g_status g = replay_status cs st \<Longrightarrow> settles g cs"
proof (induction cs arbitrary: st)
  case (Cons c cs)
  let ?st = "if ec_addition c then st[ec_id c := True] else if ec_deletion c then st[ec_id c := False] else st"
  have "settles g cs" using Cons.IH[of ?st] Cons.prems by simp
  moreover have "pending_off cs (ec_id c)" if "ec_addition c" "\<not> g_status g ! ec_id c"
    using replay_off[of ?st "ec_id c" cs] that Cons.prems by simp
  ultimately show ?case using Cons.prems(1) by simp
qed simp

lemma start_inv:
  assumes ok: "graph_ok g0" "graph_ok g" and f: "follows g0 cs g" and c: "dfs_correct g0 d" "\<not> d_undirected d"
  shows "inc_inv g cs d" "settles g cs" "map (getChange g) [historySize g0 .. historySize g - 1] = map Some cs"
proof -
  have se: "same_edges g0 g" and st: "g_status g = replay_status cs (g_status g0)" and h: "g_history g = g_history g0 @ cs"
    using f unfolding follows_def by blast+
  have j: "joins g = joins g0" "g_num_nodes g = g_num_nodes g0" "length (g_status g) = length (g_status g0)"
    using same_edges_joins[OF se] se by (simp_all add: same_edges_def)
  have "tree_inv g cs d"
    unfolding tree_inv_def
  proof (intro conjI allI impI; (elim conjE)?)
    show "sized g d" "d_source d < g_num_nodes g" "d_prev d ! d_source d = - 1" "\<not> d_undirected d"
      using c j by (simp_all add: dfs_correct_def sized_def)
    show "d_seen d ! d_source d" using c(1) reach_refl unfolding dfs_correct_def by blast
    show "linked g d v" if "v < g_num_nodes g" "d_seen d ! v" for v
      using c(1) that j linked_joins[OF _ j(1,2)] unfolding dfs_correct_def by simp
    fix v assume v: "v < g_num_nodes g" "d_seen d ! v" "v \<noteq> d_source d"
    then obtain u e where e: "d_prev d ! v = int e" "open_arc g0 (d_undirected d) u v e"
      using c(1) j unfolding dfs_correct_def by auto
    have "g_status g ! e \<or> pending_off cs e" using e(2) st replay_off by (auto simp: open_arc_def)
    then show "\<exists>u e. d_prev d ! v = int e \<and> joins g u v e \<and> (g_status g ! e \<or> pending_off cs e)"
      using e c(2) j(1) by (auto simp: open_arc_def)
  qed
  moreover have "d_seen d ! v \<or> pending_on cs e" if a: "d_seen d ! u" "joins g u v e" "g_status g ! e" for u v e
  proof (cases "g_status g0 ! e")
    case True
    have n: "u < g_num_nodes g0" "v < g_num_nodes g0" using joins_nodes[OF ok(1)] a(2) j(1) by auto
    have "reach g0 (d_undirected d) (d_source d) u" using c(1) n(1) a(1) unfolding dfs_correct_def by blast
    then have "reach g0 (d_undirected d) (d_source d) v"
      using True a(2) j(1) c(2) by (intro reach_step[of g0 _ _ u v e]) (simp_all add: open_arc_def)
    then show ?thesis using c(1) n(2) unfolding dfs_correct_def by blast
  next
    case False
    then show ?thesis using replay_on[OF False] a(3) st by simp
  qed
  ultimately show "inc_inv g cs d" unfolding inc_inv_def by blast
  have "isEdge g (ec_id c)" if "c \<in> set cs" for c
    using ok(2) that h unfolding graph_ok_def history_ok_def by simp
  then show "settles g cs"
    using isEdge_bounds(1)[OF ok(2)] j(3) by (intro settles_replay[OF _ st]) auto
  have "length [historySize g0 .. historySize g - 1] = length cs" using follows_getChange(1)[OF f] by simp
  then show "map (getChange g) [historySize g0 .. historySize g - 1] = map Some cs"
    using follows_getChange(2)[OF f] by (intro nth_equalityI) (simp_all add: nth_upto)
qed

lemma incrementalUpdate_spec:
  assumes ok: "graph_ok g" and i: "inc_inv g cs d" "settles g cs" "map (getChange g) [d_history_qhead d .. historySize g - 1] = map Some cs"
    and c: "g_historyclears g = d_last_history_clear d" "g_num_nodes g < d_INF d"
  shows "\<exists>d'. incrementalUpdate g d = Some (True, d') \<and> dfs_correct g d' \<and> stamped g d' \<and> settings d d'"
proof -
  have s: "sized g d" using i(1) by (simp add: inc_inv_def tree_inv_def)
  obtain d1 where d1: "incremental_loop g [d_history_qhead d .. historySize g - 1] d = Some d1" "inc_inv g [] d1" "frame_of d1 = frame_of d"
    using incremental_loop_spec[OF ok i] by blast
  have s1: "sized g d1" using d1(2) by (simp add: inc_inv_def tree_inv_def)
  have r: "report_each [0..<g_num_nodes g] (\<lambda>_. True) d1 = Some (d1\<lparr>d_reports := d_reports d1 @ map (\<lambda>u. (u, d_seen d1 ! u)) [0..<g_num_nodes g]\<rparr>)"
    using report_each_spec[of "[0..<g_num_nodes g]" d1 "\<lambda>_. True"] s1 by (simp add: sized_def)
  let ?d2 = "d1\<lparr>d_reports := d_reports d1 @ map (\<lambda>u. (u, d_seen d1 ! u)) [0..<g_num_nodes g]\<rparr>"
  let ?d3 = "stamp g (?d2\<lparr>d_fast_updates := d_fast_updates ?d2 + 1\<rparr>)"
  have "incrementalUpdate g d = Some (True, ?d3)"
    using s c d1(1) r by (simp add: incrementalUpdate_def sync_clears_def sized_def)
  moreover have "dfs_correct g ?d3" by (rule dfs_correct_same[OF inc_inv_done[OF ok d1(2)]]) simp_all
  moreover have "settings d ?d3" using frame_ofD[OF d1(3)] by (simp add: settings_def stamp_def)
  ultimately show ?thesis by auto
qed

lemma update_additions_spec:
  assumes ok: "graph_ok g" and i: "inc_inv g cs d" "settles g cs" "map (getChange g) [d_history_qhead d .. historySize g - 1] = map Some cs"
    and c: "g_historyclears g = d_last_history_clear d" "g_num_nodes g < d_INF d"
  shows "\<exists>b d'. update_additions g d = Some (b, d') \<and> settings d d' \<and> sized g d' \<and> (b \<longrightarrow> dfs_correct g d' \<and> stamped g d')"
proof -
  have s: "sized g d" using i(1) by (simp add: inc_inv_def tree_inv_def)
  obtain b d1 where d1: "additions_loop g [d_history_qhead d .. historySize g - 1] d = Some (b, d1)" "settings d d1" "sized g d1"
    "b \<longrightarrow> inc_inv g [] d1"
    using additions_loop_spec[OF ok i] by blast
  show ?thesis
  proof (cases b)
    case True
    let ?d3 = "stamp g (d1\<lparr>d_fast_updates := d_fast_updates d1 + 1\<rparr>)"
    have "update_additions g d = Some (True, ?d3)"
      using s c d1(1) True by (simp add: update_additions_def sync_clears_def sized_def)
    moreover have "dfs_correct g ?d3"
      by (rule dfs_correct_same[OF inc_inv_done[OF ok]]) (use d1(4) True in simp_all)
    moreover have "settings d ?d3" "sized g ?d3" using d1(2,3) by (simp_all add: settings_def stamp_def sized_def)
    ultimately show ?thesis by auto
  next
    case False
    then have "update_additions g d = Some (False, d1)"
      using s c d1(1) by (simp add: update_additions_def sync_clears_def sized_def)
    then show ?thesis using d1(2,3) by auto
  qed
qed

lemma settings_trans: "settings d1 d2 \<Longrightarrow> settings d2 d3 \<Longrightarrow> settings d1 d3"
  by (simp add: settings_def)

text \<open>The settings for which every change is followed; the others are \<open>opt_dec_graph = 1\<close>, the undirected
  incremental search and the two options that skip updates.\<close>

definition follows_changes :: "dfs \<Rightarrow> bool" where
  "follows_changes d \<longleftrightarrow> \<not> d_skip_deletions d \<and> \<not> d_skip_additions d \<and> (d_inc_graph d \<longrightarrow> \<not> d_undirected d \<and> d_dec_graph d \<noteq> 1)"

lemma full_update_again:
  assumes "graph_ok g" "sized g d1" "settings d d1" "d_source d < g_num_nodes g"
  shows "\<exists>d'. full_update g d1 = Some d' \<and> dfs_correct g d' \<and> stamped g d' \<and> settings d d'"
proof -
  have "d_source d1 < g_num_nodes g" using assms(3,4) by (simp add: settings_def)
  then show ?thesis using full_update_spec[OF assms(1,2)] settings_trans[OF assms(3)] by blast
qed

lemma update_fast_spec:
  assumes ok: "graph_ok g0" "graph_ok g" and f: "follows g0 cs g" and c: "dfs_correct g0 d" "follows_changes d"
    and s: "d_history_qhead d = historySize g0" "d_last_history_clear d = g_historyclears g0" and inf: "g_num_nodes g < d_INF d"
  shows "\<exists>b d'. update_fast g d = Some (b, d') \<and> settings d d' \<and> sized g d' \<and> (b \<longrightarrow> dfs_correct g d' \<and> stamped g d')"
proof -
  have hc: "g_historyclears g = d_last_history_clear d" using f s(2) by (simp add: follows_def)
  have sz: "sized g d" using c(1) f by (simp add: dfs_correct_def sized_def follows_def same_edges_def)
  show ?thesis
  proof (cases "d_inc_graph d \<and> d_last_modification d > 0")
    case True
    then have und: "\<not> d_undirected d" "d_dec_graph d \<noteq> 1" using c(2) by (auto simp: follows_changes_def)
    note inv = start_inv[OF ok f c(1) und(1)]
    note inv = inv(1,2) inv(3)[folded s(1)]
    show ?thesis
    proof (cases "d_dec_graph d = 2")
      case two: True
      have "update_fast g d = incrementalUpdate g d" using True two hc by (simp add: update_fast_def)
      then show ?thesis using incrementalUpdate_spec[OF ok(2) inv hc inf] by (auto simp: dfs_correct_def)
    next
      case False
      then have "update_fast g d = (if d_last_deletion d = g_deletions g then update_additions g d else Some (False, d))"
        using True und(2) hc by (simp add: update_fast_def)
      then show ?thesis
        using update_additions_spec[OF ok(2) inv hc inf] sz by (auto simp: settings_def)
    qed
  next
    case False
    then have "update_fast g d = Some (False, d)" using hc by (auto simp: update_fast_def)
    then show ?thesis using sz by (auto simp: settings_def)
  qed
qed

lemma dfs_update_spec:
  assumes ok: "graph_ok g0" "graph_ok g" and f: "follows g0 cs g" and c: "dfs_correct g0 d" "stamped g0 d" "follows_changes d"
  shows "\<exists>d'. dfs_update g d = Some d' \<and> dfs_correct g d' \<and> stamped g d' \<and> settings d d'"
proof -
  have n: "g_num_nodes g = g_num_nodes g0" using f by (simp add: follows_def same_edges_def)
  have src: "d_source d < g_num_nodes g" using c(1) n by (simp add: dfs_correct_def)
  show ?thesis
  proof (cases "d_last_modification d > 0 \<and> g_modifications g = d_last_modification d")
    case True
    have "cs = []" using f c(2) True by (simp add: follows_def stamped_def)
    then have e: "same_edges g0 g" "g_status g = g_status g0" "g_deletions g = g_deletions g0" "g_additions g = g_additions g0"
      "historySize g = historySize g0" "g_historyclears g = g_historyclears g0" "g_modifications g = g_modifications g0"
      using f by (simp_all add: follows_def historySize_def)
    let ?d = "d\<lparr>d_skipped_updates := d_skipped_updates d + 1\<rparr>"
    have "dfs_update g d = Some ?d" using True by (simp add: dfs_update_def)
    moreover have "dfs_correct g ?d"
      by (rule dfs_correct_same[OF dfs_correct_cong[OF c(1) e(1,2)]]) simp_all
    moreover have "stamped g ?d" "settings d ?d" using c(2) e by (simp_all add: stamped_def settings_def)
    ultimately show ?thesis by blast
  next
    case False
    obtain d1 where d1: "d1 = setNodes g (g_num_nodes g) (if d_last_modification d > 0 \<and> d_last_deletion d = g_deletions g
        then d\<lparr>d_skipable_deletions := d_skipable_deletions d + 1\<rparr> else d)" by blast
    have same: "d_seen d1 = d_seen d" "d_prev d1 = d_prev d" "settings d d1" "d_INF d1 = g_num_nodes g + 1"
      "d_history_qhead d1 = d_history_qhead d" "d_last_history_clear d1 = d_last_history_clear d"
      using c(1) n by (simp_all add: d1 setNodes_def settings_def resize_same dfs_correct_def sized_def)
    have c1: "dfs_correct g0 d1" by (rule dfs_correct_same[OF c(1)]) (use same in \<open>simp_all add: settings_def\<close>)
    have fc1: "follows_changes d1" using c(3) same(3) by (simp add: follows_changes_def settings_def)
    obtain b d2 where d2: "update_fast g d1 = Some (b, d2)" "settings d1 d2" "sized g d2" "b \<longrightarrow> dfs_correct g d2 \<and> stamped g d2"
      using update_fast_spec[OF ok f c1 fc1] same c(2) by (auto simp: stamped_def)
    have "dfs_update g d = Option.bind (update_fast g d1) (\<lambda>(b, d). if b then Some d else full_update g d)"
      unfolding dfs_update_def if_not_P[OF False] Let_def d1 using c(3) by (simp add: follows_changes_def)
    then have u: "dfs_update g d = (if b then Some d2 else full_update g d2)" by (simp add: d2(1))
    have st: "settings d d2" by (rule settings_trans[OF same(3) d2(2)])
    show ?thesis
    proof (cases b)
      case True
      then show ?thesis using u d2(4) st by auto
    next
      case nb: False
      then show ?thesis using u full_update_again[OF ok(2) d2(3) st src] by simp
    qed
  qed
qed

end
