(* ===== verification/Dfs_Theorems.thy ===== *)
theory Dfs_Theorems
  imports Dfs_Incremental
begin

text \<open>
  What the depth-first search guarantees: the first update computes reachability, later ones keep it up to date, and
  the settings for which they do not.
\<close>

lemma update_fast_first:
  assumes "d_last_modification d \<le> 0"
  shows "\<exists>d2. update_fast g d = Some (False, d2) \<and> settings d d2 \<and> (sized g d \<longrightarrow> sized g d2) \<and> d_reports d2 = d_reports d"
  using assms by (simp add: update_fast_def settings_def sized_def)

lemma first_update:
  assumes ok: "graph_ok g" and s: "d_last_modification d \<le> 0" "d_source d < g_num_nodes g"
  shows "\<exists>d' rs. dfs_update g d = Some d' \<and> dfs_correct g d' \<and> stamped g d' \<and> settings d d' \<and>
    d_reports d' = d_reports d @ rs \<and> reports_ok g d' rs"
proof -
  let ?d1 = "setNodes g (g_num_nodes g) d"
  have d1: "sized g ?d1" "settings d ?d1" "d_reports ?d1 = d_reports d" "d_last_modification ?d1 \<le> 0"
    using s(1) by (simp_all add: setNodes_def sized_def settings_def)
  obtain d2 where d2: "update_fast g ?d1 = Some (False, d2)" "sized g d2" "settings ?d1 d2" "d_reports d2 = d_reports ?d1"
    using update_fast_first[OF d1(4)] d1(1) by blast
  have u: "dfs_update g d = full_update g d2"
    using s(1) d2(1) by (simp add: dfs_update_def Let_def)
  have "d_source d2 < g_num_nodes g" using d2(3) d1(2) s(2) by (simp add: settings_def)
  then obtain d' rs where "full_update g d2 = Some d'" "dfs_correct g d'" "stamped g d'" "settings d2 d'"
    "d_reports d' = d_reports d2 @ rs" "reports_ok g d' rs"
    using full_update_spec[OF ok d2(2)] by blast
  moreover have "settings d d'" by (rule settings_trans[OF settings_trans[OF d1(2) d2(3)] calculation(4)])
  ultimately show ?thesis using u d2(4) d1(3) by simp
qed

lemma correct_connected:
  assumes "dfs_correct g d" "stamped g d" "t < g_num_nodes g"
  shows "connected g t d = Some (reach g (d_undirected d) (d_source d) t, d)"
    "connected_unchecked g d t = Some (reach g (d_undirected d) (d_source d) t)"
  using assms by (simp_all add: connected_def connected_unchecked_def connected_unsafe_def stamped_def dfs_correct_def sized_def)

lemma correct_previous:
  assumes ok: "graph_ok g" and c: "dfs_correct g d" and t: "t < g_num_nodes g" "d_seen d ! t" "t \<noteq> d_source d"
    and und: "\<not> d_undirected d"
  shows "\<exists>u e. previous g d (int t) = Some (int u) \<and> incomingEdge d (int t) = Some (int e) \<and>
    open_arc g False u t e \<and> reach g False (d_source d) u"
proof -
  obtain u e where e: "d_prev d ! t = int e" "open_arc g (d_undirected d) u t e" using c t unfolding dfs_correct_def by blast
  have l: "linked g d t" using c t unfolding dfs_correct_def by blast
  obtain v f where v: "linked g d v" "joins g v t f" "d_prev d ! t = int f" by (rule linked_parent[OF l t(3) und])
  have "v = u" using e v und joins_unique by (simp add: open_arc_def) blast
  moreover have "u < g_num_nodes g" using e(2) arc_nodes[OF ok] by (auto simp: open_arc_def)
  ultimately have "reach g False (d_source d) u" using linked_seen[OF v(1)] c und unfolding dfs_correct_def by simp
  moreover have "t < length (d_prev d)" using c t(1) by (simp add: dfs_correct_def sized_def)
  ultimately show ?thesis
    using previous_parent[OF und e(1)] e und by (auto simp: incomingEdge_def int_get_def open_arc_def)
qed

text \<open>C15: the first update of a search, after its creation or after the source has been set, terminates on every consistent graph.
  Then \<open>connected\<close> answers, for every node, whether it can be reached from the source over enabled edges; in the
  directed case \<open>previous\<close> and \<open>incomingEdge\<close> of a reached node give an enabled edge from another reached node; and
  the reports made through \<open>setReachable\<close> are true and cover the nodes the polarity asks for.\<close>

theorem dfs_first_update:
  assumes "graph_ok g" "d_last_modification d \<le> 0" "d_source d < g_num_nodes g"
  shows "\<exists>d' rs. dfs_update g d = Some d' \<and> d_reports d' = d_reports d @ rs \<and> reports_ok g d' rs \<and> settings d d' \<and>
    (\<forall>t < g_num_nodes g. connected g t d' = Some (reach g (d_undirected d) (d_source d) t, d')) \<and>
    (\<forall>t < g_num_nodes g. \<not> d_undirected d \<and> reach g False (d_source d) t \<and> t \<noteq> d_source d \<longrightarrow>
       (\<exists>u e. previous g d' (int t) = Some (int u) \<and> incomingEdge d' (int t) = Some (int e) \<and>
          open_arc g False u t e \<and> reach g False (d_source d) u))"
proof -
  obtain d' rs where d': "dfs_update g d = Some d'" "dfs_correct g d'" "stamped g d'" "settings d d'"
    "d_reports d' = d_reports d @ rs" "reports_ok g d' rs"
    using first_update[OF assms] by blast
  have s: "d_undirected d' = d_undirected d" "d_source d' = d_source d" using d'(4) by (simp_all add: settings_def)
  have "connected g t d' = Some (reach g (d_undirected d) (d_source d) t, d')" if "t < g_num_nodes g" for t
    using correct_connected(1)[OF d'(2,3) that] s by simp
  moreover have "\<exists>u e. previous g d' (int t) = Some (int u) \<and> incomingEdge d' (int t) = Some (int e) \<and>
      open_arc g False u t e \<and> reach g False (d_source d) u"
    if t: "t < g_num_nodes g" "\<not> d_undirected d" "reach g False (d_source d) t" "t \<noteq> d_source d" for t
    using correct_previous[OF assms(1) d'(2) t(1)] d'(2) t s unfolding dfs_correct_def by simp
  ultimately show ?thesis using d' by blast
qed

text \<open>The graph of the witnesses: three nodes, edges from 0 to 1, from 2 to 1 and from 1 to 0.\<close>

definition path_graph :: "nat dgraph" where
  "path_graph = snd (the (addEdge 1 0 None 1 (snd (the (addEdge 2 1 None 1 (snd (the (addEdge 0 1 None 1 (addNodes 3 new_graph)))))))))"

lemma path_graph_ok: "graph_ok path_graph"
proof -
  let ?n = "addNodes 3 (new_graph :: nat dgraph)"
  let ?a = "snd (the (addEdge 0 1 None 1 ?n))"
  let ?b = "snd (the (addEdge 2 1 None 1 ?a))"
  have n: "?n = snd (addNode (snd (addNode (snd (addNode new_graph)))))" by (simp add: numeral_3_eq_3)
  have "graph_ok ?n" unfolding n by (intro addNode_ok(1) graph_ok_new)
  moreover have "addEdge 0 1 None 1 ?n = Some (0, ?a)" by code_simp
  ultimately have a: "graph_ok ?a" using graph_step_ok[OF graph_step.edge[where id_arg = None]] by blast
  have "addEdge 2 1 None 1 ?a = Some (1, ?b)" by code_simp
  then have b: "graph_ok ?b" using graph_step_ok[OF graph_step.edge[where id_arg = None] a] by blast
  have "addEdge 1 0 None 1 ?b = Some (2, path_graph)" by code_simp
  then show ?thesis using graph_step_ok[OF graph_step.edge[where id_arg = None] b] by blast
qed

lemma path_graph_nodes: "g_num_nodes path_graph = 3"
  by code_simp

lemma dfs_first_update_witness:
  "\<exists>d. dfs_update path_graph (new_dfs 0 0 False) = Some d \<and> connected path_graph 1 d = Some (reach path_graph False 0 1, d)"
proof -
  have "d_last_modification (new_dfs 0 0 False) \<le> 0" "d_source (new_dfs 0 0 False) < g_num_nodes path_graph" by code_simp+
  then obtain d where "dfs_update path_graph (new_dfs 0 0 False) = Some d"
    "\<forall>t < g_num_nodes path_graph. connected path_graph t d =
      Some (reach path_graph (d_undirected (new_dfs 0 0 False)) (d_source (new_dfs 0 0 False)) t, d)"
    using dfs_first_update[OF path_graph_ok] by blast
  moreover have "(1 :: nat) < g_num_nodes path_graph" by code_simp
  ultimately show ?thesis by (auto simp: new_dfs_def)
qed

text \<open>C14: updates follow the changes. When the result is correct and up to date for some graph, then after any
  enabling, disabling and weighting of edges the next update terminates, with a correct and up-to-date result for the changed
  graph, whether it recomputes, adds edges incrementally, or also takes out the part of the tree below a deleted
  edge; all settings are covered except the two that skip updates, the incremental search of an undirected graph
  and \<open>opt_dec_graph = 1\<close>. So \<open>connected\<close> answers reachability over the edges enabled now.\<close>

theorem dfs_follows_changes:
  fixes g :: "'w::{one,linorder} dgraph"
  assumes "graph_ok g" "dfs_correct g d" "stamped g d" "follows_changes d" "edge_ops ops g = Some h"
  shows "\<exists>d'. dfs_update h d = Some d' \<and> dfs_correct h d' \<and> stamped h d' \<and> settings d d' \<and>
    (\<forall>t < g_num_nodes h. connected h t d' = Some (reach h (d_undirected d) (d_source d) t, d'))"
proof -
  obtain cs where cs: "follows g cs h" using edge_ops_follows[OF assms(5)] by blast
  obtain d' where d': "dfs_update h d = Some d'" "dfs_correct h d'" "stamped h d'" "settings d d'"
    using dfs_update_spec[OF assms(1) edge_ops_ok[OF assms(5,1)] cs assms(2-4)] by blast
  then show ?thesis using correct_connected(1)[OF d'(2,3)] by (auto simp: settings_def)
qed

lemma dfs_follows_changes_witness:
  "\<exists>d h d'. dfs_update path_graph ((new_dfs 0 0 False)\<lparr>d_inc_graph := True, d_dec_graph := 2\<rparr>) = Some d \<and>
     edge_ops [Set_enabled 0 False] path_graph = Some h \<and> dfs_update h d = Some d' \<and> dfs_correct h d'"
proof -
  let ?d = "(new_dfs 0 0 False)\<lparr>d_inc_graph := True, d_dec_graph := 2\<rparr>"
  have "d_last_modification ?d \<le> 0" "d_source ?d < g_num_nodes path_graph" by code_simp+
  then obtain d where d: "dfs_update path_graph ?d = Some d" "dfs_correct path_graph d" "stamped path_graph d" "settings ?d d"
    using first_update[OF path_graph_ok] by blast
  have fc: "follows_changes d" using d(4) by (simp add: settings_def follows_changes_def new_dfs_def)
  have "edge_ops [Set_enabled 0 False] path_graph \<noteq> None" by code_simp
  then obtain h where h: "edge_ops [Set_enabled 0 False] path_graph = Some h" by blast
  then show ?thesis using dfs_follows_changes[OF path_graph_ok d(2,3) fc h] d(1) by blast
qed

lemma stale_undirected:
  "let d = the (dfs_update path_graph ((new_dfs 0 0 True)\<lparr>d_inc_graph := True, d_dec_graph := 2\<rparr>));
       h = the (edge_ops [Set_enabled 1 False] path_graph); d' = the (dfs_update h d); f = the (dfs_update h (new_dfs 0 0 True))
   in dfs_update path_graph ((new_dfs 0 0 True)\<lparr>d_inc_graph := True, d_dec_graph := 2\<rparr>) = Some d \<and>
     edge_ops [Set_enabled 1 False] path_graph = Some h \<and> dfs_update h d = Some d' \<and>
     d_last_modification d' = g_modifications h \<and> connected h 2 d' = Some (True, d') \<and>
     dfs_update h (new_dfs 0 0 True) = Some f \<and> connected h 2 f = Some (False, f) \<and> g_num_nodes h = 3"
  by code_simp

lemma stale_source:
  "let d = the (dfs_update path_graph ((new_dfs 0 0 False)\<lparr>d_inc_graph := True, d_dec_graph := 1\<rparr>));
       h = the (edge_ops [Set_enabled 2 False] path_graph)
   in dfs_update path_graph ((new_dfs 0 0 False)\<lparr>d_inc_graph := True, d_dec_graph := 1\<rparr>) = Some d \<and>
     edge_ops [Set_enabled 2 False] path_graph = Some h \<and> dfs_update h d = None"
  by code_simp


end
