(* ===== verification/Union_Find.thy ===== *)
theory Union_Find
  imports Prelude
begin

text \<open>
  \<open>dgl/alg/DisjointSets.h\<close> and \<open>DisjointSets.cpp\<close>: disjoint sets with path compression and union by rank.
  Elements are natural numbers; the counter of the sets is an unbounded integer, as the code decrements it.
  A failed assertion and an index outside a vector have no result.  The assertions of \<open>UnionSets\<close> call
  \<open>FindSet\<close>; only its value is used here, as the call leaves the nodes unchanged on the arguments the
  assertions let through (\<open>FindSet_root\<close> in \<open>Union_Find_Spec\<close>).
\<close>

subsection \<open>Data\<close>

record ds_node =
  dn_rank :: nat
  dn_index :: nat
  dn_parent :: int

record disjoint_sets =
  ds_numElements :: nat
  ds_numSets :: int
  ds_elements :: "nat list"
  ds_seen :: "bool list"
  ds_nodes :: "ds_node list"

definition new_sets :: disjoint_sets where
  "new_sets = \<lparr>ds_numElements = 0, ds_numSets = 0, ds_elements = [], ds_seen = [], ds_nodes = []\<rparr>"

definition ds_reset :: "disjoint_sets \<Rightarrow> disjoint_sets" where
  "ds_reset d = d\<lparr>ds_numElements := 0, ds_numSets := 0, ds_nodes := [], ds_elements := []\<rparr>"

text \<open>The copy constructor leaves the cache of representatives empty.\<close>

definition copy_sets :: "disjoint_sets \<Rightarrow> disjoint_sets" where
  "copy_sets s = new_sets\<lparr>ds_numElements := ds_numElements s, ds_numSets := ds_numSets s, ds_nodes := ds_nodes s\<rparr>"

subsection \<open>Find\<close>

partial_function (option) find_root :: "ds_node list \<Rightarrow> nat \<Rightarrow> nat option" where
  "find_root ns cur = do {
     n \<leftarrow> get_at ns cur;
     if dn_parent n = - 1 then Some cur
     else if dn_parent n < 0 then None
     else find_root ns (nat (dn_parent n)) }"

partial_function (option) compress_path :: "nat \<Rightarrow> nat \<Rightarrow> ds_node list \<Rightarrow> ds_node list option" where
  "compress_path root cur ns =
     (if cur = root then Some ns
      else do {
        n \<leftarrow> get_at ns cur;
        ns \<leftarrow> set_at ns cur (n\<lparr>dn_parent := int root\<rparr>);
        if dn_parent n < 0 then None
        else compress_path root (nat (dn_parent n)) ns })"

declare find_root.simps [code] compress_path.simps [code]

definition FindSet :: "nat \<Rightarrow> disjoint_sets \<Rightarrow> (nat \<times> disjoint_sets) option" where
  "FindSet e d = do {
     check (e < ds_numElements d);
     root \<leftarrow> find_root (ds_nodes d) e;
     ns \<leftarrow> compress_path root e (ds_nodes d);
     n \<leftarrow> get_at ns root;
     Some (dn_index n, d\<lparr>ds_nodes := ns\<rparr>) }"

subsection \<open>Union\<close>

definition link_roots :: "nat \<Rightarrow> nat \<Rightarrow> ds_node list \<Rightarrow> ds_node list option" where
  "link_roots a b ns = do {
     n1 \<leftarrow> get_at ns a;
     n2 \<leftarrow> get_at ns b;
     Some (if dn_rank n1 > dn_rank n2 then ns[b := n2\<lparr>dn_parent := int a\<rparr>]
       else if dn_rank n1 < dn_rank n2 then ns[a := n1\<lparr>dn_parent := int b\<rparr>]
       else ns[b := n2\<lparr>dn_parent := int a\<rparr>, a := n1\<lparr>dn_rank := dn_rank n1 + 1\<rparr>]) }"

definition UnionSets :: "nat \<Rightarrow> nat \<Rightarrow> disjoint_sets \<Rightarrow> disjoint_sets option" where
  "UnionSets a b d = do {
     check (a < ds_numElements d);
     check (b < ds_numElements d);
     (r, _) \<leftarrow> FindSet a d;
     check (a = r);
     (r, _) \<leftarrow> FindSet b d;
     check (b = r);
     if a = b then Some d
     else do {
       ns \<leftarrow> link_roots a b (ds_nodes d);
       let d = d\<lparr>ds_nodes := ns, ds_numSets := ds_numSets d - 1\<rparr>;
       (r, _) \<leftarrow> FindSet a d;
       (r', _) \<leftarrow> FindSet b d;
       check (r = r');
       Some d } }"

definition UnionElements :: "nat \<Rightarrow> nat \<Rightarrow> disjoint_sets \<Rightarrow> disjoint_sets option" where
  "UnionElements e1 e2 d = do {
     check (e1 < ds_numElements d);
     check (e2 < ds_numElements d);
     (s1, d) \<leftarrow> FindSet e1 d;
     (s2, d) \<leftarrow> FindSet e2 d;
     UnionSets s1 s2 d }"

subsection \<open>Elements\<close>

fun add_nodes :: "nat list \<Rightarrow> ds_node list \<Rightarrow> ds_node list option" where
  "add_nodes [] ns = Some ns"
| "add_nodes (i # is) ns = do {
     let ns = ns @ [\<lparr>dn_rank = 0, dn_index = 0, dn_parent = 0\<rparr>];
     check (i = length ns - 1);
     ns \<leftarrow> set_at ns i \<lparr>dn_rank = 0, dn_index = i, dn_parent = - 1\<rparr>;
     add_nodes is ns }"

definition AddElements :: "nat \<Rightarrow> disjoint_sets \<Rightarrow> disjoint_sets option" where
  "AddElements k d = do {
     ns \<leftarrow> add_nodes [ds_numElements d ..< ds_numElements d + k] (ds_nodes d);
     Some (d\<lparr>ds_nodes := ns, ds_numElements := ds_numElements d + k, ds_numSets := ds_numSets d + int k\<rparr>) }"

definition sets_of_size :: "nat \<Rightarrow> disjoint_sets option" where
  "sets_of_size k = AddElements k new_sets"

fun collect_elements :: "nat list \<Rightarrow> disjoint_sets \<Rightarrow> disjoint_sets option" where
  "collect_elements [] d = Some d"
| "collect_elements (i # is) d = do {
     (s, d) \<leftarrow> FindSet i d;
     b \<leftarrow> get_at (ds_seen d) s;
     collect_elements is (if b then d else d\<lparr>ds_seen := (ds_seen d)[s := True], ds_elements := ds_elements d @ [s]\<rparr>) }"

definition GetElement :: "nat \<Rightarrow> disjoint_sets \<Rightarrow> (nat \<times> disjoint_sets) option" where
  "GetElement fromSet d =
     (if ds_numSets d = 1 then Some (0, d)
      else do {
        d \<leftarrow> (if int (length (ds_elements d)) \<noteq> ds_numSets d
          then collect_elements [0..<ds_numElements d]
            (d\<lparr>ds_elements := [], ds_seen := replicate (ds_numElements d) False\<rparr>)
          else Some d);
        e \<leftarrow> get_at (ds_elements d) fromSet;
        Some (e, d) })"

end
