(* ===== verification/Kruskal.thy ===== *)
theory Kruskal
  imports Graphs Union_Find
begin

text \<open>
  \<open>dgl/Kruskal.h\<close>: a minimum spanning forest of the enabled edges of a dynamic graph.  The order in which
  \<open>std::sort\<close> puts edges of equal weight is unspecified, so the sorting function is the argument \<open>srt\<close> of the
  definitions: given the weights and the ids it returns the sorted ids.  The calls of the status object are
  recorded in \<open>k_tree_reports\<close> and \<open>k_edge_reports\<close>; the weights are unbounded; members the class never uses
  (\<open>check\<close>, \<open>prev\<close>, \<open>edge_heap\<close>, the timers) and the log file are left out, and the stack \<open>q\<close>, cleared before
  every use, is an argument of the loop.  A failed assertion, an exception and an index outside a vector have no
  result; of the calls of \<open>FindSet\<close> in assertions only the value is used.
\<close>

subsection \<open>State\<close>

record 'w kruskal =
  k_last_modification :: int
  k_min_weight :: 'w
  k_last_addition :: int
  k_last_deletion :: int
  k_history_qhead :: int
  k_last_history_clear :: int
  k_hasParents :: bool
  k_INF :: 'w
  k_sets :: disjoint_sets
  k_mst :: "nat list"
  k_polarity :: int
  k_in_tree :: "bool list"
  k_parents :: "int list"
  k_parent_edges :: "int list"
  k_edge_list :: "nat list"
  k_full_updates :: nat
  k_skipped_updates :: nat
  k_skipable_deletions :: nat
  k_num_updates :: nat
  k_tree_reports :: "('w \<times> bool) list"
  k_edge_reports :: "(nat \<times> bool) list"

definition new_kruskal :: "int \<Rightarrow> 'w::linordered_idom kruskal" where
  "new_kruskal polarity = \<lparr>k_last_modification = - 1, k_min_weight = - 1, k_last_addition = - 1, k_last_deletion = - 1,
     k_history_qhead = 0, k_last_history_clear = 0, k_hasParents = False, k_INF = 0, k_sets = new_sets, k_mst = [],
     k_polarity = polarity, k_in_tree = [], k_parents = [], k_parent_edges = [], k_edge_list = [], k_full_updates = 0,
     k_skipped_updates = 0, k_skipable_deletions = 0, k_num_updates = 0, k_tree_reports = [], k_edge_reports = []\<rparr>"

definition kr_setNodes :: "'w dgraph \<Rightarrow> nat \<Rightarrow> 'w kruskal \<Rightarrow> 'w kruskal option" where
  "kr_setNodes g n k = do {
     m \<leftarrow> nEdgeIDs g;
     ds \<leftarrow> AddElements n (k_sets k);
     Some (k\<lparr>k_in_tree := resize_to m False (k_in_tree k), k_sets := ds,
       k_parents := resize_to n 0 (k_parents k), k_parent_edges := resize_to n 0 (k_parent_edges k)\<rparr>) }"

subsection \<open>The update\<close>

text \<open>The edges are tried in the order of the list.\<close>

fun tree_loop :: "'w::linordered_idom dgraph \<Rightarrow> nat list \<Rightarrow> 'w kruskal \<Rightarrow> 'w kruskal option" where
  "tree_loop g [] k = Some k"
| "tree_loop g (e # es) k = do {
     b \<leftarrow> edgeEnabled g e;
     if \<not> b then tree_loop g es k
     else do {
       fe \<leftarrow> get_at (g_all_edges g) e;
       u \<leftarrow> node_of (fe_from fe);
       v \<leftarrow> node_of (fe_to fe);
       (s1, ds) \<leftarrow> FindSet u (k_sets k);
       (s2, ds) \<leftarrow> FindSet v ds;
       if s1 \<noteq> s2 then do {
         t \<leftarrow> set_at (k_in_tree k) e True;
         w \<leftarrow> getWeight g e;
         ds \<leftarrow> UnionSets s1 s2 ds;
         (r1, _) \<leftarrow> FindSet u ds;
         (r2, _) \<leftarrow> FindSet v ds;
         check (r1 = r2);
         tree_loop g es (k\<lparr>k_in_tree := t, k_mst := k_mst k @ [e], k_min_weight := k_min_weight k + w, k_sets := ds\<rparr>) }
       else tree_loop g es (k\<lparr>k_sets := ds\<rparr>) } }"

fun report_edges :: "'w dgraph \<Rightarrow> nat list \<Rightarrow> 'w kruskal \<Rightarrow> 'w kruskal option" where
  "report_edges g [] k = Some k"
| "report_edges g (i # is) k = do {
     b \<leftarrow> edgeEnabled g i;
     t \<leftarrow> get_at (k_in_tree k) i;
     report_edges g is
       (if k_polarity k < 1 \<and> (\<not> b \<or> t) then k\<lparr>k_edge_reports := k_edge_reports k @ [(i, True)]\<rparr>
        else if k_polarity k > - 1 \<and> (b \<and> \<not> t) then k\<lparr>k_edge_reports := k_edge_reports k @ [(i, False)]\<rparr>
        else k) }"

definition sort_edges :: "('w list \<Rightarrow> nat list \<Rightarrow> nat list) \<Rightarrow> 'w dgraph \<Rightarrow> 'w kruskal \<Rightarrow> 'w kruskal option" where
  "sort_edges srt g k = do {
     m \<leftarrow> nEdgeIDs g;
     Some (if length (k_edge_list k) < m then k\<lparr>k_edge_list := srt (g_weights g) [0..<m]\<rparr> else k) }"

definition kr_update ::
  "('w list \<Rightarrow> nat list \<Rightarrow> nat list) \<Rightarrow> 'w::linordered_idom dgraph \<Rightarrow> 'w kruskal \<Rightarrow> 'w kruskal option" where
  "kr_update srt g k =
     (if k_last_modification k > 0 \<and> g_modifications g = k_last_modification k then
        Some (k\<lparr>k_skipped_updates := k_skipped_updates k + 1\<rparr>)
      else do {
        let k = k\<lparr>k_full_updates := k_full_updates k + 1\<rparr>;
        let k = (if k_last_deletion k = g_deletions g then k\<lparr>k_skipable_deletions := k_skipable_deletions k + 1\<rparr> else k);
        let k = k\<lparr>k_hasParents := False, k_sets := ds_reset (k_sets k)\<rparr>;
        let k = (if k_last_modification k \<le> 0 \<or> g_is_changed g \<or> k_last_history_clear k \<noteq> g_historyclears g
          then k\<lparr>k_INF := 1 + sum_list (g_weights g)\<rparr> else k);
        k \<leftarrow> kr_setNodes g (g_num_nodes g) k;
        k \<leftarrow> sort_edges srt g (k\<lparr>k_min_weight := 0, k_mst := []\<rparr>);
        k \<leftarrow> tree_loop g (k_edge_list k) (k\<lparr>k_in_tree := replicate (length (k_in_tree k)) False\<rparr>);
        let k = k\<lparr>k_tree_reports := k_tree_reports k @
          [(if ds_numSets (k_sets k) > 1 then k_INF k else k_min_weight k, ds_numSets (k_sets k) \<le> 1)]\<rparr>;
        k \<leftarrow> report_edges g [0..<length (k_in_tree k)] k;
        Some (k\<lparr>k_num_updates := k_num_updates k + 1, k_last_modification := g_modifications g,
          k_last_deletion := g_deletions g, k_last_addition := g_additions g,
          k_history_qhead := historySize g, k_last_history_clear := g_historyclears g\<rparr>) })"

subsection \<open>Parents\<close>

definition in_set :: "disjoint_sets \<Rightarrow> nat \<Rightarrow> nat \<Rightarrow> bool" where
  "in_set ds u s \<longleftrightarrow> (case FindSet u ds of None \<Rightarrow> False | Some (r, _) \<Rightarrow> r = s)"

fun parent_scan :: "'w dgraph \<Rightarrow> nat \<Rightarrow> nat \<Rightarrow> nat \<Rightarrow> nat list \<Rightarrow> nat list \<Rightarrow> 'w kruskal \<Rightarrow> (nat list \<times> 'w kruskal) option" where
  "parent_scan g root s u [] q k = Some (q, k)"
| "parent_scan g root s u (j # js) q k = do {
     (v, e) \<leftarrow> incident g u j True;
     t \<leftarrow> get_at (k_in_tree k) e;
     if t then do {
       p \<leftarrow> get_at (k_parents k) v;
       if p = - 1 \<and> v \<noteq> root then do {
         check (in_set (k_sets k) v s);
         ps \<leftarrow> set_at (k_parents k) v (int u);
         es \<leftarrow> set_at (k_parent_edges k) v (int e);
         parent_scan g root s u js (q @ [v]) (k\<lparr>k_parents := ps, k_parent_edges := es\<rparr>) }
       else parent_scan g root s u js q k }
     else parent_scan g root s u js q k }"

partial_function (option) parent_search ::
  "'w dgraph \<Rightarrow> nat \<Rightarrow> nat \<Rightarrow> nat list \<Rightarrow> 'w kruskal \<Rightarrow> 'w kruskal option" where
  "parent_search g root s q k =
     (if q = [] then Some k
      else do {
        check (in_set (k_sets k) (last q) s);
        n \<leftarrow> nIncident g (last q) True;
        (q, k) \<leftarrow> parent_scan g root s (last q) [0..<n] (butlast q) k;
        parent_search g root s q k })"

declare parent_search.simps [code]

fun parent_trees :: "'w dgraph \<Rightarrow> nat list \<Rightarrow> 'w kruskal \<Rightarrow> 'w kruskal option" where
  "parent_trees g [] k = Some k"
| "parent_trees g (i # is) k = do {
     (root, ds) \<leftarrow> GetElement i (k_sets k);
     (s, ds) \<leftarrow> FindSet root ds;
     p \<leftarrow> get_at (k_parents k) root;
     check (p = - 1);
     k \<leftarrow> parent_search g root s [root] (k\<lparr>k_sets := ds\<rparr>);
     p \<leftarrow> get_at (k_parents k) root;
     check (p = - 1);
     parent_trees g is k }"

definition buildParents :: "'w dgraph \<Rightarrow> 'w kruskal \<Rightarrow> 'w kruskal option" where
  "buildParents g k = do {
     let n = length (k_parents k);
     check (n \<le> length (k_parent_edges k));
     parent_trees g [0..<nat (ds_numSets (k_sets k))] (k\<lparr>k_hasParents := True, k_parents := replicate n (- 1),
       k_parent_edges := replicate n (- 1) @ drop n (k_parent_edges k)\<rparr>) }"

subsection \<open>Queries\<close>

text \<open>Every query brings the tree up to date first.\<close>

definition getSpanningTree where
  "getSpanningTree srt g k = do { k \<leftarrow> kr_update srt g k; Some (k_mst k, k) }"

definition with_parents where
  "with_parents srt g k = do { k \<leftarrow> kr_update srt g k; if \<not> k_hasParents k then buildParents g k else Some k }"

definition getParent ::
  "('w list \<Rightarrow> nat list \<Rightarrow> nat list) \<Rightarrow> 'w::linordered_idom dgraph \<Rightarrow> nat \<Rightarrow> 'w kruskal \<Rightarrow> (int \<times> 'w kruskal) option" where
  "getParent srt g u k = do { k \<leftarrow> with_parents srt g k; p \<leftarrow> get_at (k_parents k) u; Some (p, k) }"

definition getParentEdge where
  "getParentEdge srt g u k = do {
     (p, k) \<leftarrow> getParent srt g u k;
     if p \<noteq> - 1 then do { e \<leftarrow> get_at (k_parent_edges k) u; Some (e, k) } else Some (- 1, k) }"

definition edgeInTree where
  "edgeInTree srt g e k = do { k \<leftarrow> kr_update srt g k; t \<leftarrow> get_at (k_in_tree k) e; Some (t, k) }"

definition kr_weight where
  "kr_weight srt g k = do {
     k \<leftarrow> kr_update srt g k; Some (if ds_numSets (k_sets k) > 1 then k_INF k else k_min_weight k, k) }"

definition forestWeight where
  "forestWeight srt g k = do { k \<leftarrow> kr_update srt g k; Some (k_min_weight k, k) }"

definition numComponents where
  "numComponents srt g k = do { k \<leftarrow> kr_update srt g k; Some (ds_numSets (k_sets k), k) }"

definition getComponent where
  "getComponent srt g u k = do {
     k \<leftarrow> kr_update srt g k; (s, ds) \<leftarrow> FindSet u (k_sets k); Some (s, k\<lparr>k_sets := ds\<rparr>) }"

text \<open>In \<open>while(int p = getParent(u) != -1)\<close> the comparison binds tighter than the assignment: \<open>p\<close> is 1 whenever
  the body is entered.\<close>

partial_function (option) root_walk ::
  "('w list \<Rightarrow> nat list \<Rightarrow> nat list) \<Rightarrow> 'w::linordered_idom dgraph \<Rightarrow> nat \<Rightarrow> 'w kruskal \<Rightarrow> (nat \<times> 'w kruskal) option" where
  "root_walk srt g u k = do {
     (p, k) \<leftarrow> getParent srt g u k;
     if p \<noteq> - 1 then root_walk srt g 1 k else Some (u, k) }"

declare root_walk.simps [code]

definition getRoot where
  "getRoot srt g component k = do {
     k \<leftarrow> with_parents srt g k;
     (u, k) \<leftarrow> (if ds_numSets (k_sets k) > 1 then do {
         (e, ds) \<leftarrow> GetElement component (k_sets k);
         Some (e, k\<lparr>k_sets := ds\<rparr>) } else Some (0, k));
     (u, k) \<leftarrow> root_walk srt g u k;
     (p, k) \<leftarrow> getParent srt g u k;
     check (p = - 1);
     Some (u, k) }"

end
