(* ===== verification/Forests.thy ===== *)
theory Forests
  imports Prelude
begin

text \<open>
  Undirected graphs as sets of edges with two ends: connectivity, the number of components, forests, and why a
  forest that connects, for every bound on the weights, what the edges within the bound connect has the least
  weight.  This is the specification the spanning tree algorithms are measured against.
\<close>

subsection \<open>Merging classes\<close>

definition classes :: "nat \<Rightarrow> (nat \<Rightarrow> nat \<Rightarrow> bool) \<Rightarrow> nat" where
  "classes n R = card ((\<lambda>i. {j. j < n \<and> R i j}) ` {..<n})"

definition equiv_upto :: "nat \<Rightarrow> (nat \<Rightarrow> nat \<Rightarrow> bool) \<Rightarrow> bool" where
  "equiv_upto n R \<longleftrightarrow> (\<forall>i < n. R i i) \<and> (\<forall>i < n. \<forall>j < n. R i j \<longrightarrow> R j i) \<and>
     (\<forall>i < n. \<forall>j < n. \<forall>k < n. R i j \<longrightarrow> R j k \<longrightarrow> R i k)"

lemma equiv_uptoD:
  assumes "equiv_upto n R"
  shows "\<And>i. i < n \<Longrightarrow> R i i" "\<And>i j. i < n \<Longrightarrow> j < n \<Longrightarrow> R i j \<Longrightarrow> R j i"
    "\<And>i j k. i < n \<Longrightarrow> j < n \<Longrightarrow> k < n \<Longrightarrow> R i j \<Longrightarrow> R j k \<Longrightarrow> R i k"
  using assms unfolding equiv_upto_def by blast+

definition merge_classes :: "(nat \<Rightarrow> nat \<Rightarrow> bool) \<Rightarrow> nat \<Rightarrow> nat \<Rightarrow> nat \<Rightarrow> nat \<Rightarrow> bool" where
  "merge_classes R a b i j \<longleftrightarrow> R i j \<or> R i a \<and> R b j \<or> R i b \<and> R a j"

lemma classes_cong: "(\<And>i j. i < n \<Longrightarrow> j < n \<Longrightarrow> R i j = S i j) \<Longrightarrow> classes n R = classes n S"
  unfolding classes_def by (intro arg_cong[where f = card] image_cong) auto

lemma classes_kernel: "classes n (\<lambda>i j. f i = f j) = card (f ` {..<n})"
proof -
  have "bij_betw (\<lambda>c. {j. j < n \<and> c = f j}) (f ` {..<n}) ((\<lambda>i. {j. j < n \<and> f i = f j}) ` {..<n})"
    unfolding bij_betw_def inj_on_def by auto
  then show ?thesis unfolding classes_def by (simp add: bij_betw_same_card)
qed

lemma classes_merge_same:
  assumes "equiv_upto n R" "a < n" "b < n" "R a b"
  shows "classes n (merge_classes R a b) = classes n R"
proof (rule classes_cong)
  fix i j assume ij: "i < n" "j < n"
  note r = equiv_uptoD[OF assms(1)]
  show "merge_classes R a b i j = R i j"
    using r(3)[OF ij(1) assms(2) ij(2)] r(3)[OF ij(1) assms(3) ij(2)] r(2)[OF assms(2,3,4)]
      r(3)[OF assms(2,3) ij(2) assms(4)] r(3)[OF assms(3,2) ij(2)]
    unfolding merge_classes_def by blast
qed

lemma classes_merge:
  assumes eq: "equiv_upto n R" and ab: "a < n" "b < n" "\<not> R a b"
  shows "Suc (classes n (merge_classes R a b)) = classes n R"
proof -
  let ?C = "\<lambda>i. {j. j < n \<and> R i j}" and ?M = "\<lambda>i. {j. j < n \<and> merge_classes R a b i j}"
  note r = equiv_uptoD[OF eq]
  let ?A = "?C ` {..<n}"
  have M: "?M i = (if R i a \<or> R i b then ?C a \<union> ?C b else ?C i)" if i: "i < n" for i
  proof (cases "R i a \<or> R i b")
    case True
    have "merge_classes R a b i j \<longleftrightarrow> R a j \<or> R b j" if j: "j < n" for j
      using True r(2)[OF i ab(1)] r(2)[OF i ab(2)] r(3)[OF i ab(1) j] r(3)[OF i ab(2) j]
        r(3)[OF ab(1) i j] r(3)[OF ab(2) i j]
      unfolding merge_classes_def by blast
    with True show ?thesis by auto
  qed (auto simp: merge_classes_def)
  have C: "?C i = ?C j \<longleftrightarrow> R i j" if "i < n" "j < n" for i j
  proof
    assume "?C i = ?C j"
    then show "R i j" using that r(1,2) by blast
  next
    assume "R i j"
    then have "R i k \<longleftrightarrow> R j k" if "k < n" for k
      using that r(3)[OF \<open>i < n\<close> \<open>j < n\<close> that] r(3)[OF \<open>j < n\<close> \<open>i < n\<close> that] r(2)[OF \<open>i < n\<close> \<open>j < n\<close>] by blast
    then show "?C i = ?C j" by blast
  qed
  have "?M ` {..<n} = insert (?C a \<union> ?C b) (?A - {?C a, ?C b})"
  proof (rule set_eqI, rule iffI)
    fix X assume "X \<in> ?M ` {..<n}"
    then obtain i where i: "i < n" "X = ?M i" by blast
    show "X \<in> insert (?C a \<union> ?C b) (?A - {?C a, ?C b})"
      using M[OF i(1)] i C[OF i(1) ab(1)] C[OF i(1) ab(2)] by (cases "R i a \<or> R i b") auto
  next
    fix X assume X: "X \<in> insert (?C a \<union> ?C b) (?A - {?C a, ?C b})"
    show "X \<in> ?M ` {..<n}"
    proof (cases "X = ?C a \<union> ?C b")
      case True
      then have "X = ?M a" using M[OF ab(1)] r(1)[OF ab(1)] by simp
      then show ?thesis using ab(1) by blast
    next
      case False
      then obtain i where i: "i < n" "X = ?C i" "X \<noteq> ?C a" "X \<noteq> ?C b" using X by blast
      then have "X = ?M i" using M[OF i(1)] C[OF i(1) ab(1)] C[OF i(1) ab(2)] by simp
      then show ?thesis using i(1) by blast
    qed
  qed
  moreover have "?C a \<union> ?C b \<notin> ?A - {?C a, ?C b}"
  proof
    assume "?C a \<union> ?C b \<in> ?A - {?C a, ?C b}"
    then obtain i where "i < n" "?C i = ?C a \<union> ?C b" by blast
    then have "a \<in> ?C i" "b \<in> ?C i" using ab(1,2) r(1) by blast+
    then show False using r(2)[OF \<open>i < n\<close> ab(1)] r(3)[OF ab(1) \<open>i < n\<close> ab(2)] ab(3) by simp
  qed
  moreover have "?C a \<in> ?A" "?C b \<in> ?A" "?C a \<noteq> ?C b" "finite ?A" using C ab by auto
  then have "card (?A - {?C a, ?C b}) + 2 = card ?A"
    using card_Diff_subset[of "{?C a, ?C b}" ?A] card_mono[of ?A "{?C a, ?C b}"] by simp
  ultimately show ?thesis unfolding classes_def by simp
qed

subsection \<open>Connectivity\<close>

type_synonym ends = "nat \<Rightarrow> nat \<times> nat"

definition edge_rel :: "ends \<Rightarrow> nat set \<Rightarrow> (nat \<times> nat) set" where
  "edge_rel ends E = {(x, y). \<exists>e \<in> E. ends e = (x, y) \<or> ends e = (y, x)}"

definition conn :: "ends \<Rightarrow> nat set \<Rightarrow> nat \<Rightarrow> nat \<Rightarrow> bool" where
  "conn ends E x y \<longleftrightarrow> (x, y) \<in> (edge_rel ends E)\<^sup>*"

lemma conn_refl [simp]: "conn ends E x x" by (simp add: conn_def)

lemma conn_sym: "conn ends E x y \<Longrightarrow> conn ends E y x"
proof -
  have "sym (edge_rel ends E)" by (auto simp: edge_rel_def sym_def)
  then show "conn ends E x y \<Longrightarrow> conn ends E y x" unfolding conn_def by (auto dest: symD[OF sym_rtrancl])
qed

lemma conn_trans: "conn ends E x y \<Longrightarrow> conn ends E y z \<Longrightarrow> conn ends E x z"
  by (simp add: conn_def)

lemma conn_mono: "E \<subseteq> F \<Longrightarrow> conn ends E x y \<Longrightarrow> conn ends F x y"
  unfolding conn_def edge_rel_def by (erule rtrancl_mono[THEN subsetD, rotated]) blast

lemma conn_edge: "e \<in> E \<Longrightarrow> ends e = (x, y) \<Longrightarrow> conn ends E x y"
  unfolding conn_def edge_rel_def by (rule r_into_rtrancl) blast

lemma conn_empty: "conn ends {} x y \<longleftrightarrow> x = y"
  by (simp add: conn_def edge_rel_def)

lemma equiv_conn: "equiv_upto n (conn ends E)"
  unfolding equiv_upto_def by (intro conjI allI impI) (simp, erule conn_sym, erule conn_trans, assumption)

lemma conn_insert:
  assumes "ends e = (u, v)"
  shows "conn ends (insert e E) = merge_classes (conn ends E) u v"
proof -
  have "edge_rel ends (insert e E) = insert (u, v) (insert (v, u) (edge_rel ends E))"
    using assms by (auto simp: edge_rel_def)
  then show ?thesis
    using conn_sym[of ends E]
    unfolding merge_classes_def conn_def fun_eq_iff by (simp add: rtrancl_insert) (meson rtrancl_trans)
qed

subsection \<open>Components and forests\<close>

definition edges_within :: "ends \<Rightarrow> nat \<Rightarrow> nat set \<Rightarrow> bool" where
  "edges_within ends n E \<longleftrightarrow> finite E \<and> (\<forall>e \<in> E. fst (ends e) < n \<and> snd (ends e) < n)"

definition comps :: "ends \<Rightarrow> nat \<Rightarrow> nat set \<Rightarrow> nat" where
  "comps ends n E = classes n (conn ends E)"

definition forest :: "ends \<Rightarrow> nat set \<Rightarrow> bool" where
  "forest ends E \<longleftrightarrow> (\<forall>e \<in> E. \<not> conn ends (E - {e}) (fst (ends e)) (snd (ends e)))"

definition spanning_forest :: "ends \<Rightarrow> nat set \<Rightarrow> nat set \<Rightarrow> bool" where
  "spanning_forest ends E T \<longleftrightarrow> T \<subseteq> E \<and> forest ends T \<and> conn ends T = conn ends E"

lemma comps_empty: "comps ends n {} = n"
proof -
  have "comps ends n {} = classes n (\<lambda>i j. id i = id j)" unfolding comps_def by (rule classes_cong) (simp add: conn_empty)
  then show ?thesis using classes_kernel[of n id] by simp
qed

lemma comps_insert:
  assumes "fst (ends e) < n" "snd (ends e) < n"
  shows "comps ends n E = comps ends n (insert e E) + (if conn ends E (fst (ends e)) (snd (ends e)) then 0 else 1)"
  using classes_merge[OF equiv_conn assms] classes_merge_same[OF equiv_conn assms]
    conn_insert[of ends e "fst (ends e)" "snd (ends e)" E]
  unfolding comps_def by fastforce

lemma comps_antimono: "edges_within ends n F \<Longrightarrow> comps ends n (E \<union> F) \<le> comps ends n E"
  unfolding edges_within_def
proof (induction F rule: infinite_finite_induct)
  case (insert e F)
  then show ?case using comps_insert[of ends e n "E \<union> F"] by fastforce
qed auto

lemma forest_mono: "forest ends E \<Longrightarrow> F \<subseteq> E \<Longrightarrow> forest ends F"
  unfolding forest_def by (metis Diff_mono conn_mono order.refl subsetD)

lemma forest_insert:
  assumes f: "forest ends T" and n: "\<not> conn ends T (fst (ends e)) (snd (ends e))"
  shows "forest ends (insert e T)"
  unfolding forest_def
proof
  fix x assume x: "x \<in> insert e T"
  show "\<not> conn ends (insert e T - {x}) (fst (ends x)) (snd (ends x))"
  proof (cases "x = e")
    case True
    have "insert e T - {e} \<subseteq> T" by auto
    then show ?thesis using n True conn_mono by blast
  next
    case False
    then have x: "x \<in> T" "insert e T - {x} = insert e (T - {x})" using x by auto
    let ?R = "conn ends (T - {x})" and ?u = "fst (ends e)" and ?v = "snd (ends e)" and ?a = "fst (ends x)" and ?b = "snd (ends x)"
    show ?thesis
    proof
      assume "conn ends (insert e T - {x}) ?a ?b"
      then have "merge_classes ?R ?u ?v ?a ?b" using conn_insert[of ends e ?u ?v] x(2) by simp
      moreover have "\<not> ?R ?a ?b" using f x(1) by (auto simp: forest_def)
      ultimately have "?R ?a ?u \<and> ?R ?v ?b \<or> ?R ?a ?v \<and> ?R ?u ?b" by (auto simp: merge_classes_def)
      moreover have "?R p q \<Longrightarrow> conn ends T p q" for p q using conn_mono by (metis Diff_subset)
      moreover have "conn ends T ?a ?b" using conn_edge[OF x(1)] by simp
      ultimately show False using n by (meson conn_sym conn_trans)
    qed
  qed
qed

text \<open>Every edge of a forest joins two components.\<close>

lemma forest_comps: "edges_within ends n E \<Longrightarrow> forest ends E \<Longrightarrow> comps ends n E + card E = n"
  unfolding edges_within_def
proof (induction E rule: infinite_finite_induct)
  case (insert e E)
  have "forest ends E" using forest_mono insert.prems by blast
  moreover have "insert e E - {e} = E" using insert.hyps by auto
  then have "\<not> conn ends E (fst (ends e)) (snd (ends e))" using insert.prems by (auto simp: forest_def)
  ultimately show ?case using comps_insert[of ends e n E] insert by simp
qed (auto simp: comps_empty)

subsection \<open>Least weight\<close>

lemma sum_le_by_counts:
  fixes f :: "'a \<Rightarrow> 'w::linordered_idom"
  assumes "finite A" "finite B" "card A = card B" "\<And>w. card {b \<in> B. f b \<le> w} \<le> card {a \<in> A. f a \<le> w}"
  shows "sum f A \<le> sum f B"
  using assms
proof (induction "card A" arbitrary: A B)
  case (Suc k)
  then have ne: "A \<noteq> {}" "B \<noteq> {}" by auto
  obtain a where a: "a \<in> A" "\<forall>x \<in> A. f x \<le> f a"
    using Max_in[of "f ` A"] Max_ge[of "f ` A"] ne Suc.prems(1) by (metis (no_types) finite_imageI image_iff image_is_empty rev_image_eqI)
  obtain b where b: "b \<in> B" "\<forall>x \<in> B. f x \<le> f b"
    using Max_in[of "f ` B"] Max_ge[of "f ` B"] ne Suc.prems(2) by (metis (no_types) finite_imageI image_iff image_is_empty rev_image_eqI)
  have "{x \<in> B. f x \<le> f b} = B" using b by auto
  then have "card A \<le> card {x \<in> A. f x \<le> f b}" using Suc.prems(3) Suc.prems(4)[of "f b"] by simp
  then have "{x \<in> A. f x \<le> f b} = A" using Suc.prems(1) card_seteq[of A "{x \<in> A. f x \<le> f b}"] by auto
  then have ab: "f a \<le> f b" using a by auto
  have "card {x \<in> B - {b}. f x \<le> w} \<le> card {x \<in> A - {a}. f x \<le> w}" for w
  proof (cases "f a \<le> w")
    case True
    then have "{x \<in> A - {a}. f x \<le> w} = A - {a}" using a by fastforce
    moreover have "card {x \<in> B - {b}. f x \<le> w} \<le> card (B - {b})" using Suc.prems(2) by (intro card_mono) auto
    ultimately show ?thesis using Suc.prems a b by simp
  next
    case False
    then have "{x \<in> A - {a}. f x \<le> w} = {x \<in> A. f x \<le> w}" "{x \<in> B - {b}. f x \<le> w} = {x \<in> B. f x \<le> w}"
      using ab by auto
    then show ?thesis using Suc.prems(4) by simp
  qed
  then have "sum f (A - {a}) \<le> sum f (B - {b})"
    using Suc a b by (intro Suc.hyps(1)) auto
  then show ?case using ab a b Suc.prems(1,2) by (simp add: sum.remove add_mono)
qed simp

definition up_to :: "(nat \<Rightarrow> 'w::linorder) \<Rightarrow> 'w \<Rightarrow> nat set \<Rightarrow> nat set" where
  "up_to wt w E = {e \<in> E. wt e \<le> w}"

definition min_spanning_forest :: "ends \<Rightarrow> (nat \<Rightarrow> 'w::linordered_idom) \<Rightarrow> nat set \<Rightarrow> nat set \<Rightarrow> bool" where
  "min_spanning_forest ends wt E T \<longleftrightarrow> spanning_forest ends E T \<and>
     (\<forall>F. spanning_forest ends E F \<longrightarrow> sum wt T \<le> sum wt F)"

lemma edges_within_subset: "edges_within ends n E \<Longrightarrow> F \<subseteq> E \<Longrightarrow> edges_within ends n F"
  by (auto simp: edges_within_def intro: finite_subset)

lemma least_weight:
  fixes wt :: "nat \<Rightarrow> 'w::linordered_idom"
  assumes E: "edges_within ends n E" and T: "spanning_forest ends E T"
    and bound: "\<And>w. conn ends (up_to wt w T) = conn ends (up_to wt w E)"
  shows "min_spanning_forest ends wt E T"
  unfolding min_spanning_forest_def
proof (intro conjI allI impI T)
  fix F assume F: "spanning_forest ends E F"
  have w: "edges_within ends n T" "edges_within ends n F" using E T F edges_within_subset by (auto simp: spanning_forest_def)
  have "comps ends n T = comps ends n F" using T F by (simp add: spanning_forest_def comps_def)
  then have card: "card T = card F"
    using forest_comps[OF w(1)] forest_comps[OF w(2)] T F by (simp add: spanning_forest_def)
  have "card (up_to wt k F) \<le> card (up_to wt k T)" for k
  proof -
    have s: "up_to wt k F \<subseteq> F" "up_to wt k T \<subseteq> T" "up_to wt k E \<subseteq> E" by (auto simp: up_to_def)
    have "up_to wt k E = up_to wt k F \<union> up_to wt k E" using F by (auto simp: up_to_def spanning_forest_def)
    then have "comps ends n (up_to wt k E) \<le> comps ends n (up_to wt k F)"
      using comps_antimono[OF edges_within_subset[OF E s(3)], of "up_to wt k F"] by simp
    moreover have "comps ends n (up_to wt k T) = comps ends n (up_to wt k E)" by (simp add: comps_def bound)
    ultimately show ?thesis
      using forest_comps[OF edges_within_subset[OF w(1) s(2)]] forest_comps[OF edges_within_subset[OF w(2) s(1)]]
        forest_mono[OF _ s(1)] forest_mono[OF _ s(2)] T F by (fastforce simp: spanning_forest_def)
  qed
  then show "sum wt T \<le> sum wt F"
    using card w by (intro sum_le_by_counts) (auto simp: edges_within_def up_to_def)
qed

end
