(* ===== verification/Graph_Edges.thy ===== *)
theory Graph_Edges
  imports Graph_Theorems Forests
begin

text \<open>
  What the algorithms on a graph read: the enabled edges with their ends and weights, and how the changes of a graph
  show in the number of modifications by which an algorithm recognises an unchanged graph.
\<close>

subsection \<open>The edges of the graph\<close>

definition status_ok :: "'w dgraph \<Rightarrow> bool" where
  "status_ok g \<longleftrightarrow> (\<forall>e < length (g_status g). g_status g ! e \<longrightarrow> isEdge g e)"

definition enabled_edges :: "'w dgraph \<Rightarrow> nat set" where
  "enabled_edges g = {e. e < length (g_status g) \<and> g_status g ! e}"

definition g_ends :: "'w dgraph \<Rightarrow> ends" where
  "g_ends g e = (nat (edge_from g e), nat (edge_to g e))"

definition g_wt :: "'w dgraph \<Rightarrow> nat \<Rightarrow> 'w" where
  "g_wt g e = g_weights g ! e"

lemma enabled_facts:
  assumes "graph_ok g" "status_ok g" "e \<in> enabled_edges g"
  shows "edgeEnabled g e = Some True" "get_at (g_all_edges g) e = Some (g_all_edges g ! e)"
    "node_of (edge_from g e) = Some (fst (g_ends g e))" "node_of (edge_to g e) = Some (snd (g_ends g e))"
    "fst (g_ends g e) < g_num_nodes g" "snd (g_ends g e) < g_num_nodes g" "getWeight g e = Some (g_wt g e)" "e < g_next_id g"
proof -
  have e: "isEdge g e" "e < length (g_status g)" "g_status g ! e"
    using assms(2,3) by (auto simp: status_ok_def enabled_edges_def)
  note b = isEdge_bounds[OF assms(1) e(1)]
  have a: "e < length (g_all_edges g)" "g_all_edges g ! e \<noteq> no_edge" using e(1) by (auto simp: isEdge_def no_edge_def)
  then have f: "0 \<le> edge_from g e" "edge_from g e < int (g_num_nodes g)" "0 \<le> edge_to g e" "edge_to g e < int (g_num_nodes g)"
    using assms(1) unfolding graph_ok_def edges_ok_def by blast+
  show "edgeEnabled g e = Some True" "get_at (g_all_edges g) e = Some (g_all_edges g ! e)"
    "node_of (edge_from g e) = Some (fst (g_ends g e))" "node_of (edge_to g e) = Some (snd (g_ends g e))"
    "fst (g_ends g e) < g_num_nodes g" "snd (g_ends g e) < g_num_nodes g" "getWeight g e = Some (g_wt g e)" "e < g_next_id g"
    using e a b f by (auto simp: edgeEnabled_def node_of_def g_ends_def getWeight_def g_wt_def)
qed

lemma enabled_within: "graph_ok g \<Longrightarrow> status_ok g \<Longrightarrow> edges_within (g_ends g) (g_num_nodes g) (enabled_edges g)"
  unfolding edges_within_def using enabled_facts(5,6) by (auto simp: enabled_edges_def)

subsection \<open>Changes of the graph\<close>

text \<open>The algorithm recognises an unchanged graph by the number of modifications.\<close>

definition same_graph :: "'w dgraph \<Rightarrow> 'w dgraph \<Rightarrow> bool" where
  "same_graph g h \<longleftrightarrow> same_edges g h \<and> g_status h = g_status g \<and> g_weights h = g_weights g"

lemma ends_same: "same_edges g h \<Longrightarrow> g_ends h = g_ends g"
  by (simp add: same_edges_def g_ends_def fun_eq_iff)

lemma clearHistory_modifications:
  assumes "only_positions cb"
  shows "g_modifications (clearHistory cb m b g) = g_modifications g"
proof -
  obtain n ps where "count_uptodate cb [0..<length (g_algs g)] 0 g = (n, g\<lparr>g_history_pos := ps\<rparr>)"
    using count_uptodate_frame[OF assms] by (metis surj_pair snd_conv)
  then show ?thesis by (simp add: clearHistory_def full_clear_def)
qed

lemma status_ok_same: "status_ok g \<Longrightarrow> same_edges g h \<Longrightarrow> g_status h = (g_status g)[e := b] \<Longrightarrow> isEdge g e \<Longrightarrow> status_ok h"
  using same_edges_isEdge[of g h] unfolding status_ok_def by (metis length_list_update nth_list_update_neq)

lemma same_graph_status: "same_graph g h \<Longrightarrow> status_ok g \<Longrightarrow> status_ok h"
  using same_edges_isEdge[of g h] by (simp add: same_graph_def status_ok_def)

lemma enableEdge_modifications:
  "enableEdge_from e g = Some h \<Longrightarrow> h = g \<or> g_modifications h = g_modifications g + 1 \<and> g_status h = (g_status g)[e := True] \<and> same_edges g h"
  by (auto simp: enableEdge_from_def Let_def bind_eq_Some_conv same_edges_def split: if_splits)

lemma disableEdge_modifications:
  "disableEdge_from e g = Some h \<Longrightarrow> h = g \<or> g_modifications h = g_modifications g + 1 \<and> g_status h = (g_status g)[e := False] \<and> same_edges g h"
  by (auto simp: disableEdge_from_def Let_def bind_eq_Some_conv same_edges_def split: if_splits)

lemma setEdgeWeight_modifications:
  "setEdgeWeight e w g = Some h \<Longrightarrow> h = g \<or> g_modifications h = g_modifications g + 1 \<and> g_status h = g_status g \<and> same_edges g h"
  by (auto simp: setEdgeWeight_def Let_def bind_eq_Some_conv same_edges_def split: if_splits)

lemma undo_modifications:
  "undoEnableEdge e g = Some (b, h) \<Longrightarrow> h = g \<or> g_modifications h = g_modifications g - 1 \<and> g_status h = (g_status g)[e := False] \<and> same_edges g h \<and> isEdge g e"
  "undoDisableEdge e g = Some (b, h) \<Longrightarrow> h = g \<or> g_modifications h = g_modifications g - 1 \<and> g_status h = (g_status g)[e := True] \<and> same_edges g h \<and> isEdge g e"
  by (auto simp: undoEnableEdge_def undoDisableEdge_def Let_def bind_eq_Some_conv same_edges_def split: if_splits)

lemma addEdge_status:
  assumes ok: "graph_ok g" "status_ok g" and add: "addEdge u v id_arg w g = Some (e, h)"
    and new: "id_arg = None \<or> \<not> isEdge g (the id_arg)"
  shows "status_ok h \<and> g_modifications g < g_modifications h"
proof -
  have n: "u < g_num_nodes g" "v < g_num_nodes g" using addEdge_nodes[OF add] by auto
  let ?e = "new_edge_id id_arg g" and ?h = "with_edge (new_edge_id id_arg g) u v w g"
  obtain h' where h': "addEdge u v id_arg w g = Some (?e, h')" "same_edges ?h h'"
    "g_status h' = (grow (Suc ?e) False (g_status g))[?e := True]"
    by (rule addEdge_ok[OF ok(1) n new])
  have e: "isEdge ?h ?e" using ok(1) by (subst with_edge_isEdge) (auto simp: graph_ok_def sizes_ok_def)
  have l: "length (g_all_edges g) = g_next_id g" "length (g_status g) = g_next_id g"
    using ok(1) by (auto simp: graph_ok_def sizes_ok_def)
  have "isEdge h' x" if x: "x < length (g_status h')" "g_status h' ! x" for x
  proof (cases "x = ?e")
    case True
    then show ?thesis using e same_edges_isEdge[OF h'(2)] by simp
  next
    case False
    then have "x < length (g_status g)" "g_status g ! x" using x h'(3) by (auto simp: nth_grow split: if_splits)
    then have "isEdge g x" using ok(2) by (simp add: status_ok_def)
    then have "isEdge ?h x" using l by (subst with_edge_isEdge) auto
    then show ?thesis using same_edges_isEdge[OF h'(2)] by simp
  qed
  moreover have "g_modifications g < g_modifications h"
    using add addEdge_eq[OF ok(1) n, of id_arg w] enableEdge_modifications[of ?e ?h]
    by (auto simp: bind_eq_Some_conv with_edge_def Let_def)
  ultimately show ?thesis using h'(1) add by (simp add: status_ok_def)
qed

lemma graph_step_status:
  assumes step: "graph_step g h" and ok: "graph_ok g" "status_ok g"
  shows "status_ok h \<and> (g_modifications g \<le> g_modifications h \<longrightarrow> g_modifications g < g_modifications h \<or> same_graph g h)"
  using step
proof cases
  case node
  have m: "g_modifications h = g_modifications g + 1"
    using clearHistory_modifications[OF only_positions_id, of 0 True "with_node g"] by (simp add: node addNode_eq forced_clear_def)
  have "isEdge h e = isEdge g e" for e using same_edges_isEdge[OF addNode_ok(3)[OF ok(1)], of e] by (simp add: node)
  then have "status_ok h" using ok(2) addNode_ok(4)[OF ok(1)] by (simp add: status_ok_def node)
  then show ?thesis using m by simp
next
  case (edge id_arg u v w e)
  then show ?thesis using addEdge_status[OF ok] by blast
next
  case (enabled e b)
  then have "(h = g \<or> g_modifications h = g_modifications g + 1 \<and> g_status h = (g_status g)[e := b] \<and> same_edges g h) \<and> isEdge g e"
    using enableEdge_modifications[of e g h] disableEdge_modifications[of e g h] enableEdge_isEdge[of e g h] disableEdge_isEdge[of e g h]
    by (cases b) (simp_all add: setEdgeEnabled_def)
  then show ?thesis using ok(2) status_ok_same[of g h e b] same_edges_refl by (auto simp: same_graph_def)
next
  case (weight e w)
  then show ?thesis
    using setEdgeWeight_modifications[OF weight] ok(2) same_edges_refl same_edges_isEdge[of g h] by (auto simp: same_graph_def status_ok_def)
next
  case (undo_enable e b)
  then show ?thesis using undo_modifications(1)[OF undo_enable] ok(2) status_ok_same[of g h e False] same_edges_refl by (auto simp: same_graph_def)
next
  case (undo_disable e b)
  then show ?thesis using undo_modifications(2)[OF undo_disable] ok(2) status_ok_same[of g h e True] same_edges_refl by (auto simp: same_graph_def)
next
  case (fix_status e)
  then have "same_graph g h"
    by (auto simp: makeEdgeAssignmentConstant_def same_graph_def same_edges_def set_at_Some bind_eq_Some_conv)
  then show ?thesis using same_graph_status ok(2) by blast
next
  case (history cb m b)
  then have "same_graph g h" using clearHistory_ok[OF ok(1) history(2), of m b] by (simp add: same_graph_def)
  then show ?thesis using same_graph_status ok(2) by blast
next
  case (algorithm a i)
  then have "same_graph g h" by (auto simp: addDynamicAlgorithm_def same_graph_def same_edges_def Let_def bind_eq_Some_conv)
  then show ?thesis using same_graph_status ok(2) by blast
next
  case (position a i p)
  then have "same_graph g h" by (auto simp: updateAlgorithmHistory_def same_graph_def same_edges_def bind_eq_Some_conv)
  then show ?thesis using same_graph_status ok(2) by blast
next
  case invalid
  then have "same_graph g h" by (simp add: invalidate_def same_graph_def same_edges_def)
  then show ?thesis using same_graph_status ok(2) by blast
next
  case mark
  then have "same_graph g h" by (simp add: markChanged_def same_graph_def same_edges_def)
  then show ?thesis using same_graph_status ok(2) by blast
next
  case unmark
  then have "same_graph g h" by (simp add: clearChanged_def same_graph_def same_edges_def)
  then show ?thesis using same_graph_status ok(2) by blast
next
  case emptied
  have "g_modifications h = g_modifications g + 2" "g_status h = []"
    by (simp_all add: emptied graph_clear_def forced_clear_def clearHistory_def full_clear_def invalidate_def)
  then show ?thesis by (simp add: status_ok_def)
qed

lemma reachable_status_ok: "graph_reachable g \<Longrightarrow> status_ok g"
proof (induction rule: graph_reachable.induct)
  case start
  show ?case by (simp add: status_ok_def new_graph_def)
next
  case (step g h)
  then show ?case using graph_step_status reachable_graph_ok by blast
qed

lemma addNodes_reachable: "graph_reachable g \<Longrightarrow> graph_reachable (addNodes n g)"
  by (induction n arbitrary: g) (auto intro: graph_reachable.step graph_step.node)

lemma addEdge_reachable:
  assumes "graph_reachable g" "addEdge u v None w g \<noteq> None"
  shows "graph_reachable (snd (the (addEdge u v None w g)))"
proof -
  obtain e h where "addEdge u v None w g = Some (e, h)" using assms(2) by auto
  then show ?thesis using graph_reachable.step[OF assms(1) graph_step.edge[of None g u v w e h]] by simp
qed

end
