(* ===== verification/Union_Find_Spec.thy ===== *)
theory Union_Find_Spec
  imports Union_Find
begin

text \<open>
  The disjoint sets keep a partition of the elements: the invariant of the nodes, the representative of an
  element, and what every operation does to the partition.
\<close>

subsection \<open>The nodes\<close>

text \<open>A node stands for its own position, and a parent has a greater rank than its child.\<close>

definition nodes_ok :: "ds_node list \<Rightarrow> bool" where
  "nodes_ok ns \<longleftrightarrow> (\<forall>i < length ns. dn_index (ns ! i) = i \<and>
     (dn_parent (ns ! i) = - 1 \<or> 0 \<le> dn_parent (ns ! i) \<and> dn_parent (ns ! i) < int (length ns) \<and>
        dn_rank (ns ! i) < dn_rank (ns ! nat (dn_parent (ns ! i)))))"

abbreviation is_root :: "ds_node list \<Rightarrow> nat \<Rightarrow> bool" where
  "is_root ns i \<equiv> dn_parent (ns ! i) = - 1"

abbreviation up :: "ds_node list \<Rightarrow> nat \<Rightarrow> nat" where
  "up ns i \<equiv> nat (dn_parent (ns ! i))"

definition ds_rep :: "ds_node list \<Rightarrow> nat \<Rightarrow> nat" where
  "ds_rep ns i = the (find_root ns i)"

lemma nodes_okD:
  assumes "nodes_ok ns" "i < length ns"
  shows "dn_index (ns ! i) = i"
    "\<not> is_root ns i \<Longrightarrow> 0 \<le> dn_parent (ns ! i)"
    "\<not> is_root ns i \<Longrightarrow> up ns i < length ns"
    "\<not> is_root ns i \<Longrightarrow> dn_rank (ns ! i) < dn_rank (ns ! up ns i)"
    "\<not> is_root ns i \<Longrightarrow> dn_parent (ns ! i) < int (length ns)"
  using assms unfolding nodes_ok_def by fastforce+

lemma nodes_induct [consumes 2, case_names root step]:
  assumes ok: "nodes_ok ns" and i: "i < length ns"
    and root: "\<And>i. i < length ns \<Longrightarrow> is_root ns i \<Longrightarrow> P i"
    and step: "\<And>i. i < length ns \<Longrightarrow> \<not> is_root ns i \<Longrightarrow> P (up ns i) \<Longrightarrow> P i"
  shows "P i"
proof -
  obtain M where M: "\<forall>j < length ns. dn_rank (ns ! j) \<le> M"
    using finite_nat_set_iff_bounded_le[of "(\<lambda>j. dn_rank (ns ! j)) ` {..<length ns}"] by auto
  show ?thesis
    using i
  proof (induction "M - dn_rank (ns ! i)" arbitrary: i rule: less_induct)
    case less
    show ?case
    proof (cases "is_root ns i")
      case True
      then show ?thesis using root less.prems by blast
    next
      case False
      note u = nodes_okD[OF ok less.prems]
      have "M - dn_rank (ns ! up ns i) < M - dn_rank (ns ! i)"
        using M u(3,4) False by (meson diff_less_mono2 less_le_trans)
      then show ?thesis using less.hyps u(3) False step less.prems by blast
    qed
  qed
qed

lemma find_root_Some:
  assumes "nodes_ok ns" "i < length ns"
  shows "find_root ns i = Some (ds_rep ns i) \<and> ds_rep ns i < length ns \<and> is_root ns (ds_rep ns i) \<and>
    (ds_rep ns i \<noteq> i \<longrightarrow> dn_rank (ns ! i) < dn_rank (ns ! ds_rep ns i))"
  using assms
proof (induction rule: nodes_induct)
  case (root i)
  then show ?case by (simp add: ds_rep_def find_root.simps[of ns i])
next
  case (step i)
  have "find_root ns i = find_root ns (up ns i)"
    using step nodes_okD(2)[OF assms(1) step(1)] by (simp add: find_root.simps[of ns i])
  moreover have "ds_rep ns i = ds_rep ns (up ns i)" using calculation by (simp add: ds_rep_def)
  ultimately show ?case
    using step nodes_okD(4)[OF assms(1) step(1)] by fastforce
qed

lemmas ds_rep_facts = find_root_Some[THEN conjunct1] find_root_Some[THEN conjunct2, THEN conjunct1]
  find_root_Some[THEN conjunct2, THEN conjunct2, THEN conjunct1]

lemma ds_rep_root: "i < length ns \<Longrightarrow> is_root ns i \<Longrightarrow> ds_rep ns i = i"
  by (simp add: ds_rep_def find_root.simps[of ns i])

lemma ds_rep_up: "nodes_ok ns \<Longrightarrow> i < length ns \<Longrightarrow> \<not> is_root ns i \<Longrightarrow> ds_rep ns i = ds_rep ns (up ns i)"
  using nodes_okD(2)[of ns i] by (simp add: ds_rep_def find_root.simps[of ns i])

lemma ds_rep_idem: "nodes_ok ns \<Longrightarrow> i < length ns \<Longrightarrow> ds_rep ns (ds_rep ns i) = ds_rep ns i"
  using find_root_Some ds_rep_root by blast

text \<open>The representative is the only function that is the identity on roots and constant along parents.\<close>

lemma ds_rep_unique:
  assumes "nodes_ok ns" "i < length ns"
    "\<And>i. i < length ns \<Longrightarrow> is_root ns i \<Longrightarrow> f i = i"
    "\<And>i. i < length ns \<Longrightarrow> \<not> is_root ns i \<Longrightarrow> f i = f (up ns i)"
  shows "ds_rep ns i = f i"
  using assms(1,2)
  by (induction rule: nodes_induct) (simp_all add: ds_rep_root ds_rep_up assms)

subsection \<open>Path compression\<close>

lemma redirect_ok:
  assumes ok: "nodes_ok ns" and i: "i < length ns" "ds_rep ns i \<noteq> i"
    and ns': "ns' = ns[i := (ns ! i)\<lparr>dn_parent := int (ds_rep ns i)\<rparr>]"
  shows "nodes_ok ns' \<and> (\<forall>j < length ns. ds_rep ns' j = ds_rep ns j \<and> dn_rank (ns' ! j) = dn_rank (ns ! j) \<and>
    (is_root ns' j = is_root ns j))"
proof -
  note r = find_root_Some[OF ok i(1)]
  have j: "dn_rank (ns' ! j) = dn_rank (ns ! j) \<and> dn_index (ns' ! j) = dn_index (ns ! j)" if "j < length ns" for j
    using that i(1) by (simp add: ns' nth_list_update)
  have p: "dn_parent (ns' ! j) = (if j = i then int (ds_rep ns i) else dn_parent (ns ! j))" if "j < length ns" for j
    using that by (simp add: ns' nth_list_update)
  have len: "length ns' = length ns" by (simp add: ns')
  have ok': "nodes_ok ns'"
    unfolding nodes_ok_def len
  proof (intro allI impI conjI)
    fix k assume k: "k < length ns"
    show "dn_index (ns' ! k) = k" using j k nodes_okD(1)[OF ok k] by simp
    show "dn_parent (ns' ! k) = - 1 \<or> 0 \<le> dn_parent (ns' ! k) \<and> dn_parent (ns' ! k) < int (length ns) \<and>
      dn_rank (ns' ! k) < dn_rank (ns' ! nat (dn_parent (ns' ! k)))"
      using nodes_okD[OF ok k] p[OF k] j[OF k] j[of "ds_rep ns i"] j[of "up ns k"] r i by (cases "k = i") auto
  qed
  have root: "is_root ns' k = is_root ns k" if "k < length ns" for k
    using p[OF that] r i ds_rep_root by auto
  have "ds_rep ns' k = ds_rep ns k" if "k < length ns" for k
  proof (rule ds_rep_unique[OF ok'])
    show "k < length ns'" using that len by simp
    show "ds_rep ns m = m" if "m < length ns'" "is_root ns' m" for m
      using that len root ds_rep_root by simp
    show "ds_rep ns m = ds_rep ns (up ns' m)" if m: "m < length ns'" "\<not> is_root ns' m" for m
      using m len root p[of m] ds_rep_up[OF ok, of m] ds_rep_idem[OF ok i(1)] by (cases "m = i") auto
  qed
  then show ?thesis using ok' j root by blast
qed

text \<open>\<open>same_forest\<close>: as many nodes, the same roots and ranks, and the same representatives.\<close>

definition same_forest :: "ds_node list \<Rightarrow> ds_node list \<Rightarrow> bool" where
  "same_forest ns ns' \<longleftrightarrow> nodes_ok ns' \<and> length ns' = length ns \<and>
     (\<forall>j < length ns. ds_rep ns' j = ds_rep ns j \<and> dn_rank (ns' ! j) = dn_rank (ns ! j) \<and> (is_root ns' j = is_root ns j))"

lemma same_forest_trans: "same_forest ns ns1 \<Longrightarrow> same_forest ns1 ns2 \<Longrightarrow> same_forest ns ns2"
  by (simp add: same_forest_def)

lemma same_forest_refl: "nodes_ok ns \<Longrightarrow> same_forest ns ns"
  by (simp add: same_forest_def)

lemma compress_path_ok:
  assumes "nodes_ok ns" "i < length ns"
  obtains ns' where "compress_path (ds_rep ns i) i ns = Some ns'" "same_forest ns ns'"
proof -
  obtain M where M: "\<forall>j < length ns. dn_rank (ns ! j) \<le> M"
    using finite_nat_set_iff_bounded_le[of "(\<lambda>j. dn_rank (ns ! j)) ` {..<length ns}"] by auto
  have "\<exists>ns'. compress_path (ds_rep ns i) i ns = Some ns' \<and> same_forest ns ns'"
    using assms M
  proof (induction "M - dn_rank (ns ! i)" arbitrary: i ns rule: less_induct)
    case less
    show ?case
    proof (cases "ds_rep ns i = i")
      case True
      then show ?thesis by (simp add: compress_path.simps[of i i] same_forest_refl less.prems)
    next
      case False
      have nr: "\<not> is_root ns i" using False ds_rep_root less.prems by blast
      note u = nodes_okD(2-4)[OF less.prems(1,2) nr]
      define ns1 where "ns1 = ns[i := (ns ! i)\<lparr>dn_parent := int (ds_rep ns i)\<rparr>]"
      have len: "length ns1 = length ns" by (simp add: ns1_def)
      have s: "same_forest ns ns1"
        using redirect_ok[OF less.prems(1,2) False ns1_def] by (simp add: same_forest_def ns1_def)
      have r': "ds_rep ns1 (up ns i) = ds_rep ns i"
        using s u(2) ds_rep_up[OF less.prems(1,2) nr] by (simp add: same_forest_def)
      have e: "compress_path (ds_rep ns i) i ns = compress_path (ds_rep ns1 (up ns i)) (up ns i) ns1"
        using False less.prems(2) u(1) unfolding r'
        by (subst compress_path.simps) (simp add: ns1_def)
      have r1: "dn_rank (ns1 ! j) = dn_rank (ns ! j)" if "j < length ns" for j
        using that s by (simp add: same_forest_def)
      have "M - dn_rank (ns1 ! up ns i) < M - dn_rank (ns ! i)"
        using u r1 less.prems(3) by (metis diff_less_mono2 less_le_trans)
      moreover have "nodes_ok ns1" using s by (simp add: same_forest_def)
      ultimately obtain ns' where "compress_path (ds_rep ns1 (up ns i)) (up ns i) ns1 = Some ns'" "same_forest ns1 ns'"
        using less.hyps[of ns1 "up ns i"] u(2) len r1 less.prems(3) by auto
      then show ?thesis using e same_forest_trans[OF s] by auto
    qed
  qed
  then show ?thesis using that by blast
qed

subsection \<open>The invariant of the sets\<close>

text \<open>
  \<open>ds_ok\<close>: there is a node for every element, the counter is the number of roots, and a root of rank \<open>k\<close>
  represents at least \<open>2 ^ k\<close> elements.
\<close>

definition ds_class :: "ds_node list \<Rightarrow> nat \<Rightarrow> nat set" where
  "ds_class ns r = {j. j < length ns \<and> ds_rep ns j = r}"

definition ds_roots :: "ds_node list \<Rightarrow> nat set" where
  "ds_roots ns = {i. i < length ns \<and> is_root ns i}"

definition ds_ok :: "disjoint_sets \<Rightarrow> bool" where
  "ds_ok d \<longleftrightarrow> nodes_ok (ds_nodes d) \<and> length (ds_nodes d) = ds_numElements d \<and>
     ds_numSets d = int (card (ds_roots (ds_nodes d))) \<and>
     (\<forall>r \<in> ds_roots (ds_nodes d). 2 ^ dn_rank (ds_nodes d ! r) \<le> card (ds_class (ds_nodes d) r))"

text \<open>The representative of an element, and the relation of being in one set.\<close>

definition ds_set :: "disjoint_sets \<Rightarrow> nat \<Rightarrow> nat" where
  "ds_set d i = ds_rep (ds_nodes d) i"

definition same_set :: "disjoint_sets \<Rightarrow> nat \<Rightarrow> nat \<Rightarrow> bool" where
  "same_set d i j \<longleftrightarrow> ds_set d i = ds_set d j"

lemma finite_ds [simp]: "finite (ds_class ns r)" "finite (ds_roots ns)"
  by (simp_all add: ds_class_def ds_roots_def)

lemma ds_roots_reps: "nodes_ok ns \<Longrightarrow> ds_roots ns = ds_rep ns ` {..<length ns}"
  using find_root_Some ds_rep_root by (force simp: ds_roots_def image_iff)

lemma same_forest_sets:
  "same_forest ns ns' \<Longrightarrow> ds_roots ns' = ds_roots ns \<and> ds_class ns' r = ds_class ns r"
  by (auto simp: same_forest_def ds_roots_def ds_class_def)

lemma ds_ok_forest:
  assumes "ds_ok d" "same_forest (ds_nodes d) ns"
  shows "ds_ok (d\<lparr>ds_nodes := ns\<rparr>)"
  using assms same_forest_sets[OF assms(2)] unfolding ds_ok_def same_forest_def ds_roots_def by simp

lemma FindSet_ok:
  assumes "ds_ok d" "e < ds_numElements d"
  obtains ns where "FindSet e d = Some (ds_set d e, d\<lparr>ds_nodes := ns\<rparr>)" "same_forest (ds_nodes d) ns"
    "ds_ok (d\<lparr>ds_nodes := ns\<rparr>)"
proof -
  have ok: "nodes_ok (ds_nodes d)" and e: "e < length (ds_nodes d)" using assms by (auto simp: ds_ok_def)
  obtain ns where ns: "compress_path (ds_rep (ds_nodes d) e) e (ds_nodes d) = Some ns" "same_forest (ds_nodes d) ns"
    using compress_path_ok[OF ok e] by blast
  have "dn_index (ns ! ds_rep (ds_nodes d) e) = ds_rep (ds_nodes d) e" "ds_rep (ds_nodes d) e < length ns"
    using ns(2) find_root_Some[OF ok e] by (auto simp: same_forest_def nodes_okD)
  then have "FindSet e d = Some (ds_set d e, d\<lparr>ds_nodes := ns\<rparr>)"
    using assms ns find_root_Some[OF ok e] by (simp add: FindSet_def ds_set_def)
  then show ?thesis using that ns ds_ok_forest assms by blast
qed

text \<open>Finding a root changes nothing, so the assertions that do it are without effect.\<close>

lemma FindSet_root:
  assumes "ds_ok d" "e < ds_numElements d" "ds_set d e = e"
  shows "FindSet e d = Some (e, d)"
  using assms find_root_Some[of "ds_nodes d" e]
  by (simp add: FindSet_def ds_set_def ds_ok_def compress_path.simps[of e e] nodes_okD)

lemma ds_set_lt: "ds_ok d \<Longrightarrow> i < ds_numElements d \<Longrightarrow> ds_set d i < ds_numElements d"
  using find_root_Some unfolding ds_ok_def ds_set_def by metis

lemma ds_set_idem: "ds_ok d \<Longrightarrow> i < ds_numElements d \<Longrightarrow> ds_set d (ds_set d i) = ds_set d i"
  using ds_rep_idem unfolding ds_ok_def ds_set_def by metis

subsection \<open>Linking two roots\<close>

lemma link_parent_ok:
  assumes ok: "nodes_ok ns" and ab: "a < length ns" "b < length ns" "a \<noteq> b" "is_root ns a" "is_root ns b"
    and rank: "dn_rank (ns ! b) < k" "dn_rank (ns ! a) \<le> k"
    and ns': "ns' = ns[b := (ns ! b)\<lparr>dn_parent := int a\<rparr>, a := (ns ! a)\<lparr>dn_rank := k\<rparr>]"
  shows "nodes_ok ns'" "\<And>j. j < length ns \<Longrightarrow> ds_rep ns' j = (if ds_rep ns j = b then a else ds_rep ns j)"
    "ds_roots ns' = ds_roots ns - {b}" "length ns' = length ns"
proof -
  show len: "length ns' = length ns" by (simp add: ns')
  have at: "dn_index (ns' ! j) = j" "dn_parent (ns' ! j) = (if j = b then int a else dn_parent (ns ! j))"
    "dn_rank (ns' ! j) = (if j = a then k else dn_rank (ns ! j))" if "j < length ns" for j
    using that ab nodes_okD(1)[OF ok] by (auto simp: ns' nth_list_update)
  show ok': "nodes_ok ns'"
    unfolding nodes_ok_def len
  proof (intro allI impI conjI)
    fix j assume j: "j < length ns"
    show "dn_index (ns' ! j) = j" using at j by simp
    show "dn_parent (ns' ! j) = - 1 \<or> 0 \<le> dn_parent (ns' ! j) \<and> dn_parent (ns' ! j) < int (length ns) \<and>
      dn_rank (ns' ! j) < dn_rank (ns' ! nat (dn_parent (ns' ! j)))"
      using nodes_okD[OF ok j] at[OF j] at[OF ab(1)] at[of "up ns j"] ab rank
      by (cases "j = b"; cases "is_root ns j") auto
  qed
  have root: "is_root ns' j \<longleftrightarrow> is_root ns j \<and> j \<noteq> b" if "j < length ns" for j
    using at(2)[OF that] ab by auto
  then show "ds_roots ns' = ds_roots ns - {b}" by (auto simp: ds_roots_def len)
  have ra: "ds_rep ns a = a" "ds_rep ns b = b" using ab ds_rep_root by auto
  show "ds_rep ns' j = (if ds_rep ns j = b then a else ds_rep ns j)" if "j < length ns" for j
  proof (rule ds_rep_unique[OF ok'])
    show "j < length ns'" using that len by simp
    show "(if ds_rep ns m = b then a else ds_rep ns m) = m" if "m < length ns'" "is_root ns' m" for m
      using that len root ds_rep_root by simp
    show "(if ds_rep ns m = b then a else ds_rep ns m) = (if ds_rep ns (up ns' m) = b then a else ds_rep ns (up ns' m))"
      if m: "m < length ns'" "\<not> is_root ns' m" for m
      using m len root[of m] at(2)[of m] ds_rep_up[OF ok, of m] ra ab(3) by (cases "m = b") auto
  qed
qed

text \<open>What a union of the sets of \<open>a\<close> and \<open>b\<close> leaves: everything else as it was.\<close>

definition merged :: "disjoint_sets \<Rightarrow> nat \<Rightarrow> nat \<Rightarrow> disjoint_sets \<Rightarrow> bool" where
  "merged d a b d' \<longleftrightarrow> ds_ok d' \<and> ds_numElements d' = ds_numElements d \<and>
     ds_numSets d' = ds_numSets d - (if same_set d a b then 0 else 1) \<and>
     (\<forall>i < ds_numElements d. \<forall>j < ds_numElements d. same_set d' i j \<longleftrightarrow>
        same_set d i j \<or> same_set d i a \<and> same_set d b j \<or> same_set d i b \<and> same_set d a j)"

lemma link_parent_merged:
  assumes ok: "ds_ok d" and ab: "a < ds_numElements d" "b < ds_numElements d" "a \<noteq> b" "ds_set d a = a" "ds_set d b = b"
    and rank: "dn_rank (ds_nodes d ! b) < k" "dn_rank (ds_nodes d ! a) \<le> k"
    and size: "k = dn_rank (ds_nodes d ! a) \<or> k = Suc (dn_rank (ds_nodes d ! a)) \<and> dn_rank (ds_nodes d ! a) = dn_rank (ds_nodes d ! b)"
    and ns': "ns' = (ds_nodes d)[b := (ds_nodes d ! b)\<lparr>dn_parent := int a\<rparr>, a := (ds_nodes d ! a)\<lparr>dn_rank := k\<rparr>]"
  shows "merged d a b (d\<lparr>ds_nodes := ns', ds_numSets := ds_numSets d - 1\<rparr>)"
proof -
  let ?ns = "ds_nodes d" and ?d = "d\<lparr>ds_nodes := ns', ds_numSets := ds_numSets d - 1\<rparr>"
  have n: "nodes_ok ?ns" "length ?ns = ds_numElements d" using ok by (auto simp: ds_ok_def)
  have roots: "is_root ?ns a" "is_root ?ns b" "a \<in> ds_roots ?ns" "b \<in> ds_roots ?ns"
    using find_root_Some[OF n(1)] ab n(2) unfolding ds_set_def ds_roots_def by fastforce+
  note l = link_parent_ok[OF n(1) _ _ ab(3) roots(1,2) rank ns', unfolded n(2), OF ab(1,2)]
  have cl: "ds_class ns' r = (if r = a then ds_class ?ns a \<union> ds_class ?ns b else ds_class ?ns r)" if "r \<noteq> b" for r
    using that l(2,4) n(2) ab(3) by (auto simp: ds_class_def split: if_splits)
  have disj: "ds_class ?ns a \<inter> ds_class ?ns b = {}" using ab(3) by (auto simp: ds_class_def)
  have sz: "2 ^ dn_rank (?ns ! r) \<le> card (ds_class ?ns r)" if "r \<in> ds_roots ?ns" for r
    using ok that by (simp add: ds_ok_def)
  have "2 ^ dn_rank (ns' ! r) \<le> card (ds_class ns' r)" if r: "r \<in> ds_roots ns'" for r
  proof (cases "r = a")
    case True
    have "dn_rank (ns' ! a) = k" using ab n(2) by (simp add: ns')
    moreover have "card (ds_class ns' a) = card (ds_class ?ns a) + card (ds_class ?ns b)"
      using cl[OF ab(3)] disj by (simp add: card_Un_disjoint)
    ultimately show ?thesis using True size sz[OF roots(3)] sz[OF roots(4)] by auto
  next
    case False
    then have "dn_rank (ns' ! r) = dn_rank (?ns ! r)" "r \<noteq> b" "r \<in> ds_roots ?ns"
      using r l(3) by (auto simp: ns' nth_list_update)
    then show ?thesis using sz[of r] cl[of r] False by simp
  qed
  moreover have "card (ds_roots ?ns) = Suc (card (ds_roots ns'))"
    using l(3) roots(4) card.remove[of "ds_roots ?ns" b] by simp
  ultimately have "ds_ok ?d" using ok l(1,4) n(2) by (simp add: ds_ok_def)
  moreover have "same_set ?d i j \<longleftrightarrow> same_set d i j \<or> same_set d i a \<and> same_set d b j \<or> same_set d i b \<and> same_set d a j"
    if "i < ds_numElements d" "j < ds_numElements d" for i j
    using l(2) that ab(3-5) by (auto simp: same_set_def ds_set_def)
  ultimately show ?thesis using ab unfolding merged_def by (auto simp: same_set_def)
qed

lemma merged_swap: "merged d a b d' \<Longrightarrow> merged d b a d'"
  unfolding merged_def by (metis same_set_def)

lemma merged_self: "ds_ok d \<Longrightarrow> merged d a a d"
  by (auto simp: merged_def same_set_def)

lemma same_elements_update [simp]:
  "same_set (d\<lparr>ds_elements := es\<rparr>) = same_set d" "same_set (d\<lparr>ds_seen := bs\<rparr>) = same_set d"
  "ds_set (d\<lparr>ds_elements := es\<rparr>) = ds_set d" "ds_set (d\<lparr>ds_seen := bs\<rparr>) = ds_set d"
  by (simp_all add: same_set_def ds_set_def fun_eq_iff)

lemma link_roots_merged:
  assumes ok: "ds_ok d" and ab: "a < ds_numElements d" "b < ds_numElements d" "a \<noteq> b" "ds_set d a = a" "ds_set d b = b"
  obtains ns where "link_roots a b (ds_nodes d) = Some ns"
    "merged d a b (d\<lparr>ds_nodes := ns, ds_numSets := ds_numSets d - 1\<rparr>)"
proof -
  let ?ns = "ds_nodes d"
  have n: "length ?ns = ds_numElements d" using ok by (auto simp: ds_ok_def)
  have id: "(?ns ! i)\<lparr>dn_rank := dn_rank (?ns ! i)\<rparr> = ?ns ! i" for i by simp
  consider "dn_rank (?ns ! a) > dn_rank (?ns ! b)" | "dn_rank (?ns ! a) < dn_rank (?ns ! b)"
    | "dn_rank (?ns ! a) = dn_rank (?ns ! b)" by linarith
  then show thesis
  proof cases
    case 1
    have "?ns[b := (?ns ! b)\<lparr>dn_parent := int a\<rparr>] =
        ?ns[b := (?ns ! b)\<lparr>dn_parent := int a\<rparr>, a := (?ns ! a)\<lparr>dn_rank := dn_rank (?ns ! a)\<rparr>]"
      using ab(3) unfolding id by (metis list_update_id list_update_swap)
    from link_parent_merged[OF ok ab 1 order.refl _ this] show ?thesis
      using that 1 ab n by (simp add: link_roots_def)
  next
    case 2
    have "?ns[a := (?ns ! a)\<lparr>dn_parent := int b\<rparr>] =
        ?ns[a := (?ns ! a)\<lparr>dn_parent := int b\<rparr>, b := (?ns ! b)\<lparr>dn_rank := dn_rank (?ns ! b)\<rparr>]"
      using ab(3) unfolding id by (metis list_update_id list_update_swap)
    from merged_swap[OF link_parent_merged[OF ok ab(2,1) ab(3)[symmetric] ab(5,4) 2 order.refl _ this]] show ?thesis
      using that 2 ab n by (simp add: link_roots_def)
  next
    case 3
    from link_parent_merged[OF ok ab _ _ _ refl, of "Suc (dn_rank (?ns ! a))"] show ?thesis
      using that 3 ab n by (simp add: link_roots_def)
  qed
qed

lemma UnionSets_ok:
  assumes ok: "ds_ok d" and ab: "a < ds_numElements d" "b < ds_numElements d" "ds_set d a = a" "ds_set d b = b"
  obtains d' where "UnionSets a b d = Some d'" "merged d a b d'" "ds_elements d' = ds_elements d" "ds_seen d' = ds_seen d"
proof (cases "a = b")
  case True
  then show ?thesis using that[of d] FindSet_root ab ok merged_self by (simp add: UnionSets_def)
next
  case False
  obtain ns where ns: "link_roots a b (ds_nodes d) = Some ns"
    "merged d a b (d\<lparr>ds_nodes := ns, ds_numSets := ds_numSets d - 1\<rparr>)"
    using link_roots_merged[OF ok ab(1,2) False ab(3,4)] by blast
  let ?d = "d\<lparr>ds_nodes := ns, ds_numSets := ds_numSets d - 1\<rparr>"
  have d: "ds_ok ?d" "ds_set ?d a = ds_set ?d b" "ds_numElements ?d = ds_numElements d"
    using ns(2) ab by (auto simp: merged_def same_set_def)
  obtain n1 where 1: "FindSet a ?d = Some (ds_set ?d a, ?d\<lparr>ds_nodes := n1\<rparr>)"
    using FindSet_ok[OF d(1), of a] ab(1) d(3) by auto
  obtain n2 where 2: "FindSet b ?d = Some (ds_set ?d b, ?d\<lparr>ds_nodes := n2\<rparr>)"
    using FindSet_ok[OF d(1), of b] ab(2) d(3) by auto
  have "UnionSets a b d = Some ?d"
    unfolding UnionSets_def FindSet_root[OF ok ab(1,3)] FindSet_root[OF ok ab(2,4)] Let_def ns(1)
    using ab(1,2) False 1 2 d(2) by simp
  then show ?thesis using that ns(2) by simp
qed

lemma merged_forest:
  assumes "merged (d\<lparr>ds_nodes := ns\<rparr>) a b d'" "same_forest (ds_nodes d) ns" "length (ds_nodes d) = ds_numElements d"
    "a' < ds_numElements d" "b' < ds_numElements d" "same_set d a a'" "same_set d b b'" "a < ds_numElements d" "b < ds_numElements d"
  shows "merged d a' b' d'"
proof -
  have "same_set (d\<lparr>ds_nodes := ns\<rparr>) i j = same_set d i j" if "i < ds_numElements d" "j < ds_numElements d" for i j
    using assms(2,3) that by (simp add: same_set_def ds_set_def same_forest_def)
  then show ?thesis using assms unfolding merged_def same_set_def by simp
qed

lemma UnionElements_ok:
  assumes ok: "ds_ok d" and ab: "a < ds_numElements d" "b < ds_numElements d"
  obtains d' where "UnionElements a b d = Some d'" "merged d a b d'"
proof -
  obtain n1 where n1: "FindSet a d = Some (ds_set d a, d\<lparr>ds_nodes := n1\<rparr>)" "same_forest (ds_nodes d) n1"
    "ds_ok (d\<lparr>ds_nodes := n1\<rparr>)" using FindSet_ok[OF ok ab(1)] by blast
  let ?d1 = "d\<lparr>ds_nodes := n1\<rparr>"
  obtain n2 where n2: "FindSet b ?d1 = Some (ds_set ?d1 b, ?d1\<lparr>ds_nodes := n2\<rparr>)" "same_forest n1 n2"
    "ds_ok (?d1\<lparr>ds_nodes := n2\<rparr>)" using FindSet_ok[OF n1(3), of b] ab by auto
  let ?d2 = "d\<lparr>ds_nodes := n2\<rparr>"
  have s: "same_forest (ds_nodes d) n2" using same_forest_trans n1 n2 by blast
  have len: "length (ds_nodes d) = ds_numElements d" using ok by (simp add: ds_ok_def)
  have set: "ds_set ?d2 i = ds_set d i" "ds_set ?d1 i = ds_set d i" if "i < ds_numElements d" for i
    using s n1(2) len that by (auto simp: ds_set_def same_forest_def)
  have r: "ds_set d a < ds_numElements d" "ds_set d b < ds_numElements d" using ds_set_lt ok ab by auto
  obtain d' where d': "UnionSets (ds_set d a) (ds_set d b) ?d2 = Some d'" "merged ?d2 (ds_set d a) (ds_set d b) d'"
    using UnionSets_ok[of ?d2 "ds_set d a" "ds_set d b"] n2(3) r set(1)[OF r(1)] set(1)[OF r(2)]
      ds_set_idem[OF ok ab(1)] ds_set_idem[OF ok ab(2)] by auto
  have "UnionElements a b d = Some d'" using n1(1) n2(1) d'(1) ab set(2) by (simp add: UnionElements_def)
  moreover have "merged d a b d'"
    using merged_forest[OF d'(2) s len ab] r ds_set_idem ok ab by (simp add: same_set_def)
  ultimately show ?thesis using that by blast
qed

subsection \<open>New elements\<close>

abbreviation single_node :: "nat \<Rightarrow> ds_node" where
  "single_node i \<equiv> \<lparr>dn_rank = 0, dn_index = i, dn_parent = - 1\<rparr>"

lemma add_nodes_eq:
  "add_nodes [length ns ..< length ns + k] ns = Some (ns @ map single_node [length ns ..< length ns + k])"
proof (induction k arbitrary: ns)
  case (Suc k)
  have "[length ns ..< length ns + Suc k] = length ns # [Suc (length ns) ..< Suc (length ns) + k]"
    by (simp add: upt_rec)
  then show ?case using Suc[of "ns @ [single_node (length ns)]"] by simp
qed simp

lemma append_nodes:
  assumes ok: "nodes_ok ns" and ns': "ns' = ns @ map single_node [length ns ..< length ns + k]"
  shows "nodes_ok ns'" "\<And>i. i < length ns + k \<Longrightarrow> ds_rep ns' i = (if i < length ns then ds_rep ns i else i)"
    "ds_roots ns' = ds_roots ns \<union> {length ns ..< length ns + k}" "length ns' = length ns + k"
proof -
  show len: "length ns' = length ns + k" by (simp add: ns')
  have at: "ns' ! i = (if i < length ns then ns ! i else single_node i)" if "i < length ns + k" for i
  proof (cases "i < length ns")
    case False
    then obtain m where "i = length ns + m" using le_Suc_ex not_less by blast
    then show ?thesis using that by (simp add: ns' nth_append)
  qed (simp add: ns' nth_append)
  show ok': "nodes_ok ns'"
    unfolding nodes_ok_def len
  proof (intro allI impI conjI)
    fix i assume i: "i < length ns + k"
    show "dn_index (ns' ! i) = i" using at[OF i] nodes_okD(1)[OF ok] by simp
    show "dn_parent (ns' ! i) = - 1 \<or> 0 \<le> dn_parent (ns' ! i) \<and> dn_parent (ns' ! i) < int (length ns + k) \<and>
      dn_rank (ns' ! i) < dn_rank (ns' ! nat (dn_parent (ns' ! i)))"
    proof (cases "i < length ns \<and> \<not> is_root ns i")
      case True
      then show ?thesis using nodes_okD(2-5)[OF ok, of i] at[OF i] at[of "up ns i"] by simp
    next
      case False
      then show ?thesis using at[OF i] by auto
    qed
  qed
  show "ds_roots ns' = ds_roots ns \<union> {length ns ..< length ns + k}"
    using at by (auto simp: ds_roots_def len)
  show "ds_rep ns' i = (if i < length ns then ds_rep ns i else i)" if "i < length ns + k" for i
  proof (rule ds_rep_unique[OF ok'])
    show "i < length ns'" using that len by simp
    show "(if m < length ns then ds_rep ns m else m) = m" if "m < length ns'" "is_root ns' m" for m
      using that at[of m] len ds_rep_root by (auto split: if_splits)
    show "(if m < length ns then ds_rep ns m else m) = (if up ns' m < length ns then ds_rep ns (up ns' m) else up ns' m)"
      if m: "m < length ns'" "\<not> is_root ns' m" for m
      using m at[of m] len ds_rep_up[OF ok, of m] nodes_okD(3)[OF ok, of m] by (cases "m < length ns") auto
  qed
qed

text \<open>The new elements are alone in their sets.\<close>

definition extended :: "disjoint_sets \<Rightarrow> nat \<Rightarrow> disjoint_sets \<Rightarrow> bool" where
  "extended d k d' \<longleftrightarrow> ds_ok d' \<and> ds_numElements d' = ds_numElements d + k \<and> ds_numSets d' = ds_numSets d + int k \<and>
     (\<forall>i < ds_numElements d'. \<forall>j < ds_numElements d'. same_set d' i j \<longleftrightarrow>
        i = j \<or> i < ds_numElements d \<and> j < ds_numElements d \<and> same_set d i j)"

lemma AddElements_ok:
  assumes ok: "ds_ok d"
  obtains d' where "AddElements k d = Some d'" "extended d k d'"
proof -
  let ?ns = "ds_nodes d" and ?n = "ds_numElements d"
  have n: "nodes_ok ?ns" "length ?ns = ?n" using ok by (auto simp: ds_ok_def)
  define ns' where "ns' = ?ns @ map single_node [length ?ns ..< length ?ns + k]"
  let ?d = "d\<lparr>ds_nodes := ns', ds_numElements := ?n + k, ds_numSets := ds_numSets d + int k\<rparr>"
  note a = append_nodes[OF n(1) ns'_def, unfolded n(2)]
  have r: "AddElements k d = Some ?d" using add_nodes_eq[of ?ns k] n(2) by (simp add: AddElements_def ns'_def)
  have lt: "ds_rep ?ns i < ?n" if "i < ?n" for i using find_root_Some[OF n(1), of i] that n(2) by simp
  have "ds_roots ?ns \<inter> {?n ..< ?n + k} = {}" by (auto simp: ds_roots_def n(2))
  then have "card (ds_roots ns') = card (ds_roots ?ns) + k" using a(3) by (simp add: card_Un_disjoint)
  moreover have "2 ^ dn_rank (ns' ! r) \<le> card (ds_class ns' r)" if "r \<in> ds_roots ns'" for r
  proof (cases "r < ?n")
    case True
    then have "r \<in> ds_roots ?ns" "ns' ! r = ?ns ! r" using that a(3) n(2) by (auto simp: ns'_def nth_append)
    moreover have "ds_class ?ns r \<subseteq> ds_class ns' r" using a(2,4) n(2) by (auto simp: ds_class_def)
    then have "card (ds_class ?ns r) \<le> card (ds_class ns' r)" by (simp add: card_mono)
    moreover have "2 ^ dn_rank (?ns ! r) \<le> card (ds_class ?ns r)" using calculation(1) ok by (simp add: ds_ok_def)
    ultimately show ?thesis by simp
  next
    case False
    have r: "r < ?n + k" using that a(4) by (simp add: ds_roots_def)
    then have "r \<in> ds_class ns' r" using a(2)[OF r] a(4) False by (simp add: ds_class_def)
    then have "1 \<le> card (ds_class ns' r)" by (metis One_nat_def Suc_leI card_gt_0_iff empty_iff finite_ds(1))
    then show ?thesis using False r n(2) by (simp add: ns'_def nth_append)
  qed
  ultimately have "ds_ok ?d" using ok a(1,4) by (simp add: ds_ok_def)
  moreover have "same_set ?d i j \<longleftrightarrow> i = j \<or> i < ?n \<and> j < ?n \<and> same_set d i j" if "i < ?n + k" "j < ?n + k" for i j
    using a(2) lt that by (auto simp: same_set_def ds_set_def)
  ultimately show ?thesis using that r by (simp add: extended_def)
qed

lemma ds_ok_new: "ds_ok new_sets" and ds_ok_reset: "ds_ok (ds_reset d)"
  by (simp_all add: ds_ok_def new_sets_def ds_reset_def nodes_ok_def ds_roots_def)

subsection \<open>The number of sets, and an element of each\<close>

lemma numSets_classes:
  assumes "ds_ok d"
  shows "ds_numSets d = int (card (ds_set d ` {..<ds_numElements d}))"
proof -
  have "ds_roots (ds_nodes d) = ds_set d ` {..<ds_numElements d}"
    using assms ds_roots_reps[of "ds_nodes d"] by (simp add: ds_ok_def ds_set_def)
  then show ?thesis using assms by (simp add: ds_ok_def)
qed

text \<open>The ranks stay logarithmic.\<close>

lemma rank_bound:
  assumes "ds_ok d" "i < ds_numElements d"
  shows "2 ^ dn_rank (ds_nodes d ! i) \<le> ds_numElements d"
proof -
  let ?ns = "ds_nodes d" let ?r = "ds_rep ?ns i"
  have n: "nodes_ok ?ns" "length ?ns = ds_numElements d" using assms by (auto simp: ds_ok_def)
  have r: "?r \<in> ds_roots ?ns" "dn_rank (?ns ! i) \<le> dn_rank (?ns ! ?r)"
    using find_root_Some[OF n(1), of i] assms n(2) by (cases "?r = i"; auto simp: ds_roots_def)+
  have "(2::nat) ^ dn_rank (?ns ! i) \<le> 2 ^ dn_rank (?ns ! ?r)" using r(2) by simp
  also have "\<dots> \<le> card (ds_class ?ns ?r)" using assms r(1) by (simp add: ds_ok_def)
  also have "\<dots> \<le> card {..<ds_numElements d}" by (rule card_mono) (auto simp: ds_class_def n(2))
  finally show ?thesis by simp
qed

text \<open>The cache of \<open>GetElement\<close> is trusted when it has as many entries as there are sets.\<close>

definition cache_ok :: "disjoint_sets \<Rightarrow> bool" where
  "cache_ok d \<longleftrightarrow> (int (length (ds_elements d)) = ds_numSets d \<longrightarrow>
     distinct (ds_elements d) \<and> set (ds_elements d) = ds_set d ` {..<ds_numElements d})"

lemma collect_elements_ok:
  assumes "ds_ok d" "\<forall>i \<in> set is. i < ds_numElements d" "length (ds_seen d) = ds_numElements d"
    "\<forall>s < ds_numElements d. ds_seen d ! s \<longleftrightarrow> s \<in> set (ds_elements d)" "distinct (ds_elements d)"
    "set (ds_elements d) \<subseteq> {..<ds_numElements d}"
  shows "\<exists>ns es bs. collect_elements is d = Some (d\<lparr>ds_nodes := ns, ds_elements := es, ds_seen := bs\<rparr>) \<and>
    same_forest (ds_nodes d) ns \<and> distinct es \<and> set es = set (ds_elements d) \<union> ds_set d ` set is"
  using assms
proof (induction "is" arbitrary: d)
  case Nil
  have "d\<lparr>ds_nodes := ds_nodes d, ds_elements := ds_elements d, ds_seen := ds_seen d\<rparr> = d" by simp
  then show ?case using Nil same_forest_refl[of "ds_nodes d"]
    by (metis UnI1 Un_empty_right collect_elements.simps(1) ds_ok_def image_empty list.set(1))
next
  case (Cons i "is")
  obtain ns where ns: "FindSet i d = Some (ds_set d i, d\<lparr>ds_nodes := ns\<rparr>)" "same_forest (ds_nodes d) ns"
    "ds_ok (d\<lparr>ds_nodes := ns\<rparr>)" using FindSet_ok[of d i] Cons.prems by auto
  let ?s = "ds_set d i"
  have s: "?s < ds_numElements d" using ds_set_lt Cons.prems by simp
  define es bs where "es = (if ds_seen d ! ?s then ds_elements d else ds_elements d @ [?s])"
    and "bs = (ds_seen d)[?s := True]"
  let ?d = "d\<lparr>ds_nodes := ns, ds_elements := es, ds_seen := bs\<rparr>"
  have sid: "(ds_seen d)[?s := True] = ds_seen d" if "ds_seen d ! ?s" using that by (metis list_update_id)
  have e: "collect_elements (i # is) d = collect_elements is ?d"
  proof -
    let ?D = "d\<lparr>ds_nodes := ns\<rparr>"
    have "(if ds_seen ?D ! ?s then ?D else ?D\<lparr>ds_seen := (ds_seen ?D)[?s := True], ds_elements := ds_elements ?D @ [?s]\<rparr>) = ?d"
      using sid by (intro disjoint_sets.equality) (auto simp: es_def bs_def)
    moreover have "get_at (ds_seen ?D) ?s = Some (ds_seen ?D ! ?s)" using s Cons.prems(3) by simp
    ultimately show ?thesis unfolding collect_elements.simps(2) ns(1) bind.bind_lunit prod.case by (simp only: bind.bind_lunit)
  qed
  have ok: "ds_ok ?d" using ns(3) by (simp add: ds_ok_def)
  have set: "ds_set ?d j = ds_set d j" if "j < ds_numElements d" for j
    using ns(2) that Cons.prems(1) by (simp add: ds_set_def same_forest_def ds_ok_def)
  have "\<exists>ns' es' bs'. collect_elements is ?d = Some (?d\<lparr>ds_nodes := ns', ds_elements := es', ds_seen := bs'\<rparr>) \<and>
    same_forest ns ns' \<and> distinct es' \<and> set es' = set es \<union> ds_set ?d ` set is"
    using Cons.IH[OF ok] Cons.prems s by (auto simp: es_def bs_def nth_list_update)
  then obtain ns' es' bs' where r: "collect_elements is ?d = Some (d\<lparr>ds_nodes := ns', ds_elements := es', ds_seen := bs'\<rparr>)"
    "same_forest ns ns'" "distinct es'" "set es' = set es \<union> ds_set ?d ` set is" by auto
  have "set es = insert ?s (set (ds_elements d))" using Cons.prems(4) s by (auto simp: es_def)
  moreover have "ds_set ?d ` set is = ds_set d ` set is" using set Cons.prems(2) by (intro image_cong) auto
  ultimately have "set es' = set (ds_elements d) \<union> ds_set d ` set (i # is)" using r(4) by auto
  then show ?case using e r same_forest_trans[OF ns(2)] by metis
qed

lemma GetElement_ok:
  assumes ok: "ds_ok d" and c: "cache_ok d" and k: "int k < ds_numSets d"
  obtains ns es bs where
    "GetElement k d = Some (if ds_numSets d = 1 then 0 else es ! k, d\<lparr>ds_nodes := ns, ds_elements := es, ds_seen := bs\<rparr>)"
    "same_forest (ds_nodes d) ns"
    "ds_numSets d \<noteq> 1 \<longrightarrow> distinct es \<and> set es = ds_set d ` {..<ds_numElements d} \<and> int (length es) = ds_numSets d"
    "ds_numSets d = 1 \<longrightarrow> es = ds_elements d"
proof -
  have n: "nodes_ok (ds_nodes d)" using ok by (simp add: ds_ok_def)
  have d: "d\<lparr>ds_nodes := ds_nodes d, ds_elements := ds_elements d, ds_seen := ds_seen d\<rparr> = d" by simp
  consider "ds_numSets d = 1" | "ds_numSets d \<noteq> 1" "int (length (ds_elements d)) = ds_numSets d"
    | "ds_numSets d \<noteq> 1" "int (length (ds_elements d)) \<noteq> ds_numSets d" by blast
  then show thesis
  proof cases
    case 1
    show ?thesis by (rule that[where ns = "ds_nodes d" and es = "ds_elements d" and bs = "ds_seen d"])
      (use 1 same_forest_refl[OF n] d in \<open>simp_all add: GetElement_def\<close>)
  next
    case 2
    show ?thesis by (rule that[where ns = "ds_nodes d" and es = "ds_elements d" and bs = "ds_seen d"])
      (use 2 same_forest_refl[OF n] d c k in \<open>simp_all add: GetElement_def cache_ok_def\<close>)
  next
    case 3
    let ?d = "d\<lparr>ds_elements := [], ds_seen := replicate (ds_numElements d) False\<rparr>"
    have "ds_ok ?d" using ok by (simp add: ds_ok_def)
    from collect_elements_ok[OF this, of "[0..<ds_numElements d]"]
    obtain ns es bs where r: "collect_elements [0..<ds_numElements d] ?d = Some (d\<lparr>ds_nodes := ns, ds_elements := es, ds_seen := bs\<rparr>)"
      "same_forest (ds_nodes d) ns" "distinct es" "set es = ds_set d ` {..<ds_numElements d}"
      by (auto simp: atLeast0LessThan)
    have "int (length es) = ds_numSets d" using numSets_classes[OF ok] r(3,4) distinct_card by metis
    then show ?thesis using that[where ns = ns and es = es and bs = bs] 3 r k by (simp add: GetElement_def)
  qed
qed

subsection \<open>What a search leaves\<close>

text \<open>\<open>same_sets\<close>: the same elements in the same sets, with the same representatives.\<close>

definition same_sets :: "disjoint_sets \<Rightarrow> disjoint_sets \<Rightarrow> bool" where
  "same_sets d d' \<longleftrightarrow> ds_ok d' \<and> ds_numElements d' = ds_numElements d \<and> ds_numSets d' = ds_numSets d \<and>
     (\<forall>i < ds_numElements d. ds_set d' i = ds_set d i)"

lemma same_sets_refl: "ds_ok d \<Longrightarrow> same_sets d d" by (simp add: same_sets_def)

lemma same_sets_trans: "same_sets d d1 \<Longrightarrow> same_sets d1 d2 \<Longrightarrow> same_sets d d2"
  by (simp add: same_sets_def)

lemma same_setsD:
  assumes "same_sets d d'"
  shows "ds_ok d'" "ds_numElements d' = ds_numElements d" "ds_numSets d' = ds_numSets d"
    "\<And>i. i < ds_numElements d \<Longrightarrow> ds_set d' i = ds_set d i"
    "\<And>i j. i < ds_numElements d \<Longrightarrow> j < ds_numElements d \<Longrightarrow> same_set d' i j = same_set d i j"
  using assms by (auto simp: same_sets_def same_set_def)

lemma forest_same_sets:
  assumes "ds_ok d" "same_forest (ds_nodes d) ns"
  shows "same_sets d (d\<lparr>ds_nodes := ns, ds_elements := es, ds_seen := bs\<rparr>)"
proof -
  have "ds_ok (d\<lparr>ds_nodes := ns, ds_elements := es, ds_seen := bs\<rparr>)"
    using ds_ok_forest[OF assms] by (simp add: ds_ok_def)
  then show ?thesis using assms by (simp add: same_sets_def ds_set_def same_forest_def ds_ok_def)
qed

lemma FindSet_same:
  assumes "ds_ok d" "e < ds_numElements d"
  obtains d' where "FindSet e d = Some (ds_set d e, d')" "same_sets d d'" "ds_elements d' = ds_elements d"
proof -
  obtain ns where ns: "FindSet e d = Some (ds_set d e, d\<lparr>ds_nodes := ns\<rparr>)" "same_forest (ds_nodes d) ns"
    using FindSet_ok[OF assms] by blast
  have "d\<lparr>ds_nodes := ns, ds_elements := ds_elements d, ds_seen := ds_seen d\<rparr> = d\<lparr>ds_nodes := ns\<rparr>" by simp
  then have "same_sets d (d\<lparr>ds_nodes := ns\<rparr>)"
    using forest_same_sets[OF assms(1) ns(2), where es = "ds_elements d" and bs = "ds_seen d"] by (simp only:)
  then show ?thesis using that[OF ns(1)] by simp
qed

lemma cache_ok_same: "cache_ok d \<Longrightarrow> same_sets d d' \<Longrightarrow> ds_elements d' = ds_elements d \<Longrightarrow> cache_ok d'"
proof -
  assume a: "cache_ok d" "same_sets d d'" "ds_elements d' = ds_elements d"
  have "ds_set d' ` {..<ds_numElements d} = ds_set d ` {..<ds_numElements d}"
    using same_setsD(4)[OF a(2)] by (intro image_cong) auto
  then show "cache_ok d'" using a same_setsD(2,3)[OF a(2)] by (simp add: cache_ok_def)
qed

text \<open>One element of every set, and the cache that holds them.\<close>

definition transversal :: "disjoint_sets \<Rightarrow> nat list \<Rightarrow> bool" where
  "transversal d es \<longleftrightarrow> distinct es \<and> int (length es) = ds_numSets d \<and> (\<forall>e \<in> set es. e < ds_numElements d) \<and>
     (\<forall>i < ds_numElements d. \<exists>e \<in> set es. same_set d i e) \<and>
     (\<forall>e \<in> set es. \<forall>f \<in> set es. same_set d e f \<longrightarrow> e = f)"

definition cached :: "nat list \<Rightarrow> disjoint_sets \<Rightarrow> bool" where
  "cached es d \<longleftrightarrow> (if ds_numSets d = 1 then es = [0] else ds_elements d = es \<and> int (length es) = ds_numSets d)"

lemma GetElement_cached: "cached es d \<Longrightarrow> k < length es \<Longrightarrow> GetElement k d = Some (es ! k, d)"
  by (auto simp: cached_def GetElement_def split: if_splits)

lemma cached_same: "cached es d \<Longrightarrow> same_sets d d' \<Longrightarrow> ds_elements d' = ds_elements d \<Longrightarrow> cached es d'"
  by (auto simp: cached_def same_sets_def)

lemma transversal_reps:
  assumes "ds_ok d" "distinct es" "set es = ds_set d ` {..<ds_numElements d}" "int (length es) = ds_numSets d"
  shows "transversal d es"
proof -
  have "\<exists>e \<in> set es. same_set d i e" if "i < ds_numElements d" for i
    using that ds_set_idem[OF assms(1) that] by (intro bexI[of _ "ds_set d i"]) (simp_all add: same_set_def assms(3))
  moreover have "e = f" if e: "e \<in> set es" and f: "f \<in> set es" and ef: "same_set d e f" for e f
  proof -
    have "ds_set d x = x" if "x \<in> set es" for x using that assms(3) ds_set_idem[OF assms(1)] by fastforce
    then show ?thesis using e f ef by (simp add: same_set_def)
  qed
  moreover have "\<forall>e \<in> set es. e < ds_numElements d" using assms(3) ds_set_lt[OF assms(1)] by auto
  ultimately show ?thesis using assms(2,4) unfolding transversal_def by blast
qed

lemma transversal_single:
  assumes "ds_ok d" "ds_numSets d = 1"
  shows "transversal d [0]"
proof -
  have c: "card (ds_set d ` {..<ds_numElements d}) = 1" using numSets_classes[OF assms(1)] assms(2) by simp
  then have pos: "0 < ds_numElements d" by (cases "ds_numElements d") auto
  obtain x where "ds_set d ` {..<ds_numElements d} = {x}" using c by (auto simp: card_1_singleton_iff)
  then have "ds_set d i = x" if "i < ds_numElements d" for i using that by blast
  then have "\<forall>i < ds_numElements d. \<exists>e \<in> set [0]. same_set d i e" using pos by (simp add: same_set_def)
  then show ?thesis using assms(2) pos unfolding transversal_def by simp
qed

lemma GetElement_same:
  assumes ok: "ds_ok d" and c: "cache_ok d" and k: "int k < ds_numSets d"
  obtains es d' where "GetElement k d = Some (es ! k, d')" "same_sets d d'" "cached es d'" "transversal d es" "cache_ok d'"
proof -
  obtain ns es bs where r:
    "GetElement k d = Some (if ds_numSets d = 1 then 0 else es ! k, d\<lparr>ds_nodes := ns, ds_elements := es, ds_seen := bs\<rparr>)"
    "same_forest (ds_nodes d) ns"
    "ds_numSets d \<noteq> 1 \<longrightarrow> distinct es \<and> set es = ds_set d ` {..<ds_numElements d} \<and> int (length es) = ds_numSets d"
    "ds_numSets d = 1 \<longrightarrow> es = ds_elements d"
    using GetElement_ok[OF assms] by metis
  let ?d = "d\<lparr>ds_nodes := ns, ds_elements := es, ds_seen := bs\<rparr>"
  have s: "same_sets d ?d" using forest_same_sets[OF ok r(2)] .
  show thesis
  proof (cases "ds_numSets d = 1")
    case True
    then show ?thesis
      using that[of "[0]" ?d] r k s transversal_single[OF ok] cache_ok_same[OF c s] by (simp add: cached_def)
  next
    case False
    note f = r(3)[rule_format, OF False]
    have "ds_set ?d ` {..<ds_numElements d} = ds_set d ` {..<ds_numElements d}" using same_setsD(4)[OF s] by (intro image_cong) auto
    then have "cache_ok ?d" using f by (simp add: cache_ok_def)
    then show ?thesis using that[of es ?d] r False s f transversal_reps[OF ok] by (simp add: cached_def)
  qed
qed

end
