(* ===== verification/Union_Find_Theorems.thy ===== *)
theory Union_Find_Theorems
  imports Union_Find_Spec Forests
begin

text \<open>
  The disjoint sets against their specification: the contract of a partition that unites classes on request, as an
  interface its clients use, and the sets as the connected components of the pairs united so far.
\<close>

subsection \<open>The interface of a partition\<close>

text \<open>A structure that keeps a partition of the numbers below \<open>elems d\<close> and unites two classes on request.\<close>

locale partition =
  fixes ok :: "'d \<Rightarrow> bool" and elems :: "'d \<Rightarrow> nat" and sets :: "'d \<Rightarrow> int" and rel :: "'d \<Rightarrow> nat \<Rightarrow> nat \<Rightarrow> bool"
    and unite :: "nat \<Rightarrow> nat \<Rightarrow> 'd \<Rightarrow> 'd \<Rightarrow> bool"
  assumes sets_classes: "ok d \<Longrightarrow> sets d = int (classes (elems d) (rel d))"
    and unite_ok: "unite a b d d' \<Longrightarrow> ok d' \<and> elems d' = elems d"
    and unite_rel: "unite a b d d' \<Longrightarrow> i < elems d \<Longrightarrow> j < elems d \<Longrightarrow> rel d' i j = merge_classes (rel d) a b i j"
begin

definition represents :: "ends \<Rightarrow> nat set \<Rightarrow> 'd \<Rightarrow> bool" where
  "represents ends T d \<longleftrightarrow> ok d \<and> (\<forall>i < elems d. \<forall>j < elems d. rel d i j = conn ends T i j)"

lemma representsD: "represents ends T d \<Longrightarrow> i < elems d \<Longrightarrow> j < elems d \<Longrightarrow> rel d i j = conn ends T i j"
  by (simp add: represents_def)

lemma represents_sets: "represents ends T d \<Longrightarrow> sets d = int (comps ends (elems d) T)"
  using sets_classes[of d] classes_cong[of "elems d" "rel d" "conn ends T"] by (simp add: represents_def comps_def)

lemma represents_unite:
  assumes "represents ends T d" "unite (fst (ends e)) (snd (ends e)) d d'" "fst (ends e) < elems d" "snd (ends e) < elems d"
  shows "represents ends (insert e T) d'"
  using assms unite_ok[OF assms(2)] unite_rel[OF assms(2)] conn_insert[of ends e "fst (ends e)" "snd (ends e)" T]
  by (simp add: represents_def merge_classes_def)

lemma represents_forest:
  "represents ends T d \<Longrightarrow> forest ends T \<Longrightarrow> edges_within ends (elems d) T \<Longrightarrow> sets d = int (elems d) - int (card T)"
  using represents_sets forest_comps by fastforce

end

interpretation dsets: partition ds_ok ds_numElements ds_numSets same_set "\<lambda>a b d d'. merged d a b d'"
proof
  show "ds_numSets d = int (classes (ds_numElements d) (same_set d))" if "ds_ok d" for d
    using numSets_classes[OF that] classes_kernel[of "ds_numElements d" "ds_set d"]
    by (simp add: same_set_def[abs_def])
qed (auto simp: merged_def merge_classes_def)

subsection \<open>Searching and uniting\<close>

lemma represents_same: "dsets.represents ends T d \<Longrightarrow> same_sets d d' \<Longrightarrow> dsets.represents ends T d'"
  unfolding dsets.represents_def using same_setsD by metis

lemma merged_same:
  assumes "merged d' (ds_set d u) (ds_set d v) d''" "same_sets d d'" "ds_ok d" "u < ds_numElements d" "v < ds_numElements d"
  shows "merged d u v d''"
proof -
  have "same_set d' i (ds_set d w) = same_set d i w" "same_set d' (ds_set d w) i = same_set d w i"
    if "i < ds_numElements d" "w < ds_numElements d" for i w
    using same_setsD(4)[OF assms(2)] ds_set_lt[OF assms(3) that(2)] ds_set_idem[OF assms(3) that(2)] that
    by (simp_all add: same_set_def)
  moreover have "same_set d' (ds_set d u) (ds_set d v) = same_set d u v"
    using calculation(1) ds_set_lt[OF assms(3)] ds_set_idem[OF assms(3)] assms(4,5) by (simp add: same_set_def)
  ultimately show ?thesis using assms(1,4,5) same_setsD[OF assms(2)] unfolding merged_def by simp
qed

lemma find_ends:
  assumes "dsets.represents ends T d" "u < ds_numElements d" "v < ds_numElements d"
  obtains d1 d2 where "FindSet u d = Some (ds_set d u, d1)" "FindSet v d1 = Some (ds_set d v, d2)" "same_sets d d2"
    "ds_elements d2 = ds_elements d" "dsets.represents ends T d2" "ds_set d u = ds_set d v \<longleftrightarrow> conn ends T u v"
proof -
  have ok: "ds_ok d" using assms(1) by (simp add: dsets.represents_def)
  obtain d1 where 1: "FindSet u d = Some (ds_set d u, d1)" "same_sets d d1" "ds_elements d1 = ds_elements d"
    using FindSet_same[OF ok assms(2)] by blast
  obtain d2 where 2: "FindSet v d1 = Some (ds_set d1 v, d2)" "same_sets d1 d2" "ds_elements d2 = ds_elements d1"
    using FindSet_same[of d1 v] same_setsD[OF 1(2)] assms(3) by auto
  have s: "same_sets d d2" using same_sets_trans 1(2) 2(2) by blast
  show ?thesis
  proof (rule that[OF 1(1) _ s])
    show "FindSet v d1 = Some (ds_set d v, d2)" using 2(1) same_setsD(4)[OF 1(2) assms(3)] by simp
    show "dsets.represents ends T d2" by (rule represents_same[OF assms(1) s])
    show "ds_set d u = ds_set d v \<longleftrightarrow> conn ends T u v" using dsets.representsD[OF assms] by (simp add: same_set_def)
  qed (use 1 2 in simp)
qed

lemma unite_ends:
  assumes rep: "dsets.represents ends T d" and e: "fst (ends e) < ds_numElements d" "snd (ends e) < ds_numElements d"
    and s: "same_sets d d2" "ds_elements d2 = ds_elements d"
  obtains d3 where "UnionSets (ds_set d (fst (ends e))) (ds_set d (snd (ends e))) d2 = Some d3"
    "dsets.represents ends (insert e T) d3" "ds_elements d3 = ds_elements d" "ds_numElements d3 = ds_numElements d"
proof -
  let ?u = "fst (ends e)" and ?v = "snd (ends e)"
  have ok: "ds_ok d" using rep by (simp add: dsets.represents_def)
  note lt = ds_set_lt[OF ok e(1)] ds_set_lt[OF ok e(2)] and f = same_setsD[OF s(1)]
  have r: "ds_set d2 (ds_set d ?u) = ds_set d ?u" "ds_set d2 (ds_set d ?v) = ds_set d ?v"
    using f(4)[OF lt(1)] f(4)[OF lt(2)] ds_set_idem[OF ok e(1)] ds_set_idem[OF ok e(2)] by auto
  obtain d3 where 3: "UnionSets (ds_set d ?u) (ds_set d ?v) d2 = Some d3" "merged d2 (ds_set d ?u) (ds_set d ?v) d3"
    "ds_elements d3 = ds_elements d2"
    using UnionSets_ok[OF f(1), of "ds_set d ?u" "ds_set d ?v"] lt f(2) r by auto
  have m: "merged d ?u ?v d3" by (rule merged_same[OF 3(2) s(1) ok e])
  show ?thesis using that[OF 3(1)] dsets.represents_unite[OF rep m e] m 3(3) s(2) by (simp add: merged_def)
qed

lemma fresh_sets:
  obtains ds where "AddElements n (ds_reset d) = Some ds" "dsets.represents ends {} ds" "ds_numElements ds = n" "ds_elements ds = []"
proof -
  obtain ds where ds: "AddElements n (ds_reset d) = Some ds" "extended (ds_reset d) n ds"
    using AddElements_ok[OF ds_ok_reset] by blast
  have n: "ds_numElements (ds_reset d) = 0" by (simp add: ds_reset_def)
  have "dsets.represents ends {} ds" "ds_numElements ds = n"
    using ds(2) n by (auto simp: extended_def dsets.represents_def conn_empty)
  moreover have "ds_elements ds = []" using ds(1) by (auto simp: AddElements_def ds_reset_def bind_eq_Some_conv)
  ultimately show thesis using that ds(1) by blast
qed

subsection \<open>The sets as components\<close>

text \<open>A history of the structure, with the pairs of elements united so far.\<close>

inductive ds_history :: "disjoint_sets \<Rightarrow> (nat \<times> nat) list \<Rightarrow> bool" where
  empty: "ds_history new_sets []"
| reset: "ds_history d us \<Longrightarrow> ds_history (ds_reset d) []"
| copy: "ds_history d us \<Longrightarrow> ds_history (copy_sets d) us"
| add: "ds_history d us \<Longrightarrow> AddElements k d = Some d' \<Longrightarrow> ds_history d' us"
| find: "ds_history d us \<Longrightarrow> FindSet e d = Some (s, d') \<Longrightarrow> ds_history d' us"
| unite: "ds_history d us \<Longrightarrow> UnionElements a b d = Some d' \<Longrightarrow> ds_history d' (us @ [(a, b)])"

abbreviation united :: "(nat \<times> nat) list \<Rightarrow> nat \<Rightarrow> nat \<Rightarrow> bool" where
  "united us \<equiv> conn (\<lambda>e. us ! e) {..<length us}"

definition pairs_within :: "nat \<Rightarrow> (nat \<times> nat) list \<Rightarrow> bool" where
  "pairs_within n us \<longleftrightarrow> (\<forall>p \<in> set us. fst p < n \<and> snd p < n)"

lemma conn_ends_cong: "(\<And>e. e \<in> E \<Longrightarrow> ends e = ends' e) \<Longrightarrow> conn ends E = conn ends' E"
  by (auto simp: conn_def edge_rel_def fun_eq_iff)

lemma represents_ends_cong:
  assumes "\<And>e. e \<in> E \<Longrightarrow> ends e = ends' e"
  shows "dsets.represents ends E d = dsets.represents ends' E d"
  using conn_ends_cong[OF assms] by (simp add: dsets.represents_def)

lemma united_outside:
  assumes "pairs_within n us" "united us i j" "i \<ge> n"
  shows "j = i"
  using assms(2) unfolding conn_def
proof (induction rule: rtrancl_induct)
  case (step y z)
  then obtain p where "p \<in> set us" "p = (i, z) \<or> p = (z, i)" unfolding edge_rel_def by (auto intro: nth_mem) (metis nth_mem)+
  then show ?case using assms(1,3) by (auto simp: pairs_within_def)
qed simp

lemma ds_history_represents:
  "ds_history d us \<Longrightarrow> dsets.represents (\<lambda>e. us ! e) {..<length us} d \<and> pairs_within (ds_numElements d) us"
proof (induction rule: ds_history.induct)
  case empty
  show ?case using ds_ok_new by (simp add: dsets.represents_def new_sets_def pairs_within_def)
next
  case (reset d us)
  show ?case using ds_ok_reset[of d] by (simp add: dsets.represents_def ds_reset_def pairs_within_def)
next
  case (copy d us)
  then have "ds_ok d" by (simp add: dsets.represents_def)
  then have "same_sets d (copy_sets d)" by (simp add: same_sets_def copy_sets_def new_sets_def ds_ok_def ds_set_def)
  then show ?case using copy.IH represents_same same_setsD(2) by metis
next
  case (add d us k d')
  then have ok: "ds_ok d" by (simp add: dsets.represents_def)
  have x: "extended d k d'" using AddElements_ok[OF ok, of k] add.hyps(2) by auto
  have "same_set d' i j = united us i j" if ij: "i < ds_numElements d'" "j < ds_numElements d'" for i j
  proof (cases "i < ds_numElements d \<and> j < ds_numElements d")
    case True
    then show ?thesis using x ij add.IH by (auto simp: extended_def dsets.represents_def)
  next
    case False
    then show ?thesis
      using x ij add.IH united_outside[of "ds_numElements d" us i j] united_outside[of "ds_numElements d" us j i]
        conn_sym[of "\<lambda>e. us ! e" "{..<length us}" i j]
      by (auto simp: extended_def)
  qed
  then show ?case using x add.IH by (auto simp: dsets.represents_def extended_def pairs_within_def)
next
  case (find d us e s d')
  then have ok: "ds_ok d" by (simp add: dsets.represents_def)
  have "e < ds_numElements d" using find.hyps(2) by (auto simp: FindSet_def bind_eq_Some_conv)
  then have "same_sets d d'" using FindSet_same[OF ok, of e] find.hyps(2) by auto
  then show ?case using find.IH represents_same same_setsD(2) by metis
next
  case (unite d us a b d')
  let ?us = "us @ [(a, b)]"
  have ok: "ds_ok d" using unite.IH by (simp add: dsets.represents_def)
  have ab: "a < ds_numElements d" "b < ds_numElements d" using unite.hyps(2) by (auto simp: UnionElements_def bind_eq_Some_conv)
  have m: "merged d a b d'" using UnionElements_ok[OF ok ab] unite.hyps(2) by auto
  have "dsets.represents (\<lambda>e. ?us ! e) {..<length us} d"
    using unite.IH represents_ends_cong[of "{..<length us}" "\<lambda>e. ?us ! e" "\<lambda>e. us ! e" d] by (simp add: nth_append)
  then have "dsets.represents (\<lambda>e. ?us ! e) (insert (length us) {..<length us}) d'"
    using dsets.represents_unite[of "\<lambda>e. ?us ! e" "{..<length us}" d "length us" d'] m ab by simp
  moreover have "insert (length us) {..<length us} = {..<length ?us}" by auto
  ultimately show ?case using unite.IH m ab by (simp add: pairs_within_def merged_def)
qed

text \<open>C21: after any history of additions, unions, searches, copies and resets, every search returns, and two elements get the
  same answer exactly when a chain of united pairs leads from one to the other; the number of sets is the number of
  connected components, and no rank exceeds the logarithm of the number of elements.\<close>

theorem disjoint_sets_components:
  assumes "ds_history d us"
  shows "(\<forall>i < ds_numElements d. \<forall>j < ds_numElements d. \<exists>s di t dj. FindSet i d = Some (s, di) \<and> FindSet j di = Some (t, dj) \<and>
      (s = t \<longleftrightarrow> united us i j)) \<and>
    (\<forall>i < ds_numElements d. \<forall>j < ds_numElements d. UnionElements i j d \<noteq> None) \<and>
    ds_numSets d = int (comps (\<lambda>e. us ! e) (ds_numElements d) {..<length us}) \<and>
    (\<forall>i < ds_numElements d. 2 ^ dn_rank (ds_nodes d ! i) \<le> ds_numElements d)"
proof -
  have r: "dsets.represents (\<lambda>e. us ! e) {..<length us} d" using ds_history_represents[OF assms] by blast
  then have ok: "ds_ok d" by (simp add: dsets.represents_def)
  have "\<exists>s di t dj. FindSet i d = Some (s, di) \<and> FindSet j di = Some (t, dj) \<and> (s = t \<longleftrightarrow> united us i j)"
    if "i < ds_numElements d" "j < ds_numElements d" for i j using find_ends[OF r that] by metis
  moreover have "UnionElements i j d \<noteq> None" if "i < ds_numElements d" "j < ds_numElements d" for i j
    using UnionElements_ok[OF ok that] by auto
  ultimately show ?thesis using dsets.represents_sets[OF r] rank_bound[OF ok] by blast
qed

lemma disjoint_sets_components_witness:
  "\<exists>d. sets_of_size 4 = Some d \<and> (\<exists>d' s t dj. UnionElements 0 2 d = Some d' \<and> FindSet 2 d' = Some (s, t) \<and>
     FindSet 0 t = Some (s, dj) \<and> ds_numSets d' = int (comps (\<lambda>e. [(0, 2)] ! e) (ds_numElements d') {..<length [(0::nat, 2::nat)]}))"
proof -
  have "sets_of_size 4 \<noteq> None" by code_simp
  then obtain d where d: "sets_of_size 4 = Some d" by blast
  have "Option.bind (sets_of_size 4) (UnionElements 0 2) \<noteq> None" by code_simp
  then obtain d' where d': "UnionElements 0 2 d = Some d'" using d by auto
  have n: "map_option ds_numElements (Option.bind (sets_of_size 4) (UnionElements 0 2)) = Some 4" by code_simp
  have h: "ds_history d' ([] @ [(0, 2)])"
    using d ds_history.unite[OF ds_history.add[OF ds_history.empty] d'] by (simp add: sets_of_size_def)
  have u: "united ([] @ [(0, 2)]) 2 0" using conn_sym[OF conn_edge[of 0 "{..<1}" "\<lambda>e. [(0, 2)] ! e" 0 2]] by simp
  have n': "ds_numElements d' = 4" using n d d' by simp
  obtain s di t dj where f: "FindSet 2 d' = Some (s, di)" "FindSet 0 di = Some (t, dj)" "s = t \<longleftrightarrow> united ([] @ [(0, 2)]) 2 0"
    using disjoint_sets_components[OF h, THEN conjunct1, rule_format, of 2 0] n' by auto
  have "ds_numSets d' = int (comps (\<lambda>e. [(0, 2)] ! e) (ds_numElements d') {..<length [(0::nat, 2::nat)]})"
    using disjoint_sets_components[OF h] by simp
  then show ?thesis using d d' f u by auto
qed

text \<open>\<open>GetElement\<close> may answer from a list that is out of date: it trusts the list when its length is the number of sets, which
  a union followed by the addition of an element leaves unchanged. In this run the first two sets it reports are
  one and the same, and the set of the new element is reported by no number.\<close>

theorem stale_elements:
  "\<exists>d0 d1 d2 d3. sets_of_size 3 = Some d0 \<and> GetElement 0 d0 = Some (0, d1) \<and> UnionElements 0 1 d1 = Some d2 \<and>
     AddElements 1 d2 = Some d3 \<and> ds_numSets d3 = 3 \<and> map (\<lambda>c. map_option fst (GetElement c d3)) [0, 1, 2] = [Some 0, Some 1, Some 2] \<and>
     map (\<lambda>e. map_option fst (FindSet e d3)) [0, 1, 2, 3] = [Some 0, Some 0, Some 2, Some 3]"
proof -
  let ?d0 = "the (sets_of_size 3)" let ?d1 = "snd (the (GetElement 0 ?d0))" let ?d2 = "the (UnionElements 0 1 ?d1)"
  let ?d3 = "the (AddElements 1 ?d2)"
  have r: "sets_of_size 3 = Some ?d0 \<and> GetElement 0 ?d0 = Some (0, ?d1) \<and> UnionElements 0 1 ?d1 = Some ?d2 \<and>
     AddElements 1 ?d2 = Some ?d3 \<and> ds_numSets ?d3 = 3 \<and> map (\<lambda>c. map_option fst (GetElement c ?d3)) [0, 1, 2] = [Some 0, Some 1, Some 2] \<and>
     map (\<lambda>e. map_option fst (FindSet e ?d3)) [0, 1, 2, 3] = [Some 0, Some 0, Some 2, Some 3]" by code_simp
  show ?thesis by (rule exI[of _ ?d0], rule exI[of _ ?d1], rule exI[of _ ?d2], rule exI[of _ ?d3], rule r)
qed

end
