(* ===== verification/Kruskal_Spec.thy ===== *)
theory Kruskal_Spec
  imports Kruskal Graph_Edges Union_Find_Theorems
begin

text \<open>
  What one update of the spanning forest computes: the invariant of the loop over the edges, with the disjoint sets
  representing the edges taken so far, and the result.
\<close>

subsection \<open>The loop over the edges\<close>

text \<open>\<open>tree_inv g b P k\<close>: the edges tried so far are \<open>P\<close>; when they are tried by increasing weight (\<open>b\<close>), the tree
  connects what the edges within any bound connect.\<close>

definition tree_inv :: "'w::linordered_idom dgraph \<Rightarrow> bool \<Rightarrow> nat set \<Rightarrow> 'w kruskal \<Rightarrow> bool" where
  "tree_inv g b P k \<longleftrightarrow>
     ds_numElements (k_sets k) = g_num_nodes g \<and> dsets.represents (g_ends g) (set (k_mst k)) (k_sets k) \<and>
     distinct (k_mst k) \<and> spanning_forest (g_ends g) (P \<inter> enabled_edges g) (set (k_mst k)) \<and>
     length (k_in_tree k) = g_next_id g \<and> (\<forall>e < g_next_id g. k_in_tree k ! e \<longleftrightarrow> e \<in> set (k_mst k)) \<and>
     k_min_weight k = sum (g_wt g) (set (k_mst k)) \<and>
     (b \<longrightarrow> (\<forall>w. conn (g_ends g) (up_to (g_wt g) w (set (k_mst k))) =
        conn (g_ends g) (up_to (g_wt g) w (P \<inter> enabled_edges g))))"

lemma tree_invD:
  assumes "tree_inv g b P k"
  shows "ds_numElements (k_sets k) = g_num_nodes g" "dsets.represents (g_ends g) (set (k_mst k)) (k_sets k)"
    "distinct (k_mst k)" "spanning_forest (g_ends g) (P \<inter> enabled_edges g) (set (k_mst k))"
    "length (k_in_tree k) = g_next_id g" "\<And>e. e < g_next_id g \<Longrightarrow> k_in_tree k ! e \<longleftrightarrow> e \<in> set (k_mst k)"
    "k_min_weight k = sum (g_wt g) (set (k_mst k))"
    "\<And>w. b \<Longrightarrow> conn (g_ends g) (up_to (g_wt g) w (set (k_mst k))) = conn (g_ends g) (up_to (g_wt g) w (P \<inter> enabled_edges g))"
    "ds_ok (k_sets k)"
  using assms unfolding tree_inv_def dsets.represents_def by blast+

lemma conn_insert_cong: "conn ends S = conn ends T \<Longrightarrow> conn ends (insert e S) = conn ends (insert e T)"
  using conn_insert[of ends e "fst (ends e)" "snd (ends e)"] by simp

lemma conn_insert_same:
  assumes "conn ends T (fst (ends e)) (snd (ends e))"
  shows "conn ends (insert e T) = conn ends T"
proof (intro ext)
  fix x y
  let ?u = "fst (ends e)" and ?v = "snd (ends e)"
  have "conn ends T x y" if "conn ends T x ?u \<and> conn ends T ?v y \<or> conn ends T x ?v \<and> conn ends T ?u y"
    using that conn_trans[OF conn_trans[OF _ assms]] conn_trans[OF conn_trans[OF _ conn_sym[OF assms]]] by blast
  then show "conn ends (insert e T) x y = conn ends T x y"
    using conn_insert[of ends e ?u ?v T] by (auto simp: merge_classes_def)
qed

lemma up_to_insert: "up_to wt w (insert e S) = (if wt e \<le> w then insert e (up_to wt w S) else up_to wt w S)"
  by (auto simp: up_to_def)

lemma up_to_all: "\<forall>p \<in> S. wt p \<le> w \<Longrightarrow> up_to wt w S = S"
  by (auto simp: up_to_def)

lemma tried_insert: "e \<in> E \<Longrightarrow> insert e P \<inter> E = insert e (P \<inter> E)" "e \<notin> E \<Longrightarrow> insert e P \<inter> E = P \<inter> E"
  by auto

text \<open>An edge that joins two trees is taken, an edge within a tree is passed over.\<close>

lemma take_edge:
  assumes inv: "tree_inv g b P k" and e: "e \<in> enabled_edges g" "e \<notin> P" "e < g_next_id g"
    and new: "\<not> conn (g_ends g) (set (k_mst k)) (fst (g_ends g e)) (snd (g_ends g e))"
    and ds: "dsets.represents (g_ends g) (insert e (set (k_mst k))) ds" "ds_numElements ds = g_num_nodes g"
  shows "tree_inv g b (insert e P) (k\<lparr>k_in_tree := (k_in_tree k)[e := True], k_mst := k_mst k @ [e],
    k_min_weight := k_min_weight k + g_wt g e, k_sets := ds\<rparr>)"
proof -
  let ?T = "set (k_mst k)" and ?E = "enabled_edges g" and ?c = "conn (g_ends g)"
  note i = tree_invD[OF inv]
  have eT: "e \<notin> ?T" using i(4) e(2) by (auto simp: spanning_forest_def)
  have "spanning_forest (g_ends g) (insert e P \<inter> ?E) (insert e ?T)"
    using i(4) e(1) forest_insert[OF _ new] conn_insert_cong[of "g_ends g" ?T "P \<inter> ?E" e]
    by (auto simp: spanning_forest_def tried_insert)
  moreover have "?c (up_to (g_wt g) w (insert e ?T)) = ?c (up_to (g_wt g) w (insert e P \<inter> ?E))" if b for w
    using i(8)[OF that, of w] conn_insert_cong[OF i(8)[OF that, of w], of e] by (simp add: tried_insert e(1) up_to_insert)
  moreover have "(k_in_tree k)[e := True] ! x \<longleftrightarrow> x \<in> insert e ?T" if "x < g_next_id g" for x
    using i(5) i(6)[OF that] that e(3) by (auto simp: nth_list_update)
  ultimately show ?thesis
    using i ds e(3) eT unfolding tree_inv_def by (simp add: add.commute)
qed

lemma pass_edge:
  assumes inv: "tree_inv g b P k" and order: "b \<longrightarrow> (\<forall>p \<in> P. g_wt g p \<le> g_wt g e)"
    and old: "conn (g_ends g) (set (k_mst k)) (fst (g_ends g e)) (snd (g_ends g e))"
    and ds: "dsets.represents (g_ends g) (set (k_mst k)) ds" "ds_numElements ds = g_num_nodes g"
  shows "tree_inv g b (insert e P) (k\<lparr>k_sets := ds\<rparr>)"
proof (cases "e \<in> enabled_edges g")
  case True
  let ?T = "set (k_mst k)" and ?E = "enabled_edges g" and ?c = "conn (g_ends g)"
  note i = tree_invD[OF inv]
  have sub: "?T \<subseteq> P \<inter> ?E" "?c ?T = ?c (P \<inter> ?E)" using i(4) by (auto simp: spanning_forest_def)
  have c: "?c (insert e (P \<inter> ?E)) = ?c (P \<inter> ?E)" using conn_insert_same[of "g_ends g" "P \<inter> ?E" e] old sub(2) by simp
  have "?c (up_to (g_wt g) w ?T) = ?c (up_to (g_wt g) w (insert e P \<inter> ?E))" if b for w
  proof (cases "g_wt g e \<le> w")
    case le: True
    then have "\<forall>p \<in> P. g_wt g p \<le> w" using order that by (meson order_trans)
    then have "up_to (g_wt g) w ?T = ?T" "up_to (g_wt g) w (P \<inter> ?E) = P \<inter> ?E"
      using sub(1) by (auto intro!: up_to_all)
    then show ?thesis using True le sub(2) c by (simp add: tried_insert up_to_insert)
  qed (use i(8) that True in \<open>simp add: tried_insert up_to_insert\<close>)
  then show ?thesis
    using i ds c True unfolding tree_inv_def by (auto simp: spanning_forest_def tried_insert)
next
  case False
  then show ?thesis using inv ds unfolding tree_inv_def by (simp add: tried_insert)
qed

text \<open>The fields the loop does not touch.\<close>

definition tree_frame :: "'w kruskal \<Rightarrow> 'w kruskal \<Rightarrow> bool" where
  "tree_frame k k' \<longleftrightarrow> ds_elements (k_sets k') = ds_elements (k_sets k) \<and>
     k'\<lparr>k_in_tree := k_in_tree k, k_mst := k_mst k, k_min_weight := k_min_weight k, k_sets := k_sets k\<rparr> = k"

lemma tree_frame_trans:
  assumes "tree_frame k k1" "tree_frame k1 k2"
  shows "tree_frame k k2"
proof -
  let ?f = "\<lambda>x. x\<lparr>k_in_tree := k_in_tree k, k_mst := k_mst k, k_min_weight := k_min_weight k, k_sets := k_sets k\<rparr>"
  have "?f k2 = ?f (k2\<lparr>k_in_tree := k_in_tree k1, k_mst := k_mst k1, k_min_weight := k_min_weight k1, k_sets := k_sets k1\<rparr>)"
    by simp
  also have "\<dots> = k" using assms by (simp add: tree_frame_def)
  finally show ?thesis using assms by (simp add: tree_frame_def)
qed

lemma tree_frameD:
  assumes "tree_frame k k'"
  shows "k_last_modification k' = k_last_modification k" "k_last_addition k' = k_last_addition k"
    "k_last_deletion k' = k_last_deletion k" "k_history_qhead k' = k_history_qhead k"
    "k_last_history_clear k' = k_last_history_clear k" "k_hasParents k' = k_hasParents k" "k_INF k' = k_INF k"
    "k_polarity k' = k_polarity k" "k_parents k' = k_parents k" "k_parent_edges k' = k_parent_edges k"
    "k_edge_list k' = k_edge_list k" "k_tree_reports k' = k_tree_reports k" "k_edge_reports k' = k_edge_reports k"
    "ds_elements (k_sets k') = ds_elements (k_sets k)"
proof -
  have e: "k'\<lparr>k_in_tree := k_in_tree k, k_mst := k_mst k, k_min_weight := k_min_weight k, k_sets := k_sets k\<rparr> = k"
    using assms by (simp add: tree_frame_def)
  show "ds_elements (k_sets k') = ds_elements (k_sets k)" using assms by (simp add: tree_frame_def)
  show "k_last_modification k' = k_last_modification k" "k_last_addition k' = k_last_addition k"
    "k_last_deletion k' = k_last_deletion k" "k_history_qhead k' = k_history_qhead k"
    "k_last_history_clear k' = k_last_history_clear k" "k_hasParents k' = k_hasParents k" "k_INF k' = k_INF k"
    "k_polarity k' = k_polarity k" "k_parents k' = k_parents k" "k_parent_edges k' = k_parent_edges k"
    "k_edge_list k' = k_edge_list k" "k_tree_reports k' = k_tree_reports k" "k_edge_reports k' = k_edge_reports k"
    by (subst e[symmetric], simp)+
qed

lemma tree_loop_ok:
  assumes "graph_ok g" "status_ok g" "tree_inv g b P k" "distinct es" "set es \<inter> P = {}" "set es \<subseteq> {..<g_next_id g}"
    "b \<longrightarrow> sorted_wrt (\<lambda>x y. g_wt g x \<le> g_wt g y) es \<and> (\<forall>p \<in> P. \<forall>e \<in> set es. g_wt g p \<le> g_wt g e)"
  shows "\<exists>k'. tree_loop g es k = Some k' \<and> tree_inv g b (P \<union> set es) k' \<and> tree_frame k k'"
  using assms(3-)
proof (induction es arbitrary: P k)
  case Nil
  then show ?case by (simp add: tree_frame_def)
next
  case (Cons e es)
  have en: "e < g_next_id g" using Cons.prems(4) by simp
  have st: "length (g_status g) = g_next_id g" using assms(1) by (simp add: graph_ok_def sizes_ok_def)
  have ord: "b \<longrightarrow> (\<forall>p \<in> P. g_wt g p \<le> g_wt g e)" using Cons.prems(5) by simp
  have next': "\<exists>k'. tree_loop g es k1 = Some k' \<and> tree_inv g b (P \<union> set (e # es)) k' \<and> tree_frame k k'"
    if "tree_inv g b (insert e P) k1" "tree_frame k k1" for k1
  proof -
    have "\<exists>k'. tree_loop g es k1 = Some k' \<and> tree_inv g b (insert e P \<union> set es) k' \<and> tree_frame k1 k'"
      using Cons.prems by (intro Cons.IH[OF that(1)]) auto
    then show ?thesis using tree_frame_trans[OF that(2)] by auto
  qed
  note i = tree_invD[OF Cons.prems(1)]
  show ?case
  proof (cases "e \<in> enabled_edges g")
    case False
    then have d: "edgeEnabled g e = Some False" using en st by (simp add: edgeEnabled_def enabled_edges_def)
    have "tree_inv g b (insert e P) k" using Cons.prems(1) False by (simp add: tree_inv_def tried_insert)
    from next'[OF this] show ?thesis using d by (simp add: tree_frame_def)
  next
    case True
    note f = enabled_facts[OF assms(1,2) True]
    let ?d = "k_sets k" and ?u = "fst (g_ends g e)" and ?v = "snd (g_ends g e)"
    have uv: "?u < ds_numElements ?d" "?v < ds_numElements ?d" using f i(1) by auto
    obtain d1 d2 where d: "FindSet ?u ?d = Some (ds_set ?d ?u, d1)" "FindSet ?v d1 = Some (ds_set ?d ?v, d2)"
      "same_sets ?d d2" "ds_elements d2 = ds_elements ?d" "dsets.represents (g_ends g) (set (k_mst k)) d2"
      "ds_set ?d ?u = ds_set ?d ?v \<longleftrightarrow> conn (g_ends g) (set (k_mst k)) ?u ?v"
      using find_ends[OF i(2) uv] by blast
    have n2: "ds_numElements d2 = g_num_nodes g" using same_setsD(2)[OF d(3)] i(1) by simp
    show ?thesis
    proof (cases "ds_set ?d ?u = ds_set ?d ?v")
      case same: True
      have "tree_inv g b (insert e P) (k\<lparr>k_sets := d2\<rparr>)"
        using pass_edge[OF Cons.prems(1) ord _ d(5) n2] d(6) same by simp
      moreover have "tree_frame k (k\<lparr>k_sets := d2\<rparr>)" by (simp add: tree_frame_def d(4))
      ultimately show ?thesis using next' f(1-4) d(1,2) same by simp
    next
      case diff: False
      obtain d3 where 3: "UnionSets (ds_set ?d ?u) (ds_set ?d ?v) d2 = Some d3"
        "dsets.represents (g_ends g) (insert e (set (k_mst k))) d3" "ds_elements d3 = ds_elements ?d"
        "ds_numElements d3 = ds_numElements ?d"
        using unite_ends[OF i(2) uv d(3,4)] by blast
      have n3: "ds_numElements d3 = g_num_nodes g" using 3(4) i(1) by simp
      have ok3: "ds_ok d3" using 3(2) by (simp add: dsets.represents_def)
      have "same_set d3 ?u ?v"
        using dsets.representsD[OF 3(2), of ?u ?v] uv 3(4) conn_edge[of e "insert e (set (k_mst k))" "g_ends g" ?u ?v] by simp
      then have c: "ds_set d3 ?u = ds_set d3 ?v" by (simp add: same_set_def)
      obtain e1 where e1: "FindSet ?u d3 = Some (ds_set d3 ?u, e1)" using FindSet_same[OF ok3, of ?u] uv(1) 3(4) by auto
      obtain e2 where e2: "FindSet ?v d3 = Some (ds_set d3 ?v, e2)" using FindSet_same[OF ok3, of ?v] uv(2) 3(4) by auto
      let ?k = "k\<lparr>k_in_tree := (k_in_tree k)[e := True], k_mst := k_mst k @ [e],
        k_min_weight := k_min_weight k + g_wt g e, k_sets := d3\<rparr>"
      have "tree_inv g b (insert e P) ?k"
        using take_edge[OF Cons.prems(1) True _ en _ 3(2) n3] Cons.prems(3) diff d(6) by simp
      moreover have "tree_frame k ?k" by (simp add: tree_frame_def 3(3))
      ultimately show ?thesis
        using next' f(1-4,7) d(1,2) diff 3(1) e1 e2 c en i(5) by simp
    qed
  qed
qed

subsection \<open>One update\<close>

text \<open>What the code relies on in \<open>std::sort\<close>: a permutation, in increasing order of the weights.\<close>

definition sorting :: "('w::linorder list \<Rightarrow> nat list \<Rightarrow> nat list) \<Rightarrow> bool" where
  "sorting srt \<longleftrightarrow> (\<forall>ws es. set es \<subseteq> {..<length ws} \<longrightarrow>
     mset (srt ws es) = mset es \<and> sorted_wrt (\<lambda>x y. ws ! x \<le> ws ! y) (srt ws es))"

text \<open>The list of the edges holds the ids below its length.\<close>

definition edge_list_ok :: "'w dgraph \<Rightarrow> 'w kruskal \<Rightarrow> bool" where
  "edge_list_ok g k \<longleftrightarrow> mset (k_edge_list k) = mset [0..<length (k_edge_list k)] \<and> length (k_edge_list k) \<le> g_next_id g"

definition by_weight :: "'w::linorder dgraph \<Rightarrow> 'w kruskal \<Rightarrow> bool" where
  "by_weight g k \<longleftrightarrow> sorted_wrt (\<lambda>x y. g_wt g x \<le> g_wt g y) (k_edge_list k)"

definition edge_report :: "int \<Rightarrow> bool \<Rightarrow> bool \<Rightarrow> nat \<Rightarrow> (nat \<times> bool) list" where
  "edge_report p b t i = (if p < 1 \<and> (\<not> b \<or> t) then [(i, True)] else if p > - 1 \<and> b \<and> \<not> t then [(i, False)] else [])"

lemma report_edges_eq:
  assumes "\<forall>i \<in> set is. i < length (g_status g) \<and> i < length (k_in_tree k)"
  shows "report_edges g is k = Some (k\<lparr>k_edge_reports := k_edge_reports k @
    concat (map (\<lambda>i. edge_report (k_polarity k) (g_status g ! i) (k_in_tree k ! i) i) is)\<rparr>)"
  using assms
proof (induction "is" arbitrary: k)
  case (Cons i "is")
  let ?r = "edge_report (k_polarity k) (g_status g ! i) (k_in_tree k ! i) i"
  have "report_edges g (i # is) k = report_edges g is (k\<lparr>k_edge_reports := k_edge_reports k @ ?r\<rparr>)"
    using Cons.prems by (auto simp: edgeEnabled_def edge_report_def)
  then show ?case using Cons by simp
qed simp

text \<open>The result for a graph; \<open>UNIV\<close> stands for all edges having been tried.\<close>

definition kr_result :: "'w::linordered_idom dgraph \<Rightarrow> 'w kruskal \<Rightarrow> bool" where
  "kr_result g k \<longleftrightarrow> tree_inv g (by_weight g k) UNIV k \<and> cache_ok (k_sets k) \<and> edge_list_ok g k \<and>
     length (k_edge_list k) = g_next_id g \<and> length (k_parents k) = g_num_nodes g \<and> length (k_parent_edges k) = g_num_nodes g"

lemma edge_list_facts:
  assumes "edge_list_ok g k"
  shows "distinct (k_edge_list k)" "set (k_edge_list k) = {..<length (k_edge_list k)}" "set (k_edge_list k) \<subseteq> {..<g_next_id g}"
proof -
  have m: "mset (k_edge_list k) = mset [0..<length (k_edge_list k)]" and l: "length (k_edge_list k) \<le> g_next_id g"
    using assms by (simp_all add: edge_list_ok_def)
  show "distinct (k_edge_list k)" using mset_eq_imp_distinct_iff[OF m] by simp
  show s: "set (k_edge_list k) = {..<length (k_edge_list k)}" using mset_eq_setD[OF m] by (simp only: set_upt atLeast0LessThan)
  show "set (k_edge_list k) \<subseteq> {..<g_next_id g}" unfolding s using l by auto
qed

lemma tree_inv_tried: "tree_inv g b P k \<Longrightarrow> P \<inter> enabled_edges g = Q \<inter> enabled_edges g \<Longrightarrow> tree_inv g b Q k"
  by (simp add: tree_inv_def)

lemma sort_edges_ok:
  assumes ok: "graph_ok g" and el: "edge_list_ok g k" and srt: "sorting srt"
  obtains es where "sort_edges srt g k = Some (k\<lparr>k_edge_list := es\<rparr>)" "edge_list_ok g (k\<lparr>k_edge_list := es\<rparr>)"
    "length es = g_next_id g" "length (k_edge_list k) < g_next_id g \<Longrightarrow> by_weight g (k\<lparr>k_edge_list := es\<rparr>)"
    "length (k_edge_list k) = g_next_id g \<Longrightarrow> es = k_edge_list k"
proof -
  have m: "nEdgeIDs g = Some (g_next_id g)" and w: "g_next_id g \<le> length (g_weights g)"
    using ok by (simp_all add: graph_ok_def sizes_ok_def nEdgeIDs_def)
  let ?es = "srt (g_weights g) [0..<g_next_id g]"
  have "set [0..<g_next_id g] \<subseteq> {..<length (g_weights g)}" using w by auto
  then have p: "mset ?es = mset [0..<g_next_id g]" "sorted_wrt (\<lambda>x y. g_weights g ! x \<le> g_weights g ! y) ?es"
    using srt unfolding sorting_def by blast+
  have len: "length ?es = g_next_id g" using mset_eq_length[OF p(1)] by simp
  show thesis
  proof (cases "length (k_edge_list k) < g_next_id g")
    case True
    then show ?thesis using that[of ?es] m p len by (simp add: sort_edges_def edge_list_ok_def by_weight_def g_wt_def)
  next
    case False
    then have "length (k_edge_list k) = g_next_id g" using el by (simp add: edge_list_ok_def)
    then show ?thesis using that[of "k_edge_list k"] m el by (simp add: sort_edges_def)
  qed
qed

lemma start_tree:
  assumes "dsets.represents (g_ends g) {} (k_sets k)" "ds_numElements (k_sets k) = g_num_nodes g"
    "k_in_tree k = replicate (g_next_id g) False" "k_mst k = []" "k_min_weight k = 0"
  shows "tree_inv g b {} k"
  using assms by (simp add: tree_inv_def spanning_forest_def forest_def up_to_def)

text \<open>The final bookkeeping of an update.\<close>

definition updated :: "'w::linordered_idom dgraph \<Rightarrow> 'w kruskal \<Rightarrow> 'w kruskal \<Rightarrow> bool" where
  "updated g k k' \<longleftrightarrow> \<not> k_hasParents k' \<and> k_last_modification k' = g_modifications g \<and> k_polarity k' = k_polarity k \<and>
     k_tree_reports k' = k_tree_reports k @
       [(if ds_numSets (k_sets k') > 1 then k_INF k' else k_min_weight k', ds_numSets (k_sets k') \<le> 1)] \<and>
     k_edge_reports k' = k_edge_reports k @
       concat (map (\<lambda>e. edge_report (k_polarity k) (g_status g ! e) (k_in_tree k' ! e) e) [0..<g_next_id g]) \<and>
     (k_last_modification k \<le> 0 \<or> g_is_changed g \<longrightarrow> k_INF k' = 1 + sum_list (g_weights g)) \<and>
     (length (k_edge_list k) < g_next_id g \<longrightarrow> by_weight g k') \<and>
     (length (k_edge_list k) = g_next_id g \<longrightarrow> k_edge_list k' = k_edge_list k)"

lemma kr_update_ok:
  assumes ok: "graph_ok g" "status_ok g" and el: "edge_list_ok g k" and srt: "sorting srt"
    and go: "\<not> (k_last_modification k > 0 \<and> g_modifications g = k_last_modification k)"
  obtains k' where "kr_update srt g k = Some k'" "kr_result g k'" "updated g k k'"
proof -
  have m: "nEdgeIDs g = Some (g_next_id g)" "length (g_status g) = g_next_id g"
    using ok(1) by (simp_all add: graph_ok_def sizes_ok_def nEdgeIDs_def)
  define k1 where "k1 = (let k = k\<lparr>k_full_updates := k_full_updates k + 1\<rparr>;
     k = (if k_last_deletion k = g_deletions g then k\<lparr>k_skipable_deletions := k_skipable_deletions k + 1\<rparr> else k);
     k = k\<lparr>k_hasParents := False, k_sets := ds_reset (k_sets k)\<rparr>
     in (if k_last_modification k \<le> 0 \<or> g_is_changed g \<or> k_last_history_clear k \<noteq> g_historyclears g
       then k\<lparr>k_INF := 1 + sum_list (g_weights g)\<rparr> else k))"
  have f1: "\<not> k_hasParents k1" "k_sets k1 = ds_reset (k_sets k)" "k_edge_list k1 = k_edge_list k" "k_polarity k1 = k_polarity k"
    "k_last_modification k \<le> 0 \<or> g_is_changed g \<longrightarrow> k_INF k1 = 1 + sum_list (g_weights g)"
    "k_tree_reports k1 = k_tree_reports k" "k_edge_reports k1 = k_edge_reports k"
    by (simp_all add: k1_def Let_def)
  obtain ds where ds: "AddElements (g_num_nodes g) (k_sets k1) = Some ds" "dsets.represents (g_ends g) {} ds"
    "ds_numElements ds = g_num_nodes g" "ds_elements ds = []" unfolding f1(2) using fresh_sets by blast
  define k2 where "k2 = k1\<lparr>k_in_tree := resize_to (g_next_id g) False (k_in_tree k1), k_sets := ds,
       k_parents := resize_to (g_num_nodes g) 0 (k_parents k1), k_parent_edges := resize_to (g_num_nodes g) 0 (k_parent_edges k1),
       k_min_weight := 0, k_mst := []\<rparr>"
  have n: "kr_setNodes g (g_num_nodes g) k1 = Some (k1\<lparr>k_in_tree := resize_to (g_next_id g) False (k_in_tree k1), k_sets := ds,
       k_parents := resize_to (g_num_nodes g) 0 (k_parents k1), k_parent_edges := resize_to (g_num_nodes g) 0 (k_parent_edges k1)\<rparr>)"
    using m ds(1) by (simp add: kr_setNodes_def)
  have "edge_list_ok g k2" using el by (simp add: edge_list_ok_def k2_def f1)
  then obtain es where es: "sort_edges srt g k2 = Some (k2\<lparr>k_edge_list := es\<rparr>)" "edge_list_ok g (k2\<lparr>k_edge_list := es\<rparr>)"
    "length es = g_next_id g" "length (k_edge_list k2) < g_next_id g \<Longrightarrow> by_weight g (k2\<lparr>k_edge_list := es\<rparr>)"
    "length (k_edge_list k2) = g_next_id g \<Longrightarrow> es = k_edge_list k2"
    using sort_edges_ok[OF ok(1) _ srt] by blast
  define k3 where "k3 = k2\<lparr>k_edge_list := es, k_in_tree := replicate (length (k_in_tree k2)) False\<rparr>"
  let ?b = "by_weight g k3"
  have inv3: "tree_inv g ?b {} k3"
    by (rule start_tree) (simp_all add: k3_def k2_def ds(2,3))
  have el3: "edge_list_ok g k3" using es(2) by (simp add: edge_list_ok_def k3_def)
  note ef = edge_list_facts[OF el3]
  have "\<exists>k'. tree_loop g (k_edge_list k3) k3 = Some k' \<and> tree_inv g ?b ({} \<union> set (k_edge_list k3)) k' \<and> tree_frame k3 k'"
    using ef by (intro tree_loop_ok[OF ok inv3]) (auto simp: by_weight_def)
  then obtain k4 where k4: "tree_loop g (k_edge_list k3) k3 = Some k4" "tree_inv g ?b (set (k_edge_list k3)) k4" "tree_frame k3 k4"
    by auto
  note fr = tree_frameD[OF k4(3)]
  have len: "length (k_in_tree k4) = g_next_id g" using k4(2) by (simp add: tree_inv_def)
  define k5 where "k5 = k4\<lparr>k_tree_reports := k_tree_reports k4 @
    [(if ds_numSets (k_sets k4) > 1 then k_INF k4 else k_min_weight k4, ds_numSets (k_sets k4) \<le> 1)]\<rparr>"
  have f5: "k_in_tree k5 = k_in_tree k4" "k_polarity k5 = k_polarity k" "k_edge_reports k5 = k_edge_reports k"
    by (simp_all add: k5_def fr k3_def k2_def f1)
  have r: "report_edges g [0..<length (k_in_tree k5)] k5 = Some (k5\<lparr>k_edge_reports := k_edge_reports k @
      concat (map (\<lambda>e. edge_report (k_polarity k) (g_status g ! e) (k_in_tree k4 ! e) e) [0..<g_next_id g])\<rparr>)"
    using report_edges_eq[of "[0..<length (k_in_tree k5)]" g k5] len m(2) by (simp add: f5)
  define k6 where "k6 = k5\<lparr>k_edge_reports := k_edge_reports k @
      concat (map (\<lambda>e. edge_report (k_polarity k) (g_status g ! e) (k_in_tree k4 ! e) e) [0..<g_next_id g]),
      k_num_updates := k_num_updates k5 + 1, k_last_modification := g_modifications g,
      k_last_deletion := g_deletions g, k_last_addition := g_additions g,
      k_history_qhead := historySize g, k_last_history_clear := g_historyclears g\<rparr>"
  have "kr_update srt g k = Some k6"
  proof -
    have "kr_update srt g k = do { k \<leftarrow> kr_setNodes g (g_num_nodes g) k1;
        k \<leftarrow> sort_edges srt g (k\<lparr>k_min_weight := 0, k_mst := []\<rparr>);
        k \<leftarrow> tree_loop g (k_edge_list k) (k\<lparr>k_in_tree := replicate (length (k_in_tree k)) False\<rparr>);
        let k = k\<lparr>k_tree_reports := k_tree_reports k @
          [(if ds_numSets (k_sets k) > 1 then k_INF k else k_min_weight k, ds_numSets (k_sets k) \<le> 1)]\<rparr>;
        k \<leftarrow> report_edges g [0..<length (k_in_tree k)] k;
        Some (k\<lparr>k_num_updates := k_num_updates k + 1, k_last_modification := g_modifications g,
          k_last_deletion := g_deletions g, k_last_addition := g_additions g,
          k_history_qhead := historySize g, k_last_history_clear := g_historyclears g\<rparr>) }"
      using go unfolding kr_update_def k1_def Let_def by (simp only: if_False)
    also have "\<dots> = Some k6"
      unfolding n bind.bind_lunit
      using es(1) k4(1) r unfolding k3_def[symmetric] k5_def[symmetric] by (simp add: k6_def k3_def k2_def k5_def Let_def)
    finally show ?thesis .
  qed
  moreover have e6: "k_edge_list k6 = es" "k_sets k6 = k_sets k4" "k_in_tree k6 = k_in_tree k4" "k_mst k6 = k_mst k4"
    "k_min_weight k6 = k_min_weight k4" "k_parents k6 = k_parents k4" "k_parent_edges k6 = k_parent_edges k4"
    by (simp_all add: k6_def k5_def fr k3_def)
  moreover have "by_weight g k6 = ?b" by (simp add: by_weight_def e6 k3_def)
  moreover have "tree_inv g ?b UNIV k6"
  proof -
    have "set (k_edge_list k3) \<inter> enabled_edges g = UNIV \<inter> enabled_edges g"
      using ef(2) es(3) m(2) by (auto simp: enabled_edges_def k3_def)
    then have "tree_inv g ?b UNIV k4" using tree_inv_tried[OF k4(2)] by blast
    then show ?thesis by (simp add: tree_inv_def e6)
  qed
  moreover have "cache_ok (k_sets k6)"
  proof -
    have "ds_numSets (k_sets k4) = int (card (ds_set (k_sets k4) ` {..<ds_numElements (k_sets k4)}))"
      using tree_invD(9)[OF k4(2)] by (rule numSets_classes)
    moreover have "ds_elements (k_sets k4) = []" by (simp add: fr k3_def k2_def ds(4))
    ultimately show ?thesis by (auto simp: cache_ok_def e6)
  qed
  moreover have "edge_list_ok g k6" using el3 by (simp add: edge_list_ok_def e6 k3_def)
  ultimately have res: "kr_update srt g k = Some k6" "kr_result g k6"
    using es(3) by (simp_all add: kr_result_def fr k3_def k2_def)
  have "updated g k k6"
    using es(4,5) e6 unfolding updated_def
    by (simp add: k6_def k5_def fr k3_def k2_def f1 by_weight_def)
  then show thesis using that res by blast
qed

end
