(* ===== verification/Kruskal_Parents.thy ===== *)
theory Kruskal_Parents
  imports Kruskal_Spec
begin

text \<open>
  The parents \<open>buildParents\<close> computes: the search from one root ends and reaches exactly the nodes of its tree, and the
  searches from one element of every set leave a rooted forest.
\<close>

subsection \<open>Edges of the tree at a node\<close>

abbreviation tree_joins :: "'w dgraph \<Rightarrow> 'w kruskal \<Rightarrow> nat \<Rightarrow> nat \<Rightarrow> nat \<Rightarrow> bool" where
  "tree_joins g k u v e \<equiv> e \<in> set (k_mst k) \<and> (g_ends g e = (u, v) \<or> g_ends g e = (v, u))"

lemma tree_edge_facts:
  assumes ok: "graph_ok g" "status_ok g" "kr_result g k" and e: "e \<in> set (k_mst k)"
  shows "e \<in> enabled_edges g" "isEdge g e" "joins g (fst (g_ends g e)) (snd (g_ends g e)) e"
    "fst (g_ends g e) < g_num_nodes g" "snd (g_ends g e) < g_num_nodes g"
proof -
  have "set (k_mst k) \<subseteq> enabled_edges g"
    using ok(3) by (auto simp: kr_result_def tree_inv_def spanning_forest_def)
  then show en: "e \<in> enabled_edges g" using e by blast
  then show i: "isEdge g e" using ok(2) by (auto simp: status_ok_def enabled_edges_def)
  show "fst (g_ends g e) < g_num_nodes g" "snd (g_ends g e) < g_num_nodes g"
    using enabled_facts(5,6)[OF ok(1,2) en] .
  show "joins g (fst (g_ends g e)) (snd (g_ends g e)) e"
    using i enabled_facts(3,4)[OF ok(1,2) en] by (auto simp: joins_def node_of_def split: if_splits)
qed

lemma tree_joins_bounds:
  assumes "graph_ok g" "status_ok g" "kr_result g k" "tree_joins g k u v e"
  shows "u < g_num_nodes g" "v < g_num_nodes g" "conn (g_ends g) (set (k_mst k)) u v"
proof -
  show "u < g_num_nodes g" "v < g_num_nodes g" using tree_edge_facts(4,5)[OF assms(1-3)] assms(4) by fastforce+
  show "conn (g_ends g) (set (k_mst k)) u v"
    using assms(4) conn_edge[of e "set (k_mst k)" "g_ends g"] conn_sym by blast
qed

text \<open>An entry of the undirected adjacency list whose edge is in the tree, and the other way round.\<close>

lemma incident_tree:
  assumes ok: "graph_ok g" "status_ok g" "kr_result g k" and u: "u < g_num_nodes g"
  shows "nIncident g u True = Some (length (g_und_adj g ! u))"
    "j < length (g_und_adj g ! u) \<Longrightarrow> incident g u j True = Some (g_und_adj g ! u ! j)"
    "(v, e) \<in> set (g_und_adj g ! u) \<Longrightarrow> get_at (k_in_tree k) e = Some (e \<in> set (k_mst k))"
    "(v, e) \<in> set (g_und_adj g ! u) \<Longrightarrow> e \<in> set (k_mst k) \<Longrightarrow> tree_joins g k u v e"
    "tree_joins g k u v e \<Longrightarrow> (v, e) \<in> set (g_und_adj g ! u)"
proof -
  note adj = adj_joins[OF ok(1) u]
  show n: "nIncident g u True = Some (length (g_und_adj g ! u))" using adj(2) u by (simp add: nIncident_def)
  show "j < length (g_und_adj g ! u) \<Longrightarrow> incident g u j True = Some (g_und_adj g ! u ! j)"
    using adj(2) u n by (simp add: incident_def)
  have len: "length (k_in_tree k) = g_next_id g" "\<And>e. e < g_next_id g \<Longrightarrow> k_in_tree k ! e = (e \<in> set (k_mst k))"
    using ok(3) by (auto simp: kr_result_def tree_inv_def)
  show "(v, e) \<in> set (g_und_adj g ! u) \<Longrightarrow> get_at (k_in_tree k) e = Some (e \<in> set (k_mst k))"
    using adj(6) isEdge_bounds(4)[OF ok(1)] len by (auto simp: joins_def)
  show "(v, e) \<in> set (g_und_adj g ! u) \<Longrightarrow> e \<in> set (k_mst k) \<Longrightarrow> tree_joins g k u v e"
    using adj(6) by (auto simp: joins_def g_ends_def)
  show "tree_joins g k u v e \<Longrightarrow> (v, e) \<in> set (g_und_adj g ! u)"
    using adj(6) tree_edge_facts(3)[OF ok, of e] by auto
qed

subsection \<open>The search from one root\<close>

definition parent_rel :: "int list \<Rightarrow> (nat \<times> nat) set" where
  "parent_rel ps = {(x, y). x < length ps \<and> ps ! x = int y}"

text \<open>The nodes reached since the parents were \<open>ps0\<close>.\<close>

definition reached :: "int list \<Rightarrow> nat \<Rightarrow> int list \<Rightarrow> nat set" where
  "reached ps0 r ps = insert r {v. v < length ps \<and> ps ! v \<noteq> - 1 \<and> ps0 ! v = - 1}"

definition has_parent :: "'w dgraph \<Rightarrow> 'w kruskal \<Rightarrow> nat \<Rightarrow> bool" where
  "has_parent g k v \<longleftrightarrow> (\<exists>u e. k_parents k ! v = int u \<and> k_parent_edges k ! v = int e \<and> tree_joins g k u v e)"

text \<open>\<open>search_inv g k0 r U q k\<close>: the search from \<open>r\<close> started in \<open>k0\<close>; the nodes on the stack and those in \<open>U\<close> may
  have neighbours that have not been reached.\<close>

definition search_inv :: "'w dgraph \<Rightarrow> 'w kruskal \<Rightarrow> nat \<Rightarrow> nat set \<Rightarrow> nat list \<Rightarrow> 'w kruskal \<Rightarrow> bool" where
  "search_inv g k0 r U q k \<longleftrightarrow>
     k = k0\<lparr>k_parents := k_parents k, k_parent_edges := k_parent_edges k\<rparr> \<and>
     length (k_parents k) = g_num_nodes g \<and> length (k_parent_edges k) = g_num_nodes g \<and>
     (\<forall>v < g_num_nodes g. k_parents k0 ! v \<noteq> - 1 \<longrightarrow>
        k_parents k ! v = k_parents k0 ! v \<and> k_parent_edges k ! v = k_parent_edges k0 ! v) \<and>
     r < g_num_nodes g \<and> k_parents k ! r = - 1 \<and> k_parents k0 ! r = - 1 \<and>
     (\<forall>v \<in> reached (k_parents k0) r (k_parents k). (v \<noteq> r \<longrightarrow> has_parent g k v) \<and>
        (v, r) \<in> (parent_rel (k_parents k))\<^sup>* \<and> conn (g_ends g) (set (k_mst k0)) r v) \<and>
     set q \<subseteq> reached (k_parents k0) r (k_parents k) \<and>
     (\<forall>x \<in> reached (k_parents k0) r (k_parents k) - set q - U. \<forall>y e. tree_joins g k0 x y e \<longrightarrow>
        y \<in> reached (k_parents k0) r (k_parents k))"

definition no_parent :: "'w kruskal \<Rightarrow> nat" where
  "no_parent k = length (filter (\<lambda>p. p = - 1) (k_parents k))"

lemma search_invD:
  assumes "search_inv g k0 r U q k"
  shows "k = k0\<lparr>k_parents := k_parents k, k_parent_edges := k_parent_edges k\<rparr>"
    "length (k_parents k) = g_num_nodes g" "length (k_parent_edges k) = g_num_nodes g"
    "\<And>v. v < g_num_nodes g \<Longrightarrow> k_parents k0 ! v \<noteq> - 1 \<Longrightarrow>
        k_parents k ! v = k_parents k0 ! v \<and> k_parent_edges k ! v = k_parent_edges k0 ! v"
    "r < g_num_nodes g" "k_parents k ! r = - 1" "k_parents k0 ! r = - 1"
    "\<And>v. v \<in> reached (k_parents k0) r (k_parents k) \<Longrightarrow> v \<noteq> r \<Longrightarrow> has_parent g k v"
    "\<And>v. v \<in> reached (k_parents k0) r (k_parents k) \<Longrightarrow> (v, r) \<in> (parent_rel (k_parents k))\<^sup>*"
    "\<And>v. v \<in> reached (k_parents k0) r (k_parents k) \<Longrightarrow> conn (g_ends g) (set (k_mst k0)) r v"
    "set q \<subseteq> reached (k_parents k0) r (k_parents k)"
    "\<And>x y e. x \<in> reached (k_parents k0) r (k_parents k) \<Longrightarrow> x \<notin> set q \<Longrightarrow> x \<notin> U \<Longrightarrow> tree_joins g k0 x y e \<Longrightarrow>
        y \<in> reached (k_parents k0) r (k_parents k)"
  using assms unfolding search_inv_def by blast+

lemma search_same:
  assumes "search_inv g k0 r U q k"
  shows "k_sets k = k_sets k0" "k_mst k = k_mst k0" "k_in_tree k = k_in_tree k0" "kr_result g k0 \<Longrightarrow> kr_result g k"
proof -
  have e: "k = k0\<lparr>k_parents := k_parents k, k_parent_edges := k_parent_edges k\<rparr>" by (rule search_invD(1)[OF assms])
  show "k_sets k = k_sets k0" "k_mst k = k_mst k0" "k_in_tree k = k_in_tree k0" by (subst e, simp)+
  have f: "k_min_weight k = k_min_weight k0" "k_edge_list k = k_edge_list k0" by (subst e, simp)+
  show "kr_result g k0 \<Longrightarrow> kr_result g k"
    using search_invD(2,3)[OF assms] f \<open>k_sets k = k_sets k0\<close> \<open>k_mst k = k_mst k0\<close> \<open>k_in_tree k = k_in_tree k0\<close>
    by (simp add: kr_result_def tree_inv_def edge_list_ok_def by_weight_def)
qed

lemma reach_node:
  fixes g :: "'w::linordered_idom dgraph"
  assumes inv: "search_inv g k0 r U q k" and u: "u \<in> reached (k_parents k0) r (k_parents k)" "u \<in> U"
    and j: "tree_joins g k0 u v e" "conn (g_ends g) (set (k_mst k0)) u v" and v: "v < g_num_nodes g" "v \<noteq> r" "k_parents k ! v = - 1"
    and k': "k' = k\<lparr>k_parents := (k_parents k)[v := int u], k_parent_edges := (k_parent_edges k)[v := int e]\<rparr>"
  shows "search_inv g k0 r U (q @ [v]) k'" "no_parent k = Suc (no_parent k')"
    "reached (k_parents k0) r (k_parents k') = insert v (reached (k_parents k0) r (k_parents k))"
proof -
  note i = search_invD[OF inv]
  let ?R = "reached (k_parents k0) r (k_parents k)"
  have p: "k_parents k' = (k_parents k)[v := int u]" "k_parent_edges k' = (k_parent_edges k)[v := int e]" "k_mst k' = k_mst k0"
    using search_same(2)[OF inv] by (simp_all add: k')
  have v0: "k_parents k0 ! v = - 1" using i(4)[OF v(1)] v(3) by metis
  show R: "reached (k_parents k0) r (k_parents k') = insert v ?R"
    using v i(2) v0 by (auto simp: reached_def p nth_list_update)
  show "no_parent k = Suc (no_parent k')"
    unfolding no_parent_def p(1) using v(1,3) i(2) by (intro card_filter_update) auto
  have mono: "parent_rel (k_parents k) \<subseteq> parent_rel (k_parents k')"
    using v(1,3) i(2) by (auto simp: parent_rel_def p nth_list_update)
  have star: "(x, y) \<in> (parent_rel (k_parents k))\<^sup>* \<Longrightarrow> (x, y) \<in> (parent_rel (k_parents k'))\<^sup>*" for x y
    using rtrancl_mono[OF mono] by blast
  have step: "(v, u) \<in> parent_rel (k_parents k')" using v(1) i(2) by (simp add: parent_rel_def p)
  have ur: "(u, r) \<in> (parent_rel (k_parents k'))\<^sup>*" using star i(9)[OF u(1)] by blast
  have "has_parent g k' v" using v(1) i(2,3) j(1) by (auto simp: has_parent_def p)
  moreover have "has_parent g k' x" if "x \<in> ?R" "x \<noteq> r" "x \<noteq> v" for x
  proof -
    have "k_parents k' ! x = k_parents k ! x" "k_parent_edges k' ! x = k_parent_edges k ! x" using that(3) by (simp_all add: p)
    then show ?thesis using i(8)[OF that(1,2)] p(3) search_same(2)[OF inv] by (simp add: has_parent_def)
  qed
  moreover have "(v, r) \<in> (parent_rel (k_parents k'))\<^sup>*" using step ur by (rule converse_rtrancl_into_rtrancl)
  moreover have "conn (g_ends g) (set (k_mst k0)) r v" using i(10)[OF u(1)] j(2) conn_trans by blast
  ultimately have "\<forall>x \<in> insert v ?R. (x \<noteq> r \<longrightarrow> has_parent g k' x) \<and> (x, r) \<in> (parent_rel (k_parents k'))\<^sup>* \<and>
      conn (g_ends g) (set (k_mst k0)) r x"
    using i(9,10) star by blast
  moreover have "k' = k0\<lparr>k_parents := k_parents k', k_parent_edges := k_parent_edges k'\<rparr>"
    unfolding k' by (subst i(1)) simp
  moreover have "\<forall>x < g_num_nodes g. k_parents k0 ! x \<noteq> - 1 \<longrightarrow>
      k_parents k' ! x = k_parents k0 ! x \<and> k_parent_edges k' ! x = k_parent_edges k0 ! x"
    using i(4) v0 by (metis nth_list_update_neq p(1,2))
  moreover have "k_parents k' ! r = - 1" using i(6) v(2) by (simp add: p)
  moreover have "set (q @ [v]) \<subseteq> insert v ?R" using i(11) by auto
  moreover have "\<forall>x \<in> insert v ?R - set (q @ [v]) - U. \<forall>y e. tree_joins g k0 x y e \<longrightarrow> y \<in> insert v ?R"
    using i(12) by auto
  ultimately show "search_inv g k0 r U (q @ [v]) k'"
    using i(2,3,5,7) unfolding search_inv_def R by (simp add: p)
qed

lemma in_set_eq: "ds_ok d \<Longrightarrow> u < ds_numElements d \<Longrightarrow> in_set d u s \<longleftrightarrow> ds_set d u = s"
proof -
  assume "ds_ok d" "u < ds_numElements d"
  then obtain d' where "FindSet u d = Some (ds_set d u, d')" by (rule FindSet_same)
  then show ?thesis by (simp add: in_set_def)
qed

lemma kr_resultD:
  assumes "kr_result g k"
  shows "ds_numElements (k_sets k) = g_num_nodes g" "dsets.represents (g_ends g) (set (k_mst k)) (k_sets k)"
    "ds_ok (k_sets k)" "cache_ok (k_sets k)"
  using assms tree_invD(1,2,9) unfolding kr_result_def by blast+

lemma in_root_set:
  assumes "kr_result g k" "conn (g_ends g) (set (k_mst k)) r v" "r < g_num_nodes g" "v < g_num_nodes g"
  shows "in_set (k_sets k) v (ds_set (k_sets k) r)"
  using kr_resultD[OF assms(1)] dsets.representsD[of "g_ends g" "set (k_mst k)" "k_sets k" r v] assms(2-4)
  by (simp add: in_set_eq same_set_def)

lemma parent_scan_ok:
  fixes g :: "'w::linordered_idom dgraph"
  assumes ok: "graph_ok g" "status_ok g" "kr_result g k0" and u: "u < g_num_nodes g"
    and apart: "\<And>v. v < g_num_nodes g \<Longrightarrow> conn (g_ends g) (set (k_mst k0)) r v \<Longrightarrow> k_parents k0 ! v = - 1"
    and js: "\<forall>j \<in> set js. j < length (g_und_adj g ! u)"
    and inv: "search_inv g k0 r {u} q k" and ur: "u \<in> reached (k_parents k0) r (k_parents k)"
  shows "\<exists>q' k'. parent_scan g r (ds_set (k_sets k0) r) u js q k = Some (q', k') \<and> search_inv g k0 r {u} q' k' \<and>
    no_parent k' + length q' = no_parent k + length q \<and> set q \<subseteq> set q' \<and>
    reached (k_parents k0) r (k_parents k) \<subseteq> reached (k_parents k0) r (k_parents k') \<and>
    (\<forall>j \<in> set js. snd (g_und_adj g ! u ! j) \<in> set (k_mst k0) \<longrightarrow> fst (g_und_adj g ! u ! j) \<in> reached (k_parents k0) r (k_parents k'))"
  using js inv ur
proof (induction js arbitrary: q k)
  case (Cons j js)
  obtain v e where ve: "g_und_adj g ! u ! j = (v, e)" by fastforce
  have mem: "(v, e) \<in> set (g_und_adj g ! u)" using Cons.prems(1) ve by (metis list.set_intros(1) nth_mem)
  have inc: "incident g u j True = Some (v, e)" using incident_tree(2)[OF ok u, of j] Cons.prems(1) ve by simp
  have t: "get_at (k_in_tree k) e = Some (e \<in> set (k_mst k0))"
    using incident_tree(3)[OF ok u mem] search_same(3)[OF Cons.prems(2)] by simp
  note i = search_invD[OF Cons.prems(2)]
  let ?R = "\<lambda>k. reached (k_parents k0) r (k_parents k)" and ?s = "ds_set (k_sets k0) r"
  have go: "\<exists>q' k'. parent_scan g r ?s u (j # js) q k = Some (q', k') \<and> search_inv g k0 r {u} q' k' \<and>
      no_parent k' + length q' = no_parent k + length q \<and> set q \<subseteq> set q' \<and> ?R k \<subseteq> ?R k' \<and>
      (\<forall>j \<in> set (j # js). snd (g_und_adj g ! u ! j) \<in> set (k_mst k0) \<longrightarrow> fst (g_und_adj g ! u ! j) \<in> ?R k')"
    if c: "parent_scan g r ?s u (j # js) q k = parent_scan g r ?s u js q1 k1" and s1: "search_inv g k0 r {u} q1 k1"
      "no_parent k1 + length q1 = no_parent k + length q" "set q \<subseteq> set q1" "?R k \<subseteq> ?R k1"
      "e \<in> set (k_mst k0) \<Longrightarrow> v \<in> ?R k1" for q1 k1
  proof -
    have "u \<in> ?R k1" using s1(4) Cons.prems(3) by blast
    from Cons.IH[OF _ s1(1) this] Cons.prems(1)
    obtain q' k' where "parent_scan g r ?s u js q1 k1 = Some (q', k')" "search_inv g k0 r {u} q' k'"
      "no_parent k' + length q' = no_parent k1 + length q1" "set q1 \<subseteq> set q'" "?R k1 \<subseteq> ?R k'"
      "\<forall>j \<in> set js. snd (g_und_adj g ! u ! j) \<in> set (k_mst k0) \<longrightarrow> fst (g_und_adj g ! u ! j) \<in> ?R k'" by auto
    then show ?thesis using c s1 ve by (intro exI[of _ q'] exI[of _ k']) auto
  qed
  show ?case
  proof (cases "e \<in> set (k_mst k0)")
    case False
    then show ?thesis by (intro go[OF _ Cons.prems(2)]) (simp_all add: inc t)
  next
    case True
    have j: "tree_joins g k0 u v e" by (rule incident_tree(4)[OF ok u mem True])
    note b = tree_joins_bounds[OF ok j]
    have vl: "v < length (k_parents k)" "v < length (k_parent_edges k)" using b(2) i(2,3) by auto
    show ?thesis
    proof (cases "k_parents k ! v = - 1 \<and> v \<noteq> r")
      case new: True
      let ?k = "k\<lparr>k_parents := (k_parents k)[v := int u], k_parent_edges := (k_parent_edges k)[v := int e]\<rparr>"
      have "conn (g_ends g) (set (k_mst k0)) r v" using i(10)[OF Cons.prems(3)] b(3) conn_trans by blast
      then have s: "in_set (k_sets k) v ?s"
        using in_root_set[OF ok(3) _ i(5) b(2)] search_same(1)[OF Cons.prems(2)] by simp
      note r = reach_node[OF Cons.prems(2,3) _ j b(3,2) _ _ refl, simplified, OF conjunct2[OF new] conjunct1[OF new]]
      show ?thesis
        by (rule go[OF _ r(1)]) (use r new inc t True s vl in auto)
    next
      case old: False
      have "v \<in> ?R k"
      proof (cases "v = r")
        case False
        then have "k_parents k ! v \<noteq> - 1" using old by blast
        moreover have "k_parents k0 ! v = - 1" using apart[OF b(2)] i(10)[OF Cons.prems(3)] b(3) conn_trans by blast
        ultimately show ?thesis using vl(1) by (simp add: reached_def)
      qed (simp add: reached_def)
      then show ?thesis by (intro go[OF _ Cons.prems(2)]) (use inc t True old vl in auto)
    qed
  qed
qed simp

lemma parent_search_ok:
  fixes g :: "'w::linordered_idom dgraph"
  assumes ok: "graph_ok g" "status_ok g" "kr_result g k0"
    and apart: "\<And>v. v < g_num_nodes g \<Longrightarrow> conn (g_ends g) (set (k_mst k0)) r v \<Longrightarrow> k_parents k0 ! v = - 1"
  shows "search_inv g k0 r {} q k \<Longrightarrow>
    \<exists>k'. parent_search g r (ds_set (k_sets k0) r) q k = Some k' \<and> search_inv g k0 r {} [] k'"
proof (induction "no_parent k + length q" arbitrary: q k rule: less_induct)
  case less
  note i = search_invD[OF less.prems]
  let ?R = "\<lambda>k. reached (k_parents k0) r (k_parents k)" and ?s = "ds_set (k_sets k0) r" and ?u = "last q"
  show ?case
  proof (cases "q = []")
    case True
    then show ?thesis using less.prems by (subst parent_search.simps) simp
  next
    case False
    have qq: "set q = insert ?u (set (butlast q))" using False by (metis append_butlast_last_id list.simps(15) rotate1.simps(2) set_rotate1)
    have uR: "?u \<in> ?R k" using i(11) False by auto
    have un: "?u < g_num_nodes g" using uR i(2,5) by (auto simp: reached_def)
    have s: "in_set (k_sets k) ?u ?s"
      using in_root_set[OF ok(3) i(10)[OF uR] i(5) un] search_same(1)[OF less.prems] by simp
    have inv: "search_inv g k0 r {?u} (butlast q) k"
      using less.prems qq unfolding search_inv_def by blast
    note n = incident_tree(1)[OF ok un]
    have "\<exists>q' k'. parent_scan g r ?s ?u [0..<length (g_und_adj g ! ?u)] (butlast q) k = Some (q', k') \<and>
      search_inv g k0 r {?u} q' k' \<and> no_parent k' + length q' = no_parent k + length (butlast q) \<and>
      set (butlast q) \<subseteq> set q' \<and> ?R k \<subseteq> ?R k' \<and>
      (\<forall>j \<in> set [0..<length (g_und_adj g ! ?u)]. snd (g_und_adj g ! ?u ! j) \<in> set (k_mst k0) \<longrightarrow> fst (g_und_adj g ! ?u ! j) \<in> ?R k')"
      using apart by (intro parent_scan_ok[OF ok un _ _ inv uR]) auto
    then obtain q' k' where r: "parent_scan g r ?s ?u [0..<length (g_und_adj g ! ?u)] (butlast q) k = Some (q', k')"
      "search_inv g k0 r {?u} q' k'" "no_parent k' + length q' = no_parent k + length (butlast q)"
      "\<And>j. j < length (g_und_adj g ! ?u) \<Longrightarrow> snd (g_und_adj g ! ?u ! j) \<in> set (k_mst k0) \<Longrightarrow> fst (g_und_adj g ! ?u ! j) \<in> ?R k'"
      by auto
    have "y \<in> ?R k'" if "tree_joins g k0 ?u y e" for y e
    proof -
      have "(y, e) \<in> set (g_und_adj g ! ?u)" by (rule incident_tree(5)[OF ok un that])
      then obtain j where "j < length (g_und_adj g ! ?u)" "g_und_adj g ! ?u ! j = (y, e)" by (auto simp: in_set_conv_nth)
      then show ?thesis using r(4)[of j] that by simp
    qed
    then have inv': "search_inv g k0 r {} q' k'"
      using r(2) unfolding search_inv_def by blast
    have "no_parent k' + length q' < no_parent k + length q" using r(3) False by (cases q rule: rev_cases) auto
    then obtain k'' where "parent_search g r ?s q' k' = Some k''" "search_inv g k0 r {} [] k''"
      using less.hyps inv' by blast
    then show ?thesis using False s n r(1) by (simp add: parent_search.simps[of g r ?s q k])
  qed
qed

text \<open>The search reaches the whole tree of its root.\<close>

lemma search_complete:
  assumes inv: "search_inv g k0 r {} [] k" and c: "conn (g_ends g) (set (k_mst k0)) r v"
  shows "v \<in> reached (k_parents k0) r (k_parents k)"
  using c unfolding conn_def
proof (induction rule: rtrancl_induct)
  case base
  then show ?case by (simp add: reached_def)
next
  case (step y z)
  then obtain e where "tree_joins g k0 y z e" by (auto simp: edge_rel_def)
  then show ?case using search_invD(12)[OF inv step.IH] by auto
qed

subsection \<open>The searches from all roots\<close>

definition forest_inv :: "'w::linordered_idom dgraph \<Rightarrow> nat list \<Rightarrow> nat \<Rightarrow> 'w kruskal \<Rightarrow> bool" where
  "forest_inv g es i k \<longleftrightarrow>
     kr_result g k \<and> cached es (k_sets k) \<and> transversal (k_sets k) es \<and>
     (\<forall>v < g_num_nodes g. k_parents k ! v \<noteq> - 1 \<longrightarrow> has_parent g k v \<and>
        (\<exists>r \<in> set (take i es). (v, r) \<in> (parent_rel (k_parents k))\<^sup>* \<and> conn (g_ends g) (set (k_mst k)) r v)) \<and>
     (\<forall>r \<in> set (take i es). \<forall>v < g_num_nodes g. conn (g_ends g) (set (k_mst k)) r v \<longrightarrow> v = r \<or> k_parents k ! v \<noteq> - 1) \<and>
     (\<forall>r \<in> set es. k_parents k ! r = - 1)"

lemma forest_invD:
  assumes "forest_inv g es i k"
  shows "kr_result g k" "cached es (k_sets k)" "transversal (k_sets k) es"
    "\<And>v. v < g_num_nodes g \<Longrightarrow> k_parents k ! v \<noteq> - 1 \<Longrightarrow> has_parent g k v"
    "\<And>v. v < g_num_nodes g \<Longrightarrow> k_parents k ! v \<noteq> - 1 \<Longrightarrow>
        \<exists>r \<in> set (take i es). (v, r) \<in> (parent_rel (k_parents k))\<^sup>* \<and> conn (g_ends g) (set (k_mst k)) r v"
    "\<And>r v. r \<in> set (take i es) \<Longrightarrow> v < g_num_nodes g \<Longrightarrow> conn (g_ends g) (set (k_mst k)) r v \<Longrightarrow> v = r \<or> k_parents k ! v \<noteq> - 1"
    "\<And>r. r \<in> set es \<Longrightarrow> k_parents k ! r = - 1"
  using assms unfolding forest_inv_def by blast+

lemma kr_result_sets:
  assumes "kr_result g k" "same_sets (k_sets k) d" "ds_elements d = ds_elements (k_sets k)"
  shows "kr_result g (k\<lparr>k_sets := d\<rparr>)"
  using assms represents_same[OF kr_resultD(2)[OF assms(1)] assms(2)] cache_ok_same[OF kr_resultD(4)[OF assms(1)] assms(2,3)]
    same_setsD(2)[OF assms(2)]
  by (simp add: kr_result_def tree_inv_def by_weight_def edge_list_ok_def)

lemma transversal_same: "transversal d es \<Longrightarrow> same_sets d d' \<Longrightarrow> transversal d' es"
  using same_setsD(2,3,5)[of d d'] unfolding transversal_def by (smt (verit, best))

lemma roots_apart:
  assumes "kr_result g k" "transversal (k_sets k) es" "r \<in> set es" "r' \<in> set es" "conn (g_ends g) (set (k_mst k)) r r'"
  shows "r = r'"
  using assms kr_resultD(1)[OF assms(1)] dsets.representsD[OF kr_resultD(2)[OF assms(1)], of r r'] unfolding transversal_def by auto

lemma parent_tree_step:
  fixes g :: "'w::linordered_idom dgraph"
  assumes ok: "graph_ok g" "status_ok g" and f: "forest_inv g es i k" and i: "i < length es"
    and s: "search_inv g k (es ! i) {} [] k'"
  shows "forest_inv g es (Suc i) k'"
proof -
  note f' = forest_invD[OF f] and s' = search_invD[OF s] and ss = search_same[OF s]
  let ?r = "es ! i" and ?R = "reached (k_parents k) (es ! i) (k_parents k')" and ?c = "conn (g_ends g) (set (k_mst k))"
  have r: "?r \<in> set es" using i by simp
  have old: "k_parents k' ! v = k_parents k ! v" "k_parent_edges k' ! v = k_parent_edges k ! v"
    if "v < g_num_nodes g" "k_parents k ! v \<noteq> - 1" for v using s'(4)[OF that] by auto
  have new: "v \<in> ?R" "v \<noteq> ?r" if "v < g_num_nodes g" "k_parents k' ! v \<noteq> - 1" "k_parents k ! v = - 1" for v
    using that s'(2,6) by (auto simp: reached_def)
  have "parent_rel (k_parents k) \<subseteq> parent_rel (k_parents k')"
    using old s'(2) f'(1) unfolding parent_rel_def kr_result_def by fastforce
  then have star: "(x, y) \<in> (parent_rel (k_parents k))\<^sup>* \<Longrightarrow> (x, y) \<in> (parent_rel (k_parents k'))\<^sup>*" for x y
    using rtrancl_mono by blast
  have tk: "set (take (Suc i) es) = insert ?r (set (take i es))" using i by (simp add: take_Suc_conv_app_nth)
  have 1: "has_parent g k' v \<and> (\<exists>r \<in> set (take (Suc i) es). (v, r) \<in> (parent_rel (k_parents k'))\<^sup>* \<and> ?c r v)"
    if v: "v < g_num_nodes g" "k_parents k' ! v \<noteq> - 1" for v
  proof (cases "k_parents k ! v = - 1")
    case True
    then show ?thesis using new[OF v True] s'(8-10) tk by auto
  next
    case False
    have "has_parent g k' v" using f'(4)[OF v(1) False] old[OF v(1) False] ss(2) by (simp add: has_parent_def)
    then show ?thesis using f'(5)[OF v(1) False] star tk by auto
  qed
  have 2: "v = r \<or> k_parents k' ! v \<noteq> - 1" if a: "r \<in> set (take (Suc i) es)" "v < g_num_nodes g" "?c r v" for r v
  proof (cases "r = ?r")
    case True
    then show ?thesis using search_complete[OF s, of v] a(3) by (auto simp: reached_def)
  next
    case False
    then show ?thesis using f'(6)[of r v] a tk old(1)[OF a(2)] by auto
  qed
  have 3: "k_parents k' ! r = - 1" if "r \<in> set es" for r
  proof (rule ccontr)
    assume n: "k_parents k' ! r \<noteq> - 1"
    have "r < g_num_nodes g" using f'(3) that kr_resultD(1)[OF f'(1)] by (auto simp: transversal_def)
    then have "?c ?r r" "r \<noteq> ?r" using new[of r] n f'(7)[OF that] s'(10) by auto
    then show False using roots_apart[OF f'(1,3) r that] by simp
  qed
  show ?thesis
    unfolding forest_inv_def ss(1,2) using ss(4)[OF f'(1)] f'(2,3) 1 2 3 by blast
qed

lemma parent_trees_ok:
  fixes g :: "'w::linordered_idom dgraph"
  assumes ok: "graph_ok g" "status_ok g"
  shows "forest_inv g es i k \<Longrightarrow> i \<le> length es \<Longrightarrow>
    \<exists>k' d. parent_trees g [i..<length es] k = Some k' \<and> forest_inv g es (length es) k' \<and> same_sets (k_sets k) d \<and>
      k' = k\<lparr>k_parents := k_parents k', k_parent_edges := k_parent_edges k', k_sets := d\<rparr>"
proof (induction "length es - i" arbitrary: i k)
  case 0
  then have "i = length es" by simp
  then show ?case using 0 same_sets_refl[of "k_sets k"] kr_resultD(3)[OF forest_invD(1)[OF 0(2)]]
    by (intro exI[of _ k] exI[of _ "k_sets k"]) simp
next
  case (Suc m)
  note f = forest_invD[OF Suc.prems(1)]
  have i: "i < length es" and up: "[i..<length es] = i # [Suc i..<length es]" using Suc.hyps(2) by (simp_all add: upt_rec)
  let ?r = "es ! i"
  have r: "?r \<in> set es" "?r < ds_numElements (k_sets k)" using i f(3) by (auto simp: transversal_def)
  have rn: "?r < g_num_nodes g" using r(2) kr_resultD(1)[OF f(1)] by simp
  obtain d where d: "FindSet ?r (k_sets k) = Some (ds_set (k_sets k) ?r, d)" "same_sets (k_sets k) d" "ds_elements d = ds_elements (k_sets k)"
    using FindSet_same[OF kr_resultD(3)[OF f(1)] r(2)] by blast
  let ?k = "k\<lparr>k_sets := d\<rparr>"
  have f1: "forest_inv g es i ?k"
    using f(4-7) kr_result_sets[OF f(1) d(2,3)] cached_same[OF f(2) d(2,3)] transversal_same[OF f(3) d(2)]
    by (simp add: forest_inv_def has_parent_def)
  have p: "k_parents k ! ?r = - 1" "?r < length (k_parents k)" using f(7)[OF r(1)] f(1) rn by (auto simp: kr_result_def)
  have apart: "k_parents ?k ! v = - 1" if v: "v < g_num_nodes g" "conn (g_ends g) (set (k_mst ?k)) ?r v" for v
  proof (rule ccontr)
    assume "k_parents ?k ! v \<noteq> - 1"
    then obtain r' where r': "r' \<in> set (take i es)" "conn (g_ends g) (set (k_mst k)) r' v" using f(5)[OF v(1)] by auto
    have "r' \<in> set es" using r'(1) in_set_takeD by metis
    moreover have "conn (g_ends g) (set (k_mst k)) r' ?r" using conn_trans[OF r'(2) conn_sym] v(2) by simp
    ultimately have "r' = ?r" using roots_apart[OF f(1,3)] r(1) by blast
    moreover have "?r \<notin> set (take i es)" using f(3) i by (auto simp: transversal_def in_set_conv_nth nth_eq_iff_index_eq)
    ultimately show False using r'(1) by blast
  qed
  have "search_inv g ?k ?r {} [?r] ?k"
    using f(1) rn p by (auto simp: search_inv_def reached_def kr_result_def)
  from parent_search_ok[OF ok forest_invD(1)[OF f1] apart this]
  obtain k2 where k2: "parent_search g ?r (ds_set (k_sets ?k) ?r) [?r] ?k = Some k2" "search_inv g ?k ?r {} [] k2" by blast
  have e: "ds_set (k_sets ?k) ?r = ds_set (k_sets k) ?r" using same_setsD(4)[OF d(2) r(2)] by simp
  note s2 = search_invD[OF k2(2)]
  have f2: "forest_inv g es (Suc i) k2" by (rule parent_tree_step[OF ok f1 i k2(2)])
  have m: "m = length es - Suc i" "Suc i \<le> length es" using Suc.hyps(2) i by auto
  obtain k' d' where k': "parent_trees g [Suc i..<length es] k2 = Some k'" "forest_inv g es (length es) k'" "same_sets (k_sets k2) d'"
    "k' = k2\<lparr>k_parents := k_parents k', k_parent_edges := k_parent_edges k', k_sets := d'\<rparr>"
    using Suc.hyps(1)[OF m(1) f2 m(2)] by blast
  have "parent_trees g [i..<length es] k = Some k'"
    unfolding up using GetElement_cached[OF f(2) i] d(1) p k2(1)[unfolded e] k'(1) s2(2,6) rn by simp
  moreover have "same_sets (k_sets k) d'"
    using same_sets_trans[OF d(2)] k'(3) search_same(1)[OF k2(2)] by simp
  moreover have "k' = k\<lparr>k_parents := k_parents k', k_parent_edges := k_parent_edges k', k_sets := d'\<rparr>"
  proof -
    obtain ps es' where a: "k' = k2\<lparr>k_parents := ps, k_parent_edges := es', k_sets := d'\<rparr>" using k'(4) by blast
    obtain ps2 es2 where b: "k2 = ?k\<lparr>k_parents := ps2, k_parent_edges := es2\<rparr>" using s2(1) by blast
    show ?thesis unfolding a b by simp
  qed
  ultimately show ?case using k'(2) by blast
qed

subsection \<open>The parents\<close>

text \<open>Every set has one node without a parent; the parent of any other node is its neighbour along the recorded
  edge of the tree, and the parents lead to the root of the set.\<close>

definition parents_ok :: "'w::linordered_idom dgraph \<Rightarrow> 'w kruskal \<Rightarrow> bool" where
  "parents_ok g k \<longleftrightarrow> (\<exists>roots. transversal (k_sets k) roots \<and>
     (\<forall>v < g_num_nodes g. k_parents k ! v = - 1 \<longleftrightarrow> v \<in> set roots) \<and>
     (\<forall>v < g_num_nodes g. k_parents k ! v \<noteq> - 1 \<longrightarrow> has_parent g k v) \<and>
     (\<forall>v < g_num_nodes g. \<exists>r \<in> set roots. (v, r) \<in> (parent_rel (k_parents k))\<^sup>*) \<and>
     (ds_numSets (k_sets k) > 0 \<longrightarrow> cached roots (k_sets k)))"

lemma forest_inv_parents:
  assumes f: "forest_inv g es (length es) k"
  shows "parents_ok g k"
proof -
  note f' = forest_invD[OF f]
  have n: "ds_numElements (k_sets k) = g_num_nodes g" by (rule kr_resultD(1)[OF f'(1)])
  have "v \<in> set es" if v: "v < g_num_nodes g" "k_parents k ! v = - 1" for v
  proof -
    obtain r where r: "r \<in> set es" "same_set (k_sets k) v r" using f'(3) v(1) n by (auto simp: transversal_def)
    then have "r < g_num_nodes g" using f'(3) n by (auto simp: transversal_def)
    then have "conn (g_ends g) (set (k_mst k)) r v"
      using r(2) v(1) n dsets.representsD[OF kr_resultD(2)[OF f'(1)], of v r] conn_sym by simp
    then show ?thesis using f'(6)[of r v] r(1) v by auto
  qed
  then have "\<forall>v < g_num_nodes g. k_parents k ! v = - 1 \<longleftrightarrow> v \<in> set es" using f'(7) by blast
  moreover have "\<forall>v < g_num_nodes g. \<exists>r \<in> set es. (v, r) \<in> (parent_rel (k_parents k))\<^sup>*"
    using f'(5) calculation by (metis rtrancl.rtrancl_refl take_all order.refl)
  ultimately show ?thesis using f'(2-4) unfolding parents_ok_def by blast
qed

lemma buildParents_ok:
  fixes g :: "'w::linordered_idom dgraph"
  assumes ok: "graph_ok g" "status_ok g" and res: "kr_result g k"
  obtains k' d where "buildParents g k = Some k'" "kr_result g k'" "parents_ok g k'" "same_sets (k_sets k) d"
    "k' = k\<lparr>k_hasParents := True, k_parents := k_parents k', k_parent_edges := k_parent_edges k', k_sets := d\<rparr>"
proof -
  note result = that
  let ?n = "g_num_nodes g"
  have len: "length (k_parents k) = ?n" "length (k_parent_edges k) = ?n" using res by (simp_all add: kr_result_def)
  define k1 where "k1 = k\<lparr>k_hasParents := True, k_parents := replicate ?n (- 1), k_parent_edges := replicate ?n (- 1)\<rparr>"
  have b: "buildParents g k = parent_trees g [0..<nat (ds_numSets (k_sets k1))] k1"
    using len by (simp add: buildParents_def k1_def Let_def)
  have res1: "kr_result g k1"
    using res by (simp add: kr_result_def k1_def tree_inv_def by_weight_def edge_list_ok_def)
  have dn: "ds_ok (k_sets k1)" "cache_ok (k_sets k1)" "ds_numElements (k_sets k1) = ?n" using kr_resultD[OF res1] by blast+
  have start: "forest_inv g es 0 (k1\<lparr>k_sets := d\<rparr>)"
    if "cached es d" "transversal d es" "kr_result g (k1\<lparr>k_sets := d\<rparr>)" for es d
  proof -
    have "\<forall>r \<in> set es. r < ?n" using that(2) kr_resultD(1)[OF that(3)] by (auto simp: transversal_def)
    then show ?thesis using that by (auto simp: forest_inv_def k1_def)
  qed
  have fin: thesis if d: "same_sets (k_sets k1) d0" and f: "forest_inv g es 0 (k1\<lparr>k_sets := d0\<rparr>)"
    and run: "parent_trees g [0..<nat (ds_numSets (k_sets k1))] k1 = parent_trees g [0..<length es] (k1\<lparr>k_sets := d0\<rparr>)" for es d0
  proof -
    obtain k' d where k': "parent_trees g [0..<length es] (k1\<lparr>k_sets := d0\<rparr>) = Some k'" "forest_inv g es (length es) k'"
      "same_sets d0 d" "k' = k1\<lparr>k_sets := d0, k_parents := k_parents k', k_parent_edges := k_parent_edges k', k_sets := d\<rparr>"
      using parent_trees_ok[OF ok f] by auto
    obtain ps es' where e: "k' = k1\<lparr>k_sets := d0, k_parents := ps, k_parent_edges := es', k_sets := d\<rparr>" using k'(4) by blast
    show thesis
    proof (rule result[of k' d])
      show "k' = k\<lparr>k_hasParents := True, k_parents := k_parents k', k_parent_edges := k_parent_edges k', k_sets := d\<rparr>"
        unfolding e k1_def by simp
      show "same_sets (k_sets k) d" using same_sets_trans[OF d k'(3)] by (simp add: k1_def)
      show "buildParents g k = Some k'" using b run k'(1) by simp
    qed (use forest_invD(1)[OF k'(2)] forest_inv_parents[OF k'(2)] in blast)+
  qed
  show thesis
  proof (cases "0 < ds_numSets (k_sets k1)")
    case True
    obtain es d where g: "GetElement 0 (k_sets k1) = Some (es ! 0, d)" "same_sets (k_sets k1) d" "cached es d" "transversal d es"
      "cache_ok d" using GetElement_same[OF dn(1,2), of 0] True same_setsD(1) transversal_same by (metis of_nat_0)
    have le: "length es = nat (ds_numSets (k_sets k1))" "0 < length es"
      using g(4) True same_setsD(3)[OF g(2)] by (auto simp: transversal_def)
    have "GetElement 0 d = Some (es ! 0, d)" using GetElement_cached[OF g(3) le(2)] .
    then have "parent_trees g [0..<length es] k1 = parent_trees g [0..<length es] (k1\<lparr>k_sets := d\<rparr>)"
      using g(1) le(2) by (simp add: upt_conv_Cons)
    moreover have "kr_result g (k1\<lparr>k_sets := d\<rparr>)"
      using res1 represents_same[OF kr_resultD(2)[OF res1] g(2)] g(5) same_setsD(2)[OF g(2)]
      by (simp add: kr_result_def tree_inv_def by_weight_def edge_list_ok_def)
    ultimately show thesis using fin[OF g(2) start[OF g(3,4)]] le(1) by simp
  next
    case False
    then have n0: "?n = 0" using numSets_classes[OF dn(1)] dn(3) by (auto simp: lessThan_empty_iff)
    have m0: "nat (ds_numSets (k_sets k1)) = 0" using False by simp
    have "parents_ok g k1" unfolding parents_ok_def using n0 dn(3) False numSets_classes[OF dn(1)]
      by (intro exI[of _ "[]"]) (simp add: transversal_def)
    then show thesis
      using that[of k1 "k_sets k1"] b m0 res1 same_sets_refl[OF dn(1)] by (simp add: k1_def)
  qed
qed

end
