(* ===== verification/Kruskal_Theorems.thy ===== *)
theory Kruskal_Theorems
  imports Kruskal_Parents
begin

text \<open>
  The spanning forest over the life of a graph: what the interleaving of changes of the graph and calls of the
  algorithm keeps, and the properties of the disjoint sets and of the spanning forest.
\<close>

subsection \<open>The life of a spanning forest\<close>

text \<open>
  A client creates the algorithm for a graph and from then on changes the graph and asks the algorithm, in any
  order.  The changes are those that neither take back modifications nor remove edge ids; with \<open>fixed\<close> they do not
  change the weight of an edge that exists.
\<close>

definition keeps_weights :: "'w dgraph \<Rightarrow> 'w dgraph \<Rightarrow> bool" where
  "keeps_weights g h \<longleftrightarrow> (\<forall>e < g_next_id g. g_wt h e = g_wt g e)"

inductive kr_reachable ::
  "('w::linordered_idom list \<Rightarrow> nat list \<Rightarrow> nat list) \<Rightarrow> bool \<Rightarrow> 'w dgraph \<Rightarrow> 'w kruskal \<Rightarrow> bool" for srt fixed where
  start: "graph_reachable g \<Longrightarrow> kr_reachable srt fixed g (new_kruskal p)"
| change: "kr_reachable srt fixed g k \<Longrightarrow> graph_step g h \<Longrightarrow> g_modifications g \<le> g_modifications h \<Longrightarrow>
    g_next_id g \<le> g_next_id h \<Longrightarrow> fixed \<longrightarrow> keeps_weights g h \<Longrightarrow> kr_reachable srt fixed h k"
| update: "kr_reachable srt fixed g k \<Longrightarrow> kr_update srt g k = Some k' \<Longrightarrow> kr_reachable srt fixed g k'"
| parents: "kr_reachable srt fixed g k \<Longrightarrow> with_parents srt g k = Some k' \<Longrightarrow> kr_reachable srt fixed g k'"
| component: "kr_reachable srt fixed g k \<Longrightarrow> getComponent srt g u k = Some (s, k') \<Longrightarrow> kr_reachable srt fixed g k'"

definition current :: "'w dgraph \<Rightarrow> 'w kruskal \<Rightarrow> bool" where
  "current g k \<longleftrightarrow> k_last_modification k > 0 \<and> g_modifications g = k_last_modification k"

definition kr_inv :: "bool \<Rightarrow> 'w::linordered_idom dgraph \<Rightarrow> 'w kruskal \<Rightarrow> bool" where
  "kr_inv fixed g k \<longleftrightarrow> graph_ok g \<and> status_ok g \<and> edge_list_ok g k \<and> (fixed \<longrightarrow> by_weight g k) \<and>
     (k_last_modification k > 0 \<longrightarrow> k_last_modification k \<le> g_modifications g) \<and>
     (current g k \<longrightarrow> kr_result g k \<and> (k_hasParents k \<longrightarrow> parents_ok g k))"

lemma result_same_graph:
  assumes "same_graph g h"
  shows "kr_result h k = kr_result g k" "parents_ok h k = parents_ok g k" "by_weight h k = by_weight g k"
    "edge_list_ok h k = edge_list_ok g k"
proof -
  have e: "g_ends h = g_ends g" "enabled_edges h = enabled_edges g" "g_wt h = g_wt g"
    "g_num_nodes h = g_num_nodes g" "g_next_id h = g_next_id g"
    using assms ends_same by (auto simp: same_graph_def enabled_edges_def g_wt_def fun_eq_iff same_edges_def)
  then show "kr_result h k = kr_result g k" "parents_ok h k = parents_ok g k" "by_weight h k = by_weight g k"
    "edge_list_ok h k = edge_list_ok g k"
    by (simp_all add: kr_result_def tree_inv_def by_weight_def edge_list_ok_def parents_ok_def has_parent_def)
qed

lemma sorted_wrt_cong_set:
  "sorted_wrt P xs \<Longrightarrow> (\<And>x y. x \<in> set xs \<Longrightarrow> y \<in> set xs \<Longrightarrow> P x y \<Longrightarrow> Q x y) \<Longrightarrow> sorted_wrt Q xs"
  by (induction xs) auto

lemma kr_inv_change:
  assumes inv: "kr_inv fixed g k" and step: "graph_step g h" "g_modifications g \<le> g_modifications h" "g_next_id g \<le> g_next_id h"
    "fixed \<longrightarrow> keeps_weights g h"
  shows "kr_inv fixed h k"
proof -
  have ok: "graph_ok g" "status_ok g" "edge_list_ok g k" using inv by (auto simp: kr_inv_def)
  have s: "status_ok h" "g_modifications g < g_modifications h \<or> same_graph g h"
    using graph_step_status[OF step(1) ok(1,2)] step(2) by blast+
  have "edge_list_ok h k" using ok(3) step(3) by (simp add: edge_list_ok_def)
  moreover have "by_weight h k" if fixed
  proof -
    have "g_wt h e = g_wt g e" if "e \<in> set (k_edge_list k)" for e
      using that edge_list_facts(3)[OF ok(3)] step(4) \<open>fixed\<close> by (auto simp: keeps_weights_def)
    then show ?thesis using inv that unfolding kr_inv_def by_weight_def by (metis (no_types, lifting) sorted_wrt_cong_set)
  qed
  moreover have "kr_result h k \<and> (k_hasParents k \<longrightarrow> parents_ok h k)" if "current h k"
  proof -
    have "same_graph g h" "current g k"
      using s(2) that inv step(2) by (auto simp: current_def kr_inv_def same_graph_def)
    then show ?thesis using inv result_same_graph[of g h k] by (simp add: kr_inv_def)
  qed
  ultimately show ?thesis using inv s graph_step_ok[OF step(1) ok(1)] step(2) by (auto simp: kr_inv_def)
qed

lemma kr_inv_update:
  assumes inv: "kr_inv fixed g k" and srt: "sorting srt"
  obtains k' where "kr_update srt g k = Some k'" "kr_inv fixed g k'" "kr_result g k'" "k_hasParents k' \<longrightarrow> parents_ok g k'"
    "k_last_modification k' = g_modifications g" "current g k \<longrightarrow> k' = k\<lparr>k_skipped_updates := k_skipped_updates k + 1\<rparr>"
    "\<not> current g k \<longrightarrow> updated g k k'"
proof -
  have ok: "graph_ok g" "status_ok g" "edge_list_ok g k" using inv by (auto simp: kr_inv_def)
  show thesis
  proof (cases "current g k")
    case True
    define n where "n = k_skipped_updates k + 1"
    let ?k = "k\<lparr>k_skipped_updates := n\<rparr>"
    have e: "kr_update srt g k = Some ?k" using True by (simp add: kr_update_def current_def n_def)
    have r: "kr_result g ?k = kr_result g k" "parents_ok g ?k = parents_ok g k" "by_weight g ?k = by_weight g k"
      "edge_list_ok g ?k = edge_list_ok g k" "current g ?k = current g k"
      by (simp_all add: kr_result_def tree_inv_def by_weight_def edge_list_ok_def parents_ok_def has_parent_def current_def)
    have "kr_inv fixed g ?k" using inv by (simp add: kr_inv_def r)
    moreover have "kr_result g ?k" "k_hasParents ?k \<longrightarrow> parents_ok g ?k" "k_last_modification ?k = g_modifications g"
      using True inv r by (simp_all add: kr_inv_def current_def)
    ultimately show ?thesis using True n_def by (intro that[OF e]) blast+
  next
    case False
    obtain k' where k': "kr_update srt g k = Some k'" "kr_result g k'" "updated g k k'"
      using kr_update_ok[OF ok srt] False unfolding current_def by blast
    have "by_weight g k'" if fixed
    proof (cases "length (k_edge_list k) < g_next_id g")
      case False
      then have "k_edge_list k' = k_edge_list k" using ok(3) k'(3) by (simp add: updated_def edge_list_ok_def)
      then show ?thesis using inv that by (simp add: kr_inv_def by_weight_def)
    qed (use k'(3) in \<open>simp add: updated_def\<close>)
    then have "kr_inv fixed g k'" using ok k' by (simp add: kr_inv_def updated_def kr_result_def)
    then show ?thesis using that[OF k'(1)] k'(2,3) False by (simp add: updated_def)
  qed
qed

lemma kr_inv_parents:
  assumes inv: "kr_inv fixed g k" and srt: "sorting srt"
  obtains k' where "with_parents srt g k = Some k'" "kr_inv fixed g k'" "kr_result g k'" "k_hasParents k'" "parents_ok g k'"
    "k_last_modification k' = g_modifications g" "current g k \<and> k_hasParents k \<longrightarrow> k' = k\<lparr>k_skipped_updates := k_skipped_updates k + 1\<rparr>"
proof -
  obtain k1 where k1: "kr_update srt g k = Some k1" "kr_inv fixed g k1" "kr_result g k1" "k_hasParents k1 \<longrightarrow> parents_ok g k1"
    "k_last_modification k1 = g_modifications g" "current g k \<longrightarrow> k1 = k\<lparr>k_skipped_updates := k_skipped_updates k + 1\<rparr>"
    using kr_inv_update[OF assms] by metis
  show thesis
  proof (cases "k_hasParents k1")
    case True
    then show ?thesis using that[of k1] k1 by (simp add: with_parents_def)
  next
    case False
    have ok: "graph_ok g" "status_ok g" using inv by (auto simp: kr_inv_def)
    obtain k' d where k': "buildParents g k1 = Some k'" "kr_result g k'" "parents_ok g k'"
      "k' = k1\<lparr>k_hasParents := True, k_parents := k_parents k', k_parent_edges := k_parent_edges k', k_sets := d\<rparr>"
      using buildParents_ok[OF ok k1(3)] by metis
    obtain ps es where e: "k' = k1\<lparr>k_hasParents := True, k_parents := ps, k_parent_edges := es, k_sets := d\<rparr>" using k'(4) by blast
    have f: "k_edge_list k' = k_edge_list k1" "k_last_modification k' = k_last_modification k1" "k_hasParents k'"
      unfolding e by simp_all
    have "kr_inv fixed g k'" using k1(2) k'(2,3) f by (simp add: kr_inv_def by_weight_def edge_list_ok_def)
    moreover have "\<not> (current g k \<and> k_hasParents k)" using k1(6) False by auto
    moreover have "with_parents srt g k = Some k'" "k_last_modification k' = g_modifications g"
      using k'(1) k1(1,5) f(2) False by (simp_all add: with_parents_def)
    ultimately show ?thesis using k'(2,3) f(3) by (intro that[of k']) blast+
  qed
qed

lemma kr_inv_sets:
  assumes inv: "kr_inv fixed g k" and res: "kr_result g k" and par: "k_hasParents k \<longrightarrow> parents_ok g k"
    and d: "same_sets (k_sets k) d" "ds_elements d = ds_elements (k_sets k)"
  shows "kr_inv fixed g (k\<lparr>k_sets := d\<rparr>)"
proof -
  have "parents_ok g (k\<lparr>k_sets := d\<rparr>)" if p: "parents_ok g k"
  proof -
    have "has_parent g (k\<lparr>k_sets := d\<rparr>) = has_parent g k" by (simp add: has_parent_def fun_eq_iff)
    then show ?thesis
      using p transversal_same[OF _ d(1)] cached_same[OF _ d] same_setsD(3)[OF d(1)] unfolding parents_ok_def
      by simp blast
  qed
  then show ?thesis
    using inv par kr_result_sets[OF res d] by (simp add: kr_inv_def current_def by_weight_def edge_list_ok_def)
qed

lemma new_kruskal_inv: "graph_reachable g \<Longrightarrow> kr_inv fixed g (new_kruskal p)"
  using reachable_graph_ok[of g] reachable_status_ok[of g]
  by (simp add: kr_inv_def new_kruskal_def current_def edge_list_ok_def by_weight_def)

lemma kr_reachable_inv:
  assumes "kr_reachable srt fixed g k" "sorting srt"
  shows "kr_inv fixed g k"
  using assms(1)
proof (induction rule: kr_reachable.induct)
  case (start g p)
  then show ?case by (rule new_kruskal_inv)
next
  case (change g k h)
  then show ?case using kr_inv_change by blast
next
  case (update g k k')
  then show ?case using kr_inv_update[OF update.IH assms(2)] by (metis option.inject)
next
  case (parents g k k')
  then show ?case using kr_inv_parents[OF parents.IH assms(2)] by (metis option.inject)
next
  case (component g k u s k')
  obtain k1 where k1: "kr_update srt g k = Some k1" "kr_inv fixed g k1" "kr_result g k1" "k_hasParents k1 \<longrightarrow> parents_ok g k1"
    using kr_inv_update[OF component.IH assms(2)] by metis
  obtain ds where ds: "FindSet u (k_sets k1) = Some (s, ds)" "k' = k1\<lparr>k_sets := ds\<rparr>"
    using component.hyps(2) k1(1) by (auto simp: getComponent_def bind_eq_Some_conv)
  have "u < ds_numElements (k_sets k1)" using ds(1) by (auto simp: FindSet_def bind_eq_Some_conv)
  then obtain d where "FindSet u (k_sets k1) = Some (ds_set (k_sets k1) u, d)" "same_sets (k_sets k1) d"
    "ds_elements d = ds_elements (k_sets k1)" using FindSet_same[OF kr_resultD(3)[OF k1(3)]] by blast
  then show ?case using kr_inv_sets[OF k1(2-4)] ds by simp
qed

subsection \<open>A triangle\<close>

definition triangle :: "int dgraph" where
  "triangle = snd (the (addEdge 0 2 None 3 (snd (the (addEdge 1 2 None 2 (snd (the (addEdge 0 1 None 1 (addNodes 3 new_graph)))))))))"

abbreviation key_sort :: "int list \<Rightarrow> nat list \<Rightarrow> nat list" where
  "key_sort \<equiv> \<lambda>ws. sort_key (\<lambda>i. ws ! i)"

lemma triangle_reachable: "graph_reachable triangle"
  unfolding triangle_def
  by (intro addEdge_reachable addNodes_reachable graph_reachable.start) code_simp+

lemma triangle_facts: "g_num_nodes triangle = 3 \<and> g_next_id triangle = 3 \<and> 0 < g_modifications triangle" by code_simp

lemma triangle_run: "map_option k_mst (kr_update key_sort triangle (new_kruskal 0)) = Some [0, 1]"
  by code_simp

lemma triangle_roots: "map_option (\<lambda>(u, k). (u, k_parents k)) (getRoot key_sort triangle 0 (new_kruskal 0)) = Some (0, [- 1, 0, 1])"
  by code_simp

lemma sorting_sort_key: "sorting (\<lambda>ws. sort_key (\<lambda>i. (ws :: 'w::linorder list) ! i))"
  unfolding sorting_def by (simp add: sorted_sort_key sorted_wrt_map[symmetric] flip: sorted_wrt_map)

lemma triangle_kruskal: "kr_reachable key_sort fixed triangle (new_kruskal 0)"
  using kr_reachable.start[OF triangle_reachable] .

subsection \<open>Properties\<close>

lemma result_tree:
  assumes "kr_result g k"
  shows "distinct (k_mst k)" "spanning_forest (g_ends g) (enabled_edges g) (set (k_mst k))" "length (k_in_tree k) = g_next_id g"
    "\<And>e. e < g_next_id g \<Longrightarrow> k_in_tree k ! e = (e \<in> set (k_mst k))" "k_min_weight k = sum (g_wt g) (set (k_mst k))"
    "ds_numSets (k_sets k) = int (comps (g_ends g) (g_num_nodes g) (enabled_edges g))"
    "conn (g_ends g) (set (k_mst k)) = conn (g_ends g) (enabled_edges g)"
    "\<And>u v. u < g_num_nodes g \<Longrightarrow> v < g_num_nodes g \<Longrightarrow> same_set (k_sets k) u v = conn (g_ends g) (enabled_edges g) u v"
proof -
  have t: "tree_inv g (by_weight g k) UNIV k" using assms by (simp add: kr_result_def)
  note i = tree_invD[OF t]
  show "distinct (k_mst k)" "length (k_in_tree k) = g_next_id g" "k_min_weight k = sum (g_wt g) (set (k_mst k))"
    "\<And>e. e < g_next_id g \<Longrightarrow> k_in_tree k ! e = (e \<in> set (k_mst k))" using i by blast+
  show s: "spanning_forest (g_ends g) (enabled_edges g) (set (k_mst k))" using i(4) by simp
  then show c: "conn (g_ends g) (set (k_mst k)) = conn (g_ends g) (enabled_edges g)" by (simp add: spanning_forest_def)
  show "ds_numSets (k_sets k) = int (comps (g_ends g) (g_num_nodes g) (enabled_edges g))"
    using dsets.represents_sets[OF i(2)] i(1) c by (simp add: comps_def)
  show "same_set (k_sets k) u v = conn (g_ends g) (enabled_edges g) u v" if "u < g_num_nodes g" "v < g_num_nodes g" for u v
    using dsets.representsD[OF i(2), of u v] i(1) that c by simp
qed

lemma result_minimal:
  assumes "graph_ok g" "status_ok g" "kr_result g k" "by_weight g k"
  shows "min_spanning_forest (g_ends g) (g_wt g) (enabled_edges g) (set (k_mst k))"
proof (rule least_weight[OF enabled_within[OF assms(1,2)] result_tree(2)[OF assms(3)]])
  have "tree_inv g True UNIV k" using assms(3,4) by (simp add: kr_result_def)
  then show "conn (g_ends g) (up_to (g_wt g) w (set (k_mst k))) = conn (g_ends g) (up_to (g_wt g) w (enabled_edges g))" for w
    using tree_invD(8)[of g True UNIV k w] by simp
qed





lemma with_parents_again:
  assumes "with_parents srt g k = Some k1" "k_hasParents k1" "k_last_modification k1 = g_modifications g" "0 < g_modifications g"
  shows "with_parents srt g k1 = Some (k1\<lparr>k_skipped_updates := k_skipped_updates k1 + 1\<rparr>)"
  using assms by (simp add: with_parents_def kr_update_def)



lemma stale_run:
  "let h = the (setEdgeWeight 2 0 triangle); k = the (kr_update key_sort triangle (new_kruskal 0)); k' = the (kr_update key_sort h k);
       f = the (kr_update key_sort h (new_kruskal 0))
   in setEdgeWeight 2 0 triangle = Some h \<and> kr_update key_sort triangle (new_kruskal 0) = Some k \<and> kr_update key_sort h k = Some k' \<and>
     kr_update key_sort h (new_kruskal 0) = Some f \<and> k_mst k' = [0, 1] \<and> k_mst f = [2, 0] \<and> k_min_weight k' = 3 \<and> k_min_weight f = 1 \<and>
     g_modifications triangle < g_modifications h \<and> g_next_id triangle = g_next_id h"
  by code_simp

text \<open>After the weight of an edge has been changed, an update may leave a spanning forest that is not minimal: the edges are
  sorted again only when there are more of them. On the triangle with the weights 1, 2, 3 the third weight is
  lowered to 0; the algorithm brought up to date keeps the tree of weight 3, a new one finds the tree of weight 1.\<close>

theorem kruskal_stale_weights:
  "\<exists>h k k' f. setEdgeWeight 2 0 triangle = Some h \<and> kr_update key_sort triangle (new_kruskal 0) = Some k \<and>
     kr_reachable key_sort False h k \<and> kr_update key_sort h k = Some k' \<and> k_min_weight k' = 3 \<and>
     \<not> min_spanning_forest (g_ends h) (g_wt h) (enabled_edges h) (set (k_mst k')) \<and>
     kr_update key_sort h (new_kruskal 0) = Some f \<and> k_min_weight f = 1"
proof -
  obtain h k k' f where r: "setEdgeWeight 2 0 triangle = Some h" "kr_update key_sort triangle (new_kruskal 0) = Some k"
    "kr_update key_sort h k = Some k'" "kr_update key_sort h (new_kruskal 0) = Some f" "k_mst k' = [0, 1]" "k_mst f = [2, 0]"
    "k_min_weight k' = 3" "k_min_weight f = 1" "g_modifications triangle < g_modifications h" "g_next_id triangle = g_next_id h"
    using stale_run unfolding Let_def by blast
  have step: "graph_step triangle h" using graph_step.weight[OF r(1)] .
  have k: "kr_reachable key_sort False h k"
    using kr_reachable.change[OF kr_reachable.update[OF triangle_kruskal r(2)] step] r(9,10) by simp
  have f0: "kr_reachable key_sort False h (new_kruskal 0)"
    using kr_reachable.start graph_reachable.step[OF triangle_reachable step] by blast
  note srt = sorting_sort_key
  have "kr_result h k'" using kr_inv_update[OF kr_reachable_inv[OF k srt] srt] r(3) by (metis option.inject)
  then have wk: "sum (g_wt h) (set (k_mst k')) = 3" using result_tree(5) r(7) by metis
  have "kr_result h f" using kr_inv_update[OF kr_reachable_inv[OF f0 srt] srt] r(4) by (metis option.inject)
  then have "spanning_forest (g_ends h) (enabled_edges h) (set (k_mst f))" "sum (g_wt h) (set (k_mst f)) = 1"
    using result_tree(2,5) r(8) by metis+
  then have "\<not> min_spanning_forest (g_ends h) (g_wt h) (enabled_edges h) (set (k_mst k'))"
    using wk unfolding min_spanning_forest_def by fastforce
  then show ?thesis using r(1-4,7,8) k by blast
qed

end
