(* ===== verification/Floyd_Warshall.thy ===== *)
theory Floyd_Warshall
  imports Graphs
begin

text \<open>
  \<open>dgl/FloydWarshall.h\<close>: the distances, in edges, between all pairs of nodes over the enabled edges of a dynamic graph, and
  shortest paths.  Distances are natural numbers; the calls of the status object are recorded in \<open>fw_reports\<close>, one
  entry for the pair of calls \<open>setReachable\<close> and \<open>setMininumDistance\<close>.  Timers and the empty debugging functions are left
  out.  A failed assertion and an index outside a vector have no result.
\<close>

subsection \<open>State\<close>

record floyd_warshall =
  fw_last_modification :: int
  fw_last_addition :: int
  fw_last_deletion :: int
  fw_history_qhead :: int
  fw_last_history_clear :: int
  fw_sources :: "nat list"
  fw_INF :: nat
  fw_order :: "nat list"
  fw_polarity :: int
  fw_dist :: "nat list list"
  fw_next :: "int list list"
  fw_full_updates :: nat
  fw_skipped_updates :: nat
  fw_skipable_deletions :: nat
  fw_num_updates :: nat
  fw_reports :: "(nat \<times> nat \<times> bool \<times> nat) list"

text \<open>The constructor initialises \<open>reportPolarity\<close> with 0, not with its argument.\<close>

definition new_floyd_warshall :: "int \<Rightarrow> floyd_warshall" where
  "new_floyd_warshall polarity = \<lparr>fw_last_modification = - 1, fw_last_addition = - 1, fw_last_deletion = - 1,
     fw_history_qhead = 0, fw_last_history_clear = 0, fw_sources = [], fw_INF = 0, fw_order = [], fw_polarity = 0,
     fw_dist = [], fw_next = [], fw_full_updates = 0, fw_skipped_updates = 0, fw_skipable_deletions = 0,
     fw_num_updates = 0, fw_reports = []\<rparr>"

definition fw_addSource :: "nat \<Rightarrow> floyd_warshall \<Rightarrow> floyd_warshall option" where
  "fw_addSource s fw = do {
     check (s \<notin> set (fw_sources fw));
     Some (fw\<lparr>fw_sources := fw_sources fw @ [s], fw_last_modification := - 1, fw_last_addition := - 1,
       fw_last_deletion := - 1\<rparr>) }"

definition grow_matrix :: "nat \<Rightarrow> 'a \<Rightarrow> 'a list list \<Rightarrow> 'a list list" where
  "grow_matrix n x m = (if length m < n then map (resize_to n x) (resize_to n [] m) else m)"

definition fw_setNodes :: "'w dgraph \<Rightarrow> nat \<Rightarrow> floyd_warshall \<Rightarrow> floyd_warshall" where
  "fw_setNodes g n fw = fw\<lparr>fw_order := [0..<n], fw_INF := g_num_nodes g + 1,
     fw_dist := grow_matrix n 0 (fw_dist fw), fw_next := grow_matrix n 0 (fw_next fw)\<rparr>"

subsection \<open>The matrices\<close>

definition get2 :: "'a list list \<Rightarrow> nat \<Rightarrow> nat \<Rightarrow> 'a option" where
  "get2 m i j = do { r \<leftarrow> get_at m i; get_at r j }"

definition set2 :: "'a list list \<Rightarrow> nat \<Rightarrow> nat \<Rightarrow> 'a \<Rightarrow> 'a list list option" where
  "set2 m i j x = do { r \<leftarrow> get_at m i; r \<leftarrow> set_at r j x; set_at m i r }"

type_synonym fw_state = "nat list list \<times> int list list"

fun clear_row :: "nat \<Rightarrow> nat \<Rightarrow> nat list \<Rightarrow> fw_state \<Rightarrow> fw_state option" where
  "clear_row infty i [] st = Some st"
| "clear_row infty i (j # js) (d, nx) = do {
     nx \<leftarrow> set2 nx i j (- 1);
     d \<leftarrow> set2 d i j infty;
     clear_row infty i js (d, nx) }"

fun clear_rows :: "nat \<Rightarrow> nat \<Rightarrow> nat list \<Rightarrow> fw_state \<Rightarrow> fw_state option" where
  "clear_rows infty n [] st = Some st"
| "clear_rows infty n (i # is) st = do {
     (d, nx) \<leftarrow> clear_row infty i [0..<n] st;
     d \<leftarrow> set2 d i i 0;
     clear_rows infty n is (d, nx) }"

fun enter_edges :: "'w dgraph \<Rightarrow> nat list \<Rightarrow> nat list list \<Rightarrow> nat list list option" where
  "enter_edges g [] d = Some d"
| "enter_edges g (e # es) d =
     (if \<not> isEdge g e then enter_edges g es d
      else do {
        b \<leftarrow> edgeEnabled g e;
        if \<not> b then enter_edges g es d
        else do {
          u \<leftarrow> node_of (fe_from (g_all_edges g ! e));
          v \<leftarrow> node_of (fe_to (g_all_edges g ! e));
          if u \<noteq> v then do { d \<leftarrow> set2 d u v 1; enter_edges g es d } else enter_edges g es d } })"

definition relax :: "nat \<Rightarrow> nat \<Rightarrow> nat \<Rightarrow> fw_state \<Rightarrow> fw_state option" where
  "relax k i j = (\<lambda>(d, nx). do {
     a \<leftarrow> get2 d i k;
     b \<leftarrow> get2 d k j;
     c \<leftarrow> get2 d i j;
     if a + b < c then do { d \<leftarrow> set2 d i j (a + b); nx \<leftarrow> set2 nx i j (int k); Some (d, nx) }
     else Some (d, nx) })"

fun relax_cells :: "nat \<Rightarrow> (nat \<times> nat) list \<Rightarrow> fw_state \<Rightarrow> fw_state option" where
  "relax_cells k [] st = Some st"
| "relax_cells k ((i, j) # cs) st = do { st \<leftarrow> relax k i j st; relax_cells k cs st }"

text \<open>The order of the two inner loops.\<close>

definition all_cells :: "nat \<Rightarrow> (nat \<times> nat) list" where
  "all_cells n = concat (map (\<lambda>i. map (\<lambda>j. (i, j)) [0..<n]) [0..<n])"

fun relax_all :: "nat \<Rightarrow> nat list \<Rightarrow> fw_state \<Rightarrow> fw_state option" where
  "relax_all n [] st = Some st"
| "relax_all n (k # ks) st = do { st \<leftarrow> relax_cells k (all_cells n) st; relax_all n ks st }"

subsection \<open>The update\<close>

fun fw_report_row :: "nat \<Rightarrow> nat list \<Rightarrow> floyd_warshall \<Rightarrow> floyd_warshall option" where
  "fw_report_row s [] fw = Some fw"
| "fw_report_row s (u # us) fw = do {
     d \<leftarrow> get2 (fw_dist fw) s u;
     fw_report_row s us
       (if d \<ge> fw_INF fw \<and> fw_polarity fw < 1 then fw\<lparr>fw_reports := fw_reports fw @ [(s, u, False, fw_INF fw)]\<rparr>
        else if d < fw_INF fw \<and> fw_polarity fw > - 1 then fw\<lparr>fw_reports := fw_reports fw @ [(s, u, True, d)]\<rparr>
        else fw) }"

fun fw_report_all :: "nat list \<Rightarrow> floyd_warshall \<Rightarrow> floyd_warshall option" where
  "fw_report_all [] fw = Some fw"
| "fw_report_all (s # ss) fw = do { fw \<leftarrow> fw_report_row s [0..<length (fw_order fw)] fw; fw_report_all ss fw }"

definition fw_update :: "'w dgraph \<Rightarrow> floyd_warshall \<Rightarrow> floyd_warshall option" where
  "fw_update g fw = (let fw = fw\<lparr>fw_full_updates := fw_full_updates fw + 1\<rparr> in
     if fw_last_modification fw > 0 \<and> g_modifications g = fw_last_modification fw then
       Some (fw\<lparr>fw_skipped_updates := fw_skipped_updates fw + 1\<rparr>)
     else do {
       let fw = (if fw_last_deletion fw = g_deletions g then fw\<lparr>fw_skipable_deletions := fw_skipable_deletions fw + 1\<rparr> else fw);
       let n = g_num_nodes g;
       let fw = fw_setNodes g n fw;
       (d, nx) \<leftarrow> clear_rows (fw_INF fw) n [0..<n] (fw_dist fw, fw_next fw);
       d \<leftarrow> enter_edges g [0..<g_num_edges g] d;
       (d, nx) \<leftarrow> relax_all n [0..<n] (d, nx);
       fw \<leftarrow> fw_report_all (fw_sources fw) (fw\<lparr>fw_dist := d, fw_next := nx\<rparr>);
       Some (fw\<lparr>fw_num_updates := fw_num_updates fw + 1, fw_last_modification := g_modifications g,
         fw_last_deletion := g_deletions g, fw_last_addition := g_additions g, fw_history_qhead := historySize g,
         fw_last_history_clear := g_historyclears g\<rparr>) })"

subsection \<open>Queries\<close>

partial_function (option) path_between :: "floyd_warshall \<Rightarrow> nat \<Rightarrow> nat \<Rightarrow> nat list \<Rightarrow> nat list option" where
  "path_between fw from to path = do {
     d \<leftarrow> get2 (fw_dist fw) from to;
     check (d < fw_INF fw);
     k \<leftarrow> get2 (fw_next fw) from to;
     if k > - 1 then do {
       path \<leftarrow> path_between fw from (nat k) path;
       path_between fw (nat k) to (path @ [nat k]) }
     else Some path }"

declare path_between.simps [code]

definition getPath :: "'w dgraph \<Rightarrow> nat \<Rightarrow> nat \<Rightarrow> nat list \<Rightarrow> floyd_warshall \<Rightarrow> (nat list \<times> floyd_warshall) option" where
  "getPath g from to path fw = do {
     fw \<leftarrow> fw_update g fw;
     path \<leftarrow> path_between fw from to (path @ [from]);
     check (last path \<noteq> to);
     Some (path @ [to], fw) }"

definition fw_connected_unsafe :: "nat \<Rightarrow> nat \<Rightarrow> floyd_warshall \<Rightarrow> bool option" where
  "fw_connected_unsafe from t fw = do { d \<leftarrow> get2 (fw_dist fw) from t; Some (d < fw_INF fw) }"

definition fw_connected_unchecked :: "'w dgraph \<Rightarrow> nat \<Rightarrow> nat \<Rightarrow> floyd_warshall \<Rightarrow> bool option" where
  "fw_connected_unchecked g from t fw = do { check (fw_last_modification fw = g_modifications g); fw_connected_unsafe from t fw }"

definition fw_connected :: "'w dgraph \<Rightarrow> nat \<Rightarrow> nat \<Rightarrow> floyd_warshall \<Rightarrow> (bool \<times> floyd_warshall) option" where
  "fw_connected g from t fw = do {
     fw \<leftarrow> (if fw_last_modification fw \<noteq> g_modifications g then fw_update g fw else Some fw);
     d \<leftarrow> get2 (fw_dist fw) from t;
     Some (d < fw_INF fw, fw) }"

definition fw_distance :: "'w dgraph \<Rightarrow> nat \<Rightarrow> nat \<Rightarrow> floyd_warshall \<Rightarrow> (nat \<times> floyd_warshall) option" where
  "fw_distance g from t fw = do {
     (b, fw) \<leftarrow> fw_connected g from t fw;
     if b then do { d \<leftarrow> get2 (fw_dist fw) from t; Some (d, fw) } else Some (fw_INF fw, fw) }"

definition fw_distance_unsafe :: "nat \<Rightarrow> nat \<Rightarrow> floyd_warshall \<Rightarrow> nat option" where
  "fw_distance_unsafe from t fw = do {
     b \<leftarrow> fw_connected_unsafe from t fw;
     if b then get2 (fw_dist fw) from t else Some (fw_INF fw) }"

end
