(* ===== verification/Floyd_Warshall_Theorems.thy ===== *)
theory Floyd_Warshall_Theorems
  imports Floyd_Warshall Graph_Edges
begin

text \<open>
  The matrices of \<open>FloydWarshall\<close> hold the shortest distances: bounds from below by the walks found so far and from above by
  the walks over the first nodes, the paths read off the matrix of intermediate nodes, and the queries.
\<close>

subsection \<open>Walks\<close>

definition edge_step :: "'w dgraph \<Rightarrow> (nat \<times> nat) set" where
  "edge_step g = {(u, v). \<exists>e \<in> enabled_edges g. g_ends g e = (u, v)}"

definition shortest :: "(nat \<times> nat) set \<Rightarrow> nat \<Rightarrow> nat \<Rightarrow> nat \<Rightarrow> bool" where
  "shortest R i j m \<longleftrightarrow> (i, j) \<in> R ^^ m \<and> (\<forall>m'. (i, j) \<in> R ^^ m' \<longrightarrow> m \<le> m')"

text \<open>A walk of length \<open>m\<close> whose inner nodes are below \<open>k\<close>.\<close>

definition walk_below :: "(nat \<times> nat) set \<Rightarrow> nat \<Rightarrow> nat \<Rightarrow> nat \<Rightarrow> nat \<Rightarrow> bool" where
  "walk_below R k i j m \<longleftrightarrow> (\<exists>f. f 0 = i \<and> f m = j \<and> (\<forall>t < m. (f t, f (Suc t)) \<in> R) \<and> (\<forall>t. 0 < t \<and> t < m \<longrightarrow> f t < k))"

lemma walk_below_0: "walk_below R 0 i j m \<Longrightarrow> i = j \<and> m = 0 \<or> (i, j) \<in> R \<and> m = 1"
proof -
  assume "walk_below R 0 i j m"
  then obtain f where f: "f 0 = i" "f m = j" "\<forall>t < m. (f t, f (Suc t)) \<in> R" "\<forall>t. 0 < t \<and> t < m \<longrightarrow> f t < (0::nat)"
    unfolding walk_below_def by blast
  have "\<not> 1 < m" using f(4) by (metis less_one not_less_zero)
  then show ?thesis using f(1-3) by (cases m) auto
qed

lemma walk_below_Suc:
  assumes "walk_below R (Suc k) i j m"
  shows "walk_below R k i j m \<or> (\<exists>a b. walk_below R k i k a \<and> walk_below R k k j b \<and> a + b \<le> m)"
proof -
  obtain f where f: "f 0 = i" "f m = j" "\<And>t. t < m \<Longrightarrow> (f t, f (Suc t)) \<in> R" "\<And>t. 0 < t \<Longrightarrow> t < m \<Longrightarrow> f t < Suc k"
    using assms unfolding walk_below_def by blast
  let ?K = "{t. 0 < t \<and> t < m \<and> f t = k}"
  show ?thesis
  proof (cases "?K = {}")
    case True
    then have "\<forall>t. 0 < t \<and> t < m \<longrightarrow> f t < k" using f(4) by (auto simp: less_Suc_eq)
    then show ?thesis using f(1-3) unfolding walk_below_def by blast
  next
    case False
    have fin: "finite ?K" by simp
    define a b where "a = Min ?K" and "b = Max ?K"
    have ab: "a \<in> ?K" "b \<in> ?K" using Min_in[OF fin False] Max_in[OF fin False] by (simp_all only: a_def b_def)
    have le: "a \<le> t \<and> t \<le> b" if "t \<in> ?K" for t using Min_le[OF fin that] Max_ge[OF fin that] by (simp only: a_def b_def)
    have "f t < k" if "0 < t" "t < a" for t
      using f(4)[OF that(1)] le[of t] that ab(1) by (fastforce simp: less_Suc_eq)
    then have 1: "walk_below R k i k a" using f(1,3) ab(1) unfolding walk_below_def by (intro exI[of _ f]) auto
    have "f (b + t) < k" if "0 < t" "t < m - b" for t
      using f(4)[of "b + t"] le[of "b + t"] that ab(2) by (fastforce simp: less_Suc_eq)
    then have 2: "walk_below R k k j (m - b)"
      using f(2,3) ab(2) unfolding walk_below_def by (intro exI[of _ "\<lambda>t. f (b + t)"]) auto
    have "a + (m - b) \<le> m" using le[OF ab(1)] ab(2) by simp
    then show ?thesis using 1 2 by blast
  qed
qed

lemma walk_below_all:
  assumes "(i, j) \<in> R ^^ m" "R \<subseteq> {..<n} \<times> {..<n}"
  shows "walk_below R n i j m"
proof -
  obtain f where f: "f 0 = i" "f m = j" "\<forall>t < m. (f t, f (Suc t)) \<in> R" using assms(1) unfolding relpow_fun_conv by blast
  then have "\<forall>t. 0 < t \<and> t < m \<longrightarrow> f t < n" using assms(2) by blast
  then show ?thesis using f unfolding walk_below_def by blast
qed

text \<open>A shortest walk visits no node twice.\<close>

lemma shortest_short:
  assumes s: "shortest R i j m" and n: "R \<subseteq> {..<n} \<times> {..<n}" "i < n"
  shows "m < n"
proof -
  obtain f where f: "f 0 = i" "f m = j" "\<And>t. t < m \<Longrightarrow> (f t, f (Suc t)) \<in> R"
    using s unfolding shortest_def relpow_fun_conv by blast
  have walk: "(f a, f (a + d)) \<in> R ^^ d" if "a + d \<le> m" for a d
    unfolding relpow_fun_conv using f(3) that by (intro exI[of _ "\<lambda>t. f (a + t)"]) simp
  have "inj_on f {..m}"
  proof (rule linorder_inj_onI)
    fix a b assume ab: "a < b" "a \<in> {..m}" "b \<in> {..m}"
    show "f a \<noteq> f b"
    proof
      assume e: "f a = f b"
      have "(i, f a) \<in> R ^^ a" "(f b, j) \<in> R ^^ (m - b)" using walk[of 0 a] walk[of b "m - b"] f(1,2) ab by auto
      then have "(i, j) \<in> R ^^ (a + (m - b))" using e by (auto simp: relpow_add)
      then have "m \<le> a + (m - b)" using s by (simp add: shortest_def)
      then show False using ab by simp
    qed
  qed auto
  moreover have "f ` {..m} \<subseteq> {..<n}"
  proof
    fix x assume "x \<in> f ` {..m}"
    then obtain t where t: "t \<le> m" "x = f t" by auto
    show "x \<in> {..<n}"
    proof (cases t)
      case 0
      then show ?thesis using t f(1) n(2) by simp
    next
      case (Suc u)
      then show ?thesis using f(3)[of u] t n(1) by auto
    qed
  qed
  ultimately have "card {..m} \<le> card {..<n}" by (metis card_image card_mono finite_lessThan)
  then show ?thesis by simp
qed

lemma shortest_exists: "(i, j) \<in> R\<^sup>* \<Longrightarrow> \<exists>m. shortest R i j m"
proof -
  assume "(i, j) \<in> R\<^sup>*"
  then obtain m where "(i, j) \<in> R ^^ m" by (auto dest: rtrancl_imp_relpow)
  then have "(i, j) \<in> R ^^ (LEAST m. (i, j) \<in> R ^^ m)" by (rule LeastI)
  then show ?thesis unfolding shortest_def by (meson Least_le)
qed

lemma edge_step_within: "graph_ok g \<Longrightarrow> status_ok g \<Longrightarrow> edge_step g \<subseteq> {..<g_num_nodes g} \<times> {..<g_num_nodes g}"
  using enabled_facts(5,6)[of g] by (force simp: edge_step_def)

subsection \<open>Matrices\<close>

definition square :: "nat \<Rightarrow> 'a list list \<Rightarrow> bool" where
  "square n m \<longleftrightarrow> n \<le> length m \<and> (\<forall>r \<in> set m. length r = length m)"

lemma square_grow: "square (length m) m \<Longrightarrow> square n (grow_matrix n x m)"
  by (auto simp: square_def grow_matrix_def)

lemma get2_square: "square n m \<Longrightarrow> i < n \<Longrightarrow> j < n \<Longrightarrow> get2 m i j = Some (m ! i ! j)"
  by (auto simp: square_def get2_def)

lemma set2_square:
  assumes "square n m" "i < n" "j < n"
  shows "set2 m i j x = Some (m[i := (m ! i)[j := x]])" "square n (m[i := (m ! i)[j := x]])"
    "\<And>a b. a < n \<Longrightarrow> b < n \<Longrightarrow> m[i := (m ! i)[j := x]] ! a ! b = (if a = i \<and> b = j then x else m ! a ! b)"
proof -
  have l: "i < length m" "j < length (m ! i)" "length (m ! i) = length m" using assms by (auto simp: square_def)
  show "set2 m i j x = Some (m[i := (m ! i)[j := x]])" using l by (simp add: set2_def)
  show "square n (m[i := (m ! i)[j := x]])"
    using assms(1) l(3) set_update_subset_insert[of m i "(m ! i)[j := x]"] by (auto simp: square_def)
  show "m[i := (m ! i)[j := x]] ! a ! b = (if a = i \<and> b = j then x else m ! a ! b)" if "a < n" "b < n" for a b
    using l by (auto simp: nth_list_update)
qed

subsection \<open>Preparing the matrices\<close>

lemma clear_row_ok:
  assumes "square n d" "square n nx" "i < n" "set js \<subseteq> {..<n}"
  obtains d' nx' where "clear_row I i js (d, nx) = Some (d', nx')" "square n d'" "square n nx'"
    "\<And>a b. a < n \<Longrightarrow> b < n \<Longrightarrow> d' ! a ! b = (if a = i \<and> b \<in> set js then I else d ! a ! b) \<and>
       nx' ! a ! b = (if a = i \<and> b \<in> set js then - 1 else nx ! a ! b)"
  using assms
proof (induction js arbitrary: d nx thesis)
  case Nil
  then show ?case by simp
next
  case (Cons j js)
  have j: "j < n" using Cons.prems(5) by simp
  let ?d = "d[i := (d ! i)[j := I]]" and ?nx = "nx[i := (nx ! i)[j := - 1]]"
  note sd = set2_square[OF Cons.prems(2) Cons.prems(4) j, where x = I] and sn = set2_square[OF Cons.prems(3) Cons.prems(4) j, where x = "- 1"]
  obtain d' nx' where r: "clear_row I i js (?d, ?nx) = Some (d', nx')" "square n d'" "square n nx'"
    "\<And>a b. a < n \<Longrightarrow> b < n \<Longrightarrow> d' ! a ! b = (if a = i \<and> b \<in> set js then I else ?d ! a ! b) \<and>
       nx' ! a ! b = (if a = i \<and> b \<in> set js then - 1 else ?nx ! a ! b)"
    using Cons.IH[OF _ sd(2) sn(2) Cons.prems(4)] Cons.prems(5) by auto
  show ?case
    by (rule Cons.prems(1)[of d' nx']) (use r sd(1,3) sn(1,3) in auto)
qed

lemma clear_rows_ok:
  assumes "square n d" "square n nx" "set is \<subseteq> {..<n}" "distinct is"
  obtains d' nx' where "clear_rows I n is (d, nx) = Some (d', nx')" "square n d'" "square n nx'"
    "\<forall>a < n. \<forall>b < n. d' ! a ! b = (if a \<in> set is then (if a = b then 0 else I) else d ! a ! b) \<and>
       nx' ! a ! b = (if a \<in> set is then - 1 else nx ! a ! b)"
  using assms
proof (induction "is" arbitrary: d nx thesis)
  case Nil
  then show ?case by simp
next
  case (Cons i "is")
  have i: "i < n" "i \<notin> set is" using Cons.prems(4,5) by auto
  obtain d1 nx1 where r1: "clear_row I i [0..<n] (d, nx) = Some (d1, nx1)" "square n d1" "square n nx1"
    "\<And>a b. a < n \<Longrightarrow> b < n \<Longrightarrow> d1 ! a ! b = (if a = i \<and> b \<in> set [0..<n] then I else d ! a ! b) \<and>
       nx1 ! a ! b = (if a = i \<and> b \<in> set [0..<n] then - 1 else nx ! a ! b)"
    using clear_row_ok[OF Cons.prems(2,3) i(1), of "[0..<n]" I] by (metis atLeast0LessThan order_refl set_upt)
  note s = set2_square[OF r1(2) i(1) i(1), where x = 0]
  obtain d' nx' where r: "clear_rows I n is (d1[i := (d1 ! i)[i := 0]], nx1) = Some (d', nx')" "square n d'" "square n nx'"
    "\<forall>a < n. \<forall>b < n. d' ! a ! b = (if a \<in> set is then (if a = b then 0 else I) else d1[i := (d1 ! i)[i := 0]] ! a ! b) \<and>
       nx' ! a ! b = (if a \<in> set is then - 1 else nx1 ! a ! b)"
    using Cons.IH[OF _ s(2) r1(3)] Cons.prems(4,5) by auto
  show ?case
    by (rule Cons.prems(1)[of d' nx']) (use r r1 s i in auto)
qed

lemma enter_edges_ok:
  assumes ok: "graph_ok g" "status_ok g" and "square (g_num_nodes g) d"
  shows "\<exists>d'. enter_edges g es d = Some d' \<and> square (g_num_nodes g) d' \<and>
    (\<forall>a < g_num_nodes g. \<forall>b < g_num_nodes g.
       d' ! a ! b = (if \<exists>e \<in> set es \<inter> enabled_edges g. g_ends g e = (a, b) \<and> a \<noteq> b then 1 else d ! a ! b))"
  using assms(3)
proof (induction es arbitrary: d)
  case (Cons e es)
  show ?case
  proof (cases "e \<in> enabled_edges g")
    case False
    have "enter_edges g (e # es) d = enter_edges g es d"
    proof (cases "isEdge g e")
      case True
      then show ?thesis using False isEdge_bounds(1)[OF ok(1) True] by (simp add: edgeEnabled_def enabled_edges_def)
    qed simp
    then show ?thesis using Cons.IH[OF Cons.prems] False by auto
  next
    case True
    note f = enabled_facts[OF ok True]
    let ?u = "fst (g_ends g e)" and ?v = "snd (g_ends g e)"
    have i: "isEdge g e" using True ok(2) by (auto simp: status_ok_def enabled_edges_def)
    show ?thesis
    proof (cases "?u = ?v")
      case eq: True
      then have "enter_edges g (e # es) d = enter_edges g es d" using i f(1,3,4) by simp
      then show ?thesis using Cons.IH[OF Cons.prems] eq by auto
    next
      case ne: False
      note s = set2_square[OF Cons.prems f(5,6), where x = 1]
      have "enter_edges g (e # es) d = enter_edges g es (d[?u := (d ! ?u)[?v := 1]])" using i f(1,3,4) ne s(1) by simp
      moreover have e: "g_ends g e = (a, b) \<longleftrightarrow> a = ?u \<and> b = ?v" for a b by (metis prod.collapse fst_conv snd_conv)
      ultimately show ?thesis using Cons.IH[OF s(2)] s(3) True ne by (auto simp: e)
    qed
  qed
qed simp

subsection \<open>Relaxing\<close>

definition cell_ok :: "(nat \<times> nat) set \<Rightarrow> nat \<Rightarrow> nat \<Rightarrow> nat \<Rightarrow> nat \<Rightarrow> nat \<Rightarrow> int \<Rightarrow> bool" where
  "cell_ok R n I i j x y \<longleftrightarrow> x \<le> I \<and> (x < I \<longrightarrow> (i, j) \<in> R ^^ x) \<and> (i = j \<longrightarrow> x = 0) \<and> (y = - 1 \<longrightarrow> x = I \<or> x \<le> 1) \<and>
     (y \<noteq> - 1 \<longrightarrow> (\<exists>k < n. y = int k \<and> k \<noteq> i \<and> k \<noteq> j \<and> x < I \<and> (\<exists>a b. (i, k) \<in> R ^^ a \<and> (k, j) \<in> R ^^ b \<and> a + b \<le> x)))"

definition fw_inv :: "(nat \<times> nat) set \<Rightarrow> nat \<Rightarrow> nat \<Rightarrow> fw_state \<Rightarrow> bool" where
  "fw_inv R n I st \<longleftrightarrow> square n (fst st) \<and> square n (snd st) \<and>
     (\<forall>i < n. \<forall>j < n. cell_ok R n I i j (fst st ! i ! j) (snd st ! i ! j))"

definition below :: "nat \<Rightarrow> nat list list \<Rightarrow> nat list list \<Rightarrow> bool" where
  "below n d' d \<longleftrightarrow> (\<forall>i < n. \<forall>j < n. d' ! i ! j \<le> d ! i ! j)"

lemma below_trans: "below n d'' d' \<Longrightarrow> below n d' d \<Longrightarrow> below n d'' d"
  unfolding below_def by (meson order_trans)

lemma relax_ok:
  assumes inv: "fw_inv R n I (d, nx)" and b: "k < n" "i < n" "j < n"
  obtains d' nx' where "relax k i j (d, nx) = Some (d', nx')" "fw_inv R n I (d', nx')" "below n d' d"
    "d' ! i ! j \<le> d ! i ! k + d ! k ! j"
proof -
  have sq: "square n d" "square n nx" using inv by (auto simp: fw_inv_def)
  have c: "cell_ok R n I a b (d ! a ! b) (nx ! a ! b)" if "a < n" "b < n" for a b using inv that by (simp add: fw_inv_def)
  let ?x = "d ! i ! k + d ! k ! j"
  show thesis
  proof (cases "?x < d ! i ! j")
    case False
    then have "relax k i j (d, nx) = Some (d, nx)" using sq b by (simp add: relax_def get2_square)
    then show ?thesis using that inv False by (simp add: below_def)
  next
    case True
    let ?d = "d[i := (d ! i)[j := ?x]]" and ?nx = "nx[i := (nx ! i)[j := int k]]"
    note sd = set2_square[OF sq(1) b(2,3), where x = ?x] and sn = set2_square[OF sq(2) b(2,3), where x = "int k"]
    have r: "relax k i j (d, nx) = Some (?d, ?nx)" using True sq b sd(1) sn(1) by (simp add: relax_def get2_square)
    have I: "?x < I" using True c[OF b(2,3)] by (simp add: cell_ok_def)
    have w: "(i, k) \<in> R ^^ (d ! i ! k)" "(k, j) \<in> R ^^ (d ! k ! j)" using I c[OF b(2,1)] c[OF b(1,3)] by (auto simp: cell_ok_def)
    have ne: "i \<noteq> j" "k \<noteq> i" "k \<noteq> j" using True c[OF b(2,3)] c[OF b(1,1)] by (auto simp: cell_ok_def)
    have "(i, j) \<in> R ^^ ?x" using w by (auto simp: relpow_add)
    then have new: "cell_ok R n I i j ?x (int k)" using I ne b(1) w unfolding cell_ok_def by auto
    have "fw_inv R n I (?d, ?nx)" using sd(2,3) sn(2,3) new c by (simp add: fw_inv_def)
    moreover have "below n ?d d" "?d ! i ! j \<le> ?x" using sd(3) True b by (auto simp: below_def)
    ultimately show ?thesis using that r by blast
  qed
qed

lemma relax_cells_ok:
  assumes "fw_inv R n I st" "k < n" "set cs \<subseteq> {..<n} \<times> {..<n}"
  shows "\<exists>st'. relax_cells k cs st = Some st' \<and> fw_inv R n I st' \<and> below n (fst st') (fst st) \<and>
    (\<forall>(i, j) \<in> set cs. fst st' ! i ! j \<le> fst st ! i ! k + fst st ! k ! j)"
  using assms
proof (induction cs arbitrary: st)
  case Nil
  then show ?case by (simp add: below_def)
next
  case (Cons c cs)
  obtain i j d nx where c: "c = (i, j)" "st = (d, nx)" by (metis surj_pair)
  have ij: "i < n" "j < n" using Cons.prems(3) c by auto
  obtain d1 nx1 where 1: "relax k i j (d, nx) = Some (d1, nx1)" "fw_inv R n I (d1, nx1)" "below n d1 d"
    "d1 ! i ! j \<le> d ! i ! k + d ! k ! j"
    using relax_ok[of R n I d nx k i j] Cons.prems(1,2) ij c by blast
  obtain st' where 2: "relax_cells k cs (d1, nx1) = Some st'" "fw_inv R n I st'" "below n (fst st') d1"
    "\<forall>(i, j) \<in> set cs. fst st' ! i ! j \<le> d1 ! i ! k + d1 ! k ! j"
    using Cons.IH[OF 1(2) Cons.prems(2)] Cons.prems(3) by auto
  have "fst st' ! a ! b \<le> d ! a ! k + d ! k ! b" if "(a, b) \<in> set (c # cs)" for a b
  proof (cases "(a, b) \<in> set cs")
    case True
    have "a < n" "b < n" using that Cons.prems(3) by auto
    then have "d1 ! a ! k \<le> d ! a ! k" "d1 ! k ! b \<le> d ! k ! b" using 1(3) Cons.prems(2) by (auto simp: below_def)
    moreover have "fst st' ! a ! b \<le> d1 ! a ! k + d1 ! k ! b" using 2(4) True by auto
    ultimately show ?thesis by simp
  next
    case False
    then have "a = i" "b = j" using that c by auto
    then show ?thesis using 1(4) 2(3) ij by (meson below_def order_trans)
  qed
  then show ?case using 1(1) 2(1,2) below_trans[OF 2(3) 1(3)] c by auto
qed

text \<open>After the nodes below \<open>k\<close> the distances are at most those of the walks over them.\<close>

definition upper :: "(nat \<times> nat) set \<Rightarrow> nat \<Rightarrow> nat \<Rightarrow> nat list list \<Rightarrow> bool" where
  "upper R n k d \<longleftrightarrow> (\<forall>i < n. \<forall>j < n. \<forall>m. walk_below R k i j m \<longrightarrow> d ! i ! j \<le> m)"

lemma relax_node_ok:
  assumes "fw_inv R n I st" "upper R n k (fst st)" "k < n"
  obtains st' where "relax_cells k (all_cells n) st = Some st'" "fw_inv R n I st'" "upper R n (Suc k) (fst st')"
proof -
  have cells: "set (all_cells n) = {..<n} \<times> {..<n}" by (auto simp: all_cells_def)
  obtain st' where s: "relax_cells k (all_cells n) st = Some st'" "fw_inv R n I st'" "below n (fst st') (fst st)"
    "\<And>i j. i < n \<Longrightarrow> j < n \<Longrightarrow> fst st' ! i ! j \<le> fst st ! i ! k + fst st ! k ! j"
    using relax_cells_ok[OF assms(1,3), of "all_cells n"] cells by auto
  have "fst st' ! i ! j \<le> m" if ij: "i < n" "j < n" and w: "walk_below R (Suc k) i j m" for i j m
    using walk_below_Suc[OF w]
  proof
    assume "walk_below R k i j m"
    then have "fst st ! i ! j \<le> m" using assms(2) ij by (simp add: upper_def)
    then show ?thesis using s(3) ij by (meson below_def order_trans)
  next
    assume "\<exists>a b. walk_below R k i k a \<and> walk_below R k k j b \<and> a + b \<le> m"
    then obtain a b where "walk_below R k i k a" "walk_below R k k j b" "a + b \<le> m" by blast
    then have "fst st ! i ! k \<le> a" "fst st ! k ! j \<le> b" using assms(2,3) ij by (auto simp: upper_def)
    then show ?thesis using s(4)[OF ij] \<open>a + b \<le> m\<close> by simp
  qed
  then show ?thesis using that s(1,2) by (simp add: upper_def)
qed

lemma relax_all_ok:
  assumes "fw_inv R n I st" "upper R n k (fst st)" "k \<le> n"
  shows "\<exists>st'. relax_all n [k..<n] st = Some st' \<and> fw_inv R n I st' \<and> upper R n n (fst st')"
  using assms
proof (induction "n - k" arbitrary: k st)
  case (Suc m)
  then have k: "k < n" "[k..<n] = k # [Suc k..<n]" by (simp_all add: upt_rec)
  obtain st1 where 1: "relax_cells k (all_cells n) st = Some st1" "fw_inv R n I st1" "upper R n (Suc k) (fst st1)"
    using relax_node_ok[OF Suc.prems(1,2) k(1)] by blast
  have "m = n - Suc k" using Suc.hyps(2) by simp
  then show ?case using Suc.hyps(1)[OF _ 1(2,3)] k 1(1) by simp
qed simp

subsection \<open>The result of an update\<close>

definition fw_result :: "'w dgraph \<Rightarrow> floyd_warshall \<Rightarrow> bool" where
  "fw_result g fw \<longleftrightarrow> fw_INF fw = g_num_nodes g + 1 \<and> fw_inv (edge_step g) (g_num_nodes g) (g_num_nodes g + 1) (fw_dist fw, fw_next fw) \<and>
     upper (edge_step g) (g_num_nodes g) (g_num_nodes g) (fw_dist fw)"

lemma result_cell:
  assumes "fw_result g fw" "i < g_num_nodes g" "j < g_num_nodes g"
  shows "get2 (fw_dist fw) i j = Some (fw_dist fw ! i ! j)" "get2 (fw_next fw) i j = Some (fw_next fw ! i ! j)"
    "cell_ok (edge_step g) (g_num_nodes g) (g_num_nodes g + 1) i j (fw_dist fw ! i ! j) (fw_next fw ! i ! j)"
  using assms by (auto simp: fw_result_def fw_inv_def get2_square)

lemma result_distance:
  assumes ok: "graph_ok g" "status_ok g" and r: "fw_result g fw" and ij: "i < g_num_nodes g" "j < g_num_nodes g"
  shows "if (i, j) \<in> (edge_step g)\<^sup>* then shortest (edge_step g) i j (fw_dist fw ! i ! j) \<and> fw_dist fw ! i ! j < g_num_nodes g
    else fw_dist fw ! i ! j = g_num_nodes g + 1"
proof -
  let ?R = "edge_step g" and ?n = "g_num_nodes g" and ?d = "fw_dist fw ! i ! j"
  note w = edge_step_within[OF ok] and c = result_cell(3)[OF r ij]
  have up: "?d \<le> m" if "(i, j) \<in> ?R ^^ m" for m
    using walk_below_all[OF that w] r ij by (simp add: fw_result_def upper_def)
  show ?thesis
  proof (cases "(i, j) \<in> ?R\<^sup>*")
    case True
    obtain m where m: "shortest ?R i j m" using shortest_exists[OF True] by blast
    have mn: "m < ?n" by (rule shortest_short[OF m w ij(1)])
    have le: "?d \<le> m" using up m by (simp add: shortest_def)
    then have "(i, j) \<in> ?R ^^ ?d" using c mn by (simp add: cell_ok_def)
    then have "shortest ?R i j ?d" using up by (simp add: shortest_def)
    then show ?thesis using True le mn by simp
  next
    case False
    have "\<not> ?d < ?n + 1" using c False relpow_imp_rtrancl[of "(i, j)" ?d ?R] by (auto simp: cell_ok_def)
    then show ?thesis using c False by (simp add: cell_ok_def)
  qed
qed

definition fw_report :: "int \<Rightarrow> nat \<Rightarrow> nat \<Rightarrow> nat \<Rightarrow> nat \<Rightarrow> (nat \<times> nat \<times> bool \<times> nat) list" where
  "fw_report p I d s u = (if d \<ge> I \<and> p < 1 then [(s, u, False, I)] else if d < I \<and> p > - 1 then [(s, u, True, d)] else [])"

lemma fw_report_row_eq:
  assumes "square n (fw_dist fw)" "s < n" "set us \<subseteq> {..<n}"
  shows "fw_report_row s us fw = Some (fw\<lparr>fw_reports := fw_reports fw @
    concat (map (\<lambda>u. fw_report (fw_polarity fw) (fw_INF fw) (fw_dist fw ! s ! u) s u) us)\<rparr>)"
  using assms
proof (induction us arbitrary: fw)
  case (Cons u us)
  let ?r = "fw_report (fw_polarity fw) (fw_INF fw) (fw_dist fw ! s ! u) s u"
  have "fw_report_row s (u # us) fw = fw_report_row s us (fw\<lparr>fw_reports := fw_reports fw @ ?r\<rparr>)"
    using Cons.prems by (auto simp: get2_square fw_report_def)
  then show ?case using Cons.IH[of "fw\<lparr>fw_reports := fw_reports fw @ ?r\<rparr>"] Cons.prems by simp
qed simp

definition all_reports :: "floyd_warshall \<Rightarrow> nat \<Rightarrow> nat list \<Rightarrow> (nat \<times> nat \<times> bool \<times> nat) list" where
  "all_reports fw n ss = concat (map (\<lambda>s. concat (map (\<lambda>u. fw_report (fw_polarity fw) (fw_INF fw) (fw_dist fw ! s ! u) s u) [0..<n])) ss)"

lemma fw_report_all_eq:
  assumes "square n (fw_dist fw)" "set ss \<subseteq> {..<n}" "fw_order fw = [0..<n]"
  shows "fw_report_all ss fw = Some (fw\<lparr>fw_reports := fw_reports fw @ all_reports fw n ss\<rparr>)"
  using assms
proof (induction ss arbitrary: fw)
  case Nil
  then show ?case by (simp add: all_reports_def)
next
  case (Cons s ss)
  let ?r = "concat (map (\<lambda>u. fw_report (fw_polarity fw) (fw_INF fw) (fw_dist fw ! s ! u) s u) [0..<n])"
  have "fw_report_row s [0..<n] fw = Some (fw\<lparr>fw_reports := fw_reports fw @ ?r\<rparr>)"
    using Cons.prems by (intro fw_report_row_eq) auto
  then show ?case using Cons.IH[of "fw\<lparr>fw_reports := fw_reports fw @ ?r\<rparr>"] Cons.prems by (simp add: all_reports_def)
qed

definition fw_shape :: "floyd_warshall \<Rightarrow> bool" where
  "fw_shape fw \<longleftrightarrow> square (length (fw_dist fw)) (fw_dist fw) \<and> square (length (fw_next fw)) (fw_next fw)"

lemma square_length: "square n m \<Longrightarrow> square (length m) m"
  by (simp add: square_def)

lemma start_matrices:
  assumes ok: "graph_ok g" "status_ok g" and sq: "square (g_num_nodes g) d" "square (g_num_nodes g) nx"
  obtains d1 d2 nx2 where "clear_rows (g_num_nodes g + 1) (g_num_nodes g) [0..<g_num_nodes g] (d, nx) = Some (d1, nx2)"
    "enter_edges g [0..<g_num_edges g] d1 = Some d2" "fw_inv (edge_step g) (g_num_nodes g) (g_num_nodes g + 1) (d2, nx2)"
    "upper (edge_step g) (g_num_nodes g) 0 d2"
proof -
  let ?n = "g_num_nodes g" and ?R = "edge_step g"
  have ix: "set [0..<?n] \<subseteq> {..<?n}" "distinct [0..<?n]" by auto
  obtain d1 nx1 where 1: "clear_rows (?n + 1) ?n [0..<?n] (d, nx) = Some (d1, nx1)" "square ?n d1" "square ?n nx1"
    "\<forall>a < ?n. \<forall>b < ?n. d1 ! a ! b = (if a \<in> set [0..<?n] then (if a = b then 0 else ?n + 1) else d ! a ! b) \<and>
       nx1 ! a ! b = (if a \<in> set [0..<?n] then - 1 else nx ! a ! b)"
    using clear_rows_ok[OF sq ix, of "?n + 1"] by blast
  obtain d2 where 2: "enter_edges g [0..<g_num_edges g] d1 = Some d2" "square ?n d2"
    "\<And>a b. a < ?n \<Longrightarrow> b < ?n \<Longrightarrow> d2 ! a ! b =
      (if \<exists>e \<in> set [0..<g_num_edges g] \<inter> enabled_edges g. g_ends g e = (a, b) \<and> a \<noteq> b then 1 else d1 ! a ! b)"
    using enter_edges_ok[OF ok 1(2)] by blast
  have "set [0..<g_num_edges g] \<inter> enabled_edges g = enabled_edges g"
    using ok(1) by (auto simp: enabled_edges_def graph_ok_def sizes_ok_def)
  then have e: "(\<exists>e \<in> set [0..<g_num_edges g] \<inter> enabled_edges g. g_ends g e = (a, b) \<and> a \<noteq> b) \<longleftrightarrow> (a, b) \<in> ?R \<and> a \<noteq> b" for a b
    by (auto simp: edge_step_def)
  have v: "d2 ! a ! b = (if a = b then 0 else if (a, b) \<in> ?R then 1 else ?n + 1)" "nx1 ! a ! b = - 1" if "a < ?n" "b < ?n" for a b
  proof -
    have "d1 ! a ! b = (if a = b then 0 else ?n + 1)" "nx1 ! a ! b = - 1" using 1(4) that by auto
    then show "d2 ! a ! b = (if a = b then 0 else if (a, b) \<in> ?R then 1 else ?n + 1)" "nx1 ! a ! b = - 1"
      unfolding 2(3)[OF that] e by (cases "a = b"; simp)+
  qed
  have "cell_ok ?R ?n (?n + 1) a b (d2 ! a ! b) (nx1 ! a ! b)" if "a < ?n" "b < ?n" for a b
    using that by (simp add: v cell_ok_def)
  then have "fw_inv ?R ?n (?n + 1) (d2, nx1)" using 1(3) 2(2) by (simp add: fw_inv_def)
  moreover have "d2 ! i ! j \<le> m" if "i < ?n" "j < ?n" "walk_below ?R 0 i j m" for i j m
    using walk_below_0[OF that(3)] that by (auto simp: v)
  ultimately show thesis using that 1(1) 2(1) by (simp add: upper_def)
qed

lemma fw_update_ok:
  assumes ok: "graph_ok g" "status_ok g" and shape: "fw_shape fw" and src: "set (fw_sources fw) \<subseteq> {..<g_num_nodes g}"
    and go: "\<not> (fw_last_modification fw > 0 \<and> g_modifications g = fw_last_modification fw)"
  obtains fw' where "fw_update g fw = Some fw'" "fw_result g fw'" "fw_shape fw'" "fw_sources fw' = fw_sources fw"
    "fw_last_modification fw' = g_modifications g" "fw_polarity fw' = fw_polarity fw"
    "fw_reports fw' = fw_reports fw @ all_reports fw' (g_num_nodes g) (fw_sources fw)"
proof -
  let ?n = "g_num_nodes g"
  define fw1 where "fw1 = fw_setNodes g ?n (let fw = fw\<lparr>fw_full_updates := fw_full_updates fw + 1\<rparr> in
    if fw_last_deletion fw = g_deletions g then fw\<lparr>fw_skipable_deletions := fw_skipable_deletions fw + 1\<rparr> else fw)"
  have f1: "fw_INF fw1 = ?n + 1" "fw_dist fw1 = grow_matrix ?n 0 (fw_dist fw)" "fw_next fw1 = grow_matrix ?n 0 (fw_next fw)"
    "fw_sources fw1 = fw_sources fw" "fw_order fw1 = [0..<?n]" "fw_polarity fw1 = fw_polarity fw" "fw_reports fw1 = fw_reports fw"
    by (simp_all add: fw1_def fw_setNodes_def Let_def)
  have sq: "square ?n (fw_dist fw1)" "square ?n (fw_next fw1)" using shape by (simp_all add: f1 fw_shape_def square_grow)
  obtain d1 d2 nx2 where s: "clear_rows (?n + 1) ?n [0..<?n] (fw_dist fw1, fw_next fw1) = Some (d1, nx2)"
    "enter_edges g [0..<g_num_edges g] d1 = Some d2" "fw_inv (edge_step g) ?n (?n + 1) (d2, nx2)" "upper (edge_step g) ?n 0 d2"
    by (rule start_matrices[OF ok sq])
  obtain d nx where r: "relax_all ?n [0..<?n] (d2, nx2) = Some (d, nx)" "fw_inv (edge_step g) ?n (?n + 1) (d, nx)"
    "upper (edge_step g) ?n ?n d"
    using relax_all_ok[OF s(3), of 0] s(4) by auto
  let ?fw2 = "fw1\<lparr>fw_dist := d, fw_next := nx\<rparr>"
  have sqd: "square ?n d" "square ?n nx" using r(2) by (auto simp: fw_inv_def)
  have rep: "fw_report_all (fw_sources fw1) ?fw2 = Some (?fw2\<lparr>fw_reports := fw_reports ?fw2 @ all_reports ?fw2 ?n (fw_sources fw1)\<rparr>)"
    using sqd(1) src f1 by (intro fw_report_all_eq) auto
  define fw' where "fw' = ?fw2\<lparr>fw_reports := fw_reports ?fw2 @ all_reports ?fw2 ?n (fw_sources fw1),
    fw_num_updates := fw_num_updates fw1 + 1, fw_last_modification := g_modifications g,
    fw_last_deletion := g_deletions g, fw_last_addition := g_additions g, fw_history_qhead := historySize g,
    fw_last_history_clear := g_historyclears g\<rparr>"
  have "fw_update g fw = do {
       (d, nx) \<leftarrow> clear_rows (fw_INF fw1) ?n [0..<?n] (fw_dist fw1, fw_next fw1);
       d \<leftarrow> enter_edges g [0..<g_num_edges g] d;
       (d, nx) \<leftarrow> relax_all ?n [0..<?n] (d, nx);
       fw \<leftarrow> fw_report_all (fw_sources fw1) (fw1\<lparr>fw_dist := d, fw_next := nx\<rparr>);
       Some (fw\<lparr>fw_num_updates := fw_num_updates fw + 1, fw_last_modification := g_modifications g,
         fw_last_deletion := g_deletions g, fw_last_addition := g_additions g, fw_history_qhead := historySize g,
         fw_last_history_clear := g_historyclears g\<rparr>) }"
  proof -
    have "fw_last_modification (fw\<lparr>fw_full_updates := m\<rparr>) = fw_last_modification fw" for m by simp
    moreover have "(fw_last_modification fw > 0 \<and> g_modifications g = fw_last_modification fw) = False" using go by blast
    ultimately show ?thesis unfolding fw_update_def fw1_def Let_def by (simp only: if_False)
  qed
  then have "fw_update g fw = Some fw'"
    using s(1,2) r(1) rep f1(1) by (simp add: fw'_def)
  moreover have "fw_result g fw'" using r(2,3) f1(1) by (simp add: fw_result_def fw'_def)
  moreover have "fw_shape fw'" using square_length[OF sqd(1)] square_length[OF sqd(2)] by (simp add: fw_shape_def fw'_def)
  moreover have "all_reports ?fw2 ?n (fw_sources fw1) = all_reports fw' ?n (fw_sources fw)"
    by (simp add: all_reports_def fw'_def f1(4))
  ultimately show thesis using that[of fw'] by (simp add: fw'_def f1)
qed

subsection \<open>Paths\<close>

lemma path_between_ok:
  assumes ok: "graph_ok g" "status_ok g" and r: "fw_result g fw"
  shows "i < g_num_nodes g \<Longrightarrow> j < g_num_nodes g \<Longrightarrow> (i, j) \<in> (edge_step g)\<^sup>* \<Longrightarrow> i \<noteq> j \<Longrightarrow>
    \<exists>ks. path_between fw i j p = Some (p @ ks) \<and> successively (\<lambda>u v. (u, v) \<in> edge_step g) (i # ks @ [j]) \<and>
      Suc (length ks) = fw_dist fw ! i ! j \<and> j \<notin> set ks"
proof (induction "fw_dist fw ! i ! j" arbitrary: i j p rule: less_induct)
  case less
  let ?d = "\<lambda>i j. fw_dist fw ! i ! j" and ?R = "edge_step g" and ?y = "fw_next fw ! i ! j" and ?n = "g_num_nodes g"
  note c = result_cell[OF r less.prems(1,2)]
  have dist: "\<And>a b. a < ?n \<Longrightarrow> b < ?n \<Longrightarrow> (a, b) \<in> ?R\<^sup>* \<Longrightarrow> shortest ?R a b (?d a b) \<and> ?d a b < ?n"
    using result_distance[OF ok r] by (metis (full_types))
  note ij = dist[OF less.prems(1-3)]
  have I: "fw_INF fw = ?n + 1" using r by (simp add: fw_result_def)
  show ?case
  proof (cases "?y = - 1")
    case True
    have "?d i j \<noteq> 0"
    proof
      assume "?d i j = 0"
      then have "(i, j) \<in> ?R ^^ 0" using ij unfolding shortest_def by metis
      then show False using less.prems(4) by simp
    qed
    moreover have "?d i j = ?n + 1 \<or> ?d i j \<le> 1" using c(3) True by (simp add: cell_ok_def)
    ultimately have "?d i j = 1" using ij by linarith
    then have "(i, j) \<in> ?R" using ij by (auto simp: shortest_def)
    moreover have "path_between fw i j p = Some p" using c(1,2) True ij I by (subst path_between.simps) simp
    ultimately show ?thesis using \<open>?d i j = 1\<close> by (intro exI[of _ "[]"]) simp
  next
    case False
    then obtain k a b where k: "k < ?n" "?y = int k" "k \<noteq> i" "k \<noteq> j" "(i, k) \<in> ?R ^^ a" "(k, j) \<in> ?R ^^ b" "a + b \<le> ?d i j"
      using c(3) unfolding cell_ok_def by blast
    have reach: "(i, k) \<in> ?R\<^sup>*" "(k, j) \<in> ?R\<^sup>*" using k(5,6) relpow_imp_rtrancl by blast+
    note ik = dist[OF less.prems(1) k(1) reach(1)] and kj = dist[OF k(1) less.prems(2) reach(2)]
    have "?d i k \<le> a" "?d k j \<le> b" using ik kj k(5,6) by (auto simp: shortest_def)
    moreover have pos: "0 < ?d i k" "0 < ?d k j" using ik kj k(3,4) by (auto simp: shortest_def intro: gr0I)
    moreover have "(i, j) \<in> ?R ^^ (?d i k + ?d k j)" using ik kj by (auto simp: shortest_def relpow_add)
    then have "?d i j \<le> ?d i k + ?d k j" using ij by (auto simp: shortest_def)
    ultimately have sum: "?d i j = ?d i k + ?d k j" and lt: "?d i k < ?d i j" "?d k j < ?d i j" using k(7) by linarith+
    obtain ks where ks: "path_between fw i k p = Some (p @ ks)" "successively (\<lambda>u v. (u, v) \<in> ?R) (i # ks @ [k])"
      "Suc (length ks) = ?d i k" using less.hyps[OF lt(1) less.prems(1) k(1) reach(1) k(3)[symmetric]] by blast
    obtain ls where ls: "path_between fw k j (p @ ks @ [k]) = Some ((p @ ks @ [k]) @ ls)" "successively (\<lambda>u v. (u, v) \<in> ?R) (k # ls @ [j])"
      "Suc (length ls) = ?d k j" "j \<notin> set ls" using less.hyps[OF lt(2) k(1) less.prems(2) reach(2) k(4)] by blast
    have "path_between fw i j p = Some (p @ (ks @ k # ls))"
      using c(1,2) k(2) ij I ks(1) ls(1) by (subst path_between.simps) simp
    moreover have "successively (\<lambda>u v. (u, v) \<in> ?R) (i # (ks @ k # ls) @ [j])"
      using ks(2) ls(2) successively_append_iff[of "\<lambda>u v. (u, v) \<in> ?R" "i # ks" "k # ls @ [j]"]
        successively_append_iff[of "\<lambda>u v. (u, v) \<in> ?R" "i # ks" "[k]"] by simp
    moreover have "j \<notin> set (ks @ k # ls)"
    proof
      assume "j \<in> set (ks @ k # ls)"
      then have "j \<in> set ks" using k(4) ls(4) by auto
      then obtain xs ys where xs: "ks = xs @ j # ys" by (meson split_list)
      have w: "successively (\<lambda>u v. (u, v) \<in> ?R) (x # zs @ [y]) \<Longrightarrow> (x, y) \<in> ?R ^^ Suc (length zs)" for x y zs
      proof (induction zs arbitrary: x)
        case (Cons z zs)
        then have "(x, z) \<in> ?R" "(z, y) \<in> ?R ^^ Suc (length zs)" by auto
        then show ?case using relpow_Suc_I2 by fastforce
      qed simp
      have "successively (\<lambda>u v. (u, v) \<in> ?R) (i # xs @ [j])"
        using ks(2) successively_append_iff[of "\<lambda>u v. (u, v) \<in> ?R" "i # xs @ [j]" "ys @ [k]"] by (simp add: xs)
      then have "(i, j) \<in> ?R ^^ Suc (length xs)" by (rule w)
      then have "?d i j \<le> Suc (length xs)" using ij by (auto simp: shortest_def)
      then show False using ks(3) sum pos(2) by (simp add: xs)
    qed
    ultimately show ?thesis using ks(3) ls(3) sum by (intro exI[of _ "ks @ k # ls"]) simp
  qed
qed

subsection \<open>The life of the algorithm\<close>

text \<open>A client creates the algorithm for a graph, names sources among its nodes, changes the graph without taking back
  modifications or nodes, and asks for distances, in any order.\<close>

inductive fw_reachable :: "'w::{one,linorder} dgraph \<Rightarrow> floyd_warshall \<Rightarrow> bool" where
  start: "graph_reachable g \<Longrightarrow> fw_reachable g (new_floyd_warshall p)"
| source: "fw_reachable g fw \<Longrightarrow> s < g_num_nodes g \<Longrightarrow> fw_addSource s fw = Some fw' \<Longrightarrow> fw_reachable g fw'"
| change: "fw_reachable g fw \<Longrightarrow> graph_step g h \<Longrightarrow> g_modifications g \<le> g_modifications h \<Longrightarrow>
    g_num_nodes g \<le> g_num_nodes h \<Longrightarrow> fw_reachable h fw"
| update: "fw_reachable g fw \<Longrightarrow> fw_update g fw = Some fw' \<Longrightarrow> fw_reachable g fw'"

definition fw_ready :: "'w dgraph \<Rightarrow> floyd_warshall \<Rightarrow> bool" where
  "fw_ready g fw \<longleftrightarrow> graph_ok g \<and> status_ok g \<and> fw_shape fw \<and> set (fw_sources fw) \<subseteq> {..<g_num_nodes g} \<and> fw_polarity fw = 0 \<and>
     (fw_last_modification fw > 0 \<longrightarrow> fw_last_modification fw \<le> g_modifications g) \<and>
     (fw_last_modification fw > 0 \<and> g_modifications g = fw_last_modification fw \<longrightarrow> fw_result g fw)"

lemma fw_result_same:
  assumes "same_graph g h"
  shows "fw_result h fw = fw_result g fw"
proof -
  have "g_ends h = g_ends g" by (rule ends_same) (use assms in \<open>simp add: same_graph_def\<close>)
  moreover have "enabled_edges h = enabled_edges g" "g_num_nodes h = g_num_nodes g"
    using assms by (simp_all add: same_graph_def enabled_edges_def same_edges_def)
  ultimately show ?thesis by (simp add: fw_result_def edge_step_def)
qed

lemma fw_ready_update:
  assumes "fw_ready g fw"
  obtains fw' where "fw_update g fw = Some fw'" "fw_ready g fw'" "fw_result g fw'" "fw_last_modification fw' = g_modifications g"
    "fw_sources fw' = fw_sources fw"
    "\<not> (fw_last_modification fw > 0 \<and> g_modifications g = fw_last_modification fw) \<longrightarrow>
       fw_reports fw' = fw_reports fw @ all_reports fw' (g_num_nodes g) (fw_sources fw)"
proof (cases "fw_last_modification fw > 0 \<and> g_modifications g = fw_last_modification fw")
  case True
  let ?fw = "fw\<lparr>fw_full_updates := Suc (fw_full_updates fw), fw_skipped_updates := Suc (fw_skipped_updates fw)\<rparr>"
  have "fw_update g fw = Some ?fw" using True by (simp add: fw_update_def)
  moreover have "fw_ready g ?fw" "fw_result g ?fw" using assms True by (simp_all add: fw_ready_def fw_result_def fw_shape_def)
  ultimately show ?thesis using that[of ?fw] True by simp
next
  case False
  obtain fw' where fw': "fw_update g fw = Some fw'" "fw_result g fw'" "fw_shape fw'" "fw_sources fw' = fw_sources fw"
    "fw_last_modification fw' = g_modifications g" "fw_polarity fw' = fw_polarity fw"
    "fw_reports fw' = fw_reports fw @ all_reports fw' (g_num_nodes g) (fw_sources fw)"
    using fw_update_ok[of g fw] assms False unfolding fw_ready_def by blast
  then have "fw_ready g fw'" using assms by (simp add: fw_ready_def)
  then show ?thesis using that fw' by blast
qed

lemma fw_reachable_ready: "fw_reachable g fw \<Longrightarrow> fw_ready g fw"
proof (induction rule: fw_reachable.induct)
  case (start g p)
  then show ?case using reachable_graph_ok[of g] reachable_status_ok[of g]
    by (simp add: fw_ready_def new_floyd_warshall_def fw_shape_def square_def)
next
  case (source g fw s fw')
  then show ?case by (auto simp: fw_ready_def fw_addSource_def fw_shape_def bind_eq_Some_conv)
next
  case (change g fw h)
  have ok: "graph_ok g" "status_ok g" using change.IH by (auto simp: fw_ready_def)
  have "status_ok h" "g_modifications g < g_modifications h \<or> same_graph g h"
    using graph_step_status[OF change.hyps(2) ok] change.hyps(3) by blast+
  then show ?case
    using change graph_step_ok[OF change.hyps(2) ok(1)] fw_result_same[of g h fw] by (auto simp: fw_ready_def same_graph_def)
next
  case (update g fw fw')
  then show ?case using fw_ready_update[OF update.IH] by (metis option.inject)
qed

lemma connected_result:
  assumes r: "fw_ready g fw" and m: "0 < g_modifications g"
  obtains fw' where "fw_ready g fw'" "fw_result g fw'" "(fw_last_modification fw \<noteq> g_modifications g \<and> fw_update g fw = Some fw') \<or> fw' = fw"
    "(if fw_last_modification fw \<noteq> g_modifications g then fw_update g fw else Some fw) = Some fw'"
proof (cases "fw_last_modification fw = g_modifications g")
  case True
  then show ?thesis using that[of fw] r m by (simp add: fw_ready_def)
next
  case False
  obtain fw' where "fw_update g fw = Some fw'" "fw_ready g fw'" "fw_result g fw'" using fw_ready_update[OF r] by metis
  then show ?thesis using that[of fw'] False by simp
qed

lemma reports_result:
  assumes ok: "graph_ok g" "status_ok g" and r: "fw_result g fw" "fw_polarity fw = 0" and ss: "set ss \<subseteq> {..<g_num_nodes g}"
  shows "all_reports fw (g_num_nodes g) ss =
    concat (map (\<lambda>s. map (\<lambda>u. (s, u, (s, u) \<in> (edge_step g)\<^sup>*, fw_dist fw ! s ! u)) [0..<g_num_nodes g]) ss)"
proof -
  have "fw_report 0 (fw_INF fw) (fw_dist fw ! s ! u) s u = [(s, u, (s, u) \<in> (edge_step g)\<^sup>*, fw_dist fw ! s ! u)]"
    if "s < g_num_nodes g" "u < g_num_nodes g" for s u
    using result_distance[OF ok r(1) that] r(1) by (auto simp: fw_report_def fw_result_def split: if_splits)
  then have "concat (map (\<lambda>u. fw_report 0 (fw_INF fw) (fw_dist fw ! s ! u) s u) [0..<g_num_nodes g]) =
      concat (map (\<lambda>u. [(s, u, (s, u) \<in> (edge_step g)\<^sup>*, fw_dist fw ! s ! u)]) [0..<g_num_nodes g])" if "s < g_num_nodes g" for s
    using that by (intro arg_cong[where f = concat] map_cong) auto
  then have row: "concat (map (\<lambda>u. fw_report 0 (fw_INF fw) (fw_dist fw ! s ! u) s u) [0..<g_num_nodes g]) =
      map (\<lambda>u. (s, u, (s, u) \<in> (edge_step g)\<^sup>*, fw_dist fw ! s ! u)) [0..<g_num_nodes g]" if "s < g_num_nodes g" for s
    using that by (simp add: concat_map_singleton)
  show ?thesis unfolding all_reports_def r(2) using ss row by (intro arg_cong[where f = concat] map_cong) auto
qed

text \<open>Three nodes in a row and one apart.\<close>

definition row_graph :: "int dgraph" where
  "row_graph = snd (the (addEdge 1 2 None 1 (snd (the (addEdge 0 1 None 1 (addNodes 4 new_graph))))))"

lemma row_reachable: "graph_reachable row_graph"
  unfolding row_graph_def by (intro addEdge_reachable addNodes_reachable graph_reachable.start) code_simp+

lemma row_facts: "g_num_nodes row_graph = 4 \<and> 0 < g_modifications row_graph" by code_simp

lemma row_run: "map_option fst (fw_distance row_graph 0 2 (new_floyd_warshall 0)) = Some 2 \<and>
    map_option fst (fw_distance row_graph 0 3 (new_floyd_warshall 0)) = Some 5 \<and>
    map_option fst (fw_connected row_graph 0 2 (new_floyd_warshall 0)) = Some True"
  by code_simp

subsection \<open>Properties\<close>



text \<open>An update of an outdated result tells the status object about every source and every node, in order, whether the node
  can be reached and at which distance; the polarity given to the constructor does not restrict this.\<close>

theorem floyd_warshall_reports:
  fixes g :: "'w::{one,linorder} dgraph"
  assumes "fw_reachable g fw" "fw_last_modification fw \<noteq> g_modifications g"
  shows "\<exists>fw'. fw_update g fw = Some fw' \<and> fw_reports fw' = fw_reports fw @
    concat (map (\<lambda>s. map (\<lambda>u. (s, u, (s, u) \<in> (edge_step g)\<^sup>*, fw_dist fw' ! s ! u)) [0..<g_num_nodes g]) (fw_sources fw))"
proof -
  have r: "fw_ready g fw" by (rule fw_reachable_ready[OF assms(1)])
  then have ok: "graph_ok g" "status_ok g" "set (fw_sources fw) \<subseteq> {..<g_num_nodes g}" by (auto simp: fw_ready_def)
  obtain fw' where f: "fw_update g fw = Some fw'" "fw_ready g fw'" "fw_result g fw'"
    "fw_reports fw' = fw_reports fw @ all_reports fw' (g_num_nodes g) (fw_sources fw)"
    using fw_ready_update[OF r] assms(2) by metis
  have "fw_polarity fw' = 0" using f(2) by (simp add: fw_ready_def)
  then show ?thesis using f(1,4) reports_result[OF ok(1,2) f(3) _ ok(3)] by simp
qed

lemma floyd_warshall_reports_witness:
  "\<exists>fw. fw_update row_graph (the (fw_addSource 0 (new_floyd_warshall 1))) = Some fw \<and>
     map (\<lambda>(s, u, b, d). (u, b)) (fw_reports fw) = map (\<lambda>u. (u, (0, u) \<in> (edge_step row_graph)\<^sup>*)) [0, 1, 2, 3]"
proof -
  have a: "fw_addSource 0 (new_floyd_warshall 1) = Some ((new_floyd_warshall 1)\<lparr>fw_sources := [0]\<rparr>)"
    by (simp add: fw_addSource_def new_floyd_warshall_def)
  have "fw_reachable row_graph ((new_floyd_warshall 1)\<lparr>fw_sources := [0]\<rparr>)"
    using fw_reachable.source[OF fw_reachable.start[OF row_reachable] _ a] row_facts by simp
  moreover have "- 1 \<noteq> g_modifications row_graph" using row_facts by simp
  ultimately obtain fw' where f: "fw_update row_graph ((new_floyd_warshall 1)\<lparr>fw_sources := [0]\<rparr>) = Some fw'"
    "fw_reports fw' = concat (map (\<lambda>s. map (\<lambda>u. (s, u, (s, u) \<in> (edge_step row_graph)\<^sup>*, fw_dist fw' ! s ! u))
       [0..<g_num_nodes row_graph]) [0])"
    using floyd_warshall_reports[of row_graph "(new_floyd_warshall 1)\<lparr>fw_sources := [0]\<rparr>"] by (auto simp: new_floyd_warshall_def)
  have u: "[0..<g_num_nodes row_graph] = [0, 1, 2, 3]" by code_simp
  show ?thesis unfolding a option.sel using f(1) by (intro exI[of _ fw']) (simp add: f(2) u)
qed


lemma row_path: "map_option fst (getPath row_graph 0 2 [7] (new_floyd_warshall 0)) = Some [7, 0, 1, 2]"
  by code_simp


end
