(* ===== verification/Connected_Components.thy ===== *)
theory Connected_Components
  imports Graphs Union_Find
begin

text \<open>
  \<open>dgl/DisjointSetConnectedComponents.h\<close>: the connected components of the enabled edges of a dynamic graph, by disjoint
  sets.  The calls of the status object are recorded in \<open>cc_reports\<close>.  The members \<open>q\<close>, \<open>check\<close> and the counters of fast
  updates, which no function uses, and the timers are left out.  A failed assertion and an index outside a vector have
  no result.
\<close>

subsection \<open>State\<close>

datatype cc_report = Components int | Connected nat nat bool

record conn_components =
  cc_last_modification :: int
  cc_last_addition :: int
  cc_last_deletion :: int
  cc_history_qhead :: int
  cc_last_history_clear :: int
  cc_hasParents :: bool
  cc_INF :: int
  cc_sets :: disjoint_sets
  cc_polarity :: int
  cc_checks :: "(nat \<times> nat) list"
  cc_full_updates :: nat
  cc_skipped_updates :: nat
  cc_skipable_deletions :: nat
  cc_reports :: "cc_report list"

definition new_components :: "int \<Rightarrow> conn_components" where
  "new_components polarity = \<lparr>cc_last_modification = - 1, cc_last_addition = - 1, cc_last_deletion = - 1,
     cc_history_qhead = 0, cc_last_history_clear = 0, cc_hasParents = False, cc_INF = 0, cc_sets = new_sets,
     cc_polarity = polarity, cc_checks = [], cc_full_updates = 0, cc_skipped_updates = 0, cc_skipable_deletions = 0,
     cc_reports = []\<rparr>"

definition addConnectedCheck :: "nat \<Rightarrow> nat \<Rightarrow> conn_components \<Rightarrow> conn_components" where
  "addConnectedCheck u v c = c\<lparr>cc_checks := cc_checks c @ [(u, v)]\<rparr>"

definition cc_setNodes :: "nat \<Rightarrow> conn_components \<Rightarrow> conn_components option" where
  "cc_setNodes n c = do {
     ds \<leftarrow> AddElements n (cc_sets c);
     Some (c\<lparr>cc_INF := 2 ^ 31 - 1, cc_sets := ds\<rparr>) }"

subsection \<open>The update\<close>

fun unite_edges :: "'w dgraph \<Rightarrow> nat list \<Rightarrow> disjoint_sets \<Rightarrow> disjoint_sets option" where
  "unite_edges g [] ds = Some ds"
| "unite_edges g (e # es) ds = do {
     b \<leftarrow> edgeEnabled g e;
     if b then do {
       fe \<leftarrow> get_at (g_all_edges g) e;
       u \<leftarrow> node_of (fe_from fe);
       v \<leftarrow> node_of (fe_to fe);
       ds \<leftarrow> UnionElements u v ds;
       unite_edges g es ds }
     else unite_edges g es ds }"

definition same_component :: "nat \<Rightarrow> nat \<Rightarrow> disjoint_sets \<Rightarrow> (bool \<times> disjoint_sets) option" where
  "same_component u v ds = do {
     (s, ds) \<leftarrow> FindSet u ds;
     (t, ds) \<leftarrow> FindSet v ds;
     Some (s = t, ds) }"

fun report_checks :: "(nat \<times> nat) list \<Rightarrow> conn_components \<Rightarrow> conn_components option" where
  "report_checks [] c = Some c"
| "report_checks ((u, v) # cs) c = do {
     (b, ds) \<leftarrow> same_component u v (cc_sets c);
     let c = c\<lparr>cc_sets := ds\<rparr>;
     report_checks cs
       (if cc_polarity c \<ge> 0 \<and> b then c\<lparr>cc_reports := cc_reports c @ [Connected u v True]\<rparr>
        else if cc_polarity c \<le> 0 \<and> \<not> b then c\<lparr>cc_reports := cc_reports c @ [Connected u v False]\<rparr>
        else c) }"

definition cc_update :: "'w dgraph \<Rightarrow> conn_components \<Rightarrow> conn_components option" where
  "cc_update g c =
     (if cc_last_modification c > 0 \<and> g_modifications g = cc_last_modification c then
        Some (c\<lparr>cc_skipped_updates := cc_skipped_updates c + 1\<rparr>)
      else do {
        let c = c\<lparr>cc_full_updates := cc_full_updates c + 1\<rparr>;
        let c = (if cc_last_deletion c = g_deletions g then c\<lparr>cc_skipable_deletions := cc_skipable_deletions c + 1\<rparr> else c);
        c \<leftarrow> cc_setNodes (g_num_nodes g) (c\<lparr>cc_hasParents := False, cc_sets := ds_reset (cc_sets c)\<rparr>);
        ds \<leftarrow> unite_edges g [0..<g_num_edges g] (cc_sets c);
        c \<leftarrow> report_checks (cc_checks c)
          (c\<lparr>cc_sets := ds, cc_reports := cc_reports c @ [Components (ds_numSets ds)]\<rparr>);
        Some (c\<lparr>cc_last_modification := g_modifications g, cc_last_deletion := g_deletions g,
          cc_last_addition := g_additions g, cc_history_qhead := historySize g,
          cc_last_history_clear := g_historyclears g\<rparr>) })"

subsection \<open>Queries\<close>

definition cc_connected :: "'w dgraph \<Rightarrow> nat \<Rightarrow> nat \<Rightarrow> conn_components \<Rightarrow> (bool \<times> conn_components) option" where
  "cc_connected g from to c = do {
     c \<leftarrow> cc_update g c;
     (b, ds) \<leftarrow> same_component from to (cc_sets c);
     Some (b, c\<lparr>cc_sets := ds\<rparr>) }"

definition cc_numComponents :: "'w dgraph \<Rightarrow> conn_components \<Rightarrow> (int \<times> conn_components) option" where
  "cc_numComponents g c = do { c \<leftarrow> cc_update g c; Some (ds_numSets (cc_sets c), c) }"

definition cc_getComponent :: "'w dgraph \<Rightarrow> nat \<Rightarrow> conn_components \<Rightarrow> (nat \<times> conn_components) option" where
  "cc_getComponent g node c = do {
     c \<leftarrow> cc_update g c;
     (s, ds) \<leftarrow> FindSet node (cc_sets c);
     Some (s, c\<lparr>cc_sets := ds\<rparr>) }"

definition cc_getElement :: "'w dgraph \<Rightarrow> nat \<Rightarrow> conn_components \<Rightarrow> (nat \<times> conn_components) option" where
  "cc_getElement g s c = do {
     c \<leftarrow> cc_update g c;
     (e, ds) \<leftarrow> GetElement s (cc_sets c);
     Some (e, c\<lparr>cc_sets := ds\<rparr>) }"

end
