(* ===== verification/Connected_Components_Theorems.thy ===== *)
theory Connected_Components_Theorems
  imports Connected_Components Graph_Edges Union_Find_Theorems
begin

text \<open>
  The sets of \<open>DisjointSetsConnectedComponents\<close> are the connected components of the enabled edges after every interleaving of
  changes of the graph, checks and queries; the reports and the queries say so.
\<close>

subsection \<open>Uniting the edges\<close>

lemma UnionElements_ends:
  assumes rep: "dsets.represents ends T d" and e: "ends e = (u, v)" "u < ds_numElements d" "v < ds_numElements d"
  obtains d' where "UnionElements u v d = Some d'" "dsets.represents ends (insert e T) d'" "ds_elements d' = ds_elements d"
    "ds_numElements d' = ds_numElements d"
proof -
  obtain d1 d2 where f: "FindSet u d = Some (ds_set d u, d1)" "FindSet v d1 = Some (ds_set d v, d2)" "same_sets d d2"
    "ds_elements d2 = ds_elements d"
    using find_ends[OF rep e(2,3)] by metis
  obtain d3 where "UnionSets (ds_set d u) (ds_set d v) d2 = Some d3"
    "dsets.represents ends (insert e T) d3" "ds_elements d3 = ds_elements d" "ds_numElements d3 = ds_numElements d"
    using unite_ends[OF rep _ _ f(3,4), of e] e by auto
  then show ?thesis using that f e by (simp add: UnionElements_def)
qed

lemma unite_edges_ok:
  assumes ok: "graph_ok g" "status_ok g"
  shows "dsets.represents (g_ends g) T d \<Longrightarrow> ds_numElements d = g_num_nodes g \<Longrightarrow> set es \<subseteq> {..<g_next_id g} \<Longrightarrow>
    \<exists>d'. unite_edges g es d = Some d' \<and> dsets.represents (g_ends g) (T \<union> (set es \<inter> enabled_edges g)) d' \<and>
      ds_elements d' = ds_elements d \<and> ds_numElements d' = g_num_nodes g"
proof (induction es arbitrary: T d)
  case (Cons e es)
  have st: "length (g_status g) = g_next_id g" using ok by (simp add: graph_ok_def sizes_ok_def)
  show ?case
  proof (cases "e \<in> enabled_edges g")
    case True
    note f = enabled_facts[OF ok True]
    obtain d1 where d1: "UnionElements (fst (g_ends g e)) (snd (g_ends g e)) d = Some d1"
      "dsets.represents (g_ends g) (insert e T) d1" "ds_elements d1 = ds_elements d" "ds_numElements d1 = ds_numElements d"
      using UnionElements_ends[OF Cons.prems(1), of e "fst (g_ends g e)" "snd (g_ends g e)"] f(5,6) Cons.prems(2) by auto
    have s: "insert e T \<union> (set es \<inter> enabled_edges g) = T \<union> (set (e # es) \<inter> enabled_edges g)" using True by auto
    show ?thesis using Cons.IH[OF d1(2)] d1 f(1-4) Cons.prems s by simp
  next
    case False
    then have "edgeEnabled g e = Some False" using Cons.prems(3) st by (simp add: enabled_edges_def edgeEnabled_def)
    then show ?thesis using Cons.IH[OF Cons.prems(1,2)] Cons.prems(3) False by simp
  qed
qed simp

subsection \<open>One update\<close>

definition cc_result :: "'w dgraph \<Rightarrow> conn_components \<Rightarrow> bool" where
  "cc_result g c \<longleftrightarrow> dsets.represents (g_ends g) (enabled_edges g) (cc_sets c) \<and> ds_numElements (cc_sets c) = g_num_nodes g \<and>
     cache_ok (cc_sets c)"

abbreviation linked :: "'w dgraph \<Rightarrow> nat \<Rightarrow> nat \<Rightarrow> bool" where
  "linked g \<equiv> conn (g_ends g) (enabled_edges g)"

lemma cc_result_sets:
  assumes "cc_result g c" "same_sets (cc_sets c) d" "cache_ok d"
  shows "cc_result g (c\<lparr>cc_sets := d\<rparr>)"
  using assms represents_same[of "g_ends g" "enabled_edges g" "cc_sets c" d] same_setsD(2)[OF assms(2)] by (simp add: cc_result_def)

lemma same_component_ok:
  assumes r: "cc_result g c" and uv: "u < g_num_nodes g" "v < g_num_nodes g"
  obtains d where "same_component u v (cc_sets c) = Some (linked g u v, d)" "same_sets (cc_sets c) d" "cache_ok d"
proof -
  obtain d1 d2 where f: "FindSet u (cc_sets c) = Some (ds_set (cc_sets c) u, d1)" "FindSet v d1 = Some (ds_set (cc_sets c) v, d2)"
    "same_sets (cc_sets c) d2" "ds_elements d2 = ds_elements (cc_sets c)" "ds_set (cc_sets c) u = ds_set (cc_sets c) v \<longleftrightarrow> linked g u v"
    using find_ends[of "g_ends g" "enabled_edges g" "cc_sets c" u v] r uv unfolding cc_result_def by metis
  then show ?thesis
    using that[of d2] r cache_ok_same[of "cc_sets c" d2] by (simp add: same_component_def cc_result_def)
qed

definition check_reports :: "int \<Rightarrow> 'w dgraph \<Rightarrow> (nat \<times> nat) list \<Rightarrow> cc_report list" where
  "check_reports p g cs = map (\<lambda>(u, v). Connected u v (linked g u v))
     (filter (\<lambda>(u, v). if linked g u v then p \<ge> 0 else p \<le> 0) cs)"

lemma report_checks_ok:
  "cc_result g c \<Longrightarrow> \<forall>(u, v) \<in> set cs. u < g_num_nodes g \<and> v < g_num_nodes g \<Longrightarrow>
   \<exists>d. report_checks cs c = Some (c\<lparr>cc_sets := d, cc_reports := cc_reports c @ check_reports (cc_polarity c) g cs\<rparr>) \<and>
     same_sets (cc_sets c) d \<and> cache_ok d"
proof (induction cs arbitrary: c)
  case Nil
  then show ?case by (intro exI[of _ "cc_sets c"]) (simp add: check_reports_def cc_result_def dsets.represents_def same_sets_def)
next
  case (Cons p cs)
  obtain u v where p: "p = (u, v)" by fastforce
  obtain d where d: "same_component u v (cc_sets c) = Some (linked g u v, d)" "same_sets (cc_sets c) d" "cache_ok d"
    using same_component_ok[OF Cons.prems(1), of u v] Cons.prems(2) p by auto
  define rs where "rs = check_reports (cc_polarity c) g [p]"
  let ?c = "c\<lparr>cc_sets := d, cc_reports := cc_reports c @ rs\<rparr>"
  have "cc_result g ?c" using cc_result_sets[OF Cons.prems(1) d(2,3)] by (simp add: cc_result_def)
  then obtain d' where d': "report_checks cs ?c = Some (?c\<lparr>cc_sets := d', cc_reports := cc_reports ?c @ check_reports (cc_polarity ?c) g cs\<rparr>)"
    "same_sets d d'" "cache_ok d'"
    using Cons.IH[of ?c] Cons.prems(2) by auto
  have "report_checks (p # cs) c = report_checks cs ?c"
    using d(1) by (auto simp: p rs_def check_reports_def)
  moreover have "rs @ check_reports (cc_polarity c) g cs = check_reports (cc_polarity c) g (p # cs)"
    by (simp add: rs_def check_reports_def)
  ultimately show ?case using d' same_sets_trans[OF d(2) d'(2)] by (intro exI[of _ d']) (simp add: append_eq_append_conv2)
qed

definition cc_number :: "'w dgraph \<Rightarrow> int" where
  "cc_number g = int (comps (g_ends g) (g_num_nodes g) (enabled_edges g))"

lemma result_number: "cc_result g c \<Longrightarrow> ds_numSets (cc_sets c) = cc_number g"
  using dsets.represents_sets[of "g_ends g" "enabled_edges g" "cc_sets c"] by (simp add: cc_result_def cc_number_def)

lemma cc_update_ok:
  assumes ok: "graph_ok g" "status_ok g" and cs: "\<forall>(u, v) \<in> set (cc_checks c). u < g_num_nodes g \<and> v < g_num_nodes g"
    and stale: "\<not> (cc_last_modification c > 0 \<and> g_modifications g = cc_last_modification c)"
  obtains c' where "cc_update g c = Some c'" "cc_result g c'" "cc_last_modification c' = g_modifications g"
    "cc_checks c' = cc_checks c" "cc_polarity c' = cc_polarity c"
    "cc_reports c' = cc_reports c @ Components (cc_number g) # check_reports (cc_polarity c) g (cc_checks c)"
proof -
  obtain d0 where d0: "AddElements (g_num_nodes g) (ds_reset (cc_sets c)) = Some d0" "dsets.represents (g_ends g) {} d0"
    "ds_numElements d0 = g_num_nodes g" "ds_elements d0 = []" by (rule fresh_sets)
  have ids: "g_num_edges g = g_next_id g" "length (g_status g) = g_next_id g" using ok by (auto simp: graph_ok_def sizes_ok_def)
  have en: "{} \<union> (set [0..<g_num_edges g] \<inter> enabled_edges g) = enabled_edges g"
    using ids by (auto simp: enabled_edges_def)
  obtain d1 where d1: "unite_edges g [0..<g_num_edges g] d0 = Some d1" "dsets.represents (g_ends g) (enabled_edges g) d1"
    "ds_elements d1 = []" "ds_numElements d1 = g_num_nodes g"
    using unite_edges_ok[OF ok d0(2,3), of "[0..<g_num_edges g]"] d0(4) ids(1) unfolding en by (auto simp: lessThan_atLeast0)
  have ds: "ds_ok d1" using d1(2) by (simp add: dsets.represents_def)
  have "cache_ok d1" using d1(3) numSets_classes[OF ds] by (auto simp: cache_ok_def)
  define m where "m = (if cc_last_deletion c = g_deletions g then 1 else 0::nat)"
  define c1 where "c1 = c\<lparr>cc_full_updates := cc_full_updates c + 1, cc_skipable_deletions := cc_skipable_deletions c + m,
    cc_hasParents := False, cc_INF := 2 ^ 31 - 1, cc_sets := d1, cc_reports := cc_reports c @ [Components (ds_numSets d1)]\<rparr>"
  have r1: "cc_result g c1" using d1 \<open>cache_ok d1\<close> by (simp add: c1_def cc_result_def)
  obtain d2 where d2: "report_checks (cc_checks c) c1 = Some (c1\<lparr>cc_sets := d2, cc_reports := cc_reports c1 @ check_reports (cc_polarity c1) g (cc_checks c)\<rparr>)"
    "same_sets (cc_sets c1) d2" "cache_ok d2"
    using report_checks_ok[OF r1 cs] by blast
  let ?c = "c1\<lparr>cc_sets := d2, cc_reports := cc_reports c1 @ check_reports (cc_polarity c1) g (cc_checks c),
    cc_last_modification := g_modifications g, cc_last_deletion := g_deletions g, cc_last_addition := g_additions g,
    cc_history_qhead := historySize g, cc_last_history_clear := g_historyclears g\<rparr>"
  have n: "ds_numSets d1 = cc_number g" using result_number[OF r1] by (simp add: c1_def)
  have "cc_update g c = Some ?c"
    using stale d0(1) d1(1) d2(1) by (auto simp: cc_update_def cc_setNodes_def c1_def m_def Let_def)
  moreover have "cc_result g ?c" using cc_result_sets[OF r1 d2(2,3)] by (simp add: cc_result_def)
  ultimately show ?thesis using that[of ?c] n by (simp add: c1_def)
qed

subsection \<open>Interleaving changes and queries\<close>

inductive cc_reachable :: "'w::{one,linorder} dgraph \<Rightarrow> conn_components \<Rightarrow> bool" where
  start: "graph_reachable g \<Longrightarrow> cc_reachable g (new_components p)"
| checked: "cc_reachable g c \<Longrightarrow> u < g_num_nodes g \<Longrightarrow> v < g_num_nodes g \<Longrightarrow> cc_reachable g (addConnectedCheck u v c)"
| change: "cc_reachable g c \<Longrightarrow> graph_step g h \<Longrightarrow> g_modifications g \<le> g_modifications h \<Longrightarrow>
    g_num_nodes g \<le> g_num_nodes h \<Longrightarrow> cc_reachable h c"
| update: "cc_reachable g c \<Longrightarrow> cc_update g c = Some c' \<Longrightarrow> cc_reachable g c'"
| connected: "cc_reachable g c \<Longrightarrow> cc_connected g u v c = Some (b, c') \<Longrightarrow> cc_reachable g c'"
| component: "cc_reachable g c \<Longrightarrow> cc_getComponent g u c = Some (s, c') \<Longrightarrow> cc_reachable g c'"
| element: "cc_reachable g c \<Longrightarrow> int s < cc_number g \<Longrightarrow> cc_getElement g s c = Some (u, c') \<Longrightarrow> cc_reachable g c'"

definition cc_current :: "'w dgraph \<Rightarrow> conn_components \<Rightarrow> bool" where
  "cc_current g c \<longleftrightarrow> cc_last_modification c > 0 \<and> g_modifications g = cc_last_modification c"

definition cc_ready :: "'w dgraph \<Rightarrow> conn_components \<Rightarrow> bool" where
  "cc_ready g c \<longleftrightarrow> graph_ok g \<and> status_ok g \<and> (\<forall>(u, v) \<in> set (cc_checks c). u < g_num_nodes g \<and> v < g_num_nodes g) \<and>
     (cc_last_modification c > 0 \<longrightarrow> cc_last_modification c \<le> g_modifications g) \<and> (cc_current g c \<longrightarrow> cc_result g c)"

lemma cc_result_same:
  assumes "same_graph g h"
  shows "cc_result h c = cc_result g c"
proof -
  have "g_ends h = g_ends g" by (rule ends_same) (use assms in \<open>simp add: same_graph_def\<close>)
  moreover have "enabled_edges h = enabled_edges g" "g_num_nodes h = g_num_nodes g"
    using assms by (simp_all add: same_graph_def enabled_edges_def same_edges_def)
  ultimately show ?thesis by (simp add: cc_result_def)
qed

lemma cc_ready_update:
  assumes "cc_ready g c"
  obtains c' where "cc_update g c = Some c'" "cc_ready g c'" "cc_result g c'"
    "cc_reports c' = cc_reports c @
       (if cc_current g c then [] else Components (cc_number g) # check_reports (cc_polarity c) g (cc_checks c))"
proof (cases "cc_current g c")
  case True
  let ?c = "c\<lparr>cc_skipped_updates := cc_skipped_updates c + 1\<rparr>"
  have "cc_update g c = Some ?c" using True by (simp add: cc_update_def cc_current_def)
  moreover have "cc_ready g ?c" "cc_result g ?c" using assms True by (auto simp: cc_ready_def cc_result_def cc_current_def)
  ultimately show ?thesis using that[of ?c] True by simp
next
  case False
  obtain c' where c': "cc_update g c = Some c'" "cc_result g c'" "cc_last_modification c' = g_modifications g"
    "cc_checks c' = cc_checks c"
    "cc_reports c' = cc_reports c @ Components (cc_number g) # check_reports (cc_polarity c) g (cc_checks c)"
    using cc_update_ok[of g c] assms False unfolding cc_ready_def cc_current_def by blast
  then have "cc_ready g c'" using assms by (simp add: cc_ready_def)
  then show ?thesis using that c' False by simp
qed

lemma cc_ready_sets:
  assumes "cc_ready g c" "cc_result g c" "same_sets (cc_sets c) d" "cache_ok d"
  shows "cc_ready g (c\<lparr>cc_sets := d\<rparr>)"
  using assms(1) cc_result_sets[OF assms(2-4)] by (simp add: cc_ready_def cc_current_def)

lemma connected_ok:
  assumes "cc_ready g c" "u < g_num_nodes g" "v < g_num_nodes g"
  obtains c' where "cc_connected g u v c = Some (linked g u v, c')" "cc_ready g c'"
proof -
  obtain c1 where c1: "cc_update g c = Some c1" "cc_ready g c1" "cc_result g c1" using cc_ready_update[OF assms(1)] by metis
  obtain d where d: "same_component u v (cc_sets c1) = Some (linked g u v, d)" "same_sets (cc_sets c1) d" "cache_ok d"
    using same_component_ok[OF c1(3) assms(2,3)] by blast
  show ?thesis using that[OF _ cc_ready_sets[OF c1(2,3) d(2,3)]] c1(1) d(1) by (simp add: cc_connected_def)
qed

lemma component_ok:
  assumes "cc_ready g c" "u < g_num_nodes g"
  obtains c1 c' where "cc_update g c = Some c1" "cc_result g c1" "cc_getComponent g u c = Some (ds_set (cc_sets c1) u, c')" "cc_ready g c'"
proof -
  obtain c1 where c1: "cc_update g c = Some c1" "cc_ready g c1" "cc_result g c1" using cc_ready_update[OF assms(1)] by metis
  have r: "ds_ok (cc_sets c1)" "cache_ok (cc_sets c1)" "u < ds_numElements (cc_sets c1)"
    using c1(3) assms(2) by (auto simp: cc_result_def dsets.represents_def)
  obtain d where d: "FindSet u (cc_sets c1) = Some (ds_set (cc_sets c1) u, d)" "same_sets (cc_sets c1) d"
    "ds_elements d = ds_elements (cc_sets c1)" using FindSet_same[OF r(1,3)] by blast
  show ?thesis
    using that[OF c1(1,3) _ cc_ready_sets[OF c1(2,3) d(2) cache_ok_same[OF r(2) d(2,3)]]] c1(1) d(1) by (simp add: cc_getComponent_def)
qed

text \<open>Which element stands for a set does not depend on the number asked for first.\<close>

lemma GetElement_list:
  assumes "GetElement 0 d = Some (x, d')" "cached es d'" "ds_numSets d' = ds_numSets d" "k < length es"
  shows "GetElement k d = Some (es ! k, d')"
  using assms by (auto simp: GetElement_def cached_def bind_eq_Some_conv split: if_splits)

lemma GetElement_all:
  assumes ok: "ds_ok d" "cache_ok d"
  obtains es where "transversal d es"
    "\<And>k. k < length es \<Longrightarrow> \<exists>d'. GetElement k d = Some (es ! k, d') \<and> same_sets d d' \<and> cache_ok d'"
proof (cases "0 < ds_numSets d")
  case True
  obtain es d' where d': "GetElement 0 d = Some (es ! 0, d')" "same_sets d d'" "cached es d'" "transversal d es" "cache_ok d'"
    using GetElement_same[OF ok, of 0] True by auto
  show ?thesis using that[OF d'(4)] GetElement_list[OF d'(1,3) same_setsD(3)[OF d'(2)]] d'(2,5) by blast
next
  case False
  then have "ds_numElements d = 0" "ds_numSets d = 0" using numSets_classes[OF ok(1)] by auto
  then have "transversal d []" by (simp add: transversal_def)
  then show ?thesis using that[of "[]"] by simp
qed

lemma elements_ok:
  assumes "cc_ready g c"
  obtains c1 es where "cc_update g c = Some c1" "cc_result g c1" "transversal (cc_sets c1) es"
    "\<And>s. s < length es \<Longrightarrow> \<exists>c'. cc_getElement g s c = Some (es ! s, c') \<and> cc_ready g c'"
proof -
  obtain c1 where c1: "cc_update g c = Some c1" "cc_ready g c1" "cc_result g c1" using cc_ready_update[OF assms] by metis
  have r: "ds_ok (cc_sets c1)" "cache_ok (cc_sets c1)" using c1(3) by (auto simp: cc_result_def dsets.represents_def)
  obtain es where es: "transversal (cc_sets c1) es"
    "\<And>k. k < length es \<Longrightarrow> \<exists>d. GetElement k (cc_sets c1) = Some (es ! k, d) \<and> same_sets (cc_sets c1) d \<and> cache_ok d"
    using GetElement_all[OF r] by blast
  have "\<exists>c'. cc_getElement g s c = Some (es ! s, c') \<and> cc_ready g c'" if s: "s < length es" for s
  proof -
    obtain d where d: "GetElement s (cc_sets c1) = Some (es ! s, d)" "same_sets (cc_sets c1) d" "cache_ok d" using es(2)[OF s] by blast
    show ?thesis using cc_ready_sets[OF c1(2,3) d(2,3)] c1(1) d(1) by (simp add: cc_getElement_def)
  qed
  then show ?thesis using that[OF c1(1,3) es(1)] by blast
qed

lemma find_in_range: "FindSet u d = Some r \<Longrightarrow> u < ds_numElements d"
  by (auto simp: FindSet_def bind_eq_Some_conv)

lemma cc_reachable_ready: "cc_reachable g c \<Longrightarrow> cc_ready g c"
proof (induction rule: cc_reachable.induct)
  case (start g p)
  then show ?case using reachable_graph_ok[of g] reachable_status_ok[of g]
    by (simp add: cc_ready_def new_components_def cc_current_def)
next
  case (checked g c u v)
  then show ?case by (auto simp: cc_ready_def addConnectedCheck_def cc_current_def cc_result_def)
next
  case (change g c h)
  have ok: "graph_ok g" "status_ok g" using change.IH by (auto simp: cc_ready_def)
  have s: "status_ok h" "g_modifications g < g_modifications h \<or> same_graph g h"
    using graph_step_status[OF change.hyps(2) ok] change.hyps(3) by blast+
  have "graph_ok h" using graph_step_ok[OF change.hyps(2) ok(1)] by blast
  moreover have "cc_result h c" if "cc_current h c"
    using s(2) that change.IH change.hyps(3) cc_result_same[of g h c] by (auto simp: cc_current_def cc_ready_def same_graph_def)
  moreover have "\<forall>(u, v) \<in> set (cc_checks c). u < g_num_nodes h \<and> v < g_num_nodes h"
    using change.IH change.hyps(4) by (fastforce simp: cc_ready_def)
  ultimately show ?case using change.IH change.hyps(3) s(1) unfolding cc_ready_def by linarith
next
  case (update g c c')
  then show ?case using cc_ready_update[OF update.IH] by (metis option.inject)
next
  case (connected g c u v b c')
  obtain c1 where c1: "cc_update g c = Some c1" "cc_result g c1" using cc_ready_update[OF connected.IH] by metis
  have n: "ds_numElements (cc_sets c1) = g_num_nodes g" "ds_ok (cc_sets c1)" using c1(2) by (auto simp: cc_result_def dsets.represents_def)
  obtain s d r where d: "FindSet u (cc_sets c1) = Some (s, d)" "FindSet v d = Some r"
    using connected.hyps(2) c1(1) by (auto simp: cc_connected_def same_component_def bind_eq_Some_conv)
  have u: "u < g_num_nodes g" using find_in_range[OF d(1)] n by simp
  have "same_sets (cc_sets c1) d" using FindSet_same[OF n(2), of u] d(1) u n(1) by auto
  then have "v < g_num_nodes g" using find_in_range[OF d(2)] same_setsD(2)[of "cc_sets c1" d] n by simp
  then show ?case using connected_ok[OF connected.IH u, of v] connected.hyps(2) by auto
next
  case (component g c u s c')
  obtain c1 where c1: "cc_update g c = Some c1" "cc_result g c1" using cc_ready_update[OF component.IH] by metis
  have "u < g_num_nodes g"
    using component.hyps(2) c1 find_in_range[of u "cc_sets c1"] by (auto simp: cc_getComponent_def cc_result_def bind_eq_Some_conv)
  then show ?case using component_ok[OF component.IH, of u] component.hyps(2) by auto
next
  case (element g c s u c')
  obtain c1 es where e: "cc_result g c1" "transversal (cc_sets c1) es"
    "\<And>s. s < length es \<Longrightarrow> \<exists>c'. cc_getElement g s c = Some (es ! s, c') \<and> cc_ready g c'"
    using elements_ok[OF element.IH] by metis
  have "s < length es" using e(2) result_number[OF e(1)] element.hyps(2) by (simp add: transversal_def)
  then show ?case using e(3) element.hyps(3) by force
qed

lemma linked_sets:
  "cc_result g c \<Longrightarrow> u < g_num_nodes g \<Longrightarrow> v < g_num_nodes g \<Longrightarrow> ds_set (cc_sets c) u = ds_set (cc_sets c) v \<longleftrightarrow> linked g u v"
  using dsets.representsD[of "g_ends g" "enabled_edges g" "cc_sets c" u v] by (simp add: cc_result_def same_set_def)

lemma transversal_linked:
  assumes r: "cc_result g c" and t: "transversal (cc_sets c) es"
  shows "int (length es) = cc_number g" "set es \<subseteq> {..<g_num_nodes g}" "\<forall>v < g_num_nodes g. \<exists>!e. e \<in> set es \<and> linked g v e"
proof -
  have n: "ds_numElements (cc_sets c) = g_num_nodes g" using r by (simp add: cc_result_def)
  note t' = t[unfolded transversal_def n]
  show "int (length es) = cc_number g" "set es \<subseteq> {..<g_num_nodes g}" using t' result_number[OF r] by auto
  show "\<forall>v < g_num_nodes g. \<exists>!e. e \<in> set es \<and> linked g v e"
  proof (intro allI impI)
    fix v assume v: "v < g_num_nodes g"
    have s: "same_set (cc_sets c) v e \<longleftrightarrow> linked g v e" if "e \<in> set es" for e
      using linked_sets[OF r v, of e] that t' by (simp add: same_set_def)
    obtain e where e: "e \<in> set es" "same_set (cc_sets c) v e" using t' v by blast
    have "f = e" if f: "f \<in> set es" "linked g v f" for f
      using t' f s[OF f(1)] e by (metis same_set_def)
    then show "\<exists>!e. e \<in> set es \<and> linked g v e" using e s by blast
  qed
qed

subsection \<open>Properties\<close>


text \<open>Two pairs of connected nodes and one node apart.\<close>

definition pair_graph :: "int dgraph" where
  "pair_graph = snd (the (addEdge 2 3 None 1 (snd (the (addEdge 1 0 None 1 (addNodes 5 new_graph))))))"

lemma pair_reachable: "graph_reachable pair_graph"
  unfolding pair_graph_def by (intro addEdge_reachable addNodes_reachable graph_reachable.start) code_simp+

lemma pair_facts: "g_num_nodes pair_graph = 5" by code_simp

lemma pair_run: "map_option fst (cc_numComponents pair_graph (new_components 0)) = Some 3 \<and>
    map_option fst (cc_connected pair_graph 0 1 (new_components 0)) = Some True \<and>
    map_option fst (cc_connected pair_graph 1 2 (new_components 0)) = Some False"
  by code_simp


text \<open>An update of an outdated result first reports the number of components, then every pair asked for, in the order they
  were asked for, whether it is connected: all pairs with polarity 0, the connected ones only with a positive and the
  others only with a negative polarity. An update of a graph that has not changed reports nothing.\<close>

theorem component_reports:
  fixes g :: "'w::{one,linorder} dgraph"
  assumes "cc_reachable g c"
  shows "\<exists>c'. cc_update g c = Some c' \<and> cc_reachable g c' \<and> cc_reports c' = cc_reports c @
    (if cc_last_modification c > 0 \<and> g_modifications g = cc_last_modification c then []
     else Components (cc_number g) # map (\<lambda>(u, v). Connected u v (linked g u v))
       (filter (\<lambda>(u, v). if linked g u v then cc_polarity c \<ge> 0 else cc_polarity c \<le> 0) (cc_checks c)))"
proof -
  obtain c' where c': "cc_update g c = Some c'" "cc_reports c' = cc_reports c @
      (if cc_current g c then [] else Components (cc_number g) # check_reports (cc_polarity c) g (cc_checks c))"
    using cc_ready_update[OF cc_reachable_ready[OF assms]] by metis
  then show ?thesis using cc_reachable.update[OF assms c'(1)] by (simp add: cc_current_def check_reports_def)
qed

lemma component_reports_witness:
  "\<exists>c'. cc_update pair_graph (addConnectedCheck 0 1 (new_components 1)) = Some c' \<and>
    cc_reports c' = Components (cc_number pair_graph) # (if linked pair_graph 0 1 then [Connected 0 1 True] else [])"
proof -
  have "cc_reachable pair_graph (addConnectedCheck 0 1 (new_components 1))"
    using cc_reachable.checked[OF cc_reachable.start[OF pair_reachable]] pair_facts by simp
  from component_reports[OF this] show ?thesis by (auto simp: addConnectedCheck_def new_components_def)
qed

end
