(* ===== verification/Hash_Maps.thy ===== *)
theory Hash_Maps
  imports Prelude "HOL-Library.Word"
begin

text \<open>
  \<open>mtl/Map.h\<close>: the hash functions of 32-bit values, and the hash table \<open>Map\<close> with a vector of pairs per bucket.  The functors
  \<open>H\<close> and \<open>E\<close> of the template are the arguments \<open>h\<close> and \<open>eq\<close>.  A null table is \<open>None\<close>; following it, an index outside a vector,
  a division by a capacity of 0 and a failed assertion have no result.  Hashing of strings, rationals and doubles, which
  the standard library or the machine format decide, is left out.
\<close>

unbundle bit_operations_syntax

subsection \<open>Hash functions\<close>

definition hash_bool :: "bool \<Rightarrow> 32 word" where
  "hash_bool x = (if x then 1 else 0)"

definition hash_uint64 :: "64 word \<Rightarrow> 32 word" where
  "hash_uint64 x = ucast x"

definition hash_int32 :: "int \<Rightarrow> 32 word" where
  "hash_int32 x = word_of_int x"

definition hash_int64 :: "int \<Rightarrow> 32 word" where
  "hash_int64 x = word_of_int x"

text \<open>The second argument is the hash of the value to be combined.\<close>

definition hash_combine :: "32 word \<Rightarrow> 32 word \<Rightarrow> 32 word" where
  "hash_combine seed v = v + 0x9e3779b9 + push_bit 6 seed + drop_bit 2 seed"

definition hash_pair :: "int \<times> int \<Rightarrow> 32 word" where
  "hash_pair x = hash_combine (word_of_int (fst x)) (hash_int32 (snd x))"

text \<open>A tuple is given by the hashes of its components; the result of the recursive call is dropped, as in the code.\<close>

fun hash_value_impl :: "nat \<Rightarrow> 32 word \<Rightarrow> 32 word list \<Rightarrow> 32 word option" where
  "hash_value_impl 0 seed t = do { v \<leftarrow> get_at t 0; Some (hash_combine seed v) }"
| "hash_value_impl (Suc index) seed t = do {
     _ \<leftarrow> hash_value_impl index seed t;
     v \<leftarrow> get_at t (Suc index);
     Some (hash_combine seed v) }"

definition hash_tuple :: "32 word list \<Rightarrow> 32 word option" where
  "hash_tuple t = hash_value_impl (length t - 1) 0 t"

subsection \<open>The table\<close>

definition primes :: "nat list" where
  "primes = [31, 73, 151, 313, 643, 1291, 2593, 5233, 10501, 21013, 42073, 84181, 168451, 337219, 674701, 1349473,
     2699299, 5398891, 10798093, 21596719, 43193641, 86387383, 172775299, 345550609, 691101253]"

record ('k, 'd) hash_map =
  hm_table :: "('k \<times> 'd) list list option"
  hm_cap :: nat
  hm_size :: nat

definition new_map :: "('k, 'd) hash_map" where
  "new_map = \<lparr>hm_table = None, hm_cap = 0, hm_size = 0\<rparr>"

definition checkCap :: "nat \<Rightarrow> ('k, 'd) hash_map \<Rightarrow> bool" where
  "checkCap new_size m \<longleftrightarrow> new_size > hm_cap m"

definition hm_index :: "('k \<Rightarrow> 32 word) \<Rightarrow> 'k \<Rightarrow> ('k, 'd) hash_map \<Rightarrow> nat option" where
  "hm_index h k m = (if hm_cap m = 0 then None else Some (unat (h k mod of_nat (hm_cap m))))"

definition hm_put :: "('k \<Rightarrow> 32 word) \<Rightarrow> 'k \<Rightarrow> 'd \<Rightarrow> ('k, 'd) hash_map \<Rightarrow> ('k, 'd) hash_map option" where
  "hm_put h k d m = do {
     t \<leftarrow> hm_table m;
     i \<leftarrow> hm_index h k m;
     ps \<leftarrow> get_at t i;
     t \<leftarrow> set_at t i (ps @ [(k, d)]);
     Some (m\<lparr>hm_table := Some t\<rparr>) }"

text \<open>The loop over the primes: \<open>ps\<close> are those that have not been looked at.\<close>

fun next_prime :: "nat \<Rightarrow> nat \<Rightarrow> nat list \<Rightarrow> nat" where
  "next_prime cap newsize [] = newsize"
| "next_prime cap newsize (p # ps) = (if newsize \<le> cap then next_prime cap p ps else newsize)"

fun put_row :: "('k \<Rightarrow> 32 word) \<Rightarrow> ('k \<times> 'd) list \<Rightarrow> ('k, 'd) hash_map \<Rightarrow> ('k, 'd) hash_map option" where
  "put_row h [] m = Some m"
| "put_row h ((k, d) # ps) m = do { m \<leftarrow> hm_put h k d m; put_row h ps m }"

fun put_rows :: "('k \<Rightarrow> 32 word) \<Rightarrow> ('k \<times> 'd) list list \<Rightarrow> nat list \<Rightarrow> ('k, 'd) hash_map \<Rightarrow> ('k, 'd) hash_map option" where
  "put_rows h old [] m = Some m"
| "put_rows h old (i # is) m = do { ps \<leftarrow> get_at old i; m \<leftarrow> put_row h ps m; put_rows h old is m }"

definition rehash :: "('k \<Rightarrow> 32 word) \<Rightarrow> ('k, 'd) hash_map \<Rightarrow> ('k, 'd) hash_map option" where
  "rehash h m =
     (let old = (case hm_table m of None \<Rightarrow> [] | Some t \<Rightarrow> t);
          newsize = next_prime (hm_cap m) (hd primes) (tl primes)
      in put_rows h old [0..<hm_cap m] (m\<lparr>hm_table := Some (replicate newsize []), hm_cap := newsize\<rparr>))"

subsection \<open>Operations\<close>

definition hm_bucket :: "('k \<Rightarrow> 32 word) \<Rightarrow> 'k \<Rightarrow> ('k, 'd) hash_map \<Rightarrow> ('k \<times> 'd) list option" where
  "hm_bucket h k m = do { t \<leftarrow> hm_table m; i \<leftarrow> hm_index h k m; get_at t i }"

fun last_match :: "('k \<Rightarrow> 'k \<Rightarrow> bool) \<Rightarrow> 'k \<Rightarrow> ('k \<times> 'd) list \<Rightarrow> 'd option \<Rightarrow> 'd option" where
  "last_match eq k [] res = res"
| "last_match eq k ((x, d) # ps) res = last_match eq k ps (if eq x k then Some d else res)"

fun first_match :: "('k \<Rightarrow> 'k \<Rightarrow> bool) \<Rightarrow> 'k \<Rightarrow> ('k \<times> 'd) list \<Rightarrow> 'd option" where
  "first_match eq k [] = None"
| "first_match eq k ((x, d) # ps) = (if eq x k then Some d else first_match eq k ps)"

fun match_index :: "('k \<Rightarrow> 'k \<Rightarrow> bool) \<Rightarrow> 'k \<Rightarrow> ('k \<times> 'd) list \<Rightarrow> nat" where
  "match_index eq k [] = 0"
| "match_index eq k ((x, d) # ps) = (if eq x k then 0 else Suc (match_index eq k ps))"

text \<open>\<open>operator[]\<close> fails an assertion when the key is absent.\<close>

definition hm_at :: "('k \<Rightarrow> 32 word) \<Rightarrow> ('k \<Rightarrow> 'k \<Rightarrow> bool) \<Rightarrow> 'k \<Rightarrow> ('k, 'd) hash_map \<Rightarrow> 'd option" where
  "hm_at h eq k m = do { check (hm_size m \<noteq> 0); ps \<leftarrow> hm_bucket h k m; last_match eq k ps None }"

definition hm_insert :: "('k \<Rightarrow> 32 word) \<Rightarrow> 'k \<Rightarrow> 'd \<Rightarrow> ('k, 'd) hash_map \<Rightarrow> ('k, 'd) hash_map option" where
  "hm_insert h k d m = do {
     m \<leftarrow> (if checkCap (hm_size m + 1) m then rehash h m else Some m);
     m \<leftarrow> hm_put h k d m;
     Some (m\<lparr>hm_size := hm_size m + 1\<rparr>) }"

text \<open>\<open>peek\<close> returns whether the key is there, and its data through a reference.\<close>

definition hm_peek :: "('k \<Rightarrow> 32 word) \<Rightarrow> ('k \<Rightarrow> 'k \<Rightarrow> bool) \<Rightarrow> 'k \<Rightarrow> ('k, 'd) hash_map \<Rightarrow> 'd option option" where
  "hm_peek h eq k m = (if hm_size m = 0 then Some None else do { ps \<leftarrow> hm_bucket h k m; Some (first_match eq k ps) })"

definition hm_has :: "('k \<Rightarrow> 32 word) \<Rightarrow> ('k \<Rightarrow> 'k \<Rightarrow> bool) \<Rightarrow> 'k \<Rightarrow> ('k, 'd) hash_map \<Rightarrow> bool option" where
  "hm_has h eq k m =
     (if hm_size m = 0 then Some False else do { ps \<leftarrow> hm_bucket h k m; Some (list_ex (\<lambda>p. eq (fst p) k) ps) })"

definition hm_remove ::
  "('k \<Rightarrow> 32 word) \<Rightarrow> ('k \<Rightarrow> 'k \<Rightarrow> bool) \<Rightarrow> 'k \<Rightarrow> ('k, 'd) hash_map \<Rightarrow> ('k, 'd) hash_map option" where
  "hm_remove h eq k m = do {
     t \<leftarrow> hm_table m;
     i \<leftarrow> hm_index h k m;
     ps \<leftarrow> get_at t i;
     let j = match_index eq k ps;
     check (j < length ps);
     t \<leftarrow> set_at t i (butlast (ps[j := last ps]));
     Some (m\<lparr>hm_table := Some t, hm_size := hm_size m - 1\<rparr>) }"

definition hm_clear :: "('k, 'd) hash_map \<Rightarrow> ('k, 'd) hash_map" where
  "hm_clear m = m\<lparr>hm_table := None, hm_cap := 0, hm_size := 0\<rparr>"

text \<open>\<open>moveTo\<close>: the map and the other map afterwards.\<close>

definition hm_moveTo :: "('k, 'd) hash_map \<Rightarrow> ('k, 'd) hash_map \<Rightarrow> ('k, 'd) hash_map \<times> ('k, 'd) hash_map" where
  "hm_moveTo m other = (m\<lparr>hm_table := None, hm_size := 0, hm_cap := 0\<rparr>,
     other\<lparr>hm_table := hm_table m, hm_cap := hm_cap m, hm_size := hm_size m\<rparr>)"

subsection \<open>The pairs of a table\<close>

text \<open>What the table promises holds for any equality of keys that the hash function respects.\<close>

locale hashing =
  fixes h :: "'k \<Rightarrow> 32 word" and eq :: "'k \<Rightarrow> 'k \<Rightarrow> bool"
  assumes eq_refl: "eq x x" and eq_sym: "eq x y \<Longrightarrow> eq y x" and eq_trans: "eq x y \<Longrightarrow> eq y z \<Longrightarrow> eq x z"
    and eq_hash: "eq x y \<Longrightarrow> h x = h y"

definition cell :: "('k \<Rightarrow> 32 word) \<Rightarrow> nat \<Rightarrow> 'k \<Rightarrow> nat" where
  "cell h c k = unat (h k mod of_nat c)"

definition table_ok :: "('k \<Rightarrow> 32 word) \<Rightarrow> nat \<Rightarrow> ('k \<times> 'd) list list \<Rightarrow> ('k \<times> 'd) multiset \<Rightarrow> bool" where
  "table_ok h c t M \<longleftrightarrow> length t = c \<and> 0 < c \<and> c < 2 ^ 31 \<and> mset (concat t) = M \<and>
     (\<forall>i < c. \<forall>p \<in> set (t ! i). cell h c (fst p) = i)"

definition apart :: "('k \<Rightarrow> 'k \<Rightarrow> bool) \<Rightarrow> ('k \<times> 'd) multiset \<Rightarrow> bool" where
  "apart eq M \<longleftrightarrow> (\<forall>p \<in># M. \<forall>q \<in># M - {#p#}. \<not> eq (fst p) (fst q))"

definition map_ok :: "('k \<Rightarrow> 32 word) \<Rightarrow> ('k \<Rightarrow> 'k \<Rightarrow> bool) \<Rightarrow> ('k, 'd) hash_map \<Rightarrow> ('k \<times> 'd) multiset \<Rightarrow> bool" where
  "map_ok h eq m M \<longleftrightarrow> apart eq M \<and> hm_size m = size M \<and>
     (case hm_table m of None \<Rightarrow> hm_cap m = 0 \<and> M = {#} | Some t \<Rightarrow> table_ok h (hm_cap m) t M)"

lemma cell_less: "0 < c \<Longrightarrow> c < 2 ^ 31 \<Longrightarrow> cell h c k < c"
proof -
  assume c: "0 < c" "c < 2 ^ 31"
  have "unat (of_nat c :: 32 word) = c" using c by (simp add: unat_of_nat take_bit_nat_eq_self)
  moreover have "unat (h k mod of_nat c) = unat (h k) mod unat (of_nat c :: 32 word)" by (rule unat_mod)
  ultimately show ?thesis using c(1) by (simp add: cell_def)
qed

lemma mset_concat_update:
  "i < length t \<Longrightarrow> mset (concat (t[i := ps])) + mset (t ! i) = mset (concat t) + mset ps"
proof (induction t arbitrary: i)
  case (Cons x t)
  then show ?case by (cases i) (auto simp: ac_simps)
qed simp

lemma put_ok:
  assumes "table_ok h c t M" "hm_table m = Some t" "hm_cap m = c"
  obtains t' where "hm_put h k d m = Some (m\<lparr>hm_table := Some t'\<rparr>)" "table_ok h c t' (add_mset (k, d) M)"
proof -
  have c: "length t = c" "0 < c" "c < 2 ^ 31" using assms(1) by (auto simp: table_ok_def)
  let ?i = "cell h c k" let ?t = "t[?i := t ! ?i @ [(k, d)]]"
  have i: "?i < c" by (rule cell_less[OF c(2,3)])
  have "hm_put h k d m = Some (m\<lparr>hm_table := Some ?t\<rparr>)"
    using assms(2,3) c i by (simp add: hm_put_def hm_index_def cell_def)
  moreover have "mset (concat ?t) = add_mset (k, d) M"
    using mset_concat_update[of ?i t "t ! ?i @ [(k, d)]"] i c(1) assms(1) by (simp add: table_ok_def)
  moreover have "\<forall>j < c. \<forall>p \<in> set (?t ! j). cell h c (fst p) = j" using assms(1) i by (auto simp: table_ok_def nth_list_update split: if_splits)
  ultimately show ?thesis using that[of ?t] c by (simp add: table_ok_def)
qed

lemma put_row_ok:
  "table_ok h c t M \<Longrightarrow> hm_table m = Some t \<Longrightarrow> hm_cap m = c \<Longrightarrow>
   \<exists>t'. put_row h ps m = Some (m\<lparr>hm_table := Some t'\<rparr>) \<and> table_ok h c t' (M + mset ps)"
proof (induction ps arbitrary: t M m)
  case Nil
  have "m\<lparr>hm_table := Some t\<rparr> = m" using Nil.prems(2) by simp
  then show ?case using Nil.prems(1) by (intro exI[of _ t]) simp
next
  case (Cons p ps)
  obtain k d where p: "p = (k, d)" by fastforce
  obtain t1 where t1: "hm_put h k d m = Some (m\<lparr>hm_table := Some t1\<rparr>)" "table_ok h c t1 (add_mset (k, d) M)"
    by (rule put_ok[OF Cons.prems])
  show ?case using Cons.IH[OF t1(2), of "m\<lparr>hm_table := Some t1\<rparr>"] Cons.prems(3) t1(1) by (simp add: p)
qed

lemma put_rows_ok:
  "table_ok h c t M \<Longrightarrow> hm_table m = Some t \<Longrightarrow> hm_cap m = c \<Longrightarrow> \<forall>i \<in> set is. i < length old \<Longrightarrow>
   \<exists>t'. put_rows h old is m = Some (m\<lparr>hm_table := Some t'\<rparr>) \<and> table_ok h c t' (M + mset (concat (map ((!) old) is)))"
proof (induction "is" arbitrary: t M m)
  case Nil
  have "m\<lparr>hm_table := Some t\<rparr> = m" using Nil.prems(2) by simp
  then show ?case using Nil.prems(1) by (intro exI[of _ t]) simp
next
  case (Cons i "is")
  obtain t1 where t1: "put_row h (old ! i) m = Some (m\<lparr>hm_table := Some t1\<rparr>)" "table_ok h c t1 (M + mset (old ! i))"
    using put_row_ok[OF Cons.prems(1-3)] by blast
  show ?case using Cons.IH[OF t1(2), of "m\<lparr>hm_table := Some t1\<rparr>"] Cons.prems(3,4) t1(1) by (simp add: ac_simps)
qed

lemma next_prime_in: "next_prime cap p ps \<in> set (p # ps)"
  by (induction ps arbitrary: p) auto

lemma next_prime_greater: "\<exists>q \<in> set (p # ps). cap < q \<Longrightarrow> cap < next_prime cap p ps"
  by (induction ps arbitrary: p) auto

lemma primes_range: "p \<in> set primes \<Longrightarrow> 0 < p \<and> p < 2 ^ 31"
  by (auto simp: primes_def)

definition grown :: "nat \<Rightarrow> nat" where
  "grown c = next_prime c (hd primes) (tl primes)"

lemma primes_cons: "hd primes # tl primes = primes" by (simp add: primes_def)

lemma grown_ok: "0 < grown c \<and> grown c < 2 ^ 31" "c < 691101253 \<Longrightarrow> c < grown c" "grown c \<in> set primes"
proof -
  show m: "grown c \<in> set primes" unfolding grown_def using next_prime_in[of c "hd primes" "tl primes"] primes_cons by simp
  show "0 < grown c \<and> grown c < 2 ^ 31" by (rule primes_range[OF m])
  have "691101253 \<in> set primes" by (simp add: primes_def)
  then show "c < grown c" if "c < 691101253"
    unfolding grown_def using that by (intro next_prime_greater) (auto simp only: primes_cons)
qed

lemma grown_last: "c \<in> set primes \<Longrightarrow> \<not> c < 691101253 \<Longrightarrow> grown c = 691101253"
proof -
  assume "c \<in> set primes" "\<not> c < 691101253"
  then have "c = 691101253" by (auto simp: primes_def)
  then show "grown c = 691101253" by (simp add: grown_def primes_def)
qed

lemma map_ok_cases:
  assumes "map_ok h eq m M"
  obtains "hm_table m = None" "hm_cap m = 0" "M = {#}" "hm_size m = 0"
  | t where "hm_table m = Some t" "table_ok h (hm_cap m) t M"
  using assms by (cases "hm_table m") (auto simp: map_ok_def)

lemma rehash_ok:
  assumes "map_ok h eq m M"
  obtains t where "rehash h m = Some (m\<lparr>hm_table := Some t, hm_cap := grown (hm_cap m)\<rparr>)" "table_ok h (grown (hm_cap m)) t M"
proof -
  let ?c = "grown (hm_cap m)" let ?m = "m\<lparr>hm_table := Some (replicate ?c []), hm_cap := ?c\<rparr>"
  define old where "old = (case hm_table m of None \<Rightarrow> [] | Some t \<Rightarrow> t)"
  have o: "length old = hm_cap m" "mset (concat old) = M"
    using assms by (auto simp: old_def map_ok_def table_ok_def split: option.splits)
  have "table_ok h ?c (replicate ?c []) {#}" using grown_ok(1) by (auto simp: table_ok_def)
  then obtain t where t: "put_rows h old [0..<hm_cap m] ?m = Some (?m\<lparr>hm_table := Some t\<rparr>)"
    "table_ok h ?c t ({#} + mset (concat (map ((!) old) [0..<hm_cap m])))"
    using put_rows_ok[of h ?c "replicate ?c []" "{#}" ?m "[0..<hm_cap m]" old] o(1) by auto
  have "map ((!) old) [0..<hm_cap m] = old" using o(1) map_nth by metis
  then have "table_ok h ?c t M" using t(2) o(2) by simp
  moreover have "rehash h m = Some (m\<lparr>hm_table := Some t, hm_cap := ?c\<rparr>)"
    using t(1) by (simp add: rehash_def old_def grown_def)
  ultimately show ?thesis using that by blast
qed

lemma insert_ok:
  assumes ok: "map_ok h eq m M" and new: "apart eq (add_mset (k, d) M)"
  obtains m' where "hm_insert h k d m = Some m'" "map_ok h eq m' (add_mset (k, d) M)" "hm_size m' = Suc (hm_size m)"
    "hm_cap m' = (if hm_size m < hm_cap m then hm_cap m else grown (hm_cap m))"
proof -
  have s: "hm_size m = size M" using ok by (simp add: map_ok_def)
  let ?c = "if hm_size m < hm_cap m then hm_cap m else grown (hm_cap m)"
  obtain t m1 where m1: "(if checkCap (hm_size m + 1) m then rehash h m else Some m) = Some m1" "hm_table m1 = Some t"
    "table_ok h (hm_cap m1) t M" "hm_size m1 = hm_size m" "hm_cap m1 = ?c"
  proof (cases "checkCap (hm_size m + 1) m")
    case True
    obtain t where t: "rehash h m = Some (m\<lparr>hm_table := Some t, hm_cap := grown (hm_cap m)\<rparr>)" "table_ok h (grown (hm_cap m)) t M"
      by (rule rehash_ok[OF ok])
    have "\<not> hm_size m < hm_cap m" using True by (simp add: checkCap_def)
    then show thesis using that[of "m\<lparr>hm_table := Some t, hm_cap := grown (hm_cap m)\<rparr>" t] True t by simp
  next
    case False
    then have c: "hm_size m < hm_cap m" by (simp add: checkCap_def)
    show thesis using ok by (cases rule: map_ok_cases) (use that[of m] False c in auto)
  qed
  obtain t' where t': "hm_put h k d m1 = Some (m1\<lparr>hm_table := Some t'\<rparr>)" "table_ok h (hm_cap m1) t' (add_mset (k, d) M)"
    by (rule put_ok[OF m1(3,2) refl])
  let ?m = "m1\<lparr>hm_table := Some t', hm_size := hm_size m1 + 1\<rparr>"
  have "hm_insert h k d m = Some ?m" using m1(1) t'(1) by (simp add: hm_insert_def)
  moreover have "map_ok h eq ?m (add_mset (k, d) M)" using t'(2) new s m1(4) by (simp add: map_ok_def)
  ultimately show ?thesis using that m1(4,5) by simp
qed

lemma apart_single: "p \<in># M \<Longrightarrow> q \<in># M \<Longrightarrow> apart eq M \<Longrightarrow> eq (fst p) (fst q) \<Longrightarrow> p = q"
proof (rule ccontr)
  assume a: "p \<in># M" "q \<in># M" "apart eq M" "eq (fst p) (fst q)" "p \<noteq> q"
  then have "q \<in># M - {#p#}" using in_diff_count by (simp add: in_diff_count)
  then show False using a unfolding apart_def by blast
qed

lemma apart_subset: "apart eq M \<Longrightarrow> N \<subseteq># M \<Longrightarrow> apart eq N"
proof -
  assume a: "apart eq M" "N \<subseteq># M"
  have "N - {#p#} \<subseteq># M - {#p#}" for p using a(2) by (simp add: subseteq_mset_def diff_le_mono)
  then show "apart eq N" using a unfolding apart_def by (meson mset_subset_eqD)
qed

lemma apart_add:
  "apart eq (add_mset p M) \<longleftrightarrow> apart eq M \<and> (\<forall>q \<in># M. \<not> eq (fst p) (fst q) \<and> \<not> eq (fst q) (fst p))"
proof
  assume l: "apart eq (add_mset p M)"
  have "p \<in># add_mset p M - {#q#}" if "q \<in># M" for q using that by (cases "p = q") (auto simp: in_diff_count)
  then have "\<not> eq (fst p) (fst q) \<and> \<not> eq (fst q) (fst p)" if "q \<in># M" for q using l that by (auto simp: apart_def)
  then show "apart eq M \<and> (\<forall>q \<in># M. \<not> eq (fst p) (fst q) \<and> \<not> eq (fst q) (fst p))" using apart_subset[OF l, of M] by simp
next
  assume r: "apart eq M \<and> (\<forall>q \<in># M. \<not> eq (fst p) (fst q) \<and> \<not> eq (fst q) (fst p))"
  have "\<not> eq (fst x) (fst y)" if xy: "x \<in># add_mset p M" "y \<in># add_mset p M - {#x#}" for x y
  proof (cases "x = p")
    case False
    then have x: "x \<in># M" using xy(1) by simp
    have "add_mset p M - {#x#} = add_mset p (M - {#x#})" using False by simp
    then show ?thesis using r x xy(2) by (auto simp: apart_def)
  qed (use r xy in auto)
  then show "apart eq (add_mset p M)" by (simp add: apart_def)
qed

lemma mset_drop_at:
  assumes "j < length ps"
  shows "mset (butlast (ps[j := last ps])) = mset ps - {#ps ! j#}"
proof -
  obtain qs z where q: "ps = qs @ [z]" using assms by (cases ps rule: rev_cases) auto
  show ?thesis
  proof (cases "j < length qs")
    case True
    then show ?thesis by (simp add: q list_update_append nth_append mset_update)
  next
    case False
    then have "j = length qs" using assms q by simp
    then show ?thesis by (simp add: q)
  qed
qed

context hashing
begin

lemma cell_eq: "eq x y \<Longrightarrow> cell h c x = cell h c y"
  using eq_hash[of x y] by (simp add: cell_def)

lemma bucket_ok:
  fixes t :: "('k \<times> 'd) list list"
  assumes "table_ok h (hm_cap m) t M" "hm_table m = Some t"
  shows "hm_bucket h k m = Some (t ! cell h (hm_cap m) k)" "cell h (hm_cap m) k < length t"
    "mset (t ! cell h (hm_cap m) k) \<subseteq># M" "\<And>p. eq (fst p) k \<Longrightarrow> p \<in># M \<longleftrightarrow> p \<in> set (t ! cell h (hm_cap m) k)"
proof -
  let ?c = "hm_cap m" let ?i = "cell h ?c k"
  have c: "length t = ?c" "0 < ?c" "?c < 2 ^ 31" "mset (concat t) = M" using assms(1) by (auto simp: table_ok_def)
  show i: "?i < length t" using cell_less[OF c(2,3)] c(1) by simp
  show "hm_bucket h k m = Some (t ! ?i)" using assms(2) i c(2) by (simp add: hm_bucket_def hm_index_def cell_def)
  have "t = take ?i t @ t ! ?i # drop (Suc ?i) t" using i by (simp add: id_take_nth_drop)
  then have "mset (concat t) = mset (concat (take ?i t)) + mset (t ! ?i) + mset (concat (drop (Suc ?i) t))"
    by (metis concat.simps(2) concat_append mset_append union_assoc)
  then show sub: "mset (t ! ?i) \<subseteq># M" using c(4) by (metis mset_subset_eq_add_left mset_subset_eq_add_right subset_mset.trans)
  fix p :: "'k \<times> 'd" assume p: "eq (fst p) k"
  show "p \<in># M \<longleftrightarrow> p \<in> set (t ! ?i)"
  proof
    assume "p \<in># M"
    then obtain r where "r \<in> set t" "p \<in> set r" using c(4) by auto
    then obtain j where j: "j < length t" "p \<in> set (t ! j)" by (metis in_set_conv_nth)
    then have "cell h ?c (fst p) = j" using assms(1) c(1) by (simp add: table_ok_def)
    then show "p \<in> set (t ! ?i)" using j(2) cell_eq[OF p] by simp
  qed (use sub in \<open>auto dest: mset_subset_eqD\<close>)
qed

lemma first_match_Some: "apart eq (mset ps) \<Longrightarrow> first_match eq k ps = Some d \<longleftrightarrow> (\<exists>x. (x, d) \<in> set ps \<and> eq x k)"
proof (induction ps)
  case (Cons p ps)
  obtain x e where p: "p = (x, e)" by fastforce
  have a: "apart eq (mset ps)" using apart_subset[OF Cons.prems] by simp
  have "\<not> eq y k" if "(y, e') \<in> set ps" "eq x k" for y e'
    using Cons.prems that eq_trans[OF that(2) eq_sym[of y k]] by (force simp: p apart_def)
  then show ?case using Cons.IH[OF a] by (auto simp: p)
qed simp

lemma last_match_eq: "apart eq (mset ps) \<Longrightarrow> last_match eq k ps r = (case first_match eq k ps of None \<Rightarrow> r | Some d \<Rightarrow> Some d)"
proof (induction ps arbitrary: r)
  case (Cons p ps)
  obtain x e where p: "p = (x, e)" by fastforce
  have a: "apart eq (mset ps)" using apart_subset[OF Cons.prems] by simp
  have "first_match eq k ps = None" if "eq x k"
  proof (rule ccontr)
    assume "first_match eq k ps \<noteq> None"
    then obtain y d where "(y, d) \<in> set ps" "eq y k" using first_match_Some[OF a] by blast
    then show False using Cons.prems eq_trans[OF that eq_sym[of y k]] by (force simp: p apart_def)
  qed
  then show ?case using Cons.IH[OF a] by (simp add: p)
qed simp

text \<open>The map a multiset of pairs stands for.\<close>

definition stands_for :: "('k \<times> 'd) multiset \<Rightarrow> ('k \<Rightarrow> 'd option) \<Rightarrow> bool" where
  "stands_for M a \<longleftrightarrow> (\<forall>k d. a k = Some d \<longleftrightarrow> (\<exists>x. (x, d) \<in># M \<and> eq x k))"

lemma absent: "stands_for M a \<Longrightarrow> a k = None \<longleftrightarrow> (\<forall>p \<in># M. \<not> eq (fst p) k)"
proof -
  assume "stands_for M a"
  then have "a k = Some d \<longleftrightarrow> (\<exists>x. (x, d) \<in># M \<and> eq x k)" for d by (simp add: stands_for_def)
  then show "a k = None \<longleftrightarrow> (\<forall>p \<in># M. \<not> eq (fst p) k)" by (cases "a k") force+
qed

lemma lookups:
  assumes ok: "map_ok h eq m M" and st: "stands_for M a"
  shows "hm_has h eq k m = Some (a k \<noteq> None)" "hm_peek h eq k m = Some (a k)" "hm_at h eq k m = a k"
proof -
  have n: "hm_size m = 0 \<longleftrightarrow> M = {#}" "apart eq M" using ok by (auto simp: map_ok_def)
  have "hm_has h eq k m = Some (a k \<noteq> None) \<and> hm_peek h eq k m = Some (a k) \<and> hm_at h eq k m = a k"
  proof (cases "M = {#}")
    case True
    then have "a k = None" using absent[OF st] by simp
    then show ?thesis using True n by (simp add: hm_has_def hm_peek_def hm_at_def)
  next
    case False
    obtain t where t: "hm_table m = Some t" "table_ok h (hm_cap m) t M" using ok False by (cases rule: map_ok_cases) auto
    let ?ps = "t ! cell h (hm_cap m) k"
    note b = bucket_ok[OF t(2,1), where k = k]
    have ap: "apart eq (mset ?ps)" by (rule apart_subset[OF n(2) b(3)])
    have "first_match eq k ?ps = Some d \<longleftrightarrow> a k = Some d" for d
    proof -
      have "(x, d) \<in># M \<and> eq x k \<longleftrightarrow> (x, d) \<in> set ?ps \<and> eq x k" for x using b(4)[of "(x, d)"] by auto
      then show ?thesis using first_match_Some[OF ap] st unfolding stands_for_def by presburger
    qed
    then have f: "first_match eq k ?ps = a k" by (metis not_Some_eq)
    have e: "list_ex (\<lambda>p. eq (fst p) k) ?ps \<longleftrightarrow> a k \<noteq> None" using absent[OF st, of k] b(4) by (auto simp: list_ex_iff)
    show ?thesis using False n b(1) f e last_match_eq[OF ap, of k None]
      by (simp add: hm_has_def hm_peek_def hm_at_def split: option.splits)
  qed
  then show "hm_has h eq k m = Some (a k \<noteq> None)" "hm_peek h eq k m = Some (a k)" "hm_at h eq k m = a k" by auto
qed

lemma stands_insert:
  assumes "stands_for M a" "apart eq M" "a k = None"
  shows "apart eq (add_mset (k, d) M)" "stands_for (add_mset (k, d) M) (\<lambda>x. if eq k x then Some d else a x)"
proof -
  have n: "\<not> eq (fst p) k" "\<not> eq k (fst p)" if "p \<in># M" for p using absent[OF assms(1)] assms(3) that eq_sym by blast+
  then show "apart eq (add_mset (k, d) M)" using assms(2) by (simp add: apart_add)
  have "\<not> eq y x" if "eq k x" "(y, e) \<in># M" for x y e
    using n(1)[OF that(2)] eq_trans[OF _ eq_sym[OF that(1)], of y] by auto
  then show "stands_for (add_mset (k, d) M) (\<lambda>x. if eq k x then Some d else a x)"
    using assms(1) by (auto simp: stands_for_def)
qed

lemma match_index_less: "match_index eq k ps < length ps \<longleftrightarrow> (\<exists>p \<in> set ps. eq (fst p) k)"
proof (induction ps)
  case (Cons p ps)
  then show ?case by (cases p) auto
qed simp

lemma match_index_eq: "match_index eq k ps < length ps \<Longrightarrow> eq (fst (ps ! match_index eq k ps)) k"
proof (induction ps)
  case (Cons p ps)
  then show ?case by (cases p) (auto split: if_splits)
qed simp

lemma stands_remove:
  assumes "stands_for M a" "apart eq M" "p \<in># M" "eq (fst p) k"
  shows "stands_for (M - {#p#}) (\<lambda>x. if eq k x then None else a x)"
proof -
  have "(\<not> eq k y \<and> (\<exists>x. (x, d) \<in># M \<and> eq x y)) \<longleftrightarrow> (\<exists>x. (x, d) \<in># M - {#p#} \<and> eq x y)" for y d
  proof
    assume l: "\<not> eq k y \<and> (\<exists>x. (x, d) \<in># M \<and> eq x y)"
    then obtain x where x: "(x, d) \<in># M" "eq x y" by blast
    have "eq k x" if "p = (x, d)" using assms(4) eq_sym that by simp
    then have "p \<noteq> (x, d)" using l x(2) eq_trans by blast
    then have "(x, d) \<in># M - {#p#}" using x(1) by (simp add: in_diff_count)
    then show "\<exists>x. (x, d) \<in># M - {#p#} \<and> eq x y" using x(2) by blast
  next
    assume "\<exists>x. (x, d) \<in># M - {#p#} \<and> eq x y"
    then obtain x where x: "(x, d) \<in># M - {#p#}" "eq x y" by blast
    have "\<not> eq (fst p) x" using assms(2,3) x(1) unfolding apart_def by fastforce
    then have "\<not> eq k y" using assms(4) x(2) eq_trans eq_sym by metis
    then show "\<not> eq k y \<and> (\<exists>x. (x, d) \<in># M \<and> eq x y)" using x by (auto dest: in_diffD)
  qed
  moreover have "(if eq k y then None else a y) = Some d \<longleftrightarrow> \<not> eq k y \<and> (\<exists>x. (x, d) \<in># M \<and> eq x y)" for y d
    using assms(1) by (simp add: stands_for_def)
  ultimately show ?thesis by (simp add: stands_for_def)
qed

lemma remove_ok:
  assumes ok: "map_ok h eq m M"
  shows "(\<forall>p \<in># M. \<not> eq (fst p) k) \<Longrightarrow> hm_remove h eq k m = None"
    "\<exists>p \<in># M. eq (fst p) k \<Longrightarrow> \<exists>p m'. p \<in># M \<and> eq (fst p) k \<and> hm_remove h eq k m = Some m' \<and> map_ok h eq m' (M - {#p#}) \<and>
       hm_cap m' = hm_cap m \<and> hm_size m = Suc (hm_size m')"
proof -
  have "((\<forall>p \<in># M. \<not> eq (fst p) k) \<longrightarrow> hm_remove h eq k m = None) \<and>
    ((\<exists>p \<in># M. eq (fst p) k) \<longrightarrow> (\<exists>p m'. p \<in># M \<and> eq (fst p) k \<and> hm_remove h eq k m = Some m' \<and> map_ok h eq m' (M - {#p#}) \<and>
       hm_cap m' = hm_cap m \<and> hm_size m = Suc (hm_size m')))" (is "?A \<and> ?B")
    using ok
  proof (cases rule: map_ok_cases)
    case 1
    then show ?thesis by (simp add: hm_remove_def)
  next
    case (2 t)
    let ?i = "cell h (hm_cap m) k" let ?ps = "t ! ?i" let ?j = "match_index eq k ?ps" let ?qs = "butlast (?ps[?j := last ?ps])"
    note b = bucket_ok[OF 2(2,1), where k = k]
    have idx: "hm_index h k m = Some ?i" using 2(2) by (simp add: hm_index_def cell_def table_ok_def)
    have j: "?j < length ?ps \<longleftrightarrow> (\<exists>p \<in># M. eq (fst p) k)" using match_index_less b(4) by blast
    have r: "hm_remove h eq k m = (if ?j < length ?ps then Some (m\<lparr>hm_table := Some (t[?i := ?qs]), hm_size := hm_size m - 1\<rparr>) else None)"
      using 2(1) idx b(2) by (simp add: hm_remove_def Let_def)
    have ?B
    proof
      assume "\<exists>p \<in># M. eq (fst p) k"
      then have l: "?j < length ?ps" using j by blast
      let ?p = "?ps ! ?j" let ?m = "m\<lparr>hm_table := Some (t[?i := ?qs]), hm_size := hm_size m - 1\<rparr>"
      have p: "?p \<in># M" "eq (fst ?p) k" using mset_subset_eqD[OF b(3), of ?p] l match_index_eq[OF l] by auto
      have sz: "hm_size m = size M" "apart eq M" using ok by (auto simp: map_ok_def)
      have q: "mset ?qs = mset ?ps - {#?p#}" by (rule mset_drop_at[OF l])
      have "mset (concat (t[?i := ?qs])) + mset ?ps = M + mset ?qs"
        using mset_concat_update[OF b(2), of ?qs] 2(2) by (simp add: table_ok_def)
      moreover have "mset ?ps = add_mset ?p (mset ?qs)" using q l by simp
      ultimately have "add_mset ?p (mset (concat (t[?i := ?qs]))) + mset ?qs = M + mset ?qs" by simp
      then have "add_mset ?p (mset (concat (t[?i := ?qs]))) = M" by (rule add_right_imp_eq)
      then have c: "mset (concat (t[?i := ?qs])) = M - {#?p#}" by (metis add_mset_remove_trivial)
      have "set ?qs \<subseteq> set ?ps" using q by (metis in_diffD set_mset_mset subsetI)
      then have "table_ok h (hm_cap m) (t[?i := ?qs]) (M - {#?p#})"
        using 2(2) c b(2) by (auto simp: table_ok_def nth_list_update)
      then have "map_ok h eq ?m (M - {#?p#})" using sz p(1) apart_subset[OF sz(2)] by (simp add: map_ok_def size_Diff_singleton)
      moreover have "hm_size m = Suc (hm_size ?m)" using sz(1) p(1) by (cases M) auto
      ultimately show "\<exists>p m'. p \<in># M \<and> eq (fst p) k \<and> hm_remove h eq k m = Some m' \<and> map_ok h eq m' (M - {#p#}) \<and>
          hm_cap m' = hm_cap m \<and> hm_size m = Suc (hm_size m')"
        using p r l by (intro exI[of _ ?p] exI[of _ ?m]) simp
    qed
    then show ?thesis using r j by auto
  qed
  then show "(\<forall>p \<in># M. \<not> eq (fst p) k) \<Longrightarrow> hm_remove h eq k m = None"
    "\<exists>p \<in># M. eq (fst p) k \<Longrightarrow> \<exists>p m'. p \<in># M \<and> eq (fst p) k \<and> hm_remove h eq k m = Some m' \<and> map_ok h eq m' (M - {#p#}) \<and>
       hm_cap m' = hm_cap m \<and> hm_size m = Suc (hm_size m')" by blast+
qed

end

subsection \<open>The map refines a partial function\<close>

text \<open>A history of a table, with the partial function it is to stand for.\<close>

inductive map_run :: "('k \<Rightarrow> 32 word) \<Rightarrow> ('k \<Rightarrow> 'k \<Rightarrow> bool) \<Rightarrow> ('k, 'd) hash_map \<Rightarrow> ('k \<Rightarrow> 'd option) \<Rightarrow> bool" for h eq where
  new: "map_run h eq new_map (\<lambda>_. None)"
| insert: "map_run h eq m a \<Longrightarrow> a k = None \<Longrightarrow> hm_insert h k d m = Some m' \<Longrightarrow>
    map_run h eq m' (\<lambda>x. if eq k x then Some d else a x)"
| remove: "map_run h eq m a \<Longrightarrow> hm_remove h eq k m = Some m' \<Longrightarrow> map_run h eq m' (\<lambda>x. if eq k x then None else a x)"
| clear: "map_run h eq m a \<Longrightarrow> map_run h eq (hm_clear m) (\<lambda>_. None)"
| moved_to: "map_run h eq m a \<Longrightarrow> map_run h eq (snd (hm_moveTo m other)) a"
| moved_from: "map_run h eq m a \<Longrightarrow> map_run h eq (fst (hm_moveTo m other)) (\<lambda>_. None)"

definition loaded :: "('k, 'd) hash_map \<Rightarrow> bool" where
  "loaded m \<longleftrightarrow> hm_cap m \<in> insert 0 (set primes) \<and> (hm_cap m < 691101253 \<longrightarrow> hm_size m \<le> hm_cap m)"

context hashing
begin

lemma map_run_ok: "map_run h eq m a \<Longrightarrow> \<exists>M. map_ok h eq m M \<and> stands_for M a \<and> loaded m"
proof (induction rule: map_run.induct)
  case new
  show ?case by (intro exI[of _ "{#}"]) (simp add: map_ok_def new_map_def stands_for_def apart_def loaded_def)
next
  case (insert m a k d m')
  then obtain M where M: "map_ok h eq m M" "stands_for M a" "loaded m" by blast
  have ap: "apart eq M" using M(1) by (simp add: map_ok_def)
  note s = stands_insert[OF M(2) ap insert.hyps(2), where d = d]
  have m': "map_ok h eq m' (add_mset (k, d) M)" "hm_size m' = Suc (hm_size m)"
    "hm_cap m' = (if hm_size m < hm_cap m then hm_cap m else grown (hm_cap m))"
    using insert_ok[OF M(1) s(1)] insert.hyps(3) by (metis option.inject)+
  have "loaded m'"
  proof (cases "hm_size m < hm_cap m")
    case False
    have "Suc (hm_size m) \<le> grown (hm_cap m)" if "grown (hm_cap m) < 691101253"
      using that M(3) grown_last[of "hm_cap m"] grown_ok(1,2)[of "hm_cap m"] by (cases "hm_cap m < 691101253") (auto simp: loaded_def)
    then show ?thesis using m'(2,3) False grown_ok(3) by (simp add: loaded_def)
  qed (use M(3) m'(2,3) in \<open>simp add: loaded_def\<close>)
  then show ?case using m'(1) s(2) by blast
next
  case (remove m a k m')
  then obtain M where M: "map_ok h eq m M" "stands_for M a" "loaded m" by blast
  have ap: "apart eq M" using M(1) by (simp add: map_ok_def)
  have "\<exists>p \<in># M. eq (fst p) k" using remove_ok(1)[OF M(1), of k] remove.hyps(2) by auto
  from remove_ok(2)[OF M(1) this] obtain p where p: "p \<in># M" "eq (fst p) k" "map_ok h eq m' (M - {#p#})"
    "hm_cap m' = hm_cap m" "hm_size m = Suc (hm_size m')" using remove.hyps(2) by auto
  have "loaded m'" using M(3) p(4,5) by (auto simp: loaded_def)
  then show ?case using p(3) stands_remove[OF M(2) ap p(1,2)] by blast
next
  case (clear m a)
  show ?case by (intro exI[of _ "{#}"]) (simp add: map_ok_def hm_clear_def stands_for_def apart_def loaded_def)
next
  case (moved_to m a other)
  have "snd (hm_moveTo m other) = m" by (cases m, cases other) (simp add: hm_moveTo_def)
  then show ?case using moved_to.IH by simp
next
  case (moved_from m a other)
  show ?case by (intro exI[of _ "{#}"]) (simp add: map_ok_def hm_moveTo_def stands_for_def apart_def loaded_def)
qed

lemma apart_keys: "apart eq (mset ps) \<Longrightarrow> sorted_wrt (\<lambda>x y. \<not> eq x y) (map fst ps)"
  by (induction ps) (auto simp: apart_add)

lemma run_keys:
  assumes "map_ok h eq m M" "stands_for M a"
  obtains ks where "length ks = hm_size m" "sorted_wrt (\<lambda>x y. \<not> eq x y) ks" "\<forall>k. a k \<noteq> None \<longleftrightarrow> (\<exists>x \<in> set ks. eq x k)"
proof -
  obtain ps where ps: "mset ps = M" by (metis ex_mset)
  have "a k \<noteq> None \<longleftrightarrow> (\<exists>x \<in> set (map fst ps). eq x k)" for k using absent[OF assms(2), of k] ps by auto
  then show ?thesis using that[of "map fst ps"] apart_keys[of ps] ps assms(1) by (auto simp: map_ok_def)
qed

lemma run_remove:
  assumes "map_run h eq m a"
  shows "hm_remove h eq k m = None \<longleftrightarrow> a k = None"
proof -
  obtain M where M: "map_ok h eq m M" "stands_for M a" using map_run_ok[OF assms] by blast
  show ?thesis using remove_ok[OF M(1), of k] absent[OF M(2), of k] by (metis option.distinct(1))
qed

lemma run_insert:
  assumes "map_run h eq m a" "a k = None"
  shows "hm_insert h k d m \<noteq> None"
proof -
  obtain M where M: "map_ok h eq m M" "stands_for M a" using map_run_ok[OF assms(1)] by blast
  have "apart eq M" using M(1) by (simp add: map_ok_def)
  then show ?thesis using insert_ok[OF M(1) stands_insert(1)[OF M(2) _ assms(2)]] by (metis option.distinct(1))
qed

end

subsection \<open>Properties\<close>

text \<open>The default functors of the template on 32-bit integers and on pairs of them.\<close>

interpretation int_keys: hashing hash_int32 "(=)"
  by unfold_locales auto

interpretation pair_keys: hashing hash_pair "(=)"
  by unfold_locales auto

text \<open>C24: the hash table refines a partial function: after any history of insertions of absent keys, removals, moves and clearing,
  for every equality of keys that the hash function respects, \<open>has\<close>, \<open>peek\<close> and \<open>operator[]\<close> answer as the partial
  function does, an absent key can be inserted, exactly the present ones can be removed, the size is the number of
  keys, and it does not exceed the number of buckets until these have reached the last prime.\<close>

theorem hash_map_refines:
  assumes "hashing h eq" "map_run h eq m a"
  shows "(\<forall>k. hm_has h eq k m = Some (a k \<noteq> None) \<and> hm_peek h eq k m = Some (a k) \<and> hm_at h eq k m = a k \<and>
      (hm_remove h eq k m = None \<longleftrightarrow> a k = None) \<and> (a k = None \<longrightarrow> (\<forall>d. hm_insert h k d m \<noteq> None))) \<and>
    (\<exists>ks. length ks = hm_size m \<and> sorted_wrt (\<lambda>x y. \<not> eq x y) ks \<and> (\<forall>k. a k \<noteq> None \<longleftrightarrow> (\<exists>x \<in> set ks. eq x k))) \<and>
    (hm_cap m < 691101253 \<longrightarrow> hm_size m \<le> hm_cap m)"
proof -
  obtain M where M: "map_ok h eq m M" "hashing.stands_for eq M a" "loaded m" using hashing.map_run_ok[OF assms] by blast
  note l = hashing.lookups[OF assms(1) M(1,2)] and r = hashing.run_remove[OF assms] and i = hashing.run_insert[OF assms]
  obtain ks where "length ks = hm_size m" "sorted_wrt (\<lambda>x y. \<not> eq x y) ks" "\<forall>k. a k \<noteq> None \<longleftrightarrow> (\<exists>x \<in> set ks. eq x k)"
    using hashing.run_keys[OF assms(1) M(1,2)] by blast
  then show ?thesis using l r i M(3) by (simp add: loaded_def) blast
qed

lemma hash_map_refines_witness:
  "\<exists>m. hm_insert hash_int32 5 True (the (hm_insert hash_int32 36 False new_map)) = Some m \<and>
     hm_peek hash_int32 (=) 36 m = Some (Some False) \<and> hm_at hash_int32 (=) 5 m = Some True \<and> hm_has hash_int32 (=) 6 m = Some False"
proof -
  obtain m1 :: "(int, bool) hash_map" where 1: "hm_insert hash_int32 36 False new_map = Some m1"
    using hash_map_refines[OF int_keys.hashing_axioms map_run.new] by (metis not_Some_eq)
  have r1: "map_run hash_int32 (=) m1 (\<lambda>x. if 36 = x then Some False else None)" by (rule map_run.insert[OF map_run.new _ 1]) simp
  obtain m2 where 2: "hm_insert hash_int32 5 True m1 = Some m2"
    using hash_map_refines[OF int_keys.hashing_axioms r1, THEN conjunct1, rule_format, of 5] by auto
  have r2: "map_run hash_int32 (=) m2 (\<lambda>x. if 5 = x then Some True else if 36 = x then Some False else None)"
    using map_run.insert[OF r1 _ 2] by simp
  show ?thesis using hash_map_refines[OF int_keys.hashing_axioms r2] 1 2 by simp
qed

text \<open>The hash of a tuple is that of its last component: the results for the others are dropped.\<close>

theorem tuple_hash_last: "t \<noteq> [] \<Longrightarrow> hash_tuple t = Some (hash_combine 0 (last t))"
proof -
  have i: "i < length t \<Longrightarrow> hash_value_impl i s t = Some (hash_combine s (t ! i))" for i s
    by (induction i) simp_all
  assume "t \<noteq> []"
  then show ?thesis by (simp add: hash_tuple_def i last_conv_nth)
qed

end
