(* ===== verification/Spec2Isabelle.thy ===== *)
theory Spec2Isabelle
  imports Circuit_Theorems Search_Theorems Vecs Int_Maps Ring_Buffers Heaps Dfs_Theorems Kruskal_Theorems Floyd_Warshall_Theorems
    Connected_Components_Theorems Hash_Maps
begin

text \<open>
  A verification development of the C++ core of MonoSAT, the SAT-modulo-graphs solver that the repository ships
  under \<open>src/artifacts/baselines/viper/source/resources/monosat/src/monosat\<close> and that its serializability
  checkers are measured with.  File names below are relative to that directory.

  \<^bold>\<open>The program.\<close>  \<open>core/SolverTypes.h\<close> defines literals, truth values and clauses; \<open>core/Solver.cc\<close> is a
  MiniSat-style solver over them; \<open>api/Circuit.h\<close> builds gates and words of literals by adding clauses to the
  solver; \<open>mtl/\<close> holds the containers (vector, map, queue, deque, heap, sort) and \<open>dgl/\<close> the dynamic graph
  library: a graph that records its changes, and algorithms that read the record to update their results.

  \<^bold>\<open>Theories and the code they model.\<close>
  \<^item> \<open>Prelude\<close>: the option monad for undefined outcomes, list and index lemmas, the theorem collections.
  \<^item> \<open>Lits\<close>: \<open>Lit\<close> and \<open>lbool\<close> of \<open>core/SolverTypes.h\<close>, on integers and on machine words.
  \<^item> \<open>Clauses\<close>: class \<open>Clause\<close> (abstraction, \<open>subsumes\<close>, \<open>strengthen\<close>), \<open>mtl/Alg.h\<close>;  \<open>Occurrences\<close>: class \<open>OccLists\<close>.
  \<^item> \<open>Sorts\<close>: \<open>mtl/Sort.h\<close>;  \<open>Vecs\<close>: \<open>mtl/Vec.h\<close>;  \<open>Int_Maps\<close>: \<open>mtl/IntMap.h\<close>;  \<open>Ring_Buffers\<close>: \<open>mtl/Queue.h\<close>
    and \<open>mtl/Deque.h\<close>;  \<open>Heaps\<close>: \<open>mtl/Heap.h\<close> and its copy \<open>dgl/alg/Heap.h\<close>;
    \<open>Hash_Maps\<close>: \<open>mtl/Map.h\<close>, hash functions and the hash table.
  \<^item> \<open>Solver\<close>: variables, trail, watched clauses, \<open>propagate\<close>, \<open>cancelUntil\<close>, \<open>addClause\<close>, \<open>True\<close> of
    \<open>core/Solver.cc\<close> and \<open>core/Solver.h\<close>, with the invariant in \<open>Solver_Inv\<close>, unit propagation in
    \<open>Propagation\<close> and the operations of the interface in \<open>Solver_Ops\<close>.
  \<^item> \<open>Conflict\<close>: \<open>analyze\<close>, \<open>litRedundant\<close>, \<open>analyzeFinal\<close> and the learning of clauses, of \<open>core/Solver.cc\<close>;
    \<open>Simplify\<close>: \<open>removeClause\<close>, \<open>simplify\<close> and the lazy deletion of watchers, specified in \<open>Deletion_Spec\<close> and \<open>Lazy_Ops\<close>;
    \<open>Search\<close>: \<open>search\<close> and \<open>solve_\<close>, with \<open>Luby\<close> for \<open>luby\<close> of \<open>mtl/Alg.h\<close>.  What the search needs of the state is in
    \<open>Search_Inv\<close>, the specification of the analysis in \<open>Conflict_Spec\<close> and \<open>Final_Spec\<close>, of learning in
    \<open>Search_Ops\<close>, of the search in \<open>Search_Spec\<close>, the results in \<open>Search_Theorems\<close>.
  \<^item> \<open>Circuit\<close> and \<open>Circuit_Arith\<close>: \<open>api/Circuit.h\<close>, gates and assertions, words.  \<open>Circuit_Spec\<close> and
    \<open>Circuit_Arith_Spec\<close> prove them once over the locale of what a circuit needs from a solver,
    \<open>Circuit_Solver\<close> interprets that locale with the solver model, \<open>Circuit_Theorems\<close> states the results.
  \<^item> \<open>Graphs\<close>: \<open>dgl/Graph.h\<close> and \<open>dgl/DynamicGraph.h\<close>, with the invariant, the history and its undo in
    \<open>Graph_Theorems\<close> and what the algorithms read of a graph, its enabled edges, in \<open>Graph_Edges\<close>.
  \<^item> \<open>Dfs\<close>: \<open>dgl/DFS.h\<close>, reachability from a source; specification of the search in \<open>Dfs_Spec\<close>, the
    incremental updates in \<open>Dfs_Incremental\<close>, the results in \<open>Dfs_Theorems\<close>.
  \<^item> \<open>Union_Find\<close>: \<open>dgl/alg/DisjointSets.h\<close> and \<open>.cpp\<close>, with the invariant in \<open>Union_Find_Spec\<close> and, in
    \<open>Union_Find_Theorems\<close>, the locale of a partition its clients rely on.  \<open>Kruskal\<close>: \<open>dgl/Kruskal.h\<close>, the minimum spanning
    forest of a dynamic graph; \<open>Forests\<close> is its specification, \<open>Kruskal_Spec\<close> proves one update, \<open>Kruskal_Parents\<close> the
    parents built on demand, \<open>Kruskal_Theorems\<close> the interleaving of changes and queries.
  \<^item> \<open>Floyd_Warshall\<close>: \<open>dgl/FloydWarshall.h\<close>, distances between all pairs of nodes; what its matrices hold and the
    shortest paths it returns are in \<open>Floyd_Warshall_Theorems\<close>.
  \<^item> \<open>Connected_Components\<close>: \<open>dgl/DisjointSetConnectedComponents.h\<close>, a second client of the disjoint sets; results in
    \<open>Connected_Components_Theorems\<close>.

  \<^bold>\<open>State and errors.\<close>  A C++ object is a record, a member function a function from the record to a result and the
  next record.  Where the code may read outside an array, fail an assertion or throw, the result is an option
  and \<open>None\<close> is that outcome; the theorems say when it cannot occur, and a few say that it does.

  \<^bold>\<open>What the lemmas show.\<close>  Every operation of a component keeps its invariant (\<open>solver_inv\<close>, \<open>circuit_ok\<close>,
  \<open>heap_ok\<close>, \<open>ring_ok\<close>, \<open>graph_ok\<close>, \<open>occ_wf\<close>), and what it does is stated on an abstract value: the set of satisfying
  assignments for the solver and the circuits (new variables are existentially quantified), numbers for words,
  a list for the buffers, a set for \<open>IntSet\<close>, a partial function for the hash table, a multiset for sorting, the enabled edges for the graph, the inductive
  relation \<open>reach\<close> for the search, the connected components of the united pairs for the disjoint sets, the forests of
  least weight for \<open>Kruskal\<close>, the least number of enabled edges of a path for \<open>Floyd_Warshall\<close>.  Propagation, sorting and the searches are shown to return, never only to be
  right when they do.  Conflict analysis is shown to derive a new clause from the database that is unit after backtracking,
  and the search under assumptions, with restarts, to end and to answer correctly: a model that satisfies the clauses
  and the assumptions, or a set of assumptions that no model satisfies.  The invariants of the solver are stated for clean watch
  lists; a state with watchers of deleted clauses satisfies them up to cleaning (\<open>cleaned\<close>), which no operation can observe.  The word theorems and the solver theorems are composed: the circuits are verified on the
  model of the solver that is in the code.

  \<^bold>\<open>Bounds and fuel.\<close>  The quicksort runs on as many levels as the array has elements, enough because both parts
  of a partition are shorter; the queue of \<open>propagate\<close> runs on one more step than there are variables, enough because a
  literal enters the trail once; the halving of a multiplexer's width runs on the width.  The graph searches recurse
  with a measure: unmarked nodes plus stack, or marked nodes plus stack; the walks along parents of the disjoint sets, and the search that
  roots the spanning forest, are partial functions shown to return by the ranks and by the nodes without a parent;
  the recursion that writes out a shortest path is one that returns by the distance.  The loops of the solver's search and analysis are
  partial functions on options, shown to return by the number of clauses that can still be learnt, then the number
  of unassigned variables and open assumptions.  Capacities of \<open>Vec\<close>, literals and
  clause abstractions are machine words; counters of the graph and clause references are unbounded; hash values are 32-bit words and the
  number of buckets follows the list of primes of the code up to its last one.

  \<^bold>\<open>What modelling showed.\<close>  Some functions do not do what they mean to: outputs ignored by \<open>Xor_\<close>, assertions lost
  in \<open>AssertXor\<close> on lists, \<open>Negate_\<close> with an output, reads past the shorter word in \<open>AssertEqual\<close>, \<open>remove\<close> of a heap key
  that should rise, undo of weight changes in the graph, the incremental search of undirected graphs, the spanning tree after a change of a
  weight, the list of representatives of the disjoint sets, the polarity of the all-pairs distances and their path from a node to
  itself, the hash of tuples.  Each is stated as a
  theorem beside what holds for the rest.

  \<^bold>\<open>Not modelled.\<close>  Theory propagation, the reduction of the learnt clauses (\<open>reduceDB\<close>; the limit on them counts as never reached), the compaction
  of the clause arena and preprocessing of the solver, and what
  only guides its search (activities, the variable heap, phases: the search takes any order and phases); the bit-vector, graph, finite-state, pseudo-Boolean and at-most-one theories, which rest on theory propagation; the other graph
  algorithms and the search trees they use; parsers, options, timing and the C, Java and Python interfaces, which
  are input and output or forward to the solver.  The Java and Python programs of the repository are outside this
  development.
\<close>

end
